(* ===== verification/Prelude.thy ===== *)
theory Prelude
  imports Main "HOL-Library.Word"
begin

section \<open>Shared vocabulary of the development\<close>

text \<open>
  What every component uses: the names of the C++ integer types and their bounds, the
  outcome of a C++ call that may throw, the error monad's laws, and the arithmetic of
  floor and ceiling division on which the rounding arguments rest.

  Integers. A value of type \<open>int64_t\<close> or \<open>int32_t\<close> is an \<^typ>\<open>int\<close>; where a
  computation could leave the range, the range is a hypothesis or a check that is written
  out. A value of type \<open>uint64_t\<close>, \<open>uint32_t\<close> or \<open>uint128_t\<close> whose wrap-around the code
  exercises is a word of that width.

  Failure. \<^verbatim>\<open>throw\<close>, a failing \<^verbatim>\<open>assert\<close>, \<^verbatim>\<open>abort()\<close> and a null pointer that is followed
  are values of
  \<open>cpp_error\<close>; a call that may fail returns \<open>cpp_error + 'a\<close>.
\<close>

named_theorems int64_bounds \<open>facts that keep a computed amount inside int64_t\<close>

type_synonym u8 = "8 word"
type_synonym u32 = "32 word"
type_synonym u64 = "64 word"
type_synonym u128 = "128 word"

abbreviation INT64_MAX :: int where "INT64_MAX \<equiv> 9223372036854775807"
abbreviation INT32_MAX :: int where "INT32_MAX \<equiv> 2147483647"
abbreviation UINT64_MAX :: int where "UINT64_MAX \<equiv> 18446744073709551615"
abbreviation UINT32_MAX :: int where "UINT32_MAX \<equiv> 4294967295"
abbreviation UINT8_MAX :: int where "UINT8_MAX \<equiv> 255"

text \<open>The amounts the ledger stores: non-negative \<open>int64_t\<close> values.\<close>

definition amount64 :: "int \<Rightarrow> bool" where
  "amount64 x \<longleftrightarrow> 0 \<le> x \<and> x \<le> INT64_MAX"

lemma amount64_0 [simp]: "amount64 0"
  by (simp add: amount64_def)

lemma amount64_max [simp]: "amount64 INT64_MAX"
  by (simp add: amount64_def)

lemma amount64_ge0: "amount64 x \<Longrightarrow> 0 \<le> x"
  by (simp add: amount64_def)

lemma amount64_le: "amount64 x \<Longrightarrow> x \<le> INT64_MAX"
  by (simp add: amount64_def)

lemma amount64_between: "\<lbrakk>0 \<le> x; x \<le> y; amount64 y\<rbrakk> \<Longrightarrow> amount64 x"
  by (simp add: amount64_def)

lemma amount64_min [simp]: "\<lbrakk>amount64 x; amount64 y\<rbrakk> \<Longrightarrow> amount64 (min x y)"
  by (simp add: amount64_def min_def)

subsection \<open>Calls that may fail\<close>

datatype cpp_error =
    AssertionFailed
  | OverflowError
  | RuntimeError string
  | InvalidArgument string
  | Aborted
  | NullDereference
  | NoReturn

text \<open>\<^const>\<open>NoReturn\<close> is no outcome of a run: a model whose recursion or loop is bounded yields it
  where the bound is hit, and the properties show that it never is.\<close>

definition deref :: "'a option \<Rightarrow> cpp_error + 'a" where
  "deref p = (case p of None \<Rightarrow> Inl NullDereference | Some x \<Rightarrow> Inr x)"

lemma deref_simps [simp]:
  "deref None = Inl NullDereference"
  "deref (Some x) = Inr x"
  by (simp_all add: deref_def)

lemma deref_eq_Inr [simp]: "deref p = Inr x \<longleftrightarrow> p = Some x"
  by (cases p) auto

definition bindE :: "'e + 'a \<Rightarrow> ('a \<Rightarrow> 'e + 'b) \<Rightarrow> 'e + 'b" where
  "bindE m f = (case m of Inl e \<Rightarrow> Inl e | Inr x \<Rightarrow> f x)"

definition ensureE :: "bool \<Rightarrow> 'e \<Rightarrow> 'e + unit" where
  "ensureE b e = (if b then Inr () else Inl e)"

lemma bindE_simps [simp]:
  "bindE (Inl e) f = Inl e"
  "bindE (Inr x) f = f x"
  by (simp_all add: bindE_def)

lemma ensureE_simps [simp]:
  "ensureE True e = Inr ()"
  "ensureE False e = Inl e"
  by (simp_all add: ensureE_def)

lemma bindE_eq_Inr [simp]: "bindE m f = Inr y \<longleftrightarrow> (\<exists>x. m = Inr x \<and> f x = Inr y)"
  by (cases m) auto

lemma bindE_eq_Inl: "bindE m f = Inl e \<longleftrightarrow> m = Inl e \<or> (\<exists>x. m = Inr x \<and> f x = Inl e)"
  by (cases m) auto

lemma bindE_InrE:
  assumes "bindE m f = Inr y"
  obtains x where "m = Inr x" "f x = Inr y"
  using assms by auto

lemma bindE_assoc: "bindE (bindE m f) g = bindE m (\<lambda>x. bindE (f x) g)"
  by (cases m) auto

lemma bindE_Inr_right [simp]: "bindE m Inr = m"
  by (cases m) auto

lemma ensureE_eq_Inr [simp]: "ensureE b e = Inr u \<longleftrightarrow> b"
  by (cases b) auto

lemma ensureE_eq_Inl [simp]: "ensureE b e = Inl e' \<longleftrightarrow> \<not> b \<and> e' = e"
  by (cases b) auto

lemma bindE_cong [fundef_cong]:
  "\<lbrakk>m = m'; \<And>x. m' = Inr x \<Longrightarrow> f x = f' x\<rbrakk> \<Longrightarrow> bindE m f = bindE m' f'"
  by (cases m') auto

subsection \<open>Floor and ceiling division\<close>

text \<open>
  \<open>cdiv a b\<close> is the quotient rounded up, computed as the code computes it. The lemmas
  characterise both quotients by the products the rounding arguments compare.
\<close>

definition cdiv :: "int \<Rightarrow> int \<Rightarrow> int" where
  "cdiv a b = (a + b - 1) div b"

lemma div_mult_le: "0 < b \<Longrightarrow> a div b * b \<le> (a :: int)"
  by (metis le_add_same_cancel1 mod_div_mult_eq pos_mod_sign add.commute)

lemma less_div_mult: "0 < b \<Longrightarrow> (a :: int) < (a div b + 1) * b"
  by (metis add.commute distrib_right mod_div_mult_eq mult_1 pos_mod_bound add_less_cancel_left)

lemma le_div_iff:
  assumes "0 < b"
  shows "(q :: int) \<le> a div b \<longleftrightarrow> q * b \<le> a"
proof
  assume "q \<le> a div b"
  then have "q * b \<le> a div b * b"
    using assms by (intro mult_right_mono) auto
  with div_mult_le [OF assms, of a] show "q * b \<le> a" by linarith
next
  assume "q * b \<le> a"
  with less_div_mult [OF assms, of a] have "q * b < (a div b + 1) * b" by linarith
  then show "q \<le> a div b" using assms by (simp add: mult_less_cancel_right)
qed

lemma div_less_iff: "0 < b \<Longrightarrow> a div b < (q :: int) \<longleftrightarrow> a < q * b"
  using le_div_iff [of b q a] by linarith

lemma cdiv_le_iff:
  assumes "0 < b"
  shows "cdiv a b \<le> q \<longleftrightarrow> a \<le> q * b"
proof -
  have "cdiv a b \<le> q \<longleftrightarrow> (a + b - 1) div b < q + 1" by (auto simp: cdiv_def)
  also have "\<dots> \<longleftrightarrow> a + b - 1 < (q + 1) * b" by (rule div_less_iff [OF assms])
  also have "\<dots> \<longleftrightarrow> a \<le> q * b" by (auto simp: distrib_right)
  finally show ?thesis .
qed

lemma less_cdiv_iff: "0 < b \<Longrightarrow> q < cdiv a b \<longleftrightarrow> q * b < a"
  using cdiv_le_iff [of b a q] by linarith

lemma le_cdiv_mult: "0 < b \<Longrightarrow> a \<le> cdiv a b * b"
  using cdiv_le_iff [of b a "cdiv a b"] by simp

lemma cdiv_mult_less: "0 < b \<Longrightarrow> (cdiv a b - 1) * b < a"
  using less_cdiv_iff [of b "cdiv a b - 1" a] by simp

lemma cdiv_nonneg: "\<lbrakk>0 \<le> a; 0 < b\<rbrakk> \<Longrightarrow> 0 \<le> cdiv a b"
  by (simp add: cdiv_def pos_imp_zdiv_nonneg_iff)

lemma div_nonneg: "\<lbrakk>0 \<le> a; 0 < b\<rbrakk> \<Longrightarrow> 0 \<le> a div (b :: int)"
  by (simp add: pos_imp_zdiv_nonneg_iff)

lemma cdiv_mono: "\<lbrakk>a \<le> a'; 0 < b\<rbrakk> \<Longrightarrow> cdiv a b \<le> cdiv a' b"
  using cdiv_le_iff le_cdiv_mult order_trans by blast

lemma div_le_cdiv: "0 < b \<Longrightarrow> a div b \<le> cdiv a b"
  unfolding cdiv_def by (rule zdiv_mono1) auto

lemma cdiv_pos: "\<lbrakk>0 < a; 0 < b\<rbrakk> \<Longrightarrow> 0 < cdiv a b"
  using less_cdiv_iff [of b 0 a] by simp

lemma cdiv_mult_self [simp]: "0 < b \<Longrightarrow> cdiv (a * b) b = a"
  using cdiv_le_iff [of b "a * b" a] less_cdiv_iff [of b "a - 1" "a * b"]
  by (auto simp: left_diff_distrib)

subsection \<open>Conversion to a signed 32-bit integer\<close>

text \<open>An unsigned sum read as a signed \<^verbatim>\<open>int\<close>, as in
  \<^verbatim>\<open>int newEntriesCount = acc.numSubEntries + count\<close>.\<close>

definition to_int32 :: "int \<Rightarrow> int" where
  "to_int32 x = (x + 2 ^ 31) mod 2 ^ 32 - 2 ^ 31"

lemma to_int32_id: "\<lbrakk>- (2 ^ 31) \<le> x; x < 2 ^ 31\<rbrakk> \<Longrightarrow> to_int32 x = x"
  by (simp add: to_int32_def)

lemma to_int32_le: "to_int32 x \<le> INT32_MAX"
  using pos_mod_bound [of "2 ^ 32" "x + 2 ^ 31"] by (simp add: to_int32_def)

end
