(* ===== verification/Numeric.thy ===== *)
theory Numeric
  imports Prelude
begin

section \<open>128-bit division and multiplication (src/src/util/numeric.cpp)\<close>

text \<open>
  The overloads of \<^verbatim>\<open>bigDivide\<close> and \<^verbatim>\<open>bigMultiply\<close>. C++ overloads one name; here each overload
  carries its operand types in its name. Operands of type \<^verbatim>\<open>uint64_t\<close> and \<^verbatim>\<open>uint128_t\<close> are
  words, so the wrap-around of the intermediate product and sum is the code's own; operands
  of type \<^verbatim>\<open>int64_t\<close> are integers that the code asserts to be non-negative before it casts.
  Dividing a \<^verbatim>\<open>uint128_t\<close> by zero throws in \<^verbatim>\<open>uint128_t::divmod\<close>.

  A \<^verbatim>\<open>bool bigDivide(int64_t& result, ...)\<close> that returns false leaves a \<^verbatim>\<open>result\<close> no caller
  reads, so it is an option here; the \<^verbatim>\<open>uint64_t\<close> overload returns both, because its caller
  in the consensus code reads the truncated result.
\<close>

datatype Rounding = ROUND_DOWN | ROUND_UP

definition UINT128_MAX :: u128 where
  "UINT128_MAX = not 0"

definition div_u128 :: "u128 \<Rightarrow> u128 \<Rightarrow> cpp_error + u128" where
  "div_u128 a b =
     (if b = 0 then Inl (RuntimeError ''Error: division or modulus by 0'') else Inr (a div b))"

definition bigDivide_u64 :: "u64 \<Rightarrow> u64 \<Rightarrow> u64 \<Rightarrow> Rounding \<Rightarrow> cpp_error + (bool \<times> u64)" where
  "bigDivide_u64 A B C rounding =
     (let a = ucast A; b = ucast B; c = ucast C in
      bindE (if rounding = ROUND_DOWN then div_u128 (a * b) c else div_u128 (a * b + c - 1) c)
        (\<lambda>x. Inr (x \<le> ucast (- 1 :: u64), ucast x)))"

definition bigDivide_i64 :: "int \<Rightarrow> int \<Rightarrow> int \<Rightarrow> Rounding \<Rightarrow> cpp_error + int option" where
  "bigDivide_i64 A B C rounding =
     bindE (ensureE (A \<ge> 0 \<and> B \<ge> 0 \<and> C > 0) AssertionFailed) (\<lambda>_.
     bindE (bigDivide_u64 (of_int A) (of_int B) (of_int C) rounding) (\<lambda>(res, r2).
       Inr (if res \<and> uint r2 \<le> INT64_MAX then Some (uint r2) else None)))"

definition bigDivide :: "int \<Rightarrow> int \<Rightarrow> int \<Rightarrow> Rounding \<Rightarrow> cpp_error + int" where
  "bigDivide A B C rounding =
     bindE (bigDivide_i64 A B C rounding) (\<lambda>r.
       case r of None \<Rightarrow> Inl OverflowError | Some res \<Rightarrow> Inr res)"

definition bigDivide_u128_u64 :: "u128 \<Rightarrow> u64 \<Rightarrow> Rounding \<Rightarrow> cpp_error + u64 option" where
  "bigDivide_u128_u64 a B rounding =
     bindE (ensureE (B \<noteq> 0) AssertionFailed) (\<lambda>_.
     let b = ucast B in
     if rounding = ROUND_UP \<and> a > UINT128_MAX - (b - 1) then Inr None
     else bindE (if rounding = ROUND_DOWN then div_u128 a b else div_u128 (a + b - 1) b)
            (\<lambda>x. Inr (if x \<le> ucast (- 1 :: u64) then Some (ucast x) else None)))"

definition bigDivide_u128_i64 :: "u128 \<Rightarrow> int \<Rightarrow> Rounding \<Rightarrow> cpp_error + int option" where
  "bigDivide_u128_i64 a B rounding =
     bindE (ensureE (B > 0) AssertionFailed) (\<lambda>_.
     bindE (bigDivide_u128_u64 a (of_int B) rounding) (\<lambda>r.
       Inr (case r of None \<Rightarrow> None
            | Some r2 \<Rightarrow> if uint r2 \<le> INT64_MAX then Some (uint r2) else None)))"

definition bigDivide_u128 :: "u128 \<Rightarrow> int \<Rightarrow> Rounding \<Rightarrow> cpp_error + int" where
  "bigDivide_u128 a B rounding =
     bindE (bigDivide_u128_i64 a B rounding) (\<lambda>r.
       case r of None \<Rightarrow> Inl OverflowError | Some res \<Rightarrow> Inr res)"

definition bigMultiply_u64 :: "u64 \<Rightarrow> u64 \<Rightarrow> u128" where
  "bigMultiply_u64 a b = ucast a * ucast b"

definition bigMultiply :: "int \<Rightarrow> int \<Rightarrow> cpp_error + u128" where
  "bigMultiply a b =
     bindE (ensureE (a \<ge> 0 \<and> b \<ge> 0) AssertionFailed)
       (\<lambda>_. Inr (bigMultiply_u64 (of_int a) (of_int b)))"

text \<open>The specification: the exact quotient of unbounded integers, rounded as asked.\<close>

definition divR :: "Rounding \<Rightarrow> int \<Rightarrow> int \<Rightarrow> int" where
  "divR r a b = (case r of ROUND_DOWN \<Rightarrow> a div b | ROUND_UP \<Rightarrow> cdiv a b)"

lemma divR_simps [simp]:
  "divR ROUND_DOWN a b = a div b"
  "divR ROUND_UP a b = cdiv a b"
  by (simp_all add: divR_def)

lemma divR_nonneg: "\<lbrakk>0 \<le> a; 0 < b\<rbrakk> \<Longrightarrow> 0 \<le> divR r a b"
  by (cases r) (simp_all add: div_nonneg cdiv_nonneg)

subsection \<open>The word computations are exact\<close>

lemma uint_lt: "uint (x :: 'a::len word) < 2 ^ LENGTH('a)"
  using uint_bounded by blast

lemma uint_u64_le: "uint (x :: u64) \<le> UINT64_MAX"
  using uint_lt [of x] by simp

lemma uint_u128_le: "uint (x :: u128) \<le> 2 ^ 128 - 1"
  using uint_lt [of x] by simp

lemma uint_of_int_u64: "\<lbrakk>0 \<le> a; a \<le> UINT64_MAX\<rbrakk> \<Longrightarrow> uint (of_int a :: u64) = a"
  by (simp add: uint_word_of_int take_bit_int_eq_self)

lemma uint_of_int_u128: "\<lbrakk>0 \<le> a; a \<le> 2 ^ 128 - 1\<rbrakk> \<Longrightarrow> uint (of_int a :: u128) = a"
  by (simp add: uint_word_of_int take_bit_int_eq_self)

lemma uint_ucast_128 [simp]: "uint (ucast (x :: u64) :: u128) = uint x"
  by (simp add: unsigned_ucast_eq take_bit_int_eq_self uint_u64_le order_le_less_trans [OF uint_u64_le])

lemma word128_of_int_eqI:
  assumes "uint (x :: u128) = a"
  shows "x = of_int a"
  using assms by auto

lemma mult_u64_bound:
  assumes "0 \<le> a" "a \<le> UINT64_MAX" "0 \<le> b" "b \<le> UINT64_MAX"
  shows "0 \<le> a * b" "a * b \<le> UINT64_MAX * UINT64_MAX"
  using assms mult_mono [of a UINT64_MAX b UINT64_MAX] by simp_all

lemma uint_mult_ucast:
  "uint (ucast (a :: u64) * ucast (b :: u64) :: u128) = uint a * uint b"
proof -
  have b: "0 \<le> uint a * uint b" "uint a * uint b \<le> UINT64_MAX * UINT64_MAX"
    using mult_u64_bound uint_u64_le by simp_all
  then have "uint a * uint b mod 2 ^ 128 = uint a * uint b"
    by (intro mod_pos_pos_trivial) auto
  then show ?thesis by (simp add: uint_word_ariths)
qed

lemma uint_add_minus_1:
  fixes a b :: u128
  assumes "b \<noteq> 0" "uint a + uint b - 1 \<le> 2 ^ 128 - 1"
  shows "uint (a + b - 1) = uint a + uint b - 1"
proof -
  have "0 < uint b" using assms(1) by (metis uint_0_iff order_le_less uint_ge_0)
  then have "0 \<le> uint a + uint b - 1" using uint_ge_0 [of a] by linarith
  with assms(2) have "(uint a + uint b - 1) mod 2 ^ 128 = uint a + uint b - 1"
    by (intro mod_pos_pos_trivial) auto
  then show ?thesis
    by (simp add: uint_word_ariths mod_simps)
qed

lemma u64_nz: "c \<noteq> 0 \<Longrightarrow> 0 < uint (c :: u64)"
  by (metis uint_0_iff order_le_less uint_ge_0)

lemma ucast_u64_nz [simp]: "(ucast (c :: u64) :: u128) = 0 \<longleftrightarrow> c = 0"
  by (metis uint_0_iff uint_ucast_128)

lemma le_ucast_max: "(x :: u128) \<le> ucast (- 1 :: u64) \<longleftrightarrow> uint x \<le> UINT64_MAX"
  by (simp add: word_le_def unsigned_minus_1_eq_mask mask_eq_exp_minus_1)

lemma uint_ucast_64: "uint (x :: u128) \<le> UINT64_MAX \<Longrightarrow> uint (ucast x :: u64) = uint x"
  by (simp add: unsigned_ucast_eq take_bit_int_eq_self)

lemma bigDivide_u64_exact:
  assumes "C \<noteq> 0"
  shows "bigDivide_u64 A B C r =
     Inr (divR r (uint A * uint B) (uint C) \<le> UINT64_MAX,
          of_int (divR r (uint A * uint B) (uint C)))"
proof -
  let ?p = "ucast A * ucast B :: u128" and ?c = "ucast C :: u128"
  have p: "uint ?p = uint A * uint B" by (rule uint_mult_ucast)
  have pb: "uint A * uint B \<le> UINT64_MAX * UINT64_MAX" using mult_u64_bound uint_u64_le by simp
  have s: "uint (?p + ?c - 1) = uint A * uint B + uint C - 1"
    using uint_add_minus_1 [of ?c ?p] assms pb uint_u64_le [of C] p by simp
  have d: "uint (?p div ?c) = divR ROUND_DOWN (uint A * uint B) (uint C)"
    and u: "uint ((?p + ?c - 1) div ?c) = divR ROUND_UP (uint A * uint B) (uint C)"
    using p s by (simp_all add: uint_div cdiv_def)
  show ?thesis
  proof (cases r)
    case ROUND_DOWN
    then show ?thesis
      using assms
      by (simp add: bigDivide_u64_def Let_def div_u128_def le_ucast_max d [symmetric] del: divR_simps)
  next
    case ROUND_UP
    then show ?thesis
      using assms
      by (simp add: bigDivide_u64_def Let_def div_u128_def le_ucast_max u [symmetric] del: divR_simps)
  qed
qed

lemma bigDivide_i64_exact:
  assumes "amount64 A" "amount64 B" "0 < C" "C \<le> INT64_MAX"
  shows "bigDivide_i64 A B C r =
     Inr (if divR r (A * B) C \<le> INT64_MAX then Some (divR r (A * B) C) else None)"
proof -
  have u: "uint (of_int A :: u64) = A" "uint (of_int B :: u64) = B" "uint (of_int C :: u64) = C"
    using assms by (auto intro!: uint_of_int_u64 simp: amount64_def)
  then have "(of_int C :: u64) \<noteq> 0" using assms(3) by (metis less_irrefl unsigned_0)
  note ex = bigDivide_u64_exact [OF this, of "of_int A" "of_int B" r, unfolded u]
  have "0 \<le> divR r (A * B) C"
    using assms by (intro divR_nonneg) (auto simp: amount64_def)
  then have "uint (of_int (divR r (A * B) C) :: u64) = divR r (A * B) C"
    if "divR r (A * B) C \<le> UINT64_MAX" using that by (intro uint_of_int_u64)
  then show ?thesis
    using assms by (auto simp: bigDivide_i64_def ex amount64_def)
qed

lemma bigDivide_i64_assert:
  "A < 0 \<or> B < 0 \<or> C \<le> 0 \<Longrightarrow> bigDivide_i64 A B C r = Inl AssertionFailed"
  by (auto simp: bigDivide_i64_def ensureE_def)

lemma bigDivide_exact:
  assumes "amount64 A" "amount64 B" "0 < C" "C \<le> INT64_MAX"
  shows "bigDivide A B C r =
     (if divR r (A * B) C \<le> INT64_MAX then Inr (divR r (A * B) C) else Inl OverflowError)"
  by (simp add: bigDivide_def bigDivide_i64_exact [OF assms])

lemma uint128_guard:
  assumes "B \<noteq> 0"
  shows "(a :: u128) > UINT128_MAX - (ucast (B :: u64) - 1) \<longleftrightarrow> uint a + uint B - 1 > 2 ^ 128 - 1"
proof -
  have b: "0 < uint B" by (rule u64_nz [OF assms])
  have "uint (ucast B - 1 :: u128) = uint B - 1"
    using uint_add_minus_1 [of "ucast B" 0] assms uint_u64_le [of B] by simp
  moreover have "uint UINT128_MAX = 2 ^ 128 - 1"
    by (simp add: UINT128_MAX_def unsigned_minus_1_eq_mask mask_eq_exp_minus_1)
  moreover from calculation have "uint (UINT128_MAX - (ucast B - 1)) = 2 ^ 128 - 1 - (uint B - 1)"
    using b uint_u64_le [of B] by (subst uint_sub_lem [THEN iffD1]) auto
  ultimately show ?thesis by (auto simp: word_less_def)
qed

lemma cdiv_beyond_u64:
  assumes "0 < b" "b \<le> UINT64_MAX" "a + b - 1 > 2 ^ 128 - 1"
  shows "cdiv a b > UINT64_MAX"
proof -
  have "UINT64_MAX * b \<le> UINT64_MAX * UINT64_MAX" using assms(2) by simp
  then have "UINT64_MAX * b < a" using assms by simp
  then show ?thesis using less_cdiv_iff [OF assms(1)] by blast
qed

lemma bigDivide_u128_u64_exact:
  assumes "B \<noteq> 0"
  shows "bigDivide_u128_u64 a B r =
     Inr (if divR r (uint a) (uint B) \<le> UINT64_MAX
          then Some (of_int (divR r (uint a) (uint B))) else None)"
proof (cases r)
  case ROUND_DOWN
  have "uint (a div ucast B) = divR ROUND_DOWN (uint a) (uint B)" by (simp add: uint_div)
  from this [symmetric] show ?thesis
    using assms ROUND_DOWN
    by (simp add: bigDivide_u128_u64_def Let_def div_u128_def le_ucast_max del: divR_simps)
next
  case ROUND_UP
  have b: "0 < uint B" by (rule u64_nz [OF assms])
  show ?thesis
  proof (cases "uint a + uint B - 1 > 2 ^ 128 - 1")
    case True
    then show ?thesis
      using assms ROUND_UP cdiv_beyond_u64 [OF b uint_u64_le True]
      by (simp add: bigDivide_u128_u64_def Let_def uint128_guard [OF assms] del: One_nat_def)
  next
    case False
    then have "uint (a + ucast B - 1) = uint a + uint B - 1"
      using uint_add_minus_1 [of "ucast B" a] assms by simp
    then have "uint ((a + ucast B - 1) div ucast B) = divR ROUND_UP (uint a) (uint B)"
      by (simp add: uint_div cdiv_def)
    from this [symmetric] show ?thesis
      using assms ROUND_UP False
      by (simp add: bigDivide_u128_u64_def Let_def div_u128_def le_ucast_max
          uint128_guard [OF assms] del: divR_simps)
  qed
qed

lemma bigDivide_u128_exact:
  assumes "0 < B" "B \<le> INT64_MAX"
  shows "bigDivide_u128 a B r =
     (if divR r (uint a) B \<le> INT64_MAX then Inr (divR r (uint a) B) else Inl OverflowError)"
proof -
  have u: "uint (of_int B :: u64) = B" using assms by (intro uint_of_int_u64) auto
  then have "(of_int B :: u64) \<noteq> 0" using assms(1) by (metis less_irrefl unsigned_0)
  note ex = bigDivide_u128_u64_exact [OF this, of a r, unfolded u]
  have "0 \<le> divR r (uint a) B" using assms by (intro divR_nonneg) auto
  then have "uint (of_int (divR r (uint a) B) :: u64) = divR r (uint a) B"
    if "divR r (uint a) B \<le> UINT64_MAX" using that by (intro uint_of_int_u64)
  then show ?thesis
    using assms by (auto simp: bigDivide_u128_def bigDivide_u128_i64_def ex)
qed

lemma bigMultiply_exact:
  assumes "0 \<le> a" "a \<le> INT64_MAX" "0 \<le> b" "b \<le> INT64_MAX"
  shows "bigMultiply a b = Inr (of_int (a * b))" "uint (of_int (a * b) :: u128) = a * b"
proof -
  have "uint (bigMultiply_u64 (of_int a) (of_int b)) = a * b"
    using assms by (simp add: bigMultiply_u64_def uint_mult_ucast uint_of_int_u64)
  from word128_of_int_eqI [OF this] this
  show "bigMultiply a b = Inr (of_int (a * b))" "uint (of_int (a * b) :: u128) = a * b"
    using assms by (simp_all add: bigMultiply_def)
qed

text \<open>On the non-negative \<^verbatim>\<open>int64_t\<close> operands its assertion demands, \<^verbatim>\<open>bigDivide\<close> computes
  the exact quotient of the unbounded product, rounded as asked, and throws
  \<^verbatim>\<open>std::overflow_error\<close> exactly when that quotient does not fit \<^verbatim>\<open>int64_t\<close>: the 128-bit
  intermediate product and the rounding increment never wrap.\<close>

theorem bigDivide_correct:
  assumes "0 \<le> A" "A \<le> INT64_MAX" "0 \<le> B" "B \<le> INT64_MAX" "0 < C" "C \<le> INT64_MAX"
  shows "bigDivide A B C ROUND_DOWN =
           (if A * B div C \<le> INT64_MAX then Inr (A * B div C) else Inl OverflowError)
       \<and> bigDivide A B C ROUND_UP =
           (if cdiv (A * B) C \<le> INT64_MAX then Inr (cdiv (A * B) C) else Inl OverflowError)"
  using bigDivide_exact [of A B C] assms by (simp_all add: amount64_def)

theorem bigDivide_correct_witness:
  "bigDivide INT64_MAX INT64_MAX INT64_MAX ROUND_DOWN = Inr INT64_MAX
   \<and> bigDivide INT64_MAX 3 2 ROUND_UP = Inl OverflowError"
  using bigDivide_correct [of INT64_MAX INT64_MAX INT64_MAX] bigDivide_correct [of INT64_MAX 3 2]
  by (simp add: cdiv_def)

text \<open>The overload that divides an arbitrary \<^verbatim>\<open>uint128_t\<close> is exact as well: the special
  case for \<^verbatim>\<open>a + b - 1\<close> beyond \<^verbatim>\<open>UINT128_MAX\<close> rejects only quotients that do not fit.\<close>

theorem bigDivide_u128_correct:
  assumes "0 < B" "B \<le> INT64_MAX"
  shows "bigDivide_u128 a B ROUND_DOWN =
           (if uint a div B \<le> INT64_MAX then Inr (uint a div B) else Inl OverflowError)
       \<and> bigDivide_u128 a B ROUND_UP =
           (if cdiv (uint a) B \<le> INT64_MAX then Inr (cdiv (uint a) B) else Inl OverflowError)"
  using bigDivide_u128_exact [of B a ROUND_DOWN] bigDivide_u128_exact [of B a ROUND_UP] assms
  by simp

theorem bigDivide_u128_correct_witness:
  "bigDivide_u128 (- 1) 2 ROUND_UP = Inl OverflowError \<and> bigDivide_u128 7 2 ROUND_UP = Inr 4"
  using bigDivide_u128_correct [of 2 "- 1"] bigDivide_u128_correct [of 2 7]
  by (simp add: cdiv_def unsigned_minus_1_eq_mask mask_eq_exp_minus_1)

end
