(* ===== verification/Ledger_Types.thy ===== *)
theory Ledger_Types
  imports Numeric
begin

section \<open>Ledger data (src/src/xdr/Stellar-ledger-entries.x, src/src/util/types.cpp)\<close>

text \<open>
  The XDR structures of the ledger as records and datatypes, and the functions of
  \<^verbatim>\<open>util/types.cpp\<close> on them. A 32-byte opaque (a public key, a hash) is a 256-bit word, whose
  unsigned order is the bytes' lexicographic order. A union's version discriminant that selects
  an optional extension is an option: \<^verbatim>\<open>ext.v() == 0\<close> is \<^const>\<open>None\<close>. Fields carry their
  struct's initials because record fields are global constants.
\<close>

unbundle bit_operations_syntax

type_synonym uint256 = "256 word"
type_synonym AccountID = uint256

datatype Asset =
    ASSET_TYPE_NATIVE
  | ASSET_TYPE_CREDIT_ALPHANUM4 "u8 list" AccountID
  | ASSET_TYPE_CREDIT_ALPHANUM12 "u8 list" AccountID

record Price =
  price_n :: int
  price_d :: int

record Liabilities =
  liab_buying :: int
  liab_selling :: int

datatype SignerKey =
    SIGNER_KEY_TYPE_ED25519 uint256
  | SIGNER_KEY_TYPE_PRE_AUTH_TX uint256
  | SIGNER_KEY_TYPE_HASH_X uint256

text \<open>XDR's \<^verbatim>\<open>operator<\<close> on a union: by discriminant, then by value.\<close>

definition SignerKey_rank :: "SignerKey \<Rightarrow> nat \<times> uint256" where
  "SignerKey_rank k = (case k of SIGNER_KEY_TYPE_ED25519 w \<Rightarrow> (0, w)
     | SIGNER_KEY_TYPE_PRE_AUTH_TX w \<Rightarrow> (1, w) | SIGNER_KEY_TYPE_HASH_X w \<Rightarrow> (2, w))"

lemma SignerKey_rank_inj:
  "\<lbrakk>fst (SignerKey_rank a) = fst (SignerKey_rank b); snd (SignerKey_rank a) = snd (SignerKey_rank b)\<rbrakk>
     \<Longrightarrow> a = b"
  by (cases a; cases b) (auto simp: SignerKey_rank_def)

instantiation SignerKey :: linorder
begin

definition less_eq_SignerKey :: "SignerKey \<Rightarrow> SignerKey \<Rightarrow> bool" where
  "a \<le> b \<longleftrightarrow> fst (SignerKey_rank a) < fst (SignerKey_rank b)
     \<or> fst (SignerKey_rank a) = fst (SignerKey_rank b) \<and> snd (SignerKey_rank a) \<le> snd (SignerKey_rank b)"

definition less_SignerKey :: "SignerKey \<Rightarrow> SignerKey \<Rightarrow> bool" where
  "a < b \<longleftrightarrow> fst (SignerKey_rank a) < fst (SignerKey_rank b)
     \<or> fst (SignerKey_rank a) = fst (SignerKey_rank b) \<and> snd (SignerKey_rank a) < snd (SignerKey_rank b)"

instance
  by intro_classes
    (auto simp: less_eq_SignerKey_def less_SignerKey_def intro: SignerKey_rank_inj)

end

record Signer =
  sg_key :: SignerKey
  sg_weight :: int

definition AUTH_REQUIRED_FLAG :: u32 where "AUTH_REQUIRED_FLAG = 1"
definition AUTH_REVOCABLE_FLAG :: u32 where "AUTH_REVOCABLE_FLAG = 2"
definition AUTH_IMMUTABLE_FLAG :: u32 where "AUTH_IMMUTABLE_FLAG = 4"
definition MASK_ACCOUNT_FLAGS :: u32 where "MASK_ACCOUNT_FLAGS = 7"
definition AUTHORIZED_FLAG :: u32 where "AUTHORIZED_FLAG = 1"
definition PASSIVE_FLAG :: u32 where "PASSIVE_FLAG = 1"

lemmas flag_defs = AUTH_REQUIRED_FLAG_def AUTH_REVOCABLE_FLAG_def AUTH_IMMUTABLE_FLAG_def
  MASK_ACCOUNT_FLAGS_def AUTHORIZED_FLAG_def PASSIVE_FLAG_def

record Thresholds =
  th_master :: int
  th_low :: int
  th_med :: int
  th_high :: int

record AccountEntry =
  ac_accountID :: AccountID
  ac_balance :: int
  ac_seqNum :: int
  ac_accountMarker :: string
  ac_numSubEntries :: int
  ac_inflationDest :: "AccountID option"
  ac_flags :: u32
  ac_homeDomain :: string
  ac_thresholds :: Thresholds
  ac_signers :: "Signer list"
  ac_ext :: "Liabilities option"

record TrustLineEntry =
  tl_accountID :: AccountID
  tl_asset :: Asset
  tl_balance :: int
  tl_limit :: int
  tl_flags :: u32
  tl_ext :: "Liabilities option"

record OfferEntry =
  of_sellerID :: AccountID
  of_offerID :: u64
  of_selling :: Asset
  of_buying :: Asset
  of_amount :: int
  of_price :: Price
  of_flags :: u32

record DataEntry =
  de_accountID :: AccountID
  de_dataName :: string
  de_dataValue :: "u8 list"

datatype LedgerEntryData =
    ACCOUNT AccountEntry
  | TRUSTLINE TrustLineEntry
  | OFFER OfferEntry
  | DATA DataEntry

record LedgerEntry =
  le_lastModifiedLedgerSeq :: int
  le_data :: LedgerEntryData

datatype LedgerKey =
    AccountKey AccountID
  | TrustLineKey AccountID Asset
  | OfferKey AccountID u64
  | DataKey AccountID string

definition LedgerEntryDataKey :: "LedgerEntryData \<Rightarrow> LedgerKey" where
  "LedgerEntryDataKey d = (case d of
       ACCOUNT a \<Rightarrow> AccountKey (ac_accountID a)
     | TRUSTLINE t \<Rightarrow> TrustLineKey (tl_accountID t) (tl_asset t)
     | OFFER f \<Rightarrow> OfferKey (of_sellerID f) (of_offerID f)
     | DATA e \<Rightarrow> DataKey (de_accountID e) (de_dataName e))"

definition LedgerEntryKey :: "LedgerEntry \<Rightarrow> LedgerKey" where
  "LedgerEntryKey e = LedgerEntryDataKey (le_data e)"

lemma LedgerEntryDataKey_simps [simp]:
  "LedgerEntryDataKey (ACCOUNT a) = AccountKey (ac_accountID a)"
  "LedgerEntryDataKey (TRUSTLINE t) = TrustLineKey (tl_accountID t) (tl_asset t)"
  "LedgerEntryDataKey (OFFER f) = OfferKey (of_sellerID f) (of_offerID f)"
  "LedgerEntryDataKey (DATA e) = DataKey (de_accountID e) (de_dataName e)"
  by (simp_all add: LedgerEntryDataKey_def)

subsection \<open>Strings and assets\<close>

text \<open>\<^verbatim>\<open>std::isalnum\<close> and \<^verbatim>\<open>std::iscntrl\<close> in the C locale.\<close>

definition isalnum_C :: "nat \<Rightarrow> bool" where
  "isalnum_C c \<longleftrightarrow> 48 \<le> c \<and> c \<le> 57 \<or> 65 \<le> c \<and> c \<le> 90 \<or> 97 \<le> c \<and> c \<le> 122"

definition iscntrl_C :: "nat \<Rightarrow> bool" where
  "iscntrl_C c \<longleftrightarrow> c \<le> 31 \<or> c = 127"

text \<open>A \<^verbatim>\<open>char\<close> is signed: \<^verbatim>\<open>c < 0\<close> holds of the codes from 128 on.\<close>

definition isString32Valid :: "string \<Rightarrow> bool" where
  "isString32Valid str = list_all (\<lambda>c. \<not> (of_char c \<ge> (128 :: nat) \<or> iscntrl_C (of_char c))) str"

text \<open>The scan of an asset code: \<^verbatim>\<open>zeros\<close> and the count of characters seen are the loop state,
  \<^const>\<open>None\<close> is the early \<^verbatim>\<open>return false\<close>.\<close>

fun scanAssetCode :: "bool \<Rightarrow> nat \<Rightarrow> u8 list \<Rightarrow> nat option" where
  "scanAssetCode zeros charcount [] = Some charcount"
| "scanAssetCode zeros charcount (b # bs) =
     (if b = 0 then scanAssetCode True charcount bs
      else if zeros then None
      else if b > 0x7F \<or> \<not> isalnum_C (unat b) then None
      else scanAssetCode zeros (Suc charcount) bs)"

definition isAssetValid :: "Asset \<Rightarrow> bool" where
  "isAssetValid cur = (case cur of
       ASSET_TYPE_NATIVE \<Rightarrow> True
     | ASSET_TYPE_CREDIT_ALPHANUM4 code _ \<Rightarrow>
         (case scanAssetCode False 0 code of None \<Rightarrow> False | Some k \<Rightarrow> k > 0)
     | ASSET_TYPE_CREDIT_ALPHANUM12 code _ \<Rightarrow>
         (case scanAssetCode False 0 code of None \<Rightarrow> False | Some k \<Rightarrow> k > 4))"

text \<open>\<^verbatim>\<open>getIssuer\<close> reads \<^verbatim>\<open>alphaNum12()\<close> of a native asset, which the XDR union refuses by
  throwing; every caller excludes the native asset first.\<close>

definition getIssuer :: "Asset \<Rightarrow> cpp_error + AccountID" where
  "getIssuer asset = (case asset of
       ASSET_TYPE_NATIVE \<Rightarrow> Inl (RuntimeError ''xdr_wrong_union'')
     | ASSET_TYPE_CREDIT_ALPHANUM4 _ i \<Rightarrow> Inr i
     | ASSET_TYPE_CREDIT_ALPHANUM12 _ i \<Rightarrow> Inr i)"

definition isIssuer :: "AccountID \<Rightarrow> Asset \<Rightarrow> bool" where
  "isIssuer a asset = (case asset of
       ASSET_TYPE_NATIVE \<Rightarrow> False
     | ASSET_TYPE_CREDIT_ALPHANUM4 _ i \<Rightarrow> a = i
     | ASSET_TYPE_CREDIT_ALPHANUM12 _ i \<Rightarrow> a = i)"

definition compareAsset :: "Asset \<Rightarrow> Asset \<Rightarrow> bool" where
  "compareAsset first second = (case (first, second) of
       (ASSET_TYPE_NATIVE, ASSET_TYPE_NATIVE) \<Rightarrow> True
     | (ASSET_TYPE_CREDIT_ALPHANUM4 c1 i1, ASSET_TYPE_CREDIT_ALPHANUM4 c2 i2) \<Rightarrow> i1 = i2 \<and> c1 = c2
     | (ASSET_TYPE_CREDIT_ALPHANUM12 c1 i1, ASSET_TYPE_CREDIT_ALPHANUM12 c2 i2) \<Rightarrow> i1 = i2 \<and> c1 = c2
     | _ \<Rightarrow> False)"

fun assetCodeToStr :: "u8 list \<Rightarrow> u8 list" where
  "assetCodeToStr [] = []"
| "assetCodeToStr (c # cs) = (if c = 0 then [] else c # assetCodeToStr cs)"

definition strToAssetCode :: "nat \<Rightarrow> u8 list \<Rightarrow> u8 list" where
  "strToAssetCode N str = (let k = min N (length str) in take k str @ replicate (N - k) 0)"

lemma compareAsset_eq [simp]: "compareAsset a b \<longleftrightarrow> a = b"
  by (auto simp: compareAsset_def split: Asset.splits)

lemma scanAssetCode_zeros:
  "scanAssetCode True k bs = Some m \<Longrightarrow> m = k \<and> bs = replicate (length bs) 0"
  by (induction bs) (auto split: if_splits)

lemma scanAssetCode_shape:
  "scanAssetCode False k bs = Some m \<Longrightarrow>
     k \<le> m \<and> m - k \<le> length bs \<and> assetCodeToStr bs = take (m - k) bs
     \<and> drop (m - k) bs = replicate (length bs - (m - k)) 0
     \<and> (\<forall>b \<in> set (take (m - k) bs). isalnum_C (unat b))"
proof (induction bs arbitrary: k)
  case (Cons b bs)
  show ?case
  proof (cases "b = 0")
    case True
    then show ?thesis using Cons.prems scanAssetCode_zeros [of k bs m] by auto
  next
    case False
    with Cons.prems have "scanAssetCode False (Suc k) bs = Some m" "isalnum_C (unat b)"
      by (auto split: if_splits)
    with Cons.IH [of "Suc k"] have ih: "Suc k \<le> m" "m - Suc k \<le> length bs"
      "assetCodeToStr bs = take (m - Suc k) bs"
      "drop (m - Suc k) bs = replicate (length bs - (m - Suc k)) 0"
      "\<forall>b \<in> set (take (m - Suc k) bs). isalnum_C (unat b)" by auto
    from ih(1) obtain j where "m = Suc (k + j)" by (metis add_Suc le_iff_add)
    then show ?thesis using ih False \<open>isalnum_C (unat b)\<close> by simp
  qed
qed simp

lemma strToAssetCode_assetCodeToStr:
  assumes "scanAssetCode False 0 code = Some m"
  shows "strToAssetCode (length code) (assetCodeToStr code) = code"
  using scanAssetCode_shape [OF assms]
  by (auto simp: strToAssetCode_def Let_def min_def) (metis append_take_drop_id)

text \<open>Printing a valid asset code and parsing the string back gives the code: the code's
  zeros are trailing, so nothing after the first zero is lost.\<close>

theorem assetCode_roundtrip:
  assumes "isAssetValid (ASSET_TYPE_CREDIT_ALPHANUM4 code i)
         \<or> isAssetValid (ASSET_TYPE_CREDIT_ALPHANUM12 code i)"
  shows "strToAssetCode (length code) (assetCodeToStr code) = code"
  using assms strToAssetCode_assetCodeToStr by (auto simp: isAssetValid_def split: option.splits)

theorem assetCode_roundtrip_witness:
  "assetCodeToStr [85, 83, 68, 0] = [85, 83, 68]
   \<and> strToAssetCode (length [85, 83, 68, 0 :: u8]) (assetCodeToStr [85, 83, 68, 0]) = [85, 83, 68, 0]"
  using assetCode_roundtrip [of "[85, 83, 68, 0]" 7] by (simp add: isAssetValid_def isalnum_C_def)

subsection \<open>Balances and prices\<close>

text \<open>\<^verbatim>\<open>addBalance(int64_t& balance, ...)\<close>: the updated balance, or \<^const>\<open>None\<close> for a returned
  false, which leaves the reference as it was.\<close>

definition addBalance :: "int \<Rightarrow> int \<Rightarrow> int \<Rightarrow> cpp_error + int option" where
  "addBalance balance delta maxBalance =
     bindE (ensureE (balance \<ge> 0) AssertionFailed) (\<lambda>_.
     bindE (ensureE (maxBalance \<ge> 0) AssertionFailed) (\<lambda>_.
     Inr (if delta = 0 then Some balance
          else if delta < - balance then None
          else if maxBalance - balance < delta then None
          else Some (balance + delta))))"

lemma addBalance_eq:
  "\<lbrakk>0 \<le> b; 0 \<le> m\<rbrakk> \<Longrightarrow> addBalance b delta m =
     Inr (if delta = 0 \<or> (0 \<le> b + delta \<and> b + delta \<le> m) then Some (b + delta) else None)"
  by (auto simp: addBalance_def)

lemma addBalance_Some:
  "addBalance b delta m = Inr (Some b') \<longleftrightarrow>
     0 \<le> b \<and> 0 \<le> m \<and> b' = b + delta \<and> (delta = 0 \<or> (0 \<le> b' \<and> b' \<le> m))"
  by (auto simp: addBalance_def bindE_def ensureE_def split: if_splits)

lemma addBalance_None:
  "addBalance b delta m = Inr None \<longleftrightarrow>
     0 \<le> b \<and> 0 \<le> m \<and> delta \<noteq> 0 \<and> (b + delta < 0 \<or> b + delta > m)"
  by (auto simp: addBalance_def bindE_def ensureE_def split: if_splits)

definition price_u128 :: "int \<Rightarrow> u128" where
  "price_u128 x = ucast (of_int x :: u64)"

definition Price_ge :: "Price \<Rightarrow> Price \<Rightarrow> bool" where
  "Price_ge a b \<longleftrightarrow> price_u128 (price_n a) * price_u128 (price_d b)
                  \<ge> price_u128 (price_d a) * price_u128 (price_n b)"

definition Price_gt :: "Price \<Rightarrow> Price \<Rightarrow> bool" where
  "Price_gt a b \<longleftrightarrow> price_u128 (price_n a) * price_u128 (price_d b)
                  > price_u128 (price_d a) * price_u128 (price_n b)"

definition Price_eq :: "Price \<Rightarrow> Price \<Rightarrow> bool" where
  "Price_eq a b \<longleftrightarrow> price_n a = price_n b \<and> price_d a = price_d b"

text \<open>A price an operation accepts: both parts are positive \<^verbatim>\<open>int32_t\<close>.\<close>

definition price_ok :: "Price \<Rightarrow> bool" where
  "price_ok p \<longleftrightarrow> 0 < price_n p \<and> price_n p \<le> INT32_MAX \<and> 0 < price_d p \<and> price_d p \<le> INT32_MAX"

lemma price_okD:
  assumes "price_ok p"
  shows "0 < price_n p" "price_n p \<le> INT32_MAX" "0 < price_d p" "price_d p \<le> INT32_MAX"
  using assms by (auto simp: price_ok_def)

lemma price_mult_exact:
  "\<lbrakk>0 < x; x \<le> INT32_MAX; 0 < y; y \<le> INT32_MAX\<rbrakk> \<Longrightarrow> uint (price_u128 x * price_u128 y) = x * y"
  by (simp add: price_u128_def uint_mult_ucast uint_of_int_u64)

lemma Price_gt_exact:
  "\<lbrakk>price_ok a; price_ok b\<rbrakk> \<Longrightarrow>
     Price_gt a b \<longleftrightarrow> price_n a * price_d b > price_d a * price_n b"
  by (simp add: Price_gt_def word_less_def price_mult_exact price_ok_def)

lemma Price_ge_exact:
  "\<lbrakk>price_ok a; price_ok b\<rbrakk> \<Longrightarrow>
     Price_ge a b \<longleftrightarrow> price_n a * price_d b \<ge> price_d a * price_n b"
  by (simp add: Price_ge_def word_le_def price_mult_exact price_ok_def)

end
