(* ===== verification/Exchange.thy ===== *)
theory Exchange
  imports Ledger_Types
begin

section \<open>The exchange arithmetic (src/src/transactions/OfferExchange.cpp)\<close>

text \<open>
  How much wheat and sheep change hands when two offers cross: \<^verbatim>\<open>exchangeV2\<close> and
  \<^verbatim>\<open>exchangeV3\<close> (protocols before 10), \<^verbatim>\<open>exchangeV10\<close> with its two stages, and
  \<^verbatim>\<open>adjustOffer\<close>. Every \<^verbatim>\<open>throw\<close> and \<^verbatim>\<open>assert\<close> of the code is a branch of the model; the
  lemmas show which of them are unreachable. The long comments of the source argue on
  rational numbers that the direction and the magnitude of rounding are right and that
  \<^verbatim>\<open>adjustOffer\<close> is idempotent; here those arguments are theorems about the code.
\<close>

datatype ExchangeResultType = NORMAL | REDUCED_TO_ZERO | BOGUS

record ExchangeResult =
  er_numWheatReceived :: int
  er_numSheepSend :: int
  er_reduced :: bool

definition ExchangeResult_type :: "ExchangeResult \<Rightarrow> ExchangeResultType" where
  "ExchangeResult_type r =
     (if er_numWheatReceived r \<noteq> 0 \<and> er_numSheepSend r \<noteq> 0 then NORMAL
      else if er_reduced r then REDUCED_TO_ZERO else BOGUS)"

record ExchangeResultV10 =
  x10_numWheatReceived :: int
  x10_numSheepSend :: int
  x10_wheatStays :: bool

subsection \<open>Protocol versions 1 to 9\<close>

definition exchangeV2 :: "int \<Rightarrow> Price \<Rightarrow> int \<Rightarrow> int \<Rightarrow> cpp_error + ExchangeResult" where
  "exchangeV2 wheatReceived price maxWheatReceive maxSheepSend =
     (let reduced = wheatReceived > maxWheatReceive;
          wheatReceived = min wheatReceived maxWheatReceive in
      bindE (bigDivide_i64 wheatReceived (price_n price) (price_d price) ROUND_DOWN) (\<lambda>q.
      let numSheepSend = (case q of None \<Rightarrow> INT64_MAX | Some v \<Rightarrow> v);
          reduced = reduced \<or> numSheepSend > maxSheepSend;
          numSheepSend = min numSheepSend maxSheepSend in
      bindE (bigDivide numSheepSend (price_d price) (price_n price) ROUND_DOWN) (\<lambda>numWheatReceived.
      Inr \<lparr>er_numWheatReceived = numWheatReceived, er_numSheepSend = numSheepSend,
           er_reduced = reduced\<rparr>)))"

definition exchangeV3 :: "int \<Rightarrow> Price \<Rightarrow> int \<Rightarrow> int \<Rightarrow> cpp_error + ExchangeResult" where
  "exchangeV3 wheatReceived price maxWheatReceive maxSheepSend =
     (let reduced = wheatReceived > maxWheatReceive;
          numWheatReceived = min wheatReceived maxWheatReceive in
      bindE (bigDivide_i64 numWheatReceived (price_n price) (price_d price) ROUND_UP) (\<lambda>q.
      let reduced = (reduced \<or> q = None);
          numSheepSend = (case q of None \<Rightarrow> INT64_MAX | Some v \<Rightarrow> v);
          reduced = (reduced \<or> numSheepSend > maxSheepSend);
          numSheepSend = min numSheepSend maxSheepSend in
      bindE (bigDivide_i64 numSheepSend (price_d price) (price_n price) ROUND_DOWN) (\<lambda>q2.
      let newWheatReceived = (case q2 of None \<Rightarrow> INT64_MAX | Some v \<Rightarrow> v) in
      Inr \<lparr>er_numWheatReceived = min numWheatReceived newWheatReceived,
           er_numSheepSend = numSheepSend, er_reduced = reduced\<rparr>)))"

subsection \<open>Protocol version 10\<close>

definition checkPriceErrorBound :: "Price \<Rightarrow> int \<Rightarrow> int \<Rightarrow> bool \<Rightarrow> cpp_error + bool" where
  "checkPriceErrorBound price wheatReceive sheepSend canFavorWheat =
     (let errN = 100 * price_n price; errD = 100 * price_d price in
      bindE (bigMultiply errN wheatReceive) (\<lambda>lhs.
      bindE (bigMultiply errD sheepSend) (\<lambda>rhs.
      if canFavorWheat \<and> rhs > lhs then Inr True
      else
        let absDiff = (if lhs > rhs then lhs - rhs else rhs - lhs) in
        bindE (bigMultiply (price_n price) wheatReceive) (\<lambda>cap.
        Inr (absDiff \<le> cap)))))"

definition calculateOfferValue :: "int \<Rightarrow> int \<Rightarrow> int \<Rightarrow> int \<Rightarrow> cpp_error + u128" where
  "calculateOfferValue priceN priceD maxSend maxReceive =
     bindE (bigMultiply maxSend priceN) (\<lambda>sendValue.
     bindE (bigMultiply maxReceive priceD) (\<lambda>receiveValue.
     Inr (min sendValue receiveValue)))"

text \<open>The branch of \<^verbatim>\<open>exchangeV10WithoutPriceErrorThresholds\<close> that sets \<^verbatim>\<open>wheatReceive\<close> and
  \<^verbatim>\<open>sheepSend\<close>, then the function itself.\<close>

definition exchangeV10Amounts ::
    "Price \<Rightarrow> u128 \<Rightarrow> u128 \<Rightarrow> bool \<Rightarrow> cpp_error + int \<times> int" where
  "exchangeV10Amounts price wheatValue sheepValue isPathPayment =
     (let n = price_n price; d = price_d price in
      if wheatValue > sheepValue then
        if n > d \<or> isPathPayment then
          bindE (bigDivide_u128 sheepValue n ROUND_DOWN) (\<lambda>wheatReceive.
          bindE (bigDivide wheatReceive n d ROUND_UP) (\<lambda>sheepSend.
          Inr (wheatReceive, sheepSend)))
        else
          bindE (bigDivide_u128 sheepValue d ROUND_DOWN) (\<lambda>sheepSend.
          bindE (bigDivide sheepSend d n ROUND_DOWN) (\<lambda>wheatReceive.
          Inr (wheatReceive, sheepSend)))
      else
        if n > d then
          bindE (bigDivide_u128 wheatValue n ROUND_DOWN) (\<lambda>wheatReceive.
          bindE (bigDivide wheatReceive n d ROUND_DOWN) (\<lambda>sheepSend.
          Inr (wheatReceive, sheepSend)))
        else
          bindE (bigDivide_u128 wheatValue d ROUND_DOWN) (\<lambda>sheepSend.
          bindE (bigDivide sheepSend d n ROUND_UP) (\<lambda>wheatReceive.
          Inr (wheatReceive, sheepSend))))"

definition exchangeV10WithoutPriceErrorThresholds ::
    "Price \<Rightarrow> int \<Rightarrow> int \<Rightarrow> int \<Rightarrow> int \<Rightarrow> bool \<Rightarrow> cpp_error + ExchangeResultV10" where
  "exchangeV10WithoutPriceErrorThresholds price maxWheatSend maxWheatReceive maxSheepSend
       maxSheepReceive isPathPayment =
     bindE (calculateOfferValue (price_n price) (price_d price) maxWheatSend maxSheepReceive)
       (\<lambda>wheatValue.
     bindE (calculateOfferValue (price_d price) (price_n price) maxSheepSend maxWheatReceive)
       (\<lambda>sheepValue.
     bindE (exchangeV10Amounts price wheatValue sheepValue isPathPayment)
       (\<lambda>(wheatReceive, sheepSend).
     if wheatReceive < 0 \<or> wheatReceive > min maxWheatReceive maxWheatSend
     then Inl (RuntimeError ''wheatReceive out of bounds'')
     else if sheepSend < 0 \<or> sheepSend > min maxSheepReceive maxSheepSend
     then Inl (RuntimeError ''sheepSend out of bounds'')
     else Inr \<lparr>x10_numWheatReceived = wheatReceive, x10_numSheepSend = sheepSend,
               x10_wheatStays = (wheatValue > sheepValue)\<rparr>)))"

definition applyPriceErrorThresholds ::
    "Price \<Rightarrow> int \<Rightarrow> int \<Rightarrow> bool \<Rightarrow> bool \<Rightarrow> cpp_error + ExchangeResultV10" where
  "applyPriceErrorThresholds price wheatReceive sheepSend wheatStays isPathPayment =
     bindE
       (if wheatReceive > 0 \<and> sheepSend > 0 then
          bindE (bigMultiply wheatReceive (price_n price)) (\<lambda>wheatReceiveValue.
          bindE (bigMultiply sheepSend (price_d price)) (\<lambda>sheepSendValue.
          if wheatStays \<and> sheepSendValue < wheatReceiveValue
          then Inl (RuntimeError ''favored sheep when wheat stays'')
          else if \<not> wheatStays \<and> sheepSendValue > wheatReceiveValue
          then Inl (RuntimeError ''favored wheat when sheep stays'')
          else if \<not> isPathPayment then
            bindE (checkPriceErrorBound price wheatReceive sheepSend False) (\<lambda>ok.
            Inr (if ok then (wheatReceive, sheepSend) else (0, 0)))
          else
            bindE (checkPriceErrorBound price wheatReceive sheepSend True) (\<lambda>ok.
            if ok then Inr (wheatReceive, sheepSend)
            else Inl (RuntimeError ''exceeded price error bound''))))
        else Inr (0, 0))
       (\<lambda>(wheatReceive, sheepSend).
     Inr \<lparr>x10_numWheatReceived = wheatReceive, x10_numSheepSend = sheepSend,
          x10_wheatStays = wheatStays\<rparr>)"

definition exchangeV10 ::
    "Price \<Rightarrow> int \<Rightarrow> int \<Rightarrow> int \<Rightarrow> int \<Rightarrow> bool \<Rightarrow> cpp_error + ExchangeResultV10" where
  "exchangeV10 price maxWheatSend maxWheatReceive maxSheepSend maxSheepReceive isPathPayment =
     bindE (exchangeV10WithoutPriceErrorThresholds price maxWheatSend maxWheatReceive
              maxSheepSend maxSheepReceive isPathPayment) (\<lambda>beforeThresholds.
     applyPriceErrorThresholds price (x10_numWheatReceived beforeThresholds)
       (x10_numSheepSend beforeThresholds) (x10_wheatStays beforeThresholds) isPathPayment)"

text \<open>\<^verbatim>\<open>adjustOffer(Price const&, int64_t, int64_t)\<close>.\<close>

definition adjustOffer :: "Price \<Rightarrow> int \<Rightarrow> int \<Rightarrow> cpp_error + int" where
  "adjustOffer price maxWheatSend maxSheepReceive =
     bindE (exchangeV10 price maxWheatSend INT64_MAX INT64_MAX maxSheepReceive False) (\<lambda>res.
     Inr (x10_numWheatReceived res))"

subsection \<open>The exchange on unbounded integers\<close>

text \<open>
  \<open>offerValue\<close>, \<open>amountsV10\<close> and \<open>withinBound\<close> are what the comments of the source reason
  about: the same quantities with no width. The code is shown equal to them below.
\<close>

definition offerValue :: "int \<Rightarrow> int \<Rightarrow> int \<Rightarrow> int \<Rightarrow> int" where
  "offerValue n d maxSend maxReceive = min (maxSend * n) (maxReceive * d)"

definition amountsV10 :: "int \<Rightarrow> int \<Rightarrow> int \<Rightarrow> int \<Rightarrow> bool \<Rightarrow> int \<times> int" where
  "amountsV10 n d wheatValue sheepValue pathPayment =
     (if wheatValue > sheepValue then
        if n > d \<or> pathPayment
        then (sheepValue div n, cdiv (sheepValue div n * n) d)
        else (sheepValue div d * d div n, sheepValue div d)
      else
        if n > d
        then (wheatValue div n, wheatValue div n * n div d)
        else (cdiv (wheatValue div d * d) n, wheatValue div d))"

definition withinBound :: "int \<Rightarrow> int \<Rightarrow> int \<Rightarrow> int \<Rightarrow> bool" where
  "withinBound n d wheatReceive sheepSend \<longleftrightarrow>
     100 * \<bar>n * wheatReceive - d * sheepSend\<bar> \<le> n * wheatReceive"

lemma price_part_i64:
  assumes "price_ok p"
  shows "amount64 (price_n p)" "amount64 (price_d p)"
    "price_n p \<le> INT64_MAX" "price_d p \<le> INT64_MAX"
  using assms by (auto simp: price_ok_def amount64_def)

lemma bigMultiply_amount:
  assumes "amount64 a" "amount64 b"
  shows "bigMultiply a b = Inr (of_int (a * b))" "uint (of_int (a * b) :: u128) = a * b"
  using bigMultiply_exact [of a b] assms by (auto simp: amount64_def)

lemma min_u128: "uint (min (a :: u128) b) = min (uint a) (uint b)"
  by (simp add: min_def word_le_def)

lemma calculateOfferValue_exact:
  assumes "amount64 n" "amount64 d" "amount64 x" "amount64 y"
  obtains v where "calculateOfferValue n d x y = Inr v" "uint v = offerValue n d x y"
proof
  show "calculateOfferValue n d x y = Inr (min (of_int (x * n)) (of_int (y * d)))"
    using assms by (simp add: calculateOfferValue_def bigMultiply_amount)
  show "uint (min (of_int (x * n)) (of_int (y * d)) :: u128) = offerValue n d x y"
    by (simp only: min_u128 bigMultiply_amount(2) [OF assms(3,1)] bigMultiply_amount(2) [OF assms(4,2)]
        offerValue_def)
qed

lemma checkPriceErrorBound_exact:
  assumes "price_ok p" "amount64 w" "amount64 s"
  shows "checkPriceErrorBound p w s f =
     Inr (f \<and> price_d p * s > price_n p * w \<or> withinBound (price_n p) (price_d p) w s)"
proof -
  let ?n = "price_n p" and ?d = "price_d p"
  have a: "amount64 (100 * ?n)" "amount64 (100 * ?d)" "amount64 ?n"
    using assms(1) by (auto simp: price_ok_def amount64_def)
  note m = bigMultiply_amount [OF a(1) assms(2)] bigMultiply_amount [OF a(2) assms(3)]
    bigMultiply_amount [OF a(3) assms(2)]
  let ?l = "of_int (100 * ?n * w) :: u128" and ?r = "of_int (100 * ?d * s) :: u128"
  have lt: "?r > ?l \<longleftrightarrow> ?d * s > ?n * w" "?l > ?r \<longleftrightarrow> ?n * w > ?d * s"
    by (simp_all only: word_less_def m(2,4)) simp_all
  have diff: "uint (if ?l > ?r then ?l - ?r else ?r - ?l) = 100 * \<bar>?n * w - ?d * s\<bar>"
  proof (cases "?l > ?r")
    case True
    then have "uint (?l - ?r) = uint ?l - uint ?r"
      by (intro uint_sub_lem [THEN iffD1]) (simp only: word_less_def)
    with True lt show ?thesis by (simp only: m(2,4)) simp
  next
    case False
    then have "uint (?r - ?l) = uint ?r - uint ?l"
      by (intro uint_sub_lem [THEN iffD1]) (simp only: word_less_def)
    with False lt show ?thesis by (simp only: m(2,4)) simp
  qed
  then have "(if ?l > ?r then ?l - ?r else ?r - ?l) \<le> of_int (?n * w) \<longleftrightarrow> withinBound ?n ?d w s"
    by (simp only: word_le_def m(6) withinBound_def)
  then show ?thesis
    by (simp only: checkPriceErrorBound_def Let_def m(1,3,5) bindE_simps lt) auto
qed

subsection \<open>Bounds and direction of rounding\<close>

lemma div_le_bound: "\<lbrakk>0 < b; a \<le> m * b\<rbrakk> \<Longrightarrow> a div b \<le> (m :: int)"
  using div_less_iff [of b a "m + 1"] by (auto simp: distrib_right)

lemma cdiv_le_bound: "\<lbrakk>0 < b; a \<le> m * b\<rbrakk> \<Longrightarrow> cdiv a b \<le> m"
  by (simp add: cdiv_le_iff)

text \<open>The limits of both parties, which every stage of the exchange works under.\<close>

definition crossing_limits :: "int \<Rightarrow> int \<Rightarrow> int \<Rightarrow> int \<Rightarrow> int \<Rightarrow> int \<Rightarrow> bool" where
  "crossing_limits n d mws mwr mss msr \<longleftrightarrow>
     0 < n \<and> 0 < d \<and> 0 \<le> mws \<and> 0 \<le> mwr \<and> 0 \<le> mss \<and> 0 \<le> msr"

lemma quotient_bounds:
  assumes "crossing_limits n d mws mwr mss msr"
    and "v \<le> offerValue n d mws msr" "v \<le> offerValue d n mss mwr"
  shows "v div n \<le> mws" "v div n \<le> mwr" "v div d \<le> mss" "v div d \<le> msr"
    and "cdiv v n \<le> mws" "cdiv v n \<le> mwr" "cdiv v d \<le> mss" "cdiv v d \<le> msr"
  using assms
  by (simp_all add: div_le_bound cdiv_le_bound crossing_limits_def offerValue_def)

lemma amounts_bounded:
  assumes L: "crossing_limits n d mws mwr mss msr"
    and "W = offerValue n d mws msr" "S = offerValue d n mss mwr"
    and am: "amountsV10 n d W S pp = (wr, ss)"
  shows "0 \<le> wr" "wr \<le> mws" "wr \<le> mwr" "0 \<le> ss" "ss \<le> mss" "ss \<le> msr"
proof -
  have price: "0 < n" "0 < d" using L by (auto simp: crossing_limits_def)
  define v where "v = min W S"
  have v: "v \<le> W" "v \<le> S" "0 \<le> v"
    using L assms(2,3) by (auto simp: v_def offerValue_def crossing_limits_def)
  have "v div n * n \<le> v" "v div d * d \<le> v" using price by (simp_all add: div_mult_le)
  then have le: "v div n * n \<le> W" "v div n * n \<le> S" "v div d * d \<le> W" "v div d * d \<le> S"
    using v by linarith+
  note q = quotient_bounds [OF L, folded assms(2,3)]
  note q = q [OF v(1,2)] q [OF le(1,2)] q [OF le(3,4)]
  have nn: "0 \<le> v div n" "0 \<le> v div d" "0 \<le> v div n * n" "0 \<le> v div d * d"
    using v(3) price by (simp_all add: div_nonneg)
  then have nn2: "0 \<le> v div n * n div d" "0 \<le> v div d * d div n" "0 \<le> cdiv (v div n * n) d"
    "0 \<le> cdiv (v div d * d) n"
    using price by (simp_all only: div_nonneg cdiv_nonneg)
  have eq: "W > S \<Longrightarrow> S = v" "\<not> W > S \<Longrightarrow> W = v"
    by (auto simp: v_def)
  have "amountsV10 n d W S pp \<in>
      {(v div n, cdiv (v div n * n) d), (v div d * d div n, v div d),
       (v div n, v div n * n div d), (cdiv (v div d * d) n, v div d)}"
    unfolding amountsV10_def using eq by auto
  then show "0 \<le> wr" "wr \<le> mws" "wr \<le> mwr" "0 \<le> ss" "ss \<le> mss" "ss \<le> msr"
    using am q nn nn2 by auto
qed

lemma amounts_direction:
  assumes "0 < n" "0 < d" "amountsV10 n d W S pp = (wr, ss)"
  shows "W > S \<Longrightarrow> wr * n \<le> ss * d" "\<not> W > S \<Longrightarrow> ss * d \<le> wr * n"
  using assms by (auto simp: amountsV10_def le_cdiv_mult div_mult_le split: if_splits)

lemma bigDivide_i64_le:
  assumes "amount64 A" "amount64 B" "0 < C" "C \<le> INT64_MAX" "divR r (A * B) C \<le> INT64_MAX"
  shows "bigDivide A B C r = Inr (divR r (A * B) C)"
  using assms by (simp add: bigDivide_exact)

lemma bigDivide_u128_le:
  assumes "0 < B" "B \<le> INT64_MAX" "uint a = v" "divR r v B \<le> INT64_MAX"
  shows "bigDivide_u128 a B r = Inr (divR r v B)"
  using assms by (simp add: bigDivide_u128_exact)

lemma exchangeV10Amounts_exact:
  assumes p: "price_ok p" and v: "uint w = W" "uint s = S"
    and am: "amountsV10 (price_n p) (price_d p) W S pp = (wr, ss)"
    and b: "amount64 wr" "amount64 ss"
  shows "exchangeV10Amounts p w s pp = Inr (wr, ss)"
proof -
  let ?n = "price_n p" and ?d = "price_d p"
  note nd = price_okD [OF p] price_part_i64 [OF p]
  have stays: "w > s \<longleftrightarrow> W > S" by (simp add: word_less_def v)
  note facts = exchangeV10Amounts_def Let_def stays bigDivide_u128_le [OF _ _ v(1)]
    bigDivide_u128_le [OF _ _ v(2)] bigDivide_i64_le
  consider (1) "W > S" "?n > ?d \<or> pp" | (2) "W > S" "\<not> (?n > ?d \<or> pp)"
    | (3) "\<not> W > S" "?n > ?d" | (4) "\<not> W > S" "\<not> ?n > ?d" by blast
  then show ?thesis
  proof cases
    case 1
    with am have "wr = S div ?n" "ss = cdiv (wr * ?n) ?d" by (auto simp: amountsV10_def)
    then show ?thesis using 1 nd b amount64_le by (simp add: facts)
  next
    case 2
    with am have "ss = S div ?d" "wr = ss * ?d div ?n" by (auto simp: amountsV10_def)
    then show ?thesis using 2 nd b amount64_le by (simp add: facts)
  next
    case 3
    with am have "wr = W div ?n" "ss = wr * ?n div ?d" by (auto simp: amountsV10_def)
    then show ?thesis using 3 nd b amount64_le by (simp add: facts)
  next
    case 4
    with am have "ss = W div ?d" "wr = cdiv (ss * ?d) ?n" by (auto simp: amountsV10_def)
    then show ?thesis using 4 nd b amount64_le by (simp add: facts)
  qed
qed

text \<open>The two stages as integer functions of the limits, with what is known of the outcome.\<close>

abbreviation valuesV10 :: "Price \<Rightarrow> int \<Rightarrow> int \<Rightarrow> int \<Rightarrow> int \<Rightarrow> int \<times> int" where
  "valuesV10 p mws mwr mss msr \<equiv>
     (offerValue (price_n p) (price_d p) mws msr, offerValue (price_d p) (price_n p) mss mwr)"

definition rawV10 :: "Price \<Rightarrow> int \<Rightarrow> int \<Rightarrow> int \<Rightarrow> int \<Rightarrow> bool \<Rightarrow> ExchangeResultV10" where
  "rawV10 p mws mwr mss msr pp = (case valuesV10 p mws mwr mss msr of (W, S) \<Rightarrow>
     \<lparr>x10_numWheatReceived = fst (amountsV10 (price_n p) (price_d p) W S pp),
      x10_numSheepSend = snd (amountsV10 (price_n p) (price_d p) W S pp),
      x10_wheatStays = (W > S)\<rparr>)"

lemma rawV10_bounded:
  assumes "price_ok p" "amount64 mws" "amount64 mwr" "amount64 mss" "amount64 msr"
  shows "0 \<le> x10_numWheatReceived (rawV10 p mws mwr mss msr pp)"
    "x10_numWheatReceived (rawV10 p mws mwr mss msr pp) \<le> min mwr mws"
    "0 \<le> x10_numSheepSend (rawV10 p mws mwr mss msr pp)"
    "x10_numSheepSend (rawV10 p mws mwr mss msr pp) \<le> min msr mss"
proof -
  have "crossing_limits (price_n p) (price_d p) mws mwr mss msr"
    using assms by (auto simp: crossing_limits_def price_ok_def amount64_def)
  from amounts_bounded [OF this refl refl surjective_pairing, of pp]
  show "0 \<le> x10_numWheatReceived (rawV10 p mws mwr mss msr pp)"
    "x10_numWheatReceived (rawV10 p mws mwr mss msr pp) \<le> min mwr mws"
    "0 \<le> x10_numSheepSend (rawV10 p mws mwr mss msr pp)"
    "x10_numSheepSend (rawV10 p mws mwr mss msr pp) \<le> min msr mss"
    by (auto simp: rawV10_def)
qed

lemma rawV10_amount64:
  assumes "price_ok p" "amount64 mws" "amount64 mwr" "amount64 mss" "amount64 msr"
  shows "amount64 (x10_numWheatReceived (rawV10 p mws mwr mss msr pp))"
    "amount64 (x10_numSheepSend (rawV10 p mws mwr mss msr pp))"
  using rawV10_bounded [OF assms, of pp] assms by (auto simp: amount64_def)

lemma rawV10_direction:
  assumes "price_ok p" "r = rawV10 p mws mwr mss msr pp"
  shows "x10_wheatStays r \<Longrightarrow>
           x10_numWheatReceived r * price_n p \<le> x10_numSheepSend r * price_d p"
    "\<not> x10_wheatStays r \<Longrightarrow>
           x10_numSheepSend r * price_d p \<le> x10_numWheatReceived r * price_n p"
  using amounts_direction [OF price_okD(1,3) [OF assms(1)] surjective_pairing]
  by (auto simp: assms(2) rawV10_def)

lemma exchangeV10WithoutPriceErrorThresholds_exact:
  assumes "price_ok p" "amount64 mws" "amount64 mwr" "amount64 mss" "amount64 msr"
  shows "exchangeV10WithoutPriceErrorThresholds p mws mwr mss msr pp
           = Inr (rawV10 p mws mwr mss msr pp)"
proof -
  let ?n = "price_n p" and ?d = "price_d p" and ?r = "rawV10 p mws mwr mss msr pp"
  note nd = price_part_i64 [OF assms(1)]
  obtain w where w: "calculateOfferValue ?n ?d mws msr = Inr w" "uint w = offerValue ?n ?d mws msr"
    by (rule calculateOfferValue_exact [OF nd(1,2) assms(2,5)])
  obtain s where s: "calculateOfferValue ?d ?n mss mwr = Inr s" "uint s = offerValue ?d ?n mss mwr"
    by (rule calculateOfferValue_exact [OF nd(2,1) assms(4,3)])
  have "exchangeV10Amounts p w s pp = Inr (x10_numWheatReceived ?r, x10_numSheepSend ?r)"
    using exchangeV10Amounts_exact [OF assms(1) w(2) s(2) surjective_pairing] rawV10_amount64 [OF assms, of pp]
    by (simp add: rawV10_def)
  moreover have "\<not> x10_numWheatReceived ?r < 0" "\<not> x10_numWheatReceived ?r > min mwr mws"
    "\<not> x10_numSheepSend ?r < 0" "\<not> x10_numSheepSend ?r > min msr mss"
    using rawV10_bounded [OF assms, of pp] by linarith+
  ultimately show ?thesis
    by (simp add: exchangeV10WithoutPriceErrorThresholds_def w s word_less_def)
      (simp add: rawV10_def)
qed

text \<open>What the thresholds keep of a trade: both amounts, or none.\<close>

definition keepV10 :: "ExchangeResultV10 \<Rightarrow> bool \<Rightarrow> ExchangeResultV10" where
  "keepV10 r b = \<lparr>x10_numWheatReceived = (if b then x10_numWheatReceived r else 0),
     x10_numSheepSend = (if b then x10_numSheepSend r else 0), x10_wheatStays = x10_wheatStays r\<rparr>"

abbreviation tradesV10 :: "ExchangeResultV10 \<Rightarrow> bool" where
  "tradesV10 r \<equiv> x10_numWheatReceived r > 0 \<and> x10_numSheepSend r > 0"

abbreviation boundedV10 :: "Price \<Rightarrow> ExchangeResultV10 \<Rightarrow> bool" where
  "boundedV10 p r \<equiv> withinBound (price_n p) (price_d p) (x10_numWheatReceived r) (x10_numSheepSend r)"

lemma keepV10_simps [simp]:
  "x10_numWheatReceived (keepV10 r b) = (if b then x10_numWheatReceived r else 0)"
  "x10_numSheepSend (keepV10 r b) = (if b then x10_numSheepSend r else 0)"
  "x10_wheatStays (keepV10 r b) = x10_wheatStays r"
  by (simp_all add: keepV10_def)

lemma applyPriceErrorThresholds_exact:
  assumes p: "price_ok p" and a: "amount64 (x10_numWheatReceived r)" "amount64 (x10_numSheepSend r)"
    and dir: "x10_wheatStays r \<Longrightarrow>
           x10_numWheatReceived r * price_n p \<le> x10_numSheepSend r * price_d p"
      "\<not> x10_wheatStays r \<Longrightarrow>
           x10_numSheepSend r * price_d p \<le> x10_numWheatReceived r * price_n p"
  shows "applyPriceErrorThresholds p (x10_numWheatReceived r) (x10_numSheepSend r)
           (x10_wheatStays r) pp =
     (if pp \<and> tradesV10 r \<and> \<not> x10_wheatStays r \<and> \<not> boundedV10 p r
      then Inl (RuntimeError ''exceeded price error bound'')
      else Inr (keepV10 r (tradesV10 r \<and> (pp \<or> boundedV10 p r))))"
proof -
  let ?w = "x10_numWheatReceived r" and ?s = "x10_numSheepSend r"
  note nd = price_part_i64 [OF p]
  note m = bigMultiply_amount [OF a(1) nd(1)] bigMultiply_amount [OF a(2) nd(2)]
  have lt: "(of_int (?s * price_d p) :: u128) < of_int (?w * price_n p) \<longleftrightarrow>
              ?s * price_d p < ?w * price_n p"
    "(of_int (?w * price_n p) :: u128) < of_int (?s * price_d p) \<longleftrightarrow>
              ?w * price_n p < ?s * price_d p"
    by (simp_all only: word_less_def m)
  have eqb: "?w * price_n p = ?s * price_d p \<Longrightarrow> 0 \<le> ?w * price_n p \<Longrightarrow> boundedV10 p r"
    by (simp add: withinBound_def mult.commute)
  have nn: "0 \<le> ?w * price_n p" using a nd by (simp add: amount64_def)
  have neg: "\<not> (x10_wheatStays r \<and> ?s * price_d p < ?w * price_n p)"
    "\<not> (\<not> x10_wheatStays r \<and> ?w * price_n p < ?s * price_d p)" using dir by force+
  have chk: "checkPriceErrorBound p ?w ?s f =
      Inr (f \<and> ?w * price_n p < ?s * price_d p \<or> boundedV10 p r)" for f
    using checkPriceErrorBound_exact [OF p a] by (simp add: mult.commute)
  have pos: "x10_wheatStays r \<Longrightarrow> ?w * price_n p < ?s * price_d p \<or> boundedV10 p r"
    using dir(1) eqb nn by fastforce
  have neg2: "\<not> x10_wheatStays r \<Longrightarrow> \<not> ?w * price_n p < ?s * price_d p" using dir(2) by force
  show ?thesis
    unfolding applyPriceErrorThresholds_def m(1,3) bindE_simps lt if_not_P [OF neg(1)]
      if_not_P [OF neg(2)] chk keepV10_def
    using pos neg2 by auto
qed

lemma exchangeV10_exact:
  assumes "price_ok p" "amount64 mws" "amount64 mwr" "amount64 mss" "amount64 msr"
    and r: "r = rawV10 p mws mwr mss msr pp"
  shows "exchangeV10 p mws mwr mss msr pp =
     (if pp \<and> tradesV10 r \<and> \<not> x10_wheatStays r \<and> \<not> boundedV10 p r
      then Inl (RuntimeError ''exceeded price error bound'')
      else Inr (keepV10 r (tradesV10 r \<and> (pp \<or> boundedV10 p r))))"
  unfolding exchangeV10_def exchangeV10WithoutPriceErrorThresholds_exact [OF assms(1-5)]
    bindE_simps r
  by (rule applyPriceErrorThresholds_exact [OF assms(1) rawV10_amount64 [OF assms(1-5)]
      rawV10_direction [OF assms(1) refl]])

lemma adjustOffer_exact:
  assumes "price_ok p" "amount64 mws" "amount64 msr"
    and r: "r = rawV10 p mws INT64_MAX INT64_MAX msr False"
  shows "adjustOffer p mws msr =
     Inr (if tradesV10 r \<and> boundedV10 p r then x10_numWheatReceived r else 0)"
  using exchangeV10_exact [OF assms(1,2) amount64_max amount64_max assms(3) r]
  by (simp add: adjustOffer_def)

text \<open>When sheep stays, the outcome depends on the wheat seller's side of the exchange only.\<close>

lemma offerValue_max:
  assumes "price_ok p" "amount64 mws" "amount64 msr"
  shows "offerValue (price_n p) (price_d p) mws msr \<le>
         offerValue (price_d p) (price_n p) INT64_MAX INT64_MAX"
proof -
  have "mws * price_n p \<le> INT64_MAX * price_n p" "msr * price_d p \<le> INT64_MAX * price_d p"
    using assms by (auto simp: price_ok_def amount64_def intro!: mult_right_mono)
  then show ?thesis by (auto simp: offerValue_def)
qed

lemma rawV10_sheep_stays:
  assumes "price_ok p" "amount64 mws" "amount64 msr" "\<not> x10_wheatStays (rawV10 p mws mwr mss msr pp)"
  shows "rawV10 p mws mwr mss msr pp = rawV10 p mws INT64_MAX INT64_MAX msr False"
  using assms(4) offerValue_max [OF assms(1-3)] by (auto simp: rawV10_def amountsV10_def)

subsection \<open>The properties of the exchange\<close>

lemma exchangeV10_bounds:
  assumes "price_ok p" "amount64 mws" "amount64 mwr" "amount64 mss" "amount64 msr"
  shows "\<exists>r. exchangeV10 p mws mwr mss msr False = Inr r
      \<and> 0 \<le> x10_numWheatReceived r \<and> x10_numWheatReceived r \<le> min mws mwr
      \<and> 0 \<le> x10_numSheepSend r \<and> x10_numSheepSend r \<le> min mss msr
      \<and> (x10_numWheatReceived r = 0 \<longleftrightarrow> x10_numSheepSend r = 0)"
  using exchangeV10_exact [OF assms refl, of False] rawV10_bounded [OF assms, of False] assms
  by (auto simp: amount64_def)

text \<open>C22. \<^verbatim>\<open>exchangeV10\<close> outside a path payment always returns: none of its assertions, its
  overflow errors and its \<^verbatim>\<open>runtime_error\<close>s is reachable for a valid price and non-negative
  limits. The amounts respect all four limits; either both are positive or both are zero.\<close>

theorem exchangeV10_total:
  assumes "price_ok p" "amount64 mws" "amount64 mwr" "amount64 mss" "amount64 msr"
  shows "\<exists>r. exchangeV10 p mws mwr mss msr False = Inr r
      \<and> 0 \<le> x10_numWheatReceived r \<and> x10_numWheatReceived r \<le> min mws mwr
      \<and> 0 \<le> x10_numSheepSend r \<and> x10_numSheepSend r \<le> min mss msr
      \<and> (x10_numWheatReceived r = 0 \<longleftrightarrow> x10_numSheepSend r = 0)"
  by (rule exchangeV10_bounds [OF assms])

theorem exchangeV10_total_witness:
  "\<exists>r. exchangeV10 \<lparr>price_n = 3, price_d = 2\<rparr> 28 27 41 (9223372036854775807) False = Inr r
     \<and> 0 \<le> x10_numWheatReceived r \<and> x10_numWheatReceived r \<le> 27
     \<and> 0 \<le> x10_numSheepSend r \<and> x10_numSheepSend r \<le> 41
     \<and> (x10_numWheatReceived r = 0 \<longleftrightarrow> x10_numSheepSend r = 0)"
  using exchangeV10_total [of "\<lparr>price_n = 3, price_d = 2\<rparr>" 28 27 41 INT64_MAX]
  by (simp add: price_ok_def amount64_def)

text \<open>C21. The direction and the magnitude of the rounding error in \<^verbatim>\<open>exchangeV10\<close>, for every
  crossing that returns: the party whose offer stays in the book is never disfavoured, and
  outside a path payment the effective price is within one percent of the offer's price.\<close>

theorem exchangeV10_rounding:
  assumes "price_ok p" "amount64 mws" "amount64 mwr" "amount64 mss" "amount64 msr"
    and "exchangeV10 p mws mwr mss msr pp = Inr r"
  shows "(if x10_wheatStays r
          then x10_numWheatReceived r * price_n p \<le> x10_numSheepSend r * price_d p
          else x10_numSheepSend r * price_d p \<le> x10_numWheatReceived r * price_n p)
       \<and> (pp \<and> x10_wheatStays r
          \<or> 100 * \<bar>price_n p * x10_numWheatReceived r - price_d p * x10_numSheepSend r\<bar>
             \<le> price_n p * x10_numWheatReceived r)"
proof -
  let ?r = "rawV10 p mws mwr mss msr pp"
  note dir = rawV10_direction [OF assms(1) refl, of mws mwr mss msr pp]
  have "\<not> (pp \<and> tradesV10 ?r \<and> \<not> x10_wheatStays ?r \<and> \<not> boundedV10 p ?r)"
    "r = keepV10 ?r (tradesV10 ?r \<and> (pp \<or> boundedV10 p ?r))"
    using assms(6) unfolding exchangeV10_exact [OF assms(1-5) refl] by (auto split: if_splits)
  then show ?thesis using dir by (auto simp: withinBound_def)
qed

theorem exchangeV10_rounding_witness:
  "exchangeV10 \<lparr>price_n = 3, price_d = 2\<rparr> 2800 2701 4100 5000 False =
     Inr \<lparr>x10_numWheatReceived = 2701, x10_numSheepSend = 4052, x10_wheatStays = True\<rparr>
   \<and> 2701 * 3 \<le> 4052 * (2 :: int)"
proof -
  let ?p = "\<lparr>price_n = 3, price_d = 2\<rparr>"
  have ok: "price_ok ?p" "amount64 2800" "amount64 2701" "amount64 4100" "amount64 5000"
    by (simp_all add: price_ok_def amount64_def)
  have e: "exchangeV10 ?p 2800 2701 4100 5000 False =
     Inr \<lparr>x10_numWheatReceived = 2701, x10_numSheepSend = 4052, x10_wheatStays = True\<rparr>"
    by (simp add: exchangeV10_exact [OF ok refl] keepV10_def withinBound_def rawV10_def
        amountsV10_def offerValue_def cdiv_def)
  show ?thesis using exchangeV10_rounding [OF ok e] e by simp
qed

lemma exchangeV10_path_bounds:
  assumes "price_ok p" "amount64 mws" "amount64 mwr" "amount64 mss" "amount64 msr"
    and adj: "adjustOffer p mws msr = Inr mws"
  shows "\<exists>r. exchangeV10 p mws mwr mss msr True = Inr r
      \<and> 0 \<le> x10_numWheatReceived r \<and> x10_numWheatReceived r \<le> min mws mwr
      \<and> 0 \<le> x10_numSheepSend r \<and> x10_numSheepSend r \<le> min mss msr"
proof -
  let ?r = "rawV10 p mws mwr mss msr True" and ?a = "rawV10 p mws INT64_MAX INT64_MAX msr False"
  have "boundedV10 p ?r" if t: "tradesV10 ?r" and st: "\<not> x10_wheatStays ?r"
  proof -
    have eq: "?r = ?a" by (rule rawV10_sheep_stays [OF assms(1,2,5) st])
    have "(if tradesV10 ?a \<and> boundedV10 p ?a then x10_numWheatReceived ?a else 0) = mws"
      using adjustOffer_exact [OF assms(1,2,5) refl] adj by simp
    moreover have "mws > 0"
      using t rawV10_bounded [OF assms(1-5), of True] by linarith
    ultimately show ?thesis using eq by (auto split: if_splits)
  qed
  then show ?thesis
    using exchangeV10_exact [OF assms(1-5) refl, of True] rawV10_bounded [OF assms(1-5), of True]
      assms by (auto simp: amount64_def)
qed

text \<open>A path payment's crossing never exceeds the price error bound, so it never throws,
  when the offer was adjusted beforehand, which \<^verbatim>\<open>crossOfferV10\<close> does.\<close>

theorem exchangeV10_path_adjusted:
  assumes "price_ok p" "amount64 mws" "amount64 mwr" "amount64 mss" "amount64 msr"
    and "adjustOffer p mws msr = Inr mws"
  shows "\<exists>r. exchangeV10 p mws mwr mss msr True = Inr r
      \<and> 0 \<le> x10_numWheatReceived r \<and> x10_numWheatReceived r \<le> min mws mwr
      \<and> 0 \<le> x10_numSheepSend r \<and> x10_numSheepSend r \<le> min mss msr"
  by (rule exchangeV10_path_bounds [OF assms])

theorem exchangeV10_path_adjusted_witness:
  "adjustOffer \<lparr>price_n = 3, price_d = 2\<rparr> 2800 5000 = Inr 2800
   \<and> (\<exists>r. exchangeV10 \<lparr>price_n = 3, price_d = 2\<rparr> 2800 7 4100 5000 True = Inr r
      \<and> 0 \<le> x10_numWheatReceived r \<and> x10_numWheatReceived r \<le> 7
      \<and> 0 \<le> x10_numSheepSend r \<and> x10_numSheepSend r \<le> 4100)"
proof -
  let ?p = "\<lparr>price_n = 3, price_d = 2\<rparr>"
  have ok: "price_ok ?p" "amount64 2800" "amount64 7" "amount64 4100" "amount64 5000"
    by (simp_all add: price_ok_def amount64_def)
  have e: "adjustOffer ?p 2800 5000 = Inr 2800"
    by (simp add: adjustOffer_exact [OF ok(1,2,5) refl] withinBound_def rawV10_def
        amountsV10_def offerValue_def cdiv_def)
  show ?thesis using exchangeV10_path_adjusted [OF ok e] e by simp
qed

text \<open>In a path payment whose offer is large enough to stay in the book, and whose send
  limit covers the price of the wheat it asks for, exactly the wheat it asks for is received:
  the rounding never makes such a payment fall short.\<close>

theorem exchangeV10_path_exact:
  assumes "price_ok p" "amount64 mws" "amount64 mwr" "amount64 mss" "amount64 msr"
    and "mwr * price_n p \<le> mss * price_d p"
    and "mwr * price_n p < mws * price_n p" "mwr * price_n p < msr * price_d p"
  shows "exchangeV10 p mws mwr mss msr True =
     Inr \<lparr>x10_numWheatReceived = mwr, x10_numSheepSend = cdiv (mwr * price_n p) (price_d p),
          x10_wheatStays = True\<rparr>"
proof -
  let ?n = "price_n p" and ?d = "price_d p"
  have S: "offerValue ?d ?n mss mwr = mwr * ?n" "offerValue ?n ?d mws msr > mwr * ?n"
    using assms(6-8) by (auto simp: offerValue_def)
  have raw: "rawV10 p mws mwr mss msr True =
     \<lparr>x10_numWheatReceived = mwr, x10_numSheepSend = cdiv (mwr * ?n) ?d, x10_wheatStays = True\<rparr>"
    using S price_okD [OF assms(1)] by (simp add: rawV10_def amountsV10_def)
  have "mwr = 0 \<or> cdiv (mwr * ?n) ?d > 0 \<and> mwr > 0"
    using price_okD [OF assms(1)] assms(3) by (auto simp: amount64_def cdiv_pos)
  then show ?thesis
    using exchangeV10_exact [OF assms(1-5) raw [symmetric]] price_okD [OF assms(1)]
    by (auto simp: keepV10_def cdiv_def)
qed

theorem exchangeV10_path_exact_witness:
  "exchangeV10 \<lparr>price_n = 3, price_d = 2\<rparr> 100 7 11 5000 True =
     Inr \<lparr>x10_numWheatReceived = 7, x10_numSheepSend = 11, x10_wheatStays = True\<rparr>"
  using exchangeV10_path_exact [of "\<lparr>price_n = 3, price_d = 2\<rparr>" 100 7 11 5000]
  by (simp add: price_ok_def amount64_def cdiv_def)

text \<open>The amounts of an adjusted offer reproduce themselves: the offer's value is recomputed from
  the wheat it keeps, and gives the same amounts.\<close>

lemma amountsV10_again:
  assumes nd: "0 < n" "0 < d" and W: "W = offerValue n d mws msr" "W \<le> S"
    and am: "amountsV10 n d W S False = (wr, ss)"
    and W': "W' = offerValue n d wr msr'" "W' \<le> S" "msr \<le> msr'"
  shows "amountsV10 n d W' S False = (wr, ss)"
proof (cases "n > d")
  case True
  then have wr: "wr = W div n" "ss = wr * n div d" using am W by (auto simp: amountsV10_def)
  have "wr * n \<le> W" using wr nd by (simp add: div_mult_le)
  moreover have "msr * d \<le> msr' * d" using W'(3) nd by simp
  ultimately have "W' = wr * n" using W W' by (auto simp: offerValue_def)
  then show ?thesis using True wr W' nd by (auto simp: amountsV10_def)
next
  case False
  then have wr: "ss = W div d" "wr = cdiv (ss * d) n" using am W by (auto simp: amountsV10_def)
  have "ss * d \<le> W" using wr nd by (simp add: div_mult_le)
  moreover have "msr * d \<le> msr' * d" using W'(3) nd by simp
  ultimately have "ss * d \<le> msr' * d" using W by (auto simp: offerValue_def)
  then have lo: "ss * d \<le> W'" using le_cdiv_mult [OF nd(1), of "ss * d"] W' wr(2)
    by (auto simp: offerValue_def)
  have "(wr - 1) * n < ss * d" using cdiv_mult_less [OF nd(1)] wr(2) by simp
  then have "wr * n < ss * d + d" using False by (simp add: left_diff_distrib)
  then have hi: "W' < (ss + 1) * d" using W' by (auto simp: offerValue_def distrib_right)
  have "W' div d = ss"
    using le_div_iff [OF nd(2), of ss W'] div_less_iff [OF nd(2), of W' "ss + 1"] lo hi by linarith
  then show ?thesis using False wr W' by (auto simp: amountsV10_def)
qed

text \<open>The same on the exchange of an adjusted offer: raising the sheep limit changes nothing.\<close>

lemma rawV10_adjusted:
  assumes p: "price_ok p" and a: "amount64 mws" "amount64 msr" "amount64 msr'" "msr \<le> msr'"
    and v: "v = x10_numWheatReceived (rawV10 p mws INT64_MAX INT64_MAX msr False)"
  shows "rawV10 p v INT64_MAX INT64_MAX msr' False = rawV10 p mws INT64_MAX INT64_MAX msr False"
proof -
  let ?n = "price_n p" and ?d = "price_d p" and ?S = "offerValue (price_d p) (price_n p) INT64_MAX INT64_MAX"
  have av: "amount64 v" unfolding v by (rule rawV10_amount64(1) [OF p a(1) amount64_max amount64_max a(2)])
  note le = offerValue_max [OF p a(1,2)] offerValue_max [OF p av a(3)]
  have "amountsV10 ?n ?d (offerValue ?n ?d v msr') ?S False =
        amountsV10 ?n ?d (offerValue ?n ?d mws msr) ?S False"
    using amountsV10_again [OF price_okD(1,3) [OF p] refl le(1) surjective_pairing refl _ a(4)] le(2)
    by (simp add: v rawV10_def)
  then show ?thesis using le by (simp add: rawV10_def)
qed

lemma adjustOffer_total:
  assumes p: "price_ok p" and a: "amount64 mws" "amount64 msr"
  shows "\<exists>v. adjustOffer p mws msr = Inr v \<and> 0 \<le> v \<and> v \<le> mws \<and> adjustOffer p v msr = Inr v"
proof -
  let ?r = "rawV10 p mws INT64_MAX INT64_MAX msr False"
  define v where "v = (if tradesV10 ?r \<and> boundedV10 p ?r then x10_numWheatReceived ?r else 0)"
  have adj: "adjustOffer p mws msr = Inr v" using adjustOffer_exact [OF p a refl] by (simp add: v_def)
  have v: "0 \<le> v" "v \<le> mws"
    using rawV10_bounded [OF p a(1) amount64_max amount64_max a(2), of False] a
    by (auto simp: v_def amount64_def)
  then have av: "amount64 v" using a by (auto simp: amount64_def)
  have "adjustOffer p v msr = Inr v"
  proof (cases "tradesV10 ?r \<and> boundedV10 p ?r")
    case True
    then have vr: "v = x10_numWheatReceived ?r" by (simp add: v_def)
    have "rawV10 p v INT64_MAX INT64_MAX msr False = ?r"
      by (rule rawV10_adjusted [OF p a a(2) order_refl vr])
    then show ?thesis using adjustOffer_exact [OF p av a(2) refl] True vr by simp
  next
    case False
    then have "v = 0" by (auto simp: v_def)
    moreover have "\<not> tradesV10 (rawV10 p 0 INT64_MAX INT64_MAX msr False)"
      using rawV10_bounded(2) [OF p amount64_0 amount64_max amount64_max a(2), of False] by auto
    ultimately show ?thesis using adjustOffer_exact [OF p av a(2) refl] by auto
  qed
  with adj v show ?thesis by blast
qed

text \<open>\<^verbatim>\<open>adjustOffer\<close> always returns an amount no larger than the one it is given, and
  adjusting an adjusted offer changes nothing. (The comment before the function calls this its
  central property; \<^verbatim>\<open>crossOfferV10\<close> and \<^verbatim>\<open>ManageOffer\<close> rely on it.)\<close>

theorem adjustOffer_idempotent:
  assumes "price_ok p" "amount64 mws" "amount64 msr"
  shows "\<exists>v. adjustOffer p mws msr = Inr v \<and> 0 \<le> v \<and> v \<le> mws \<and> adjustOffer p v msr = Inr v"
  by (rule adjustOffer_total [OF assms])

theorem adjustOffer_idempotent_witness:
  "\<exists>v. adjustOffer \<lparr>price_n = 3, price_d = 7\<rparr> 1000 200 = Inr v \<and> 0 \<le> v \<and> v \<le> 1000
      \<and> adjustOffer \<lparr>price_n = 3, price_d = 7\<rparr> v 200 = Inr v"
  using adjustOffer_idempotent [of "\<lparr>price_n = 3, price_d = 7\<rparr>" 1000 200]
  by (simp add: price_ok_def amount64_def)

text \<open>Before protocol 10: \<^verbatim>\<open>exchangeV3\<close> always returns (it cannot throw for a valid price and
  non-negative limits), respects the three limits, and never gives the offer's owner less sheep
  than the price asks for the wheat that is taken.\<close>

theorem exchangeV3_favours_seller:
  assumes p: "price_ok p" and a: "amount64 w" "amount64 mwr" "amount64 mss"
  shows "\<exists>r. exchangeV3 w p mwr mss = Inr r
      \<and> 0 \<le> er_numWheatReceived r \<and> er_numWheatReceived r \<le> min w mwr
      \<and> 0 \<le> er_numSheepSend r \<and> er_numSheepSend r \<le> mss
      \<and> er_numWheatReceived r * price_n p \<le> er_numSheepSend r * price_d p"
proof -
  let ?n = "price_n p" and ?d = "price_d p" and ?w = "min w mwr"
  note nd = price_okD [OF p] price_part_i64 [OF p]
  define q where "q = cdiv (?w * ?n) ?d"
  define ss where "ss = min (if q \<le> INT64_MAX then q else INT64_MAX) mss"
  define q2 where "q2 = ss * ?d div ?n"
  have aw: "amount64 ?w" using a by simp
  have "0 \<le> q" using a nd by (simp add: q_def amount64_def cdiv_nonneg)
  then have ss: "0 \<le> ss" "ss \<le> mss" "amount64 ss" using a by (auto simp: ss_def amount64_def)
  then have q2: "0 \<le> q2" "q2 * ?n \<le> ss * ?d"
    using nd by (auto simp: q2_def div_mult_le div_nonneg)
  let ?wr = "min ?w (if q2 \<le> INT64_MAX then q2 else INT64_MAX)"
  have "?wr \<le> q2" using aw by (auto simp: amount64_def)
  then have "?wr * ?n \<le> q2 * ?n" using nd by (intro mult_right_mono) auto
  then have fav: "?wr * ?n \<le> ss * ?d" using q2 by linarith
  have "\<exists>b. exchangeV3 w p mwr mss = Inr \<lparr>er_numWheatReceived = ?wr, er_numSheepSend = ss, er_reduced = b\<rparr>"
    using nd ss(3) bigDivide_i64_exact [OF aw nd(5,3,8), of ROUND_UP, unfolded divR_simps, folded q_def]
      bigDivide_i64_exact [OF ss(3) nd(6,1,7), of ROUND_DOWN, unfolded divR_simps, folded q2_def]
    by (auto simp: exchangeV3_def Let_def ss_def)
  then show ?thesis using fav ss q2 aw by (fastforce simp: amount64_def)
qed

theorem exchangeV3_favours_seller_witness:
  "\<exists>r. exchangeV3 10 \<lparr>price_n = 3, price_d = 2\<rparr> 7 9 = Inr r
      \<and> 0 \<le> er_numWheatReceived r \<and> er_numWheatReceived r \<le> 7
      \<and> 0 \<le> er_numSheepSend r \<and> er_numSheepSend r \<le> 9
      \<and> er_numWheatReceived r * 3 \<le> er_numSheepSend r * 2"
  using exchangeV3_favours_seller [of "\<lparr>price_n = 3, price_d = 2\<rparr>" 10 7 9]
  by (simp add: price_ok_def amount64_def)

lemma exchangeV2_total:
  assumes p: "price_ok p" and a: "amount64 w" "amount64 mwr" "amount64 mss"
  shows "\<exists>r. exchangeV2 w p mwr mss = Inr r
      \<and> 0 \<le> er_numWheatReceived r \<and> er_numWheatReceived r \<le> min w mwr
      \<and> 0 \<le> er_numSheepSend r \<and> er_numSheepSend r \<le> mss
      \<and> er_numWheatReceived r * price_n p \<le> er_numSheepSend r * price_d p"
proof -
  let ?n = "price_n p" and ?d = "price_d p" and ?w = "min w mwr"
  note nd = price_okD [OF p] price_part_i64 [OF p]
  define q where "q = ?w * ?n div ?d"
  define ss where "ss = min (if q \<le> INT64_MAX then q else INT64_MAX) mss"
  define wr where "wr = ss * ?d div ?n"
  have aw: "amount64 ?w" using a by simp
  have "0 \<le> q" using a nd by (simp add: q_def amount64_def div_nonneg)
  then have ss: "0 \<le> ss" "ss \<le> mss" "amount64 ss" "ss \<le> q" using a by (auto simp: ss_def amount64_def)
  then have "ss * ?d \<le> q * ?d" using nd by (intro mult_right_mono) auto
  also have "\<dots> \<le> ?w * ?n" using nd by (simp only: q_def div_mult_le)
  finally have le: "wr \<le> ?w" using nd by (simp only: wr_def div_le_bound)
  have wr: "0 \<le> wr" "wr * ?n \<le> ss * ?d" "wr \<le> INT64_MAX"
    using nd ss le aw by (auto simp: wr_def div_mult_le div_nonneg amount64_def)
  have "\<exists>b. exchangeV2 w p mwr mss = Inr \<lparr>er_numWheatReceived = wr, er_numSheepSend = ss, er_reduced = b\<rparr>"
    using nd ss(3) wr(3) bigDivide_i64_exact [OF aw nd(5,3,8), of ROUND_DOWN, unfolded divR_simps, folded q_def]
      bigDivide_exact [OF ss(3) nd(6,1,7), of ROUND_DOWN, unfolded divR_simps, folded wr_def]
    by (auto simp: exchangeV2_def Let_def ss_def)
  then show ?thesis using ss wr le by fastforce
qed

end
