(* ===== verification/Ledger_State.thy ===== *)
theory Ledger_State
  imports Exchange "HOL-Library.AList"
begin

section \<open>The ledger seen by an operation\<close>

text \<open>
  An operation works on one \<^verbatim>\<open>LedgerTxn\<close>: a header and the entries by key. Here that view is
  flat: loading an entry is a lookup, writing through a handle is an update of its key, creating
  and erasing throw as \<^verbatim>\<open>LedgerTxn::create\<close> and \<^verbatim>\<open>LedgerTxn::erase\<close> do. A nested transaction
  is a copy that replaces its parent when it is committed and is dropped when it is rolled back.
  Theory \<open>Ledger_Txn\<close> models the layers of the real data structure and shows that they present
  this view. \<^verbatim>\<open>lastModifiedLedgerSeq\<close> is written by the layers at commit only, so entries here
  are the \<^verbatim>\<open>data\<close> union of a \<^verbatim>\<open>LedgerEntry\<close>.
\<close>

record LedgerHeader =
  lh_ledgerVersion :: int
  lh_ledgerSeq :: int
  lh_closeTime :: int
  lh_totalCoins :: int
  lh_feePool :: int
  lh_inflationSeq :: int
  lh_idPool :: u64
  lh_baseFee :: int
  lh_baseReserve :: int
  lh_maxTxSetSize :: int

record ledger =
  lg_header :: LedgerHeader
  lg_entries :: "(LedgerKey \<times> LedgerEntryData) list"

definition load :: "ledger \<Rightarrow> LedgerKey \<Rightarrow> LedgerEntryData option" where
  "load l k = map_of (lg_entries l) k"

definition store :: "ledger \<Rightarrow> LedgerEntryData \<Rightarrow> ledger" where
  "store l e = l\<lparr>lg_entries := AList.update (LedgerEntryDataKey e) e (lg_entries l)\<rparr>"

definition create :: "ledger \<Rightarrow> LedgerEntryData \<Rightarrow> cpp_error + ledger" where
  "create l e = (if load l (LedgerEntryDataKey e) \<noteq> None
                 then Inl (RuntimeError ''Key already exists'') else Inr (store l e))"

definition erase :: "ledger \<Rightarrow> LedgerKey \<Rightarrow> cpp_error + ledger" where
  "erase l k = (if load l k = None then Inl (RuntimeError ''Key does not exist'')
                else Inr (l\<lparr>lg_entries := AList.delete k (lg_entries l)\<rparr>))"

definition setHeader :: "ledger \<Rightarrow> LedgerHeader \<Rightarrow> ledger" where
  "setHeader l h = l\<lparr>lg_header := h\<rparr>"

text \<open>Every entry is filed under its own key, once.\<close>

definition keyed :: "ledger \<Rightarrow> bool" where
  "keyed l \<longleftrightarrow> distinct (map fst (lg_entries l))
     \<and> (\<forall>(k, e) \<in> set (lg_entries l). LedgerEntryDataKey e = k)"

named_theorems ledger_simps \<open>what a lookup returns after each write\<close>

lemma load_store [simp, ledger_simps]:
  "load (store l e) k = (if k = LedgerEntryDataKey e then Some e else load l k)"
  by (simp add: load_def store_def update_conv')

lemma load_erase [ledger_simps]:
  "erase l k = Inr l' \<Longrightarrow> load l' k' = (if k' = k then None else load l k')"
  by (auto simp: erase_def load_def delete_conv' split: if_splits)

lemma load_create [ledger_simps]:
  "create l e = Inr l' \<Longrightarrow> load l' k = (if k = LedgerEntryDataKey e then Some e else load l k)"
  by (auto simp: create_def split: if_splits)

lemma header_store [simp]: "lg_header (store l e) = lg_header l"
  by (simp add: store_def)

lemma load_setHeader [simp]: "load (setHeader l h) k = load l k"
  by (simp add: load_def setHeader_def)

lemma header_setHeader [simp]: "lg_header (setHeader l h) = h"
  by (simp add: setHeader_def)

lemma create_header: "create l e = Inr l' \<Longrightarrow> lg_header l' = lg_header l"
  by (auto simp: create_def split: if_splits)

lemma erase_header: "erase l k = Inr l' \<Longrightarrow> lg_header l' = lg_header l"
  by (auto simp: erase_def split: if_splits)

lemma keyed_load: "\<lbrakk>keyed l; load l k = Some e\<rbrakk> \<Longrightarrow> LedgerEntryDataKey e = k"
  by (auto simp: keyed_def load_def dest: map_of_SomeD)

lemma set_alist_update: "set (AList.update k v al) \<subseteq> insert (k, v) (set al)"
  by (induction al) auto

lemma keyed_store: "keyed l \<Longrightarrow> keyed (store l e)"
  using distinct_update [of "lg_entries l" "LedgerEntryDataKey e" e]
    set_alist_update [of "LedgerEntryDataKey e" e "lg_entries l"]
  by (auto simp: keyed_def store_def)

lemma keyed_create: "\<lbrakk>keyed l; create l e = Inr l'\<rbrakk> \<Longrightarrow> keyed l'"
  by (auto simp: create_def keyed_store split: if_splits)

lemma keyed_erase: "\<lbrakk>keyed l; erase l k = Inr l'\<rbrakk> \<Longrightarrow> keyed l'"
  by (auto simp: keyed_def erase_def AList.delete_eq distinct_map_filter split: if_splits)

end
