(* ===== verification/Balances.thy ===== *)
theory Balances
  imports Ledger_State
begin

section \<open>Balances, liabilities and reserves (src/src/transactions/TransactionUtils.cpp)\<close>

text \<open>
  The functions of \<^verbatim>\<open>TransactionUtils.cpp\<close> that read or change one entry. A function that
  mutates its entry and returns a \<^verbatim>\<open>bool\<close> returns the changed entry or \<^const>\<open>None\<close> for false;
  a throw is an error. The contract between the two directions, how much an entry can give or
  take and whether \<^verbatim>\<open>addBalance\<close> succeeds, is the locale \<open>asset_holder\<close>; accounts and trust
  lines are shown to provide it.
\<close>

definition unknownEntry :: cpp_error where
  "unknownEntry = RuntimeError ''Unknown LedgerEntry type''"

definition liabilitiesBefore10 :: cpp_error where
  "liabilitiesBefore10 = RuntimeError ''Liabilities accessed before version 10''"

definition ext_buying :: "Liabilities option \<Rightarrow> int" where
  "ext_buying x = (case x of None \<Rightarrow> 0 | Some l \<Rightarrow> liab_buying l)"

definition ext_selling :: "Liabilities option \<Rightarrow> int" where
  "ext_selling x = (case x of None \<Rightarrow> 0 | Some l \<Rightarrow> liab_selling l)"

definition getBuyingLiabilities :: "LedgerHeader \<Rightarrow> LedgerEntryData \<Rightarrow> cpp_error + int" where
  "getBuyingLiabilities h e =
     (if lh_ledgerVersion h < 10 then Inl liabilitiesBefore10
      else case e of ACCOUNT a \<Rightarrow> Inr (ext_buying (ac_ext a))
                   | TRUSTLINE t \<Rightarrow> Inr (ext_buying (tl_ext t))
                   | _ \<Rightarrow> Inl unknownEntry)"

definition getSellingLiabilities :: "LedgerHeader \<Rightarrow> LedgerEntryData \<Rightarrow> cpp_error + int" where
  "getSellingLiabilities h e =
     (if lh_ledgerVersion h < 10 then Inl liabilitiesBefore10
      else case e of ACCOUNT a \<Rightarrow> Inr (ext_selling (ac_ext a))
                   | TRUSTLINE t \<Rightarrow> Inr (ext_selling (tl_ext t))
                   | _ \<Rightarrow> Inl unknownEntry)"

text \<open>\<^verbatim>\<open>ownerCount\<close> and \<^verbatim>\<open>baseReserve\<close> are \<^verbatim>\<open>uint32_t\<close>: until version 8 the whole product wraps
  at 32 bits, afterwards only the sum does.\<close>

definition getMinBalance :: "LedgerHeader \<Rightarrow> int \<Rightarrow> int" where
  "getMinBalance h ownerCount =
     (if lh_ledgerVersion h \<le> 8
      then ((2 + ownerCount) mod 2 ^ 32 * lh_baseReserve h) mod 2 ^ 32
      else (2 + ownerCount) mod 2 ^ 32 * lh_baseReserve h)"

definition isAuthorized :: "TrustLineEntry \<Rightarrow> bool" where
  "isAuthorized t \<longleftrightarrow> tl_flags t AND AUTHORIZED_FLAG \<noteq> 0"

definition setAuthorized :: "TrustLineEntry \<Rightarrow> bool \<Rightarrow> TrustLineEntry" where
  "setAuthorized t authorized =
     t\<lparr>tl_flags := (if authorized then tl_flags t OR AUTHORIZED_FLAG
                   else tl_flags t AND NOT AUTHORIZED_FLAG)\<rparr>"

definition isAuthRequired :: "AccountEntry \<Rightarrow> bool" where
  "isAuthRequired a \<longleftrightarrow> ac_flags a AND AUTH_REQUIRED_FLAG \<noteq> 0"

definition isImmutableAuth :: "AccountEntry \<Rightarrow> bool" where
  "isImmutableAuth a \<longleftrightarrow> ac_flags a AND AUTH_IMMUTABLE_FLAG \<noteq> 0"

definition getAvailableBalance :: "LedgerHeader \<Rightarrow> LedgerEntryData \<Rightarrow> cpp_error + int" where
  "getAvailableBalance h e =
     bindE (case e of
         ACCOUNT a \<Rightarrow> Inr (ac_balance a - getMinBalance h (ac_numSubEntries a))
       | TRUSTLINE t \<Rightarrow> Inr (tl_balance t)
       | _ \<Rightarrow> Inl unknownEntry) (\<lambda>avail.
     if lh_ledgerVersion h \<ge> 10
     then bindE (getSellingLiabilities h e) (\<lambda>s. Inr (avail - s))
     else Inr avail)"

definition getMaxAmountReceive :: "LedgerHeader \<Rightarrow> LedgerEntryData \<Rightarrow> cpp_error + int" where
  "getMaxAmountReceive h e = (case e of
       ACCOUNT a \<Rightarrow>
         if lh_ledgerVersion h \<ge> 10
         then bindE (getBuyingLiabilities h e) (\<lambda>b. Inr (INT64_MAX - (ac_balance a + b)))
         else Inr INT64_MAX
     | TRUSTLINE t \<Rightarrow>
         if isAuthorized t then
           let amount = tl_limit t - tl_balance t in
           if lh_ledgerVersion h \<ge> 10
           then bindE (getBuyingLiabilities h e) (\<lambda>b. Inr (amount - b))
           else Inr amount
         else Inr 0
     | _ \<Rightarrow> Inl unknownEntry)"

definition getMinimumLimit :: "LedgerHeader \<Rightarrow> TrustLineEntry \<Rightarrow> cpp_error + int" where
  "getMinimumLimit h t =
     (if lh_ledgerVersion h \<ge> 10
      then bindE (getBuyingLiabilities h (TRUSTLINE t)) (\<lambda>b. Inr (tl_balance t + b))
      else Inr (tl_balance t))"

text \<open>\<^verbatim>\<open>addBalance(LedgerTxnHeader const&, LedgerTxnEntry&, int64_t)\<close>.\<close>

definition addBalanceEntry ::
    "LedgerHeader \<Rightarrow> LedgerEntryData \<Rightarrow> int \<Rightarrow> cpp_error + LedgerEntryData option" where
  "addBalanceEntry h e delta = (case e of
       ACCOUNT acc \<Rightarrow>
         if delta = 0 then Inr (Some e)
         else bindE (addBalance (ac_balance acc) delta INT64_MAX) (\<lambda>r. case r of
             None \<Rightarrow> Inr None
           | Some newBalance \<Rightarrow>
               if lh_ledgerVersion h \<ge> 10 then
                 let minBalance = getMinBalance h (ac_numSubEntries acc) in
                 bindE (getSellingLiabilities h e) (\<lambda>s.
                 if delta < 0 \<and> newBalance - minBalance < s then Inr None
                 else bindE (getBuyingLiabilities h e) (\<lambda>b.
                 if newBalance > INT64_MAX - b then Inr None
                 else Inr (Some (ACCOUNT (acc\<lparr>ac_balance := newBalance\<rparr>)))))
               else Inr (Some (ACCOUNT (acc\<lparr>ac_balance := newBalance\<rparr>))))
     | TRUSTLINE line \<Rightarrow>
         if delta = 0 then Inr (Some e)
         else if \<not> isAuthorized line then Inr None
         else bindE (addBalance (tl_balance line) delta (tl_limit line)) (\<lambda>r. case r of
             None \<Rightarrow> Inr None
           | Some newBalance \<Rightarrow>
               if lh_ledgerVersion h \<ge> 10 then
                 bindE (getSellingLiabilities h e) (\<lambda>s.
                 if newBalance < s then Inr None
                 else bindE (getBuyingLiabilities h e) (\<lambda>b.
                 if newBalance > tl_limit line - b then Inr None
                 else Inr (Some (TRUSTLINE (line\<lparr>tl_balance := newBalance\<rparr>)))))
               else Inr (Some (TRUSTLINE (line\<lparr>tl_balance := newBalance\<rparr>))))
     | _ \<Rightarrow> Inl unknownEntry)"

text \<open>Writing a liability turns an extension of version 0 into one of version 1.\<close>

definition set_buying :: "Liabilities option \<Rightarrow> int \<Rightarrow> Liabilities option" where
  "set_buying x b = (case x of None \<Rightarrow> Some \<lparr>liab_buying = b, liab_selling = 0\<rparr>
                             | Some l \<Rightarrow> Some (l\<lparr>liab_buying := b\<rparr>))"

definition set_selling :: "Liabilities option \<Rightarrow> int \<Rightarrow> Liabilities option" where
  "set_selling x s = (case x of None \<Rightarrow> Some \<lparr>liab_buying = 0, liab_selling = s\<rparr>
                              | Some l \<Rightarrow> Some (l\<lparr>liab_selling := s\<rparr>))"

definition addBuyingLiabilities ::
    "LedgerHeader \<Rightarrow> LedgerEntryData \<Rightarrow> int \<Rightarrow> cpp_error + LedgerEntryData option" where
  "addBuyingLiabilities h e delta =
     bindE (getBuyingLiabilities h e) (\<lambda>buyingLiab.
     if delta = 0 then Inr (Some e)
     else case e of
         ACCOUNT acc \<Rightarrow>
           let maxLiabilities = INT64_MAX - ac_balance acc in
           bindE (addBalance buyingLiab delta maxLiabilities) (\<lambda>r.
           Inr (map_option (\<lambda>b. ACCOUNT (acc\<lparr>ac_ext := set_buying (ac_ext acc) b\<rparr>)) r))
       | TRUSTLINE line \<Rightarrow>
           if \<not> isAuthorized line then Inr None
           else
             let maxLiabilities = tl_limit line - tl_balance line in
             bindE (addBalance buyingLiab delta maxLiabilities) (\<lambda>r.
             Inr (map_option (\<lambda>b. TRUSTLINE (line\<lparr>tl_ext := set_buying (tl_ext line) b\<rparr>)) r))
       | _ \<Rightarrow> Inl unknownEntry)"

definition addSellingLiabilities ::
    "LedgerHeader \<Rightarrow> LedgerEntryData \<Rightarrow> int \<Rightarrow> cpp_error + LedgerEntryData option" where
  "addSellingLiabilities h e delta =
     bindE (getSellingLiabilities h e) (\<lambda>sellingLiab.
     if delta = 0 then Inr (Some e)
     else case e of
         ACCOUNT acc \<Rightarrow>
           let maxLiabilities = ac_balance acc - getMinBalance h (ac_numSubEntries acc) in
           if maxLiabilities < 0 then Inr None
           else bindE (addBalance sellingLiab delta maxLiabilities) (\<lambda>r.
           Inr (map_option (\<lambda>s. ACCOUNT (acc\<lparr>ac_ext := set_selling (ac_ext acc) s\<rparr>)) r))
       | TRUSTLINE line \<Rightarrow>
           if \<not> isAuthorized line then Inr None
           else
             let maxLiabilities = tl_balance line in
             bindE (addBalance sellingLiab delta maxLiabilities) (\<lambda>r.
             Inr (map_option (\<lambda>s. TRUSTLINE (line\<lparr>tl_ext := set_selling (tl_ext line) s\<rparr>)) r))
       | _ \<Rightarrow> Inl unknownEntry)"

definition addNumEntries :: "LedgerHeader \<Rightarrow> AccountEntry \<Rightarrow> int \<Rightarrow> cpp_error + AccountEntry option" where
  "addNumEntries h acc count =
     (let newEntriesCount = to_int32 (ac_numSubEntries acc + count) in
      if newEntriesCount < 0 then Inl (RuntimeError ''invalid account state'')
      else
        let effMinBalance = getMinBalance h newEntriesCount in
        bindE (if lh_ledgerVersion h \<ge> 10
               then bindE (getSellingLiabilities h (ACCOUNT acc)) (\<lambda>s. Inr (effMinBalance + s))
               else Inr effMinBalance) (\<lambda>effMinBalance.
        if count > 0 \<and> ac_balance acc < effMinBalance then Inr None
        else Inr (Some (acc\<lparr>ac_numSubEntries := newEntriesCount\<rparr>))))"

definition generateID :: "LedgerHeader \<Rightarrow> u64 \<times> LedgerHeader" where
  "generateID h = (lh_idPool h + 1, h\<lparr>lh_idPool := lh_idPool h + 1\<rparr>)"

definition getStartingSequenceNumber :: "LedgerHeader \<Rightarrow> u64" where
  "getStartingSequenceNumber h = push_bit 32 (of_int (lh_ledgerSeq h))"

definition normalizeSigners :: "AccountEntry \<Rightarrow> AccountEntry" where
  "normalizeSigners acc = acc\<lparr>ac_signers := sort_key sg_key (ac_signers acc)\<rparr>"

definition offerBefore10 :: cpp_error where
  "offerBefore10 = RuntimeError ''Offer liabilities calculated before version 10''"

definition getOfferBuyingLiabilities :: "LedgerHeader \<Rightarrow> OfferEntry \<Rightarrow> cpp_error + int" where
  "getOfferBuyingLiabilities h oe =
     (if lh_ledgerVersion h < 10 then Inl offerBefore10
      else bindE (exchangeV10WithoutPriceErrorThresholds (of_price oe) (of_amount oe) INT64_MAX
                    INT64_MAX INT64_MAX False) (\<lambda>res. Inr (x10_numSheepSend res)))"

definition getOfferSellingLiabilities :: "LedgerHeader \<Rightarrow> OfferEntry \<Rightarrow> cpp_error + int" where
  "getOfferSellingLiabilities h oe =
     (if lh_ledgerVersion h < 10 then Inl offerBefore10
      else bindE (exchangeV10WithoutPriceErrorThresholds (of_price oe) (of_amount oe) INT64_MAX
                    INT64_MAX INT64_MAX False) (\<lambda>res. Inr (x10_numWheatReceived res)))"

subsection \<open>Well-formed entries\<close>

definition header_ok :: "LedgerHeader \<Rightarrow> bool" where
  "header_ok h \<longleftrightarrow> lh_ledgerVersion h \<ge> 10 \<and> 0 \<le> lh_baseReserve h \<and> lh_baseReserve h \<le> UINT32_MAX"

definition account_ok :: "AccountEntry \<Rightarrow> bool" where
  "account_ok a \<longleftrightarrow> 0 \<le> ac_balance a \<and> 0 \<le> ext_buying (ac_ext a) \<and> 0 \<le> ext_selling (ac_ext a)
     \<and> ac_balance a + ext_buying (ac_ext a) \<le> INT64_MAX
     \<and> 0 \<le> ac_numSubEntries a \<and> ac_numSubEntries a \<le> INT32_MAX"

definition trustline_ok :: "TrustLineEntry \<Rightarrow> bool" where
  "trustline_ok t \<longleftrightarrow> 0 \<le> ext_buying (tl_ext t) \<and> 0 \<le> ext_selling (tl_ext t)
     \<and> ext_selling (tl_ext t) \<le> tl_balance t
     \<and> tl_balance t + ext_buying (tl_ext t) \<le> tl_limit t \<and> tl_limit t \<le> INT64_MAX"

definition offer_ok :: "OfferEntry \<Rightarrow> bool" where
  "offer_ok oe \<longleftrightarrow> price_ok (of_price oe) \<and> 0 < of_amount oe \<and> of_amount oe \<le> INT64_MAX
     \<and> of_buying oe \<noteq> of_selling oe"

definition entry_ok :: "LedgerEntryData \<Rightarrow> bool" where
  "entry_ok e = (case e of ACCOUNT a \<Rightarrow> account_ok a | TRUSTLINE t \<Rightarrow> trustline_ok t
     | OFFER oe \<Rightarrow> offer_ok oe | DATA _ \<Rightarrow> True)"

lemma entry_ok_simps [simp]:
  "entry_ok (ACCOUNT a) = account_ok a" "entry_ok (TRUSTLINE t) = trustline_ok t"
  "entry_ok (OFFER oe) = offer_ok oe" "entry_ok (DATA d) = True"
  by (simp_all add: entry_ok_def)

lemma getMinBalance_nonneg: "header_ok h \<Longrightarrow> 0 \<le> getMinBalance h n"
  by (simp add: header_ok_def getMinBalance_def)

lemma ext_set [simp]:
  "ext_buying (set_buying x b) = b" "ext_selling (set_buying x b) = ext_selling x"
  "ext_selling (set_selling x b) = b" "ext_buying (set_selling x b) = ext_buying x"
  by (simp_all add: ext_buying_def ext_selling_def set_buying_def set_selling_def split: option.splits)

lemma getBuyingLiabilities_simps [simp]:
  assumes "header_ok h"
  shows "getBuyingLiabilities h (ACCOUNT a) = Inr (ext_buying (ac_ext a))"
    "getBuyingLiabilities h (TRUSTLINE t) = Inr (ext_buying (tl_ext t))"
    "getSellingLiabilities h (ACCOUNT a) = Inr (ext_selling (ac_ext a))"
    "getSellingLiabilities h (TRUSTLINE t) = Inr (ext_selling (tl_ext t))"
  using assms by (simp_all add: getBuyingLiabilities_def getSellingLiabilities_def header_ok_def)

text \<open>How much an account or an authorised trust line can still give and take.\<close>

definition acc_available :: "LedgerHeader \<Rightarrow> AccountEntry \<Rightarrow> int" where
  "acc_available h a = ac_balance a - getMinBalance h (ac_numSubEntries a) - ext_selling (ac_ext a)"

definition acc_room :: "AccountEntry \<Rightarrow> int" where
  "acc_room a = INT64_MAX - (ac_balance a + ext_buying (ac_ext a))"

definition tl_available :: "TrustLineEntry \<Rightarrow> int" where
  "tl_available t = tl_balance t - ext_selling (tl_ext t)"

definition tl_room :: "TrustLineEntry \<Rightarrow> int" where
  "tl_room t = tl_limit t - tl_balance t - ext_buying (tl_ext t)"

lemmas holder_defs = acc_available_def acc_room_def tl_available_def tl_room_def

lemma getAvailableBalance_exact [simp]:
  assumes "header_ok h"
  shows "getAvailableBalance h (ACCOUNT a) = Inr (acc_available h a)"
    "getAvailableBalance h (TRUSTLINE t) = Inr (tl_available t)"
  using assms by (simp_all add: getAvailableBalance_def holder_defs) (simp_all add: header_ok_def)

lemma getMaxAmountReceive_exact [simp]:
  assumes "header_ok h"
  shows "getMaxAmountReceive h (ACCOUNT a) = Inr (acc_room a)"
    "getMaxAmountReceive h (TRUSTLINE t) = Inr (if isAuthorized t then tl_room t else 0)"
  using assms by (simp_all add: getMaxAmountReceive_def holder_defs Let_def) (simp_all add: header_ok_def)

lemma addBalanceEntry_account:
  assumes "header_ok h" "account_ok a"
  shows "addBalanceEntry h (ACCOUNT a) d =
     Inr (if d = 0 \<or> (d < 0 \<and> - d \<le> acc_available h a) \<or> (d > 0 \<and> d \<le> acc_room a)
          then Some (ACCOUNT (a\<lparr>ac_balance := ac_balance a + d\<rparr>)) else None)"
proof -
  have v: "lh_ledgerVersion h \<ge> 10" using assms(1) by (simp add: header_ok_def)
  have "0 \<le> getMinBalance h (ac_numSubEntries a)" by (rule getMinBalance_nonneg [OF assms(1)])
  then show ?thesis
    using assms v by (auto simp: addBalanceEntry_def addBalance_eq account_ok_def holder_defs Let_def)
qed

lemma addBalanceEntry_trustline:
  assumes "header_ok h" "trustline_ok t"
  shows "addBalanceEntry h (TRUSTLINE t) d =
     Inr (if d = 0 \<or> isAuthorized t \<and> (- d \<le> tl_available t \<and> d \<le> tl_room t)
          then Some (TRUSTLINE (t\<lparr>tl_balance := tl_balance t + d\<rparr>)) else None)"
proof -
  have v: "lh_ledgerVersion h \<ge> 10" using assms(1) by (simp add: header_ok_def)
  then show ?thesis
    using assms by (auto simp: addBalanceEntry_def addBalance_eq trustline_ok_def holder_defs Let_def)
qed

lemma addBuyingLiabilities_account:
  assumes "header_ok h" "account_ok a"
  shows "addBuyingLiabilities h (ACCOUNT a) d =
     Inr (if d = 0 then Some (ACCOUNT a)
          else if 0 \<le> ext_buying (ac_ext a) + d \<and> d \<le> acc_room a
          then Some (ACCOUNT (a\<lparr>ac_ext := set_buying (ac_ext a) (ext_buying (ac_ext a) + d)\<rparr>)) else None)"
  using assms by (auto simp: addBuyingLiabilities_def addBalance_eq account_ok_def holder_defs Let_def)

lemma addBuyingLiabilities_trustline:
  assumes "header_ok h" "trustline_ok t"
  shows "addBuyingLiabilities h (TRUSTLINE t) d =
     Inr (if d = 0 then Some (TRUSTLINE t)
          else if isAuthorized t \<and> 0 \<le> ext_buying (tl_ext t) + d \<and> d \<le> tl_room t
          then Some (TRUSTLINE (t\<lparr>tl_ext := set_buying (tl_ext t) (ext_buying (tl_ext t) + d)\<rparr>)) else None)"
  using assms by (auto simp: addBuyingLiabilities_def addBalance_eq trustline_ok_def holder_defs Let_def)

lemma addSellingLiabilities_account:
  assumes "header_ok h" "account_ok a"
  shows "addSellingLiabilities h (ACCOUNT a) d =
     Inr (if d = 0 then Some (ACCOUNT a)
          else if ac_balance a < getMinBalance h (ac_numSubEntries a) then None
          else if 0 \<le> ext_selling (ac_ext a) + d \<and> d \<le> acc_available h a
          then Some (ACCOUNT (a\<lparr>ac_ext := set_selling (ac_ext a) (ext_selling (ac_ext a) + d)\<rparr>)) else None)"
  using assms by (auto simp: addSellingLiabilities_def addBalance_eq account_ok_def holder_defs Let_def)

lemma addSellingLiabilities_trustline:
  assumes "header_ok h" "trustline_ok t"
  shows "addSellingLiabilities h (TRUSTLINE t) d =
     Inr (if d = 0 then Some (TRUSTLINE t)
          else if isAuthorized t \<and> 0 \<le> ext_selling (tl_ext t) + d \<and> d \<le> tl_available t
          then Some (TRUSTLINE (t\<lparr>tl_ext := set_selling (tl_ext t) (ext_selling (tl_ext t) + d)\<rparr>)) else None)"
  using assms by (auto simp: addSellingLiabilities_def addBalance_eq trustline_ok_def holder_defs Let_def)

subsection \<open>The contract of an asset holder\<close>

text \<open>
  What the exchange and the payment code rely on: \<open>available\<close> and \<open>room\<close> tell exactly whether
  an amount can be taken from or given to a holder, and taking an amount makes room for it.
\<close>

locale asset_holder =
  fixes ok :: "'s \<Rightarrow> bool"
    and available :: "'s \<Rightarrow> int"
    and room :: "'s \<Rightarrow> int"
    and add :: "'s \<Rightarrow> int \<Rightarrow> cpp_error + 's option"
  assumes add_zero: "ok s \<Longrightarrow> add s 0 = Inr (Some s)"
    and debit: "\<lbrakk>ok s; 0 < x; x \<le> available s\<rbrakk> \<Longrightarrow>
      \<exists>s'. add s (- x) = Inr (Some s') \<and> ok s' \<and> available s - x \<le> available s'
           \<and> min INT64_MAX (room s + x) \<le> room s'"
    and debit_refused: "\<lbrakk>ok s; available s < x; 0 < x; x \<le> INT64_MAX\<rbrakk> \<Longrightarrow> add s (- x) = Inr None"
    and credit: "\<lbrakk>ok s; 0 < x; x \<le> room s\<rbrakk> \<Longrightarrow>
      \<exists>s'. add s x = Inr (Some s') \<and> ok s' \<and> room s - x \<le> room s'
           \<and> min INT64_MAX (available s + x) \<le> available s'"
    and credit_refused: "\<lbrakk>ok s; room s < x; 0 < x; x \<le> INT64_MAX\<rbrakk> \<Longrightarrow> add s x = Inr None"
    and room_nonneg: "ok s \<Longrightarrow> 0 \<le> room s"
begin

lemma add_never_throws:
  assumes "ok s" "\<bar>d\<bar> \<le> INT64_MAX"
  shows "\<exists>r. add s d = Inr r \<and> (\<forall>s'. r = Some s' \<longrightarrow> ok s')"
proof -
  consider "d = 0" | "0 < - d" "- d \<le> available s" | "0 < - d" "available s < - d"
    | "0 < d" "d \<le> room s" | "0 < d" "room s < d" by linarith
  then show ?thesis
  proof cases
    case 1 then show ?thesis using add_zero [OF assms(1)] assms(1) by simp
  next
    case 2 then show ?thesis using debit [OF assms(1) 2] by auto
  next
    case 3 then show ?thesis using debit_refused [of s "- d"] assms by simp
  next
    case 4 then show ?thesis using credit [OF assms(1) 4] by auto
  next
    case 5 then show ?thesis using credit_refused [of s d] assms by simp
  qed
qed

lemma take_back:
  assumes "ok s" "0 < x" "x \<le> available s" "x \<le> INT64_MAX"
  obtains s' s'' where "add s (- x) = Inr (Some s')" "add s' x = Inr (Some s'')" "ok s''"
proof -
  obtain s' where s': "add s (- x) = Inr (Some s')" "ok s'" "min INT64_MAX (room s + x) \<le> room s'"
    using debit [OF assms(1-3)] by blast
  then have "x \<le> room s'" using assms(4) room_nonneg [OF assms(1)] by linarith
  then obtain s'' where "add s' x = Inr (Some s'')" "ok s''" using credit [OF s'(2) assms(2)] by blast
  with s' show ?thesis using that by blast
qed

lemma transfer:
  assumes "ok a" "ok b" "0 < x" "x \<le> available a" "x \<le> room b"
  obtains a' b' where "add a (- x) = Inr (Some a')" "add b x = Inr (Some b')" "ok a'" "ok b'"
  using debit [OF assms(1,3,4)] credit [OF assms(2,3,5)] by blast

end

text \<open>Accounts and authorised trust lines are asset holders.\<close>

definition entry_available :: "LedgerHeader \<times> LedgerEntryData \<Rightarrow> int" where
  "entry_available s = (case getAvailableBalance (fst s) (snd s) of Inr v \<Rightarrow> v | Inl _ \<Rightarrow> 0)"

definition entry_room :: "LedgerHeader \<times> LedgerEntryData \<Rightarrow> int" where
  "entry_room s = (case getMaxAmountReceive (fst s) (snd s) of Inr v \<Rightarrow> v | Inl _ \<Rightarrow> 0)"

definition entry_add ::
    "LedgerHeader \<times> LedgerEntryData \<Rightarrow> int \<Rightarrow> cpp_error + (LedgerHeader \<times> LedgerEntryData) option" where
  "entry_add s d = bindE (addBalanceEntry (fst s) (snd s) d) (\<lambda>r. Inr (map_option (Pair (fst s)) r))"

definition holder_ok :: "LedgerHeader \<times> LedgerEntryData \<Rightarrow> bool" where
  "holder_ok s \<longleftrightarrow> header_ok (fst s) \<and> (case snd s of ACCOUNT a \<Rightarrow> account_ok a
     | TRUSTLINE t \<Rightarrow> trustline_ok t \<and> isAuthorized t | _ \<Rightarrow> False)"

lemma isAuthorized_update [simp]:
  "isAuthorized (t\<lparr>tl_balance := b\<rparr>) = isAuthorized t" "isAuthorized (t\<lparr>tl_ext := x\<rparr>) = isAuthorized t"
  by (simp_all add: isAuthorized_def)

lemma holder_cases:
  assumes "holder_ok s"
  obtains (account) h a where "s = (h, ACCOUNT a)" "header_ok h" "account_ok a"
    | (trustline) h t where "s = (h, TRUSTLINE t)" "header_ok h" "trustline_ok t" "isAuthorized t"
  using assms by (cases s; cases "snd s") (auto simp: holder_ok_def)

lemma entry_views [simp]:
  assumes "header_ok h"
  shows "entry_available (h, ACCOUNT a) = acc_available h a"
    "entry_available (h, TRUSTLINE t) = tl_available t"
    "entry_room (h, ACCOUNT a) = acc_room a"
    "entry_room (h, TRUSTLINE t) = (if isAuthorized t then tl_room t else 0)"
  using assms by (simp_all add: entry_available_def entry_room_def)

lemma entry_add_account:
  "\<lbrakk>header_ok h; account_ok a\<rbrakk> \<Longrightarrow> entry_add (h, ACCOUNT a) d =
     Inr (if d = 0 \<or> (d < 0 \<and> - d \<le> acc_available h a) \<or> (d > 0 \<and> d \<le> acc_room a)
          then Some (h, ACCOUNT (a\<lparr>ac_balance := ac_balance a + d\<rparr>)) else None)"
  by (simp add: entry_add_def addBalanceEntry_account)

lemma entry_add_trustline:
  "\<lbrakk>header_ok h; trustline_ok t; isAuthorized t\<rbrakk> \<Longrightarrow> entry_add (h, TRUSTLINE t) d =
     Inr (if d = 0 \<or> (- d \<le> tl_available t \<and> d \<le> tl_room t)
          then Some (h, TRUSTLINE (t\<lparr>tl_balance := tl_balance t + d\<rparr>)) else None)"
  by (simp add: entry_add_def addBalanceEntry_trustline)

lemma account_ok_add:
  "\<lbrakk>account_ok a; 0 \<le> ac_balance a + d; d \<le> acc_room a\<rbrakk> \<Longrightarrow>
     account_ok (a\<lparr>ac_balance := ac_balance a + d\<rparr>)"
  by (auto simp: account_ok_def holder_defs)

lemma trustline_ok_add:
  "\<lbrakk>trustline_ok t; - d \<le> tl_available t; d \<le> tl_room t\<rbrakk> \<Longrightarrow>
     trustline_ok (t\<lparr>tl_balance := tl_balance t + d\<rparr>)"
  by (auto simp: trustline_ok_def holder_defs)

lemma acc_views_add [simp]:
  "acc_available h (a\<lparr>ac_balance := b\<rparr>) = acc_available h a + (b - ac_balance a)"
  "acc_room (a\<lparr>ac_balance := b\<rparr>) = acc_room a - (b - ac_balance a)"
  "tl_available (t\<lparr>tl_balance := b\<rparr>) = tl_available t + (b - tl_balance t)"
  "tl_room (t\<lparr>tl_balance := b\<rparr>) = tl_room t - (b - tl_balance t)"
  by (simp_all add: holder_defs)

lemma holder_nonneg:
  "account_ok a \<Longrightarrow> 0 \<le> acc_room a"
  "\<lbrakk>header_ok h; account_ok a\<rbrakk> \<Longrightarrow> acc_available h a \<le> ac_balance a"
  "trustline_ok t \<Longrightarrow> 0 \<le> tl_room t" "trustline_ok t \<Longrightarrow> 0 \<le> tl_available t"
  using getMinBalance_nonneg [of h "ac_numSubEntries a"]
  by (auto simp: account_ok_def trustline_ok_def holder_defs)

interpretation entry_holder: asset_holder holder_ok entry_available entry_room entry_add
proof
  fix s x assume ok: "holder_ok s" and x: "0 < (x :: int)"
  show "\<exists>s'. entry_add s (- x) = Inr (Some s') \<and> holder_ok s'
      \<and> entry_available s - x \<le> entry_available s' \<and> min INT64_MAX (entry_room s + x) \<le> entry_room s'"
    if "x \<le> entry_available s"
    using ok
  proof (cases rule: holder_cases)
    case (account h a)
    then show ?thesis using that x holder_nonneg(2) [of h a] holder_nonneg(1) [of a]
      by (auto simp: entry_add_account holder_ok_def intro!: account_ok_add [of _ "- x", simplified])
  next
    case (trustline h t)
    then show ?thesis using that x holder_nonneg(3,4) [of t]
      by (auto simp: entry_add_trustline holder_ok_def intro!: trustline_ok_add [of _ "- x", simplified])
  qed
  show "\<exists>s'. entry_add s x = Inr (Some s') \<and> holder_ok s'
      \<and> entry_room s - x \<le> entry_room s' \<and> min INT64_MAX (entry_available s + x) \<le> entry_available s'"
    if "x \<le> entry_room s"
    using ok
  proof (cases rule: holder_cases)
    case (account h a)
    then show ?thesis using that x
      by (auto simp: entry_add_account holder_ok_def intro!: account_ok_add)
        (simp add: account_ok_def)
  next
    case (trustline h t)
    then show ?thesis using that x holder_nonneg(3,4) [of t]
      by (auto simp: entry_add_trustline holder_ok_def intro!: trustline_ok_add)
  qed
qed (auto elim!: holder_cases simp: entry_add_account entry_add_trustline holder_nonneg)

subsection \<open>Properties of the entry operations\<close>

text \<open>From protocol 10 on, \<^verbatim>\<open>addBalance\<close> on an account or an authorised trust line succeeds
  exactly when \<^verbatim>\<open>getAvailableBalance\<close> and \<^verbatim>\<open>getMaxAmountReceive\<close> say it can, never throws, and
  changes the balance by the amount asked and nothing else. A debit is bounded by the balance
  above reserve and selling liabilities, a credit by the limit below buying liabilities.\<close>

theorem addBalance_iff_available:
  assumes "header_ok h" "account_ok a" "trustline_ok t" "isAuthorized t"
    and "getAvailableBalance h (ACCOUNT a) = Inr av" "getMaxAmountReceive h (ACCOUNT a) = Inr rm"
    and "getAvailableBalance h (TRUSTLINE t) = Inr tav" "getMaxAmountReceive h (TRUSTLINE t) = Inr trm"
  shows "addBalanceEntry h (ACCOUNT a) d =
      Inr (if d = 0 \<or> (if d < 0 then - d \<le> av else d \<le> rm)
           then Some (ACCOUNT (a\<lparr>ac_balance := ac_balance a + d\<rparr>)) else None)
    \<and> addBalanceEntry h (TRUSTLINE t) d =
      Inr (if d = 0 \<or> (if d < 0 then - d \<le> tav else d \<le> trm)
           then Some (TRUSTLINE (t\<lparr>tl_balance := tl_balance t + d\<rparr>)) else None)"
  using assms holder_nonneg(3,4) [of t]
  by (auto simp: addBalanceEntry_account addBalanceEntry_trustline)

lemma liabilities_ok:
  "\<lbrakk>account_ok a; 0 \<le> b; b \<le> INT64_MAX - ac_balance a\<rbrakk> \<Longrightarrow> account_ok (a\<lparr>ac_ext := set_buying (ac_ext a) b\<rparr>)"
  "\<lbrakk>account_ok a; 0 \<le> b\<rbrakk> \<Longrightarrow> account_ok (a\<lparr>ac_ext := set_selling (ac_ext a) b\<rparr>)"
  "\<lbrakk>trustline_ok t; 0 \<le> b; b \<le> tl_limit t - tl_balance t\<rbrakk> \<Longrightarrow>
     trustline_ok (t\<lparr>tl_ext := set_buying (tl_ext t) b\<rparr>)"
  "\<lbrakk>trustline_ok t; 0 \<le> b; b \<le> tl_balance t\<rbrakk> \<Longrightarrow>
     trustline_ok (t\<lparr>tl_ext := set_selling (tl_ext t) b\<rparr>)"
  by (auto simp: account_ok_def trustline_ok_def)

lemma addBalanceEntry_ok:
  assumes "header_ok h" "entry_ok e" "addBalanceEntry h e d = Inr (Some e')"
  shows "entry_ok e' \<and> LedgerEntryDataKey e' = LedgerEntryDataKey e"
proof (cases e)
  case (ACCOUNT a)
  then show ?thesis
    using assms holder_nonneg(1) [of a] holder_nonneg(2) [of h a]
    by (auto simp: addBalanceEntry_account intro!: account_ok_add split: if_splits)
      (auto simp: account_ok_def)
next
  case (TRUSTLINE t)
  then show ?thesis
    using assms holder_nonneg(3,4) [of t]
    by (auto simp: addBalanceEntry_trustline intro!: trustline_ok_add split: if_splits)
qed (use assms in \<open>auto simp: addBalanceEntry_def\<close>)

lemma addBuyingLiabilities_ok:
  assumes "header_ok h" "entry_ok e" "addBuyingLiabilities h e d = Inr (Some e')"
  shows "entry_ok e' \<and> LedgerEntryDataKey e' = LedgerEntryDataKey e"
proof (cases e)
  case (ACCOUNT a)
  then show ?thesis
    using assms by (auto simp: addBuyingLiabilities_account holder_defs intro!: liabilities_ok split: if_splits)
next
  case (TRUSTLINE t)
  then show ?thesis
    using assms by (auto simp: addBuyingLiabilities_trustline holder_defs intro!: liabilities_ok split: if_splits)
qed (use assms in \<open>auto simp: addBuyingLiabilities_def getBuyingLiabilities_def split: if_splits\<close>)

lemma addSellingLiabilities_ok:
  assumes "header_ok h" "entry_ok e" "addSellingLiabilities h e d = Inr (Some e')"
  shows "entry_ok e' \<and> LedgerEntryDataKey e' = LedgerEntryDataKey e"
proof (cases e)
  case (ACCOUNT a)
  then show ?thesis
    using assms by (auto simp: addSellingLiabilities_account holder_defs intro!: liabilities_ok split: if_splits)
next
  case (TRUSTLINE t)
  then show ?thesis
    using assms by (auto simp: addSellingLiabilities_trustline holder_defs intro!: liabilities_ok split: if_splits)
qed (use assms in \<open>auto simp: addSellingLiabilities_def getSellingLiabilities_def split: if_splits\<close>)

text \<open>C26. The entry invariant (balance, liabilities and limit fit together: \<^verbatim>\<open>selling <= balance\<close>
  and \<^verbatim>\<open>balance + buying <= limit\<close> of a trust line, \<^verbatim>\<open>balance + buying\<close> of an account within
  \<^verbatim>\<open>int64_t\<close>) is preserved by every operation that changes a balance or a liability, and none of
  them moves the entry to another key.\<close>

theorem entry_ops_preserve_ok:
  assumes "header_ok h" "entry_ok e"
    and "addBalanceEntry h e d = Inr (Some e') \<or> addBuyingLiabilities h e d = Inr (Some e')
       \<or> addSellingLiabilities h e d = Inr (Some e')"
  shows "entry_ok e' \<and> LedgerEntryDataKey e' = LedgerEntryDataKey e"
  using assms addBalanceEntry_ok addBuyingLiabilities_ok addSellingLiabilities_ok by blast

text \<open>A concrete header, account and trust line, at which the properties are instantiated.\<close>

definition ex_header :: LedgerHeader where
  "ex_header = \<lparr>lh_ledgerVersion = 10, lh_ledgerSeq = 7, lh_closeTime = 0, lh_totalCoins = 1000000,
     lh_feePool = 0, lh_inflationSeq = 0, lh_idPool = 0, lh_baseFee = 100, lh_baseReserve = 5,
     lh_maxTxSetSize = 50\<rparr>"

definition ex_thresholds :: Thresholds where
  "ex_thresholds = \<lparr>th_master = 1, th_low = 0, th_med = 0, th_high = 0\<rparr>"

definition ex_account :: AccountEntry where
  "ex_account = \<lparr>ac_accountID = 1, ac_balance = 1000, ac_seqNum = 0, ac_accountMarker = [],
     ac_numSubEntries = 2, ac_inflationDest = None, ac_flags = 0, ac_homeDomain = [],
     ac_thresholds = ex_thresholds, ac_signers = [],
     ac_ext = Some \<lparr>liab_buying = 10, liab_selling = 30\<rparr>\<rparr>"

definition ex_asset :: Asset where
  "ex_asset = ASSET_TYPE_CREDIT_ALPHANUM4 [85, 83, 68, 0] 9"

definition ex_trustline :: TrustLineEntry where
  "ex_trustline = \<lparr>tl_accountID = 1, tl_asset = ex_asset, tl_balance = 500, tl_limit = 2000,
     tl_flags = 1, tl_ext = None\<rparr>"

lemmas ex_defs = ex_header_def ex_account_def ex_thresholds_def ex_trustline_def ex_asset_def

lemma ex_ok: "header_ok ex_header" "account_ok ex_account" "trustline_ok ex_trustline"
    "isAuthorized ex_trustline"
  by (simp_all add: ex_defs header_ok_def account_ok_def trustline_ok_def ext_buying_def
      ext_selling_def isAuthorized_def flag_defs)

lemma ex_views:
  "acc_available ex_header ex_account = 950" "acc_room ex_account = INT64_MAX - 1010"
  "tl_available ex_trustline = 500" "tl_room ex_trustline = 1500"
  by (simp_all add: holder_defs ex_defs getMinBalance_def ext_buying_def ext_selling_def)

theorem addBalance_iff_available_witness:
  "addBalanceEntry ex_header (ACCOUNT ex_account) (- 951) = Inr None
   \<and> addBalanceEntry ex_header (TRUSTLINE ex_trustline) 1500 =
       Inr (Some (TRUSTLINE (ex_trustline\<lparr>tl_balance := tl_balance ex_trustline + 1500\<rparr>)))"
  using addBalance_iff_available [OF ex_ok getAvailableBalance_exact(1) [OF ex_ok(1)]
      getMaxAmountReceive_exact(1) [OF ex_ok(1)] getAvailableBalance_exact(2) [OF ex_ok(1)]
      getMaxAmountReceive_exact(2) [OF ex_ok(1)], of "- 951"]
    addBalance_iff_available [OF ex_ok getAvailableBalance_exact(1) [OF ex_ok(1)]
      getMaxAmountReceive_exact(1) [OF ex_ok(1)] getAvailableBalance_exact(2) [OF ex_ok(1)]
      getMaxAmountReceive_exact(2) [OF ex_ok(1)], of 1500]
  by (simp add: ex_views ex_ok)

theorem entry_ops_preserve_ok_witness:
  "entry_ok (ACCOUNT (ex_account\<lparr>ac_balance := 50\<rparr>))"
proof -
  have "addBalanceEntry ex_header (ACCOUNT ex_account) (- 950) = Inr (Some (ACCOUNT (ex_account\<lparr>ac_balance := 50\<rparr>)))"
    by (simp add: addBalanceEntry_account ex_ok ex_views) (simp add: ex_defs)
  then show ?thesis
    using entry_ops_preserve_ok [OF ex_ok(1), of "ACCOUNT ex_account" "- 950" "ACCOUNT (ex_account\<lparr>ac_balance := 50\<rparr>)"]
    by (simp add: ex_ok)
qed

lemma addNumEntries_ok:
  "\<lbrakk>account_ok a; addNumEntries h a c = Inr (Some a')\<rbrakk> \<Longrightarrow> account_ok a' \<and> ac_accountID a' = ac_accountID a"
  using to_int32_le [of "ac_numSubEntries a + c"]
  by (auto simp: addNumEntries_def Let_def account_ok_def split: if_splits)

lemma addNumEntries_exact:
  assumes "header_ok h" "account_ok a" "ac_numSubEntries a < INT32_MAX - 1"
  shows "addNumEntries h a 1 =
      Inr (if (3 + ac_numSubEntries a) * lh_baseReserve h + ext_selling (ac_ext a) \<le> ac_balance a
           then Some (a\<lparr>ac_numSubEntries := ac_numSubEntries a + 1\<rparr>) else None)
    \<and> (0 < ac_numSubEntries a \<longrightarrow>
       addNumEntries h a (- 1) = Inr (Some (a\<lparr>ac_numSubEntries := ac_numSubEntries a - 1\<rparr>)))"
proof -
  let ?n = "ac_numSubEntries a"
  have n: "0 \<le> ?n" using assms(2) by (simp add: account_ok_def)
  have t: "to_int32 (?n + 1) = ?n + 1" "to_int32 (?n - 1) = ?n - 1"
    using n assms(3) by (auto intro: to_int32_id)
  have v: "lh_ledgerVersion h \<ge> 10" using assms(1) by (simp add: header_ok_def)
  have m: "(2 + (?n + 1)) mod 2 ^ 32 = 3 + ?n" using n assms(3) by (subst mod_pos_pos_trivial) auto
  show ?thesis
    using assms n v t m by (auto simp: addNumEntries_def Let_def getMinBalance_def)
qed

lemma addNumEntries_remove:
  assumes "header_ok h" "account_ok a" "ac_numSubEntries a < INT32_MAX - 1" "0 < ac_numSubEntries a"
  shows "addNumEntries h a (- 1) = Inr (Some (a\<lparr>ac_numSubEntries := ac_numSubEntries a - 1\<rparr>))"
  using addNumEntries_exact [OF assms(1-3)] assms(4) by simp

text \<open>Adding a sub-entry: with fewer than \<^verbatim>\<open>INT32_MAX - 1\<close> sub-entries \<^verbatim>\<open>addNumEntries\<close> never
  throws; it counts the entry exactly when the balance covers the reserve of all entries,
  the new one included, on top of the selling liabilities; otherwise the account is unchanged.
  Removing a sub-entry always succeeds.\<close>

theorem addNumEntries_reserve:
  assumes "header_ok h" "account_ok a" "ac_numSubEntries a < INT32_MAX - 1"
  shows "addNumEntries h a 1 =
      Inr (if (3 + ac_numSubEntries a) * lh_baseReserve h + ext_selling (ac_ext a) \<le> ac_balance a
           then Some (a\<lparr>ac_numSubEntries := ac_numSubEntries a + 1\<rparr>) else None)
    \<and> (0 < ac_numSubEntries a \<longrightarrow>
       addNumEntries h a (- 1) = Inr (Some (a\<lparr>ac_numSubEntries := ac_numSubEntries a - 1\<rparr>)))"
  by (rule addNumEntries_exact [OF assms])

theorem addNumEntries_reserve_witness:
  "addNumEntries ex_header ex_account 1 = Inr (Some (ex_account\<lparr>ac_numSubEntries := 3\<rparr>))"
  using addNumEntries_reserve [OF ex_ok(1,2)] by (simp add: ex_defs ext_selling_def)

subsection \<open>Liabilities of an offer\<close>

definition offer_raw :: "OfferEntry \<Rightarrow> ExchangeResultV10" where
  "offer_raw oe = rawV10 (of_price oe) (of_amount oe) INT64_MAX INT64_MAX INT64_MAX False"

lemma offerLiabilities_exact:
  assumes "header_ok h" "price_ok (of_price oe)" "amount64 (of_amount oe)"
  shows "getOfferSellingLiabilities h oe = Inr (x10_numWheatReceived (offer_raw oe))"
    "getOfferBuyingLiabilities h oe = Inr (x10_numSheepSend (offer_raw oe))"
    "0 \<le> x10_numWheatReceived (offer_raw oe)" "x10_numWheatReceived (offer_raw oe) \<le> of_amount oe"
    "0 \<le> x10_numSheepSend (offer_raw oe)" "x10_numSheepSend (offer_raw oe) \<le> INT64_MAX"
  using assms exchangeV10WithoutPriceErrorThresholds_exact [OF assms(2,3) amount64_max amount64_max amount64_max]
    rawV10_bounded [OF assms(2,3) amount64_max amount64_max amount64_max, of False]
  by (auto simp: getOfferSellingLiabilities_def getOfferBuyingLiabilities_def offer_raw_def header_ok_def)

lemma adjusted_offer_raw:
  assumes "price_ok p" "amount64 mws" "amount64 msr"
    and "adjustOffer p mws msr = Inr amt" "0 < amt" "of_price oe = p" "of_amount oe = amt"
  shows "x10_numWheatReceived (offer_raw oe) = amt" "0 < x10_numSheepSend (offer_raw oe)"
    "x10_numSheepSend (offer_raw oe) \<le> msr" "amount64 amt"
proof -
  let ?r = "rawV10 p mws INT64_MAX INT64_MAX msr False"
  have r: "tradesV10 ?r" "amt = x10_numWheatReceived ?r"
    using adjustOffer_exact [OF assms(1-3) refl] assms(4,5) by (auto split: if_splits)
  have raw: "offer_raw oe = ?r"
    unfolding offer_raw_def assms(6,7)
    by (rule rawV10_adjusted [OF assms(1-3) amount64_max amount64_le [OF assms(3)] r(2)])
  show "x10_numWheatReceived (offer_raw oe) = amt" "0 < x10_numSheepSend (offer_raw oe)"
    "x10_numSheepSend (offer_raw oe) \<le> msr" "amount64 amt"
    using r raw rawV10_bounded(4) [OF assms(1,2) amount64_max amount64_max assms(3), of False]
      rawV10_amount64(1) [OF assms(1,2) amount64_max amount64_max assms(3), of False] by simp_all
qed

text \<open>The liabilities an adjusted offer takes on: its whole amount on the selling side, and on
  the buying side no more than the sheep its owner said it could receive. So the liabilities of
  an offer that was adjusted to what its owner can give and take always fit its owner.\<close>

theorem adjusted_offer_liabilities:
  assumes "header_ok h" "price_ok p" "amount64 mws" "amount64 msr"
    and "adjustOffer p mws msr = Inr amt" "0 < amt" "of_price oe = p" "of_amount oe = amt"
  shows "getOfferSellingLiabilities h oe = Inr amt
     \<and> (\<exists>b. getOfferBuyingLiabilities h oe = Inr b \<and> 0 < b \<and> b \<le> msr)"
  using adjusted_offer_raw [OF assms(2-8)] offerLiabilities_exact [of h oe] assms by simp

theorem adjusted_offer_liabilities_witness:
  "\<exists>v. adjustOffer \<lparr>price_n = 3, price_d = 2\<rparr> 2800 5000 = Inr v
     \<and> getOfferSellingLiabilities ex_header \<lparr>of_sellerID = 1, of_offerID = 4, of_selling = ex_asset,
         of_buying = ASSET_TYPE_NATIVE, of_amount = v, of_price = \<lparr>price_n = 3, price_d = 2\<rparr>,
         of_flags = 0\<rparr> = Inr v"
proof -
  let ?p = "\<lparr>price_n = 3, price_d = 2\<rparr>"
  have ok: "price_ok ?p" "amount64 2800" "amount64 5000"
    by (simp_all add: price_ok_def amount64_def)
  have e: "adjustOffer ?p 2800 5000 = Inr 2800"
    by (simp add: adjustOffer_exact [OF ok refl] withinBound_def rawV10_def amountsV10_def
        offerValue_def cdiv_def)
  show ?thesis
    using adjusted_offer_liabilities [OF ex_ok(1) ok e] e by simp
qed

end
