(* ===== verification/Trust_Lines.thy ===== *)
theory Trust_Lines
  imports Balances
begin

section \<open>Trust lines and liabilities of a seller\<close>

text \<open>
  \<^verbatim>\<open>TrustLineWrapper\<close> (src/src/ledger/TrustLineWrapper.cpp) hides whether an account holds an
  asset through a trust line or issues it: an issuer has no trust line entry, can pay and
  receive without bound and never has liabilities. Its three implementations are the constructors
  below, and a method of the inactive wrapper throws. A wrapper holds the entry it loaded;
  \<open>putTrustLine\<close> is the write through the handle. Then \<^verbatim>\<open>acquireOrReleaseLiabilities\<close> of
  \<^verbatim>\<open>TransactionUtils.cpp\<close>, which works on both kinds of holder.
\<close>

datatype TrustLineWrapper =
    InactiveImpl
  | IssuerImpl AccountID Asset
  | NonIssuerImpl TrustLineEntry

definition notActive :: cpp_error where
  "notActive = RuntimeError ''TrustLineWrapper not active''"

definition loadAccount :: "ledger \<Rightarrow> AccountID \<Rightarrow> AccountEntry option" where
  "loadAccount l aid = (case load l (AccountKey aid) of Some (ACCOUNT a) \<Rightarrow> Some a | _ \<Rightarrow> None)"

definition loadTrustLineEntry :: "ledger \<Rightarrow> AccountID \<Rightarrow> Asset \<Rightarrow> TrustLineEntry option" where
  "loadTrustLineEntry l aid asset =
     (case load l (TrustLineKey aid asset) of Some (TRUSTLINE t) \<Rightarrow> Some t | _ \<Rightarrow> None)"

definition loadOffer :: "ledger \<Rightarrow> AccountID \<Rightarrow> u64 \<Rightarrow> OfferEntry option" where
  "loadOffer l aid oid = (case load l (OfferKey aid oid) of Some (OFFER oe) \<Rightarrow> Some oe | _ \<Rightarrow> None)"

definition loadData :: "ledger \<Rightarrow> AccountID \<Rightarrow> string \<Rightarrow> DataEntry option" where
  "loadData l aid name = (case load l (DataKey aid name) of Some (DATA d) \<Rightarrow> Some d | _ \<Rightarrow> None)"

definition loadTrustLine :: "ledger \<Rightarrow> AccountID \<Rightarrow> Asset \<Rightarrow> cpp_error + TrustLineWrapper" where
  "loadTrustLine l aid asset =
     (if asset = ASSET_TYPE_NATIVE then Inl (RuntimeError ''trustline for native asset'')
      else bindE (getIssuer asset) (\<lambda>issuer.
        if issuer \<noteq> aid then
          Inr (case loadTrustLineEntry l aid asset of None \<Rightarrow> InactiveImpl
               | Some t \<Rightarrow> NonIssuerImpl t)
        else Inr (IssuerImpl aid asset)))"

definition loadTrustLineIfNotNative :: "ledger \<Rightarrow> AccountID \<Rightarrow> Asset \<Rightarrow> cpp_error + TrustLineWrapper" where
  "loadTrustLineIfNotNative l aid asset =
     (if asset = ASSET_TYPE_NATIVE then Inr InactiveImpl else loadTrustLine l aid asset)"

definition tlw_bool :: "TrustLineWrapper \<Rightarrow> bool" where
  "tlw_bool w \<longleftrightarrow> w \<noteq> InactiveImpl"

definition tlw_getBalance :: "TrustLineWrapper \<Rightarrow> cpp_error + int" where
  "tlw_getBalance w = (case w of InactiveImpl \<Rightarrow> Inl notActive | IssuerImpl _ _ \<Rightarrow> Inr INT64_MAX
     | NonIssuerImpl t \<Rightarrow> Inr (tl_balance t))"

definition tlw_addBalance ::
    "LedgerHeader \<Rightarrow> TrustLineWrapper \<Rightarrow> int \<Rightarrow> cpp_error + TrustLineWrapper option" where
  "tlw_addBalance h w delta = (case w of InactiveImpl \<Rightarrow> Inl notActive
     | IssuerImpl _ _ \<Rightarrow> Inr (Some w)
     | NonIssuerImpl t \<Rightarrow> bindE (addBalanceEntry h (TRUSTLINE t) delta) (\<lambda>r.
         Inr (case r of Some (TRUSTLINE t') \<Rightarrow> Some (NonIssuerImpl t') | _ \<Rightarrow> None)))"

definition tlw_addBuyingLiabilities ::
    "LedgerHeader \<Rightarrow> TrustLineWrapper \<Rightarrow> int \<Rightarrow> cpp_error + TrustLineWrapper option" where
  "tlw_addBuyingLiabilities h w delta = (case w of InactiveImpl \<Rightarrow> Inl notActive
     | IssuerImpl _ _ \<Rightarrow> Inr (Some w)
     | NonIssuerImpl t \<Rightarrow> bindE (addBuyingLiabilities h (TRUSTLINE t) delta) (\<lambda>r.
         Inr (case r of Some (TRUSTLINE t') \<Rightarrow> Some (NonIssuerImpl t') | _ \<Rightarrow> None)))"

definition tlw_addSellingLiabilities ::
    "LedgerHeader \<Rightarrow> TrustLineWrapper \<Rightarrow> int \<Rightarrow> cpp_error + TrustLineWrapper option" where
  "tlw_addSellingLiabilities h w delta = (case w of InactiveImpl \<Rightarrow> Inl notActive
     | IssuerImpl _ _ \<Rightarrow> Inr (Some w)
     | NonIssuerImpl t \<Rightarrow> bindE (addSellingLiabilities h (TRUSTLINE t) delta) (\<lambda>r.
         Inr (case r of Some (TRUSTLINE t') \<Rightarrow> Some (NonIssuerImpl t') | _ \<Rightarrow> None)))"

definition tlw_isAuthorized :: "TrustLineWrapper \<Rightarrow> cpp_error + bool" where
  "tlw_isAuthorized w = (case w of InactiveImpl \<Rightarrow> Inl notActive | IssuerImpl _ _ \<Rightarrow> Inr True
     | NonIssuerImpl t \<Rightarrow> Inr (isAuthorized t))"

definition tlw_getAvailableBalance :: "LedgerHeader \<Rightarrow> TrustLineWrapper \<Rightarrow> cpp_error + int" where
  "tlw_getAvailableBalance h w = (case w of InactiveImpl \<Rightarrow> Inl notActive
     | IssuerImpl _ _ \<Rightarrow> Inr INT64_MAX | NonIssuerImpl t \<Rightarrow> getAvailableBalance h (TRUSTLINE t))"

definition tlw_getMaxAmountReceive :: "LedgerHeader \<Rightarrow> TrustLineWrapper \<Rightarrow> cpp_error + int" where
  "tlw_getMaxAmountReceive h w = (case w of InactiveImpl \<Rightarrow> Inl notActive
     | IssuerImpl _ _ \<Rightarrow> Inr INT64_MAX | NonIssuerImpl t \<Rightarrow> getMaxAmountReceive h (TRUSTLINE t))"

definition putTrustLine :: "ledger \<Rightarrow> TrustLineWrapper \<Rightarrow> ledger" where
  "putTrustLine l w = (case w of NonIssuerImpl t \<Rightarrow> store l (TRUSTLINE t) | _ \<Rightarrow> l)"

subsection \<open>The wrapper is an asset holder\<close>

definition wrapper_ok :: "LedgerHeader \<times> TrustLineWrapper \<Rightarrow> bool" where
  "wrapper_ok s \<longleftrightarrow> header_ok (fst s) \<and> (case snd s of InactiveImpl \<Rightarrow> False | IssuerImpl _ _ \<Rightarrow> True
     | NonIssuerImpl t \<Rightarrow> trustline_ok t \<and> isAuthorized t)"

definition wrapper_available :: "LedgerHeader \<times> TrustLineWrapper \<Rightarrow> int" where
  "wrapper_available s = (case tlw_getAvailableBalance (fst s) (snd s) of Inr v \<Rightarrow> v | Inl _ \<Rightarrow> 0)"

definition wrapper_room :: "LedgerHeader \<times> TrustLineWrapper \<Rightarrow> int" where
  "wrapper_room s = (case tlw_getMaxAmountReceive (fst s) (snd s) of Inr v \<Rightarrow> v | Inl _ \<Rightarrow> 0)"

definition wrapper_add ::
    "LedgerHeader \<times> TrustLineWrapper \<Rightarrow> int \<Rightarrow> cpp_error + (LedgerHeader \<times> TrustLineWrapper) option" where
  "wrapper_add s d = bindE (tlw_addBalance (fst s) (snd s) d) (\<lambda>r. Inr (map_option (Pair (fst s)) r))"

lemma wrapper_cases:
  assumes "wrapper_ok s"
  obtains (issuer) h i a where "s = (h, IssuerImpl i a)" "header_ok h"
    | (nonissuer) h t where "s = (h, NonIssuerImpl t)" "header_ok h" "trustline_ok t" "isAuthorized t"
  using assms by (cases s; cases "snd s") (auto simp: wrapper_ok_def)

lemma tlw_addBalance_trustline:
  "\<lbrakk>header_ok h; trustline_ok t\<rbrakk> \<Longrightarrow> tlw_addBalance h (NonIssuerImpl t) d =
     Inr (if d = 0 \<or> isAuthorized t \<and> (- d \<le> tl_available t \<and> d \<le> tl_room t)
          then Some (NonIssuerImpl (t\<lparr>tl_balance := tl_balance t + d\<rparr>)) else None)"
  by (simp add: tlw_addBalance_def addBalanceEntry_trustline)

lemma wrapper_simps [simp]:
  "wrapper_available (h, IssuerImpl i a) = INT64_MAX" "wrapper_room (h, IssuerImpl i a) = INT64_MAX"
  "wrapper_add (h, IssuerImpl i a) d = Inr (Some (h, IssuerImpl i a))"
  "header_ok h \<Longrightarrow> wrapper_available (h, NonIssuerImpl t) = tl_available t"
  "header_ok h \<Longrightarrow> wrapper_room (h, NonIssuerImpl t) = (if isAuthorized t then tl_room t else 0)"
  "\<lbrakk>header_ok h; trustline_ok t; isAuthorized t\<rbrakk> \<Longrightarrow> wrapper_add (h, NonIssuerImpl t) d =
     Inr (if d = 0 \<or> (- d \<le> tl_available t \<and> d \<le> tl_room t)
          then Some (h, NonIssuerImpl (t\<lparr>tl_balance := tl_balance t + d\<rparr>)) else None)"
  by (simp_all add: wrapper_available_def wrapper_room_def wrapper_add_def tlw_getAvailableBalance_def
      tlw_getMaxAmountReceive_def tlw_addBalance_def addBalanceEntry_trustline)

interpretation wrapper_holder: asset_holder wrapper_ok wrapper_available wrapper_room wrapper_add
proof
  fix s x assume ok: "wrapper_ok s" and x: "0 < (x :: int)"
  show "\<exists>s'. wrapper_add s (- x) = Inr (Some s') \<and> wrapper_ok s'
      \<and> wrapper_available s - x \<le> wrapper_available s' \<and> min INT64_MAX (wrapper_room s + x) \<le> wrapper_room s'"
    if "x \<le> wrapper_available s"
    using ok
  proof (cases rule: wrapper_cases)
    case (issuer h i a)
    then show ?thesis using x by (auto simp: wrapper_ok_def)
  next
    case (nonissuer h t)
    then show ?thesis using that x holder_nonneg(3,4) [of t]
      by (auto simp: wrapper_ok_def intro!: trustline_ok_add [of _ "- x", simplified])
  qed
  show "\<exists>s'. wrapper_add s x = Inr (Some s') \<and> wrapper_ok s'
      \<and> wrapper_room s - x \<le> wrapper_room s' \<and> min INT64_MAX (wrapper_available s + x) \<le> wrapper_available s'"
    if "x \<le> wrapper_room s"
    using ok
  proof (cases rule: wrapper_cases)
    case (issuer h i a)
    then show ?thesis using x by (auto simp: wrapper_ok_def)
  next
    case (nonissuer h t)
    then show ?thesis using that x holder_nonneg(3,4) [of t]
      by (auto simp: wrapper_ok_def intro!: trustline_ok_add)
  qed
qed (auto elim!: wrapper_cases simp: holder_nonneg)

subsection \<open>Acquiring and releasing the liabilities of an offer\<close>

text \<open>The two halves of \<^verbatim>\<open>acquireOrReleaseLiabilities\<close>: what is added to the seller's holder of
  the asset bought, and of the asset sold.\<close>

definition accountMissing :: cpp_error where
  "accountMissing = RuntimeError ''account does not exist''"

definition trustLineMissing :: cpp_error where
  "trustLineMissing = RuntimeError ''trustline does not exist''"

definition loadTrustAndValidate :: "ledger \<Rightarrow> AccountID \<Rightarrow> Asset \<Rightarrow> cpp_error + TrustLineWrapper" where
  "loadTrustAndValidate l aid asset =
     bindE (loadTrustLine l aid asset) (\<lambda>w. if tlw_bool w then Inr w else Inl trustLineMissing)"

definition addBuyingAt :: "ledger \<Rightarrow> AccountID \<Rightarrow> Asset \<Rightarrow> int \<Rightarrow> cpp_error + ledger" where
  "addBuyingAt l sellerID asset delta =
     (let h = lg_header l; failed = Inl (RuntimeError ''could not add buying liabilities'') in
      if asset = ASSET_TYPE_NATIVE then
        (case loadAccount l sellerID of None \<Rightarrow> Inl accountMissing
         | Some account \<Rightarrow> bindE (addBuyingLiabilities h (ACCOUNT account) delta) (\<lambda>r.
             case r of None \<Rightarrow> failed | Some e \<Rightarrow> Inr (store l e)))
      else
        bindE (loadTrustAndValidate l sellerID asset) (\<lambda>w.
        bindE (tlw_addBuyingLiabilities h w delta) (\<lambda>r.
        case r of None \<Rightarrow> failed | Some w' \<Rightarrow> Inr (putTrustLine l w'))))"

definition addSellingAt :: "ledger \<Rightarrow> AccountID \<Rightarrow> Asset \<Rightarrow> int \<Rightarrow> cpp_error + ledger" where
  "addSellingAt l sellerID asset delta =
     (let h = lg_header l; failed = Inl (RuntimeError ''could not add selling liabilities'') in
      if asset = ASSET_TYPE_NATIVE then
        (case loadAccount l sellerID of None \<Rightarrow> Inl accountMissing
         | Some account \<Rightarrow> bindE (addSellingLiabilities h (ACCOUNT account) delta) (\<lambda>r.
             case r of None \<Rightarrow> failed | Some e \<Rightarrow> Inr (store l e)))
      else
        bindE (loadTrustAndValidate l sellerID asset) (\<lambda>w.
        bindE (tlw_addSellingLiabilities h w delta) (\<lambda>r.
        case r of None \<Rightarrow> failed | Some w' \<Rightarrow> Inr (putTrustLine l w'))))"

definition acquireOrReleaseLiabilities :: "ledger \<Rightarrow> OfferEntry \<Rightarrow> bool \<Rightarrow> cpp_error + ledger" where
  "acquireOrReleaseLiabilities l offer isAcquire =
     (if of_buying offer = of_selling offer
      then Inl (RuntimeError ''buying and selling same asset'')
      else
        bindE (getOfferBuyingLiabilities (lg_header l) offer) (\<lambda>b.
        bindE (addBuyingAt l (of_sellerID offer) (of_buying offer) (if isAcquire then b else - b)) (\<lambda>l1.
        bindE (getOfferSellingLiabilities (lg_header l) offer) (\<lambda>s.
        addSellingAt l1 (of_sellerID offer) (of_selling offer) (if isAcquire then s else - s)))))"

definition acquireLiabilities :: "ledger \<Rightarrow> OfferEntry \<Rightarrow> cpp_error + ledger" where
  "acquireLiabilities l offer = acquireOrReleaseLiabilities l offer True"

definition releaseLiabilities :: "ledger \<Rightarrow> OfferEntry \<Rightarrow> cpp_error + ledger" where
  "releaseLiabilities l offer = acquireOrReleaseLiabilities l offer False"

text \<open>A well-formed ledger: entries filed under their keys, each one well formed.\<close>

definition ledger_ok :: "ledger \<Rightarrow> bool" where
  "ledger_ok l \<longleftrightarrow> header_ok (lg_header l) \<and> keyed l \<and> (\<forall>(k, e) \<in> set (lg_entries l). entry_ok e)"

lemma ledger_ok_load: "\<lbrakk>ledger_ok l; load l k = Some e\<rbrakk> \<Longrightarrow> entry_ok e \<and> LedgerEntryDataKey e = k"
  using keyed_load [of l k e] by (auto simp: ledger_ok_def load_def dest: map_of_SomeD)

lemma ledger_ok_store: "\<lbrakk>ledger_ok l; entry_ok e\<rbrakk> \<Longrightarrow> ledger_ok (store l e)"
  using set_alist_update [of "LedgerEntryDataKey e" e "lg_entries l"]
  by (auto simp: ledger_ok_def keyed_store) (auto simp: store_def)

lemma ledger_ok_header: "ledger_ok l \<Longrightarrow> header_ok (lg_header l)"
  by (simp add: ledger_ok_def)

text \<open>The key of the entry through which an account holds an asset it does not issue.\<close>

definition holderKey :: "AccountID \<Rightarrow> Asset \<Rightarrow> LedgerKey" where
  "holderKey aid asset = (if asset = ASSET_TYPE_NATIVE then AccountKey aid else TrustLineKey aid asset)"

lemma holderKey_inj [simp]: "holderKey aid a = holderKey aid b \<longleftrightarrow> a = b"
  by (auto simp: holderKey_def)

lemma keyed_account: "\<lbrakk>keyed l; load l (AccountKey aid) = Some e\<rbrakk> \<Longrightarrow> \<exists>a. e = ACCOUNT a \<and> ac_accountID a = aid"
  using keyed_load [of l "AccountKey aid" e] by (cases e) auto

lemma keyed_trustline:
  "\<lbrakk>keyed l; load l (TrustLineKey aid s) = Some e\<rbrakk> \<Longrightarrow> \<exists>t. e = TRUSTLINE t \<and> tl_accountID t = aid \<and> tl_asset t = s"
  using keyed_load [of l "TrustLineKey aid s" e] by (cases e) auto

lemma keyed_loadAccount: "keyed l \<Longrightarrow> loadAccount l aid = Some a \<longleftrightarrow> load l (AccountKey aid) = Some (ACCOUNT a)"
  using keyed_account [of l aid]
  by (auto simp: loadAccount_def split: option.splits LedgerEntryData.splits)

lemma loadTrustLine_cases:
  assumes "asset \<noteq> ASSET_TYPE_NATIVE"
  shows "loadTrustLine l aid asset = Inr (if isIssuer aid asset then IssuerImpl aid asset
     else case loadTrustLineEntry l aid asset of None \<Rightarrow> InactiveImpl | Some t \<Rightarrow> NonIssuerImpl t)"
  using assms by (auto simp: loadTrustLine_def getIssuer_def isIssuer_def split: Asset.splits)

text \<open>An operation on the entry at a holder's key, written once for accounts and trust lines.\<close>

definition updateAt ::
    "(LedgerEntryData \<Rightarrow> cpp_error + LedgerEntryData option) \<Rightarrow> cpp_error \<Rightarrow> ledger \<Rightarrow> LedgerKey \<Rightarrow> cpp_error + ledger" where
  "updateAt f failed l k = (case load l k of
       None \<Rightarrow> Inl (case k of AccountKey _ \<Rightarrow> accountMissing | _ \<Rightarrow> trustLineMissing)
     | Some e \<Rightarrow> bindE (f e) (\<lambda>r. case r of None \<Rightarrow> Inl failed | Some e' \<Rightarrow> Inr (store l e')))"

lemma addBuying_kind:
  "addBuyingLiabilities h (ACCOUNT a) d = Inr (Some e) \<Longrightarrow>
     \<exists>a'. e = ACCOUNT a' \<and> ac_numSubEntries a' = ac_numSubEntries a"
  "addBuyingLiabilities h (TRUSTLINE t) d = Inr (Some e) \<Longrightarrow> \<exists>t'. e = TRUSTLINE t'"
  "addSellingLiabilities h (ACCOUNT a) d = Inr (Some e) \<Longrightarrow>
     \<exists>a'. e = ACCOUNT a' \<and> ac_numSubEntries a' = ac_numSubEntries a"
  "addSellingLiabilities h (TRUSTLINE t) d = Inr (Some e) \<Longrightarrow> \<exists>t'. e = TRUSTLINE t'"
  by (auto simp: addBuyingLiabilities_def addSellingLiabilities_def Let_def split: if_splits)

lemma bindE_cong_Inr: "(\<And>x. m = Inr x \<Longrightarrow> f x = g x) \<Longrightarrow> bindE m f = bindE m g"
  by (cases m) auto

lemma addBuyingAt_eq:
  assumes "keyed l"
  shows "addBuyingAt l aid asset d = (if isIssuer aid asset then Inr l
     else updateAt (\<lambda>e. addBuyingLiabilities (lg_header l) e d)
            (RuntimeError ''could not add buying liabilities'') l (holderKey aid asset))"
proof (cases "asset = ASSET_TYPE_NATIVE")
  case True
  then show ?thesis using keyed_account [OF assms, of aid]
    by (auto simp: addBuyingAt_def holderKey_def updateAt_def loadAccount_def isIssuer_def Let_def
        split: option.splits)
next
  case False
  show ?thesis
  proof (cases "isIssuer aid asset")
    case True
    then show ?thesis using False
      by (simp add: addBuyingAt_def loadTrustAndValidate_def loadTrustLine_cases tlw_bool_def
          tlw_addBuyingLiabilities_def putTrustLine_def Let_def)
  next
    case ni: False
    show ?thesis using keyed_trustline [OF assms, of aid asset] False ni
      by (cases "load l (TrustLineKey aid asset)")
        (auto simp: addBuyingAt_def loadTrustAndValidate_def loadTrustLine_cases tlw_bool_def
          tlw_addBuyingLiabilities_def putTrustLine_def Let_def updateAt_def holderKey_def
          loadTrustLineEntry_def bindE_assoc dest!: addBuying_kind
          intro!: bindE_cong_Inr split: option.splits)
  qed
qed

lemma addSellingAt_eq:
  assumes "keyed l"
  shows "addSellingAt l aid asset d = (if isIssuer aid asset then Inr l
     else updateAt (\<lambda>e. addSellingLiabilities (lg_header l) e d)
            (RuntimeError ''could not add selling liabilities'') l (holderKey aid asset))"
proof (cases "asset = ASSET_TYPE_NATIVE")
  case True
  then show ?thesis using keyed_account [OF assms, of aid]
    by (auto simp: addSellingAt_def holderKey_def updateAt_def loadAccount_def isIssuer_def Let_def
        split: option.splits)
next
  case False
  show ?thesis
  proof (cases "isIssuer aid asset")
    case True
    then show ?thesis using False
      by (simp add: addSellingAt_def loadTrustAndValidate_def loadTrustLine_cases tlw_bool_def
          tlw_addSellingLiabilities_def putTrustLine_def Let_def)
  next
    case ni: False
    show ?thesis using keyed_trustline [OF assms, of aid asset] False ni
      by (cases "load l (TrustLineKey aid asset)")
        (auto simp: addSellingAt_def loadTrustAndValidate_def loadTrustLine_cases tlw_bool_def
          tlw_addSellingLiabilities_def putTrustLine_def Let_def updateAt_def holderKey_def
          loadTrustLineEntry_def bindE_assoc dest!: addBuying_kind
          intro!: bindE_cong_Inr split: option.splits)
  qed
qed

text \<open>An entry up to the version of its extension: version 0 means no liabilities.\<close>

definition norm_ext :: "Liabilities option \<Rightarrow> Liabilities option" where
  "norm_ext x = Some \<lparr>liab_buying = ext_buying x, liab_selling = ext_selling x\<rparr>"

definition norm_entry :: "LedgerEntryData \<Rightarrow> LedgerEntryData" where
  "norm_entry e = (case e of ACCOUNT a \<Rightarrow> ACCOUNT (a\<lparr>ac_ext := norm_ext (ac_ext a)\<rparr>)
     | TRUSTLINE t \<Rightarrow> TRUSTLINE (t\<lparr>tl_ext := norm_ext (tl_ext t)\<rparr>) | _ \<Rightarrow> e)"

abbreviation nload :: "ledger \<Rightarrow> LedgerKey \<Rightarrow> LedgerEntryData option" where
  "nload l k \<equiv> map_option norm_entry (load l k)"

lemma norm_ext_set [simp]:
  "norm_ext (set_buying x b) = Some \<lparr>liab_buying = b, liab_selling = ext_selling x\<rparr>"
  "norm_ext (set_selling x b) = Some \<lparr>liab_buying = ext_buying x, liab_selling = b\<rparr>"
  by (simp_all add: norm_ext_def)

text \<open>
  The contract that buying and selling liabilities share: an operation on one entry, lifted to
  the seller's holder of an asset, that keeps entries well formed and that a negative amount
  undoes.
\<close>

locale liability_op =
  fixes add :: "LedgerHeader \<Rightarrow> LedgerEntryData \<Rightarrow> int \<Rightarrow> cpp_error + LedgerEntryData option"
    and addAt :: "ledger \<Rightarrow> AccountID \<Rightarrow> Asset \<Rightarrow> int \<Rightarrow> cpp_error + ledger"
    and failed :: cpp_error
  assumes addAt_eq: "keyed l \<Longrightarrow> addAt l aid asset d = (if isIssuer aid asset then Inr l
      else updateAt (\<lambda>e. add (lg_header l) e d) failed l (holderKey aid asset))"
    and add_ok: "\<lbrakk>header_ok h; entry_ok e; add h e d = Inr (Some e')\<rbrakk> \<Longrightarrow>
      entry_ok e' \<and> LedgerEntryDataKey e' = LedgerEntryDataKey e"
    and add_back: "\<lbrakk>header_ok h; entry_ok e; 0 \<le> d; add h e d = Inr (Some e')\<rbrakk> \<Longrightarrow>
      \<exists>e''. add h e' (- d) = Inr (Some e'') \<and> norm_entry e'' = norm_entry e"
    and add_sub: "add h (ACCOUNT a) d = Inr (Some e) \<Longrightarrow>
      \<exists>a'. e = ACCOUNT a' \<and> ac_numSubEntries a' = ac_numSubEntries a"
begin

lemma addAt_cases:
  assumes "ledger_ok l" "addAt l aid asset d = Inr l'"
  obtains (issuer) "isIssuer aid asset" "l' = l"
    | (held) e e' where "\<not> isIssuer aid asset" "load l (holderKey aid asset) = Some e"
      "add (lg_header l) e d = Inr (Some e')" "l' = store l e'" "entry_ok e" "entry_ok e'"
      "LedgerEntryDataKey e' = holderKey aid asset"
proof (cases "isIssuer aid asset")
  case True
  then show ?thesis using assms addAt_eq [of l aid asset d] issuer by (simp add: ledger_ok_def)
next
  case False
  then obtain e e' where e: "load l (holderKey aid asset) = Some e"
    "add (lg_header l) e d = Inr (Some e')" "l' = store l e'"
    using assms addAt_eq [of l aid asset d]
    by (auto simp: ledger_ok_def updateAt_def split: option.splits)
  note ok = ledger_ok_load [OF assms(1) e(1)]
  have "entry_ok e' \<and> LedgerEntryDataKey e' = LedgerEntryDataKey e"
    using add_ok [OF ledger_ok_header [OF assms(1)] _ e(2)] ok by blast
  then show ?thesis using held [OF False e] ok by simp
qed

lemma addAt_frame:
  assumes "ledger_ok l" "addAt l aid asset d = Inr l'"
  shows "ledger_ok l' \<and> lg_header l' = lg_header l \<and> (\<forall>k. k \<noteq> holderKey aid asset \<longrightarrow> load l' k = load l k)"
  by (rule addAt_cases [OF assms]) (use assms(1) in \<open>auto simp: ledger_ok_store\<close>)

lemma addAt_sub:
  assumes "ledger_ok l" "addAt l aid asset d = Inr l'" "load l (AccountKey i) = Some (ACCOUNT a)"
  shows "\<exists>a'. load l' (AccountKey i) = Some (ACCOUNT a') \<and> ac_numSubEntries a' = ac_numSubEntries a"
proof (rule addAt_cases [OF assms(1,2)])
  fix e e' assume e: "load l (holderKey aid asset) = Some e" "add (lg_header l) e d = Inr (Some e')"
    "l' = store l e'" "LedgerEntryDataKey e' = holderKey aid asset"
  then show ?thesis using assms(3) add_sub [of "lg_header l" a d e'] by (cases "AccountKey i = holderKey aid asset") auto
qed (use assms in auto)

lemma addAt_back:
  assumes "ledger_ok l" "0 \<le> d" "addAt l aid asset d = Inr l1"
    and l2: "ledger_ok l2" "lg_header l2 = lg_header l"
      "load l2 (holderKey aid asset) = load l1 (holderKey aid asset)"
  shows "\<exists>l3. addAt l2 aid asset (- d) = Inr l3
     \<and> nload l3 (holderKey aid asset) = nload l (holderKey aid asset)"
  using assms(1,3)
proof (cases rule: addAt_cases)
  case issuer
  then show ?thesis using addAt_eq [of l2] l2 by (auto simp: ledger_ok_def)
next
  case (held e e')
  obtain e'' where e'': "add (lg_header l) e' (- d) = Inr (Some e'')" "norm_entry e'' = norm_entry e"
    using add_back [OF ledger_ok_header [OF assms(1)] held(5) assms(2) held(3)] by blast
  have "LedgerEntryDataKey e'' = holderKey aid asset"
    using add_ok [OF ledger_ok_header [OF assms(1)] held(6) e''(1)] held(7) by simp
  then show ?thesis
    using addAt_eq [of l2 aid asset "- d"] l2 held e'' by (auto simp: ledger_ok_def updateAt_def)
qed

end

interpretation buying: liability_op addBuyingLiabilities addBuyingAt
  "RuntimeError ''could not add buying liabilities''"
proof
  fix h e d e' assume a: "header_ok h" "entry_ok e" "0 \<le> (d :: int)" "addBuyingLiabilities h e d = Inr (Some e')"
  show "\<exists>e''. addBuyingLiabilities h e' (- d) = Inr (Some e'') \<and> norm_entry e'' = norm_entry e"
  proof (cases e)
    case (ACCOUNT acc)
    with a addBuyingLiabilities_ok [OF a(1,2,4)] show ?thesis
      by (auto simp: addBuyingLiabilities_account norm_entry_def norm_ext_def account_ok_def
          acc_room_def split: if_splits)
  next
    case (TRUSTLINE t)
    with a addBuyingLiabilities_ok [OF a(1,2,4)] show ?thesis
      by (auto simp: addBuyingLiabilities_trustline norm_entry_def norm_ext_def trustline_ok_def
          tl_room_def split: if_splits)
  qed (use a in \<open>auto simp: addBuyingLiabilities_def getBuyingLiabilities_def split: if_splits\<close>)
qed (simp_all add: addBuyingAt_eq addBuyingLiabilities_ok addBuying_kind)

interpretation selling: liability_op addSellingLiabilities addSellingAt
  "RuntimeError ''could not add selling liabilities''"
proof
  fix h e d e' assume a: "header_ok h" "entry_ok e" "0 \<le> (d :: int)" "addSellingLiabilities h e d = Inr (Some e')"
  show "\<exists>e''. addSellingLiabilities h e' (- d) = Inr (Some e'') \<and> norm_entry e'' = norm_entry e"
  proof (cases e)
    case (ACCOUNT acc)
    with a addSellingLiabilities_ok [OF a(1,2,4)] show ?thesis
      by (auto simp: addSellingLiabilities_account norm_entry_def norm_ext_def account_ok_def
          acc_available_def split: if_splits)
  next
    case (TRUSTLINE t)
    with a addSellingLiabilities_ok [OF a(1,2,4)] show ?thesis
      by (auto simp: addSellingLiabilities_trustline norm_entry_def norm_ext_def trustline_ok_def
          tl_available_def split: if_splits)
  qed (use a in \<open>auto simp: addSellingLiabilities_def getSellingLiabilities_def split: if_splits\<close>)
qed (simp_all add: addSellingAt_eq addSellingLiabilities_ok addBuying_kind)

subsection \<open>Properties of acquiring and releasing\<close>

lemma acquireOrRelease_eq:
  assumes "ledger_ok l" "offer_ok oe"
  shows "acquireOrReleaseLiabilities l oe acq =
     bindE (addBuyingAt l (of_sellerID oe) (of_buying oe)
              (if acq then x10_numSheepSend (offer_raw oe) else - x10_numSheepSend (offer_raw oe))) (\<lambda>l1.
     addSellingAt l1 (of_sellerID oe) (of_selling oe)
              (if acq then x10_numWheatReceived (offer_raw oe) else - x10_numWheatReceived (offer_raw oe)))"
  using assms offerLiabilities_exact [OF ledger_ok_header [OF assms(1)], of oe]
  by (simp add: acquireOrReleaseLiabilities_def offer_ok_def amount64_def)

lemma offer_ok_raw:
  assumes "offer_ok oe"
  shows "0 \<le> x10_numSheepSend (offer_raw oe)" "0 \<le> x10_numWheatReceived (offer_raw oe)"
  using offerLiabilities_exact [of ex_header oe] assms ex_ok(1) by (auto simp: offer_ok_def amount64_def)

lemma acquireOrRelease_ok:
  assumes "ledger_ok l" "offer_ok oe" "acquireOrReleaseLiabilities l oe acq = Inr l'"
  shows "ledger_ok l' \<and> lg_header l' = lg_header l
    \<and> (\<forall>k. k \<noteq> holderKey (of_sellerID oe) (of_buying oe) \<longrightarrow>
          k \<noteq> holderKey (of_sellerID oe) (of_selling oe) \<longrightarrow> load l' k = load l k)
    \<and> (\<forall>i a. load l (AccountKey i) = Some (ACCOUNT a) \<longrightarrow>
          (\<exists>a'. load l' (AccountKey i) = Some (ACCOUNT a') \<and> ac_numSubEntries a' = ac_numSubEntries a))"
proof -
  obtain l1 where l1: "addBuyingAt l (of_sellerID oe) (of_buying oe)
        (if acq then x10_numSheepSend (offer_raw oe) else - x10_numSheepSend (offer_raw oe)) = Inr l1"
    "addSellingAt l1 (of_sellerID oe) (of_selling oe)
        (if acq then x10_numWheatReceived (offer_raw oe) else - x10_numWheatReceived (offer_raw oe)) = Inr l'"
    using assms acquireOrRelease_eq [OF assms(1,2), of acq] by auto
  note f1 = buying.addAt_frame [OF assms(1) l1(1)]
  note f2 = selling.addAt_frame [OF conjunct1 [OF f1] l1(2)]
  have "\<exists>a'. load l' (AccountKey i) = Some (ACCOUNT a') \<and> ac_numSubEntries a' = ac_numSubEntries a"
    if "load l (AccountKey i) = Some (ACCOUNT a)" for i a
    using buying.addAt_sub [OF assms(1) l1(1) that] selling.addAt_sub [OF conjunct1 [OF f1] l1(2)] by metis
  then show ?thesis using f1 f2 by auto
qed

text \<open>C25. Releasing the liabilities of an offer undoes acquiring them: it never throws, and it
  leaves every entry of the ledger as it was before (up to an extension that acquiring
  created and that now records zero liabilities).\<close>

theorem acquire_release_roundtrip:
  assumes "ledger_ok l" "offer_ok oe" "acquireLiabilities l oe = Inr l'"
  shows "\<exists>l''. releaseLiabilities l' oe = Inr l'' \<and> lg_header l'' = lg_header l
     \<and> (\<forall>k. map_option norm_entry (load l'' k) = map_option norm_entry (load l k))"
proof -
  let ?i = "of_sellerID oe" and ?b = "of_buying oe" and ?s = "of_selling oe"
  let ?B = "x10_numSheepSend (offer_raw oe)" and ?S = "x10_numWheatReceived (offer_raw oe)"
  note raw = offer_ok_raw [OF assms(2)]
  have ne: "holderKey ?i ?b \<noteq> holderKey ?i ?s" using assms(2) by (auto simp: offer_ok_def)
  obtain l1 where l1: "addBuyingAt l ?i ?b ?B = Inr l1" "addSellingAt l1 ?i ?s ?S = Inr l'"
    using assms acquireOrRelease_eq [OF assms(1,2), of True] by (auto simp: acquireLiabilities_def)
  note f1 = buying.addAt_frame [OF assms(1) l1(1)]
  note f2 = selling.addAt_frame [OF conjunct1 [OF f1] l1(2)]
  obtain l3 where l3: "addBuyingAt l' ?i ?b (- ?B) = Inr l3"
      "nload l3 (holderKey ?i ?b) = nload l (holderKey ?i ?b)"
    using buying.addAt_back [OF assms(1) raw(1) l1(1), of l'] f1 f2 ne by auto
  note f3 = buying.addAt_frame [OF conjunct1 [OF f2] l3(1)]
  obtain l4 where l4: "addSellingAt l3 ?i ?s (- ?S) = Inr l4"
      "nload l4 (holderKey ?i ?s) = nload l1 (holderKey ?i ?s)"
    using selling.addAt_back [OF conjunct1 [OF f1] raw(2) l1(2), of l3] f1 f2 f3 ne by auto
  note f4 = selling.addAt_frame [OF conjunct1 [OF f3] l4(1)]
  have "releaseLiabilities l' oe = Inr l4"
    using acquireOrRelease_eq [of l' oe False] f2 l3(1) l4(1) assms(2) by (simp add: releaseLiabilities_def)
  moreover have "nload l4 k = nload l k" for k
    using l3(2) l4(2) f1 f2 f3 f4 ne by (metis (no_types, lifting))
  ultimately show ?thesis using f1 f2 f3 f4 by auto
qed

definition ex_offer :: OfferEntry where
  "ex_offer = \<lparr>of_sellerID = 1, of_offerID = 4, of_selling = ex_asset, of_buying = ASSET_TYPE_NATIVE,
     of_amount = 100, of_price = \<lparr>price_n = 3, price_d = 2\<rparr>, of_flags = 0\<rparr>"

definition ex_ledger :: ledger where
  "ex_ledger = \<lparr>lg_header = ex_header, lg_entries =
     [(AccountKey 1, ACCOUNT ex_account), (TrustLineKey 1 ex_asset, TRUSTLINE ex_trustline)]\<rparr>"

lemma ex_ledger_ok: "ledger_ok ex_ledger" "offer_ok ex_offer"
  using ex_ok by (simp_all add: ledger_ok_def keyed_def ex_ledger_def offer_ok_def ex_offer_def
      price_ok_def) (simp_all add: ex_defs)

lemma ex_offer_raw: "offer_raw ex_offer = \<lparr>x10_numWheatReceived = 100, x10_numSheepSend = 150, x10_wheatStays = False\<rparr>"
  by (simp add: offer_raw_def ex_offer_def rawV10_def amountsV10_def offerValue_def cdiv_def)

lemma ex_acquire: "\<exists>l. acquireLiabilities ex_ledger ex_offer = Inr l"
proof -
  have k: "keyed ex_ledger" using ex_ledger_ok by (simp add: ledger_ok_def)
  have h: "lg_header ex_ledger = ex_header" by (simp add: ex_ledger_def)
  obtain l1 where l1: "addBuyingAt ex_ledger 1 ASSET_TYPE_NATIVE 150 = Inr l1"
    by (simp add: addBuyingAt_eq [OF k] isIssuer_def updateAt_def holderKey_def h)
      (simp add: ex_ledger_def load_def addBuyingLiabilities_account ex_ok ex_views,
        simp add: ex_defs ext_buying_def)
  note f = buying.addAt_frame [OF ex_ledger_ok(1) l1]
  have ld: "load l1 (holderKey 1 ex_asset) = Some (TRUSTLINE ex_trustline)"
    using f by (auto simp: holderKey_def ex_ledger_def load_def ex_asset_def)
  have sell: "\<exists>e. addSellingLiabilities ex_header (TRUSTLINE ex_trustline) 100 = Inr (Some e)"
    by (simp add: addSellingLiabilities_trustline ex_ok ex_views)
      (simp add: ex_trustline_def ext_selling_def)
  have "\<not> isIssuer 1 ex_asset" by (simp add: isIssuer_def ex_asset_def)
  then obtain l2 where "addSellingAt l1 1 ex_asset 100 = Inr l2"
    using f ld sell addSellingAt_eq [of l1 1 ex_asset 100] h
    by (auto simp: ledger_ok_def updateAt_def)
  then show ?thesis
    using acquireOrRelease_eq [OF ex_ledger_ok, of True] l1
    by (simp add: acquireLiabilities_def ex_offer_raw) (simp add: ex_offer_def)
qed

theorem acquire_release_roundtrip_witness:
  "\<exists>l l'. acquireLiabilities ex_ledger ex_offer = Inr l \<and> releaseLiabilities l ex_offer = Inr l'
     \<and> (\<forall>k. map_option norm_entry (load l' k) = map_option norm_entry (load ex_ledger k))"
  using acquire_release_roundtrip [OF ex_ledger_ok] ex_acquire by blast

end
