(* ===== verification/Offer_Order.thy ===== *)
theory Offer_Order
  imports Trust_Lines Complex_Main
begin

section \<open>The order of the offer book (src/src/ledger/LedgerTxnOfferSQL.cpp, LedgerTxn.cpp)\<close>

text \<open>
  \<^verbatim>\<open>isBetterOffer\<close> compares prices as the doubles \<^verbatim>\<open>double(n) / double(d)\<close> and breaks ties by
  offer id. The quotient of two \<^verbatim>\<open>int32_t\<close> is rounded to 53 bits, to nearest and ties to even;
  distinct prices can round to the same double, so the rounding is part of the model. The price
  as a double is \<open>price_double\<close>: the significand \<open>m\<close> scaled by \<open>2\<^sup>k\<close>. The lemmas show that rounding
  keeps the order of prices, so the book never prefers a dearer offer by price.
\<close>

text \<open>The least \<open>k\<close> from a start with \<open>d * 2^52 \<le> n * 2^k\<close>, so that the significand has 53 bits;
  for positive \<^verbatim>\<open>int32_t\<close> operands it is at most 83.\<close>

fun scale_from :: "nat \<Rightarrow> nat \<Rightarrow> int \<Rightarrow> int \<Rightarrow> nat" where
  "scale_from 0 k n d = k"
| "scale_from (Suc f) k n d = (if d * 2 ^ 52 \<le> n * 2 ^ k then k else scale_from f (Suc k) n d)"

definition scale :: "int \<Rightarrow> int \<Rightarrow> nat" where
  "scale n d = scale_from 84 0 n d"

definition round_half_even :: "int \<Rightarrow> int \<Rightarrow> int" where
  "round_half_even a b =
     (let q = a div b; r = a mod b in
      if 2 * r < b then q else if 2 * r > b then q + 1 else if even q then q else q + 1)"

definition price_double :: "Price \<Rightarrow> rat" where
  "price_double p = (let k = scale (price_n p) (price_d p) in
     of_int (round_half_even (price_n p * 2 ^ k) (price_d p)) / 2 ^ k)"

definition isBetterOffer :: "OfferEntry \<Rightarrow> OfferEntry \<Rightarrow> cpp_error + bool" where
  "isBetterOffer lhs rhs =
     bindE (ensureE (of_buying lhs = of_buying rhs) AssertionFailed) (\<lambda>_.
     bindE (ensureE (of_selling lhs = of_selling rhs) AssertionFailed) (\<lambda>_.
     let lhsPrice = price_double (of_price lhs); rhsPrice = price_double (of_price rhs) in
     Inr (if lhsPrice < rhsPrice then True
          else if lhsPrice = rhsPrice then of_offerID lhs < of_offerID rhs
          else False)))"

text \<open>The order on offers of one book that \<^verbatim>\<open>isBetterOffer\<close> computes.\<close>

definition better :: "OfferEntry \<Rightarrow> OfferEntry \<Rightarrow> bool" where
  "better a b \<longleftrightarrow> price_double (of_price a) < price_double (of_price b)
     \<or> price_double (of_price a) = price_double (of_price b) \<and> of_offerID a < of_offerID b"

lemma isBetterOffer_same_book:
  "\<lbrakk>of_buying a = of_buying b; of_selling a = of_selling b\<rbrakk> \<Longrightarrow> isBetterOffer a b = Inr (better a b)"
  by (auto simp: isBetterOffer_def better_def Let_def)

lemma better_irrefl: "\<not> better a a"
  by (simp add: better_def)

lemma better_trans: "\<lbrakk>better a b; better b c\<rbrakk> \<Longrightarrow> better a c"
  by (auto simp: better_def)

lemma better_total: "of_offerID a \<noteq> of_offerID b \<Longrightarrow> better a b \<or> better b a"
  by (auto simp: better_def)

lemma better_cotrans: "better a c \<Longrightarrow> better a b \<or> better b c"
  by (auto simp: better_def)

lemma better_asym: "better a b \<Longrightarrow> \<not> better b a"
  using better_irrefl better_trans by blast

subsection \<open>Rounding keeps the order of prices\<close>

lemma scale_from_spec:
  assumes "0 < d" "d * 2 ^ 52 \<le> n * 2 ^ (k + f)" "k = 0 \<or> n * 2 ^ (k - 1) < d * 2 ^ 52"
  shows "d * 2 ^ 52 \<le> n * 2 ^ scale_from f k n d
     \<and> (scale_from f k n d = 0 \<or> n * 2 ^ (scale_from f k n d - 1) < d * 2 ^ 52)"
  using assms by (induction f arbitrary: k) auto

lemma scale_spec:
  assumes "price_ok p"
  shows "price_d p * 2 ^ 52 \<le> price_n p * 2 ^ scale (price_n p) (price_d p)"
    "price_n p * 2 ^ scale (price_n p) (price_d p) < price_d p * 2 ^ 53"
proof -
  let ?n = "price_n p" and ?d = "price_d p"
  note nd = price_okD [OF assms]
  have "?d * 2 ^ 52 \<le> 1 * 2 ^ 84" using nd by simp
  also have "\<dots> \<le> ?n * 2 ^ 84" using nd by (intro mult_right_mono) auto
  finally have s: "?d * 2 ^ 52 \<le> ?n * 2 ^ scale ?n ?d"
    "scale ?n ?d = 0 \<or> ?n * 2 ^ (scale ?n ?d - 1) < ?d * 2 ^ 52"
    using scale_from_spec [of ?d ?n 0 84] nd by (auto simp: scale_def)
  show "?d * 2 ^ 52 \<le> ?n * 2 ^ scale ?n ?d" by (rule s(1))
  have "scale ?n ?d \<noteq> 0"
  proof
    assume "scale ?n ?d = 0"
    then have "?d * 2 ^ 52 \<le> ?n" using s(1) by simp
    then show False using nd by simp
  qed
  then obtain j where "scale ?n ?d = Suc j" using not0_implies_Suc by blast
  then show "?n * 2 ^ scale ?n ?d < ?d * 2 ^ 53" using s(2) by simp
qed

text \<open>Rounding as a function of the rational quotient.\<close>

definition round_rat :: "rat \<Rightarrow> int" where
  "round_rat x = (let q = \<lfloor>x\<rfloor>; f = x - of_int q in
     if 2 * f < 1 then q else if 2 * f > 1 then q + 1 else if even q then q else q + 1)"

lemma round_half_even_rat:
  assumes "0 < b"
  shows "round_half_even a b = round_rat (of_int a / of_int b)"
proof -
  let ?x = "of_int a / of_int b :: rat"
  have q: "\<lfloor>?x\<rfloor> = a div b" by (simp add: floor_divide_of_int_eq)
  have "of_int a = of_int (a div b) * of_int b + (of_int (a mod b) :: rat)"
    by (metis div_mult_mod_eq of_int_add of_int_mult)
  then have f: "?x - of_int (a div b) = of_int (a mod b) / of_int b"
    using assms by (simp add: field_simps)
  have "2 * (of_int (a mod b) / of_int b :: rat) < 1 \<longleftrightarrow> (of_int (2 * (a mod b)) :: rat) < of_int b"
    "2 * (of_int (a mod b) / of_int b :: rat) > 1 \<longleftrightarrow> (of_int (2 * (a mod b)) :: rat) > of_int b"
    using assms by (simp_all add: divide_less_eq less_divide_eq)
  then have c: "2 * (of_int (a mod b) / of_int b :: rat) < 1 \<longleftrightarrow> 2 * (a mod b) < b"
    "2 * (of_int (a mod b) / of_int b :: rat) > 1 \<longleftrightarrow> 2 * (a mod b) > b"
    by (simp_all only: of_int_less_iff)
  show ?thesis unfolding round_rat_def round_half_even_def Let_def q f c ..
qed

lemma round_rat_between: "\<lfloor>x\<rfloor> \<le> round_rat x" "round_rat x \<le> \<lfloor>x\<rfloor> + 1"
  by (simp_all add: round_rat_def Let_def)

lemma round_rat_mono:
  assumes "x \<le> y"
  shows "round_rat x \<le> round_rat y"
proof (cases "\<lfloor>x\<rfloor> = \<lfloor>y\<rfloor>")
  case True
  then show ?thesis using assms by (auto simp: round_rat_def Let_def)
next
  case False
  then have "\<lfloor>x\<rfloor> + 1 \<le> \<lfloor>y\<rfloor>" using floor_mono [OF assms] by simp
  then show ?thesis using round_rat_between [of x] round_rat_between [of y] by linarith
qed

lemma round_rat_of_int [simp]: "round_rat (of_int m) = m"
  by (simp add: round_rat_def)

abbreviation price_rat :: "Price \<Rightarrow> rat" where
  "price_rat p \<equiv> of_int (price_n p) / of_int (price_d p)"

lemma price_double_rat:
  assumes "price_ok p" "k = scale (price_n p) (price_d p)"
  shows "price_double p = of_int (round_rat (price_rat p * 2 ^ k)) / 2 ^ k"
    "2 ^ 52 \<le> price_rat p * 2 ^ k" "price_rat p * 2 ^ k < 2 ^ 53"
proof -
  have d: "0 < price_d p" "0 < (of_int (price_d p) :: rat)" using price_okD [OF assms(1)] by auto
  show "price_double p = of_int (round_rat (price_rat p * 2 ^ k)) / 2 ^ k"
    using round_half_even_rat [OF d(1), of "price_n p * 2 ^ k"]
    by (simp add: price_double_def Let_def assms(2) mult.commute)
  have "(of_int (price_d p * 2 ^ 52) :: rat) \<le> of_int (price_n p * 2 ^ k)"
    "(of_int (price_n p * 2 ^ k) :: rat) < of_int (price_d p * 2 ^ 53)"
    using scale_spec [OF assms(1)] unfolding assms(2) of_int_le_iff of_int_less_iff by simp_all
  then show "2 ^ 52 \<le> price_rat p * 2 ^ k" "price_rat p * 2 ^ k < 2 ^ 53"
    using d(2) by (simp_all add: field_simps)
qed

lemma scale_order:
  fixes x y :: rat
  assumes "x \<le> y" "2 ^ 52 \<le> x * 2 ^ j" "y * 2 ^ k < 2 ^ 53"
  shows "k \<le> j"
proof (rule ccontr)
  assume "\<not> k \<le> j"
  then obtain i where k: "k = Suc (j + i)" using less_iff_Suc_add not_le by blast
  have "2 ^ 52 \<le> y * 2 ^ j" using assms(2) mult_right_mono [OF assms(1), of "2 ^ j"] by (meson order_trans zero_le_numeral zero_le_power)
  moreover have "(1 :: rat) \<le> 2 ^ i" by simp
  ultimately have "2 ^ 52 * 1 \<le> y * 2 ^ j * 2 ^ i" by (intro mult_mono) simp_all
  then have "2 ^ 53 \<le> y * 2 ^ k" by (simp add: k power_add mult_ac)
  with assms(3) show False by simp
qed

lemma price_double_mono:
  assumes p: "price_ok p" and q: "price_ok q" and le: "price_rat p \<le> price_rat q"
  shows "price_double p \<le> price_double q"
proof -
  define j k where "j = scale (price_n p) (price_d p)" and "k = scale (price_n q) (price_d q)"
  note P = price_double_rat [OF p j_def] and Q = price_double_rat [OF q k_def]
  have kj: "k \<le> j" by (rule scale_order [OF le P(2) Q(3)])
  show ?thesis
  proof (cases "j = k")
    case True
    then have "round_rat (price_rat p * 2 ^ j) \<le> round_rat (price_rat q * 2 ^ k)"
      unfolding True by (intro round_rat_mono mult_right_mono le) simp
    then show ?thesis using True P(1) Q(1) by (simp add: divide_right_mono)
  next
    case False
    then obtain i where i: "j = Suc (k + i)" using kj less_iff_Suc_add le_neq_implies_less by blast
    have "round_rat (price_rat p * 2 ^ j) \<le> 2 ^ 53"
      using round_rat_mono [of "price_rat p * 2 ^ j" "of_int (2 ^ 53)"] P(3)
        round_rat_of_int [of "2 ^ 53"] by simp
    then have "(of_int (round_rat (price_rat p * 2 ^ j)) :: rat) \<le> 2 ^ 53"
      by (metis of_int_le_iff of_int_numeral of_int_power)
    then have "price_double p \<le> 2 ^ 53 / 2 ^ j" unfolding P(1) by (intro divide_right_mono) simp_all
    also have "(2 ^ 53 / 2 ^ j :: rat) \<le> 2 ^ 52 / 2 ^ k"
      using i one_le_power [of "2 :: rat" i] by (simp add: power_add field_simps)
    also have "round_rat (price_rat q * 2 ^ k) \<ge> 2 ^ 52"
      using round_rat_mono [of "of_int (2 ^ 52)" "price_rat q * 2 ^ k"] Q(2)
        round_rat_of_int [of "2 ^ 52"] by simp
    then have "(2 ^ 52 :: rat) \<le> of_int (round_rat (price_rat q * 2 ^ k))"
      by (metis of_int_le_iff of_int_numeral of_int_power)
    then have "(2 ^ 52 / 2 ^ k :: rat) \<le> price_double q" unfolding Q(1) by (intro divide_right_mono) simp_all
    finally show ?thesis .
  qed
qed

text \<open>The order \<^verbatim>\<open>isBetterOffer\<close> is a strict order on the offers of a book, total on distinct
  offer ids, and although it compares rounded quotients it never ranks an offer before one
  with a strictly lower price unless their doubles coincide: a strictly better double means a
  strictly lower price.\<close>

theorem isBetterOffer_order:
  assumes "of_buying a = of_buying b" "of_selling a = of_selling b"
    and "of_buying b = of_buying c" "of_selling b = of_selling c"
    and "price_ok (of_price a)" "price_ok (of_price b)"
  shows "isBetterOffer a a = Inr False
    \<and> (isBetterOffer a b = Inr True \<and> isBetterOffer b c = Inr True \<longrightarrow> isBetterOffer a c = Inr True)
    \<and> (of_offerID a \<noteq> of_offerID b \<longrightarrow> (isBetterOffer a b = Inr True) \<noteq> (isBetterOffer b a = Inr True))
    \<and> (price_double (of_price a) < price_double (of_price b) \<longrightarrow>
         price_n (of_price a) * price_d (of_price b) < price_n (of_price b) * price_d (of_price a))"
proof -
  have "price_n (of_price a) * price_d (of_price b) < price_n (of_price b) * price_d (of_price a)"
    if "price_double (of_price a) < price_double (of_price b)"
  proof (rule ccontr)
    assume "\<not> ?thesis"
    then have "(of_int (price_n (of_price b) * price_d (of_price a)) :: rat)
        \<le> of_int (price_n (of_price a) * price_d (of_price b))" unfolding of_int_le_iff by simp
    then have "price_rat (of_price b) \<le> price_rat (of_price a)"
      using price_okD [OF assms(5)] price_okD [OF assms(6)] by (simp add: field_simps)
    from price_double_mono [OF assms(6,5) this] that show False by simp
  qed
  then show ?thesis
    using assms(1-4) better_irrefl [of a] better_trans [of a b c] better_total [of a b] better_asym
    by (simp add: isBetterOffer_same_book) blast
qed

subsection \<open>The best offer of a book\<close>

definition ledgerOffers :: "ledger \<Rightarrow> OfferEntry list" where
  "ledgerOffers l = List.map_filter (\<lambda>(k, e). case e of OFFER oe \<Rightarrow> Some oe | _ \<Rightarrow> None) (lg_entries l)"

definition inBook :: "Asset \<Rightarrow> Asset \<Rightarrow> OfferEntry \<Rightarrow> bool" where
  "inBook buying selling oe \<longleftrightarrow> of_buying oe = buying \<and> of_selling oe = selling"

fun bestOf :: "OfferEntry option \<Rightarrow> OfferEntry list \<Rightarrow> OfferEntry option" where
  "bestOf best [] = best"
| "bestOf best (oe # oes) =
     bestOf (case best of None \<Rightarrow> Some oe | Some b \<Rightarrow> if better oe b then Some oe else Some b) oes"

text \<open>\<^verbatim>\<open>loadBestOffer(buying, selling)\<close> on the flat ledger.\<close>

definition loadBestOffer :: "ledger \<Rightarrow> Asset \<Rightarrow> Asset \<Rightarrow> OfferEntry option" where
  "loadBestOffer l buying selling = bestOf None (filter (inBook buying selling) (ledgerOffers l))"

lemma bestOf_Some:
  "bestOf (Some b) oes = Some oe \<Longrightarrow> oe \<in> insert b (set oes) \<and> \<not> better b oe \<and> (\<forall>f \<in> set oes. \<not> better f oe)"
proof (induction oes arbitrary: b)
  case (Cons x xs)
  have "bestOf (Some (if better x b then x else b)) xs = Some oe"
    using Cons.prems by (auto split: if_splits)
  note ih = Cons.IH [OF this]
  show ?case
  proof (cases "better x b")
    case True
    then show ?thesis using ih better_trans [OF True, of oe] by auto
  next
    case False
    then show ?thesis using ih better_cotrans [of x oe b] by auto
  qed
qed (auto simp: better_irrefl)

lemma bestOf_not_None: "bestOf (Some b) oes \<noteq> None"
  by (induction oes arbitrary: b) auto

lemma bestOf_best:
  "(bestOf None oes = None \<longleftrightarrow> oes = [])
   \<and> (\<forall>oe. bestOf None oes = Some oe \<longrightarrow> oe \<in> set oes \<and> (\<forall>f \<in> set oes. \<not> better f oe))"
proof (cases oes)
  case (Cons x xs)
  then show ?thesis using bestOf_Some [of x xs] bestOf_not_None [of x xs] by auto
qed simp

lemma ledgerOffers_load:
  assumes "keyed l"
  shows "oe \<in> set (ledgerOffers l) \<longleftrightarrow> load l (OfferKey (of_sellerID oe) (of_offerID oe)) = Some (OFFER oe)"
proof
  assume "oe \<in> set (ledgerOffers l)"
  then obtain k where k: "(k, OFFER oe) \<in> set (lg_entries l)"
    by (auto simp: ledgerOffers_def List.map_filter_def split: LedgerEntryData.splits)
  then have "k = OfferKey (of_sellerID oe) (of_offerID oe)" using assms by (force simp: keyed_def)
  then show "load l (OfferKey (of_sellerID oe) (of_offerID oe)) = Some (OFFER oe)"
    using assms k by (simp add: load_def keyed_def)
next
  assume "load l (OfferKey (of_sellerID oe) (of_offerID oe)) = Some (OFFER oe)"
  then show "oe \<in> set (ledgerOffers l)"
    by (force simp: load_def ledgerOffers_def List.map_filter_def dest!: map_of_SomeD
        split: LedgerEntryData.splits)
qed

lemma loadBestOffer_best:
  assumes "keyed l" "loadBestOffer l b s = Some oe"
  shows "load l (OfferKey (of_sellerID oe) (of_offerID oe)) = Some (OFFER oe)"
    "of_buying oe = b" "of_selling oe = s"
  using assms bestOf_best [of "filter (inBook b s) (ledgerOffers l)"] ledgerOffers_load [OF assms(1)]
  by (auto simp: loadBestOffer_def inBook_def)

text \<open>\<^verbatim>\<open>loadBestOffer\<close> finds an offer whenever the book has one, the offer it finds is in the
  ledger and in the book asked for, and no offer of the book is better.\<close>

theorem loadBestOffer_correct:
  assumes "ledger_ok l"
  shows "(loadBestOffer l b s = None \<longleftrightarrow>
            (\<forall>k oe. load l k = Some (OFFER oe) \<longrightarrow> \<not> (of_buying oe = b \<and> of_selling oe = s)))
    \<and> (\<forall>oe. loadBestOffer l b s = Some oe \<longrightarrow>
          load l (OfferKey (of_sellerID oe) (of_offerID oe)) = Some (OFFER oe)
          \<and> of_buying oe = b \<and> of_selling oe = s
          \<and> (\<forall>k f. load l k = Some (OFFER f) \<and> of_buying f = b \<and> of_selling f = s
                 \<longrightarrow> isBetterOffer f oe = Inr False))"
proof -
  have k: "keyed l" using assms by (simp add: ledger_ok_def)
  have set: "oe \<in> set (filter (inBook b s) (ledgerOffers l)) \<longleftrightarrow>
      (\<exists>k. load l k = Some (OFFER oe)) \<and> of_buying oe = b \<and> of_selling oe = s" for oe
    using ledgerOffers_load [OF k, of oe] keyed_load [OF k, of _ "OFFER oe"]
    by (auto simp: inBook_def)
  have not: "isBetterOffer f oe = Inr False"
    if "\<not> better f oe" "of_buying f = of_buying oe" "of_selling f = of_selling oe" for f oe
    using that by (simp add: isBetterOffer_same_book)
  note best = bestOf_best [of "filter (inBook b s) (ledgerOffers l)", folded loadBestOffer_def]
  have "loadBestOffer l b s = None \<longleftrightarrow>
      (\<forall>k oe. load l k = Some (OFFER oe) \<longrightarrow> \<not> (of_buying oe = b \<and> of_selling oe = s))"
    unfolding conjunct1 [OF best] using set by (auto simp: filter_empty_conv)
  moreover have "isBetterOffer f oe = Inr False"
    if oe: "loadBestOffer l b s = Some oe" and f: "load l k = Some (OFFER f)" "of_buying f = b" "of_selling f = s"
    for oe k f
  proof -
    have "\<not> better f oe" using conjunct2 [OF best] oe set [of f] f by blast
    then show ?thesis using not [of f oe] f loadBestOffer_best(2,3) [OF k oe] by simp
  qed
  ultimately show ?thesis using loadBestOffer_best [OF k, of b s] by simp blast
qed

definition ex_book :: ledger where
  "ex_book = ex_ledger\<lparr>lg_entries := lg_entries ex_ledger @
     [(OfferKey 1 4, OFFER ex_offer), (OfferKey 1 5, OFFER (ex_offer\<lparr>of_offerID := 5\<rparr>))]\<rparr>"

lemma ex_book_ok: "ledger_ok ex_book"
  using ex_ledger_ok ex_ok by (simp add: ex_book_def ledger_ok_def keyed_def ex_ledger_def offer_ok_def)
    (simp add: ex_offer_def ex_defs)

theorem loadBestOffer_correct_witness:
  "loadBestOffer ex_book ASSET_TYPE_NATIVE ex_asset \<noteq> None"
  using loadBestOffer_correct [OF ex_book_ok, of ASSET_TYPE_NATIVE ex_asset]
  by (auto simp: ex_book_def ex_ledger_def load_def ex_offer_def)

theorem isBetterOffer_order_witness:
  "(isBetterOffer ex_offer (ex_offer\<lparr>of_offerID := 5\<rparr>) = Inr True)
     \<noteq> (isBetterOffer (ex_offer\<lparr>of_offerID := 5\<rparr>) ex_offer = Inr True)"
  using isBetterOffer_order [of ex_offer "ex_offer\<lparr>of_offerID := 5\<rparr>" ex_offer]
  by (simp add: ex_offer_def price_ok_def)

end
