(* ===== verification/Offer_Crossing.thy ===== *)
theory Offer_Crossing
  imports Offer_Order
begin

section \<open>Crossing offers of the book (src/src/transactions/OfferExchange.cpp)\<close>

text \<open>
  \<^verbatim>\<open>performExchange\<close>, \<^verbatim>\<open>crossOffer\<close> (before protocol 10), \<^verbatim>\<open>crossOfferV10\<close> and the loop
  \<^verbatim>\<open>convertWithOffers\<close>. The code passes an account handle and a trust line wrapper side by side and
  uses the one the asset's type selects; here the selected one is a \<open>holder\<close>. The handles of one
  seller are for distinct keys because an offer's two assets differ, so writing them back one
  after the other is what the code's in-place updates do.
\<close>

datatype CrossOfferResult = eOfferPartial | eOfferTaken | eOfferCantConvert
datatype ConvertResult = eOK | ePartial | eFilterStop
datatype OfferFilterResult = eKeep | eStop

record ClaimOfferAtom =
  co_sellerID :: AccountID
  co_offerID :: u64
  co_assetSold :: Asset
  co_amountSold :: int
  co_assetBought :: Asset
  co_amountBought :: int

datatype holder = HAccount AccountEntry | HLine TrustLineWrapper

definition loadHolder :: "ledger \<Rightarrow> AccountID \<Rightarrow> Asset \<Rightarrow> cpp_error + holder" where
  "loadHolder l aid asset =
     (if asset = ASSET_TYPE_NATIVE then
        (case loadAccount l aid of None \<Rightarrow> Inl (RuntimeError ''LedgerTxnEntry not active'')
         | Some a \<Rightarrow> Inr (HAccount a))
      else bindE (loadTrustLine l aid asset) (\<lambda>w. Inr (HLine w)))"

definition putHolder :: "ledger \<Rightarrow> holder \<Rightarrow> ledger" where
  "putHolder l hl = (case hl of HAccount a \<Rightarrow> store l (ACCOUNT a) | HLine w \<Rightarrow> putTrustLine l w)"

definition addToHolder :: "LedgerHeader \<Rightarrow> holder \<Rightarrow> int \<Rightarrow> cpp_error + holder option" where
  "addToHolder h hl delta = (case hl of
       HAccount a \<Rightarrow> bindE (addBalanceEntry h (ACCOUNT a) delta) (\<lambda>r.
         Inr (case r of Some (ACCOUNT a') \<Rightarrow> Some (HAccount a') | _ \<Rightarrow> None))
     | HLine w \<Rightarrow> bindE (tlw_addBalance h w delta) (\<lambda>r. Inr (map_option HLine r)))"

definition canSellAtMost :: "LedgerHeader \<Rightarrow> holder \<Rightarrow> cpp_error + int" where
  "canSellAtMost h hl = (case hl of
       HAccount a \<Rightarrow> bindE (getAvailableBalance h (ACCOUNT a)) (\<lambda>v. Inr (max v 0))
     | HLine w \<Rightarrow>
         if tlw_bool w then
           bindE (tlw_isAuthorized w) (\<lambda>ok.
           if ok then bindE (tlw_getAvailableBalance h w) (\<lambda>v. Inr (max v 0)) else Inr 0)
         else Inr 0)"

definition canBuyAtMost :: "LedgerHeader \<Rightarrow> holder \<Rightarrow> cpp_error + int" where
  "canBuyAtMost h hl = (case hl of
       HAccount a \<Rightarrow> bindE (getMaxAmountReceive h (ACCOUNT a)) (\<lambda>v. Inr (max v 0))
     | HLine w \<Rightarrow>
         if tlw_bool w then bindE (tlw_getMaxAmountReceive h w) (\<lambda>v. Inr (max v 0)) else Inr 0)"

definition canSellAtMostBasedOnSheep :: "LedgerHeader \<Rightarrow> holder \<Rightarrow> Price \<Rightarrow> cpp_error + int" where
  "canSellAtMostBasedOnSheep h sheepHolder wheatPrice = (case sheepHolder of
       HAccount _ \<Rightarrow> Inr INT64_MAX
     | HLine sheepLine \<Rightarrow>
         bindE (if tlw_bool sheepLine then tlw_getMaxAmountReceive h sheepLine else Inr 0) (\<lambda>sellerMaxSheep.
         bindE (bigDivide_i64 sellerMaxSheep (price_d wheatPrice) (price_n wheatPrice) ROUND_DOWN) (\<lambda>q.
         Inr (case q of None \<Rightarrow> INT64_MAX | Some wheatAmount \<Rightarrow> wheatAmount))))"

text \<open>\<^verbatim>\<open>adjustOffer\<close> on an offer entry: the new \<^verbatim>\<open>amount\<close>.\<close>

definition adjustOfferEntry :: "LedgerHeader \<Rightarrow> OfferEntry \<Rightarrow> holder \<Rightarrow> holder \<Rightarrow> cpp_error + OfferEntry" where
  "adjustOfferEntry h oe wheatHolder sheepHolder =
     bindE (canSellAtMost h wheatHolder) (\<lambda>cs.
     bindE (canBuyAtMost h sheepHolder) (\<lambda>maxSheepReceive.
     bindE (adjustOffer (of_price oe) (min (of_amount oe) cs) maxSheepReceive) (\<lambda>amount.
     Inr (oe\<lparr>of_amount := amount\<rparr>))))"

subsection \<open>Before protocol 10\<close>

text \<open>The result type, \<^verbatim>\<open>numWheatReceived\<close>, \<^verbatim>\<open>numSheepSend\<close> and \<^verbatim>\<open>newAmount\<close>.\<close>

definition performExchange ::
    "LedgerHeader \<Rightarrow> OfferEntry \<Rightarrow> holder \<Rightarrow> holder \<Rightarrow> int \<Rightarrow> int \<Rightarrow>
       cpp_error + (ExchangeResultType \<times> int \<times> int \<times> int)" where
  "performExchange h offer wheatHolder sheepHolder maxWheatReceived maxSheepSend =
     bindE (canSellAtMostBasedOnSheep h sheepHolder (of_price offer)) (\<lambda>m1.
     bindE (canSellAtMost h wheatHolder) (\<lambda>m2.
     let numWheat = min m1 (min m2 (of_amount offer)) in
     bindE (ensureE (numWheat \<ge> 0) AssertionFailed) (\<lambda>_.
     bindE (if lh_ledgerVersion h < 3
            then exchangeV2 numWheat (of_price offer) maxWheatReceived maxSheepSend
            else exchangeV3 numWheat (of_price offer) maxWheatReceived maxSheepSend) (\<lambda>r.
     case ExchangeResult_type r of
       REDUCED_TO_ZERO \<Rightarrow> Inr (REDUCED_TO_ZERO, er_numWheatReceived r, er_numSheepSend r, numWheat)
     | BOGUS \<Rightarrow> Inr (NORMAL, 0, 0, 0)
     | NORMAL \<Rightarrow>
         let offerTaken = of_amount offer \<le> er_numWheatReceived r in
         Inr (NORMAL, er_numWheatReceived r, er_numSheepSend r,
              if offerTaken then 0 else numWheat - er_numWheatReceived r)))))"

text \<open>What a crossing returns: its result, the two amounts, the ledger and the extended trail.\<close>

record crossing =
  cr_result :: CrossOfferResult
  cr_numWheatReceived :: int
  cr_numSheepSend :: int
  cr_wheatStays :: bool
  cr_ledger :: ledger
  cr_trail :: "ClaimOfferAtom list"

definition missingAccount :: cpp_error where
  "missingAccount = RuntimeError ''invalid database state: offer must have matching account''"

text \<open>Erasing a taken offer and releasing its sub-entry; \<^verbatim>\<open>addNumEntries\<close>'s result is ignored.\<close>

definition eraseTaken :: "ledger \<Rightarrow> OfferEntry \<Rightarrow> cpp_error + ledger" where
  "eraseTaken l oe =
     bindE (erase l (OfferKey (of_sellerID oe) (of_offerID oe))) (\<lambda>l1.
     case loadAccount l1 (of_sellerID oe) of
       None \<Rightarrow> Inl (RuntimeError ''LedgerTxnEntry not active'')
     | Some a \<Rightarrow> bindE (addNumEntries (lg_header l1) a (- 1)) (\<lambda>r.
         Inr (case r of None \<Rightarrow> l1 | Some a' \<Rightarrow> store l1 (ACCOUNT a'))))"

text \<open>The balance adjustment of \<^verbatim>\<open>crossOffer\<close> in a nested transaction: None when it is rolled
  back and \<^verbatim>\<open>eOfferCantConvert\<close> is returned.\<close>

definition adjustBalance :: "ledger \<Rightarrow> AccountID \<Rightarrow> Asset \<Rightarrow> int \<Rightarrow> cpp_error + ledger option" where
  "adjustBalance l aid asset delta =
     (if delta = 0 then Inr (Some l)
      else bindE (loadHolder l aid asset) (\<lambda>hl.
           bindE (addToHolder (lg_header l) hl delta) (\<lambda>r. Inr (map_option (putHolder l) r))))"

definition crossOffer ::
    "ledger \<Rightarrow> OfferEntry \<Rightarrow> int \<Rightarrow> int \<Rightarrow> ClaimOfferAtom list \<Rightarrow> cpp_error + crossing" where
  "crossOffer l offer maxWheatReceived maxSheepSend offerTrail =
     bindE (ensureE (maxWheatReceived > 0) AssertionFailed) (\<lambda>_.
     bindE (ensureE (maxSheepSend > 0) AssertionFailed) (\<lambda>_.
     let sheep = of_buying offer; wheat = of_selling offer; accountBID = of_sellerID offer in
     case loadAccount l accountBID of None \<Rightarrow> Inl missingAccount
     | Some _ \<Rightarrow>
     bindE (loadHolder l accountBID sheep) (\<lambda>sheepHolder.
     bindE (loadHolder l accountBID wheat) (\<lambda>wheatHolder.
     bindE (performExchange (lg_header l) offer wheatHolder sheepHolder maxWheatReceived maxSheepSend)
       (\<lambda>(ty, numWheat, numSheep, newAmount).
     let cant = Inr \<lparr>cr_result = eOfferCantConvert, cr_numWheatReceived = numWheat,
           cr_numSheepSend = numSheep, cr_wheatStays = False, cr_ledger = l, cr_trail = offerTrail\<rparr> in
     if ty = REDUCED_TO_ZERO then cant
     else
       bindE (if newAmount = 0 then eraseTaken l offer
              else Inr (store l (OFFER (offer\<lparr>of_amount := newAmount\<rparr>)))) (\<lambda>l1.
       bindE (adjustBalance l1 accountBID sheep numSheep) (\<lambda>r1. case r1 of None \<Rightarrow> cant | Some l2 \<Rightarrow>
       bindE (adjustBalance l2 accountBID wheat (- numWheat)) (\<lambda>r2. case r2 of None \<Rightarrow> cant | Some l3 \<Rightarrow>
       Inr \<lparr>cr_result = (if newAmount = 0 then eOfferTaken else eOfferPartial),
            cr_numWheatReceived = numWheat, cr_numSheepSend = numSheep, cr_wheatStays = False,
            cr_ledger = l3, cr_trail = offerTrail @
              [\<lparr>co_sellerID = accountBID, co_offerID = of_offerID offer, co_assetSold = wheat,
                co_amountSold = numWheat, co_assetBought = sheep, co_amountBought = numSheep\<rparr>]\<rparr>))))))))"

subsection \<open>From protocol 10 on\<close>

definition addOrThrow :: "LedgerHeader \<Rightarrow> holder \<Rightarrow> int \<Rightarrow> string \<Rightarrow> cpp_error + holder" where
  "addOrThrow h hl delta msg =
     (if delta = 0 then Inr hl
      else bindE (addToHolder h hl delta) (\<lambda>r.
           case r of None \<Rightarrow> Inl (RuntimeError msg) | Some hl' \<Rightarrow> Inr hl'))"

definition crossOfferV10 ::
    "ledger \<Rightarrow> OfferEntry \<Rightarrow> int \<Rightarrow> int \<Rightarrow> bool \<Rightarrow> ClaimOfferAtom list \<Rightarrow> cpp_error + crossing" where
  "crossOfferV10 l offer maxWheatReceived maxSheepSend isPathPayment offerTrail =
     bindE (ensureE (maxWheatReceived > 0) AssertionFailed) (\<lambda>_.
     bindE (ensureE (maxSheepSend > 0) AssertionFailed) (\<lambda>_.
     let h = lg_header l; sheep = of_buying offer; wheat = of_selling offer;
         accountBID = of_sellerID offer in
     if loadAccount l accountBID = None then Inl missingAccount
     else
       bindE (releaseLiabilities l offer) (\<lambda>l1.
       bindE (loadHolder l1 accountBID sheep) (\<lambda>sheepHolder.
       bindE (loadHolder l1 accountBID wheat) (\<lambda>wheatHolder.
       bindE (adjustOfferEntry h offer wheatHolder sheepHolder) (\<lambda>offer1.
       bindE (canSellAtMost h wheatHolder) (\<lambda>cs.
       bindE (canBuyAtMost h sheepHolder) (\<lambda>maxSheepReceive.
       bindE (exchangeV10 (of_price offer1) (min (of_amount offer1) cs) maxWheatReceived
                maxSheepSend maxSheepReceive isPathPayment) (\<lambda>ex.
       bindE (addOrThrow h sheepHolder (x10_numSheepSend ex) ''overflowed sheep balance'') (\<lambda>sheepHolder1.
       bindE (addOrThrow h wheatHolder (- x10_numWheatReceived ex) ''overflowed wheat balance'') (\<lambda>wheatHolder1.
       bindE (if x10_wheatStays ex
              then adjustOfferEntry h (offer1\<lparr>of_amount := of_amount offer1 - x10_numWheatReceived ex\<rparr>)
                     wheatHolder1 sheepHolder1
              else Inr (offer1\<lparr>of_amount := 0\<rparr>)) (\<lambda>offer2.
       let l2 = store (putHolder (putHolder l1 sheepHolder1) wheatHolder1) (OFFER offer2);
           res = (if of_amount offer2 = 0 then eOfferTaken else eOfferPartial) in
       bindE (if res = eOfferTaken then eraseTaken l2 offer2 else acquireLiabilities l2 offer2) (\<lambda>l3.
       Inr \<lparr>cr_result = res, cr_numWheatReceived = x10_numWheatReceived ex,
            cr_numSheepSend = x10_numSheepSend ex, cr_wheatStays = x10_wheatStays ex,
            cr_ledger = l3, cr_trail = offerTrail @
              [\<lparr>co_sellerID = accountBID, co_offerID = of_offerID offer, co_assetSold = wheat,
                co_amountSold = x10_numWheatReceived ex, co_assetBought = sheep,
                co_amountBought = x10_numSheepSend ex\<rparr>]\<rparr>)))))))))))))"

subsection \<open>The conversion loop\<close>

record conversion =
  cv_result :: ConvertResult
  cv_sheepSend :: int
  cv_wheatReceived :: int
  cv_ledger :: ledger
  cv_trail :: "ClaimOfferAtom list"

text \<open>One more offer is crossed per unit of fuel, and \<^const>\<open>None\<close> means that the fuel ran out: a
  loop goes on only after an offer was taken, so the number of offers in the book bounds it.\<close>

fun convertLoop ::
    "nat \<Rightarrow> Asset \<Rightarrow> Asset \<Rightarrow> bool \<Rightarrow> (OfferEntry \<Rightarrow> OfferFilterResult) \<Rightarrow> bool \<Rightarrow> int \<Rightarrow> int \<Rightarrow> conversion
       \<Rightarrow> (cpp_error + conversion) option" where
  "convertLoop 0 sheep wheat pp filt needMore maxSheepSend maxWheatReceive c = None"
| "convertLoop (Suc fuel) sheep wheat pp filt needMore maxSheepSend maxWheatReceive c =
     (let l = cv_ledger c; v10 = (lh_ledgerVersion (lg_header l) \<ge> 10);
          finish = Some (Inr (c\<lparr>cv_result := (if \<not> v10 \<or> \<not> needMore then eOK else ePartial)\<rparr>)) in
      if \<not> needMore then finish
      else case loadBestOffer l sheep wheat of
        None \<Rightarrow> finish
      | Some offer \<Rightarrow>
          if filt offer = eStop then Some (Inr (c\<lparr>cv_result := eFilterStop\<rparr>))
          else case (if v10 then crossOfferV10 l offer maxWheatReceive maxSheepSend pp (cv_trail c)
                     else crossOffer l offer maxWheatReceive maxSheepSend (cv_trail c)) of
            Inl e \<Rightarrow> Some (Inl e)
          | Inr cr \<Rightarrow>
              let ns = cr_numSheepSend cr; nw = cr_numWheatReceived cr in
              if \<not> (0 \<le> ns \<and> ns \<le> maxSheepSend \<and> 0 \<le> nw \<and> nw \<le> maxWheatReceive)
              then Some (Inl AssertionFailed)
              else if cr_result cr = eOfferCantConvert then Some (Inr (c\<lparr>cv_result := ePartial\<rparr>))
              else
                let c' = c\<lparr>cv_sheepSend := cv_sheepSend c + ns, cv_wheatReceived := cv_wheatReceived c + nw,
                           cv_ledger := cr_ledger cr, cv_trail := cr_trail cr\<rparr>;
                    needMore' = ((if v10 then \<not> cr_wheatStays cr else True)
                                 \<and> maxWheatReceive - nw > 0 \<and> maxSheepSend - ns > 0) in
                if \<not> needMore' then Some (Inr (c'\<lparr>cv_result := eOK\<rparr>))
                else if cr_result cr = eOfferPartial then Some (Inr (c'\<lparr>cv_result := ePartial\<rparr>))
                else convertLoop fuel sheep wheat pp filt needMore' (maxSheepSend - ns)
                       (maxWheatReceive - nw) c')"

definition convertWithOffers ::
    "ledger \<Rightarrow> Asset \<Rightarrow> int \<Rightarrow> Asset \<Rightarrow> int \<Rightarrow> bool \<Rightarrow> (OfferEntry \<Rightarrow> OfferFilterResult)
       \<Rightarrow> ClaimOfferAtom list \<Rightarrow> (cpp_error + conversion) option" where
  "convertWithOffers l sheep maxSheepSend wheat maxWheatReceive pp filt offerTrail =
     convertLoop (Suc (length (ledgerOffers l))) sheep wheat pp filt
       (maxWheatReceive > 0 \<and> maxSheepSend > 0) maxSheepSend maxWheatReceive
       \<lparr>cv_result = eOK, cv_sheepSend = 0, cv_wheatReceived = 0, cv_ledger = l, cv_trail = offerTrail\<rparr>"

subsection \<open>Holders\<close>

definition hl_ok :: "LedgerHeader \<times> holder \<Rightarrow> bool" where
  "hl_ok s = (case snd s of HAccount a \<Rightarrow> holder_ok (fst s, ACCOUNT a) | HLine w \<Rightarrow> wrapper_ok (fst s, w))"

definition hl_available :: "LedgerHeader \<times> holder \<Rightarrow> int" where
  "hl_available s = (case snd s of HAccount a \<Rightarrow> entry_available (fst s, ACCOUNT a)
     | HLine w \<Rightarrow> wrapper_available (fst s, w))"

definition hl_room :: "LedgerHeader \<times> holder \<Rightarrow> int" where
  "hl_room s = (case snd s of HAccount a \<Rightarrow> entry_room (fst s, ACCOUNT a)
     | HLine w \<Rightarrow> wrapper_room (fst s, w))"

definition hl_add :: "LedgerHeader \<times> holder \<Rightarrow> int \<Rightarrow> cpp_error + (LedgerHeader \<times> holder) option" where
  "hl_add s d = bindE (addToHolder (fst s) (snd s) d) (\<lambda>r. Inr (map_option (Pair (fst s)) r))"

lemmas hl_defs = hl_ok_def hl_available_def hl_room_def

lemma hl_add_line:
  "hl_add (h, HLine w) d = bindE (wrapper_add (h, w) d) (\<lambda>r. Inr (map_option (\<lambda>s. (h, HLine (snd s))) r))"
  by (simp add: hl_add_def addToHolder_def wrapper_add_def bindE_assoc option.map_comp comp_def)

lemma addBalance_kind:
  "addBalanceEntry h (ACCOUNT a) d = Inr (Some e) \<Longrightarrow> \<exists>a'. e = ACCOUNT a' \<and> ac_accountID a' = ac_accountID a"
  by (auto simp: addBalanceEntry_def Let_def split: if_splits option.splits)

lemma hl_add_account:
  "hl_add (h, HAccount a) d = bindE (entry_add (h, ACCOUNT a) d) (\<lambda>r.
     Inr (case r of Some (_, ACCOUNT a') \<Rightarrow> Some (h, HAccount a') | _ \<Rightarrow> None))"
  by (auto simp: hl_add_def addToHolder_def entry_add_def bindE_assoc intro!: bindE_cong_Inr
      split: option.splits LedgerEntryData.splits)

lemma wrapper_add_fst: "wrapper_add s d = Inr (Some s') \<Longrightarrow> fst s' = fst s"
  by (auto simp: wrapper_add_def)

lemma entry_add_kind: "entry_add (h, ACCOUNT a) d = Inr (Some s') \<Longrightarrow> \<exists>a'. s' = (h, ACCOUNT a')"
  by (auto simp: entry_add_def dest: addBalance_kind)

interpretation holder: asset_holder hl_ok hl_available hl_room hl_add
proof
  fix s :: "LedgerHeader \<times> holder" and x :: int
  obtain h hl where s: "s = (h, hl)" by (cases s)
  assume ok: "hl_ok s"
  show "hl_add s 0 = Inr (Some s)"
    using ok s entry_holder.add_zero wrapper_holder.add_zero
    by (cases hl) (auto simp: hl_add_account hl_add_line hl_defs)
  show "0 \<le> hl_room s"
    using ok s entry_holder.room_nonneg wrapper_holder.room_nonneg by (cases hl) (auto simp: hl_defs)
  show "\<exists>s'. hl_add s (- x) = Inr (Some s') \<and> hl_ok s' \<and> hl_available s - x \<le> hl_available s'
      \<and> min INT64_MAX (hl_room s + x) \<le> hl_room s'" if x: "0 < x" "x \<le> hl_available s"
  proof (cases hl)
    case (HAccount a)
    then show ?thesis
      using entry_holder.debit [of "(h, ACCOUNT a)" x] ok s x
      by (force simp: hl_add_account hl_defs dest: entry_add_kind)
  next
    case (HLine w)
    then show ?thesis
      using wrapper_holder.debit [of "(h, w)" x] ok s x
      by (force simp: hl_add_line hl_defs dest: wrapper_add_fst)
  qed
  show "\<exists>s'. hl_add s x = Inr (Some s') \<and> hl_ok s' \<and> hl_room s - x \<le> hl_room s'
      \<and> min INT64_MAX (hl_available s + x) \<le> hl_available s'" if x: "0 < x" "x \<le> hl_room s"
  proof (cases hl)
    case (HAccount a)
    then show ?thesis
      using entry_holder.credit [of "(h, ACCOUNT a)" x] ok s x
      by (force simp: hl_add_account hl_defs dest: entry_add_kind)
  next
    case (HLine w)
    then show ?thesis
      using wrapper_holder.credit [of "(h, w)" x] ok s x
      by (force simp: hl_add_line hl_defs dest: wrapper_add_fst)
  qed
  show "hl_add s (- x) = Inr None" if x: "hl_available s < x" "0 < x" "x \<le> INT64_MAX"
    using entry_holder.debit_refused [of _ x] wrapper_holder.debit_refused [of _ x] ok s x
    by (cases hl) (auto simp: hl_add_account hl_add_line hl_defs)
  show "hl_add s x = Inr None" if x: "hl_room s < x" "0 < x" "x \<le> INT64_MAX"
    using entry_holder.credit_refused [of _ x] wrapper_holder.credit_refused [of _ x] ok s x
    by (cases hl) (auto simp: hl_add_account hl_add_line hl_defs)
qed

lemma hl_cases:
  assumes "hl_ok (h, hl)"
  obtains (account) a where "hl = HAccount a" "header_ok h" "account_ok a"
    | (issuer) i s where "hl = HLine (IssuerImpl i s)" "header_ok h"
    | (line) t where "hl = HLine (NonIssuerImpl t)" "header_ok h" "trustline_ok t" "isAuthorized t"
  using assms by (cases hl) (auto simp: hl_ok_def holder_ok_def elim!: wrapper_cases)

lemma canTrade_exact:
  assumes "hl_ok (h, hl)"
  shows "canSellAtMost h hl = Inr (max (hl_available (h, hl)) 0)"
    "canBuyAtMost h hl = Inr (hl_room (h, hl))"
    "amount64 (max (hl_available (h, hl)) 0)" "amount64 (hl_room (h, hl))"
proof -
  have r: "0 \<le> hl_room (h, hl)" by (rule holder.room_nonneg [OF assms])
  show "canSellAtMost h hl = Inr (max (hl_available (h, hl)) 0)"
    "canBuyAtMost h hl = Inr (hl_room (h, hl))"
    using assms r
    by (cases rule: hl_cases; simp add: canSellAtMost_def canBuyAtMost_def hl_defs tlw_bool_def
        tlw_isAuthorized_def tlw_getAvailableBalance_def tlw_getMaxAmountReceive_def)+
  have "hl_available (h, hl) \<le> INT64_MAX \<and> hl_room (h, hl) \<le> INT64_MAX"
    using assms
  proof (cases rule: hl_cases)
    case (account a)
    then show ?thesis
      using holder_nonneg(2) [of h a] by (auto simp: hl_defs account_ok_def acc_room_def)
  next
    case (line t)
    then show ?thesis
      by (auto simp: hl_defs trustline_ok_def tl_room_def tl_available_def)
  qed (auto simp: hl_defs)
  then show "amount64 (max (hl_available (h, hl)) 0)" "amount64 (hl_room (h, hl))"
    using r by (auto simp: amount64_def)
qed

lemma adjustOfferEntry_exact:
  assumes w: "hl_ok (h, wh)" and s: "hl_ok (h, sh)" and p: "price_ok (of_price oe)" "amount64 (of_amount oe)"
  shows "\<exists>v. adjustOfferEntry h oe wh sh = Inr (oe\<lparr>of_amount := v\<rparr>)
     \<and> adjustOffer (of_price oe) (min (of_amount oe) (max (hl_available (h, wh)) 0)) (hl_room (h, sh)) = Inr v
     \<and> 0 \<le> v \<and> v \<le> of_amount oe \<and> v \<le> max (hl_available (h, wh)) 0
     \<and> adjustOffer (of_price oe) v (hl_room (h, sh)) = Inr v"
  using adjustOffer_total [OF p(1), of "min (of_amount oe) (max (hl_available (h, wh)) 0)" "hl_room (h, sh)"]
    canTrade_exact [OF w] canTrade_exact [OF s] p(2)
  by (auto simp: adjustOfferEntry_def)

text \<open>Which entry of the ledger a holder is.\<close>

fun hl_at :: "AccountID \<Rightarrow> Asset \<Rightarrow> holder \<Rightarrow> bool" where
  "hl_at aid asset (HAccount a) \<longleftrightarrow> asset = ASSET_TYPE_NATIVE \<and> ac_accountID a = aid"
| "hl_at aid asset (HLine (IssuerImpl i s)) \<longleftrightarrow> asset \<noteq> ASSET_TYPE_NATIVE \<and> isIssuer aid asset \<and> i = aid \<and> s = asset"
| "hl_at aid asset (HLine (NonIssuerImpl t)) \<longleftrightarrow> asset \<noteq> ASSET_TYPE_NATIVE \<and> \<not> isIssuer aid asset
     \<and> tl_accountID t = aid \<and> tl_asset t = asset"
| "hl_at aid asset (HLine InactiveImpl) \<longleftrightarrow> False"

fun hl_entry :: "holder \<Rightarrow> LedgerEntryData option" where
  "hl_entry (HAccount a) = Some (ACCOUNT a)"
| "hl_entry (HLine (NonIssuerImpl t)) = Some (TRUSTLINE t)"
| "hl_entry (HLine w) = None"

lemma loadHolder_at:
  assumes "keyed l" "loadHolder l aid asset = Inr hl" "hl_ok (h, hl)"
  shows "hl_at aid asset hl" "hl_entry hl \<noteq> None \<Longrightarrow> load l (holderKey aid asset) = hl_entry hl"
proof -
  show "hl_at aid asset hl" "hl_entry hl \<noteq> None \<Longrightarrow> load l (holderKey aid asset) = hl_entry hl"
  proof (atomize (full), cases "asset = ASSET_TYPE_NATIVE")
    case True
    then show "hl_at aid asset hl \<and> (hl_entry hl \<noteq> None \<longrightarrow> load l (holderKey aid asset) = hl_entry hl)"
      using assms keyed_account [OF assms(1), of aid]
      by (auto simp: loadHolder_def loadAccount_def holderKey_def split: option.splits)
  next
    case False
    then show "hl_at aid asset hl \<and> (hl_entry hl \<noteq> None \<longrightarrow> load l (holderKey aid asset) = hl_entry hl)"
      using assms keyed_trustline [OF assms(1), of aid asset]
      by (auto simp: loadHolder_def loadTrustLine_cases loadTrustLineEntry_def holderKey_def hl_ok_def
          wrapper_ok_def split: option.splits if_splits)
  qed
qed

lemma load_putHolder:
  assumes "hl_at aid asset hl"
  shows "load (putHolder l hl) k =
     (if k = holderKey aid asset \<and> hl_entry hl \<noteq> None then hl_entry hl else load l k)"
    "lg_header (putHolder l hl) = lg_header l"
  using assms by (cases rule: hl_at.cases [of "(aid, asset, hl)"];
      auto simp: putHolder_def putTrustLine_def holderKey_def)+

lemma loadHolder_put:
  assumes "keyed l" "hl_at aid asset hl" "hl_entry hl \<noteq> None \<Longrightarrow> load l (holderKey aid asset) = hl_entry hl"
  shows "loadHolder l aid asset = Inr hl"
  using assms by (cases rule: hl_at.cases [of "(aid, asset, hl)"])
    (auto simp: loadHolder_def loadAccount_def loadTrustLine_cases loadTrustLineEntry_def holderKey_def)

lemma ledger_ok_putHolder:
  "\<lbrakk>ledger_ok l; hl_ok (lg_header l, hl)\<rbrakk> \<Longrightarrow> ledger_ok (putHolder l hl)"
  by (erule hl_cases) (auto simp: putHolder_def putTrustLine_def ledger_ok_store)

text \<open>What adding to a holder does: the balance moves by the amount, an issuer has none.\<close>

fun hl_upd :: "holder \<Rightarrow> int \<Rightarrow> holder" where
  "hl_upd (HAccount a) d = HAccount (a\<lparr>ac_balance := ac_balance a + d\<rparr>)"
| "hl_upd (HLine (NonIssuerImpl t)) d = HLine (NonIssuerImpl (t\<lparr>tl_balance := tl_balance t + d\<rparr>))"
| "hl_upd (HLine w) d = HLine w"

lemma hl_upd_at [simp]:
  "hl_at aid asset (hl_upd hl d) \<longleftrightarrow> hl_at aid asset hl"
  "hl_entry (hl_upd hl d) = None \<longleftrightarrow> hl_entry hl = None"
  by (cases rule: hl_upd.cases [of "(hl, d)"]; simp)+

lemma hl_upd_0: "hl_upd hl 0 = hl"
  by (cases rule: hl_upd.cases [of "(hl, 0)"]) auto

lemma addToHolder_upd:
  assumes "hl_ok (h, hl)" "addToHolder h hl d = Inr (Some hl')"
  shows "hl' = hl_upd hl d"
  using assms(1)
proof (cases rule: hl_cases)
  case (account a)
  then show ?thesis using assms(2) by (auto simp: addToHolder_def addBalanceEntry_account split: if_splits)
next
  case (issuer i s)
  then show ?thesis using assms(2) by (auto simp: addToHolder_def tlw_addBalance_def)
next
  case (line t)
  then show ?thesis using assms(2) by (auto simp: addToHolder_def tlw_addBalance_trustline split: if_splits)
qed

lemma addOrThrow_debit:
  assumes "hl_ok (h, hl)" "0 \<le> x" "x \<le> max (hl_available (h, hl)) 0"
  shows "addOrThrow h hl (- x) msg = Inr (hl_upd hl (- x)) \<and> hl_ok (h, hl_upd hl (- x))"
proof (cases "x = 0")
  case True
  then show ?thesis using assms hl_upd_0 [of hl] by (simp add: addOrThrow_def)
next
  case False
  then have "0 < x" "x \<le> hl_available (h, hl)" using assms(2,3) by (auto simp: max_def split: if_splits)
  then obtain s' where s': "hl_add (h, hl) (- x) = Inr (Some s')" "hl_ok s'"
    using holder.debit [OF assms(1)] by blast
  then obtain hl' where "addToHolder h hl (- x) = Inr (Some hl')" "s' = (h, hl')"
    by (auto simp: hl_add_def)
  then show ?thesis using addToHolder_upd [OF assms(1)] s' False by (auto simp: addOrThrow_def)
qed

lemma addOrThrow_credit:
  assumes "hl_ok (h, hl)" "0 \<le> x" "x \<le> hl_room (h, hl)"
  shows "addOrThrow h hl x msg = Inr (hl_upd hl x) \<and> hl_ok (h, hl_upd hl x)"
proof (cases "x = 0")
  case True
  then show ?thesis using assms hl_upd_0 [of hl] by (simp add: addOrThrow_def)
next
  case False
  then obtain s' where s': "hl_add (h, hl) x = Inr (Some s')" "hl_ok s'"
    using holder.credit [of "(h, hl)" x] assms by auto
  then obtain hl' where "addToHolder h hl x = Inr (Some hl')" "s' = (h, hl')"
    by (auto simp: hl_add_def)
  then show ?thesis using addToHolder_upd [OF assms(1)] s' False by (auto simp: addOrThrow_def)
qed

subsection \<open>The end of a crossing: erasing or re-acquiring\<close>

lemma eraseTaken_total:
  assumes "keyed l" "header_ok (lg_header l)" "load l (OfferKey (of_sellerID oe) (of_offerID oe)) \<noteq> None"
    and ac: "load l (AccountKey (of_sellerID oe)) = Some (ACCOUNT a)" "account_ok a"
      "0 < ac_numSubEntries a" "ac_numSubEntries a < INT32_MAX - 1"
  shows "\<exists>l'. eraseTaken l oe = Inr l' \<and> lg_header l' = lg_header l
     \<and> (\<forall>k. load l' k = (if k = OfferKey (of_sellerID oe) (of_offerID oe) then None
           else if k = AccountKey (of_sellerID oe)
           then Some (ACCOUNT (a\<lparr>ac_numSubEntries := ac_numSubEntries a - 1\<rparr>)) else load l k))"
proof -
  obtain l1 where l1: "erase l (OfferKey (of_sellerID oe) (of_offerID oe)) = Inr l1"
    using assms(3) by (auto simp: erase_def)
  have aid: "ac_accountID a = of_sellerID oe" using keyed_load [OF assms(1) ac(1)] by simp
  have "loadAccount l1 (of_sellerID oe) = Some a"
    using load_erase [OF l1, of "AccountKey (of_sellerID oe)"] ac(1) by (simp add: loadAccount_def)
  moreover have "addNumEntries (lg_header l1) a (- 1) =
      Inr (Some (a\<lparr>ac_numSubEntries := ac_numSubEntries a - 1\<rparr>))"
    using addNumEntries_remove [OF assms(2) ac(2,4,3)] erase_header [OF l1] by simp
  ultimately have "eraseTaken l oe = Inr (store l1 (ACCOUNT (a\<lparr>ac_numSubEntries := ac_numSubEntries a - 1\<rparr>)))"
    using l1 by (simp add: eraseTaken_def)
  then show ?thesis using load_erase [OF l1] erase_header [OF l1] aid by auto
qed

lemma addBuyingAt_succeeds:
  assumes l: "ledger_ok l" and h: "loadHolder l aid asset = Inr hl" "hl_ok (lg_header l, hl)"
    and d: "0 \<le> d" "d \<le> hl_room (lg_header l, hl)"
  shows "\<exists>l'. addBuyingAt l aid asset d = Inr l'"
proof -
  have k: "keyed l" using l by (simp add: ledger_ok_def)
  note at = loadHolder_at [OF k h]
  show ?thesis using h(2)
  proof (cases rule: hl_cases)
    case (account a)
    then show ?thesis using at d
      by (auto simp: addBuyingAt_eq [OF k] isIssuer_def updateAt_def addBuyingLiabilities_account
          hl_defs account_ok_def)
  next
    case (issuer i s)
    then show ?thesis using at by (auto simp: addBuyingAt_eq [OF k])
  next
    case (line t)
    then show ?thesis using at d
      by (auto simp: addBuyingAt_eq [OF k] updateAt_def addBuyingLiabilities_trustline hl_defs trustline_ok_def)
  qed
qed

lemma addSellingAt_succeeds:
  assumes l: "ledger_ok l" and h: "loadHolder l aid asset = Inr hl" "hl_ok (lg_header l, hl)"
    and d: "0 \<le> d" "d \<le> max (hl_available (lg_header l, hl)) 0"
  shows "\<exists>l'. addSellingAt l aid asset d = Inr l'"
proof -
  have k: "keyed l" using l by (simp add: ledger_ok_def)
  note at = loadHolder_at [OF k h]
  show ?thesis using h(2)
  proof (cases rule: hl_cases)
    case (account a)
    then show ?thesis using at d
      by (auto simp: addSellingAt_eq [OF k] isIssuer_def updateAt_def addSellingLiabilities_account
          hl_defs account_ok_def acc_available_def)
  next
    case (issuer i s)
    then show ?thesis using at by (auto simp: addSellingAt_eq [OF k])
  next
    case (line t)
    then show ?thesis using at d
      by (auto simp: addSellingAt_eq [OF k] updateAt_def addSellingLiabilities_trustline hl_defs trustline_ok_def)
  qed
qed

lemma acquire_succeeds:
  assumes l: "ledger_ok l" and oe: "offer_ok oe"
    and sh: "loadHolder l (of_sellerID oe) (of_buying oe) = Inr sh" "hl_ok (lg_header l, sh)"
    and wh: "loadHolder l (of_sellerID oe) (of_selling oe) = Inr wh" "hl_ok (lg_header l, wh)"
    and fit: "x10_numSheepSend (offer_raw oe) \<le> hl_room (lg_header l, sh)"
      "x10_numWheatReceived (offer_raw oe) \<le> max (hl_available (lg_header l, wh)) 0"
  shows "\<exists>l'. acquireLiabilities l oe = Inr l'"
proof -
  have k: "keyed l" using l by (simp add: ledger_ok_def)
  obtain l1 where l1: "addBuyingAt l (of_sellerID oe) (of_buying oe) (x10_numSheepSend (offer_raw oe)) = Inr l1"
    using addBuyingAt_succeeds [OF l sh offer_ok_raw(1) [OF oe] fit(1)] by blast
  note f = buying.addAt_frame [OF l l1]
  have "loadHolder l1 (of_sellerID oe) (of_selling oe) = Inr wh"
    using loadHolder_at [OF k wh] f oe
    by (intro loadHolder_put) (auto simp: ledger_ok_def offer_ok_def)
  then obtain l2 where "addSellingAt l1 (of_sellerID oe) (of_selling oe) (x10_numWheatReceived (offer_raw oe)) = Inr l2"
    using addSellingAt_succeeds [OF conjunct1 [OF f]] f wh(2) offer_ok_raw(2) [OF oe] fit(2) by metis
  then show ?thesis
    using acquireOrRelease_eq [OF l oe, of True] l1 by (simp add: acquireLiabilities_def)
qed

text \<open>Writing back an updated holder keeps every account and its number of sub-entries.\<close>

lemma putHolder_sub:
  assumes "hl_at aid asset hl" "hl_entry hl \<noteq> None \<Longrightarrow> load l (holderKey aid asset) = hl_entry hl"
    and "load l (AccountKey i) = Some (ACCOUNT a)"
  shows "\<exists>a'. load (putHolder l (hl_upd hl d)) (AccountKey i) = Some (ACCOUNT a')
     \<and> ac_numSubEntries a' = ac_numSubEntries a"
proof -
  note ld = load_putHolder(1) [of aid asset "hl_upd hl d" l "AccountKey i", simplified, OF assms(1)]
  show ?thesis using assms ld
    by (cases rule: hl_upd.cases [of "(hl, d)"]) (auto simp: holderKey_def)
qed

lemma keyed_putHolder: "keyed l \<Longrightarrow> keyed (putHolder l hl)"
  by (cases hl) (auto simp: putHolder_def putTrustLine_def keyed_store split: TrustLineWrapper.splits)

text \<open>The ledger a crossing works on between releasing and the final step: both holders updated.\<close>

lemma put_both:
  assumes l: "ledger_ok l" and ne: "b \<noteq> s" and h: "h = lg_header l"
    and sh: "loadHolder l aid b = Inr sh" "hl_ok (h, sh)" "hl_ok (h, hl_upd sh x)"
    and wh: "loadHolder l aid s = Inr wh" "hl_ok (h, wh)" "hl_ok (h, hl_upd wh y)"
    and l2: "l2 = putHolder (putHolder l (hl_upd sh x)) (hl_upd wh y)"
  shows "ledger_ok l2" "lg_header l2 = h" "loadHolder l2 aid b = Inr (hl_upd sh x)"
    "loadHolder l2 aid s = Inr (hl_upd wh y)"
    "\<And>i a. load l (AccountKey i) = Some (ACCOUNT a) \<Longrightarrow>
        \<exists>a'. load l2 (AccountKey i) = Some (ACCOUNT a') \<and> ac_numSubEntries a' = ac_numSubEntries a"
    "\<And>k. k \<noteq> holderKey aid b \<Longrightarrow> k \<noteq> holderKey aid s \<Longrightarrow> load l2 k = load l k"
proof -
  have k: "keyed l" using l by (simp add: ledger_ok_def)
  note at = loadHolder_at [OF k sh(1,2)] loadHolder_at [OF k wh(1,2)]
  let ?m = "putHolder l (hl_upd sh x)"
  note p1 = load_putHolder [of aid b "hl_upd sh x" l, simplified, OF at(1)]
  note p2 = load_putHolder [of aid s "hl_upd wh y" ?m, simplified, OF at(3)]
  have m: "ledger_ok ?m" using ledger_ok_putHolder [OF l] sh(3) h by simp
  show ok: "ledger_ok l2" unfolding l2 using ledger_ok_putHolder [OF m] wh(3) h p1(2) by simp
  show "lg_header l2 = h" using p1(2) p2(2) h l2 by simp
  have k2: "keyed l2" using ok by (simp add: ledger_ok_def)
  show "loadHolder l2 aid b = Inr (hl_upd sh x)"
    using at p1 p2 ne by (intro loadHolder_put [OF k2]) (auto simp: l2)
  show "loadHolder l2 aid s = Inr (hl_upd wh y)"
    using at p1 p2 ne by (intro loadHolder_put [OF k2]) (auto simp: l2)
  show "\<exists>a'. load l2 (AccountKey i) = Some (ACCOUNT a') \<and> ac_numSubEntries a' = ac_numSubEntries a"
    if a: "load l (AccountKey i) = Some (ACCOUNT a)" for i a
  proof -
    obtain a1 where a1: "load ?m (AccountKey i) = Some (ACCOUNT a1)" "ac_numSubEntries a1 = ac_numSubEntries a"
      using putHolder_sub [OF at(1,2) a] by blast
    have "hl_entry wh \<noteq> None \<Longrightarrow> load ?m (holderKey aid s) = hl_entry wh"
      using at(4) p1(1) ne by simp
    from putHolder_sub [OF at(3) this a1(1)] a1(2) show ?thesis unfolding l2 by auto
  qed
  show "load l2 k = load l k" if "k \<noteq> holderKey aid b" "k \<noteq> holderKey aid s" for k
    using that p1(1) p2(1) l2 by simp
qed

lemma exchangeV10_adjusted:
  assumes "price_ok p" "amount64 mws" "amount64 mwr" "amount64 mss" "amount64 msr"
    and "adjustOffer p mws msr = Inr mws"
  obtains ex where "exchangeV10 p mws mwr mss msr pp = Inr ex"
    "0 \<le> x10_numWheatReceived ex" "x10_numWheatReceived ex \<le> min mws mwr"
    "0 \<le> x10_numSheepSend ex" "x10_numSheepSend ex \<le> min mss msr"
proof -
  have "\<exists>ex. exchangeV10 p mws mwr mss msr pp = Inr ex
      \<and> 0 \<le> x10_numWheatReceived ex \<and> x10_numWheatReceived ex \<le> min mws mwr
      \<and> 0 \<le> x10_numSheepSend ex \<and> x10_numSheepSend ex \<le> min mss msr"
    using exchangeV10_bounds [OF assms(1-5)] exchangeV10_path_bounds [OF assms] by (cases pp) auto
  then show ?thesis using that by blast
qed

lemma loadHolder_store_offer [simp]: "loadHolder (store m (OFFER oe)) i s = loadHolder m i s"
  by (simp add: loadHolder_def loadAccount_def loadTrustLine_def loadTrustLineEntry_def cong: if_cong)

text \<open>The seller of an offer is ready for a crossing: the account exists with its sub-entry
  counted, and after the offer's liabilities are released both holders are in order.\<close>

definition seller_ready :: "ledger \<Rightarrow> OfferEntry \<Rightarrow> bool" where
  "seller_ready l oe \<longleftrightarrow>
     (\<exists>a. load l (AccountKey (of_sellerID oe)) = Some (ACCOUNT a)
        \<and> 0 < ac_numSubEntries a \<and> ac_numSubEntries a < INT32_MAX - 1)
   \<and> (\<exists>l1 sh wh. releaseLiabilities l oe = Inr l1
        \<and> loadHolder l1 (of_sellerID oe) (of_buying oe) = Inr sh \<and> hl_ok (lg_header l, sh)
        \<and> loadHolder l1 (of_sellerID oe) (of_selling oe) = Inr wh \<and> hl_ok (lg_header l, wh))"

lemma crossOfferV10_completes:
  assumes l: "ledger_ok l" and oe: "load l (OfferKey (of_sellerID oe) (of_offerID oe)) = Some (OFFER oe)"
    and ready: "seller_ready l oe" and mx: "0 < mwr" "mwr \<le> INT64_MAX" "0 < mss" "mss \<le> INT64_MAX"
  shows "\<exists>cr. crossOfferV10 l oe mwr mss pp trail = Inr cr
    \<and> 0 \<le> cr_numWheatReceived cr \<and> cr_numWheatReceived cr \<le> mwr
    \<and> 0 \<le> cr_numSheepSend cr \<and> cr_numSheepSend cr \<le> mss
    \<and> cr_result cr \<noteq> eOfferCantConvert \<and> (\<not> cr_wheatStays cr \<longrightarrow> cr_result cr = eOfferTaken)"
proof -
  let ?h = "lg_header l" and ?i = "of_sellerID oe" and ?b = "of_buying oe" and ?s = "of_selling oe"
  let ?k = "OfferKey ?i (of_offerID oe)"
  from ready obtain a l1 sh wh where a: "load l (AccountKey ?i) = Some (ACCOUNT a)"
      "0 < ac_numSubEntries a" "ac_numSubEntries a < INT32_MAX - 1"
    and rel: "releaseLiabilities l oe = Inr l1"
    and sh: "loadHolder l1 ?i ?b = Inr sh" "hl_ok (?h, sh)"
    and wh: "loadHolder l1 ?i ?s = Inr wh" "hl_ok (?h, wh)"
    unfolding seller_ready_def by blast
  have ok: "offer_ok oe" using ledger_ok_load [OF l oe] by simp
  then have ne: "?b \<noteq> ?s" and p: "price_ok (of_price oe)" "amount64 (of_amount oe)"
    by (auto simp: offer_ok_def amount64_def)
  note f = acquireOrRelease_ok [OF l ok rel [unfolded releaseLiabilities_def]]
  have hdr: "lg_header l1 = ?h" using f by simp
  have hk: "?k \<noteq> holderKey ?i x" for x by (auto simp: holderKey_def)
  have am: "amount64 mwr" "amount64 mss" using mx by (auto simp: amount64_def)
  obtain v1 where v1: "adjustOfferEntry ?h oe wh sh = Inr (oe\<lparr>of_amount := v1\<rparr>)"
      "0 \<le> v1" "v1 \<le> of_amount oe" "v1 \<le> max (hl_available (?h, wh)) 0"
      "adjustOffer (of_price oe) v1 (hl_room (?h, sh)) = Inr v1"
    using adjustOfferEntry_exact [OF wh(2) sh(2) p] by blast
  have a1: "amount64 v1" using v1 p(2) by (auto simp: amount64_def)
  obtain ex where ex: "exchangeV10 (of_price oe) v1 mwr mss (hl_room (?h, sh)) pp = Inr ex"
    and exb: "0 \<le> x10_numWheatReceived ex" "x10_numWheatReceived ex \<le> min v1 mwr"
      "0 \<le> x10_numSheepSend ex" "x10_numSheepSend ex \<le> min mss (hl_room (?h, sh))"
    using exchangeV10_adjusted [OF p(1) a1 am canTrade_exact(4) [OF sh(2)] v1(5)] by blast
  let ?ns = "x10_numSheepSend ex" and ?nw = "x10_numWheatReceived ex"
  have sh1: "addOrThrow ?h sh ?ns m = Inr (hl_upd sh ?ns)" "hl_ok (?h, hl_upd sh ?ns)" for m
    using addOrThrow_credit [OF sh(2) exb(3)] exb(4) by auto
  have wh1: "addOrThrow ?h wh (- ?nw) m = Inr (hl_upd wh (- ?nw))" "hl_ok (?h, hl_upd wh (- ?nw))" for m
    using addOrThrow_debit [OF wh(2) exb(1)] exb(2) v1(4) by auto
  let ?o1' = "oe\<lparr>of_amount := v1 - ?nw\<rparr>"
  have rest: "amount64 (of_amount ?o1')" "price_ok (of_price ?o1')"
    using a1 exb(1,2) p by (auto simp: amount64_def)
  obtain v2 where v2: "(if x10_wheatStays ex
        then adjustOfferEntry ?h ?o1' (hl_upd wh (- ?nw)) (hl_upd sh ?ns)
        else Inr (oe\<lparr>of_amount := 0\<rparr>)) = Inr (oe\<lparr>of_amount := v2\<rparr>)" "0 \<le> v2"
      "0 < v2 \<Longrightarrow> adjustOffer (of_price oe) (min (v1 - ?nw) (max (hl_available (?h, hl_upd wh (- ?nw))) 0))
         (hl_room (?h, hl_upd sh ?ns)) = Inr v2 \<and> v2 \<le> max (hl_available (?h, hl_upd wh (- ?nw))) 0"
      "\<not> x10_wheatStays ex \<Longrightarrow> v2 = 0"
    using adjustOfferEntry_exact [OF wh1(2) sh1(2) rest(2,1)] by (cases "x10_wheatStays ex") auto
  let ?o2 = "oe\<lparr>of_amount := v2\<rparr>"
  let ?m = "putHolder (putHolder l1 (hl_upd sh ?ns)) (hl_upd wh (- ?nw))"
  have l1ok: "ledger_ok l1" using f by simp
  note pb = put_both [OF l1ok ne hdr [symmetric] sh sh1(2) wh wh1(2) refl]
  obtain a2 where a2: "load ?m (AccountKey ?i) = Some (ACCOUNT a2)" "ac_numSubEntries a2 = ac_numSubEntries a"
    using f a(1) pb(5) by metis
  have a2ok: "account_ok a2" using ledger_ok_load [OF pb(1) a2(1)] by simp
  let ?l2 = "store ?m (OFFER ?o2)"
  have km: "keyed ?m" using pb(1) by (simp add: ledger_ok_def)
  have fin: "\<exists>l3. (if v2 = 0 then eraseTaken ?l2 ?o2 else acquireLiabilities ?l2 ?o2) = Inr l3"
  proof (cases "v2 = 0")
    case True
    have "\<exists>l'. eraseTaken ?l2 ?o2 = Inr l'"
      using eraseTaken_total [of ?l2 ?o2 a2] keyed_store [OF km] ledger_ok_header [OF pb(1)] a2 a2ok a
      by fastforce
    with True show ?thesis by simp
  next
    case False
    then have pos: "0 < v2" using v2(2) by simp
    have mw: "amount64 (min (v1 - ?nw) (max (hl_available (?h, hl_upd wh (- ?nw))) 0))"
      using rest(1) canTrade_exact(3) [OF wh1(2)] by simp
    note raw = adjusted_offer_raw [OF p(1) mw canTrade_exact(4) [OF sh1(2)] conjunct1 [OF v2(3) [OF pos]] pos, of ?o2]
    have ok2: "offer_ok ?o2" using raw(4) pos ok by (auto simp: offer_ok_def amount64_def)
    have l2ok: "ledger_ok ?l2" using ledger_ok_store [OF pb(1), of "OFFER ?o2"] ok2 by simp
    have ld: "loadHolder ?l2 ?i ?b = Inr (hl_upd sh ?ns)" "loadHolder ?l2 ?i ?s = Inr (hl_upd wh (- ?nw))"
      using pb(3,4) by simp_all
    show ?thesis
      using acquire_succeeds [OF l2ok ok2, of "hl_upd sh ?ns" "hl_upd wh (- ?nw)"] ld sh1(2) wh1(2)
        raw pb(2) v2(3) [OF pos] False by simp
  qed
  then obtain l3 where l3: "(if v2 = 0 then eraseTaken ?l2 ?o2 else acquireLiabilities ?l2 ?o2) = Inr l3" by blast
  have "loadAccount l ?i \<noteq> None" using a(1) by (simp add: loadAccount_def)
  moreover have "min v1 (max (hl_available (?h, wh)) 0) = v1" using v1(4) by simp
  moreover have "(if v2 = 0 then eOfferTaken else eOfferPartial) = eOfferTaken \<longleftrightarrow> v2 = 0" by simp
  ultimately have "crossOfferV10 l oe mwr mss pp trail =
      Inr \<lparr>cr_result = (if v2 = 0 then eOfferTaken else eOfferPartial), cr_numWheatReceived = ?nw,
        cr_numSheepSend = ?ns, cr_wheatStays = x10_wheatStays ex, cr_ledger = l3,
        cr_trail = trail @ [\<lparr>co_sellerID = ?i, co_offerID = of_offerID oe, co_assetSold = ?s,
          co_amountSold = ?nw, co_assetBought = ?b, co_amountBought = ?ns\<rparr>]\<rparr>"
    by (cases "x10_wheatStays ex"; cases "v2 = 0"; use v2(1,4) l3 in \<open>simp add: crossOfferV10_def Let_def
        mx rel sh(1) wh(1) v1(1) canTrade_exact(1) [OF wh(2)] canTrade_exact(2) [OF sh(2)] ex sh1(1) wh1(1)
        del: bindE_eq_Inr\<close>)
  then show ?thesis using exb v2(4) by auto
qed

subsection \<open>What a crossing does to the book\<close>

text \<open>Only the offer crossed changes: every other step writes accounts and trust lines.\<close>

definition sameOffers :: "ledger \<Rightarrow> ledger \<Rightarrow> bool" where
  "sameOffers l l' \<longleftrightarrow> (keyed l \<longrightarrow> keyed l') \<and> (\<forall>s i. load l' (OfferKey s i) = load l (OfferKey s i))"

lemma sameOffers_refl [simp]: "sameOffers l l"
  by (simp add: sameOffers_def)

lemma sameOffers_trans: "\<lbrakk>sameOffers l l1; sameOffers l1 l2\<rbrakk> \<Longrightarrow> sameOffers l l2"
  by (simp add: sameOffers_def)

lemma sameOffers_store [simp]:
  "sameOffers l (store l (ACCOUNT a))" "sameOffers l (store l (TRUSTLINE t))"
  by (auto simp: sameOffers_def keyed_store)

lemma sameOffers_put [simp]: "sameOffers l (putHolder l hl)" "sameOffers l (putTrustLine l w)"
  by (auto simp: putHolder_def putTrustLine_def split: holder.splits TrustLineWrapper.splits)

lemma sameOffers_addBuyingAt: "addBuyingAt l aid asset d = Inr l' \<Longrightarrow> sameOffers l l'"
  by (auto simp: addBuyingAt_def Let_def split: if_splits option.splits dest!: addBuying_kind)

lemma sameOffers_addSellingAt: "addSellingAt l aid asset d = Inr l' \<Longrightarrow> sameOffers l l'"
  by (auto simp: addSellingAt_def Let_def split: if_splits option.splits dest!: addBuying_kind)

lemma sameOffers_release: "releaseLiabilities l oe = Inr l' \<Longrightarrow> sameOffers l l'"
  by (auto simp: releaseLiabilities_def acquireOrReleaseLiabilities_def split: if_splits
      dest!: sameOffers_addBuyingAt sameOffers_addSellingAt intro: sameOffers_trans)

lemma sameOffers_adjustBalance: "adjustBalance l aid asset d = Inr (Some l') \<Longrightarrow> sameOffers l l'"
  by (auto simp: adjustBalance_def split: if_splits)

definition offerKeys :: "ledger \<Rightarrow> LedgerKey set" where
  "offerKeys l = {k. \<exists>oe. load l k = Some (OFFER oe)}"

lemma offerKeys_same:
  assumes "keyed l" "sameOffers l l'"
  shows "offerKeys l' = offerKeys l"
proof -
  have "k \<in> offerKeys m \<longleftrightarrow> (\<exists>s i. k = OfferKey s i) \<and> load m k \<noteq> None" if "keyed m" for m k
    using keyed_load [OF that, of k] by (auto simp: offerKeys_def) (metis LedgerEntryDataKey_simps
        LedgerEntryData.exhaust LedgerKey.distinct)+
  then show ?thesis using assms by (auto simp: sameOffers_def)
qed

lemma offerKeys_finite: "finite (offerKeys l)"
  by (rule finite_subset [of _ "dom (map_of (lg_entries l))"])
    (auto simp: offerKeys_def load_def finite_dom_map_of)

lemma length_ledgerOffers:
  assumes "keyed l"
  shows "length (ledgerOffers l) = card (offerKeys l)"
proof -
  let ?P = "\<lambda>(k :: LedgerKey, e). \<exists>oe. e = OFFER oe"
  have d: "distinct (map fst (lg_entries l))" using assms by (simp add: keyed_def)
  have "length (ledgerOffers l) = length (filter ?P (lg_entries l))"
    unfolding ledgerOffers_def List.map_filter_def length_map
    by (rule arg_cong [where f = length]) (auto intro!: filter_cong split: LedgerEntryData.splits)
  also have "\<dots> = length (map fst (filter ?P (lg_entries l)))" by simp
  also have "\<dots> = card (set (map fst (filter ?P (lg_entries l))))"
    using d by (intro distinct_card [symmetric] distinct_map_filter)
  also have "set (map fst (filter ?P (lg_entries l))) = offerKeys l"
    using d by (force simp: offerKeys_def load_def dest: map_of_SomeD)
  finally show ?thesis .
qed

lemma eraseTaken_offers:
  assumes "eraseTaken l oe = Inr l'" "keyed l"
  shows "keyed l'" "offerKeys l' = offerKeys l - {OfferKey (of_sellerID oe) (of_offerID oe)}"
proof -
  obtain l1 where l1: "erase l (OfferKey (of_sellerID oe) (of_offerID oe)) = Inr l1" "sameOffers l1 l'"
    using assms(1) by (auto simp: eraseTaken_def split: option.splits)
  have k1: "keyed l1" by (rule keyed_erase [OF assms(2) l1(1)])
  show "keyed l'" using k1 l1(2) by (simp add: sameOffers_def)
  show "offerKeys l' = offerKeys l - {OfferKey (of_sellerID oe) (of_offerID oe)}"
    unfolding offerKeys_same [OF k1 l1(2)] using load_erase [OF l1(1)] by (auto simp: offerKeys_def split: if_splits)
qed

text \<open>What every completed crossing shares, before and after protocol 10.\<close>

definition crossing_sound :: "ledger \<Rightarrow> OfferEntry \<Rightarrow> ClaimOfferAtom list \<Rightarrow> crossing \<Rightarrow> bool" where
  "crossing_sound l oe trail cr \<longleftrightarrow> cr_result cr = eOfferCantConvert
   \<or> cr_trail cr = trail @ [\<lparr>co_sellerID = of_sellerID oe, co_offerID = of_offerID oe,
          co_assetSold = of_selling oe, co_amountSold = cr_numWheatReceived cr,
          co_assetBought = of_buying oe, co_amountBought = cr_numSheepSend cr\<rparr>]
     \<and> (keyed l \<longrightarrow> keyed (cr_ledger cr)
        \<and> (cr_result cr = eOfferTaken \<longrightarrow>
             offerKeys (cr_ledger cr) \<subseteq> offerKeys l - {OfferKey (of_sellerID oe) (of_offerID oe)}))"

lemma crossOffer_sound:
  assumes "crossOffer l oe mwr mss trail = Inr cr"
  shows "crossing_sound l oe trail cr"
proof (cases "cr_result cr = eOfferCantConvert")
  case False
  with assms have "\<exists>nw ns na l1 l2 l3.
    (eraseTaken l oe = Inr l1 \<and> cr_result cr = eOfferTaken
       \<or> l1 = store l (OFFER (oe\<lparr>of_amount := na\<rparr>)) \<and> cr_result cr = eOfferPartial)
    \<and> adjustBalance l1 (of_sellerID oe) (of_buying oe) ns = Inr (Some l2)
    \<and> adjustBalance l2 (of_sellerID oe) (of_selling oe) (- nw) = Inr (Some l3)
    \<and> cr_numWheatReceived cr = nw \<and> cr_numSheepSend cr = ns \<and> cr_ledger cr = l3
    \<and> cr_trail cr = trail @
       [\<lparr>co_sellerID = of_sellerID oe, co_offerID = of_offerID oe, co_assetSold = of_selling oe,
         co_amountSold = nw, co_assetBought = of_buying oe, co_amountBought = ns\<rparr>]"
    by (auto simp: crossOffer_def Let_def split: option.splits prod.splits if_splits) blast+
  then obtain nw ns na l1 l2 l3 where
    l1: "eraseTaken l oe = Inr l1 \<and> cr_result cr = eOfferTaken
       \<or> l1 = store l (OFFER (oe\<lparr>of_amount := na\<rparr>)) \<and> cr_result cr = eOfferPartial"
    and l2: "adjustBalance l1 (of_sellerID oe) (of_buying oe) ns = Inr (Some l2)"
    and l3: "adjustBalance l2 (of_sellerID oe) (of_selling oe) (- nw) = Inr (Some l3)"
    and cr: "cr_numWheatReceived cr = nw" "cr_numSheepSend cr = ns" "cr_ledger cr = l3"
      "cr_trail cr = trail @
       [\<lparr>co_sellerID = of_sellerID oe, co_offerID = of_offerID oe, co_assetSold = of_selling oe,
         co_amountSold = nw, co_assetBought = of_buying oe, co_amountBought = ns\<rparr>]"
    by blast
  have same: "sameOffers l1 l3"
    using sameOffers_adjustBalance [OF l2] sameOffers_adjustBalance [OF l3] by (rule sameOffers_trans)
  show ?thesis
    using l1
  proof (elim disjE conjE)
    assume "eraseTaken l oe = Inr l1" "cr_result cr = eOfferTaken"
    then show ?thesis
      using cr eraseTaken_offers [of l oe l1] same offerKeys_same [of l1 l3]
      by (auto simp: crossing_sound_def sameOffers_def)
  next
    assume "l1 = store l (OFFER (oe\<lparr>of_amount := na\<rparr>))" "cr_result cr = eOfferPartial"
    then show ?thesis
      using cr same keyed_store by (auto simp: crossing_sound_def sameOffers_def)
  qed
qed (simp add: crossing_sound_def)

lemma adjustOfferEntry_key:
  "adjustOfferEntry h oe wh sh = Inr oe' \<Longrightarrow> \<exists>v. oe' = oe\<lparr>of_amount := v\<rparr>"
  by (auto simp: adjustOfferEntry_def)

lemma sameOffers_acquire: "acquireLiabilities l oe = Inr l' \<Longrightarrow> sameOffers l l'"
  by (auto simp: acquireLiabilities_def acquireOrReleaseLiabilities_def split: if_splits
      dest!: sameOffers_addBuyingAt sameOffers_addSellingAt intro: sameOffers_trans)

lemma crossOfferV10_steps:
  assumes "crossOfferV10 l oe mwr mss pp trail = Inr cr"
  shows "\<exists>l1 sh wh v l3 ns nw. releaseLiabilities l oe = Inr l1
    \<and> (let o2 = oe\<lparr>of_amount := v\<rparr>; m = store (putHolder (putHolder l1 sh) wh) (OFFER o2) in
       (if v = 0 then eraseTaken m o2 else acquireLiabilities m o2) = Inr l3)
    \<and> cr_result cr = (if v = 0 then eOfferTaken else eOfferPartial) \<and> cr_ledger cr = l3
    \<and> cr_numWheatReceived cr = nw \<and> cr_numSheepSend cr = ns
    \<and> cr_trail cr = trail @
       [\<lparr>co_sellerID = of_sellerID oe, co_offerID = of_offerID oe, co_assetSold = of_selling oe,
         co_amountSold = nw, co_assetBought = of_buying oe, co_amountBought = ns\<rparr>]"
proof -
  have na: "loadAccount l (of_sellerID oe) \<noteq> None"
    using assms by (auto simp: crossOfferV10_def Let_def ensureE_def split: if_splits)
  obtain l1 sh wh o1 and ex :: ExchangeResultV10 and sh1 wh1 o2 l3 where
    rel: "releaseLiabilities l oe = Inr l1" and o1: "adjustOfferEntry (lg_header l) oe wh sh = Inr o1"
    and o2: "(if x10_wheatStays ex
       then adjustOfferEntry (lg_header l) (o1\<lparr>of_amount := of_amount o1 - x10_numWheatReceived ex\<rparr>) wh1 sh1
       else Inr (o1\<lparr>of_amount := 0\<rparr>)) = Inr o2"
    and l3: "(if (if of_amount o2 = 0 then eOfferTaken else eOfferPartial) = eOfferTaken
        then eraseTaken (store (putHolder (putHolder l1 sh1) wh1) (OFFER o2)) o2
        else acquireLiabilities (store (putHolder (putHolder l1 sh1) wh1) (OFFER o2)) o2) = Inr l3"
    and cr: "Inr \<lparr>cr_result = (if of_amount o2 = 0 then eOfferTaken else eOfferPartial),
        cr_numWheatReceived = x10_numWheatReceived ex,
        cr_numSheepSend = x10_numSheepSend ex, cr_wheatStays = x10_wheatStays ex, cr_ledger = l3,
        cr_trail = trail @ [\<lparr>co_sellerID = of_sellerID oe, co_offerID = of_offerID oe,
          co_assetSold = of_selling oe, co_amountSold = x10_numWheatReceived ex,
          co_assetBought = of_buying oe, co_amountBought = x10_numSheepSend ex\<rparr>]\<rparr> = (Inr cr :: cpp_error + crossing)"
    using assms unfolding crossOfferV10_def Let_def if_not_P [OF na]
    by (elim bindE_InrE) (rule that)
  obtain v1 where v1: "o1 = oe\<lparr>of_amount := v1\<rparr>" using adjustOfferEntry_key [OF o1] by blast
  have "\<exists>v. o2 = oe\<lparr>of_amount := v\<rparr>"
  proof (cases "x10_wheatStays ex")
    case True
    then show ?thesis using o2 adjustOfferEntry_key v1 by fastforce
  next
    case False
    then show ?thesis using o2 v1 by auto
  qed
  then obtain v where v: "o2 = oe\<lparr>of_amount := v\<rparr>" by blast
  have "(if v = 0 then eOfferTaken else eOfferPartial) = eOfferTaken \<longleftrightarrow> v = 0" by simp
  then have "(let o2 = oe\<lparr>of_amount := v\<rparr>; m = store (putHolder (putHolder l1 sh1) wh1) (OFFER o2) in
       (if v = 0 then eraseTaken m o2 else acquireLiabilities m o2) = Inr l3)"
    using l3 unfolding v Let_def by simp
  moreover have "cr_result cr = (if v = 0 then eOfferTaken else eOfferPartial)" "cr_ledger cr = l3"
    "cr_numWheatReceived cr = x10_numWheatReceived ex" "cr_numSheepSend cr = x10_numSheepSend ex"
    "cr_trail cr = trail @ [\<lparr>co_sellerID = of_sellerID oe, co_offerID = of_offerID oe,
          co_assetSold = of_selling oe, co_amountSold = x10_numWheatReceived ex,
          co_assetBought = of_buying oe, co_amountBought = x10_numSheepSend ex\<rparr>]"
    using cr v by auto
  ultimately show ?thesis using rel by blast
qed

lemma crossOfferV10_sound:
  assumes "crossOfferV10 l oe mwr mss pp trail = Inr cr"
  shows "crossing_sound l oe trail cr"
proof -
  obtain l1 sh wh v l3 where rel: "releaseLiabilities l oe = Inr l1"
    and l3: "(if v = 0 then eraseTaken (store (putHolder (putHolder l1 sh) wh) (OFFER (oe\<lparr>of_amount := v\<rparr>))) (oe\<lparr>of_amount := v\<rparr>)
       else acquireLiabilities (store (putHolder (putHolder l1 sh) wh) (OFFER (oe\<lparr>of_amount := v\<rparr>))) (oe\<lparr>of_amount := v\<rparr>)) = Inr l3"
    and cr: "cr_result cr = (if v = 0 then eOfferTaken else eOfferPartial)" "cr_ledger cr = l3"
      "cr_trail cr = trail @
       [\<lparr>co_sellerID = of_sellerID oe, co_offerID = of_offerID oe, co_assetSold = of_selling oe,
         co_amountSold = cr_numWheatReceived cr, co_assetBought = of_buying oe,
         co_amountBought = cr_numSheepSend cr\<rparr>]"
    using crossOfferV10_steps [OF assms] unfolding Let_def by blast
  let ?m = "putHolder (putHolder l1 sh) wh" and ?o = "oe\<lparr>of_amount := v\<rparr>"
  have m: "sameOffers l ?m"
    using sameOffers_release [OF rel] sameOffers_put sameOffers_trans by blast
  have k: "keyed l \<Longrightarrow> keyed (store ?m (OFFER ?o))"
    using m by (auto simp: sameOffers_def intro!: keyed_store)
  have ok: "offerKeys (store ?m (OFFER ?o)) \<subseteq> insert (OfferKey (of_sellerID oe) (of_offerID oe)) (offerKeys ?m)"
    by (auto simp: offerKeys_def split: if_splits)
  show ?thesis
  proof (cases "v = 0")
    case True
    then have e: "eraseTaken (store ?m (OFFER ?o)) ?o = Inr l3" using l3 by simp
    show ?thesis
      using cr True eraseTaken_offers [OF e] k ok offerKeys_same [OF _ m]
      by (auto simp: crossing_sound_def)
  next
    case False
    then have "sameOffers (store ?m (OFFER ?o)) l3" using l3 sameOffers_acquire by simp
    then show ?thesis using cr False k by (auto simp: crossing_sound_def sameOffers_def)
  qed
qed

subsection \<open>The conversion loop: accounting and termination\<close>

definition trail_wheat :: "ClaimOfferAtom list \<Rightarrow> int" where
  "trail_wheat ts = sum_list (map co_amountSold ts)"

definition trail_sheep :: "ClaimOfferAtom list \<Rightarrow> int" where
  "trail_sheep ts = sum_list (map co_amountBought ts)"

lemma trail_simps [simp]:
  "trail_wheat [] = 0" "trail_sheep [] = 0"
  "trail_wheat (t # ts) = co_amountSold t + trail_wheat ts" "trail_sheep (t # ts) = co_amountBought t + trail_sheep ts"
  "trail_wheat (ts @ us) = trail_wheat ts + trail_wheat us" "trail_sheep (ts @ us) = trail_sheep ts + trail_sheep us"
  by (simp_all add: trail_wheat_def trail_sheep_def)

abbreviation cross :: "ledger \<Rightarrow> OfferEntry \<Rightarrow> int \<Rightarrow> int \<Rightarrow> bool \<Rightarrow> ClaimOfferAtom list \<Rightarrow> cpp_error + crossing" where
  "cross l oe mwr mss pp trail \<equiv>
     (if lh_ledgerVersion (lg_header l) \<ge> 10 then crossOfferV10 l oe mwr mss pp trail
      else crossOffer l oe mwr mss trail)"

lemma cross_sound: "cross l oe mwr mss pp trail = Inr cr \<Longrightarrow> crossing_sound l oe trail cr"
  using crossOffer_sound crossOfferV10_sound by (auto split: if_splits)

text \<open>One iteration: it ends the loop, or it crosses an offer of the book and the state moves on.\<close>

lemma convertLoop_step:
  assumes "convertLoop (Suc f) sheep wheat pp filt nm mss mwr c = R"
  obtains (fail) e where "R = Some (Inl e)"
    | (stop) r where "R = Some (Inr (c\<lparr>cv_result := r\<rparr>))"
    | (crossed) oe cr c' where "nm" "loadBestOffer (cv_ledger c) sheep wheat = Some oe"
        "cross (cv_ledger c) oe mwr mss pp (cv_trail c) = Inr cr" "cr_result cr \<noteq> eOfferCantConvert"
        "0 \<le> cr_numSheepSend cr" "cr_numSheepSend cr \<le> mss"
        "0 \<le> cr_numWheatReceived cr" "cr_numWheatReceived cr \<le> mwr"
        "c' = c\<lparr>cv_sheepSend := cv_sheepSend c + cr_numSheepSend cr,
               cv_wheatReceived := cv_wheatReceived c + cr_numWheatReceived cr,
               cv_ledger := cr_ledger cr, cv_trail := cr_trail cr\<rparr>"
        "(\<exists>r. R = Some (Inr (c'\<lparr>cv_result := r\<rparr>)))
         \<or> cr_result cr = eOfferTaken \<and> mwr - cr_numWheatReceived cr > 0 \<and> mss - cr_numSheepSend cr > 0
           \<and> R = convertLoop f sheep wheat pp filt True (mss - cr_numSheepSend cr) (mwr - cr_numWheatReceived cr) c'"
proof (cases "nm \<and> loadBestOffer (cv_ledger c) sheep wheat \<noteq> None")
  case False
  then show ?thesis
    using assms stop [of "if lh_ledgerVersion (lg_header (cv_ledger c)) < 10 \<or> \<not> nm then eOK else ePartial"]
    by (auto simp: Let_def)
next
  case True
  then obtain oe where oe: "nm" "loadBestOffer (cv_ledger c) sheep wheat = Some oe" by auto
  show ?thesis
  proof (cases "filt oe = eStop")
    case True
    then show ?thesis using assms oe by (intro stop) (auto simp: Let_def)
  next
    case fk: False
    show ?thesis
    proof (cases "cross (cv_ledger c) oe mwr mss pp (cv_trail c)")
      case (Inl e)
      then show ?thesis using assms oe fk by (intro fail) (auto simp: Let_def)
    next
      case (Inr cr)
      show ?thesis
      proof (cases "0 \<le> cr_numSheepSend cr \<and> cr_numSheepSend cr \<le> mss \<and> 0 \<le> cr_numWheatReceived cr
          \<and> cr_numWheatReceived cr \<le> mwr")
        case False
        then show ?thesis using assms oe fk Inr by (intro fail) (auto simp: Let_def)
      next
        case b: True
        show ?thesis
        proof (cases "cr_result cr = eOfferCantConvert")
          case True
          then show ?thesis using assms oe fk Inr b by (intro stop) (auto simp: Let_def)
        next
          case nc: False
          let ?c = "c\<lparr>cv_sheepSend := cv_sheepSend c + cr_numSheepSend cr,
               cv_wheatReceived := cv_wheatReceived c + cr_numWheatReceived cr,
               cv_ledger := cr_ledger cr, cv_trail := cr_trail cr\<rparr>"
          have R: "R = (let nm1 = ((if lh_ledgerVersion (lg_header (cv_ledger c)) \<ge> 10 then \<not> cr_wheatStays cr else True)
                 \<and> mwr - cr_numWheatReceived cr > 0 \<and> mss - cr_numSheepSend cr > 0) in
               if \<not> nm1 then Some (Inr (?c\<lparr>cv_result := eOK\<rparr>))
               else if cr_result cr = eOfferPartial then Some (Inr (?c\<lparr>cv_result := ePartial\<rparr>))
               else convertLoop f sheep wheat pp filt nm1 (mss - cr_numSheepSend cr)
                       (mwr - cr_numWheatReceived cr) ?c)"
            using assms oe fk Inr b nc by (auto simp: Let_def)
          show ?thesis
            by (rule crossed [OF oe Inr nc _ _ _ _ refl]) (use R b nc in \<open>auto simp: Let_def split: if_splits
                intro: CrossOfferResult.exhaust [of "cr_result cr"]\<close>)
        qed
      qed
    qed
  qed
qed

lemma convertLoop_accounts:
  assumes "convertLoop f sheep wheat pp filt nm mss mwr c = Some (Inr c')" "keyed (cv_ledger c)" "0 \<le> mss" "0 \<le> mwr"
  shows "\<exists>ts. cv_trail c' = cv_trail c @ ts
     \<and> cv_sheepSend c' = cv_sheepSend c + trail_sheep ts \<and> 0 \<le> trail_sheep ts \<and> trail_sheep ts \<le> mss
     \<and> cv_wheatReceived c' = cv_wheatReceived c + trail_wheat ts \<and> 0 \<le> trail_wheat ts \<and> trail_wheat ts \<le> mwr
     \<and> (\<forall>t \<in> set ts. co_assetSold t = wheat \<and> co_assetBought t = sheep)"
  using assms
proof (induction f arbitrary: nm mss mwr c)
  case (Suc f)
  from Suc.prems(1) show ?case
  proof (cases rule: convertLoop_step)
    case (stop r)
    then show ?thesis using Suc.prems by (intro exI [of _ "[]"]) auto
  next
    case (crossed oe cr d)
    have kd: "keyed (cv_ledger c)" by fact
    note best = loadBestOffer_best [OF kd crossed(2)]
    let ?t = "\<lparr>co_sellerID = of_sellerID oe, co_offerID = of_offerID oe, co_assetSold = of_selling oe,
       co_amountSold = cr_numWheatReceived cr, co_assetBought = of_buying oe, co_amountBought = cr_numSheepSend cr\<rparr>"
    have snd: "cr_trail cr = cv_trail c @ [?t]" "keyed (cr_ledger cr)"
      using cross_sound [OF crossed(3)] crossed(4) kd by (auto simp: crossing_sound_def)
    from crossed(10) show ?thesis
    proof (elim disjE exE conjE)
      fix r assume "Some (Inr c') = Some (Inr (d\<lparr>cv_result := r\<rparr>))"
      then show ?thesis using crossed snd best by (intro exI [of _ "[?t]"]) auto
    next
      assume rec: "Some (Inr c') = convertLoop f sheep wheat pp filt True (mss - cr_numSheepSend cr) (mwr - cr_numWheatReceived cr) d"
        and pos: "0 < mwr - cr_numWheatReceived cr" "0 < mss - cr_numSheepSend cr"
      obtain ts where ts: "cv_trail c' = cv_trail d @ ts" "cv_sheepSend c' = cv_sheepSend d + trail_sheep ts"
        "0 \<le> trail_sheep ts" "trail_sheep ts \<le> mss - cr_numSheepSend cr"
        "cv_wheatReceived c' = cv_wheatReceived d + trail_wheat ts" "0 \<le> trail_wheat ts"
        "trail_wheat ts \<le> mwr - cr_numWheatReceived cr"
        "\<forall>t \<in> set ts. co_assetSold t = wheat \<and> co_assetBought t = sheep"
        using Suc.IH [OF rec [symmetric]] crossed(9) snd(2) pos by auto
      then show ?thesis using crossed snd best by (intro exI [of _ "?t # ts"]) auto
    qed
  qed simp
qed simp

lemma convertLoop_fuel:
  assumes "keyed (cv_ledger c)" "card (offerKeys (cv_ledger c)) < f"
  shows "convertLoop f sheep wheat pp filt nm mss mwr c \<noteq> None"
  using assms
proof (induction f arbitrary: nm mss mwr c)
  case (Suc f)
  obtain R where R: "convertLoop (Suc f) sheep wheat pp filt nm mss mwr c = R" by blast
  from R have "R \<noteq> None"
  proof (cases rule: convertLoop_step)
    case (crossed oe cr d)
    have kd: "keyed (cv_ledger c)" by fact
    let ?k = "OfferKey (of_sellerID oe) (of_offerID oe)"
    have "?k \<in> offerKeys (cv_ledger c)" using loadBestOffer_best(1) [OF kd crossed(2)] by (auto simp: offerKeys_def)
    moreover have "keyed (cr_ledger cr)"
      "cr_result cr = eOfferTaken \<Longrightarrow> offerKeys (cr_ledger cr) \<subseteq> offerKeys (cv_ledger c) - {?k}"
      using cross_sound [OF crossed(3)] crossed(4) kd by (auto simp: crossing_sound_def)
    ultimately have "cr_result cr = eOfferTaken \<Longrightarrow> card (offerKeys (cr_ledger cr)) < f"
      using Suc.prems(2) card_mono [of "offerKeys (cv_ledger c) - {?k}" "offerKeys (cr_ledger cr)"]
        offerKeys_finite [of "cv_ledger c"] card_Diff1_less [of "offerKeys (cv_ledger c)" ?k] by fastforce
    then show ?thesis
      using Suc.IH [of d True] crossed(9,10) \<open>keyed (cr_ledger cr)\<close> by auto
  qed auto
  then show ?case using R by simp
qed simp

text \<open>C23. \<^verbatim>\<open>convertWithOffers\<close> terminates: with one unit of fuel more than the book has offers the
  loop always ends, with a result or an error, because it goes on only after it took an offer out of the
  ledger.\<close>

theorem convertWithOffers_terminates:
  assumes "ledger_ok l"
  shows "\<exists>r. convertWithOffers l sheep mss wheat mwr pp filt trail = Some r"
proof -
  have k: "keyed l" using assms by (simp add: ledger_ok_def)
  show ?thesis
    using convertLoop_fuel [of "\<lparr>cv_result = eOK, cv_sheepSend = 0, cv_wheatReceived = 0, cv_ledger = l, cv_trail = trail\<rparr>"]
      k length_ledgerOffers [OF k] by (auto simp: convertWithOffers_def simp del: convertLoop.simps)
qed

theorem convertWithOffers_terminates_witness:
  "\<exists>r. convertWithOffers ex_book ASSET_TYPE_NATIVE 90 ex_asset 50 True (\<lambda>_. eKeep) [] = Some r"
  by (rule convertWithOffers_terminates [OF ex_book_ok])

text \<open>C24. The accounting of \<^verbatim>\<open>convertWithOffers\<close>: whatever it returns, the wheat and sheep it reports
  are exactly the sums over the claims it appended to the trail, all of them between the two
  assets asked for, and neither exceeds its limit.\<close>

theorem convertWithOffers_accounts:
  assumes "ledger_ok l" "0 \<le> mss" "0 \<le> mwr"
    and "convertWithOffers l sheep mss wheat mwr pp filt trail = Some (Inr c)"
  shows "\<exists>ts. cv_trail c = trail @ ts
     \<and> cv_sheepSend c = trail_sheep ts \<and> 0 \<le> cv_sheepSend c \<and> cv_sheepSend c \<le> mss
     \<and> cv_wheatReceived c = trail_wheat ts \<and> 0 \<le> cv_wheatReceived c \<and> cv_wheatReceived c \<le> mwr
     \<and> list_all (\<lambda>t. co_assetSold t = wheat \<and> co_assetBought t = sheep) ts"
  using convertLoop_accounts [OF assms(4) [unfolded convertWithOffers_def]] assms
  by (auto simp: ledger_ok_def list_all_iff)

text \<open>C13. Crossing an offer from protocol 10 on never throws: for a well-formed ledger, an offer of
  the book whose seller is ready, and positive limits, \<^verbatim>\<open>crossOfferV10\<close> completes, for a path
  payment or not. None of its eight \<^verbatim>\<open>runtime_error\<close>s is reached, in particular re-acquiring the
  liabilities of what remains of the offer succeeds, the amounts respect the limits, and an offer
  whose owner's wheat does not stay is taken out of the book.\<close>

theorem crossOfferV10_total:
  assumes "ledger_ok l" "load l (OfferKey (of_sellerID oe) (of_offerID oe)) = Some (OFFER oe)"
    and "seller_ready l oe" "0 < mwr" "mwr \<le> INT64_MAX" "0 < mss" "mss \<le> INT64_MAX"
  shows "\<exists>cr. crossOfferV10 l oe mwr mss pp trail = Inr cr
    \<and> 0 \<le> cr_numWheatReceived cr \<and> cr_numWheatReceived cr \<le> mwr
    \<and> 0 \<le> cr_numSheepSend cr \<and> cr_numSheepSend cr \<le> mss
    \<and> cr_result cr \<noteq> eOfferCantConvert \<and> (\<not> cr_wheatStays cr \<longrightarrow> cr_result cr = eOfferTaken)"
  by (rule crossOfferV10_completes [OF assms])

text \<open>A market in which one offer has its liabilities recorded, for the instances below.\<close>

definition ex_market :: ledger where
  "ex_market = \<lparr>lg_header = ex_header, lg_entries =
     [(AccountKey 1, ACCOUNT (ex_account\<lparr>ac_ext := Some \<lparr>liab_buying = 150, liab_selling = 0\<rparr>\<rparr>)),
      (TrustLineKey 1 ex_asset, TRUSTLINE (ex_trustline\<lparr>tl_ext := Some \<lparr>liab_buying = 0, liab_selling = 100\<rparr>\<rparr>)),
      (OfferKey 1 4, OFFER ex_offer)]\<rparr>"

lemma ex_market_ok: "ledger_ok ex_market"
    "load ex_market (OfferKey (of_sellerID ex_offer) (of_offerID ex_offer)) = Some (OFFER ex_offer)"
  using ex_ledger_ok(2) ex_ok(1)
  by (simp_all add: ledger_ok_def keyed_def ex_market_def load_def)
    (simp_all add: ex_defs ex_offer_def account_ok_def trustline_ok_def ext_buying_def ext_selling_def)

lemma ex_market_release:
  "\<exists>l1 a t. releaseLiabilities ex_market ex_offer = Inr l1 \<and> load l1 (AccountKey 1) = Some (ACCOUNT a)
     \<and> load l1 (TrustLineKey 1 ex_asset) = Some (TRUSTLINE t) \<and> isAuthorized t"
proof -
  let ?a = "ex_account\<lparr>ac_ext := Some \<lparr>liab_buying = 150, liab_selling = 0\<rparr>\<rparr>"
  let ?t = "ex_trustline\<lparr>tl_ext := Some \<lparr>liab_buying = 0, liab_selling = 100\<rparr>\<rparr>"
  have ok: "account_ok ?a" "trustline_ok ?t" "isAuthorized ?t" "header_ok ex_header"
    using ex_ok by (simp_all add: account_ok_def trustline_ok_def ext_buying_def ext_selling_def)
      (simp_all add: ex_defs)
  have k: "keyed ex_market" "lg_header ex_market = ex_header"
    using ex_market_ok by (simp_all add: ledger_ok_def) (simp add: ex_market_def)
  obtain a' where b: "addBuyingLiabilities ex_header (ACCOUNT ?a) (- 150) = Inr (Some (ACCOUNT a'))"
    "ac_accountID a' = 1"
    using ok by (simp add: addBuyingLiabilities_account ext_buying_def acc_room_def) (simp add: ex_defs)
  obtain t' where s: "addSellingLiabilities ex_header (TRUSTLINE ?t) (- 100) = Inr (Some (TRUSTLINE t'))"
    "tl_accountID t' = 1" "tl_asset t' = ex_asset" "isAuthorized t'"
    using ok by (simp add: addSellingLiabilities_trustline ext_selling_def tl_available_def)
      (simp add: ex_trustline_def isAuthorized_def flag_defs)
  have lds: "load ex_market (AccountKey 1) = Some (ACCOUNT ?a)" "load ex_market (TrustLineKey 1 ex_asset) = Some (TRUSTLINE ?t)"
    by (simp_all add: ex_market_def load_def ex_asset_def)
  let ?l1 = "store ex_market (ACCOUNT a')"
  have l1: "addBuyingAt ex_market 1 ASSET_TYPE_NATIVE (- 150) = Inr ?l1"
    using k lds b by (simp add: addBuyingAt_eq isIssuer_def updateAt_def holderKey_def)
  have l2: "addSellingAt ?l1 1 ex_asset (- 100) = Inr (store ?l1 (TRUSTLINE t'))"
    using k lds s keyed_store [OF k(1)]
    by (simp add: addSellingAt_eq updateAt_def holderKey_def) (simp add: isIssuer_def ex_asset_def)
  have "releaseLiabilities ex_market ex_offer = Inr (store ?l1 (TRUSTLINE t'))"
    using acquireOrRelease_eq [OF ex_market_ok(1) ex_ledger_ok(2), of False] l1 l2
    by (simp add: releaseLiabilities_def ex_offer_raw) (simp add: ex_offer_def)
  then show ?thesis using b s by (auto simp: ex_asset_def)
qed

lemma ex_market_ready: "seller_ready ex_market ex_offer"
proof -
  obtain l1 a t where l1: "releaseLiabilities ex_market ex_offer = Inr l1" "load l1 (AccountKey 1) = Some (ACCOUNT a)"
    "load l1 (TrustLineKey 1 ex_asset) = Some (TRUSTLINE t)" "isAuthorized t"
    using ex_market_release by blast
  note f = acquireOrRelease_ok [OF ex_market_ok(1) ex_ledger_ok(2) l1(1) [unfolded releaseLiabilities_def]]
  have ok: "account_ok a" "trustline_ok t" using ledger_ok_load [of l1] f l1 by fastforce+
  have h: "lg_header ex_market = ex_header" by (simp add: ex_market_def)
  have "loadHolder l1 1 ASSET_TYPE_NATIVE = Inr (HAccount a)" "loadHolder l1 1 ex_asset = Inr (HLine (NonIssuerImpl t))"
    using l1 by (simp_all add: loadHolder_def loadAccount_def)
      (simp_all add: ex_asset_def loadTrustLine_def getIssuer_def loadTrustLineEntry_def)
  then show ?thesis
    using l1(1,4) ok ex_ok(1)
    by (auto simp: seller_ready_def h ex_offer_def hl_ok_def holder_ok_def wrapper_ok_def)
      (simp_all add: ex_market_def load_def ex_defs)
qed

theorem crossOfferV10_total_witness:
  "\<exists>cr. crossOfferV10 ex_market ex_offer 40 1000 True [] = Inr cr
    \<and> 0 \<le> cr_numWheatReceived cr \<and> cr_numWheatReceived cr \<le> 40
    \<and> 0 \<le> cr_numSheepSend cr \<and> cr_numSheepSend cr \<le> 1000"
  using crossOfferV10_total [OF ex_market_ok ex_market_ready, of 40 1000 True "[]"] by auto

lemma loadBestOffer_empty: "\<lbrakk>keyed l; offerKeys l = {}\<rbrakk> \<Longrightarrow> loadBestOffer l b s = None"
  using loadBestOffer_best(1) [of l b s] by (cases "loadBestOffer l b s") (auto simp: offerKeys_def)

lemma ex_market_best: "loadBestOffer ex_market ASSET_TYPE_NATIVE ex_asset = Some ex_offer"
    "offerKeys ex_market = {OfferKey 1 4}" "length (ledgerOffers ex_market) = 1"
  by (simp_all add: loadBestOffer_def ledgerOffers_def ex_market_def List.map_filter_def inBook_def
      offerKeys_def load_def ex_offer_def)

lemma ex_market_converts:
  "\<exists>c. convertWithOffers ex_market ASSET_TYPE_NATIVE 1000 ex_asset 40 True (\<lambda>_. eKeep) [] = Some (Inr c)"
proof -
  obtain cr where cr: "crossOfferV10 ex_market ex_offer 40 1000 True [] = Inr cr"
      "0 \<le> cr_numWheatReceived cr" "cr_numWheatReceived cr \<le> 40"
      "0 \<le> cr_numSheepSend cr" "cr_numSheepSend cr \<le> 1000" "cr_result cr \<noteq> eOfferCantConvert"
    using crossOfferV10_completes [OF ex_market_ok ex_market_ready, of 40 1000 True "[]"] by auto
  have "keyed ex_market" using ex_market_ok(1) by (simp add: ledger_ok_def)
  then have "cr_result cr = eOfferTaken \<Longrightarrow> loadBestOffer (cr_ledger cr) ASSET_TYPE_NATIVE ex_asset = None"
    using crossOfferV10_sound [OF cr(1)] cr(6) ex_market_best(2)
    by (intro loadBestOffer_empty) (auto simp: crossing_sound_def ex_offer_def)
  moreover have "lh_ledgerVersion (lg_header ex_market) = 10" by (simp add: ex_market_def ex_header_def)
  ultimately show ?thesis
    using cr by (cases "cr_result cr")
      (auto simp: convertWithOffers_def ex_market_best Let_def numeral_2_eq_2)
qed

theorem convertWithOffers_accounts_witness:
  "\<exists>c. convertWithOffers ex_market ASSET_TYPE_NATIVE 1000 ex_asset 40 True (\<lambda>_. eKeep) [] = Some (Inr c)
     \<and> cv_sheepSend c = trail_sheep (cv_trail c) \<and> cv_sheepSend c \<le> 1000
     \<and> cv_wheatReceived c = trail_wheat (cv_trail c) \<and> cv_wheatReceived c \<le> 40"
proof -
  obtain c where c: "convertWithOffers ex_market ASSET_TYPE_NATIVE 1000 ex_asset 40 True (\<lambda>_. eKeep) [] = Some (Inr c)"
    using ex_market_converts by blast
  show ?thesis using convertWithOffers_accounts [OF ex_market_ok(1) _ _ c] c by auto
qed

end
