(* ===== verification/Operation_Types.thy ===== *)
theory Operation_Types
  imports Offer_Crossing
begin

section \<open>Operations and their results (src/src/xdr/Stellar-transaction.x)\<close>

text \<open>
  The operations of a transaction and the result each of them reports. The arm of a result union
  that carries data is a constructor with an argument, so that setting the code and filling the arm
  is one value. An operation's \<^verbatim>\<open>doCheckValid\<close> is a function to an optional code, \<^const>\<open>None\<close> being
  \<^verbatim>\<open>return true\<close>; its \<^verbatim>\<open>doApply\<close> returns what it returns, the inner result it leaves and the ledger
  it leaves, which is kept for a failing operation too, because \<^verbatim>\<open>TransactionFrame\<close> decides what
  becomes of it.
\<close>

type_synonym 'r applied = "cpp_error + (bool \<times> 'r \<times> ledger)"

subsection \<open>Bodies\<close>

record CreateAccountOp =
  ca_destination :: AccountID
  ca_startingBalance :: int

record PaymentOp =
  py_destination :: AccountID
  py_asset :: Asset
  py_amount :: int

record PathPaymentOp =
  pp_sendAsset :: Asset
  pp_sendMax :: int
  pp_destination :: AccountID
  pp_destAsset :: Asset
  pp_destAmount :: int
  pp_path :: "Asset list"

record ManageOfferOp =
  mo_selling :: Asset
  mo_buying :: Asset
  mo_amount :: int
  mo_price :: Price
  mo_offerID :: u64

record CreatePassiveOfferOp =
  cp_selling :: Asset
  cp_buying :: Asset
  cp_amount :: int
  cp_price :: Price

record SetOptionsOp =
  so_inflationDest :: "AccountID option"
  so_clearFlags :: "u32 option"
  so_setFlags :: "u32 option"
  so_masterWeight :: "int option"
  so_lowThreshold :: "int option"
  so_medThreshold :: "int option"
  so_highThreshold :: "int option"
  so_homeDomain :: "string option"
  so_signer :: "Signer option"

record ChangeTrustOp =
  ct_line :: Asset
  ct_limit :: int

datatype AllowTrustAsset = AllowTrustNative | assetCode4 "u8 list" | assetCode12 "u8 list"

record AllowTrustOp =
  at_trustor :: AccountID
  at_asset :: AllowTrustAsset
  at_authorize :: bool

record ManageDataOp =
  md_dataName :: string
  md_dataValue :: "u8 list option"

datatype OperationBody =
    CREATE_ACCOUNT CreateAccountOp
  | PAYMENT PaymentOp
  | PATH_PAYMENT PathPaymentOp
  | MANAGE_OFFER ManageOfferOp
  | CREATE_PASSIVE_OFFER CreatePassiveOfferOp
  | SET_OPTIONS SetOptionsOp
  | CHANGE_TRUST ChangeTrustOp
  | ALLOW_TRUST AllowTrustOp
  | ACCOUNT_MERGE AccountID
  | INFLATION
  | MANAGE_DATA ManageDataOp
  | BUMP_SEQUENCE int
  | MARK_ACCOUNT string

record Operation =
  op_sourceAccount :: "AccountID option"
  op_body :: OperationBody

datatype ThresholdLevel = LOW | MEDIUM | HIGH

subsection \<open>Results\<close>

datatype CreateAccountResultCode =
    CREATE_ACCOUNT_SUCCESS | CREATE_ACCOUNT_MALFORMED | CREATE_ACCOUNT_UNDERFUNDED
  | CREATE_ACCOUNT_LOW_RESERVE | CREATE_ACCOUNT_ALREADY_EXIST

datatype PaymentResultCode =
    PAYMENT_SUCCESS | PAYMENT_MALFORMED | PAYMENT_UNDERFUNDED | PAYMENT_SRC_NO_TRUST
  | PAYMENT_SRC_NOT_AUTHORIZED | PAYMENT_NO_DESTINATION | PAYMENT_NO_TRUST | PAYMENT_NOT_AUTHORIZED
  | PAYMENT_LINE_FULL | PAYMENT_NO_ISSUER

record SimplePaymentResult =
  sp_destination :: AccountID
  sp_asset :: Asset
  sp_amount :: int

datatype PathPaymentResult =
    PATH_PAYMENT_SUCCESS "ClaimOfferAtom list" "SimplePaymentResult option"
  | PATH_PAYMENT_MALFORMED | PATH_PAYMENT_UNDERFUNDED | PATH_PAYMENT_SRC_NO_TRUST
  | PATH_PAYMENT_SRC_NOT_AUTHORIZED | PATH_PAYMENT_NO_DESTINATION | PATH_PAYMENT_NO_TRUST
  | PATH_PAYMENT_NOT_AUTHORIZED | PATH_PAYMENT_LINE_FULL | PATH_PAYMENT_NO_ISSUER Asset
  | PATH_PAYMENT_TOO_FEW_OFFERS | PATH_PAYMENT_OFFER_CROSS_SELF | PATH_PAYMENT_OVER_SENDMAX

datatype ManageOfferEffect =
    MANAGE_OFFER_CREATED OfferEntry | MANAGE_OFFER_UPDATED OfferEntry | MANAGE_OFFER_DELETED

datatype ManageOfferResult =
    MANAGE_OFFER_SUCCESS "ClaimOfferAtom list" ManageOfferEffect
  | MANAGE_OFFER_MALFORMED | MANAGE_OFFER_SELL_NO_TRUST | MANAGE_OFFER_BUY_NO_TRUST
  | MANAGE_OFFER_SELL_NOT_AUTHORIZED | MANAGE_OFFER_BUY_NOT_AUTHORIZED | MANAGE_OFFER_LINE_FULL
  | MANAGE_OFFER_UNDERFUNDED | MANAGE_OFFER_CROSS_SELF | MANAGE_OFFER_SELL_NO_ISSUER
  | MANAGE_OFFER_BUY_NO_ISSUER | MANAGE_OFFER_NOT_FOUND | MANAGE_OFFER_LOW_RESERVE

datatype SetOptionsResultCode =
    SET_OPTIONS_SUCCESS | SET_OPTIONS_LOW_RESERVE | SET_OPTIONS_TOO_MANY_SIGNERS
  | SET_OPTIONS_BAD_FLAGS | SET_OPTIONS_INVALID_INFLATION | SET_OPTIONS_CANT_CHANGE
  | SET_OPTIONS_UNKNOWN_FLAG | SET_OPTIONS_THRESHOLD_OUT_OF_RANGE | SET_OPTIONS_BAD_SIGNER
  | SET_OPTIONS_INVALID_HOME_DOMAIN

datatype ChangeTrustResultCode =
    CHANGE_TRUST_SUCCESS | CHANGE_TRUST_MALFORMED | CHANGE_TRUST_NO_ISSUER
  | CHANGE_TRUST_INVALID_LIMIT | CHANGE_TRUST_LOW_RESERVE | CHANGE_TRUST_SELF_NOT_ALLOWED

datatype AllowTrustResultCode =
    ALLOW_TRUST_SUCCESS | ALLOW_TRUST_MALFORMED | ALLOW_TRUST_NO_TRUST_LINE
  | ALLOW_TRUST_TRUST_NOT_REQUIRED | ALLOW_TRUST_CANT_REVOKE | ALLOW_TRUST_SELF_NOT_ALLOWED

datatype AccountMergeResult =
    ACCOUNT_MERGE_SUCCESS int | ACCOUNT_MERGE_MALFORMED | ACCOUNT_MERGE_NO_ACCOUNT
  | ACCOUNT_MERGE_IMMUTABLE_SET | ACCOUNT_MERGE_HAS_SUB_ENTRIES | ACCOUNT_MERGE_SEQNUM_TOO_FAR
  | ACCOUNT_MERGE_DEST_FULL

datatype InflationResult =
    INFLATION_SUCCESS "(AccountID \<times> int) list" | INFLATION_NOT_TIME

datatype ManageDataResultCode =
    MANAGE_DATA_SUCCESS | MANAGE_DATA_NOT_SUPPORTED_YET | MANAGE_DATA_NAME_NOT_FOUND
  | MANAGE_DATA_LOW_RESERVE | MANAGE_DATA_INVALID_NAME

datatype BumpSequenceResultCode = BUMP_SEQUENCE_SUCCESS | BUMP_SEQUENCE_BAD_SEQ

datatype MarkAccountResultCode =
    MARK_ACCOUNT_SUCCESS | MARK_ACCOUNT_FAILED | MARK_ACCOUNT_BAD_MARKER

datatype OperationResultTr =
    createAccountResult CreateAccountResultCode
  | paymentResult PaymentResultCode
  | pathPaymentResult PathPaymentResult
  | manageOfferResult ManageOfferResult
  | createPassiveOfferResult ManageOfferResult
  | setOptionsResult SetOptionsResultCode
  | changeTrustResult ChangeTrustResultCode
  | allowTrustResult AllowTrustResultCode
  | accountMergeResult AccountMergeResult
  | inflationResult InflationResult
  | manageDataResult ManageDataResultCode
  | bumpSeqResult BumpSequenceResultCode
  | markAccountResult MarkAccountResultCode

datatype OperationResult =
    opINNER OperationResultTr | opBAD_AUTH | opNO_ACCOUNT | opNOT_SUPPORTED

subsection \<open>Loading the source account\<close>

text \<open>
  \<^verbatim>\<open>TransactionFrame::loadAccount\<close> from protocol 8 on, where it is \<^verbatim>\<open>stellar::loadAccount\<close>; the
  account cache of the earlier protocols is not modelled. A handle of an account that does not
  exist throws when it is used.
\<close>

definition notActiveEntry :: cpp_error where
  "notActiveEntry = RuntimeError ''LedgerTxnEntry not active''"

definition loadSourceAccount :: "ledger \<Rightarrow> AccountID \<Rightarrow> cpp_error + AccountEntry" where
  "loadSourceAccount l sourceID =
     (case loadAccount l sourceID of None \<Rightarrow> Inl notActiveEntry | Some a \<Rightarrow> Inr a)"

definition putAccount :: "ledger \<Rightarrow> AccountEntry \<Rightarrow> ledger" where
  "putAccount l a = store l (ACCOUNT a)"

definition addAccountBalance :: "LedgerHeader \<Rightarrow> AccountEntry \<Rightarrow> int \<Rightarrow> cpp_error + AccountEntry option" where
  "addAccountBalance h a delta =
     bindE (addBalanceEntry h (ACCOUNT a) delta) (\<lambda>r.
     Inr (case r of Some (ACCOUNT a') \<Rightarrow> Some a' | _ \<Rightarrow> None))"

text \<open>\<^verbatim>\<open>addNumEntries(header, sourceAccount, -1)\<close> with its result ignored.\<close>

definition dropNumEntry :: "LedgerHeader \<Rightarrow> AccountEntry \<Rightarrow> cpp_error + AccountEntry" where
  "dropNumEntry h a = bindE (addNumEntries h a (- 1)) (\<lambda>r. Inr (case r of None \<Rightarrow> a | Some a' \<Rightarrow> a'))"

lemma loadSourceAccount_Inr [simp]: "loadSourceAccount l s = Inr a \<longleftrightarrow> loadAccount l s = Some a"
  by (auto simp: loadSourceAccount_def split: option.splits)

lemma addBalance_SomeD: "addBalance b d m = Inr (Some b') \<Longrightarrow> b' = b + d"
  by (simp add: addBalance_Some)

lemma addBalanceEntry_account_upd:
  assumes "addBalanceEntry h (ACCOUNT a) d = Inr (Some e)"
  shows "e = ACCOUNT (a\<lparr>ac_balance := ac_balance a + d\<rparr>)"
proof -
  have "d \<noteq> 0 \<Longrightarrow> \<exists>b. addBalance (ac_balance a) d INT64_MAX = Inr (Some b) \<and> e = ACCOUNT (a\<lparr>ac_balance := b\<rparr>)"
    using assms
    by (simp add: addBalanceEntry_def Let_def bindE_def split: if_split_asm sum.split_asm option.split_asm)
  with assms addBalance_SomeD show ?thesis
    by (cases "d = 0") (auto simp: addBalanceEntry_def)
qed

lemma addBalanceEntry_trustline_upd:
  assumes "addBalanceEntry h (TRUSTLINE t) d = Inr (Some e)"
  shows "e = TRUSTLINE (t\<lparr>tl_balance := tl_balance t + d\<rparr>)"
proof -
  have "d \<noteq> 0 \<Longrightarrow> \<exists>b. addBalance (tl_balance t) d (tl_limit t) = Inr (Some b)
      \<and> e = TRUSTLINE (t\<lparr>tl_balance := b\<rparr>)"
    using assms
    by (simp add: addBalanceEntry_def Let_def bindE_def split: if_split_asm sum.split_asm option.split_asm)
  with assms addBalance_SomeD show ?thesis
    by (cases "d = 0") (auto simp: addBalanceEntry_def)
qed

lemma addAccountBalance_upd:
  assumes "addAccountBalance h a d = Inr (Some a')"
  shows "a' = a\<lparr>ac_balance := ac_balance a + d\<rparr>"
proof -
  from assms obtain e where "addBalanceEntry h (ACCOUNT a) d = Inr (Some e)" "e = ACCOUNT a'"
    by (simp add: addAccountBalance_def bindE_def
        split: sum.split_asm option.split_asm LedgerEntryData.split_asm)
  with addBalanceEntry_account_upd [of h a d e] show ?thesis by simp
qed

lemma addNumEntries_upd:
  "addNumEntries h a n = Inr (Some a') \<Longrightarrow> \<exists>k. a' = a\<lparr>ac_numSubEntries := k\<rparr> \<and> 0 \<le> k \<and> k \<le> INT32_MAX"
  using to_int32_le [of "ac_numSubEntries a + n"]
  by (simp add: addNumEntries_def Let_def bindE_def split: if_split_asm sum.split_asm) auto

lemma dropNumEntry_upd:
  "dropNumEntry h a = Inr a' \<Longrightarrow> a' = a \<or> (\<exists>k. a' = a\<lparr>ac_numSubEntries := k\<rparr> \<and> 0 \<le> k \<and> k \<le> INT32_MAX)"
  using addNumEntries_upd [of h a "- 1"]
  by (simp add: dropNumEntry_def bindE_def split: sum.split_asm option.split_asm)

end
