(* ===== verification/Lumens.thy ===== *)
theory Lumens
  imports Operation_Types
begin

section \<open>Counting the native asset\<close>

text \<open>
  The lumens held in accounts, and what each primitive of the ledger does to their sum and to the
  well-formedness of the ledger. A step that keeps the ledger well formed and its header and moves
  the sum by a known amount is a \<open>moves\<close> step; such steps compose.
\<close>

definition balance_of :: "LedgerEntryData \<Rightarrow> int" where
  "balance_of e = (case e of ACCOUNT a \<Rightarrow> ac_balance a | _ \<Rightarrow> 0)"

lemma balance_of_simps [simp]:
  "balance_of (ACCOUNT a) = ac_balance a" "balance_of (TRUSTLINE t) = 0"
  "balance_of (OFFER oe) = 0" "balance_of (DATA d) = 0"
  by (simp_all add: balance_of_def)

definition native_total :: "ledger \<Rightarrow> int" where
  "native_total l = sum_list (map (\<lambda>(k, e). balance_of e) (lg_entries l))"

abbreviation held :: "ledger \<Rightarrow> LedgerKey \<Rightarrow> int" where
  "held l k \<equiv> (case load l k of None \<Rightarrow> 0 | Some e \<Rightarrow> balance_of e)"

lemma sum_update:
  fixes f :: "'b \<Rightarrow> int"
  assumes "distinct (map fst al)"
  shows "sum_list (map (\<lambda>(k, e). f e) (AList.update k v al))
    = sum_list (map (\<lambda>(k, e). f e) al) - (case map_of al k of None \<Rightarrow> 0 | Some e \<Rightarrow> f e) + f v"
  using assms by (induction al) (auto split: option.splits dest: map_of_SomeD)

lemma sum_delete:
  fixes f :: "'b \<Rightarrow> int"
  assumes "distinct (map fst al)"
  shows "sum_list (map (\<lambda>(k, e). f e) (AList.delete k al))
    = sum_list (map (\<lambda>(k, e). f e) al) - (case map_of al k of None \<Rightarrow> 0 | Some e \<Rightarrow> f e)"
  using assms
proof (induction al)
  case (Cons x al)
  show ?case
  proof (cases "fst x = k")
    case True
    with Cons.prems have none: "map_of al k = None" by (simp add: map_of_eq_None_iff)
    with Cons have "sum_list (map (\<lambda>(k, e). f e) (AList.delete k al)) = sum_list (map (\<lambda>(k, e). f e) al)"
      by simp
    with True show ?thesis by (cases x) (simp add: AList.delete_eq)
  next
    case False
    with Cons show ?thesis by (cases x) (auto simp: AList.delete_eq)
  qed
qed (simp add: AList.delete_eq)

lemma native_store:
  "keyed l \<Longrightarrow> native_total (store l e) = native_total l - held l (LedgerEntryDataKey e) + balance_of e"
  by (simp add: native_total_def store_def keyed_def load_def sum_update)

lemma native_erase:
  "\<lbrakk>keyed l; erase l k = Inr l'\<rbrakk> \<Longrightarrow> native_total l' = native_total l - held l k"
  by (auto simp: native_total_def erase_def keyed_def load_def sum_delete split: if_splits)

lemma native_setHeader [simp]: "native_total (setHeader l h) = native_total l"
  by (simp add: native_total_def setHeader_def)

lemma ledger_ok_keyed [simp]: "ledger_ok l \<Longrightarrow> keyed l"
  by (simp add: ledger_ok_def)

lemma ledger_ok_erase:
  assumes "ledger_ok l" "erase l k = Inr l'"
  shows "ledger_ok l'"
  using assms keyed_erase [of l k l']
  by (auto simp: ledger_ok_def erase_def AList.delete_eq split: if_splits)

lemma ledger_ok_create: "\<lbrakk>ledger_ok l; entry_ok e; create l e = Inr l'\<rbrakk> \<Longrightarrow> ledger_ok l'"
  by (auto simp: create_def ledger_ok_store split: if_splits)

lemma ledger_ok_setHeader: "\<lbrakk>ledger_ok l; header_ok h\<rbrakk> \<Longrightarrow> ledger_ok (setHeader l h)"
  by (auto simp: ledger_ok_def setHeader_def keyed_def)

subsection \<open>Steps that move a known amount\<close>

definition moves :: "ledger \<Rightarrow> int \<Rightarrow> ledger \<Rightarrow> bool" where
  "moves l d l' \<longleftrightarrow> ledger_ok l' \<and> lg_header l' = lg_header l \<and> native_total l' = native_total l + d"

lemma moves_refl: "ledger_ok l \<Longrightarrow> moves l 0 l"
  by (simp add: moves_def)

lemma moves_trans: "\<lbrakk>moves l d l1; moves l1 e l2\<rbrakk> \<Longrightarrow> moves l (d + e) l2"
  by (simp add: moves_def)

lemma movesD:
  assumes "moves l d l'"
  shows "ledger_ok l'" "lg_header l' = lg_header l" "native_total l' = native_total l + d"
  using assms by (simp_all add: moves_def)

lemma moves_store:
  "\<lbrakk>ledger_ok l; entry_ok e; d = balance_of e - held l (LedgerEntryDataKey e)\<rbrakk> \<Longrightarrow> moves l d (store l e)"
  by (simp add: moves_def ledger_ok_store native_store)

lemma moves_create:
  assumes "ledger_ok l" "entry_ok e" "create l e = Inr l'"
  shows "moves l (balance_of e) l'"
  using assms moves_store [of l e "balance_of e"] by (auto simp: create_def split: if_splits)

lemma moves_erase:
  assumes "ledger_ok l" "erase l k = Inr l'"
  shows "moves l (- held l k) l'"
  using assms native_erase [of l k l'] by (simp add: moves_def ledger_ok_erase erase_header)

lemma moves_setHeader_eq: "moves l d l' \<Longrightarrow> lg_header l' = lg_header l"
  by (simp add: moves_def)

text \<open>Writing back an account that was loaded.\<close>

lemma loadAccount_load: "ledger_ok l \<Longrightarrow> loadAccount l i = Some a \<Longrightarrow>
    load l (AccountKey i) = Some (ACCOUNT a) \<and> ac_accountID a = i \<and> account_ok a"
  using keyed_loadAccount [of l i a] ledger_ok_load [of l "AccountKey i" "ACCOUNT a"] by simp

lemma moves_putAccount:
  assumes "ledger_ok l" "loadAccount l i = Some a" "account_ok a'" "ac_accountID a' = i"
  shows "moves l (ac_balance a' - ac_balance a) (putAccount l a')"
  using assms loadAccount_load [OF assms(1,2)]
  by (auto simp: putAccount_def intro!: moves_store)

lemma account_ok_numSub:
  "\<lbrakk>account_ok a; 0 \<le> k; k \<le> INT32_MAX\<rbrakk> \<Longrightarrow> account_ok (a\<lparr>ac_numSubEntries := k\<rparr>)"
  by (simp add: account_ok_def)

lemma addNumEntries_account:
  assumes "account_ok a" "addNumEntries h a n = Inr (Some a')"
  shows "account_ok a' \<and> ac_accountID a' = ac_accountID a \<and> ac_balance a' = ac_balance a"
  using addNumEntries_upd [OF assms(2)] assms(1) account_ok_numSub by auto

lemma dropNumEntry_account:
  assumes "account_ok a" "dropNumEntry h a = Inr a'"
  shows "account_ok a' \<and> ac_accountID a' = ac_accountID a \<and> ac_balance a' = ac_balance a"
  using dropNumEntry_upd [OF assms(2)] assms(1) account_ok_numSub by auto

lemma addAccountBalance_account:
  assumes "header_ok h" "account_ok a" "addAccountBalance h a d = Inr (Some a')"
  shows "account_ok a' \<and> ac_accountID a' = ac_accountID a \<and> ac_balance a' = ac_balance a + d"
proof -
  have a': "a' = a\<lparr>ac_balance := ac_balance a + d\<rparr>" by (rule addAccountBalance_upd [OF assms(3)])
  from assms(3) have "addBalanceEntry h (ACCOUNT a) d = Inr (Some (ACCOUNT a'))"
    by (simp add: addAccountBalance_def bindE_def split: sum.split_asm option.split_asm LedgerEntryData.split_asm)
  from addBalanceEntry_ok [OF assms(1) _ this] assms(2) a' show ?thesis by simp
qed

subsection \<open>Holders\<close>

lemma loadHolder_cases:
  assumes "ledger_ok l" "loadHolder l aid asset = Inr hl"
  obtains (account) a where "asset = ASSET_TYPE_NATIVE" "hl = HAccount a" "load l (AccountKey aid) = Some (ACCOUNT a)"
      "ac_accountID a = aid" "account_ok a"
    | (issuer) "asset \<noteq> ASSET_TYPE_NATIVE" "hl = HLine (IssuerImpl aid asset)"
    | (inactive) "asset \<noteq> ASSET_TYPE_NATIVE" "hl = HLine InactiveImpl"
    | (line) t where "asset \<noteq> ASSET_TYPE_NATIVE" "hl = HLine (NonIssuerImpl t)"
      "load l (TrustLineKey aid asset) = Some (TRUSTLINE t)" "tl_accountID t = aid" "tl_asset t = asset" "trustline_ok t"
      "\<not> isIssuer aid asset"
proof (cases "asset = ASSET_TYPE_NATIVE")
  case True
  with assms obtain a where "hl = HAccount a" "loadAccount l aid = Some a"
    by (auto simp: loadHolder_def split: option.splits)
  with True account loadAccount_load [OF assms(1)] show ?thesis by blast
next
  case False
  with assms(2) have hl: "hl = HLine (if isIssuer aid asset then IssuerImpl aid asset
      else case loadTrustLineEntry l aid asset of None \<Rightarrow> InactiveImpl | Some t \<Rightarrow> NonIssuerImpl t)"
    by (simp add: loadHolder_def loadTrustLine_cases)
  show ?thesis
  proof (cases "isIssuer aid asset \<or> loadTrustLineEntry l aid asset = None")
    case True
    with hl False issuer inactive show ?thesis by (auto split: if_splits)
  next
    case nf: False
    then obtain t where t: "loadTrustLineEntry l aid asset = Some t" by auto
    then have "load l (TrustLineKey aid asset) = Some (TRUSTLINE t)"
      by (auto simp: loadTrustLineEntry_def split: option.splits LedgerEntryData.splits)
    with ledger_ok_load [OF assms(1) this] line [of t] False hl t nf show ?thesis by auto
  qed
qed

lemma addToHolder_account:
  "addToHolder h (HAccount a) d = Inr (Some hl') \<Longrightarrow> \<exists>a'. hl' = HAccount a' \<and> addAccountBalance h a d = Inr (Some a')"
  by (simp add: addToHolder_def addAccountBalance_def bindE_def
      split: sum.split_asm option.split_asm LedgerEntryData.split_asm)

lemma addToHolder_line:
  assumes "addToHolder h (HLine (NonIssuerImpl t)) d = Inr (Some hl')"
  shows "\<exists>t'. hl' = HLine (NonIssuerImpl t') \<and> addBalanceEntry h (TRUSTLINE t) d = Inr (Some (TRUSTLINE t'))
     \<and> t' = t\<lparr>tl_balance := tl_balance t + d\<rparr>"
  using assms addBalanceEntry_trustline_upd [of h t d]
  by (simp add: addToHolder_def tlw_addBalance_def bindE_def
      split: sum.split_asm option.split_asm LedgerEntryData.split_asm)

abbreviation native_part :: "Asset \<Rightarrow> int \<Rightarrow> int" where
  "native_part asset d \<equiv> (if asset = ASSET_TYPE_NATIVE then d else 0)"

lemma moves_putHolder:
  assumes l: "ledger_ok l" "loadHolder l aid asset = Inr hl"
    and add: "addToHolder (lg_header l) hl d = Inr (Some hl')"
  shows "moves l (native_part asset d) (putHolder l hl')
     \<and> (\<forall>k. k \<noteq> holderKey aid asset \<longrightarrow> load (putHolder l hl') k = load l k)
     \<and> loadHolder (putHolder l hl') aid asset = Inr hl'"
  using l
proof (cases rule: loadHolder_cases)
  case (account a)
  with addToHolder_account add obtain a' where a': "hl' = HAccount a'" "addAccountBalance (lg_header l) a d = Inr (Some a')"
    by blast
  note ok = addAccountBalance_account [OF ledger_ok_header [OF l(1)] account(5) a'(2)]
  have "moves l d (store l (ACCOUNT a'))"
    using ok account l(1) by (intro moves_store) auto
  with account a' ok show ?thesis by (simp add: putHolder_def holderKey_def loadHolder_def loadAccount_def)
next
  case issuer
  with add have "hl' = HLine (IssuerImpl aid asset)" by (auto simp: addToHolder_def tlw_addBalance_def)
  with issuer moves_refl [OF l(1)] l(2) show ?thesis by (simp add: putHolder_def putTrustLine_def)
next
  case inactive
  with add show ?thesis by (simp add: addToHolder_def tlw_addBalance_def)
next
  case (line t)
  with addToHolder_line add obtain t' where t': "hl' = HLine (NonIssuerImpl t')"
    "addBalanceEntry (lg_header l) (TRUSTLINE t) d = Inr (Some (TRUSTLINE t'))" "t' = t\<lparr>tl_balance := tl_balance t + d\<rparr>"
    by blast
  have ok: "entry_ok (TRUSTLINE t')"
    using addBalanceEntry_ok [OF ledger_ok_header [OF l(1)] _ t'(2)] line by simp
  have "moves l 0 (store l (TRUSTLINE t'))"
    using ok line t' l(1) by (intro moves_store) auto
  with line t' show ?thesis
    by (simp add: putHolder_def putTrustLine_def holderKey_def loadHolder_def loadTrustLine_cases
        loadTrustLineEntry_def)
qed

lemma addOrThrow_cases:
  assumes "addOrThrow h hl d msg = Inr hl'"
  obtains (zero) "d = 0" "hl' = hl" | (moved) "addToHolder h hl d = Inr (Some hl')"
  using assms by (auto simp: addOrThrow_def bindE_def split: if_split_asm sum.split_asm option.split_asm)

lemma moves_addOrThrow:
  assumes l: "ledger_ok l" "loadHolder l aid asset = Inr hl"
    and add: "addOrThrow (lg_header l) hl d msg = Inr hl'"
  shows "moves l (native_part asset d) (putHolder l hl')
     \<and> (\<forall>k. k \<noteq> holderKey aid asset \<longrightarrow> load (putHolder l hl') k = load l k)
     \<and> loadHolder (putHolder l hl') aid asset = Inr hl'"
  using add
proof (cases rule: addOrThrow_cases)
  case zero
  have "moves l 0 (putHolder l hl) \<and> (\<forall>k. k \<noteq> holderKey aid asset \<longrightarrow> load (putHolder l hl) k = load l k)
      \<and> loadHolder (putHolder l hl) aid asset = Inr hl"
    using l
    by (cases rule: loadHolder_cases)
      (use l in \<open>auto simp: putHolder_def putTrustLine_def holderKey_def moves_refl loadHolder_def
        loadAccount_def loadTrustLine_cases loadTrustLineEntry_def intro!: moves_store\<close>)
  with zero show ?thesis by simp
next
  case moved
  then show ?thesis by (rule moves_putHolder [OF l])
qed

lemma loadHolder_cong:
  "load l' (holderKey aid asset) = load l (holderKey aid asset) \<Longrightarrow> loadHolder l' aid asset = loadHolder l aid asset"
  by (auto simp: loadHolder_def holderKey_def loadAccount_def loadTrustLine_cases loadTrustLineEntry_def)

end
