(* ===== verification/Crossing_Lumens.thy ===== *)
theory Crossing_Lumens
  imports Lumens
begin

section \<open>Crossing offers moves no more than it reports\<close>

text \<open>
  The well-formedness of the ledger through the liabilities, the crossing of an offer and the
  conversion loop, with what each of them moves of the native asset. All of it is about protocol 10
  and later, which a well-formed header implies.
\<close>

subsection \<open>Liabilities\<close>

lemma addLiabilities_balance:
  assumes "header_ok h"
  shows "addBuyingLiabilities h e d = Inr (Some e') \<Longrightarrow> balance_of e' = balance_of e"
    and "addSellingLiabilities h e d = Inr (Some e') \<Longrightarrow> balance_of e' = balance_of e"
  using assms
  by (cases e; simp add: addBuyingLiabilities_def addSellingLiabilities_def getBuyingLiabilities_def
      getSellingLiabilities_def header_ok_def Let_def bindE_def
      split: if_split_asm sum.split_asm option.split_asm; auto)+

lemma moves_liabilities:
  assumes "ledger_ok l"
  shows "addBuyingAt l aid asset d = Inr l' \<Longrightarrow> moves l 0 l'"
    and "addSellingAt l aid asset d = Inr l' \<Longrightarrow> moves l 0 l'"
proof -
  assume a: "addBuyingAt l aid asset d = Inr l'"
  show "moves l 0 l'"
    by (rule buying.addAt_cases [OF assms a])
      (use addLiabilities_balance(1) [OF ledger_ok_header [OF assms]] assms moves_refl in
        \<open>auto intro!: moves_store\<close>)
next
  assume a: "addSellingAt l aid asset d = Inr l'"
  show "moves l 0 l'"
    by (rule selling.addAt_cases [OF assms a])
      (use addLiabilities_balance(2) [OF ledger_ok_header [OF assms]] assms moves_refl in
        \<open>auto intro!: moves_store\<close>)
qed

lemma moves_acquireOrRelease:
  assumes l: "ledger_ok l" and r: "acquireOrReleaseLiabilities l oe acq = Inr l'"
  shows "moves l 0 l' \<and> of_buying oe \<noteq> of_selling oe"
proof -
  have ne: "of_buying oe \<noteq> of_selling oe"
    using r by (auto simp: acquireOrReleaseLiabilities_def)
  with r obtain b l1 s where
    "addBuyingAt l (of_sellerID oe) (of_buying oe) (if acq then b else - b) = Inr l1"
    "addSellingAt l1 (of_sellerID oe) (of_selling oe) (if acq then s else - s) = Inr l'"
    by (simp add: acquireOrReleaseLiabilities_def bindE_def split: sum.split_asm)
  then have "moves l 0 l1" "ledger_ok l1 \<Longrightarrow> moves l1 0 l'" using moves_liabilities l by blast+
  then show ?thesis using moves_trans [of l 0 l1 0 l'] movesD(1) ne by auto
qed

lemma moves_release: "\<lbrakk>ledger_ok l; releaseLiabilities l oe = Inr l'\<rbrakk> \<Longrightarrow> moves l 0 l'"
  using moves_acquireOrRelease by (simp add: releaseLiabilities_def)

lemma moves_acquire: "\<lbrakk>ledger_ok l; acquireLiabilities l oe = Inr l'\<rbrakk> \<Longrightarrow> moves l 0 l'"
  using moves_acquireOrRelease by (simp add: acquireLiabilities_def)

subsection \<open>An offer that is used up\<close>

lemma erase_store:
  assumes "load l (LedgerEntryDataKey e) \<noteq> None"
  shows "erase (store l e) (LedgerEntryDataKey e) = erase l (LedgerEntryDataKey e)"
proof -
  have "filter (\<lambda>(k', _). k \<noteq> k') (AList.update k v al) = filter (\<lambda>(k', _). k \<noteq> k') al"
    for k v and al :: "(LedgerKey \<times> LedgerEntryData) list"
    by (induction al) auto
  with assms show ?thesis by (simp add: erase_def store_def AList.delete_eq load_def update_conv')
qed

lemma moves_eraseTaken:
  assumes l: "ledger_ok l" and e: "eraseTaken l oe = Inr l'"
    and offer: "load l (OfferKey (of_sellerID oe) (of_offerID oe)) = Some (OFFER oe')"
  shows "moves l 0 l'"
proof -
  from e obtain l1 a r where l1: "erase l (OfferKey (of_sellerID oe) (of_offerID oe)) = Inr l1"
    and a: "loadAccount l1 (of_sellerID oe) = Some a" and r: "addNumEntries (lg_header l1) a (- 1) = Inr r"
    and l': "l' = (case r of None \<Rightarrow> l1 | Some a' \<Rightarrow> store l1 (ACCOUNT a'))"
    by (simp add: eraseTaken_def bindE_def split: sum.split_asm option.split_asm)
  have m1: "moves l 0 l1" using moves_erase [OF l l1] offer by simp
  show ?thesis
  proof (cases r)
    case None
    with l' m1 show ?thesis by simp
  next
    case (Some a')
    note acc = loadAccount_load [OF movesD(1) [OF m1] a]
    have "account_ok a' \<and> ac_accountID a' = ac_accountID a \<and> ac_balance a' = ac_balance a"
      using addNumEntries_account acc r Some by blast
    then have "moves l1 0 (putAccount l1 a')"
      using moves_putAccount [OF movesD(1) [OF m1] a, of a'] acc by simp
    with moves_trans [OF m1] l' Some show ?thesis by (simp add: putAccount_def)
  qed
qed

lemma eraseTaken_store:
  assumes "load l (LedgerEntryDataKey (OFFER oe)) \<noteq> None"
  shows "eraseTaken (store l (OFFER oe)) oe = eraseTaken l oe"
  using erase_store [OF assms] by (simp add: eraseTaken_def)

subsection \<open>Trading amounts are 64-bit amounts\<close>

lemma loadHolder_amounts:
  assumes "ledger_ok l" "loadHolder l aid asset = Inr hl"
  shows "canSellAtMost (lg_header l) hl = Inr cs \<Longrightarrow> 0 \<le> cs"
    and "canBuyAtMost (lg_header l) hl = Inr cb \<Longrightarrow> amount64 cb"
proof -
  assume "canSellAtMost (lg_header l) hl = Inr cs"
  then show "0 \<le> cs"
    by (simp add: canSellAtMost_def bindE_def split: holder.split_asm if_split_asm sum.split_asm)
next
  assume b: "canBuyAtMost (lg_header l) hl = Inr cb"
  have h: "header_ok (lg_header l)" using ledger_ok_header [OF assms(1)] .
  show "amount64 cb"
    using assms
  proof (cases rule: loadHolder_cases)
    case (account a)
    with b h show ?thesis by (auto simp: canBuyAtMost_def acc_room_def amount64_def account_ok_def max_def)
  next
    case (line t)
    with b h show ?thesis
      by (auto simp: canBuyAtMost_def tlw_bool_def tlw_getMaxAmountReceive_def tl_room_def amount64_def
          trustline_ok_def max_def split: if_splits)
  qed (use b in \<open>auto simp: canBuyAtMost_def tlw_bool_def tlw_getMaxAmountReceive_def\<close>)
qed

lemma adjustOfferEntry_range:
  assumes wh: "ledger_ok lw" "loadHolder lw aid w = Inr wh" "lg_header lw = h"
    and sh: "ledger_ok ls" "loadHolder ls aid' s = Inr sh" "lg_header ls = h"
    and oe: "price_ok (of_price oe)" "amount64 (of_amount oe)" "adjustOfferEntry h oe wh sh = Inr oe'"
  shows "\<exists>v. oe' = oe\<lparr>of_amount := v\<rparr> \<and> amount64 v \<and> v \<le> of_amount oe"
proof -
  from oe(3) obtain cs cb v where c: "canSellAtMost h wh = Inr cs" "canBuyAtMost h sh = Inr cb"
    "adjustOffer (of_price oe) (min (of_amount oe) cs) cb = Inr v" "oe' = oe\<lparr>of_amount := v\<rparr>"
    by (simp add: adjustOfferEntry_def bindE_def split: sum.split_asm)
  have "0 \<le> cs" "amount64 cb"
    using loadHolder_amounts(1) [OF wh(1,2)] loadHolder_amounts(2) [OF sh(1,2)] wh(3) sh(3) c by auto
  then have "amount64 (min (of_amount oe) cs)" using oe(2) by (auto simp: amount64_def min_def)
  with adjustOffer_total [OF oe(1) this \<open>amount64 cb\<close>] c(3,4) oe(2) show ?thesis
    by (auto simp: amount64_def)
qed

lemma exchangeV10_within:
  assumes "price_ok p" "amount64 mws" "amount64 mwr" "amount64 mss" "amount64 msr"
    and "exchangeV10 p mws mwr mss msr pp = Inr ex"
  shows "0 \<le> x10_numWheatReceived ex \<and> x10_numWheatReceived ex \<le> min mwr mws
     \<and> 0 \<le> x10_numSheepSend ex \<and> x10_numSheepSend ex \<le> min msr mss
     \<and> (x10_numWheatReceived ex = 0 \<longrightarrow> x10_numSheepSend ex = 0)"
proof -
  let ?r = "rawV10 p mws mwr mss msr pp"
  obtain b where "ex = keepV10 ?r b" "b \<Longrightarrow> tradesV10 ?r"
    using exchangeV10_exact [OF assms(1-5) refl, of pp] assms(6) by (simp split: if_split_asm)
  then show ?thesis
    using rawV10_bounded [OF assms(1-5), of pp] assms(2-5) by (cases b) (simp_all add: keepV10_def amount64_def)
qed

subsection \<open>One offer\<close>

text \<open>Storing an offer that is then erased or whose liabilities are then acquired.\<close>

lemma moves_finish:
  assumes l: "ledger_ok l" and o: "load l (OfferKey (of_sellerID oe) (of_offerID oe)) = Some (OFFER oe')"
    and ok: "price_ok (of_price oe)" "amount64 (of_amount oe)"
    and f: "(if of_amount oe = 0 then eraseTaken (store l (OFFER oe)) oe
             else acquireLiabilities (store l (OFFER oe)) oe) = Inr l'"
  shows "moves l 0 l'"
proof (cases "of_amount oe = 0")
  case True
  with f o have "eraseTaken l oe = Inr l'" by (simp add: eraseTaken_store)
  then show ?thesis using moves_eraseTaken [OF l _ o] by blast
next
  case False
  with f have acq: "acquireLiabilities (store l (OFFER oe)) oe = Inr l'" by simp
  then have "of_buying oe \<noteq> of_selling oe"
    by (auto simp: acquireLiabilities_def acquireOrReleaseLiabilities_def)
  with False ok have "entry_ok (OFFER oe)" by (simp add: offer_ok_def amount64_def)
  then have m: "moves l 0 (store l (OFFER oe))" using l o by (intro moves_store) auto
  from moves_trans [OF m moves_acquire [OF movesD(1) [OF m] acq]] show ?thesis by simp
qed

lemma crossOfferV10_moves:
  assumes l: "ledger_ok l" and o: "load l (OfferKey (of_sellerID oe) (of_offerID oe)) = Some (OFFER oe)"
    and lim: "mwr \<le> INT64_MAX" "mss \<le> INT64_MAX"
    and c: "crossOfferV10 l oe mwr mss pp trail = Inr cr"
  shows "moves l (native_part (of_buying oe) (cr_numSheepSend cr)
                  - native_part (of_selling oe) (cr_numWheatReceived cr)) (cr_ledger cr)
     \<and> (cr_numWheatReceived cr = 0 \<longrightarrow> cr_numSheepSend cr = 0)"
proof -
  let ?h = "lg_header l" and ?i = "of_sellerID oe" and ?b = "of_buying oe" and ?s = "of_selling oe"
  have na: "loadAccount l ?i \<noteq> None"
    using c by (auto simp: crossOfferV10_def Let_def ensureE_def split: if_splits)
  obtain u1 u2 l1 sh wh o1 cs cb and ex :: ExchangeResultV10 and sh1 wh1 o2 l3 where
    pos: "ensureE (mwr > 0) AssertionFailed = Inr u1" "ensureE (mss > 0) AssertionFailed = Inr u2"
    and rel: "releaseLiabilities l oe = Inr l1" and sh: "loadHolder l1 ?i ?b = Inr sh"
    and wh: "loadHolder l1 ?i ?s = Inr wh" and o1: "adjustOfferEntry ?h oe wh sh = Inr o1"
    and cs: "canSellAtMost ?h wh = Inr cs" and cb: "canBuyAtMost ?h sh = Inr cb"
    and ex: "exchangeV10 (of_price o1) (min (of_amount o1) cs) mwr mss cb pp = Inr ex"
    and sh1: "addOrThrow ?h sh (x10_numSheepSend ex) ''overflowed sheep balance'' = Inr sh1"
    and wh1: "addOrThrow ?h wh (- x10_numWheatReceived ex) ''overflowed wheat balance'' = Inr wh1"
    and o2: "(if x10_wheatStays ex
       then adjustOfferEntry ?h (o1\<lparr>of_amount := of_amount o1 - x10_numWheatReceived ex\<rparr>) wh1 sh1
       else Inr (o1\<lparr>of_amount := 0\<rparr>)) = Inr o2"
    and l3: "(if (if of_amount o2 = 0 then eOfferTaken else eOfferPartial) = eOfferTaken
        then eraseTaken (store (putHolder (putHolder l1 sh1) wh1) (OFFER o2)) o2
        else acquireLiabilities (store (putHolder (putHolder l1 sh1) wh1) (OFFER o2)) o2) = Inr l3"
    and cr: "Inr \<lparr>cr_result = (if of_amount o2 = 0 then eOfferTaken else eOfferPartial),
        cr_numWheatReceived = x10_numWheatReceived ex,
        cr_numSheepSend = x10_numSheepSend ex, cr_wheatStays = x10_wheatStays ex, cr_ledger = l3,
        cr_trail = trail @ [\<lparr>co_sellerID = of_sellerID oe, co_offerID = of_offerID oe,
          co_assetSold = of_selling oe, co_amountSold = x10_numWheatReceived ex,
          co_assetBought = of_buying oe, co_amountBought = x10_numSheepSend ex\<rparr>]\<rparr> = (Inr cr :: cpp_error + crossing)"
    using c unfolding crossOfferV10_def Let_def if_not_P [OF na]
    by (elim bindE_InrE) (rule that)
  let ?nw = "x10_numWheatReceived ex" and ?ns = "x10_numSheepSend ex"
  let ?l2 = "putHolder l1 sh1" and ?l3 = "putHolder (putHolder l1 sh1) wh1"
  have ok: "offer_ok oe" using ledger_ok_load [OF l o] by simp
  then have oe: "price_ok (of_price oe)" "amount64 (of_amount oe)" "?b \<noteq> ?s"
    by (auto simp: offer_ok_def amount64_def)
  have m1: "moves l 0 l1" by (rule moves_release [OF l rel])
  have fr: "load l1 (OfferKey i j) = load l (OfferKey i j)" for i j
    using acquireOrRelease_ok [OF l ok rel [unfolded releaseLiabilities_def]] by (simp add: holderKey_def)
  note l1 = movesD(1,2) [OF m1]
  have m2: "moves l1 (native_part ?b ?ns) ?l2" "\<And>k. k \<noteq> holderKey ?i ?b \<Longrightarrow> load ?l2 k = load l1 k"
    "loadHolder ?l2 ?i ?b = Inr sh1"
    using moves_addOrThrow [OF l1(1) sh, of ?ns _ sh1] sh1 l1(2) by auto
  note l2 = movesD(1,2) [OF m2(1)]
  have wh2: "loadHolder ?l2 ?i ?s = Inr wh"
    using loadHolder_cong [of ?l2 ?i ?s l1] m2(2) [of "holderKey ?i ?s"] wh oe(3) by simp
  have m3: "moves ?l2 (native_part ?s (- ?nw)) ?l3" "\<And>k. k \<noteq> holderKey ?i ?s \<Longrightarrow> load ?l3 k = load ?l2 k"
    "loadHolder ?l3 ?i ?s = Inr wh1"
    using moves_addOrThrow [OF l2(1) wh2, of "- ?nw" _ wh1] wh1 l1(2) l2(2) by auto
  note l3ok = movesD(1,2) [OF m3(1)]
  have sh3: "loadHolder ?l3 ?i ?b = Inr sh1"
    using loadHolder_cong [of ?l3 ?i ?b ?l2] m3(2) [of "holderKey ?i ?b"] m2(3) oe(3) by simp
  obtain v1 where v1: "o1 = oe\<lparr>of_amount := v1\<rparr>" "amount64 v1"
    using adjustOfferEntry_range [OF l1(1) wh l1(2) l1(1) sh l1(2) oe(1,2) o1] by blast
  have "0 \<le> cs" "amount64 cb"
    using loadHolder_amounts(1) [OF l1(1) wh] loadHolder_amounts(2) [OF l1(1) sh] cs cb l1(2) by auto
  then have lims: "amount64 (min v1 cs)" "amount64 mwr" "amount64 mss" "amount64 cb"
    using v1(2) pos lim by (auto simp: amount64_def min_def)
  have b: "0 \<le> ?nw" "?nw \<le> v1" "?nw = 0 \<Longrightarrow> ?ns = 0"
    using exchangeV10_within [OF oe(1) lims, of pp ex] ex v1 by auto
  have "\<exists>v. o2 = oe\<lparr>of_amount := v\<rparr> \<and> amount64 v"
  proof (cases "x10_wheatStays ex")
    case True
    have am: "amount64 (v1 - ?nw)" using b v1(2) by (auto simp: amount64_def)
    from True o2 v1(1) have "adjustOfferEntry ?h (oe\<lparr>of_amount := v1 - ?nw\<rparr>) wh1 sh1 = Inr o2" by simp
    then show ?thesis
      using adjustOfferEntry_range [OF l3ok(1) m3(3) _ l3ok(1) sh3, of ?h "oe\<lparr>of_amount := v1 - ?nw\<rparr>" o2]
        l3ok(2) l2(2) l1(2) oe(1) am by auto
  next
    case False
    with o2 v1(1) show ?thesis by (intro exI [of _ 0]) auto
  qed
  then obtain v2 where v2: "o2 = oe\<lparr>of_amount := v2\<rparr>" "amount64 v2" by blast
  have o3: "load ?l3 (OfferKey ?i (of_offerID oe)) = Some (OFFER oe)"
    using m3(2) m2(2) fr o by (simp add: holderKey_def)
  have f: "(if of_amount o2 = 0 then eraseTaken (store ?l3 (OFFER o2)) o2
      else acquireLiabilities (store ?l3 (OFFER o2)) o2) = Inr l3"
    using l3 by (simp split: if_split_asm)
  have m4: "moves ?l3 0 l3"
    using moves_finish [OF l3ok(1) _ _ _ f, of oe] o3 v2 oe(1) by simp
  have "moves l (0 + native_part ?b ?ns + native_part ?s (- ?nw) + 0) l3"
    by (intro moves_trans [OF _ m4] moves_trans [OF _ m3(1)] moves_trans [OF m1 m2(1)])
  moreover have "cr_ledger cr = l3" "cr_numSheepSend cr = ?ns" "cr_numWheatReceived cr = ?nw"
    using cr by auto
  ultimately show ?thesis using b(3) by (auto split: if_splits)
qed

subsection \<open>The conversion loop\<close>

lemma convertLoop_moves:
  assumes "convertLoop f sheep wheat pp filt nm mss mwr c = Some (Inr c')" "ledger_ok (cv_ledger c)"
    and "mss \<le> INT64_MAX" "mwr \<le> INT64_MAX"
  shows "moves (cv_ledger c) (native_part sheep (cv_sheepSend c' - cv_sheepSend c)
      - native_part wheat (cv_wheatReceived c' - cv_wheatReceived c)) (cv_ledger c')
     \<and> cv_wheatReceived c \<le> cv_wheatReceived c'
     \<and> (cv_wheatReceived c' = cv_wheatReceived c \<longrightarrow> cv_sheepSend c' = cv_sheepSend c)"
  using assms
proof (induction f arbitrary: nm mss mwr c)
  case (Suc f)
  from Suc.prems(1) show ?case
  proof (cases rule: convertLoop_step)
    case (stop r)
    with Suc.prems(2) show ?thesis by (auto simp: moves_refl)
  next
    case (crossed oe cr c1)
    let ?l = "cv_ledger c"
    have v: "lh_ledgerVersion (lg_header ?l) \<ge> 10"
      using ledger_ok_header [OF Suc.prems(2)] by (simp add: header_ok_def)
    note best = loadBestOffer_best [OF ledger_ok_keyed [OF Suc.prems(2)] crossed(2)]
    have x: "crossOfferV10 ?l oe mwr mss pp (cv_trail c) = Inr cr" using crossed(3) v by simp
    have m1: "moves ?l (native_part sheep (cr_numSheepSend cr) - native_part wheat (cr_numWheatReceived cr)) (cr_ledger cr)"
      and z: "cr_numWheatReceived cr = 0 \<Longrightarrow> cr_numSheepSend cr = 0"
      using crossOfferV10_moves [OF Suc.prems(2) best(1) Suc.prems(4,3) x] best(2,3)
      by (simp_all only:)
    have c1: "cv_ledger c1 = cr_ledger cr" "cv_sheepSend c1 = cv_sheepSend c + cr_numSheepSend cr"
      "cv_wheatReceived c1 = cv_wheatReceived c + cr_numWheatReceived cr"
      using crossed(9) by simp_all
    from crossed(10) show ?thesis
    proof
      assume "\<exists>r. Some (Inr c') = Some (Inr (c1\<lparr>cv_result := r\<rparr>))"
      then obtain r where "c' = c1\<lparr>cv_result := r\<rparr>" by auto
      with m1 c1 z crossed(7) show ?thesis by (auto split: if_splits)
    next
      assume go: "cr_result cr = eOfferTaken \<and> mwr - cr_numWheatReceived cr > 0 \<and> mss - cr_numSheepSend cr > 0
        \<and> Some (Inr c') = convertLoop f sheep wheat pp filt True (mss - cr_numSheepSend cr) (mwr - cr_numWheatReceived cr) c1"
      have "moves (cv_ledger c1) (native_part sheep (cv_sheepSend c' - cv_sheepSend c1)
          - native_part wheat (cv_wheatReceived c' - cv_wheatReceived c1)) (cv_ledger c')
          \<and> cv_wheatReceived c1 \<le> cv_wheatReceived c'
          \<and> (cv_wheatReceived c' = cv_wheatReceived c1 \<longrightarrow> cv_sheepSend c' = cv_sheepSend c1)"
        using go crossed(5,7) Suc.prems(3,4) movesD(1) [OF m1] c1(1)
        by (intro Suc.IH [of True "mss - cr_numSheepSend cr" "mwr - cr_numWheatReceived cr"]) auto
      note rest = this
      have "moves (cv_ledger c) (native_part sheep (cr_numSheepSend cr) - native_part wheat (cr_numWheatReceived cr)
          + (native_part sheep (cv_sheepSend c' - cv_sheepSend c1)
          - native_part wheat (cv_wheatReceived c' - cv_wheatReceived c1))) (cv_ledger c')"
        by (rule moves_trans [OF m1 rest [THEN conjunct1, unfolded c1(1)]])
      moreover have "cv_wheatReceived c \<le> cv_wheatReceived c'"
        "cv_wheatReceived c' = cv_wheatReceived c \<Longrightarrow> cv_sheepSend c' = cv_sheepSend c"
        using rest c1 z crossed(7) by auto
      ultimately show ?thesis using c1 by (auto simp: algebra_simps split: if_splits)
    qed
  qed simp
qed simp

lemma convertWithOffers_moves:
  assumes "convertWithOffers l sheep mss wheat mwr pp filt [] = Some (Inr c)" "ledger_ok l"
    and "mss \<le> INT64_MAX" "mwr \<le> INT64_MAX"
  shows "moves l (native_part sheep (cv_sheepSend c) - native_part wheat (cv_wheatReceived c)) (cv_ledger c)
     \<and> (cv_wheatReceived c = 0 \<longrightarrow> cv_sheepSend c = 0)"
  using convertLoop_moves [OF assms(1) [unfolded convertWithOffers_def]] assms(2-4)
  by (auto split: if_split_asm)

end
