(* ===== verification/Signatures.thy ===== *)
theory Signatures
  imports Ledger_Types
begin

section \<open>Signatures (src/src/transactions/SignatureUtils.cpp, SignatureChecker.cpp)\<close>

text \<open>
  How the signatures of a transaction are weighed against the signers of an account. The two
  cryptographic functions, \<^verbatim>\<open>PubKeyUtils::verifySig\<close> (libsodium's Ed25519) and \<^verbatim>\<open>sha256\<close>, are
  arguments. A \<^verbatim>\<open>SignatureChecker\<close> is a record of its members;
  \<^verbatim>\<open>mUsedOneTimeSignerKeys\<close>, a \<^verbatim>\<open>std::map\<close> of \<^verbatim>\<open>std::set\<close>s, is an association list kept in the order
  in which the code walks it.
\<close>

record DecoratedSignature =
  ds_hint :: "u8 list"
  ds_signature :: "u8 list"

definition bytes32 :: "uint256 \<Rightarrow> u8 list" where
  "bytes32 w = map (\<lambda>i. ucast (drop_bit (8 * (31 - i)) w)) [0..<32]"

lemma length_bytes32 [simp]: "length (bytes32 w) = 32"
  by (simp add: bytes32_def)

definition getHint :: "u8 list \<Rightarrow> u8 list" where
  "getHint bs = drop (length bs - 4) bs"

definition doesHintMatch :: "u8 list \<Rightarrow> u8 list \<Rightarrow> bool" where
  "doesHintMatch bs hint = (if length bs < length hint then False
                            else drop (length bs - length hint) bs = hint)"

text \<open>\<^verbatim>\<open>KeyUtils::convertKey<PublicKey>\<close> and \<^verbatim>\<open>signerKey.hashX()\<close> throw on a key of another type.\<close>

definition verify ::
    "(uint256 \<Rightarrow> u8 list \<Rightarrow> uint256 \<Rightarrow> bool) \<Rightarrow> DecoratedSignature \<Rightarrow> SignerKey \<Rightarrow> uint256 \<Rightarrow> cpp_error + bool" where
  "verify verifySig sig signerKey hash = (case signerKey of
       SIGNER_KEY_TYPE_ED25519 pubKey \<Rightarrow>
         Inr (if \<not> doesHintMatch (bytes32 pubKey) (ds_hint sig) then False
              else verifySig pubKey (ds_signature sig) hash)
     | _ \<Rightarrow> Inl (RuntimeError ''invalid key type''))"

definition sign ::
    "(uint256 \<Rightarrow> uint256 \<Rightarrow> u8 list) \<Rightarrow> (uint256 \<Rightarrow> uint256) \<Rightarrow> uint256 \<Rightarrow> uint256 \<Rightarrow> DecoratedSignature" where
  "sign signWith publicKey secretKey hash =
     \<lparr>ds_hint = getHint (bytes32 (publicKey secretKey)), ds_signature = signWith secretKey hash\<rparr>"

definition signHashX :: "(u8 list \<Rightarrow> uint256) \<Rightarrow> u8 list \<Rightarrow> DecoratedSignature" where
  "signHashX sha256 x = \<lparr>ds_hint = getHint (bytes32 (sha256 x)), ds_signature = x\<rparr>"

definition verifyHashX :: "(u8 list \<Rightarrow> uint256) \<Rightarrow> DecoratedSignature \<Rightarrow> SignerKey \<Rightarrow> cpp_error + bool" where
  "verifyHashX sha256 sig signerKey = (case signerKey of
       SIGNER_KEY_TYPE_HASH_X hashX \<Rightarrow>
         Inr (if \<not> doesHintMatch (bytes32 hashX) (ds_hint sig) then False
              else hashX = sha256 (ds_signature sig))
     | _ \<Rightarrow> Inl (RuntimeError ''xdr_wrong_union''))"

lemma hint_of_own_key: "4 \<le> length bs \<Longrightarrow> doesHintMatch bs (getHint bs)"
  by (simp add: doesHintMatch_def getHint_def)

text \<open>A preimage decorated by \<^const>\<open>signHashX\<close> is accepted for its own hash, and a signature made by
  \<^const>\<open>sign\<close> for its own public key, whenever the signature scheme is correct.\<close>

lemma verifyHashX_signHashX:
  "verifyHashX sha256 (signHashX sha256 x) (SIGNER_KEY_TYPE_HASH_X h) = Inr (h = sha256 x)"
  using hint_of_own_key [of "bytes32 h"] by (auto simp: verifyHashX_def signHashX_def)

lemma verify_sign:
  assumes "verifySig (publicKey sk) (signWith sk hash) hash"
  shows "verify verifySig (sign signWith publicKey sk hash) (SIGNER_KEY_TYPE_ED25519 (publicKey sk)) hash
    = Inr True"
  using assms hint_of_own_key [of "bytes32 (publicKey sk)"] by (simp add: verify_def sign_def)

subsection \<open>The checker\<close>

record SignatureChecker =
  sc_protocolVersion :: int
  sc_contentsHash :: uint256
  sc_signatures :: "DecoratedSignature list"
  sc_usedSignatures :: "bool list"
  sc_usedOneTimeSignerKeys :: "(AccountID \<times> SignerKey list) list"

definition newSignatureChecker :: "int \<Rightarrow> uint256 \<Rightarrow> DecoratedSignature list \<Rightarrow> SignatureChecker" where
  "newSignatureChecker version hash sigs =
     \<lparr>sc_protocolVersion = version, sc_contentsHash = hash, sc_signatures = sigs,
      sc_usedSignatures = replicate (length sigs) False, sc_usedOneTimeSignerKeys = []\<rparr>"

fun insertOneTimeKey ::
    "AccountID \<Rightarrow> SignerKey \<Rightarrow> (AccountID \<times> SignerKey list) list \<Rightarrow> (AccountID \<times> SignerKey list) list" where
  "insertOneTimeKey a k [] = [(a, [k])]"
| "insertOneTimeKey a k ((b, ks) # m) =
     (if a < b then (a, [k]) # (b, ks) # m
      else if a = b then (b, insort_insert k ks) # m
      else (b, ks) # insertOneTimeKey a k m)"

text \<open>The weight a signer contributes: the protocol caps it at 255 from version 10 on.\<close>

definition effectiveWeight :: "int \<Rightarrow> int \<Rightarrow> int" where
  "effectiveWeight version w = (if version > 9 \<and> w > UINT8_MAX then UINT8_MAX else w)"

text \<open>The loop over the pre-authorised transaction signers: the checker it leaves, the weight gathered
  in an \<^verbatim>\<open>int\<close>, and whether it returned true.\<close>

fun preAuthLoop ::
    "AccountID \<Rightarrow> int \<Rightarrow> Signer list \<Rightarrow> SignatureChecker \<Rightarrow> int \<Rightarrow> bool \<times> SignatureChecker \<times> int" where
  "preAuthLoop accountID neededWeight [] sc totalWeight = (False, sc, totalWeight)"
| "preAuthLoop accountID neededWeight (s # ss) sc totalWeight =
     (if sg_key s = SIGNER_KEY_TYPE_PRE_AUTH_TX (sc_contentsHash sc) then
        let sc' = sc\<lparr>sc_usedOneTimeSignerKeys :=
                    insertOneTimeKey accountID (sg_key s) (sc_usedOneTimeSignerKeys sc)\<rparr>;
            totalWeight' = to_int32 (totalWeight + effectiveWeight (sc_protocolVersion sc) (sg_weight s)) in
        if totalWeight' \<ge> neededWeight then (True, sc', totalWeight')
        else preAuthLoop accountID neededWeight ss sc' totalWeight'
      else preAuthLoop accountID neededWeight ss sc totalWeight)"

text \<open>The lambda \<^verbatim>\<open>verifyAll\<close> as it is compiled: the first statement of its inner loop that has an
  effect is \<^verbatim>\<open>return true\<close>, so neither its second parameter \<^verbatim>\<open>verify\<close> nor the weights nor
  \<^verbatim>\<open>mUsedSignatures\<close> is reached.\<close>

fun verifyAll :: "DecoratedSignature list \<Rightarrow> Signer list \<Rightarrow> bool" where
  "verifyAll [] signers = False"
| "verifyAll (sig # sigs) signers = (case signers of [] \<Rightarrow> verifyAll sigs signers | _ # _ \<Rightarrow> True)"

definition isPreAuthTx :: "Signer \<Rightarrow> bool" where
  "isPreAuthTx s = (case sg_key s of SIGNER_KEY_TYPE_PRE_AUTH_TX _ \<Rightarrow> True | _ \<Rightarrow> False)"

definition isHashX :: "Signer \<Rightarrow> bool" where
  "isHashX s = (case sg_key s of SIGNER_KEY_TYPE_HASH_X _ \<Rightarrow> True | _ \<Rightarrow> False)"

definition isEd25519 :: "Signer \<Rightarrow> bool" where
  "isEd25519 s = (case sg_key s of SIGNER_KEY_TYPE_ED25519 _ \<Rightarrow> True | _ \<Rightarrow> False)"

definition checkSignature ::
    "SignatureChecker \<Rightarrow> AccountID \<Rightarrow> Signer list \<Rightarrow> int \<Rightarrow> bool \<times> SignatureChecker" where
  "checkSignature sc accountID signers neededWeight =
     (if sc_protocolVersion sc = 7 then (True, sc)
      else let (done1, sc', totalWeight) =
             preAuthLoop accountID neededWeight (filter isPreAuthTx signers) sc 0 in
           if done1 then (True, sc')
           else if verifyAll (sc_signatures sc') (filter isHashX signers) then (True, sc')
           else if verifyAll (sc_signatures sc') (filter isEd25519 signers) then (True, sc')
           else (False, sc'))"

definition checkAllSignaturesUsed :: "SignatureChecker \<Rightarrow> bool" where
  "checkAllSignaturesUsed sc =
     (if sc_protocolVersion sc = 7 then True else list_all (\<lambda>u. u) (sc_usedSignatures sc))"

subsection \<open>What the checker accepts\<close>

lemma signer_kinds: "isEd25519 s \<or> isPreAuthTx s \<or> isHashX s" "isEd25519 s \<Longrightarrow> \<not> isPreAuthTx s"
    "isHashX s \<Longrightarrow> \<not> isPreAuthTx s"
  by (cases "sg_key s"; simp add: isEd25519_def isHashX_def isPreAuthTx_def)+

lemma verifyAll_iff: "verifyAll sigs signers \<longleftrightarrow> sigs \<noteq> [] \<and> signers \<noteq> []"
  by (induction sigs signers rule: verifyAll.induct) (auto split: list.splits)

text \<open>Checking signatures changes nothing of the checker but the record of one-time keys.\<close>

definition same_signatures :: "SignatureChecker \<Rightarrow> SignatureChecker \<Rightarrow> bool" where
  "same_signatures sc sc' \<longleftrightarrow> (\<exists>ks. sc' = sc\<lparr>sc_usedOneTimeSignerKeys := ks\<rparr>)"

lemma same_signatures_refl [simp]: "same_signatures sc sc"
  unfolding same_signatures_def by (rule exI [of _ "sc_usedOneTimeSignerKeys sc"]) simp

lemma same_signatures_trans:
  "\<lbrakk>same_signatures a b; same_signatures b c\<rbrakk> \<Longrightarrow> same_signatures a c"
  by (auto simp: same_signatures_def)

lemma same_signaturesD:
  assumes "same_signatures sc sc'"
  shows "sc_protocolVersion sc' = sc_protocolVersion sc" "sc_contentsHash sc' = sc_contentsHash sc"
    "sc_signatures sc' = sc_signatures sc" "sc_usedSignatures sc' = sc_usedSignatures sc"
  using assms by (auto simp: same_signatures_def)

lemma preAuthLoop_same:
  "preAuthLoop a n ss sc t = (d, sc', t') \<Longrightarrow> same_signatures sc sc'"
proof (induction a n ss sc t rule: preAuthLoop.induct)
  case (2 a n s ss sc t)
  have step: "same_signatures sc (sc\<lparr>sc_usedOneTimeSignerKeys := ks\<rparr>)" for ks
    by (auto simp: same_signatures_def)
  from 2 step show ?case
    by (auto simp: Let_def split: if_splits intro: same_signatures_trans)
qed simp

lemma checkSignature_same: "checkSignature sc a ss n = (r, sc') \<Longrightarrow> same_signatures sc sc'"
  by (auto simp: checkSignature_def preAuthLoop_same split: if_splits prod.splits)

lemma checkAllSignaturesUsed_never:
  assumes "same_signatures (newSignatureChecker v h sigs) sc"
  shows "checkAllSignaturesUsed sc \<longleftrightarrow> v = 7 \<or> sigs = []"
proof -
  have "list_all (\<lambda>u. u) (replicate (length sigs) False) \<longleftrightarrow> sigs = []" by (cases sigs) simp_all
  with same_signaturesD(1,4) [OF assms] show ?thesis
    by (simp add: checkAllSignaturesUsed_def newSignatureChecker_def)
qed

text \<open>The pre-authorised signers of a transaction: their capped weights, and whether they suffice.\<close>

definition preAuthWeights :: "SignatureChecker \<Rightarrow> Signer list \<Rightarrow> int list" where
  "preAuthWeights sc signers = map (\<lambda>s. effectiveWeight (sc_protocolVersion sc) (sg_weight s))
     (filter (\<lambda>s. sg_key s = SIGNER_KEY_TYPE_PRE_AUTH_TX (sc_contentsHash sc)) signers)"

definition signer_ok :: "Signer \<Rightarrow> bool" where
  "signer_ok s \<longleftrightarrow> 0 \<le> sg_weight s \<and> sg_weight s \<le> UINT32_MAX"

lemma effectiveWeight_bounds:
  "\<lbrakk>signer_ok s; 9 < v\<rbrakk> \<Longrightarrow> 0 \<le> effectiveWeight v (sg_weight s) \<and> effectiveWeight v (sg_weight s) \<le> 255"
  by (auto simp: effectiveWeight_def signer_ok_def)

lemma preAuthLoop_iff:
  assumes "9 < sc_protocolVersion sc" "\<forall>s\<in>set ss. signer_ok s"
    and "0 \<le> t" "t + 255 * int (length ss) \<le> INT32_MAX" "t < n \<or> t = 0"
  shows "fst (preAuthLoop a n ss sc t) \<longleftrightarrow>
    preAuthWeights sc ss \<noteq> [] \<and> t + sum_list (preAuthWeights sc ss) \<ge> n"
  using assms
proof (induction a n ss sc t rule: preAuthLoop.induct)
  case (2 a n s ss sc t)
  let ?w = "effectiveWeight (sc_protocolVersion sc) (sg_weight s)"
  have w: "0 \<le> ?w" "?w \<le> 255"
    using effectiveWeight_bounds [of s "sc_protocolVersion sc"] 2 by auto
  have pos: "0 \<le> sum_list (preAuthWeights sc ss)" for ss' :: "Signer list"
    using effectiveWeight_bounds 2 by (auto simp: preAuthWeights_def intro!: sum_list_nonneg)
  have id: "to_int32 (t + ?w) = t + ?w" using 2 w by (intro to_int32_id) auto
  show ?case
  proof (cases "sg_key s = SIGNER_KEY_TYPE_PRE_AUTH_TX (sc_contentsHash sc)")
    case True
    define sc' where "sc' = sc\<lparr>sc_usedOneTimeSignerKeys :=
      insertOneTimeKey a (sg_key s) (sc_usedOneTimeSignerKeys sc)\<rparr>"
    have same: "preAuthWeights sc' ss = preAuthWeights sc ss"
      by (simp add: sc'_def preAuthWeights_def)
    have cons: "preAuthWeights sc (s # ss) = ?w # preAuthWeights sc ss"
      using True by (simp add: preAuthWeights_def)
    show ?thesis
    proof (cases "n \<le> t + ?w")
      case True
      with \<open>sg_key s = _\<close> id pos cons show ?thesis by (simp add: Let_def)
    next
      case False
      with \<open>sg_key s = _\<close> 2(1) [OF _ sc'_def refl] 2(3-) w id
      have "fst (preAuthLoop a n ss sc' (t + ?w)) \<longleftrightarrow>
        preAuthWeights sc ss \<noteq> [] \<and> (t + ?w) + sum_list (preAuthWeights sc ss) \<ge> n"
        by (simp add: same) (simp add: sc'_def)
      with False \<open>sg_key s = _\<close> id cons show ?thesis
        by (auto simp: Let_def sc'_def)
    qed
  next
    case False
    then show ?thesis using 2 by (simp add: preAuthWeights_def)
  qed
qed (simp add: preAuthWeights_def)

lemma preAuthWeights_filter [simp]: "preAuthWeights sc (filter isPreAuthTx ss) = preAuthWeights sc ss"
  unfolding preAuthWeights_def
  by (rule arg_cong [of _ _ "map f" for f]) (auto simp: isPreAuthTx_def intro: filter_cong)

text \<open>C39. Up to protocol overflow bounds, \<^const>\<open>checkSignature\<close> accepts exactly when the weights of the
  pre-authorised signers for this transaction suffice, or when the transaction carries any signature
  at all and the account has any hash or public-key signer: no signature is verified and the weights
  of these signers do not count.\<close>

theorem checkSignature_accepts:
  assumes "9 < sc_protocolVersion sc" "\<forall>s\<in>set signers. signer_ok s"
    and "255 * int (length signers) \<le> INT32_MAX"
  shows "fst (checkSignature sc a signers n) \<longleftrightarrow>
     (preAuthWeights sc signers \<noteq> [] \<and> sum_list (preAuthWeights sc signers) \<ge> n)
     \<or> (sc_signatures sc \<noteq> [] \<and> (\<exists>s\<in>set signers. \<not> isPreAuthTx s))"
proof -
  obtain d sc' t where loop: "preAuthLoop a n (filter isPreAuthTx signers) sc 0 = (d, sc', t)"
    by (metis prod_cases3)
  have len: "int (length (filter isPreAuthTx signers)) \<le> int (length signers)" by simp
  then have len': "255 * int (length (filter isPreAuthTx signers)) \<le> INT32_MAX" using assms(3) by linarith
  have "d \<longleftrightarrow> preAuthWeights sc signers \<noteq> [] \<and> sum_list (preAuthWeights sc signers) \<ge> n"
    using preAuthLoop_iff [of sc "filter isPreAuthTx signers" 0 n a] assms loop len' by auto
  moreover have "sc_signatures sc' = sc_signatures sc"
    using same_signaturesD [OF preAuthLoop_same [OF loop]] by simp
  moreover have "filter isHashX signers \<noteq> [] \<or> filter isEd25519 signers \<noteq> [] \<longleftrightarrow>
    (\<exists>s\<in>set signers. \<not> isPreAuthTx s)"
    unfolding filter_empty_conv using signer_kinds by blast
  ultimately show ?thesis
    using assms(1) loop by (auto simp: checkSignature_def verifyAll_iff)
qed

definition ex_signers :: "Signer list" where
  "ex_signers = [\<lparr>sg_key = SIGNER_KEY_TYPE_ED25519 1, sg_weight = 1\<rparr>,
     \<lparr>sg_key = SIGNER_KEY_TYPE_PRE_AUTH_TX 9, sg_weight = 300\<rparr>]"

theorem checkSignature_accepts_witness:
  "fst (checkSignature (newSignatureChecker 10 9 []) 1 ex_signers 255)
   \<and> \<not> fst (checkSignature (newSignatureChecker 10 9 []) 1 ex_signers 256)
   \<and> fst (checkSignature (newSignatureChecker 10 8 [\<lparr>ds_hint = [], ds_signature = []\<rparr>]) 1 ex_signers 256)"
proof -
  have ok: "\<forall>s\<in>set ex_signers. signer_ok s" "255 * int (length ex_signers) \<le> INT32_MAX"
    by (simp_all add: ex_signers_def signer_ok_def)
  show ?thesis
    using checkSignature_accepts [OF _ ok, of "newSignatureChecker 10 9 []" 1 255]
      checkSignature_accepts [OF _ ok, of "newSignatureChecker 10 9 []" 1 256]
      checkSignature_accepts [OF _ ok, of "newSignatureChecker 10 8 [\<lparr>ds_hint = [], ds_signature = []\<rparr>]" 1 256]
    by (simp add: newSignatureChecker_def preAuthWeights_def ex_signers_def effectiveWeight_def isPreAuthTx_def)
qed

end
