(* ===== verification/Str_Key.thy ===== *)
theory Str_Key
  imports Signatures "HOL-Library.Char_ord"
begin

section \<open>Printed keys (src/lib/util/basen.h, src/lib/util/crc16.cpp, src/src/crypto/StrKey.cpp)\<close>

text \<open>
  A key is printed as the base-32 text of a version byte, the key's bytes and a checksum. The
  conversions of \<^verbatim>\<open>basen.h\<close> are loops over a bit position within the current byte; they are
  modelled as those loops, for the three group lengths the templates are instantiated with, and shown
  to be inverse to each other by relating both to the stream of bits.
\<close>

type_synonym u16 = "16 word"

datatype conversion_traits = b16_conversion_traits | b32_conversion_traits | b64_conversion_traits

fun group_length :: "conversion_traits \<Rightarrow> nat" where
  "group_length b16_conversion_traits = 4"
| "group_length b32_conversion_traits = 5"
| "group_length b64_conversion_traits = 6"

fun encode_index :: "conversion_traits \<Rightarrow> u8 \<Rightarrow> char" where
  "encode_index b16_conversion_traits i = ''0123456789ABCDEF'' ! unat i"
| "encode_index b32_conversion_traits i = ''ABCDEFGHIJKLMNOPQRSTUVWXYZ234567'' ! unat i"
| "encode_index b64_conversion_traits i =
     ''ABCDEFGHIJKLMNOPQRSTUVWXYZabcdefghijklmnopqrstuvwxyz0123456789+/'' ! unat i"

definition decode_error :: u8 where
  "decode_error = 255"

text \<open>The character codes of the dictionaries: \<open>48\<close> is \<^verbatim>\<open>'0'\<close>, \<open>50\<close> is \<^verbatim>\<open>'2'\<close>, \<open>65\<close> is
  \<^verbatim>\<open>'A'\<close>, \<open>97\<close> is \<^verbatim>\<open>'a'\<close>, \<open>43\<close> is \<^verbatim>\<open>'+'\<close>, \<open>47\<close> is \<^verbatim>\<open>'/'\<close>.\<close>

fun decode_char :: "conversion_traits \<Rightarrow> u8 \<Rightarrow> u8" where
  "decode_char b16_conversion_traits c =
     (if 48 \<le> c \<and> c \<le> 57 then c - 48 else if 65 \<le> c \<and> c \<le> 70 then c - 65 + 10 else decode_error)"
| "decode_char b32_conversion_traits c =
     (if 65 \<le> c \<and> c \<le> 90 then c - 65 else if 50 \<le> c \<and> c \<le> 55 then c - 50 + 26 else decode_error)"
| "decode_char b64_conversion_traits c =
     (if 65 \<le> c \<and> c \<le> 90 then c - 65 else if 97 \<le> c \<and> c \<le> 122 then c - 97 + 26
      else if 48 \<le> c \<and> c \<le> 57 then c - 48 + 52 else if c = 43 then c - 43 + 62
      else if c = 47 then c - 47 + 63 else decode_error)"

text \<open>\<^verbatim>\<open>std::isspace\<close> in the C locale.\<close>

definition isspace_C :: "u8 \<Rightarrow> bool" where
  "isspace_C c \<longleftrightarrow> c = 32 \<or> 9 \<le> c \<and> c \<le> 13"

definition extract_partial_bits :: "u8 \<Rightarrow> nat \<Rightarrow> nat \<Rightarrow> u8" where
  "extract_partial_bits v start_bit bits_count =
     drop_bit (8 - bits_count - start_bit) v AND NOT (push_bit bits_count 0xff)"

definition extract_overlapping_bits :: "u8 \<Rightarrow> u8 \<Rightarrow> nat \<Rightarrow> nat \<Rightarrow> u8" where
  "extract_overlapping_bits prev nxt start_bit bits_count =
     (let bits_count_in_previous = 8 - start_bit;
          bits_count_in_next = bits_count - bits_count_in_previous;
          t1 = push_bit bits_count_in_next prev;
          t2 = drop_bit (8 - bits_count_in_next) nxt AND NOT (push_bit bits_count_in_next 0xff)
      in (t1 OR t2) AND NOT (push_bit bits_count 0xff))"

lemma group_length_pos [simp]: "0 < group_length tr" "group_length tr \<noteq> 0" "group_length tr \<le> 6"
  by (cases tr; simp)+

text \<open>The trailing \<^verbatim>\<open>'='\<close> signs: \<open>start_bit\<close> is always a multiple of the greatest common divisor
  of the group length and 8, so at most seven steps bring it to 0; the bound of eight is never
  reached.\<close>

fun padding :: "nat \<Rightarrow> conversion_traits \<Rightarrow> nat \<Rightarrow> char list" where
  "padding 0 tr start_bit = []"
| "padding (Suc n) tr start_bit = (if start_bit = 0 then []
     else CHR ''='' # padding n tr ((start_bit + group_length tr) mod 8))"

function encode_loop :: "conversion_traits \<Rightarrow> u8 list \<Rightarrow> nat \<Rightarrow> u8 option \<Rightarrow> char list" where
  "encode_loop tr [] start_bit None = padding 8 tr start_bit"
| "encode_loop tr (b # bs) start_bit None =
     (if start_bit + group_length tr < 8 then
        encode_index tr (extract_partial_bits b start_bit (group_length tr))
          # encode_loop tr (b # bs) (start_bit + group_length tr) None
      else encode_loop tr bs start_bit (Some b))"
| "encode_loop tr bs start_bit (Some backlog) =
     encode_index tr (extract_overlapping_bits backlog (case bs of [] \<Rightarrow> 0 | b # _ \<Rightarrow> b) start_bit (group_length tr))
       # encode_loop tr bs ((start_bit + group_length tr) mod 8) None"
  by pat_completeness auto
termination
  by (relation "measures [\<lambda>(tr, bs, sb, bk). 2 * length bs + (if bk = None then 0 else 1),
                          \<lambda>(tr, bs, sb, bk). 8 - sb]") (auto intro: diff_less_mono2)

definition encode :: "conversion_traits \<Rightarrow> u8 list \<Rightarrow> char list" where
  "encode tr bs = encode_loop tr bs 0 None"

primrec decode_loop :: "conversion_traits \<Rightarrow> char list \<Rightarrow> nat \<Rightarrow> u8 \<Rightarrow> u8 list" where
  "decode_loop tr [] output_current_bit buffer = []"
| "decode_loop tr (c # cs) output_current_bit buffer =
     (let code = of_char c; g = group_length tr; v = decode_char tr code in
      if isspace_C code then decode_loop tr cs output_current_bit buffer
      else if v = decode_error then decode_loop tr cs output_current_bit buffer
      else
        let bits_in_current_byte = min (output_current_bit + g) 8 - output_current_bit in
        if bits_in_current_byte = g then
          let buffer' = buffer OR push_bit (8 - output_current_bit - g) v in
          if output_current_bit + g = 8 then buffer' # decode_loop tr cs 0 0
          else decode_loop tr cs (output_current_bit + g) buffer'
        else
          let bits_in_next_byte = g - bits_in_current_byte in
          (buffer OR drop_bit bits_in_next_byte v)
            # decode_loop tr cs bits_in_next_byte (push_bit (8 - bits_in_next_byte) v))"

definition decode :: "conversion_traits \<Rightarrow> char list \<Rightarrow> u8 list" where
  "decode tr cs = decode_loop tr cs 0 0"

definition crc16tab :: "u16 list" where
  "crc16tab =
    [0x0000, 0x1021, 0x2042, 0x3063, 0x4084, 0x50a5, 0x60c6, 0x70e7, 0x8108, 0x9129, 0xa14a, 0xb16b,
     0xc18c, 0xd1ad, 0xe1ce, 0xf1ef, 0x1231, 0x0210, 0x3273, 0x2252, 0x52b5, 0x4294, 0x72f7, 0x62d6,
     0x9339, 0x8318, 0xb37b, 0xa35a, 0xd3bd, 0xc39c, 0xf3ff, 0xe3de, 0x2462, 0x3443, 0x0420, 0x1401,
     0x64e6, 0x74c7, 0x44a4, 0x5485, 0xa56a, 0xb54b, 0x8528, 0x9509, 0xe5ee, 0xf5cf, 0xc5ac, 0xd58d,
     0x3653, 0x2672, 0x1611, 0x0630, 0x76d7, 0x66f6, 0x5695, 0x46b4, 0xb75b, 0xa77a, 0x9719, 0x8738,
     0xf7df, 0xe7fe, 0xd79d, 0xc7bc, 0x48c4, 0x58e5, 0x6886, 0x78a7, 0x0840, 0x1861, 0x2802, 0x3823,
     0xc9cc, 0xd9ed, 0xe98e, 0xf9af, 0x8948, 0x9969, 0xa90a, 0xb92b, 0x5af5, 0x4ad4, 0x7ab7, 0x6a96,
     0x1a71, 0x0a50, 0x3a33, 0x2a12, 0xdbfd, 0xcbdc, 0xfbbf, 0xeb9e, 0x9b79, 0x8b58, 0xbb3b, 0xab1a,
     0x6ca6, 0x7c87, 0x4ce4, 0x5cc5, 0x2c22, 0x3c03, 0x0c60, 0x1c41, 0xedae, 0xfd8f, 0xcdec, 0xddcd,
     0xad2a, 0xbd0b, 0x8d68, 0x9d49, 0x7e97, 0x6eb6, 0x5ed5, 0x4ef4, 0x3e13, 0x2e32, 0x1e51, 0x0e70,
     0xff9f, 0xefbe, 0xdfdd, 0xcffc, 0xbf1b, 0xaf3a, 0x9f59, 0x8f78, 0x9188, 0x81a9, 0xb1ca, 0xa1eb,
     0xd10c, 0xc12d, 0xf14e, 0xe16f, 0x1080, 0x00a1, 0x30c2, 0x20e3, 0x5004, 0x4025, 0x7046, 0x6067,
     0x83b9, 0x9398, 0xa3fb, 0xb3da, 0xc33d, 0xd31c, 0xe37f, 0xf35e, 0x02b1, 0x1290, 0x22f3, 0x32d2,
     0x4235, 0x5214, 0x6277, 0x7256, 0xb5ea, 0xa5cb, 0x95a8, 0x8589, 0xf56e, 0xe54f, 0xd52c, 0xc50d,
     0x34e2, 0x24c3, 0x14a0, 0x0481, 0x7466, 0x6447, 0x5424, 0x4405, 0xa7db, 0xb7fa, 0x8799, 0x97b8,
     0xe75f, 0xf77e, 0xc71d, 0xd73c, 0x26d3, 0x36f2, 0x0691, 0x16b0, 0x6657, 0x7676, 0x4615, 0x5634,
     0xd94c, 0xc96d, 0xf90e, 0xe92f, 0x99c8, 0x89e9, 0xb98a, 0xa9ab, 0x5844, 0x4865, 0x7806, 0x6827,
     0x18c0, 0x08e1, 0x3882, 0x28a3, 0xcb7d, 0xdb5c, 0xeb3f, 0xfb1e, 0x8bf9, 0x9bd8, 0xabbb, 0xbb9a,
     0x4a75, 0x5a54, 0x6a37, 0x7a16, 0x0af1, 0x1ad0, 0x2ab3, 0x3a92, 0xfd2e, 0xed0f, 0xdd6c, 0xcd4d,
     0xbdaa, 0xad8b, 0x9de8, 0x8dc9, 0x7c26, 0x6c07, 0x5c64, 0x4c45, 0x3ca2, 0x2c83, 0x1ce0, 0x0cc1,
     0xef1f, 0xff3e, 0xcf5d, 0xdf7c, 0xaf9b, 0xbfba, 0x8fd9, 0x9ff8, 0x6e17, 0x7e36, 0x4e55, 0x5e74,
     0x2e93, 0x3eb2, 0x0ed1, 0x1ef0]"

definition crc16 :: "u8 list \<Rightarrow> u16" where
  "crc16 bs = foldl (\<lambda>crc b. push_bit 8 crc XOR crc16tab ! unat (ucast (drop_bit 8 crc) XOR b)) 0 bs"

definition toStrKey :: "u8 \<Rightarrow> u8 list \<Rightarrow> string" where
  "toStrKey ver bin =
     (let toEncode = push_bit 3 ver # bin; crc = crc16 toEncode in
      encode b32_conversion_traits (toEncode @ [ucast (crc AND 0xFF), ucast (drop_bit 8 crc AND 0xFF)]))"

text \<open>\<^const>\<open>None\<close> is \<^verbatim>\<open>return false\<close>; otherwise the version and the decoded bytes. The last byte
  decoded is the high byte of the checksum.\<close>

definition fromStrKey :: "string \<Rightarrow> (u8 \<times> u8 list) option" where
  "fromStrKey str =
     (if length str mod 8 \<noteq> 0 then None
      else
        let decoded = decode b32_conversion_traits str in
        if length decoded < 3 then None
        else
          let hi = last decoded; d1 = butlast decoded; lo = last d1; d2 = butlast d1;
              crc = push_bit 8 (ucast hi :: u16) OR ucast lo in
          if crc16 d2 \<noteq> crc then None
          else Some (drop_bit 3 (List.hd d2), List.tl d2))"

definition STRKEY_PUBKEY_ED25519 :: u8 where
  "STRKEY_PUBKEY_ED25519 = 6"

definition accountStrKey :: "AccountID \<Rightarrow> string" where
  "accountStrKey a = toStrKey STRKEY_PUBKEY_ED25519 (bytes32 a)"

subsection \<open>The loops and the stream of bits\<close>

definition bits :: "nat \<Rightarrow> u8 \<Rightarrow> bool list" where
  "bits g v = map (\<lambda>i. bit v (g - 1 - i)) [0..<g]"

abbreviation stream :: "u8 list \<Rightarrow> bool list" where
  "stream bs \<equiv> concat (map (bits 8) bs)"

lemma length_bits [simp]: "length (bits g v) = g"
  by (simp add: bits_def)

lemma nth_bits [simp]: "i < g \<Longrightarrow> bits g v ! i = bit v (g - 1 - i)"
  by (simp add: bits_def)

lemma length_stream [simp]: "length (stream bs) = 8 * length bs"
  by (induction bs) auto

lemma u8_bit_eqI: "(\<And>i. i < 8 \<Longrightarrow> bit v i = bit w i) \<Longrightarrow> (v :: u8) = w"
  by (rule bit_word_eqI) simp

lemma bits8_inject: "bits 8 v = bits 8 w \<Longrightarrow> v = w"
proof (rule u8_bit_eqI)
  fix i :: nat assume eq: "bits 8 v = bits 8 w" and i: "i < 8"
  from eq have "bits 8 v ! (7 - i) = bits 8 w ! (7 - i)" by simp
  with i show "bit v i = bit w i" by simp
qed

lemma stream_inject: "\<lbrakk>stream bs = stream cs; length bs = length cs\<rbrakk> \<Longrightarrow> bs = cs"
  by (induction bs cs rule: list_induct2') (auto dest: bits8_inject)

lemma bit_ff [simp]: "bit (255 :: int) i \<longleftrightarrow> i < 8"
proof -
  have "(255 :: int) = mask 8" by (simp add: mask_eq_exp_minus_1)
  then show ?thesis by (simp only: bit_mask_iff) simp
qed

lemma extract_partial_bits_stream:
  assumes "sb + g < 8"
  shows "bits g (extract_partial_bits v sb g) = take g (drop sb (bits 8 v))"
  using assms
  by (intro nth_equalityI)
    (auto simp: extract_partial_bits_def bit_simps min_def intro: arg_cong [of _ _ "bit v"])

lemma extract_overlapping_bits_stream:
  assumes "sb < 8" "8 \<le> sb + g" "g \<le> 6"
  shows "bits g (extract_overlapping_bits p n sb g) = take g (drop sb (bits 8 p @ bits 8 n))"
proof (rule nth_equalityI)
  fix i assume i: "i < length (bits g (extract_overlapping_bits p n sb g))"
  show "bits g (extract_overlapping_bits p n sb g) ! i = take g (drop sb (bits 8 p @ bits 8 n)) ! i"
  proof (cases "sb + i < 8")
    case True
    with i assms show ?thesis
      by (auto simp: extract_overlapping_bits_def Let_def bit_simps nth_append add.commute
          intro: arg_cong [of _ _ "bit p"])
  next
    case False
    with i assms show ?thesis
      by (auto simp: extract_overlapping_bits_def Let_def bit_simps nth_append add.commute
          intro: arg_cong [of _ _ "bit n"])
  qed
qed (use assms in auto)

text \<open>A value of at most \<open>g\<close> bits, and that printing and reading it back gives it.\<close>

definition fits :: "nat \<Rightarrow> u8 \<Rightarrow> bool" where
  "fits g v \<longleftrightarrow> take_bit g v = v"

lemma fits_bit: "\<lbrakk>fits g v; g \<le> i\<rbrakk> \<Longrightarrow> \<not> bit v i"
  unfolding fits_def by (metis bit_take_bit_iff linorder_not_less)

lemma fits_less: "fits g v \<Longrightarrow> unat v < 2 ^ g"
  unfolding fits_def by (metis take_bit_nat_less_exp unsigned_take_bit_eq)

lemma fits_extract [simp]: "fits g (extract_partial_bits v sb g)" "fits g (extract_overlapping_bits p n sb g)"
  by (auto simp: fits_def extract_partial_bits_def extract_overlapping_bits_def Let_def bit_simps
      intro!: u8_bit_eqI)

definition reads_back :: "conversion_traits \<Rightarrow> u8 \<Rightarrow> bool" where
  "reads_back tr v \<longleftrightarrow> \<not> isspace_C (of_char (encode_index tr v))
     \<and> decode_char tr (of_char (encode_index tr v)) = v \<and> v \<noteq> decode_error"

lemma reads_back_all:
  "list_all (\<lambda>n. reads_back b16_conversion_traits (word_of_nat n)) [0..<16]"
  "list_all (\<lambda>n. reads_back b32_conversion_traits (word_of_nat n)) [0..<32]"
  "list_all (\<lambda>n. reads_back b64_conversion_traits (word_of_nat n)) [0..<64]"
  by code_simp+

lemma fits_reads_back: "fits (group_length tr) v \<Longrightarrow> reads_back tr v"
  using reads_back_all fits_less [of "group_length tr" v]
  by (cases tr) (auto simp: list_all_iff dest!: bspec [where x = "unat v"])

lemma exI3: "P a b c \<Longrightarrow> \<exists>x y z. P x y z"
  by blast

lemma padding_eqs: "\<exists>n. padding m tr sb = replicate n (CHR ''='')"
proof (induction m tr sb rule: padding.induct)
  case (2 m tr sb)
  then show ?case by (cases "sb = 0") (auto simp flip: replicate_Suc)
qed simp

lemma encode_loop_stream:
  assumes "sb < 8" "bk \<noteq> None \<Longrightarrow> 8 \<le> sb + group_length tr"
  shows "\<exists>vs n k. encode_loop tr bs sb bk = map (encode_index tr) vs @ replicate n (CHR ''='')
     \<and> (\<forall>v\<in>set vs. fits (group_length tr) v) \<and> k < group_length tr
     \<and> concat (map (bits (group_length tr)) vs) = drop sb (stream ((case bk of None \<Rightarrow> [] | Some p \<Rightarrow> [p]) @ bs)) @ replicate k False"
  using assms
proof (induction tr bs sb bk rule: encode_loop.induct)
  case (1 tr sb)
  obtain n where "padding 8 tr sb = replicate n (CHR ''='')" using padding_eqs by blast
  then show ?case by (intro exI3 [of _ "[]" n 0]) simp
next
  case (2 tr b bs sb)
  let ?g = "group_length tr"
  show ?case
  proof (cases "sb + ?g < 8")
    case True
    have "None \<noteq> (None :: u8 option) \<Longrightarrow> 8 \<le> sb + ?g + ?g" by simp
    from 2(1) [OF True True this] obtain vs n k where ih: "encode_loop tr (b # bs) (sb + ?g) None = map (encode_index tr) vs @ replicate n (CHR ''='')"
      "\<forall>v\<in>set vs. fits ?g v" "k < ?g"
      "concat (map (bits ?g) vs) = drop (sb + ?g) (stream (b # bs)) @ replicate k False"
      unfolding option.case append_Nil by blast
    have "bits ?g (extract_partial_bits b sb ?g) @ drop (sb + ?g) (stream (b # bs)) = drop sb (stream (b # bs))"
      using True append_take_drop_id [of ?g "drop sb (stream (b # bs))"]
      by (simp add: extract_partial_bits_stream add.commute)
    with ih True show ?thesis
      by (intro exI3 [of _ "extract_partial_bits b sb ?g # vs" n k]) auto
  next
    case False
    with 2 show ?thesis by auto
  qed
next
  case (3 tr bs sb p)
  let ?g = "group_length tr"
  have sb: "sb < 8" "8 \<le> sb + ?g" using 3(2,3) by simp_all
  then have md2: "sb + ?g - 8 < 8" using group_length_pos(3) [of tr] by linarith
  with sb have md: "(sb + ?g) mod 8 = sb + ?g - 8" "sb + ?g - 8 < 8" by (simp_all add: le_mod_geq)
  let ?v = "extract_overlapping_bits p (case bs of [] \<Rightarrow> 0 | b # _ \<Rightarrow> b) sb ?g"
  have v: "bits ?g ?v = take ?g (drop sb (bits 8 p @ bits 8 (case bs of [] \<Rightarrow> 0 | b # _ \<Rightarrow> b)))"
    using extract_overlapping_bits_stream sb group_length_pos(3) by blast
  have "None \<noteq> (None :: u8 option) \<Longrightarrow> 8 \<le> (sb + ?g) mod 8 + ?g" by simp
  from 3(1) [OF _ this] md obtain vs n k where ih:
    "encode_loop tr bs (sb + ?g - 8) None = map (encode_index tr) vs @ replicate n (CHR ''='')"
    "\<forall>v\<in>set vs. fits ?g v" "k < ?g"
    "concat (map (bits ?g) vs) = drop (sb + ?g - 8) (stream bs) @ replicate k False"
    unfolding option.case append_Nil md(1) by blast
  show ?case
  proof (cases bs)
    case Nil
    have zero: "bits 8 0 = replicate 8 False" by (intro nth_equalityI) auto
    have "bits ?g ?v = drop sb (bits 8 p) @ replicate (sb + ?g - 8) False"
      using v sb Nil zero md2 by (simp add: take_append min_def add.commute)
    moreover obtain n where "encode_loop tr bs (sb + ?g - 8) None = replicate n (CHR ''='')"
      using padding_eqs [of 8 tr "sb + ?g - 8"] Nil by auto
    ultimately show ?thesis using Nil sb md
      by (intro exI3 [of _ "[?v]" n "sb + ?g - 8"]) auto
  next
    case (Cons b cs)
    have "bits ?g ?v @ drop (sb + ?g - 8) (stream bs) = drop sb (bits 8 p @ stream bs)"
    proof -
      have "bits ?g ?v = take ?g (drop sb (bits 8 p @ stream bs))"
        using v Cons md sb by simp
      moreover have "drop (sb + ?g - 8) (stream bs) = drop ?g (drop sb (bits 8 p @ stream bs))"
        using sb by (simp add: add.commute)
      ultimately show ?thesis by (metis append_take_drop_id)
    qed
    with ih md show ?thesis
      by (intro exI3 [of _ "?v # vs" n k]) auto
  qed
qed

lemma decode_padding: "decode_loop tr (replicate n (CHR ''='')) sb buffer = []"
proof -
  have "decode_char b16_conversion_traits (of_char (CHR ''='')) = decode_error"
    "decode_char b32_conversion_traits (of_char (CHR ''='')) = decode_error"
    "decode_char b64_conversion_traits (of_char (CHR ''='')) = decode_error" by code_simp+
  then have "decode_char tr (of_char (CHR ''='')) = decode_error" by (cases tr) simp_all
  moreover have "\<not> isspace_C (of_char (CHR ''=''))" by code_simp
  ultimately show ?thesis by (induction n arbitrary: sb buffer) (auto simp: Let_def)
qed

lemma decode_loop_stream:
  fixes tr :: conversion_traits
  defines "g \<equiv> group_length tr"
  assumes "ob < 8" "\<And>i. i < 8 - ob \<Longrightarrow> \<not> bit buffer i" "\<forall>v\<in>set vs. fits g v"
  shows "\<exists>lo. length lo < 8
     \<and> stream (decode_loop tr (map (encode_index tr) vs @ replicate n (CHR ''='')) ob buffer) @ lo
         = take ob (bits 8 buffer) @ concat (map (bits g) vs)"
  using assms(2-)
proof (induction vs arbitrary: ob buffer)
  case Nil
  then show ?case by (intro exI [of _ "take ob (bits 8 buffer)"]) (simp add: decode_padding)
next
  case (Cons v vs)
  have rb: "reads_back tr v" and fv: "\<And>i. g \<le> i \<Longrightarrow> \<not> bit v i"
    using Cons.prems(3) fits_reads_back fits_bit by (auto simp: g_def)
  have g: "0 < g" "g \<le> 6" by (simp_all add: g_def)
  let ?rest = "map (encode_index tr) vs @ replicate n (CHR ''='')"
  consider (full) "ob + g = 8" | (within) "ob + g < 8" | (across) "8 < ob + g" by linarith
  then show ?case
  proof cases
    case full
    let ?b = "buffer OR push_bit (8 - ob - g) v"
    have "bits 8 ?b = take ob (bits 8 buffer) @ bits g v"
    proof (rule nth_equalityI)
      fix i assume "i < length (bits 8 ?b)"
      then show "bits 8 ?b ! i = (take ob (bits 8 buffer) @ bits g v) ! i"
        using full fv Cons.prems(1,2) arg_cong [OF full, of "\<lambda>x. x - Suc i"]
        by (cases "i < ob") (auto simp: nth_append bit_simps add.commute)
    qed (use full in simp)
    moreover obtain lo where "length lo < 8" "stream (decode_loop tr ?rest 0 0) @ lo = concat (map (bits g) vs)"
      using Cons.IH [of 0 0] Cons.prems by auto
    ultimately show ?thesis using full rb g
      by (intro exI [of _ lo]) (auto simp: reads_back_def Let_def g_def [symmetric])
  next
    case within
    let ?b = "buffer OR push_bit (8 - ob - g) v"
    have "take (ob + g) (bits 8 ?b) = take ob (bits 8 buffer) @ bits g v"
    proof (rule nth_equalityI)
      fix i assume "i < length (take (ob + g) (bits 8 ?b))"
      then show "take (ob + g) (bits 8 ?b) ! i = (take ob (bits 8 buffer) @ bits g v) ! i"
        using within fv Cons.prems(1,2) by (cases "i < ob") (auto simp: nth_append bit_simps add.commute)
    qed (use within in simp)
    moreover have "\<not> bit ?b i" if "i < 8 - (ob + g)" for i
      using that Cons.prems(2) by (auto simp: bit_simps)
    then obtain lo where "length lo < 8"
      "stream (decode_loop tr ?rest (ob + g) ?b) @ lo = take (ob + g) (bits 8 ?b) @ concat (map (bits g) vs)"
      using Cons.IH [of "ob + g" ?b] Cons.prems within by auto
    ultimately show ?thesis using within rb g
      by (intro exI [of _ lo]) (auto simp: reads_back_def Let_def g_def [symmetric])
  next
    case across
    define bn where "bn = g - (8 - ob)"
    have bn: "bn < 8" "8 - ob + bn = g" using across g Cons.prems(1) by (auto simp: bn_def)
    let ?b = "buffer OR drop_bit bn v" and ?c = "push_bit (8 - bn) v"
    have "bits 8 ?b @ take bn (bits 8 ?c) = take ob (bits 8 buffer) @ bits g v"
    proof (rule nth_equalityI)
      fix i assume "i < length (bits 8 ?b @ take bn (bits 8 ?c))"
      then show "(bits 8 ?b @ take bn (bits 8 ?c)) ! i = (take ob (bits 8 buffer) @ bits g v) ! i"
        using across fv Cons.prems(1,2) bn
        by (cases "i < ob"; cases "i < 8") (auto simp: nth_append bit_simps add.commute)
    qed (use across bn Cons.prems(1) in auto)
    moreover have "\<not> bit ?c i" if "i < 8 - bn" for i
      using that by (auto simp: bit_simps)
    then obtain lo where "length lo < 8"
      "stream (decode_loop tr ?rest bn ?c) @ lo = take bn (bits 8 ?c) @ concat (map (bits g) vs)"
      using Cons.IH [of bn ?c] Cons.prems bn by auto
    ultimately show ?thesis using across rb g Cons.prems(1)
      by (intro exI [of _ lo]) (auto simp: reads_back_def Let_def g_def [symmetric] bn_def [symmetric] min_def)
  qed
qed

subsection \<open>Round trips\<close>

text \<open>Decoding an encoded byte string gives it back, in each of the three bases and for every
  length: the bits that do not fill a group are padded with zeros, and the padding is too short to
  make another byte.\<close>

lemma decode_of_encode: "decode tr (encode tr bs) = bs"
proof -
  let ?g = "group_length tr"
  have "\<exists>vs n k. encode_loop tr bs 0 None = map (encode_index tr) vs @ replicate n (CHR ''='')
     \<and> (\<forall>v\<in>set vs. fits ?g v) \<and> k < ?g \<and> concat (map (bits ?g) vs) = stream bs @ replicate k False"
    using encode_loop_stream [of 0 None tr bs] by simp
  then obtain vs n k where enc: "encode tr bs = map (encode_index tr) vs @ replicate n (CHR ''='')"
    "\<forall>v\<in>set vs. fits ?g v" "k < ?g" "concat (map (bits ?g) vs) = stream bs @ replicate k False"
    unfolding encode_def by blast
  from decode_loop_stream [of 0 0 vs tr n] enc obtain lo where
    lo: "length lo < 8" "stream (decode tr (encode tr bs)) @ lo = stream bs @ replicate k False"
    by (auto simp: decode_def)
  have "length (stream (decode tr (encode tr bs))) + length lo = length (stream bs) + k"
    using arg_cong [OF lo(2), of length] by simp
  moreover have "k < 8" using enc(3) group_length_pos(3) [of tr] by linarith
  ultimately have len: "length (decode tr (encode tr bs)) = length bs" using lo(1) by simp
  with lo(2) have "stream (decode tr (encode tr bs)) = stream bs" by simp
  with len show ?thesis by (rule stream_inject [rotated])
qed

text \<open>The number of characters is a multiple of eight, because the loop pads until the bit position is
  back at a byte boundary; the bound on the padding is enough for that.\<close>

lemma padding_b32: "sb < 8 \<Longrightarrow> (5 * length (padding 8 b32_conversion_traits sb) + sb) mod 8 = 0"
proof -
  have "list_all (\<lambda>sb. (5 * length (padding 8 b32_conversion_traits sb) + sb) mod 8 = 0) [0..<8]" by code_simp
  then show "sb < 8 \<Longrightarrow> ?thesis" by (simp add: list_all_iff)
qed

lemma length_encode_loop_b32:
  "\<lbrakk>sb < 8; tr = b32_conversion_traits\<rbrakk> \<Longrightarrow> (5 * length (encode_loop tr bs sb bk) + sb) mod 8 = 0"
proof (induction tr bs sb bk rule: encode_loop.induct)
  case (1 tr sb)
  then show ?case by (simp add: padding_b32)
next
  case (2 tr b bs sb)
  then show ?case by (cases "sb + 5 < 8") (simp_all add: ac_simps)
next
  case (3 tr bs sb p)
  then have "(5 * length (encode_loop tr bs ((sb + 5) mod 8) None) + (sb + 5) mod 8) mod 8 = 0" by simp
  then have "(5 * length (encode_loop tr bs ((sb + 5) mod 8) None) + (sb + 5)) mod 8 = 0"
    by (metis mod_add_right_eq)
  then show ?case using 3(3) by (simp add: ac_simps)
qed

lemma length_encode_b32: "length (encode b32_conversion_traits bs) mod 8 = 0"
proof -
  have "5 * length (encode b32_conversion_traits bs) mod 8 = 0"
    using length_encode_loop_b32 [of 0] by (simp add: encode_def)
  then show ?thesis by presburger
qed

lemma fromStrKey_of_toStrKey:
  assumes "ver < 32"
  shows "fromStrKey (toStrKey ver bin) = Some (ver, bin)"
proof -
  let ?enc = "push_bit 3 ver # bin" let ?crc = "crc16 ?enc"
  have dec: "decode b32_conversion_traits (toStrKey ver bin)
      = ?enc @ [ucast (?crc AND 0xFF), ucast (drop_bit 8 ?crc AND 0xFF)]"
    by (simp add: toStrKey_def Let_def decode_of_encode)
  have crc: "push_bit 8 (ucast (ucast (drop_bit 8 ?crc AND 0xFF) :: u8) :: u16)
      OR ucast (ucast (?crc AND 0xFF) :: u8) = ?crc"
    by (rule bit_word_eqI) (auto simp: bit_simps)
  have "drop_bit 3 (push_bit 3 ver) = ver"
  proof (rule u8_bit_eqI)
    fix i :: nat assume "i < 8"
    have "ver = take_bit 5 ver" using assms(1) by (simp add: take_bit_eq_mod word_less_def word_mod_def)
    then have "\<not> bit ver i" if "5 \<le> i" using that by (metis bit_take_bit_iff linorder_not_less)
    then show "bit (drop_bit 3 (push_bit 3 ver)) i = bit ver i"
      by (cases "i < 5") (auto simp: bit_simps)
  qed
  then show ?thesis using dec crc length_encode_b32
    by (simp add: fromStrKey_def Let_def butlast_append toStrKey_def)
qed

text \<open>C40. A printed key is read back as the version and the bytes it was printed from, the checksum
  being accepted.\<close>

theorem fromStrKey_toStrKey:
  assumes "ver < 32"
  shows "fromStrKey (toStrKey ver bin) = Some (ver, bin)"
  using assms by (rule fromStrKey_of_toStrKey)

theorem fromStrKey_toStrKey_witness:
  "toStrKey STRKEY_PUBKEY_ED25519 [0, 255] = ''GAAP6VO3''
   \<and> fromStrKey (toStrKey STRKEY_PUBKEY_ED25519 [0, 255]) = Some (STRKEY_PUBKEY_ED25519, [0, 255])"
proof -
  have "toStrKey STRKEY_PUBKEY_ED25519 [0, 255] = ''GAAP6VO3''" by code_simp
  then show ?thesis
    using fromStrKey_toStrKey [of STRKEY_PUBKEY_ED25519 "[0, 255]"] by (simp add: STRKEY_PUBKEY_ED25519_def)
qed

text \<open>Printing an account's key loses nothing, so that ordering winners of equal votes by it is a
  total order.\<close>

lemma bytes32_inject: "bytes32 a = bytes32 b \<Longrightarrow> a = b"
proof (rule bit_word_eqI)
  fix i :: nat assume eq: "bytes32 a = bytes32 b" and i: "i < LENGTH(256)"
  then have j: "31 - i div 8 < 32" by simp
  have "bit w i \<longleftrightarrow> bit (bytes32 w ! (31 - i div 8)) (i mod 8)" for w :: uint256
    using j i by (simp add: bytes32_def bit_simps)
  with eq show "bit a i = bit b i" by simp
qed

lemma accountStrKey_inject: "accountStrKey a = accountStrKey b \<longleftrightarrow> a = b"
proof
  assume "accountStrKey a = accountStrKey b"
  then have "fromStrKey (accountStrKey a) = fromStrKey (accountStrKey b)" by simp
  then have "bytes32 a = bytes32 b"
    by (simp add: accountStrKey_def fromStrKey_of_toStrKey STRKEY_PUBKEY_ED25519_def)
  then show "a = b" by (rule bytes32_inject)
qed simp

end
