(* ===== verification/Account_Ops.thy ===== *)
theory Account_Ops
  imports Operation_Types Str_Key
begin

section \<open>Operations on accounts and trust lines (src/src/transactions/*OpFrame.cpp)\<close>

text \<open>
  One group per operation frame: its threshold level, its \<^verbatim>\<open>doCheckValid\<close> and its \<^verbatim>\<open>doApply\<close>, which
  take \<open>src\<close>, the value of \<^verbatim>\<open>getSourceID()\<close>. Every branch of the code is a branch here; the version
  tests are kept, with the exception of the account cache of the protocols before 8.
\<close>

subsection \<open>Bump sequence (BumpSequenceOpFrame.cpp)\<close>

definition BumpSequence_doCheckValid :: "int \<Rightarrow> BumpSequenceResultCode option" where
  "BumpSequence_doCheckValid bumpTo = (if bumpTo < 0 then Some BUMP_SEQUENCE_BAD_SEQ else None)"

definition BumpSequence_doApply :: "ledger \<Rightarrow> AccountID \<Rightarrow> int \<Rightarrow> BumpSequenceResultCode applied" where
  "BumpSequence_doApply l src bumpTo =
     bindE (loadSourceAccount l src) (\<lambda>sourceAccount.
     let l' = (if bumpTo > ac_seqNum sourceAccount
               then putAccount l (sourceAccount\<lparr>ac_seqNum := bumpTo\<rparr>) else l) in
     Inr (True, BUMP_SEQUENCE_SUCCESS, l'))"

subsection \<open>Manage data (ManageDataOpFrame.cpp)\<close>

definition ManageData_doCheckValid :: "ManageDataOp \<Rightarrow> int \<Rightarrow> ManageDataResultCode option" where
  "ManageData_doCheckValid op ledgerVersion =
     (if ledgerVersion < 2 then Some MANAGE_DATA_NOT_SUPPORTED_YET
      else if length (md_dataName op) < 1 \<or> \<not> isString32Valid (md_dataName op)
      then Some MANAGE_DATA_INVALID_NAME
      else None)"

definition ManageData_doApply :: "ledger \<Rightarrow> AccountID \<Rightarrow> ManageDataOp \<Rightarrow> ManageDataResultCode applied" where
  "ManageData_doApply l src op =
     (let h = lg_header l in
      if lh_ledgerVersion h = 3
      then Inl (RuntimeError ''MANAGE_DATA not supported on ledger version 3'')
      else case md_dataValue op of
        Some v \<Rightarrow>
          (case loadData l src (md_dataName op) of
             None \<Rightarrow>
               bindE (loadSourceAccount l src) (\<lambda>sourceAccount.
               bindE (addNumEntries h sourceAccount 1) (\<lambda>r. case r of
                 None \<Rightarrow> Inr (False, MANAGE_DATA_LOW_RESERVE, l)
               | Some sourceAccount' \<Rightarrow>
                   bindE (create (putAccount l sourceAccount')
                     (DATA \<lparr>de_accountID = src, de_dataName = md_dataName op, de_dataValue = v\<rparr>)) (\<lambda>l'.
                   Inr (True, MANAGE_DATA_SUCCESS, l'))))
           | Some data \<Rightarrow>
               Inr (True, MANAGE_DATA_SUCCESS, store l (DATA (data\<lparr>de_dataValue := v\<rparr>))))
      | None \<Rightarrow>
          (case loadData l src (md_dataName op) of
             None \<Rightarrow> Inr (False, MANAGE_DATA_NAME_NOT_FOUND, l)
           | Some data \<Rightarrow>
               bindE (erase l (DataKey src (md_dataName op))) (\<lambda>l1.
               bindE (loadSourceAccount l1 src) (\<lambda>sourceAccount.
               bindE (dropNumEntry h sourceAccount) (\<lambda>sourceAccount'.
               Inr (True, MANAGE_DATA_SUCCESS, putAccount l1 sourceAccount'))))))"

subsection \<open>Create account (CreateAccountOpFrame.cpp)\<close>

definition CreateAccount_doCheckValid :: "AccountID \<Rightarrow> CreateAccountOp \<Rightarrow> CreateAccountResultCode option" where
  "CreateAccount_doCheckValid src op =
     (if ca_startingBalance op \<le> 0 then Some CREATE_ACCOUNT_MALFORMED
      else if ca_destination op = src then Some CREATE_ACCOUNT_MALFORMED
      else None)"

definition newAccount :: "AccountID \<Rightarrow> int \<Rightarrow> int \<Rightarrow> AccountEntry" where
  "newAccount accountID seqNum balance =
     \<lparr>ac_accountID = accountID, ac_balance = balance, ac_seqNum = seqNum, ac_accountMarker = '''',
      ac_numSubEntries = 0, ac_inflationDest = None, ac_flags = 0, ac_homeDomain = '''',
      ac_thresholds = \<lparr>th_master = 1, th_low = 0, th_med = 0, th_high = 0\<rparr>,
      ac_signers = [], ac_ext = None\<rparr>"

definition CreateAccount_doApply :: "ledger \<Rightarrow> AccountID \<Rightarrow> CreateAccountOp \<Rightarrow> CreateAccountResultCode applied" where
  "CreateAccount_doApply l src op =
     (let h = lg_header l in
      if loadAccount l (ca_destination op) = None then
        if ca_startingBalance op < getMinBalance h 0
        then Inr (False, CREATE_ACCOUNT_LOW_RESERVE, l)
        else
          let doesAccountExist = (lh_ledgerVersion h < 8 \<longrightarrow> load l (AccountKey src) \<noteq> None) in
          bindE (loadSourceAccount l src) (\<lambda>sourceAccount.
          bindE (getAvailableBalance h (ACCOUNT sourceAccount)) (\<lambda>avail.
          if avail < ca_startingBalance op
          then Inr (False, CREATE_ACCOUNT_UNDERFUNDED, l)
          else if \<not> doesAccountExist
          then Inl (RuntimeError ''modifying account that does not exist'')
          else
            bindE (addAccountBalance h sourceAccount (- ca_startingBalance op)) (\<lambda>r. case r of
              None \<Rightarrow> Inl AssertionFailed
            | Some sourceAccount' \<Rightarrow>
                bindE (create (putAccount l sourceAccount')
                  (ACCOUNT (newAccount (ca_destination op) (sint (getStartingSequenceNumber h))
                     (ca_startingBalance op)))) (\<lambda>l'.
                Inr (True, CREATE_ACCOUNT_SUCCESS, l')))))
      else Inr (False, CREATE_ACCOUNT_ALREADY_EXIST, l))"

subsection \<open>Change trust (ChangeTrustOpFrame.cpp)\<close>

definition ChangeTrust_doCheckValid :: "ChangeTrustOp \<Rightarrow> int \<Rightarrow> ChangeTrustResultCode option" where
  "ChangeTrust_doCheckValid op ledgerVersion =
     (if ct_limit op < 0 then Some CHANGE_TRUST_MALFORMED
      else if \<not> isAssetValid (ct_line op) then Some CHANGE_TRUST_MALFORMED
      else if ledgerVersion > 9 \<and> ct_line op = ASSET_TYPE_NATIVE then Some CHANGE_TRUST_MALFORMED
      else None)"

definition ChangeTrust_doApply :: "ledger \<Rightarrow> AccountID \<Rightarrow> ChangeTrustOp \<Rightarrow> ChangeTrustResultCode applied" where
  "ChangeTrust_doApply l src op =
     (let h = lg_header l; limit = ct_limit op in
      bindE (getIssuer (ct_line op)) (\<lambda>issuerID.
      if lh_ledgerVersion h > 2 \<and> issuerID = src
      then Inr (False, CHANGE_TRUST_SELF_NOT_ALLOWED, l)
      else if lh_ledgerVersion h \<le> 2 \<and> issuerID = src then
        if limit < INT64_MAX then Inr (False, CHANGE_TRUST_INVALID_LIMIT, l)
        else if loadAccount l issuerID = None then Inr (False, CHANGE_TRUST_NO_ISSUER, l)
        else Inr (True, CHANGE_TRUST_SUCCESS, l)
      else case loadTrustLineEntry l src (ct_line op) of
        Some trustLine \<Rightarrow>
          bindE (getMinimumLimit h trustLine) (\<lambda>minLimit.
          if limit < minLimit then Inr (False, CHANGE_TRUST_INVALID_LIMIT, l)
          else if limit = 0 then
            bindE (erase l (TrustLineKey src (ct_line op))) (\<lambda>l1.
            bindE (loadSourceAccount l1 src) (\<lambda>sourceAccount.
            bindE (dropNumEntry h sourceAccount) (\<lambda>sourceAccount'.
            Inr (True, CHANGE_TRUST_SUCCESS, putAccount l1 sourceAccount'))))
          else if loadAccount l issuerID = None then Inr (False, CHANGE_TRUST_NO_ISSUER, l)
          else Inr (True, CHANGE_TRUST_SUCCESS, store l (TRUSTLINE (trustLine\<lparr>tl_limit := limit\<rparr>))))
      | None \<Rightarrow>
          if limit = 0 then Inr (False, CHANGE_TRUST_INVALID_LIMIT, l)
          else case loadAccount l issuerID of
            None \<Rightarrow> Inr (False, CHANGE_TRUST_NO_ISSUER, l)
          | Some issuer \<Rightarrow>
              bindE (loadSourceAccount l src) (\<lambda>sourceAccount.
              bindE (addNumEntries h sourceAccount 1) (\<lambda>r. case r of
                None \<Rightarrow> Inr (False, CHANGE_TRUST_LOW_RESERVE, l)
              | Some sourceAccount' \<Rightarrow>
                  bindE (create (putAccount l sourceAccount')
                    (TRUSTLINE \<lparr>tl_accountID = src, tl_asset = ct_line op, tl_balance = 0, tl_limit = limit,
                       tl_flags = (if isAuthRequired issuer then 0 else AUTHORIZED_FLAG), tl_ext = None\<rparr>)) (\<lambda>l'.
                  Inr (True, CHANGE_TRUST_SUCCESS, l'))))))"

subsection \<open>Allow trust (AllowTrustOpFrame.cpp)\<close>

text \<open>The asset an allow-trust operation is about; a default-constructed asset for the native type.\<close>

definition AllowTrust_asset :: "AccountID \<Rightarrow> AllowTrustOp \<Rightarrow> Asset" where
  "AllowTrust_asset src op = (case at_asset op of
       AllowTrustNative \<Rightarrow> ASSET_TYPE_NATIVE
     | assetCode4 code \<Rightarrow> ASSET_TYPE_CREDIT_ALPHANUM4 code src
     | assetCode12 code \<Rightarrow> ASSET_TYPE_CREDIT_ALPHANUM12 code src)"

definition AllowTrust_doCheckValid :: "AccountID \<Rightarrow> AllowTrustOp \<Rightarrow> AllowTrustResultCode option" where
  "AllowTrust_doCheckValid src op =
     (if at_asset op = AllowTrustNative then Some ALLOW_TRUST_MALFORMED
      else if \<not> isAssetValid (AllowTrust_asset src op) then Some ALLOW_TRUST_MALFORMED
      else None)"

text \<open>\<^verbatim>\<open>LedgerTxn::loadOffersByAccountAndAsset\<close> on the flat view. The code walks a hash map, so the
  order of the result is not specified there.\<close>

definition loadOffersByAccountAndAsset :: "ledger \<Rightarrow> AccountID \<Rightarrow> Asset \<Rightarrow> OfferEntry list" where
  "loadOffersByAccountAndAsset l accountID asset =
     filter (\<lambda>oe. of_sellerID oe = accountID \<and> (of_selling oe = asset \<or> of_buying oe = asset)) (ledgerOffers l)"

fun removeOffers :: "ledger \<Rightarrow> AccountID \<Rightarrow> Asset \<Rightarrow> OfferEntry list \<Rightarrow> cpp_error + ledger" where
  "removeOffers l trustor ci [] = Inr l"
| "removeOffers l trustor ci (oe # oes) =
     (if of_sellerID oe \<noteq> trustor then Inl (RuntimeError ''Offer not owned by expected account'')
      else if \<not> (of_buying oe = ci \<or> of_selling oe = ci)
      then Inl (RuntimeError ''Offer not buying or selling expected asset'')
      else
        bindE (releaseLiabilities l oe) (\<lambda>l1.
        bindE (loadSourceAccount l1 trustor) (\<lambda>trustAcc.
        bindE (dropNumEntry (lg_header l) trustAcc) (\<lambda>trustAcc'.
        bindE (erase (putAccount l1 trustAcc') (OfferKey (of_sellerID oe) (of_offerID oe))) (\<lambda>l2.
        removeOffers l2 trustor ci oes)))))"

definition AllowTrust_doApply :: "ledger \<Rightarrow> AccountID \<Rightarrow> AllowTrustOp \<Rightarrow> AllowTrustResultCode applied" where
  "AllowTrust_doApply l src op =
     (let h = lg_header l; trustor = at_trustor op; ci = AllowTrust_asset src op in
      if lh_ledgerVersion h > 2 \<and> trustor = src
      then Inr (False, ALLOW_TRUST_SELF_NOT_ALLOWED, l)
      else
        bindE (loadSourceAccount l src) (\<lambda>sourceAccount.
        if ac_flags sourceAccount AND AUTH_REQUIRED_FLAG = 0
        then Inr (False, ALLOW_TRUST_TRUST_NOT_REQUIRED, l)
        else if ac_flags sourceAccount AND AUTH_REVOCABLE_FLAG = 0 \<and> \<not> at_authorize op
        then Inr (False, ALLOW_TRUST_CANT_REVOKE, l)
        else if trustor = src then Inr (True, ALLOW_TRUST_SUCCESS, l)
        else case loadTrustLineEntry l trustor ci of
          None \<Rightarrow> Inr (False, ALLOW_TRUST_NO_TRUST_LINE, l)
        | Some trust \<Rightarrow>
            let didRevokeAuth = isAuthorized trust \<and> \<not> at_authorize op in
            bindE (if lh_ledgerVersion h \<ge> 10 \<and> didRevokeAuth
                   then removeOffers l trustor ci (loadOffersByAccountAndAsset l trustor ci)
                   else Inr l) (\<lambda>l1.
            case loadTrustLineEntry l1 trustor ci of
              None \<Rightarrow> Inl notActiveEntry
            | Some trustLineEntry \<Rightarrow>
                Inr (True, ALLOW_TRUST_SUCCESS,
                     store l1 (TRUSTLINE (setAuthorized trustLineEntry (at_authorize op)))))))"

subsection \<open>Account merge (MergeOpFrame.cpp)\<close>

definition Merge_doCheckValid :: "AccountID \<Rightarrow> AccountID \<Rightarrow> AccountMergeResult option" where
  "Merge_doCheckValid src destination = (if src = destination then Some ACCOUNT_MERGE_MALFORMED else None)"

definition Merge_doApply :: "ledger \<Rightarrow> AccountID \<Rightarrow> AccountID \<Rightarrow> AccountMergeResult applied" where
  "Merge_doApply l src destination =
     (let h = lg_header l in
      case loadAccount l destination of
        None \<Rightarrow> Inr (False, ACCOUNT_MERGE_NO_ACCOUNT, l)
      | Some otherAccount \<Rightarrow>
          if 4 < lh_ledgerVersion h \<and> lh_ledgerVersion h < 8 \<and> loadAccount l src = None
          then Inr (False, ACCOUNT_MERGE_NO_ACCOUNT, l)
          else
            bindE (loadSourceAccount l src) (\<lambda>sourceAccount.
            let sourceBalance = ac_balance sourceAccount in
            if isImmutableAuth sourceAccount then Inr (False, ACCOUNT_MERGE_IMMUTABLE_SET, l)
            else if ac_numSubEntries sourceAccount \<noteq> int (length (ac_signers sourceAccount))
            then Inr (False, ACCOUNT_MERGE_HAS_SUB_ENTRIES, l)
            else if lh_ledgerVersion h \<ge> 10 \<and> ac_seqNum sourceAccount \<ge> sint (getStartingSequenceNumber h)
            then Inr (False, ACCOUNT_MERGE_SEQNUM_TOO_FAR, l)
            else
              bindE (addAccountBalance h otherAccount sourceBalance) (\<lambda>r. case r of
                None \<Rightarrow> Inr (False, ACCOUNT_MERGE_DEST_FULL, l)
              | Some otherAccount' \<Rightarrow>
                  bindE (erase (putAccount l otherAccount') (AccountKey src)) (\<lambda>l'.
                  Inr (True, ACCOUNT_MERGE_SUCCESS sourceBalance, l')))))"

end
