(* ===== verification/Settings_Ops.thy ===== *)
theory Settings_Ops
  imports Account_Ops "HOL-Library.List_Lexorder" "HOL-Library.Product_Lexorder"
begin

section \<open>Account options, account marks and inflation\<close>

text \<open>
  The models of \<^verbatim>\<open>SetOptionsOpFrame.cpp\<close>, \<^verbatim>\<open>MarkAccountOpFrame.cpp\<close> and
  \<^verbatim>\<open>InflationOpFrame.cpp\<close> under src/src/transactions, and of the query of the inflation winners
  that \<^verbatim>\<open>LedgerTxnAccountSQL.cpp\<close> runs.
\<close>

subsection \<open>Set options (SetOptionsOpFrame.cpp)\<close>

definition allAccountFlags :: u32 where
  "allAccountFlags = AUTH_REQUIRED_FLAG OR AUTH_REVOCABLE_FLAG OR AUTH_IMMUTABLE_FLAG"

definition allAccountAuthFlags :: u32 where
  "allAccountAuthFlags = AUTH_REQUIRED_FLAG OR AUTH_REVOCABLE_FLAG OR AUTH_IMMUTABLE_FLAG"

definition exceeds :: "int option \<Rightarrow> bool" where
  "exceeds v = (case v of None \<Rightarrow> False | Some x \<Rightarrow> x > UINT8_MAX)"

text \<open>\<^verbatim>\<open>KeyUtils::canConvert<PublicKey>\<close> holds of Ed25519 signer keys only.\<close>

definition isPublicKey :: "SignerKey \<Rightarrow> bool" where
  "isPublicKey k = (case k of SIGNER_KEY_TYPE_ED25519 _ \<Rightarrow> True | _ \<Rightarrow> False)"

definition badSigner :: "AccountID \<Rightarrow> int \<Rightarrow> Signer \<Rightarrow> bool" where
  "badSigner src ledgerVersion s \<longleftrightarrow>
     sg_key s = SIGNER_KEY_TYPE_ED25519 src \<or> (\<not> isPublicKey (sg_key s) \<and> ledgerVersion < 3)
     \<or> (sg_weight s > UINT8_MAX \<and> ledgerVersion > 9)"

definition SetOptions_doCheckValid :: "AccountID \<Rightarrow> SetOptionsOp \<Rightarrow> int \<Rightarrow> SetOptionsResultCode option" where
  "SetOptions_doCheckValid src op ledgerVersion =
     (let unknown = (\<lambda>f. case f of None \<Rightarrow> False | Some x \<Rightarrow> x AND NOT allAccountFlags \<noteq> 0) in
      if unknown (so_setFlags op) then Some SET_OPTIONS_UNKNOWN_FLAG
      else if unknown (so_clearFlags op) then Some SET_OPTIONS_UNKNOWN_FLAG
      else if (case (so_setFlags op, so_clearFlags op) of
                 (Some s, Some c) \<Rightarrow> s AND c \<noteq> 0 | _ \<Rightarrow> False) then Some SET_OPTIONS_BAD_FLAGS
      else if exceeds (so_masterWeight op) then Some SET_OPTIONS_THRESHOLD_OUT_OF_RANGE
      else if exceeds (so_lowThreshold op) then Some SET_OPTIONS_THRESHOLD_OUT_OF_RANGE
      else if exceeds (so_medThreshold op) then Some SET_OPTIONS_THRESHOLD_OUT_OF_RANGE
      else if exceeds (so_highThreshold op) then Some SET_OPTIONS_THRESHOLD_OUT_OF_RANGE
      else if (case so_signer op of None \<Rightarrow> False | Some s \<Rightarrow> badSigner src ledgerVersion s)
      then Some SET_OPTIONS_BAD_SIGNER
      else if (case so_homeDomain op of None \<Rightarrow> False | Some d \<Rightarrow> \<not> isString32Valid d)
      then Some SET_OPTIONS_INVALID_HOME_DOMAIN
      else None)"

text \<open>The threshold fields, written as bytes.\<close>

definition setThresholds :: "SetOptionsOp \<Rightarrow> Thresholds \<Rightarrow> Thresholds" where
  "setThresholds op t =
     (let byte = (\<lambda>v old. case v of None \<Rightarrow> old | Some x \<Rightarrow> x AND UINT8_MAX) in
      \<lparr>th_master = byte (so_masterWeight op) (th_master t), th_low = byte (so_lowThreshold op) (th_low t),
       th_med = byte (so_medThreshold op) (th_med t), th_high = byte (so_highThreshold op) (th_high t)\<rparr>)"

text \<open>The loop that erases the signers of a key: what remains of the list, and the account after one
  sub-entry less for each erased one.\<close>

fun eraseSigners ::
    "LedgerHeader \<Rightarrow> SignerKey \<Rightarrow> Signer list \<Rightarrow> AccountEntry \<Rightarrow> cpp_error + (Signer list \<times> AccountEntry)" where
  "eraseSigners h key [] account = Inr ([], account)"
| "eraseSigners h key (s # ss) account =
     (if sg_key s = key
      then bindE (dropNumEntry h account) (\<lambda>account'. eraseSigners h key ss account')
      else bindE (eraseSigners h key ss account) (\<lambda>(ss', account'). Inr (s # ss', account')))"

definition setSigner ::
    "LedgerHeader \<Rightarrow> Signer \<Rightarrow> AccountEntry \<Rightarrow> cpp_error + (SetOptionsResultCode option \<times> AccountEntry)" where
  "setSigner h sg account =
     (if sg_weight sg \<noteq> 0 then
        if \<exists>s\<in>set (ac_signers account). sg_key s = sg_key sg then
          Inr (None, normalizeSigners (account\<lparr>ac_signers :=
            map (\<lambda>s. if sg_key s = sg_key sg then s\<lparr>sg_weight := sg_weight sg\<rparr> else s) (ac_signers account)\<rparr>))
        else if length (ac_signers account) = 20 then Inr (Some SET_OPTIONS_TOO_MANY_SIGNERS, account)
        else
          bindE (addNumEntries h account 1) (\<lambda>r. case r of
            None \<Rightarrow> Inr (Some SET_OPTIONS_LOW_RESERVE, account)
          | Some account' \<Rightarrow>
              Inr (None, normalizeSigners (account'\<lparr>ac_signers := ac_signers account' @ [sg]\<rparr>)))
      else
        bindE (eraseSigners h (sg_key sg) (ac_signers account) account) (\<lambda>(ss, account').
        Inr (None, normalizeSigners (account'\<lparr>ac_signers := ss\<rparr>))))"

text \<open>The assignments to the fields of the account, each made when its option is present.\<close>

definition applyInflationDest :: "SetOptionsOp \<Rightarrow> AccountEntry \<Rightarrow> AccountEntry" where
  "applyInflationDest op a = (case so_inflationDest op of None \<Rightarrow> a | Some i \<Rightarrow> a\<lparr>ac_inflationDest := Some i\<rparr>)"

definition applyClearFlags :: "SetOptionsOp \<Rightarrow> AccountEntry \<Rightarrow> AccountEntry" where
  "applyClearFlags op a = (case so_clearFlags op of None \<Rightarrow> a | Some c \<Rightarrow> a\<lparr>ac_flags := ac_flags a AND NOT c\<rparr>)"

definition applySetFlags :: "SetOptionsOp \<Rightarrow> AccountEntry \<Rightarrow> AccountEntry" where
  "applySetFlags op a = (case so_setFlags op of None \<Rightarrow> a | Some s \<Rightarrow> a\<lparr>ac_flags := ac_flags a OR s\<rparr>)"

definition applyDomainThresholds :: "SetOptionsOp \<Rightarrow> AccountEntry \<Rightarrow> AccountEntry" where
  "applyDomainThresholds op a0 =
     (let a = (case so_homeDomain op of None \<Rightarrow> a0 | Some d \<Rightarrow> a0\<lparr>ac_homeDomain := d\<rparr>) in
      a\<lparr>ac_thresholds := setThresholds op (ac_thresholds a)\<rparr>)"

text \<open>Changing authorisation flags of an account whose flags are immutable.\<close>

definition touchesImmutable :: "u32 option \<Rightarrow> AccountEntry \<Rightarrow> bool" where
  "touchesImmutable flags a = (case flags of None \<Rightarrow> False
     | Some f \<Rightarrow> f AND allAccountAuthFlags \<noteq> 0 \<and> isImmutableAuth a)"

text \<open>The account is modified in place, so what was set before a failing step stays set.\<close>

definition SetOptions_doApply :: "ledger \<Rightarrow> AccountID \<Rightarrow> SetOptionsOp \<Rightarrow> SetOptionsResultCode applied" where
  "SetOptions_doApply l src op =
     (let h = lg_header l; fail = (\<lambda>code a. Inr (False, code, putAccount l a)) in
      bindE (loadSourceAccount l src) (\<lambda>account.
      if (case so_inflationDest op of None \<Rightarrow> False
          | Some i \<Rightarrow> i \<noteq> src \<and> loadAccount l i = None)
      then Inr (False, SET_OPTIONS_INVALID_INFLATION, l)
      else
        let a1 = applyInflationDest op account in
        if touchesImmutable (so_clearFlags op) a1 then fail SET_OPTIONS_CANT_CHANGE a1
        else
          let a2 = applyClearFlags op a1 in
          if touchesImmutable (so_setFlags op) a2 then fail SET_OPTIONS_CANT_CHANGE a2
          else
            let a5 = applyDomainThresholds op (applySetFlags op a2) in
            case so_signer op of
              None \<Rightarrow> Inr (True, SET_OPTIONS_SUCCESS, putAccount l a5)
            | Some sg \<Rightarrow>
                bindE (setSigner h sg a5) (\<lambda>(err, a6). case err of
                  None \<Rightarrow> Inr (True, SET_OPTIONS_SUCCESS, putAccount l a6)
                | Some code \<Rightarrow> fail code a6)))"

subsection \<open>Mark account (MarkAccountOpFrame.cpp)\<close>

text \<open>
  The two functions of the embedded Bitcoin node are not part of the repository, so the node is an
  argument: \<^verbatim>\<open>SendRawTransactionZagg\<close> submits the marker to the pool of that node and may throw a
  \<^verbatim>\<open>UniValue\<close>, which \<open>bn_rejects\<close> stands for, and \<^verbatim>\<open>generateBlocks\<close> may fail, which \<open>bn_generateFails\<close>
  stands for. The call changes the pool and its answer may change with it. A value of
  \<^verbatim>\<open>BitcoinNode\<close> holds the answers of one pass of checking or applying, one for each marker; a later
  pass, and the pass of another validator, has a value of its own, and a theorem that compares two
  passes states what it needs of the two values. The lines that would write the marker into the
  account are commented out in the code.
\<close>

record BitcoinNode =
  bn_rejects :: "string \<Rightarrow> bool"
  bn_generateFails :: "string \<Rightarrow> bool"

definition MarkAccount_doCheckValid :: "BitcoinNode \<Rightarrow> string \<Rightarrow> MarkAccountResultCode option" where
  "MarkAccount_doCheckValid node accountMarker =
     (if bn_rejects node accountMarker then Some MARK_ACCOUNT_BAD_MARKER else None)"

definition MarkAccount_doApply :: "BitcoinNode \<Rightarrow> ledger \<Rightarrow> string \<Rightarrow> MarkAccountResultCode applied" where
  "MarkAccount_doApply node l accountMarker =
     (if bn_generateFails node accountMarker then Inl (RuntimeError ''generateBlocks'')
      else Inr (True, MARK_ACCOUNT_SUCCESS, l))"

subsection \<open>Inflation (InflationOpFrame.cpp)\<close>

definition INFLATION_FREQUENCY :: int where "INFLATION_FREQUENCY = 60 * 60 * 24 * 7"
definition INFLATION_RATE_TRILLIONTHS :: int where "INFLATION_RATE_TRILLIONTHS = 190721000"
definition TRILLION :: int where "TRILLION = 1000000000000"
definition INFLATION_WIN_MIN_PERCENT :: int where "INFLATION_WIN_MIN_PERCENT = 500000000"
definition INFLATION_NUM_WINNERS :: nat where "INFLATION_NUM_WINNERS = 2000"
definition INFLATION_START_TIME :: int where "INFLATION_START_TIME = 1404172800"

lemmas inflation_constants = INFLATION_FREQUENCY_def INFLATION_RATE_TRILLIONTHS_def TRILLION_def
  INFLATION_WIN_MIN_PERCENT_def INFLATION_NUM_WINNERS_def INFLATION_START_TIME_def

record InflationWinner =
  iw_accountID :: AccountID
  iw_votes :: int

text \<open>
  The SQL query of \<^verbatim>\<open>LedgerTxnRoot::Impl::loadInflationWinners\<close> on the accounts of a ledger: the
  votes of each destination, by votes and then by printed key, both descending, at most
  \<open>maxWinners\<close>, cut at the first one below \<open>minBalance\<close>.
\<close>

definition ledgerAccounts :: "ledger \<Rightarrow> AccountEntry list" where
  "ledgerAccounts l = List.map_filter (\<lambda>(k, e). case e of ACCOUNT a \<Rightarrow> Some a | _ \<Rightarrow> None) (lg_entries l)"

definition votesFor :: "AccountEntry list \<Rightarrow> AccountID \<Rightarrow> int" where
  "votesFor accounts dest = sum_list (map ac_balance
     (filter (\<lambda>a. ac_inflationDest a = Some dest \<and> ac_balance a \<ge> 1000000000) accounts))"

definition voteDests :: "AccountEntry list \<Rightarrow> AccountID list" where
  "voteDests accounts = remdups (List.map_filter
     (\<lambda>a. if ac_balance a \<ge> 1000000000 then ac_inflationDest a else None) accounts)"

definition winnerKey :: "InflationWinner \<Rightarrow> int \<times> string" where
  "winnerKey w = (iw_votes w, accountStrKey (iw_accountID w))"

definition rankWinners :: "InflationWinner list \<Rightarrow> InflationWinner list" where
  "rankWinners ws = rev (sort_key winnerKey ws)"

definition loadInflationWinners :: "AccountEntry list \<Rightarrow> nat \<Rightarrow> int \<Rightarrow> InflationWinner list" where
  "loadInflationWinners accounts maxWinners minBalance =
     takeWhile (\<lambda>w. \<not> iw_votes w < minBalance)
       (take maxWinners (rankWinners
         (map (\<lambda>d. \<lparr>iw_accountID = d, iw_votes = votesFor accounts d\<rparr>) (voteDests accounts))))"

definition queryInflationWinners :: "ledger \<Rightarrow> nat \<Rightarrow> int \<Rightarrow> InflationWinner list" where
  "queryInflationWinners l maxWinners minVotes = loadInflationWinners (ledgerAccounts l) maxWinners minVotes"

text \<open>One pass of the payout loop: the ledger, what is left to give and the payouts so far.\<close>

fun doleLoop ::
    "int \<Rightarrow> int \<Rightarrow> InflationWinner list \<Rightarrow> ledger \<Rightarrow> int \<Rightarrow> (AccountID \<times> int) list
       \<Rightarrow> cpp_error + (ledger \<times> int \<times> (AccountID \<times> int) list)" where
  "doleLoop amountToDole totalVotes [] l leftAfterDole payouts = Inr (l, leftAfterDole, payouts)"
| "doleLoop amountToDole totalVotes (w # ws) l leftAfterDole payouts =
     bindE (bigDivide amountToDole (iw_votes w) totalVotes ROUND_DOWN) (\<lambda>share.
     if share = 0 then doleLoop amountToDole totalVotes ws l leftAfterDole payouts
     else
       bindE (case loadAccount l (iw_accountID w) of
                Some winner \<Rightarrow>
                  if lh_ledgerVersion (lg_header l) \<ge> 10
                  then bindE (getMaxAmountReceive (lg_header l) (ACCOUNT winner)) (\<lambda>m. Inr (min m share))
                  else Inr share
              | None \<Rightarrow> Inr share) (\<lambda>toDole.
       if lh_ledgerVersion (lg_header l) \<ge> 10 \<and> toDole = 0
       then doleLoop amountToDole totalVotes ws l leftAfterDole payouts
       else case loadAccount l (iw_accountID w) of
         None \<Rightarrow> doleLoop amountToDole totalVotes ws l leftAfterDole payouts
       | Some winner \<Rightarrow>
           let l1 = (if lh_ledgerVersion (lg_header l) \<le> 7
                     then setHeader l ((lg_header l)\<lparr>lh_totalCoins := lh_totalCoins (lg_header l) + toDole\<rparr>)
                     else l) in
           bindE (addAccountBalance (lg_header l1) winner toDole) (\<lambda>r. case r of
             None \<Rightarrow> Inl (RuntimeError ''inflation overflowed destination balance'')
           | Some winner' \<Rightarrow>
               doleLoop amountToDole totalVotes ws (putAccount l1 winner') (leftAfterDole - toDole)
                 (payouts @ [(iw_accountID w, toDole)]))))"

definition Inflation_doApply :: "ledger \<Rightarrow> InflationResult applied" where
  "Inflation_doApply l =
     (let lh = lg_header l;
          inflationTime = INFLATION_START_TIME + lh_inflationSeq lh * INFLATION_FREQUENCY in
      if lh_closeTime lh < inflationTime then Inr (False, INFLATION_NOT_TIME, l)
      else
        let totalVotes = lh_totalCoins lh in
        bindE (bigDivide totalVotes INFLATION_WIN_MIN_PERCENT TRILLION ROUND_DOWN) (\<lambda>minBalance.
        let winners = queryInflationWinners l INFLATION_NUM_WINNERS minBalance in
        bindE (bigDivide (lh_totalCoins lh) INFLATION_RATE_TRILLIONTHS TRILLION ROUND_DOWN) (\<lambda>inflationAmount.
        let amountToDole = inflationAmount + lh_feePool lh;
            l1 = setHeader l (lh\<lparr>lh_feePool := 0, lh_inflationSeq := (lh_inflationSeq lh + 1) mod 2 ^ 32\<rparr>) in
        bindE (doleLoop amountToDole totalVotes winners l1 amountToDole []) (\<lambda>(l2, leftAfterDole, payouts).
        let h2 = lg_header l2;
            h3 = h2\<lparr>lh_feePool := lh_feePool h2 + leftAfterDole,
                    lh_totalCoins := (if lh_ledgerVersion h2 > 7 then lh_totalCoins h2 + inflationAmount
                                      else lh_totalCoins h2)\<rparr> in
        Inr (True, INFLATION_SUCCESS payouts, setHeader l2 h3)))))"

end
