(* ===== verification/Payment_Ops.thy ===== *)
theory Payment_Ops
  imports Operation_Types
begin

section \<open>Payments and offers (src/src/transactions/)\<close>

text \<open>
  The models of \<^verbatim>\<open>PathPaymentOpFrame.cpp\<close>, \<^verbatim>\<open>PaymentOpFrame.cpp\<close>,
  \<^verbatim>\<open>ManageOfferOpFrame.cpp\<close> and \<^verbatim>\<open>CreatePassiveOfferOpFrame.cpp\<close>. An account and the trust
  line of an asset, of which the code uses the one that fits the asset, are the \<^typ>\<open>holder\<close> of
  theory \<open>Offer_Crossing\<close>.
\<close>

text \<open>\<^const>\<open>convertWithOffers\<close> with its bound on the offers hidden (theorem
  \<open>convertWithOffers_terminates\<close> shows that the bound is not hit), and the assertion that both of its
  callers make of the amount sent.\<close>

definition convert ::
    "ledger \<Rightarrow> Asset \<Rightarrow> int \<Rightarrow> Asset \<Rightarrow> int \<Rightarrow> bool \<Rightarrow> (OfferEntry \<Rightarrow> OfferFilterResult) \<Rightarrow> cpp_error + conversion" where
  "convert l sheep maxSheepSend wheat maxWheatReceive pp filt =
     (case convertWithOffers l sheep maxSheepSend wheat maxWheatReceive pp filt [] of
        None \<Rightarrow> Inl NoReturn
      | Some r \<Rightarrow> bindE r (\<lambda>c. if cv_sheepSend c \<ge> 0 then Inr c else Inl AssertionFailed))"

definition holder_getAvailableBalance :: "LedgerHeader \<Rightarrow> holder \<Rightarrow> cpp_error + int" where
  "holder_getAvailableBalance h hl = (case hl of
       HAccount a \<Rightarrow> getAvailableBalance h (ACCOUNT a) | HLine w \<Rightarrow> tlw_getAvailableBalance h w)"

definition holder_getMaxAmountReceive :: "LedgerHeader \<Rightarrow> holder \<Rightarrow> cpp_error + int" where
  "holder_getMaxAmountReceive h hl = (case hl of
       HAccount a \<Rightarrow> getMaxAmountReceive h (ACCOUNT a) | HLine w \<Rightarrow> tlw_getMaxAmountReceive h w)"

text \<open>Loading the holder of an asset and adding to it: \<^const>\<open>None\<close> when \<^verbatim>\<open>addBalance\<close> refuses.\<close>

definition addToHolding :: "ledger \<Rightarrow> AccountID \<Rightarrow> Asset \<Rightarrow> int \<Rightarrow> cpp_error + ledger option" where
  "addToHolding l aid asset delta =
     bindE (loadHolder l aid asset) (\<lambda>hl.
     bindE (addToHolder (lg_header l) hl delta) (\<lambda>r. Inr (map_option (putHolder l) r)))"

definition addToHoldingOrThrow :: "ledger \<Rightarrow> AccountID \<Rightarrow> Asset \<Rightarrow> int \<Rightarrow> string \<Rightarrow> cpp_error + ledger" where
  "addToHoldingOrThrow l aid asset delta msg =
     bindE (addToHolding l aid asset delta) (\<lambda>r. case r of None \<Rightarrow> Inl (RuntimeError msg) | Some l' \<Rightarrow> Inr l')"

subsection \<open>Path payment (PathPaymentOpFrame.cpp)\<close>

definition PathPayment_doCheckValid :: "PathPaymentOp \<Rightarrow> PathPaymentResult option" where
  "PathPayment_doCheckValid op =
     (if pp_destAmount op \<le> 0 \<or> pp_sendMax op \<le> 0 then Some PATH_PAYMENT_MALFORMED
      else if \<not> isAssetValid (pp_sendAsset op) \<or> \<not> isAssetValid (pp_destAsset op)
      then Some PATH_PAYMENT_MALFORMED
      else if \<not> list_all isAssetValid (pp_path op) then Some PATH_PAYMENT_MALFORMED
      else None)"

text \<open>A step of the operation either goes on or ends it with a failure code and the ledger it leaves.\<close>

datatype 'a outcome = Failed PathPaymentResult ledger | Goes_on 'a

definition bindO :: "cpp_error + 'a outcome \<Rightarrow> ('a \<Rightarrow> cpp_error + 'b outcome) \<Rightarrow> cpp_error + 'b outcome" where
  "bindO m f = bindE m (\<lambda>r. case r of Failed c l \<Rightarrow> Inr (Failed c l) | Goes_on x \<Rightarrow> f x)"

definition requireIssuer :: "ledger \<Rightarrow> Asset \<Rightarrow> cpp_error + unit outcome" where
  "requireIssuer l asset = bindE (getIssuer asset) (\<lambda>i.
     Inr (if loadAccount l i = None then Failed (PATH_PAYMENT_NO_ISSUER asset) l else Goes_on ()))"

definition PathPayment_credit :: "ledger \<Rightarrow> PathPaymentOp \<Rightarrow> bool \<Rightarrow> cpp_error + ledger outcome" where
  "PathPayment_credit l op bypassIssuerCheck =
     (let curB = pp_destAsset op; amount = pp_destAmount op; dest = pp_destination op; h = lg_header l in
      if \<not> bypassIssuerCheck \<and> loadAccount l dest = None
      then Inr (Failed PATH_PAYMENT_NO_DESTINATION l)
      else if curB = ASSET_TYPE_NATIVE then
        bindE (loadSourceAccount l dest) (\<lambda>destination.
        bindE (addAccountBalance h destination amount) (\<lambda>r.
        Inr (case r of None \<Rightarrow> Failed PATH_PAYMENT_MALFORMED l | Some a \<Rightarrow> Goes_on (putAccount l a))))
      else
        bindO (if bypassIssuerCheck then Inr (Goes_on ()) else requireIssuer l curB) (\<lambda>_.
        bindE (loadTrustLine l dest curB) (\<lambda>destLine.
        if \<not> tlw_bool destLine then Inr (Failed PATH_PAYMENT_NO_TRUST l)
        else bindE (tlw_isAuthorized destLine) (\<lambda>auth.
        if \<not> auth then Inr (Failed PATH_PAYMENT_NOT_AUTHORIZED l)
        else bindE (tlw_addBalance h destLine amount) (\<lambda>r.
        Inr (case r of None \<Rightarrow> Failed PATH_PAYMENT_LINE_FULL l
             | Some w \<Rightarrow> Goes_on (putTrustLine l w)))))))"

definition crossSelf :: "AccountID \<Rightarrow> OfferEntry \<Rightarrow> OfferFilterResult" where
  "crossSelf src offer = (if of_sellerID offer = src then eStop else eKeep)"

text \<open>The walk back over the path: the hops still to go, the asset and the amount wanted next, and the
  offers taken so far.\<close>

fun PathPayment_walk ::
    "AccountID \<Rightarrow> Asset list \<Rightarrow> ledger \<Rightarrow> Asset \<Rightarrow> int \<Rightarrow> ClaimOfferAtom list
       \<Rightarrow> cpp_error + (ledger \<times> Asset \<times> int \<times> ClaimOfferAtom list) outcome" where
  "PathPayment_walk src [] l curB curBReceived offers = Inr (Goes_on (l, curB, curBReceived, offers))"
| "PathPayment_walk src (curA # hops) l curB curBReceived offers =
     (if curA = curB then PathPayment_walk src hops l curB curBReceived offers
      else
        bindO (if curA = ASSET_TYPE_NATIVE then Inr (Goes_on ()) else requireIssuer l curA) (\<lambda>_.
        bindE (convert l curA INT64_MAX curB curBReceived True (crossSelf src)) (\<lambda>c.
        case cv_result c of
          eFilterStop \<Rightarrow> Inr (Failed PATH_PAYMENT_OFFER_CROSS_SELF (cv_ledger c))
        | ePartial \<Rightarrow> Inr (Failed PATH_PAYMENT_TOO_FEW_OFFERS (cv_ledger c))
        | eOK \<Rightarrow>
            if curBReceived \<noteq> cv_wheatReceived c
            then Inr (Failed PATH_PAYMENT_TOO_FEW_OFFERS (cv_ledger c))
            else PathPayment_walk src hops (cv_ledger c) curA (cv_sheepSend c) (cv_trail c @ offers))))"

definition PathPayment_debit ::
    "ledger \<Rightarrow> AccountID \<Rightarrow> PathPaymentOp \<Rightarrow> bool \<Rightarrow> bool \<Rightarrow> Asset \<Rightarrow> int \<Rightarrow> cpp_error + ledger outcome" where
  "PathPayment_debit l src op bypassIssuerCheck doesSourceAccountExist curB curBSent =
     (let h = lg_header l in
      if curBSent > pp_sendMax op then Inr (Failed PATH_PAYMENT_OVER_SENDMAX l)
      else if curB = ASSET_TYPE_NATIVE then
        if lh_ledgerVersion h > 7 \<and> loadAccount l src = None then Inr (Failed PATH_PAYMENT_MALFORMED l)
        else
          bindE (loadSourceAccount l src) (\<lambda>sourceAccount.
          bindE (getAvailableBalance h (ACCOUNT sourceAccount)) (\<lambda>avail.
          if curBSent > avail then Inr (Failed PATH_PAYMENT_UNDERFUNDED l)
          else if \<not> doesSourceAccountExist then Inl (RuntimeError ''modifying account that does not exist'')
          else
            bindE (addAccountBalance h sourceAccount (- curBSent)) (\<lambda>r. case r of
              None \<Rightarrow> Inl AssertionFailed
            | Some a \<Rightarrow> Inr (Goes_on (putAccount l a)))))
      else
        bindO (if bypassIssuerCheck then Inr (Goes_on ()) else requireIssuer l curB) (\<lambda>_.
        bindE (loadTrustLine l src curB) (\<lambda>sourceLine.
        if \<not> tlw_bool sourceLine then Inr (Failed PATH_PAYMENT_SRC_NO_TRUST l)
        else bindE (tlw_isAuthorized sourceLine) (\<lambda>auth.
        if \<not> auth then Inr (Failed PATH_PAYMENT_SRC_NOT_AUTHORIZED l)
        else bindE (tlw_addBalance h sourceLine (- curBSent)) (\<lambda>r.
        Inr (case r of None \<Rightarrow> Failed PATH_PAYMENT_UNDERFUNDED l
             | Some w \<Rightarrow> Goes_on (putTrustLine l w)))))))"

definition PathPayment_run :: "ledger \<Rightarrow> AccountID \<Rightarrow> PathPaymentOp \<Rightarrow>
    cpp_error + (ledger \<times> ClaimOfferAtom list) outcome" where
  "PathPayment_run l src op =
     (let curB = pp_destAsset op;
          fullPath = pp_sendAsset op # pp_path op;
          bypassIssuerCheck = (curB \<noteq> ASSET_TYPE_NATIVE \<and> length fullPath = 1
             \<and> pp_sendAsset op = pp_destAsset op \<and> isIssuer (pp_destination op) curB);
          doesSourceAccountExist = (lh_ledgerVersion (lg_header l) < 8 \<longrightarrow> loadAccount l src \<noteq> None) in
      bindO (PathPayment_credit l op bypassIssuerCheck) (\<lambda>l1.
      bindO (PathPayment_walk src (rev fullPath) l1 curB (pp_destAmount op) []) (\<lambda>(l2, asset, amount, offers).
      bindO (PathPayment_debit l2 src op bypassIssuerCheck doesSourceAccountExist asset amount) (\<lambda>l3.
      Inr (Goes_on (l3, offers))))))"

definition PathPayment_doApply :: "ledger \<Rightarrow> AccountID \<Rightarrow> PathPaymentOp \<Rightarrow> PathPaymentResult applied" where
  "PathPayment_doApply l src op =
     bindE (PathPayment_run l src op) (\<lambda>r. case r of
       Failed code l' \<Rightarrow> Inr (False, code, l')
     | Goes_on (l', offers) \<Rightarrow>
         Inr (True, PATH_PAYMENT_SUCCESS offers (Some
           \<lparr>sp_destination = pp_destination op, sp_asset = pp_destAsset op, sp_amount = pp_destAmount op\<rparr>), l'))"

subsection \<open>Payment (PaymentOpFrame.cpp)\<close>

definition Payment_doCheckValid :: "PaymentOp \<Rightarrow> PaymentResultCode option" where
  "Payment_doCheckValid op =
     (if py_amount op \<le> 0 then Some PAYMENT_MALFORMED
      else if \<not> isAssetValid (py_asset op) then Some PAYMENT_MALFORMED
      else None)"

definition unexpectedPathPayment :: cpp_error where
  "unexpectedPathPayment = RuntimeError ''Unexpected error code from pathPayment''"

definition Payment_code :: "PathPaymentResult \<Rightarrow> cpp_error + PaymentResultCode" where
  "Payment_code r = (case r of
       PATH_PAYMENT_UNDERFUNDED \<Rightarrow> Inr PAYMENT_UNDERFUNDED
     | PATH_PAYMENT_SRC_NOT_AUTHORIZED \<Rightarrow> Inr PAYMENT_SRC_NOT_AUTHORIZED
     | PATH_PAYMENT_SRC_NO_TRUST \<Rightarrow> Inr PAYMENT_SRC_NO_TRUST
     | PATH_PAYMENT_NO_DESTINATION \<Rightarrow> Inr PAYMENT_NO_DESTINATION
     | PATH_PAYMENT_NO_TRUST \<Rightarrow> Inr PAYMENT_NO_TRUST
     | PATH_PAYMENT_NOT_AUTHORIZED \<Rightarrow> Inr PAYMENT_NOT_AUTHORIZED
     | PATH_PAYMENT_LINE_FULL \<Rightarrow> Inr PAYMENT_LINE_FULL
     | PATH_PAYMENT_NO_ISSUER _ \<Rightarrow> Inr PAYMENT_NO_ISSUER
     | _ \<Rightarrow> Inl unexpectedPathPayment)"

definition Payment_asPath :: "PaymentOp \<Rightarrow> PathPaymentOp" where
  "Payment_asPath op =
     \<lparr>pp_sendAsset = py_asset op, pp_sendMax = py_amount op, pp_destination = py_destination op,
      pp_destAsset = py_asset op, pp_destAmount = py_amount op, pp_path = []\<rparr>"

definition Payment_doApply :: "ledger \<Rightarrow> AccountID \<Rightarrow> PaymentOp \<Rightarrow> PaymentResultCode applied" where
  "Payment_doApply l src op =
     (let instantSuccess = (if lh_ledgerVersion (lg_header l) > 2
                            then py_destination op = src \<and> py_asset op = ASSET_TYPE_NATIVE
                            else py_destination op = src);
          ppOp = Payment_asPath op in
      if instantSuccess then Inr (True, PAYMENT_SUCCESS, l)
      else case PathPayment_doCheckValid ppOp of
        Some r \<Rightarrow> bindE (Payment_code r) (\<lambda>code. Inr (False, code, l))
      | None \<Rightarrow>
          bindE (PathPayment_doApply l src ppOp) (\<lambda>(ok, r, l').
          if ok then Inr (True, PAYMENT_SUCCESS, l')
          else bindE (Payment_code r) (\<lambda>code. Inr (False, code, l'))))"

end
