(* ===== verification/Offer_Ops.thy ===== *)
theory Offer_Ops
  imports Payment_Ops
begin

section \<open>Managing offers (ManageOfferOpFrame.cpp, CreatePassiveOfferOpFrame.cpp)\<close>

text \<open>
  The operation works in a \<^verbatim>\<open>LedgerTxn\<close> of its own that is committed at the end only, so a failing
  run leaves the ledger it was given. \<open>passive\<close> is the member \<^verbatim>\<open>mPassive\<close>, which
  \<^verbatim>\<open>CreatePassiveOfferOpFrame\<close> sets.
\<close>

definition ManageOffer_doCheckValid :: "ManageOfferOp \<Rightarrow> int \<Rightarrow> ManageOfferResult option" where
  "ManageOffer_doCheckValid op ledgerVersion =
     (if \<not> isAssetValid (mo_selling op) \<or> \<not> isAssetValid (mo_buying op) then Some MANAGE_OFFER_MALFORMED
      else if compareAsset (mo_selling op) (mo_buying op) then Some MANAGE_OFFER_MALFORMED
      else if mo_amount op < 0 \<or> price_d (mo_price op) \<le> 0 \<or> price_n (mo_price op) \<le> 0
      then Some MANAGE_OFFER_MALFORMED
      else if ledgerVersion > 2 \<and> mo_offerID op = 0 \<and> mo_amount op = 0 then Some MANAGE_OFFER_NOT_FOUND
      else None)"

definition buildOffer :: "AccountID \<Rightarrow> ManageOfferOp \<Rightarrow> u32 \<Rightarrow> OfferEntry" where
  "buildOffer account op flags =
     \<lparr>of_sellerID = account, of_offerID = mo_offerID op, of_selling = mo_selling op, of_buying = mo_buying op,
      of_amount = mo_amount op, of_price = mo_price op, of_flags = flags\<rparr>"

text \<open>\<^const>\<open>None\<close> is \<^verbatim>\<open>return true\<close>.\<close>

definition checkOfferValid :: "ledger \<Rightarrow> AccountID \<Rightarrow> ManageOfferOp \<Rightarrow> cpp_error + ManageOfferResult option" where
  "checkOfferValid l src op =
     (let sheep = mo_selling op; wheat = mo_buying op in
      if mo_amount op = 0 then Inr None
      else
        bindE (if sheep = ASSET_TYPE_NATIVE then Inr None
               else
                 bindE (loadTrustLine l src sheep) (\<lambda>sheepLineA.
                 bindE (getIssuer sheep) (\<lambda>issuer.
                 if loadAccount l issuer = None then Inr (Some MANAGE_OFFER_SELL_NO_ISSUER)
                 else if \<not> tlw_bool sheepLineA then Inr (Some MANAGE_OFFER_SELL_NO_TRUST)
                 else bindE (tlw_getBalance sheepLineA) (\<lambda>balance.
                 if balance = 0 then Inr (Some MANAGE_OFFER_UNDERFUNDED)
                 else bindE (tlw_isAuthorized sheepLineA) (\<lambda>auth.
                 Inr (if auth then None else Some MANAGE_OFFER_SELL_NOT_AUTHORIZED)))))) (\<lambda>sheepError.
        case sheepError of Some code \<Rightarrow> Inr (Some code)
        | None \<Rightarrow>
            if wheat = ASSET_TYPE_NATIVE then Inr None
            else
              bindE (loadTrustLine l src wheat) (\<lambda>wheatLineA.
              bindE (getIssuer wheat) (\<lambda>issuer.
              if loadAccount l issuer = None then Inr (Some MANAGE_OFFER_BUY_NO_ISSUER)
              else if \<not> tlw_bool wheatLineA then Inr (Some MANAGE_OFFER_BUY_NO_TRUST)
              else bindE (tlw_isAuthorized wheatLineA) (\<lambda>auth.
              Inr (if auth then None else Some MANAGE_OFFER_BUY_NOT_AUTHORIZED))))))"

text \<open>The limits of the exchange, computed in a transaction that is rolled back: the code to fail with,
  or \<open>maxSheepSend\<close> and \<open>maxWheatReceive\<close>.\<close>

definition computeOfferExchangeParameters ::
    "ledger \<Rightarrow> AccountID \<Rightarrow> OfferEntry \<Rightarrow> bool \<Rightarrow> cpp_error + (ManageOfferResult + (int \<times> int))" where
  "computeOfferExchangeParameters l src offer creatingNewOffer =
     (let sheep = of_selling offer; wheat = of_buying offer; h = lg_header l; v = lh_ledgerVersion h in
      bindE (loadSourceAccount l src) (\<lambda>sourceAccount.
      bindE (if creatingNewOffer \<and> (v \<ge> 10 \<or> (sheep = ASSET_TYPE_NATIVE \<and> v > 8))
             then addNumEntries h sourceAccount 1 else Inr (Some sourceAccount)) (\<lambda>r. case r of
        None \<Rightarrow> Inr (Inl MANAGE_OFFER_LOW_RESERVE)
      | Some sourceAccount' \<Rightarrow>
          let l1 = putAccount l sourceAccount' in
          bindE (loadHolder l1 src sheep) (\<lambda>sheepHolder.
          bindE (loadHolder l1 src wheat) (\<lambda>wheatHolder.
          bindE (canBuyAtMost h wheatHolder) (\<lambda>maxWheatReceive.
          if v \<ge> 10 then
            bindE (holder_getMaxAmountReceive h wheatHolder) (\<lambda>availableLimit.
            bindE (getOfferBuyingLiabilities h offer) (\<lambda>buyingLiab.
            if availableLimit < buyingLiab then Inr (Inl MANAGE_OFFER_LINE_FULL)
            else
              bindE (holder_getAvailableBalance h sheepHolder) (\<lambda>availableBalance.
              bindE (getOfferSellingLiabilities h offer) (\<lambda>sellingLiab.
              if availableBalance < sellingLiab then Inr (Inl MANAGE_OFFER_UNDERFUNDED)
              else
                bindE (canSellAtMost h sheepHolder) (\<lambda>maxSheepSend.
                Inr (Inr (min (of_amount offer) maxSheepSend, maxWheatReceive)))))))
          else
            bindE (canSellAtMost h sheepHolder) (\<lambda>maxSheepCanSell.
            bindE (bigDivide_i64 maxWheatReceive (price_d (of_price offer)) (price_n (of_price offer)) ROUND_DOWN)
              (\<lambda>q. let maxSheepBasedOnWheat = (case q of None \<Rightarrow> INT64_MAX | Some x \<Rightarrow> x) in
            Inr (Inr (min (of_amount offer) (min maxSheepCanSell maxSheepBasedOnWheat), maxWheatReceive))))))))))"

text \<open>
  The callback that \<^verbatim>\<open>convertWithOffers\<close> asks about each offer. Its third outcome, the failing
  assertion, and its side effect, the code \<^verbatim>\<open>MANAGE_OFFER_CROSS_SELF\<close>, are recovered after the
  call from the offer at which it stopped, which is still the best one of the ledger it left.
\<close>

datatype offer_verdict = Keep | StopAtPrice | StopAtSelf | StopAssert

definition offerVerdict :: "AccountID \<Rightarrow> bool \<Rightarrow> OfferEntry \<Rightarrow> OfferEntry \<Rightarrow> offer_verdict" where
  "offerVerdict src passive newOffer oe =
     (let maxWheatPrice = \<lparr>price_n = price_d (of_price newOffer), price_d = price_n (of_price newOffer)\<rparr> in
      if of_offerID oe = of_offerID newOffer then StopAssert
      else if (passive \<and> Price_ge (of_price oe) maxWheatPrice) \<or> Price_gt (of_price oe) maxWheatPrice
      then StopAtPrice
      else if of_sellerID oe = src then StopAtSelf
      else Keep)"

definition offerFilter :: "AccountID \<Rightarrow> bool \<Rightarrow> OfferEntry \<Rightarrow> OfferEntry \<Rightarrow> OfferFilterResult" where
  "offerFilter src passive newOffer oe =
     (if offerVerdict src passive newOffer oe = Keep then eKeep else eStop)"

text \<open>What the switch on the \<^verbatim>\<open>ConvertResult\<close> decides: to fail with a code, or whether the sheep
  stay.\<close>

definition sheepStaysAfter ::
    "AccountID \<Rightarrow> bool \<Rightarrow> OfferEntry \<Rightarrow> conversion \<Rightarrow> cpp_error + (ManageOfferResult + bool)" where
  "sheepStaysAfter src passive newOffer c = (case cv_result c of
       eOK \<Rightarrow> Inr (Inr False)
     | ePartial \<Rightarrow> Inr (Inr True)
     | eFilterStop \<Rightarrow>
         (case loadBestOffer (cv_ledger c) (of_selling newOffer) (of_buying newOffer) of
            None \<Rightarrow> Inr (Inr True)
          | Some oe \<Rightarrow>
              (case offerVerdict src passive newOffer oe of
                 StopAssert \<Rightarrow> Inl AssertionFailed
               | StopAtSelf \<Rightarrow> Inr (Inl MANAGE_OFFER_CROSS_SELF)
               | _ \<Rightarrow> Inr (Inr True))))"

text \<open>After the exchange: the source's balances are updated, and the amount left in the offer.\<close>

definition settleExchange ::
    "AccountID \<Rightarrow> OfferEntry \<Rightarrow> conversion \<Rightarrow> cpp_error + ledger" where
  "settleExchange src offer c =
     (if cv_wheatReceived c > 0 then
        bindE (addToHoldingOrThrow (cv_ledger c) src (of_buying offer) (cv_wheatReceived c)
                 ''offer claimed over limit'') (\<lambda>l1.
        addToHoldingOrThrow l1 src (of_selling offer) (- cv_sheepSend c) ''offer sold more than balance'')
      else Inr (cv_ledger c))"

definition remainingAmount ::
    "ledger \<Rightarrow> AccountID \<Rightarrow> OfferEntry \<Rightarrow> bool \<Rightarrow> int \<Rightarrow> cpp_error + int" where
  "remainingAmount l src offer sheepStays amount =
     (let h = lg_header l in
      if lh_ledgerVersion h \<ge> 10 then
        if sheepStays then
          bindE (loadHolder l src (of_selling offer)) (\<lambda>sheepHolder.
          bindE (loadHolder l src (of_buying offer)) (\<lambda>wheatHolder.
          bindE (canSellAtMost h sheepHolder) (\<lambda>cs.
          bindE (canBuyAtMost h wheatHolder) (\<lambda>wheatReceiveLimit.
          adjustOffer (of_price offer) (min amount cs) wheatReceiveLimit))))
        else Inr 0
      else Inr amount)"

definition exchangeForOffer ::
    "ledger \<Rightarrow> AccountID \<Rightarrow> bool \<Rightarrow> OfferEntry \<Rightarrow> bool
       \<Rightarrow> cpp_error + (ManageOfferResult + (ledger \<times> OfferEntry \<times> ClaimOfferAtom list))" where
  "exchangeForOffer l src passive newOffer creatingNewOffer =
     bindE (computeOfferExchangeParameters l src newOffer creatingNewOffer) (\<lambda>limits. case limits of
       Inl code \<Rightarrow> Inr (Inl code)
     | Inr (maxSheepSend, maxWheatReceive) \<Rightarrow>
         if maxWheatReceive = 0 then Inr (Inl MANAGE_OFFER_LINE_FULL)
         else
           bindE (convert l (of_selling newOffer) maxSheepSend (of_buying newOffer) maxWheatReceive False
                    (offerFilter src passive newOffer)) (\<lambda>c.
           bindE (sheepStaysAfter src passive newOffer c) (\<lambda>s. case s of
             Inl code \<Rightarrow> Inr (Inl code)
           | Inr sheepStays \<Rightarrow>
               bindE (settleExchange src newOffer c) (\<lambda>l1.
               bindE (remainingAmount l1 src newOffer sheepStays (maxSheepSend - cv_sheepSend c)) (\<lambda>amount.
               Inr (Inr (l1, newOffer\<lparr>of_amount := amount\<rparr>, cv_trail c)))))))"

definition leaveOffer ::
    "ledger \<Rightarrow> AccountID \<Rightarrow> OfferEntry \<Rightarrow> bool \<Rightarrow> ClaimOfferAtom list \<Rightarrow> cpp_error + (ManageOfferResult + (ManageOfferResult \<times> ledger))" where
  "leaveOffer l src newOffer creatingNewOffer claimed =
     (let h = lg_header l in
      if of_amount newOffer > 0 then
        bindE (if creatingNewOffer then
                 bindE (loadSourceAccount l src) (\<lambda>sourceAccount.
                 bindE (addNumEntries h sourceAccount 1) (\<lambda>r.
                 Inr (case r of None \<Rightarrow> None
                      | Some a \<Rightarrow>
                          let (newID, h') = generateID h in
                          Some (setHeader (putAccount l a) h', newOffer\<lparr>of_offerID := newID\<rparr>))))
               else Inr (Some (l, newOffer))) (\<lambda>r. case r of
          None \<Rightarrow> Inr (Inl MANAGE_OFFER_LOW_RESERVE)
        | Some (l1, offer) \<Rightarrow>
            bindE (create l1 (OFFER offer)) (\<lambda>l2.
            bindE (if lh_ledgerVersion h \<ge> 10 then acquireLiabilities l2 offer else Inr l2) (\<lambda>l3.
            Inr (Inr (MANAGE_OFFER_SUCCESS claimed
                        (if creatingNewOffer then MANAGE_OFFER_CREATED offer else MANAGE_OFFER_UPDATED offer), l3)))))
      else
        bindE (if creatingNewOffer then Inr l
               else bindE (loadSourceAccount l src) (\<lambda>sourceAccount.
                    bindE (dropNumEntry h sourceAccount) (\<lambda>a. Inr (putAccount l a)))) (\<lambda>l1.
        Inr (Inr (MANAGE_OFFER_SUCCESS claimed MANAGE_OFFER_DELETED, l1))))"

text \<open>Taking the old offer out, or starting a new one: the ledger, the offer to place, whether it is
  new and whether it is passive.\<close>

definition takeOldOffer ::
    "ledger \<Rightarrow> AccountID \<Rightarrow> bool \<Rightarrow> ManageOfferOp \<Rightarrow> cpp_error + (ledger \<times> OfferEntry \<times> bool \<times> bool) option" where
  "takeOldOffer l src passive op =
     (if mo_offerID op \<noteq> 0 then
        (case loadOffer l src (mo_offerID op) of
           None \<Rightarrow> Inr None
         | Some old \<Rightarrow>
             bindE (if lh_ledgerVersion (lg_header l) \<ge> 10 then releaseLiabilities l old else Inr l) (\<lambda>l1.
             bindE (erase l1 (OfferKey src (mo_offerID op))) (\<lambda>l2.
             Inr (Some (l2, buildOffer src op (of_flags old), False, of_flags old AND PASSIVE_FLAG \<noteq> 0)))))
      else Inr (Some (l, buildOffer src op (if passive then PASSIVE_FLAG else 0), True, passive)))"

definition ManageOffer_run ::
    "ledger \<Rightarrow> AccountID \<Rightarrow> bool \<Rightarrow> ManageOfferOp \<Rightarrow> cpp_error + (ManageOfferResult + (ManageOfferResult \<times> ledger))" where
  "ManageOffer_run l src passive op =
     bindE (checkOfferValid l src op) (\<lambda>invalid. case invalid of
       Some code \<Rightarrow> Inr (Inl code)
     | None \<Rightarrow>
         bindE (takeOldOffer l src passive op) (\<lambda>t. case t of
           None \<Rightarrow> Inr (Inl MANAGE_OFFER_NOT_FOUND)
         | Some (l1, newOffer, creatingNewOffer, isPassive) \<Rightarrow>
             if mo_amount op > 0 then
               bindE (exchangeForOffer l1 src isPassive newOffer creatingNewOffer) (\<lambda>x. case x of
                 Inl code \<Rightarrow> Inr (Inl code)
               | Inr (l2, offer, claimed) \<Rightarrow> leaveOffer l2 src offer creatingNewOffer claimed)
             else leaveOffer l1 src newOffer creatingNewOffer []))"

definition ManageOffer_doApply :: "ledger \<Rightarrow> AccountID \<Rightarrow> bool \<Rightarrow> ManageOfferOp \<Rightarrow> ManageOfferResult applied" where
  "ManageOffer_doApply l src passive op =
     bindE (ManageOffer_run l src passive op) (\<lambda>r.
     Inr (case r of Inl code \<Rightarrow> (False, code, l) | Inr (res, l') \<Rightarrow> (True, res, l')))"

text \<open>\<^verbatim>\<open>ManageOfferOpHolder\<close>: a passive offer is a managed offer with no identifier.\<close>

definition CreatePassiveOffer_asManage :: "CreatePassiveOfferOp \<Rightarrow> ManageOfferOp" where
  "CreatePassiveOffer_asManage op =
     \<lparr>mo_selling = cp_selling op, mo_buying = cp_buying op, mo_amount = cp_amount op,
      mo_price = cp_price op, mo_offerID = 0\<rparr>"

end
