(* ===== verification/Operations.thy ===== *)
theory Operations
  imports Settings_Ops Offer_Ops
begin

section \<open>The operation frame (src/src/transactions/OperationFrame.cpp)\<close>

text \<open>
  What every operation has in common: the virtual functions by the type of its body, the check of
  its signatures and of its well-formedness, and its application. A checker is threaded through,
  because checking a signature may record a one-time signer.
\<close>

record Transaction =
  tx_sourceAccount :: AccountID
  tx_fee :: int
  tx_seqNum :: int
  tx_timeBounds :: "(int \<times> int) option"
  tx_operations :: "Operation list"

subsection \<open>The virtual functions\<close>

definition getSourceID :: "Transaction \<Rightarrow> Operation \<Rightarrow> AccountID" where
  "getSourceID tx op = (case op_sourceAccount op of Some a \<Rightarrow> a | None \<Rightarrow> tx_sourceAccount tx)"

definition getThresholdLevel :: "OperationBody \<Rightarrow> ThresholdLevel" where
  "getThresholdLevel body = (case body of
       SET_OPTIONS op \<Rightarrow>
         (if so_masterWeight op \<noteq> None \<or> so_lowThreshold op \<noteq> None \<or> so_medThreshold op \<noteq> None
             \<or> so_highThreshold op \<noteq> None \<or> so_signer op \<noteq> None then HIGH else MEDIUM)
     | ALLOW_TRUST _ \<Rightarrow> LOW
     | INFLATION \<Rightarrow> LOW
     | BUMP_SEQUENCE _ \<Rightarrow> LOW
     | ACCOUNT_MERGE _ \<Rightarrow> HIGH
     | MARK_ACCOUNT _ \<Rightarrow> HIGH
     | _ \<Rightarrow> MEDIUM)"

definition isVersionSupported :: "OperationBody \<Rightarrow> int \<Rightarrow> bool" where
  "isVersionSupported body protocolVersion = (case body of
       BUMP_SEQUENCE _ \<Rightarrow> protocolVersion \<ge> 10
     | MARK_ACCOUNT _ \<Rightarrow> protocolVersion \<ge> 10
     | _ \<Rightarrow> True)"

definition defaultOffer :: OfferEntry where
  "defaultOffer = \<lparr>of_sellerID = 0, of_offerID = 0, of_selling = ASSET_TYPE_NATIVE,
     of_buying = ASSET_TYPE_NATIVE, of_amount = 0, of_price = \<lparr>price_n = 0, price_d = 0\<rparr>, of_flags = 0\<rparr>"

text \<open>The inner result after \<^verbatim>\<open>mResult.tr().type(...)\<close>: the default arm, whose code is 0.\<close>

definition defaultResult :: "OperationBody \<Rightarrow> OperationResultTr" where
  "defaultResult body = (case body of
       CREATE_ACCOUNT _ \<Rightarrow> createAccountResult CREATE_ACCOUNT_SUCCESS
     | PAYMENT _ \<Rightarrow> paymentResult PAYMENT_SUCCESS
     | PATH_PAYMENT _ \<Rightarrow> pathPaymentResult (PATH_PAYMENT_SUCCESS [] None)
     | MANAGE_OFFER _ \<Rightarrow> manageOfferResult (MANAGE_OFFER_SUCCESS [] (MANAGE_OFFER_CREATED defaultOffer))
     | CREATE_PASSIVE_OFFER _ \<Rightarrow>
         createPassiveOfferResult (MANAGE_OFFER_SUCCESS [] (MANAGE_OFFER_CREATED defaultOffer))
     | SET_OPTIONS _ \<Rightarrow> setOptionsResult SET_OPTIONS_SUCCESS
     | CHANGE_TRUST _ \<Rightarrow> changeTrustResult CHANGE_TRUST_SUCCESS
     | ALLOW_TRUST _ \<Rightarrow> allowTrustResult ALLOW_TRUST_SUCCESS
     | ACCOUNT_MERGE _ \<Rightarrow> accountMergeResult (ACCOUNT_MERGE_SUCCESS 0)
     | INFLATION \<Rightarrow> inflationResult (INFLATION_SUCCESS [])
     | MANAGE_DATA _ \<Rightarrow> manageDataResult MANAGE_DATA_SUCCESS
     | BUMP_SEQUENCE _ \<Rightarrow> bumpSeqResult BUMP_SEQUENCE_SUCCESS
     | MARK_ACCOUNT _ \<Rightarrow> markAccountResult MARK_ACCOUNT_SUCCESS)"

text \<open>\<^const>\<open>None\<close> is \<^verbatim>\<open>return true\<close>.\<close>

definition doCheckValid :: "BitcoinNode \<Rightarrow> AccountID \<Rightarrow> OperationBody \<Rightarrow> int \<Rightarrow> OperationResultTr option" where
  "doCheckValid node src body v = (case body of
       CREATE_ACCOUNT op \<Rightarrow> map_option createAccountResult (CreateAccount_doCheckValid src op)
     | PAYMENT op \<Rightarrow> map_option paymentResult (Payment_doCheckValid op)
     | PATH_PAYMENT op \<Rightarrow> map_option pathPaymentResult (PathPayment_doCheckValid op)
     | MANAGE_OFFER op \<Rightarrow> map_option manageOfferResult (ManageOffer_doCheckValid op v)
     | CREATE_PASSIVE_OFFER op \<Rightarrow>
         map_option createPassiveOfferResult (ManageOffer_doCheckValid (CreatePassiveOffer_asManage op) v)
     | SET_OPTIONS op \<Rightarrow> map_option setOptionsResult (SetOptions_doCheckValid src op v)
     | CHANGE_TRUST op \<Rightarrow> map_option changeTrustResult (ChangeTrust_doCheckValid op v)
     | ALLOW_TRUST op \<Rightarrow> map_option allowTrustResult (AllowTrust_doCheckValid src op)
     | ACCOUNT_MERGE dest \<Rightarrow> map_option accountMergeResult (Merge_doCheckValid src dest)
     | INFLATION \<Rightarrow> None
     | MANAGE_DATA op \<Rightarrow> map_option manageDataResult (ManageData_doCheckValid op v)
     | BUMP_SEQUENCE bumpTo \<Rightarrow> map_option bumpSeqResult (BumpSequence_doCheckValid bumpTo)
     | MARK_ACCOUNT marker \<Rightarrow> map_option markAccountResult (MarkAccount_doCheckValid node marker))"

definition mapResult :: "('r \<Rightarrow> 's) \<Rightarrow> 'r applied \<Rightarrow> 's applied" where
  "mapResult f m = bindE m (\<lambda>(ok, r, l). Inr (ok, f r, l))"

definition doApply :: "BitcoinNode \<Rightarrow> ledger \<Rightarrow> AccountID \<Rightarrow> OperationBody \<Rightarrow> OperationResultTr applied" where
  "doApply node l src body = (case body of
       CREATE_ACCOUNT op \<Rightarrow> mapResult createAccountResult (CreateAccount_doApply l src op)
     | PAYMENT op \<Rightarrow> mapResult paymentResult (Payment_doApply l src op)
     | PATH_PAYMENT op \<Rightarrow> mapResult pathPaymentResult (PathPayment_doApply l src op)
     | MANAGE_OFFER op \<Rightarrow> mapResult manageOfferResult (ManageOffer_doApply l src False op)
     | CREATE_PASSIVE_OFFER op \<Rightarrow>
         mapResult createPassiveOfferResult (ManageOffer_doApply l src True (CreatePassiveOffer_asManage op))
     | SET_OPTIONS op \<Rightarrow> mapResult setOptionsResult (SetOptions_doApply l src op)
     | CHANGE_TRUST op \<Rightarrow> mapResult changeTrustResult (ChangeTrust_doApply l src op)
     | ALLOW_TRUST op \<Rightarrow> mapResult allowTrustResult (AllowTrust_doApply l src op)
     | ACCOUNT_MERGE dest \<Rightarrow> mapResult accountMergeResult (Merge_doApply l src dest)
     | INFLATION \<Rightarrow> mapResult inflationResult (Inflation_doApply l)
     | MANAGE_DATA op \<Rightarrow> mapResult manageDataResult (ManageData_doApply l src op)
     | BUMP_SEQUENCE bumpTo \<Rightarrow> mapResult bumpSeqResult (BumpSequence_doApply l src bumpTo)
     | MARK_ACCOUNT marker \<Rightarrow> mapResult markAccountResult (MarkAccount_doApply node l marker))"

subsection \<open>Signatures of an operation\<close>

definition getNeededThreshold :: "AccountEntry \<Rightarrow> ThresholdLevel \<Rightarrow> int" where
  "getNeededThreshold acc level = (case level of
       LOW \<Rightarrow> th_low (ac_thresholds acc)
     | MEDIUM \<Rightarrow> th_med (ac_thresholds acc)
     | HIGH \<Rightarrow> th_high (ac_thresholds acc))"

definition checkSignature_account ::
    "SignatureChecker \<Rightarrow> AccountEntry \<Rightarrow> int \<Rightarrow> bool \<times> SignatureChecker" where
  "checkSignature_account sc acc neededWeight =
     (let signers = (if th_master (ac_thresholds acc) \<noteq> 0
                     then [\<lparr>sg_key = SIGNER_KEY_TYPE_ED25519 (ac_accountID acc),
                            sg_weight = th_master (ac_thresholds acc)\<rparr>]
                     else []) @ ac_signers acc in
      checkSignature sc (ac_accountID acc) signers neededWeight)"

definition checkSignatureNoAccount :: "SignatureChecker \<Rightarrow> AccountID \<Rightarrow> bool \<times> SignatureChecker" where
  "checkSignatureNoAccount sc accountID =
     checkSignature sc accountID [\<lparr>sg_key = SIGNER_KEY_TYPE_ED25519 accountID, sg_weight = 1\<rparr>] 0"

text \<open>The result code it sets when it returns false, and the checker.\<close>

definition Operation_checkSignature ::
    "SignatureChecker \<Rightarrow> ledger \<Rightarrow> Transaction \<Rightarrow> Operation \<Rightarrow> bool \<Rightarrow> OperationResult option \<times> SignatureChecker" where
  "Operation_checkSignature sc l tx op forApply =
     (case loadAccount l (getSourceID tx op) of
        Some sourceAccount \<Rightarrow>
          let (ok, sc') = checkSignature_account sc sourceAccount
                            (getNeededThreshold sourceAccount (getThresholdLevel (op_body op))) in
          (if ok then None else Some opBAD_AUTH, sc')
      | None \<Rightarrow>
          (case op_sourceAccount op of
             None \<Rightarrow> (Some opNO_ACCOUNT, sc)
           | Some a \<Rightarrow>
               if forApply then (Some opNO_ACCOUNT, sc)
               else let (ok, sc') = checkSignatureNoAccount sc a in
                    (if ok then None else Some opBAD_AUTH, sc')))"

subsection \<open>Validity and application\<close>

text \<open>
  The returned flag, the result and the checker. \<open>res\<close> is the result so far: an unsupported version
  is written into it and the function goes on, because its \<^verbatim>\<open>return false\<close> is commented out.
\<close>

definition Operation_checkValid ::
    "BitcoinNode \<Rightarrow> SignatureChecker \<Rightarrow> ledger \<Rightarrow> Transaction \<Rightarrow> Operation \<Rightarrow> OperationResult \<Rightarrow> bool
       \<Rightarrow> bool \<times> OperationResult \<times> SignatureChecker" where
  "Operation_checkValid node sc l tx op res forApply =
     (let ledgerVersion = lh_ledgerVersion (lg_header l);
          res1 = (if isVersionSupported (op_body op) ledgerVersion then res else opNOT_SUPPORTED);
          (failure, sc') =
            (if \<not> forApply \<or> ledgerVersion < 10 then Operation_checkSignature sc l tx op forApply
             else (if loadAccount l (getSourceID tx op) = None then Some opNO_ACCOUNT else None, sc)) in
      case failure of
        Some code \<Rightarrow> (False, code, sc')
      | None \<Rightarrow>
          (case doCheckValid node (getSourceID tx op) (op_body op) ledgerVersion of
             Some code \<Rightarrow> (False, opINNER code, sc')
           | None \<Rightarrow> (True, opINNER (defaultResult (op_body op)), sc')))"

definition Operation_apply ::
    "BitcoinNode \<Rightarrow> SignatureChecker \<Rightarrow> ledger \<Rightarrow> Transaction \<Rightarrow> Operation \<Rightarrow> OperationResult
       \<Rightarrow> cpp_error + (bool \<times> OperationResult \<times> ledger \<times> SignatureChecker)" where
  "Operation_apply node sc l tx op res =
     (let (valid, res1, sc1) = Operation_checkValid node sc l tx op res True in
      if valid then
        bindE (doApply node l (getSourceID tx op) (op_body op)) (\<lambda>(ok, tr, l').
        Inr (ok, opINNER tr, l', sc1))
      else Inr (False, res1, l, sc1))"

end
