(* ===== verification/Conservation.thy ===== *)
theory Conservation
  imports Crossing_Lumens Operations
begin

section \<open>Operations conserve lumens and keep the ledger well formed\<close>

text \<open>
  The coins that exist are the total of the header; they are in accounts or in the fee pool. The
  difference, \<open>surplus\<close>, is what no operation changes, and neither does one change the sequence number
  of the ledger. Each operation that succeeds leaves a
  well-formed ledger of the same surplus, for operands in the range of their XDR types. Protocol 10
  and later, which a well-formed header implies.
\<close>

definition surplus :: "ledger \<Rightarrow> int" where
  "surplus l = lh_totalCoins (lg_header l) - lh_feePool (lg_header l) - native_total l"

definition conserves :: "ledger \<Rightarrow> ledger \<Rightarrow> bool" where
  "conserves l l' \<longleftrightarrow> ledger_ok l' \<and> surplus l' = surplus l
     \<and> lh_ledgerSeq (lg_header l') = lh_ledgerSeq (lg_header l)"

lemma conserves_refl: "ledger_ok l \<Longrightarrow> conserves l l"
  by (simp add: conserves_def)

lemma conserves_trans: "\<lbrakk>conserves l l1; conserves l1 l2\<rbrakk> \<Longrightarrow> conserves l l2"
  by (simp add: conserves_def)

lemma conserves_ok: "conserves l l' \<Longrightarrow> ledger_ok l'"
  by (simp add: conserves_def)

lemma conserves_moves: "moves l 0 l' \<Longrightarrow> conserves l l'"
  by (simp add: moves_def conserves_def surplus_def)

lemma moves_sum0: "\<lbrakk>moves l d l1; moves l1 e l2; d + e = 0\<rbrakk> \<Longrightarrow> moves l 0 l2"
  using moves_trans [of l d l1 e l2] by simp

text \<open>The operands are within their XDR types.\<close>

definition op_typed :: "OperationBody \<Rightarrow> bool" where
  "op_typed body = (case body of
       CREATE_ACCOUNT op \<Rightarrow> ca_startingBalance op \<le> INT64_MAX
     | PAYMENT op \<Rightarrow> py_amount op \<le> INT64_MAX
     | PATH_PAYMENT op \<Rightarrow> pp_destAmount op \<le> INT64_MAX \<and> pp_sendMax op \<le> INT64_MAX
     | MANAGE_OFFER op \<Rightarrow> mo_amount op \<le> INT64_MAX \<and> price_n (mo_price op) \<le> INT32_MAX
         \<and> price_d (mo_price op) \<le> INT32_MAX
     | CREATE_PASSIVE_OFFER op \<Rightarrow> cp_amount op \<le> INT64_MAX \<and> price_n (cp_price op) \<le> INT32_MAX
         \<and> price_d (cp_price op) \<le> INT32_MAX
     | CHANGE_TRUST op \<Rightarrow> ct_limit op \<le> INT64_MAX
     | _ \<Rightarrow> True)"

subsection \<open>Writing an account back\<close>

definition same_money :: "AccountEntry \<Rightarrow> AccountEntry \<Rightarrow> bool" where
  "same_money a a' \<longleftrightarrow> account_ok a' \<and> ac_accountID a' = ac_accountID a \<and> ac_balance a' = ac_balance a"

lemma same_moneyI:
  "\<lbrakk>account_ok a; ac_accountID a' = ac_accountID a; ac_balance a' = ac_balance a; ac_ext a' = ac_ext a;
    ac_numSubEntries a' = ac_numSubEntries a\<rbrakk> \<Longrightarrow> same_money a a'"
  by (simp add: same_money_def account_ok_def)

lemma same_money_refl: "account_ok a \<Longrightarrow> same_money a a"
  by (simp add: same_money_def)

lemma same_money_trans: "\<lbrakk>same_money a b; same_money b c\<rbrakk> \<Longrightarrow> same_money a c"
  by (simp add: same_money_def)

lemma same_money_ok: "same_money a b \<Longrightarrow> account_ok b"
  by (simp add: same_money_def)

lemma moves_same_money:
  assumes "ledger_ok l" "loadAccount l i = Some a" "same_money a a'"
  shows "moves l 0 (putAccount l a')"
  using moves_putAccount [OF assms(1,2), of a'] assms(3) loadAccount_load [OF assms(1,2)]
  by (simp add: same_money_def)

lemma addNumEntries_same: "\<lbrakk>account_ok a; addNumEntries h a n = Inr (Some a')\<rbrakk> \<Longrightarrow> same_money a a'"
  using addNumEntries_account by (simp add: same_money_def)

lemma dropNumEntry_same: "\<lbrakk>account_ok a; dropNumEntry h a = Inr a'\<rbrakk> \<Longrightarrow> same_money a a'"
  using dropNumEntry_account by (simp add: same_money_def)

lemma held_not_account:
  assumes "ledger_ok l" "\<And>i. k \<noteq> AccountKey i"
  shows "held l k = 0"
proof (cases "load l k")
  case (Some e)
  have "LedgerEntryDataKey e = k" using ledger_ok_load [OF assms(1) Some] by simp
  then show ?thesis using Some assms(2) by (cases e) auto
qed simp

text \<open>Erasing an entry that is no account, then taking one off the sub-entries of an account.\<close>

lemma moves_erase_entry:
  "\<lbrakk>ledger_ok l; erase l k = Inr l'; \<And>i. k \<noteq> AccountKey i\<rbrakk> \<Longrightarrow> moves l 0 l'"
  using moves_erase [of l k l'] held_not_account [of l k] by simp

lemma moves_erase_drop:
  assumes "ledger_ok l" "erase l k = Inr l1" "\<And>i. k \<noteq> AccountKey i"
    and "loadAccount l1 i = Some a" "dropNumEntry h a = Inr a'"
  shows "moves l 0 (putAccount l1 a')"
proof -
  have m: "moves l 0 l1" by (rule moves_erase_entry [OF assms(1-3)])
  have "same_money a a'"
    using dropNumEntry_same [OF _ assms(5)] loadAccount_load [OF movesD(1) [OF m] assms(4)] by blast
  from moves_trans [OF m moves_same_money [OF movesD(1) [OF m] assms(4) this]] show ?thesis by simp
qed

text \<open>Adding one to the sub-entries, then creating an entry that is no account.\<close>

lemma moves_add_create:
  assumes "ledger_ok l" "loadAccount l i = Some a" "addNumEntries h a 1 = Inr (Some a')"
    and "entry_ok e" "balance_of e = 0" "create (putAccount l a') e = Inr l'"
  shows "moves l 0 l'"
proof -
  have "same_money a a'"
    using addNumEntries_same [OF _ assms(3)] loadAccount_load [OF assms(1,2)] by blast
  note m = moves_same_money [OF assms(1,2) this]
  from moves_trans [OF m moves_create [OF movesD(1) [OF m] assms(4,6)]] assms(5) show ?thesis by simp
qed

subsection \<open>Operations on accounts\<close>

lemma BumpSequence_conserves:
  assumes "ledger_ok l" "BumpSequence_doApply l src b = Inr (True, r, l')"
  shows "conserves l l'"
proof -
  from assms(2) obtain a where a: "loadAccount l src = Some a"
    "l' = (if b > ac_seqNum a then putAccount l (a\<lparr>ac_seqNum := b\<rparr>) else l)"
    by (auto simp: BumpSequence_doApply_def)
  have "same_money a (a\<lparr>ac_seqNum := b\<rparr>)"
    using loadAccount_load [OF assms(1) a(1)] by (intro same_moneyI) auto
  with a moves_same_money [OF assms(1) a(1)] moves_refl [OF assms(1)] show ?thesis
    by (auto intro: conserves_moves)
qed

lemma ManageData_conserves:
  assumes l: "ledger_ok l" and r: "ManageData_doApply l src op = Inr (True, r, l')"
  shows "conserves l l'"
proof (cases "md_dataValue op")
  case None
  with r obtain l1 a a' where "erase l (DataKey src (md_dataName op)) = Inr l1"
    "loadAccount l1 src = Some a" "dropNumEntry (lg_header l) a = Inr a'" "l' = putAccount l1 a'"
    by (auto simp: ManageData_doApply_def Let_def split: if_split_asm option.split_asm)
  then show ?thesis using moves_erase_drop [OF l] by (intro conserves_moves) blast
next
  case (Some v)
  show ?thesis
  proof (cases "loadData l src (md_dataName op)")
    case None
    with Some r obtain a a' where "loadAccount l src = Some a"
      "addNumEntries (lg_header l) a 1 = Inr (Some a')"
      "create (putAccount l a') (DATA \<lparr>de_accountID = src, de_dataName = md_dataName op, de_dataValue = v\<rparr>) = Inr l'"
      by (auto simp: ManageData_doApply_def Let_def split: if_split_asm option.split_asm)
    then show ?thesis using moves_add_create [OF l] by (intro conserves_moves) (metis balance_of_simps(4) entry_ok_simps(4))
  next
    case d: (Some d)
    have ld: "load l (DataKey src (md_dataName op)) = Some (DATA d)"
      using d by (auto simp: loadData_def split: option.split_asm LedgerEntryData.split_asm)
    from Some d r have "l' = store l (DATA (d\<lparr>de_dataValue := v\<rparr>))"
      by (auto simp: ManageData_doApply_def Let_def split: if_split_asm)
    with ld ledger_ok_load [OF l ld] show ?thesis
      by (auto intro!: conserves_moves moves_store l)
  qed
qed

lemma CreateAccount_conserves:
  assumes l: "ledger_ok l" and r: "CreateAccount_doApply l src op = Inr (True, r, l')"
    and v: "0 < ca_startingBalance op" "ca_startingBalance op \<le> INT64_MAX"
  shows "conserves l l'"
proof -
  let ?h = "lg_header l" and ?x = "ca_startingBalance op"
  let ?new = "newAccount (ca_destination op) (sint (getStartingSequenceNumber ?h)) ?x"
  from r obtain a a' where a: "loadAccount l src = Some a" "addAccountBalance ?h a (- ?x) = Inr (Some a')"
    "create (putAccount l a') (ACCOUNT ?new) = Inr l'"
    by (auto simp: CreateAccount_doApply_def Let_def split: if_split_asm option.split_asm)
  note acc = loadAccount_load [OF l a(1)]
  note a' = addAccountBalance_account [OF ledger_ok_header [OF l] _ a(2)]
  have m1: "moves l (- ?x) (putAccount l a')"
    using moves_putAccount [OF l a(1), of a'] a' acc by simp
  have "entry_ok (ACCOUNT ?new)" using v by (simp add: newAccount_def account_ok_def ext_buying_def ext_selling_def)
  from moves_create [OF movesD(1) [OF m1] this a(3)]
  have "moves (putAccount l a') ?x l'" by (simp add: newAccount_def)
  from moves_sum0 [OF m1 this] show ?thesis by (simp add: conserves_moves)
qed

lemma ChangeTrust_conserves:
  assumes l: "ledger_ok l" and r: "ChangeTrust_doApply l src op = Inr (True, r, l')"
    and v: "0 \<le> ct_limit op" "ct_limit op \<le> INT64_MAX"
  shows "conserves l l'"
proof -
  let ?h = "lg_header l" and ?k = "TrustLineKey src (ct_line op)"
  have h: "header_ok ?h" using ledger_ok_header [OF l] .
  then have v10: "\<not> lh_ledgerVersion ?h \<le> 2" by (simp add: header_ok_def)
  from r obtain i where i: "getIssuer (ct_line op) = Inr i" "i \<noteq> src"
    using v10 by (auto simp: ChangeTrust_doApply_def Let_def split: if_split_asm)
  show ?thesis
  proof (cases "loadTrustLineEntry l src (ct_line op)")
    case None
    with r i v10 obtain flags a a' where "loadAccount l src = Some a" "addNumEntries ?h a 1 = Inr (Some a')"
      "create (putAccount l a') (TRUSTLINE \<lparr>tl_accountID = src, tl_asset = ct_line op, tl_balance = 0,
         tl_limit = ct_limit op, tl_flags = flags, tl_ext = None\<rparr>) = Inr l'"
      by (auto simp: ChangeTrust_doApply_def Let_def split: if_split_asm option.split_asm)
    then show ?thesis
      by (intro conserves_moves moves_add_create [OF l])
        (use v in \<open>auto simp: trustline_ok_def ext_buying_def ext_selling_def\<close>)
  next
    case (Some t)
    have ld: "load l ?k = Some (TRUSTLINE t)"
      using Some by (auto simp: loadTrustLineEntry_def split: option.split_asm LedgerEntryData.split_asm)
    note ok = ledger_ok_load [OF l ld]
    from Some r i v10 obtain m where m: "getMinimumLimit ?h t = Inr m" "\<not> ct_limit op < m"
      by (auto simp: ChangeTrust_doApply_def Let_def split: if_split_asm)
    then have m': "tl_balance t + ext_buying (tl_ext t) \<le> ct_limit op"
      using h by (auto simp: getMinimumLimit_def split: if_split_asm) (simp add: header_ok_def)
    show ?thesis
    proof (cases "ct_limit op = 0")
      case True
      with Some r i v10 m obtain l1 a a' where "erase l ?k = Inr l1" "loadAccount l1 src = Some a"
        "dropNumEntry ?h a = Inr a'" "l' = putAccount l1 a'"
        by (auto simp: ChangeTrust_doApply_def Let_def split: if_split_asm)
      then show ?thesis using moves_erase_drop [OF l] by (intro conserves_moves) blast
    next
      case False
      with Some r i v10 m have "l' = store l (TRUSTLINE (t\<lparr>tl_limit := ct_limit op\<rparr>))"
        by (auto simp: ChangeTrust_doApply_def Let_def split: if_split_asm)
      with ok m' v(2) ld show ?thesis
        by (auto intro!: conserves_moves moves_store l simp: trustline_ok_def)
    qed
  qed
qed

lemma removeOffers_moves:
  assumes "ledger_ok l" "removeOffers l trustor ci oes = Inr l'"
  shows "moves l 0 l'"
  using assms
proof (induction l trustor ci oes rule: removeOffers.induct)
  case (2 l trustor ci oe oes)
  from 2(3) obtain l1 a a' l2 where s: "releaseLiabilities l oe = Inr l1" "loadAccount l1 trustor = Some a"
    "dropNumEntry (lg_header l) a = Inr a'"
    "erase (putAccount l1 a') (OfferKey (of_sellerID oe) (of_offerID oe)) = Inr l2"
    "removeOffers l2 trustor ci oes = Inr l'"
    and c: "\<not> of_sellerID oe \<noteq> trustor" "\<not> \<not> (of_buying oe = ci \<or> of_selling oe = ci)"
    by (auto split: if_split_asm)
  have m1: "moves l 0 l1" by (rule moves_release [OF 2(2) s(1)])
  have "same_money a a'"
    using dropNumEntry_same [OF _ s(3)] loadAccount_load [OF movesD(1) [OF m1] s(2)] by blast
  note m2 = moves_same_money [OF movesD(1) [OF m1] s(2) this]
  have m3: "moves (putAccount l1 a') 0 l2" by (rule moves_erase_entry [OF movesD(1) [OF m2] s(4)]) simp
  have m4: "moves l2 0 l'"
    by (rule 2(1) [OF c _ _ _ _ movesD(1) [OF m3] s(5)]) (use s in auto)
  have "moves l (0 + 0 + 0 + 0) l'"
    by (intro moves_trans [OF _ m4] moves_trans [OF _ m3] moves_trans [OF m1 m2])
  then show ?case by simp
qed (simp add: moves_refl)

lemma AllowTrust_conserves:
  assumes l: "ledger_ok l" and r: "AllowTrust_doApply l src op = Inr (True, r, l')"
  shows "conserves l l'"
proof -
  let ?t = "at_trustor op" and ?ci = "AllowTrust_asset src op"
  have v10: "\<not> lh_ledgerVersion (lg_header l) \<le> 2" using ledger_ok_header [OF l] by (simp add: header_ok_def)
  have "\<exists>l1 t. (l1 = l \<or> removeOffers l ?t ?ci (loadOffersByAccountAndAsset l ?t ?ci) = Inr l1)
      \<and> loadTrustLineEntry l1 ?t ?ci = Some t \<and> l' = store l1 (TRUSTLINE (setAuthorized t (at_authorize op)))"
    using r v10
    by (simp add: AllowTrust_doApply_def Let_def bindE_def split: if_split_asm option.split_asm sum.split_asm)
      fastforce+
  then obtain l1 t where s: "l1 = l \<or> removeOffers l ?t ?ci (loadOffersByAccountAndAsset l ?t ?ci) = Inr l1"
    and t: "loadTrustLineEntry l1 ?t ?ci = Some t" "l' = store l1 (TRUSTLINE (setAuthorized t (at_authorize op)))"
    by blast
  have m1: "moves l 0 l1" using s removeOffers_moves [OF l] moves_refl [OF l] by blast
  have ld: "load l1 (TrustLineKey ?t ?ci) = Some (TRUSTLINE t)"
    using t(1) by (auto simp: loadTrustLineEntry_def split: option.split_asm LedgerEntryData.split_asm)
  note ok = ledger_ok_load [OF movesD(1) [OF m1] ld]
  have "moves l1 0 l'"
    unfolding t(2) using ok ld
    by (intro moves_store movesD(1) [OF m1]) (auto simp: setAuthorized_def trustline_ok_def)
  from moves_trans [OF m1 this] show ?thesis by (simp add: conserves_moves)
qed

lemma Merge_conserves:
  assumes l: "ledger_ok l" and r: "Merge_doApply l src dest = Inr (True, r, l')" and ne: "src \<noteq> dest"
  shows "conserves l l'"
proof -
  let ?h = "lg_header l"
  from r obtain other a other' where o: "loadAccount l dest = Some other" and a: "loadAccount l src = Some a"
    and add: "addAccountBalance ?h other (ac_balance a) = Inr (Some other')"
    and er: "erase (putAccount l other') (AccountKey src) = Inr l'"
    by (simp add: Merge_doApply_def Let_def bindE_def split: if_split_asm option.split_asm sum.split_asm)
  note lo = loadAccount_load [OF l o] and la = loadAccount_load [OF l a]
  note o' = addAccountBalance_account [OF ledger_ok_header [OF l] _ add]
  have m1: "moves l (ac_balance a) (putAccount l other')"
    using moves_putAccount [OF l o, of other'] o' lo by simp
  have "held (putAccount l other') (AccountKey src) = ac_balance a"
    using la o' lo ne by (simp add: putAccount_def)
  with moves_erase [OF movesD(1) [OF m1] er] have "moves (putAccount l other') (- ac_balance a) l'" by simp
  from moves_sum0 [OF m1 this] show ?thesis by (simp add: conserves_moves)
qed

end
