(* ===== verification/Conservation_Trades.thy ===== *)
theory Conservation_Trades
  imports Conservation
begin

section \<open>Options, inflation, payments and offers conserve lumens\<close>

text \<open>
  The second half of theory \<open>Conservation\<close>: the remaining operations, and the theorem for all of
  them.
\<close>

subsection \<open>Set options and mark account\<close>

lemma eraseSigners_same:
  "\<lbrakk>eraseSigners h k ss a = Inr (ss', a'); account_ok a\<rbrakk> \<Longrightarrow> same_money a a'"
proof (induction h k ss a arbitrary: ss' a' rule: eraseSigners.induct)
  case (2 h k s ss a)
  show ?case
  proof (cases "sg_key s = k")
    case True
    with 2(3) obtain a1 where a1: "dropNumEntry h a = Inr a1" "eraseSigners h k ss a1 = Inr (ss', a')" by auto
    note m = dropNumEntry_same [OF 2(4) a1(1)]
    from same_money_trans [OF m 2(1) [OF True a1 same_money_ok [OF m]]] show ?thesis .
  next
    case False
    with 2(3) obtain ss1 where "eraseSigners h k ss a = Inr (ss1, a')" by auto
    from 2(2) [OF False this 2(4)] show ?thesis .
  qed
qed (simp add: same_money_refl)

lemma same_money_signers [simp]:
  "same_money a (b\<lparr>ac_signers := ss\<rparr>) \<longleftrightarrow> same_money a b"
  "same_money a (normalizeSigners b) \<longleftrightarrow> same_money a b"
  by (simp_all add: same_money_def account_ok_def normalizeSigners_def)

lemma setSigner_same:
  assumes "setSigner h sg a = Inr (c, a')" "account_ok a"
  shows "same_money a a'"
  using assms addNumEntries_same [OF assms(2)] eraseSigners_same [OF _ assms(2)] same_money_refl [OF assms(2)]
  by (auto simp: setSigner_def split: if_split_asm option.split_asm)

lemma same_money_options:
  assumes "account_ok a"
  shows "same_money a (applyInflationDest op a)" "same_money a (applyClearFlags op a)"
    "same_money a (applyDomainThresholds op (applySetFlags op a))"
  using assms
  by (auto simp: same_money_def account_ok_def applyInflationDest_def applyClearFlags_def applySetFlags_def
      applyDomainThresholds_def Let_def split: option.split)

lemma SetOptions_moves:
  assumes l: "ledger_ok l" and r: "SetOptions_doApply l src op = Inr (ok, r, l')"
  shows "moves l 0 l'"
proof -
  from r obtain a where a: "loadAccount l src = Some a" by (auto simp: SetOptions_doApply_def Let_def)
  note ok = conjunct2 [OF conjunct2 [OF loadAccount_load [OF l a]]]
  have put: "same_money a a' \<Longrightarrow> moves l 0 (putAccount l a')" for a' by (rule moves_same_money [OF l a])
  let ?a1 = "applyInflationDest op a"
  let ?a2 = "applyClearFlags op ?a1"
  let ?a5 = "applyDomainThresholds op (applySetFlags op ?a2)"
  have s1: "same_money a ?a1" by (rule same_money_options(1) [OF ok])
  have s2: "same_money a ?a2" using same_money_trans [OF s1] same_money_options(2) [OF same_money_ok [OF s1]] .
  have s5: "same_money a ?a5"
    using same_money_trans [OF s2] same_money_options(3) [OF same_money_ok [OF s2]] .
  have "l' = l \<or> l' = putAccount l ?a1 \<or> l' = putAccount l ?a2 \<or> l' = putAccount l ?a5
      \<or> (\<exists>sg c a6. setSigner (lg_header l) sg ?a5 = Inr (c, a6) \<and> l' = putAccount l a6)"
    using r a
    by (simp add: SetOptions_doApply_def Let_def bindE_def split: if_split_asm option.split_asm sum.split_asm prod.split_asm)
      blast+
  with put s1 s2 s5 same_money_trans [OF s5 setSigner_same [OF _ same_money_ok [OF s5]]] moves_refl [OF l]
  show ?thesis by blast
qed

lemma MarkAccount_moves:
  "\<lbrakk>ledger_ok l; MarkAccount_doApply node l m = Inr (ok, r, l')\<rbrakk> \<Longrightarrow> moves l 0 l'"
  by (auto simp: MarkAccount_doApply_def moves_refl split: if_splits)

subsection \<open>Inflation\<close>

lemma doleLoop_moves:
  assumes "doleLoop A T ws l left pay = Inr (l', left', pay')" "ledger_ok l"
  shows "moves l (left - left') l'"
  using assms
proof (induction A T ws l left pay rule: doleLoop.induct)
  case (2 A T w ws l left pay)
  have v: "lh_ledgerVersion (lg_header l) \<ge> 10" "\<not> lh_ledgerVersion (lg_header l) \<le> 7"
    using ledger_ok_header [OF 2(6)] by (simp_all add: header_ok_def)
  from 2(5) obtain share where share: "bigDivide A (iw_votes w) T ROUND_DOWN = Inr share" by auto
  show ?case
  proof (cases "share = 0")
    case True
    with 2(1) [OF share True] 2(5,6) share show ?thesis by simp
  next
    case False
    show ?thesis
    proof (cases "loadAccount l (iw_accountID w)")
      case None
      with False share v 2(5) have "doleLoop A T ws l left pay = Inr (l', left', pay')" by simp
      then show ?thesis using 2(3) [OF share False, of share] None False v 2(6) by simp
    next
      case (Some a)
      from 2(5) share False Some v obtain m where m: "getMaxAmountReceive (lg_header l) (ACCOUNT a) = Inr m" by auto
      show ?thesis
      proof (cases "min m share = 0")
        case True
        with 2(5) share False Some v m have "doleLoop A T ws l left pay = Inr (l', left', pay')" by simp
        then show ?thesis using 2(2) [OF share False, of 0] Some True m v 2(6) by simp
      next
        case nz: False
        let ?d = "min m share"
        from 2(5) share False Some v m nz obtain a' where
          a': "addAccountBalance (lg_header l) a ?d = Inr (Some a')"
          and go: "doleLoop A T ws (putAccount l a') (left - ?d) (pay @ [(iw_accountID w, ?d)]) = Inr (l', left', pay')"
          by (auto split: option.split_asm)
        note la = loadAccount_load [OF 2(6) Some]
        note b = addAccountBalance_account [OF ledger_ok_header [OF 2(6)] _ a']
        have m1: "moves l ?d (putAccount l a')"
          using moves_putAccount [OF 2(6) Some, of a'] b la by simp
        have "moves (putAccount l a') (left - ?d - left') l'"
          using 2(4) [OF share False, of ?d a l "Some a'" a'] Some m v nz a' go movesD(1) [OF m1] by simp
        from moves_trans [OF m1 this] show ?thesis by simp
      qed
    qed
  qed
qed (simp add: moves_refl)

lemma Inflation_conserves:
  assumes l: "ledger_ok l" and r: "Inflation_doApply l = Inr (True, r, l')"
  shows "conserves l l'"
proof -
  let ?h = "lg_header l"
  have h: "header_ok ?h" using ledger_ok_header [OF l] .
  from r obtain infl ws T l2 left pay where
    dole: "doleLoop (infl + lh_feePool ?h) T ws
        (setHeader l (?h\<lparr>lh_feePool := 0, lh_inflationSeq := (lh_inflationSeq ?h + 1) mod 2 ^ 32\<rparr>))
        (infl + lh_feePool ?h) [] = Inr (l2, left, pay)"
    and l': "l' = setHeader l2 ((lg_header l2)\<lparr>lh_feePool := lh_feePool (lg_header l2) + left,
       lh_totalCoins := (if lh_ledgerVersion (lg_header l2) > 7 then lh_totalCoins (lg_header l2) + infl
                         else lh_totalCoins (lg_header l2))\<rparr>)"
    by (simp add: Inflation_doApply_def Let_def bindE_def split: if_split_asm sum.split_asm prod.split_asm)
  let ?l1 = "setHeader l (?h\<lparr>lh_feePool := 0, lh_inflationSeq := (lh_inflationSeq ?h + 1) mod 2 ^ 32\<rparr>)"
  have l1: "ledger_ok ?l1" using h by (intro ledger_ok_setHeader [OF l]) (simp add: header_ok_def)
  note m = movesD [OF doleLoop_moves [OF dole l1]]
  have v: "lh_ledgerVersion (lg_header l2) > 7" using h m(2) by (simp add: header_ok_def)
  have "ledger_ok l'"
    unfolding l' using ledger_ok_header [OF m(1)] by (intro ledger_ok_setHeader [OF m(1)]) (simp add: header_ok_def)
  then show ?thesis using m v by (simp add: conserves_def surplus_def l')
qed

subsection \<open>Conversions and holdings\<close>

lemma convert_moves:
  assumes c: "convert l sheep mss wheat mwr pp filt = Inr c" and l: "ledger_ok l"
    and lim: "0 \<le> mss" "mss \<le> INT64_MAX" "0 \<le> mwr" "mwr \<le> INT64_MAX"
  shows "moves l (native_part sheep (cv_sheepSend c) - native_part wheat (cv_wheatReceived c)) (cv_ledger c)"
    and "0 \<le> cv_sheepSend c" "cv_sheepSend c \<le> mss"
    and "0 \<le> cv_wheatReceived c" "cv_wheatReceived c \<le> mwr"
    and "cv_wheatReceived c = 0 \<Longrightarrow> cv_sheepSend c = 0"
proof -
  from c have r: "convertWithOffers l sheep mss wheat mwr pp filt [] = Some (Inr c)"
    by (simp add: convert_def bindE_def split: option.split_asm sum.split_asm if_split_asm)
  note m = convertWithOffers_moves [OF r l lim(2,4)]
  show "moves l (native_part sheep (cv_sheepSend c) - native_part wheat (cv_wheatReceived c)) (cv_ledger c)"
    "cv_wheatReceived c = 0 \<Longrightarrow> cv_sheepSend c = 0"
    using m by simp_all
  from convertLoop_accounts [OF r [unfolded convertWithOffers_def]] l lim(1,3)
  show "0 \<le> cv_sheepSend c" "cv_sheepSend c \<le> mss" "0 \<le> cv_wheatReceived c" "cv_wheatReceived c \<le> mwr"
    by auto
qed

lemma moves_addTrust:
  assumes "ledger_ok l" "asset \<noteq> ASSET_TYPE_NATIVE" "loadTrustLine l aid asset = Inr w"
    and "tlw_addBalance (lg_header l) w d = Inr (Some w')"
  shows "moves l 0 (putTrustLine l w')"
proof -
  have "loadHolder l aid asset = Inr (HLine w)" using assms(2,3) by (simp add: loadHolder_def)
  from moves_putHolder [OF assms(1) this, of d "HLine w'"] assms(2,4) show ?thesis
    by (simp add: addToHolder_def putHolder_def)
qed

lemma moves_addAccount:
  assumes "ledger_ok l" "loadAccount l i = Some a" "addAccountBalance (lg_header l) a d = Inr (Some a')"
  shows "moves l d (putAccount l a')"
proof -
  note la = loadAccount_load [OF assms(1,2)]
  show ?thesis
    using addAccountBalance_account [OF ledger_ok_header [OF assms(1)] _ assms(3)] la
      moves_putAccount [OF assms(1,2), of a'] by simp
qed

lemma moves_addToHolding:
  assumes "ledger_ok l" "addToHolding l aid asset d = Inr (Some l')"
  shows "moves l (native_part asset d) l'"
proof -
  from assms(2) obtain hl hl' where "loadHolder l aid asset = Inr hl"
    "addToHolder (lg_header l) hl d = Inr (Some hl')" "l' = putHolder l hl'"
    by (auto simp: addToHolding_def bindE_def split: sum.split_asm)
  with moves_putHolder [OF assms(1)] show ?thesis by blast
qed

lemma moves_addToHoldingOrThrow:
  "\<lbrakk>ledger_ok l; addToHoldingOrThrow l aid asset d msg = Inr l'\<rbrakk> \<Longrightarrow> moves l (native_part asset d) l'"
  by (rule moves_addToHolding) (simp_all add: addToHoldingOrThrow_def bindE_def split: sum.split_asm option.split_asm)

subsection \<open>Payments\<close>

lemma bindO_Goes_on:
  assumes "bindO m f = Inr (Goes_on y)"
  obtains x where "m = Inr (Goes_on x)" "f x = Inr (Goes_on y)"
  using assms by (auto simp: bindO_def bindE_def split: sum.split_asm outcome.split_asm)

lemma PathPayment_credit_moves:
  assumes "ledger_ok l" "PathPayment_credit l op b = Inr (Goes_on l')"
  shows "moves l (native_part (pp_destAsset op) (pp_destAmount op)) l'"
proof (cases "pp_destAsset op = ASSET_TYPE_NATIVE")
  case True
  with assms(2) obtain a a' where "loadAccount l (pp_destination op) = Some a"
    "addAccountBalance (lg_header l) a (pp_destAmount op) = Inr (Some a')" "l' = putAccount l a'"
    by (simp add: PathPayment_credit_def Let_def bindE_def loadSourceAccount_def
        split: if_split_asm sum.split_asm option.split_asm)
  with True moves_addAccount [OF assms(1)] show ?thesis by simp
next
  case False
  with assms(2) obtain w w' where "loadTrustLine l (pp_destination op) (pp_destAsset op) = Inr w"
    "tlw_addBalance (lg_header l) w (pp_destAmount op) = Inr (Some w')" "l' = putTrustLine l w'"
    by (simp add: PathPayment_credit_def Let_def bindE_def bindO_def
        split: if_split_asm sum.split_asm option.split_asm outcome.split_asm)
  with False moves_addTrust [OF assms(1)] show ?thesis by simp
qed

lemma PathPayment_walk_moves:
  "\<lbrakk>PathPayment_walk src hops l b amount offers = Inr (Goes_on (l', b', amount', offers'));
    ledger_ok l; 0 \<le> amount; amount \<le> INT64_MAX\<rbrakk>
   \<Longrightarrow> moves l (native_part b' amount' - native_part b amount) l' \<and> 0 \<le> amount' \<and> amount' \<le> INT64_MAX"
proof (induction src hops l b amount offers rule: PathPayment_walk.induct)
  case (1 src l b amount offers)
  then show ?case by (auto simp: moves_refl)
next
  case (2 src a hops l b amount offers)
  show ?case
  proof (cases "a = b")
    case True
    with 2(3) have "PathPayment_walk src hops l b amount offers = Inr (Goes_on (l', b', amount', offers'))" by simp
    then show ?thesis using 2(1) [OF True] 2(4-6) by blast
  next
    case False
    with 2(3) obtain u c where u: "(if a = ASSET_TYPE_NATIVE then Inr (Goes_on ()) else requireIssuer l a) = Inr (Goes_on u)"
      and c: "convert l a INT64_MAX b amount True (crossSelf src) = Inr c" "cv_result c = eOK" "amount = cv_wheatReceived c"
      and go: "PathPayment_walk src hops (cv_ledger c) a (cv_sheepSend c) (cv_trail c @ offers)
                 = Inr (Goes_on (l', b', amount', offers'))"
      by (simp add: bindE_def bindO_def
          split: if_split_asm sum.split_asm outcome.split_asm ConvertResult.split_asm)
    have "0 \<le> INT64_MAX" by simp
    note m = convert_moves [OF c(1) 2(4) this order_refl 2(5,6)]
    have "moves (cv_ledger c) (native_part b' amount' - native_part a (cv_sheepSend c)) l'
        \<and> 0 \<le> amount' \<and> amount' \<le> INT64_MAX"
      using 2(2) [OF False, of c] c go m movesD(1) [OF m(1)] by simp
    note rest = this
    have m1: "moves l (native_part a (cv_sheepSend c) - native_part b amount) (cv_ledger c)"
      using m(1) unfolding c(3) .
    have "moves l (native_part a (cv_sheepSend c) - native_part b amount
        + (native_part b' amount' - native_part a (cv_sheepSend c))) l'"
      by (rule moves_trans [OF m1 conjunct1 [OF rest]])
    then show ?thesis using rest by (simp only: diff_add_eq add_diff_cancel_left' add_diff_eq) simp
  qed
qed

lemma PathPayment_debit_moves:
  assumes "ledger_ok l" "PathPayment_debit l src op b ex asset sent = Inr (Goes_on l')"
  shows "moves l (- native_part asset sent) l'"
proof (cases "asset = ASSET_TYPE_NATIVE")
  case True
  with assms(2) obtain a a' where "loadAccount l src = Some a"
    "addAccountBalance (lg_header l) a (- sent) = Inr (Some a')" "l' = putAccount l a'"
    by (simp add: PathPayment_debit_def Let_def bindE_def loadSourceAccount_def
        split: if_split_asm sum.split_asm option.split_asm)
  with True moves_addAccount [OF assms(1)] show ?thesis by simp
next
  case False
  with assms(2) obtain w w' where "loadTrustLine l src asset = Inr w"
    "tlw_addBalance (lg_header l) w (- sent) = Inr (Some w')" "l' = putTrustLine l w'"
    by (simp add: PathPayment_debit_def Let_def bindE_def bindO_def
        split: if_split_asm sum.split_asm option.split_asm outcome.split_asm)
  with False moves_addTrust [OF assms(1)] show ?thesis by simp
qed

lemma PathPayment_conserves:
  assumes l: "ledger_ok l" and op: "0 < pp_destAmount op" "pp_destAmount op \<le> INT64_MAX"
    and r: "PathPayment_doApply l src op = Inr (True, r, l')"
  shows "conserves l l'"
proof -
  from r obtain offers where "PathPayment_run l src op = Inr (Goes_on (l', offers))"
    by (auto simp: PathPayment_doApply_def bindE_def split: sum.split_asm outcome.split_asm)
  then obtain l1 l2 b ex asset amount where c: "PathPayment_credit l op b = Inr (Goes_on l1)"
    and w: "PathPayment_walk src (rev (pp_sendAsset op # pp_path op)) l1 (pp_destAsset op) (pp_destAmount op) []
              = Inr (Goes_on (l2, asset, amount, offers))"
    and d: "PathPayment_debit l2 src op b ex asset amount = Inr (Goes_on l')"
    unfolding PathPayment_run_def Let_def
    by (elim bindO_Goes_on) (force elim: bindO_Goes_on)
  note m1 = PathPayment_credit_moves [OF l c]
  note m2 = PathPayment_walk_moves [OF w movesD(1) [OF m1], THEN conjunct1]
  have m2': "moves l1 (native_part asset amount - native_part (pp_destAsset op) (pp_destAmount op)) l2"
    using m2 op by simp
  note m3 = PathPayment_debit_moves [OF movesD(1) [OF m2'] d]
  from moves_trans [OF m1 moves_trans [OF m2' m3]] show ?thesis
    by (intro conserves_moves) (simp only: add_diff_eq diff_add_cancel diff_add_eq add.assoc [symmetric]
      add_diff_cancel_left' add.right_inverse)
qed

lemma Payment_conserves:
  assumes l: "ledger_ok l" and op: "0 < py_amount op" "py_amount op \<le> INT64_MAX"
    and r: "Payment_doApply l src op = Inr (True, r, l')"
  shows "conserves l l'"
proof -
  from r have "l' = l \<or> (\<exists>r'. PathPayment_doApply l src (Payment_asPath op) = Inr (True, r', l'))"
    by (auto simp: Payment_doApply_def Let_def bindE_def
        split: if_split_asm option.split_asm sum.split_asm prod.split_asm)
  with l op show ?thesis
    using PathPayment_conserves [OF l, of "Payment_asPath op"] by (auto simp: conserves_refl Payment_asPath_def)
qed

subsection \<open>Offers\<close>

text \<open>An offer that may be placed; one with an amount left is then an entry of the ledger.\<close>

definition placeable :: "OfferEntry \<Rightarrow> bool" where
  "placeable oe \<longleftrightarrow> price_ok (of_price oe) \<and> of_buying oe \<noteq> of_selling oe \<and> amount64 (of_amount oe)"

lemma placeable_offer_ok: "\<lbrakk>placeable oe; of_amount oe > 0\<rbrakk> \<Longrightarrow> entry_ok (OFFER oe)"
  by (simp add: placeable_def offer_ok_def amount64_def)

lemma takeOldOffer_moves:
  assumes l: "ledger_ok l" and t: "takeOldOffer l src passive op = Inr (Some (l1, oe, new, pas))"
  shows "moves l 0 l1 \<and> (\<exists>f. oe = buildOffer src op f)"
proof (cases "mo_offerID op = 0")
  case True
  with t moves_refl [OF l] show ?thesis by (auto simp: takeOldOffer_def)
next
  case False
  with t obtain old l0 where r: "(if lh_ledgerVersion (lg_header l) \<ge> 10 then releaseLiabilities l old else Inr l) = Inr l0"
    and e: "erase l0 (OfferKey src (mo_offerID op)) = Inr l1" and oe: "oe = buildOffer src op (of_flags old)"
    by (simp add: takeOldOffer_def bindE_def split: option.split_asm sum.split_asm)
  from r have m: "moves l 0 l0"
    using moves_release [OF l, of old l0] moves_refl [OF l] by (auto split: if_split_asm)
  have "moves l0 0 l1" by (rule moves_erase_entry [OF movesD(1) [OF m] e]) simp
  from moves_trans [OF m this] oe show ?thesis by auto
qed

lemma computeLimits_range:
  assumes l: "ledger_ok l" and oe: "placeable oe"
    and r: "computeOfferExchangeParameters l src oe new = Inr (Inr (mss, mwr))"
  shows "0 \<le> mss \<and> mss \<le> INT64_MAX \<and> 0 \<le> mwr \<and> mwr \<le> INT64_MAX"
proof -
  have v: "lh_ledgerVersion (lg_header l) \<ge> 10" using ledger_ok_header [OF l] by (simp add: header_ok_def)
  from r v obtain a a' sh wh cs where a: "loadAccount l src = Some a"
    and a': "(if new then addNumEntries (lg_header l) a 1 else Inr (Some a)) = Inr (Some a')"
    and sh: "loadHolder (putAccount l a') src (of_selling oe) = Inr sh"
    and wh: "loadHolder (putAccount l a') src (of_buying oe) = Inr wh"
    and cb: "canBuyAtMost (lg_header l) wh = Inr mwr" and cs: "canSellAtMost (lg_header l) sh = Inr cs"
    and mss: "mss = min (of_amount oe) cs"
    by (simp add: computeOfferExchangeParameters_def Let_def bindE_def loadSourceAccount_def
        split: if_split_asm sum.split_asm option.split_asm)
  have "same_money a a'"
    using a' addNumEntries_same [of a] same_money_refl loadAccount_load [OF l a] by (auto split: if_split_asm)
  note m = movesD(1,2) [OF moves_same_money [OF l a this]]
  have "0 \<le> cs" "amount64 mwr"
    using loadHolder_amounts(1) [OF m(1) sh] loadHolder_amounts(2) [OF m(1) wh] m(2) cs cb by auto
  with mss oe show ?thesis by (auto simp: placeable_def amount64_def)
qed

lemma settleExchange_moves:
  assumes m: "moves l (native_part (of_selling oe) (cv_sheepSend c) - native_part (of_buying oe) (cv_wheatReceived c)) (cv_ledger c)"
    and z: "cv_wheatReceived c = 0 \<Longrightarrow> cv_sheepSend c = 0" "0 \<le> cv_wheatReceived c"
    and r: "settleExchange src oe c = Inr l'"
  shows "moves l 0 l'"
proof (cases "cv_wheatReceived c > 0")
  case True
  with r obtain l1 where "addToHoldingOrThrow (cv_ledger c) src (of_buying oe) (cv_wheatReceived c)
      ''offer claimed over limit'' = Inr l1"
    and s: "addToHoldingOrThrow l1 src (of_selling oe) (- cv_sheepSend c) ''offer sold more than balance'' = Inr l'"
    by (simp add: settleExchange_def bindE_def split: sum.split_asm)
  note m1 = moves_addToHoldingOrThrow [OF movesD(1) [OF m] this(1)]
  note m2 = moves_addToHoldingOrThrow [OF movesD(1) [OF m1] s]
  from moves_trans [OF m moves_trans [OF m1 m2]] show ?thesis by (auto split: if_split_asm)
next
  case False
  with z have "cv_wheatReceived c = 0" "cv_sheepSend c = 0" by simp_all
  with m r show ?thesis by (simp add: settleExchange_def split: if_split_asm)
qed

lemma remainingAmount_range:
  assumes l: "ledger_ok l" and p: "price_ok (of_price oe)" and a: "amount64 amount"
    and r: "remainingAmount l src oe stays amount = Inr v"
  shows "amount64 v"
proof (cases stays)
  case True
  have ver: "lh_ledgerVersion (lg_header l) \<ge> 10" using ledger_ok_header [OF l] by (simp add: header_ok_def)
  from r True ver obtain sh wh cs cb where h: "loadHolder l src (of_selling oe) = Inr sh"
      "loadHolder l src (of_buying oe) = Inr wh" "canSellAtMost (lg_header l) sh = Inr cs"
      "canBuyAtMost (lg_header l) wh = Inr cb" and v: "adjustOffer (of_price oe) (min amount cs) cb = Inr v"
    by (simp add: remainingAmount_def Let_def bindE_def split: sum.split_asm)
  have "0 \<le> cs" "amount64 cb"
    using loadHolder_amounts(1) [OF l h(1) h(3)] loadHolder_amounts(2) [OF l h(2) h(4)] by auto
  with a have "amount64 (min amount cs)" by (auto simp: amount64_def min_def)
  from adjustOffer_total [OF p this \<open>amount64 cb\<close>] v this show ?thesis by (auto simp: amount64_def)
next
  case False
  with r a show ?thesis by (auto simp: remainingAmount_def Let_def split: if_split_asm)
qed

lemma exchangeForOffer_moves:
  assumes l: "ledger_ok l" and oe: "placeable oe"
    and r: "exchangeForOffer l src passive oe new = Inr (Inr (l', oe', claimed))"
  shows "moves l 0 l' \<and> placeable oe'"
proof -
  from r obtain mss mwr c stays amount where
    lim: "computeOfferExchangeParameters l src oe new = Inr (Inr (mss, mwr))"
    and c: "convert l (of_selling oe) mss (of_buying oe) mwr False (offerFilter src passive oe) = Inr c"
    and s: "settleExchange src oe c = Inr l'"
    and a: "remainingAmount l' src oe stays (mss - cv_sheepSend c) = Inr amount"
    and oe': "oe' = oe\<lparr>of_amount := amount\<rparr>"
    by (simp add: exchangeForOffer_def bindE_def split: sum.split_asm if_split_asm prod.split_asm)
  note b = computeLimits_range [OF l oe lim]
  note m = convert_moves [OF c l conjunct1 [OF b]]
  have m0: "moves l (native_part (of_selling oe) (cv_sheepSend c) - native_part (of_buying oe) (cv_wheatReceived c)) (cv_ledger c)"
    by (rule m(1)) (use b in simp_all)
  have w: "0 \<le> cv_wheatReceived c" "cv_wheatReceived c = 0 \<Longrightarrow> cv_sheepSend c = 0" "0 \<le> cv_sheepSend c" "cv_sheepSend c \<le> mss"
    using m b by simp_all
  have m1: "moves l 0 l'" by (rule settleExchange_moves [OF m0 w(2,1) s])
  have "amount64 (mss - cv_sheepSend c)" using w b by (auto simp: amount64_def)
  from remainingAmount_range [OF movesD(1) [OF m1] _ this a] oe m1 show ?thesis
    by (auto simp: placeable_def oe')
qed

lemma conserves_newID: "ledger_ok l \<Longrightarrow> conserves l (setHeader l (snd (generateID (lg_header l))))"
  by (simp add: conserves_def surplus_def generateID_def ledger_ok_setHeader header_ok_def
      ledger_ok_header [unfolded header_ok_def])

lemma leaveOffer_conserves:
  assumes l: "ledger_ok l" and oe: "placeable oe"
    and r: "leaveOffer l src oe new claimed = Inr (Inr (res, l'))"
  shows "conserves l l'"
proof (cases "of_amount oe > 0")
  case True
  have v: "lh_ledgerVersion (lg_header l) \<ge> 10" using ledger_ok_header [OF l] by (simp add: header_ok_def)
  have "\<exists>l1 oe1 l2. conserves l l1 \<and> placeable oe1 \<and> of_amount oe1 > 0
      \<and> create l1 (OFFER oe1) = Inr l2 \<and> acquireLiabilities l2 oe1 = Inr l'"
  proof (cases new)
    case True
    with r v \<open>of_amount oe > 0\<close> obtain a a' l2 where a: "loadAccount l src = Some a"
      and a': "addNumEntries (lg_header l) a 1 = Inr (Some a')"
      and c: "create (setHeader (putAccount l a') (snd (generateID (lg_header l))))
            (OFFER (oe\<lparr>of_offerID := fst (generateID (lg_header l))\<rparr>)) = Inr l2"
      and q: "acquireLiabilities l2 (oe\<lparr>of_offerID := fst (generateID (lg_header l))\<rparr>) = Inr l'"
      by (simp add: leaveOffer_def Let_def bindE_def loadSourceAccount_def case_prod_beta
          split: sum.split_asm option.split_asm) auto
    have "same_money a a'" using a' addNumEntries_same [of a] loadAccount_load [OF l a] by blast
    note m = moves_same_money [OF l a this]
    have "conserves l (setHeader (putAccount l a') (snd (generateID (lg_header l))))"
      using conserves_trans [OF conserves_moves [OF m] conserves_newID [OF movesD(1) [OF m]]] movesD(2) [OF m]
      by simp
    with c q oe \<open>of_amount oe > 0\<close> show ?thesis
      by (intro exI [of _ "setHeader (putAccount l a') (snd (generateID (lg_header l)))"]
          exI [of _ "oe\<lparr>of_offerID := fst (generateID (lg_header l))\<rparr>"] exI [of _ l2]) (simp add: placeable_def)
  next
    case False
    with r v \<open>of_amount oe > 0\<close> obtain l2 where "create l (OFFER oe) = Inr l2" "acquireLiabilities l2 oe = Inr l'"
      by (simp add: leaveOffer_def Let_def bindE_def split: sum.split_asm)
    with oe \<open>of_amount oe > 0\<close> conserves_refl [OF l] show ?thesis by blast
  qed
  then obtain l1 oe1 l2 where c: "conserves l l1" and p: "placeable oe1" "of_amount oe1 > 0"
    and e: "create l1 (OFFER oe1) = Inr l2" and q: "acquireLiabilities l2 oe1 = Inr l'" by blast
  note m = moves_create [OF conserves_ok [OF c] placeable_offer_ok [OF p] e]
  from moves_trans [OF m moves_acquire [OF movesD(1) [OF m] q]] conserves_trans [OF c] conserves_moves
  show ?thesis by simp
next
  case False
  show ?thesis
  proof (cases new)
    case True
    with False r conserves_refl [OF l] show ?thesis by (auto simp: leaveOffer_def Let_def bindE_def)
  next
    case upd: False
    with False r obtain a a' where "loadAccount l src = Some a" "dropNumEntry (lg_header l) a = Inr a'" "l' = putAccount l a'"
      by (simp add: leaveOffer_def Let_def bindE_def loadSourceAccount_def split: sum.split_asm option.split_asm)
    then show ?thesis
      using conserves_moves [OF moves_same_money [OF l]] dropNumEntry_same loadAccount_load [OF l] by blast
  qed
qed

lemma ManageOffer_conserves:
  assumes l: "ledger_ok l" and valid: "ManageOffer_doCheckValid op v = None"
    and op: "mo_amount op \<le> INT64_MAX" "price_n (mo_price op) \<le> INT32_MAX" "price_d (mo_price op) \<le> INT32_MAX"
    and r: "ManageOffer_doApply l src passive op = Inr (True, r, l')"
  shows "conserves l l'"
proof -
  have p: "placeable (buildOffer src op f)" for f
    using valid op
    by (auto simp: ManageOffer_doCheckValid_def placeable_def buildOffer_def price_ok_def amount64_def
        split: if_split_asm)
  from r obtain l1 oe new pas where t: "takeOldOffer l src passive op = Inr (Some (l1, oe, new, pas))"
    and x: "(\<exists>l2 oe2 claimed. exchangeForOffer l1 src pas oe new = Inr (Inr (l2, oe2, claimed))
               \<and> leaveOffer l2 src oe2 new claimed = Inr (Inr (r, l')))
          \<or> leaveOffer l1 src oe new [] = Inr (Inr (r, l'))"
    by (simp add: ManageOffer_doApply_def ManageOffer_run_def bindE_def
        split: sum.split_asm option.split_asm if_split_asm prod.split_asm)
  note m = takeOldOffer_moves [OF l t]
  have c1: "conserves l l1" and oe: "placeable oe" using m p conserves_moves by auto
  from x show ?thesis
  proof (elim disjE exE conjE)
    fix l2 oe2 claimed
    assume e: "exchangeForOffer l1 src pas oe new = Inr (Inr (l2, oe2, claimed))"
      and lv: "leaveOffer l2 src oe2 new claimed = Inr (Inr (r, l'))"
    from exchangeForOffer_moves [OF conserves_ok [OF c1] oe e] have c2: "conserves l1 l2" and p2: "placeable oe2"
      using conserves_moves by auto
    from conserves_trans [OF c1 conserves_trans [OF c2 leaveOffer_conserves [OF conserves_ok [OF c2] p2 lv]]]
    show ?thesis .
  next
    assume "leaveOffer l1 src oe new [] = Inr (Inr (r, l'))"
    from conserves_trans [OF c1 leaveOffer_conserves [OF conserves_ok [OF c1] oe this]] show ?thesis .
  qed
qed

end
