(* ===== verification/Transactions.thy ===== *)
theory Transactions
  imports Operations
begin

section \<open>Transactions (src/src/transactions/TransactionFrame.cpp)\<close>

text \<open>
  Validation, fees, sequence numbers, signatures and application of a transaction, from protocol 8
  on (the account cache of the earlier protocols is not modelled). The hash of the signed contents is
  an argument of the application, since it is computed by libsodium from bytes that the XDR library
  produces. Transaction metadata, metrics and the tracing to standard output are left out; so is the
  call of the invariant manager after each operation, which does nothing when no invariant is
  enabled, as in the default configuration.
\<close>

record TransactionEnvelope =
  te_tx :: Transaction
  te_signatures :: "DecoratedSignature list"

datatype TransactionResultCode =
    txSUCCESS | txFAILED | txTOO_EARLY | txTOO_LATE | txMISSING_OPERATION | txBAD_SEQ | txBAD_AUTH
  | txINSUFFICIENT_BALANCE | txNO_ACCOUNT | txINSUFFICIENT_FEE | txBAD_AUTH_EXTRA | txINTERNAL_ERROR

text \<open>\<^verbatim>\<open>results()\<close> exists under the codes \<^verbatim>\<open>txSUCCESS\<close> and \<^verbatim>\<open>txFAILED\<close> only; setting another
  code destroys it, and reading it then throws.\<close>

record TransactionResult =
  tr_feeCharged :: int
  tr_code :: TransactionResultCode
  tr_results :: "OperationResult list option"

record App =
  app_bitcoin :: BitcoinNode
  app_contentsHash :: "Transaction \<Rightarrow> uint256"

text \<open>A frame: its envelope, its result and \<^verbatim>\<open>mOperations\<close>, which \<^verbatim>\<open>resetResults\<close> fills.\<close>

record TransactionFrame =
  tf_envelope :: TransactionEnvelope
  tf_result :: TransactionResult
  tf_operations :: "Operation list"

abbreviation tf_tx :: "TransactionFrame \<Rightarrow> Transaction" where
  "tf_tx tf \<equiv> te_tx (tf_envelope tf)"

definition setCode :: "TransactionResultCode \<Rightarrow> TransactionFrame \<Rightarrow> TransactionFrame" where
  "setCode c tf = tf\<lparr>tf_result := (tf_result tf)\<lparr>tr_code := c, tr_results := None\<rparr>\<rparr>"

definition makeTransactionFromWire :: "TransactionEnvelope \<Rightarrow> TransactionFrame" where
  "makeTransactionFromWire env =
     \<lparr>tf_envelope = env, tf_result = \<lparr>tr_feeCharged = 0, tr_code = txSUCCESS, tr_results = Some []\<rparr>,
      tf_operations = []\<rparr>"

definition getMinFee :: "TransactionFrame \<Rightarrow> LedgerHeader \<Rightarrow> int" where
  "getMinFee tf h = lh_baseFee h * max 1 (int (length (tf_operations tf)))"

text \<open>A result of the default arm before the operation sets it.\<close>

definition resetResults :: "TransactionFrame \<Rightarrow> TransactionFrame" where
  "resetResults tf =
     tf\<lparr>tf_operations := tx_operations (tf_tx tf),
        tf_result := \<lparr>tr_feeCharged = tx_fee (tf_tx tf), tr_code = txSUCCESS,
          tr_results = Some (map (\<lambda>op. opINNER (defaultResult (op_body op))) (tx_operations (tf_tx tf)))\<rparr>\<rparr>"

definition markResultFailed :: "TransactionFrame \<Rightarrow> cpp_error + TransactionFrame" where
  "markResultFailed tf = (case tr_results (tf_result tf) of
       None \<Rightarrow> Inl (RuntimeError ''xdr_wrong_union'')
     | Some rs \<Rightarrow> Inr (tf\<lparr>tf_result := (tf_result tf)\<lparr>tr_code := txFAILED\<rparr>\<rparr>))"

text \<open>Writing the result of operation \<open>i\<close> through the reference its frame holds, which dangles once
  the results are destroyed.\<close>

definition setOpResult :: "nat \<Rightarrow> OperationResult \<Rightarrow> TransactionFrame \<Rightarrow> cpp_error + TransactionFrame" where
  "setOpResult i r tf = (case tr_results (tf_result tf) of
       None \<Rightarrow> Inl NullDereference
     | Some rs \<Rightarrow> Inr (tf\<lparr>tf_result := (tf_result tf)\<lparr>tr_results := Some (rs[i := r])\<rparr>\<rparr>))"

definition opResult :: "TransactionFrame \<Rightarrow> nat \<Rightarrow> OperationResult" where
  "opResult tf i = (case tr_results (tf_result tf) of
       Some rs \<Rightarrow> (if i < length rs then rs ! i else opNOT_SUPPORTED) | None \<Rightarrow> opNOT_SUPPORTED)"

subsection \<open>Validation\<close>

definition commonValidPreSeqNum :: "TransactionFrame \<Rightarrow> ledger \<Rightarrow> TransactionResultCode option" where
  "commonValidPreSeqNum tf l =
     (let tx = tf_tx tf; h = lg_header l; closeTime = lh_closeTime h in
      if length (tf_operations tf) = 0 then Some txMISSING_OPERATION
      else if (case tx_timeBounds tx of None \<Rightarrow> False | Some (minTime, maxTime) \<Rightarrow> minTime > closeTime)
      then Some txTOO_EARLY
      else if (case tx_timeBounds tx of None \<Rightarrow> False
               | Some (minTime, maxTime) \<Rightarrow> maxTime \<noteq> 0 \<and> maxTime < closeTime)
      then Some txTOO_LATE
      else if tx_fee tx < getMinFee tf h then Some txINSUFFICIENT_FEE
      else if loadAccount l (tx_sourceAccount tx) = None then Some txNO_ACCOUNT
      else None)"

datatype ValidationType = kInvalid | kInvalidUpdateSeqNum | kInvalidPostAuth | kFullyValid

text \<open>The validation reached, the frame, with its code set on a failure, and the checker.\<close>

definition commonValid ::
    "SignatureChecker \<Rightarrow> ledger \<Rightarrow> TransactionFrame \<Rightarrow> int \<Rightarrow> bool
       \<Rightarrow> cpp_error + (ValidationType \<times> TransactionFrame \<times> SignatureChecker)" where
  "commonValid sc l tf current applying =
     (case commonValidPreSeqNum tf l of
        Some code \<Rightarrow> Inr (kInvalid, setCode code tf, sc)
      | None \<Rightarrow>
          let h = lg_header l; tx = tf_tx tf in
          bindE (loadSourceAccount l (tx_sourceAccount tx)) (\<lambda>sourceAccount.
          let cur = (if current = 0 then ac_seqNum sourceAccount else current) in
          if (lh_ledgerVersion h \<ge> 10 \<or> \<not> applying) \<and> (cur = INT64_MAX \<or> cur + 1 \<noteq> tx_seqNum tx)
          then Inr (kInvalid, setCode txBAD_SEQ tf, sc)
          else
            let (ok, sc') = checkSignature_account sc sourceAccount (th_low (ac_thresholds sourceAccount)) in
            if \<not> ok then Inr (kInvalidUpdateSeqNum, setCode txBAD_AUTH tf, sc')
            else
              let feeToPay = (if applying \<and> lh_ledgerVersion h > 8 then 0 else tx_fee tx) in
              bindE (getAvailableBalance h (ACCOUNT sourceAccount)) (\<lambda>avail.
              Inr (if avail < feeToPay then (kInvalidPostAuth, setCode txINSUFFICIENT_BALANCE tf, sc')
                   else (kFullyValid, tf, sc')))))"

definition processSeqNum :: "ledger \<Rightarrow> Transaction \<Rightarrow> cpp_error + ledger" where
  "processSeqNum l tx =
     (if lh_ledgerVersion (lg_header l) \<ge> 10 then
        bindE (loadSourceAccount l (tx_sourceAccount tx)) (\<lambda>sourceAccount.
        if ac_seqNum sourceAccount > tx_seqNum tx then Inl (RuntimeError ''unexpected sequence number'')
        else Inr (putAccount l (sourceAccount\<lparr>ac_seqNum := tx_seqNum tx\<rparr>)))
      else Inr l)"

subsection \<open>One-time signers\<close>

text \<open>\<^const>\<open>None\<close> when the account has no signer of that key.\<close>

definition removeAccountSigner :: "LedgerHeader \<Rightarrow> AccountEntry \<Rightarrow> SignerKey \<Rightarrow> cpp_error + AccountEntry option" where
  "removeAccountSigner h acc signerKey =
     (if \<exists>s\<in>set (ac_signers acc). sg_key s = signerKey then
        bindE (addNumEntries h acc (- 1)) (\<lambda>r. case r of
          None \<Rightarrow> Inl AssertionFailed
        | Some acc' \<Rightarrow>
            let front = takeWhile (\<lambda>s. sg_key s \<noteq> signerKey) (ac_signers acc') in
            Inr (Some (acc'\<lparr>ac_signers := front @ drop (Suc (length front)) (ac_signers acc')\<rparr>)))
      else Inr None)"

text \<open>The accumulation \<^verbatim>\<open>r || removeAccountSigner(...)\<close>: nothing is removed after the first removal.\<close>

fun removeOneOf :: "LedgerHeader \<Rightarrow> AccountEntry \<Rightarrow> SignerKey list \<Rightarrow> cpp_error + AccountEntry option" where
  "removeOneOf h acc [] = Inr None"
| "removeOneOf h acc (k # ks) =
     bindE (removeAccountSigner h acc k) (\<lambda>r. case r of
       Some acc' \<Rightarrow> Inr (Some acc')
     | None \<Rightarrow> removeOneOf h acc ks)"

fun removeUsedOneTimeSignerKeys ::
    "ledger \<Rightarrow> (AccountID \<times> SignerKey list) list \<Rightarrow> cpp_error + ledger" where
  "removeUsedOneTimeSignerKeys l [] = Inr l"
| "removeUsedOneTimeSignerKeys l ((accountID, keys) # used) =
     (case loadAccount l accountID of
        None \<Rightarrow> removeUsedOneTimeSignerKeys l used
      | Some account \<Rightarrow>
          bindE (removeOneOf (lg_header l) account keys) (\<lambda>r.
          removeUsedOneTimeSignerKeys
            (case r of None \<Rightarrow> l | Some a \<Rightarrow> putAccount l (normalizeSigners a)) used))"

subsection \<open>Signatures of the operations\<close>

fun checkOpSignatures ::
    "SignatureChecker \<Rightarrow> ledger \<Rightarrow> TransactionFrame \<Rightarrow> nat \<Rightarrow> Operation list \<Rightarrow> bool
       \<Rightarrow> cpp_error + (bool \<times> TransactionFrame \<times> SignatureChecker)" where
  "checkOpSignatures sc l tf i [] allOpsValid = Inr (allOpsValid, tf, sc)"
| "checkOpSignatures sc l tf i (op # ops) allOpsValid =
     (case Operation_checkSignature sc l (tf_tx tf) op False of
        (None, sc') \<Rightarrow> checkOpSignatures sc' l tf (Suc i) ops allOpsValid
      | (Some code, sc') \<Rightarrow>
          bindE (setOpResult i code tf) (\<lambda>tf'. checkOpSignatures sc' l tf' (Suc i) ops False))"

definition processSignatures ::
    "SignatureChecker \<Rightarrow> ledger \<Rightarrow> TransactionFrame
       \<Rightarrow> cpp_error + (bool \<times> TransactionFrame \<times> SignatureChecker \<times> ledger)" where
  "processSignatures sc l tf =
     (if lh_ledgerVersion (lg_header l) < 10 then Inr (True, tf, sc, l)
      else
        bindE (checkOpSignatures sc l tf 0 (tf_operations tf) True) (\<lambda>(allOpsValid, tf1, sc1).
        bindE (removeUsedOneTimeSignerKeys l (sc_usedOneTimeSignerKeys sc1)) (\<lambda>l1.
        if \<not> allOpsValid then bindE (markResultFailed tf1) (\<lambda>tf2. Inr (False, tf2, sc1, l1))
        else if \<not> checkAllSignaturesUsed sc1 then Inr (False, setCode txBAD_AUTH_EXTRA tf1, sc1, l1)
        else Inr (True, tf1, sc1, l1))))"

subsection \<open>Fees\<close>

definition processFeeSeqNum :: "ledger \<Rightarrow> TransactionFrame \<Rightarrow> cpp_error + (ledger \<times> TransactionFrame)" where
  "processFeeSeqNum l tf0 =
     (let tf = resetResults tf0; h = lg_header l; tx = tf_tx tf in
      case loadAccount l (tx_sourceAccount tx) of
        None \<Rightarrow> Inl (RuntimeError ''Unexpected database state'')
      | Some acc \<Rightarrow>
          let fee = tr_feeCharged (tf_result tf) in
          bindE (if fee > 0 then
                   let fee' = min (ac_balance acc) fee in
                   bindE (addBalance (ac_balance acc) (- fee') INT64_MAX) (\<lambda>r.
                   Inr (acc\<lparr>ac_balance := (case r of None \<Rightarrow> ac_balance acc | Some b \<Rightarrow> b)\<rparr>,
                        h\<lparr>lh_feePool := lh_feePool h + fee'\<rparr>, fee'))
                 else Inr (acc, h, fee)) (\<lambda>(acc1, h1, fee1).
          bindE (if lh_ledgerVersion h \<le> 9 then
                   if ac_seqNum acc1 + 1 \<noteq> tx_seqNum tx then Inl (RuntimeError ''Unexpected account state'')
                   else Inr (acc1\<lparr>ac_seqNum := tx_seqNum tx\<rparr>)
                 else Inr acc1) (\<lambda>acc2.
          Inr (setHeader (putAccount l acc2) h1,
               tf\<lparr>tf_result := (tf_result tf)\<lparr>tr_feeCharged := fee1\<rparr>\<rparr>))))"

subsection \<open>Checking a transaction\<close>

fun checkOpsValid ::
    "App \<Rightarrow> SignatureChecker \<Rightarrow> ledger \<Rightarrow> TransactionFrame \<Rightarrow> nat \<Rightarrow> Operation list
       \<Rightarrow> cpp_error + (bool \<times> TransactionFrame \<times> SignatureChecker)" where
  "checkOpsValid app sc l tf i [] = Inr (True, tf, sc)"
| "checkOpsValid app sc l tf i (op # ops) =
     (let (ok, res, sc') = Operation_checkValid (app_bitcoin app) sc l (tf_tx tf) op (opResult tf i) False in
      bindE (setOpResult i res tf) (\<lambda>tf'.
      if ok then checkOpsValid app sc' l tf' (Suc i) ops
      else bindE (markResultFailed tf') (\<lambda>tf''. Inr (False, tf'', sc'))))"

text \<open>The unused-signature test at the end has no effect: its two statements are commented out.\<close>

definition Transaction_checkValid ::
    "App \<Rightarrow> ledger \<Rightarrow> TransactionFrame \<Rightarrow> int \<Rightarrow> cpp_error + (bool \<times> TransactionFrame)" where
  "Transaction_checkValid app l tf0 current =
     (let tf = resetResults tf0;
          sc = newSignatureChecker (lh_ledgerVersion (lg_header l)) (app_contentsHash app (tf_tx tf))
                 (te_signatures (tf_envelope tf)) in
      bindE (commonValid sc l tf current False) (\<lambda>(cv, tf1, sc1).
      if cv = kFullyValid then
        bindE (checkOpsValid app sc1 l tf1 0 (tf_operations tf1)) (\<lambda>(ok, tf2, sc2). Inr (ok, tf2))
      else Inr (False, tf1)))"

subsection \<open>Applying a transaction\<close>

text \<open>The loop over the operations: every operation is applied on what the previous ones left, a
  failing one included.\<close>

fun applyOps ::
    "App \<Rightarrow> SignatureChecker \<Rightarrow> ledger \<Rightarrow> TransactionFrame \<Rightarrow> nat \<Rightarrow> Operation list \<Rightarrow> bool
       \<Rightarrow> cpp_error + (bool \<times> ledger \<times> TransactionFrame \<times> SignatureChecker)" where
  "applyOps app sc l tf i [] errorEncountered = Inr (errorEncountered, l, tf, sc)"
| "applyOps app sc l tf i (op # ops) errorEncountered =
     bindE (Operation_apply (app_bitcoin app) sc l (tf_tx tf) op (opResult tf i)) (\<lambda>(ok, res, l', sc').
     bindE (setOpResult i res tf) (\<lambda>tf'.
     applyOps app sc' l' tf' (Suc i) ops (errorEncountered \<or> \<not> ok)))"

definition applyOperations ::
    "App \<Rightarrow> SignatureChecker \<Rightarrow> ledger \<Rightarrow> TransactionFrame \<Rightarrow> cpp_error + (bool \<times> TransactionFrame \<times> ledger)" where
  "applyOperations app sc l tf =
     bindE (applyOps app sc l tf 0 (tf_operations tf) False) (\<lambda>(errorEncountered, l1, tf1, sc1).
     if errorEncountered then bindE (markResultFailed tf1) (\<lambda>tf2. Inr (False, tf2, l))
     else if lh_ledgerVersion (lg_header l1) < 10 then
       if \<not> checkAllSignaturesUsed sc1 then Inr (False, setCode txBAD_AUTH_EXTRA tf1, l)
       else bindE (removeUsedOneTimeSignerKeys l1 (sc_usedOneTimeSignerKeys sc1)) (\<lambda>l2. Inr (True, tf1, l2))
     else Inr (True, tf1, l1))"

text \<open>The first part of \<^verbatim>\<open>apply\<close>, whose transaction is committed whatever it finds.\<close>

definition applyPrologue ::
    "SignatureChecker \<Rightarrow> ledger \<Rightarrow> TransactionFrame
       \<Rightarrow> cpp_error + (bool \<times> TransactionFrame \<times> SignatureChecker \<times> ledger)" where
  "applyPrologue sc l tf =
     bindE (commonValid sc l tf 0 True) (\<lambda>(cv, tf1, sc1).
     bindE (if cv = kInvalid then Inr l else processSeqNum l (tf_tx tf)) (\<lambda>l1.
     if cv = kInvalidPostAuth \<or> cv = kFullyValid then
       bindE (processSignatures sc1 l1 tf1) (\<lambda>(signaturesValid, tf2, sc2, l2).
       Inr (signaturesValid \<and> cv = kFullyValid, tf2, sc2, l2))
     else Inr (False, tf1, sc1, l1)))"

text \<open>An exception leaves what was committed before it, which the caller goes on with.\<close>

definition Transaction_apply ::
    "App \<Rightarrow> ledger \<Rightarrow> TransactionFrame \<Rightarrow> (cpp_error \<times> ledger \<times> TransactionFrame) + (bool \<times> TransactionFrame \<times> ledger)" where
  "Transaction_apply app l tf =
     (let sc = newSignatureChecker (lh_ledgerVersion (lg_header l)) (app_contentsHash app (tf_tx tf))
                 (te_signatures (tf_envelope tf)) in
      case applyPrologue sc l tf of
        Inl e \<Rightarrow> Inl (e, l, tf)
      | Inr (valid, tf1, sc1, l1) \<Rightarrow>
          if valid then
            (case applyOperations app sc1 l1 tf1 of
               Inl e \<Rightarrow> Inl (e, l1, tf1)
             | Inr (ok, tf2, l2) \<Rightarrow> Inr (ok, tf2, l2))
          else Inr (False, tf1, l1))"

end
