(* ===== verification/Conservation_Transactions.thy ===== *)
theory Conservation_Transactions
  imports Conservation_Trades Transactions
begin

section \<open>Transactions conserve lumens and are atomic\<close>

text \<open>
  Every operation that succeeds conserves lumens; so does charging the fee, and so does applying a
  transaction, whether it succeeds, fails or throws. A transaction that fails leaves nothing behind
  but sequence numbers and the one-time signers it used up. A signed transaction always fails from
  protocol 10 on, because \<^verbatim>\<open>checkSignature\<close> never marks a signature as used.
\<close>

subsection \<open>Operations\<close>

lemma mapResult_Inr: "mapResult f m = Inr (ok, tr, l') \<longleftrightarrow> (\<exists>r. m = Inr (ok, r, l') \<and> tr = f r)"
  by (auto simp: mapResult_def bindE_def split: sum.split)

lemma operation_conserves:
  assumes l: "ledger_ok l" and t: "op_typed body"
    and v: "doCheckValid node src body v = None" and r: "doApply node l src body = Inr (True, tr, l')"
  shows "conserves l l'"
proof (cases body)
  case (CREATE_ACCOUNT op)
  with t v r show ?thesis
    by (auto simp: doCheckValid_def doApply_def op_typed_def mapResult_Inr CreateAccount_doCheckValid_def
        intro!: CreateAccount_conserves [OF l] split: if_split_asm)
next
  case (PAYMENT op)
  with t v r show ?thesis
    by (auto simp: doCheckValid_def doApply_def op_typed_def mapResult_Inr Payment_doCheckValid_def
        intro!: Payment_conserves [OF l] split: if_split_asm)
next
  case (PATH_PAYMENT op)
  with t v r show ?thesis
    by (auto simp: doCheckValid_def doApply_def op_typed_def mapResult_Inr PathPayment_doCheckValid_def
        intro!: PathPayment_conserves [OF l] split: if_split_asm)
next
  case (MANAGE_OFFER op)
  with t v r show ?thesis
    by (auto simp: doCheckValid_def doApply_def op_typed_def mapResult_Inr intro!: ManageOffer_conserves [OF l])
next
  case (CREATE_PASSIVE_OFFER op)
  with t v r obtain tr' where m: "ManageOffer_doApply l src True (CreatePassiveOffer_asManage op) = Inr (True, tr', l')"
    and c: "ManageOffer_doCheckValid (CreatePassiveOffer_asManage op) v = None"
    by (auto simp: doCheckValid_def doApply_def mapResult_Inr)
  show ?thesis
    by (rule ManageOffer_conserves [OF l c _ _ _ m])
      (use t CREATE_PASSIVE_OFFER in \<open>simp_all add: op_typed_def CreatePassiveOffer_asManage_def\<close>)
next
  case (SET_OPTIONS op)
  with r show ?thesis
    by (auto simp: doApply_def mapResult_Inr intro!: conserves_moves dest: SetOptions_moves [OF l])
next
  case (CHANGE_TRUST op)
  with t v r show ?thesis
    by (auto simp: doCheckValid_def doApply_def op_typed_def mapResult_Inr ChangeTrust_doCheckValid_def
        intro!: ChangeTrust_conserves [OF l] split: if_split_asm)
next
  case (ALLOW_TRUST op)
  with r show ?thesis by (auto simp: doApply_def mapResult_Inr dest: AllowTrust_conserves [OF l])
next
  case (ACCOUNT_MERGE dest)
  with v r show ?thesis
    by (auto simp: doCheckValid_def doApply_def mapResult_Inr Merge_doCheckValid_def
        intro!: Merge_conserves [OF l] split: if_split_asm)
next
  case INFLATION
  with r show ?thesis by (auto simp: doApply_def mapResult_Inr dest: Inflation_conserves [OF l])
next
  case (MANAGE_DATA op)
  with r show ?thesis by (auto simp: doApply_def mapResult_Inr dest: ManageData_conserves [OF l])
next
  case (BUMP_SEQUENCE b)
  with r show ?thesis by (auto simp: doApply_def mapResult_Inr dest: BumpSequence_conserves [OF l])
next
  case (MARK_ACCOUNT m)
  with r show ?thesis
    by (auto simp: doApply_def mapResult_Inr intro!: conserves_moves dest: MarkAccount_moves [OF l])
qed

lemma Operation_apply_conserves:
  assumes "ledger_ok l" "op_typed (op_body op)" "Operation_apply node sc l tx op res = Inr (True, res', l', sc')"
  shows "conserves l l'"
proof -
  from assms(3) obtain v tr where "doCheckValid node (getSourceID tx op) (op_body op) v = None"
    "doApply node l (getSourceID tx op) (op_body op) = Inr (True, tr, l')"
    by (simp add: Operation_apply_def Operation_checkValid_def Let_def bindE_def case_prod_beta
        split: if_split_asm sum.split_asm option.split_asm) (auto simp: prod_eq_iff)
  with operation_conserves assms(1,2) show ?thesis by blast
qed

subsection \<open>What validation leaves\<close>

text \<open>What a transaction whose contents have the hash \<open>h\<close> may leave of an account even if it fails. On
  its source account the sequence number goes up by one, to the one of the transaction. One signer,
  the pre-authorisation of this very transaction, is gone, the others being in the order of their
  keys, and the account has one sub-entry less. Nothing else differs.\<close>

definition spent_signer :: "uint256 \<Rightarrow> AccountEntry \<Rightarrow> AccountEntry \<Rightarrow> bool" where
  "spent_signer h a a' \<longleftrightarrow> (\<exists>s \<in> set (ac_signers a). sg_key s = SIGNER_KEY_TYPE_PRE_AUTH_TX h
     \<and> a' = a\<lparr>ac_signers := sort_key sg_key (remove1 s (ac_signers a)),
              ac_numSubEntries := ac_numSubEntries a - 1\<rparr>)"

definition auth_account :: "uint256 \<Rightarrow> Transaction \<Rightarrow> AccountEntry \<Rightarrow> AccountEntry \<Rightarrow> bool" where
  "auth_account h tx a a' \<longleftrightarrow> (\<exists>b.
     (b = a \<or> ac_accountID a = tx_sourceAccount tx \<and> tx_seqNum tx = ac_seqNum a + 1 \<and> b = a\<lparr>ac_seqNum := tx_seqNum tx\<rparr>)
     \<and> (a' = b \<or> spent_signer h b a'))"

text \<open>The accounts a transaction acts for: its own source and the sources of its operations.\<close>

definition tx_sources :: "TransactionFrame \<Rightarrow> AccountID set" where
  "tx_sources tf = insert (tx_sourceAccount (tf_tx tf)) (getSourceID (tf_tx tf) ` set (tf_operations tf))"

text \<open>The entries in which the ledger \<open>l'\<close> may differ from \<open>l\<close>, and how.\<close>

definition account_changes ::
    "AccountID set \<Rightarrow> (AccountEntry \<Rightarrow> AccountEntry \<Rightarrow> bool) \<Rightarrow> ledger \<Rightarrow> ledger \<Rightarrow> bool" where
  "account_changes A R l l' \<longleftrightarrow> lg_header l' = lg_header l
     \<and> (\<forall>k. load l' k = load l k
          \<or> (\<exists>i \<in> A. \<exists>a a'. k = AccountKey i \<and> load l k = Some (ACCOUNT a) \<and> load l' k = Some (ACCOUNT a') \<and> R a a'))"

definition auth_change :: "uint256 \<Rightarrow> TransactionFrame \<Rightarrow> ledger \<Rightarrow> ledger \<Rightarrow> bool" where
  "auth_change h tf = account_changes (tx_sources tf) (auth_account h (tf_tx tf))"

lemma account_changes_refl: "account_changes A R l l"
  by (simp add: account_changes_def)

lemma account_changes_mono:
  "\<lbrakk>account_changes A R l l'; A \<subseteq> B; \<And>a a'. R a a' \<Longrightarrow> S a a'\<rbrakk> \<Longrightarrow> account_changes B S l l'"
  unfolding account_changes_def by (meson subsetD)

lemma account_changes_put:
  assumes "ledger_ok l" "loadAccount l i = Some a" "ac_accountID a' = i" "R a a'"
  shows "account_changes {i} R l (putAccount l a')"
  using loadAccount_load [OF assms(1,2)] assms(3,4) by (auto simp: account_changes_def putAccount_def)

lemma account_changesD:
  assumes "account_changes A R l l'"
  obtains "load l' k = load l k"
  | i a a' where "i \<in> A" "k = AccountKey i" "load l k = Some (ACCOUNT a)" "load l' k = Some (ACCOUNT a')" "R a a'"
  using assms unfolding account_changes_def by blast

lemma account_changes_comp:
  assumes c: "account_changes A R l l1" "account_changes B S l1 l2"
    and t: "\<And>i a b c. \<lbrakk>i \<in> A \<and> R a b \<or> a = b; i \<in> B \<and> S b c \<or> b = c; a \<noteq> c\<rbrakk> \<Longrightarrow> T a c"
  shows "account_changes (A \<union> B) T l l2"
proof -
  have "load l2 k = load l k \<or> (\<exists>i \<in> A \<union> B. \<exists>a a'. k = AccountKey i \<and> load l k = Some (ACCOUNT a)
      \<and> load l2 k = Some (ACCOUNT a') \<and> T a a')" for k
  proof (rule account_changesD [OF c(1), of k]; rule account_changesD [OF c(2), of k])
    fix i a a' j b b'
    assume i: "i \<in> A" "k = AccountKey i" "load l k = Some (ACCOUNT a)" "load l1 k = Some (ACCOUNT a')" "R a a'"
      and j: "j \<in> B" "k = AccountKey j" "load l1 k = Some (ACCOUNT b)" "load l2 k = Some (ACCOUNT b')" "S b b'"
    with t [of i a a' b'] show ?thesis by (cases "a = b'") auto
  next
    fix i a a'
    assume "i \<in> A" "k = AccountKey i" "load l k = Some (ACCOUNT a)" "load l1 k = Some (ACCOUNT a')" "R a a'"
      "load l2 k = load l1 k"
    with t [of i a a' a'] show ?thesis by (cases "a = a'") auto
  next
    fix i a a'
    assume "load l1 k = load l k"
      "i \<in> B" "k = AccountKey i" "load l1 k = Some (ACCOUNT a)" "load l2 k = Some (ACCOUNT a')" "S a a'"
    with t [of i a a a'] show ?thesis by (cases "a = a'") auto
  qed simp
  then show ?thesis using c unfolding account_changes_def by simp
qed

lemma processSeqNum_step:
  assumes l: "ledger_ok l" and r: "processSeqNum l tx = Inr l'"
  obtains a where "loadAccount l (tx_sourceAccount tx) = Some a"
    "l' = putAccount l (a\<lparr>ac_seqNum := tx_seqNum tx\<rparr>)" "moves l 0 l'"
proof -
  have "lh_ledgerVersion (lg_header l) \<ge> 10" using ledger_ok_header [OF l] by (simp add: header_ok_def)
  with r obtain a where a: "loadAccount l (tx_sourceAccount tx) = Some a"
    and l': "l' = putAccount l (a\<lparr>ac_seqNum := tx_seqNum tx\<rparr>)"
    by (simp add: processSeqNum_def bindE_def loadSourceAccount_def split: if_split_asm option.split_asm)
  have "same_money a (a\<lparr>ac_seqNum := tx_seqNum tx\<rparr>)"
    using loadAccount_load [OF l a] by (intro same_moneyI) auto
  from moves_same_money [OF l a this] that [OF a l'] l' show ?thesis by simp
qed

subsection \<open>One-time signers\<close>

lemma addNumEntries_dec:
  assumes "account_ok a" "addNumEntries h a (- 1) = Inr (Some b)"
  shows "b = a\<lparr>ac_numSubEntries := ac_numSubEntries a - 1\<rparr>"
proof -
  have "to_int32 (ac_numSubEntries a + (- 1)) = ac_numSubEntries a - 1"
    using assms(1) by (simp add: account_ok_def to_int32_id)
  with assms(2) show ?thesis
    by (auto simp: addNumEntries_def Let_def bindE_def split: if_split_asm sum.split_asm)
qed

lemma remove1_takeWhile:
  "\<exists>s \<in> set ss. f s = k \<Longrightarrow> \<exists>s \<in> set ss. f s = k \<and> takeWhile (\<lambda>s. f s \<noteq> k) ss @ drop (Suc (length (takeWhile (\<lambda>s. f s \<noteq> k) ss))) ss = remove1 s ss"
proof (induction ss)
  case (Cons x ss)
  then show ?case by (cases "f x = k") auto
qed simp

text \<open>Removing one signer: which one, and that the account keeps its money.\<close>

definition without_signer :: "AccountEntry \<Rightarrow> Signer \<Rightarrow> AccountEntry" where
  "without_signer a s = a\<lparr>ac_signers := remove1 s (ac_signers a), ac_numSubEntries := ac_numSubEntries a - 1\<rparr>"

lemma removeAccountSigner_step:
  assumes a: "account_ok a" and r: "removeAccountSigner h a k = Inr (Some a')"
  shows "same_money a a' \<and> (\<exists>s \<in> set (ac_signers a). sg_key s = k \<and> a' = without_signer a s)"
proof -
  from r obtain b where k: "\<exists>s \<in> set (ac_signers a). sg_key s = k" and b: "addNumEntries h a (- 1) = Inr (Some b)"
    and a': "a' = b\<lparr>ac_signers := takeWhile (\<lambda>s. sg_key s \<noteq> k) (ac_signers b)
          @ drop (Suc (length (takeWhile (\<lambda>s. sg_key s \<noteq> k) (ac_signers b)))) (ac_signers b)\<rparr>"
    by (auto simp: removeAccountSigner_def bindE_def Let_def split: if_split_asm sum.split_asm option.split_asm)
  note b' = addNumEntries_dec [OF a b] addNumEntries_same [OF a b]
  have "same_money b a'" using same_money_ok [OF b'(2)] a' by (intro same_moneyI) auto
  moreover obtain s where s: "s \<in> set (ac_signers a)" "sg_key s = k"
    "takeWhile (\<lambda>s. sg_key s \<noteq> k) (ac_signers a)
        @ drop (Suc (length (takeWhile (\<lambda>s. sg_key s \<noteq> k) (ac_signers a)))) (ac_signers a) = remove1 s (ac_signers a)"
    using remove1_takeWhile [OF k] by blast
  moreover have "a' = without_signer a s" using a' b'(1) s(3) by (simp add: without_signer_def)
  ultimately show ?thesis using same_money_trans [OF b'(2)] by blast
qed

lemma removeOneOf_step:
  "\<lbrakk>account_ok a; removeOneOf h a ks = Inr (Some a')\<rbrakk>
   \<Longrightarrow> same_money a a' \<and> (\<exists>s \<in> set (ac_signers a). sg_key s \<in> set ks \<and> a' = without_signer a s)"
proof (induction ks)
  case (Cons k ks)
  then show ?case using removeAccountSigner_step [of a h k a']
    by (auto simp: bindE_def split: sum.split_asm option.split_asm)
qed simp

text \<open>One account of the record of used keys.\<close>

lemma removeOneOf_put:
  assumes l: "ledger_ok l" and a: "loadAccount l i = Some a" and r: "removeOneOf (lg_header l) a keys = Inr r"
    and l1: "l1 = (case r of None \<Rightarrow> l | Some b \<Rightarrow> putAccount l (normalizeSigners b))"
  shows "moves l 0 l1 \<and> (set keys \<subseteq> {SIGNER_KEY_TYPE_PRE_AUTH_TX h} \<longrightarrow> account_changes {i} (spent_signer h) l l1)"
proof (cases r)
  case None
  with l1 moves_refl [OF l] account_changes_refl show ?thesis by simp
next
  case (Some b)
  note la = loadAccount_load [OF l a]
  from removeOneOf_step [of a "lg_header l" keys b] la r Some obtain s where s: "same_money a b"
    "s \<in> set (ac_signers a)" "sg_key s \<in> set keys" "b = without_signer a s" by auto
  have "same_money b (normalizeSigners b)"
    using same_money_ok [OF s(1)] by (auto simp: normalizeSigners_def intro!: same_moneyI)
  with s(1) have m: "same_money a (normalizeSigners b)" by (rule same_money_trans)
  have "account_changes {i} (spent_signer h) l l1" if "set keys \<subseteq> {SIGNER_KEY_TYPE_PRE_AUTH_TX h}"
  proof -
    have "spent_signer h a (normalizeSigners b)"
      using s that by (auto simp: spent_signer_def normalizeSigners_def without_signer_def)
    with account_changes_put [OF l a, of "normalizeSigners b"] la m l1 Some show ?thesis
      by (simp add: same_money_def)
  qed
  with moves_same_money [OF l a m] l1 Some show ?thesis by simp
qed

lemma account_changes_disjoint:
  "\<lbrakk>account_changes A R l l1; account_changes B R l1 l2; A \<inter> B = {}\<rbrakk> \<Longrightarrow> account_changes (A \<union> B) R l l2"
  by (rule account_changes_comp) auto

text \<open>The used keys: at most one list for each account, and only the key of this transaction.\<close>

definition one_time :: "uint256 \<Rightarrow> AccountID set \<Rightarrow> (AccountID \<times> SignerKey list) list \<Rightarrow> bool" where
  "one_time h A used \<longleftrightarrow> sorted_wrt (<) (map fst used)
     \<and> (\<forall>(i, ks) \<in> set used. i \<in> A \<and> set ks \<subseteq> {SIGNER_KEY_TYPE_PRE_AUTH_TX h})"

lemma one_time_Cons:
  "one_time h A ((i, ks) # used) \<longleftrightarrow> i \<in> A \<and> set ks \<subseteq> {SIGNER_KEY_TYPE_PRE_AUTH_TX h}
     \<and> (\<forall>j \<in> fst ` set used. i < j) \<and> one_time h A used"
  by (auto simp: one_time_def)

lemma removeUsedOneTimeSignerKeys_step:
  "\<lbrakk>ledger_ok l; removeUsedOneTimeSignerKeys l used = Inr l'\<rbrakk>
   \<Longrightarrow> moves l 0 l' \<and> (one_time h A used \<longrightarrow> account_changes (fst ` set used) (spent_signer h) l l')"
proof (induction l used rule: removeUsedOneTimeSignerKeys.induct)
  case (1 l)
  then show ?case by (simp add: moves_refl account_changes_refl)
next
  case (2 l i keys used)
  show ?case
  proof (cases "loadAccount l i")
    case None
    with 2 have "moves l 0 l' \<and> (one_time h A used \<longrightarrow> account_changes (fst ` set used) (spent_signer h) l l')" by simp
    then show ?thesis by (auto simp: one_time_Cons intro: account_changes_mono)
  next
    case (Some a)
    with 2(4) obtain r where r: "removeOneOf (lg_header l) a keys = Inr r"
      and go: "removeUsedOneTimeSignerKeys (case r of None \<Rightarrow> l | Some b \<Rightarrow> putAccount l (normalizeSigners b)) used = Inr l'"
      by (auto simp: bindE_def split: sum.split_asm)
    note st = removeOneOf_put [OF 2(3) Some r refl, of h]
    note ih = 2(2) [OF Some r movesD(1) [OF conjunct1 [OF st]] go]
    have "account_changes (fst ` set ((i, keys) # used)) (spent_signer h) l l'" if "one_time h A ((i, keys) # used)"
    proof -
      from that have "set keys \<subseteq> {SIGNER_KEY_TYPE_PRE_AUTH_TX h}" "one_time h A used" "{i} \<inter> fst ` set used = {}"
        by (auto simp: one_time_Cons)
      from account_changes_disjoint [OF mp [OF conjunct2 [OF st] this(1)] mp [OF conjunct2 [OF ih] this(2)] this(3)]
      show ?thesis by simp
    qed
    with moves_trans [OF conjunct1 [OF st] conjunct1 [OF ih]] show ?thesis by simp
  qed
qed

lemma insertOneTimeKey_keeps:
  "\<lbrakk>one_time h A used; a \<in> A; k = SIGNER_KEY_TYPE_PRE_AUTH_TX h\<rbrakk>
   \<Longrightarrow> one_time h A (insertOneTimeKey a k used) \<and> fst ` set (insertOneTimeKey a k used) = insert a (fst ` set used)"
  by (induction a k used rule: insertOneTimeKey.induct)
    (auto simp: one_time_Cons one_time_def [of h A "[]"] set_insort_insert)

lemma preAuthLoop_keeps:
  "\<lbrakk>preAuthLoop a n ss sc t = (d, sc', t'); a \<in> A; one_time (sc_contentsHash sc) A (sc_usedOneTimeSignerKeys sc)\<rbrakk>
   \<Longrightarrow> one_time (sc_contentsHash sc) A (sc_usedOneTimeSignerKeys sc')"
proof (induction a n ss sc t rule: preAuthLoop.induct)
  case (2 a n s ss sc t)
  show ?case
  proof (cases "sg_key s = SIGNER_KEY_TYPE_PRE_AUTH_TX (sc_contentsHash sc)")
    case True
    note k = conjunct1 [OF insertOneTimeKey_keeps [OF 2(5,4) True]]
    show ?thesis
    proof (cases "to_int32 (t + effectiveWeight (sc_protocolVersion sc) (sg_weight s)) \<ge> n")
      case ge: True
      with True 2(3) k show ?thesis by (auto simp: Let_def)
    next
      case lt: False
      with 2(1) [OF True refl refl lt] True 2(3,4) k show ?thesis by (simp add: Let_def)
    qed
  next
    case False
    with 2 show ?thesis by simp
  qed
qed simp

lemma checkSignature_keeps:
  "\<lbrakk>checkSignature sc a ss n = (r, sc'); a \<in> A; one_time (sc_contentsHash sc) A (sc_usedOneTimeSignerKeys sc)\<rbrakk>
   \<Longrightarrow> one_time (sc_contentsHash sc) A (sc_usedOneTimeSignerKeys sc')"
  using preAuthLoop_keeps [of a n "filter isPreAuthTx ss" sc 0 _ sc' _ A]
  by (auto simp: checkSignature_def split: if_split_asm prod.split_asm)

subsection \<open>The frame and the checker through validation\<close>

text \<open>Results may change, the envelope and the operations do not.\<close>

definition same_frame :: "TransactionFrame \<Rightarrow> TransactionFrame \<Rightarrow> bool" where
  "same_frame tf tf' \<longleftrightarrow> tf_envelope tf' = tf_envelope tf \<and> tf_operations tf' = tf_operations tf"

lemma same_frame_refl [simp]: "same_frame tf tf"
  by (simp add: same_frame_def)

lemma same_frame_trans: "\<lbrakk>same_frame a b; same_frame b c\<rbrakk> \<Longrightarrow> same_frame a c"
  by (simp add: same_frame_def)

lemma setCode_same [simp]: "same_frame tf (setCode c tf)"
  by (simp add: same_frame_def setCode_def)

lemma setOpResult_same: "setOpResult i r tf = Inr tf' \<Longrightarrow> same_frame tf tf'"
  by (auto simp: setOpResult_def same_frame_def split: option.split_asm)

lemma markResultFailed_same: "markResultFailed tf = Inr tf' \<Longrightarrow> same_frame tf tf'"
  by (auto simp: markResultFailed_def same_frame_def split: option.split_asm)

lemma commonValid_same:
  assumes "commonValid sc l tf cur ap = Inr (cv, tf', sc')"
  shows "same_frame tf tf' \<and> same_signatures sc sc'"
  using assms checkSignature_same
  by (auto simp: commonValid_def Let_def bindE_def checkSignature_account_def
      split: option.split_asm sum.split_asm if_split_asm prod.split_asm)

lemma checkSignature_account_keeps:
  assumes "ledger_ok l" "loadAccount l i = Some a" "checkSignature_account sc a n = (r, sc')" "i \<in> A"
    "one_time (sc_contentsHash sc) A (sc_usedOneTimeSignerKeys sc)"
  shows "one_time (sc_contentsHash sc) A (sc_usedOneTimeSignerKeys sc')"
  using assms(3-5) loadAccount_load [OF assms(1,2)]
  unfolding checkSignature_account_def Let_def by (blast intro: checkSignature_keeps)

lemma commonValid_keeps:
  assumes l: "ledger_ok l" and r: "commonValid sc l tf cur ap = Inr (cv, tf', sc')"
    and A: "tx_sourceAccount (tf_tx tf) \<in> A" "one_time (sc_contentsHash sc) A (sc_usedOneTimeSignerKeys sc)"
  shows "one_time (sc_contentsHash sc) A (sc_usedOneTimeSignerKeys sc')"
proof -
  from r have "sc' = sc \<or> (\<exists>a n b. loadAccount l (tx_sourceAccount (tf_tx tf)) = Some a
      \<and> checkSignature_account sc a n = (b, sc'))"
    by (auto simp: commonValid_def Let_def bindE_def loadSourceAccount_def
        split: option.split_asm sum.split_asm if_split_asm prod.split_asm)
  with checkSignature_account_keeps [OF l _ _ A] A(2) show ?thesis by blast
qed

lemma Operation_checkSignature_same:
  assumes "Operation_checkSignature sc l tx op fa = (r, sc')"
  shows "same_signatures sc sc'"
  using assms checkSignature_same
  by (auto simp: Operation_checkSignature_def Let_def checkSignature_account_def checkSignatureNoAccount_def
      split: option.split_asm if_split_asm prod.split_asm)

lemma Operation_checkSignature_keeps:
  assumes l: "ledger_ok l" and r: "Operation_checkSignature sc l tx op fa = (r, sc')"
    and A: "getSourceID tx op \<in> A" "one_time (sc_contentsHash sc) A (sc_usedOneTimeSignerKeys sc)"
  shows "one_time (sc_contentsHash sc) A (sc_usedOneTimeSignerKeys sc')"
proof (cases "loadAccount l (getSourceID tx op)")
  case (Some a)
  with r checkSignature_account_keeps [OF l Some _ A] show ?thesis
    by (auto simp: Operation_checkSignature_def split: prod.split_asm)
next
  case None
  with r A checkSignature_keeps [of sc _ _ _ _ sc' A] show ?thesis
    by (auto simp: Operation_checkSignature_def checkSignatureNoAccount_def getSourceID_def
        split: option.split_asm if_split_asm prod.split_asm)
qed

lemma checkOpSignatures_same:
  "checkOpSignatures sc l tf i ops ok = Inr (ok', tf', sc') \<Longrightarrow> same_frame tf tf' \<and> same_signatures sc sc'"
proof (induction sc l tf i ops ok rule: checkOpSignatures.induct)
  case (2 sc l tf i op ops ok)
  obtain r sc1 where r: "Operation_checkSignature sc l (tf_tx tf) op False = (r, sc1)" by fastforce
  note s = Operation_checkSignature_same [OF r]
  show ?case
  proof (cases r)
    case None
    with 2(3) r have "checkOpSignatures sc1 l tf (Suc i) ops ok = Inr (ok', tf', sc')" by simp
    from 2(1) [OF r [symmetric] None this] same_signatures_trans [OF s] show ?thesis by blast
  next
    case (Some code)
    with 2(3) r obtain tf1 where t: "setOpResult i code tf = Inr tf1"
      and go: "checkOpSignatures sc1 l tf1 (Suc i) ops False = Inr (ok', tf', sc')"
      by (auto simp: bindE_def split: sum.split_asm)
    from 2(2) [OF r [symmetric] Some t go] same_signatures_trans [OF s] same_frame_trans [OF setOpResult_same [OF t]]
    show ?thesis by blast
  qed
qed simp

lemma checkOpSignatures_keeps:
  "\<lbrakk>checkOpSignatures sc l tf i ops ok = Inr (ok', tf', sc'); ledger_ok l; getSourceID (tf_tx tf) ` set ops \<subseteq> A;
    one_time (sc_contentsHash sc) A (sc_usedOneTimeSignerKeys sc)\<rbrakk>
   \<Longrightarrow> one_time (sc_contentsHash sc) A (sc_usedOneTimeSignerKeys sc')"
proof (induction sc l tf i ops ok rule: checkOpSignatures.induct)
  case (2 sc l tf i op ops ok)
  obtain r sc1 where r: "Operation_checkSignature sc l (tf_tx tf) op False = (r, sc1)" by fastforce
  have k: "one_time (sc_contentsHash sc) A (sc_usedOneTimeSignerKeys sc1)"
    using Operation_checkSignature_keeps [OF 2(4) r _ 2(6)] 2(5) by simp
  note c = same_signaturesD(2) [OF Operation_checkSignature_same [OF r]]
  show ?case
  proof (cases r)
    case None
    with 2(3) r have "checkOpSignatures sc1 l tf (Suc i) ops ok = Inr (ok', tf', sc')" by simp
    from 2(1) [OF r [symmetric] None this 2(4)] 2(5) k show ?thesis unfolding c by simp
  next
    case (Some code)
    with 2(3) r obtain tf1 where t: "setOpResult i code tf = Inr tf1"
      and go: "checkOpSignatures sc1 l tf1 (Suc i) ops False = Inr (ok', tf', sc')"
      by (auto simp: bindE_def split: sum.split_asm)
    from 2(2) [OF r [symmetric] Some t go 2(4)] setOpResult_same [OF t] 2(5) k show ?thesis
      unfolding c by (simp add: same_frame_def)
  qed
qed simp

lemma processSignatures_step:
  assumes l: "ledger_ok l" and r: "processSignatures sc l tf = Inr (ok, tf', sc', l')"
    and A: "getSourceID (tf_tx tf) ` set (tf_operations tf) \<subseteq> A"
      "one_time (sc_contentsHash sc) A (sc_usedOneTimeSignerKeys sc)"
  shows "moves l 0 l' \<and> account_changes A (spent_signer (sc_contentsHash sc)) l l'
     \<and> same_frame tf tf' \<and> same_signatures sc sc' \<and> (ok \<longrightarrow> checkAllSignaturesUsed sc')"
proof -
  have "\<not> lh_ledgerVersion (lg_header l) < 10" using ledger_ok_header [OF l] by (simp add: header_ok_def)
  with r obtain ops tf1 sc1 where c: "checkOpSignatures sc l tf 0 (tf_operations tf) True = Inr (ops, tf1, sc1)"
    and u: "removeUsedOneTimeSignerKeys l (sc_usedOneTimeSignerKeys sc1) = Inr l'"
    and e: "if \<not> ops then \<not> ok \<and> markResultFailed tf1 = Inr tf' \<and> sc' = sc1
        else if \<not> checkAllSignaturesUsed sc1 then \<not> ok \<and> tf' = setCode txBAD_AUTH_EXTRA tf1 \<and> sc' = sc1
        else tf' = tf1 \<and> sc' = sc1"
    by (simp add: processSignatures_def bindE_def split: sum.split_asm prod.split_asm if_split_asm)
      (metis, metis, metis)?
  note s = checkOpSignatures_same [OF c]
  have "same_frame tf1 tf' \<and> sc' = sc1 \<and> (ok \<longrightarrow> checkAllSignaturesUsed sc1)"
    using e markResultFailed_same [of tf1 tf'] by (auto split: if_split_asm)
  moreover
  have one: "one_time (sc_contentsHash sc) A (sc_usedOneTimeSignerKeys sc1)"
    by (rule checkOpSignatures_keeps [OF c l A])
  note st = removeUsedOneTimeSignerKeys_step [OF l u, of "sc_contentsHash sc" A]
  have "fst ` set (sc_usedOneTimeSignerKeys sc1) \<subseteq> A" using one by (auto simp: one_time_def)
  from account_changes_mono [OF mp [OF conjunct2 [OF st] one] this]
  have "account_changes A (spent_signer (sc_contentsHash sc)) l l'" by simp
  ultimately show ?thesis using st s same_frame_trans [of tf tf1 tf'] by auto
qed

text \<open>The sequence number is the next one, as \<^const>\<open>commonValid\<close> found it to be.\<close>

lemma commonValid_seqNum:
  assumes "ledger_ok l" "commonValid sc l tf 0 ap = Inr (cv, tf', sc')" "cv \<noteq> kInvalid"
  shows "\<exists>a. loadAccount l (tx_sourceAccount (tf_tx tf)) = Some a \<and> tx_seqNum (tf_tx tf) = ac_seqNum a + 1"
  using assms ledger_ok_header [OF assms(1)]
  by (auto simp: commonValid_def Let_def bindE_def loadSourceAccount_def header_ok_def
      split: option.split_asm sum.split_asm if_split_asm prod.split_asm)

lemma seqNum_changes:
  assumes l: "ledger_ok l" and c: "commonValid sc l tf 0 True = Inr (cv, tf1, sc1)"
    and q: "(if cv = kInvalid then Inr l else processSeqNum l (tf_tx tf)) = Inr l1"
  shows "moves l 0 l1 \<and> account_changes {tx_sourceAccount (tf_tx tf)} (\<lambda>a b. ac_accountID a = tx_sourceAccount (tf_tx tf)
      \<and> tx_seqNum (tf_tx tf) = ac_seqNum a + 1 \<and> b = a\<lparr>ac_seqNum := tx_seqNum (tf_tx tf)\<rparr>) l l1"
proof (cases "cv = kInvalid")
  case True
  with q l show ?thesis by (simp add: moves_refl account_changes_refl)
next
  case False
  with q have "processSeqNum l (tf_tx tf) = Inr l1" by simp
  from processSeqNum_step [OF l this] obtain a where a: "loadAccount l (tx_sourceAccount (tf_tx tf)) = Some a"
    "l1 = putAccount l (a\<lparr>ac_seqNum := tx_seqNum (tf_tx tf)\<rparr>)" "moves l 0 l1" by blast
  moreover have "tx_seqNum (tf_tx tf) = ac_seqNum a + 1"
    using commonValid_seqNum [OF l c False] a(1) by simp
  ultimately show ?thesis
    using account_changes_put [OF l a(1), of "a\<lparr>ac_seqNum := tx_seqNum (tf_tx tf)\<rparr>"] loadAccount_load [OF l a(1)] by simp
qed

lemma applyPrologue_step:
  assumes l: "ledger_ok l" and r: "applyPrologue sc l tf = Inr (ok, tf', sc', l')"
    and u: "sc_usedOneTimeSignerKeys sc = []"
  shows "moves l 0 l' \<and> auth_change (sc_contentsHash sc) tf l l' \<and> same_frame tf tf' \<and> same_signatures sc sc'
     \<and> (ok \<longrightarrow> checkAllSignaturesUsed sc')"
proof -
  let ?h = "sc_contentsHash sc" and ?A = "tx_sources tf" and ?src = "tx_sourceAccount (tf_tx tf)"
  let ?seq = "\<lambda>a b. ac_accountID a = ?src \<and> tx_seqNum (tf_tx tf) = ac_seqNum a + 1 \<and> b = a\<lparr>ac_seqNum := tx_seqNum (tf_tx tf)\<rparr>"
  from r obtain cv tf1 sc1 l1 where c: "commonValid sc l tf 0 True = Inr (cv, tf1, sc1)"
    and q: "(if cv = kInvalid then Inr l else processSeqNum l (tf_tx tf)) = Inr l1"
    and e: "(\<exists>okS. processSignatures sc1 l1 tf1 = Inr (okS, tf', sc', l') \<and> (ok \<longrightarrow> okS))
        \<or> (\<not> ok \<and> tf' = tf1 \<and> sc' = sc1 \<and> l' = l1)"
    by (simp add: applyPrologue_def bindE_def split: sum.split_asm prod.split_asm if_split_asm) blast+
  note s = commonValid_same [OF c]
  note m = seqNum_changes [OF l c q]
  note ok1 = movesD(1) [OF conjunct1 [OF m]]
  have one: "one_time ?h ?A (sc_usedOneTimeSignerKeys sc1)"
    by (rule commonValid_keeps [OF l c]) (simp_all add: tx_sources_def one_time_def u)
  have src: "{?src} \<union> ?A = ?A" by (auto simp: tx_sources_def)
  have join: "auth_change ?h tf l l'" if "account_changes ?A (spent_signer ?h) l1 l'"
    using account_changes_comp [OF conjunct2 [OF m] that, of "auth_account ?h (tf_tx tf)"]
    unfolding src auth_change_def auth_account_def by blast
  from e show ?thesis
  proof (elim disjE exE conjE)
    fix okS
    assume p: "processSignatures sc1 l1 tf1 = Inr (okS, tf', sc', l')" and o: "ok \<longrightarrow> okS"
    have "getSourceID (tf_tx tf1) ` set (tf_operations tf1) \<subseteq> ?A"
      using s by (auto simp: same_frame_def tx_sources_def)
    from processSignatures_step [OF ok1 p this] one same_signaturesD(2) [of sc sc1] s
    have "moves l1 0 l'" "account_changes ?A (spent_signer ?h) l1 l'" "same_frame tf1 tf'" "same_signatures sc1 sc'"
      "okS \<longrightarrow> checkAllSignaturesUsed sc'" by auto
    with o s join moves_trans [OF conjunct1 [OF m], of 0 l'] same_frame_trans [of tf tf1 tf']
      same_signatures_trans [of sc sc1 sc'] show ?thesis by simp
  next
    assume "\<not> ok" "tf' = tf1" "sc' = sc1" "l' = l1"
    with s m join account_changes_refl show ?thesis by simp
  qed
qed

subsection \<open>Applying the operations\<close>

lemma applyOps_error: "applyOps app sc l tf i ops True = Inr (err, l', tf', sc') \<Longrightarrow> err"
  by (induction ops arbitrary: sc l tf i)
    (auto simp: bindE_def split: sum.split_asm prod.split_asm)

lemma applyOps_conserves:
  "\<lbrakk>applyOps app sc l tf i ops False = Inr (False, l', tf', sc'); ledger_ok l;
    \<forall>op \<in> set ops. op_typed (op_body op)\<rbrakk> \<Longrightarrow> conserves l l'"
proof (induction ops arbitrary: sc l tf i)
  case Nil
  then show ?case by (simp add: conserves_refl)
next
  case (Cons op ops)
  from Cons.prems(1) obtain ok res l1 sc1 tf1 where
    a: "Operation_apply (app_bitcoin app) sc l (tf_tx tf) op (opResult tf i) = Inr (ok, res, l1, sc1)"
    and go: "applyOps app sc1 l1 tf1 (Suc i) ops (\<not> ok) = Inr (False, l', tf', sc')"
    by (simp add: bindE_def split: sum.split_asm prod.split_asm)
  have "ok" using applyOps_error go by fastforce
  with a go have c: "conserves l l1"
    and g: "applyOps app sc1 l1 tf1 (Suc i) ops False = Inr (False, l', tf', sc')"
    using Operation_apply_conserves [OF Cons.prems(2)] Cons.prems(3) by auto
  from conserves_trans [OF c Cons.IH [OF g conserves_ok [OF c]]] Cons.prems(3) show ?case by simp
qed

lemma applyOperations_step:
  assumes l: "ledger_ok l" and t: "\<forall>op \<in> set (tf_operations tf). op_typed (op_body op)"
    and r: "applyOperations app sc l tf = Inr (ok, tf', l')"
  shows "conserves l l' \<and> (\<not> ok \<longrightarrow> l' = l)"
proof -
  obtain err l1 tf1 sc1 where a: "applyOps app sc l tf 0 (tf_operations tf) False = Inr (err, l1, tf1, sc1)"
    using r by (cases "applyOps app sc l tf 0 (tf_operations tf) False") (auto simp: applyOperations_def)
  let ?clean = "removeUsedOneTimeSignerKeys l1 (sc_usedOneTimeSignerKeys sc1)"
  from r a have "(\<not> ok \<and> l' = l) \<or> (ok \<and> \<not> err \<and> (l' = l1 \<or> ?clean = Inr l'))"
    by (cases "markResultFailed tf1"; cases ?clean) (auto simp: applyOperations_def split: if_split_asm)
  then have e: "(\<not> ok \<and> l' = l) \<or> (\<not> err \<and> l' = l1) \<or> (\<not> err \<and> ?clean = Inr l')" and ok: "\<not> ok \<longrightarrow> l' = l"
    by blast+
  have c: "\<not> err \<Longrightarrow> conserves l l1" using applyOps_conserves [of app sc l tf 0 "tf_operations tf"] a l t by simp
  have "conserves l l'"
    using e c conserves_refl [OF l] conserves_trans [of l l1 l'] conserves_ok [of l l1]
      removeUsedOneTimeSignerKeys_step [of l1] conserves_moves [of l1 l'] by blast
  with ok show ?thesis by blast
qed

lemma applyOperations_failed:
  assumes "applyOperations app sc l tf = Inr (False, tf', l')"
  shows "l' = l"
proof -
  obtain err l1 tf1 sc1 where a: "applyOps app sc l tf 0 (tf_operations tf) False = Inr (err, l1, tf1, sc1)"
    using assms by (cases "applyOps app sc l tf 0 (tf_operations tf) False") (auto simp: applyOperations_def)
  from assms a show ?thesis
    by (cases "markResultFailed tf1"; cases "removeUsedOneTimeSignerKeys l1 (sc_usedOneTimeSignerKeys sc1)")
      (auto simp: applyOperations_def split: if_split_asm)
qed

subsection \<open>Fees\<close>

lemma charge_fee:
  assumes l: "ledger_ok l" and a: "loadAccount l i = Some a"
    and b: "account_ok b" "ac_accountID b = i" "ac_balance b = ac_balance a - fee"
    and h: "h = (lg_header l)\<lparr>lh_feePool := lh_feePool (lg_header l) + fee\<rparr>"
  shows "conserves l (setHeader (putAccount l b) h)"
proof -
  note m = movesD [OF moves_putAccount [OF l a b(1,2)]]
  have "header_ok h" using ledger_ok_header [OF l] by (simp add: h header_ok_def)
  with m b(3) show ?thesis by (simp add: conserves_def surplus_def ledger_ok_setHeader h)
qed

lemma addBalance_debit:
  assumes "0 \<le> b" "b \<le> INT64_MAX" "0 < fee" "fee \<le> b"
  shows "addBalance b (- fee) INT64_MAX = Inr (Some (b - fee))"
  using assms by (auto simp: addBalance_def)

lemma processFeeSeqNum_conserves:
  assumes l: "ledger_ok l" and r: "processFeeSeqNum l tf = Inr (l', tf')"
  shows "conserves l l' \<and> tf_operations tf' = tx_operations (tf_tx tf) \<and> tf_envelope tf' = tf_envelope tf"
proof -
  let ?h = "lg_header l" and ?tx = "tf_tx tf" and ?tf = "resetResults tf"
  have v: "\<not> lh_ledgerVersion ?h \<le> 9" using ledger_ok_header [OF l] by (simp add: header_ok_def)
  have e: "tf_envelope ?tf = tf_envelope tf" "tf_operations ?tf = tx_operations ?tx"
    "tr_feeCharged (tf_result ?tf) = tx_fee ?tx"
    by (simp_all add: resetResults_def)
  from r obtain a where a: "loadAccount l (tx_sourceAccount ?tx) = Some a"
    by (auto simp: processFeeSeqNum_def Let_def e split: option.split_asm)
  note la = conjunct2 [OF loadAccount_load [OF l a]]
  have am: "0 \<le> ac_balance a" "ac_balance a \<le> INT64_MAX" using la by (auto simp: account_ok_def)
  have s: "tf_operations tf' = tx_operations ?tx" "tf_envelope tf' = tf_envelope tf"
    using r a v by (auto simp: processFeeSeqNum_def Let_def bindE_def e split: if_split_asm sum.split_asm)
  let ?f = "min (ac_balance a) (tx_fee ?tx)"
  consider (paid) "tx_fee ?tx > 0" "?f > 0" | (free) "tx_fee ?tx \<le> 0 \<or> ?f = 0"
    using am by linarith
  then have "conserves l l'"
  proof cases
    case paid
    then have "addBalance (ac_balance a) (- ?f) INT64_MAX = Inr (Some (ac_balance a - ?f))"
      using addBalance_debit am by simp
    with r a v paid have "l' = setHeader (putAccount l (a\<lparr>ac_balance := ac_balance a - ?f\<rparr>))
        (?h\<lparr>lh_feePool := lh_feePool ?h + ?f\<rparr>)"
      by (simp add: processFeeSeqNum_def Let_def e)
    moreover have "account_ok (a\<lparr>ac_balance := ac_balance a - ?f\<rparr>)"
      using la paid am by (simp add: account_ok_def min_def)
    ultimately show ?thesis
      using charge_fee [OF l a, of "a\<lparr>ac_balance := ac_balance a - ?f\<rparr>" ?f] la by simp
  next
    case free
    have "addBalance (ac_balance a) 0 INT64_MAX = Inr (Some (ac_balance a))" using am by (simp add: addBalance_def)
    with free am r a v have "l' = setHeader (putAccount l a) (?h\<lparr>lh_feePool := lh_feePool ?h + 0\<rparr>)"
      by (auto simp: processFeeSeqNum_def Let_def bindE_def e split: if_split_asm)
    with charge_fee [OF l a _ _ _ refl, of a 0] la show ?thesis by simp
  qed
  with s show ?thesis by blast
qed

subsection \<open>The whole application\<close>

lemma Transaction_apply_cases:
  assumes l: "ledger_ok l"
  obtains (threw) e where "Transaction_apply app l tf = Inl (e, l, tf)"
    | (rejected) tf' l' where "Transaction_apply app l tf = Inr (False, tf', l')" "moves l 0 l'"
        "auth_change (app_contentsHash app (tf_tx tf)) tf l l'"
    | (applied) sc tf1 l1 where "moves l 0 l1" "auth_change (app_contentsHash app (tf_tx tf)) tf l l1"
        "same_frame tf tf1" "checkAllSignaturesUsed sc"
        "same_signatures (newSignatureChecker (lh_ledgerVersion (lg_header l))
           (app_contentsHash app (tf_tx tf)) (te_signatures (tf_envelope tf))) sc"
        "Transaction_apply app l tf = (case applyOperations app sc l1 tf1 of
           Inl e \<Rightarrow> Inl (e, l1, tf1) | Inr (ok, tf2, l2) \<Rightarrow> Inr (ok, tf2, l2))"
proof (cases "applyPrologue (newSignatureChecker (lh_ledgerVersion (lg_header l))
           (app_contentsHash app (tf_tx tf)) (te_signatures (tf_envelope tf))) l tf")
  case (Inl e)
  with threw show ?thesis by (simp add: Transaction_apply_def Let_def)
next
  case (Inr p)
  obtain ok tf1 sc1 l1 where p: "p = (ok, tf1, sc1, l1)" by (cases p) auto
  note st = applyPrologue_step [OF l Inr [unfolded p]]
  from st Inr p rejected [of tf1 l1] applied [of l1 tf1 sc1] show ?thesis
    by (cases ok) (simp_all add: Transaction_apply_def Let_def newSignatureChecker_def)
qed

lemma Transaction_apply_step:
  assumes "ledger_ok l" "list_all (op_typed \<circ> op_body) (tf_operations tf)"
  shows "case Transaction_apply app l tf of Inl (e, l', tf') \<Rightarrow> conserves l l' | Inr (ok, tf', l') \<Rightarrow> conserves l l'"
  using assms(1)
proof (cases rule: Transaction_apply_cases [of l app tf])
  case (threw e)
  with conserves_refl [OF assms(1)] show ?thesis by simp
next
  case (rejected tf' l')
  then show ?thesis by (simp add: conserves_moves)
next
  case (applied sc tf1 l1)
  then have c: "conserves l l1" by (simp add: conserves_moves)
  have t: "\<forall>op \<in> set (tf_operations tf1). op_typed (op_body op)"
    using applied(3) assms(2) by (simp add: same_frame_def list_all_iff)
  from applied(6) c applyOperations_step [OF conserves_ok [OF c] t] conserves_trans [OF c] show ?thesis
    by (auto split: sum.split)
qed

text \<open>C1. Applying a transaction conserves lumens and keeps the ledger well formed, whether it
  succeeds, fails or throws: the total of the coins less the fee pool and less what the accounts hold
  is the same before and after, and so is the number of the ledger, for every one of the thirteen operations, the trades across the order
  book and inflation included. The operands are within their XDR types.\<close>

theorem Transaction_apply_conserves:
  assumes "ledger_ok l" "list_all (op_typed \<circ> op_body) (tf_operations tf)"
  shows "case Transaction_apply app l tf of Inl (e, l', tf') \<Rightarrow> conserves l l' | Inr (ok, tf', l') \<Rightarrow> conserves l l'"
  by (rule Transaction_apply_step [OF assms])

text \<open>C2. A transaction is atomic: if its application fails or throws, then no balance, trust line,
  offer, data entry, flag, threshold or header field has changed, and no entry was created or erased.
  What is left concerns only the source account of the transaction and the sources of its operations:
  the sequence number of its own source account may have gone up by one, to the one the transaction
  carries, and each of these accounts may have lost one signer, the pre-authorisation of this very
  transaction, with the sub-entry it occupied. No signer is added and no other one is removed.\<close>

theorem Transaction_apply_atomic:
  assumes "ledger_ok l"
  shows "case Transaction_apply app l tf of
       Inl (e, l', tf') \<Rightarrow> auth_change (app_contentsHash app (tf_tx tf)) tf l l'
     | Inr (ok, tf', l') \<Rightarrow> ok \<or> auth_change (app_contentsHash app (tf_tx tf)) tf l l'"
  using assms
proof (cases rule: Transaction_apply_cases [of l app tf])
  case (threw e)
  then show ?thesis by (simp add: auth_change_def account_changes_refl)
next
  case (rejected tf' l')
  then show ?thesis by simp
next
  case (applied sc tf1 l1)
  then show ?thesis
    using applyOperations_failed [of app sc l1 tf1] by (fastforce split: sum.split)
qed

text \<open>What a checker that has no signature to look at accepts.\<close>

lemma preAuthLoop_True:
  "fst (preAuthLoop a n ss sc t) \<Longrightarrow> \<exists>s \<in> set ss. sg_key s = SIGNER_KEY_TYPE_PRE_AUTH_TX (sc_contentsHash sc)"
  by (induction a n ss sc t rule: preAuthLoop.induct) (auto simp: Let_def split: if_split_asm)

lemma checkSignature_unsigned:
  assumes "checkSignature sc a ss n = (True, sc')" "sc_protocolVersion sc \<noteq> 7" "sc_signatures sc = []"
  shows "\<exists>s \<in> set ss. sg_key s = SIGNER_KEY_TYPE_PRE_AUTH_TX (sc_contentsHash sc)"
proof -
  obtain d sc1 t where p: "preAuthLoop a n (filter isPreAuthTx ss) sc 0 = (d, sc1, t)" by (metis prod_cases3)
  have "sc_signatures sc1 = []" using same_signaturesD [OF preAuthLoop_same [OF p]] assms(3) by simp
  with assms p have d by (simp add: checkSignature_def verifyAll_iff split: if_split_asm)
  with preAuthLoop_True [of a n "filter isPreAuthTx ss" sc 0] p show ?thesis by auto
qed

lemma applyPrologue_valid:
  assumes "applyPrologue sc l tf = Inr (True, tf', sc', l')"
    and v: "lh_ledgerVersion (lg_header l) \<ge> 10" "sc_protocolVersion sc \<noteq> 7" "sc_signatures sc = []"
  shows "\<exists>a. loadAccount l (tx_sourceAccount (tf_tx tf)) = Some a
     \<and> (\<exists>s \<in> set (ac_signers a). sg_key s = SIGNER_KEY_TYPE_PRE_AUTH_TX (sc_contentsHash sc))"
proof -
  obtain tf1 sc1 where c: "commonValid sc l tf 0 True = Inr (kFullyValid, tf1, sc1)"
    using assms(1) by (auto simp: applyPrologue_def bindE_def split: sum.split_asm prod.split_asm if_split_asm)
  then obtain a n where a: "loadAccount l (tx_sourceAccount (tf_tx tf)) = Some a"
    and ok: "checkSignature_account sc a n = (True, sc1)"
    by (auto simp: commonValid_def Let_def bindE_def loadSourceAccount_def
        split: option.split_asm if_split_asm prod.split_asm sum.split_asm)
  from ok obtain s where "sg_key s = SIGNER_KEY_TYPE_PRE_AUTH_TX (sc_contentsHash sc)"
    "s \<in> set ((if th_master (ac_thresholds a) \<noteq> 0 then [\<lparr>sg_key = SIGNER_KEY_TYPE_ED25519 (ac_accountID a),
        sg_weight = th_master (ac_thresholds a)\<rparr>] else []) @ ac_signers a)"
    unfolding checkSignature_account_def Let_def using checkSignature_unsigned v(2,3) by blast
  with a show ?thesis by (auto split: if_split_asm)
qed

text \<open>C3. From protocol 10 on a transaction is applied only if it carries no signature at all and a
  signer of its source account is the pre-authorisation of this very transaction: \<^verbatim>\<open>checkSignature\<close>
  accepts before it verifies anything and so marks no signature as used, and \<^verbatim>\<open>processSignatures\<close>
  rejects a transaction with an unused signature. (The same signed transaction passes
  \<^verbatim>\<open>checkValid\<close>, whose test of the unused signatures is commented out.)\<close>

theorem applied_is_preauthorized:
  assumes "ledger_ok l" "Transaction_apply app l tf = Inr (True, tf', l')"
  shows "te_signatures (tf_envelope tf) = []
    \<and> (\<exists>a. loadAccount l (tx_sourceAccount (tf_tx tf)) = Some a
        \<and> (\<exists>s \<in> set (ac_signers a). sg_key s = SIGNER_KEY_TYPE_PRE_AUTH_TX (app_contentsHash app (tf_tx tf))))"
proof -
  let ?sc = "newSignatureChecker (lh_ledgerVersion (lg_header l)) (app_contentsHash app (tf_tx tf))
       (te_signatures (tf_envelope tf))"
  have v: "lh_ledgerVersion (lg_header l) \<ge> 10" using ledger_ok_header [OF assms(1)] by (simp add: header_ok_def)
  from assms(2) obtain tf1 sc1 l1 where p: "applyPrologue ?sc l tf = Inr (True, tf1, sc1, l1)"
    by (simp add: Transaction_apply_def Let_def split: sum.split_asm prod.split_asm if_split_asm)
  have "sc_usedOneTimeSignerKeys ?sc = []" by (simp add: newSignatureChecker_def)
  note st = applyPrologue_step [OF assms(1) p this]
  have "te_signatures (tf_envelope tf) = []"
    using checkAllSignaturesUsed_never [of _ _ _ sc1] st v by fastforce
  with applyPrologue_valid [OF p v] v show ?thesis by (simp add: newSignatureChecker_def)
qed

subsection \<open>Instances\<close>

text \<open>A ledger of two accounts. The first pre-authorised a payment of 70 that spends from the trade
  of nobody and may not overdraw, and one that does.\<close>

definition ex_holder :: "AccountID \<Rightarrow> int \<Rightarrow> Signer list \<Rightarrow> AccountEntry" where
  "ex_holder i b ss = \<lparr>ac_accountID = i, ac_balance = b, ac_seqNum = 0, ac_accountMarker = [],
     ac_numSubEntries = int (length ss), ac_inflationDest = None, ac_flags = 0, ac_homeDomain = [],
     ac_thresholds = ex_thresholds, ac_signers = ss, ac_ext = None\<rparr>"

definition ex_bank :: ledger where
  "ex_bank = \<lparr>lg_header = ex_header, lg_entries =
     [(AccountKey 1, ACCOUNT (ex_holder 1 900 [\<lparr>sg_key = SIGNER_KEY_TYPE_PRE_AUTH_TX 42, sg_weight = 1\<rparr>])),
      (AccountKey 2, ACCOUNT (ex_holder 2 100 []))]\<rparr>"

definition ex_app :: App where
  "ex_app = \<lparr>app_bitcoin = \<lparr>bn_rejects = (\<lambda>_. False), bn_generateFails = (\<lambda>_. False)\<rparr>, app_contentsHash = (\<lambda>_. 42)\<rparr>"

definition ex_payment :: "int \<Rightarrow> DecoratedSignature list \<Rightarrow> TransactionFrame" where
  "ex_payment amount sigs = resetResults (makeTransactionFromWire
     \<lparr>te_tx = \<lparr>tx_sourceAccount = 1, tx_fee = 100, tx_seqNum = 1, tx_timeBounds = None, tx_operations =
        [\<lparr>op_sourceAccount = None, op_body = PAYMENT
          \<lparr>py_destination = 2, py_asset = ASSET_TYPE_NATIVE, py_amount = amount\<rparr>\<rparr>]\<rparr>,
      te_signatures = sigs\<rparr>)"

lemma ex_bank_ok: "ledger_ok ex_bank"
  by (simp add: ledger_ok_def keyed_def ex_bank_def ex_ok)
    (simp add: ex_holder_def account_ok_def ext_buying_def ext_selling_def)

lemma ex_payment_runs:
  "case Transaction_apply ex_app ex_bank (ex_payment 70 []) of Inr (ok, tf', l') \<Rightarrow> ok | Inl _ \<Rightarrow> False"
  "case Transaction_apply ex_app ex_bank (ex_payment 899 []) of
     Inr (ok, tf', l') \<Rightarrow> \<not> ok \<and> tr_code (tf_result tf') = txFAILED
       \<and> loadAccount l' 1 = Some ((ex_holder 1 900 [])\<lparr>ac_seqNum := 1\<rparr>) | Inl _ \<Rightarrow> False"
  "te_signatures (tf_envelope (ex_payment 70 [])) = []"
  "list_all (op_typed \<circ> op_body) (tf_operations (ex_payment 70 []))"
  by code_simp+

theorem Transaction_apply_conserves_witness:
  "case Transaction_apply ex_app ex_bank (ex_payment 70 []) of
     Inl _ \<Rightarrow> False | Inr (ok, tf', l') \<Rightarrow> ok \<and> conserves ex_bank l'"
  using Transaction_apply_conserves [OF ex_bank_ok ex_payment_runs(4), of ex_app] ex_payment_runs(1)
  by (auto split: sum.splits)

theorem Transaction_apply_atomic_witness:
  "case Transaction_apply ex_app ex_bank (ex_payment 899 []) of
     Inl _ \<Rightarrow> False
   | Inr (ok, tf', l') \<Rightarrow> \<not> ok \<and> auth_change 42 (ex_payment 899 []) ex_bank l'
       \<and> loadAccount l' 1 = Some ((ex_holder 1 900 [])\<lparr>ac_seqNum := 1\<rparr>)"
proof -
  have "app_contentsHash ex_app (tf_tx (ex_payment 899 [])) = 42" by (simp add: ex_app_def)
  with Transaction_apply_atomic [OF ex_bank_ok, of ex_app "ex_payment 899 []"] ex_payment_runs(2)
  show ?thesis by (auto split: sum.splits)
qed

text \<open>The unsigned payment is applied; with a signature it would pass the check and never be applied.\<close>

lemma ex_signed_passes:
  "case Transaction_checkValid ex_app ex_bank (ex_payment 70 [\<lparr>ds_hint = [], ds_signature = []\<rparr>]) 0 of
     Inr (ok, tf') \<Rightarrow> ok | Inl _ \<Rightarrow> False"
  by code_simp

theorem applied_is_preauthorized_witness:
  "\<exists>a. loadAccount ex_bank (tx_sourceAccount (tf_tx (ex_payment 70 []))) = Some a
     \<and> (\<exists>s \<in> set (ac_signers a). sg_key s = SIGNER_KEY_TYPE_PRE_AUTH_TX
          (app_contentsHash ex_app (tf_tx (ex_payment 70 []))))"
proof -
  obtain tf' l' where "Transaction_apply ex_app ex_bank (ex_payment 70 []) = Inr (True, tf', l')"
    using ex_payment_runs(1) by (auto split: sum.splits)
  from applied_is_preauthorized [OF ex_bank_ok this] show ?thesis by blast
qed

end
