(* ===== verification/Tx_Set.thy ===== *)
theory Tx_Set
  imports Conservation_Transactions "HOL-Library.Multiset"
begin

section \<open>Transaction sets (src/src/herder/TxSetFrame.cpp)\<close>

text \<open>
  The set of transactions a ledger is closed with: its orders for hashing and for applying, the
  filter of surge pricing, and the validation that either rejects a set or trims it. The hash of an
  envelope and of a set are arguments (libsodium over bytes of the XDR library); a hash is a 256-bit
  word, whose order is the order of its bytes and whose \<open>XOR\<close> is taken byte by byte as well. The sorts
  of the code are not stable; here ties keep their order, and no property depends on that. A pointer
  to a frame is the frame. Validation updates the result inside a frame, which plays no part in the
  set and is left out.
\<close>

unbundle bit_operations_syntax

record Hashes =
  hs_full :: "TransactionEnvelope \<Rightarrow> uint256"
  hs_set :: "uint256 \<Rightarrow> TransactionEnvelope list \<Rightarrow> uint256"

text \<open>\<^verbatim>\<open>mHashIsValid\<close> with \<^verbatim>\<open>mHash\<close> is an optional hash.\<close>

record TxSetFrame =
  xs_previousLedgerHash :: uint256
  xs_transactions :: "TransactionFrame list"
  xs_hash :: "uint256 option"

record TransactionSet =
  xdr_previousLedgerHash :: uint256
  xdr_txs :: "TransactionEnvelope list"

definition getFullHash :: "Hashes \<Rightarrow> TransactionFrame \<Rightarrow> uint256" where
  "getFullHash hs tf = hs_full hs (tf_envelope tf)"

definition txSource :: "TransactionFrame \<Rightarrow> AccountID" where
  "txSource tf = tx_sourceAccount (tf_tx tf)"

definition txSeq :: "TransactionFrame \<Rightarrow> int" where
  "txSeq tf = tx_seqNum (tf_tx tf)"

definition lessThanXored :: "uint256 \<Rightarrow> uint256 \<Rightarrow> uint256 \<Rightarrow> bool" where
  "lessThanXored l r x \<longleftrightarrow> x XOR l < x XOR r"

definition emptyTxSet :: "uint256 \<Rightarrow> TxSetFrame" where
  "emptyTxSet prev = \<lparr>xs_previousLedgerHash = prev, xs_transactions = [], xs_hash = None\<rparr>"

definition txSetFromWire :: "TransactionSet \<Rightarrow> TxSetFrame" where
  "txSetFromWire xdr = \<lparr>xs_previousLedgerHash = xdr_previousLedgerHash xdr,
     xs_transactions = map makeTransactionFromWire (xdr_txs xdr), xs_hash = None\<rparr>"

definition txSet_toXDR :: "TxSetFrame \<Rightarrow> TransactionSet" where
  "txSet_toXDR s = \<lparr>xdr_previousLedgerHash = xs_previousLedgerHash s,
     xdr_txs = map tf_envelope (xs_transactions s)\<rparr>"

definition txSet_add :: "TxSetFrame \<Rightarrow> TransactionFrame \<Rightarrow> TxSetFrame" where
  "txSet_add s tx = s\<lparr>xs_transactions := xs_transactions s @ [tx], xs_hash := None\<rparr>"

definition removeTx :: "TxSetFrame \<Rightarrow> TransactionFrame \<Rightarrow> TxSetFrame" where
  "removeTx s tx = s\<lparr>xs_transactions := remove1 tx (xs_transactions s), xs_hash := None\<rparr>"

definition setPreviousLedgerHash :: "TxSetFrame \<Rightarrow> uint256 \<Rightarrow> TxSetFrame" where
  "setPreviousLedgerHash s prev = s\<lparr>xs_previousLedgerHash := prev, xs_hash := None\<rparr>"

subsection \<open>Hashing\<close>

definition sortForHash :: "Hashes \<Rightarrow> TxSetFrame \<Rightarrow> TxSetFrame" where
  "sortForHash hs s = s\<lparr>xs_transactions := sort_key (getFullHash hs) (xs_transactions s), xs_hash := None\<rparr>"

definition getContentsHash :: "Hashes \<Rightarrow> TxSetFrame \<Rightarrow> uint256 \<times> TxSetFrame" where
  "getContentsHash hs s = (case xs_hash s of
       Some h \<Rightarrow> (h, s)
     | None \<Rightarrow>
         let s1 = sortForHash hs s;
             h = hs_set hs (xs_previousLedgerHash s1) (map tf_envelope (xs_transactions s1)) in
         (h, s1\<lparr>xs_hash := Some h\<rparr>))"

subsection \<open>The order of application\<close>

text \<open>Batch \<open>i\<close> holds the \<open>i\<close>-th transaction of every account; the list of batches grows as needed.\<close>

fun buildBatches ::
    "TransactionFrame list \<Rightarrow> (AccountID \<times> nat) list \<Rightarrow> TransactionFrame list list \<Rightarrow> TransactionFrame list list" where
  "buildBatches [] accountTxCountMap txBatches = txBatches"
| "buildBatches (tx # txs) accountTxCountMap txBatches =
     (let v = (case map_of accountTxCountMap (txSource tx) of None \<Rightarrow> 0 | Some n \<Rightarrow> n);
          bs = (if v \<ge> length txBatches then txBatches @ replicate (v + 4 - length txBatches) [] else txBatches) in
      buildBatches txs (AList.update (txSource tx) (Suc v) accountTxCountMap) (bs[v := bs ! v @ [tx]]))"

definition sortForApply :: "Hashes \<Rightarrow> TxSetFrame \<Rightarrow> TransactionFrame list \<times> TxSetFrame" where
  "sortForApply hs s =
     (let retList = sort_key txSeq (xs_transactions s);
          batches = buildBatches retList [] (replicate 4 []);
          (h, s') = getContentsHash hs s in
      (concat (map (sort_key (\<lambda>tx. h XOR getFullHash hs tx)) batches), s'))"

subsection \<open>Surge pricing\<close>

text \<open>The quotient of the fee and the least fee as a double. The base fee is never zero, as no upgrade
  makes it so; the quotient of two integers below \<open>2\<^sup>5\<^sup>3\<close> has a scale below 124.\<close>

definition double_quotient :: "int \<Rightarrow> int \<Rightarrow> rat" where
  "double_quotient n d = (let k = scale_from 124 0 n d in of_int (round_half_even (n * 2 ^ k) d) / 2 ^ k)"

definition feeRatio :: "LedgerHeader \<Rightarrow> TransactionFrame \<Rightarrow> rat" where
  "feeRatio h tx = double_quotient (tx_fee (tf_tx tx)) (getMinFee tx h)"

definition accountFee :: "(AccountID \<times> rat) list \<Rightarrow> AccountID \<Rightarrow> rat" where
  "accountFee m a = (case map_of m a of None \<Rightarrow> 0 | Some r \<Rightarrow> r)"

definition noteFee :: "LedgerHeader \<Rightarrow> TransactionFrame \<Rightarrow> (AccountID \<times> rat) list \<Rightarrow> (AccountID \<times> rat) list" where
  "noteFee h tx m =
     (let r = feeRatio h tx; now = accountFee m (txSource tx) in
      if now = 0 then AList.update (txSource tx) r m
      else if r < now then AList.update (txSource tx) r m
      else m)"

definition surgeKey :: "(AccountID \<times> rat) list \<Rightarrow> TransactionFrame \<Rightarrow> rat \<times> AccountID \<times> int" where
  "surgeKey m tx = (- accountFee m (txSource tx), txSource tx, txSeq tx)"

definition surgePricingFilter :: "LedgerHeader \<Rightarrow> TxSetFrame \<Rightarrow> TxSetFrame" where
  "surgePricingFilter h s =
     (let maxSize = nat (lh_maxTxSetSize h) in
      if length (xs_transactions s) > maxSize then
        let accountFeeMap = fold (noteFee h) (xs_transactions s) [];
            tempList = sort_key (surgeKey accountFeeMap) (xs_transactions s) in
        fold (\<lambda>tx s. removeTx s tx) (drop maxSize tempList) s
      else s)"

subsection \<open>Checking and trimming\<close>

text \<open>The two callbacks are given the state they update. A callback that returns false ends the check.\<close>

fun checkAccountTxs ::
    "App \<Rightarrow> ledger \<Rightarrow> (TransactionFrame \<Rightarrow> int \<Rightarrow> 's \<Rightarrow> bool \<times> 's) \<Rightarrow> TransactionFrame list
       \<Rightarrow> TransactionFrame option \<Rightarrow> int \<Rightarrow> int \<Rightarrow> 's
       \<Rightarrow> cpp_error + (bool \<times> TransactionFrame option \<times> int \<times> 's)" where
  "checkAccountTxs app l processInvalidTx [] lastTx lastSeq totFee s = Inr (True, lastTx, totFee, s)"
| "checkAccountTxs app l processInvalidTx (tx # txs) lastTx lastSeq totFee s =
     bindE (Transaction_checkValid app l tx lastSeq) (\<lambda>(valid, tx').
     if \<not> valid then
       let (go, s') = processInvalidTx tx lastSeq s in
       if go then checkAccountTxs app l processInvalidTx txs lastTx lastSeq totFee s'
       else Inr (False, lastTx, totFee, s')
     else checkAccountTxs app l processInvalidTx txs (Some tx) (txSeq tx) (totFee + tx_fee (tf_tx tx)) s)"

fun checkAccounts ::
    "App \<Rightarrow> ledger \<Rightarrow> (TransactionFrame \<Rightarrow> int \<Rightarrow> 's \<Rightarrow> bool \<times> 's) \<Rightarrow> (TransactionFrame list \<Rightarrow> 's \<Rightarrow> bool \<times> 's)
       \<Rightarrow> TransactionFrame list list \<Rightarrow> 's \<Rightarrow> cpp_error + (bool \<times> 's)" where
  "checkAccounts app l processInvalidTx processInsufficientBalance [] s = Inr (True, s)"
| "checkAccounts app l processInvalidTx processInsufficientBalance (item # items) s =
     (let sorted = sort_key txSeq item in
      bindE (checkAccountTxs app l processInvalidTx sorted None 0 0 s) (\<lambda>(go, lastTx, totFee, s1).
      if \<not> go then Inr (False, s1)
      else case lastTx of
        None \<Rightarrow> checkAccounts app l processInvalidTx processInsufficientBalance items s1
      | Some tx \<Rightarrow>
          (case loadAccount l (txSource tx) of
             None \<Rightarrow> Inl (RuntimeError ''LedgerTxnEntry not active'')
           | Some source \<Rightarrow>
               bindE (getAvailableBalance (lg_header l) (ACCOUNT source)) (\<lambda>avail.
               if avail < totFee then
                 let (go', s2) = processInsufficientBalance sorted s1 in
                 if go' then checkAccounts app l processInvalidTx processInsufficientBalance items s2
                 else Inr (False, s2)
               else checkAccounts app l processInvalidTx processInsufficientBalance items s1))))"

text \<open>\<^verbatim>\<open>accountTxMap\<close>: the transactions by account, in the order of the accounts.\<close>

definition txsByAccount :: "TransactionFrame list \<Rightarrow> TransactionFrame list list" where
  "txsByAccount txs = map (\<lambda>a. filter (\<lambda>tx. txSource tx = a) txs) (sort (remdups (map txSource txs)))"

fun sortedByHash :: "Hashes \<Rightarrow> uint256 \<Rightarrow> TransactionFrame list \<Rightarrow> bool" where
  "sortedByHash hs lastHash [] = True"
| "sortedByHash hs lastHash (tx # txs) =
     (if getFullHash hs tx < lastHash then False else sortedByHash hs (getFullHash hs tx) txs)"

definition checkOrTrim ::
    "Hashes \<Rightarrow> App \<Rightarrow> ledger \<Rightarrow> (TransactionFrame \<Rightarrow> int \<Rightarrow> 's \<Rightarrow> bool \<times> 's)
       \<Rightarrow> (TransactionFrame list \<Rightarrow> 's \<Rightarrow> bool \<times> 's) \<Rightarrow> TransactionFrame list \<Rightarrow> 's \<Rightarrow> cpp_error + (bool \<times> 's)" where
  "checkOrTrim hs app l processInvalidTx processInsufficientBalance txs s =
     (if \<not> sortedByHash hs 0 txs then Inr (False, s)
      else checkAccounts app l processInvalidTx processInsufficientBalance (txsByAccount txs) s)"

text \<open>The trimmed transactions and the set that is left. The transactions of an account that cannot pay
  are listed once more if they were found invalid before.\<close>

definition trimTx :: "TransactionFrame \<Rightarrow> TxSetFrame \<times> TransactionFrame list \<Rightarrow> TxSetFrame \<times> TransactionFrame list" where
  "trimTx tx p = (removeTx (fst p) tx, snd p @ [tx])"

definition trimInvalid ::
    "Hashes \<Rightarrow> App \<Rightarrow> ledger \<Rightarrow> TxSetFrame \<Rightarrow> cpp_error + (TransactionFrame list \<times> TxSetFrame)" where
  "trimInvalid hs app l s =
     (let s1 = sortForHash hs s in
      bindE (checkOrTrim hs app l (\<lambda>tx lastSeq p. (True, trimTx tx p)) (\<lambda>item p. (True, fold trimTx item p))
               (xs_transactions s1) (s1, [])) (\<lambda>(ok, s2, trimmed).
      Inr (trimmed, s2)))"

definition TxSet_checkValid :: "Hashes \<Rightarrow> App \<Rightarrow> ledger \<Rightarrow> uint256 \<Rightarrow> TxSetFrame \<Rightarrow> cpp_error + bool" where
  "TxSet_checkValid hs app l lclHash s =
     (if lclHash \<noteq> xs_previousLedgerHash s then Inr False
      else if int (length (xs_transactions s)) > lh_maxTxSetSize (lg_header l) then Inr False
      else
        bindE (checkOrTrim hs app l (\<lambda>tx lastSeq u. (False, u)) (\<lambda>item u. (False, u)) (xs_transactions s) ())
          (\<lambda>(ok, u). Inr ok))"

subsection \<open>The order of application keeps every account in sequence\<close>

definition ofAccount :: "AccountID \<Rightarrow> TransactionFrame list \<Rightarrow> TransactionFrame list" where
  "ofAccount a txs = filter (\<lambda>tx. txSource tx = a) txs"

lemma ofAccount_append [simp]: "ofAccount a (xs @ ys) = ofAccount a xs @ ofAccount a ys"
  by (simp add: ofAccount_def)

lemma ofAccount_single: "ofAccount a [tx] = (if txSource tx = a then [tx] else [])"
  by (simp add: ofAccount_def)

definition batched :: "TransactionFrame list \<Rightarrow> (AccountID \<times> nat) list \<Rightarrow> TransactionFrame list list \<Rightarrow> bool" where
  "batched done cnt bs \<longleftrightarrow> mset (concat bs) = mset done
     \<and> (\<forall>a. (case map_of cnt a of None \<Rightarrow> 0 | Some n \<Rightarrow> n) = length (ofAccount a done)
          \<and> length (ofAccount a done) \<le> length bs
          \<and> (\<forall>i < length bs. ofAccount a (bs ! i)
               = (if i < length (ofAccount a done) then [ofAccount a done ! i] else [])))"

lemma mset_concat_update:
  "v < length bs \<Longrightarrow> mset (concat (bs[v := bs ! v @ [tx]])) = add_mset tx (mset (concat bs))"
  by (induction bs arbitrary: v) (auto split: nat.split)

lemma batched_step:
  assumes b: "batched done cnt bs" and v: "v = length (ofAccount (txSource tx) done)"
    and bs: "bs' = (if v \<ge> length bs then bs @ replicate (v + 4 - length bs) [] else bs)"
  shows "batched (done @ [tx]) (AList.update (txSource tx) (Suc v) cnt) (bs'[v := bs' ! v @ [tx]])"
proof -
  have len: "v < length bs'" "length bs \<le> length bs'" using bs by auto
  have ext: "bs' ! i = (if i < length bs then bs ! i else [])" if "i < length bs'" for i
    using that bs by (auto simp: nth_append)
  have "mset (concat bs') = mset (concat bs)" by (auto simp: bs concat_replicate_trivial)
  then have "mset (concat (bs'[v := bs' ! v @ [tx]])) = mset (done @ [tx])"
    using mset_concat_update [OF len(1), of tx] b by (simp add: batched_def)
  moreover have "(case map_of (AList.update (txSource tx) (Suc v) cnt) a of None \<Rightarrow> 0 | Some n \<Rightarrow> n)
        = length (ofAccount a (done @ [tx]))" for a
    using b v by (simp add: batched_def update_conv' ofAccount_single)
  moreover have "length (ofAccount a (done @ [tx])) \<le> length (bs'[v := bs' ! v @ [tx]])" for a
    using b v len by (auto simp: batched_def ofAccount_single intro: order_trans [of _ "length bs"])
  moreover have "ofAccount a (bs'[v := bs' ! v @ [tx]] ! i)
        = (if i < length (ofAccount a (done @ [tx])) then [ofAccount a (done @ [tx]) ! i] else [])"
    if i: "i < length bs'" for a i
  proof -
    have old: "ofAccount a (bs' ! i) = (if i < length (ofAccount a done) then [ofAccount a done ! i] else [])"
    proof (cases "i < length bs")
      case True
      with ext [OF i] b show ?thesis by (simp add: batched_def)
    next
      case False
      moreover have "length (ofAccount a done) \<le> length bs" using b by (simp add: batched_def)
      ultimately show ?thesis using ext [OF i] by (simp add: ofAccount_def)
    qed
    show ?thesis
    proof (cases "i = v")
      case True
      with old len v show ?thesis by (auto simp: ofAccount_single nth_append)
    next
      case False
      with old v show ?thesis by (auto simp: ofAccount_single nth_append)
    qed
  qed
  ultimately show ?thesis by (simp add: batched_def)
qed

lemma buildBatches_batched:
  "batched done cnt bs \<Longrightarrow> \<exists>cnt'. batched (done @ txs) cnt' (buildBatches txs cnt bs)"
proof (induction txs arbitrary: "done" cnt bs)
  case (Cons tx txs)
  let ?v = "length (ofAccount (txSource tx) done)"
  have v: "(case map_of cnt (txSource tx) of None \<Rightarrow> 0 | Some n \<Rightarrow> n) = ?v"
    using Cons.prems by (simp add: batched_def)
  from Cons.IH [OF batched_step [OF Cons.prems refl refl]] show ?case
    by (simp only: buildBatches.simps Let_def v append_assoc append_Cons append_Nil)
qed auto

lemma concat_singles: "length L \<le> m \<Longrightarrow> concat (map (\<lambda>i. if i < length L then [L ! i] else []) [0..<m]) = L"
proof (induction m arbitrary: L)
  case (Suc m)
  show ?case
  proof (cases "length L \<le> m")
    case True
    with Suc show ?thesis by simp
  next
    case False
    with Suc.prems have len: "length L = Suc m" by simp
    then obtain K x where L: "L = K @ [x]" by (metis append_butlast_last_id list.size(3) nat.distinct(1))
    with len have K: "length K = m" by simp
    have "map (\<lambda>i. if i < length L then [L ! i] else []) [0..<m]
        = map (\<lambda>i. if i < length K then [K ! i] else []) [0..<m]"
      using K L by (intro map_cong) (auto simp: nth_append)
    then have "concat (map (\<lambda>i. if i < length L then [L ! i] else []) [0..<m]) = K"
      using Suc.IH [of K] K by (simp only: order_refl)
    moreover have "(K @ [x]) ! m = x" using K by (simp add: nth_append)
    ultimately show ?thesis using K L by simp
  qed
qed simp

lemma concat_batches:
  assumes "batched done cnt bs"
  shows "ofAccount a (concat (map (sort_key f) bs)) = ofAccount a done"
proof -
  have one: "ofAccount a (sort_key f b) = ofAccount a b" if "length (ofAccount a b) \<le> 1" for b
    using that by (cases "ofAccount a b") (auto simp: ofAccount_def filter_sort)
  have "ofAccount a (concat (map (sort_key f) bs)) = concat (map (ofAccount a \<circ> sort_key f) bs)"
    by (simp add: ofAccount_def filter_concat comp_def)
  also have "map (ofAccount a \<circ> sort_key f) bs
      = map (\<lambda>i. if i < length (ofAccount a done) then [ofAccount a done ! i] else []) [0..<length bs]"
  proof (rule nth_equalityI)
    fix i assume i: "i < length (map (ofAccount a \<circ> sort_key f) bs)"
    then have "ofAccount a (bs ! i) = (if i < length (ofAccount a done) then [ofAccount a done ! i] else [])"
      using assms by (simp add: batched_def)
    with i one [of "bs ! i"] show "map (ofAccount a \<circ> sort_key f) bs ! i
        = map (\<lambda>i. if i < length (ofAccount a done) then [ofAccount a done ! i] else []) [0..<length bs] ! i"
      by (auto split: if_split_asm)
  qed simp
  also have "concat \<dots> = ofAccount a done" using assms by (intro concat_singles) (simp add: batched_def)
  finally show ?thesis .
qed

lemma mset_concat_sorted: "mset (concat (map (sort_key f) bs)) = mset (concat bs)"
  by (induction bs) simp_all

lemma sortForApply_mset: "mset (fst (sortForApply hs s)) = mset (xs_transactions s)"
proof -
  let ?l = "sort_key txSeq (xs_transactions s)"
  have "batched [] [] (replicate 4 [])" by (simp add: batched_def ofAccount_def)
  from buildBatches_batched [OF this, of ?l] obtain cnt where
    "batched ?l cnt (buildBatches ?l [] (replicate 4 []))" by auto
  moreover obtain h s' where "getContentsHash hs s = (h, s')" by (cases "getContentsHash hs s")
  ultimately show ?thesis by (simp add: sortForApply_def mset_concat_sorted batched_def)
qed

text \<open>The order in which a set is applied has exactly the transactions of the set, and the
  transactions of every account come in the order of their sequence numbers, whatever the hash of the
  set does to the order between accounts.\<close>

theorem sortForApply_in_sequence:
  "mset (fst (sortForApply hs s)) = mset (xs_transactions s)
   \<and> (\<forall>a. sorted (map txSeq (filter (\<lambda>tx. txSource tx = a) (fst (sortForApply hs s)))))
   \<and> mset (xs_transactions (snd (sortForApply hs s))) = mset (xs_transactions s)"
proof -
  let ?l = "sort_key txSeq (xs_transactions s)"
  have "batched [] [] (replicate 4 [])" by (simp add: batched_def ofAccount_def)
  from buildBatches_batched [OF this, of ?l] obtain cnt where
    b: "batched ?l cnt (buildBatches ?l [] (replicate 4 []))" by auto
  obtain h s' where h: "getContentsHash hs s = (h, s')" by (cases "getContentsHash hs s")
  have eq: "sortForApply hs s = (concat (map (sort_key (\<lambda>tx. h XOR getFullHash hs tx)) (buildBatches ?l [] (replicate 4 []))), s')"
    by (simp add: sortForApply_def h)
  have "sorted (map txSeq (ofAccount a (fst (sortForApply hs s))))" for a
  proof -
    have "sorted (map txSeq (ofAccount a ?l))" unfolding ofAccount_def by (intro sorted_filter) simp
    then show ?thesis unfolding eq fst_conv concat_batches [OF b] .
  qed
  moreover note sortForApply_mset [of hs s]
  moreover have "mset (xs_transactions (snd (sortForApply hs s))) = mset (xs_transactions s)"
    using h unfolding eq snd_conv
    by (auto simp: getContentsHash_def sortForHash_def Let_def split: option.split_asm)
  ultimately show ?thesis unfolding ofAccount_def by blast
qed

subsection \<open>Surge pricing\<close>

lemma fold_removeTx:
  "xs_transactions (fold (\<lambda>tx s. removeTx s tx) txs s) = fold remove1 txs (xs_transactions s)"
  by (induction txs arbitrary: s) (simp_all add: removeTx_def)

lemma mset_fold_remove1: "mset (fold remove1 rs xs) = mset xs - mset rs"
  by (induction rs arbitrary: xs) simp_all

text \<open>The ratio of a fee to the least fee, without the rounding to a double. A double errs by one part in
  \<open>2\<^sup>5\<^sup>3\<close> at most.\<close>

definition exactRatio :: "LedgerHeader \<Rightarrow> TransactionFrame \<Rightarrow> rat" where
  "exactRatio h tx = of_int (tx_fee (tf_tx tx)) / of_int (getMinFee tx h)"

lemma round_rat_error: "\<bar>of_int (round_rat x) - x\<bar> \<le> 1 / 2"
proof -
  have "of_int \<lfloor>x\<rfloor> \<le> x" "x < of_int \<lfloor>x\<rfloor> + 1" by linarith+
  then show ?thesis by (auto simp: round_rat_def Let_def abs_le_iff)
qed

lemma double_quotient_error:
  assumes "0 < d" "d \<le> n"
  shows "\<bar>double_quotient n d - of_int n / of_int d\<bar> \<le> of_int n / of_int d / 2 ^ 53"
proof -
  define k where "k = scale_from 124 0 n d"
  let ?x = "of_int n / of_int d :: rat"
  have "d * 2 ^ 52 \<le> n * 2 ^ (0 + 124)" using assms by (intro mult_mono) auto
  then have "d * 2 ^ 52 \<le> n * 2 ^ k" using scale_from_spec [OF assms(1), of n 0 124] by (simp add: k_def)
  then have "(of_int (d * 2 ^ 52) :: rat) \<le> of_int (n * 2 ^ k)" unfolding of_int_le_iff .
  then have big: "2 ^ 52 \<le> ?x * 2 ^ k" using assms(1) by (simp add: field_simps)
  have "double_quotient n d = of_int (round_rat (?x * 2 ^ k)) / 2 ^ k"
    using round_half_even_rat [OF assms(1), of "n * 2 ^ k"] by (simp add: double_quotient_def Let_def k_def mult.commute)
  then have "double_quotient n d - ?x = (of_int (round_rat (?x * 2 ^ k)) - ?x * 2 ^ k) / 2 ^ k"
    by (simp add: diff_divide_distrib)
  then have "\<bar>double_quotient n d - ?x\<bar> = \<bar>of_int (round_rat (?x * 2 ^ k)) - ?x * 2 ^ k\<bar> / 2 ^ k"
    by (simp add: abs_divide)
  also have "\<dots> \<le> (1 / 2) / 2 ^ k" by (intro divide_right_mono round_rat_error) simp
  also have "\<dots> \<le> (?x * 2 ^ k / 2 ^ 53) / 2 ^ k"
  proof (rule divide_right_mono)
    show "1 / 2 \<le> ?x * 2 ^ k / 2 ^ 53" using divide_right_mono [OF big, of "2 ^ 53"] by simp
  qed simp
  finally show ?thesis by simp
qed

text \<open>Every transaction pays at least the least fee, as all do that were found valid.\<close>

definition feesPaid :: "LedgerHeader \<Rightarrow> TransactionFrame list \<Rightarrow> bool" where
  "feesPaid h txs \<longleftrightarrow> 0 < lh_baseFee h \<and> (\<forall>tx \<in> set txs. getMinFee tx h \<le> tx_fee (tf_tx tx))"

lemma feesPaid_ratio:
  assumes "feesPaid h txs" "tx \<in> set txs"
  shows "\<bar>feeRatio h tx - exactRatio h tx\<bar> \<le> exactRatio h tx / 2 ^ 53" "1 \<le> exactRatio h tx" "0 < feeRatio h tx"
proof -
  have d: "0 < getMinFee tx h" "getMinFee tx h \<le> tx_fee (tf_tx tx)"
    using assms by (auto simp: feesPaid_def getMinFee_def)
  show e: "\<bar>feeRatio h tx - exactRatio h tx\<bar> \<le> exactRatio h tx / 2 ^ 53"
    unfolding feeRatio_def exactRatio_def by (rule double_quotient_error [OF d])
  show x: "1 \<le> exactRatio h tx" using d by (simp add: exactRatio_def)
  have "exactRatio h tx / 2 ^ 53 < exactRatio h tx" using x by simp
  with e show "0 < feeRatio h tx" by linarith
qed

lemma feeRatio_le:
  assumes "feesPaid h txs" "tx \<in> set txs" "tx' \<in> set txs" "feeRatio h tx \<le> feeRatio h tx'"
  shows "exactRatio h tx \<le> exactRatio h tx' * (1 + 1 / 2 ^ 51)"
proof -
  have "exactRatio h tx - exactRatio h tx / 2 ^ 53 \<le> exactRatio h tx' + exactRatio h tx' / 2 ^ 53"
    using feesPaid_ratio(1) [OF assms(1,2)] feesPaid_ratio(1) [OF assms(1,3)] assms(4) unfolding abs_le_iff by linarith
  moreover have "0 \<le> exactRatio h tx'" using feesPaid_ratio(2) [OF assms(1,3)] by simp
  ultimately show ?thesis by simp
qed

text \<open>The map of fees has for each account the least ratio among its transactions.\<close>

lemma accountFee_least:
  assumes "\<forall>tx \<in> set txs. 0 < feeRatio h tx"
  shows "if a \<in> txSource ` set txs
    then (\<exists>tx \<in> set txs. txSource tx = a \<and> accountFee (fold (noteFee h) txs []) a = feeRatio h tx)
      \<and> (\<forall>tx \<in> set txs. txSource tx = a \<longrightarrow> accountFee (fold (noteFee h) txs []) a \<le> feeRatio h tx)
    else accountFee (fold (noteFee h) txs []) a = 0"
  using assms
proof (induction txs rule: rev_induct)
  case Nil
  then show ?case by (simp add: accountFee_def)
next
  case (snoc tx txs)
  let ?m = "fold (noteFee h) txs []"
  have upd: "accountFee (AList.update b r m) i = (if i = b then r else accountFee m i)" for b r m i
    by (simp add: accountFee_def update_conv')
  have m: "accountFee (fold (noteFee h) (txs @ [tx]) []) a = (if a = txSource tx \<and> (accountFee ?m a = 0 \<or> feeRatio h tx < accountFee ?m a)
      then feeRatio h tx else accountFee ?m a)"
    by (auto simp: noteFee_def Let_def upd)
  show ?case
  proof (cases "a \<in> txSource ` set txs")
    case True
    with snoc obtain tx0 where "tx0 \<in> set txs" "txSource tx0 = a" "accountFee ?m a = feeRatio h tx0"
      "\<forall>tx \<in> set txs. txSource tx = a \<longrightarrow> accountFee ?m a \<le> feeRatio h tx" "0 < feeRatio h tx0" by auto
    then show ?thesis unfolding m by (auto intro: order_trans)
  next
    case False
    with snoc have "accountFee ?m a = 0" by simp
    moreover from False have "\<forall>t \<in> set txs. txSource t \<noteq> a" by auto
    ultimately show ?thesis unfolding m by auto
  qed
qed

lemma accountFee_worst:
  assumes fp: "feesPaid h txs" and txs: "tx \<in> set txs" "tx' \<in> set txs"
    and le: "accountFee (fold (noteFee h) txs []) (txSource tx') \<le> accountFee (fold (noteFee h) txs []) (txSource tx)"
  shows "\<exists>low \<in> set txs. txSource low = txSource tx'
    \<and> (\<forall>t \<in> set txs. txSource t = txSource tx \<longrightarrow> exactRatio h low \<le> exactRatio h t * (1 + 1 / 2 ^ 51))"
proof -
  have pos: "\<forall>tx \<in> set txs. 0 < feeRatio h tx" using feesPaid_ratio(3) [OF fp] by blast
  from accountFee_least [OF pos, of "txSource tx'"] txs(2) obtain low where low: "low \<in> set txs"
    "txSource low = txSource tx'" "accountFee (fold (noteFee h) txs []) (txSource tx') = feeRatio h low" by auto
  have "exactRatio h low \<le> exactRatio h t * (1 + 1 / 2 ^ 51)" if t: "t \<in> set txs" "txSource t = txSource tx" for t
  proof -
    have "accountFee (fold (noteFee h) txs []) (txSource tx) \<le> feeRatio h t"
      using accountFee_least [OF pos, of "txSource tx"] txs(1) t by auto
    with le low(3) have "feeRatio h low \<le> feeRatio h t" by simp
    then show ?thesis by (rule feeRatio_le [OF fp low(1) t(1)])
  qed
  with low show ?thesis by blast
qed

text \<open>C20. When a set is larger than the ledger allows, surge pricing keeps exactly as many transactions
  as fit. What it keeps of an account is without gaps, a transaction of lower sequence number being
  kept with every later one. And it keeps the accounts that pay best: if an account loses a transaction
  while another keeps one, then some transaction of the first offers no higher ratio of fee to least
  fee than any transaction of the second, up to the rounding of doubles, which is one part in \<open>2\<^sup>5\<^sup>1\<close>
  at most. This last part is for sets in which every transaction offers the least fee, as in the sets
  that were trimmed before. A set that fits is left alone.\<close>

theorem surgePricingFilter_fair:
  assumes "s' = surgePricingFilter h s"
  shows "if length (xs_transactions s) \<le> nat (lh_maxTxSetSize h) then s' = s
    else length (xs_transactions s') = nat (lh_maxTxSetSize h)
      \<and> mset (xs_transactions s') \<subseteq># mset (xs_transactions s)
      \<and> (\<forall>tx \<in> set (xs_transactions s'). \<forall>tx' \<in># mset (xs_transactions s) - mset (xs_transactions s').
           (txSource tx' = txSource tx \<longrightarrow> txSeq tx \<le> txSeq tx')
           \<and> (feesPaid h (xs_transactions s) \<longrightarrow>
                (\<exists>low \<in> set (xs_transactions s). txSource low = txSource tx'
                   \<and> (\<forall>t \<in> set (xs_transactions s). txSource t = txSource tx \<longrightarrow>
                        exactRatio h low \<le> exactRatio h t * (1 + 1 / 2 ^ 51)))))"
proof (cases "length (xs_transactions s) \<le> nat (lh_maxTxSetSize h)")
  case True
  with assms show ?thesis by (simp add: surgePricingFilter_def)
next
  case False
  let ?txs = "xs_transactions s" and ?m = "fold (noteFee h) (xs_transactions s) []"
  let ?n = "nat (lh_maxTxSetSize h)"
  let ?tmp = "sort_key (surgeKey ?m) ?txs"
  have s': "xs_transactions s' = fold remove1 (drop ?n ?tmp) ?txs"
    using assms False by (simp add: surgePricingFilter_def Let_def fold_removeTx)
  have "mset ?txs = mset (take ?n ?tmp) + mset (drop ?n ?tmp)"
    by (metis append_take_drop_id mset_append mset_sort)
  then have kept: "mset (xs_transactions s') = mset (take ?n ?tmp)"
    and cut: "mset ?txs - mset (xs_transactions s') = mset (drop ?n ?tmp)"
    and sub: "mset (xs_transactions s') \<subseteq># mset ?txs"
    unfolding s' mset_fold_remove1 by simp_all
  have "length (xs_transactions s') = length (take ?n ?tmp)" using kept by (metis size_mset)
  then have len: "length (xs_transactions s') = ?n" using False by simp
  have le: "surgeKey ?m tx \<le> surgeKey ?m tx'" if "tx \<in> set (take ?n ?tmp)" "tx' \<in> set (drop ?n ?tmp)" for tx tx'
  proof -
    have "sorted (map (surgeKey ?m) (take ?n ?tmp @ drop ?n ?tmp))" by simp
    then show ?thesis using that by (simp only: map_append sorted_append set_map) blast
  qed
  have "(txSource tx' = txSource tx \<longrightarrow> txSeq tx \<le> txSeq tx')
      \<and> (feesPaid h ?txs \<longrightarrow> (\<exists>low \<in> set ?txs. txSource low = txSource tx'
           \<and> (\<forall>t \<in> set ?txs. txSource t = txSource tx \<longrightarrow> exactRatio h low \<le> exactRatio h t * (1 + 1 / 2 ^ 51))))"
    if "tx \<in> set (xs_transactions s')" "tx' \<in># mset ?txs - mset (xs_transactions s')" for tx tx'
  proof -
    from that have p: "tx \<in> set (take ?n ?tmp)" "tx' \<in> set (drop ?n ?tmp)"
      using kept unfolding cut by (metis set_mset_mset, simp)
    then have txs: "tx \<in> set ?txs" "tx' \<in> set ?txs"
      by (metis in_set_takeD set_sort, metis in_set_dropD set_sort)
    from le [OF p] have k: "accountFee ?m (txSource tx') \<le> accountFee ?m (txSource tx)"
      "txSource tx' = txSource tx \<longrightarrow> txSeq tx \<le> txSeq tx'" by (auto simp: surgeKey_def less_eq_prod_def)
    with accountFee_worst [OF _ txs] show ?thesis by blast
  qed
  with False len sub show ?thesis by simp
qed

subsection \<open>A trimmed set is valid\<close>

definition validAfter :: "App \<Rightarrow> ledger \<Rightarrow> TransactionFrame \<Rightarrow> int \<Rightarrow> bool" where
  "validAfter app l tx lastSeq = (case Transaction_checkValid app l tx lastSeq of Inl _ \<Rightarrow> False | Inr (valid, _) \<Rightarrow> valid)"

text \<open>The transactions of an account that are valid one after another, and the others.\<close>

fun accepted :: "App \<Rightarrow> ledger \<Rightarrow> TransactionFrame list \<Rightarrow> int \<Rightarrow> TransactionFrame list" where
  "accepted app l [] lastSeq = []"
| "accepted app l (tx # txs) lastSeq =
     (if validAfter app l tx lastSeq then tx # accepted app l txs (txSeq tx) else accepted app l txs lastSeq)"

fun rejected :: "App \<Rightarrow> ledger \<Rightarrow> TransactionFrame list \<Rightarrow> int \<Rightarrow> TransactionFrame list" where
  "rejected app l [] lastSeq = []"
| "rejected app l (tx # txs) lastSeq =
     (if validAfter app l tx lastSeq then rejected app l txs (txSeq tx) else tx # rejected app l txs lastSeq)"

lemma mset_accepted_rejected: "mset (accepted app l txs n) + mset (rejected app l txs n) = mset txs"
  by (induction app l txs n rule: accepted.induct) auto

lemma set_accepted: "set (accepted app l txs n) \<subseteq> set txs"
  by (metis mset_accepted_rejected mset_subset_eq_add_left set_mset_mono set_mset_mset)

lemma set_rejected: "set (rejected app l txs n) \<subseteq> set txs"
  by (metis mset_accepted_rejected mset_subset_eq_add_right set_mset_mono set_mset_mset)

definition feeSum :: "TransactionFrame list \<Rightarrow> int" where
  "feeSum txs = sum_list (map (\<lambda>tx. tx_fee (tf_tx tx)) txs)"

lemma checkAccountTxs_trim:
  "checkAccountTxs app l (\<lambda>tx lastSeq p. (True, trimTx tx p)) txs lastTx lastSeq totFee p = Inr (go, last', fee', p')
   \<Longrightarrow> go \<and> p' = fold trimTx (rejected app l txs lastSeq) p \<and> fee' = totFee + feeSum (accepted app l txs lastSeq)
     \<and> last' = (if accepted app l txs lastSeq = [] then lastTx else Some (last (accepted app l txs lastSeq)))"
proof (induction txs arbitrary: lastTx lastSeq totFee p)
  case (Cons tx txs)
  from Cons.prems obtain valid tx' where v: "Transaction_checkValid app l tx lastSeq = Inr (valid, tx')"
    by (auto simp: bindE_def split: sum.split_asm)
  show ?case
  proof (cases valid)
    case True
    with Cons.prems v have "checkAccountTxs app l (\<lambda>tx lastSeq p. (True, trimTx tx p)) txs (Some tx) (txSeq tx)
        (totFee + tx_fee (tf_tx tx)) p = Inr (go, last', fee', p')" by simp
    from Cons.IH [OF this] True v show ?thesis by (simp add: validAfter_def feeSum_def)
  next
    case False
    with Cons.prems v have "checkAccountTxs app l (\<lambda>tx lastSeq p. (True, trimTx tx p)) txs lastTx lastSeq totFee
        (trimTx tx p) = Inr (go, last', fee', p')" by simp
    from Cons.IH [OF this] False v show ?thesis by (simp add: validAfter_def)
  qed
qed (auto simp: feeSum_def)

lemma checkAccountTxs_valid:
  assumes "accepted app l txs lastSeq = txs"
  shows "checkAccountTxs app l f txs lastTx lastSeq totFee s
    = Inr (True, if txs = [] then lastTx else Some (last txs), totFee + feeSum txs, s)"
  using assms
proof (induction txs arbitrary: lastTx lastSeq totFee)
  case (Cons tx txs)
  have "length (accepted app l txs lastSeq) \<le> length txs"
    by (metis mset_accepted_rejected mset_subset_eq_add_left size_mset size_mset_mono)
  with Cons.prems have v: "validAfter app l tx lastSeq" "accepted app l txs (txSeq tx) = txs"
    by (auto split: if_split_asm)
  then obtain tx' where "Transaction_checkValid app l tx lastSeq = Inr (True, tx')"
    by (auto simp: validAfter_def split: sum.split_asm)
  with Cons.IH [OF v(2)] show ?case by (simp add: feeSum_def)
qed (simp add: feeSum_def)

lemma accepted_idem: "accepted app l (accepted app l txs n) n = accepted app l txs n"
  by (induction app l txs n rule: accepted.induct) auto

text \<open>Each valid transaction follows the one before, so the sequence numbers increase.\<close>

lemma validAfter_seq:
  assumes "validAfter app l tx n" "n \<noteq> 0"
  shows "txSeq tx = n + 1"
proof -
  from assms(1) obtain tx' where "Transaction_checkValid app l tx n = Inr (True, tx')"
    by (auto simp: validAfter_def split: sum.split_asm)
  then show ?thesis
    using assms(2)
    by (auto simp: Transaction_checkValid_def commonValid_def Let_def txSeq_def resetResults_def
        split: option.split_asm if_split_asm prod.split_asm)
qed

lemma accepted_chain: "0 < n \<Longrightarrow> sorted_wrt (<) (n # map txSeq (accepted app l txs n))"
proof (induction app l txs n rule: accepted.induct)
  case (2 app l tx txs n)
  show ?case
  proof (cases "validAfter app l tx n")
    case True
    with validAfter_seq 2(3) have "txSeq tx = n + 1" by simp
    with True 2(1) [OF True] 2(3) show ?thesis by auto
  next
    case False
    with 2(2) [OF False] 2(3) show ?thesis by simp
  qed
qed simp

definition seqs_ok :: "ledger \<Rightarrow> bool" where
  "seqs_ok l \<longleftrightarrow> (\<forall>a acc. loadAccount l a = Some acc \<longrightarrow> 0 \<le> ac_seqNum acc)"

lemma validAfter_first:
  assumes "validAfter app l tx 0" "seqs_ok l"
  shows "0 < txSeq tx"
proof -
  from assms(1) obtain tx' where "Transaction_checkValid app l tx 0 = Inr (True, tx')"
    by (auto simp: validAfter_def split: sum.split_asm)
  then obtain acc where "loadAccount l (txSource tx) = Some acc" "txSeq tx = ac_seqNum acc + 1"
    by (auto simp: Transaction_checkValid_def commonValid_def Let_def txSeq_def txSource_def resetResults_def
        loadSourceAccount_def split: option.split_asm if_split_asm prod.split_asm)
  with assms(2) show ?thesis by (auto simp: seqs_ok_def)
qed

lemma accepted_increasing:
  "seqs_ok l \<Longrightarrow> sorted_wrt (<) (map txSeq (accepted app l txs 0))"
proof (induction txs)
  case (Cons tx txs)
  show ?case
  proof (cases "validAfter app l tx 0")
    case True
    with accepted_chain [of "txSeq tx" app l txs] validAfter_first [OF True Cons.prems] show ?thesis by simp
  next
    case False
    with Cons show ?thesis by simp
  qed
qed simp

lemma sort_key_increasing:
  assumes "mset xs = mset ys" "sorted_wrt (<) (map f ys)"
  shows "sort_key f xs = ys"
proof (rule sort_key_inj_key_eq [OF assms(1)])
  from assms(2) have "distinct (map f ys)" by (simp add: strict_sorted_iff)
  then show "inj_on f (set xs)" using mset_eq_setD [OF assms(1)] by (simp add: distinct_map)
qed (use assms(2) in \<open>simp add: strict_sorted_iff\<close>)

text \<open>What trimming removes of the transactions of one account.\<close>

definition availableFor :: "ledger \<Rightarrow> AccountID \<Rightarrow> int option" where
  "availableFor l a = (case loadAccount l a of None \<Rightarrow> None
     | Some acc \<Rightarrow> (case getAvailableBalance (lg_header l) (ACCOUNT acc) of Inl _ \<Rightarrow> None | Inr n \<Rightarrow> Some n))"

definition unpaid :: "App \<Rightarrow> ledger \<Rightarrow> TransactionFrame list \<Rightarrow> bool" where
  "unpaid app l item = (let acc = accepted app l (sort_key txSeq item) 0 in
     acc \<noteq> [] \<and> (case availableFor l (txSource (last acc)) of None \<Rightarrow> True | Some n \<Rightarrow> n < feeSum acc))"

definition removedOf :: "App \<Rightarrow> ledger \<Rightarrow> TransactionFrame list \<Rightarrow> TransactionFrame list" where
  "removedOf app l item = rejected app l (sort_key txSeq item) 0 @ (if unpaid app l item then sort_key txSeq item else [])"

lemma checkAccounts_trim:
  "checkAccounts app l (\<lambda>tx lastSeq p. (True, trimTx tx p)) (\<lambda>item p. (True, fold trimTx item p)) items p = Inr (ok, p')
   \<Longrightarrow> ok \<and> p' = fold trimTx (concat (map (removedOf app l) items)) p"
proof (induction items arbitrary: p)
  case (Cons item items)
  let ?sorted = "sort_key txSeq item"
  let ?acc = "accepted app l ?sorted 0"
  from Cons.prems obtain go lastTx totFee p1 where
    c: "checkAccountTxs app l (\<lambda>tx lastSeq p. (True, trimTx tx p)) ?sorted None 0 0 p = Inr (go, lastTx, totFee, p1)"
    by (auto simp: Let_def bindE_def split: sum.split_asm)
  note t = checkAccountTxs_trim [OF c]
  show ?case
  proof (cases "?acc = []")
    case True
    then have "\<not> unpaid app l item" by (simp add: unpaid_def)
    with True t c Cons.prems Cons.IH [of p1] show ?thesis by (simp add: removedOf_def Let_def)
  next
    case False
    with t have lt: "lastTx = Some (last ?acc)" "go" "totFee = feeSum ?acc" by auto
    with Cons.prems c obtain source avail where s: "loadAccount l (txSource (last ?acc)) = Some source"
      "getAvailableBalance (lg_header l) (ACCOUNT source) = Inr avail"
      by (auto simp: Let_def bindE_def split: option.split_asm sum.split_asm)
    then have "unpaid app l item \<longleftrightarrow> avail < feeSum ?acc"
      using False by (simp add: unpaid_def availableFor_def Let_def)
    with s lt t c Cons.prems Cons.IH [of p1] Cons.IH [of "fold trimTx ?sorted p1"] show ?thesis
      by (auto simp: removedOf_def Let_def split: if_split_asm)
  qed
qed simp

lemma checkAccounts_valid:
  "\<lbrakk>\<And>item. item \<in> set items \<Longrightarrow> accepted app l (sort_key txSeq item) 0 = sort_key txSeq item \<and> \<not> unpaid app l item\<rbrakk>
   \<Longrightarrow> checkAccounts app l f g items s = Inr (True, s)"
proof (induction items)
  case (Cons item items)
  let ?sorted = "sort_key txSeq item"
  from Cons.prems have acc: "accepted app l ?sorted 0 = ?sorted" and u: "\<not> unpaid app l item" by simp_all
  note c = checkAccountTxs_valid [OF acc, of f None 0 s]
  show ?case
  proof (cases "?sorted = []")
    case True
    with c Cons show ?thesis by (simp add: Let_def)
  next
    case False
    with u acc obtain n where n: "availableFor l (txSource (last ?sorted)) = Some n" "\<not> n < feeSum ?sorted"
      by (auto simp: unpaid_def Let_def split: option.split_asm)
    then obtain source where "loadAccount l (txSource (last ?sorted)) = Some source"
      "getAvailableBalance (lg_header l) (ACCOUNT source) = Inr n"
      by (auto simp: availableFor_def split: option.split_asm sum.split_asm)
    with False c n(2) Cons show ?thesis by (simp add: Let_def)
  qed
qed simp

lemma fold_trimTx:
  "fold trimTx rs p = (fold (\<lambda>tx s. removeTx s tx) rs (fst p), snd p @ rs)"
  by (induction rs arbitrary: p) (simp_all add: trimTx_def)

lemma xs_previousLedgerHash_fold [simp]:
  "xs_previousLedgerHash (fold (\<lambda>tx s. removeTx s tx) rs s) = xs_previousLedgerHash s"
  by (induction rs arbitrary: s) (simp_all add: removeTx_def)

lemma sorted_fold_remove1: "sorted (map f xs) \<Longrightarrow> sorted (map f (fold remove1 rs xs))"
  by (induction rs arbitrary: xs) (simp_all add: sorted_map_remove1)

lemma sortedByHash_iff:
  "sortedByHash hs n txs \<longleftrightarrow> sorted (map (getFullHash hs) txs) \<and> (\<forall>tx \<in> set txs. n \<le> getFullHash hs tx)"
  by (induction hs n txs rule: sortedByHash.induct) (auto simp: not_less intro: order_trans)

lemma removedOf_source: "\<lbrakk>tx \<in> set (removedOf app l item); \<And>t. t \<in> set item \<Longrightarrow> txSource t = a\<rbrakk> \<Longrightarrow> txSource tx = a"
  using set_rejected [of app l "sort_key txSeq item" 0] by (auto simp: removedOf_def split: if_split_asm)

lemma ofAccount_concat:
  assumes "\<And>b tx. tx \<in> set (g b) \<Longrightarrow> txSource tx = b" "distinct as"
  shows "ofAccount a (concat (map g as)) = (if a \<in> set as then g a else [])"
  using assms(2)
proof (induction as)
  case (Cons b bs)
  have "ofAccount a (g b) = (if a = b then g b else [])"
    using assms(1) by (auto simp: ofAccount_def filter_id_conv filter_empty_conv)
  with Cons show ?case by auto
qed (simp add: ofAccount_def)

text \<open>What is left of an account that can pay is what was accepted; nothing is left of one that cannot.\<close>

lemma trimmed_account:
  assumes "seqs_ok l" "item \<in> set (txsByAccount (fold remove1 (concat (map (removedOf app l) (txsByAccount txs))) txs))"
  shows "accepted app l (sort_key txSeq item) 0 = sort_key txSeq item \<and> \<not> unpaid app l item"
proof -
  let ?g = "\<lambda>b. removedOf app l (ofAccount b txs)"
  let ?as = "sort (remdups (map txSource txs))"
  let ?R = "concat (map (removedOf app l) (txsByAccount txs))"
  let ?left = "fold remove1 ?R txs"
  from assms(2) obtain a where a: "a \<in> txSource ` set ?left" and item: "item = ofAccount a ?left"
    by (auto simp: txsByAccount_def ofAccount_def)
  have "map (removedOf app l) (txsByAccount txs) = map ?g ?as" by (simp add: txsByAccount_def ofAccount_def)
  moreover have "txSource tx = b" if "tx \<in> set (?g b)" for b tx
    using removedOf_source [OF that, of b] by (auto simp: ofAccount_def)
  ultimately have R: "ofAccount a ?R = (if a \<in> set ?as then ?g a else [])"
    using ofAccount_concat [of ?g ?as a] by simp
  have left: "mset ?left = mset txs - mset ?R" by (rule mset_fold_remove1)
  then have "set ?left \<subseteq> set txs" by (metis diff_subset_eq_self set_mset_mono set_mset_mset)
  with a have "a \<in> set ?as" by auto
  with R have R: "ofAccount a ?R = ?g a" by simp
  have "mset item = mset (ofAccount a txs) - mset (ofAccount a ?R)"
    unfolding item ofAccount_def by (simp only: mset_filter left filter_diff_mset)
  then have m: "mset item = mset (ofAccount a txs) - mset (?g a)" unfolding R .
  have "item \<noteq> []" using a item by (auto simp: ofAccount_def filter_empty_conv)
  let ?old = "sort_key txSeq (ofAccount a txs)"
  have all: "mset (ofAccount a txs) = mset (accepted app l ?old 0) + mset (rejected app l ?old 0)"
    using mset_accepted_rejected [of app l ?old 0] by simp
  have paid: "\<not> unpaid app l (ofAccount a txs)"
  proof
    assume "unpaid app l (ofAccount a txs)"
    then have "mset item = {#}" using m by (simp add: removedOf_def)
    with \<open>item \<noteq> []\<close> show False by simp
  qed
  then have "mset item = mset (accepted app l ?old 0)" using m all by (simp add: removedOf_def)
  then have s: "sort_key txSeq item = accepted app l ?old 0"
    by (rule sort_key_increasing [OF _ accepted_increasing [OF assms(1)]])
  with paid show ?thesis by (simp add: accepted_idem unpaid_def)
qed

text \<open>Validity asks the Bitcoin node about the markers of the operations, and about nothing else.\<close>

definition sameAnswers :: "BitcoinNode \<Rightarrow> BitcoinNode \<Rightarrow> TransactionFrame list \<Rightarrow> bool" where
  "sameAnswers node node' txs \<longleftrightarrow> (\<forall>tx \<in> set txs. \<forall>op \<in> set (tx_operations (tf_tx tx)).
     \<forall>marker. op_body op = MARK_ACCOUNT marker \<longrightarrow> bn_rejects node' marker = bn_rejects node marker)"

lemma checkOpsValid_node:
  "\<lbrakk>\<And>op marker. op \<in> set ops \<Longrightarrow> op_body op = MARK_ACCOUNT marker \<Longrightarrow> bn_rejects node' marker = bn_rejects (app_bitcoin app) marker\<rbrakk>
   \<Longrightarrow> checkOpsValid (app\<lparr>app_bitcoin := node'\<rparr>) sc l tf i ops = checkOpsValid app sc l tf i ops"
proof (induction ops arbitrary: sc tf i)
  case (Cons op ops)
  have "doCheckValid node' src (op_body op) v = doCheckValid (app_bitcoin app) src (op_body op) v" for src v
    using Cons.prems [of op] by (cases "op_body op") (simp_all add: doCheckValid_def MarkAccount_doCheckValid_def)
  then have "Operation_checkValid node' sc l tx op r fa = Operation_checkValid (app_bitcoin app) sc l tx op r fa" for tx r fa
    unfolding Operation_checkValid_def by (simp only:)
  then have v: "Operation_checkValid (app_bitcoin (app\<lparr>app_bitcoin := node'\<rparr>)) sc l tx op r fa
      = Operation_checkValid (app_bitcoin app) sc l tx op r fa" for tx r fa by simp
  have ih: "checkOpsValid (app\<lparr>app_bitcoin := node'\<rparr>) sc l tf i ops = checkOpsValid app sc l tf i ops" for sc tf i
    by (rule Cons.IH) (rule Cons.prems, simp_all)
  show ?case unfolding checkOpsValid.simps v ih ..
qed simp

lemma Transaction_checkValid_node:
  assumes "sameAnswers (app_bitcoin app) node' txs" "tx \<in> set txs"
  shows "Transaction_checkValid (app\<lparr>app_bitcoin := node'\<rparr>) l tx n = Transaction_checkValid app l tx n"
proof -
  have ops: "checkOpsValid (app\<lparr>app_bitcoin := node'\<rparr>) sc l tf i (tf_operations tf1) = checkOpsValid app sc l tf i (tf_operations tf1)"
    if "commonValid sc0 l (resetResults tx) n False = Inr (cv, tf1, sc1)" for sc sc0 sc1 tf i tf1 cv
    using commonValid_same [OF that] assms
    by (intro checkOpsValid_node) (auto simp: same_frame_def resetResults_def sameAnswers_def)
  show ?thesis
    by (auto simp: Transaction_checkValid_def Let_def bindE_def ops split: sum.split)
qed

lemma checkAccountTxs_node:
  "\<lbrakk>sameAnswers (app_bitcoin app) node' all; set txs \<subseteq> set all\<rbrakk>
   \<Longrightarrow> checkAccountTxs (app\<lparr>app_bitcoin := node'\<rparr>) l f txs lastTx lastSeq totFee s = checkAccountTxs app l f txs lastTx lastSeq totFee s"
proof (induction txs arbitrary: lastTx lastSeq totFee s)
  case (Cons tx txs)
  from Cons.prems have v: "Transaction_checkValid (app\<lparr>app_bitcoin := node'\<rparr>) l tx n = Transaction_checkValid app l tx n" for n
    by (simp add: Transaction_checkValid_node)
  have ih: "checkAccountTxs (app\<lparr>app_bitcoin := node'\<rparr>) l f txs a b c s = checkAccountTxs app l f txs a b c s" for a b c s
    using Cons by simp
  show ?case unfolding checkAccountTxs.simps v ih ..
qed simp

lemma checkAccounts_node:
  "\<lbrakk>sameAnswers (app_bitcoin app) node' all; \<Union> (set ` set items) \<subseteq> set all\<rbrakk>
   \<Longrightarrow> checkAccounts (app\<lparr>app_bitcoin := node'\<rparr>) l f g items s = checkAccounts app l f g items s"
proof (induction items arbitrary: s)
  case (Cons item items)
  from Cons.prems have v: "checkAccountTxs (app\<lparr>app_bitcoin := node'\<rparr>) l f (sort_key txSeq item) a b c s
      = checkAccountTxs app l f (sort_key txSeq item) a b c s" for a b c s
    by (intro checkAccountTxs_node) auto
  have ih: "checkAccounts (app\<lparr>app_bitcoin := node'\<rparr>) l f g items s = checkAccounts app l f g items s" for s
    using Cons by simp
  show ?case unfolding checkAccounts.simps Let_def v ih ..
qed simp

lemma TxSet_checkValid_node:
  assumes "sameAnswers (app_bitcoin app) node' (xs_transactions s)"
  shows "TxSet_checkValid hs (app\<lparr>app_bitcoin := node'\<rparr>) l lclHash s = TxSet_checkValid hs app l lclHash s"
proof -
  have "\<Union> (set ` set (txsByAccount (xs_transactions s))) \<subseteq> set (xs_transactions s)"
    by (auto simp: txsByAccount_def)
  then show ?thesis unfolding TxSet_checkValid_def checkOrTrim_def by (simp only: checkAccounts_node [OF assms])
qed

text \<open>C19. Trimming is complete: whatever set it is given, what it leaves passes the check that every
  node makes of a set, unless the set is for another ledger or too large, which trimming does not look
  at; it keeps only transactions of the set and lists every one it removes. The check may be made
  later or by another validator, whose Bitcoin node is \<open>node'\<close>: what it needs of the two is that
  \<^verbatim>\<open>SendRawTransactionZagg\<close> accepts or rejects the same ones among the markers of the set, each of them
  whenever it is submitted. The call adds to a pool, so that this is a hypothesis on that node and not
  a fact about the code; it is void for a set without \<^verbatim>\<open>MARK_ACCOUNT\<close> operations.\<close>

theorem trimInvalid_valid:
  assumes "seqs_ok l" "trimInvalid hs app l s = Inr (trimmed, s')"
    and "sameAnswers (app_bitcoin app) node' (xs_transactions s)"
  shows "TxSet_checkValid hs (app\<lparr>app_bitcoin := node'\<rparr>) l lclHash s'
      = Inr (lclHash = xs_previousLedgerHash s \<and> int (length (xs_transactions s')) \<le> lh_maxTxSetSize (lg_header l))
    \<and> mset (xs_transactions s') \<subseteq># mset (xs_transactions s)
    \<and> mset (xs_transactions s) \<subseteq># mset (xs_transactions s') + mset trimmed"
proof -
  let ?xs = "sort_key (getFullHash hs) (xs_transactions s)"
  let ?R = "concat (map (removedOf app l) (txsByAccount ?xs))"
  have "sortedByHash hs 0 ?xs" by (simp add: sortedByHash_iff)
  then obtain ok where "checkAccounts app l (\<lambda>tx lastSeq p. (True, trimTx tx p)) (\<lambda>item p. (True, fold trimTx item p))
      (txsByAccount ?xs) (sortForHash hs s, []) = Inr (ok, s', trimmed)"
    using assms(2) by (auto simp: trimInvalid_def checkOrTrim_def Let_def sortForHash_def)
  from checkAccounts_trim [OF this] have s': "xs_transactions s' = fold remove1 ?R ?xs"
    "trimmed = ?R" "xs_previousLedgerHash s' = xs_previousLedgerHash s"
    by (simp_all add: fold_trimTx fold_removeTx sortForHash_def)
  have "sortedByHash hs 0 (xs_transactions s')"
    unfolding s' sortedByHash_iff using sorted_fold_remove1 [of "getFullHash hs" ?xs ?R] by simp
  then have "checkOrTrim hs app l f g (xs_transactions s') () = Inr (True, ())" for f g
    using checkAccounts_valid [of "txsByAccount (xs_transactions s')" app l f g "()"]
      trimmed_account [OF assms(1), of _ app ?xs] unfolding s' checkOrTrim_def by simp
  moreover have left: "mset (xs_transactions s') = mset (xs_transactions s) - mset trimmed"
    unfolding s' mset_fold_remove1 by simp
  moreover from this have "mset (xs_transactions s) \<subseteq># mset (xs_transactions s') + mset trimmed"
    by (simp flip: subset_eq_diff_conv)
  moreover have "set (xs_transactions s') \<subseteq> set (xs_transactions s)"
    using left by (metis diff_subset_eq_self set_mset_mono set_mset_mset)
  then have "sameAnswers (app_bitcoin app) node' (xs_transactions s')" using assms(3) by (auto simp: sameAnswers_def)
  note TxSet_checkValid_node [OF this, of hs l lclHash]
  ultimately show ?thesis using s'(3) by (simp add: TxSet_checkValid_def)
qed

subsection \<open>Instances\<close>

text \<open>Two payments of one account with the same sequence number, and one that marks the account after
  them. The Bitcoin nodes of two validators agree on the marker and on nothing else.\<close>

definition ex_hashes :: Hashes where
  "ex_hashes = \<lparr>hs_full = (\<lambda>env. of_nat (length (te_signatures env))), hs_set = (\<lambda>_ _. 5)\<rparr>"

definition ex_mark :: TransactionFrame where
  "ex_mark = makeTransactionFromWire
     \<lparr>te_tx = \<lparr>tx_sourceAccount = 1, tx_fee = 100, tx_seqNum = 2, tx_timeBounds = None, tx_operations =
        [\<lparr>op_sourceAccount = None, op_body = MARK_ACCOUNT ''good''\<rparr>]\<rparr>, te_signatures = []\<rparr>"

definition ex_txSet :: TxSetFrame where
  "ex_txSet = \<lparr>xs_previousLedgerHash = 9, xs_transactions = [ex_payment 30 [], ex_mark, ex_payment 70 []], xs_hash = None\<rparr>"

definition ex_strict :: App where
  "ex_strict = ex_app\<lparr>app_bitcoin := \<lparr>bn_rejects = (\<lambda>m. m \<noteq> ''good''), bn_generateFails = (\<lambda>_. False)\<rparr>\<rparr>"

definition ex_lenient :: BitcoinNode where
  "ex_lenient = \<lparr>bn_rejects = (\<lambda>m. m = ''bad''), bn_generateFails = (\<lambda>_. True)\<rparr>"

lemma ex_txSet_trims:
  "case trimInvalid ex_hashes ex_strict ex_bank ex_txSet of Inl _ \<Rightarrow> False
     | Inr (trimmed, s') \<Rightarrow> length trimmed = 1 \<and> length (xs_transactions s') = 2"
  by code_simp

theorem trimInvalid_valid_witness:
  "case trimInvalid ex_hashes ex_strict ex_bank ex_txSet of Inl _ \<Rightarrow> False
     | Inr (trimmed, s') \<Rightarrow> length trimmed = 1
         \<and> TxSet_checkValid ex_hashes (ex_strict\<lparr>app_bitcoin := ex_lenient\<rparr>) ex_bank 9 s' = Inr True"
proof -
  have "seqs_ok ex_bank"
    by (simp add: seqs_ok_def loadAccount_def load_def ex_bank_def ex_holder_def)
  moreover have "sameAnswers (app_bitcoin ex_strict) ex_lenient (xs_transactions ex_txSet)"
    by (simp add: sameAnswers_def ex_txSet_def ex_strict_def ex_lenient_def ex_mark_def ex_payment_def
        makeTransactionFromWire_def resetResults_def)
  moreover obtain trimmed s' where t: "trimInvalid ex_hashes ex_strict ex_bank ex_txSet = Inr (trimmed, s')"
    "length trimmed = 1" "length (xs_transactions s') = 2"
    using ex_txSet_trims by (auto split: sum.split_asm)
  ultimately have "TxSet_checkValid ex_hashes (ex_strict\<lparr>app_bitcoin := ex_lenient\<rparr>) ex_bank 9 s'
      = Inr (9 = xs_previousLedgerHash ex_txSet \<and> int (length (xs_transactions s')) \<le> lh_maxTxSetSize (lg_header ex_bank))"
    using trimInvalid_valid [of ex_bank ex_hashes ex_strict ex_txSet trimmed s' ex_lenient 9] by blast
  with t show ?thesis by (simp add: ex_txSet_def ex_bank_def ex_header_def)
qed

text \<open>Without that agreement two validators judge the same set differently on the same ledger.\<close>

lemma validators_disagree:
  "TxSet_checkValid ex_hashes ex_strict ex_bank 9 (ex_txSet\<lparr>xs_transactions := [ex_payment 30 [], ex_mark]\<rparr>) = Inr True"
  "TxSet_checkValid ex_hashes (ex_strict\<lparr>app_bitcoin := \<lparr>bn_rejects = (\<lambda>_. True), bn_generateFails = (\<lambda>_. False)\<rparr>\<rparr>)
     ex_bank 9 (ex_txSet\<lparr>xs_transactions := [ex_payment 30 [], ex_mark]\<rparr>) = Inr False"
  by code_simp+

text \<open>A set of two where one fits: the account that bids more keeps its place.\<close>

definition ex_bid :: "AccountID \<Rightarrow> int \<Rightarrow> TransactionFrame" where
  "ex_bid a fee = makeTransactionFromWire \<lparr>te_tx = \<lparr>tx_sourceAccount = a, tx_fee = fee, tx_seqNum = 1,
     tx_timeBounds = None, tx_operations = []\<rparr>, te_signatures = []\<rparr>"

definition ex_crowd :: TxSetFrame where
  "ex_crowd = \<lparr>xs_previousLedgerHash = 9, xs_transactions = [ex_bid 1 100, ex_bid 2 300], xs_hash = None\<rparr>"

definition ex_narrow :: LedgerHeader where
  "ex_narrow = ex_header\<lparr>lh_maxTxSetSize := 1\<rparr>"

lemma ex_crowd_filter:
  "xs_transactions (surgePricingFilter ex_narrow ex_crowd) = [ex_bid 2 300]"
  by code_simp

theorem surgePricingFilter_fair_witness:
  "xs_transactions (surgePricingFilter ex_narrow ex_crowd) = [ex_bid 2 300]
   \<and> exactRatio ex_narrow (ex_bid 1 100) \<le> exactRatio ex_narrow (ex_bid 2 300) * (1 + 1 / 2 ^ 51)"
proof -
  have "feesPaid ex_narrow (xs_transactions ex_crowd)"
    by (simp add: feesPaid_def ex_narrow_def ex_header_def ex_crowd_def ex_bid_def makeTransactionFromWire_def getMinFee_def)
  moreover have "\<not> length (xs_transactions ex_crowd) \<le> nat (lh_maxTxSetSize ex_narrow)"
    by (simp add: ex_narrow_def ex_crowd_def)
  moreover have "ex_bid 1 100 \<noteq> ex_bid 2 300" "txSource (ex_bid a n) = a" for a n
    by (simp_all add: ex_bid_def makeTransactionFromWire_def txSource_def)
  ultimately show ?thesis
    using surgePricingFilter_fair [OF refl, of ex_crowd ex_narrow] unfolding ex_crowd_filter
    by (simp add: ex_crowd_def)
qed

end
