(* ===== verification/Upgrades.thy ===== *)
theory Upgrades
  imports Conservation_Transactions
begin

section \<open>Network upgrades (src/src/herder/Upgrades.cpp)\<close>

text \<open>
  The parameters an operator schedules, the upgrades they turn into, the check of an upgrade that
  others propose, and what applying one does to the ledger. An upgrade to protocol 10 and a raise of
  the base reserve recompute all offers and liabilities (\<^verbatim>\<open>prepareLiabilities\<close>). An upgrade travels as
  opaque bytes; the XDR decoder is an argument that returns nothing where it throws. Times are in
  seconds. The maps by asset are association lists; the last loop walks them in the order of the
  assets. The text forms of upgrades and their rows in the database are left out.
\<close>

type_synonym UpgradeType = "u8 list"

datatype LedgerUpgrade =
    LEDGER_UPGRADE_VERSION int
  | LEDGER_UPGRADE_BASE_FEE int
  | LEDGER_UPGRADE_MAX_TX_SET_SIZE int
  | LEDGER_UPGRADE_BASE_RESERVE int

datatype LedgerUpgradeType = UPGRADE_VERSION | UPGRADE_BASE_FEE | UPGRADE_MAX_TX_SET_SIZE | UPGRADE_BASE_RESERVE

definition upgradeTypeOf :: "LedgerUpgrade \<Rightarrow> LedgerUpgradeType" where
  "upgradeTypeOf u = (case u of LEDGER_UPGRADE_VERSION _ \<Rightarrow> UPGRADE_VERSION
     | LEDGER_UPGRADE_BASE_FEE _ \<Rightarrow> UPGRADE_BASE_FEE
     | LEDGER_UPGRADE_MAX_TX_SET_SIZE _ \<Rightarrow> UPGRADE_MAX_TX_SET_SIZE
     | LEDGER_UPGRADE_BASE_RESERVE _ \<Rightarrow> UPGRADE_BASE_RESERVE)"

record UpgradeParameters =
  up_upgradeTime :: int
  up_protocolVersion :: "int option"
  up_baseFee :: "int option"
  up_maxTxSize :: "int option"
  up_baseReserve :: "int option"

definition setParameters :: "int \<Rightarrow> UpgradeParameters \<Rightarrow> cpp_error + UpgradeParameters" where
  "setParameters cfgVersion params =
     (case up_protocolVersion params of
        None \<Rightarrow> Inr params
      | Some v \<Rightarrow> if v > cfgVersion then Inl (InvalidArgument ''Protocol version error'') else Inr params)"

definition timeForUpgrade :: "UpgradeParameters \<Rightarrow> int \<Rightarrow> bool" where
  "timeForUpgrade params time \<longleftrightarrow> up_upgradeTime params \<le> time"

definition pendingChange :: "int option \<Rightarrow> int \<Rightarrow> (int \<Rightarrow> LedgerUpgrade) \<Rightarrow> LedgerUpgrade list" where
  "pendingChange wanted current mk =
     (case wanted of None \<Rightarrow> [] | Some v \<Rightarrow> if current \<noteq> v then [mk v] else [])"

definition createUpgradesFor :: "UpgradeParameters \<Rightarrow> LedgerHeader \<Rightarrow> LedgerUpgrade list" where
  "createUpgradesFor params h =
     (if \<not> timeForUpgrade params (lh_closeTime h) then []
      else
        pendingChange (up_protocolVersion params) (lh_ledgerVersion h) LEDGER_UPGRADE_VERSION
        @ pendingChange (up_baseFee params) (lh_baseFee h) LEDGER_UPGRADE_BASE_FEE
        @ pendingChange (up_maxTxSize params) (lh_maxTxSetSize h) LEDGER_UPGRADE_MAX_TX_SET_SIZE
        @ pendingChange (up_baseReserve params) (lh_baseReserve h) LEDGER_UPGRADE_BASE_RESERVE)"

text \<open>\<^verbatim>\<open>resetParam\<close> drops a scheduled value that was just voted in; the flag says whether it did.\<close>

definition resetParam :: "int option \<Rightarrow> int \<Rightarrow> int option \<times> bool" where
  "resetParam x v = (if x = Some v then (None, True) else (x, False))"

definition removeUpgrade :: "LedgerUpgrade \<Rightarrow> UpgradeParameters \<times> bool \<Rightarrow> UpgradeParameters \<times> bool" where
  "removeUpgrade lu s = (case s of (res, updated) \<Rightarrow>
     (case lu of
        LEDGER_UPGRADE_VERSION v \<Rightarrow> (let (x, u) = resetParam (up_protocolVersion res) v in
          (res\<lparr>up_protocolVersion := x\<rparr>, updated \<or> u))
      | LEDGER_UPGRADE_BASE_FEE v \<Rightarrow> (let (x, u) = resetParam (up_baseFee res) v in
          (res\<lparr>up_baseFee := x\<rparr>, updated \<or> u))
      | LEDGER_UPGRADE_MAX_TX_SET_SIZE v \<Rightarrow> (let (x, u) = resetParam (up_maxTxSize res) v in
          (res\<lparr>up_maxTxSize := x\<rparr>, updated \<or> u))
      | LEDGER_UPGRADE_BASE_RESERVE v \<Rightarrow> (let (x, u) = resetParam (up_baseReserve res) v in
          (res\<lparr>up_baseReserve := x\<rparr>, updated \<or> u))))"

definition removeUpgrades ::
    "(UpgradeType \<Rightarrow> LedgerUpgrade option) \<Rightarrow> UpgradeParameters \<Rightarrow> UpgradeType list \<Rightarrow> UpgradeParameters \<times> bool" where
  "removeUpgrades unpack params updates =
     fold (\<lambda>u s. case unpack u of None \<Rightarrow> s | Some lu \<Rightarrow> removeUpgrade lu s) updates (params, False)"

text \<open>The type of a valid upgrade, nothing for an invalid one.\<close>

definition isValidUpgrade ::
    "(UpgradeType \<Rightarrow> LedgerUpgrade option) \<Rightarrow> UpgradeParameters \<Rightarrow> int \<Rightarrow> UpgradeType \<Rightarrow> bool \<Rightarrow> LedgerHeader
       \<Rightarrow> LedgerUpgradeType option" where
  "isValidUpgrade unpack params cfgVersion upgrade nomination h =
     (if nomination \<and> \<not> timeForUpgrade params (lh_closeTime h) then None
      else case unpack upgrade of
        None \<Rightarrow> None
      | Some lu \<Rightarrow>
          let res = (case lu of
              LEDGER_UPGRADE_VERSION newVersion \<Rightarrow>
                (nomination \<longrightarrow> up_protocolVersion params = Some newVersion)
                \<and> newVersion \<le> cfgVersion \<and> newVersion > lh_ledgerVersion h
            | LEDGER_UPGRADE_BASE_FEE newFee \<Rightarrow>
                (nomination \<longrightarrow> up_baseFee params = Some newFee) \<and> newFee \<noteq> 0
            | LEDGER_UPGRADE_MAX_TX_SET_SIZE newMax \<Rightarrow>
                (nomination \<longrightarrow> up_maxTxSize params = Some newMax) \<and> newMax \<noteq> 0
            | LEDGER_UPGRADE_BASE_RESERVE newReserve \<Rightarrow>
                (nomination \<longrightarrow> up_baseReserve params = Some newReserve) \<and> newReserve \<noteq> 0) in
          if res then Some (upgradeTypeOf lu) else None)"

subsection \<open>Recomputing offers and liabilities\<close>

text \<open>A sum of liabilities by asset; \<^const>\<open>None\<close> in the map is the null pointer of a sum that overflowed.\<close>

definition addLiabilities ::
    "(Asset \<times> int option) list \<Rightarrow> AccountID \<Rightarrow> Asset \<Rightarrow> int \<Rightarrow> cpp_error + (Asset \<times> int option) list" where
  "addLiabilities liabilities accountID asset delta =
     (let m = (if map_of liabilities asset = None then AList.update asset (Some 0) liabilities else liabilities) in
      if isIssuer accountID asset then Inr m
      else case map_of m asset of
          Some (Some v) \<Rightarrow> bindE (addBalance v delta INT64_MAX) (\<lambda>r. Inr (AList.update asset r m))
        | _ \<Rightarrow> Inr m)"

definition getAvailableBalanceExcludingLiabilities ::
    "ledger \<Rightarrow> AccountID \<Rightarrow> Asset \<Rightarrow> int \<Rightarrow> cpp_error + int" where
  "getAvailableBalanceExcludingLiabilities l accountID asset balanceAboveReserve =
     (if asset = ASSET_TYPE_NATIVE then Inr balanceAboveReserve
      else if isIssuer accountID asset then Inr INT64_MAX
      else
        bindE (loadTrustLine l accountID asset) (\<lambda>trust.
        if tlw_bool trust then
          bindE (tlw_isAuthorized trust) (\<lambda>ok. if ok then tlw_getBalance trust else Inr 0)
        else Inr 0))"

definition getAvailableLimitExcludingLiabilities ::
    "ledger \<Rightarrow> AccountID \<Rightarrow> Asset \<Rightarrow> int \<Rightarrow> cpp_error + int" where
  "getAvailableLimitExcludingLiabilities l accountID asset balance =
     (if asset = ASSET_TYPE_NATIVE then Inr (INT64_MAX - balance)
      else if isIssuer accountID asset then Inr INT64_MAX
      else case loadTrustLineEntry l accountID asset of
          Some t \<Rightarrow> Inr (if isAuthorized t then tl_limit t - tl_balance t else 0)
        | None \<Rightarrow> Inr 0)"

definition shouldDeleteOffer ::
    "Asset \<Rightarrow> int \<Rightarrow> (Asset \<times> int option) list \<Rightarrow> (Asset \<Rightarrow> int \<Rightarrow> cpp_error + int) \<Rightarrow> cpp_error + bool" where
  "shouldDeleteOffer asset effectiveBalance liabilities getCap =
     (case map_of liabilities asset of
        None \<Rightarrow> Inl (RuntimeError ''liabilities were not calculated'')
      | Some None \<Rightarrow> Inr True
      | Some (Some v) \<Rightarrow> bindE (getCap asset effectiveBalance) (\<lambda>cap. Inr (v > cap)))"

datatype UpdateOfferResult = Unchanged | Adjusted | AdjustedToZero | Erased

definition noLiabilities :: Liabilities where
  "noLiabilities = \<lparr>liab_buying = 0, liab_selling = 0\<rparr>"

definition liabilitiesAt :: "(Asset \<times> Liabilities) list \<Rightarrow> Asset \<Rightarrow> Liabilities" where
  "liabilitiesAt m asset = (case map_of m asset of None \<Rightarrow> noLiabilities | Some x \<Rightarrow> x)"

definition noteBuying ::
    "LedgerHeader \<Rightarrow> OfferEntry \<Rightarrow> (Asset \<times> Liabilities) list \<Rightarrow> cpp_error + (Asset \<times> Liabilities) list" where
  "noteBuying h offer m =
     (if of_buying offer = ASSET_TYPE_NATIVE \<or> \<not> isIssuer (of_sellerID offer) (of_buying offer) then
        let x = liabilitiesAt m (of_buying offer) in
        bindE (getOfferBuyingLiabilities h offer) (\<lambda>delta.
        bindE (addBalance (liab_buying x) delta INT64_MAX) (\<lambda>r.
        case r of None \<Rightarrow> Inl (RuntimeError ''could not add buying liabilities'')
        | Some b \<Rightarrow> Inr (AList.update (of_buying offer) (x\<lparr>liab_buying := b\<rparr>) m)))
      else Inr m)"

definition noteSelling ::
    "LedgerHeader \<Rightarrow> OfferEntry \<Rightarrow> (Asset \<times> Liabilities) list \<Rightarrow> cpp_error + (Asset \<times> Liabilities) list" where
  "noteSelling h offer m =
     (if of_selling offer = ASSET_TYPE_NATIVE \<or> \<not> isIssuer (of_sellerID offer) (of_selling offer) then
        let x = liabilitiesAt m (of_selling offer) in
        bindE (getOfferSellingLiabilities h offer) (\<lambda>delta.
        bindE (addBalance (liab_selling x) delta INT64_MAX) (\<lambda>r.
        case r of None \<Rightarrow> Inl (RuntimeError ''could not add selling liabilities'')
        | Some s \<Rightarrow> Inr (AList.update (of_selling offer) (x\<lparr>liab_selling := s\<rparr>) m)))
      else Inr m)"

definition updateOffer ::
    "ledger \<Rightarrow> OfferEntry \<Rightarrow> int \<Rightarrow> int \<Rightarrow> (Asset \<times> Liabilities) list \<Rightarrow> (Asset \<times> int option) list
       \<Rightarrow> (Asset \<times> int option) list \<Rightarrow> cpp_error + (UpdateOfferResult \<times> (Asset \<times> Liabilities) list \<times> ledger)" where
  "updateOffer l offer balance balanceAboveReserve liabilities initialBuying initialSelling =
     (let h = lg_header l; aid = of_sellerID offer in
      bindE (shouldDeleteOffer (of_selling offer) balanceAboveReserve initialSelling
               (getAvailableBalanceExcludingLiabilities l aid)) (\<lambda>erase1.
      bindE (if erase1 then Inr True
             else shouldDeleteOffer (of_buying offer) balance initialBuying
               (getAvailableLimitExcludingLiabilities l aid)) (\<lambda>erase2.
      bindE (if erase2 then Inr 0 else adjustOffer (of_price offer) (of_amount offer) INT64_MAX) (\<lambda>adjAmount.
      if erase2 \<or> adjAmount = 0 then
        bindE (erase l (OfferKey aid (of_offerID offer))) (\<lambda>l1.
        Inr (if erase2 then Erased else AdjustedToZero, liabilities, l1))
      else
        let offer' = offer\<lparr>of_amount := adjAmount\<rparr>;
            res = (if adjAmount \<noteq> of_amount offer then Adjusted else Unchanged) in
        bindE (noteBuying h offer' liabilities) (\<lambda>m1.
        bindE (noteSelling h offer' m1) (\<lambda>m2.
        Inr (res, m2, store l (OFFER offer'))))))))"

text \<open>The first loop over the offers of an account: what they could buy and sell at most.\<close>

fun initialLiabilities ::
    "LedgerHeader \<Rightarrow> OfferEntry list \<Rightarrow> (Asset \<times> int option) list \<times> (Asset \<times> int option) list
       \<Rightarrow> cpp_error + (Asset \<times> int option) list \<times> (Asset \<times> int option) list" where
  "initialLiabilities h [] p = Inr p"
| "initialLiabilities h (offer # offers) (buying, selling) =
     bindE (getOfferBuyingLiabilities h offer) (\<lambda>b.
     bindE (addLiabilities buying (of_sellerID offer) (of_buying offer) b) (\<lambda>buying'.
     bindE (getOfferSellingLiabilities h offer) (\<lambda>s.
     bindE (addLiabilities selling (of_sellerID offer) (of_selling offer) s) (\<lambda>selling'.
     initialLiabilities h offers (buying', selling')))))"

text \<open>The second loop. The account entry is held while the offers change, and written at the end.\<close>

fun updateOffers ::
    "OfferEntry list \<Rightarrow> int \<Rightarrow> int \<Rightarrow> (Asset \<times> int option) list \<Rightarrow> (Asset \<times> int option) list
       \<Rightarrow> (Asset \<times> Liabilities) list \<Rightarrow> AccountEntry \<Rightarrow> ledger
       \<Rightarrow> cpp_error + ((Asset \<times> Liabilities) list \<times> AccountEntry \<times> ledger)" where
  "updateOffers [] balance reservable initialBuying initialSelling liabilities acc l = Inr (liabilities, acc, l)"
| "updateOffers (offer # offers) balance reservable initialBuying initialSelling liabilities acc l =
     bindE (updateOffer l offer balance reservable liabilities initialBuying initialSelling) (\<lambda>(res, liabilities', l1).
     bindE (if res = AdjustedToZero \<or> res = Erased then dropNumEntry (lg_header l) acc else Inr acc) (\<lambda>acc'.
     updateOffers offers balance reservable initialBuying initialSelling liabilities' acc' l1))"

definition tlw_getBuyingLiabilities :: "LedgerHeader \<Rightarrow> TrustLineWrapper \<Rightarrow> cpp_error + int" where
  "tlw_getBuyingLiabilities h w = (case w of InactiveImpl \<Rightarrow> Inl notActive | IssuerImpl _ _ \<Rightarrow> Inr 0
     | NonIssuerImpl t \<Rightarrow> getBuyingLiabilities h (TRUSTLINE t))"

definition tlw_getSellingLiabilities :: "LedgerHeader \<Rightarrow> TrustLineWrapper \<Rightarrow> cpp_error + int" where
  "tlw_getSellingLiabilities h w = (case w of InactiveImpl \<Rightarrow> Inl notActive | IssuerImpl _ _ \<Rightarrow> Inr 0
     | NonIssuerImpl t \<Rightarrow> getSellingLiabilities h (TRUSTLINE t))"

text \<open>The last loop sets the liabilities of every asset in the map to the sums found.\<close>

definition invalidSelling :: cpp_error where
  "invalidSelling = RuntimeError ''invalid selling liabilities during upgrade''"

definition invalidBuying :: cpp_error where
  "invalidBuying = RuntimeError ''invalid buying liabilities during upgrade''"

definition setNativeLiabilities :: "LedgerHeader \<Rightarrow> Liabilities \<Rightarrow> AccountEntry \<Rightarrow> cpp_error + AccountEntry" where
  "setNativeLiabilities h liab acc =
     bindE (getSellingLiabilities h (ACCOUNT acc)) (\<lambda>s.
     bindE (getBuyingLiabilities h (ACCOUNT acc)) (\<lambda>b.
     bindE (addSellingLiabilities h (ACCOUNT acc) (liab_selling liab - s)) (\<lambda>r.
     case r of Some (ACCOUNT acc1) \<Rightarrow>
         bindE (addBuyingLiabilities h (ACCOUNT acc1) (liab_buying liab - b)) (\<lambda>r.
         case r of Some (ACCOUNT acc2) \<Rightarrow> Inr acc2 | _ \<Rightarrow> Inl invalidBuying)
     | _ \<Rightarrow> Inl invalidSelling)))"

definition setLineLiabilities :: "ledger \<Rightarrow> AccountID \<Rightarrow> Asset \<Rightarrow> Liabilities \<Rightarrow> cpp_error + ledger" where
  "setLineLiabilities l aid asset liab =
     (let h = lg_header l in
      bindE (loadTrustLine l aid asset) (\<lambda>w.
      bindE (tlw_getSellingLiabilities h w) (\<lambda>s.
      bindE (tlw_getBuyingLiabilities h w) (\<lambda>b.
      bindE (tlw_addSellingLiabilities h w (liab_selling liab - s)) (\<lambda>r.
      case r of None \<Rightarrow> Inl invalidSelling
      | Some w1 \<Rightarrow>
          bindE (tlw_addBuyingLiabilities h w1 (liab_buying liab - b)) (\<lambda>r.
          case r of None \<Rightarrow> Inl invalidBuying | Some w2 \<Rightarrow> Inr (putTrustLine l w2)))))))"

fun setLiabilities ::
    "AccountID \<Rightarrow> (Asset \<times> Liabilities) list \<Rightarrow> AccountEntry \<Rightarrow> ledger \<Rightarrow> cpp_error + (AccountEntry \<times> ledger)" where
  "setLiabilities aid [] acc l = Inr (acc, l)"
| "setLiabilities aid ((asset, liab) # rest) acc l =
     (if asset = ASSET_TYPE_NATIVE
      then bindE (setNativeLiabilities (lg_header l) liab acc) (\<lambda>acc'. setLiabilities aid rest acc' l)
      else bindE (setLineLiabilities l aid asset liab) (\<lambda>l'. setLiabilities aid rest acc l'))"

definition assetRank :: "Asset \<Rightarrow> nat \<times> u8 list \<times> AccountID" where
  "assetRank asset = (case asset of ASSET_TYPE_NATIVE \<Rightarrow> (0, [], 0)
     | ASSET_TYPE_CREDIT_ALPHANUM4 code i \<Rightarrow> (1, code, i)
     | ASSET_TYPE_CREDIT_ALPHANUM12 code i \<Rightarrow> (2, code, i))"

definition prepareAccount :: "AccountID \<times> OfferEntry list \<Rightarrow> ledger \<Rightarrow> cpp_error + ledger" where
  "prepareAccount accountOffers l =
     (let h = lg_header l; aid = fst accountOffers; offers = snd accountOffers in
      bindE (initialLiabilities h offers ([], [])) (\<lambda>(initialBuying, initialSelling).
      case loadAccount l aid of
        None \<Rightarrow> Inl accountMissing
      | Some acc \<Rightarrow>
          let balance = ac_balance acc;
              balanceAboveReserve = balance - getMinBalance h (ac_numSubEntries acc) in
          bindE (updateOffers offers balance balanceAboveReserve initialBuying initialSelling [] acc l)
            (\<lambda>(liabilities, acc1, l1).
          bindE (setLiabilities aid (sort_key (assetRank \<circ> fst) liabilities) acc1 l1) (\<lambda>(acc2, l2).
          Inr (putAccount l2 acc2)))))"

text \<open>\<^verbatim>\<open>LedgerTxn::loadAllOffers\<close> on the flat view: the offers by account, in the order of the accounts.\<close>

definition loadAllOffers :: "ledger \<Rightarrow> (AccountID \<times> OfferEntry list) list" where
  "loadAllOffers l = map (\<lambda>a. (a, filter (\<lambda>oe. of_sellerID oe = a) (ledgerOffers l)))
     (sort (remdups (map of_sellerID (ledgerOffers l))))"

fun prepareAccounts :: "(AccountID \<times> OfferEntry list) list \<Rightarrow> ledger \<Rightarrow> cpp_error + ledger" where
  "prepareAccounts [] l = Inr l"
| "prepareAccounts (x # xs) l = bindE (prepareAccount x l) (\<lambda>l'. prepareAccounts xs l')"

definition prepareLiabilities :: "ledger \<Rightarrow> cpp_error + ledger" where
  "prepareLiabilities l = prepareAccounts (loadAllOffers l) l"

definition applyVersionUpgrade :: "ledger \<Rightarrow> int \<Rightarrow> cpp_error + ledger" where
  "applyVersionUpgrade l newVersion =
     (let prevVersion = lh_ledgerVersion (lg_header l);
          l1 = setHeader l ((lg_header l)\<lparr>lh_ledgerVersion := newVersion\<rparr>) in
      if newVersion \<ge> 10 \<and> prevVersion < 10 then prepareLiabilities l1 else Inr l1)"

definition applyReserveUpgrade :: "ledger \<Rightarrow> int \<Rightarrow> cpp_error + ledger" where
  "applyReserveUpgrade l newReserve =
     (let didReserveIncrease = newReserve > lh_baseReserve (lg_header l);
          l1 = setHeader l ((lg_header l)\<lparr>lh_baseReserve := newReserve\<rparr>) in
      if lh_ledgerVersion (lg_header l1) \<ge> 10 \<and> didReserveIncrease then prepareLiabilities l1 else Inr l1)"

definition applyUpgrade :: "LedgerUpgrade \<Rightarrow> ledger \<Rightarrow> cpp_error + ledger" where
  "applyUpgrade upgrade l = (case upgrade of
       LEDGER_UPGRADE_VERSION v \<Rightarrow> applyVersionUpgrade l v
     | LEDGER_UPGRADE_BASE_FEE v \<Rightarrow> Inr (setHeader l ((lg_header l)\<lparr>lh_baseFee := v\<rparr>))
     | LEDGER_UPGRADE_MAX_TX_SET_SIZE v \<Rightarrow> Inr (setHeader l ((lg_header l)\<lparr>lh_maxTxSetSize := v\<rparr>))
     | LEDGER_UPGRADE_BASE_RESERVE v \<Rightarrow> applyReserveUpgrade l v)"

end
