(* ===== verification/Upgrades_Liabilities.thy ===== *)
theory Upgrades_Liabilities
  imports Upgrades
begin

section \<open>What recomputing the liabilities establishes\<close>

text \<open>
  \<^verbatim>\<open>prepareLiabilities\<close> works account by account. This theory shows what it does to the offers of one
  account, to the liabilities, and to the whole ledger.
\<close>

subsection \<open>Sums of liabilities\<close>

definition offerBuys :: "OfferEntry \<Rightarrow> int" where
  "offerBuys oe = x10_numSheepSend (offer_raw oe)"

definition offerSells :: "OfferEntry \<Rightarrow> int" where
  "offerSells oe = x10_numWheatReceived (offer_raw oe)"

lemma offer_amount64: "offer_ok oe \<Longrightarrow> price_ok (of_price oe) \<and> amount64 (of_amount oe)"
  by (simp add: offer_ok_def amount64_def)

lemma offerLiabilities_simps:
  assumes "header_ok h" "offer_ok oe"
  shows "getOfferBuyingLiabilities h oe = Inr (offerBuys oe)" "getOfferSellingLiabilities h oe = Inr (offerSells oe)"
  using offerLiabilities_exact(1,2) [of h oe] assms offer_amount64 by (simp_all add: offerBuys_def offerSells_def)

lemma offer_sums_range:
  assumes "offer_ok oe"
  shows "0 \<le> offerBuys oe" "offerBuys oe \<le> INT64_MAX" "0 \<le> offerSells oe" "offerSells oe \<le> INT64_MAX"
proof -
  have "header_ok \<lparr>lh_ledgerVersion = 10, lh_ledgerSeq = 0, lh_closeTime = 0, lh_totalCoins = 0, lh_feePool = 0,
      lh_inflationSeq = 0, lh_idPool = 0, lh_baseFee = 0, lh_baseReserve = 0, lh_maxTxSetSize = 0\<rparr>"
    by (simp add: header_ok_def)
  from offerLiabilities_exact(3-6) [OF this, of oe] offer_amount64 [OF assms] assms
  show "0 \<le> offerBuys oe" "offerBuys oe \<le> INT64_MAX" "0 \<le> offerSells oe" "offerSells oe \<le> INT64_MAX"
    by (auto simp: offerBuys_def offerSells_def offer_ok_def)
qed

definition adjusted :: "OfferEntry \<Rightarrow> int" where
  "adjusted oe = (case adjustOffer (of_price oe) (of_amount oe) INT64_MAX of Inr v \<Rightarrow> v | Inl _ \<Rightarrow> 0)"

abbreviation adjustedOffer :: "OfferEntry \<Rightarrow> OfferEntry" where
  "adjustedOffer oe \<equiv> oe\<lparr>of_amount := adjusted oe\<rparr>"

lemma adjustOffer_adjusted:
  assumes "offer_ok oe"
  shows "adjustOffer (of_price oe) (of_amount oe) INT64_MAX = Inr (adjusted oe)"
    "0 \<le> adjusted oe" "adjusted oe \<le> of_amount oe"
  using adjustOffer_total [of "of_price oe" "of_amount oe" INT64_MAX] offer_amount64 [OF assms]
  by (auto simp: adjusted_def)

text \<open>The adjustment does not change what the offer can buy and sell.\<close>

lemma adjustedOffer_raw:
  assumes "offer_ok oe" "adjusted oe \<noteq> 0"
  shows "offer_raw (adjustedOffer oe) = offer_raw oe" "offerBuys oe > 0" "offerSells oe > 0"
    "offer_ok (adjustedOffer oe)"
proof -
  note a = adjustOffer_adjusted [OF assms(1)] and p = offer_amount64 [OF assms(1)]
  let ?r = "rawV10 (of_price oe) (of_amount oe) INT64_MAX INT64_MAX INT64_MAX False"
  have "adjusted oe = x10_numWheatReceived ?r" "tradesV10 ?r"
    using adjustOffer_exact [OF conjunct1 [OF p] conjunct2 [OF p] amount64_max refl] a(1) assms(2)
    by (auto split: if_split_asm)
  then show "offer_raw (adjustedOffer oe) = offer_raw oe"
    using rawV10_adjusted [OF conjunct1 [OF p] conjunct2 [OF p] amount64_max amount64_max order_refl, of "adjusted oe"]
    by (simp add: offer_raw_def)
  have "0 < adjusted oe" using a(2) assms(2) by simp
  from adjusted_offer_raw [OF conjunct1 [OF p] conjunct2 [OF p] amount64_max a(1) this, of "adjustedOffer oe"] this
    \<open>offer_raw (adjustedOffer oe) = offer_raw oe\<close>
  show "offerBuys oe > 0" "offerSells oe > 0" by (simp_all add: offerBuys_def offerSells_def)
  show "offer_ok (adjustedOffer oe)" using assms(1) a(2,3) assms(2) by (auto simp: offer_ok_def)
qed

definition sumBy :: "(OfferEntry \<Rightarrow> Asset) \<Rightarrow> (OfferEntry \<Rightarrow> int) \<Rightarrow> OfferEntry list \<Rightarrow> Asset \<Rightarrow> int" where
  "sumBy side liab oes asset = sum_list (map liab (filter (\<lambda>oe. side oe = asset) oes))"

lemma sumBy_simps [simp]:
  "sumBy side liab [] asset = 0"
  "sumBy side liab (oe # oes) asset = (if side oe = asset then liab oe else 0) + sumBy side liab oes asset"
  "sumBy side liab (xs @ ys) asset = sumBy side liab xs asset + sumBy side liab ys asset"
  by (simp_all add: sumBy_def)

lemma sumBy_nonneg: "(\<And>oe. oe \<in> set oes \<Longrightarrow> 0 \<le> liab oe) \<Longrightarrow> 0 \<le> sumBy side liab oes asset"
  by (induction oes) auto

lemma sumBy_filter_le:
  "(\<And>oe. oe \<in> set oes \<Longrightarrow> 0 \<le> liab oe) \<Longrightarrow> sumBy side liab (filter P oes) asset \<le> sumBy side liab oes asset"
  by (induction oes) (auto intro: add_increasing)

lemma sumBy_empty: "(\<And>oe. oe \<in> set oes \<Longrightarrow> side oe \<noteq> asset) \<Longrightarrow> sumBy side liab oes asset = 0"
  by (induction oes) auto

lemma sumBy_pos:
  "\<lbrakk>oe \<in> set oes; side oe = asset; 0 < liab oe; \<And>x. x \<in> set oes \<Longrightarrow> 0 \<le> liab x\<rbrakk> \<Longrightarrow> 0 < sumBy side liab oes asset"
proof (induction oes)
  case (Cons x xs)
  have "0 \<le> sumBy side liab xs asset" using Cons.prems(4) by (intro sumBy_nonneg) auto
  with Cons show ?case by (cases "x = oe") (auto intro: add_nonneg_pos)
qed simp

subsection \<open>The initial sums\<close>

definition tallied ::
    "AccountID \<Rightarrow> (OfferEntry \<Rightarrow> Asset) \<Rightarrow> (OfferEntry \<Rightarrow> int) \<Rightarrow> OfferEntry list \<Rightarrow> (Asset \<times> int option) list \<Rightarrow> bool" where
  "tallied aid side liab oes m \<longleftrightarrow> (\<forall>asset. map_of m asset =
     (if \<exists>oe \<in> set oes. side oe = asset then
        Some (if isIssuer aid asset then Some 0
              else if sumBy side liab oes asset \<le> INT64_MAX then Some (sumBy side liab oes asset) else None)
      else None))"

lemma addLiabilities_tallied:
  assumes t: "tallied aid side liab oes m" and nn: "\<And>x. x \<in> set oes \<Longrightarrow> 0 \<le> liab x"
    and d: "0 \<le> liab oe" "liab oe \<le> INT64_MAX"
  shows "\<exists>m'. addLiabilities m aid (side oe) (liab oe) = Inr m' \<and> tallied aid side liab (oes @ [oe]) m'"
proof -
  let ?a = "side oe" and ?v = "sumBy side liab oes (side oe)"
  define m1 where "m1 = (if map_of m ?a = None then AList.update ?a (Some 0) m else m)"
  have v: "0 \<le> ?v" using nn by (rule sumBy_nonneg)
  have zero: "?v = 0" if "\<not> (\<exists>x \<in> set oes. side x = ?a)" using that by (intro sumBy_empty) auto
  have m1: "map_of m1 ?a = Some (if isIssuer aid ?a then Some 0 else if ?v \<le> INT64_MAX then Some ?v else None)"
    using t zero by (auto simp: m1_def tallied_def update_conv')
  have m1': "map_of m1 b = map_of m b" if "b \<noteq> ?a" for b using that by (simp add: m1_def update_conv')
  have add: "addLiabilities m aid ?a (liab oe) =
     (if isIssuer aid ?a then Inr m1
      else if ?v \<le> INT64_MAX then
        Inr (AList.update ?a (if ?v + liab oe \<le> INT64_MAX then Some (?v + liab oe) else None) m1)
      else Inr m1)"
    using m1 v d by (auto simp: addLiabilities_def Let_def m1_def [symmetric] addBalance_eq)
  have other: "tallied aid side liab (oes @ [oe]) m'"
    if "map_of m' ?a = Some (if isIssuer aid ?a then Some 0
          else if ?v + liab oe \<le> INT64_MAX then Some (?v + liab oe) else None)"
      "\<And>b. b \<noteq> ?a \<Longrightarrow> map_of m' b = map_of m b" for m'
    using t that by (auto simp: tallied_def)
  show ?thesis
    unfolding add using m1 m1' v d by (auto intro!: other simp: update_conv')
qed

lemma initialLiabilities_tallied:
  assumes "header_ok h" "\<And>x. x \<in> set dn \<union> set oes \<Longrightarrow> offer_ok x \<and> of_sellerID x = aid"
    and "tallied aid of_buying offerBuys dn b" "tallied aid of_selling offerSells dn s"
  shows "\<exists>b' s'. initialLiabilities h oes (b, s) = Inr (b', s')
     \<and> tallied aid of_buying offerBuys (dn @ oes) b' \<and> tallied aid of_selling offerSells (dn @ oes) s'"
  using assms
proof (induction oes arbitrary: dn b s)
  case (Cons oe oes)
  have oe: "offer_ok oe" "of_sellerID oe = aid" and dn: "\<And>x. x \<in> set dn \<Longrightarrow> offer_ok x" using Cons.prems(2) by auto
  note r = offer_sums_range [OF oe(1)] and nn = offer_sums_range(1,3) [OF dn]
  obtain b1 where b1: "addLiabilities b aid (of_buying oe) (offerBuys oe) = Inr b1"
    "tallied aid of_buying offerBuys (dn @ [oe]) b1"
    using addLiabilities_tallied [OF Cons.prems(3) nn(1) r(1,2)] by auto
  obtain s1 where s1: "addLiabilities s aid (of_selling oe) (offerSells oe) = Inr s1"
    "tallied aid of_selling offerSells (dn @ [oe]) s1"
    using addLiabilities_tallied [OF Cons.prems(4) nn(2) r(3,4)] by auto
  show ?case
    using Cons.IH [OF Cons.prems(1) _ b1(2) s1(2)] Cons.prems(2) b1(1) s1(1)
    by (simp add: oe offerLiabilities_simps [OF Cons.prems(1) oe(1)])
qed auto

subsection \<open>Which offers are kept\<close>

definition sellCap :: "ledger \<Rightarrow> AccountID \<Rightarrow> int \<Rightarrow> Asset \<Rightarrow> int" where
  "sellCap l aid reservable asset = (if asset = ASSET_TYPE_NATIVE then reservable
     else if isIssuer aid asset then INT64_MAX
     else case loadTrustLineEntry l aid asset of None \<Rightarrow> 0 | Some t \<Rightarrow> if isAuthorized t then tl_balance t else 0)"

definition buyCap :: "ledger \<Rightarrow> AccountID \<Rightarrow> int \<Rightarrow> Asset \<Rightarrow> int" where
  "buyCap l aid balance asset = (if asset = ASSET_TYPE_NATIVE then INT64_MAX - balance
     else if isIssuer aid asset then INT64_MAX
     else case loadTrustLineEntry l aid asset of None \<Rightarrow> 0
       | Some t \<Rightarrow> if isAuthorized t then tl_limit t - tl_balance t else 0)"

lemma caps_eq:
  "getAvailableBalanceExcludingLiabilities l aid asset reservable = Inr (sellCap l aid reservable asset)"
  "getAvailableLimitExcludingLiabilities l aid asset balance = Inr (buyCap l aid balance asset)"
  by (auto simp: getAvailableBalanceExcludingLiabilities_def getAvailableLimitExcludingLiabilities_def
      sellCap_def buyCap_def loadTrustLine_cases tlw_bool_def tlw_isAuthorized_def tlw_getBalance_def
      split: option.split)

lemma isIssuer_native [simp]: "\<not> isIssuer aid ASSET_TYPE_NATIVE"
  by (simp add: isIssuer_def)

lemma loadTrustLineEntry_ok:
  "\<lbrakk>ledger_ok l; loadTrustLineEntry l aid asset = Some t\<rbrakk> \<Longrightarrow>
     load l (TrustLineKey aid asset) = Some (TRUSTLINE t) \<and> trustline_ok t \<and> tl_accountID t = aid \<and> tl_asset t = asset"
  using ledger_ok_load [of l "TrustLineKey aid asset"]
  by (auto simp: loadTrustLineEntry_def split: option.split_asm LedgerEntryData.split_asm)

lemma caps_le:
  assumes "ledger_ok l" "0 \<le> balance" "reservable \<le> INT64_MAX"
  shows "sellCap l aid reservable asset \<le> INT64_MAX" "buyCap l aid balance asset \<le> INT64_MAX"
    "isIssuer aid asset \<Longrightarrow> sellCap l aid reservable asset = INT64_MAX"
    "isIssuer aid asset \<Longrightarrow> buyCap l aid balance asset = INT64_MAX"
proof -
  have "tl_balance t \<le> INT64_MAX" "tl_limit t - tl_balance t \<le> INT64_MAX"
    if "loadTrustLineEntry l aid asset = Some t" for t
    using loadTrustLineEntry_ok [OF assms(1) that] by (auto simp: trustline_ok_def)
  then show "sellCap l aid reservable asset \<le> INT64_MAX" "buyCap l aid balance asset \<le> INT64_MAX"
    using assms(2,3) by (auto simp: sellCap_def buyCap_def split: option.split)
  show "isIssuer aid asset \<Longrightarrow> sellCap l aid reservable asset = INT64_MAX"
    "isIssuer aid asset \<Longrightarrow> buyCap l aid balance asset = INT64_MAX"
    by (auto simp: sellCap_def buyCap_def)
qed

definition overSold :: "ledger \<Rightarrow> AccountID \<Rightarrow> int \<Rightarrow> OfferEntry list \<Rightarrow> Asset \<Rightarrow> bool" where
  "overSold l aid reservable oes asset \<longleftrightarrow>
     \<not> isIssuer aid asset \<and> sellCap l aid reservable asset < sumBy of_selling offerSells oes asset"

definition overBought :: "ledger \<Rightarrow> AccountID \<Rightarrow> int \<Rightarrow> OfferEntry list \<Rightarrow> Asset \<Rightarrow> bool" where
  "overBought l aid balance oes asset \<longleftrightarrow>
     \<not> isIssuer aid asset \<and> buyCap l aid balance asset < sumBy of_buying offerBuys oes asset"

definition keeps :: "ledger \<Rightarrow> AccountID \<Rightarrow> int \<Rightarrow> int \<Rightarrow> OfferEntry list \<Rightarrow> OfferEntry \<Rightarrow> bool" where
  "keeps l aid balance reservable oes oe \<longleftrightarrow> \<not> overSold l aid reservable oes (of_selling oe)
     \<and> \<not> overBought l aid balance oes (of_buying oe) \<and> adjusted oe \<noteq> 0"

lemma shouldDeleteOffer_tallied:
  assumes "tallied aid side liab oes m" "oe \<in> set oes" "getCap (side oe) eff = Inr cap" "cap \<le> INT64_MAX"
    and "isIssuer aid (side oe) \<Longrightarrow> cap = INT64_MAX"
  shows "shouldDeleteOffer (side oe) eff m getCap = Inr (\<not> isIssuer aid (side oe) \<and> cap < sumBy side liab oes (side oe))"
proof -
  have "map_of m (side oe) = Some (if isIssuer aid (side oe) then Some 0
      else if sumBy side liab oes (side oe) \<le> INT64_MAX then Some (sumBy side liab oes (side oe)) else None)"
    using assms(1,2) by (auto simp: tallied_def)
  then show ?thesis using assms(3-5) by (auto simp: shouldDeleteOffer_def)
qed

subsection \<open>The offers of one account\<close>

definition noted :: "AccountID \<Rightarrow> OfferEntry list \<Rightarrow> (Asset \<times> Liabilities) list \<Rightarrow> bool" where
  "noted aid oes m \<longleftrightarrow> distinct (map fst m) \<and> (\<forall>asset. map_of m asset =
     (if \<not> isIssuer aid asset \<and> (\<exists>oe \<in> set oes. of_buying oe = asset \<or> of_selling oe = asset)
      then Some \<lparr>liab_buying = sumBy of_buying offerBuys oes asset, liab_selling = sumBy of_selling offerSells oes asset\<rparr>
      else None))"

lemma noted_at:
  assumes "noted aid oes m" "\<not> isIssuer aid asset"
  shows "liabilitiesAt m asset
    = \<lparr>liab_buying = sumBy of_buying offerBuys oes asset, liab_selling = sumBy of_selling offerSells oes asset\<rparr>"
proof (cases "\<exists>oe \<in> set oes. of_buying oe = asset \<or> of_selling oe = asset")
  case True
  with assms show ?thesis by (auto simp: noted_def liabilitiesAt_def)
next
  case False
  then have "sumBy of_buying offerBuys oes asset = 0" "sumBy of_selling offerSells oes asset = 0"
    by (auto intro: sumBy_empty)
  moreover have "map_of m asset = None" using False assms(1) by (auto simp: noted_def)
  ultimately show ?thesis by (simp add: liabilitiesAt_def noLiabilities_def)
qed

lemma note_offer:
  assumes h: "header_ok h" and n: "noted aid oes m" and ok: "\<And>x. x \<in> set oes \<Longrightarrow> offer_ok x"
    and oe: "offer_ok oe" "of_sellerID oe = aid" "adjusted oe \<noteq> 0"
    and b: "\<not> isIssuer aid (of_buying oe) \<Longrightarrow> sumBy of_buying offerBuys oes (of_buying oe) + offerBuys oe \<le> INT64_MAX"
    and s: "\<not> isIssuer aid (of_selling oe) \<Longrightarrow> sumBy of_selling offerSells oes (of_selling oe) + offerSells oe \<le> INT64_MAX"
  shows "\<exists>m1 m2. noteBuying h (adjustedOffer oe) m = Inr m1 \<and> noteSelling h (adjustedOffer oe) m1 = Inr m2
     \<and> noted aid (oes @ [oe]) m2"
proof -
  let ?B = "of_buying oe" and ?S = "of_selling oe" and ?oe = "adjustedOffer oe"
  note raw = adjustedOffer_raw [OF oe(1,3)]
  have eq: "offerBuys ?oe = offerBuys oe" "offerSells ?oe = offerSells oe"
    using raw(1) by (simp_all add: offerBuys_def offerSells_def)
  note get = offerLiabilities_simps [OF h raw(4), unfolded eq]
  have nn: "0 \<le> sumBy of_buying offerBuys oes a" "0 \<le> sumBy of_selling offerSells oes a" for a
    using ok offer_sums_range by (auto intro!: sumBy_nonneg)
  have ne: "?B \<noteq> ?S" using oe(1) by (simp add: offer_ok_def)
  let ?m1 = "if isIssuer aid ?B then m else AList.update ?B \<lparr>liab_buying = sumBy of_buying offerBuys (oes @ [oe]) ?B,
      liab_selling = sumBy of_selling offerSells oes ?B\<rparr> m"
  let ?m2 = "if isIssuer aid ?S then ?m1 else AList.update ?S \<lparr>liab_buying = sumBy of_buying offerBuys oes ?S,
      liab_selling = sumBy of_selling offerSells (oes @ [oe]) ?S\<rparr> ?m1"
  have 1: "noteBuying h ?oe m = Inr ?m1"
    using b nn raw(2) noted_at [OF n] oe(2) get
    by (auto simp: noteBuying_def Let_def addBalance_eq)
  have at: "liabilitiesAt ?m1 ?S = liabilitiesAt m ?S"
    using ne by (auto simp: liabilitiesAt_def update_conv')
  have 2: "noteSelling h ?oe ?m1 = Inr ?m2"
    using s nn raw(3) noted_at [OF n] oe(2) get
    by (simp add: noteSelling_def Let_def addBalance_eq at del: if_split) auto
  have d: "distinct (map fst ?m2)" using n by (auto simp: noted_def intro: distinct_update)
  have map: "map_of ?m2 a = (if \<not> isIssuer aid a \<and> (\<exists>x \<in> set (oes @ [oe]). of_buying x = a \<or> of_selling x = a)
      then Some \<lparr>liab_buying = sumBy of_buying offerBuys (oes @ [oe]) a, liab_selling = sumBy of_selling offerSells (oes @ [oe]) a\<rparr>
      else None)" for a
  proof -
    have old: "map_of m a = (if \<not> isIssuer aid a \<and> (\<exists>x \<in> set oes. of_buying x = a \<or> of_selling x = a)
      then Some \<lparr>liab_buying = sumBy of_buying offerBuys oes a, liab_selling = sumBy of_selling offerSells oes a\<rparr>
      else None)" using n by (simp add: noted_def)
    show ?thesis
    proof (cases "isIssuer aid a")
      case True
      then show ?thesis using old by (auto simp: update_conv')
    next
      case False
      consider (buying) "a = ?B" | (selling) "a = ?S" | (other) "a \<noteq> ?B" "a \<noteq> ?S" by blast
      then show ?thesis using False ne old by cases (auto simp: update_conv')
    qed
  qed
  from d map have "noted aid (oes @ [oe]) ?m2" unfolding noted_def by blast
  with 1 2 show ?thesis by blast
qed

definition offerKeyOf :: "OfferEntry \<Rightarrow> LedgerKey" where
  "offerKeyOf oe = OfferKey (of_sellerID oe) (of_offerID oe)"

definition swept :: "ledger \<Rightarrow> (OfferEntry \<Rightarrow> bool) \<Rightarrow> OfferEntry list \<Rightarrow> ledger \<Rightarrow> bool" where
  "swept l0 P oes l \<longleftrightarrow>
     (\<forall>oe \<in> set oes. load l (offerKeyOf oe) = (if P oe then Some (OFFER (adjustedOffer oe)) else None))
     \<and> (\<forall>k. k \<notin> offerKeyOf ` set oes \<longrightarrow> load l k = load l0 k)"

lemma swept_caps:
  assumes "swept l0 P oes l"
  shows "loadTrustLineEntry l a asset = loadTrustLineEntry l0 a asset"
    "loadAccount l a = loadAccount l0 a"
  using assms by (auto simp: swept_def loadTrustLineEntry_def loadAccount_def offerKeyOf_def image_iff)

lemma swept_snoc:
  assumes "swept l0 P dn l" "offerKeyOf oe \<notin> offerKeyOf ` set dn"
    and "\<And>k. load l' k = (if k = offerKeyOf oe then (if P oe then Some (OFFER (adjustedOffer oe)) else None) else load l k)"
  shows "swept l0 P (dn @ [oe]) l'"
proof -
  have "\<forall>x \<in> set dn. offerKeyOf x \<noteq> offerKeyOf oe" using assms(2) by (auto simp: image_iff)
  then show ?thesis using assms(1) unfolding swept_def by (auto simp: assms(3))
qed

text \<open>What is known of the offers of an account when its turn comes.\<close>

definition accountOffers_ok :: "ledger \<Rightarrow> AccountID \<Rightarrow> OfferEntry list \<Rightarrow> bool" where
  "accountOffers_ok l aid oes \<longleftrightarrow> distinct (map offerKeyOf oes)
     \<and> (\<forall>oe \<in> set oes. offer_ok oe \<and> of_sellerID oe = aid \<and> load l (offerKeyOf oe) = Some (OFFER oe))"

lemma updateOffer_step:
  assumes ok: "ledger_ok l0" "accountOffers_ok l0 aid oes" "0 \<le> balance" "reservable \<le> INT64_MAX"
    and t: "tallied aid of_buying offerBuys oes b" "tallied aid of_selling offerSells oes s"
    and oes: "oes = dn @ oe # rest" and P: "P = keeps l0 aid balance reservable oes"
    and inv: "swept l0 P dn l" "moves l0 0 l" "noted aid (filter P dn) m"
  shows "\<exists>res m' l'. updateOffer l oe balance reservable m b s = Inr (res, m', l')
     \<and> (P oe \<longleftrightarrow> \<not> (res = AdjustedToZero \<or> res = Erased))
     \<and> noted aid (filter P (dn @ [oe])) m' \<and> swept l0 P (dn @ [oe]) l' \<and> moves l0 0 l'"
proof -
  have oe: "offer_ok oe" "of_sellerID oe = aid" "load l0 (offerKeyOf oe) = Some (OFFER oe)"
    and new: "offerKeyOf oe \<notin> offerKeyOf ` set dn"
    using ok(2) oes by (auto simp: accountOffers_ok_def)
  have h: "header_ok (lg_header l)" using movesD(1) [OF inv(2)] by (rule ledger_ok_header)
  have lok: "ledger_ok l" by (rule movesD(1) [OF inv(2)])
  have at: "load l (offerKeyOf oe) = Some (OFFER oe)" using inv(1) new oe(3) by (auto simp: swept_def)
  have caps: "sellCap l = sellCap l0" "buyCap l = buyCap l0"
    using swept_caps(1) [OF inv(1)] by (simp_all add: sellCap_def buyCap_def fun_eq_iff)
  have del: "shouldDeleteOffer (of_selling oe) reservable s (getAvailableBalanceExcludingLiabilities l aid)
      = Inr (overSold l0 aid reservable oes (of_selling oe))"
    "shouldDeleteOffer (of_buying oe) balance b (getAvailableLimitExcludingLiabilities l aid)
      = Inr (overBought l0 aid balance oes (of_buying oe))"
    using oes shouldDeleteOffer_tallied [OF t(2), of oe _ _ "sellCap l0 aid reservable (of_selling oe)"]
      shouldDeleteOffer_tallied [OF t(1), of oe _ _ "buyCap l0 aid balance (of_buying oe)"]
      caps_le [OF ok(1,3,4)] by (simp_all add: caps_eq caps overSold_def overBought_def)
  show ?thesis
  proof (cases "P oe")
    case False
    from at have "erase l (offerKeyOf oe) \<noteq> Inl x" for x by (simp add: erase_def)
    then obtain l' where l': "erase l (offerKeyOf oe) = Inr l'" by (cases "erase l (offerKeyOf oe)") auto
    have "moves l 0 l'" using moves_erase [OF lok l'] at by simp
    then have "moves l0 0 l'" using moves_trans [OF inv(2), of 0 l'] by simp
    moreover have "swept l0 P (dn @ [oe]) l'"
      using load_erase [OF l'] False by (intro swept_snoc [OF inv(1) new]) auto
    moreover have "\<exists>res. updateOffer l oe balance reservable m b s = Inr (res, m, l')
        \<and> (res = AdjustedToZero \<or> res = Erased)"
      using False l' adjustOffer_adjusted(1) [OF oe(1)]
      by (auto simp: updateOffer_def Let_def del oe(2) P keeps_def offerKeyOf_def)
    ultimately show ?thesis using False inv(3) by auto
  next
    case True
    then have k: "\<not> overSold l0 aid reservable oes (of_selling oe)" "\<not> overBought l0 aid balance oes (of_buying oe)"
      "adjusted oe \<noteq> 0" by (simp_all add: P keeps_def)
    have nn: "0 \<le> offerBuys x" "0 \<le> offerSells x" if "x \<in> set oes" for x
      using that ok(2) offer_sums_range by (auto simp: accountOffers_ok_def)
    have sub: "sumBy side liab (filter P dn) a + (if side oe = a then liab oe else 0) \<le> sumBy side liab oes a"
      if "\<And>x. x \<in> set oes \<Longrightarrow> 0 \<le> liab x" for side liab a
    proof -
      have "0 \<le> sumBy side liab rest a" using that oes by (intro sumBy_nonneg) auto
      moreover have "sumBy side liab (filter P dn) a \<le> sumBy side liab dn a"
        using that oes by (intro sumBy_filter_le) auto
      ultimately show ?thesis by (simp add: oes)
    qed
    have b: "sumBy of_buying offerBuys (filter P dn) (of_buying oe) + offerBuys oe \<le> INT64_MAX"
      if "\<not> isIssuer aid (of_buying oe)"
      using k(2) that sub [where side = of_buying and liab = offerBuys and a = "of_buying oe"] nn(1) caps_le(2) [OF ok(1,3,4), of aid "of_buying oe"]
      by (simp add: overBought_def)
    have s: "sumBy of_selling offerSells (filter P dn) (of_selling oe) + offerSells oe \<le> INT64_MAX"
      if "\<not> isIssuer aid (of_selling oe)"
      using k(1) that sub [where side = of_selling and liab = offerSells and a = "of_selling oe"] nn(2) caps_le(1) [OF ok(1,3,4), of aid "of_selling oe"]
      by (simp add: overSold_def)
    have dn: "offer_ok x" if "x \<in> set (filter P dn)" for x using that ok(2) oes by (auto simp: accountOffers_ok_def)
    obtain m1 m2 where m: "noteBuying (lg_header l) (adjustedOffer oe) m = Inr m1"
      "noteSelling (lg_header l) (adjustedOffer oe) m1 = Inr m2" "noted aid (filter P dn @ [oe]) m2"
      using note_offer [OF h inv(3) dn oe(1,2) k(3) b s] by blast
    let ?l = "store l (OFFER (adjustedOffer oe))"
    have "moves l 0 ?l"
      using adjustedOffer_raw(4) [OF oe(1) k(3)] at by (intro moves_store [OF lok]) (auto simp: offerKeyOf_def)
    then have "moves l0 0 ?l" using moves_trans [OF inv(2), of 0 ?l] by simp
    moreover have "swept l0 P (dn @ [oe]) ?l"
      using True by (intro swept_snoc [OF inv(1) new]) (auto simp: offerKeyOf_def)
    moreover have "\<exists>res. updateOffer l oe balance reservable m b s = Inr (res, m2, ?l)
        \<and> \<not> (res = AdjustedToZero \<or> res = Erased)"
      using adjustOffer_adjusted(1) [OF oe(1)] m k
      by (simp add: updateOffer_def Let_def del oe(2))
    ultimately show ?thesis using True m(3) by auto
  qed
qed

lemma dropNumEntry_exact:
  "\<lbrakk>header_ok h; account_ok a; ac_numSubEntries a < INT32_MAX - 1; 0 < ac_numSubEntries a\<rbrakk>
   \<Longrightarrow> dropNumEntry h a = Inr (a\<lparr>ac_numSubEntries := ac_numSubEntries a - 1\<rparr>)"
  by (simp add: dropNumEntry_def addNumEntries_remove)

lemma updateOffers_run:
  assumes ok: "ledger_ok l0" "accountOffers_ok l0 aid oes" "0 \<le> balance" "reservable \<le> INT64_MAX"
    and t: "tallied aid of_buying offerBuys oes b" "tallied aid of_selling offerSells oes s"
    and P: "P = keeps l0 aid balance reservable oes"
  shows "\<lbrakk>oes = dn @ rest; swept l0 P dn l; moves l0 0 l; noted aid (filter P dn) m; account_ok acc;
      int (length rest) \<le> ac_numSubEntries acc; ac_numSubEntries acc < INT32_MAX - 1\<rbrakk>
    \<Longrightarrow> \<exists>m' l' n. updateOffers rest balance reservable b s m acc l = Inr (m', acc\<lparr>ac_numSubEntries := n\<rparr>, l')
       \<and> 0 \<le> n \<and> n \<le> ac_numSubEntries acc
       \<and> noted aid (filter P oes) m' \<and> swept l0 P oes l' \<and> moves l0 0 l'"
proof (induction rest arbitrary: dn l m acc)
  case Nil
  have "acc = acc\<lparr>ac_numSubEntries := ac_numSubEntries acc\<rparr>" by simp
  then show ?case using Nil by (auto simp: account_ok_def intro!: exI [of _ "ac_numSubEntries acc"])
next
  case (Cons oe rest)
  obtain res m1 l1 where s1: "updateOffer l oe balance reservable m b s = Inr (res, m1, l1)"
    "P oe \<longleftrightarrow> \<not> (res = AdjustedToZero \<or> res = Erased)"
    "noted aid (filter P (dn @ [oe])) m1" "swept l0 P (dn @ [oe]) l1" "moves l0 0 l1"
    using updateOffer_step [OF ok t Cons.prems(1) P Cons.prems(2-4)] by blast
  have h: "header_ok (lg_header l)" using movesD(1) [OF Cons.prems(3)] by (rule ledger_ok_header)
  define acc1 where "acc1 = (if P oe then acc else acc\<lparr>ac_numSubEntries := ac_numSubEntries acc - 1\<rparr>)"
  have acc1: "(if res = AdjustedToZero \<or> res = Erased then dropNumEntry (lg_header l) acc else Inr acc) = Inr acc1"
    using s1(2) dropNumEntry_exact [OF h Cons.prems(5,7)] Cons.prems(6) by (auto simp: acc1_def)
  have "account_ok acc1" "int (length rest) \<le> ac_numSubEntries acc1" "ac_numSubEntries acc1 < INT32_MAX - 1"
    "ac_numSubEntries acc1 \<le> ac_numSubEntries acc"
    using Cons.prems(5-7) by (auto simp: acc1_def account_ok_def)
  note * = this
  obtain m' l' n where r: "updateOffers rest balance reservable b s m1 acc1 l1 = Inr (m', acc1\<lparr>ac_numSubEntries := n\<rparr>, l')"
    "0 \<le> n" "n \<le> ac_numSubEntries acc1" "noted aid (filter P oes) m'" "swept l0 P oes l'" "moves l0 0 l'"
    using Cons.IH [OF _ s1(4,5,3) *(1-3)] Cons.prems(1) by auto
  have "acc1\<lparr>ac_numSubEntries := n\<rparr> = acc\<lparr>ac_numSubEntries := n\<rparr>" by (simp add: acc1_def)
  with r s1(1) acc1 *(4) have "updateOffers (oe # rest) balance reservable b s m acc l = Inr (m', acc\<lparr>ac_numSubEntries := n\<rparr>, l')
      \<and> 0 \<le> n \<and> n \<le> ac_numSubEntries acc" by (simp del: if_split)
  with r(4-6) show ?case by blast
qed

subsection \<open>Setting the liabilities\<close>

definition settableNative :: "LedgerHeader \<Rightarrow> AccountEntry \<Rightarrow> Liabilities \<Rightarrow> bool" where
  "settableNative h acc x \<longleftrightarrow> 0 \<le> liab_selling x \<and> 0 \<le> liab_buying x \<and> liab_buying x \<le> INT64_MAX - ac_balance acc
     \<and> (liab_selling x = ext_selling (ac_ext acc)
        \<or> getMinBalance h (ac_numSubEntries acc) + liab_selling x \<le> ac_balance acc)"

definition settableLine :: "ledger \<Rightarrow> AccountID \<Rightarrow> Asset \<Rightarrow> Liabilities \<Rightarrow> bool" where
  "settableLine l aid asset x \<longleftrightarrow> \<not> isIssuer aid asset
     \<and> (\<exists>t. loadTrustLineEntry l aid asset = Some t \<and> isAuthorized t \<and> 0 \<le> liab_selling x
          \<and> liab_selling x \<le> tl_balance t \<and> 0 \<le> liab_buying x \<and> liab_buying x \<le> tl_limit t - tl_balance t)"

abbreviation has_liabilities :: "Liabilities option \<Rightarrow> Liabilities \<Rightarrow> bool" where
  "has_liabilities ext x \<equiv> ext_buying ext = liab_buying x \<and> ext_selling ext = liab_selling x"

lemma setNativeLiabilities_exact:
  assumes "header_ok h" "account_ok a" "settableNative h a x"
  shows "\<exists>ext. setNativeLiabilities h x a = Inr (a\<lparr>ac_ext := ext\<rparr>) \<and> has_liabilities ext x \<and> account_ok (a\<lparr>ac_ext := ext\<rparr>)"
proof -
  let ?s = "ext_selling (ac_ext a)" and ?b = "ext_buying (ac_ext a)"
  define a1 where "a1 = (if liab_selling x = ?s then a else a\<lparr>ac_ext := set_selling (ac_ext a) (liab_selling x)\<rparr>)"
  define a2 where "a2 = (if liab_buying x = ?b then a1 else a1\<lparr>ac_ext := set_buying (ac_ext a1) (liab_buying x)\<rparr>)"
  have s: "addSellingLiabilities h (ACCOUNT a) (liab_selling x - ?s) = Inr (Some (ACCOUNT a1))"
    using assms getMinBalance_nonneg [OF assms(1), of "ac_numSubEntries a"]
    by (auto simp: addSellingLiabilities_account settableNative_def a1_def acc_available_def)
  have a1: "account_ok a1" "ac_balance a1 = ac_balance a" "ext_buying (ac_ext a1) = ?b" "ext_selling (ac_ext a1) = liab_selling x"
    using assms(2,3) by (auto simp: a1_def settableNative_def intro: liabilities_ok(2))
  have b: "addBuyingLiabilities h (ACCOUNT a1) (liab_buying x - ?b) = Inr (Some (ACCOUNT a2))"
    using assms a1 by (auto simp: addBuyingLiabilities_account settableNative_def a2_def acc_room_def)
  have a2: "account_ok a2" "has_liabilities (ac_ext a2) x"
    using a1 assms(3) by (auto simp: a2_def settableNative_def intro: liabilities_ok(1))
  have "a2 = a\<lparr>ac_ext := ac_ext a2\<rparr>" by (simp add: a2_def a1_def)
  moreover have "setNativeLiabilities h x a = Inr a2"
    using assms(1) s b by (simp add: setNativeLiabilities_def)
  ultimately show ?thesis using a2 by metis
qed

lemma setLineLiabilities_exact:
  assumes l: "ledger_ok l" "asset \<noteq> ASSET_TYPE_NATIVE" "settableLine l aid asset x"
  shows "\<exists>t' l'. setLineLiabilities l aid asset x = Inr l' \<and> moves l 0 l'
    \<and> loadTrustLineEntry l' aid asset = Some t' \<and> has_liabilities (tl_ext t') x
    \<and> (\<forall>k. k \<noteq> TrustLineKey aid asset \<longrightarrow> load l' k = load l k)"
proof -
  obtain t where t: "loadTrustLineEntry l aid asset = Some t" "isAuthorized t" "0 \<le> liab_selling x"
    "liab_selling x \<le> tl_balance t" "0 \<le> liab_buying x" "liab_buying x \<le> tl_limit t - tl_balance t"
    "\<not> isIssuer aid asset"
    using l(3) by (auto simp: settableLine_def)
  note tl = loadTrustLineEntry_ok [OF l(1) t(1)]
  have h: "header_ok (lg_header l)" using l(1) by (rule ledger_ok_header)
  let ?s = "ext_selling (tl_ext t)" and ?b = "ext_buying (tl_ext t)"
  define t1 where "t1 = (if liab_selling x = ?s then t else t\<lparr>tl_ext := set_selling (tl_ext t) (liab_selling x)\<rparr>)"
  define t2 where "t2 = (if liab_buying x = ?b then t1 else t1\<lparr>tl_ext := set_buying (tl_ext t1) (liab_buying x)\<rparr>)"
  have s: "addSellingLiabilities (lg_header l) (TRUSTLINE t) (liab_selling x - ?s) = Inr (Some (TRUSTLINE t1))"
    using h tl t by (auto simp: addSellingLiabilities_trustline t1_def tl_available_def)
  have t1: "trustline_ok t1" "isAuthorized t1" "tl_limit t1 = tl_limit t" "tl_balance t1 = tl_balance t"
    "ext_buying (tl_ext t1) = ?b" "ext_selling (tl_ext t1) = liab_selling x" "tl_accountID t1 = aid" "tl_asset t1 = asset"
    using tl t by (auto simp: t1_def isAuthorized_def intro: liabilities_ok(4))
  have b: "addBuyingLiabilities (lg_header l) (TRUSTLINE t1) (liab_buying x - ?b) = Inr (Some (TRUSTLINE t2))"
    using h t t1 by (auto simp: addBuyingLiabilities_trustline t2_def tl_room_def)
  have t2: "trustline_ok t2" "has_liabilities (tl_ext t2) x" "tl_accountID t2 = aid" "tl_asset t2 = asset"
    using t1 t by (auto simp: t2_def intro: liabilities_ok(3))
  have "setLineLiabilities l aid asset x = Inr (store l (TRUSTLINE t2))"
    using h s b l(2) t by (simp add: setLineLiabilities_def Let_def loadTrustLine_cases tlw_getSellingLiabilities_def
        tlw_getBuyingLiabilities_def tlw_addSellingLiabilities_def tlw_addBuyingLiabilities_def putTrustLine_def)
  moreover have "moves l 0 (store l (TRUSTLINE t2))"
    using t2 tl by (intro moves_store [OF l(1)]) auto
  ultimately show ?thesis using t2 by (auto simp: loadTrustLineEntry_def intro!: exI [of _ t2])
qed

lemma settableLine_cong:
  "load l' (TrustLineKey aid asset) = load l (TrustLineKey aid asset) \<Longrightarrow> settableLine l' aid asset x = settableLine l aid asset x"
  by (simp add: settableLine_def loadTrustLineEntry_def)

lemma setLiabilities_run:
  "\<lbrakk>distinct (map fst xs); ledger_ok l; account_ok acc;
    \<forall>asset x. (asset, x) \<in> set xs \<longrightarrow> (if asset = ASSET_TYPE_NATIVE then settableNative (lg_header l) acc x
       else settableLine l aid asset x)\<rbrakk>
   \<Longrightarrow> \<exists>ext l'. setLiabilities aid xs acc l = Inr (acc\<lparr>ac_ext := ext\<rparr>, l') \<and> moves l 0 l' \<and> account_ok (acc\<lparr>ac_ext := ext\<rparr>)
     \<and> (case map_of xs ASSET_TYPE_NATIVE of None \<Rightarrow> ext = ac_ext acc | Some x \<Rightarrow> has_liabilities ext x)
     \<and> (\<forall>asset x. (asset, x) \<in> set xs \<and> asset \<noteq> ASSET_TYPE_NATIVE \<longrightarrow>
          (\<exists>t. loadTrustLineEntry l' aid asset = Some t \<and> has_liabilities (tl_ext t) x))
     \<and> (\<forall>k. (\<forall>asset \<in> fst ` set xs. k \<noteq> TrustLineKey aid asset) \<longrightarrow> load l' k = load l k)"
proof (induction xs arbitrary: acc l)
  case Nil
  have "acc\<lparr>ac_ext := ac_ext acc\<rparr> = acc" by simp
  then show ?case using Nil by (intro exI [of _ "ac_ext acc"] exI [of _ l]) (simp add: moves_refl)
next
  case (Cons y xs)
  obtain asset x where y: "y = (asset, x)" by (cases y)
  have d: "distinct (map fst xs)" "asset \<notin> fst ` set xs" using Cons.prems(1) y by auto
  have h: "header_ok (lg_header l)" using Cons.prems(2) by (rule ledger_ok_header)
  show ?case
  proof (cases "asset = ASSET_TYPE_NATIVE")
    case True
    with Cons.prems(4) y have "settableNative (lg_header l) acc x" by fastforce
    from setNativeLiabilities_exact [OF h Cons.prems(3) this] obtain ext where
      e: "setNativeLiabilities (lg_header l) x acc = Inr (acc\<lparr>ac_ext := ext\<rparr>)" "has_liabilities ext x"
        "account_ok (acc\<lparr>ac_ext := ext\<rparr>)" by blast
    have nn: "map_of xs ASSET_TYPE_NATIVE = None" using d(2) True by (simp add: map_of_eq_None_iff)
    have "b \<noteq> ASSET_TYPE_NATIVE" if "(b, x) \<in> set xs" for b x using d(2) True that by force
    then have "\<forall>b z. (b, z) \<in> set xs \<longrightarrow> (if b = ASSET_TYPE_NATIVE
        then settableNative (lg_header l) (acc\<lparr>ac_ext := ext\<rparr>) z else settableLine l aid b z)"
      using Cons.prems(4) by auto
    from Cons.IH [OF d(1) Cons.prems(2) e(3) this] nn obtain l' where
      r: "setLiabilities aid xs (acc\<lparr>ac_ext := ext\<rparr>) l = Inr (acc\<lparr>ac_ext := ext\<rparr>, l')" "moves l 0 l'"
        "\<forall>asset x. (asset, x) \<in> set xs \<and> asset \<noteq> ASSET_TYPE_NATIVE \<longrightarrow>
          (\<exists>t. loadTrustLineEntry l' aid asset = Some t \<and> has_liabilities (tl_ext t) x)"
        "\<forall>k. (\<forall>asset \<in> fst ` set xs. k \<noteq> TrustLineKey aid asset) \<longrightarrow> load l' k = load l k"
      by auto
    have "map_of (y # xs) ASSET_TYPE_NATIVE = Some x" using y True by simp
    moreover have "setLiabilities aid (y # xs) acc l = Inr (acc\<lparr>ac_ext := ext\<rparr>, l')"
      using y True e(1) r(1) by simp
    ultimately show ?thesis using r(2-4) e(2,3) y True by (intro exI [of _ ext] exI [of _ l']) auto
  next
    case False
    with Cons.prems(4) y have "settableLine l aid asset x" by fastforce
    from setLineLiabilities_exact [OF Cons.prems(2) False this] obtain t l1 where
      e: "setLineLiabilities l aid asset x = Inr l1" "moves l 0 l1"
        "loadTrustLineEntry l1 aid asset = Some t" "has_liabilities (tl_ext t) x"
        "\<And>k. k \<noteq> TrustLineKey aid asset \<Longrightarrow> load l1 k = load l k" by blast
    have "if b = ASSET_TYPE_NATIVE then settableNative (lg_header l1) acc z else settableLine l1 aid b z"
      if "(b, z) \<in> set xs" for b z
    proof -
      have "b \<noteq> asset" using that d(2) by force
      then show ?thesis
        using Cons.prems(4) [rule_format, of b z] that settableLine_cong [of l1 aid b l z] e(5) movesD(2) [OF e(2)] by auto
    qed
    then have "\<forall>b z. (b, z) \<in> set xs \<longrightarrow> (if b = ASSET_TYPE_NATIVE
        then settableNative (lg_header l1) acc z else settableLine l1 aid b z)" by blast
    from Cons.IH [OF d(1) movesD(1) [OF e(2)] Cons.prems(3) this] obtain ext l' where
      r: "setLiabilities aid xs acc l1 = Inr (acc\<lparr>ac_ext := ext\<rparr>, l')" "moves l1 0 l'" "account_ok (acc\<lparr>ac_ext := ext\<rparr>)"
        "case map_of xs ASSET_TYPE_NATIVE of None \<Rightarrow> ext = ac_ext acc | Some x \<Rightarrow> has_liabilities ext x"
        "\<forall>asset x. (asset, x) \<in> set xs \<and> asset \<noteq> ASSET_TYPE_NATIVE \<longrightarrow>
          (\<exists>t. loadTrustLineEntry l' aid asset = Some t \<and> has_liabilities (tl_ext t) x)"
        "\<And>k. (\<forall>asset \<in> fst ` set xs. k \<noteq> TrustLineKey aid asset) \<Longrightarrow> load l' k = load l1 k"
      by blast
    have "loadTrustLineEntry l' aid asset = Some t"
      using r(6) [of "TrustLineKey aid asset"] d(2) e(3) by (auto simp: loadTrustLineEntry_def image_iff)
    moreover have "moves l 0 l'" using moves_trans [OF e(2) r(2)] by simp
    moreover have "load l' k = load l k" if "\<forall>b \<in> fst ` set (y # xs). k \<noteq> TrustLineKey aid b" for k
      using r(6) [of k] e(5) [of k] that y by simp
    moreover have "setLiabilities aid (y # xs) acc l = Inr (acc\<lparr>ac_ext := ext\<rparr>, l')"
      using y False e(1) r(1) by simp
    moreover have "map_of (y # xs) ASSET_TYPE_NATIVE = map_of xs ASSET_TYPE_NATIVE" using y False by simp
    moreover have "\<exists>t. loadTrustLineEntry l' aid b = Some t \<and> has_liabilities (tl_ext t) z"
      if "(b, z) \<in> set (y # xs)" "b \<noteq> ASSET_TYPE_NATIVE" for b z
      using that r(5) calculation(1) e(4) y by auto
    ultimately show ?thesis using r(3,4) by (intro exI [of _ ext] exI [of _ l']) simp
  qed
qed

subsection \<open>One account\<close>

text \<open>The liabilities an account has in an asset, as buyer and as seller.\<close>

definition liabilitiesOf :: "ledger \<Rightarrow> AccountID \<Rightarrow> Asset \<Rightarrow> int \<times> int" where
  "liabilitiesOf l aid asset =
     (let ext = (if asset = ASSET_TYPE_NATIVE then (case loadAccount l aid of None \<Rightarrow> None | Some a \<Rightarrow> ac_ext a)
                 else (case loadTrustLineEntry l aid asset of None \<Rightarrow> None | Some t \<Rightarrow> tl_ext t)) in
      (ext_buying ext, ext_selling ext))"

definition trades :: "Asset \<Rightarrow> OfferEntry \<Rightarrow> bool" where
  "trades asset oe \<longleftrightarrow> of_buying oe = asset \<or> of_selling oe = asset"

text \<open>The account still covers its reserve, or has sold nothing.\<close>

definition payable :: "LedgerHeader \<Rightarrow> AccountEntry \<Rightarrow> bool" where
  "payable h acc \<longleftrightarrow> ext_selling (ac_ext acc) = 0 \<or> getMinBalance h (ac_numSubEntries acc) \<le> ac_balance acc"

lemma getMinBalance_mono:
  assumes "header_ok h" "0 \<le> n" "n \<le> m" "m < INT32_MAX"
  shows "getMinBalance h n \<le> getMinBalance h m"
proof -
  have "(2 + n) mod 2 ^ 32 = 2 + n" "(2 + m) mod 2 ^ 32 = 2 + m" using assms(2-4) by simp_all
  then show ?thesis using assms by (auto simp: getMinBalance_def header_ok_def intro: mult_right_mono)
qed

lemma map_of_sort_key:
  assumes "distinct (map fst m)"
  shows "map_of (sort_key f m) = map_of m"
proof -
  have "distinct (map fst (sort_key f m))" using assms by (simp add: distinct_map)
  with assms show ?thesis by (simp add: map_of_inject_set)
qed

lemma kept_fits:
  assumes "accountOffers_ok l aid oes" "P = keeps l aid balance reservable oes" "oe \<in> set (filter P oes)"
  shows "\<not> isIssuer aid (of_selling oe) \<Longrightarrow> 0 < sumBy of_selling offerSells (filter P oes) (of_selling oe)
      \<and> sumBy of_selling offerSells (filter P oes) (of_selling oe) \<le> sellCap l aid reservable (of_selling oe)"
    "\<not> isIssuer aid (of_buying oe) \<Longrightarrow> 0 < sumBy of_buying offerBuys (filter P oes) (of_buying oe)
      \<and> sumBy of_buying offerBuys (filter P oes) (of_buying oe) \<le> buyCap l aid balance (of_buying oe)"
proof -
  have ok: "offer_ok x" if "x \<in> set oes" for x using that assms(1) by (auto simp: accountOffers_ok_def)
  have k: "\<not> overSold l aid reservable oes (of_selling oe)" "\<not> overBought l aid balance oes (of_buying oe)"
    "adjusted oe \<noteq> 0" "oe \<in> set oes" using assms(2,3) by (auto simp: keeps_def)
  note pos = adjustedOffer_raw(2,3) [OF ok [OF k(4)] k(3)]
  show "\<not> isIssuer aid (of_selling oe) \<Longrightarrow> 0 < sumBy of_selling offerSells (filter P oes) (of_selling oe)
      \<and> sumBy of_selling offerSells (filter P oes) (of_selling oe) \<le> sellCap l aid reservable (of_selling oe)"
    using k(1) sumBy_filter_le [of oes offerSells of_selling P "of_selling oe"] offer_sums_range(3) [OF ok]
      sumBy_pos [where side = of_selling and liab = offerSells, OF assms(3) refl pos(2)] by (fastforce simp: overSold_def)
  show "\<not> isIssuer aid (of_buying oe) \<Longrightarrow> 0 < sumBy of_buying offerBuys (filter P oes) (of_buying oe)
      \<and> sumBy of_buying offerBuys (filter P oes) (of_buying oe) \<le> buyCap l aid balance (of_buying oe)"
    using k(2) sumBy_filter_le [of oes offerBuys of_buying P "of_buying oe"] offer_sums_range(1) [OF ok]
      sumBy_pos [where side = of_buying and liab = offerBuys, OF assms(3) refl pos(1)] by (fastforce simp: overBought_def)
qed

lemma kept_sums:
  assumes "accountOffers_ok l aid oes" "P = keeps l aid balance reservable oes" "\<not> isIssuer aid asset"
  shows "sumBy of_selling offerSells (filter P oes) asset = 0
      \<or> 0 < sumBy of_selling offerSells (filter P oes) asset
        \<and> sumBy of_selling offerSells (filter P oes) asset \<le> sellCap l aid reservable asset"
    "sumBy of_buying offerBuys (filter P oes) asset = 0
      \<or> 0 < sumBy of_buying offerBuys (filter P oes) asset
        \<and> sumBy of_buying offerBuys (filter P oes) asset \<le> buyCap l aid balance asset"
    "oe \<in> set (filter P oes) \<Longrightarrow> trades asset oe \<Longrightarrow> 0 < sumBy of_selling offerSells (filter P oes) asset
      \<or> 0 < sumBy of_buying offerBuys (filter P oes) asset"
proof -
  note f = kept_fits [OF assms(1,2)]
  show "sumBy of_selling offerSells (filter P oes) asset = 0
      \<or> 0 < sumBy of_selling offerSells (filter P oes) asset
        \<and> sumBy of_selling offerSells (filter P oes) asset \<le> sellCap l aid reservable asset"
  proof (cases "\<exists>x \<in> set (filter P oes). of_selling x = asset")
    case True
    with f(1) assms(3) show ?thesis by blast
  next
    case False
    then show ?thesis using sumBy_empty by blast
  qed
  show "sumBy of_buying offerBuys (filter P oes) asset = 0
      \<or> 0 < sumBy of_buying offerBuys (filter P oes) asset
        \<and> sumBy of_buying offerBuys (filter P oes) asset \<le> buyCap l aid balance asset"
  proof (cases "\<exists>x \<in> set (filter P oes). of_buying x = asset")
    case True
    with f(2) assms(3) show ?thesis by blast
  next
    case False
    then show ?thesis using sumBy_empty by blast
  qed
  show "0 < sumBy of_selling offerSells (filter P oes) asset \<or> 0 < sumBy of_buying offerBuys (filter P oes) asset"
    if "oe \<in> set (filter P oes)" "trades asset oe"
    using that f [of oe] assms(3) by (auto simp: trades_def)
qed

abbreviation keptLiabilities :: "OfferEntry list \<Rightarrow> Asset \<Rightarrow> Liabilities" where
  "keptLiabilities oes asset \<equiv>
     \<lparr>liab_buying = sumBy of_buying offerBuys oes asset, liab_selling = sumBy of_selling offerSells oes asset\<rparr>"

lemma kept_settable:
  assumes ok: "ledger_ok l" "accountOffers_ok l aid oes" "loadAccount l aid = Some acc" "payable (lg_header l) acc"
    and n: "0 \<le> n" "n \<le> ac_numSubEntries acc" "ac_numSubEntries acc < INT32_MAX"
    and P: "P = keeps l aid (ac_balance acc) (ac_balance acc - getMinBalance (lg_header l) (ac_numSubEntries acc)) oes"
    and x: "\<not> isIssuer aid asset" "oe \<in> set (filter P oes)" "trades asset oe"
  shows "if asset = ASSET_TYPE_NATIVE
    then settableNative (lg_header l) (acc\<lparr>ac_numSubEntries := n\<rparr>) (keptLiabilities (filter P oes) asset)
    else settableLine l aid asset (keptLiabilities (filter P oes) asset)"
proof (cases "asset = ASSET_TYPE_NATIVE")
  case True
  have acc: "account_ok acc" using loadAccount_load [OF ok(1,3)] by simp
  have "getMinBalance (lg_header l) n \<le> getMinBalance (lg_header l) (ac_numSubEntries acc)"
    by (rule getMinBalance_mono [OF ledger_ok_header [OF ok(1)] n])
  then show ?thesis
    using True kept_sums(1,2) [OF ok(2) P x(1)] ok(4) acc
    by (auto simp: settableNative_def sellCap_def buyCap_def payable_def account_ok_def)
next
  case False
  let ?reservable = "ac_balance acc - getMinBalance (lg_header l) (ac_numSubEntries acc)"
  note k = kept_sums [OF ok(2) P x(1)]
  have "0 < sellCap l aid ?reservable asset \<or> 0 < buyCap l aid (ac_balance acc) asset"
    using k(1,2) k(3) [OF x(2,3)] by auto
  then obtain t where t: "loadTrustLineEntry l aid asset = Some t" "isAuthorized t"
    using False x(1) by (auto simp: sellCap_def buyCap_def split: option.split_asm if_split_asm)
  then show ?thesis
    using False k(1,2) x(1) loadTrustLineEntry_ok [OF ok(1) t(1)]
    by (auto simp: settableLine_def sellCap_def buyCap_def trustline_ok_def)
qed

definition keptOffers :: "ledger \<Rightarrow> AccountID \<Rightarrow> OfferEntry list \<Rightarrow> OfferEntry list" where
  "keptOffers l aid oes = (case loadAccount l aid of None \<Rightarrow> []
     | Some acc \<Rightarrow> filter (keeps l aid (ac_balance acc)
         (ac_balance acc - getMinBalance (lg_header l) (ac_numSubEntries acc)) oes) oes)"

text \<open>What the pass over one account does to the ledger.\<close>

definition prepared :: "AccountID \<Rightarrow> OfferEntry list \<Rightarrow> ledger \<Rightarrow> ledger \<Rightarrow> bool" where
  "prepared aid oes l l' \<longleftrightarrow> moves l 0 l'
     \<and> (\<forall>oe \<in> set oes. load l' (offerKeyOf oe)
          = (if oe \<in> set (keptOffers l aid oes) then Some (OFFER (adjustedOffer oe)) else None))
     \<and> (\<forall>k. k \<notin> offerKeyOf ` set oes \<and> k \<noteq> AccountKey aid \<and> (\<forall>asset. k \<noteq> TrustLineKey aid asset) \<longrightarrow> load l' k = load l k)
     \<and> (\<forall>asset. \<not> isIssuer aid asset \<longrightarrow> liabilitiesOf l' aid asset
          = (if \<exists>oe \<in> set (keptOffers l aid oes). trades asset oe
             then (sumBy of_buying offerBuys (keptOffers l aid oes) asset, sumBy of_selling offerSells (keptOffers l aid oes) asset)
             else liabilitiesOf l aid asset))"

definition account_ready :: "ledger \<Rightarrow> AccountID \<Rightarrow> OfferEntry list \<Rightarrow> bool" where
  "account_ready l aid oes \<longleftrightarrow> accountOffers_ok l aid oes
     \<and> (case loadAccount l aid of None \<Rightarrow> False
        | Some acc \<Rightarrow> int (length oes) \<le> ac_numSubEntries acc \<and> ac_numSubEntries acc < INT32_MAX - 1
            \<and> payable (lg_header l) acc)"

lemma prepareAccount_correct:
  assumes l: "ledger_ok l" and ready: "account_ready l aid oes"
  shows "\<exists>l'. prepareAccount (aid, oes) l = Inr l' \<and> prepared aid oes l l'"
proof -
  from ready obtain acc where acc: "loadAccount l aid = Some acc" "int (length oes) \<le> ac_numSubEntries acc"
    "ac_numSubEntries acc < INT32_MAX - 1" "payable (lg_header l) acc" and oes: "accountOffers_ok l aid oes"
    by (auto simp: account_ready_def split: option.split_asm)
  note ac = loadAccount_load [OF l acc(1)] and h = ledger_ok_header [OF l]
  let ?res = "ac_balance acc - getMinBalance (lg_header l) (ac_numSubEntries acc)"
  define P where "P = keeps l aid (ac_balance acc) ?res oes"
  have kept: "keptOffers l aid oes = filter P oes" by (simp add: keptOffers_def acc(1) P_def)
  have range: "0 \<le> ac_balance acc" "?res \<le> INT64_MAX"
    using ac getMinBalance_nonneg [OF h, of "ac_numSubEntries acc"] by (auto simp: account_ok_def)
  have "tallied aid side liab [] []" for side liab by (simp add: tallied_def)
  from initialLiabilities_tallied [OF h _ this this, of oes] oes obtain b s where
    bs: "initialLiabilities (lg_header l) oes ([], []) = Inr (b, s)"
      "tallied aid of_buying offerBuys oes b" "tallied aid of_selling offerSells oes s"
    by (auto simp: accountOffers_ok_def)
  have "swept l P [] l" "noted aid (filter P []) []" by (simp_all add: swept_def noted_def)
  from updateOffers_run [OF l oes range bs(2,3) P_def, of "[]" oes, OF _ this(1) moves_refl [OF l] this(2), of acc]
    ac acc(2,3) obtain m l1 n where
    u: "updateOffers oes (ac_balance acc) ?res b s [] acc l = Inr (m, acc\<lparr>ac_numSubEntries := n\<rparr>, l1)"
      "0 \<le> n" "n \<le> ac_numSubEntries acc" "noted aid (filter P oes) m" "swept l P oes l1" "moves l 0 l1"
    by auto
  let ?xs = "sort_key (assetRank \<circ> fst) m" and ?acc = "acc\<lparr>ac_numSubEntries := n\<rparr>"
  have d: "distinct (map fst m)" using u(4) by (simp add: noted_def)
  then have dx: "distinct (map fst ?xs)" by (simp add: distinct_map)
  have mx: "map_of ?xs asset = (if \<not> isIssuer aid asset \<and> (\<exists>oe \<in> set (filter P oes). trades asset oe)
      then Some (keptLiabilities (filter P oes) asset) else None)" for asset
    using u(4) by (simp add: map_of_sort_key [OF d] noted_def trades_def)
  have memx: "(asset, x) \<in> set ?xs \<longleftrightarrow> map_of ?xs asset = Some x" for asset x
    using dx by simp
  have l1: "lg_header l1 = lg_header l" "ledger_ok l1" using movesD [OF u(6)] by simp_all
  have okn: "account_ok ?acc" using ac u(2,3) by (auto simp: account_ok_def)
  have line1: "load l1 (TrustLineKey aid asset) = load l (TrustLineKey aid asset)" for asset
    using u(5) by (auto simp: swept_def offerKeyOf_def image_iff)
  have "if asset = ASSET_TYPE_NATIVE then settableNative (lg_header l1) ?acc x else settableLine l1 aid asset x"
    if "(asset, x) \<in> set ?xs" for asset x
  proof -
    have "map_of ?xs asset = Some x" using that unfolding memx .
    with mx [of asset] obtain oe where x: "\<not> isIssuer aid asset" "oe \<in> set (filter P oes)" "trades asset oe"
      "x = keptLiabilities (filter P oes) asset" by (simp only: split: if_split_asm) auto
    have lt: "ac_numSubEntries acc < INT32_MAX" using acc(3) by simp
    from kept_settable [OF l oes acc(1,4) u(2,3) lt P_def x(1-3)]
    show ?thesis unfolding x(4) l1(1) settableLine_cong [OF line1] .
  qed
  then have "\<forall>asset x. (asset, x) \<in> set ?xs \<longrightarrow> (if asset = ASSET_TYPE_NATIVE
      then settableNative (lg_header l1) ?acc x else settableLine l1 aid asset x)" by blast
  from setLiabilities_run [OF dx l1(2) okn this] obtain ext l2 where
    r: "setLiabilities aid ?xs ?acc l1 = Inr (?acc\<lparr>ac_ext := ext\<rparr>, l2)" "moves l1 0 l2" "account_ok (?acc\<lparr>ac_ext := ext\<rparr>)"
      "case map_of ?xs ASSET_TYPE_NATIVE of None \<Rightarrow> ext = ac_ext ?acc | Some x \<Rightarrow> has_liabilities ext x"
      "\<forall>asset x. (asset, x) \<in> set ?xs \<and> asset \<noteq> ASSET_TYPE_NATIVE \<longrightarrow>
         (\<exists>t. loadTrustLineEntry l2 aid asset = Some t \<and> has_liabilities (tl_ext t) x)"
      "\<forall>k. (\<forall>asset \<in> fst ` set ?xs. k \<noteq> TrustLineKey aid asset) \<longrightarrow> load l2 k = load l1 k"
    by blast
  note lines = r(5) [rule_format, OF conjI] and frame = r(6) [rule_format]
  define l' where "l' = putAccount l2 (?acc\<lparr>ac_ext := ext\<rparr>)"
  have run: "prepareAccount (aid, oes) l = Inr l'"
    using bs(1) u(1) r(1) by (simp add: prepareAccount_def Let_def acc(1) l'_def)
  have load': "load l' k = (if k = AccountKey aid then Some (ACCOUNT (?acc\<lparr>ac_ext := ext\<rparr>)) else load l2 k)" for k
    using ac by (simp add: l'_def putAccount_def)
  have a1: "load l2 (AccountKey aid) = Some (ACCOUNT acc)"
    using frame [of "AccountKey aid"] u(5) ac by (auto simp: swept_def offerKeyOf_def image_iff)
  have "moves l2 0 l'"
    using r(3) a1 ac movesD(1) [OF r(2)] unfolding l'_def putAccount_def by (intro moves_store) auto
  then have "moves l 0 l'" using moves_trans [OF moves_trans [OF u(6) r(2)], of 0 l'] by simp
  moreover have "load l' (offerKeyOf oe) = (if oe \<in> set (filter P oes) then Some (OFFER (adjustedOffer oe)) else None)"
    if "oe \<in> set oes" for oe
  proof -
    have "load l' (offerKeyOf oe) = load l1 (offerKeyOf oe)"
      using load' frame [of "offerKeyOf oe"] by (simp add: offerKeyOf_def)
    then show ?thesis using u(5) that by (simp add: swept_def)
  qed
  moreover have "load l' k = load l k"
    if "k \<notin> offerKeyOf ` set oes" "k \<noteq> AccountKey aid" "\<forall>asset. k \<noteq> TrustLineKey aid asset" for k
    using load' frame [of k] u(5) that by (simp add: swept_def)
  moreover have "liabilitiesOf l' aid asset
      = (if \<exists>oe \<in> set (filter P oes). trades asset oe
         then (sumBy of_buying offerBuys (filter P oes) asset, sumBy of_selling offerSells (filter P oes) asset)
         else liabilitiesOf l aid asset)" if ni: "\<not> isIssuer aid asset" for asset
  proof (cases "asset = ASSET_TYPE_NATIVE")
    case True
    have "loadAccount l' aid = Some (?acc\<lparr>ac_ext := ext\<rparr>)" by (simp add: loadAccount_def load')
    then show ?thesis using True r(4) mx [of ASSET_TYPE_NATIVE] acc(1)
      by (auto simp: liabilitiesOf_def Let_def split: if_split_asm)
  next
    case False
    have line: "loadTrustLineEntry l' aid asset = loadTrustLineEntry l2 aid asset"
      by (simp add: loadTrustLineEntry_def load')
    show ?thesis
    proof (cases "\<exists>oe \<in> set (filter P oes). trades asset oe")
      case True
      then have "(asset, keptLiabilities (filter P oes) asset) \<in> set ?xs" using ni unfolding memx mx by simp
      from lines [OF this False] show ?thesis using True False line by (auto simp: liabilitiesOf_def)
    next
      case nk: False
      then have "asset \<notin> fst ` set ?xs" using mx [of asset] by (simp add: map_of_eq_None_iff)
      then have "load l2 (TrustLineKey aid asset) = load l (TrustLineKey aid asset)"
        using frame [of "TrustLineKey aid asset"] line1 by auto
      then show ?thesis using nk False line by (simp add: liabilitiesOf_def loadTrustLineEntry_def)
    qed
  qed
  ultimately have "prepared aid oes l l'" unfolding prepared_def kept by blast
  with run show ?thesis by blast
qed

subsection \<open>The whole ledger\<close>

definition key_account :: "LedgerKey \<Rightarrow> AccountID" where
  "key_account k = (case k of AccountKey a \<Rightarrow> a | TrustLineKey a _ \<Rightarrow> a | OfferKey a _ \<Rightarrow> a | DataKey a _ \<Rightarrow> a)"

lemma key_account_simps [simp]:
  "key_account (AccountKey a) = a" "key_account (TrustLineKey a s) = a" "key_account (OfferKey a i) = a"
  "key_account (DataKey a n) = a"
  by (simp_all add: key_account_def)

definition sameAccount :: "AccountID \<Rightarrow> ledger \<Rightarrow> ledger \<Rightarrow> bool" where
  "sameAccount a l l' \<longleftrightarrow> lg_header l' = lg_header l \<and> (\<forall>k. key_account k = a \<longrightarrow> load l' k = load l k)"

lemma sameAccount_cong:
  assumes "sameAccount a l l'"
  shows "loadAccount l' a = loadAccount l a" "loadTrustLineEntry l' a asset = loadTrustLineEntry l a asset"
    "liabilitiesOf l' a asset = liabilitiesOf l a asset" "keptOffers l' a oes = keptOffers l a oes"
    "account_ready l' a oes = account_ready l a oes" "load l' (OfferKey a i) = load l (OfferKey a i)"
proof -
  from assms have h: "lg_header l' = lg_header l" and k: "\<And>k. key_account k = a \<Longrightarrow> load l' k = load l k"
    by (simp_all add: sameAccount_def)
  show acc: "loadAccount l' a = loadAccount l a" and line: "loadTrustLineEntry l' a asset = loadTrustLineEntry l a asset" for asset
    by (simp_all add: loadAccount_def loadTrustLineEntry_def k)
  show "liabilitiesOf l' a asset = liabilitiesOf l a asset" by (simp add: liabilitiesOf_def acc line)
  show "keptOffers l' a oes = keptOffers l a oes"
    by (simp add: keptOffers_def acc line h keeps_def overSold_def overBought_def sellCap_def buyCap_def
        cong: filter_cong split: option.split)
  have "accountOffers_ok l' a oes = accountOffers_ok l a oes"
    by (auto simp: accountOffers_ok_def offerKeyOf_def k)
  then show "account_ready l' a oes = account_ready l a oes" by (simp add: account_ready_def acc h split: option.split)
  show "load l' (OfferKey a i) = load l (OfferKey a i)" by (simp add: k)
qed

definition preparedAt :: "AccountID \<Rightarrow> OfferEntry list \<Rightarrow> ledger \<Rightarrow> ledger \<Rightarrow> bool" where
  "preparedAt a oes l l' \<longleftrightarrow>
     (\<forall>i. load l' (OfferKey a i) = (if \<exists>oe \<in> set oes. of_offerID oe = i
        then (case find (\<lambda>oe. of_offerID oe = i) (keptOffers l a oes) of None \<Rightarrow> None | Some oe \<Rightarrow> Some (OFFER (adjustedOffer oe)))
        else load l (OfferKey a i)))
     \<and> (\<forall>asset. \<not> isIssuer a asset \<longrightarrow> liabilitiesOf l' a asset
          = (if \<exists>oe \<in> set (keptOffers l a oes). trades asset oe
             then (sumBy of_buying offerBuys (keptOffers l a oes) asset, sumBy of_selling offerSells (keptOffers l a oes) asset)
             else liabilitiesOf l a asset))"

lemma keptOffers_subset: "set (keptOffers l a oes) \<subseteq> set oes"
  by (auto simp: keptOffers_def split: option.splits)

lemma offerKeyOf_inj:
  "\<lbrakk>accountOffers_ok l a oes; x \<in> set oes; y \<in> set oes; of_offerID x = of_offerID y\<rbrakk> \<Longrightarrow> x = y"
  unfolding accountOffers_ok_def distinct_map by (elim conjE inj_onD) (simp_all add: offerKeyOf_def)

lemma preparedAt_of_prepared:
  assumes ready: "account_ready l a oes" and p: "prepared a oes l l'"
  shows "preparedAt a oes l l'"
proof -
  have oes: "accountOffers_ok l a oes" using ready by (simp add: account_ready_def)
  have "load l' (OfferKey a i) = (if \<exists>oe \<in> set oes. of_offerID oe = i
        then (case find (\<lambda>oe. of_offerID oe = i) (keptOffers l a oes) of None \<Rightarrow> None | Some oe \<Rightarrow> Some (OFFER (adjustedOffer oe)))
        else load l (OfferKey a i))" for i
  proof (cases "\<exists>oe \<in> set oes. of_offerID oe = i")
    case True
    then obtain oe where oe: "oe \<in> set oes" "of_offerID oe = i" by blast
    have key: "offerKeyOf oe = OfferKey a i" using oe oes by (auto simp: accountOffers_ok_def offerKeyOf_def)
    have "find (\<lambda>oe. of_offerID oe = i) (keptOffers l a oes) = (if oe \<in> set (keptOffers l a oes) then Some oe else None)"
    proof (cases "find (\<lambda>oe. of_offerID oe = i) (keptOffers l a oes)")
      case None
      then show ?thesis using oe by (auto simp: find_None_iff)
    next
      case (Some x)
      then have "x \<in> set (keptOffers l a oes)" "of_offerID x = i" by (auto simp: find_Some_iff)
      then show ?thesis using Some offerKeyOf_inj [OF oes, of x oe] keptOffers_subset [of l a oes] oe by auto
    qed
    then show ?thesis using p oe(1) True key by (auto simp: prepared_def)
  next
    case False
    then have "OfferKey a i \<notin> offerKeyOf ` set oes" by (auto simp: offerKeyOf_def)
    then show ?thesis using p False by (simp add: prepared_def)
  qed
  then show ?thesis using p by (simp add: preparedAt_def prepared_def)
qed

lemma prepared_frame:
  assumes "account_ready l a oes" "prepared a oes l l'" "b \<noteq> a"
  shows "sameAccount b l l'"
proof -
  have "k \<notin> offerKeyOf ` set oes" if "key_account k = b" for k
    using assms(1,3) that by (auto simp: account_ready_def accountOffers_ok_def offerKeyOf_def)
  moreover have "k \<noteq> AccountKey a" "\<forall>asset. k \<noteq> TrustLineKey a asset" if "key_account k = b" for k
    using that assms(3) by auto
  ultimately show ?thesis using assms(2) by (auto simp: sameAccount_def prepared_def moves_def)
qed

lemma sameAccount_trans: "\<lbrakk>sameAccount a l m; sameAccount a m n\<rbrakk> \<Longrightarrow> sameAccount a l n"
  by (simp add: sameAccount_def)

lemma preparedAt_cong_left: "\<lbrakk>sameAccount a l m; preparedAt a oes m n\<rbrakk> \<Longrightarrow> preparedAt a oes l n"
  by (simp add: preparedAt_def sameAccount_cong)

lemma preparedAt_cong_right: "\<lbrakk>preparedAt a oes l m; sameAccount a m n\<rbrakk> \<Longrightarrow> preparedAt a oes l n"
  by (simp add: preparedAt_def sameAccount_cong)

lemma prepareAccounts_correct:
  "\<lbrakk>distinct (map fst xs); ledger_ok l; \<And>a oes. (a, oes) \<in> set xs \<Longrightarrow> account_ready l a oes\<rbrakk>
   \<Longrightarrow> \<exists>l'. prepareAccounts xs l = Inr l' \<and> moves l 0 l'
     \<and> (\<forall>(a, oes) \<in> set xs. preparedAt a oes l l') \<and> (\<forall>b. b \<notin> fst ` set xs \<longrightarrow> sameAccount b l l')"
proof (induction xs arbitrary: l)
  case Nil
  then show ?case by (simp add: moves_refl sameAccount_def)
next
  case (Cons x xs)
  obtain a oes where x: "x = (a, oes)" by (cases x)
  have ready: "account_ready l a oes" and d: "distinct (map fst xs)" "a \<notin> fst ` set xs"
    using Cons.prems(1,3) x by auto
  obtain l1 where l1: "prepareAccount (a, oes) l = Inr l1" "prepared a oes l l1"
    using prepareAccount_correct [OF Cons.prems(2) ready] by blast
  have m1: "moves l 0 l1" using l1(2) by (simp add: prepared_def)
  have same: "sameAccount b l l1" if "b \<noteq> a" for b by (rule prepared_frame [OF ready l1(2) that])
  have "account_ready l1 b os" if "(b, os) \<in> set xs" for b os
  proof -
    have "b \<noteq> a" using that d(2) by force
    then show ?thesis using sameAccount_cong(5) [OF same] Cons.prems(3) that by simp
  qed
  from Cons.IH [OF d(1) movesD(1) [OF m1] this] obtain l' where
    l': "prepareAccounts xs l1 = Inr l'" "moves l1 0 l'" "\<forall>(b, os) \<in> set xs. preparedAt b os l1 l'"
      "\<forall>b. b \<notin> fst ` set xs \<longrightarrow> sameAccount b l1 l'" by blast
  have "preparedAt b os l l'" if "(b, os) \<in> set (x # xs)" for b os
  proof (cases "(b, os) \<in> set xs")
    case True
    then have "b \<noteq> a" using d(2) by force
    from preparedAt_cong_left [OF same [OF this]] l'(3) True show ?thesis by blast
  next
    case False
    with that x have "b = a" "os = oes" by auto
    then show ?thesis
      using preparedAt_cong_right [OF preparedAt_of_prepared [OF ready l1(2)]] l'(4) d(2) by blast
  qed
  moreover have "sameAccount b l l'" if "b \<notin> fst ` set (x # xs)" for b
    using that x same l'(4) by (auto intro: sameAccount_trans)
  moreover have "moves l 0 l'" using moves_trans [OF m1 l'(2)] by simp
  ultimately show ?case using l1(1) l'(1) x by auto
qed


definition offersOf :: "ledger \<Rightarrow> AccountID \<Rightarrow> OfferEntry list" where
  "offersOf l a = filter (\<lambda>oe. of_sellerID oe = a) (ledgerOffers l)"

lemma ledgerOffers_keys:
  assumes "keyed l"
  shows "distinct (map offerKeyOf (ledgerOffers l))"
proof -
  have "map offerKeyOf (List.map_filter (\<lambda>(k, e). case e of OFFER oe \<Rightarrow> Some oe | _ \<Rightarrow> None) es)
      = map fst (filter (\<lambda>(k, e). case e of OFFER oe \<Rightarrow> True | _ \<Rightarrow> False) es)"
    if "\<forall>(k, e) \<in> set es. LedgerEntryDataKey e = k" for es
    using that
    by (induction es) (auto simp: List.map_filter_def offerKeyOf_def split: LedgerEntryData.splits)
  then have "map offerKeyOf (ledgerOffers l)
      = map fst (filter (\<lambda>(k, e). case e of OFFER oe \<Rightarrow> True | _ \<Rightarrow> False) (lg_entries l))"
    using assms by (auto simp: ledgerOffers_def keyed_def)
  then show ?thesis using assms by (simp add: keyed_def distinct_map_filter)
qed

lemma offersOf_ok: "ledger_ok l \<Longrightarrow> accountOffers_ok l a (offersOf l a)"
  using ledgerOffers_keys [of l] ledgerOffers_load [of l] ledger_ok_load [of l]
  by (fastforce simp: accountOffers_ok_def offersOf_def offerKeyOf_def distinct_map_filter)

lemma mem_offersOf:
  assumes "ledger_ok l"
  shows "oe \<in> set (offersOf l a) \<longleftrightarrow> of_sellerID oe = a \<and> load l (OfferKey a (of_offerID oe)) = Some (OFFER oe)"
  using ledgerOffers_load [of l oe] assms by (auto simp: offersOf_def)

text \<open>Every account with offers exists, counts them among its sub-entries and can be settled.\<close>

definition sellers_ready :: "ledger \<Rightarrow> bool" where
  "sellers_ready l \<longleftrightarrow> list_all (\<lambda>oe. case loadAccount l (of_sellerID oe) of None \<Rightarrow> False
     | Some acc \<Rightarrow> int (length (offersOf l (of_sellerID oe))) \<le> ac_numSubEntries acc
         \<and> ac_numSubEntries acc < INT32_MAX - 1 \<and> payable (lg_header l) acc) (ledgerOffers l)"

lemma sumBy_set:
  "distinct oes \<Longrightarrow> sumBy side liab oes asset = (\<Sum>oe \<in> {oe \<in> set oes. side oe = asset}. liab oe)"
  by (simp add: sumBy_def sum_list_distinct_conv_sum_set)

lemma sumBy_map: "(\<And>oe. oe \<in> set oes \<Longrightarrow> side (f oe) = side oe \<and> liab (f oe) = liab oe) \<Longrightarrow>
    sumBy side liab (map f oes) asset = sumBy side liab oes asset"
  by (induction oes) auto

text \<open>The offers left in the ledger are the kept ones, adjusted.\<close>

lemma preparedAt_offers:
  assumes l: "ledger_ok l" "ledger_ok l'" and p: "preparedAt a (offersOf l a) l l'"
  defines "kept \<equiv> keptOffers l a (offersOf l a)"
  shows "set (offersOf l' a) = adjustedOffer ` set kept"
    and "sumBy of_buying offerBuys (offersOf l' a) asset = sumBy of_buying offerBuys kept asset"
    and "sumBy of_selling offerSells (offersOf l' a) asset = sumBy of_selling offerSells kept asset"
proof -
  let ?oes = "offersOf l a"
  note ok = offersOf_ok [OF l(1), of a]
  have sub: "set kept \<subseteq> set ?oes" unfolding kept_def by (rule keptOffers_subset)
  have kok: "offer_ok oe" "of_sellerID oe = a" "adjusted oe \<noteq> 0" if "oe \<in> set kept" for oe
    using that sub ok by (auto simp: accountOffers_ok_def kept_def keptOffers_def keeps_def split: option.split_asm)
  have find: "find (\<lambda>oe. of_offerID oe = i) kept = Some oe \<longleftrightarrow> oe \<in> set kept \<and> of_offerID oe = i" for i oe
  proof
    assume "oe \<in> set kept \<and> of_offerID oe = i"
    moreover from this have "find (\<lambda>oe. of_offerID oe = i) kept \<noteq> None" by (auto simp: find_None_iff)
    then obtain x where "find (\<lambda>oe. of_offerID oe = i) kept = Some x" by auto
    moreover from this have "x \<in> set kept" "of_offerID x = i" by (auto simp: find_Some_iff)
    ultimately show "find (\<lambda>oe. of_offerID oe = i) kept = Some oe"
      using offerKeyOf_inj [OF ok, of x oe] sub by auto
  qed (auto simp: find_Some_iff)
  show set: "set (offersOf l' a) = adjustedOffer ` set kept"
  proof (intro set_eqI iffI)
    fix y assume "y \<in> set (offersOf l' a)"
    then have y: "of_sellerID y = a" "load l' (OfferKey a (of_offerID y)) = Some (OFFER y)"
      by (simp_all add: mem_offersOf [OF l(2)])
    have "\<exists>oe \<in> set ?oes. of_offerID oe = of_offerID y"
    proof (rule ccontr)
      assume n: "\<not> ?thesis"
      with p y(2) have "load l (OfferKey a (of_offerID y)) = Some (OFFER y)" by (auto simp: preparedAt_def)
      then have "y \<in> set ?oes" using y(1) by (simp add: mem_offersOf [OF l(1)])
      with n show False by blast
    qed
    with p y(2) obtain oe where "find (\<lambda>oe. of_offerID oe = of_offerID y) kept = Some oe" "y = adjustedOffer oe"
      by (auto simp: preparedAt_def kept_def split: option.split_asm)
    with find show "y \<in> adjustedOffer ` set kept" by blast
  next
    fix y assume "y \<in> adjustedOffer ` set kept"
    then obtain oe where oe: "oe \<in> set kept" "y = adjustedOffer oe" by blast
    then have "find (\<lambda>x. of_offerID x = of_offerID oe) kept = Some oe" using find by blast
    moreover have "oe \<in> set ?oes" using oe sub by blast
    ultimately have "load l' (OfferKey a (of_offerID oe)) = Some (OFFER y)"
      using p oe(2) by (auto simp: preparedAt_def kept_def)
    then show "y \<in> set (offersOf l' a)" using kok(2) [OF oe(1)] oe(2) by (simp add: mem_offersOf [OF l(2)])
  qed
  have d': "distinct (offersOf l' a)" "distinct ?oes"
    using offersOf_ok [OF l(2), of a] ok by (auto simp: accountOffers_ok_def distinct_map)
  then have "distinct kept" by (auto simp: kept_def keptOffers_def split: option.split)
  moreover have "inj_on adjustedOffer (set kept)"
    using offerKeyOf_inj [OF ok] sub by (intro inj_onI) (metis (no_types, lifting) OfferEntry.select_convs(2)
        OfferEntry.surjective OfferEntry.update_convs(5) subsetD)
  ultimately have dm: "distinct (map adjustedOffer kept)" by (simp add: distinct_map)
  have eq: "sumBy side liab (offersOf l' a) asset = sumBy side liab (map adjustedOffer kept) asset" for side liab
    using set by (simp only: sumBy_set [OF d'(1)] sumBy_set [OF dm] set_map)
  have raw: "offerBuys (adjustedOffer oe) = offerBuys oe \<and> offerSells (adjustedOffer oe) = offerSells oe"
    if "oe \<in> set kept" for oe
    using adjustedOffer_raw(1) [OF kok(1,3)] that by (simp add: offerBuys_def offerSells_def)
  show "sumBy of_buying offerBuys (offersOf l' a) asset = sumBy of_buying offerBuys kept asset"
    "sumBy of_selling offerSells (offersOf l' a) asset = sumBy of_selling offerSells kept asset"
    using raw by (auto simp: eq intro!: sumBy_map)
qed

lemma loadAllOffers_ready:
  assumes l: "ledger_ok l" "sellers_ready l"
  shows "distinct (map fst (loadAllOffers l))"
    and "(a, oes) \<in> set (loadAllOffers l) \<Longrightarrow> oes = offersOf l a \<and> account_ready l a oes"
    and "a \<notin> fst ` set (loadAllOffers l) \<Longrightarrow> offersOf l a = []"
proof -
  show "distinct (map fst (loadAllOffers l))" by (simp add: loadAllOffers_def comp_def)
  show "a \<notin> fst ` set (loadAllOffers l) \<Longrightarrow> offersOf l a = []"
    by (force simp: loadAllOffers_def offersOf_def filter_empty_conv image_iff)
  assume "(a, oes) \<in> set (loadAllOffers l)"
  then obtain oe where oe: "oe \<in> set (ledgerOffers l)" "of_sellerID oe = a" "oes = offersOf l a"
    by (auto simp: loadAllOffers_def offersOf_def)
  with l(2) show "oes = offersOf l a \<and> account_ready l a oes"
    by (auto simp: sellers_ready_def list_all_iff account_ready_def offersOf_ok [OF l(1)] split: option.split_asm)
qed

text \<open>The liabilities of an account in an asset are those of its offers. Where an account has no offer
  left in an asset its old liabilities stay.\<close>

definition offerLiabilities :: "ledger \<Rightarrow> AccountID \<Rightarrow> Asset \<Rightarrow> int \<times> int" where
  "offerLiabilities l a asset =
     (sumBy of_buying offerBuys (offersOf l a) asset, sumBy of_selling offerSells (offersOf l a) asset)"

definition liabilities_match :: "ledger \<Rightarrow> bool" where
  "liabilities_match l \<longleftrightarrow> (\<forall>a asset. \<not> isIssuer a asset \<longrightarrow> liabilitiesOf l a asset = offerLiabilities l a asset)"

lemma prepareLiabilities_run:
  assumes l: "ledger_ok l" "sellers_ready l"
  shows "\<exists>l'. prepareLiabilities l = Inr l' \<and> moves l 0 l'
    \<and> (\<forall>a asset. \<not> isIssuer a asset \<longrightarrow> liabilitiesOf l' a asset
         = (if \<exists>oe \<in> set (offersOf l' a). trades asset oe then offerLiabilities l' a asset else liabilitiesOf l a asset))"
proof -
  note all = loadAllOffers_ready [OF l]
  from prepareAccounts_correct [OF all(1) l(1)] all(2) obtain l' where
    l': "prepareAccounts (loadAllOffers l) l = Inr l'" "moves l 0 l'"
      "\<forall>(a, oes) \<in> set (loadAllOffers l). preparedAt a oes l l'"
      "\<forall>b. b \<notin> fst ` set (loadAllOffers l) \<longrightarrow> sameAccount b l l'" by blast
  have ok: "ledger_ok l'" by (rule movesD(1) [OF l'(2)])
  have "liabilitiesOf l' a asset
      = (if \<exists>oe \<in> set (offersOf l' a). trades asset oe then offerLiabilities l' a asset else liabilitiesOf l a asset)"
    if ni: "\<not> isIssuer a asset" for a asset
  proof (cases "a \<in> fst ` set (loadAllOffers l)")
    case True
    then obtain oes where oes: "(a, oes) \<in> set (loadAllOffers l)" by auto
    with all(2) [OF oes] l'(3) have p: "preparedAt a (offersOf l a) l l'" by auto
    note o = preparedAt_offers [OF l(1) ok p]
    have "(\<exists>oe \<in> set (offersOf l' a). trades asset oe) \<longleftrightarrow> (\<exists>oe \<in> set (keptOffers l a (offersOf l a)). trades asset oe)"
      by (auto simp: o(1) trades_def)
    with p ni show ?thesis by (auto simp: preparedAt_def offerLiabilities_def o(2,3))
  next
    case False
    then have same: "sameAccount a l l'" using l'(4) by blast
    have "oe \<notin> set (offersOf l' a)" for oe
      using all(3) [OF False] sameAccount_cong(6) [OF same] mem_offersOf [OF l(1), of oe a] by (simp add: mem_offersOf [OF ok])
    then show ?thesis using sameAccount_cong(3) [OF same] by auto
  qed
  then show ?thesis using l'(1,2) by (auto simp: prepareLiabilities_def)
qed

lemma offerLiabilities_none:
  "\<not> (\<exists>oe \<in> set (offersOf l a). trades asset oe) \<Longrightarrow> offerLiabilities l a asset = (0, 0)"
  by (auto simp: offerLiabilities_def trades_def intro!: sumBy_empty)

lemma liabilitiesOf_setHeader [simp]: "liabilitiesOf (setHeader l h) a asset = liabilitiesOf l a asset"
  by (simp add: liabilitiesOf_def loadAccount_def loadTrustLineEntry_def)

text \<open>C17. The upgrade to protocol 10 always completes: on a well-formed ledger of an older protocol,
  which has no liabilities yet, it returns, the lumens are conserved, the ledger is well formed for the
  new protocol, and the liabilities of every account in every asset are the sums over its offers left.\<close>

theorem versionUpgrade_matches:
  assumes "lh_ledgerVersion (lg_header l) < 10" "10 \<le> v"
    and "l1 = setHeader l ((lg_header l)\<lparr>lh_ledgerVersion := v\<rparr>)" "ledger_ok l1" "sellers_ready l1"
    and "\<forall>a asset. liabilitiesOf l a asset = (0, 0)"
  shows "\<exists>l'. applyVersionUpgrade l v = Inr l' \<and> ledger_ok l' \<and> lg_header l' = lg_header l1
    \<and> native_total l' = native_total l \<and> liabilities_match l'"
proof -
  obtain l' where l': "prepareLiabilities l1 = Inr l'" "moves l1 0 l'"
    "\<forall>a asset. \<not> isIssuer a asset \<longrightarrow> liabilitiesOf l' a asset
         = (if \<exists>oe \<in> set (offersOf l' a). trades asset oe then offerLiabilities l' a asset else liabilitiesOf l1 a asset)"
    using prepareLiabilities_run [OF assms(4,5)] by blast
  have "liabilitiesOf l1 a asset = (0, 0)" for a asset
    using assms(6) by (simp add: assms(3))
  with l'(3) have "liabilities_match l'" by (auto simp: liabilities_match_def offerLiabilities_none)
  moreover have "applyVersionUpgrade l v = Inr l'" using assms(1,2) l'(1) by (simp add: applyVersionUpgrade_def assms(3))
  ultimately show ?thesis using movesD [OF l'(2)] by (simp add: assms(3))
qed

text \<open>C18. When every account with offers either covers the new reserve or has no selling liabilities in
  lumens, a raise of the base reserve completes and conserves the lumens. The liabilities of every
  account then match its offers wherever it has an offer left in the asset; where it has none left the
  liabilities it had before stay, although its offers are gone.\<close>

theorem reserveUpgrade_liabilities:
  assumes "lh_baseReserve (lg_header l) < v" "l1 = setHeader l ((lg_header l)\<lparr>lh_baseReserve := v\<rparr>)"
    and "ledger_ok l1" "sellers_ready l1"
  shows "\<exists>l'. applyReserveUpgrade l v = Inr l' \<and> ledger_ok l' \<and> lg_header l' = lg_header l1
    \<and> native_total l' = native_total l
    \<and> (\<forall>a asset. \<not> isIssuer a asset \<longrightarrow> liabilitiesOf l' a asset
         = (if \<exists>oe \<in> set (offersOf l' a). trades asset oe then offerLiabilities l' a asset else liabilitiesOf l a asset))"
proof -
  obtain l' where l': "prepareLiabilities l1 = Inr l'" "moves l1 0 l'"
    "\<forall>a asset. \<not> isIssuer a asset \<longrightarrow> liabilitiesOf l' a asset
         = (if \<exists>oe \<in> set (offersOf l' a). trades asset oe then offerLiabilities l' a asset else liabilitiesOf l1 a asset)"
    using prepareLiabilities_run [OF assms(3,4)] by blast
  have "liabilitiesOf l1 a asset = liabilitiesOf l a asset" for a asset
    by (simp add: assms(2))
  moreover have "applyReserveUpgrade l v = Inr l'"
    using assms(1,3) l'(1) by (simp add: applyReserveUpgrade_def assms(2) ledger_ok_def header_ok_def)
  ultimately show ?thesis using l'(3) movesD [OF l'(2)] by (simp add: assms(2))
qed

subsection \<open>Instances\<close>

text \<open>An account with 1000 lumens and a trust line that sells 500 lumens for dollars.\<close>

definition ex_usd :: Asset where
  "ex_usd = ASSET_TYPE_CREDIT_ALPHANUM4 [85, 83, 68, 0] 7"

definition ex_seller :: "Liabilities option \<Rightarrow> AccountEntry" where
  "ex_seller ext = ex_account\<lparr>ac_accountID := 1, ac_balance := 1000, ac_numSubEntries := 3, ac_ext := ext\<rparr>"

definition ex_line :: "Liabilities option \<Rightarrow> TrustLineEntry" where
  "ex_line ext = \<lparr>tl_accountID = 1, tl_asset = ex_usd, tl_balance = 100, tl_limit = 10000, tl_flags = 1, tl_ext = ext\<rparr>"

definition ex_sale :: OfferEntry where
  "ex_sale = \<lparr>of_sellerID = 1, of_offerID = 4, of_selling = ASSET_TYPE_NATIVE, of_buying = ex_usd,
     of_amount = 500, of_price = \<lparr>price_n = 1, price_d = 1\<rparr>, of_flags = 0\<rparr>"

definition ex_purchase :: OfferEntry where
  "ex_purchase = \<lparr>of_sellerID = 1, of_offerID = 5, of_selling = ex_usd, of_buying = ASSET_TYPE_NATIVE,
     of_amount = 100, of_price = \<lparr>price_n = 1, price_d = 1\<rparr>, of_flags = 0\<rparr>"

definition ex_up_ledger :: "int \<Rightarrow> int \<Rightarrow> LedgerEntryData list \<Rightarrow> ledger" where
  "ex_up_ledger version reserve es =
     \<lparr>lg_header = ex_header\<lparr>lh_ledgerVersion := version, lh_baseReserve := reserve\<rparr>,
      lg_entries = map (\<lambda>e. (LedgerEntryDataKey e, e)) es\<rparr>"

definition ex_old_ledger :: ledger where
  "ex_old_ledger = ex_up_ledger 9 100 [ACCOUNT (ex_seller None), TRUSTLINE (ex_line None), OFFER ex_sale]"

text \<open>The same account under protocol 10, its liabilities recorded.\<close>

definition ex_new_ledger :: ledger where
  "ex_new_ledger = ex_up_ledger 10 100
     [ACCOUNT (ex_seller (Some \<lparr>liab_buying = 0, liab_selling = 500\<rparr>)),
      TRUSTLINE (ex_line (Some \<lparr>liab_buying = 500, liab_selling = 0\<rparr>)), OFFER ex_sale]"

lemmas ex_up_defs = ex_up_ledger_def ex_seller_def ex_line_def ex_sale_def ex_purchase_def ex_usd_def
  ex_header_def ex_account_def

text \<open>A reserve of 300 leaves nothing to sell: the offer goes, its liabilities stay on both sides, so
  500 of the 1000 lumens can never be spent again.\<close>

lemma stale_liabilities:
  "case applyReserveUpgrade ex_new_ledger 300 of Inl _ \<Rightarrow> False
   | Inr l' \<Rightarrow> ledgerOffers l' = [] \<and> liabilitiesOf l' 1 ASSET_TYPE_NATIVE = (0, 500) \<and> liabilitiesOf l' 1 ex_usd = (500, 0)"
  by code_simp

text \<open>When a purchase of lumens is left the selling liabilities have to go down to zero, which
  \<^verbatim>\<open>addSellingLiabilities\<close> refuses to an account below its reserve: the upgrade throws.\<close>

lemma reserve_upgrade_throws:
  "applyReserveUpgrade (ex_up_ledger 10 100
     [ACCOUNT (ex_seller (Some \<lparr>liab_buying = 100, liab_selling = 500\<rparr>)),
      TRUSTLINE (ex_line (Some \<lparr>liab_buying = 500, liab_selling = 100\<rparr>)), OFFER ex_sale, OFFER ex_purchase]) 300
   = Inl (RuntimeError ''invalid selling liabilities during upgrade'')"
  by code_simp

text \<open>The well-formedness of the example under any reserve it can carry.\<close>

lemma ex_up_ok:
  assumes "10 \<le> v" "0 \<le> r" "5 * r \<le> 1000" "ext = None \<or> ext = Some \<lparr>liab_buying = 0, liab_selling = 500\<rparr>"
    "tx = None \<or> tx = Some \<lparr>liab_buying = 500, liab_selling = 0\<rparr>"
    and "l = ex_up_ledger v r [ACCOUNT (ex_seller ext), TRUSTLINE (ex_line tx), OFFER ex_sale]"
  shows "ledger_ok l" "sellers_ready l"
proof -
  have "header_ok (lg_header l)" using assms by (simp add: ex_up_ledger_def header_ok_def)
  moreover have "account_ok (ex_seller ext)" "trustline_ok (ex_line tx)" "offer_ok ex_sale"
    using assms(4,5) by (auto simp: account_ok_def trustline_ok_def offer_ok_def price_ok_def ext_buying_def
        ext_selling_def ex_up_defs)
  ultimately show "ledger_ok l"
    using assms(6) by (simp add: ledger_ok_def keyed_def ex_up_defs)
  have "payable (lg_header l) (ex_seller ext)"
    using assms by (simp add: payable_def getMinBalance_def ex_up_defs)
  then show "sellers_ready l"
    by (simp add: sellers_ready_def assms(6) ledgerOffers_def List.map_filter_def offersOf_def loadAccount_def load_def
        ex_up_defs)
qed

theorem versionUpgrade_matches_witness:
  "\<exists>l'. applyVersionUpgrade ex_old_ledger 10 = Inr l' \<and> native_total l' = 1000 \<and> liabilities_match l'"
proof -
  let ?l1 = "setHeader ex_old_ledger ((lg_header ex_old_ledger)\<lparr>lh_ledgerVersion := 10\<rparr>)"
  have l1: "?l1 = ex_up_ledger 10 100 [ACCOUNT (ex_seller None), TRUSTLINE (ex_line None), OFFER ex_sale]"
    by (simp add: ex_old_ledger_def ex_up_ledger_def setHeader_def)
  have "liabilitiesOf ex_old_ledger a asset = (0, 0)" for a asset
    by (auto simp: liabilitiesOf_def ex_old_ledger_def loadAccount_def loadTrustLineEntry_def load_def ex_up_defs
        ext_buying_def ext_selling_def Let_def split: option.split)
  moreover have "native_total ex_old_ledger = 1000" "lh_ledgerVersion (lg_header ex_old_ledger) < 10"
    by (simp_all add: native_total_def ex_old_ledger_def ex_up_defs)
  ultimately show ?thesis
    using versionUpgrade_matches [OF _ order_refl refl, of ex_old_ledger] ex_up_ok [OF _ _ _ _ _ l1] by auto
qed

theorem reserveUpgrade_liabilities_witness:
  "\<exists>l'. applyReserveUpgrade ex_new_ledger 150 = Inr l' \<and> native_total l' = 1000"
proof -
  let ?l1 = "setHeader ex_new_ledger ((lg_header ex_new_ledger)\<lparr>lh_baseReserve := 150\<rparr>)"
  have l1: "?l1 = ex_up_ledger 10 150 [ACCOUNT (ex_seller (Some \<lparr>liab_buying = 0, liab_selling = 500\<rparr>)),
      TRUSTLINE (ex_line (Some \<lparr>liab_buying = 500, liab_selling = 0\<rparr>)), OFFER ex_sale]"
    by (simp add: ex_new_ledger_def ex_up_ledger_def setHeader_def)
  have "native_total ex_new_ledger = 1000" "lh_baseReserve (lg_header ex_new_ledger) < 150"
    by (simp_all add: native_total_def ex_new_ledger_def ex_up_defs)
  then show ?thesis
    using reserveUpgrade_liabilities [OF _ refl, of ex_new_ledger 150] ex_up_ok [OF _ _ _ _ _ l1] by auto
qed

end
