(* ===== verification/Ledger_Close.thy ===== *)
theory Ledger_Close
  imports Tx_Set Upgrades_Liabilities
begin

section \<open>Closing a ledger (src/src/ledger/LedgerManagerImpl.cpp)\<close>

text \<open>
  What a node does with a transaction set and a value that consensus agreed on: charge the fees, apply
  the transactions, apply the upgrades, and write a header that is linked to the one before. The hashes
  of headers and results, the decoder of upgrades and the bucket list are arguments: the first are
  libsodium and XDR, and the list is given the ledger before and after. The header is split into
  the part that operations read and the part that links ledgers. Rows of the history tables, metrics
  and the publishing of checkpoints are left out.
\<close>

record StellarValue =
  sv_txSetHash :: uint256
  sv_closeTime :: int
  sv_upgrades :: "UpgradeType list"

record HeaderLinks =
  hl_previousLedgerHash :: uint256
  hl_scpValue :: StellarValue
  hl_txSetResultHash :: uint256
  hl_bucketListHash :: uint256
  hl_skipList :: "uint256 list"

record FullHeader =
  fh_header :: LedgerHeader
  fh_links :: HeaderLinks

record LedgerHeaderHistoryEntry =
  he_hash :: uint256
  he_header :: FullHeader

record TransactionResultPair =
  rp_transactionHash :: uint256
  rp_result :: TransactionResult

record LedgerCloseData =
  lcd_ledgerSeq :: int
  lcd_txSet :: TxSetFrame
  lcd_value :: StellarValue

record 'b Node =
  nd_app :: App
  nd_hashes :: Hashes
  nd_headerHash :: "FullHeader \<Rightarrow> uint256"
  nd_resultHash :: "TransactionResultPair list \<Rightarrow> uint256"
  nd_unpackUpgrade :: "UpgradeType \<Rightarrow> LedgerUpgrade option"
  nd_addBatch :: "'b \<Rightarrow> ledger \<Rightarrow> ledger \<Rightarrow> 'b"
  nd_bucketHash :: "'b \<Rightarrow> uint256"

text \<open>\<^verbatim>\<open>mLedgerTxnRoot\<close> with its header, the bucket list and \<^verbatim>\<open>mLastClosedLedger\<close>.\<close>

record 'b Chain =
  cn_root :: ledger
  cn_links :: HeaderLinks
  cn_bucketList :: 'b
  cn_lastClosed :: LedgerHeaderHistoryEntry

definition fullHeader :: "'b Chain \<Rightarrow> FullHeader" where
  "fullHeader c = \<lparr>fh_header = lg_header (cn_root c), fh_links = cn_links c\<rparr>"

abbreviation lcl_seq :: "'b Chain \<Rightarrow> int" where
  "lcl_seq c \<equiv> lh_ledgerSeq (fh_header (he_header (cn_lastClosed c)))"

definition CURRENT_LEDGER_PROTOCOL_VERSION :: int where
  "CURRENT_LEDGER_PROTOCOL_VERSION = 10"

definition previousHashOf :: "LedgerCloseData \<Rightarrow> uint256" where
  "previousHashOf lcd = xs_previousLedgerHash (lcd_txSet lcd)"

text \<open>The constructor of \<^verbatim>\<open>LedgerCloseData\<close>.\<close>

definition makeLedgerCloseData ::
    "Hashes \<Rightarrow> int \<Rightarrow> TxSetFrame \<Rightarrow> StellarValue \<Rightarrow> cpp_error + LedgerCloseData" where
  "makeLedgerCloseData hs seq txSet v =
     (let (h, txSet') = getContentsHash hs txSet in
      if h = sv_txSetHash v then Inr \<lparr>lcd_ledgerSeq = seq, lcd_txSet = txSet', lcd_value = v\<rparr>
      else Inl AssertionFailed)"

subsection \<open>Fees, transactions and upgrades\<close>

text \<open>What a handler for \<^verbatim>\<open>std::exception\<close> or \<^verbatim>\<open>...\<close> catches; a failed assertion ends the process.\<close>

definition caught :: "cpp_error \<Rightarrow> bool" where
  "caught e = (case e of RuntimeError _ \<Rightarrow> True | InvalidArgument _ \<Rightarrow> True | OverflowError \<Rightarrow> True | _ \<Rightarrow> False)"

fun processFeesSeqNums :: "ledger \<Rightarrow> TransactionFrame list \<Rightarrow> cpp_error + (ledger \<times> TransactionFrame list)" where
  "processFeesSeqNums l [] = Inr (l, [])"
| "processFeesSeqNums l (tx # txs) =
     bindE (processFeeSeqNum l tx) (\<lambda>(l1, tx').
     bindE (processFeesSeqNums l1 txs) (\<lambda>(l2, txs').
     Inr (l2, tx' # txs')))"

definition getResultPair :: "App \<Rightarrow> TransactionFrame \<Rightarrow> TransactionResultPair" where
  "getResultPair app tf = \<lparr>rp_transactionHash = app_contentsHash app (tf_tx tf), rp_result = tf_result tf\<rparr>"

definition applyTransaction :: "App \<Rightarrow> ledger \<Rightarrow> TransactionFrame \<Rightarrow> cpp_error + (ledger \<times> TransactionFrame)" where
  "applyTransaction app l tx = (case Transaction_apply app l tx of
       Inr (ok, tx', l') \<Rightarrow> Inr (l', tx')
     | Inl (e, l', tx') \<Rightarrow> if caught e then Inr (l', setCode txINTERNAL_ERROR tx') else Inl e)"

fun applyTransactions ::
    "App \<Rightarrow> ledger \<Rightarrow> TransactionFrame list \<Rightarrow> cpp_error + (ledger \<times> TransactionResultPair list)" where
  "applyTransactions app l [] = Inr (l, [])"
| "applyTransactions app l (tx # txs) =
     bindE (applyTransaction app l tx) (\<lambda>(l1, tx').
     bindE (applyTransactions app l1 txs) (\<lambda>(l2, results).
     Inr (l2, getResultPair app tx' # results)))"

fun applyUpgrades ::
    "(UpgradeType \<Rightarrow> LedgerUpgrade option) \<Rightarrow> ledger \<Rightarrow> UpgradeType list \<Rightarrow> cpp_error + ledger" where
  "applyUpgrades unpack l [] = Inr l"
| "applyUpgrades unpack l (u # us) =
     (case unpack u of
        None \<Rightarrow> Inl (RuntimeError ''xdr_runtime_error'')
      | Some lu \<Rightarrow>
          (case applyUpgrade lu l of
             Inr l' \<Rightarrow> applyUpgrades unpack l' us
           | Inl e \<Rightarrow> if caught e then applyUpgrades unpack l us else Inl e))"

subsection \<open>The header\<close>

definition SKIP_1 :: int where "SKIP_1 = 50"
definition SKIP_2 :: int where "SKIP_2 = 5000"
definition SKIP_3 :: int where "SKIP_3 = 50000"
definition SKIP_4 :: int where "SKIP_4 = 500000"

text \<open>The difference of an unsigned and a signed number, stored in an \<^verbatim>\<open>int\<close>.\<close>

definition skipDiff :: "int \<Rightarrow> int \<Rightarrow> int" where
  "skipDiff seq d = to_int32 ((seq - d) mod 2 ^ 32)"

definition calculateSkipValues :: "int \<Rightarrow> uint256 \<Rightarrow> uint256 list \<Rightarrow> uint256 list" where
  "calculateSkipValues seq bucketListHash skip0 =
     (if seq mod SKIP_1 = 0 then
        let v1 = skipDiff seq SKIP_1;
            skip1 = (if v1 > 0 \<and> v1 mod SKIP_2 = 0 then
               let v2 = skipDiff seq (SKIP_2 + SKIP_1);
                   skip2 = (if v2 > 0 \<and> v2 mod SKIP_3 = 0 then
                      let v3 = skipDiff seq (SKIP_3 + SKIP_2 + SKIP_1);
                          skip3 = (if v3 > 0 \<and> v3 mod SKIP_4 = 0 then skip0[3 := skip0 ! 2] else skip0) in
                      skip3[2 := skip3 ! 1]
                    else skip0) in
               skip2[1 := skip2 ! 0]
             else skip0) in
        skip1[0 := bucketListHash]
      else skip0)"

definition snapshotLedger :: "int \<Rightarrow> uint256 \<Rightarrow> HeaderLinks \<Rightarrow> HeaderLinks" where
  "snapshotLedger seq bucketHash links =
     links\<lparr>hl_bucketListHash := bucketHash, hl_skipList := calculateSkipValues seq bucketHash (hl_skipList links)\<rparr>"

definition advanceLedgerPointers :: "'b Node \<Rightarrow> 'b Chain \<Rightarrow> 'b Chain" where
  "advanceLedgerPointers nd c =
     c\<lparr>cn_lastClosed := \<lparr>he_hash = nd_headerHash nd (fullHeader c), he_header = fullHeader c\<rparr>\<rparr>"

text \<open>The batch for the bucket list, the snapshot and the new last closed ledger; \<open>l\<close> and \<open>links\<close> are
  what \<^verbatim>\<open>ltx\<close> holds. The commit that follows makes them the root.\<close>

definition ledgerClosed :: "'b Node \<Rightarrow> 'b Chain \<Rightarrow> ledger \<Rightarrow> HeaderLinks \<Rightarrow> 'b Chain" where
  "ledgerClosed nd c l links =
     (let bl = nd_addBatch nd (cn_bucketList c) (cn_root c) l;
          links' = snapshotLedger (lh_ledgerSeq (lg_header l)) (nd_bucketHash nd bl) links in
      advanceLedgerPointers nd (c\<lparr>cn_root := l, cn_links := links', cn_bucketList := bl\<rparr>))"

definition startClose :: "ledger \<Rightarrow> ledger" where
  "startClose l = setHeader l ((lg_header l)\<lparr>lh_ledgerSeq := (lh_ledgerSeq (lg_header l) + 1) mod 2 ^ 32\<rparr>)"

definition setCloseTime :: "ledger \<Rightarrow> int \<Rightarrow> ledger" where
  "setCloseTime l t = setHeader l ((lg_header l)\<lparr>lh_closeTime := t\<rparr>)"

definition closeLedger :: "'b Node \<Rightarrow> 'b Chain \<Rightarrow> LedgerCloseData \<Rightarrow> cpp_error + 'b Chain" where
  "closeLedger nd c lcd =
     (let l0 = startClose (cn_root c);
          lclHash = he_hash (cn_lastClosed c);
          (contentsHash, txSet) = getContentsHash (nd_hashes nd) (lcd_txSet lcd);
          sv = lcd_value lcd in
      if lh_ledgerVersion (lg_header l0) > CURRENT_LEDGER_PROTOCOL_VERSION
      then Inl (RuntimeError ''cannot apply ledger with not supported version'')
      else if previousHashOf lcd \<noteq> lclHash then Inl (RuntimeError ''txset mismatch'')
      else if contentsHash \<noteq> sv_txSetHash sv then Inl (RuntimeError ''corrupt transaction set'')
      else
        let l1 = setCloseTime l0 (sv_closeTime sv);
            txs = fst (sortForApply (nd_hashes nd) txSet) in
        bindE (processFeesSeqNums l1 txs) (\<lambda>(l2, txs').
        bindE (applyTransactions (nd_app nd) l2 txs') (\<lambda>(l3, results).
        bindE (applyUpgrades (nd_unpackUpgrade nd) l3 (sv_upgrades sv)) (\<lambda>l4.
        Inr (ledgerClosed nd c l4 ((cn_links c)\<lparr>hl_previousLedgerHash := lclHash, hl_scpValue := sv,
               hl_txSetResultHash := nd_resultHash nd results\<rparr>))))))"

subsection \<open>The first ledger\<close>

definition GENESIS_LEDGER_SEQ :: int where "GENESIS_LEDGER_SEQ = 1"
definition GENESIS_LEDGER_TOTAL_COINS :: int where "GENESIS_LEDGER_TOTAL_COINS = 1000000000000000000"

definition genesisLedger :: LedgerHeader where
  "genesisLedger = \<lparr>lh_ledgerVersion = 0, lh_ledgerSeq = GENESIS_LEDGER_SEQ, lh_closeTime = 0,
     lh_totalCoins = GENESIS_LEDGER_TOTAL_COINS, lh_feePool = 0, lh_inflationSeq = 0, lh_idPool = 0,
     lh_baseFee = 100, lh_baseReserve = 100000000, lh_maxTxSetSize = 100\<rparr>"

definition emptyLinks :: HeaderLinks where
  "emptyLinks = \<lparr>hl_previousLedgerHash = 0, hl_scpValue = \<lparr>sv_txSetHash = 0, sv_closeTime = 0, sv_upgrades = []\<rparr>,
     hl_txSetResultHash = 0, hl_bucketListHash = 0, hl_skipList = [0, 0, 0, 0]\<rparr>"

record GenesisConfig =
  gc_protocolVersion :: int
  gc_desiredFee :: int
  gc_reserve :: int
  gc_maxTxPerLedger :: int

definition configuredGenesis :: "GenesisConfig option \<Rightarrow> LedgerHeader" where
  "configuredGenesis cfg = (case cfg of None \<Rightarrow> genesisLedger
     | Some g \<Rightarrow> genesisLedger\<lparr>lh_ledgerVersion := gc_protocolVersion g, lh_baseFee := gc_desiredFee g,
         lh_baseReserve := gc_reserve g, lh_maxTxSetSize := gc_maxTxPerLedger g\<rparr>)"

definition rootAccountEntry :: "AccountID \<Rightarrow> int \<Rightarrow> AccountEntry" where
  "rootAccountEntry aid coins = \<lparr>ac_accountID = aid, ac_balance = coins, ac_seqNum = 0, ac_accountMarker = [],
     ac_numSubEntries = 0, ac_inflationDest = None, ac_flags = 0, ac_homeDomain = [],
     ac_thresholds = \<lparr>th_master = 1, th_low = 0, th_med = 0, th_high = 0\<rparr>, ac_signers = [], ac_ext = None\<rparr>"

definition startNewLedger :: "'b Node \<Rightarrow> 'b \<Rightarrow> AccountID \<Rightarrow> GenesisConfig option \<Rightarrow> cpp_error + 'b Chain" where
  "startNewLedger nd emptyList rootAccount cfg =
     (let h = configuredGenesis cfg;
          empty = \<lparr>lg_header = h, lg_entries = []\<rparr>;
          c = \<lparr>cn_root = empty, cn_links = emptyLinks, cn_bucketList = emptyList,
               cn_lastClosed = \<lparr>he_hash = 0, he_header = \<lparr>fh_header = h, fh_links = emptyLinks\<rparr>\<rparr>\<rparr> in
      bindE (create empty (ACCOUNT (rootAccountEntry rootAccount (lh_totalCoins h)))) (\<lambda>l.
      Inr (ledgerClosed nd c l emptyLinks)))"

end
