(* ===== verification/Catchup_Range.thy ===== *)
theory Catchup_Range
  imports Ledger_Close
begin

section \<open>What a node that fell behind fetches (src/src/history, src/src/catchup, src/src/ledger)\<close>

text \<open>
  History archives hold ledgers in checkpoints, files of 64 ledgers each of which ends with a number
  that is one less than a multiple of the frequency. This theory models the arithmetic of checkpoints
  (\<^verbatim>\<open>HistoryManagerImpl.cpp\<close>), the ranges of ledgers and checkpoints with the assertions of their
  constructors, the configuration of a catch-up, and how \<^verbatim>\<open>CatchupWork.cpp\<close> chooses the ledger to start
  from and whether to start from the buckets of a checkpoint. Numbers of ledgers are unsigned 32-bit
  numbers, as integers with the wrap-around written out.
\<close>

record HistoryManager =
  hm_accelerateTime :: bool

definition getCheckpointFrequency :: "HistoryManager \<Rightarrow> int" where
  "getCheckpointFrequency hm = (if hm_accelerateTime hm then 8 else 64)"

definition prevCheckpointLedger :: "HistoryManager \<Rightarrow> int \<Rightarrow> int" where
  "prevCheckpointLedger hm ledger =
     (let freq = getCheckpointFrequency hm in ledger div freq * freq)"

definition nextCheckpointLedger :: "HistoryManager \<Rightarrow> int \<Rightarrow> int" where
  "nextCheckpointLedger hm ledger =
     (let freq = getCheckpointFrequency hm in
      if ledger = 0 then freq
      else ((ledger + freq - 1) mod 2 ^ 32 div freq * freq) mod 2 ^ 32)"

definition checkpointContainingLedger :: "HistoryManager \<Rightarrow> int \<Rightarrow> int" where
  "checkpointContainingLedger hm ledger =
     (nextCheckpointLedger hm ((ledger + 1) mod 2 ^ 32) - 1) mod 2 ^ 32"

record LedgerRange =
  lr_first :: int
  lr_last :: int

definition makeLedgerRange :: "int \<Rightarrow> int \<Rightarrow> cpp_error + LedgerRange" where
  "makeLedgerRange a b =
     bindE (ensureE (a > 0) AssertionFailed) (\<lambda>_.
     bindE (ensureE (b \<ge> a) AssertionFailed) (\<lambda>_.
     Inr \<lparr>lr_first = a, lr_last = b\<rparr>))"

record CheckpointRange =
  cr_first :: int
  cr_last :: int
  cr_frequency :: int

definition makeCheckpointRange :: "int \<Rightarrow> int \<Rightarrow> int \<Rightarrow> cpp_error + CheckpointRange" where
  "makeCheckpointRange a b freq =
     bindE (ensureE (a > 0) AssertionFailed) (\<lambda>_.
     bindE (ensureE (b \<ge> a) AssertionFailed) (\<lambda>_.
     bindE (ensureE ((a + 1) mod 2 ^ 32 mod freq = 0) AssertionFailed) (\<lambda>_.
     bindE (ensureE ((b + 1) mod 2 ^ 32 mod freq = 0) AssertionFailed) (\<lambda>_.
     Inr \<lparr>cr_first = a, cr_last = b, cr_frequency = freq\<rparr>))))"

definition checkpointRangeOf :: "HistoryManager \<Rightarrow> LedgerRange \<Rightarrow> cpp_error + CheckpointRange" where
  "checkpointRangeOf hm r =
     makeCheckpointRange (checkpointContainingLedger hm (lr_first r))
       (checkpointContainingLedger hm (lr_last r)) (getCheckpointFrequency hm)"

definition cr_count :: "CheckpointRange \<Rightarrow> int" where
  "cr_count r = (cr_last r - cr_first r) div cr_frequency r + 1"

subsection \<open>The configuration of a catch-up\<close>

text \<open>The pair of a ledger's number and its hash, where that is known.\<close>

type_synonym LedgerNumHashPair = "int \<times> uint256 option"

record CatchupConfiguration =
  cc_count :: int
  cc_ledgerHashPair :: LedgerNumHashPair

definition CURRENT :: int where
  "CURRENT = 0"

definition toLedger :: "CatchupConfiguration \<Rightarrow> int" where
  "toLedger cfg = fst (cc_ledgerHashPair cfg)"

definition resolveConfiguration :: "int \<Rightarrow> CatchupConfiguration \<Rightarrow> CatchupConfiguration" where
  "resolveConfiguration remoteCheckpoint cfg =
     (if toLedger cfg = CURRENT
      then \<lparr>cc_count = cc_count cfg, cc_ledgerHashPair = (remoteCheckpoint, None)\<rparr>
      else \<lparr>cc_count = cc_count cfg, cc_ledgerHashPair = (toLedger cfg, snd (cc_ledgerHashPair cfg))\<rparr>)"

text \<open>\<^verbatim>\<open>std::stoul\<close> in base 10, which yields an \<^verbatim>\<open>unsigned long\<close> of 64 bits and the number of characters
  it read: white space, a sign, digits. A negative number wraps around, as in \<^verbatim>\<open>strtoul\<close>.\<close>

definition isDigit :: "char \<Rightarrow> bool" where
  "isDigit c \<longleftrightarrow> c \<in> set ''0123456789''"

definition isSpace :: "char \<Rightarrow> bool" where
  "isSpace c \<longleftrightarrow> c = CHR '' '' \<or> of_char c \<in> {9 :: nat .. 13}"

definition digitValue :: "char \<Rightarrow> int" where
  "digitValue c = of_char c - 48"

definition digitsValue :: "string \<Rightarrow> int" where
  "digitsValue s = foldl (\<lambda>n c. 10 * n + digitValue c) 0 s"

definition stoul :: "string \<Rightarrow> cpp_error + (int \<times> nat)" where
  "stoul str =
     (let s = dropWhile isSpace str;
          sign = (s \<noteq> [] \<and> List.hd s \<in> {CHR ''+'', CHR ''-''});
          digits = takeWhile isDigit (if sign then drop 1 s else s);
          n = digitsValue digits;
          consumed = length str - length s + (if sign then 1 else 0) + length digits
      in if digits = [] then Inl (InvalidArgument ''stoul'')
         else if n > UINT64_MAX then Inl (InvalidArgument ''stoul: out of range'')
         else Inr ((if sign \<and> List.hd s = CHR ''-'' then - n else n) mod 2 ^ 64, consumed))"

text \<open>The 64-bit result is returned as an unsigned 32-bit number.\<close>

definition parseLedger :: "string \<Rightarrow> cpp_error + int" where
  "parseLedger str =
     (if str = ''current'' then Inr CURRENT
      else bindE (stoul str) (\<lambda>(result, pos).
        if pos < length str \<or> result < 2 then Inl (RuntimeError ''not a valid ledger number'')
        else Inr (result mod 2 ^ 32)))"

definition parseLedgerCount :: "string \<Rightarrow> cpp_error + int" where
  "parseLedgerCount str =
     (if str = ''max'' then Inr UINT32_MAX
      else bindE (stoul str) (\<lambda>(result, pos).
        if pos < length str then Inl (RuntimeError ''not a valid ledger count'')
        else Inr (result mod 2 ^ 32)))"

subsection \<open>Where to start\<close>

definition firstNotFinishedCheckpoint :: "HistoryManager \<Rightarrow> int \<Rightarrow> int" where
  "firstNotFinishedCheckpoint hm lastClosedLedger =
     (let result = checkpointContainingLedger hm lastClosedLedger in
      if lastClosedLedger < result then result
      else (result + getCheckpointFrequency hm) mod 2 ^ 32)"

definition firstNeededLedger :: "CatchupConfiguration \<Rightarrow> int" where
  "firstNeededLedger cfg =
     (let neededCount = max (cc_count cfg) 1 in
      if toLedger cfg > neededCount then toLedger cfg - neededCount + 1 else GENESIS_LEDGER_SEQ)"

definition computeCatchupStart :: "HistoryManager \<Rightarrow> int \<Rightarrow> int \<Rightarrow> bool \<times> int" where
  "computeCatchupStart hm smallestLedgerToApply smallestBucketApplyCheckpoint =
     (let smallestCheckpointToApply = checkpointContainingLedger hm smallestLedgerToApply;
          previous = (smallestCheckpointToApply - getCheckpointFrequency hm) mod 2 ^ 32
      in if smallestLedgerToApply = smallestCheckpointToApply then (True, smallestCheckpointToApply)
         else if smallestLedgerToApply < getCheckpointFrequency hm - 1 then (False, smallestLedgerToApply)
         else if previous \<ge> smallestBucketApplyCheckpoint then (True, previous)
         else (False, smallestLedgerToApply))"

definition makeCatchupRange ::
    "HistoryManager \<Rightarrow> int \<Rightarrow> CatchupConfiguration \<Rightarrow> cpp_error + (LedgerRange \<times> bool)" where
  "makeCatchupRange hm lastClosedLedger cfg =
     bindE (ensureE (lastClosedLedger > 0) AssertionFailed) (\<lambda>_.
     bindE (ensureE (toLedger cfg \<ge> lastClosedLedger) AssertionFailed) (\<lambda>_.
     bindE (ensureE (toLedger cfg \<noteq> CURRENT) AssertionFailed) (\<lambda>_.
     let smallestLedgerToApply = max (firstNeededLedger cfg) lastClosedLedger;
         smallestBucketApplyCheckpoint = firstNotFinishedCheckpoint hm lastClosedLedger;
         catchupStart = computeCatchupStart hm smallestLedgerToApply smallestBucketApplyCheckpoint
     in bindE (makeLedgerRange (snd catchupStart) (toLedger cfg)) (\<lambda>range.
        if fst catchupStart \<and> snd catchupStart \<le> (lastClosedLedger + 1) mod 2 ^ 32
        then Inr (range, False) else Inr (range, fst catchupStart)))))"

subsection \<open>Checkpoints\<close>

text \<open>What a catch-up relies on: every ledger below a limit is in one checkpoint.\<close>

locale checkpointing =
  fixes freq :: int and containing :: "int \<Rightarrow> int" and limit :: int
  assumes freq_pos: "1 < freq"
    and containing_ge: "\<lbrakk>0 \<le> l; l < limit\<rbrakk> \<Longrightarrow> l \<le> containing l"
    and containing_less: "\<lbrakk>0 \<le> l; l < limit\<rbrakk> \<Longrightarrow> containing l < l + freq"
    and containing_mod: "\<lbrakk>0 \<le> l; l < limit\<rbrakk> \<Longrightarrow> (containing l + 1) mod freq = 0"
begin

lemma checkpoints_apart:
  assumes "(a + 1) mod freq = 0" "(b + 1) mod freq = 0" "a < b"
  shows "a + freq \<le> b"
proof -
  from assms have "(b - a) mod freq = 0" by (metis add_diff_cancel_right mod_0 mod_diff_eq diff_self)
  then obtain k where k: "b - a = freq * k" by (auto simp: mod_eq_0_iff_dvd)
  with assms(3) have "0 < freq * k" by simp
  then have "0 < k" using freq_pos by (simp add: zero_less_mult_iff)
  then have "freq * 1 \<le> freq * k" using freq_pos by (intro mult_left_mono) auto
  with k show ?thesis by simp
qed

lemma containing_unique:
  assumes "0 \<le> l" "l < limit" "(c + 1) mod freq = 0" "l \<le> c" "c < l + freq"
  shows "containing l = c"
proof (rule ccontr)
  assume "containing l \<noteq> c"
  then consider "containing l < c" | "c < containing l" by linarith
  then show False
    using checkpoints_apart [OF containing_mod [OF assms(1,2)] assms(3)]
      checkpoints_apart [OF assms(3) containing_mod [OF assms(1,2)]]
      containing_ge [OF assms(1,2)] containing_less [OF assms(1,2)] assms by cases auto
qed

lemma containing_least:
  assumes "0 \<le> l" "l < limit" "(c + 1) mod freq = 0" "l \<le> c"
  shows "containing l \<le> c"
  using checkpoints_apart [OF assms(3) containing_mod [OF assms(1,2)]] containing_less [OF assms(1,2)] assms(4)
  by (cases "c < containing l") auto

lemma containing_mono:
  assumes "0 \<le> l" "l \<le> m" "m < limit"
  shows "containing l \<le> containing m"
  using assms containing_mod [of m] containing_ge [of m] by (intro containing_least) auto

lemma containing_self: "\<lbrakk>0 \<le> l; l < limit; (l + 1) mod freq = 0\<rbrakk> \<Longrightarrow> containing l = l"
  using freq_pos by (intro containing_unique) auto

end

lemma frequency_cases: "getCheckpointFrequency hm = 8 \<or> getCheckpointFrequency hm = 64"
  by (simp add: getCheckpointFrequency_def)

lemma containing_div:
  assumes "0 \<le> l" "l < 2 ^ 32 - 64"
  shows "checkpointContainingLedger hm l
    = l div getCheckpointFrequency hm * getCheckpointFrequency hm + getCheckpointFrequency hm - 1"
proof -
  have "(l + f) div f * f = l div f * f + f" "l div f * f \<le> l" "0 \<le> l div f * f" if "f = 8 \<or> f = 64" for f
    using that assms(1) by auto
  from this [OF frequency_cases [of hm]] frequency_cases [of hm] assms show ?thesis
    by (auto simp: checkpointContainingLedger_def nextCheckpointLedger_def Let_def)
qed

interpretation cp: checkpointing "getCheckpointFrequency hm" "checkpointContainingLedger hm" "2 ^ 32 - 64"
  for hm :: HistoryManager
proof unfold_locales
  fix l :: int
  let ?f = "getCheckpointFrequency hm"
  show "1 < ?f" using frequency_cases [of hm] by auto
  assume l: "0 \<le> l" "l < 2 ^ 32 - 64"
  have f: "0 < ?f" using frequency_cases [of hm] by auto
  have d: "l = l div ?f * ?f + l mod ?f" "0 \<le> l mod ?f" "l mod ?f < ?f" using f by simp_all
  from d show "l \<le> checkpointContainingLedger hm l" "checkpointContainingLedger hm l < l + ?f"
    unfolding containing_div [OF l] by linarith+
  show "(checkpointContainingLedger hm l + 1) mod ?f = 0" unfolding containing_div [OF l] by simp
qed

lemma checkpoint_pos:
  assumes "0 \<le> l" "l < 2 ^ 32 - 64"
  shows "7 \<le> checkpointContainingLedger hm l"
proof -
  have "0 \<le> l div getCheckpointFrequency hm * getCheckpointFrequency hm"
    using frequency_cases [of hm] assms(1) by (auto simp: pos_imp_zdiv_nonneg_iff)
  with frequency_cases [of hm] show ?thesis unfolding containing_div [OF assms] by linarith
qed

lemma checkpoint_bound: "\<lbrakk>0 \<le> l; l < 2 ^ 32 - 128\<rbrakk> \<Longrightarrow> checkpointContainingLedger hm l < 2 ^ 32 - 64"
  using cp.containing_less [of l hm] frequency_cases [of hm] by auto

lemma firstNotFinished:
  fixes hm :: HistoryManager
  assumes "0 \<le> l" "l < 2 ^ 32 - 128"
  defines "b \<equiv> firstNotFinishedCheckpoint hm l"
  shows "l < b" "(b + 1) mod getCheckpointFrequency hm = 0" "b \<le> l + getCheckpointFrequency hm"
proof -
  let ?c = "checkpointContainingLedger hm l" and ?f = "getCheckpointFrequency hm"
  have l: "l < 2 ^ 32 - 64" using assms by simp
  note c = cp.containing_ge [OF assms(1) l] cp.containing_less [OF assms(1) l] cp.containing_mod [OF assms(1) l]
  have f: "?f = 8 \<or> ?f = 64" by (rule frequency_cases)
  have b: "b = (if l < ?c then ?c else ?c + ?f)"
    using checkpoint_bound [OF assms(1,2), of hm] f c(1) [of hm] assms(1)
    by (auto simp: b_def firstNotFinishedCheckpoint_def Let_def)
  show "l < b" "b \<le> l + ?f" unfolding b using c [of hm] f by auto
  have "(?c + ?f + 1) mod ?f = (?c + 1) mod ?f" by (metis add.assoc add.commute mod_add_self2)
  then show "(b + 1) mod ?f = 0" unfolding b using c(3) [of hm] by simp
qed

lemma firstNeeded_bounds: "1 \<le> toLedger cfg \<Longrightarrow> 1 \<le> firstNeededLedger cfg \<and> firstNeededLedger cfg \<le> toLedger cfg"
  by (auto simp: firstNeededLedger_def Let_def GENESIS_LEDGER_SEQ_def max_def)

text \<open>Where a catch-up starts, without the wrap-around.\<close>

lemma previous_checkpoint:
  assumes "0 \<le> s" "s < 2 ^ 32 - 64" "getCheckpointFrequency hm - 1 \<le> s" "s \<noteq> checkpointContainingLedger hm s"
  shows "getCheckpointFrequency hm \<le> checkpointContainingLedger hm s"
  using cp.checkpoints_apart [of "getCheckpointFrequency hm - 1" hm "checkpointContainingLedger hm s"]
    cp.containing_mod [OF assms(1,2)] cp.containing_ge [OF assms(1,2), of hm] frequency_cases [of hm] assms by auto

lemma computeCatchupStart_cases:
  assumes "0 \<le> s" "s < 2 ^ 32 - 128" and c: "checkpointContainingLedger hm s = c" and f: "getCheckpointFrequency hm = f"
  shows "computeCatchupStart hm s b =
    (if s = c then (True, s) else if s < f - 1 \<or> c - f < b then (False, s) else (True, c - f))"
proof (cases "s = c \<or> s < f - 1")
  case True
  then show ?thesis using c f by (auto simp: computeCatchupStart_def Let_def)
next
  case False
  have s: "s < 2 ^ 32 - 64" using assms by simp
  from previous_checkpoint [OF assms(1) s, of hm] False have "f \<le> c" by (simp add: c f)
  moreover have "c < 2 ^ 32 - 64" using checkpoint_bound [OF assms(1,2), of hm] by (simp add: c)
  moreover have "0 < f" using frequency_cases [of hm] f by auto
  ultimately have "(c - f) mod 2 ^ 32 = c - f" by simp
  with False c f show ?thesis by (simp add: computeCatchupStart_def Let_def)
qed

lemma catchup_shape:
  fixes hm :: HistoryManager
  defines "f \<equiv> getCheckpointFrequency hm" and "cc \<equiv> checkpointContainingLedger hm"
  assumes s: "0 \<le> s" "s < 2 ^ 32 - 128" and lcl: "0 \<le> lcl" "lcl \<le> s" "lcl < b" "(b + 1) mod f = 0" "b \<le> lcl + f"
    and start: "computeCatchupStart hm s b = (fromBuckets, a)"
  shows "if fromBuckets \<and> lcl + 1 < a then cc a = a \<and> lcl < s \<and> a \<le> s \<and> s \<le> a + f else cc a - f \<le> lcl"
proof -
  have s': "s < 2 ^ 32 - 64" using s by simp
  note c = cp.containing_ge [OF s(1) s', of hm, folded cc_def] cp.containing_less [OF s(1) s', of hm, folded cc_def f_def]
    cp.containing_mod [OF s(1) s', of hm, folded cc_def f_def]
  have f: "f = 8 \<or> f = 64" unfolding f_def by (rule frequency_cases)
  have start: "(fromBuckets, a) =
    (if s = cc s then (True, s) else if s < f - 1 \<or> cc s - f < b then (False, s) else (True, cc s - f))"
    using computeCatchupStart_cases [OF s, of hm "cc s" f b] start by (simp add: cc_def f_def)
  have prev: "(cc s - f + 1) mod f = 0" using c(3) by (simp add: algebra_simps mod_diff_right_eq minus_mod_self2)
  consider "s = cc s" | "s \<noteq> cc s" "s < f - 1" | "s \<noteq> cc s" "cc s - f < b" "\<not> s < f - 1" | "s \<noteq> cc s" "\<not> s < f - 1" "b \<le> cc s - f"
    by linarith
  then show ?thesis
  proof cases
    case 1
    then show ?thesis using start lcl f by auto
  next
    case 2
    have "cc s \<le> f - 1" unfolding cc_def using s(1) s' 2(2) by (intro cp.containing_least) (simp_all add: f_def)
    with 2 start lcl show ?thesis by simp
  next
    case 3
    have "cc s \<le> b" using cp.checkpoints_apart [of "cc s - f" hm b, folded f_def] prev lcl 3 by simp
    with 3 start lcl show ?thesis by simp
  next
    case 4
    have "cc (cc s - f) = cc s - f" unfolding cc_def
      using prev 4 lcl c s' f by (intro cp.containing_self) (auto simp: f_def cc_def)
    with 4 start lcl c f show ?thesis by auto
  qed
qed

text \<open>A node can always catch up to a ledger that is not behind its own: no assertion of the ranges
  fails, and the range ends in the ledger that was asked for. If it starts from buckets, then from those
  of a checkpoint that the node does not have yet, at most one checkpoint before the first ledger whose
  history was asked for; if it starts from transactions, the first checkpoint it downloads connects to
  the last closed ledger.\<close>

theorem makeCatchupRange_connects:
  assumes "0 < lcl" "lcl \<le> toLedger cfg" "toLedger cfg < 2 ^ 32 - 128"
  shows "\<exists>range buckets checkpoints. makeCatchupRange hm lcl cfg = Inr (range, buckets)
    \<and> checkpointRangeOf hm range = Inr checkpoints \<and> lr_last range = toLedger cfg
    \<and> (if buckets then checkpointContainingLedger hm (lr_first range) = lr_first range \<and> lcl + 1 < lr_first range
         \<and> lr_first range \<le> firstNeededLedger cfg \<and> firstNeededLedger cfg \<le> lr_first range + getCheckpointFrequency hm
       else cr_first checkpoints - getCheckpointFrequency hm \<le> lcl)"
proof -
  let ?f = "getCheckpointFrequency hm"
  define s where "s = max (firstNeededLedger cfg) lcl"
  define c where "c = checkpointContainingLedger hm s"
  define b where "b = firstNotFinishedCheckpoint hm lcl"
  have needed: "1 \<le> firstNeededLedger cfg" "firstNeededLedger cfg \<le> toLedger cfg"
    using firstNeeded_bounds [of cfg] assms by auto
  have s: "0 \<le> s" "s < 2 ^ 32 - 128" "s < 2 ^ 32 - 64" "lcl \<le> s" "s \<le> toLedger cfg" "0 < s"
    using needed assms by (auto simp: s_def)
  have f: "?f = 8 \<or> ?f = 64" by (rule frequency_cases)
  note cs = cp.containing_ge [OF s(1,3), of hm, folded c_def] cp.containing_less [OF s(1,3), of hm, folded c_def]
    cp.containing_mod [OF s(1,3), of hm, folded c_def]
  note bs = firstNotFinished [of lcl hm, folded b_def]
  have start: "computeCatchupStart hm s b =
    (if s = c then (True, s) else if s < ?f - 1 \<or> c - ?f < b then (False, s) else (True, c - ?f))"
    by (rule computeCatchupStart_cases [OF s(1,2)]) (simp_all add: c_def)
  define first where "first = snd (computeCatchupStart hm s b)"
  define buckets where "buckets \<longleftrightarrow> fst (computeCatchupStart hm s b) \<and> lcl + 1 < first"
  have lcl: "lcl < b" "(b + 1) mod ?f = 0" "b \<le> lcl + ?f" using bs assms by auto
  have first: "0 < first" "first \<le> s" using start lcl(1) assms(1) s(6) cs(1,2) by (auto simp: first_def)
  have range: "makeCatchupRange hm lcl cfg = Inr (\<lparr>lr_first = first, lr_last = toLedger cfg\<rparr>, buckets)"
    using assms first s(5) by (auto simp: makeCatchupRange_def Let_def makeLedgerRange_def CURRENT_def
      buckets_def first_def simp flip: s_def b_def)
  note fc = cp.containing_mono [of first "toLedger cfg" hm] cp.containing_mod [of first hm]
    cp.containing_mod [of "toLedger cfg" hm] checkpoint_pos [of first hm]
    checkpoint_bound [of first hm] checkpoint_bound [of "toLedger cfg" hm] checkpoint_pos [of "toLedger cfg" hm]
  have checkpoints: "checkpointRangeOf hm \<lparr>lr_first = first, lr_last = toLedger cfg\<rparr>
      = Inr \<lparr>cr_first = checkpointContainingLedger hm first, cr_last = checkpointContainingLedger hm (toLedger cfg),
        cr_frequency = ?f\<rparr>"
    using fc first s assms(3) by (simp add: checkpointRangeOf_def makeCheckpointRange_def)
  have shape: "if buckets then checkpointContainingLedger hm first = first \<and> lcl < s \<and> first \<le> s \<and> s \<le> first + ?f
     else checkpointContainingLedger hm first - ?f \<le> lcl"
    using catchup_shape [OF s(1,2) _ s(4) lcl, of "fst (computeCatchupStart hm s b)" first] assms(1)
    by (simp add: buckets_def first_def)
  have "s = firstNeededLedger cfg" if "lcl < s" using that by (simp add: s_def max_def split: if_split_asm)
  with shape have "if buckets then checkpointContainingLedger hm first = first \<and> lcl + 1 < first
       \<and> first \<le> firstNeededLedger cfg \<and> firstNeededLedger cfg \<le> first + ?f
     else checkpointContainingLedger hm first - ?f \<le> lcl"
    by (auto simp: buckets_def)
  then show ?thesis using range checkpoints by auto
qed

theorem makeCatchupRange_connects_witness:
  "\<exists>range buckets checkpoints. makeCatchupRange \<lparr>hm_accelerateTime = False\<rparr> 100 \<lparr>cc_count = 10, cc_ledgerHashPair = (1000, None)\<rparr>
      = Inr (range, buckets)
    \<and> checkpointRangeOf \<lparr>hm_accelerateTime = False\<rparr> range = Inr checkpoints
    \<and> (buckets \<longrightarrow> 101 < lr_first range \<and> lr_first range \<le> 991)"
  using makeCatchupRange_connects [of 100 "\<lparr>cc_count = 10, cc_ledgerHashPair = (1000, None)\<rparr>" "\<lparr>hm_accelerateTime = False\<rparr>"]
  by (auto simp: toLedger_def firstNeededLedger_def Let_def)

text \<open>What a catch-up of 10 ledgers to ledger 1000 does at ledger 100, and at ledger 990.\<close>

lemma makeCatchupRange_examples:
  "makeCatchupRange \<lparr>hm_accelerateTime = False\<rparr> 100 \<lparr>cc_count = 10, cc_ledgerHashPair = (1000, None)\<rparr>
     = Inr (\<lparr>lr_first = 959, lr_last = 1000\<rparr>, True)"
  "makeCatchupRange \<lparr>hm_accelerateTime = False\<rparr> 990 \<lparr>cc_count = 10, cc_ledgerHashPair = (1000, None)\<rparr>
     = Inr (\<lparr>lr_first = 991, lr_last = 1000\<rparr>, False)"
  by code_simp+

text \<open>The bound is needed: an archive that claims to be at the last possible ledger makes the assertion
  that orders the range of checkpoints fail.\<close>

lemma checkpoint_wraps:
  "makeCatchupRange \<lparr>hm_accelerateTime = False\<rparr> 100
     (resolveConfiguration 4294967295 \<lparr>cc_count = 100, cc_ledgerHashPair = (CURRENT, None)\<rparr>)
     = Inr (\<lparr>lr_first = 4294967167, lr_last = 4294967295\<rparr>, True)"
  "checkpointRangeOf \<lparr>hm_accelerateTime = False\<rparr> \<lparr>lr_first = 4294967167, lr_last = 4294967295\<rparr> = Inl AssertionFailed"
  by code_simp+

subsection \<open>Reading numbers of ledgers\<close>

lemma stoul_digits:
  assumes "s \<noteq> []" "list_all isDigit s" "digitsValue s \<le> UINT64_MAX"
  shows "stoul s = Inr (digitsValue s mod 2 ^ 64, length s)"
proof -
  from assms(1,2) obtain c cs where c: "s = c # cs" "isDigit c" by (cases s) auto
  then have sp: "\<not> isSpace c" "c \<noteq> CHR ''+''" "c \<noteq> CHR ''-''" by (auto simp: isDigit_def isSpace_def)
  then have "dropWhile isSpace s = s" by (simp add: c(1))
  moreover have "takeWhile isDigit cs = cs" using assms(2) by (simp add: c(1) takeWhile_eq_all_conv list_all_iff)
  ultimately show ?thesis using assms(3) c sp by (simp add: stoul_def Let_def del: takeWhile_eq_all_conv)
qed

text \<open>A number of a ledger is read as it is written when it fits in 32 bits.\<close>

lemma parseLedger_digits:
  assumes "s \<noteq> []" "list_all isDigit s" "2 \<le> digitsValue s" "digitsValue s < 2 ^ 32"
  shows "parseLedger s = Inr (digitsValue s)"
proof -
  have "s \<noteq> ''current''" using assms(2) by (auto simp: isDigit_def)
  moreover have "digitsValue s mod 2 ^ 64 = digitsValue s" using assms by simp
  ultimately show ?thesis using stoul_digits [OF assms(1,2)] assms(3,4) by (simp add: parseLedger_def)
qed

text \<open>A larger one is cut off: \<^verbatim>\<open>4294967296\<close> is taken for the current ledger, and a negative count
  for the largest one.\<close>

lemma parseLedger_truncates:
  "parseLedger ''4294967296'' = Inr CURRENT" "parseLedger ''4294967297'' = Inr 1" "parseLedgerCount ''-1'' = Inr UINT32_MAX"
  by code_simp+

end
