(* ===== verification/Verify_Chain.thy ===== *)
theory Verify_Chain
  imports Catchup_Range
begin

section \<open>Verifying the headers of an archive (src/src/catchup/VerifyLedgerChainWork.cpp)\<close>

text \<open>
  The headers that a node downloads come from archives that it does not trust. They are verified from
  the last checkpoint backwards: the last header against a hash that consensus vouched for, every header
  against the one after it, and the headers at the last closed ledger against that. The hash of a
  header is an argument. A file is the sequence of records that can be read from it, and whether
  reading on throws. Metrics and messages are left out.
\<close>

abbreviation he_seq :: "LedgerHeaderHistoryEntry \<Rightarrow> int" where
  "he_seq e \<equiv> lh_ledgerSeq (fh_header (he_header e))"

abbreviation he_prev :: "LedgerHeaderHistoryEntry \<Rightarrow> uint256" where
  "he_prev e \<equiv> hl_previousLedgerHash (fh_links (he_header e))"

record 'a XDRFile =
  xf_records :: "'a list"
  xf_malformed :: bool

type_synonym 'a Archive = "int \<Rightarrow> 'a XDRFile option"

datatype LedgerVerificationStatus =
    VERIFY_STATUS_OK
  | VERIFY_STATUS_ERR_BAD_HASH
  | VERIFY_STATUS_ERR_BAD_LEDGER_VERSION
  | VERIFY_STATUS_ERR_OVERSHOT
  | VERIFY_STATUS_ERR_UNDERSHOT
  | VERIFY_STATUS_ERR_MISSING_ENTRIES

datatype WorkState =
    WORK_PENDING
  | WORK_RUNNING
  | WORK_SUCCESS
  | WORK_FAILURE_RETRY
  | WORK_FAILURE_RAISE
  | WORK_FAILURE_FATAL

record VerifyLedgerChainWork =
  vw_range :: LedgerRange
  vw_currCheckpoint :: int
  vw_lastClosed :: "int \<times> uint256"
  vw_trustedEndLedger :: LedgerNumHashPair
  vw_verifiedAhead :: LedgerNumHashPair
  vw_verifiedLedgerRangeStart :: LedgerHeaderHistoryEntry

text \<open>An entry before anything was read into it.\<close>

definition emptyEntry :: LedgerHeaderHistoryEntry where
  "emptyEntry = \<lparr>he_hash = 0, he_header = \<lparr>fh_header = \<lparr>lh_ledgerVersion = 0, lh_ledgerSeq = 0, lh_closeTime = 0,
     lh_totalCoins = 0, lh_feePool = 0, lh_inflationSeq = 0, lh_idPool = 0, lh_baseFee = 0, lh_baseReserve = 0,
     lh_maxTxSetSize = 0\<rparr>, fh_links = emptyLinks\<rparr>\<rparr>"

definition onResetVerify :: "HistoryManager \<Rightarrow> VerifyLedgerChainWork \<Rightarrow> VerifyLedgerChainWork" where
  "onResetVerify hm w = w\<lparr>vw_verifiedAhead := (0, None), vw_verifiedLedgerRangeStart := emptyEntry,
     vw_currCheckpoint := checkpointContainingLedger hm (lr_last (vw_range w))\<rparr>"

definition makeVerifyLedgerChainWork ::
    "HistoryManager \<Rightarrow> LedgerRange \<Rightarrow> LedgerNumHashPair \<Rightarrow> LedgerNumHashPair \<Rightarrow> cpp_error + VerifyLedgerChainWork" where
  "makeVerifyLedgerChainWork hm rng lastClosedLedger ledgerRangeEnd =
     bindE (ensureE (lr_last rng = fst ledgerRangeEnd) AssertionFailed) (\<lambda>_.
     (case snd lastClosedLedger of
        None \<Rightarrow> Inl AssertionFailed
      | Some h \<Rightarrow> Inr \<lparr>vw_range = rng, vw_currCheckpoint = checkpointContainingLedger hm (lr_last rng),
          vw_lastClosed = (fst lastClosedLedger, h), vw_trustedEndLedger = ledgerRangeEnd,
          vw_verifiedAhead = (0, None), vw_verifiedLedgerRangeStart = emptyEntry\<rparr>))"

subsection \<open>One header\<close>

definition verifyLedgerHistoryEntry ::
    "(FullHeader \<Rightarrow> uint256) \<Rightarrow> LedgerHeaderHistoryEntry \<Rightarrow> LedgerVerificationStatus" where
  "verifyLedgerHistoryEntry hash hhe =
     (if hash (he_header hhe) \<noteq> he_hash hhe then VERIFY_STATUS_ERR_BAD_HASH else VERIFY_STATUS_OK)"

definition verifyLedgerHistoryLink ::
    "(FullHeader \<Rightarrow> uint256) \<Rightarrow> uint256 \<Rightarrow> LedgerHeaderHistoryEntry \<Rightarrow> LedgerVerificationStatus" where
  "verifyLedgerHistoryLink hash prev cur =
     (let entryResult = verifyLedgerHistoryEntry hash cur in
      if entryResult \<noteq> VERIFY_STATUS_OK then entryResult
      else if prev \<noteq> he_prev cur then VERIFY_STATUS_ERR_BAD_HASH
      else VERIFY_STATUS_OK)"

definition verifyLastLedgerInCheckpoint ::
    "LedgerHeaderHistoryEntry \<Rightarrow> LedgerNumHashPair \<Rightarrow> cpp_error + LedgerVerificationStatus" where
  "verifyLastLedgerInCheckpoint ledger verifiedAhead =
     bindE (ensureE (he_seq ledger = fst verifiedAhead) AssertionFailed) (\<lambda>_.
     Inr (case snd verifiedAhead of
        None \<Rightarrow> VERIFY_STATUS_OK
      | Some trustedHash \<Rightarrow>
          if he_hash ledger \<noteq> trustedHash then VERIFY_STATUS_ERR_BAD_HASH else VERIFY_STATUS_OK))"

text \<open>Against the last closed ledger.\<close>

definition verifyAgainstLCL ::
    "(FullHeader \<Rightarrow> uint256) \<Rightarrow> int \<times> uint256 \<Rightarrow> LedgerHeaderHistoryEntry \<Rightarrow> LedgerVerificationStatus" where
  "verifyAgainstLCL hash lcl cur =
     (if he_seq cur = fst lcl then
        if hash (he_header cur) \<noteq> snd lcl then VERIFY_STATUS_ERR_BAD_HASH else VERIFY_STATUS_OK
      else if he_seq cur = (fst lcl + 1) mod 2 ^ 32 then verifyLedgerHistoryLink hash (snd lcl) cur
      else VERIFY_STATUS_OK)"

text \<open>The body of the loop over a file, after an earlier record \<open>prev\<close> of it, if any.\<close>

definition verifyRecord ::
    "(FullHeader \<Rightarrow> uint256) \<Rightarrow> VerifyLedgerChainWork \<Rightarrow> LedgerHeaderHistoryEntry option \<Rightarrow> LedgerHeaderHistoryEntry
       \<Rightarrow> LedgerVerificationStatus \<times> VerifyLedgerChainWork" where
  "verifyRecord hash w prev cur =
     (let lclResult = verifyAgainstLCL hash (vw_lastClosed w) cur in
      if lh_ledgerVersion (fh_header (he_header cur)) > CURRENT_LEDGER_PROTOCOL_VERSION
      then (VERIFY_STATUS_ERR_BAD_LEDGER_VERSION, w)
      else if lclResult \<noteq> VERIFY_STATUS_OK then (lclResult, w)
      else case prev of
        None \<Rightarrow>
          let hashResult = verifyLedgerHistoryEntry hash cur in
          if hashResult \<noteq> VERIFY_STATUS_OK then (hashResult, w)
          else (VERIFY_STATUS_OK, w\<lparr>vw_verifiedAhead := ((he_seq cur - 1) mod 2 ^ 32, Some (he_prev cur))\<rparr>)
      | Some p \<Rightarrow>
          let expectedSeq = (he_seq p + 1) mod 2 ^ 32 in
          if he_seq cur < expectedSeq then (VERIFY_STATUS_ERR_UNDERSHOT, w)
          else if he_seq cur > expectedSeq then (VERIFY_STATUS_ERR_OVERSHOT, w)
          else (verifyLedgerHistoryLink hash (he_hash p) cur, w))"

fun verifyRecords ::
    "(FullHeader \<Rightarrow> uint256) \<Rightarrow> bool \<Rightarrow> VerifyLedgerChainWork \<Rightarrow> LedgerHeaderHistoryEntry option
       \<Rightarrow> LedgerHeaderHistoryEntry list
       \<Rightarrow> cpp_error + (LedgerVerificationStatus \<times> VerifyLedgerChainWork \<times> LedgerHeaderHistoryEntry option)" where
  "verifyRecords hash malformed w prev [] =
     (if malformed then Inl (RuntimeError ''malformed XDR file'') else Inr (VERIFY_STATUS_OK, w, prev))"
| "verifyRecords hash malformed w prev (cur # rest) =
     (let (status, w') = verifyRecord hash w prev cur in
      if status \<noteq> VERIFY_STATUS_OK then Inr (status, w', Some cur)
      else if he_seq cur = lr_last (vw_range w) then Inr (VERIFY_STATUS_OK, w', Some cur)
      else verifyRecords hash malformed w' (Some cur) rest)"

subsection \<open>One checkpoint, and the chain\<close>

definition verifyHistoryOfSingleCheckpoint ::
    "HistoryManager \<Rightarrow> (FullHeader \<Rightarrow> uint256) \<Rightarrow> LedgerHeaderHistoryEntry Archive \<Rightarrow> VerifyLedgerChainWork
       \<Rightarrow> cpp_error + (LedgerVerificationStatus \<times> VerifyLedgerChainWork)" where
  "verifyHistoryOfSingleCheckpoint hm hash files w =
     (case files (vw_currCheckpoint w) of
        None \<Rightarrow> Inl (RuntimeError ''failed to open XDR file'')
      | Some file \<Rightarrow>
         bindE (verifyRecords hash (xf_malformed file) w None (xf_records file)) (\<lambda>(status, w1, read).
         let cur = (case read of None \<Rightarrow> emptyEntry | Some e \<Rightarrow> e);
             ahead = vw_verifiedAhead w
         in if status \<noteq> VERIFY_STATUS_OK then Inr (status, w1)
            else if he_seq cur \<noteq> vw_currCheckpoint w \<and> he_seq cur \<noteq> lr_last (vw_range w)
            then Inr (VERIFY_STATUS_ERR_MISSING_ENTRIES, w1)
            else bindE (if he_seq cur = lr_last (vw_range w)
                        then bindE (ensureE (fst ahead = 0) AssertionFailed) (\<lambda>_. Inr (vw_trustedEndLedger w))
                        else bindE (ensureE (snd ahead \<noteq> None) AssertionFailed) (\<lambda>_.
                             bindE (ensureE (fst ahead \<noteq> 0) AssertionFailed) (\<lambda>_. Inr ahead)))
                   (\<lambda>next.
                 bindE (verifyLastLedgerInCheckpoint cur next) (\<lambda>verifyTrustedHash.
                 if verifyTrustedHash \<noteq> VERIFY_STATUS_OK
                 then bindE (ensureE (snd next \<noteq> None) AssertionFailed) (\<lambda>_. Inr (verifyTrustedHash, w1))
                 else if vw_currCheckpoint w = checkpointContainingLedger hm (lr_first (vw_range w))
                 then Inr (VERIFY_STATUS_OK, w1\<lparr>vw_verifiedLedgerRangeStart := cur\<rparr>)
                 else Inr (VERIFY_STATUS_OK, w1)))))"

definition onSuccessVerify ::
    "HistoryManager \<Rightarrow> (FullHeader \<Rightarrow> uint256) \<Rightarrow> LedgerHeaderHistoryEntry Archive \<Rightarrow> VerifyLedgerChainWork
       \<Rightarrow> cpp_error + (WorkState \<times> VerifyLedgerChainWork)" where
  "onSuccessVerify hm hash files w =
     (let firstCheckpoint = checkpointContainingLedger hm (lr_first (vw_range w)) in
      if vw_currCheckpoint w < firstCheckpoint
      then Inl (RuntimeError ''Verification undershot first ledger in the range.'')
      else bindE (verifyHistoryOfSingleCheckpoint hm hash files w) (\<lambda>(status, w1).
        if status = VERIFY_STATUS_OK then
          if vw_currCheckpoint w1 = firstCheckpoint then Inr (WORK_SUCCESS, w1)
          else Inr (WORK_RUNNING, w1\<lparr>vw_currCheckpoint := (vw_currCheckpoint w1 - getCheckpointFrequency hm) mod 2 ^ 32\<rparr>)
        else Inr (WORK_FAILURE_FATAL, w1)))"

text \<open>The work is run again as long as it says so.\<close>

fun runVerify ::
    "nat \<Rightarrow> HistoryManager \<Rightarrow> (FullHeader \<Rightarrow> uint256) \<Rightarrow> LedgerHeaderHistoryEntry Archive \<Rightarrow> VerifyLedgerChainWork
       \<Rightarrow> cpp_error + (WorkState \<times> VerifyLedgerChainWork)" where
  "runVerify 0 hm hash files w = Inl NoReturn"
| "runVerify (Suc fuel) hm hash files w =
     bindE (onSuccessVerify hm hash files w) (\<lambda>(state, w').
     if state = WORK_RUNNING then runVerify fuel hm hash files w' else Inr (state, w'))"

text \<open>A work as it is made, for a range of ledgers and the last closed one.\<close>

definition verifyLedgers ::
    "HistoryManager \<Rightarrow> (FullHeader \<Rightarrow> uint256) \<Rightarrow> LedgerHeaderHistoryEntry Archive \<Rightarrow> LedgerRange \<Rightarrow> LedgerNumHashPair
       \<Rightarrow> LedgerNumHashPair \<Rightarrow> cpp_error + (WorkState \<times> VerifyLedgerChainWork)" where
  "verifyLedgers hm hash files rng lastClosedLedger rangeEnd =
     bindE (makeVerifyLedgerChainWork hm rng lastClosedLedger rangeEnd) (\<lambda>w.
     bindE (checkpointRangeOf hm rng) (\<lambda>checkpoints.
     runVerify (nat (cr_count checkpoints)) hm hash files (onResetVerify hm w)))"

subsection \<open>What is verified\<close>

text \<open>A header follows another. Numbers are compared as 32-bit numbers.\<close>

definition follows :: "LedgerHeaderHistoryEntry \<Rightarrow> LedgerHeaderHistoryEntry \<Rightarrow> bool" where
  "follows p e \<longleftrightarrow> he_seq e mod 2 ^ 32 = (he_seq p + 1) mod 2 ^ 32 \<and> he_prev e = he_hash p"

fun chained :: "(FullHeader \<Rightarrow> uint256) \<Rightarrow> LedgerHeaderHistoryEntry list \<Rightarrow> bool" where
  "chained hash [] = True"
| "chained hash [e] \<longleftrightarrow> he_hash e = hash (he_header e)"
| "chained hash (p # e # es) \<longleftrightarrow> he_hash p = hash (he_header p) \<and> follows p e \<and> chained hash (e # es)"

text \<open>A header is vouched for when a chain of hashes leads from the trusted end back to it, which has that
  number only at its end.\<close>

definition vouched :: "(FullHeader \<Rightarrow> uint256) \<Rightarrow> LedgerNumHashPair \<Rightarrow> LedgerHeaderHistoryEntry \<Rightarrow> bool" where
  "vouched hash target e \<longleftrightarrow> (\<exists>es. chained hash (e # es) \<and> he_seq (last (e # es)) = fst target
     \<and> (\<forall>x \<in> set (butlast (e # es)). he_seq x \<noteq> fst target)
     \<and> (\<forall>h. snd target = Some h \<longrightarrow> he_hash (last (e # es)) = h))"

definition agreesLCL :: "(FullHeader \<Rightarrow> uint256) \<Rightarrow> int \<times> uint256 \<Rightarrow> LedgerHeaderHistoryEntry \<Rightarrow> bool" where
  "agreesLCL hash lcl e \<longleftrightarrow> (if he_seq e = fst lcl then hash (he_header e) = snd lcl
     else he_seq e = (fst lcl + 1) mod 2 ^ 32 \<longrightarrow> he_prev e = snd lcl)"

text \<open>What is read of a file.\<close>

fun readUpTo :: "int \<Rightarrow> LedgerHeaderHistoryEntry list \<Rightarrow> LedgerHeaderHistoryEntry list" where
  "readUpTo l [] = []"
| "readUpTo l (e # es) = e # (if he_seq e = l then [] else readUpTo l es)"

lemma readUpTo_empty [simp]: "readUpTo l es = [] \<longleftrightarrow> es = []"
  by (cases es) simp_all

lemma verifyLedgerHistoryEntry_ok [simp]:
  "verifyLedgerHistoryEntry hash e = VERIFY_STATUS_OK \<longleftrightarrow> he_hash e = hash (he_header e)"
  by (auto simp: verifyLedgerHistoryEntry_def)

lemma verifyLedgerHistoryLink_ok [simp]:
  "verifyLedgerHistoryLink hash h e = VERIFY_STATUS_OK \<longleftrightarrow> he_hash e = hash (he_header e) \<and> he_prev e = h"
  by (auto simp: verifyLedgerHistoryLink_def Let_def)

lemma verifyAgainstLCL_ok: "verifyAgainstLCL hash lcl e = VERIFY_STATUS_OK \<Longrightarrow> agreesLCL hash lcl e"
  by (simp add: verifyAgainstLCL_def agreesLCL_def split: if_split_asm)

lemma verifyRecord_ok:
  assumes "verifyRecord hash w prev e = (VERIFY_STATUS_OK, w')"
  shows "he_hash e = hash (he_header e)" "agreesLCL hash (vw_lastClosed w) e"
    "w' = (if prev = None then w\<lparr>vw_verifiedAhead := ((he_seq e - 1) mod 2 ^ 32, Some (he_prev e))\<rparr> else w)"
    "prev = Some p \<Longrightarrow> follows p e"
proof -
  from assms have l: "verifyAgainstLCL hash (vw_lastClosed w) e = VERIFY_STATUS_OK"
    by (simp add: verifyRecord_def Let_def split: if_split_asm)
  then show "agreesLCL hash (vw_lastClosed w) e" by (rule verifyAgainstLCL_ok)
  show "he_hash e = hash (he_header e)"
    "w' = (if prev = None then w\<lparr>vw_verifiedAhead := ((he_seq e - 1) mod 2 ^ 32, Some (he_prev e))\<rparr> else w)"
    using assms l by (auto simp: verifyRecord_def Let_def split: if_split_asm option.split_asm)
  assume "prev = Some p"
  with assms l have "he_seq e = (he_seq p + 1) mod 2 ^ 32" "he_prev e = he_hash p"
    by (simp_all add: verifyRecord_def Let_def split: if_split_asm)
  then show "follows p e" by (simp add: follows_def)
qed

lemma verifyRecords_after:
  "\<lbrakk>verifyRecords hash m w (Some p) es = Inr (VERIFY_STATUS_OK, w', read); he_hash p = hash (he_header p)\<rbrakk>
   \<Longrightarrow> w' = w \<and> chained hash (p # readUpTo (lr_last (vw_range w)) es)
     \<and> (\<forall>e \<in> set (readUpTo (lr_last (vw_range w)) es). agreesLCL hash (vw_lastClosed w) e)
     \<and> read = Some (last (p # readUpTo (lr_last (vw_range w)) es))"
proof (induction es arbitrary: p)
  case Nil
  then show ?case by (simp split: if_split_asm)
next
  case (Cons e es)
  from Cons.prems(1) obtain w1 where r: "verifyRecord hash w (Some p) e = (VERIFY_STATUS_OK, w1)"
    by (auto simp: Let_def split: prod.split_asm if_split_asm)
  note v = verifyRecord_ok [OF r]
  show ?case
  proof (cases "he_seq e = lr_last (vw_range w)")
    case True
    with Cons.prems r v show ?thesis by simp
  next
    case False
    with Cons.prems(1) r v(3) have "verifyRecords hash m w (Some e) es = Inr (VERIFY_STATUS_OK, w', read)" by simp
    from Cons.IH [OF this v(1)] v Cons.prems(2) False show ?thesis by simp
  qed
qed

lemma verifyRecords_ok:
  assumes "verifyRecords hash m w None (e # es) = Inr (VERIFY_STATUS_OK, w', read)"
  defines "es' \<equiv> readUpTo (lr_last (vw_range w)) (e # es)"
  shows "w' = w\<lparr>vw_verifiedAhead := ((he_seq e - 1) mod 2 ^ 32, Some (he_prev e))\<rparr>"
    "chained hash es'" "\<forall>e \<in> set es'. agreesLCL hash (vw_lastClosed w) e" "read = Some (last es')"
proof -
  from assms(1) obtain w1 where r: "verifyRecord hash w None e = (VERIFY_STATUS_OK, w1)"
    by (auto simp: Let_def split: prod.split_asm if_split_asm)
  note v = verifyRecord_ok [OF r]
  have *: "w' = w\<lparr>vw_verifiedAhead := ((he_seq e - 1) mod 2 ^ 32, Some (he_prev e))\<rparr> \<and> chained hash es'
    \<and> (\<forall>e \<in> set es'. agreesLCL hash (vw_lastClosed w) e) \<and> read = Some (last es')"
  proof (cases "he_seq e = lr_last (vw_range w)")
    case True
    with assms r v show ?thesis by simp
  next
    case False
    let ?w = "w\<lparr>vw_verifiedAhead := ((he_seq e - 1) mod 2 ^ 32, Some (he_prev e))\<rparr>"
    from False assms(1) r v(3) have "verifyRecords hash m ?w (Some e) es = Inr (VERIFY_STATUS_OK, w', read)" by simp
    from verifyRecords_after [OF this v(1)] v False show ?thesis by (simp add: es'_def)
  qed
  then show "w' = w\<lparr>vw_verifiedAhead := ((he_seq e - 1) mod 2 ^ 32, Some (he_prev e))\<rparr>"
    "chained hash es'" "\<forall>e \<in> set es'. agreesLCL hash (vw_lastClosed w) e" "read = Some (last es')" by blast+
qed

lemma chained_Cons: "chained hash (e # es) \<Longrightarrow> chained hash es \<and> he_hash e = hash (he_header e)"
  by (cases es) simp_all

lemma chained_suffix: "chained hash (xs @ ys) \<Longrightarrow> chained hash ys"
  by (induction xs) (auto dest: chained_Cons)

lemma chained_prefix: "chained hash (xs @ ys) \<Longrightarrow> chained hash xs"
proof (induction xs)
  case (Cons x xs)
  then show ?case by (cases xs) (auto dest: chained_Cons)
qed simp

lemma chained_append:
  "\<lbrakk>chained hash (xs @ [x]); follows x e; chained hash (e # es)\<rbrakk> \<Longrightarrow> chained hash (xs @ x # e # es)"
proof (induction xs)
  case (Cons y ys)
  then show ?case by (cases ys) simp_all
qed simp

lemma readUpTo_butlast: "x \<in> set (butlast (readUpTo l es)) \<Longrightarrow> he_seq x \<noteq> l"
  by (induction es) (auto split: if_split_asm)

lemma chained_vouched:
  assumes "chained hash es" "es \<noteq> []" "he_seq (last es) = fst target" "\<forall>x \<in> set (butlast es). he_seq x \<noteq> fst target"
    and "\<forall>h. snd target = Some h \<longrightarrow> he_hash (last es) = h" and e: "e \<in> set es"
  shows "vouched hash target e"
proof -
  from e obtain xs ys where x: "es = xs @ e # ys" by (auto simp: in_set_conv_decomp)
  with assms chained_suffix [of hash xs "e # ys"] show ?thesis
    unfolding vouched_def by (intro exI [of _ ys]) (simp add: butlast_append)
qed

text \<open>A file whose last header a vouched one follows.\<close>

lemma follows_vouched:
  assumes "chained hash es" "es \<noteq> []" "follows (last es) e" "vouched hash target e" "\<forall>x \<in> set es. he_seq x \<noteq> fst target"
    and x: "x \<in> set es"
  shows "vouched hash target x"
proof -
  from assms(4) obtain cs where cs: "chained hash (e # cs)" "he_seq (last (e # cs)) = fst target"
    "\<forall>x \<in> set (butlast (e # cs)). he_seq x \<noteq> fst target"
    "\<forall>h. snd target = Some h \<longrightarrow> he_hash (last (e # cs)) = h" unfolding vouched_def by blast
  have "chained hash (butlast es @ last es # e # cs)"
    using assms(1-3) cs(1) by (intro chained_append) simp_all
  then have "chained hash (es @ e # cs)" using assms(2) by (metis append.assoc append_Cons append_Nil append_butlast_last_id)
  then show ?thesis
    by (rule chained_vouched) (use cs(2-4) assms(5) x in \<open>auto simp: butlast_append simp del: butlast.simps\<close>)
qed

lemma vouched_end: "\<lbrakk>vouched hash (n, Some h) e; he_seq e = n\<rbrakk> \<Longrightarrow> he_hash e = h"
  by (auto simp: vouched_def split: if_split_asm)

text \<open>What one checkpoint knows of the one after it.\<close>

definition ahead_ok :: "(FullHeader \<Rightarrow> uint256) \<Rightarrow> VerifyLedgerChainWork \<Rightarrow> bool" where
  "ahead_ok hash w \<longleftrightarrow> vw_verifiedAhead w = (0, None) \<or>
     (\<exists>e. vouched hash (vw_trustedEndLedger w) e \<and> vw_verifiedAhead w = ((he_seq e - 1) mod 2 ^ 32, Some (he_prev e)))"

definition work_ok :: "(FullHeader \<Rightarrow> uint256) \<Rightarrow> VerifyLedgerChainWork \<Rightarrow> bool" where
  "work_ok hash w \<longleftrightarrow> ahead_ok hash w \<and> fst (vw_trustedEndLedger w) = lr_last (vw_range w) \<and> 0 < lr_last (vw_range w)"

definition verifiedFile ::
    "(FullHeader \<Rightarrow> uint256) \<Rightarrow> LedgerHeaderHistoryEntry Archive \<Rightarrow> int \<times> uint256 \<Rightarrow> LedgerNumHashPair \<Rightarrow> int \<Rightarrow> bool" where
  "verifiedFile hash files lcl target c \<longleftrightarrow> (\<exists>file. files c = Some file \<and> xf_records file \<noteq> []
     \<and> (\<forall>e \<in> set (readUpTo (fst target) (xf_records file)). vouched hash target e \<and> agreesLCL hash lcl e))"

lemma verifyLastLedger_ok:
  "verifyLastLedgerInCheckpoint e ahead = Inr VERIFY_STATUS_OK \<longleftrightarrow>
     he_seq e = fst ahead \<and> (\<forall>h. snd ahead = Some h \<longrightarrow> he_hash e = h)"
  by (auto simp: verifyLastLedgerInCheckpoint_def split: option.split)

lemma singleCheckpoint_parts:
  assumes r: "verifyHistoryOfSingleCheckpoint hm hash files w = Inr (VERIFY_STATUS_OK, w1)"
  obtains fl w2 read cur where "files (vw_currCheckpoint w) = Some fl"
    "verifyRecords hash (xf_malformed fl) w None (xf_records fl) = Inr (VERIFY_STATUS_OK, w2, read)"
    "cur = (case read of None \<Rightarrow> emptyEntry | Some e \<Rightarrow> e)"
    "he_seq cur = vw_currCheckpoint w \<or> he_seq cur = lr_last (vw_range w)"
    "verifyLastLedgerInCheckpoint cur
       (if he_seq cur = lr_last (vw_range w) then vw_trustedEndLedger w else vw_verifiedAhead w) = Inr VERIFY_STATUS_OK"
    "he_seq cur = lr_last (vw_range w) \<or> snd (vw_verifiedAhead w) \<noteq> None"
    "w1 = (if vw_currCheckpoint w = checkpointContainingLedger hm (lr_first (vw_range w))
       then w2\<lparr>vw_verifiedLedgerRangeStart := cur\<rparr> else w2)"
proof -
  from r obtain fl status w2 read where f: "files (vw_currCheckpoint w) = Some fl"
    "verifyRecords hash (xf_malformed fl) w None (xf_records fl) = Inr (status, w2, read)"
    by (auto simp: verifyHistoryOfSingleCheckpoint_def split: option.split_asm)
  define cur where "cur = (case read of None \<Rightarrow> emptyEntry | Some e \<Rightarrow> e)"
  have ok: "status = VERIFY_STATUS_OK"
    using r f by (simp add: verifyHistoryOfSingleCheckpoint_def Let_def split: if_split_asm)
  have s: "he_seq cur = vw_currCheckpoint w \<or> he_seq cur = lr_last (vw_range w)"
    using r f ok by (simp add: verifyHistoryOfSingleCheckpoint_def Let_def flip: cur_def split: if_split_asm)
  show thesis
  proof (cases "he_seq cur = lr_last (vw_range w)")
    case True
    with r f ok s show thesis
      by (intro that [of fl w2 read cur])
        (auto simp: verifyHistoryOfSingleCheckpoint_def Let_def simp flip: cur_def split: if_split_asm)
  next
    case False
    with r f ok s show thesis
      by (intro that [of fl w2 read cur])
        (auto simp: verifyHistoryOfSingleCheckpoint_def Let_def simp flip: cur_def split: if_split_asm)
  qed
qed

lemma singleCheckpoint_ok:
  assumes r: "verifyHistoryOfSingleCheckpoint hm hash files w = Inr (VERIFY_STATUS_OK, w1)"
    and w: "work_ok hash w" and pos: "0 < vw_currCheckpoint w"
  shows "verifiedFile hash files (vw_lastClosed w) (vw_trustedEndLedger w) (vw_currCheckpoint w)"
    "work_ok hash w1" "vw_range w1 = vw_range w" "vw_lastClosed w1 = vw_lastClosed w"
    "vw_trustedEndLedger w1 = vw_trustedEndLedger w" "vw_currCheckpoint w1 = vw_currCheckpoint w"
    "vw_currCheckpoint w = checkpointContainingLedger hm (lr_first (vw_range w))
       \<Longrightarrow> vouched hash (vw_trustedEndLedger w) (vw_verifiedLedgerRangeStart w1)"
proof -
  let ?l = "lr_last (vw_range w)" and ?target = "vw_trustedEndLedger w"
  obtain fl w2 read cur where f: "files (vw_currCheckpoint w) = Some fl"
    "verifyRecords hash (xf_malformed fl) w None (xf_records fl) = Inr (VERIFY_STATUS_OK, w2, read)"
    "cur = (case read of None \<Rightarrow> emptyEntry | Some e \<Rightarrow> e)"
    "he_seq cur = vw_currCheckpoint w \<or> he_seq cur = ?l"
    and last: "verifyLastLedgerInCheckpoint cur (if he_seq cur = ?l then ?target else vw_verifiedAhead w) = Inr VERIFY_STATUS_OK"
    "he_seq cur = ?l \<or> snd (vw_verifiedAhead w) \<noteq> None"
    and w1: "w1 = (if vw_currCheckpoint w = checkpointContainingLedger hm (lr_first (vw_range w))
       then w2\<lparr>vw_verifiedLedgerRangeStart := cur\<rparr> else w2)"
    by (rule singleCheckpoint_parts [OF r])
  have ed: "fst ?target = ?l" "0 < ?l" using w by (simp_all add: work_ok_def)
  from f pos ed have "xf_records fl \<noteq> []" by (auto simp: emptyEntry_def split: if_split_asm)
  then obtain e es where e: "xf_records fl = e # es" by (cases "xf_records fl") auto
  let ?es = "readUpTo ?l (e # es)"
  note v = verifyRecords_ok [OF f(2) [unfolded e]]
  have cur: "cur = last ?es" using f(3) v(4) by simp
  have first: "e \<in> set ?es" "?es \<noteq> []" by simp_all
  have vouched: "vouched hash ?target x" if x: "x \<in> set ?es" for x
  proof (cases "he_seq cur = ?l")
    case True
    with last(1) have "he_hash cur = h" if "snd ?target = Some h" for h using that by (simp add: verifyLastLedger_ok)
    then show ?thesis using chained_vouched [OF v(2) first(2) _ _ _ x, of ?target] readUpTo_butlast [of _ ?l] True ed
      by (metis cur)
  next
    case False
    with last(2) w obtain n where n: "vouched hash ?target n" "vw_verifiedAhead w = ((he_seq n - 1) mod 2 ^ 32, Some (he_prev n))"
      by (auto simp: work_ok_def ahead_ok_def)
    with last(1) False have "follows cur n" by (simp add: verifyLastLedger_ok follows_def mod_add_left_eq)
    moreover have "\<forall>x \<in> set ?es. he_seq x \<noteq> fst ?target"
      using readUpTo_butlast [of _ ?l "e # es"] False ed(1) unfolding cur
      by (metis append_butlast_last_id first(2) in_set_conv_decomp_last rotate1.simps(2) set_ConsD set_rotate1)
    ultimately show ?thesis using follows_vouched [OF v(2) first(2) _ n(1) _ x] by (simp add: cur)
  qed
  show "verifiedFile hash files (vw_lastClosed w) ?target (vw_currCheckpoint w)"
    using f(1) e vouched v(3) ed by (simp add: verifiedFile_def)
  have w2: "vw_verifiedAhead w1 = ((he_seq e - 1) mod 2 ^ 32, Some (he_prev e))" "vw_range w1 = vw_range w"
    "vw_lastClosed w1 = vw_lastClosed w" "vw_trustedEndLedger w1 = ?target" "vw_currCheckpoint w1 = vw_currCheckpoint w"
    using w1 v(1) by simp_all
  then show "vw_range w1 = vw_range w" "vw_lastClosed w1 = vw_lastClosed w" "vw_trustedEndLedger w1 = ?target"
    "vw_currCheckpoint w1 = vw_currCheckpoint w" by simp_all
  show "work_ok hash w1" using w2 ed vouched [OF first(1)] by (auto simp: work_ok_def ahead_ok_def)
  assume "vw_currCheckpoint w = checkpointContainingLedger hm (lr_first (vw_range w))"
  then show "vouched hash ?target (vw_verifiedLedgerRangeStart w1)" using w1 vouched [of cur] first(2) by (simp add: cur)
qed

lemma verifyRecord_checkpoint:
  "verifyRecord hash w prev e = (status, w') \<Longrightarrow> vw_currCheckpoint w' = vw_currCheckpoint w \<and> vw_range w' = vw_range w"
  by (auto simp: verifyRecord_def Let_def split: if_split_asm option.split_asm)

lemma verifyRecords_checkpoint:
  "verifyRecords hash m w prev es = Inr (status, w', read)
   \<Longrightarrow> vw_currCheckpoint w' = vw_currCheckpoint w \<and> vw_range w' = vw_range w"
proof (induction es arbitrary: w prev)
  case (Cons e es)
  obtain st w1 where r: "verifyRecord hash w prev e = (st, w1)" by (cases "verifyRecord hash w prev e")
  with Cons verifyRecord_checkpoint [OF r] show ?case by (auto simp: Let_def split: if_split_asm)
qed (simp split: if_split_asm)

lemma singleCheckpoint_keeps:
  assumes "verifyHistoryOfSingleCheckpoint hm hash files w = Inr (VERIFY_STATUS_OK, w1)"
  shows "vw_currCheckpoint w1 = vw_currCheckpoint w" "vw_range w1 = vw_range w"
  by (rule singleCheckpoint_parts [OF assms], simp add: verifyRecords_checkpoint)+

lemma onSuccessVerify_cases:
  assumes "onSuccessVerify hm hash files w = Inr (state, w')"
  obtains (failed) "state = WORK_FAILURE_FATAL"
  | (ended) "state = WORK_SUCCESS" "vw_currCheckpoint w = checkpointContainingLedger hm (lr_first (vw_range w))"
      "verifyHistoryOfSingleCheckpoint hm hash files w = Inr (VERIFY_STATUS_OK, w')"
  | (again) w1 where "state = WORK_RUNNING" "vw_currCheckpoint w > checkpointContainingLedger hm (lr_first (vw_range w))"
      "verifyHistoryOfSingleCheckpoint hm hash files w = Inr (VERIFY_STATUS_OK, w1)"
      "w' = w1\<lparr>vw_currCheckpoint := (vw_currCheckpoint w - getCheckpointFrequency hm) mod 2 ^ 32\<rparr>"
proof -
  let ?a = "checkpointContainingLedger hm (lr_first (vw_range w))"
  from assms obtain status w1 where r: "verifyHistoryOfSingleCheckpoint hm hash files w = Inr (status, w1)" "?a \<le> vw_currCheckpoint w"
    by (auto simp: onSuccessVerify_def Let_def split: if_split_asm)
  show thesis
  proof (cases "status = VERIFY_STATUS_OK")
    case True
    with r(1) have c: "vw_currCheckpoint w1 = vw_currCheckpoint w" by (simp add: singleCheckpoint_keeps)
    show thesis
    proof (cases "vw_currCheckpoint w = ?a")
      case eq: True
      with assms r True c have "state = WORK_SUCCESS" "w' = w1" by (auto simp: onSuccessVerify_def Let_def split: if_split_asm)
      with r True eq show thesis by (intro ended) simp_all
    next
      case neq: False
      with assms r True c have "state = WORK_RUNNING"
        "w' = w1\<lparr>vw_currCheckpoint := (vw_currCheckpoint w - getCheckpointFrequency hm) mod 2 ^ 32\<rparr>"
        by (auto simp: onSuccessVerify_def Let_def split: if_split_asm)
      with r True neq show thesis by (intro again [of w1]) simp_all
    qed
  next
    case False
    with assms r have "state = WORK_FAILURE_FATAL" by (auto simp: onSuccessVerify_def Let_def split: if_split_asm)
    then show thesis by (rule failed)
  qed
qed

lemma mod_minus_period: "(c + 1) mod f = 0 \<Longrightarrow> (c - f + 1) mod (f :: int) = 0"
  by (metis add.commute diff_add_eq minus_mod_self2)

lemma runVerify_vouched:
  fixes hm :: HistoryManager
  defines "f \<equiv> getCheckpointFrequency hm"
  assumes "runVerify n hm hash files w = Inr (WORK_SUCCESS, w')" "work_ok hash w" "(vw_currCheckpoint w + 1) mod f = 0"
    "vw_currCheckpoint w < 2 ^ 32"
    and a: "checkpointContainingLedger hm (lr_first (vw_range w)) = a" "0 < a" "(a + 1) mod f = 0"
  shows "(\<forall>c. (c + 1) mod f = 0 \<and> a \<le> c \<and> c \<le> vw_currCheckpoint w
      \<longrightarrow> verifiedFile hash files (vw_lastClosed w) (vw_trustedEndLedger w) c)
    \<and> vouched hash (vw_trustedEndLedger w) (vw_verifiedLedgerRangeStart w')"
  using assms(2-6)
proof (induction n arbitrary: w)
  case (Suc n)
  from Suc.prems(1) obtain state w2 where s: "onSuccessVerify hm hash files w = Inr (state, w2)"
    "if state = WORK_RUNNING then runVerify n hm hash files w2 = Inr (WORK_SUCCESS, w') else state = WORK_SUCCESS \<and> w2 = w'"
    by (auto split: prod.split_asm if_split_asm)
  have gap: "c = x \<or> c \<le> x - f" if "(c + 1) mod f = 0" "(x + 1) mod f = 0" "c \<le> x" for c x
    using cp.checkpoints_apart [of c hm x] that by (cases "c < x") (simp_all add: f_def)
  from s(1) show ?case
  proof (cases rule: onSuccessVerify_cases)
    case failed
    with s(2) show ?thesis by simp
  next
    case ended
    with a Suc.prems(5) have pos: "0 < vw_currCheckpoint w" by simp
    note v = singleCheckpoint_ok [OF ended(3) Suc.prems(2) pos]
    from ended s(2) a Suc.prems(5) v show ?thesis by force
  next
    case (again w1)
    with a Suc.prems(5) have c: "a < vw_currCheckpoint w" by simp
    with a have pos: "0 < vw_currCheckpoint w" by simp
    note v = singleCheckpoint_ok [OF again(3) Suc.prems(2) pos]
    from gap [OF a(3) Suc.prems(3)] c have "a \<le> vw_currCheckpoint w - f" by simp
    with a Suc.prems(4) cp.freq_pos [of hm] have w2: "vw_currCheckpoint w2 = vw_currCheckpoint w - f"
      using again(4) by (simp add: f_def)
    have keep: "vw_range w2 = vw_range w" "vw_lastClosed w2 = vw_lastClosed w" "vw_trustedEndLedger w2 = vw_trustedEndLedger w"
      "work_ok hash w2" using again(4) v by (simp_all add: work_ok_def ahead_ok_def)
    have "runVerify n hm hash files w2 = Inr (WORK_SUCCESS, w')" using s(2) again(1) by simp
    from Suc.IH [OF this keep(4)] w2 mod_minus_period [OF Suc.prems(3)] Suc.prems(4,5) cp.freq_pos [of hm] keep
    have ih: "\<forall>c. (c + 1) mod f = 0 \<and> a \<le> c \<and> c \<le> vw_currCheckpoint w - f
        \<longrightarrow> verifiedFile hash files (vw_lastClosed w) (vw_trustedEndLedger w) c"
      "vouched hash (vw_trustedEndLedger w) (vw_verifiedLedgerRangeStart w')" by (simp_all add: f_def)
    have "verifiedFile hash files (vw_lastClosed w) (vw_trustedEndLedger w) c"
      if "(c + 1) mod f = 0" "a \<le> c" "c \<le> vw_currCheckpoint w" for c
      using gap [OF that(1) Suc.prems(3) that(3)] v(1) ih(1) that by metis
    with ih(2) show ?thesis by simp
  qed
qed simp

lemma verifyLedgers_vouched_all:
  assumes "verifyLedgers hm hash files rng (lcl, Some h) target = Inr (WORK_SUCCESS, w)"
    and "0 < lr_first rng" "lr_first rng \<le> lr_last rng" "lr_last rng < 2 ^ 32 - 128"
  shows "(\<forall>c. (c + 1) mod getCheckpointFrequency hm = 0 \<and> checkpointContainingLedger hm (lr_first rng) \<le> c
      \<and> c \<le> checkpointContainingLedger hm (lr_last rng) \<longrightarrow> verifiedFile hash files (lcl, h) target c)
    \<and> vouched hash target (vw_verifiedLedgerRangeStart w)"
proof -
  from assms(1) obtain w0 n where w0: "makeVerifyLedgerChainWork hm rng (lcl, Some h) target = Inr w0"
    "runVerify n hm hash files (onResetVerify hm w0) = Inr (WORK_SUCCESS, w)"
    by (auto simp: verifyLedgers_def)
  let ?w = "onResetVerify hm w0"
  from w0(1) have w: "vw_range ?w = rng" "vw_lastClosed ?w = (lcl, h)" "vw_trustedEndLedger ?w = target" "fst target = lr_last rng"
    "vw_currCheckpoint ?w = checkpointContainingLedger hm (lr_last rng)" "vw_verifiedAhead ?w = (0, None)"
    by (auto simp: makeVerifyLedgerChainWork_def onResetVerify_def)
  have ok: "work_ok hash ?w" using w assms(2,3) by (simp add: work_ok_def ahead_ok_def)
  have "lr_last rng < 2 ^ 32 - 64" "lr_first rng < 2 ^ 32 - 64" using assms by simp_all
  from runVerify_vouched [OF w0(2) ok, of "checkpointContainingLedger hm (lr_first rng)"] w assms(2-4) this
    cp.containing_mod checkpoint_bound [of "lr_last rng" hm] checkpoint_pos [of "lr_first rng" hm]
  show ?thesis by simp
qed

text \<open>C8. When the verification of an archive succeeds, every header that was read of its checkpoints is
  the first of a chain of hashes that ends in the ledger, and with the hash, that the caller trusts, and
  none contradicts the last closed ledger of the node; so is the header that buckets are applied for.\<close>

theorem verifyLedgers_vouched:
  assumes "verifyLedgers hm hash files rng (lcl, Some h) target = Inr (WORK_SUCCESS, w)"
    and "0 < lr_first rng" "lr_first rng \<le> lr_last rng" "lr_last rng < 2 ^ 32 - 128"
  shows "(\<forall>c. (c + 1) mod getCheckpointFrequency hm = 0 \<and> checkpointContainingLedger hm (lr_first rng) \<le> c
      \<and> c \<le> checkpointContainingLedger hm (lr_last rng) \<longrightarrow> verifiedFile hash files (lcl, h) target c)
    \<and> vouched hash target (vw_verifiedLedgerRangeStart w)"
  by (rule verifyLedgers_vouched_all [OF assms])

lemma successVerify_returns: "verifyHistoryOfSingleCheckpoint hm hash files w \<noteq> Inl NoReturn"
proof -
  have "verifyRecords hash m w prev es \<noteq> Inl NoReturn" for m w prev es
    by (induction es arbitrary: w prev) (auto simp: Let_def split: prod.split)
  then show ?thesis
    by (auto simp: verifyHistoryOfSingleCheckpoint_def Let_def bindE_eq_Inl verifyLastLedgerInCheckpoint_def split: option.split)
qed

lemma runVerify_returns:
  "\<lbrakk>vw_currCheckpoint w = checkpointContainingLedger hm (lr_first (vw_range w)) + int k * getCheckpointFrequency hm;
    vw_currCheckpoint w < 2 ^ 32; 0 \<le> checkpointContainingLedger hm (lr_first (vw_range w)); k < n\<rbrakk>
   \<Longrightarrow> runVerify n hm hash files w \<noteq> Inl NoReturn"
proof (induction n arbitrary: w k)
  case (Suc n)
  let ?f = "getCheckpointFrequency hm"
  show ?case
  proof (cases "onSuccessVerify hm hash files w")
    case (Inl e)
    then have "e \<noteq> NoReturn"
      using successVerify_returns [of hm hash files w]
      by (auto simp: onSuccessVerify_def Let_def bindE_eq_Inl split: if_split_asm)
    with Inl show ?thesis by simp
  next
    case (Inr r)
    obtain state w2 where r: "r = (state, w2)" by (cases r)
    from Inr [unfolded r] show ?thesis
    proof (cases rule: onSuccessVerify_cases)
      case (again w1)
      then obtain j where k: "k = Suc j" using Suc.prems(1) by (cases k) auto
      have w1: "vw_range w1 = vw_range w" using again(3) by (rule singleCheckpoint_keeps)
      have w2: "vw_currCheckpoint w2 = vw_currCheckpoint w - ?f"
        using again(4) Suc.prems(1-3) cp.freq_pos [of hm] k by (simp add: algebra_simps)
      have "runVerify n hm hash files w2 \<noteq> Inl NoReturn"
        by (rule Suc.IH [of _ j]) (use Suc.prems w1 w2 k again(4) cp.freq_pos [of hm] in \<open>simp_all add: algebra_simps\<close>)
      with Inr r again(1) show ?thesis by simp
    qed (use Inr r in simp_all)
  qed
qed simp

text \<open>The verification goes through each checkpoint of the range once and ends: as many runs as there
  are checkpoints are enough.\<close>

theorem verifyLedgers_terminates:
  assumes "0 < lr_first rng" "lr_first rng \<le> lr_last rng" "lr_last rng < 2 ^ 32 - 128"
  shows "verifyLedgers hm hash files rng lcl target \<noteq> Inl NoReturn"
proof -
  let ?f = "getCheckpointFrequency hm" and ?a = "checkpointContainingLedger hm (lr_first rng)"
    and ?b = "checkpointContainingLedger hm (lr_last rng)"
  have l: "0 \<le> lr_first rng" "lr_first rng < 2 ^ 32 - 64" "0 \<le> lr_last rng" "lr_last rng < 2 ^ 32 - 64" using assms by simp_all
  have "(?b - ?a) mod ?f = 0"
    using cp.containing_mod [OF l(1,2), of hm] cp.containing_mod [OF l(3,4), of hm]
    by (metis add_diff_cancel_right mod_0 mod_diff_eq diff_self)
  then obtain k where k: "?b - ?a = ?f * k" by (auto simp: mod_eq_0_iff_dvd)
  have f: "0 < ?f" using cp.freq_pos [of hm] by simp
  have "?a \<le> ?b" using cp.containing_mono [of "lr_first rng" "lr_last rng" hm] l assms by simp
  with k f have k0: "0 \<le> k" by (metis diff_ge_0_iff_ge zero_le_mult_iff not_less)
  have run: "runVerify (nat (k + 1)) hm hash files (onResetVerify hm w0) \<noteq> Inl NoReturn" if "vw_range w0 = rng" for w0
    by (rule runVerify_returns [of _ _ "nat k"])
      (use that k k0 checkpoint_bound [of "lr_last rng" hm] checkpoint_pos [of "lr_first rng" hm] l assms in
        \<open>simp_all add: onResetVerify_def algebra_simps\<close>)
  have count: "cr_count c = k + 1" if "checkpointRangeOf hm rng = Inr c" for c
    using that k f by (auto simp: checkpointRangeOf_def makeCheckpointRange_def cr_count_def)
  show ?thesis
    using run count
    by (auto simp: verifyLedgers_def bindE_eq_Inl makeVerifyLedgerChainWork_def checkpointRangeOf_def makeCheckpointRange_def
        split: option.split_asm)
qed

text \<open>With a hash that tells the served headers apart, there is only one chain of a length to the trusted hash.\<close>

lemma chain_unique:
  "\<lbrakk>chained hash (xs @ [x]); chained hash (ys @ [y]); length xs = length ys; he_hash x = he_hash y;
    inj_on hash (he_header ` set (xs @ x # ys @ [y]))\<rbrakk> \<Longrightarrow> xs @ [x] = ys @ [y]"
proof (induction xs arbitrary: ys x y rule: rev_induct)
  case Nil
  then have l: "hash (he_header x) = he_hash x" "hash (he_header y) = he_hash y" "ys = []" by simp_all
  have "he_header x = he_header y"
    by (rule inj_onD [OF Nil.prems(5)]) (simp_all add: l Nil.prems(4))
  with l(3) Nil.prems(4) show ?case by simp
next
  case (snoc x' xs)
  from snoc.prems(3) obtain y' ys' where ys: "ys = ys' @ [y']" "length xs = length ys'"
    by (cases ys rule: rev_cases) auto
  have cx: "chained hash ((xs @ [x']) @ [x])" and cy: "chained hash ((ys' @ [y']) @ [y])"
    using snoc.prems(1,2) by (simp_all add: ys(1))
  have sx: "chained hash ([x', x])" "chained hash ([y', y])"
    using chained_suffix [of hash xs "[x', x]"] chained_suffix [of hash ys' "[y', y]"] cx cy by simp_all
  then have l: "hash (he_header x) = he_hash x" "hash (he_header y) = he_hash y" "he_prev x = he_hash x'" "he_prev y = he_hash y'"
    by (simp_all add: follows_def)
  have h: "he_header x = he_header y"
    by (rule inj_onD [OF snoc.prems(5)]) (simp_all add: l snoc.prems(4))
  have "inj_on hash (he_header ` set (xs @ x' # ys' @ [y']))"
    by (rule inj_on_subset [OF snoc.prems(5)]) (auto simp: ys(1))
  then have "xs @ [x'] = ys' @ [y']"
    using h l by (intro snoc.IH [OF chained_prefix [OF cx] chained_prefix [OF cy] ys(2)]) simp_all
  moreover have "x = y" using h snoc.prems(4) by simp
  ultimately show ?case by (simp add: ys(1))
qed

subsection \<open>Instances\<close>

definition ex_accelerated :: HistoryManager where
  "ex_accelerated = \<lparr>hm_accelerateTime = True\<rparr>"

definition ex_headerEntry :: "int \<Rightarrow> LedgerHeaderHistoryEntry" where
  "ex_headerEntry n = emptyEntry\<lparr>he_hash := of_int n, he_header := \<lparr>
     fh_header = (fh_header (he_header emptyEntry))\<lparr>lh_ledgerSeq := n\<rparr>,
     fh_links = emptyLinks\<lparr>hl_previousLedgerHash := of_int (n - 1)\<rparr>\<rparr>\<rparr>"

definition ex_hash :: "FullHeader \<Rightarrow> uint256" where
  "ex_hash h = of_int (lh_ledgerSeq (fh_header h))"

definition ex_file :: "int list \<Rightarrow> LedgerHeaderHistoryEntry XDRFile option" where
  "ex_file ns = Some \<lparr>xf_records = map ex_headerEntry ns, xf_malformed = False\<rparr>"

definition ex_archive :: "int list \<Rightarrow> int list \<Rightarrow> LedgerHeaderHistoryEntry Archive" where
  "ex_archive c7 c15 c = (if c = 7 then ex_file c7 else if c = 15 then ex_file c15 else None)"

definition ex_verify :: "int list \<Rightarrow> int list \<Rightarrow> cpp_error + (WorkState \<times> VerifyLedgerChainWork)" where
  "ex_verify c7 c15 = verifyLedgers ex_accelerated ex_hash (ex_archive c7 c15) \<lparr>lr_first = 6, lr_last = 12\<rparr>
     (5, Some 5) (12, Some 12)"

lemma ex_verify_run:
  "case ex_verify [1..7] [8..15] of Inl _ \<Rightarrow> False | Inr (s, w) \<Rightarrow> s = WORK_SUCCESS"
  by code_simp

lemma ex_containing: "checkpointContainingLedger ex_accelerated 6 = 7" "checkpointContainingLedger ex_accelerated 12 = 15"
  "getCheckpointFrequency ex_accelerated = 8"
  by code_simp+

theorem verifyLedgers_vouched_witness:
  "\<exists>w. ex_verify [1..7] [8..15] = Inr (WORK_SUCCESS, w)
     \<and> verifiedFile ex_hash (ex_archive [1..7] [8..15]) (5, 5) (12, Some 12) 7
     \<and> vouched ex_hash (12, Some 12) (vw_verifiedLedgerRangeStart w)"
proof -
  obtain w where w: "ex_verify [1..7] [8..15] = Inr (WORK_SUCCESS, w)"
    using ex_verify_run by (auto split: sum.split_asm)
  from verifyLedgers_vouched [OF this [unfolded ex_verify_def]]
  have "verifiedFile ex_hash (ex_archive [1..7] [8..15]) (5, 5) (12, Some 12) 7"
    "vouched ex_hash (12, Some 12) (vw_verifiedLedgerRangeStart w)"
    by (simp_all add: ex_containing del: upto_rec_numeral)
  with w show ?thesis by blast
qed

theorem verifyLedgers_terminates_witness:
  "verifyLedgers ex_accelerated ex_hash (ex_archive [] []) \<lparr>lr_first = 6, lr_last = 12\<rparr> (5, Some 5) (12, Some 12) \<noteq> Inl NoReturn"
  by (rule verifyLedgers_terminates) simp_all

text \<open>A forged header is found out. A file that starts too late, or that goes on to the end of the range, makes
  an assertion fail instead: what an archive serves can end the process.\<close>

lemma ex_verify_refused:
  "case ex_verify [1, 2, 3, 4, 5, 6] [8..15] of Inl _ \<Rightarrow> False | Inr (s, w) \<Rightarrow> s = WORK_FAILURE_FATAL"
  by code_simp

lemma ex_verify_aborts:
  "ex_verify [1..7] [10..15] = Inl AssertionFailed"
  "ex_verify [1..12] [8..15] = Inl AssertionFailed"
  by code_simp+

end
