(* ===== verification/Ledger_Chain.thy ===== *)
theory Ledger_Chain
  imports Ledger_Close
begin

section \<open>Closing ledgers conserves the lumens and links the headers\<close>

subsection \<open>Upgrades\<close>

text \<open>Whatever an upgrade does when it completes, it moves no lumens. An account is touched by its own
  offers only.\<close>

definition keepsAccount :: "ledger \<Rightarrow> ledger \<Rightarrow> AccountID \<Rightarrow> bool" where
  "keepsAccount l l' aid \<longleftrightarrow> moves l 0 l' \<and> loadAccount l' aid = loadAccount l aid
     \<and> (\<forall>a. a \<noteq> aid \<longrightarrow> (\<forall>i. load l' (OfferKey a i) = load l (OfferKey a i)))"

lemma keepsAccount_refl: "ledger_ok l \<Longrightarrow> keepsAccount l l aid"
  by (simp add: keepsAccount_def moves_refl)

lemma keepsAccount_trans: "\<lbrakk>keepsAccount l l1 aid; keepsAccount l1 l2 aid\<rbrakk> \<Longrightarrow> keepsAccount l l2 aid"
  using moves_trans [of l 0 l1 0 l2] by (simp add: keepsAccount_def)

lemma keepsAccount_ok: "keepsAccount l l' aid \<Longrightarrow> ledger_ok l'"
  by (simp add: keepsAccount_def moves_def)

lemma updateOffer_keeps:
  assumes l: "ledger_ok l" "offer_ok oe" and u: "updateOffer l oe balance reservable m b s = Inr (res, m', l')"
  shows "keepsAccount l l' (of_sellerID oe)"
proof -
  have held: "held l (offerKeyOf oe) = 0"
  proof (cases "load l (offerKeyOf oe)")
    case (Some e)
    from ledger_ok_load [OF l(1) this] have "balance_of e = 0" by (cases e) (auto simp: offerKeyOf_def)
    then show ?thesis by (simp add: Some)
  qed simp
  have cases: "erase l (offerKeyOf oe) = Inr l' \<or> adjusted oe \<noteq> 0 \<and> l' = store l (OFFER (adjustedOffer oe))"
    using u adjustOffer_adjusted(1) [OF l(2)]
    by (auto simp: updateOffer_def Let_def offerKeyOf_def bindE_def split: if_split_asm sum.split_asm)
  then show ?thesis
  proof
    assume e: "erase l (offerKeyOf oe) = Inr l'"
    from moves_erase [OF l(1) e] held load_erase [OF e] show ?thesis
      by (simp add: keepsAccount_def offerKeyOf_def loadAccount_def)
  next
    assume e: "adjusted oe \<noteq> 0 \<and> l' = store l (OFFER (adjustedOffer oe))"
    moreover from e have "moves l 0 l'"
      using adjustedOffer_raw(4) [OF l(2)] held by (auto simp: offerKeyOf_def intro!: moves_store [OF l(1)])
    ultimately show ?thesis by (auto simp: keepsAccount_def loadAccount_def)
  qed
qed

lemma updateOffers_keeps:
  "\<lbrakk>ledger_ok l; \<And>oe. oe \<in> set oes \<Longrightarrow> offer_ok oe \<and> of_sellerID oe = aid; account_ok acc;
    updateOffers oes balance reservable b s m acc l = Inr (m', acc', l')\<rbrakk>
   \<Longrightarrow> keepsAccount l l' aid \<and> same_money acc acc'"
proof (induction oes arbitrary: l m acc)
  case Nil
  then show ?case by (simp add: keepsAccount_refl same_money_refl)
next
  case (Cons oe oes)
  from Cons.prems(4) obtain res m1 l1 acc1 where
    u: "updateOffer l oe balance reservable m b s = Inr (res, m1, l1)"
      "(if res = AdjustedToZero \<or> res = Erased then dropNumEntry (lg_header l) acc else Inr acc) = Inr acc1"
      "updateOffers oes balance reservable b s m1 acc1 l1 = Inr (m', acc', l')"
    by (auto simp: bindE_def split: sum.split_asm prod.split_asm)
  have oe: "offer_ok oe" "of_sellerID oe = aid" using Cons.prems(2) [of oe] by auto
  have k: "keepsAccount l l1 aid" using updateOffer_keeps [OF Cons.prems(1) oe(1) u(1)] oe(2) by simp
  have a: "same_money acc acc1"
    using u(2) dropNumEntry_account [OF Cons.prems(3)] same_money_refl [OF Cons.prems(3)]
    by (auto simp: same_money_def split: if_split_asm)
  from a have "account_ok acc1" by (simp add: same_money_def)
  from Cons.IH [OF keepsAccount_ok [OF k] _ this u(3)] Cons.prems(2)
  have r: "keepsAccount l1 l' aid" "same_money acc1 acc'" by auto
  from keepsAccount_trans [OF k r(1)] a r(2) show ?case by (simp add: same_money_def)
qed

lemma setNativeLiabilities_money:
  assumes "header_ok h" "account_ok acc" "setNativeLiabilities h x acc = Inr acc'"
  shows "same_money acc acc'"
proof -
  from assms(3) obtain s b acc1 where a: "addSellingLiabilities h (ACCOUNT acc) s = Inr (Some (ACCOUNT acc1))"
    "addBuyingLiabilities h (ACCOUNT acc1) b = Inr (Some (ACCOUNT acc'))"
    by (auto simp: setNativeLiabilities_def bindE_def
        split: sum.split_asm option.split_asm LedgerEntryData.split_asm)
  have 1: "account_ok acc1 \<and> ac_accountID acc1 = ac_accountID acc"
    using addSellingLiabilities_ok [OF assms(1) _ a(1)] assms(2) by simp
  with addBuyingLiabilities_ok [OF assms(1) _ a(2)] addLiabilities_balance [OF assms(1)] a 1
  show ?thesis by (fastforce simp: same_money_def)
qed

lemma setLineLiabilities_keeps:
  assumes l: "ledger_ok l" and r: "setLineLiabilities l a asset x = Inr l'"
  shows "keepsAccount l l' aid"
proof -
  have h: "header_ok (lg_header l)" by (rule ledger_ok_header [OF l])
  have ne: "asset \<noteq> ASSET_TYPE_NATIVE" using r by (auto simp: setLineLiabilities_def loadTrustLine_def)
  show ?thesis
  proof (cases "loadTrustLine l a asset")
    case (Inr w)
    show ?thesis
    proof (cases w)
      case (NonIssuerImpl t)
      with Inr have t: "loadTrustLineEntry l a asset = Some t"
        using ne by (auto simp: loadTrustLine_cases split: if_split_asm option.split_asm)
      from r Inr NonIssuerImpl obtain s b t1 t2 where
        u: "addSellingLiabilities (lg_header l) (TRUSTLINE t) s = Inr (Some (TRUSTLINE t1))"
          "addBuyingLiabilities (lg_header l) (TRUSTLINE t1) b = Inr (Some (TRUSTLINE t2))"
          "l' = store l (TRUSTLINE t2)"
        by (auto simp: setLineLiabilities_def Let_def bindE_def tlw_addSellingLiabilities_def
            tlw_addBuyingLiabilities_def putTrustLine_def
            split: sum.split_asm option.split_asm LedgerEntryData.split_asm)
      note tl = loadTrustLineEntry_ok [OF l t]
      have 1: "entry_ok (TRUSTLINE t1) \<and> LedgerEntryDataKey (TRUSTLINE t1) = TrustLineKey a asset"
        using addSellingLiabilities_ok [OF h _ u(1)] tl by simp
      with addBuyingLiabilities_ok [OF h _ u(2)]
      have 2: "entry_ok (TRUSTLINE t2)" "LedgerEntryDataKey (TRUSTLINE t2) = TrustLineKey a asset" by auto
      have "moves l 0 l'" unfolding u(3) using 2 tl by (intro moves_store [OF l]) auto
      then show ?thesis using u(3) 2 by (auto simp: keepsAccount_def loadAccount_def)
    qed (use r Inr l in \<open>auto simp: setLineLiabilities_def Let_def tlw_getSellingLiabilities_def
        tlw_getBuyingLiabilities_def tlw_addSellingLiabilities_def tlw_addBuyingLiabilities_def putTrustLine_def keepsAccount_refl\<close>)
  qed (use r in \<open>simp add: setLineLiabilities_def Let_def\<close>)
qed

lemma setLiabilities_keeps:
  "\<lbrakk>ledger_ok l; account_ok acc; setLiabilities aid xs acc l = Inr (acc', l')\<rbrakk>
   \<Longrightarrow> keepsAccount l l' aid \<and> same_money acc acc'"
proof (induction aid xs acc l rule: setLiabilities.induct)
  case (1 aid acc l)
  then show ?case by (simp add: keepsAccount_refl same_money_refl)
next
  case (2 aid asset liab rest acc l)
  show ?case
  proof (cases "asset = ASSET_TYPE_NATIVE")
    case True
    with 2(5) obtain acc1 where a: "setNativeLiabilities (lg_header l) liab acc = Inr acc1"
      "setLiabilities aid rest acc1 l = Inr (acc', l')" by (auto simp: bindE_def split: sum.split_asm)
    have m: "same_money acc acc1" by (rule setNativeLiabilities_money [OF ledger_ok_header [OF 2(3)] 2(4) a(1)])
    then have "account_ok acc1" by (simp add: same_money_def)
    from 2(1) [OF True a(1) 2(3) this a(2)] m show ?thesis by (simp add: same_money_def)
  next
    case False
    with 2(5) obtain l1 where a: "setLineLiabilities l aid asset liab = Inr l1"
      "setLiabilities aid rest acc l1 = Inr (acc', l')" by (auto simp: bindE_def split: sum.split_asm)
    have k: "keepsAccount l l1 aid" by (rule setLineLiabilities_keeps [OF 2(3) a(1)])
    from 2(2) [OF False a(1) keepsAccount_ok [OF k] 2(4) a(2)] keepsAccount_trans [OF k] show ?thesis by blast
  qed
qed

lemma prepareAccount_moves:
  assumes l: "ledger_ok l" and oes: "\<And>oe. oe \<in> set oes \<Longrightarrow> offer_ok oe \<and> of_sellerID oe = aid"
    and r: "prepareAccount (aid, oes) l = Inr l'"
  shows "moves l 0 l'"
proof -
  from r obtain acc b s m acc1 l1 acc2 l2 where
    a: "loadAccount l aid = Some acc"
      "updateOffers oes (ac_balance acc) (ac_balance acc - getMinBalance (lg_header l) (ac_numSubEntries acc)) b s [] acc l
         = Inr (m, acc1, l1)"
      "setLiabilities aid (sort_key (assetRank \<circ> fst) m) acc1 l1 = Inr (acc2, l2)" "l' = putAccount l2 acc2"
    by (auto simp: prepareAccount_def Let_def bindE_def split: sum.split_asm option.split_asm prod.split_asm)
  note ac = loadAccount_load [OF l a(1)]
  from updateOffers_keeps [OF l oes _ a(2)] ac have k1: "keepsAccount l l1 aid" "same_money acc acc1" by auto
  from k1(2) have "account_ok acc1" by (simp add: same_money_def)
  from setLiabilities_keeps [OF keepsAccount_ok [OF k1(1)] this a(3)] have k2: "keepsAccount l1 l2 aid" "same_money acc1 acc2"
    by auto
  have k: "keepsAccount l l2 aid" by (rule keepsAccount_trans [OF k1(1) k2(1)])
  then have "loadAccount l2 aid = Some acc" using a(1) by (simp add: keepsAccount_def)
  from moves_putAccount [OF keepsAccount_ok [OF k] this, of acc2] k1(2) k2(2) ac
  have "moves l2 0 l'" by (simp add: same_money_def a(4))
  with k moves_trans [of l 0 l2 0 l'] show ?thesis by (simp add: keepsAccount_def)
qed

lemma prepareAccounts_moves:
  "\<lbrakk>ledger_ok l; \<And>a oes oe. (a, oes) \<in> set xs \<Longrightarrow> oe \<in> set oes \<Longrightarrow> offer_ok oe \<and> of_sellerID oe = a;
    prepareAccounts xs l = Inr l'\<rbrakk> \<Longrightarrow> moves l 0 l'"
proof (induction xs arbitrary: l)
  case Nil
  then show ?case by (simp add: moves_refl)
next
  case (Cons x xs)
  from Cons.prems(3) obtain l1 where p: "prepareAccount x l = Inr l1" "prepareAccounts xs l1 = Inr l'"
    by (auto simp: bindE_def split: sum.split_asm)
  obtain a oes where x: "x = (a, oes)" by (cases x)
  have m: "moves l 0 l1" using prepareAccount_moves [OF Cons.prems(1), of oes a] Cons.prems(2) p(1) x by auto
  from Cons.IH [OF movesD(1) [OF m] _ p(2)] Cons.prems(2) have "moves l1 0 l'" by auto
  with m moves_trans [of l 0 l1 0 l'] show ?case by simp
qed

lemma prepareLiabilities_moves:
  assumes "ledger_ok l" "prepareLiabilities l = Inr l'"
  shows "moves l 0 l'"
proof (rule prepareAccounts_moves [OF assms(1)])
  show "prepareAccounts (loadAllOffers l) l = Inr l'" using assms(2) by (simp add: prepareLiabilities_def)
  fix a oes oe assume "(a, oes) \<in> set (loadAllOffers l)" "oe \<in> set oes"
  then have "oe \<in> set (offersOf l a)" by (auto simp: loadAllOffers_def offersOf_def)
  then show "offer_ok oe \<and> of_sellerID oe = a" using offersOf_ok [OF assms(1), of a] by (simp add: accountOffers_ok_def)
qed

text \<open>An upgrade that validation lets through: protocols below 10 are never adopted again, and the
  reserve is a \<^verbatim>\<open>uint32\<close>.\<close>

definition upgrade_ok :: "LedgerUpgrade \<Rightarrow> bool" where
  "upgrade_ok u = (case u of LEDGER_UPGRADE_VERSION v \<Rightarrow> 10 \<le> v
     | LEDGER_UPGRADE_BASE_RESERVE r \<Rightarrow> 0 \<le> r \<and> r \<le> UINT32_MAX | _ \<Rightarrow> True)"

lemma conserves_setHeader:
  assumes "ledger_ok l" "header_ok h" "lh_totalCoins h = lh_totalCoins (lg_header l)" "lh_feePool h = lh_feePool (lg_header l)"
    "lh_ledgerSeq h = lh_ledgerSeq (lg_header l)"
  shows "conserves l (setHeader l h)"
  using assms by (simp add: conserves_def surplus_def ledger_ok_setHeader)

lemma applyUpgrade_conserves:
  assumes l: "ledger_ok l" and u: "upgrade_ok u" and r: "applyUpgrade u l = Inr l'"
  shows "conserves l l'"
proof -
  have h: "header_ok (lg_header l)" by (rule ledger_ok_header [OF l])
  have new: "conserves l (setHeader l ((lg_header l)\<lparr>lh_ledgerVersion := v\<rparr>))" if "10 \<le> v" for v
    using that h by (intro conserves_setHeader [OF l]) (auto simp: header_ok_def)
  have res: "conserves l (setHeader l ((lg_header l)\<lparr>lh_baseReserve := v\<rparr>))" if "0 \<le> v" "v \<le> UINT32_MAX" for v
    using that h by (intro conserves_setHeader [OF l]) (auto simp: header_ok_def)
  have prep: "conserves l l2" if "conserves l l1" "prepareLiabilities l1 = Inr l2" for l1 l2
    using conserves_trans [OF that(1) conserves_moves [OF prepareLiabilities_moves [OF conserves_ok [OF that(1)] that(2)]]] .
  show ?thesis
  proof (cases u)
    case (LEDGER_UPGRADE_VERSION v)
    with u r new [of v] prep [OF new, of v l'] show ?thesis
      by (auto simp: applyUpgrade_def applyVersionUpgrade_def Let_def upgrade_ok_def split: if_split_asm)
  next
    case (LEDGER_UPGRADE_BASE_RESERVE v)
    with u r res [of v] prep [OF res, of v l'] show ?thesis
      by (auto simp: applyUpgrade_def applyReserveUpgrade_def Let_def upgrade_ok_def split: if_split_asm)
  qed (use r h in \<open>auto simp: applyUpgrade_def header_ok_def intro!: conserves_setHeader [OF l]\<close>)
qed

subsection \<open>Fees and transactions\<close>

definition txs_typed :: "TransactionFrame list \<Rightarrow> bool" where
  "txs_typed txs \<longleftrightarrow> list_all (\<lambda>tx. list_all (op_typed \<circ> op_body) (tx_operations (tf_tx tx))) txs"

definition ops_typed :: "TransactionFrame list \<Rightarrow> bool" where
  "ops_typed txs \<longleftrightarrow> list_all (\<lambda>tx. list_all (op_typed \<circ> op_body) (tf_operations tx)) txs"

lemma processFeesSeqNums_conserves:
  "\<lbrakk>ledger_ok l; txs_typed txs; processFeesSeqNums l txs = Inr (l', txs')\<rbrakk> \<Longrightarrow> conserves l l' \<and> ops_typed txs'"
proof (induction txs arbitrary: l txs')
  case Nil
  then show ?case by (simp add: conserves_refl ops_typed_def)
next
  case (Cons tx txs)
  from Cons.prems(3) obtain l1 tx' txs1 where p: "processFeeSeqNum l tx = Inr (l1, tx')"
    "processFeesSeqNums l1 txs = Inr (l', txs1)" "txs' = tx' # txs1"
    by (auto simp: bindE_def split: sum.split_asm prod.split_asm)
  note f = processFeeSeqNum_conserves [OF Cons.prems(1) p(1)]
  from Cons.IH [OF conserves_ok _ p(2), of l] f Cons.prems(2) have "conserves l1 l' \<and> ops_typed txs1"
    by (simp add: txs_typed_def)
  with f Cons.prems(2) p(3) conserves_trans [of l l1 l'] show ?case by (simp add: txs_typed_def ops_typed_def)
qed

lemma applyTransaction_conserves:
  assumes "ledger_ok l" "list_all (op_typed \<circ> op_body) (tf_operations tx)" "applyTransaction app l tx = Inr (l', tx')"
  shows "conserves l l'"
  using Transaction_apply_step [OF assms(1,2), of app] assms(3)
  by (auto simp: applyTransaction_def split: sum.split_asm prod.split_asm if_split_asm)

lemma applyTransactions_conserves:
  "\<lbrakk>ledger_ok l; ops_typed txs; applyTransactions app l txs = Inr (l', results)\<rbrakk>
   \<Longrightarrow> conserves l l' \<and> length results = length txs"
proof (induction txs arbitrary: l results)
  case Nil
  then show ?case by (simp add: conserves_refl)
next
  case (Cons tx txs)
  from Cons.prems(3) obtain l1 tx' rs where p: "applyTransaction app l tx = Inr (l1, tx')"
    "applyTransactions app l1 txs = Inr (l', rs)" "results = getResultPair app tx' # rs"
    by (auto simp: bindE_def split: sum.split_asm prod.split_asm)
  have c: "conserves l l1" using applyTransaction_conserves [OF Cons.prems(1) _ p(1)] Cons.prems(2) by (simp add: ops_typed_def)
  from Cons.IH [OF conserves_ok [OF c] _ p(2)] Cons.prems(2) have "conserves l1 l' \<and> length rs = length txs"
    by (simp add: ops_typed_def)
  with conserves_trans [OF c] p(3) show ?case by simp
qed

lemma applyUpgrades_conserves:
  "\<lbrakk>ledger_ok l; \<And>u lu. u \<in> set us \<Longrightarrow> unpack u = Some lu \<Longrightarrow> upgrade_ok lu; applyUpgrades unpack l us = Inr l'\<rbrakk>
   \<Longrightarrow> conserves l l'"
proof (induction us arbitrary: l)
  case Nil
  then show ?case by (simp add: conserves_refl)
next
  case (Cons u us)
  from Cons.prems(3) obtain lu where lu: "unpack u = Some lu" by (cases "unpack u") auto
  then have ok: "upgrade_ok lu" using Cons.prems(2) by auto
  show ?case
  proof (cases "applyUpgrade lu l")
    case (Inl e)
    with Cons.prems lu have "applyUpgrades unpack l us = Inr l'" by (simp split: if_split_asm)
    with Cons.IH [OF Cons.prems(1)] Cons.prems(2) show ?thesis by auto
  next
    case (Inr l1)
    have c: "conserves l l1" by (rule applyUpgrade_conserves [OF Cons.prems(1) ok Inr])
    from Inr Cons.prems(3) lu have "applyUpgrades unpack l1 us = Inr l'" by simp
    with Cons.IH [OF conserves_ok [OF c]] Cons.prems(2) conserves_trans [OF c] show ?thesis by auto
  qed
qed

subsection \<open>A ledger is closed\<close>

text \<open>What consensus lets through: operands within their XDR types, and valid upgrades.\<close>

definition closable :: "'b Node \<Rightarrow> LedgerCloseData \<Rightarrow> bool" where
  "closable nd lcd \<longleftrightarrow> txs_typed (xs_transactions (lcd_txSet lcd))
     \<and> list_all (\<lambda>u. case nd_unpackUpgrade nd u of None \<Rightarrow> True | Some lu \<Rightarrow> upgrade_ok lu) (sv_upgrades (lcd_value lcd))"

text \<open>The parts of a close.\<close>

lemma closeLedger_cases:
  assumes "closeLedger nd c lcd = Inr c'"
  obtains txSet l2 txs' l3 results l4 links where
    "getContentsHash (nd_hashes nd) (lcd_txSet lcd) = (sv_txSetHash (lcd_value lcd), txSet)"
    "previousHashOf lcd = he_hash (cn_lastClosed c)"
    "processFeesSeqNums (setCloseTime (startClose (cn_root c)) (sv_closeTime (lcd_value lcd)))
       (fst (sortForApply (nd_hashes nd) txSet)) = Inr (l2, txs')"
    "applyTransactions (nd_app nd) l2 txs' = Inr (l3, results)"
    "applyUpgrades (nd_unpackUpgrade nd) l3 (sv_upgrades (lcd_value lcd)) = Inr l4"
    "links = (cn_links c)\<lparr>hl_previousLedgerHash := he_hash (cn_lastClosed c), hl_scpValue := lcd_value lcd,
       hl_txSetResultHash := nd_resultHash nd results\<rparr>"
    "c' = ledgerClosed nd c l4 links"
  using assms by (auto simp: closeLedger_def Let_def bindE_def split: prod.split_asm if_split_asm sum.split_asm)

lemma getContentsHash_txs:
  "getContentsHash hs s = (h, s') \<Longrightarrow> mset (xs_transactions s') = mset (xs_transactions s)"
  by (auto simp: getContentsHash_def Let_def sortForHash_def split: option.split_asm)

lemma txs_typed_mset: "mset xs = mset ys \<Longrightarrow> txs_typed xs = txs_typed ys"
  using mset_eq_setD [of xs ys] by (simp add: txs_typed_def list_all_iff)

lemma ledgerClosed_simps [simp]:
  "cn_root (ledgerClosed nd c l links) = l"
  "cn_lastClosed (ledgerClosed nd c l links)
     = \<lparr>he_hash = nd_headerHash nd (fullHeader (ledgerClosed nd c l links)), he_header = fullHeader (ledgerClosed nd c l links)\<rparr>"
  "hl_previousLedgerHash (cn_links (ledgerClosed nd c l links)) = hl_previousLedgerHash links"
  "hl_scpValue (cn_links (ledgerClosed nd c l links)) = hl_scpValue links"
  by (simp_all add: ledgerClosed_def advanceLedgerPointers_def Let_def fullHeader_def snapshotLedger_def)

lemma startClose_ok:
  assumes "ledger_ok l"
  shows "ledger_ok (startClose l)" "surplus (startClose l) = surplus l"
    "lh_ledgerSeq (lg_header (startClose l)) = (lh_ledgerSeq (lg_header l) + 1) mod 2 ^ 32"
  using assms ledger_ok_header [OF assms]
  by (simp_all add: startClose_def ledger_ok_setHeader header_ok_def surplus_def)

text \<open>Fees and transactions of a close.\<close>

lemma closeTransactions_conserve:
  assumes l: "ledger_ok l" "txs_typed (xs_transactions s)"
    and h: "getContentsHash hs s = (hash, s')"
    and f: "processFeesSeqNums (setCloseTime (startClose l) t) (fst (sortForApply hs s')) = Inr (l2, txs')"
    and x: "applyTransactions app l2 txs' = Inr (l3, results)"
  shows "conserves (startClose l) l3"
proof -
  note start = startClose_ok [OF l(1)]
  let ?l1 = "setCloseTime (startClose l) t"
  have c1: "conserves (startClose l) ?l1"
    unfolding setCloseTime_def by (intro conserves_setHeader start)
      (use ledger_ok_header [OF start(1)] in \<open>simp_all add: header_ok_def\<close>)
  have "txs_typed (fst (sortForApply hs s'))"
    using txs_typed_mset [OF sortForApply_mset] txs_typed_mset [OF getContentsHash_txs [OF h]] l(2) by simp
  from processFeesSeqNums_conserves [OF conserves_ok [OF c1] this f]
  have c2: "conserves (startClose l) l2" and ty: "ops_typed txs'" using conserves_trans [OF c1] by auto
  from applyTransactions_conserves [OF conserves_ok [OF c2] ty x] show ?thesis using conserves_trans [OF c2] by auto
qed

text \<open>Closing a ledger keeps it well formed, creates and destroys no lumens, and raises its number by one.\<close>

lemma closeLedger_step:
  assumes l: "ledger_ok (cn_root c)" "closable nd lcd" and r: "closeLedger nd c lcd = Inr c'"
  shows "ledger_ok (cn_root c')" "surplus (cn_root c') = surplus (cn_root c)"
    "lh_ledgerSeq (lg_header (cn_root c')) = (lh_ledgerSeq (lg_header (cn_root c)) + 1) mod 2 ^ 32"
proof -
  note start = startClose_ok [OF l(1)]
  from r have "conserves (startClose (cn_root c)) (cn_root c')"
  proof (cases rule: closeLedger_cases)
    case (1 txSet l2 txs' l3 results l4 links)
    have c3: "conserves (startClose (cn_root c)) l3"
      by (rule closeTransactions_conserve [OF l(1) _ 1(1,3,4)]) (use l(2) in \<open>simp add: closable_def\<close>)
    have "upgrade_ok lu" if "u \<in> set (sv_upgrades (lcd_value lcd))" "nd_unpackUpgrade nd u = Some lu" for u lu
      using l(2) that by (auto simp: closable_def list_all_iff split: option.split_asm)
    from applyUpgrades_conserves [OF conserves_ok [OF c3] this 1(5)]
    show ?thesis using conserves_trans [OF c3] 1(7) by auto
  qed
  with start show "ledger_ok (cn_root c')" "surplus (cn_root c') = surplus (cn_root c)"
    "lh_ledgerSeq (lg_header (cn_root c')) = (lh_ledgerSeq (lg_header (cn_root c)) + 1) mod 2 ^ 32"
    by (simp_all add: conserves_def)
qed

text \<open>Closing one ledger after the other, with the headers that result.\<close>

fun closeLedgers :: "'b Node \<Rightarrow> 'b Chain \<Rightarrow> LedgerCloseData list \<Rightarrow> cpp_error + ('b Chain \<times> FullHeader list)" where
  "closeLedgers nd c [] = Inr (c, [])"
| "closeLedgers nd c (lcd # lcds) =
     bindE (closeLedger nd c lcd) (\<lambda>c1.
     bindE (closeLedgers nd c1 lcds) (\<lambda>(c2, hs).
     Inr (c2, he_header (cn_lastClosed c1) # hs)))"

fun linked :: "(FullHeader \<Rightarrow> uint256) \<Rightarrow> uint256 \<Rightarrow> FullHeader list \<Rightarrow> bool" where
  "linked hash prev [] = True"
| "linked hash prev (h # hs) \<longleftrightarrow> hl_previousLedgerHash (fh_links h) = prev \<and> linked hash (hash h) hs"

text \<open>The last closed ledger is the root, under its hash.\<close>

definition head_ok :: "'b Node \<Rightarrow> 'b Chain \<Rightarrow> bool" where
  "head_ok nd c \<longleftrightarrow> cn_lastClosed c = \<lparr>he_hash = nd_headerHash nd (fullHeader c), he_header = fullHeader c\<rparr>"

lemma closeLedger_head:
  assumes "closeLedger nd c lcd = Inr c'"
  shows "head_ok nd c'" "previousHashOf lcd = he_hash (cn_lastClosed c)"
    "hl_previousLedgerHash (fh_links (he_header (cn_lastClosed c'))) = he_hash (cn_lastClosed c)"
    "hl_scpValue (fh_links (he_header (cn_lastClosed c'))) = lcd_value lcd"
    "sv_txSetHash (lcd_value lcd) = fst (getContentsHash (nd_hashes nd) (lcd_txSet lcd))"
  using assms by (cases rule: closeLedger_cases; simp add: head_ok_def fullHeader_def)+

subsection \<open>From the genesis on\<close>

text \<open>A network starts in protocol 0, unless it is configured for a test, and reaches protocol 10 by an
  upgrade. What a ledger of any protocol needs to be well formed: all of \<^const>\<open>ledger_ok\<close> but the protocol.\<close>

definition founded :: "ledger \<Rightarrow> bool" where
  "founded l \<longleftrightarrow> 0 \<le> lh_baseReserve (lg_header l) \<and> lh_baseReserve (lg_header l) \<le> UINT32_MAX
     \<and> keyed l \<and> (\<forall>(k, e) \<in> set (lg_entries l). entry_ok e)"

lemma ledger_ok_founded: "ledger_ok l \<longleftrightarrow> founded l \<and> 10 \<le> lh_ledgerVersion (lg_header l)"
  by (auto simp: ledger_ok_def founded_def header_ok_def)

lemma founded_setHeader:
  "\<lbrakk>founded l; 0 \<le> lh_baseReserve h; lh_baseReserve h \<le> UINT32_MAX\<rbrakk> \<Longrightarrow> founded (setHeader l h)"
  by (simp add: founded_def setHeader_def keyed_def)

definition keepsLumens :: "ledger \<Rightarrow> ledger \<Rightarrow> bool" where
  "keepsLumens l l' \<longleftrightarrow> founded l' \<and> surplus l' = surplus l"

lemma keepsLumens_refl: "founded l \<Longrightarrow> keepsLumens l l"
  by (simp add: keepsLumens_def)

lemma keepsLumens_trans: "\<lbrakk>keepsLumens l l1; keepsLumens l1 l2\<rbrakk> \<Longrightarrow> keepsLumens l l2"
  by (simp add: keepsLumens_def)

lemma keepsLumens_conserves: "conserves l l' \<Longrightarrow> keepsLumens l l'"
  by (simp add: keepsLumens_def conserves_def ledger_ok_founded)

lemma keepsLumens_setHeader:
  assumes "founded l" "0 \<le> lh_baseReserve h" "lh_baseReserve h \<le> UINT32_MAX"
    "lh_totalCoins h = lh_totalCoins (lg_header l)" "lh_feePool h = lh_feePool (lg_header l)"
  shows "keepsLumens l (setHeader l h)"
  using assms by (simp add: keepsLumens_def surplus_def founded_setHeader)

lemma prepareLiabilities_keepsLumens:
  assumes "founded l" "10 \<le> lh_ledgerVersion (lg_header l)" "prepareLiabilities l = Inr l'"
  shows "keepsLumens l l'"
  using prepareLiabilities_moves [of l l'] assms by (simp add: ledger_ok_founded conserves_moves keepsLumens_conserves)

text \<open>An upgrade whose reserve is a \<^verbatim>\<open>uint32\<close>, to whatever protocol.\<close>

definition upgrade_typed :: "LedgerUpgrade \<Rightarrow> bool" where
  "upgrade_typed u = (case u of LEDGER_UPGRADE_BASE_RESERVE r \<Rightarrow> 0 \<le> r \<and> r \<le> UINT32_MAX | _ \<Rightarrow> True)"

lemma applyUpgrade_keepsLumens:
  assumes l: "founded l" and u: "upgrade_typed u" and r: "applyUpgrade u l = Inr l'"
  shows "keepsLumens l l'"
proof -
  have b: "0 \<le> lh_baseReserve (lg_header l)" "lh_baseReserve (lg_header l) \<le> UINT32_MAX"
    using l by (simp_all add: founded_def)
  have prep: "keepsLumens l l2" if "keepsLumens l l1" "10 \<le> lh_ledgerVersion (lg_header l1)" "prepareLiabilities l1 = Inr l2" for l1 l2
    using keepsLumens_trans [OF that(1) prepareLiabilities_keepsLumens [OF _ that(2,3)]] that(1) by (simp add: keepsLumens_def)
  show ?thesis
  proof (cases u)
    case (LEDGER_UPGRADE_VERSION v)
    let ?l1 = "setHeader l ((lg_header l)\<lparr>lh_ledgerVersion := v\<rparr>)"
    have "keepsLumens l ?l1" using b by (intro keepsLumens_setHeader [OF l]) simp_all
    with LEDGER_UPGRADE_VERSION r prep [of ?l1 l'] show ?thesis
      by (auto simp: applyUpgrade_def applyVersionUpgrade_def Let_def split: if_split_asm)
  next
    case (LEDGER_UPGRADE_BASE_RESERVE v)
    let ?l1 = "setHeader l ((lg_header l)\<lparr>lh_baseReserve := v\<rparr>)"
    have "keepsLumens l ?l1"
      using u LEDGER_UPGRADE_BASE_RESERVE by (intro keepsLumens_setHeader [OF l]) (simp_all add: upgrade_typed_def)
    with LEDGER_UPGRADE_BASE_RESERVE r prep [of ?l1 l'] show ?thesis
      by (auto simp: applyUpgrade_def applyReserveUpgrade_def Let_def split: if_split_asm)
  qed (use r b in \<open>auto simp: applyUpgrade_def intro!: keepsLumens_setHeader [OF l]\<close>)
qed

lemma applyUpgrades_keepsLumens:
  "\<lbrakk>founded l; \<And>u lu. u \<in> set us \<Longrightarrow> unpack u = Some lu \<Longrightarrow> upgrade_typed lu; applyUpgrades unpack l us = Inr l'\<rbrakk>
   \<Longrightarrow> keepsLumens l l'"
proof (induction us arbitrary: l)
  case Nil
  then show ?case by (simp add: keepsLumens_refl)
next
  case (Cons u us)
  from Cons.prems(3) obtain lu where lu: "unpack u = Some lu" by (cases "unpack u") auto
  show ?case
  proof (cases "applyUpgrade lu l")
    case (Inl e)
    with Cons.prems lu have "applyUpgrades unpack l us = Inr l'" by (simp split: if_split_asm)
    with Cons.IH [OF Cons.prems(1)] Cons.prems(2) show ?thesis by auto
  next
    case (Inr l1)
    have k: "keepsLumens l l1" using applyUpgrade_keepsLumens [OF Cons.prems(1) _ Inr] Cons.prems(2) lu by auto
    from Inr Cons.prems(3) lu have "applyUpgrades unpack l1 us = Inr l'" by simp
    with Cons.IH [of l1] k Cons.prems(2) keepsLumens_trans [OF k] show ?thesis by (auto simp: keepsLumens_def)
  qed
qed

text \<open>What consensus agrees on, within the types of XDR; and that a ledger of a protocol before 10 is
  closed without transactions, as in a network that adopts the current protocol when it starts.\<close>

definition agreed :: "'b Node \<Rightarrow> LedgerCloseData \<Rightarrow> bool" where
  "agreed nd lcd \<longleftrightarrow> txs_typed (xs_transactions (lcd_txSet lcd))
     \<and> list_all (\<lambda>u. case nd_unpackUpgrade nd u of None \<Rightarrow> True | Some lu \<Rightarrow> upgrade_typed lu) (sv_upgrades (lcd_value lcd))"

fun agreedFrom :: "'b Node \<Rightarrow> 'b Chain \<Rightarrow> LedgerCloseData list \<Rightarrow> bool" where
  "agreedFrom nd c [] = True"
| "agreedFrom nd c (lcd # lcds) \<longleftrightarrow> agreed nd lcd
     \<and> (lh_ledgerVersion (lg_header (cn_root c)) < 10 \<longrightarrow> xs_transactions (lcd_txSet lcd) = [])
     \<and> (case closeLedger nd c lcd of Inl _ \<Rightarrow> True | Inr c1 \<Rightarrow> agreedFrom nd c1 lcds)"

lemma startClose_keepsLumens: "founded l \<Longrightarrow> keepsLumens l (setCloseTime (startClose l) t)"
  using keepsLumens_setHeader [of l "(lg_header l)\<lparr>lh_ledgerSeq := (lh_ledgerSeq (lg_header l) + 1) mod 2 ^ 32, lh_closeTime := t\<rparr>"]
  by (simp add: setCloseTime_def startClose_def setHeader_def founded_def)

lemma closeLedger_keepsLumens:
  assumes l: "founded (cn_root c)" and a: "agreed nd lcd"
    and e: "lh_ledgerVersion (lg_header (cn_root c)) < 10 \<longrightarrow> xs_transactions (lcd_txSet lcd) = []"
    and r: "closeLedger nd c lcd = Inr c'"
  shows "keepsLumens (cn_root c) (cn_root c')"
  using r
proof (cases rule: closeLedger_cases)
  case (1 txSet l2 txs' l3 results l4 links)
  have "keepsLumens (cn_root c) l3"
  proof (cases "10 \<le> lh_ledgerVersion (lg_header (cn_root c))")
    case True
    with l have ok: "ledger_ok (cn_root c)" by (simp add: ledger_ok_founded)
    from closeTransactions_conserve [OF ok _ 1(1,3,4)] a startClose_ok(2) [OF ok] show ?thesis
      by (simp add: agreed_def keepsLumens_def conserves_def ledger_ok_founded)
  next
    case False
    with e getContentsHash_txs [OF 1(1)] sortForApply_mset [of "nd_hashes nd" txSet]
    have "fst (sortForApply (nd_hashes nd) txSet) = []" by simp
    with 1(3,4) have "l3 = setCloseTime (startClose (cn_root c)) (sv_closeTime (lcd_value lcd))" by auto
    with startClose_keepsLumens [OF l] show ?thesis by simp
  qed
  moreover have "upgrade_typed lu" if "u \<in> set (sv_upgrades (lcd_value lcd))" "nd_unpackUpgrade nd u = Some lu" for u lu
    using a that by (auto simp: agreed_def list_all_iff split: option.split_asm)
  moreover have "cn_root c' = l4" using 1(7) by simp
  ultimately show ?thesis
    using applyUpgrades_keepsLumens [OF _ _ 1(5)] keepsLumens_trans [of "cn_root c" l3 l4] by (auto simp: keepsLumens_def)
qed

lemma closeLedgers_keepsLumens:
  "\<lbrakk>founded (cn_root c); agreedFrom nd c lcds; closeLedgers nd c lcds = Inr (c', hs)\<rbrakk>
   \<Longrightarrow> keepsLumens (cn_root c) (cn_root c')"
proof (induction lcds arbitrary: c hs)
  case Nil
  then show ?case by (simp add: keepsLumens_refl)
next
  case (Cons lcd lcds)
  from Cons.prems(3) obtain c1 hs1 where r: "closeLedger nd c lcd = Inr c1" "closeLedgers nd c1 lcds = Inr (c', hs1)"
    by (auto simp: bindE_def split: sum.split_asm prod.split_asm)
  with Cons.prems(2) have k: "keepsLumens (cn_root c) (cn_root c1)" "agreedFrom nd c1 lcds"
    using closeLedger_keepsLumens [OF Cons.prems(1) _ _ r(1)] by auto
  from Cons.IH [OF _ k(2) r(2)] k(1) keepsLumens_trans show ?case by (auto simp: keepsLumens_def)
qed

text \<open>Either genesis: the one of production and the one that a configuration sets up.\<close>

abbreviation genesis_typed :: "GenesisConfig option \<Rightarrow> bool" where
  "genesis_typed cfg \<equiv> (case cfg of None \<Rightarrow> True | Some g \<Rightarrow> 0 \<le> gc_reserve g \<and> gc_reserve g \<le> UINT32_MAX)"

lemma startNewLedger_founded:
  assumes "startNewLedger nd bl a cfg = Inr c" "genesis_typed cfg"
  shows "founded (cn_root c)" "surplus (cn_root c) = 0" "head_ok nd c"
    "lg_header (cn_root c) = configuredGenesis cfg"
proof -
  let ?h = "configuredGenesis cfg"
  let ?e = "\<lparr>lg_header = ?h, lg_entries = []\<rparr>" and ?a = "rootAccountEntry a (lh_totalCoins ?h)"
  from assms(1) obtain l where l: "create ?e (ACCOUNT ?a) = Inr l" "c = ledgerClosed nd
      \<lparr>cn_root = ?e, cn_links = emptyLinks, cn_bucketList = bl,
       cn_lastClosed = \<lparr>he_hash = 0, he_header = \<lparr>fh_header = ?h, fh_links = emptyLinks\<rparr>\<rparr>\<rparr> l emptyLinks"
    by (auto simp: startNewLedger_def Let_def bindE_def split: sum.split_asm)
  then have root: "cn_root c = \<lparr>lg_header = ?h, lg_entries = [(AccountKey a, ACCOUNT ?a)]\<rparr>"
    by (auto simp: create_def store_def load_def rootAccountEntry_def split: if_split_asm)
  have coins: "lh_totalCoins ?h = GENESIS_LEDGER_TOTAL_COINS" "lh_feePool ?h = 0"
    by (simp_all add: configuredGenesis_def genesisLedger_def split: option.split)
  have "account_ok ?a"
    by (simp add: account_ok_def rootAccountEntry_def coins GENESIS_LEDGER_TOTAL_COINS_def ext_buying_def ext_selling_def)
  moreover have "0 \<le> lh_baseReserve ?h" "lh_baseReserve ?h \<le> UINT32_MAX"
    using assms(2) by (auto simp: configuredGenesis_def genesisLedger_def split: option.split_asm)
  ultimately show "founded (cn_root c)" by (simp add: founded_def root keyed_def) (simp add: rootAccountEntry_def)
  show "surplus (cn_root c) = 0" by (simp add: surplus_def root native_total_def coins) (simp add: rootAccountEntry_def)
  show "head_ok nd c" using l(2) by (simp add: head_ok_def)
  show "lg_header (cn_root c) = configuredGenesis cfg" by (simp add: root)
qed

lemma startNewLedger_ok:
  assumes "startNewLedger nd bl a (Some g) = Inr c" "10 \<le> gc_protocolVersion g" "0 \<le> gc_reserve g" "gc_reserve g \<le> UINT32_MAX"
  shows "ledger_ok (cn_root c)" "surplus (cn_root c) = 0" "head_ok nd c"
  using startNewLedger_founded [OF assms(1)] assms(2-4) by (simp_all add: ledger_ok_founded configuredGenesis_def)

text \<open>C4. From the genesis of a network on, the one of production in protocol 0 as well as a configured
  one, in every ledger that a chain of closes reaches the coins that exist are exactly those in the
  accounts and in the fee pool, and the ledger is well formed: fees, transactions that succeed, fail
  or throw, inflation and upgrades to any protocol and reserve included. The ledgers closed in a
  protocol before 10 are taken to be without transactions: that transactions conserve lumens is shown
  from protocol 10 on.\<close>

theorem lumens_accounted:
  assumes "startNewLedger nd bl a cfg = Inr c" "genesis_typed cfg"
    and "agreedFrom nd c lcds" "closeLedgers nd c lcds = Inr (c', hs)"
  shows "lh_totalCoins (lg_header (cn_root c')) = lh_feePool (lg_header (cn_root c')) + native_total (cn_root c')
    \<and> founded (cn_root c') \<and> (10 \<le> lh_ledgerVersion (lg_header (cn_root c')) \<longrightarrow> ledger_ok (cn_root c'))"
  using closeLedgers_keepsLumens [OF startNewLedger_founded(1) [OF assms(1,2)] assms(3,4)]
    startNewLedger_founded(2) [OF assms(1,2)]
  by (simp add: keepsLumens_def surplus_def ledger_ok_founded)

lemma seq_mod: "((x + 1) mod m + int j + 1) mod m = (x + (1 + int j) + 1) mod (m :: int)"
proof -
  have "((x + 1) mod m + (int j + 1)) mod m = (x + 1 + (int j + 1)) mod m" by (rule mod_add_left_eq)
  then show ?thesis by (simp add: algebra_simps)
qed

text \<open>C5. The headers of the ledgers that are closed form a chain: each holds the hash of the one before,
  starting from the last closed ledger, and the value that consensus agreed on, whose transaction set is
  the one that was applied; and each has the next sequence number.\<close>

theorem headers_linked:
  assumes "closeLedgers nd c lcds = Inr (c', hs)" "head_ok nd c" "ledger_ok (cn_root c)" "list_all (closable nd) lcds"
  shows "linked (nd_headerHash nd) (he_hash (cn_lastClosed c)) hs
    \<and> map (\<lambda>h. hl_scpValue (fh_links h)) hs = map lcd_value lcds
    \<and> map (\<lambda>lcd. sv_txSetHash (lcd_value lcd)) lcds = map (\<lambda>lcd. fst (getContentsHash (nd_hashes nd) (lcd_txSet lcd))) lcds
    \<and> (\<forall>i < length hs. lh_ledgerSeq (fh_header (hs ! i)) = (lh_ledgerSeq (lg_header (cn_root c)) + int i + 1) mod 2 ^ 32)"
  using assms
proof (induction lcds arbitrary: c hs)
  case (Cons lcd lcds)
  from Cons.prems(1) obtain c1 hs1 where r: "closeLedger nd c lcd = Inr c1" "closeLedgers nd c1 lcds = Inr (c', hs1)"
    "hs = he_header (cn_lastClosed c1) # hs1"
    by (auto simp: bindE_def split: sum.split_asm prod.split_asm)
  note h = closeLedger_head [OF r(1)]
  have cl: "closable nd lcd" "list_all (closable nd) lcds" using Cons.prems(4) by simp_all
  note s = closeLedger_step [OF Cons.prems(3) cl(1) r(1)]
  have hash: "he_hash (cn_lastClosed c1) = nd_headerHash nd (he_header (cn_lastClosed c1))"
    and seq: "lh_ledgerSeq (fh_header (he_header (cn_lastClosed c1))) = lh_ledgerSeq (lg_header (cn_root c1))"
    using h(1) by (simp_all add: head_ok_def fullHeader_def)
  note ih = Cons.IH [OF r(2) h(1) s(1) cl(2)]
  have "lh_ledgerSeq (fh_header (hs ! i)) = (lh_ledgerSeq (lg_header (cn_root c)) + int i + 1) mod 2 ^ 32"
    if "i < length hs" for i
  proof (cases i)
    case 0
    then show ?thesis using r(3) seq s(3) by simp
  next
    case (Suc j)
    with that r(3) ih have "lh_ledgerSeq (fh_header (hs ! i))
        = ((lh_ledgerSeq (lg_header (cn_root c)) + 1) mod 2 ^ 32 + int j + 1) mod 2 ^ 32"
      by (simp add: s(3))
    also have "\<dots> = (lh_ledgerSeq (lg_header (cn_root c)) + int i + 1) mod 2 ^ 32"
      using seq_mod [of "lh_ledgerSeq (lg_header (cn_root c))" "2 ^ 32" j] by (simp add: Suc)
    finally show ?thesis .
  qed
  with ih h r(3) hash show ?case by simp
qed simp

subsection \<open>Instances\<close>

text \<open>A network with one account. The second ledger has a payment, which is charged and not applied for
  want of a pre-authorisation, and an upgrade of the base fee; the third is empty.\<close>

definition ex_node :: "nat Node" where
  "ex_node = \<lparr>nd_app = ex_app, nd_hashes = ex_hashes, nd_headerHash = (\<lambda>h. of_int (lh_ledgerSeq (fh_header h))),
     nd_resultHash = (\<lambda>rs. of_nat (length rs)),
     nd_unpackUpgrade = (\<lambda>u. if u = [1] then Some (LEDGER_UPGRADE_BASE_FEE 200) else None),
     nd_addBatch = (\<lambda>b l l'. Suc b), nd_bucketHash = of_nat\<rparr>"

definition ex_genesis :: GenesisConfig where
  "ex_genesis = \<lparr>gc_protocolVersion = 10, gc_desiredFee = 100, gc_reserve = 100, gc_maxTxPerLedger = 50\<rparr>"

definition ex_close :: "int \<Rightarrow> TransactionFrame list \<Rightarrow> UpgradeType list \<Rightarrow> LedgerCloseData" where
  "ex_close seq txs us = \<lparr>lcd_ledgerSeq = seq,
     lcd_txSet = \<lparr>xs_previousLedgerHash = of_int (seq - 1), xs_transactions = txs, xs_hash = None\<rparr>,
     lcd_value = \<lparr>sv_txSetHash = 5, sv_closeTime = seq, sv_upgrades = us\<rparr>\<rparr>"

definition ex_closes :: "LedgerCloseData list" where
  "ex_closes = [ex_close 2 [ex_payment 70 []] [[1]], ex_close 3 [] []]"

lemma ex_closes_run:
  "case startNewLedger ex_node 0 1 (Some ex_genesis) of Inl _ \<Rightarrow> False
   | Inr c \<Rightarrow> (case closeLedgers ex_node c ex_closes of Inl _ \<Rightarrow> False
       | Inr (c', hs) \<Rightarrow> length hs = 2 \<and> lh_feePool (lg_header (cn_root c')) = 100 \<and> he_hash (cn_lastClosed c) = 1)"
  by code_simp

lemma ex_closes_closable: "list_all (closable ex_node) ex_closes"
  by (simp add: ex_closes_def ex_close_def closable_def txs_typed_def op_typed_def ex_payment_def resetResults_def
      makeTransactionFromWire_def ex_node_def upgrade_ok_def)

lemma ex_closes_result:
  obtains c c' hs where "startNewLedger ex_node 0 1 (Some ex_genesis) = Inr c"
    "closeLedgers ex_node c ex_closes = Inr (c', hs)" "length hs = 2"
    "lh_feePool (lg_header (cn_root c')) = 100" "he_hash (cn_lastClosed c) = 1"
  using ex_closes_run by (auto split: sum.split_asm)

lemma ex_genesis_ok: "10 \<le> gc_protocolVersion ex_genesis" "0 \<le> gc_reserve ex_genesis" "gc_reserve ex_genesis \<le> UINT32_MAX"
  by (simp_all add: ex_genesis_def)

text \<open>The production genesis: the second ledger adopts protocol 10, the third has the payment and the
  upgrade of the base fee.\<close>

definition ex_upgrader :: "nat Node" where
  "ex_upgrader = ex_node\<lparr>nd_unpackUpgrade := (\<lambda>u. if u = [1] then Some (LEDGER_UPGRADE_BASE_FEE 200)
     else if u = [2] then Some (LEDGER_UPGRADE_VERSION 10) else None)\<rparr>"

definition ex_start :: "LedgerCloseData list" where
  "ex_start = [ex_close 2 [] [[2]], ex_close 3 [ex_payment 70 []] [[1]]]"

lemma ex_start_run:
  "case startNewLedger ex_upgrader 0 1 None of Inl _ \<Rightarrow> False
   | Inr c \<Rightarrow> agreedFrom ex_upgrader c ex_start \<and> (case closeLedgers ex_upgrader c ex_start of Inl _ \<Rightarrow> False
       | Inr (c', hs) \<Rightarrow> lh_ledgerVersion (lg_header (cn_root c)) = 0 \<and> lh_ledgerVersion (lg_header (cn_root c')) = 10
           \<and> lh_feePool (lg_header (cn_root c')) = 100)"
  by code_simp

theorem lumens_accounted_witness:
  "\<exists>c c' hs. startNewLedger ex_upgrader 0 1 None = Inr c \<and> lh_ledgerVersion (lg_header (cn_root c)) = 0
     \<and> closeLedgers ex_upgrader c ex_start = Inr (c', hs) \<and> ledger_ok (cn_root c')
     \<and> lh_totalCoins (lg_header (cn_root c')) = 100 + native_total (cn_root c')"
proof -
  obtain c c' hs where r: "startNewLedger ex_upgrader 0 1 None = Inr c" "agreedFrom ex_upgrader c ex_start"
    "closeLedgers ex_upgrader c ex_start = Inr (c', hs)" "lh_ledgerVersion (lg_header (cn_root c)) = 0"
    "lh_ledgerVersion (lg_header (cn_root c')) = 10" "lh_feePool (lg_header (cn_root c')) = 100"
    using ex_start_run by (auto split: sum.split_asm)
  from lumens_accounted [OF r(1) _ r(2,3)] r show ?thesis by auto
qed

theorem headers_linked_witness:
  "\<exists>c c' h2 h3. startNewLedger ex_node 0 1 (Some ex_genesis) = Inr c \<and> closeLedgers ex_node c ex_closes = Inr (c', [h2, h3])
     \<and> hl_previousLedgerHash (fh_links h2) = 1 \<and> hl_previousLedgerHash (fh_links h3) = nd_headerHash ex_node h2"
proof -
  obtain c c' hs where r: "startNewLedger ex_node 0 1 (Some ex_genesis) = Inr c"
    "closeLedgers ex_node c ex_closes = Inr (c', hs)" "length hs = 2" "he_hash (cn_lastClosed c) = 1"
    using ex_closes_result by metis
  from r(3) obtain h2 h3 where hs: "hs = [h2, h3]" by (auto simp: length_Suc_conv numeral_2_eq_2)
  note g = startNewLedger_ok [OF r(1) ex_genesis_ok]
  from headers_linked [OF r(2) g(3,1) ex_closes_closable] r hs show ?thesis by auto
qed

end
