(* ===== verification/Replay_Chain.thy ===== *)
theory Replay_Chain
  imports Verify_Chain Ledger_Chain
begin

section \<open>Replaying an archive (src/src/catchup/ApplyLedgerChainWork.cpp)\<close>

text \<open>
  After the headers of an archive are verified, the transactions between the last closed ledger and the
  end of the range are applied with \<^verbatim>\<open>closeLedger\<close>, ledger by ledger, and each header that results is
  compared with the archive's. A failure may come after the ledger was closed, so a step returns its
  outcome beside the state it leaves. Whether a failed work is tried again is the scheduler's decision.
\<close>

record TransactionHistoryEntry =
  th_ledgerSeq :: int
  th_txSet :: TransactionSet

record ApplyLedgerChainWork =
  aw_range :: LedgerRange
  aw_currSeq :: int
  aw_hdrIn :: "LedgerHeaderHistoryEntry XDRFile"
  aw_txIn :: "TransactionHistoryEntry XDRFile"
  aw_txHistoryEntry :: TransactionHistoryEntry
  aw_lastApplied :: LedgerHeaderHistoryEntry

record HistoryFiles =
  hf_headers :: "LedgerHeaderHistoryEntry Archive"
  hf_transactions :: "TransactionHistoryEntry Archive"

definition emptyTransactionHistoryEntry :: TransactionHistoryEntry where
  "emptyTransactionHistoryEntry = \<lparr>th_ledgerSeq = 0, th_txSet = \<lparr>xdr_previousLedgerHash = 0, xdr_txs = []\<rparr>\<rparr>"

definition closedFile :: "'a XDRFile" where
  "closedFile = \<lparr>xf_records = [], xf_malformed = False\<rparr>"

definition onResetApply ::
    "HistoryManager \<Rightarrow> LedgerRange \<Rightarrow> LedgerHeaderHistoryEntry \<Rightarrow> ApplyLedgerChainWork" where
  "onResetApply hm rng lcl = \<lparr>aw_range = rng, aw_currSeq = checkpointContainingLedger hm (lr_first rng),
     aw_hdrIn = closedFile, aw_txIn = closedFile, aw_txHistoryEntry = emptyTransactionHistoryEntry, aw_lastApplied = lcl\<rparr>"

definition openCurrentInputFiles :: "HistoryFiles \<Rightarrow> ApplyLedgerChainWork \<Rightarrow> cpp_error + ApplyLedgerChainWork" where
  "openCurrentInputFiles files w =
     (case (hf_headers files (aw_currSeq w), hf_transactions files (aw_currSeq w)) of
        (Some hi, Some ti) \<Rightarrow> Inr (w\<lparr>aw_hdrIn := hi, aw_txIn := ti, aw_txHistoryEntry := emptyTransactionHistoryEntry\<rparr>)
      | _ \<Rightarrow> Inl (RuntimeError ''failed to open XDR file''))"

subsection \<open>One ledger\<close>

text \<open>The transaction set of a ledger, from the entry that was read last and those after it.\<close>

fun findTxSet ::
    "int \<Rightarrow> bool \<Rightarrow> TransactionHistoryEntry \<Rightarrow> TransactionHistoryEntry list
       \<Rightarrow> cpp_error + (TransactionSet option \<times> TransactionHistoryEntry \<times> TransactionHistoryEntry list)" where
  "findTxSet seq malformed e [] =
     (if th_ledgerSeq e = seq then Inr (Some (th_txSet e), e, [])
      else if th_ledgerSeq e > seq then Inr (None, e, [])
      else if malformed then Inl (RuntimeError ''malformed XDR file'') else Inr (None, e, []))"
| "findTxSet seq malformed e (e' # rest) =
     (if th_ledgerSeq e = seq then Inr (Some (th_txSet e), e, e' # rest)
      else if th_ledgerSeq e > seq then Inr (None, e, e' # rest)
      else findTxSet seq malformed e' rest)"

definition getCurrentTxSet :: "'b Chain \<Rightarrow> ApplyLedgerChainWork \<Rightarrow> cpp_error + (TxSetFrame \<times> ApplyLedgerChainWork)" where
  "getCurrentTxSet c w =
     bindE (findTxSet ((lcl_seq c + 1) mod 2 ^ 32) (xf_malformed (aw_txIn w)) (aw_txHistoryEntry w) (xf_records (aw_txIn w)))
       (\<lambda>(found, e, rest).
     let w' = w\<lparr>aw_txHistoryEntry := e, aw_txIn := (aw_txIn w)\<lparr>xf_records := rest\<rparr>\<rparr> in
     Inr (case found of Some xdr \<Rightarrow> txSetFromWire xdr | None \<Rightarrow> emptyTxSet (he_hash (cn_lastClosed c)), w'))"

definition applyHistoryOfSingleLedger ::
    "'b Node \<Rightarrow> 'b Chain \<Rightarrow> ApplyLedgerChainWork \<Rightarrow> (cpp_error + bool) \<times> 'b Chain \<times> ApplyLedgerChainWork" where
  "applyHistoryOfSingleLedger nd c w =
     (case xf_records (aw_hdrIn w) of
        [] \<Rightarrow> if xf_malformed (aw_hdrIn w) then (Inl (RuntimeError ''malformed XDR file''), c, w) else (Inr False, c, w)
      | hHeader # rest \<Rightarrow>
          let w1 = w\<lparr>aw_hdrIn := (aw_hdrIn w)\<lparr>xf_records := rest\<rparr>\<rparr>;
              seq = he_seq hHeader;
              value = hl_scpValue (fh_links (he_header hHeader))
          in
          if (seq + 1) mod 2 ^ 32 < lcl_seq c then (Inr True, c, w1)
          else if (seq + 1) mod 2 ^ 32 = lcl_seq c then
            if he_hash hHeader \<noteq> he_prev (cn_lastClosed c) then (Inl (RuntimeError ''failed to connect''), c, w1)
            else (Inr True, c, w1)
          else if seq = lcl_seq c then
            if he_hash hHeader \<noteq> he_hash (cn_lastClosed c) then (Inl (RuntimeError ''disagreed on hash''), c, w1)
            else (Inr True, c, w1)
          else if seq \<noteq> (lcl_seq c + 1) mod 2 ^ 32 then (Inl (RuntimeError ''replay overshot current ledger''), c, w1)
          else if he_prev hHeader \<noteq> he_hash (cn_lastClosed c) then (Inl (RuntimeError ''disagreed on LCL hash''), c, w1)
          else case getCurrentTxSet c w1 of
            Inl e \<Rightarrow> (Inl e, c, w1)
          | Inr (txset, w2) \<Rightarrow>
              let (contentsHash, txset') = getContentsHash (nd_hashes nd) txset in
              if sv_txSetHash value \<noteq> contentsHash then (Inl (RuntimeError ''replay txset hash differs''), c, w2)
              else case bindE (makeLedgerCloseData (nd_hashes nd) seq txset' value) (closeLedger nd c) of
                Inl e \<Rightarrow> (Inl e, c, w2)
              | Inr c' \<Rightarrow>
                  if he_hash (cn_lastClosed c') \<noteq> he_hash hHeader
                  then (Inl (RuntimeError ''mismatched ledger hash''), c', w2)
                  else (Inr True, c', w2\<lparr>aw_lastApplied := hHeader\<rparr>))"

subsection \<open>The work\<close>

text \<open>What \<^verbatim>\<open>onRun\<close> catches is a \<^verbatim>\<open>std::runtime_error\<close>.\<close>

definition isRuntimeError :: "cpp_error \<Rightarrow> bool" where
  "isRuntimeError e = (case e of RuntimeError _ \<Rightarrow> True | OverflowError \<Rightarrow> True | _ \<Rightarrow> False)"

definition onRunApply ::
    "'b Node \<Rightarrow> HistoryManager \<Rightarrow> HistoryFiles \<Rightarrow> 'b Chain \<Rightarrow> ApplyLedgerChainWork
       \<Rightarrow> (cpp_error + unit) \<times> 'b Chain \<times> ApplyLedgerChainWork" where
  "onRunApply nd hm files c w =
     (case applyHistoryOfSingleLedger nd c w of
        (Inl e, c1, w1) \<Rightarrow> (Inl e, c1, w1)
      | (Inr True, c1, w1) \<Rightarrow> (Inr (), c1, w1)
      | (Inr False, c1, w1) \<Rightarrow>
          let w2 = w1\<lparr>aw_currSeq := (aw_currSeq w1 + getCheckpointFrequency hm) mod 2 ^ 32\<rparr> in
          (case openCurrentInputFiles files w2 of
             Inl e \<Rightarrow> (Inl e, c1, w2)
           | Inr w3 \<Rightarrow> (Inr (), c1, w3)))"

definition onSuccessApply :: "'b Chain \<Rightarrow> ApplyLedgerChainWork \<Rightarrow> WorkState" where
  "onSuccessApply c w = (if lcl_seq c = lr_last (aw_range w) then WORK_SUCCESS else WORK_RUNNING)"

fun runApply ::
    "nat \<Rightarrow> 'b Node \<Rightarrow> HistoryManager \<Rightarrow> HistoryFiles \<Rightarrow> 'b Chain \<Rightarrow> ApplyLedgerChainWork
       \<Rightarrow> (cpp_error + WorkState) \<times> 'b Chain \<times> ApplyLedgerChainWork" where
  "runApply 0 nd hm files c w = (Inl NoReturn, c, w)"
| "runApply (Suc fuel) nd hm files c w =
     (case onRunApply nd hm files c w of
        (Inl e, c1, w1) \<Rightarrow> (if isRuntimeError e then Inr WORK_FAILURE_RETRY else Inl e, c1, w1)
      | (Inr _, c1, w1) \<Rightarrow>
          if onSuccessApply c1 w1 = WORK_RUNNING then runApply fuel nd hm files c1 w1
          else (Inr (onSuccessApply c1 w1), c1, w1))"

text \<open>The work from its start. A run reads a record or opens the next of the files, so as many runs as there
  are records and files are enough.\<close>

fun recordsFrom :: "HistoryFiles \<Rightarrow> int \<Rightarrow> int \<Rightarrow> nat \<Rightarrow> nat" where
  "recordsFrom files freq k 0 = 0"
| "recordsFrom files freq k (Suc m) =
     Suc (case hf_headers files k of None \<Rightarrow> 0 | Some f \<Rightarrow> length (xf_records f)) + recordsFrom files freq (k + freq) m"

definition applyTransactionsWork ::
    "nat \<Rightarrow> 'b Node \<Rightarrow> HistoryManager \<Rightarrow> HistoryFiles \<Rightarrow> LedgerRange \<Rightarrow> 'b Chain
       \<Rightarrow> (cpp_error + WorkState) \<times> 'b Chain \<times> ApplyLedgerChainWork" where
  "applyTransactionsWork fuel nd hm files rng c =
     (let w = onResetApply hm rng (cn_lastClosed c) in
      case openCurrentInputFiles files w of
        Inl e \<Rightarrow> (Inl e, c, w)
      | Inr w1 \<Rightarrow> runApply fuel nd hm files c w1)"

subsection \<open>What a replay reaches\<close>

text \<open>What was downloaded has the ranges of its XDR types.\<close>

definition replayable :: "'b Node \<Rightarrow> HistoryFiles \<Rightarrow> bool" where
  "replayable nd files \<longleftrightarrow>
     (\<forall>k f e. hf_headers files k = Some f \<and> e \<in> set (xf_records f) \<longrightarrow>
        list_all (\<lambda>u. case nd_unpackUpgrade nd u of None \<Rightarrow> True | Some lu \<Rightarrow> upgrade_ok lu)
          (sv_upgrades (hl_scpValue (fh_links (he_header e)))))
   \<and> (\<forall>k f e. hf_transactions files k = Some f \<and> e \<in> set (xf_records f) \<longrightarrow>
        txs_typed (xs_transactions (txSetFromWire (th_txSet e))))"

definition setTyped :: "TransactionHistoryEntry \<Rightarrow> bool" where
  "setTyped e \<longleftrightarrow> txs_typed (xs_transactions (txSetFromWire (th_txSet e)))"

lemma emptySet_typed [simp]: "setTyped emptyTransactionHistoryEntry"
  by (simp add: setTyped_def emptyTransactionHistoryEntry_def txSetFromWire_def txs_typed_def)

lemma findTxSet_typed:
  "\<lbrakk>findTxSet seq m e es = Inr (found, e', rest); setTyped e; list_all setTyped es\<rbrakk>
   \<Longrightarrow> setTyped e' \<and> list_all setTyped rest
     \<and> (\<forall>xdr. found = Some xdr \<longrightarrow> txs_typed (xs_transactions (txSetFromWire xdr)))"
  by (induction seq m e es rule: findTxSet.induct) (auto simp: setTyped_def split: if_split_asm)

definition valueTyped :: "'b Node \<Rightarrow> LedgerHeaderHistoryEntry \<Rightarrow> bool" where
  "valueTyped nd e \<longleftrightarrow> list_all (\<lambda>u. case nd_unpackUpgrade nd u of None \<Rightarrow> True | Some lu \<Rightarrow> upgrade_ok lu)
     (sv_upgrades (hl_scpValue (fh_links (he_header e))))"

text \<open>The state of a replay before it reaches the end.\<close>

definition replaying :: "'b Node \<Rightarrow> int \<Rightarrow> uint256 \<Rightarrow> 'b Chain \<Rightarrow> ApplyLedgerChainWork \<Rightarrow> bool" where
  "replaying nd n h c w \<longleftrightarrow> ledger_ok (cn_root c) \<and> head_ok nd c \<and> 0 \<le> lcl_seq c \<and> lcl_seq c < n
     \<and> lr_last (aw_range w) = n
     \<and> (\<forall>e \<in> set (readUpTo n (xf_records (aw_hdrIn w))). vouched (nd_headerHash nd) (n, Some h) e)
     \<and> list_all (valueTyped nd) (xf_records (aw_hdrIn w))
     \<and> setTyped (aw_txHistoryEntry w) \<and> list_all setTyped (xf_records (aw_txIn w))"

definition replayed :: "int \<Rightarrow> uint256 \<Rightarrow> 'b Chain \<Rightarrow> 'b Chain \<Rightarrow> bool" where
  "replayed n h c c' \<longleftrightarrow> lcl_seq c' = n \<and> he_hash (cn_lastClosed c') = h \<and> ledger_ok (cn_root c')
     \<and> surplus (cn_root c') = surplus (cn_root c)"

lemma getCurrentTxSet_typed:
  assumes "getCurrentTxSet c w = Inr (txset, w')" "setTyped (aw_txHistoryEntry w)" "list_all setTyped (xf_records (aw_txIn w))"
  shows "txs_typed (xs_transactions txset)" "setTyped (aw_txHistoryEntry w')" "list_all setTyped (xf_records (aw_txIn w'))"
    "aw_hdrIn w' = aw_hdrIn w" "aw_range w' = aw_range w" "aw_currSeq w' = aw_currSeq w"
proof -
  from assms(1) obtain found e rest where f:
    "findTxSet ((lcl_seq c + 1) mod 2 ^ 32) (xf_malformed (aw_txIn w)) (aw_txHistoryEntry w) (xf_records (aw_txIn w))
       = Inr (found, e, rest)"
    "txset = (case found of Some xdr \<Rightarrow> txSetFromWire xdr | None \<Rightarrow> emptyTxSet (he_hash (cn_lastClosed c)))"
    "w' = w\<lparr>aw_txHistoryEntry := e, aw_txIn := (aw_txIn w)\<lparr>xf_records := rest\<rparr>\<rparr>"
    by (auto simp: getCurrentTxSet_def Let_def)
  from findTxSet_typed [OF f(1) assms(2,3)] f(2,3)
  show "txs_typed (xs_transactions txset)" "setTyped (aw_txHistoryEntry w')" "list_all setTyped (xf_records (aw_txIn w'))"
    "aw_hdrIn w' = aw_hdrIn w" "aw_range w' = aw_range w" "aw_currSeq w' = aw_currSeq w"
    by (auto simp: emptyTxSet_def txs_typed_def split: option.split)
qed

text \<open>A step that succeeds skips a ledger, or closes it with the archive's hash.\<close>

lemma applyHistory_cases:
  assumes r: "applyHistoryOfSingleLedger nd c w = (Inr b, c', w')"
  obtains (exhausted) "xf_records (aw_hdrIn w) = []" "b = False" "c' = c" "w' = w"
  | (skipped) e rest where "xf_records (aw_hdrIn w) = e # rest" "b" "c' = c" "(he_seq e + 1) mod 2 ^ 32 \<le> lcl_seq c \<or> he_seq e = lcl_seq c"
      "w' = w\<lparr>aw_hdrIn := (aw_hdrIn w)\<lparr>xf_records := rest\<rparr>\<rparr>"
  | (applied) e rest txset w2 h txset' lcd where "xf_records (aw_hdrIn w) = e # rest" "b" "he_seq e = (lcl_seq c + 1) mod 2 ^ 32"
      "getCurrentTxSet c (w\<lparr>aw_hdrIn := (aw_hdrIn w)\<lparr>xf_records := rest\<rparr>\<rparr>) = Inr (txset, w2)"
      "getContentsHash (nd_hashes nd) txset = (h, txset')"
      "makeLedgerCloseData (nd_hashes nd) (he_seq e) txset' (hl_scpValue (fh_links (he_header e))) = Inr lcd"
      "closeLedger nd c lcd = Inr c'" "he_hash (cn_lastClosed c') = he_hash e" "w' = w2\<lparr>aw_lastApplied := e\<rparr>"
proof (cases "xf_records (aw_hdrIn w)")
  case Nil
  with r have "b = False" "c' = c" "w' = w" by (simp_all add: applyHistoryOfSingleLedger_def split: if_split_asm)
  with Nil show thesis by (intro exhausted)
next
  case (Cons e rest)
  let ?w = "w\<lparr>aw_hdrIn := (aw_hdrIn w)\<lparr>xf_records := rest\<rparr>\<rparr>" and ?v = "hl_scpValue (fh_links (he_header e))"
  show thesis
  proof (cases "(he_seq e + 1) mod 2 ^ 32 \<le> lcl_seq c \<or> he_seq e = lcl_seq c")
    case True
    with r Cons have "b" "c' = c" "w' = ?w"
      by (auto simp: applyHistoryOfSingleLedger_def Let_def split: if_split_asm)
    with Cons True show thesis by (intro skipped)
  next
    case False
    with r Cons obtain txset w2 h txset' where t: "he_seq e = (lcl_seq c + 1) mod 2 ^ 32" "getCurrentTxSet c ?w = Inr (txset, w2)"
      "getContentsHash (nd_hashes nd) txset = (h, txset')"
      by (auto simp: applyHistoryOfSingleLedger_def Let_def split: if_split_asm sum.split_asm prod.split_asm)
    with r Cons False have s: "(if sv_txSetHash ?v \<noteq> h then (Inl (RuntimeError ''replay txset hash differs''), c, w2)
        else case bindE (makeLedgerCloseData (nd_hashes nd) (he_seq e) txset' ?v) (closeLedger nd c) of
          Inl er \<Rightarrow> (Inl er, c, w2)
        | Inr c'' \<Rightarrow> if he_hash (cn_lastClosed c'') \<noteq> he_hash e then (Inl (RuntimeError ''mismatched ledger hash''), c'', w2)
            else (Inr True, c'', w2\<lparr>aw_lastApplied := e\<rparr>)) = (Inr b, c', w')"
      by (auto simp: applyHistoryOfSingleLedger_def Let_def split: if_split_asm)
    then obtain lcd where m: "makeLedgerCloseData (nd_hashes nd) (he_seq e) txset' ?v = Inr lcd" "closeLedger nd c lcd = Inr c'"
      "he_hash (cn_lastClosed c') = he_hash e" "b" "w' = w2\<lparr>aw_lastApplied := e\<rparr>"
      by (cases "makeLedgerCloseData (nd_hashes nd) (he_seq e) txset' ?v") (auto split: if_split_asm sum.split_asm)
    show thesis by (rule applied [OF Cons m(4) t m(1-3,5)])
  qed
qed

lemma applyHistory_step:
  assumes r: "applyHistoryOfSingleLedger nd c w = (Inr b, c', w')" and inv: "replaying nd n h c w" and n: "n < 2 ^ 32 - 1"
  shows "surplus (cn_root c') = surplus (cn_root c)"
    "(if lcl_seq c' = n then he_hash (cn_lastClosed c') = h \<and> ledger_ok (cn_root c') else replaying nd n h c' w')"
    "lr_last (aw_range w') = n" "aw_currSeq w' = aw_currSeq w"
proof -
  have seq: "0 \<le> lcl_seq c" "lcl_seq c < n" and wn: "lr_last (aw_range w) = n" using inv by (simp_all add: replaying_def)
  have skip: "he_seq e \<noteq> n" if "(he_seq e + 1) mod 2 ^ 32 \<le> lcl_seq c \<or> he_seq e = lcl_seq c" for e
    using that seq n by auto
  from r have "surplus (cn_root c') = surplus (cn_root c) \<and>
    (if lcl_seq c' = n then he_hash (cn_lastClosed c') = h \<and> ledger_ok (cn_root c') else replaying nd n h c' w')
    \<and> lr_last (aw_range w') = n \<and> aw_currSeq w' = aw_currSeq w"
  proof (cases rule: applyHistory_cases)
    case exhausted
    with inv seq wn show ?thesis by simp
  next
    case (skipped e rest)
    with skip [OF skipped(4)] inv seq wn show ?thesis by (simp add: replaying_def)
  next
    case (applied e rest txset w2 hh txset' lcd)
    let ?w = "w\<lparr>aw_hdrIn := (aw_hdrIn w)\<lparr>xf_records := rest\<rparr>\<rparr>"
    have "setTyped (aw_txHistoryEntry ?w)" "list_all setTyped (xf_records (aw_txIn ?w))"
      using inv by (simp_all add: replaying_def)
    note t = getCurrentTxSet_typed [OF applied(4) this]
    then have typed: "txs_typed (xs_transactions txset)" "setTyped (aw_txHistoryEntry w2)"
      "list_all setTyped (xf_records (aw_txIn w2))" by simp_all
    have ok: "ledger_ok (cn_root c)" "head_ok nd c" using inv by (simp_all add: replaying_def)
    obtain h2 s2 where s2: "getContentsHash (nd_hashes nd) txset' = (h2, s2)" by (cases "getContentsHash (nd_hashes nd) txset'")
    with applied(6) have lcd: "lcd_txSet lcd = s2" "lcd_value lcd = hl_scpValue (fh_links (he_header e))"
      by (auto simp: makeLedgerCloseData_def split: if_split_asm)
    have "closable nd lcd"
      using inv applied(1) typed(1) lcd txs_typed_mset [OF getContentsHash_txs [OF s2]]
        txs_typed_mset [OF getContentsHash_txs [OF applied(5)]]
      by (simp add: closable_def replaying_def valueTyped_def)
    note st = closeLedger_step [OF ok(1) this applied(7)] and hd' = closeLedger_head(1) [OF applied(7)]
    have l: "lcl_seq c' = (lcl_seq c + 1) mod 2 ^ 32"
      using st(3) hd' ok(2) by (simp add: head_ok_def fullHeader_def)
    then have l': "lcl_seq c' = lcl_seq c + 1" "he_seq e = lcl_seq c'" using seq n applied(3) by simp_all
    have v: "vouched (nd_headerHash nd) (n, Some h) e" using inv applied(1) by (simp add: replaying_def)
    have "replaying nd n h c' w'" if "lcl_seq c' \<noteq> n"
      using that l' inv applied(1,9) t(4,5) typed st(1) hd' seq by (simp add: replaying_def)
    moreover have "he_hash (cn_lastClosed c') = h" if "lcl_seq c' = n"
      using that vouched_end [OF v] l'(2) applied(8) by simp
    ultimately show ?thesis using st(1,2) applied(9) t(5,6) wn by simp
  qed
  then show "surplus (cn_root c') = surplus (cn_root c)"
    "(if lcl_seq c' = n then he_hash (cn_lastClosed c') = h \<and> ledger_ok (cn_root c') else replaying nd n h c' w')"
    "lr_last (aw_range w') = n" "aw_currSeq w' = aw_currSeq w" by simp_all
qed

text \<open>The files that are left to read, from \<open>aw_currSeq\<close> on.\<close>

definition filesVerified ::
    "'b Node \<Rightarrow> HistoryManager \<Rightarrow> HistoryFiles \<Rightarrow> int \<Rightarrow> uint256 \<Rightarrow> int \<Rightarrow> int \<Rightarrow> bool" where
  "filesVerified nd hm files n h a b \<longleftrightarrow> b < 2 ^ 32 - 64
     \<and> (\<forall>k f. b < k \<longrightarrow> hf_headers files k \<noteq> Some f)
     \<and> (\<forall>k f. (k + 1) mod getCheckpointFrequency hm = 0 \<and> a \<le> k \<and> k \<le> b \<and> hf_headers files k = Some f
         \<longrightarrow> (\<forall>e \<in> set (readUpTo n (xf_records f)). vouched (nd_headerHash nd) (n, Some h) e))"

lemma opened_replaying:
  assumes "filesVerified nd hm files n h a b" "replayable nd files" "openCurrentInputFiles files w = Inr w'"
    and "(aw_currSeq w + 1) mod getCheckpointFrequency hm = 0" "a \<le> aw_currSeq w" "lr_last (aw_range w) = n"
    and "ledger_ok (cn_root c)" "head_ok nd c" "0 \<le> lcl_seq c" "lcl_seq c < n"
  shows "replaying nd n h c w'" "aw_currSeq w' = aw_currSeq w" "aw_currSeq w \<le> b"
proof -
  from assms(3) obtain hi ti where f: "hf_headers files (aw_currSeq w) = Some hi" "hf_transactions files (aw_currSeq w) = Some ti"
    "w' = w\<lparr>aw_hdrIn := hi, aw_txIn := ti, aw_txHistoryEntry := emptyTransactionHistoryEntry\<rparr>"
    by (auto simp: openCurrentInputFiles_def split: option.split_asm)
  show "aw_currSeq w \<le> b" using assms(1) f(1) unfolding filesVerified_def by (meson not_less)
  then have v: "\<forall>e \<in> set (readUpTo n (xf_records hi)). vouched (nd_headerHash nd) (n, Some h) e"
    using assms(1,4,5) f(1) unfolding filesVerified_def by metis
  have t: "list_all (valueTyped nd) (xf_records hi)" "list_all setTyped (xf_records ti)"
    using assms(2) f(1,2) unfolding replayable_def valueTyped_def setTyped_def list_all_iff by blast+
  show "replaying nd n h c w'" "aw_currSeq w' = aw_currSeq w" using v t f(3) assms(6-10) by (simp_all add: replaying_def)
qed

lemma runApply_reaches:
  fixes hm :: HistoryManager
  defines "f \<equiv> getCheckpointFrequency hm"
  assumes files: "filesVerified nd hm files n h a b" "replayable nd files" "n < 2 ^ 32 - 1"
  shows "\<lbrakk>runApply k nd hm files c w = (Inr WORK_SUCCESS, c', w'); replaying nd n h c w;
    (aw_currSeq w + 1) mod f = 0; 0 < a; a \<le> aw_currSeq w; aw_currSeq w \<le> b\<rbrakk> \<Longrightarrow> replayed n h c c'"
proof (induction k arbitrary: c w)
  case (Suc k)
  have f: "f = 8 \<or> f = 64" unfolding f_def by (rule frequency_cases)
  from Suc.prems(1) obtain c1 w1 where run: "onRunApply nd hm files c w = (Inr (), c1, w1)"
    "if onSuccessApply c1 w1 = WORK_RUNNING then runApply k nd hm files c1 w1 = (Inr WORK_SUCCESS, c', w') else c1 = c'"
    by (auto split: prod.split_asm sum.split_asm if_split_asm)
  from run(1) obtain read c2 w2 where ap: "applyHistoryOfSingleLedger nd c w = (Inr read, c2, w2)"
    by (auto simp: onRunApply_def split: prod.split_asm sum.split_asm)
  note st = applyHistory_step [OF ap Suc.prems(2) files(3)]
  show ?case
  proof (cases read)
    case True
    with run(1) ap have c1: "c1 = c2" "w1 = w2" by (simp_all add: onRunApply_def)
    show ?thesis
    proof (cases "lcl_seq c2 = n")
      case True
      then show ?thesis using run(2) c1 st by (simp add: onSuccessApply_def replayed_def)
    next
      case False
      then have r: "runApply k nd hm files c2 w2 = (Inr WORK_SUCCESS, c', w')" "replaying nd n h c2 w2"
        using run(2) c1 st by (simp_all add: onSuccessApply_def)
      have "replayed n h c2 c'" by (rule Suc.IH [OF r]) (use Suc.prems st(4) in simp_all)
      with st(1) show ?thesis by (simp add: replayed_def)
    qed
  next
    case False
    then have c2: "c2 = c \<and> w2 = w" by (rule_tac applyHistory_cases [OF ap]) simp_all
    let ?w = "w\<lparr>aw_currSeq := (aw_currSeq w + f) mod 2 ^ 32\<rparr>"
    from run(1) ap False c2 have o: "openCurrentInputFiles files ?w = Inr w1" "c1 = c"
      by (auto simp: onRunApply_def Let_def f_def split: sum.split_asm)
    have cur: "(aw_currSeq w + f) mod 2 ^ 32 = aw_currSeq w + f"
      using files(1) Suc.prems(4-6) f by (auto simp: filesVerified_def)
    have m: "(aw_currSeq w + f + 1) mod f = 0"
      using Suc.prems(3) by (metis add.assoc add.commute mod_add_self2)
    have c: "ledger_ok (cn_root c)" "head_ok nd c" "0 \<le> lcl_seq c" "lcl_seq c < n" "lr_last (aw_range w) = n"
      using Suc.prems(2) by (simp_all add: replaying_def)
    have op: "replaying nd n h c w1" "aw_currSeq w1 = aw_currSeq w + f" "aw_currSeq w + f \<le> b"
      using opened_replaying [OF files(1,2) o(1), of c] c cur m Suc.prems(5) f by (auto simp: f_def)
    have "onSuccessApply c w1 = WORK_RUNNING" using op(1) by (simp add: onSuccessApply_def replaying_def)
    with run(2) o(2) have r: "runApply k nd hm files c w1 = (Inr WORK_SUCCESS, c', w')" by simp
    show ?thesis by (rule Suc.IH [OF r op(1)]) (use op m Suc.prems(4,5) f in auto)
  qed
qed simp

text \<open>C7. When the headers of an archive were verified against a hash that consensus vouched for, and the
  replay of its transactions succeeds, the node is at exactly that ledger, whatever the archive holds:
  the last closed ledger has the trusted hash and number, and no coins were made on the way.\<close>

theorem replay_reaches_trusted:
  assumes verified: "verifyLedgers hm (nd_headerHash nd) (hf_headers files) rng (lcl, Some h0) (n, Some h) = Inr (WORK_SUCCESS, v)"
    and replay: "applyTransactionsWork fuel nd hm files rng c = (Inr WORK_SUCCESS, c', w')"
    and rng: "0 < lr_first rng" "lr_first rng \<le> lr_last rng" "lr_last rng < 2 ^ 32 - 128"
    and downloaded: "\<forall>k. checkpointContainingLedger hm (lr_last rng) < k \<longrightarrow> hf_headers files k = None" "replayable nd files"
    and c: "ledger_ok (cn_root c)" "head_ok nd c" "0 \<le> lcl_seq c" "lcl_seq c < n"
  shows "lcl_seq c' = n \<and> he_hash (cn_lastClosed c') = h \<and> ledger_ok (cn_root c')
    \<and> surplus (cn_root c') = surplus (cn_root c)"
proof -
  let ?a = "checkpointContainingLedger hm (lr_first rng)" and ?b = "checkpointContainingLedger hm (lr_last rng)"
  from verified have n: "lr_last rng = n"
    by (auto simp: verifyLedgers_def makeVerifyLedgerChainWork_def)
  have vf: "verifiedFile (nd_headerHash nd) (hf_headers files) (lcl, h0) (n, Some h) k"
    if "(k + 1) mod getCheckpointFrequency hm = 0" "?a \<le> k" "k \<le> ?b" for k
    using verifyLedgers_vouched_all [OF verified rng, THEN conjunct1, THEN spec [of _ k]] that by simp
  have files: "filesVerified nd hm files n h ?a ?b"
    unfolding filesVerified_def
  proof (intro conjI allI impI)
    show "?b < 2 ^ 32 - 64" using checkpoint_bound [of "lr_last rng" hm] rng by simp
    show "hf_headers files k \<noteq> Some f" if "?b < k" for k f using downloaded(1) that by simp
    show "\<forall>e \<in> set (readUpTo n (xf_records f)). vouched (nd_headerHash nd) (n, Some h) e"
      if "(k + 1) mod getCheckpointFrequency hm = 0 \<and> ?a \<le> k \<and> k \<le> ?b \<and> hf_headers files k = Some f" for k f
      using vf [of k] that by (auto simp: verifiedFile_def)
  qed
  let ?w = "onResetApply hm rng (cn_lastClosed c)"
  from replay obtain w1 where o: "openCurrentInputFiles files ?w = Inr w1"
    "runApply fuel nd hm files c w1 = (Inr WORK_SUCCESS, c', w')"
    by (auto simp: applyTransactionsWork_def Let_def split: sum.split_asm)
  have w: "aw_currSeq ?w = ?a" "lr_last (aw_range ?w) = n" using n by (simp_all add: onResetApply_def)
  have a: "(?a + 1) mod getCheckpointFrequency hm = 0" "0 < ?a"
    using cp.containing_mod [of "lr_first rng" hm] checkpoint_pos [of "lr_first rng" hm] rng by simp_all
  note op = opened_replaying [OF files downloaded(2) o(1), unfolded w, OF a(1) order_refl refl c]
  have "replayed n h c c'"
    by (rule runApply_reaches [OF files downloaded(2) _ o(2) op(1)]) (use op a n rng in simp_all)
  then show ?thesis by (simp add: replayed_def)
qed

lemma applyHistory_reads:
  assumes "applyHistoryOfSingleLedger nd c w = (Inr b, c', w')"
  shows "aw_currSeq w' = aw_currSeq w"
    "if b then length (xf_records (aw_hdrIn w)) = Suc (length (xf_records (aw_hdrIn w'))) else w' = w"
  by (rule applyHistory_cases [OF assms]; auto simp: getCurrentTxSet_def Let_def)+

text \<open>More fuel than that changes nothing.\<close>

lemma runApply_enough:
  assumes files: "\<forall>k. b < k \<longrightarrow> hf_headers files k = None" "b < 2 ^ 32 - 64"
  shows "\<lbrakk>aw_currSeq w + int m * getCheckpointFrequency hm = b; 0 \<le> aw_currSeq w;
    length (xf_records (aw_hdrIn w)) + recordsFrom files (getCheckpointFrequency hm) (aw_currSeq w + getCheckpointFrequency hm) m < k\<rbrakk>
   \<Longrightarrow> runApply (k + j) nd hm files c w = runApply k nd hm files c w"
proof (induction k arbitrary: c w m)
  case (Suc k)
  let ?f = "getCheckpointFrequency hm"
  have f: "?f = 8 \<or> ?f = 64" by (rule frequency_cases)
  show ?case
  proof (cases "onRunApply nd hm files c w")
    case (fields r c1 w1)
    show ?thesis
    proof (cases r)
      case (Inr u)
      with fields have run: "onRunApply nd hm files c w = (Inr (), c1, w1)" by simp
      then obtain read c2 w2 where ap: "applyHistoryOfSingleLedger nd c w = (Inr read, c2, w2)"
        by (auto simp: onRunApply_def split: prod.split_asm sum.split_asm)
      note rd = applyHistory_reads [OF ap]
      have "runApply (k + j) nd hm files c1 w1 = runApply k nd hm files c1 w1"
      proof (cases read)
        case True
        with run ap have "w1 = w2" by (simp add: onRunApply_def)
        then show ?thesis using rd True Suc.prems by (intro Suc.IH [of w1 m]) simp_all
      next
        case False
        let ?w = "w\<lparr>aw_currSeq := (aw_currSeq w + ?f) mod 2 ^ 32\<rparr>"
        from run ap False rd(2) have o: "openCurrentInputFiles files ?w = Inr w1"
          by (auto simp: onRunApply_def Let_def split: sum.split_asm)
        have "aw_currSeq w \<le> b" using Suc.prems(1) f by auto
        then have cur: "(aw_currSeq w + ?f) mod 2 ^ 32 = aw_currSeq w + ?f" using Suc.prems(2) files(2) f by auto
        from o obtain hi where hi: "hf_headers files (aw_currSeq w + ?f) = Some hi" "aw_hdrIn w1 = hi"
          "aw_currSeq w1 = aw_currSeq w + ?f"
          using cur by (auto simp: openCurrentInputFiles_def split: option.split_asm)
        with files(1) have "aw_currSeq w + ?f \<le> b" by (metis not_less option.distinct(1))
        then obtain i where m: "m = Suc i" using Suc.prems(1) f by (cases m) auto
        show ?thesis using hi Suc.prems m f by (intro Suc.IH [of w1 i]) (auto simp: algebra_simps)
      qed
      with run show ?thesis by simp
    qed (use fields in simp)
  qed
qed simp

subsection \<open>Instances\<close>

text \<open>The archive of the example network, and a node that has only its first ledger.\<close>

definition ex_history :: "nat Chain \<Rightarrow> FullHeader list \<Rightarrow> HistoryFiles" where
  "ex_history c hs = \<lparr>
     hf_headers = (\<lambda>k. if k = 7 then Some \<lparr>xf_records =
       map (\<lambda>h. \<lparr>he_hash = nd_headerHash ex_node h, he_header = h\<rparr>) (he_header (cn_lastClosed c) # hs), xf_malformed = False\<rparr> else None),
     hf_transactions = (\<lambda>k. if k = 7 then Some \<lparr>xf_records =
       map (\<lambda>lcd. \<lparr>th_ledgerSeq = lcd_ledgerSeq lcd, th_txSet = txSet_toXDR (lcd_txSet lcd)\<rparr>) ex_closes, xf_malformed = False\<rparr> else None)\<rparr>"

definition ex_range :: LedgerRange where
  "ex_range = \<lparr>lr_first = 2, lr_last = 3\<rparr>"

lemma ex_replay_run:
  "case startNewLedger ex_node 0 1 (Some ex_genesis) of Inl _ \<Rightarrow> False
   | Inr c \<Rightarrow> (case closeLedgers ex_node c ex_closes of Inl _ \<Rightarrow> False
       | Inr (c', hs) \<Rightarrow>
           (case verifyLedgers ex_accelerated (nd_headerHash ex_node) (hf_headers (ex_history c hs)) ex_range (1, Some 1) (3, Some 3) of
              Inl _ \<Rightarrow> False | Inr (st, v) \<Rightarrow> st = WORK_SUCCESS)
         \<and> (case applyTransactionsWork 10 ex_node ex_accelerated (ex_history c hs) ex_range c of
              (Inl _, _) \<Rightarrow> False | (Inr st, c1, w) \<Rightarrow> st = WORK_SUCCESS)
         \<and> lcl_seq c = 1
         \<and> list_all (valueTyped ex_node) (map (\<lambda>h. \<lparr>he_hash = 0, he_header = h\<rparr>) (he_header (cn_lastClosed c) # hs)))"
  by code_simp

lemma ex_history_replayable:
  assumes "list_all (valueTyped ex_node) (map (\<lambda>h. \<lparr>he_hash = 0, he_header = h\<rparr>) (he_header (cn_lastClosed c) # hs))"
  shows "replayable ex_node (ex_history c hs)"
  using assms
  by (auto simp: replayable_def ex_history_def valueTyped_def list_all_iff ex_closes_def ex_close_def txSetFromWire_def
      txSet_toXDR_def txs_typed_def op_typed_def ex_payment_def resetResults_def makeTransactionFromWire_def
      split: if_split_asm)

lemma outcome_Inr:
  "case x of Inl _ \<Rightarrow> False | Inr (st, v) \<Rightarrow> st = s \<Longrightarrow> \<exists>v. x = Inr (s, v)"
  "case y of (Inl _, _) \<Rightarrow> False | (Inr st, c1, w) \<Rightarrow> st = s \<Longrightarrow> \<exists>c1 w. y = (Inr s, c1, w)"
  by (auto split: sum.split_asm prod.split_asm) (metis sum.exhaust)

theorem replay_reaches_trusted_witness:
  "\<exists>c files c' w. applyTransactionsWork 10 ex_node ex_accelerated files ex_range c = (Inr WORK_SUCCESS, c', w)
     \<and> lcl_seq c = 1 \<and> lcl_seq c' = 3 \<and> he_hash (cn_lastClosed c') = 3"
proof -
  obtain c where c: "startNewLedger ex_node 0 1 (Some ex_genesis) = Inr c"
    using ex_replay_run by (cases "startNewLedger ex_node 0 1 (Some ex_genesis)") auto
  obtain c2 hs where c2: "closeLedgers ex_node c ex_closes = Inr (c2, hs)"
    using ex_replay_run by (cases "closeLedgers ex_node c ex_closes") (auto simp: c)
  note run = ex_replay_run [unfolded c c2 sum.case prod.case]
  obtain v where r1:
    "verifyLedgers ex_accelerated (nd_headerHash ex_node) (hf_headers (ex_history c hs)) ex_range (1, Some 1) (3, Some 3)
       = Inr (WORK_SUCCESS, v)"
    using outcome_Inr(1) [OF run [THEN conjunct1]] by (elim exE)
  obtain c' w where r2:
    "applyTransactionsWork 10 ex_node ex_accelerated (ex_history c hs) ex_range c = (Inr WORK_SUCCESS, c', w)"
    using outcome_Inr(2) [OF run [THEN conjunct2, THEN conjunct1]] by (elim exE)
  note r3 = run [THEN conjunct2, THEN conjunct2]
  have "checkpointContainingLedger ex_accelerated (lr_last ex_range) = 7" by code_simp
  then have d: "\<forall>k. checkpointContainingLedger ex_accelerated (lr_last ex_range) < k \<longrightarrow> hf_headers (ex_history c hs) k = None"
    by (simp add: ex_history_def)
  note g = startNewLedger_ok [OF c ex_genesis_ok]
  from replay_reaches_trusted [OF r1 r2 _ _ _ d ex_history_replayable [OF r3 [THEN conjunct2]] g(1,3)] r3
  have "lcl_seq c' = 3 \<and> he_hash (cn_lastClosed c') = 3" by (simp add: ex_range_def)
  with r2 r3 show ?thesis by blast
qed

end
