(* ===== verification/Ledger_Manager.thy ===== *)
theory Ledger_Manager
  imports Replay_Chain
begin

section \<open>The states of the ledger manager (src/src/ledger/LedgerManagerImpl.cpp)\<close>

text \<open>
  A node closes the ledgers that consensus agrees on one after the other. When it misses some it buffers
  what it hears, waits for a checkpoint, catches up from an archive to the ledger before the first
  buffered one, closes the buffered ledgers and waits for the next one. The manager is called by the
  herder with each externalised value, by the catch-up work with its progress, by the main thread with a
  task it posted, and by the HTTP command that starts a catch-up by hand. An uncaught exception ends the
  process. Metrics, messages and status lines are left out; \<^verbatim>\<open>closeLedger\<close> is that of \<open>Ledger_Close\<close>.
\<close>

datatype LedgerManagerState = LM_BOOTING_STATE | LM_SYNCED_STATE | LM_CATCHING_UP_STATE

datatype CatchupState =
    CATCHUP_NONE
  | WAITING_FOR_TRIGGER_LEDGER
  | APPLYING_HISTORY
  | APPLYING_BUFFERED_LEDGERS
  | WAITING_FOR_CLOSING_LEDGER

datatype CloseLedgerIfResult = CLOSED | CLOSE_TOO_OLD | CLOSE_TOO_NEW

datatype SyncingLedgerChainAddResult = CONTIGUOUS | SYNCING_TOO_OLD | SYNCING_TOO_NEW

datatype ProgressState = APPLIED_BUCKETS | APPLIED_TRANSACTIONS | FINISHED

text \<open>\<open>lm_catchupWork\<close> is the work that the catch-up manager has in progress; \<open>lm_posted\<close> counts the tasks
  that wait on the main thread.\<close>

record 'b LedgerManager =
  lm_chain :: "'b Chain"
  lm_state :: LedgerManagerState
  lm_catchupState :: CatchupState
  lm_triggerLedger :: int
  lm_syncing :: "LedgerCloseData list"
  lm_catchupWork :: "CatchupConfiguration option"
  lm_posted :: nat

record 'b LMEnv =
  ev_node :: "'b Node"
  ev_history :: HistoryManager
  ev_catchupComplete :: bool
  ev_catchupRecent :: int

abbreviation lm_lcl :: "'b LedgerManager \<Rightarrow> int" where
  "lm_lcl lm \<equiv> lcl_seq (lm_chain lm)"

definition setState :: "LedgerManagerState \<Rightarrow> 'b LedgerManager \<Rightarrow> 'b LedgerManager" where
  "setState s lm =
     (if s = lm_state lm then lm
      else if s \<noteq> LM_CATCHING_UP_STATE then lm\<lparr>lm_state := s, lm_catchupState := CATCHUP_NONE\<rparr>
      else lm\<lparr>lm_state := s\<rparr>)"

definition setCatchupState :: "CatchupState \<Rightarrow> 'b LedgerManager \<Rightarrow> 'b LedgerManager" where
  "setCatchupState s lm = setState LM_CATCHING_UP_STATE (lm\<lparr>lm_catchupState := s\<rparr>)"

definition bootstrap :: "'b LedgerManager \<Rightarrow> 'b LedgerManager" where
  "bootstrap lm = setState LM_SYNCED_STATE lm"

definition getCatchupCount :: "'b LMEnv \<Rightarrow> int" where
  "getCatchupCount ev = (if ev_catchupComplete ev then UINT32_MAX else ev_catchupRecent ev)"

subsection \<open>Buffered ledgers\<close>

definition syncing_push :: "LedgerCloseData list \<Rightarrow> LedgerCloseData \<Rightarrow> SyncingLedgerChainAddResult \<times> LedgerCloseData list" where
  "syncing_push chain lcd =
     (if chain = [] \<or> (lcd_ledgerSeq (last chain) + 1) mod 2 ^ 32 = lcd_ledgerSeq lcd then (CONTIGUOUS, chain @ [lcd])
      else if lcd_ledgerSeq lcd \<le> lcd_ledgerSeq (last chain) then (SYNCING_TOO_OLD, chain)
      else (SYNCING_TOO_NEW, chain))"

text \<open>The outcome of the push is only reported.\<close>

definition addToSyncingLedgers :: "'b LedgerManager \<Rightarrow> LedgerCloseData \<Rightarrow> 'b LedgerManager" where
  "addToSyncingLedgers lm lcd = lm\<lparr>lm_syncing := snd (syncing_push (lm_syncing lm) lcd)\<rparr>"

subsection \<open>Starting a catch-up\<close>

definition catchupHistory :: "CatchupConfiguration \<Rightarrow> 'b LedgerManager \<Rightarrow> cpp_error + 'b LedgerManager" where
  "catchupHistory cfg lm =
     (if lm_catchupWork lm \<noteq> None then Inl (RuntimeError ''Catchup already in progress'')
      else Inr (lm\<lparr>lm_catchupWork := Some cfg\<rparr>))"

definition startCatchup :: "CatchupConfiguration \<Rightarrow> bool \<Rightarrow> 'b LedgerManager \<Rightarrow> cpp_error + 'b LedgerManager" where
  "startCatchup cfg manualCatchup lm =
     (if toLedger cfg \<noteq> CURRENT \<and> toLedger cfg \<le> lm_lcl lm
      then Inl (InvalidArgument ''Target ledger is not newer than LCL'')
      else let lm1 = setCatchupState APPLYING_HISTORY lm in
        bindE (ensureE (manualCatchup = (lm_syncing lm1 = [])) AssertionFailed) (\<lambda>_.
        catchupHistory cfg lm1))"

definition startCatchupIf :: "'b LMEnv \<Rightarrow> int \<Rightarrow> 'b LedgerManager \<Rightarrow> cpp_error + 'b LedgerManager" where
  "startCatchupIf ev lastReceivedLedgerSeq lm =
     bindE (ensureE (lm_syncing lm \<noteq> []) AssertionFailed) (\<lambda>_.
     bindE (ensureE (lm_catchupState lm \<noteq> CATCHUP_NONE) AssertionFailed) (\<lambda>_.
     if lm_catchupState lm \<noteq> WAITING_FOR_TRIGGER_LEDGER then Inr lm
     else if lastReceivedLedgerSeq \<ge> lm_triggerLedger lm then
       let lm1 = setCatchupState APPLYING_HISTORY lm;
           front = List.hd (lm_syncing lm1)
       in startCatchup \<lparr>cc_count = getCatchupCount ev,
            cc_ledgerHashPair = ((lcd_ledgerSeq front - 1) mod 2 ^ 32, Some (previousHashOf front))\<rparr> False lm1
     else Inr lm))"

subsection \<open>Externalised values\<close>

definition closeLedgerIf :: "'b LMEnv \<Rightarrow> 'b LedgerManager \<Rightarrow> LedgerCloseData \<Rightarrow> cpp_error + (CloseLedgerIfResult \<times> 'b LedgerManager)" where
  "closeLedgerIf ev lm lcd =
     (if (lm_lcl lm + 1) mod 2 ^ 32 = lcd_ledgerSeq lcd then
        if he_hash (cn_lastClosed (lm_chain lm)) = previousHashOf lcd
        then bindE (closeLedger (ev_node ev) (lm_chain lm) lcd) (\<lambda>c. Inr (CLOSED, lm\<lparr>lm_chain := c\<rparr>))
        else Inl (RuntimeError ''Network consensus inconsistency'')
      else if lcd_ledgerSeq lcd \<le> lm_lcl lm then Inr (CLOSE_TOO_OLD, lm)
      else Inr (CLOSE_TOO_NEW, lm))"

definition initializeCatchup :: "'b LMEnv \<Rightarrow> 'b LedgerManager \<Rightarrow> LedgerCloseData \<Rightarrow> cpp_error + 'b LedgerManager" where
  "initializeCatchup ev lm lcd =
     bindE (ensureE (lm_state lm \<noteq> LM_CATCHING_UP_STATE) AssertionFailed) (\<lambda>_.
     bindE (ensureE (lm_catchupState lm = CATCHUP_NONE) AssertionFailed) (\<lambda>_.
     bindE (ensureE (lm_syncing lm = []) AssertionFailed) (\<lambda>_.
     let lm1 = setState LM_CATCHING_UP_STATE lm;
         lm2 = lm1\<lparr>lm_triggerLedger := (nextCheckpointLedger (ev_history ev) (lcd_ledgerSeq lcd) + 1) mod 2 ^ 32\<rparr>;
         lm3 = addToSyncingLedgers (setCatchupState WAITING_FOR_TRIGGER_LEDGER lm2) lcd
     in startCatchupIf ev (lcd_ledgerSeq lcd) lm3)))"

definition continueCatchup :: "'b LMEnv \<Rightarrow> 'b LedgerManager \<Rightarrow> LedgerCloseData \<Rightarrow> cpp_error + 'b LedgerManager" where
  "continueCatchup ev lm lcd =
     bindE (ensureE (lm_state lm = LM_CATCHING_UP_STATE) AssertionFailed) (\<lambda>_.
     startCatchupIf ev (lcd_ledgerSeq lcd) (addToSyncingLedgers lm lcd))"

definition finalizeCatchup :: "'b LMEnv \<Rightarrow> 'b LedgerManager \<Rightarrow> LedgerCloseData \<Rightarrow> cpp_error + 'b LedgerManager" where
  "finalizeCatchup ev lm lcd =
     bindE (ensureE (lm_state lm = LM_CATCHING_UP_STATE) AssertionFailed) (\<lambda>_.
     bindE (ensureE (lm_catchupState lm = WAITING_FOR_CLOSING_LEDGER) AssertionFailed) (\<lambda>_.
     bindE (ensureE (lm_syncing lm = []) AssertionFailed) (\<lambda>_.
     bindE (closeLedgerIf ev lm lcd) (\<lambda>(res, lm1).
     case res of
       CLOSED \<Rightarrow> Inr (setState LM_SYNCED_STATE lm1)
     | CLOSE_TOO_OLD \<Rightarrow> Inr lm1
     | CLOSE_TOO_NEW \<Rightarrow> initializeCatchup ev (setState LM_BOOTING_STATE lm1) lcd))))"

definition valueExternalized :: "'b LMEnv \<Rightarrow> 'b LedgerManager \<Rightarrow> LedgerCloseData \<Rightarrow> cpp_error + 'b LedgerManager" where
  "valueExternalized ev lm lcd =
     (if lm_state lm = LM_CATCHING_UP_STATE then
        if lm_catchupState lm = WAITING_FOR_CLOSING_LEDGER then finalizeCatchup ev lm lcd
        else continueCatchup ev lm lcd
      else bindE (closeLedgerIf ev lm lcd) (\<lambda>(res, lm1).
        case res of
          CLOSED \<Rightarrow> Inr (setState LM_SYNCED_STATE lm1)
        | CLOSE_TOO_OLD \<Rightarrow> Inr lm1
        | CLOSE_TOO_NEW \<Rightarrow> initializeCatchup ev lm1 lcd))"

subsection \<open>Progress of a catch-up\<close>

definition applyBufferedLedgers :: "'b LedgerManager \<Rightarrow> cpp_error + 'b LedgerManager" where
  "applyBufferedLedgers lm =
     bindE (ensureE (lm_catchupState lm = APPLYING_BUFFERED_LEDGERS) AssertionFailed) (\<lambda>_.
     Inr (lm\<lparr>lm_posted := Suc (lm_posted lm)\<rparr>))"

text \<open>The task that it posts.\<close>

definition applyBufferedTask :: "'b LMEnv \<Rightarrow> 'b LedgerManager \<Rightarrow> cpp_error + 'b LedgerManager" where
  "applyBufferedTask ev lm =
     (let lm1 = lm\<lparr>lm_posted := lm_posted lm - 1\<rparr> in
      case lm_syncing lm1 of
        [] \<Rightarrow> Inr (setCatchupState WAITING_FOR_CLOSING_LEDGER lm1)
      | lcd # rest \<Rightarrow>
          let lm2 = lm1\<lparr>lm_syncing := rest\<rparr> in
          bindE (ensureE (lcd_ledgerSeq lcd = (lm_lcl lm2 + 1) mod 2 ^ 32) AssertionFailed) (\<lambda>_.
          bindE (closeLedger (ev_node ev) (lm_chain lm2) lcd) (\<lambda>c.
          applyBufferedLedgers (lm2\<lparr>lm_chain := c\<rparr>))))"

text \<open>An error of the work is \<open>None\<close>. The root gets the header of the ledger whose buckets were applied.\<close>

definition historyCaughtup ::
    "ProgressState option \<Rightarrow> LedgerHeaderHistoryEntry \<Rightarrow> 'b LedgerManager \<Rightarrow> cpp_error + 'b LedgerManager" where
  "historyCaughtup progress lastClosed lm =
     bindE (ensureE (lm_catchupState lm = APPLYING_HISTORY) AssertionFailed) (\<lambda>_.
     case progress of
       None \<Rightarrow> Inr ((setState LM_BOOTING_STATE lm)\<lparr>lm_catchupWork := None, lm_syncing := []\<rparr>)
     | Some APPLIED_BUCKETS \<Rightarrow>
         Inr (lm\<lparr>lm_chain := (lm_chain lm)\<lparr>
           cn_root := setHeader (cn_root (lm_chain lm)) (fh_header (he_header lastClosed)),
           cn_links := fh_links (he_header lastClosed), cn_lastClosed := lastClosed\<rparr>\<rparr>)
     | Some APPLIED_TRANSACTIONS \<Rightarrow>
         bindE (ensureE (he_hash lastClosed = he_hash (cn_lastClosed (lm_chain lm))) AssertionFailed) (\<lambda>_.
         bindE (ensureE (he_header lastClosed = he_header (cn_lastClosed (lm_chain lm))) AssertionFailed) (\<lambda>_.
         Inr lm))
     | Some FINISHED \<Rightarrow>
         applyBufferedLedgers (setCatchupState APPLYING_BUFFERED_LEDGERS (lm\<lparr>lm_catchupWork := None\<rparr>)))"

text \<open>The HTTP command, after its parameters are read.\<close>

definition commandCatchup :: "int \<Rightarrow> int \<Rightarrow> 'b LedgerManager \<Rightarrow> cpp_error + 'b LedgerManager" where
  "commandCatchup target cnt lm =
     (case lm_state lm of
        LM_BOOTING_STATE \<Rightarrow> Inr lm
      | LM_CATCHING_UP_STATE \<Rightarrow> Inr lm
      | LM_SYNCED_STATE \<Rightarrow> startCatchup \<lparr>cc_count = cnt, cc_ledgerHashPair = (target, None)\<rparr> True lm)"

subsection \<open>Runs\<close>

text \<open>What happens to the manager. Writing buckets replaces the entries of the root and the bucket list before
  the work reports it.\<close>

datatype 'b LMEvent =
    Externalized LedgerCloseData
  | ReplayedLedger LedgerCloseData
  | WroteBuckets ledger 'b LedgerHeaderHistoryEntry
  | ReportedTransactions LedgerHeaderHistoryEntry
  | HistoryFinished LedgerHeaderHistoryEntry
  | HistoryFailed
  | MainThread
  | ManualCatchup int int

fun lm_apply :: "'b LMEnv \<Rightarrow> 'b LedgerManager \<Rightarrow> 'b LMEvent \<Rightarrow> cpp_error + 'b LedgerManager" where
  "lm_apply ev lm (Externalized lcd) = valueExternalized ev lm lcd"
| "lm_apply ev lm (ReplayedLedger lcd) =
     bindE (closeLedger (ev_node ev) (lm_chain lm) lcd) (\<lambda>c. Inr (lm\<lparr>lm_chain := c\<rparr>))"
| "lm_apply ev lm (WroteBuckets l bl e) =
     historyCaughtup (Some APPLIED_BUCKETS) e (lm\<lparr>lm_chain := (lm_chain lm)\<lparr>cn_root := l, cn_bucketList := bl\<rparr>\<rparr>)"
| "lm_apply ev lm (ReportedTransactions e) = historyCaughtup (Some APPLIED_TRANSACTIONS) e lm"
| "lm_apply ev lm (HistoryFinished e) = historyCaughtup (Some FINISHED) e lm"
| "lm_apply ev lm HistoryFailed = historyCaughtup None emptyEntry lm"
| "lm_apply ev lm MainThread = applyBufferedTask ev lm"
| "lm_apply ev lm (ManualCatchup target cnt) = commandCatchup target cnt lm"

text \<open>Only a work in progress reports, and only a posted task runs.\<close>

definition enabled :: "'b LedgerManager \<Rightarrow> 'b LMEvent \<Rightarrow> bool" where
  "enabled lm event = (case event of
     Externalized _ \<Rightarrow> True
   | ManualCatchup _ _ \<Rightarrow> True
   | MainThread \<Rightarrow> 0 < lm_posted lm
   | _ \<Rightarrow> lm_catchupWork lm \<noteq> None)"

definition lcd_ok :: "'b LMEnv \<Rightarrow> LedgerCloseData \<Rightarrow> bool" where
  "lcd_ok ev lcd \<longleftrightarrow> closable (ev_node ev) lcd \<and> 0 \<le> lcd_ledgerSeq lcd \<and> lcd_ledgerSeq lcd < 2 ^ 32"

definition chain_ok :: "'b LMEnv \<Rightarrow> 'b Chain \<Rightarrow> bool" where
  "chain_ok ev c \<longleftrightarrow> ledger_ok (cn_root c) \<and> head_ok (ev_node ev) c \<and> 0 \<le> lcl_seq c"

text \<open>The data of an event are in the ranges of their XDR types, and the buckets that are written hold a
  well-formed ledger.\<close>

definition event_typed :: "'b LMEnv \<Rightarrow> 'b LMEvent \<Rightarrow> bool" where
  "event_typed ev event = (case event of
     Externalized lcd \<Rightarrow> lcd_ok ev lcd
   | ReplayedLedger lcd \<Rightarrow> lcd_ok ev lcd
   | WroteBuckets l bl e \<Rightarrow> ledger_ok (setHeader l (fh_header (he_header e)))
       \<and> he_hash e = nd_headerHash (ev_node ev) (he_header e) \<and> 0 \<le> he_seq e
   | _ \<Rightarrow> True)"

inductive lm_reachable ::
    "('b LedgerManager \<Rightarrow> 'b LMEvent \<Rightarrow> bool) \<Rightarrow> 'b LMEnv \<Rightarrow> 'b LedgerManager \<Rightarrow> 'b LedgerManager \<Rightarrow> bool"
  for P ev lm0 where
  reach_start: "lm_reachable P ev lm0 lm0"
| reach_step: "\<lbrakk>lm_reachable P ev lm0 lm; enabled lm event; event_typed ev event; P lm event; lm_apply ev lm event = Inr lm'\<rbrakk>
    \<Longrightarrow> lm_reachable P ev lm0 lm'"

definition booted :: "'b LMEnv \<Rightarrow> 'b LedgerManager \<Rightarrow> bool" where
  "booted ev lm \<longleftrightarrow> lm_state lm \<noteq> LM_CATCHING_UP_STATE \<and> lm_catchupState lm = CATCHUP_NONE \<and> lm_syncing lm = []
     \<and> lm_catchupWork lm = None \<and> lm_posted lm = 0 \<and> chain_ok ev (lm_chain lm)"

subsection \<open>Invariant\<close>

definition contiguous :: "LedgerCloseData list \<Rightarrow> bool" where
  "contiguous xs \<longleftrightarrow> successively (\<lambda>a b. lcd_ledgerSeq b = (lcd_ledgerSeq a + 1) mod 2 ^ 32) xs"

definition lm_inv :: "'b LMEnv \<Rightarrow> 'b LedgerManager \<Rightarrow> bool" where
  "lm_inv ev lm \<longleftrightarrow> chain_ok ev (lm_chain lm) \<and> list_all (lcd_ok ev) (lm_syncing lm) \<and> contiguous (lm_syncing lm)
     \<and> lm_posted lm = (if lm_catchupState lm = APPLYING_BUFFERED_LEDGERS then 1 else 0)
     \<and> (lm_catchupWork lm \<noteq> None \<longleftrightarrow> lm_catchupState lm = APPLYING_HISTORY)
     \<and> (lm_state lm = LM_CATCHING_UP_STATE \<longleftrightarrow> lm_catchupState lm \<noteq> CATCHUP_NONE)
     \<and> (lm_catchupState lm = CATCHUP_NONE \<or> lm_catchupState lm = WAITING_FOR_CLOSING_LEDGER \<longrightarrow> lm_syncing lm = [])
     \<and> (lm_catchupState lm = WAITING_FOR_TRIGGER_LEDGER \<longrightarrow>
          lm_syncing lm \<noteq> [] \<and> lm_lcl lm + 1 < lcd_ledgerSeq (List.hd (lm_syncing lm)))"

text \<open>What a catch-up that was started automatically lines up: the work's target is the ledger before the
  first buffered one, and then the buffered ledgers continue the last closed one.\<close>

definition lined_up :: "'b LedgerManager \<Rightarrow> bool" where
  "lined_up lm \<longleftrightarrow>
     (lm_catchupState lm = APPLYING_HISTORY \<longrightarrow> lm_syncing lm \<noteq> [] \<and> (\<exists>cfg. lm_catchupWork lm = Some cfg
        \<and> cc_ledgerHashPair cfg = ((lcd_ledgerSeq (List.hd (lm_syncing lm)) - 1) mod 2 ^ 32,
              Some (previousHashOf (List.hd (lm_syncing lm))))))
   \<and> (lm_catchupState lm = APPLYING_BUFFERED_LEDGERS \<and> lm_syncing lm \<noteq> [] \<longrightarrow>
        lcd_ledgerSeq (List.hd (lm_syncing lm)) = (lm_lcl lm + 1) mod 2 ^ 32)"

text \<open>The environment plays by the rules: the network's ledgers have no gap while buffered ledgers are applied,
  a work that reports success is at its target, and nobody starts a catch-up by hand.\<close>

definition honest :: "'b LedgerManager \<Rightarrow> 'b LMEvent \<Rightarrow> bool" where
  "honest lm event = (case event of
     Externalized lcd \<Rightarrow> lm_catchupState lm = APPLYING_BUFFERED_LEDGERS \<and> lm_syncing lm = []
       \<longrightarrow> lcd_ledgerSeq lcd = (lm_lcl lm + 1) mod 2 ^ 32
   | ReportedTransactions e \<Rightarrow> e = cn_lastClosed (lm_chain lm)
   | HistoryFinished e \<Rightarrow> (case lm_catchupWork lm of None \<Rightarrow> False | Some cfg \<Rightarrow> lm_lcl lm = toLedger cfg)
   | ManualCatchup _ _ \<Rightarrow> False
   | _ \<Rightarrow> True)"

lemma push_ok:
  assumes "list_all (lcd_ok ev) xs" "contiguous xs" "lcd_ok ev lcd"
  shows "list_all (lcd_ok ev) (snd (syncing_push xs lcd))" "contiguous (snd (syncing_push xs lcd))"
    "snd (syncing_push xs lcd) \<noteq> []"
    "xs \<noteq> [] \<Longrightarrow> List.hd (snd (syncing_push xs lcd)) = List.hd xs"
    "xs = [] \<Longrightarrow> snd (syncing_push xs lcd) = [lcd]"
  using assms by (auto simp: syncing_push_def contiguous_def successively_append_iff)

lemma close_chain:
  assumes "chain_ok ev c" "closable (ev_node ev) lcd" "closeLedger (ev_node ev) c lcd = Inr c'"
  shows "chain_ok ev c'" "lcl_seq c' = (lcl_seq c + 1) mod 2 ^ 32"
proof -
  from assms(1) have c: "ledger_ok (cn_root c)" "head_ok (ev_node ev) c" by (simp_all add: chain_ok_def)
  note st = closeLedger_step [OF c(1) assms(2,3)] and h = closeLedger_head(1) [OF assms(3)]
  from st(3) c(2) h show "lcl_seq c' = (lcl_seq c + 1) mod 2 ^ 32" by (simp add: head_ok_def fullHeader_def)
  with st h show "chain_ok ev c'" by (simp add: chain_ok_def)
qed

lemma setCatchupState_eq: "lm_state lm = LM_CATCHING_UP_STATE \<Longrightarrow> setCatchupState s lm = lm\<lparr>lm_catchupState := s\<rparr>"
  by (simp add: setCatchupState_def setState_def)

text \<open>With ledgers buffered, nothing that can start a catch-up fails.\<close>

lemma startCatchupIf_result:
  assumes inv: "lm_inv ev lm" and "lm_syncing lm \<noteq> []"
  obtains "startCatchupIf ev s lm = Inr lm" "lm_catchupState lm \<noteq> CATCHUP_NONE"
  | cfg where "lm_catchupState lm = WAITING_FOR_TRIGGER_LEDGER"
    "startCatchupIf ev s lm = Inr (lm\<lparr>lm_catchupState := APPLYING_HISTORY, lm_catchupWork := Some cfg\<rparr>)"
    "cc_ledgerHashPair cfg = ((lcd_ledgerSeq (List.hd (lm_syncing lm)) - 1) mod 2 ^ 32,
        Some (previousHashOf (List.hd (lm_syncing lm))))"
proof (cases "lm_catchupState lm = WAITING_FOR_TRIGGER_LEDGER \<and> lm_triggerLedger lm \<le> s")
  case False
  with assms that(1) show thesis by (auto simp: startCatchupIf_def lm_inv_def)
next
  case True
  let ?front = "List.hd (lm_syncing lm)"
  let ?cfg = "\<lparr>cc_count = getCatchupCount ev, cc_ledgerHashPair = ((lcd_ledgerSeq ?front - 1) mod 2 ^ 32, Some (previousHashOf ?front))\<rparr>"
  from assms True have st: "lm_state lm = LM_CATCHING_UP_STATE" "lm_catchupWork lm = None" "0 \<le> lm_lcl lm"
    "lm_lcl lm + 1 < lcd_ledgerSeq ?front"
    by (auto simp: lm_inv_def chain_ok_def)
  have "lcd_ok ev ?front" using assms by (cases "lm_syncing lm") (auto simp: lm_inv_def)
  then have "(lcd_ledgerSeq ?front - 1) mod 2 ^ 32 = lcd_ledgerSeq ?front - 1" using st by (simp add: lcd_ok_def)
  then have new: "\<not> toLedger ?cfg \<le> lm_lcl lm" using st by (simp add: toLedger_def)
  have "startCatchupIf ev s lm = Inr (lm\<lparr>lm_catchupState := APPLYING_HISTORY, lm_catchupWork := Some ?cfg\<rparr>)"
    using True assms(2) st new
    by (simp add: startCatchupIf_def startCatchup_def catchupHistory_def Let_def setCatchupState_eq)
  then show thesis by (rule that(2) [rotated]) (simp_all add: True)
qed

lemma startCatchupIf_inv:
  assumes inv: "lm_inv ev lm" and ne: "lm_syncing lm \<noteq> []"
  shows "\<exists>lm'. startCatchupIf ev s lm = Inr lm' \<and> lm_inv ev lm' \<and> (lined_up lm \<longrightarrow> lined_up lm')"
proof (rule startCatchupIf_result [OF assms, of s])
  fix cfg
  assume w: "lm_catchupState lm = WAITING_FOR_TRIGGER_LEDGER"
    and r: "startCatchupIf ev s lm = Inr (lm\<lparr>lm_catchupState := APPLYING_HISTORY, lm_catchupWork := Some cfg\<rparr>)"
    and c: "cc_ledgerHashPair cfg = ((lcd_ledgerSeq (List.hd (lm_syncing lm)) - 1) mod 2 ^ 32,
        Some (previousHashOf (List.hd (lm_syncing lm))))"
  let ?lm = "lm\<lparr>lm_catchupState := APPLYING_HISTORY, lm_catchupWork := Some cfg\<rparr>"
  have "lm_inv ev ?lm" using inv w by (simp add: lm_inv_def)
  moreover have "lined_up ?lm" using ne c by (simp add: lined_up_def)
  ultimately show ?thesis using r by blast
qed (use inv in blast)

lemma initializeCatchup_inv:
  assumes inv: "lm_inv ev lm" and s: "lm_catchupState lm = CATCHUP_NONE" and lcd: "lcd_ok ev lcd" "lm_lcl lm + 1 < lcd_ledgerSeq lcd"
  shows "\<exists>lm'. initializeCatchup ev lm lcd = Inr lm' \<and> lm_inv ev lm' \<and> lined_up lm'"
proof -
  define lm3 where "lm3 = lm\<lparr>lm_state := LM_CATCHING_UP_STATE, lm_catchupState := WAITING_FOR_TRIGGER_LEDGER,
     lm_triggerLedger := (nextCheckpointLedger (ev_history ev) (lcd_ledgerSeq lcd) + 1) mod 2 ^ 32, lm_syncing := [lcd]\<rparr>"
  have st: "lm_state lm \<noteq> LM_CATCHING_UP_STATE" "lm_syncing lm = []" using inv s by (simp_all add: lm_inv_def)
  have i3: "lm_inv ev lm3" using inv s lcd by (simp add: lm_inv_def lm3_def contiguous_def)
  have l3: "lined_up lm3" by (simp add: lined_up_def lm3_def)
  have "addToSyncingLedgers (setCatchupState WAITING_FOR_TRIGGER_LEDGER ((setState LM_CATCHING_UP_STATE lm)
      \<lparr>lm_triggerLedger := (nextCheckpointLedger (ev_history ev) (lcd_ledgerSeq lcd) + 1) mod 2 ^ 32\<rparr>)) lcd = lm3"
    using st by (simp add: setState_def setCatchupState_def addToSyncingLedgers_def syncing_push_def lm3_def)
  then have "initializeCatchup ev lm lcd = startCatchupIf ev (lcd_ledgerSeq lcd) lm3"
    using st s by (simp add: initializeCatchup_def Let_def)
  moreover have "lm_syncing lm3 \<noteq> []" by (simp add: lm3_def)
  ultimately show ?thesis using startCatchupIf_inv [OF i3] l3 by metis
qed

text \<open>\<open>closeLedgerIf\<close> closes the next ledger, or tells whether it is behind or ahead.\<close>

lemma closeLedgerIf_cases:
  assumes c: "chain_ok ev (lm_chain lm)" and lcd: "lcd_ok ev lcd"
  obtains (inconsistent) "closeLedgerIf ev lm lcd = Inl (RuntimeError ''Network consensus inconsistency'')"
  | (threw) e where "closeLedger (ev_node ev) (lm_chain lm) lcd = Inl e" "closeLedgerIf ev lm lcd = Inl e"
  | (closed) ch where "closeLedger (ev_node ev) (lm_chain lm) lcd = Inr ch" "closeLedgerIf ev lm lcd = Inr (CLOSED, lm\<lparr>lm_chain := ch\<rparr>)"
  | (old) "closeLedgerIf ev lm lcd = Inr (CLOSE_TOO_OLD, lm)"
  | (new) "closeLedgerIf ev lm lcd = Inr (CLOSE_TOO_NEW, lm)" "lm_lcl lm + 1 < lcd_ledgerSeq lcd"
proof (cases "(lm_lcl lm + 1) mod 2 ^ 32 = lcd_ledgerSeq lcd")
  case True
  show thesis
  proof (cases "he_hash (cn_lastClosed (lm_chain lm)) = previousHashOf lcd")
    case hash: True
    show thesis
    proof (cases "closeLedger (ev_node ev) (lm_chain lm) lcd")
      case (Inl e)
      with True hash show thesis by (intro threw) (simp_all add: closeLedgerIf_def)
    next
      case (Inr ch)
      with True hash show thesis by (intro closed) (simp_all add: closeLedgerIf_def)
    qed
  next
    case False
    with True show thesis by (intro inconsistent) (simp add: closeLedgerIf_def)
  qed
next
  case False
  show thesis
  proof (cases "lcd_ledgerSeq lcd \<le> lm_lcl lm")
    case True
    with False show thesis by (intro old) (simp add: closeLedgerIf_def)
  next
    case ahead: False
    have "0 \<le> lm_lcl lm" "lcd_ledgerSeq lcd < 2 ^ 32" using assms by (simp_all add: chain_ok_def lcd_ok_def)
    with False ahead have "lm_lcl lm + 1 < lcd_ledgerSeq lcd" by (cases "lcd_ledgerSeq lcd = lm_lcl lm + 1") auto
    with False ahead show thesis by (intro new) (simp_all add: closeLedgerIf_def)
  qed
qed

text \<open>The errors that are left: closing a ledger fails, or the network contradicts the node.\<close>

definition expected_error :: "'b LMEnv \<Rightarrow> 'b LedgerManager \<Rightarrow> cpp_error \<Rightarrow> bool" where
  "expected_error ev lm e \<longleftrightarrow> (\<exists>lcd. closeLedger (ev_node ev) (lm_chain lm) lcd = Inl e)
     \<or> e = RuntimeError ''Network consensus inconsistency''"

definition step_ok :: "'b LMEnv \<Rightarrow> 'b LedgerManager \<Rightarrow> bool \<Rightarrow> cpp_error + 'b LedgerManager \<Rightarrow> bool" where
  "step_ok ev lm fair r \<longleftrightarrow> (case r of
     Inl e \<Rightarrow> fair \<longrightarrow> expected_error ev lm e
   | Inr lm' \<Rightarrow> lm_inv ev lm' \<and> (fair \<longrightarrow> lined_up lm'))"

lemma step_ok_Inr: "\<lbrakk>lm_inv ev lm'; fair \<Longrightarrow> lined_up lm'\<rbrakk> \<Longrightarrow> step_ok ev lm fair (Inr lm')"
  by (simp add: step_ok_def)

lemma inv_chain: "\<lbrakk>lm_inv ev lm; chain_ok ev ch; lm_catchupState lm = CATCHUP_NONE \<or> lm_catchupState lm = WAITING_FOR_CLOSING_LEDGER\<rbrakk>
  \<Longrightarrow> lm_inv ev (setState LM_SYNCED_STATE (lm\<lparr>lm_chain := ch\<rparr>)) \<and> lined_up (setState LM_SYNCED_STATE (lm\<lparr>lm_chain := ch\<rparr>))"
  by (auto simp: lm_inv_def setState_def lined_up_def)

lemma valueExternalized_step:
  assumes inv: "lm_inv ev lm" and lcd: "lcd_ok ev lcd"
  shows "step_ok ev lm (lined_up lm \<and> honest lm (Externalized lcd)) (valueExternalized ev lm lcd)"
proof -
  let ?fair = "lined_up lm \<and> honest lm (Externalized lcd)"
  have c: "chain_ok ev (lm_chain lm)" using inv by (simp add: lm_inv_def)
  have cl: "closable (ev_node ev) lcd" using lcd by (simp add: lcd_ok_def)
  consider (idle) "lm_catchupState lm = CATCHUP_NONE" | (final) "lm_catchupState lm = WAITING_FOR_CLOSING_LEDGER"
    | (busy) "lm_catchupState lm \<noteq> CATCHUP_NONE" "lm_catchupState lm \<noteq> WAITING_FOR_CLOSING_LEDGER" by blast
  then show ?thesis
  proof cases
    case idle
    then have st: "lm_state lm \<noteq> LM_CATCHING_UP_STATE" using inv by (simp add: lm_inv_def)
    from c lcd show ?thesis
    proof (cases rule: closeLedgerIf_cases)
      case (closed ch)
      with st inv_chain [OF inv close_chain(1) [OF c cl closed(1)]] idle show ?thesis
        by (simp add: valueExternalized_def step_ok_def)
    next
      case new
      with st initializeCatchup_inv [OF inv idle lcd] show ?thesis by (auto simp: valueExternalized_def step_ok_def)
    next
      case old
      with st inv idle show ?thesis by (simp add: valueExternalized_def step_ok_def lined_up_def)
    qed (use st in \<open>auto simp: valueExternalized_def step_ok_def expected_error_def\<close>)
  next
    case final
    then have st: "lm_state lm = LM_CATCHING_UP_STATE" "lm_syncing lm = []" using inv by (simp_all add: lm_inv_def)
    from c lcd show ?thesis
    proof (cases rule: closeLedgerIf_cases)
      case (closed ch)
      with st final inv_chain [OF inv close_chain(1) [OF c cl closed(1)]] show ?thesis
        by (simp add: valueExternalized_def finalizeCatchup_def step_ok_def)
    next
      case new
      have b: "lm_inv ev (setState LM_BOOTING_STATE lm)" "lm_catchupState (setState LM_BOOTING_STATE lm) = CATCHUP_NONE"
        "lm_lcl (setState LM_BOOTING_STATE lm) = lm_lcl lm"
        using inv st final by (auto simp: lm_inv_def setState_def)
      from new initializeCatchup_inv [OF b(1,2) lcd] b(3) st final show ?thesis
        by (auto simp: valueExternalized_def finalizeCatchup_def step_ok_def)
    next
      case old
      with st final inv show ?thesis by (simp add: valueExternalized_def finalizeCatchup_def step_ok_def lined_up_def)
    qed (use st final in \<open>auto simp: valueExternalized_def finalizeCatchup_def step_ok_def expected_error_def\<close>)
  next
    case busy
    let ?lm = "addToSyncingLedgers lm lcd"
    have st: "lm_state lm = LM_CATCHING_UP_STATE" using inv busy by (simp add: lm_inv_def)
    have l: "list_all (lcd_ok ev) (lm_syncing lm)" "contiguous (lm_syncing lm)" using inv by (simp_all add: lm_inv_def)
    note p = push_ok [OF l lcd]
    have i: "lm_inv ev ?lm" using inv busy p by (auto simp: addToSyncingLedgers_def lm_inv_def)
    have "lined_up ?lm" if ?fair
    proof (cases "lm_syncing lm = []")
      case True
      then show ?thesis using that p(5) by (auto simp: addToSyncingLedgers_def lined_up_def honest_def)
    next
      case False
      then show ?thesis using that p(3,4) by (simp add: addToSyncingLedgers_def lined_up_def)
    qed
    moreover have "lm_syncing ?lm \<noteq> []" using p(3) by (simp add: addToSyncingLedgers_def)
    moreover have "valueExternalized ev lm lcd = startCatchupIf ev (lcd_ledgerSeq lcd) ?lm"
      using st busy by (simp add: valueExternalized_def continueCatchup_def)
    ultimately show ?thesis using startCatchupIf_inv [OF i, of "lcd_ledgerSeq lcd"] by (auto simp: step_ok_def)
  qed
qed

lemma next_of_previous: "\<lbrakk>0 \<le> x; x < 2 ^ 32; l = (x - 1) mod 2 ^ 32\<rbrakk> \<Longrightarrow> x = (l + 1) mod 2 ^ (32 :: nat)" for x l :: int
  by (simp add: mod_add_left_eq)

lemma MainThread_step:
  assumes inv: "lm_inv ev lm" and posted: "0 < lm_posted lm"
  shows "step_ok ev lm (lined_up lm) (applyBufferedTask ev lm)"
proof -
  have st: "lm_catchupState lm = APPLYING_BUFFERED_LEDGERS" "lm_posted lm = 1" "lm_catchupWork lm = None"
    "lm_state lm = LM_CATCHING_UP_STATE"
    using inv posted by (auto simp: lm_inv_def split: if_split_asm)
  show ?thesis
  proof (cases "lm_syncing lm")
    case Nil
    have "lm_inv ev (setCatchupState WAITING_FOR_CLOSING_LEDGER (lm\<lparr>lm_posted := 0\<rparr>))"
      "lined_up (setCatchupState WAITING_FOR_CLOSING_LEDGER (lm\<lparr>lm_posted := 0\<rparr>))"
      using inv st Nil by (simp_all add: setCatchupState_eq lm_inv_def lined_up_def)
    with Nil st show ?thesis by (simp add: applyBufferedTask_def Let_def step_ok_def)
  next
    case (Cons lcd rest)
    then have lcd: "lcd_ok ev lcd" "closable (ev_node ev) lcd" using inv by (simp_all add: lm_inv_def lcd_ok_def)
    have c: "chain_ok ev (lm_chain lm)" using inv by (simp add: lm_inv_def)
    show ?thesis
    proof (cases "lcd_ledgerSeq lcd = (lm_lcl lm + 1) mod 2 ^ 32")
      case False
      then have "\<not> lined_up lm" using Cons st by (simp add: lined_up_def)
      with False Cons show ?thesis by (simp add: applyBufferedTask_def Let_def step_ok_def)
    next
      case True
      show ?thesis
      proof (cases "closeLedger (ev_node ev) (lm_chain lm) lcd")
        case (Inl e)
        with True Cons show ?thesis
          by (auto simp: applyBufferedTask_def Let_def step_ok_def expected_error_def)
      next
        case (Inr ch)
        note cc = close_chain [OF c lcd(2) Inr]
        let ?lm = "lm\<lparr>lm_chain := ch, lm_syncing := rest\<rparr>"
        have "contiguous rest" "rest \<noteq> [] \<Longrightarrow> lcd_ledgerSeq (List.hd rest) = (lcd_ledgerSeq lcd + 1) mod 2 ^ 32"
          using inv Cons by (cases rest; simp add: lm_inv_def contiguous_def)+
        then have "lm_inv ev ?lm" "lined_up ?lm"
          using inv st Cons cc True by (simp_all add: lm_inv_def lined_up_def)
        moreover have "applyBufferedTask ev lm = Inr ?lm"
          using True Cons Inr st by (simp add: applyBufferedTask_def applyBufferedLedgers_def Let_def)
        ultimately show ?thesis by (simp add: step_ok_def)
      qed
    qed
  qed
qed

lemma working_state:
  assumes "lm_inv ev lm" "lm_catchupWork lm \<noteq> None"
  shows "lm_catchupState lm = APPLYING_HISTORY" "lm_posted lm = 0" "lm_state lm = LM_CATCHING_UP_STATE"
  using assms by (auto simp: lm_inv_def)

lemma history_step:
  assumes inv: "lm_inv ev lm" and w: "lm_catchupWork lm \<noteq> None"
  shows "lcd_ok ev lcd \<Longrightarrow> step_ok ev lm (lined_up lm) (lm_apply ev lm (ReplayedLedger lcd))"
    "event_typed ev (WroteBuckets l bl e) \<Longrightarrow> step_ok ev lm (lined_up lm) (lm_apply ev lm (WroteBuckets l bl e))"
    "step_ok ev lm (lined_up lm \<and> honest lm (ReportedTransactions e)) (lm_apply ev lm (ReportedTransactions e))"
    "step_ok ev lm (lined_up lm) (lm_apply ev lm HistoryFailed)"
proof -
  note st = working_state [OF inv w]
  have c: "chain_ok ev (lm_chain lm)" using inv by (simp add: lm_inv_def)
  show "step_ok ev lm (lined_up lm) (lm_apply ev lm (ReplayedLedger lcd))" if "lcd_ok ev lcd"
  proof (cases "closeLedger (ev_node ev) (lm_chain lm) lcd")
    case (Inl e)
    then show ?thesis by (auto simp: step_ok_def expected_error_def)
  next
    case (Inr ch)
    have "chain_ok ev ch" by (rule close_chain(1) [OF c _ Inr]) (use that in \<open>simp add: lcd_ok_def\<close>)
    with Inr inv st show ?thesis by (simp add: step_ok_def lm_inv_def lined_up_def)
  qed
  show "step_ok ev lm (lined_up lm) (lm_apply ev lm (WroteBuckets l bl e))" if "event_typed ev (WroteBuckets l bl e)"
  proof -
    let ?ch = "(lm_chain lm)\<lparr>cn_bucketList := bl, cn_root := setHeader l (fh_header (he_header e)),
      cn_links := fh_links (he_header e), cn_lastClosed := e\<rparr>"
    have "fullHeader ?ch = he_header e" by (simp add: fullHeader_def setHeader_def)
    with that have "chain_ok ev ?ch" by (simp add: event_typed_def chain_ok_def head_ok_def)
    then have "lm_inv ev (lm\<lparr>lm_chain := ?ch\<rparr>)" "lined_up lm \<Longrightarrow> lined_up (lm\<lparr>lm_chain := ?ch\<rparr>)"
      using inv st by (simp_all add: lm_inv_def lined_up_def)
    then show ?thesis using st by (simp add: historyCaughtup_def step_ok_def)
  qed
  show "step_ok ev lm (lined_up lm \<and> honest lm (ReportedTransactions e)) (lm_apply ev lm (ReportedTransactions e))"
    using st inv by (auto simp: historyCaughtup_def step_ok_def honest_def bindE_eq_Inl split: sum.split)
  have "lm_inv ev ((setState LM_BOOTING_STATE lm)\<lparr>lm_catchupWork := None, lm_syncing := []\<rparr>)"
    "lined_up ((setState LM_BOOTING_STATE lm)\<lparr>lm_catchupWork := None, lm_syncing := []\<rparr>)"
    using inv st by (simp_all add: setState_def lm_inv_def lined_up_def contiguous_def)
  then show "step_ok ev lm (lined_up lm) (lm_apply ev lm HistoryFailed)"
    using st by (simp add: historyCaughtup_def step_ok_def)
qed

lemma HistoryFinished_step:
  assumes inv: "lm_inv ev lm" and w: "lm_catchupWork lm \<noteq> None"
  shows "step_ok ev lm (lined_up lm \<and> honest lm (HistoryFinished e)) (lm_apply ev lm (HistoryFinished e))"
proof -
  note st = working_state [OF inv w]
  let ?lm = "lm\<lparr>lm_catchupWork := None, lm_catchupState := APPLYING_BUFFERED_LEDGERS, lm_posted := 1\<rparr>"
  have r: "lm_apply ev lm (HistoryFinished e) = Inr ?lm"
    using st by (simp add: historyCaughtup_def applyBufferedLedgers_def setCatchupState_eq)
  have "lm_inv ev ?lm" using inv st by (simp add: lm_inv_def)
  moreover have "lined_up ?lm" if f: "lined_up lm" "honest lm (HistoryFinished e)"
  proof -
    let ?x = "lcd_ledgerSeq (List.hd (lm_syncing lm))"
    from f st have "lm_syncing lm \<noteq> []" "lm_lcl lm = (?x - 1) mod 2 ^ 32"
      by (auto simp: lined_up_def honest_def toLedger_def)
    moreover from this inv have "lcd_ok ev (List.hd (lm_syncing lm))" by (cases "lm_syncing lm") (auto simp: lm_inv_def)
    ultimately have "?x = (lm_lcl lm + 1) mod 2 ^ 32" by (intro next_of_previous) (simp_all add: lcd_ok_def)
    then show ?thesis by (simp add: lined_up_def)
  qed
  ultimately show ?thesis using r by (simp add: step_ok_def)
qed

lemma ManualCatchup_step:
  assumes inv: "lm_inv ev lm"
  shows "step_ok ev lm False (lm_apply ev lm (ManualCatchup target cnt))"
proof (cases "lm_apply ev lm (ManualCatchup target cnt)")
  case (Inr lm')
  then consider "lm' = lm" | cfg where "lm_state lm = LM_SYNCED_STATE"
    "lm' = lm\<lparr>lm_catchupState := APPLYING_HISTORY, lm_state := LM_CATCHING_UP_STATE, lm_catchupWork := Some cfg\<rparr>"
    by (auto simp: commandCatchup_def startCatchup_def catchupHistory_def Let_def setCatchupState_def setState_def
        split: LedgerManagerState.split_asm if_split_asm)
  then show ?thesis using inv Inr by cases (auto simp: step_ok_def lm_inv_def)
qed (simp add: step_ok_def)

lemma lm_step:
  assumes inv: "lm_inv ev lm" and e: "enabled lm event" "event_typed ev event"
  shows "step_ok ev lm (lined_up lm \<and> honest lm event) (lm_apply ev lm event)"
proof (cases event)
  case (Externalized lcd)
  with assms show ?thesis using valueExternalized_step [OF inv, of lcd] by (simp add: event_typed_def)
next
  case (ManualCatchup t n)
  then show ?thesis using ManualCatchup_step [OF inv] by (simp add: step_ok_def honest_def)
next
  case MainThread
  then show ?thesis using MainThread_step [OF inv] e(1) by (simp add: enabled_def honest_def)
next
  case (HistoryFinished h)
  then show ?thesis using HistoryFinished_step [OF inv] e(1) by (simp add: enabled_def)
qed (use history_step [OF inv] e in \<open>simp_all add: enabled_def honest_def event_typed_def\<close>)

lemma booted_inv: "booted ev lm \<Longrightarrow> lm_inv ev lm \<and> lined_up lm"
  by (simp add: booted_def lm_inv_def lined_up_def contiguous_def)

lemma reachable_inv: "\<lbrakk>lm_reachable P ev lm0 lm; booted ev lm0\<rbrakk> \<Longrightarrow> lm_inv ev lm"
proof (induction rule: lm_reachable.induct)
  case (reach_step lm event lm')
  with lm_step [OF _ reach_step.hyps(2,3)] show ?case by (simp add: step_ok_def)
qed (simp add: booted_inv)

lemma honest_lined_up: "\<lbrakk>lm_reachable honest ev lm0 lm; booted ev lm0\<rbrakk> \<Longrightarrow> lined_up lm"
proof (induction rule: lm_reachable.induct)
  case (reach_step lm event lm')
  with lm_step [OF reachable_inv [OF reach_step.hyps(1) reach_step.prems] reach_step.hyps(2,3)]
  show ?case by (simp add: step_ok_def)
qed (simp add: booted_inv)

text \<open>C9. In every state that a manager reaches from its start, whatever happens to it: it is catching up
  exactly in the catch-up states, a work is in progress exactly while history is applied, one task is
  posted exactly while buffered ledgers are applied, the buffered ledgers have consecutive numbers, and
  there are none when it is in sync or waits for the closing ledger.\<close>

theorem manager_invariant:
  assumes "booted ev lm0" "lm_reachable (\<lambda>lm event. True) ev lm0 lm"
  shows "(lm_state lm = LM_CATCHING_UP_STATE \<longleftrightarrow> lm_catchupState lm \<noteq> CATCHUP_NONE)
    \<and> (lm_catchupWork lm \<noteq> None \<longleftrightarrow> lm_catchupState lm = APPLYING_HISTORY)
    \<and> (lm_posted lm = (if lm_catchupState lm = APPLYING_BUFFERED_LEDGERS then 1 else 0))
    \<and> contiguous (lm_syncing lm) \<and> ledger_ok (cn_root (lm_chain lm))
    \<and> (lm_state lm = LM_SYNCED_STATE \<or> lm_catchupState lm = WAITING_FOR_CLOSING_LEDGER \<longrightarrow> lm_syncing lm = [])"
  using reachable_inv [OF assms(2,1)] by (auto simp: lm_inv_def chain_ok_def)

text \<open>C6. A node that catches up by itself gets through: when the network's ledgers come without a gap while the
  buffered ones are applied, and a work that reports success is at its target, no assertion of the
  manager fails and no catch-up is refused. What can still go wrong is the closing of a ledger itself, or
  a network that contradicts what the node closed.\<close>

theorem manager_never_aborts:
  assumes "booted ev lm0" "lm_reachable honest ev lm0 lm" "enabled lm event" "event_typed ev event" "honest lm event"
    and "lm_apply ev lm event = Inl e"
  shows "(\<exists>lcd. closeLedger (ev_node ev) (lm_chain lm) lcd = Inl e) \<or> e = RuntimeError ''Network consensus inconsistency''"
  using lm_step [OF reachable_inv [OF assms(2,1)] assms(3,4)] honest_lined_up [OF assms(2,1)] assms(5,6)
  by (simp add: step_ok_def expected_error_def)

text \<open>C11. The rule about gaps is needed: if the buffer is empty while the task that empties it is still to run, and
  the next value that is externalised is not that of the next ledger, the task fails an assertion and the
  process ends.\<close>

theorem gap_while_draining_aborts:
  assumes "booted ev lm0" "lm_reachable (\<lambda>lm event. True) ev lm0 lm"
    and "lm_catchupState lm = APPLYING_BUFFERED_LEDGERS" "lm_syncing lm = []" "lcd_ok ev lcd"
    and "lcd_ledgerSeq lcd \<noteq> (lm_lcl lm + 1) mod 2 ^ 32"
  shows "\<exists>lm'. lm_apply ev lm (Externalized lcd) = Inr lm' \<and> enabled lm' MainThread
    \<and> lm_apply ev lm' MainThread = Inl AssertionFailed"
proof -
  note inv = reachable_inv [OF assms(2,1)]
  let ?lm = "lm\<lparr>lm_syncing := [lcd]\<rparr>"
  have st: "lm_state lm = LM_CATCHING_UP_STATE" "lm_posted lm = 1" using inv assms(3) by (simp_all add: lm_inv_def)
  have "lm_apply ev lm (Externalized lcd) = Inr ?lm"
    using st assms(3,4) by (simp add: valueExternalized_def continueCatchup_def addToSyncingLedgers_def syncing_push_def startCatchupIf_def)
  moreover have "lm_apply ev ?lm MainThread = Inl AssertionFailed"
    using assms(6) by (simp add: applyBufferedTask_def)
  ultimately show ?thesis using st by (auto simp: enabled_def)
qed

fun runMainThread :: "nat \<Rightarrow> 'b LMEnv \<Rightarrow> 'b LedgerManager \<Rightarrow> cpp_error + 'b LedgerManager" where
  "runMainThread 0 ev lm = Inr lm"
| "runMainThread (Suc n) ev lm = bindE (lm_apply ev lm MainThread) (runMainThread n ev)"

lemma drain_steps:
  "\<lbrakk>lm_inv ev lm; lined_up lm; lm_catchupState lm = APPLYING_BUFFERED_LEDGERS;
    closeLedgers (ev_node ev) (lm_chain lm) (lm_syncing lm) = Inr (c', hs)\<rbrakk>
   \<Longrightarrow> runMainThread (Suc (length (lm_syncing lm))) ev lm
     = Inr (lm\<lparr>lm_chain := c', lm_syncing := [], lm_posted := 0, lm_catchupState := WAITING_FOR_CLOSING_LEDGER\<rparr>)"
proof (induction "lm_syncing lm" arbitrary: lm hs)
  case Nil
  then have "lm_state lm = LM_CATCHING_UP_STATE" "lm_posted lm = 1" by (simp_all add: lm_inv_def)
  with Nil show ?case by (simp add: applyBufferedTask_def Let_def setCatchupState_eq)
next
  case (Cons lcd rest)
  have p: "lm_posted lm = 1" using Cons.prems by (simp add: lm_inv_def)
  from Cons.prems(4) obtain c1 hs1 where c: "closeLedger (ev_node ev) (lm_chain lm) lcd = Inr c1"
    "closeLedgers (ev_node ev) c1 rest = Inr (c', hs1)"
    unfolding Cons.hyps(2) [symmetric] by (auto simp: bindE_def split: sum.split_asm prod.split_asm)
  let ?lm = "lm\<lparr>lm_chain := c1, lm_syncing := rest\<rparr>"
  have seq: "lcd_ledgerSeq lcd = (lm_lcl lm + 1) mod 2 ^ 32"
    using Cons.prems(2,3) unfolding lined_up_def Cons.hyps(2) [symmetric] by simp
  have step: "lm_apply ev lm MainThread = Inr ?lm"
    using seq c(1) p Cons.prems(3) by (simp add: applyBufferedTask_def applyBufferedLedgers_def Let_def flip: Cons.hyps(2))
  have "step_ok ev lm (lined_up lm \<and> honest lm MainThread) (Inr ?lm)"
    using lm_step [OF Cons.prems(1), of MainThread] step p by (simp add: enabled_def event_typed_def)
  then have "lm_inv ev ?lm" "lined_up ?lm" using Cons.prems(2) by (simp_all add: step_ok_def honest_def)
  from Cons.hyps(1) [of ?lm, OF _ this] c(2) Cons.prems(3) step
  show ?case by (simp flip: Cons.hyps(2))
qed

text \<open>C10. After a catch-up reported success the posted tasks close exactly the buffered ledgers, in their order and
  each once, and then the manager waits for the closing ledger; the next value brings it in sync.\<close>

theorem buffered_ledgers_drain:
  assumes "booted ev lm0" "lm_reachable honest ev lm0 lm" "lm_catchupState lm = APPLYING_BUFFERED_LEDGERS"
    and close: "closeLedgers (ev_node ev) (lm_chain lm) (lm_syncing lm) = Inr (c', hs)"
    and final: "lcd_ledgerSeq lcd = (lcl_seq c' + 1) mod 2 ^ 32" "previousHashOf lcd = he_hash (cn_lastClosed c')"
      "closeLedger (ev_node ev) c' lcd = Inr c''"
  shows "\<exists>lm' lm''. runMainThread (Suc (length (lm_syncing lm))) ev lm = Inr lm' \<and> lm_chain lm' = c'
    \<and> lm_catchupState lm' = WAITING_FOR_CLOSING_LEDGER \<and> lm_syncing lm' = []
    \<and> lm_apply ev lm' (Externalized lcd) = Inr lm'' \<and> lm_state lm'' = LM_SYNCED_STATE \<and> lm_chain lm'' = c''"
proof -
  let ?lm = "lm\<lparr>lm_chain := c', lm_syncing := [], lm_posted := 0, lm_catchupState := WAITING_FOR_CLOSING_LEDGER\<rparr>"
  note inv = reachable_inv [OF assms(2,1)]
  have "lm_state lm = LM_CATCHING_UP_STATE" using inv assms(3) by (simp add: lm_inv_def)
  then have "lm_apply ev ?lm (Externalized lcd) = Inr (setState LM_SYNCED_STATE (?lm\<lparr>lm_chain := c''\<rparr>))"
    using final by (simp add: valueExternalized_def finalizeCatchup_def closeLedgerIf_def)
  moreover have "lm_state (setState LM_SYNCED_STATE (?lm\<lparr>lm_chain := c''\<rparr>)) = LM_SYNCED_STATE"
    "lm_chain (setState LM_SYNCED_STATE (?lm\<lparr>lm_chain := c''\<rparr>)) = c''" by (simp_all add: setState_def)
  ultimately show ?thesis using drain_steps [OF inv honest_lined_up [OF assms(2,1)] assms(3) close]
    by (intro exI [of _ ?lm] exI [of _ "setState LM_SYNCED_STATE (?lm\<lparr>lm_chain := c''\<rparr>)"]) (simp del: runMainThread.simps)
qed

subsection \<open>Instances\<close>

text \<open>A sequence of events, run as long as they are possible.\<close>

fun lm_trace ::
    "('b LedgerManager \<Rightarrow> 'b LMEvent \<Rightarrow> bool) \<Rightarrow> 'b LMEnv \<Rightarrow> 'b LedgerManager \<Rightarrow> 'b LMEvent list \<Rightarrow> cpp_error + 'b LedgerManager" where
  "lm_trace P ev lm [] = Inr lm"
| "lm_trace P ev lm (event # events) =
     bindE (ensureE (enabled lm event \<and> P lm event) NoReturn) (\<lambda>_.
     bindE (lm_apply ev lm event) (\<lambda>lm'. lm_trace P ev lm' events))"

lemma trace_reachable:
  "\<lbrakk>lm_trace P ev lm events = Inr lm'; list_all (event_typed ev) events; lm_reachable P ev lm0 lm\<rbrakk>
   \<Longrightarrow> lm_reachable P ev lm0 lm'"
proof (induction events arbitrary: lm)
  case (Cons event events)
  from Cons.prems(1) obtain lm1 where s: "enabled lm event" "P lm event" "lm_apply ev lm event = Inr lm1"
    "lm_trace P ev lm1 events = Inr lm'" by auto
  from Cons.prems(2,3) s show ?case by (intro Cons.IH [OF s(4)]) (auto intro: reach_step)
qed simp

lemma honest_reachable: "lm_reachable P ev lm0 lm \<Longrightarrow> lm_reachable (\<lambda>lm event. True) ev lm0 lm"
  by (induction rule: lm_reachable.induct) (auto intro: lm_reachable.intros)

definition ex_lm_env :: "nat LMEnv" where
  "ex_lm_env = \<lparr>ev_node = ex_node, ev_history = ex_accelerated, ev_catchupComplete = False, ev_catchupRecent = 0\<rparr>"

definition ex_boot :: "nat Chain \<Rightarrow> nat LedgerManager" where
  "ex_boot c = \<lparr>lm_chain = c, lm_state = LM_BOOTING_STATE, lm_catchupState = CATCHUP_NONE, lm_triggerLedger = 0,
     lm_syncing = [], lm_catchupWork = None, lm_posted = 0\<rparr>"

text \<open>The node hears of ledgers 8 and 9, waits for the checkpoint, and applies the buckets of ledger 7.\<close>

definition ex_checkpoint :: "nat Chain \<Rightarrow> LedgerHeaderHistoryEntry" where
  "ex_checkpoint c = \<lparr>he_hash = 7, he_header = (fullHeader c)\<lparr>fh_header := (lg_header (cn_root c))\<lparr>lh_ledgerSeq := 7\<rparr>\<rparr>\<rparr>"

definition ex_catchup :: "nat Chain \<Rightarrow> nat LMEvent list" where
  "ex_catchup c = [Externalized (ex_close 8 [] []), Externalized (ex_close 9 [] []),
     WroteBuckets (cn_root c) 0 (ex_checkpoint c), HistoryFinished (ex_checkpoint c)]"

lemma ex_catchup_run:
  "case startNewLedger ex_node 0 1 (Some ex_genesis) of Inl _ \<Rightarrow> False
   | Inr c \<Rightarrow> (case lm_trace honest ex_lm_env (ex_boot c) (ex_catchup c) of Inl _ \<Rightarrow> False
       | Inr lm \<Rightarrow> lm_catchupState lm = APPLYING_BUFFERED_LEDGERS \<and> lm_syncing lm \<noteq> []
         \<and> (case closeLedgers ex_node (lm_chain lm) (lm_syncing lm) of Inl _ \<Rightarrow> False
           | Inr (c', hs) \<Rightarrow> lcl_seq c' = 9 \<and> he_hash (cn_lastClosed c') = 9
             \<and> (case closeLedger ex_node c' (ex_close 10 [] []) of Inl _ \<Rightarrow> False | Inr c'' \<Rightarrow> True))
         \<and> (case lm_trace (\<lambda>lm event. True) ex_lm_env lm [MainThread, MainThread] of Inl _ \<Rightarrow> False
           | Inr lm' \<Rightarrow> lm_catchupState lm' = APPLYING_BUFFERED_LEDGERS \<and> lm_syncing lm' = [] \<and> lm_lcl lm' = 9))"
  by code_simp

definition ex_stranger :: LedgerCloseData where
  "ex_stranger = (ex_close 2 [] [])\<lparr>lcd_txSet := \<lparr>xs_previousLedgerHash = 9, xs_transactions = [], xs_hash = None\<rparr>\<rparr>"

lemma ex_close_ok: "\<lbrakk>0 \<le> n; n < 2 ^ 32\<rbrakk> \<Longrightarrow> lcd_ok ex_lm_env (ex_close n [] [])"
  by (simp add: lcd_ok_def closable_def ex_close_def txs_typed_def)

lemma ex_first_ledger:
  "case startNewLedger ex_node 0 1 (Some ex_genesis) of Inl _ \<Rightarrow> False
   | Inr c \<Rightarrow> lcl_seq c = 1 \<and> he_hash (cn_lastClosed c) = 1"
  by code_simp

lemma ex_booted:
  assumes "startNewLedger ex_node 0 1 (Some ex_genesis) = Inr c"
  shows "booted ex_lm_env (ex_boot c)" "lm_lcl (ex_boot c) = 1" "he_hash (cn_lastClosed c) = 1"
proof -
  note g = startNewLedger_ok [OF assms ex_genesis_ok]
  have "lcl_seq c = 1 \<and> he_hash (cn_lastClosed c) = 1" using ex_first_ledger by (simp add: assms)
  with g show "booted ex_lm_env (ex_boot c)" "lm_lcl (ex_boot c) = 1" "he_hash (cn_lastClosed c) = 1"
    by (simp_all add: booted_def ex_boot_def chain_ok_def ex_lm_env_def)
qed

lemma ex_catchup_typed:
  assumes "startNewLedger ex_node 0 1 (Some ex_genesis) = Inr c"
  shows "list_all (event_typed ex_lm_env) (ex_catchup c)"
proof -
  have l: "ledger_ok (cn_root c)" by (rule startNewLedger_ok [OF assms ex_genesis_ok])
  have "ledger_ok (setHeader (cn_root c) ((lg_header (cn_root c))\<lparr>lh_ledgerSeq := 7\<rparr>))"
    by (rule ledger_ok_setHeader [OF l]) (use ledger_ok_header [OF l] in \<open>simp_all add: header_ok_def\<close>)
  then show ?thesis
    by (simp add: ex_catchup_def event_typed_def ex_close_ok ex_checkpoint_def fullHeader_def)
      (simp add: ex_lm_env_def ex_node_def)
qed

text \<open>A manager that applies buffered ledgers, with what closing them yields.\<close>

lemma ex_draining:
  obtains c lm c' hs c'' lm2 where "booted ex_lm_env (ex_boot c)" "lm_reachable honest ex_lm_env (ex_boot c) lm"
    "lm_catchupState lm = APPLYING_BUFFERED_LEDGERS" "closeLedgers ex_node (lm_chain lm) (lm_syncing lm) = Inr (c', hs)"
    "lcl_seq c' = 9" "he_hash (cn_lastClosed c') = 9" "closeLedger ex_node c' (ex_close 10 [] []) = Inr c''"
    "lm_syncing lm \<noteq> []" "lm_reachable (\<lambda>lm event. True) ex_lm_env (ex_boot c) lm2"
    "lm_catchupState lm2 = APPLYING_BUFFERED_LEDGERS" "lm_syncing lm2 = []" "lm_lcl lm2 = 9"
proof -
  obtain c where c: "startNewLedger ex_node 0 1 (Some ex_genesis) = Inr c"
    using ex_catchup_run by (cases "startNewLedger ex_node 0 1 (Some ex_genesis)") auto
  obtain lm where lm: "lm_trace honest ex_lm_env (ex_boot c) (ex_catchup c) = Inr lm"
    using ex_catchup_run by (cases "lm_trace honest ex_lm_env (ex_boot c) (ex_catchup c)") (auto simp: c)
  note run = ex_catchup_run [unfolded c lm sum.case]
  obtain c' hs where c': "closeLedgers ex_node (lm_chain lm) (lm_syncing lm) = Inr (c', hs)"
    using run by (cases "closeLedgers ex_node (lm_chain lm) (lm_syncing lm)") auto
  note run2 = run [unfolded c' sum.case prod.case]
  obtain c'' where c'': "closeLedger ex_node c' (ex_close 10 [] []) = Inr c''"
    using run2 by (cases "closeLedger ex_node c' (ex_close 10 [] [])") auto
  obtain lm2 where lm2: "lm_trace (\<lambda>lm event. True) ex_lm_env lm [MainThread, MainThread] = Inr lm2"
    using run2 by (cases "lm_trace (\<lambda>lm event. True) ex_lm_env lm [MainThread, MainThread]") (auto simp del: lm_trace.simps)
  note run3 = run2 [unfolded lm2 sum.case]
  have r: "lm_reachable honest ex_lm_env (ex_boot c) lm"
    by (rule trace_reachable [OF lm ex_catchup_typed [OF c] reach_start])
  have r2: "lm_reachable (\<lambda>lm event. True) ex_lm_env (ex_boot c) lm2"
    by (rule trace_reachable [OF lm2 _ honest_reachable [OF r]]) (simp add: event_typed_def)
  show thesis
    by (rule that [OF ex_booted(1) [OF c] r _ c' _ _ c'' _ r2]) (use run3 in simp_all)
qed

theorem manager_invariant_witness:
  "\<exists>lm. lm_catchupState lm = APPLYING_BUFFERED_LEDGERS \<and> lm_posted lm = 1 \<and> lm_state (lm :: nat LedgerManager) = LM_CATCHING_UP_STATE"
proof -
  obtain c lm where r: "booted ex_lm_env (ex_boot c)" "lm_reachable honest ex_lm_env (ex_boot c) lm"
    "lm_catchupState lm = APPLYING_BUFFERED_LEDGERS" using ex_draining by metis
  from manager_invariant [OF r(1) honest_reachable [OF r(2)]] r(3) show ?thesis by (intro exI [of _ lm]) simp
qed

theorem manager_never_aborts_witness:
  "\<exists>c e. booted ex_lm_env (ex_boot c) \<and> lm_apply ex_lm_env (ex_boot c) (Externalized ex_stranger) = Inl e
     \<and> ((\<exists>lcd. closeLedger ex_node c lcd = Inl e) \<or> e = RuntimeError ''Network consensus inconsistency'')"
proof -
  obtain c where c: "startNewLedger ex_node 0 1 (Some ex_genesis) = Inr c"
    using ex_catchup_run by (cases "startNewLedger ex_node 0 1 (Some ex_genesis)") auto
  note b = ex_booted [OF c]
  have l: "lcl_seq c = 1" using b(2) by (simp add: ex_boot_def)
  have a: "lm_apply ex_lm_env (ex_boot c) (Externalized ex_stranger) = Inl (RuntimeError ''Network consensus inconsistency'')"
    using l b(3) by (simp add: ex_boot_def valueExternalized_def closeLedgerIf_def ex_stranger_def ex_close_def previousHashOf_def)
  have "lcd_ok ex_lm_env ex_stranger"
    using ex_close_ok [of 2] by (simp add: ex_stranger_def lcd_ok_def closable_def txs_typed_def)
  then have "event_typed ex_lm_env (Externalized ex_stranger)" by (simp add: event_typed_def)
  from manager_never_aborts [OF b(1) reach_start _ this _ a] a b(1) show ?thesis
    by (auto simp: enabled_def honest_def ex_boot_def)
qed

theorem gap_while_draining_aborts_witness:
  "\<exists>lm lm'. lm_apply ex_lm_env lm (Externalized (ex_close 11 [] [])) = Inr lm' \<and> lm_apply ex_lm_env lm' MainThread = Inl AssertionFailed"
proof -
  obtain c lm where r: "booted ex_lm_env (ex_boot c)" "lm_reachable (\<lambda>lm event. True) ex_lm_env (ex_boot c) lm"
    "lm_catchupState lm = APPLYING_BUFFERED_LEDGERS" "lm_syncing lm = []" "lm_lcl lm = 9" using ex_draining by metis
  from gap_while_draining_aborts [OF r(1-4) ex_close_ok [of 11]] r(5) show ?thesis by (auto simp: ex_close_def)
qed

theorem buffered_ledgers_drain_witness:
  "\<exists>lm lm'. lm_syncing lm \<noteq> [] \<and> runMainThread (Suc (length (lm_syncing lm))) ex_lm_env lm = Inr lm'
     \<and> lm_catchupState lm' = WAITING_FOR_CLOSING_LEDGER \<and> lm_lcl lm' = 9"
proof -
  obtain c lm c' hs c'' where r: "booted ex_lm_env (ex_boot c)" "lm_reachable honest ex_lm_env (ex_boot c) lm"
    "lm_catchupState lm = APPLYING_BUFFERED_LEDGERS" "closeLedgers ex_node (lm_chain lm) (lm_syncing lm) = Inr (c', hs)"
    "lcl_seq c' = 9" "he_hash (cn_lastClosed c') = 9" "closeLedger ex_node c' (ex_close 10 [] []) = Inr c''" "lm_syncing lm \<noteq> []"
    using ex_draining by metis
  have "ev_node ex_lm_env = ex_node" by (simp add: ex_lm_env_def)
  from buffered_ledgers_drain [OF r(1-3), unfolded this, OF r(4) _ _ r(7)] r(5,6,8) show ?thesis
    by (auto simp: ex_close_def previousHashOf_def simp del: runMainThread.simps)
qed

text \<open>A catch-up by hand, which the command allows in a node that is in sync, ends the same way: the ledgers that
  are externalised meanwhile are buffered from whatever number they have.\<close>

lemma manual_catchup_aborts:
  "case startNewLedger ex_node 0 1 (Some ex_genesis) of Inl _ \<Rightarrow> False
   | Inr c \<Rightarrow> (case lm_trace (\<lambda>lm event. True) ex_lm_env (bootstrap (ex_boot c))
        [ManualCatchup 7 0, Externalized (ex_close 9 [] []), WroteBuckets (cn_root c) 0 (ex_checkpoint c),
         HistoryFinished (ex_checkpoint c)] of Inl _ \<Rightarrow> False
       | Inr lm \<Rightarrow> lm_lcl lm = 7 \<and> lm_apply ex_lm_env lm MainThread = Inl AssertionFailed)"
  by code_simp

end
