(* ===== verification/Quorum.thy ===== *)
theory Quorum
  imports Ledger_Types
begin

section \<open>Quorum sets (src/src/scp/LocalNode.cpp, src/src/scp/QuorumSetUtils.cpp)\<close>

text \<open>
  A quorum set asks for a threshold of its validators and inner sets. \<^verbatim>\<open>LocalNode\<close> decides whether
  a set of nodes contains a slice, whether it blocks every slice, and whether the nodes whose
  statements pass a filter contain a quorum; \<^verbatim>\<open>QuorumSetUtils\<close> checks and normalises quorum
  sets. Thresholds are 32-bit words because the code counts them down as \<^verbatim>\<open>uint32\<close>.
  A node set is a list, as the code's \<^verbatim>\<open>std::vector\<close>.
\<close>

type_synonym NodeID = uint256

datatype SCPQuorumSet =
  QSet (qs_threshold: u32) (qs_validators: "NodeID list") (qs_innerSets: "SCPQuorumSet list")

definition buildSingletonQSet :: "NodeID \<Rightarrow> SCPQuorumSet" where
  "buildSingletonQSet nodeID = QSet 1 [nodeID] []"

subsection \<open>Slices and blocking sets\<close>

text \<open>The two loops of each function run over validators and inner sets with one counter; what
  they test per item is the list they run over.\<close>

fun countdown :: "u32 \<Rightarrow> bool list \<Rightarrow> bool" where
  "countdown thresholdLeft [] = False"
| "countdown thresholdLeft (b # bs) =
     (if b then (if thresholdLeft - 1 \<le> 0 then True else countdown (thresholdLeft - 1) bs)
      else countdown thresholdLeft bs)"

fun countdown_int :: "int \<Rightarrow> bool list \<Rightarrow> bool" where
  "countdown_int leftTillBlock [] = False"
| "countdown_int leftTillBlock (b # bs) =
     (if b then (if leftTillBlock - 1 \<le> 0 then True else countdown_int (leftTillBlock - 1) bs)
      else countdown_int leftTillBlock bs)"

fun isQuorumSlice :: "SCPQuorumSet \<Rightarrow> NodeID list \<Rightarrow> bool" where
  "isQuorumSlice (QSet threshold validators innerSets) nodeSet =
     countdown threshold
       (map (\<lambda>v. v \<in> set nodeSet) validators @ map (\<lambda>q. isQuorumSlice q nodeSet) innerSets)"

text \<open>\<^verbatim>\<open>(int)((1 + validators.size() + innerSets.size()) - threshold)\<close>.\<close>

fun isVBlocking :: "SCPQuorumSet \<Rightarrow> NodeID list \<Rightarrow> bool" where
  "isVBlocking (QSet threshold validators innerSets) nodeSet =
     (if threshold = 0 then False
      else countdown_int
        (to_int32 (1 + int (length validators) + int (length innerSets) - uint threshold))
        (map (\<lambda>v. v \<in> set nodeSet) validators @ map (\<lambda>q. isVBlocking q nodeSet) innerSets))"

text \<open>How many items of a list of tests hold, and how many the code asks for: a threshold of zero
  wraps around.\<close>

abbreviation hits :: "bool list \<Rightarrow> nat" where
  "hits bs \<equiv> length (filter (\<lambda>b. b) bs)"

definition need :: "u32 \<Rightarrow> nat" where
  "need t = (if t = 0 then 2 ^ 32 else unat t)"

lemma need_pos: "0 < need t"
  by (auto simp: need_def unat_gt_0)

lemma unat_1_iff: "unat (t :: u32) = 1 \<longleftrightarrow> t = 1"
  by (metis unsigned_1 unsigned_word_eqI)

lemma need_minus_1: "need (t - 1) = (if t = 1 then 2 ^ 32 else need t - 1)"
proof (cases "t = 0")
  case True
  then show ?thesis by (simp add: need_def unsigned_minus_1_eq_mask mask_eq_exp_minus_1)
next
  case False
  then have "unat (t - 1) = unat t - 1" by (simp add: unat_minus_one)
  then show ?thesis using False by (auto simp: need_def)
qed

lemma countdown_hits: "countdown t bs \<longleftrightarrow> need t \<le> hits bs"
proof (induction bs arbitrary: t)
  case Nil
  then show ?case using need_pos [of t] by simp
next
  case (Cons b bs)
  have "t - 1 \<le> 0 \<longleftrightarrow> t = 1" by (simp add: word_le_0_iff)
  moreover have "need t = 1 \<longleftrightarrow> t = 1"
    using unat_1_iff [of t] by (simp add: need_def)
  ultimately show ?case using Cons need_minus_1 [of t] need_pos [of t] by auto
qed

lemma countdown_int_hits: "countdown_int l bs \<longleftrightarrow> 0 < hits bs \<and> l \<le> int (hits bs)"
  by (induction bs arbitrary: l) auto

lemma isQuorumSlice_hits:
  "isQuorumSlice (QSet t vs ss) ns \<longleftrightarrow>
     need t \<le> length (filter (\<lambda>v. v \<in> set ns) vs) + length (filter (\<lambda>q. isQuorumSlice q ns) ss)"
  by (simp add: countdown_hits filter_map comp_def)

lemma isQuorumSlice_mono:
  "\<lbrakk>isQuorumSlice q ns; set ns \<subseteq> set ms\<rbrakk> \<Longrightarrow> isQuorumSlice q ms"
proof (induction q)
  case (QSet t vs ss)
  have "length (filter (\<lambda>v. v \<in> set ns) vs) \<le> length (filter (\<lambda>v. v \<in> set ms) vs)"
    using QSet.prems(2) by (induction vs) auto
  moreover have "length (filter (\<lambda>q. isQuorumSlice q ns) ss) \<le> length (filter (\<lambda>q. isQuorumSlice q ms) ss)"
    using QSet.IH QSet.prems(2) by (induction ss) auto
  ultimately show ?case using QSet.prems(1) unfolding isQuorumSlice_hits by linarith
qed

text \<open>Thresholds within range, recursively: what \<^verbatim>\<open>isQuorumSetSane\<close> demands of them.\<close>

fun wf_qset :: "SCPQuorumSet \<Rightarrow> bool" where
  "wf_qset (QSet t vs ss) \<longleftrightarrow> 1 \<le> unat t \<and> unat t \<le> length vs + length ss
     \<and> length vs + length ss < 2 ^ 31 \<and> list_all wf_qset ss"

fun allNodes :: "SCPQuorumSet \<Rightarrow> NodeID list" where
  "allNodes (QSet t vs ss) = vs @ concat (map allNodes ss)"

lemma isVBlocking_hits:
  assumes "wf_qset (QSet t vs ss)"
  shows "isVBlocking (QSet t vs ss) ns \<longleftrightarrow>
     1 + length vs + length ss \<le> unat t + length (filter (\<lambda>v. v \<in> set ns) vs)
        + length (filter (\<lambda>q. isVBlocking q ns) ss)"
proof -
  define k where "k = unat t"
  then have k: "unat t = k" "uint t = int k" by simp_all
  have ti: "to_int32 (1 + int (length vs) + int (length ss) - int k) =
      1 + int (length vs) + int (length ss) - int k"
    using assms k(1) by (intro to_int32_id) auto
  define A where "A = length (filter (\<lambda>v. v \<in> set ns) vs) + length (filter (\<lambda>q. isVBlocking q ns) ss)"
  have A: "hits (map (\<lambda>v. v \<in> set ns) vs @ map (\<lambda>q. isVBlocking q ns) ss) = A"
    by (simp add: A_def filter_map comp_def)
  have "t \<noteq> 0" "1 \<le> k" "k \<le> length vs + length ss" using assms k(1) by auto
  then have "isVBlocking (QSet t vs ss) ns \<longleftrightarrow> 1 + length vs + length ss \<le> k + A"
    unfolding isVBlocking.simps k ti countdown_int_hits A by auto
  then show ?thesis by (simp add: A_def k(1) add.assoc)
qed

lemma length_filter_compl: "length (filter P xs) + length (filter (\<lambda>x. \<not> P x) xs) = length xs"
  by (induction xs) auto

lemma VBlocking_slice_dual:
  assumes "wf_qset q" "\<forall>n \<in> set (allNodes q). n \<in> set ms \<longleftrightarrow> n \<notin> set ns"
  shows "isVBlocking q ns \<longleftrightarrow> \<not> isQuorumSlice q ms"
  using assms
proof (induction q)
  case (QSet t vs ss)
  have v: "length (filter (\<lambda>v. v \<in> set ns) vs) + length (filter (\<lambda>v. v \<in> set ms) vs) = length vs"
    using QSet.prems(2) by (induction vs) auto
  have i: "length (filter (\<lambda>q. isVBlocking q ns) ss) + length (filter (\<lambda>q. isQuorumSlice q ms) ss) = length ss"
  proof -
    have "filter (\<lambda>q. isVBlocking q ns) ss = filter (\<lambda>q. \<not> isQuorumSlice q ms) ss"
      using QSet by (intro filter_cong) (auto simp: list_all_iff)
    then show ?thesis using length_filter_compl [of "\<lambda>q. isQuorumSlice q ms" ss] by simp
  qed
  have "need t = unat t" using QSet.prems(1) by (auto simp: need_def)
  then show ?case
    using v i unfolding isVBlocking_hits [OF QSet.prems(1)] isQuorumSlice_hits by linarith
qed

subsection \<open>Blocking sets and quorums among the nodes heard from\<close>

text \<open>
  \<^verbatim>\<open>std::map<NodeID, SCPEnvelope>\<close> is an association list in key order; what an envelope
  states is a parameter. \<^verbatim>\<open>isQuorum\<close> removes the nodes whose own quorum set has no slice among
  those left until nothing changes.
\<close>

definition filterNodes :: "(NodeID \<times> 'st) list \<Rightarrow> ('st \<Rightarrow> bool) \<Rightarrow> NodeID list" where
  "filterNodes envs flt = map fst (filter (\<lambda>(n, st). flt st) envs)"

definition isVBlockingMap ::
  "SCPQuorumSet \<Rightarrow> (NodeID \<times> 'st) list \<Rightarrow> ('st \<Rightarrow> bool) \<Rightarrow> bool" where
  "isVBlockingMap qSet envs flt = isVBlocking qSet (filterNodes envs flt)"

definition quorumFilter ::
  "(NodeID \<times> 'st) list \<Rightarrow> ('st \<Rightarrow> SCPQuorumSet option) \<Rightarrow> NodeID list \<Rightarrow> NodeID \<Rightarrow> bool" where
  "quorumFilter envs qfun pNodes nodeID = (case map_of envs nodeID of None \<Rightarrow> False
     | Some st \<Rightarrow> (case qfun st of Some qSet \<Rightarrow> isQuorumSlice qSet pNodes | None \<Rightarrow> False))"

function quorumLoop ::
  "(NodeID \<times> 'st) list \<Rightarrow> ('st \<Rightarrow> SCPQuorumSet option) \<Rightarrow> NodeID list \<Rightarrow> NodeID list" where
  "quorumLoop envs qfun pNodes =
     (let fNodes = filter (quorumFilter envs qfun pNodes) pNodes
      in if length pNodes \<noteq> length fNodes then quorumLoop envs qfun fNodes else fNodes)"
  by auto
termination
  by (relation "measure (\<lambda>(e, f, p). length p)")
    (auto simp: le_neq_implies_less)

declare quorumLoop.simps [simp del]

definition isQuorum ::
  "SCPQuorumSet \<Rightarrow> (NodeID \<times> 'st) list \<Rightarrow> ('st \<Rightarrow> SCPQuorumSet option) \<Rightarrow> ('st \<Rightarrow> bool) \<Rightarrow> bool" where
  "isQuorum qSet envs qfun flt = isQuorumSlice qSet (quorumLoop envs qfun (filterNodes envs flt))"

text \<open>A set of nodes each of which has a slice inside the set: what the loop computes the greatest
  of.\<close>

definition closedNodes ::
  "(NodeID \<times> 'st) list \<Rightarrow> ('st \<Rightarrow> SCPQuorumSet option) \<Rightarrow> NodeID list \<Rightarrow> bool" where
  "closedNodes envs qfun U \<longleftrightarrow> list_all (quorumFilter envs qfun U) U"

lemma quorumFilter_iff: "quorumFilter envs qfun p n \<longleftrightarrow>
    (\<exists>st qs. map_of envs n = Some st \<and> qfun st = Some qs \<and> isQuorumSlice qs p)"
  by (auto simp: quorumFilter_def split: option.splits)

lemma quorumFilter_mono:
  "\<lbrakk>quorumFilter envs qfun U n; set U \<subseteq> set V\<rbrakk> \<Longrightarrow> quorumFilter envs qfun V n"
  by (auto simp: quorumFilter_def intro: isQuorumSlice_mono split: option.splits)

lemma quorumLoop_closed: "closedNodes envs qfun (quorumLoop envs qfun p)"
proof (induction envs qfun p rule: quorumLoop.induct)
  case (1 envs qfun p)
  show ?case
  proof (cases "length p = length (filter (quorumFilter envs qfun p) p)")
    case True
    then have f: "filter (quorumFilter envs qfun p) p = p"
      by (metis length_filter_less filter_True order_less_irrefl)
    then have "\<forall>n \<in> set p. quorumFilter envs qfun p n" by (metis filter_id_conv)
    then show ?thesis using f
      by (subst quorumLoop.simps) (simp add: closedNodes_def list_all_iff)
  next
    case False
    then show ?thesis using 1 by (subst quorumLoop.simps) (simp add: Let_def)
  qed
qed

lemma quorumLoop_subset: "set (quorumLoop envs qfun p) \<subseteq> set p"
proof (induction envs qfun p rule: quorumLoop.induct)
  case (1 envs qfun p)
  then show ?case by (subst quorumLoop.simps) (auto simp: Let_def)
qed

lemma quorumLoop_greatest:
  "\<lbrakk>closedNodes envs qfun U; set U \<subseteq> set p\<rbrakk> \<Longrightarrow> set U \<subseteq> set (quorumLoop envs qfun p)"
proof (induction envs qfun p rule: quorumLoop.induct)
  case (1 envs qfun p)
  have "set U \<subseteq> set (filter (quorumFilter envs qfun p) p)"
    using 1(2,3) by (auto simp: closedNodes_def list_all_iff intro: quorumFilter_mono)
  then show ?case using 1 by (subst quorumLoop.simps) (auto simp: Let_def)
qed

lemma isQuorum_iff_closed:
  "isQuorum q envs qfun flt \<longleftrightarrow>
     (\<exists>U. set U \<subseteq> set (filterNodes envs flt) \<and> closedNodes envs qfun U \<and> isQuorumSlice q U)"
  unfolding isQuorum_def
  using quorumLoop_closed quorumLoop_subset quorumLoop_greatest isQuorumSlice_mono by meson

lemma filterNodes_mono:
  "(\<And>st. f st \<Longrightarrow> g st) \<Longrightarrow> set (filterNodes envs f) \<subseteq> set (filterNodes envs g)"
  by (auto simp: filterNodes_def)

lemma isQuorum_mono: "\<lbrakk>isQuorum q envs qfun f; \<And>st. f st \<Longrightarrow> g st\<rbrakk> \<Longrightarrow> isQuorum q envs qfun g"
  unfolding isQuorum_iff_closed using filterNodes_mono [of f g envs] by (meson order_trans)

subsection \<open>The closest blocking set\<close>

text \<open>
  \<^verbatim>\<open>findClosestVBlocking\<close>: a small set of the given nodes whose removal blocks the quorum set,
  empty when it is blocked already. The first loop counts the items that are missing and returns
  early when they block; \<^const>\<open>None\<close> is that early return. The internal results are kept in a
  multiset ordered by size, which keeps the order of insertion among results of one size.
\<close>

fun fcvValidators :: "NodeID list \<Rightarrow> NodeID option \<Rightarrow> u64 \<Rightarrow> NodeID list \<Rightarrow> NodeID list
    \<Rightarrow> (u64 \<times> NodeID list) option" where
  "fcvValidators nodes excluded left res [] = Some (left, res)"
| "fcvValidators nodes excluded left res (v # vs) =
     (if excluded = Some v then fcvValidators nodes excluded left res vs
      else if v \<notin> set nodes then
        (if left - 1 = 0 then None else fcvValidators nodes excluded (left - 1) res vs)
      else fcvValidators nodes excluded left (res @ [v]) vs)"

fun fcvInner :: "u64 \<Rightarrow> NodeID list list \<Rightarrow> NodeID list list \<Rightarrow> (u64 \<times> NodeID list list) option" where
  "fcvInner left acc [] = Some (left, acc)"
| "fcvInner left acc (v # vs) =
     (if v = [] then (if left - 1 = 0 then None else fcvInner (left - 1) acc vs)
      else fcvInner left (acc @ [v]) vs)"

fun findClosestVBlocking :: "SCPQuorumSet \<Rightarrow> NodeID list \<Rightarrow> NodeID option \<Rightarrow> NodeID list" where
  "findClosestVBlocking (QSet threshold validators innerSets) nodes excluded =
     (let left0 = (1 + of_nat (length validators) + of_nat (length innerSets)) - ucast threshold
      in case fcvValidators nodes excluded left0 [] validators of
        None \<Rightarrow> []
      | Some (left1, res) \<Rightarrow>
          (case fcvInner left1 [] (map (\<lambda>q. findClosestVBlocking q nodes excluded) innerSets) of
            None \<Rightarrow> []
          | Some (left2, internals) \<Rightarrow>
              (let res1 = take (unat left2) res
               in res1 @ concat (take (unat (left2 - of_nat (length res1))) (sort_key length internals)))))"

definition findClosestVBlockingMap :: "SCPQuorumSet \<Rightarrow> (NodeID \<times> 'st) list \<Rightarrow> ('st \<Rightarrow> bool)
    \<Rightarrow> NodeID option \<Rightarrow> NodeID list" where
  "findClosestVBlockingMap qset envs flt excluded =
     findClosestVBlocking qset (filterNodes envs flt) excluded"

text \<open>Without an excluded node: the counts the two loops keep.\<close>

lemma unat_of_nat_u64: "n < 2 ^ 64 \<Longrightarrow> unat (of_nat n :: u64) = n"
  by (simp add: unsigned_of_nat take_bit_nat_eq_self_iff)

lemma minus_1_eq_0_iff: "(x :: u64) - 1 = 0 \<longleftrightarrow> unat x = 1"
  by (metis eq_iff_diff_eq_0 unsigned_1 unsigned_word_eqI)

lemma unat_minus_1_pos: "(x :: u64) \<noteq> 0 \<Longrightarrow> unat (x - 1) = unat x - 1"
  by (rule unat_minus_one)

lemma fcvValidators_spec:
  "left \<noteq> 0 \<Longrightarrow> fcvValidators nodes None left res vs =
     (if unat left \<le> length (filter (\<lambda>v. v \<notin> set nodes) vs) then None
      else Some (left - of_nat (length (filter (\<lambda>v. v \<notin> set nodes) vs)),
                 res @ filter (\<lambda>v. v \<in> set nodes) vs))"
proof (induction vs arbitrary: left res)
  case Nil
  then show ?case by (simp add: unat_gt_0)
next
  case (Cons v vs)
  note minus_1_eq_0_iff [of left]
  moreover have "unat left \<noteq> 0" using Cons.prems by (simp add: unat_eq_0)
  ultimately show ?case
    using Cons.IH [of "left - 1" res] Cons.IH [of left "res @ [v]"] Cons.prems
      unat_minus_1_pos [OF Cons.prems]
    by (auto simp: algebra_simps)
qed

lemma fcvInner_spec:
  "left \<noteq> 0 \<Longrightarrow> fcvInner left acc vs =
     (if unat left \<le> length (filter (\<lambda>v. v = []) vs) then None
      else Some (left - of_nat (length (filter (\<lambda>v. v = []) vs)), acc @ filter (\<lambda>v. v \<noteq> []) vs))"
proof (induction vs arbitrary: left acc)
  case Nil
  then show ?case by (simp add: unat_gt_0)
next
  case (Cons v vs)
  note minus_1_eq_0_iff [of left]
  moreover have "unat left \<noteq> 0" using Cons.prems by (simp add: unat_eq_0)
  ultimately show ?case
    using Cons.IH [of "left - 1" acc] Cons.IH [of left "acc @ [v]"] Cons.prems
      unat_minus_1_pos [OF Cons.prems]
    by (auto simp: algebra_simps)
qed

lemma unat_sub_of_nat: "n < unat (w :: u64) \<Longrightarrow> unat (w - of_nat n) = unat w - n"
proof -
  assume n: "n < unat w"
  have "unat w < 2 ^ 64" using unsigned_less [of w] by simp
  with n have u: "unat (of_nat n :: u64) = n" by (intro unat_of_nat_u64) linarith
  then have "of_nat n \<le> w" using n by (simp add: word_le_nat_alt)
  then show ?thesis using unat_sub [of "of_nat n" w] u by simp
qed

lemma fcv_left:
  assumes "wf_qset (QSet t vs ss)"
  shows "unat ((1 + of_nat (length vs) + of_nat (length ss)) - ucast t :: u64)
    = 1 + length vs + length ss - unat t"
proof -
  let ?n = "1 + length vs + length ss"
  have e: "(1 + of_nat (length vs) + of_nat (length ss)) - ucast t = (of_nat ?n - of_nat (unat t) :: u64)"
    by (simp add: unsigned_def)
  have n: "unat (of_nat ?n :: u64) = ?n" using assms by (intro unat_of_nat_u64) auto
  have "unat t < unat (of_nat ?n :: u64)" unfolding n using assms by auto
  from unat_sub_of_nat [OF this] show ?thesis unfolding e n .
qed

text \<open>What one level returns, in plain numbers: \<open>k\<close> items still have to be blocked once the
  missing ones are counted.\<close>

definition fcv_missing :: "SCPQuorumSet list \<Rightarrow> NodeID list \<Rightarrow> NodeID list \<Rightarrow> nat" where
  "fcv_missing ss vs nodes = length (filter (\<lambda>v. v \<notin> set nodes) vs)
     + length (filter (\<lambda>q. findClosestVBlocking q nodes None = []) ss)"

lemma findClosestVBlocking_unfold:
  assumes "wf_qset (QSet t vs ss)"
  shows "findClosestVBlocking (QSet t vs ss) nodes None =
    (let L = 1 + length vs + length ss - unat t; m = fcv_missing ss vs nodes
     in if L \<le> m then []
        else let res = take (L - m) (filter (\<lambda>v. v \<in> set nodes) vs)
             in res @ concat (take (L - m - length res)
                  (sort_key length (filter (\<lambda>v. v \<noteq> []) (map (\<lambda>q. findClosestVBlocking q nodes None) ss)))))"
proof -
  define left where "left = ((1 + of_nat (length vs) + of_nat (length ss)) - ucast t :: u64)"
  define a where "a = length (filter (\<lambda>v. v \<notin> set nodes) vs)"
  define b where "b = length (filter (\<lambda>q. findClosestVBlocking q nodes None = []) ss)"
  have L: "unat left = 1 + length vs + length ss - unat t" using fcv_left [OF assms] by (simp add: left_def)
  have "1 \<le> unat left" unfolding L using assms by auto
  then have l0: "left \<noteq> 0" by auto
  have v: "fcvValidators nodes None left [] vs = (if unat left \<le> a then None
      else Some (left - of_nat a, filter (\<lambda>v. v \<in> set nodes) vs))"
    using fcvValidators_spec [OF l0, of nodes "[]" vs] by (simp add: a_def)
  have m: "fcv_missing ss vs nodes = a + b" by (simp add: fcv_missing_def a_def b_def)
  show ?thesis
  proof (cases "unat left \<le> a")
    case True
    then show ?thesis unfolding findClosestVBlocking.simps Let_def left_def [symmetric] m L [symmetric]
      by (simp add: v)
  next
    case False
    then have a: "unat (left - of_nat a) = unat left - a" by (simp add: unat_sub_of_nat)
    then have "left - of_nat a \<noteq> 0" using False by auto
    note i = fcvInner_spec [OF this, of "[]" "map (\<lambda>q. findClosestVBlocking q nodes None) ss"]
    have b: "length (filter (\<lambda>v. v = []) (map (\<lambda>q. findClosestVBlocking q nodes None) ss)) = b"
      by (simp add: b_def filter_map comp_def)
    show ?thesis
    proof (cases "unat left - a \<le> b")
      case True
      then show ?thesis using i False
        unfolding findClosestVBlocking.simps Let_def left_def [symmetric] m L [symmetric] b a
        by (simp add: v)
    next
      case F: False
      then have ab: "unat (left - of_nat a - of_nat b) = unat left - a - b"
        using unat_sub_of_nat [of b "left - of_nat a"] a by simp
      have c: "unat (left - of_nat a - of_nat b - of_nat (min k (unat left - (a + b)))) =
          unat left - (a + b + min k (unat left - (a + b)))" for k
      proof (cases "k < unat left - (a + b)")
        case True
        then show ?thesis
          using unat_sub_of_nat [of k "left - of_nat a - of_nat b"] by (simp add: ab)
      next
        case False
        then have "min k (unat left - (a + b)) = unat (left - of_nat a - of_nat b)" by (simp add: ab)
        then have "of_nat (min k (unat left - (a + b))) = left - of_nat a - of_nat b"
          by (simp only:) simp
        with False show ?thesis by simp
      qed
      show ?thesis using i False F
        unfolding findClosestVBlocking.simps Let_def left_def [symmetric] m L [symmetric] b a
        by (simp add: v ab c)
    qed
  qed
qed

lemma set_concat_take: "v \<in> set (take k vs) \<Longrightarrow> set v \<subseteq> set (concat (take k vs))"
  by auto

lemma length_filter_sort_key:
  "length (filter P (sort_key f xs)) = length (filter P xs)"
  by (simp add: filter_sort)

lemma length_filter_take: "length (filter P (take k xs)) \<le> length (filter P xs)"
  by (metis append_take_drop_id filter_append le_add1 length_append)

lemma findClosestVBlocking_correct:
  assumes "wf_qset q"
  shows "(findClosestVBlocking q nodes None = [] \<longleftrightarrow> \<not> isQuorumSlice q nodes)
    \<and> set (findClosestVBlocking q nodes None) \<subseteq> set nodes
    \<and> \<not> isQuorumSlice q (filter (\<lambda>n. n \<notin> set (findClosestVBlocking q nodes None)) nodes)"
  using assms
proof (induction q)
  case (QSet t vs ss)
  let ?f = "\<lambda>q. findClosestVBlocking q nodes None"
  define L where "L = 1 + length vs + length ss - unat t"
  define m where "m = fcv_missing ss vs nodes"
  define inN where "inN = filter (\<lambda>v. v \<in> set nodes) vs"
  define ints where "ints = filter (\<lambda>v. v \<noteq> []) (map ?f ss)"
  have wf: "1 \<le> unat t" "unat t \<le> length vs + length ss" using QSet.prems by auto
  have wfs: "wf_qset q" if "q \<in> set ss" for q using QSet.prems that by (auto simp: list_all_iff)
  have need: "need t = unat t" using wf by (auto simp: need_def)
  have cv: "length (filter (\<lambda>v. v \<notin> set nodes) vs) + length inN = length vs"
    using length_filter_compl [of "\<lambda>v. v \<in> set nodes" vs] by (simp add: inN_def)
  have ints: "length ints = length (filter (\<lambda>q. ?f q \<noteq> []) ss)"
    by (simp add: ints_def filter_map comp_def)
  have cs: "length (filter (\<lambda>q. ?f q = []) ss) + length ints = length ss"
    using length_filter_compl [of "\<lambda>q. ?f q = []" ss] by (simp add: ints)
  have m: "m + length inN + length ints = length vs + length ss"
    using cv cs by (simp add: m_def fcv_missing_def)
  have slice: "isQuorumSlice q nodes \<longleftrightarrow> ?f q \<noteq> []" if "q \<in> set ss" for q
    using QSet.IH [OF that wfs [OF that]] by blast
  have "filter (\<lambda>q. isQuorumSlice q nodes) ss = filter (\<lambda>q. ?f q \<noteq> []) ss"
    by (rule filter_cong) (auto simp: slice)
  then have S: "isQuorumSlice (QSet t vs ss) nodes \<longleftrightarrow> m < L"
    unfolding isQuorumSlice_hits need using ints m wf by (auto simp: inN_def L_def)
  define res where "res = take (L - m) inN"
  define R where "R = res @ concat (take (L - m - length res) (sort_key length ints))"
  have F: "?f (QSet t vs ss) = (if L \<le> m then [] else R)"
    unfolding findClosestVBlocking_unfold [OF QSet.prems] Let_def
    by (simp add: L_def m_def inN_def ints_def R_def res_def)
  have avail: "L - m - length res \<le> length ints" using m wf by (auto simp: res_def L_def)
  have ne: "R \<noteq> []" if "m < L"
  proof (cases "res = []")
    case True
    then have "0 < length (take (L - m - length res) (sort_key length ints))"
      using that avail by simp
    moreover have "sort_key length ints = [] \<longleftrightarrow> ints = []"
      by (metis length_0_conv length_sort)
    moreover have "\<forall>v \<in> set (take (L - m - length res) (sort_key length ints)). v \<noteq> []"
      by (auto simp: ints_def dest!: in_set_takeD)
    ultimately show ?thesis by (auto simp: R_def)
  qed (simp add: R_def)
  have A: "?f (QSet t vs ss) = [] \<longleftrightarrow> \<not> isQuorumSlice (QSet t vs ss) nodes"
    using F S ne by (auto split: if_splits)
  have B: "set (?f (QSet t vs ss)) \<subseteq> set nodes"
  proof -
    have "set res \<subseteq> set nodes" by (auto simp: res_def inN_def dest: in_set_takeD)
    moreover have "\<forall>v \<in> set ints. set v \<subseteq> set nodes"
      using QSet.IH wfs by (auto simp: ints_def)
    then have "set (concat (take k (sort_key length ints))) \<subseteq> set nodes" for k
      using set_take_subset [of k "sort_key length ints"] by (auto simp: subset_iff)
    ultimately have "set R \<subseteq> set nodes" unfolding R_def set_append by blast
    then show ?thesis using F by auto
  qed
  have C: "\<not> isQuorumSlice (QSet t vs ss) (filter (\<lambda>n. n \<notin> set (?f (QSet t vs ss))) nodes)"
  proof (cases "m < L")
    case False
    then show ?thesis using S isQuorumSlice_mono [OF _ filter_is_subset] by blast
  next
    case True
    let ?M = "filter (\<lambda>n. n \<notin> set R) nodes"
    have "length (filter (\<lambda>v. v \<in> set ?M) vs) + length res \<le> length inN"
    proof -
      have "length (filter (\<lambda>v. v \<in> set ?M) vs) = length (filter (\<lambda>v. v \<notin> set R) inN)"
        by (simp add: inN_def)
      moreover have "length res \<le> length (filter (\<lambda>v. v \<in> set R) inN)"
      proof -
        have "filter (\<lambda>v. v \<in> set R) res = res" by (auto simp: R_def intro: filter_True)
        then show ?thesis using length_filter_take [of "\<lambda>v. v \<in> set R" "L - m" inN]
          by (simp add: res_def)
      qed
      ultimately show ?thesis using length_filter_compl [of "\<lambda>v. v \<in> set R" inN] by linarith
    qed
    moreover have "length (filter (\<lambda>q. isQuorumSlice q ?M) ss) + (L - m - length res) \<le> length ints"
    proof -
      have "isQuorumSlice q ?M \<longrightarrow> ?f q \<noteq> [] \<and> \<not> set (?f q) \<subseteq> set R" if q: "q \<in> set ss" for q
      proof (intro impI conjI)
        assume s: "isQuorumSlice q ?M"
        then have "isQuorumSlice q nodes" by (rule isQuorumSlice_mono) auto
        then show "?f q \<noteq> []" using slice [OF q] by simp
        show "\<not> set (?f q) \<subseteq> set R"
        proof
          assume "set (?f q) \<subseteq> set R"
          then have "isQuorumSlice q (filter (\<lambda>n. n \<notin> set (?f q)) nodes)"
            by (intro isQuorumSlice_mono [OF s]) auto
          then show False using QSet.IH [OF q wfs [OF q]] by blast
        qed
      qed
      then have "length (filter (\<lambda>q. isQuorumSlice q ?M) ss) \<le>
          length (filter (\<lambda>q. ?f q \<noteq> [] \<and> \<not> set (?f q) \<subseteq> set R) ss)"
        by (induction ss) auto
      also have "\<dots> = length (filter (\<lambda>v. \<not> set v \<subseteq> set R) ints)"
        by (simp add: ints_def filter_map comp_def)
      finally have "length (filter (\<lambda>q. isQuorumSlice q ?M) ss)
          \<le> length (filter (\<lambda>v. \<not> set v \<subseteq> set R) ints)" .
      moreover have "L - m - length res \<le> length (filter (\<lambda>v. set v \<subseteq> set R) ints)"
      proof -
        let ?k = "L - m - length res" and ?so = "sort_key length ints"
        have "filter (\<lambda>v. set v \<subseteq> set R) (take ?k ?so) = take ?k ?so"
          by (rule filter_True) (use set_concat_take R_def in fastforce)
        then have "length (take ?k ?so) \<le> length (filter (\<lambda>v. set v \<subseteq> set R) ?so)"
          using length_filter_take [of "\<lambda>v. set v \<subseteq> set R" ?k ?so] by simp
        then show ?thesis using avail by (simp add: length_filter_sort_key)
      qed
      ultimately show ?thesis
        using length_filter_compl [of "\<lambda>v. set v \<subseteq> set R" ints] by linarith
    qed
    ultimately have "length (filter (\<lambda>v. v \<in> set ?M) vs) + length (filter (\<lambda>q. isQuorumSlice q ?M) ss) < unat t"
      using m True wf avail by (auto simp: L_def res_def min_def split: if_splits)
    then show ?thesis using F True unfolding isQuorumSlice_hits need by simp
  qed
  show ?case using A B C by blast
qed

subsection \<open>Properties\<close>

text \<open>Blocking and slices are dual: for a quorum set whose thresholds are in range, a set of
  nodes is v-blocking exactly when the other nodes contain no slice. So a set of accepting nodes
  that blocks the local node meets every one of its slices.\<close>

theorem isVBlocking_dual:
  assumes "wf_qset q" and "\<forall>n \<in> set (allNodes q). n \<in> set others \<longleftrightarrow> n \<notin> set nodes"
  shows "isVBlocking q nodes \<longleftrightarrow> \<not> isQuorumSlice q others"
  by (rule VBlocking_slice_dual [OF assms])

definition ex_qset :: SCPQuorumSet where
  "ex_qset = QSet 2 [1, 2] [QSet 2 [3, 4, 5] []]"

theorem isVBlocking_dual_witness:
  "isVBlocking ex_qset [2, 3, 4] \<and> \<not> isQuorumSlice ex_qset [1, 5]"
  using isVBlocking_dual [of ex_qset "[1, 5]" "[2, 3, 4]"] by (auto simp: ex_qset_def)

text \<open>C27. \<open>isQuorum\<close> computes a greatest fixpoint: it succeeds exactly when some set of nodes whose
  statements pass the filter contains a slice of the local quorum set and, for each of its nodes,
  a slice of that node's own quorum set. No quorum is missed by the order of elimination, and
  the loop always ends.\<close>

theorem isQuorum_correct:
  "isQuorum q envs qfun flt \<longleftrightarrow>
     (\<exists>U. set U \<subseteq> set (map fst (filter (\<lambda>(n, st). flt st) envs)) \<and> isQuorumSlice q U
        \<and> (\<forall>n \<in> set U. \<exists>st qs. map_of envs n = Some st \<and> qfun st = Some qs \<and> isQuorumSlice qs U))"
  unfolding isQuorum_iff_closed closedNodes_def list_all_iff quorumFilter_iff filterNodes_def by blast

definition ex_envs :: "(NodeID \<times> bool) list" where
  "ex_envs = [(1, True), (2, True), (3, False), (4, True)]"

definition ex_qfun :: "bool \<Rightarrow> SCPQuorumSet option" where
  "ex_qfun st = Some (QSet 2 [1, 2, 3] [])"

theorem isQuorum_correct_witness:
  "isQuorum (QSet 2 [1, 2, 3] []) ex_envs ex_qfun (\<lambda>st. st) \<and>
   (\<exists>U. set U \<subseteq> {1, 2, 4} \<and> isQuorumSlice (QSet 2 [1, 2, 3] []) U)"
proof -
  have q: "isQuorum (QSet 2 [1, 2, 3] []) ex_envs ex_qfun (\<lambda>st. st)"
    by (simp add: isQuorum_def filterNodes_def quorumLoop.simps quorumFilter_def ex_envs_def ex_qfun_def)
  have "set (map fst (filter (\<lambda>(n, st). st) ex_envs)) = {1, 2, 4}" by (auto simp: ex_envs_def)
  with q isQuorum_correct [of "QSet 2 [1, 2, 3] []" ex_envs ex_qfun "\<lambda>st. st"] show ?thesis by metis
qed

text \<open>\<open>findClosestVBlocking\<close> (with no excluded node) returns nothing exactly when the nodes
  contain no slice, that is when the quorum set is blocked already; what it returns is among the
  nodes, and without the returned ones the nodes contain no slice.\<close>

theorem findClosestVBlocking_blocks:
  assumes "wf_qset q"
  shows "(findClosestVBlocking q nodes None = [] \<longleftrightarrow> \<not> isQuorumSlice q nodes)
    \<and> set (findClosestVBlocking q nodes None) \<subseteq> set nodes
    \<and> \<not> isQuorumSlice q (filter (\<lambda>n. n \<notin> set (findClosestVBlocking q nodes None)) nodes)"
  by (rule findClosestVBlocking_correct [OF assms])

theorem findClosestVBlocking_blocks_witness:
  "findClosestVBlocking ex_qset [1, 2, 3, 4, 5] None = [1, 2]
     \<and> \<not> isQuorumSlice ex_qset (filter (\<lambda>n. n \<notin> {1, 2}) [1, 2, 3, 4, 5])"
  using findClosestVBlocking_blocks [of ex_qset "[1, 2, 3, 4, 5]"] by (auto simp: ex_qset_def)

end
