(* ===== verification/Quorum_Sets.thy ===== *)
theory Quorum_Sets
  imports Quorum
begin

section \<open>Quorum-set checks and rewriting (src/src/scp/QuorumSetUtils.cpp, src/src/scp/LocalNode.cpp)\<close>

text \<open>
  The sanity check of a quorum set, its normalisation, a node's weight in it, the nodes it
  mentions, and the transitive search of \<^verbatim>\<open>isNodeInQuorum\<close>. The checker's members
  \<^verbatim>\<open>mKnownNodes\<close> and \<^verbatim>\<open>mCount\<close> are threaded as a pair.
\<close>

subsection \<open>Sanity\<close>

type_synonym sanity_state = "NodeID list \<times> nat"

text \<open>\<open>vBlockingSize\<close> is compared only once the threshold is known not to exceed
  \<open>totEntries\<close>, so its subtraction does not wrap. The loop that records the validators: it stops at the first repetition.\<close>

fun insertAll :: "NodeID list \<Rightarrow> NodeID list \<Rightarrow> bool \<times> NodeID list" where
  "insertAll known [] = (True, known)"
| "insertAll known (n # ns) =
     (if n \<in> set known then (False, known) else insertAll (n # known) ns)"

text \<open>\<^verbatim>\<open>checkSanity\<close> up to its loop over the inner sets.\<close>

definition checkLevel :: "bool \<Rightarrow> u32 \<Rightarrow> NodeID list \<Rightarrow> nat \<Rightarrow> nat \<Rightarrow> sanity_state \<Rightarrow> bool \<times> sanity_state" where
  "checkLevel mExtraChecks threshold v iSize depth = (\<lambda>(mKnownNodes, mCount).
     if 2 < depth then (False, mKnownNodes, mCount)
     else if threshold < 1 then (False, mKnownNodes, mCount)
     else
       let totEntries = length v + iSize;
           vBlockingSize = totEntries + 1 - unat threshold;
           mCount = mCount + length v
       in if totEntries < unat threshold then (False, mKnownNodes, mCount)
          else if mExtraChecks \<and> unat threshold < vBlockingSize then (False, mKnownNodes, mCount)
          else case insertAll mKnownNodes v of (ok, mKnownNodes) \<Rightarrow> (ok, mKnownNodes, mCount))"

fun checkSanity :: "bool \<Rightarrow> SCPQuorumSet \<Rightarrow> nat \<Rightarrow> sanity_state \<Rightarrow> bool \<times> sanity_state"
and checkInnerSets :: "bool \<Rightarrow> SCPQuorumSet list \<Rightarrow> nat \<Rightarrow> sanity_state \<Rightarrow> bool \<times> sanity_state" where
  "checkSanity mExtraChecks (QSet threshold v i) depth st =
     (case checkLevel mExtraChecks threshold v (length i) depth st of (ok, st) \<Rightarrow>
        if \<not> ok then (False, st) else checkInnerSets mExtraChecks i (depth + 1) st)"
| "checkInnerSets mExtraChecks [] depth st = (True, st)"
| "checkInnerSets mExtraChecks (iSet # iSets) depth st =
     (case checkSanity mExtraChecks iSet depth st of (ok, st) \<Rightarrow>
        if \<not> ok then (False, st) else checkInnerSets mExtraChecks iSets depth st)"

definition isQuorumSetSane :: "SCPQuorumSet \<Rightarrow> bool \<Rightarrow> bool" where
  "isQuorumSetSane qSet extraChecks =
     (case checkSanity extraChecks qSet 0 ([], 0) of (ok, known, mCount) \<Rightarrow>
        ok \<and> 1 \<le> mCount \<and> mCount \<le> 1000)"

text \<open>The specification: at most \<open>k\<close> levels, each threshold in range (and at least a blocking
  size, with the extra checks).\<close>

fun saneShape :: "bool \<Rightarrow> nat \<Rightarrow> SCPQuorumSet \<Rightarrow> bool" where
  "saneShape extra k (QSet t vs ss) \<longleftrightarrow> 0 < k \<and> 1 \<le> unat t \<and> unat t \<le> length vs + length ss
     \<and> (extra \<longrightarrow> length vs + length ss + 1 \<le> 2 * unat t) \<and> list_all (saneShape extra (k - 1)) ss"

lemma insertAll_spec:
  "insertAll known ns = (ok, known') \<Longrightarrow>
     (ok \<longleftrightarrow> distinct ns \<and> set ns \<inter> set known = {}) \<and> (ok \<longrightarrow> set known' = set known \<union> set ns)"
  by (induction known ns rule: insertAll.induct) (auto split: if_splits)

lemma word_less_1: "(t :: u32) < 1 \<longleftrightarrow> \<not> 1 \<le> unat t"
  by (auto simp: word_less_nat_alt)

lemma checkLevel_spec:
  assumes "checkLevel extra t v n depth (known, c) = (ok, known', c')"
  shows "(ok \<longleftrightarrow> depth \<le> 2 \<and> 1 \<le> unat t \<and> unat t \<le> length v + n
      \<and> (extra \<longrightarrow> length v + n + 1 \<le> 2 * unat t) \<and> distinct v \<and> set v \<inter> set known = {})
    \<and> (ok \<longrightarrow> set known' = set known \<union> set v \<and> c' = c + length v)"
proof -
  obtain b k where ins: "insertAll known v = (b, k)" by (cases "insertAll known v")
  have t0: "Suc 0 \<le> unat t \<longleftrightarrow> t \<noteq> 0" by (simp add: Suc_le_eq unat_gt_0)
  show ?thesis using assms insertAll_spec [OF ins]
    by (auto simp: checkLevel_def Let_def ins t0 split: if_splits)
qed

lemma checkSanity_spec:
  "\<And>known c ok known' c'. checkSanity extra q depth st = (ok, known', c') \<Longrightarrow> st = (known, c) \<Longrightarrow>
     (ok \<longleftrightarrow> saneShape extra (3 - depth) q \<and> distinct (allNodes q) \<and> set (allNodes q) \<inter> set known = {})
     \<and> (ok \<longrightarrow> set known' = set known \<union> set (allNodes q) \<and> c' = c + length (allNodes q))"
  "\<And>known c ok known' c'. checkInnerSets extra qs depth st = (ok, known', c') \<Longrightarrow> st = (known, c) \<Longrightarrow>
     (ok \<longleftrightarrow> list_all (saneShape extra (3 - depth)) qs \<and> distinct (concat (map allNodes qs))
        \<and> set (concat (map allNodes qs)) \<inter> set known = {})
     \<and> (ok \<longrightarrow> set known' = set known \<union> set (concat (map allNodes qs))
        \<and> c' = c + length (concat (map allNodes qs)))"
proof (induction extra q depth st and extra qs depth st rule: checkSanity_checkInnerSets.induct)
  case (1 extra t v i depth st)
  obtain b k d where l: "checkLevel extra t v (length i) depth (known, c) = (b, k, d)"
    by (metis prod_cases3)
  note L = checkLevel_spec [OF l]
  show ?case
  proof (cases b)
    case True
    then have e: "checkInnerSets extra i (depth + 1) (k, d) = (ok, known', c')"
      using 1(2,3) l by simp
    have b: "\<not> \<not> b" using True by simp
    have "3 - (depth + 1) = 3 - depth - 1" by simp
    then show ?thesis using 1(1) [OF l [folded 1(3), symmetric] b e refl] L True by auto
  next
    case False
    then show ?thesis using 1(2,3) l L by auto
  qed
next
  case (2 extra depth st)
  then show ?case by auto
next
  case (3 extra q qs depth st)
  obtain b k d where q: "checkSanity extra q depth (known, c) = (b, k, d)"
    by (metis prod_cases3)
  note Q = 3(1) [OF q [folded 3(4)] 3(4)]
  show ?case
  proof (cases b)
    case True
    then have e: "checkInnerSets extra qs depth (k, d) = (ok, known', c')" using 3(3,4) q by simp
    have b: "\<not> \<not> b" using True by simp
    show ?thesis using 3(2) [OF q [folded 3(4), symmetric] b e refl] Q True by auto
  next
    case False
    then show ?thesis using 3(3,4) q Q by auto
  qed
qed

lemma isQuorumSetSane_iff:
  "isQuorumSetSane q extra \<longleftrightarrow> saneShape extra 3 q \<and> distinct (allNodes q)
     \<and> 1 \<le> length (allNodes q) \<and> length (allNodes q) \<le> 1000"
proof -
  obtain b k d where q: "checkSanity extra q 0 ([], 0) = (b, k, d)" by (metis prod_cases3)
  show ?thesis using checkSanity_spec(1) [OF q refl] by (auto simp: isQuorumSetSane_def q)
qed

text \<open>A sane set has thresholds in range: what the duality of blocking and slices asks for.\<close>

lemma saneShape_nodes: "saneShape extra k q \<Longrightarrow> 1 \<le> length (allNodes q)"
proof (induction k arbitrary: q)
  case 0
  then show ?case by (cases q) simp
next
  case (Suc k)
  obtain t vs ss where q: "q = QSet t vs ss" by (cases q)
  show ?case
  proof (cases "vs = []")
    case True
    then obtain s ss' where ss: "ss = s # ss'" using Suc.prems q by (cases ss) auto
    then have "1 \<le> length (allNodes s)" using Suc q by auto
    then show ?thesis by (simp add: q ss)
  qed (cases vs; simp add: q)
qed

lemma saneShape_wf: "\<lbrakk>saneShape extra k q; length (allNodes q) < 2 ^ 31\<rbrakk> \<Longrightarrow> wf_qset q"
proof (induction k arbitrary: q)
  case 0
  then show ?case by (cases q) simp
next
  case (Suc k)
  obtain t vs ss where q: "q = QSet t vs ss" by (cases q)
  have s: "\<forall>s \<in> set ss. saneShape extra k s" using Suc.prems(1) by (simp add: q list_all_iff)
  have "length ss \<le> length (concat (map allNodes ss))"
    using s saneShape_nodes by (induction ss) fastforce+
  moreover have "length (allNodes x) \<le> length (concat (map allNodes ss))" if "x \<in> set ss" for x
    using that by (induction ss) auto
  ultimately have "length vs + length ss < 2 ^ 31" "\<forall>x \<in> set ss. length (allNodes x) < 2 ^ 31"
    using Suc.prems(2) by (simp add: q, fastforce simp: q intro: order_le_less_trans)
  then show ?case using Suc.IH s Suc.prems(1) by (auto simp: q list_all_iff)
qed

lemma isQuorumSetSane_wf: "isQuorumSetSane q extra \<Longrightarrow> wf_qset q"
  unfolding isQuorumSetSane_iff by (rule saneShape_wf) auto

subsection \<open>Normalisation\<close>

definition isSingleton :: "SCPQuorumSet \<Rightarrow> bool" where
  "isSingleton q \<longleftrightarrow> qs_threshold q = 1 \<and> length (qs_validators q) = 1 \<and> length (qs_innerSets q) = 0"

fun normalizeQSet :: "SCPQuorumSet \<Rightarrow> NodeID option \<Rightarrow> SCPQuorumSet" where
  "normalizeQSet (QSet threshold v i) idToRemove =
     (let v1 = (case idToRemove of None \<Rightarrow> v | Some n \<Rightarrow> filter (\<lambda>x. x \<noteq> n) v);
          threshold1 = (case idToRemove of None \<Rightarrow> threshold
            | Some n \<Rightarrow> threshold - of_nat (length v - length v1));
          i1 = map (\<lambda>q. normalizeQSet q idToRemove) i;
          v2 = v1 @ map (\<lambda>q. qs_validators q ! 0) (filter isSingleton i1);
          i2 = filter (\<lambda>q. \<not> isSingleton q) i1
      in if threshold1 = 1 \<and> length v2 = 0 \<and> length i2 = 1 then last i2
         else QSet threshold1 v2 i2)"

lemma isSingleton_slice:
  "isSingleton q \<Longrightarrow> isQuorumSlice q ns \<longleftrightarrow> qs_validators q ! 0 \<in> set ns"
  by (cases q) (auto simp: isSingleton_def length_Suc_conv split: if_splits)

lemma isSingleton_blocking:
  "isSingleton q \<Longrightarrow> isVBlocking q ns \<longleftrightarrow> qs_validators q ! 0 \<in> set ns"
  by (cases q) (auto simp: isSingleton_def length_Suc_conv to_int32_def split: if_splits)

text \<open>Moving the singleton inner sets among the validators keeps the number of satisfied items,
  for any test that treats a singleton as its node.\<close>

lemma hits_singletons:
  assumes "\<And>q. isSingleton q \<Longrightarrow> P q \<longleftrightarrow> qs_validators q ! 0 \<in> set ns"
  shows "length (filter (\<lambda>v. v \<in> set ns) (map (\<lambda>q. qs_validators q ! 0) (filter isSingleton i)))
    + length (filter P (filter (\<lambda>q. \<not> isSingleton q) i)) = length (filter P i)"
  by (induction i) (auto simp: assms)

lemma simplify_outer:
  assumes "\<And>q. P (QSet 1 [] [q]) \<longleftrightarrow> P q"
  shows "P (if t = 1 \<and> length v = 0 \<and> length i = 1 then last i else QSet t v i) \<longleftrightarrow> P (QSet t v i)"
proof (cases "t = 1 \<and> length v = 0 \<and> length i = 1")
  case True
  then obtain q where "v = []" "i = [q]" by (auto simp: length_Suc_conv)
  with True assms [of q] show ?thesis by simp
qed auto

lemma need_1: "need 1 = 1"
  by (simp add: need_def)

lemma need_minus:
  "c < need t \<Longrightarrow> need (t - of_nat c) = need t - c"
proof (induction c)
  case (Suc c)
  then have IH: "need (t - of_nat c) = need t - c" by simp
  then have "need (t - of_nat c) \<noteq> 1" using Suc.prems by simp
  then have "t - of_nat c \<noteq> 1" by (metis need_1)
  then show ?case using need_minus_1 [of "t - of_nat c"] IH by (simp add: algebra_simps)
qed simp

text \<open>Removing a node from a quorum set is possible without the threshold wrapping around when no
  set reaches its threshold by that node's entries alone.\<close>

fun removable :: "NodeID \<Rightarrow> SCPQuorumSet \<Rightarrow> bool" where
  "removable n (QSet t vs ss) \<longleftrightarrow>
     length (filter (\<lambda>v. v = n) vs) < need t \<and> list_all (removable n) ss"

lemma isQuorumSlice_single: "isQuorumSlice (QSet 1 [] [q]) ns \<longleftrightarrow> isQuorumSlice q ns"
  by simp

lemma normalizeQSet_remove:
  "removable n q \<Longrightarrow> isQuorumSlice (normalizeQSet q (Some n)) ns \<longleftrightarrow> isQuorumSlice q (n # ns)"
proof (induction q)
  case (QSet t v i)
  define v1 where "v1 = filter (\<lambda>x. x \<noteq> n) v"
  define t1 where "t1 = t - of_nat (length v - length v1)"
  define i1 where "i1 = map (\<lambda>q. normalizeQSet q (Some n)) i"
  define v2 where "v2 = v1 @ map (\<lambda>q. qs_validators q ! 0) (filter isSingleton i1)"
  define i2 where "i2 = filter (\<lambda>q. \<not> isSingleton q) i1"
  have N: "normalizeQSet (QSet t v i) (Some n) =
      (if t1 = 1 \<and> length v2 = 0 \<and> length i2 = 1 then last i2 else QSet t1 v2 i2)"
    unfolding normalizeQSet.simps Let_def option.case v1_def [symmetric] t1_def [symmetric]
      i1_def [symmetric] v2_def [symmetric] i2_def [symmetric] ..
  have "isQuorumSlice (normalizeQSet (QSet t v i) (Some n)) ns \<longleftrightarrow> isQuorumSlice (QSet t1 v2 i2) ns"
    unfolding N by (rule simplify_outer [of "\<lambda>q. isQuorumSlice q ns", OF isQuorumSlice_single])
  moreover have "length (filter (\<lambda>x. x = n) v) + length v1 = length v"
    using length_filter_compl [of "\<lambda>x. x = n" v] by (simp add: v1_def)
  then have "need t1 = need t - length (filter (\<lambda>x. x = n) v)"
    using QSet.prems unfolding t1_def by (subst need_minus) auto
  moreover have "length (filter (\<lambda>v. v \<in> set (n # ns)) v) =
      length (filter (\<lambda>x. x = n) v) + length (filter (\<lambda>v. v \<in> set ns) v1)"
    unfolding v1_def by (induction v) auto
  moreover have "length (filter (\<lambda>q. isQuorumSlice q ns) i1) =
      length (filter (\<lambda>q. isQuorumSlice q (n # ns)) i)"
    using QSet by (simp add: i1_def filter_map comp_def list_all_iff cong: filter_cong)
  moreover have "length (filter (\<lambda>v. v \<in> set ns) v2) + length (filter (\<lambda>q. isQuorumSlice q ns) i2)
      = length (filter (\<lambda>v. v \<in> set ns) v1) + length (filter (\<lambda>q. isQuorumSlice q ns) i1)"
    using hits_singletons [of "\<lambda>q. isQuorumSlice q ns" ns i1] isSingleton_slice
    by (simp add: v2_def i2_def)
  ultimately show ?case using QSet.prems unfolding isQuorumSlice_hits by auto
qed

lemma normalizeQSet_slice:
  "isQuorumSlice (normalizeQSet q None) ns \<longleftrightarrow> isQuorumSlice q ns"
proof (induction q)
  case (QSet t v i)
  define i1 where "i1 = map (\<lambda>q. normalizeQSet q None) i"
  define v2 where "v2 = v @ map (\<lambda>q. qs_validators q ! 0) (filter isSingleton i1)"
  define i2 where "i2 = filter (\<lambda>q. \<not> isSingleton q) i1"
  have N: "normalizeQSet (QSet t v i) None =
      (if t = 1 \<and> length v2 = 0 \<and> length i2 = 1 then last i2 else QSet t v2 i2)"
    unfolding normalizeQSet.simps Let_def option.case i1_def [symmetric] v2_def [symmetric]
      i2_def [symmetric] ..
  have "isQuorumSlice (normalizeQSet (QSet t v i) None) ns \<longleftrightarrow> isQuorumSlice (QSet t v2 i2) ns"
    unfolding N by (rule simplify_outer [of "\<lambda>q. isQuorumSlice q ns", OF isQuorumSlice_single])
  moreover have "length (filter (\<lambda>q. isQuorumSlice q ns) i1) = length (filter (\<lambda>q. isQuorumSlice q ns) i)"
    using QSet by (simp add: i1_def filter_map comp_def cong: filter_cong)
  moreover have "length (filter (\<lambda>v. v \<in> set ns) v2) + length (filter (\<lambda>q. isQuorumSlice q ns) i2)
      = length (filter (\<lambda>v. v \<in> set ns) v) + length (filter (\<lambda>q. isQuorumSlice q ns) i1)"
    using hits_singletons [of "\<lambda>q. isQuorumSlice q ns" ns i1] isSingleton_slice
    by (simp add: v2_def i2_def)
  ultimately show ?case unfolding isQuorumSlice_hits by linarith
qed

lemma isVBlocking_single: "isVBlocking (QSet 1 [] [q]) ns \<longleftrightarrow> isVBlocking q ns"
  by (simp add: to_int32_def)

lemma normalizeQSet_blocking:
  "isVBlocking (normalizeQSet q None) ns \<longleftrightarrow> isVBlocking q ns"
proof (induction q)
  case (QSet t v i)
  define i1 where "i1 = map (\<lambda>q. normalizeQSet q None) i"
  define v2 where "v2 = v @ map (\<lambda>q. qs_validators q ! 0) (filter isSingleton i1)"
  define i2 where "i2 = filter (\<lambda>q. \<not> isSingleton q) i1"
  have N: "normalizeQSet (QSet t v i) None =
      (if t = 1 \<and> length v2 = 0 \<and> length i2 = 1 then last i2 else QSet t v2 i2)"
    unfolding normalizeQSet.simps Let_def option.case i1_def [symmetric] v2_def [symmetric]
      i2_def [symmetric] ..
  have "isVBlocking (normalizeQSet (QSet t v i) None) ns \<longleftrightarrow> isVBlocking (QSet t v2 i2) ns"
    unfolding N by (rule simplify_outer [of "\<lambda>q. isVBlocking q ns", OF isVBlocking_single])
  moreover have "length (filter (\<lambda>q. isVBlocking q ns) i1) = length (filter (\<lambda>q. isVBlocking q ns) i)"
    using QSet by (simp add: i1_def filter_map comp_def cong: filter_cong)
  moreover have "length (filter (\<lambda>v. v \<in> set ns) v2) + length (filter (\<lambda>q. isVBlocking q ns) i2)
      = length (filter (\<lambda>v. v \<in> set ns) v) + length (filter (\<lambda>q. isVBlocking q ns) i1)"
    using hits_singletons [of "\<lambda>q. isVBlocking q ns" ns i1] isSingleton_blocking
    by (simp add: v2_def i2_def)
  moreover have "length v2 + length i2 = length v + length i"
    using sum_length_filter_compl [of isSingleton i1] by (simp add: v2_def i2_def i1_def)
  then have "1 + int (length v2) + int (length i2) - uint t = 1 + int (length v) + int (length i) - uint t"
    by linarith
  ultimately show ?case
    by (simp only: isVBlocking.simps countdown_int_hits filter_append length_append filter_map
        length_map comp_def)
qed

subsection \<open>The weight of a node\<close>

text \<open>The loop over the inner sets stops at the first one that gives the node a weight.\<close>

fun firstLeaf :: "(u64 \<Rightarrow> cpp_error + u64) \<Rightarrow> (cpp_error + u64) list \<Rightarrow> cpp_error + u64" where
  "firstLeaf weigh [] = Inr 0"
| "firstLeaf weigh (w # ws) =
     bindE w (\<lambda>leafW. if leafW \<noteq> 0 then weigh leafW else firstLeaf weigh ws)"

text \<open>The flag \<open>bigDivide\<close> returns is not looked at.\<close>

definition weighU64 :: "u64 \<Rightarrow> u64 \<Rightarrow> u64 \<Rightarrow> cpp_error + u64" where
  "weighU64 n d a = bindE (bigDivide_u64 a n d ROUND_UP) (\<lambda>(ok, res). Inr res)"

fun getNodeWeight :: "NodeID \<Rightarrow> SCPQuorumSet \<Rightarrow> cpp_error + u64" where
  "getNodeWeight nodeID (QSet threshold validators innerSets) =
     (let n = ucast threshold;
          d = of_nat (length innerSets) + of_nat (length validators)
      in if nodeID \<in> set validators then weighU64 n d (- 1)
         else firstLeaf (weighU64 n d) (map (getNodeWeight nodeID) innerSets))"

lemma weighU64_exact:
  assumes "1 \<le> uint n" "uint n \<le> uint d"
  shows "\<exists>w. weighU64 n d a = Inr w \<and> uint w = cdiv (uint a * uint n) (uint d) \<and> (w \<noteq> 0 \<longleftrightarrow> a \<noteq> 0)"
proof -
  let ?c = "cdiv (uint a * uint n) (uint d)"
  have d: "0 < uint d" using assms by linarith
  then have "d \<noteq> 0" by auto
  have "uint a * uint n \<le> uint a * uint d" using assms by (intro mult_left_mono) auto
  then have "?c \<le> uint a" using cdiv_le_iff [OF d] by blast
  moreover have "0 \<le> ?c" using d by (intro cdiv_nonneg) auto
  ultimately have u: "uint (of_int ?c :: u64) = ?c"
    using uint_u64_le [of a] by (intro uint_of_int_u64) linarith+
  have "0 < ?c \<longleftrightarrow> 0 < uint a * uint n" using less_cdiv_iff [OF d, of 0] by simp
  also have "\<dots> \<longleftrightarrow> uint a \<noteq> 0"
    using assms(1) unsigned_greater_eq [of a, where 'a = int] unfolding zero_less_mult_iff by linarith
  also have "\<dots> \<longleftrightarrow> a \<noteq> 0" by (simp add: unsigned_eq_0_iff)
  finally have "of_int ?c \<noteq> (0 :: u64) \<longleftrightarrow> a \<noteq> 0"
    using u by (metis \<open>0 \<le> ?c\<close> less_le unsigned_0 unsigned_eq_0_iff)
  then show ?thesis using u bigDivide_u64_exact [OF \<open>d \<noteq> 0\<close>, of a n ROUND_UP]
    by (simp add: weighU64_def)
qed

lemma getNodeWeight_positive:
  "wf_qset q \<Longrightarrow> \<exists>w. getNodeWeight n q = Inr w \<and> (w \<noteq> 0 \<longleftrightarrow> n \<in> set (allNodes q))"
proof (induction q)
  case (QSet t vs ss)
  define c where "c = (ucast t :: u64)"
  define d where "d = (of_nat (length ss) + of_nat (length vs) :: u64)"
  have "unat d = length ss + length vs"
    using QSet.prems unat_of_nat_u64 [of "length ss + length vs"] by (simp add: d_def)
  moreover have "unat c = unat t" using unsigned_less [of t, where 'a = nat]
    by (simp add: c_def unsigned_ucast_eq take_bit_nat_eq_self)
  ultimately have "1 \<le> uint c" "uint c \<le> uint d"
    using QSet.prems unfolding uint_nat by (auto simp del: of_nat_unat)
  note W = weighU64_exact [OF this]
  have ih: "\<exists>w. getNodeWeight n q = Inr w \<and> (w \<noteq> 0 \<longleftrightarrow> n \<in> set (allNodes q))" if "q \<in> set ss" for q
    using QSet that by (auto simp: list_all_iff)
  have "\<exists>w. firstLeaf (weighU64 c d) (map (getNodeWeight n) ss) = Inr w
      \<and> (w \<noteq> 0 \<longleftrightarrow> n \<in> set (concat (map allNodes ss)))"
    using ih
  proof (induction ss)
    case (Cons s ss)
    obtain w where w: "getNodeWeight n s = Inr w" "w \<noteq> 0 \<longleftrightarrow> n \<in> set (allNodes s)"
      using Cons.prems by auto
    show ?case using Cons w W [of w] by (auto simp del: bindE_eq_Inr)
  qed simp
  then show ?case using W [of "- 1"]
    by (auto simp: Let_def c_def [symmetric] d_def [symmetric])
qed

subsection \<open>Is a node in the transitive quorum\<close>

datatype TriBool = TB_TRUE | TB_FALSE | TB_MAYBE

text \<open>The nodes \<^verbatim>\<open>forAllNodes\<close> calls its procedure on, in order; \<^const>\<open>allNodes\<close> is
  \<^verbatim>\<open>forAllNodesInternal\<close>.\<close>

definition forAllNodes :: "SCPQuorumSet \<Rightarrow> NodeID list" where
  "forAllNodes q = foldl (\<lambda>done n. if n \<in> set done then done else done @ [n]) [] (allNodes q)"

lemma foldl_new: "set (foldl (\<lambda>done n. if n \<in> set done then done else done @ [n]) d ns) = set d \<union> set ns
    \<and> (distinct d \<longrightarrow> distinct (foldl (\<lambda>done n. if n \<in> set done then done else done @ [n]) d ns))"
  by (induction ns arbitrary: d) auto

lemma set_forAllNodes [simp]: "set (forAllNodes q) = set (allNodes q)"
  using foldl_new [of "[]" "allNodes q"] by (simp add: forAllNodes_def)

lemma distinct_forAllNodes: "distinct (forAllNodes q)"
  using foldl_new [of "[]" "allNodes q"] by (simp add: forAllNodes_def)

text \<open>
  The search keeps a backlog and a visited set, both \<^verbatim>\<open>std::unordered_set\<close>: which element
  \<^verbatim>\<open>begin()\<close> yields is up to the library, so it is the parameter \<open>pick\<close>, an index into the
  backlog.
\<close>

fun exploreStatements :: "('st \<Rightarrow> SCPQuorumSet option) \<Rightarrow> NodeID list \<Rightarrow> 'st list
    \<Rightarrow> NodeID list \<times> TriBool \<Rightarrow> NodeID list \<times> TriBool" where
  "exploreStatements qfun visited [] (backlog, res) = (backlog, res)"
| "exploreStatements qfun visited (st # sts) (backlog, res) =
     (case qfun st of
        None \<Rightarrow> exploreStatements qfun visited sts (backlog, TB_MAYBE)
      | Some qset \<Rightarrow> exploreStatements qfun visited sts
          (foldl (\<lambda>b n. if n \<in> set visited \<or> n \<in> set b then b else b @ [n]) backlog (forAllNodes qset),
           res))"

definition knows :: "('st \<Rightarrow> SCPQuorumSet option) \<Rightarrow> (NodeID \<times> 'st list) list \<Rightarrow> NodeID \<Rightarrow> NodeID \<Rightarrow> bool" where
  "knows qfun m c n \<longleftrightarrow> (\<exists>sts st q. map_of m c = Some sts \<and> st \<in> set sts \<and> qfun st = Some q
     \<and> n \<in> set (allNodes q))"

lemma exploreStatements_set:
  "set (fst (exploreStatements qfun visited sts (backlog, res))) =
     set backlog \<union> ((\<Union>st \<in> set sts. case qfun st of None \<Rightarrow> {} | Some q \<Rightarrow> set (allNodes q)) - set visited)"
proof (induction qfun visited sts "(backlog, res)" arbitrary: backlog res rule: exploreStatements.induct)
  case (2 qfun visited st sts backlog res)
  have "set (foldl (\<lambda>b n. if n \<in> set visited \<or> n \<in> set b then b else b @ [n]) b ns) =
      set b \<union> (set ns - set visited)" for b ns
    by (induction ns arbitrary: b) auto
  then show ?case using 2 by (auto split: option.splits)
qed simp

lemma exploreStatements_res:
  "snd (exploreStatements qfun visited sts (backlog, res)) =
     (if \<exists>st \<in> set sts. qfun st = None then TB_MAYBE else res)"
  by (induction qfun visited sts "(backlog, res)" arbitrary: backlog res rule: exploreStatements.induct)
    (auto split: option.splits)

definition mentioned :: "('st \<Rightarrow> SCPQuorumSet option) \<Rightarrow> (NodeID \<times> 'st list) list \<Rightarrow> NodeID set" where
  "mentioned qfun m = (\<Union>p \<in> set m. \<Union>st \<in> set (snd p).
     case qfun st of None \<Rightarrow> {} | Some q \<Rightarrow> set (allNodes q))"

lemma finite_mentioned [simp]: "finite (mentioned qfun m)"
  by (auto simp: mentioned_def split: option.splits)

definition searchStep :: "('st \<Rightarrow> SCPQuorumSet option) \<Rightarrow> (NodeID \<times> 'st list) list \<Rightarrow> NodeID
    \<Rightarrow> NodeID list \<Rightarrow> NodeID list \<Rightarrow> TriBool \<Rightarrow> NodeID list \<times> TriBool" where
  "searchStep qfun m c backlog visited res =
     (let backlog = filter (\<lambda>x. x \<noteq> c) backlog; visited = c # visited
      in case map_of m c of
        None \<Rightarrow> (backlog, TB_MAYBE)
      | Some sts \<Rightarrow> exploreStatements qfun visited sts (backlog, res))"

lemma searchStep_backlog:
  "set (fst (searchStep qfun m c backlog visited res)) =
     (set backlog - {c}) \<union> ({n. knows qfun m c n} - insert c (set visited))"
  by (auto simp: searchStep_def Let_def knows_def exploreStatements_set split: option.splits)

lemma knows_mentioned: "knows qfun m c n \<Longrightarrow> n \<in> mentioned qfun m"
  by (force simp: knows_def mentioned_def dest: map_of_SomeD)

function isNodeInQuorumLoop :: "(NodeID list \<Rightarrow> nat) \<Rightarrow> NodeID \<Rightarrow> ('st \<Rightarrow> SCPQuorumSet option)
    \<Rightarrow> (NodeID \<times> 'st list) list \<Rightarrow> NodeID list \<Rightarrow> NodeID list \<Rightarrow> TriBool \<Rightarrow> TriBool" where
  "isNodeInQuorumLoop pick node qfun m backlog visited res =
     (if backlog = [] then res
      else let c = backlog ! (pick backlog mod length backlog) in
        if c = node then TB_TRUE
        else case searchStep qfun m c backlog visited res of
          (backlog', res') \<Rightarrow> isNodeInQuorumLoop pick node qfun m backlog' (c # visited) res')"
  by auto
termination
proof (relation "measures [\<lambda>(pick, node, qfun, m, b, v, res). card ((set b \<union> mentioned qfun m) - set v),
    \<lambda>(pick, node, qfun, m, b, v, res). card (set b \<inter> set v)]", goal_cases)
  case (2 pick node qfun m b v res c b' res')
  have c: "c \<in> set b" using 2(1,2) by simp
  have b': "set b' = (set b - {c}) \<union> ({n. knows qfun m c n} - insert c (set v))"
    using searchStep_backlog [of qfun m c b v res] 2(4) by (metis fst_conv)
  have sub: "(set b' \<union> mentioned qfun m) - set (c # v) \<subseteq> (set b \<union> mentioned qfun m) - set v"
    unfolding b' using knows_mentioned by fastforce
  show ?case
  proof (cases "c \<in> set v")
    case False
    then have "(set b' \<union> mentioned qfun m) - set (c # v) \<subset> (set b \<union> mentioned qfun m) - set v"
      using sub c by auto
    then show ?thesis by (simp add: psubset_card_mono)
  next
    case True
    then have "set b' \<inter> set (c # v) \<subset> set b \<inter> set v" unfolding b' using c by auto
    then have "card (set b' \<inter> set (c # v)) < card (set b \<inter> set v)" by (intro psubset_card_mono) auto
    moreover have "card ((set b' \<union> mentioned qfun m) - set (c # v)) \<le> card ((set b \<union> mentioned qfun m) - set v)"
      using sub by (intro card_mono) auto
    ultimately show ?thesis by auto
  qed
qed simp

declare isNodeInQuorumLoop.simps [simp del]

definition isNodeInQuorum :: "(NodeID list \<Rightarrow> nat) \<Rightarrow> NodeID \<Rightarrow> NodeID \<Rightarrow> ('st \<Rightarrow> SCPQuorumSet option)
    \<Rightarrow> (NodeID \<times> 'st list) list \<Rightarrow> TriBool" where
  "isNodeInQuorum pick mNodeID node qfun m =
     isNodeInQuorumLoop pick node qfun m [mNodeID] [] TB_FALSE"

text \<open>A node about which the search lacks information.\<close>

definition unresolved :: "('st \<Rightarrow> SCPQuorumSet option) \<Rightarrow> (NodeID \<times> 'st list) list \<Rightarrow> NodeID \<Rightarrow> bool" where
  "unresolved qfun m c = (case map_of m c of None \<Rightarrow> True | Some sts \<Rightarrow> list_ex (\<lambda>st. qfun st = None) sts)"

lemma searchStep_res:
  "snd (searchStep qfun m c backlog visited res) = (if unresolved qfun m c then TB_MAYBE else res)"
  by (auto simp: searchStep_def Let_def exploreStatements_res unresolved_def list_ex_iff split: option.splits)

definition searchInv :: "NodeID \<Rightarrow> NodeID \<Rightarrow> ('st \<Rightarrow> SCPQuorumSet option) \<Rightarrow> (NodeID \<times> 'st list) list
    \<Rightarrow> NodeID list \<Rightarrow> NodeID list \<Rightarrow> TriBool \<Rightarrow> bool" where
  "searchInv start node qfun m b v res \<longleftrightarrow>
     start \<in> set b \<union> set v \<and> (\<forall>c \<in> set b \<union> set v. (knows qfun m)\<^sup>*\<^sup>* start c) \<and> node \<notin> set v
     \<and> (\<forall>c \<in> set v. \<forall>n. knows qfun m c n \<longrightarrow> n \<in> set b \<union> set v)
     \<and> res = (if \<exists>c \<in> set v. unresolved qfun m c then TB_MAYBE else TB_FALSE)"

lemma searchInv_step:
  assumes "searchInv start node qfun m b v res" "c \<in> set b" "c \<noteq> node"
    and "searchStep qfun m c b v res = (b', res')"
  shows "searchInv start node qfun m b' (c # v) res'"
proof -
  have b': "set b' = (set b - {c}) \<union> ({n. knows qfun m c n} - insert c (set v))"
    using searchStep_backlog [of qfun m c b v res] assms(4) by (metis fst_conv)
  have r: "res' = (if unresolved qfun m c then TB_MAYBE else res)"
    using searchStep_res [of qfun m c b v res] assms(4) by (metis snd_conv)
  have reach: "(knows qfun m)\<^sup>*\<^sup>* start n" if "knows qfun m c n" for n
    using assms(1,2) that by (auto simp: searchInv_def intro: rtranclp.rtrancl_into_rtrancl)
  have u: "set b' \<union> set (c # v) = set b \<union> set v \<union> {n. knows qfun m c n}"
    using assms(2) by (auto simp: b')
  note inv = assms(1) [unfolded searchInv_def]
  have "start \<in> set b' \<union> set (c # v)" unfolding u using inv by blast
  moreover have "\<forall>x \<in> set b' \<union> set (c # v). (knows qfun m)\<^sup>*\<^sup>* start x" unfolding u using inv reach by blast
  moreover have "node \<notin> set (c # v)" using inv assms(3) by auto
  moreover have "\<forall>x \<in> set (c # v). \<forall>n. knows qfun m x n \<longrightarrow> n \<in> set b' \<union> set (c # v)"
    unfolding u using inv by auto
  moreover have "res' = (if \<exists>x \<in> set (c # v). unresolved qfun m x then TB_MAYBE else TB_FALSE)"
    unfolding r using inv by auto
  ultimately show ?thesis unfolding searchInv_def by blast
qed

lemma isNodeInQuorumLoop_correct:
  "searchInv start node qfun m b v res \<Longrightarrow> isNodeInQuorumLoop pick node qfun m b v res =
     (if (knows qfun m)\<^sup>*\<^sup>* start node then TB_TRUE
      else if \<exists>c. (knows qfun m)\<^sup>*\<^sup>* start c \<and> unresolved qfun m c then TB_MAYBE else TB_FALSE)"
proof (induction pick node qfun m b v res rule: isNodeInQuorumLoop.induct)
  case (1 pick node qfun m b v res)
  show ?case
  proof (cases "b = []")
    case True
    have "c \<in> set v" if "(knows qfun m)\<^sup>*\<^sup>* start c" for c
      using that 1(2) True by (induction rule: rtranclp_induct) (auto simp: searchInv_def)
    then have iff: "(knows qfun m)\<^sup>*\<^sup>* start c \<longleftrightarrow> c \<in> set v" for c
      using 1(2) True unfolding searchInv_def by (metis UnCI)
    have "node \<notin> set v" "res = (if \<exists>c \<in> set v. unresolved qfun m c then TB_MAYBE else TB_FALSE)"
      using 1(2) unfolding searchInv_def by blast+
    then show ?thesis using True
      by (subst isNodeInQuorumLoop.simps) (simp add: iff Bex_def)
  next
    case False
    define c where "c = b ! (pick b mod length b)"
    have c: "c \<in> set b" using False by (simp add: c_def)
    obtain b' res' where s: "searchStep qfun m c b v res = (b', res')" by fastforce
    show ?thesis
    proof (cases "c = node")
      case True
      then have "(knows qfun m)\<^sup>*\<^sup>* start node" using 1(2) c by (auto simp: searchInv_def)
      then show ?thesis using False True
        by (subst isNodeInQuorumLoop.simps) (simp add: c_def [symmetric] Let_def)
    next
      case n: False
      show ?thesis
        using 1(1) [OF False c_def n s [symmetric] searchInv_step [OF 1(2) c n s]] False n s
        by (subst isNodeInQuorumLoop.simps) (simp add: c_def [symmetric] Let_def)
    qed
  qed
qed

lemma searchInv_start: "searchInv start node qfun m [start] [] TB_FALSE"
  by (simp add: searchInv_def)

subsection \<open>Properties\<close>

text \<open>The sanity check accepts exactly the quorum sets with at most three levels, thresholds
  between one and the number of items (and no smaller than a blocking set, with the extra checks),
  no repeated node anywhere, and between 1 and 1000 nodes.\<close>

theorem isQuorumSetSane_correct:
  "isQuorumSetSane q extra \<longleftrightarrow> saneShape extra 3 q \<and> distinct (allNodes q)
     \<and> length (allNodes q) \<in> {1..1000}"
  by (simp add: isQuorumSetSane_iff)

text \<open>Normalising a quorum set without removing a node keeps its meaning: the same sets of nodes
  contain a slice of it and the same sets block it, whatever its thresholds.\<close>

theorem normalizeQSet_equivalent:
  "isQuorumSlice (normalizeQSet q None) nodes = isQuorumSlice q nodes
     \<and> isVBlocking (normalizeQSet q None) nodes = isVBlocking q nodes"
  by (simp add: normalizeQSet_slice normalizeQSet_blocking)

text \<open>Normalising with a node to remove yields the quorum set as seen by that node: a set of nodes
  contains a slice of the result exactly when, with the removed node added, it contains a slice of
  the original, provided no set in it reaches its threshold by that node alone.\<close>

theorem normalizeQSet_removes:
  assumes "removable n q"
  shows "isQuorumSlice (normalizeQSet q (Some n)) nodes = isQuorumSlice q (n # nodes)"
  by (rule normalizeQSet_remove [OF assms])

theorem normalizeQSet_removes_witness:
  "normalizeQSet (QSet 3 [1, 2] [QSet 1 [3] [], QSet 2 [1, 4, 5] []]) (Some 1)
      = QSet 2 [2, 3] [QSet 1 [4, 5] []]
    \<and> isQuorumSlice (normalizeQSet (QSet 3 [1, 2] [QSet 1 [3] [], QSet 2 [1, 4, 5] []]) (Some 1)) [3, 5]
      = isQuorumSlice (QSet 3 [1, 2] [QSet 1 [3] [], QSet 2 [1, 4, 5] []]) [1, 3, 5]"
  using normalizeQSet_removes [of 1 "QSet 3 [1, 2] [QSet 1 [3] [], QSet 2 [1, 4, 5] []]" "[3, 5]"]
  by (auto simp: need_def isSingleton_def)

text \<open>Where that proviso fails the result is unusable: removing the node of a singleton set leaves
  a threshold of zero, which \<open>isQuorumSlice\<close> counts down past zero, so that no set of nodes
  contains a slice of it.\<close>

theorem normalizeQSet_self:
  "normalizeQSet (buildSingletonQSet n) (Some n) = QSet 0 [] []
     \<and> \<not> isQuorumSlice (normalizeQSet (buildSingletonQSet n) (Some n)) nodes"
  by (simp add: buildSingletonQSet_def)

text \<open>In a quorum set with thresholds in range every division of the weight computation succeeds,
  and a node's weight is positive exactly when the node occurs in the set.\<close>

theorem getNodeWeight_correct:
  assumes "wf_qset q"
  shows "\<exists>w. getNodeWeight n q = Inr w \<and> (w \<noteq> 0 \<longleftrightarrow> n \<in> set (allNodes q))"
  by (rule getNodeWeight_positive [OF assms])

theorem getNodeWeight_correct_witness:
  "\<exists>w. getNodeWeight 4 ex_qset = Inr w \<and> w \<noteq> 0"
  using getNodeWeight_correct [of ex_qset 4] by (auto simp: ex_qset_def)

text \<open>The transitive search ends and its answer does not depend on the order in which the hash
  set yields its elements: true exactly when the node is reachable from the local node through the
  quorum sets of the known statements, otherwise unknown exactly when some reachable node has no
  statements or a statement whose quorum set is not known.\<close>

theorem isNodeInQuorum_correct:
  "isNodeInQuorum pick mNodeID node qfun m =
     (if (knows qfun m)\<^sup>*\<^sup>* mNodeID node then TB_TRUE
      else if \<exists>c. (knows qfun m)\<^sup>*\<^sup>* mNodeID c \<and> unresolved qfun m c then TB_MAYBE else TB_FALSE)"
  unfolding isNodeInQuorum_def by (rule isNodeInQuorumLoop_correct [OF searchInv_start])

end
