(* ===== verification/SCP_Statements.thy ===== *)
theory SCP_Statements
  imports Quorum_Sets "HOL-Library.List_Lexorder" "HOL-Library.Option_ord" "HOL-Library.Product_Lexorder"
begin

section \<open>Ballots, statements and federated voting (src/src/xdr/Stellar-SCP.x, src/src/scp/Slot.cpp)\<close>

text \<open>
  The messages of the consensus protocol, the order on ballots and on the ballot statements of one
  node (\<^verbatim>\<open>BallotProtocol::compareBallots\<close>, \<^verbatim>\<open>isNewerStatement\<close>), and federated voting over the
  latest envelopes (\<^verbatim>\<open>Slot::federatedAccept\<close>, \<^verbatim>\<open>federatedRatify\<close>). A value is a byte string in
  lexicographic order. What the slot asks of its environment, the virtual methods of
  \<^verbatim>\<open>SCPDriver\<close> and the local node, is the record \<open>Config\<close>.
\<close>

type_synonym Value = "u8 list"
type_synonym Hash = uint256

datatype SCPBallot = SCPBallot (bal_counter: u32) (bal_value: Value)

datatype SCPPledges =
    SCP_ST_PREPARE (prep_quorumSetHash: Hash) (prep_ballot: SCPBallot) (prep_prepared: "SCPBallot option")
      (prep_preparedPrime: "SCPBallot option") (prep_nC: u32) (prep_nH: u32)
  | SCP_ST_CONFIRM (conf_ballot: SCPBallot) (conf_nPrepared: u32) (conf_nCommit: u32) (conf_nH: u32)
      (conf_quorumSetHash: Hash)
  | SCP_ST_EXTERNALIZE (ext_commit: SCPBallot) (ext_nH: u32) (ext_commitQuorumSetHash: Hash)
  | SCP_ST_NOMINATE (nom_quorumSetHash: Hash) (nom_votes: "Value list") (nom_accepted: "Value list")

record SCPStatement =
  st_nodeID :: NodeID
  st_slotIndex :: u64
  st_pledges :: SCPPledges

record SCPEnvelope =
  env_statement :: SCPStatement
  env_signature :: "u8 list"

subsection \<open>The order on ballots\<close>

definition compareBallots :: "SCPBallot \<Rightarrow> SCPBallot \<Rightarrow> int" where
  "compareBallots b1 b2 =
     (if bal_counter b1 < bal_counter b2 then - 1
      else if bal_counter b2 < bal_counter b1 then 1
      else if bal_value b1 < bal_value b2 then - 1
      else if bal_value b2 < bal_value b1 then 1
      else 0)"

definition compareBallotPtrs :: "SCPBallot option \<Rightarrow> SCPBallot option \<Rightarrow> int" where
  "compareBallotPtrs b1 b2 = (case (b1, b2) of
     (Some x, Some y) \<Rightarrow> compareBallots x y
   | (Some _, None) \<Rightarrow> 1
   | (None, Some _) \<Rightarrow> - 1
   | (None, None) \<Rightarrow> 0)"

definition areBallotsCompatible :: "SCPBallot \<Rightarrow> SCPBallot \<Rightarrow> bool" where
  "areBallotsCompatible b1 b2 \<longleftrightarrow> bal_value b1 = bal_value b2"

definition areBallotsLessAndIncompatible :: "SCPBallot \<Rightarrow> SCPBallot \<Rightarrow> bool" where
  "areBallotsLessAndIncompatible b1 b2 \<longleftrightarrow> compareBallots b1 b2 \<le> 0 \<and> \<not> areBallotsCompatible b1 b2"

definition areBallotsLessAndCompatible :: "SCPBallot \<Rightarrow> SCPBallot \<Rightarrow> bool" where
  "areBallotsLessAndCompatible b1 b2 \<longleftrightarrow> compareBallots b1 b2 \<le> 0 \<and> areBallotsCompatible b1 b2"

text \<open>XDR's \<^verbatim>\<open>operator<\<close> on the struct, which \<^verbatim>\<open>std::set<SCPBallot>\<close> uses, compares the fields in
  order.\<close>

instantiation SCPBallot :: linorder
begin

definition less_SCPBallot :: "SCPBallot \<Rightarrow> SCPBallot \<Rightarrow> bool" where
  "a < b \<longleftrightarrow> bal_counter a < bal_counter b \<or> bal_counter a = bal_counter b \<and> bal_value a < bal_value b"

definition less_eq_SCPBallot :: "SCPBallot \<Rightarrow> SCPBallot \<Rightarrow> bool" where
  "a \<le> b \<longleftrightarrow> bal_counter a < bal_counter b \<or> bal_counter a = bal_counter b \<and> bal_value a \<le> bal_value b"

instance
  by intro_classes (auto simp: less_SCPBallot_def less_eq_SCPBallot_def intro: SCPBallot.expand)

end

lemma compareBallots_simps [simp]:
  "compareBallots a b < 0 \<longleftrightarrow> a < b"
  "compareBallots a b \<le> 0 \<longleftrightarrow> a \<le> b"
  "compareBallots a b = 0 \<longleftrightarrow> a = b"
  "0 < compareBallots a b \<longleftrightarrow> b < a"
  "0 \<le> compareBallots a b \<longleftrightarrow> b \<le> a"
  by (auto simp: compareBallots_def less_SCPBallot_def less_eq_SCPBallot_def intro: SCPBallot.expand)

lemma compareBallotPtrs_simps [simp]:
  "compareBallotPtrs p q < 0 \<longleftrightarrow> p < q"
  "compareBallotPtrs p q = 0 \<longleftrightarrow> p = q"
  by (cases p; cases q; simp add: compareBallotPtrs_def)+

subsection \<open>The order on statements\<close>

definition pledgesType :: "SCPPledges \<Rightarrow> nat" where
  "pledgesType pl = (case pl of SCP_ST_PREPARE _ _ _ _ _ _ \<Rightarrow> 0 | SCP_ST_CONFIRM _ _ _ _ _ \<Rightarrow> 1
     | SCP_ST_EXTERNALIZE _ _ _ \<Rightarrow> 2 | SCP_ST_NOMINATE _ _ _ \<Rightarrow> 3)"

text \<open>Two nomination statements are never compared here: the slot hands them to the nomination
  protocol.\<close>

fun isNewerPledges :: "SCPPledges \<Rightarrow> SCPPledges \<Rightarrow> bool" where
  "isNewerPledges (SCP_ST_PREPARE _ b p p' _ nH) (SCP_ST_PREPARE _ b2 p2 p2' _ nH2) =
     (if compareBallots b b2 < 0 then True
      else if compareBallots b b2 = 0 then
        (if compareBallotPtrs p p2 < 0 then True
         else if compareBallotPtrs p p2 = 0 then
           (if compareBallotPtrs p' p2' < 0 then True
            else if compareBallotPtrs p' p2' = 0 then nH < nH2 else False)
         else False)
      else False)"
| "isNewerPledges (SCP_ST_CONFIRM b nP _ nH _) (SCP_ST_CONFIRM b2 nP2 _ nH2 _) =
     (if compareBallots b b2 < 0 then True
      else if compareBallots b b2 = 0 then
        (if nP = nP2 then nH < nH2 else nP < nP2)
      else False)"
| "isNewerPledges oldpl pl = (pledgesType oldpl < pledgesType pl)"

definition isNewerStatement :: "SCPStatement \<Rightarrow> SCPStatement \<Rightarrow> bool" where
  "isNewerStatement oldst st = isNewerPledges (st_pledges oldst) (st_pledges st)"

text \<open>A ballot statement's place in the order: what a node can state only moves forward in it.\<close>

definition statementKey :: "SCPPledges \<Rightarrow>
    nat \<times> SCPBallot \<times> SCPBallot option \<times> SCPBallot option \<times> u32 \<times> u32" where
  "statementKey pl = (case pl of
     SCP_ST_PREPARE _ b p p' _ nH \<Rightarrow> (0, b, p, p', 0, nH)
   | SCP_ST_CONFIRM b nP _ nH _ \<Rightarrow> (1, b, None, None, nP, nH)
   | SCP_ST_EXTERNALIZE _ _ _ \<Rightarrow> (2, SCPBallot 0 [], None, None, 0, 0)
   | SCP_ST_NOMINATE _ _ _ \<Rightarrow> (3, SCPBallot 0 [], None, None, 0, 0))"

lemma isNewerPledges_key: "isNewerPledges a b \<longleftrightarrow> statementKey a < statementKey b"
  by (cases a; cases b) (auto simp: statementKey_def pledgesType_def less_prod_simp)

lemma isNewerStatement_trans:
  "\<lbrakk>isNewerStatement a b; isNewerStatement b c\<rbrakk> \<Longrightarrow> isNewerStatement a c"
  by (auto simp: isNewerStatement_def isNewerPledges_key)

lemma isNewerStatement_irrefl [simp]: "\<not> isNewerStatement a a"
  by (simp add: isNewerStatement_def isNewerPledges_key)

subsection \<open>The slot's environment\<close>

text \<open>
  What a slot reads and does not change: the local node, and the driver's answers, which come
  from the application. \<open>cfg_validateValue\<close> takes the \<^verbatim>\<open>nomination\<close> flag; the slot index is
  fixed.
\<close>

datatype ValidationLevel = kInvalidValue | kFullyValidatedValue | kMaybeValidValue

record Config =
  cfg_localNodeID :: NodeID
  cfg_isValidator :: bool
  cfg_qSet :: SCPQuorumSet
  cfg_qSetHash :: Hash
  cfg_slotIndex :: u64
  cfg_getQSet :: "Hash \<Rightarrow> SCPQuorumSet option"
  cfg_validateValue :: "Value \<Rightarrow> bool \<Rightarrow> ValidationLevel"
  cfg_extractValidValue :: "Value \<Rightarrow> Value"
  cfg_combineCandidates :: "Value list \<Rightarrow> Value"
  cfg_computeHashNode :: "Value \<Rightarrow> bool \<Rightarrow> int \<Rightarrow> NodeID \<Rightarrow> u64"
  cfg_computeValueHash :: "Value \<Rightarrow> int \<Rightarrow> Value \<Rightarrow> u64"
  cfg_signEnvelope :: "SCPStatement \<Rightarrow> u8 list"

definition createEnvelope :: "Config \<Rightarrow> SCPPledges \<Rightarrow> SCPEnvelope" where
  "createEnvelope cfg pledges =
     (let st = \<lparr>st_nodeID = cfg_localNodeID cfg, st_slotIndex = cfg_slotIndex cfg, st_pledges = pledges\<rparr>
      in \<lparr>env_statement = st, env_signature = cfg_signEnvelope cfg st\<rparr>)"

definition getCompanionQuorumSetHashFromStatement :: "SCPStatement \<Rightarrow> Hash" where
  "getCompanionQuorumSetHashFromStatement st = (case st_pledges st of
     SCP_ST_PREPARE h _ _ _ _ _ \<Rightarrow> h
   | SCP_ST_CONFIRM _ _ _ _ h \<Rightarrow> h
   | SCP_ST_EXTERNALIZE _ _ h \<Rightarrow> h
   | SCP_ST_NOMINATE h _ _ \<Rightarrow> h)"

definition getQuorumSetFromStatement :: "Config \<Rightarrow> SCPStatement \<Rightarrow> SCPQuorumSet option" where
  "getQuorumSetFromStatement cfg st = (case st_pledges st of
     SCP_ST_EXTERNALIZE _ _ _ \<Rightarrow> Some (buildSingletonQSet (st_nodeID st))
   | SCP_ST_PREPARE h _ _ _ _ _ \<Rightarrow> cfg_getQSet cfg h
   | SCP_ST_CONFIRM _ _ _ _ h \<Rightarrow> cfg_getQSet cfg h
   | SCP_ST_NOMINATE h _ _ \<Rightarrow> cfg_getQSet cfg h)"

subsection \<open>Federated voting\<close>

definition federatedAccept :: "Config \<Rightarrow> (SCPStatement \<Rightarrow> bool) \<Rightarrow> (SCPStatement \<Rightarrow> bool)
    \<Rightarrow> (NodeID \<times> SCPEnvelope) list \<Rightarrow> bool" where
  "federatedAccept cfg voted accepted envs =
     (if isVBlockingMap (cfg_qSet cfg) envs (accepted \<circ> env_statement) then True
      else isQuorum (cfg_qSet cfg) envs (getQuorumSetFromStatement cfg \<circ> env_statement)
        ((\<lambda>st. accepted st \<or> voted st) \<circ> env_statement))"

definition federatedRatify :: "Config \<Rightarrow> (SCPStatement \<Rightarrow> bool) \<Rightarrow> (NodeID \<times> SCPEnvelope) list \<Rightarrow> bool" where
  "federatedRatify cfg voted envs =
     isQuorum (cfg_qSet cfg) envs (getQuorumSetFromStatement cfg \<circ> env_statement) (voted \<circ> env_statement)"

text \<open>The contract the protocol relies on: accepting and ratifying are monotone in the predicates,
  what is ratified can be accepted, and a ratified statement and one accepted by blocking share a
  node.\<close>

locale federated_voting =
  fixes accept :: "('st \<Rightarrow> bool) \<Rightarrow> ('st \<Rightarrow> bool) \<Rightarrow> bool"
    and ratify :: "('st \<Rightarrow> bool) \<Rightarrow> bool"
    and blocked :: "('st \<Rightarrow> bool) \<Rightarrow> bool"
    and states :: "'st \<Rightarrow> bool"
    and sound :: bool
  assumes ratify_mono: "\<lbrakk>ratify f; \<And>st. f st \<Longrightarrow> g st\<rbrakk> \<Longrightarrow> ratify g"
    and blocked_mono: "\<lbrakk>blocked f; \<And>st. f st \<Longrightarrow> g st\<rbrakk> \<Longrightarrow> blocked g"
    and accept_iff: "accept voted accepted \<longleftrightarrow> blocked accepted \<or> ratify (\<lambda>st. accepted st \<or> voted st)"
    and meet: "\<lbrakk>sound; ratify f; blocked g\<rbrakk> \<Longrightarrow> \<exists>st. states st \<and> f st \<and> g st"
begin

lemma accept_mono:
  assumes "accept v a" "\<And>st. v st \<Longrightarrow> v' st" "\<And>st. a st \<Longrightarrow> a' st"
  shows "accept v' a'"
proof -
  from assms(1) consider "blocked a" | "ratify (\<lambda>st. a st \<or> v st)" unfolding accept_iff by blast
  then show ?thesis
  proof cases
    case 1
    then have "blocked a'" by (rule blocked_mono) (rule assms(3))
    then show ?thesis unfolding accept_iff ..
  next
    case 2
    then have "ratify (\<lambda>st. a' st \<or> v' st)" by (rule ratify_mono) (use assms(2,3) in blast)
    then show ?thesis unfolding accept_iff ..
  qed
qed

lemma ratified_accepted:
  assumes "ratify v"
  shows "accept v a"
proof -
  have "ratify (\<lambda>st. a st \<or> v st)" by (rule ratify_mono [OF assms]) blast
  then show ?thesis unfolding accept_iff ..
qed

lemma accept_conflict:
  "\<lbrakk>sound; ratify f; accept v a\<rbrakk> \<Longrightarrow> (\<exists>st. states st \<and> f st \<and> a st) \<or> ratify (\<lambda>st. a st \<or> v st)"
  using meet unfolding accept_iff by blast

end

text \<open>Nodes' statements in the latest envelopes.\<close>

definition stated :: "(NodeID \<times> SCPEnvelope) list \<Rightarrow> SCPStatement \<Rightarrow> bool" where
  "stated envs st \<longleftrightarrow> (\<exists>(n, e) \<in> set envs. env_statement e = st)"

lemma isVBlocking_mono:
  "\<lbrakk>isVBlocking q ns; set ns \<subseteq> set ms\<rbrakk> \<Longrightarrow> isVBlocking q ms"
proof (induction q)
  case (QSet t vs ss)
  have "length (filter (\<lambda>v. v \<in> set ns) vs) \<le> length (filter (\<lambda>v. v \<in> set ms) vs)"
    using QSet.prems(2) by (induction vs) auto
  moreover have "length (filter (\<lambda>q. isVBlocking q ns) ss) \<le> length (filter (\<lambda>q. isVBlocking q ms) ss)"
    using QSet.IH QSet.prems(2) by (induction ss) auto
  ultimately have "hits (map (\<lambda>v. v \<in> set ns) vs @ map (\<lambda>q. isVBlocking q ns) ss)
      \<le> hits (map (\<lambda>v. v \<in> set ms) vs @ map (\<lambda>q. isVBlocking q ms) ss)"
    by (simp add: filter_map comp_def)
  then show ?case using QSet.prems(1) unfolding isVBlocking.simps countdown_int_hits
    by (auto split: if_splits)
qed

lemma quorum_meets_blocking:
  assumes wf: "wf_qset q" and d: "distinct (map fst envs)"
    and quo: "isQuorum q envs qfun f" and blk: "isVBlockingMap q envs g"
  shows "\<exists>n e. (n, e) \<in> set envs \<and> f e \<and> g e"
proof (rule ccontr)
  assume no: "\<not> ?thesis"
  obtain U where U: "set U \<subseteq> set (filterNodes envs f)" "isQuorumSlice q U"
    using quo unfolding isQuorum_iff_closed by blast
  have dis: "n \<notin> set (filterNodes envs g)" if n: "n \<in> set U" for n
  proof
    assume "n \<in> set (filterNodes envs g)"
    then obtain e' where "(n, e') \<in> set envs" "g e'" by (auto simp: filterNodes_def)
    moreover obtain e where "(n, e) \<in> set envs" "f e" using U(1) n by (auto simp: filterNodes_def)
    ultimately show False using no d by (metis eq_key_imp_eq_value)
  qed
  define ms where "ms = filter (\<lambda>n. n \<notin> set (filterNodes envs g)) (allNodes q @ U)"
  have "isVBlocking q (filterNodes envs g) \<longleftrightarrow> \<not> isQuorumSlice q ms"
    by (rule VBlocking_slice_dual [OF wf]) (auto simp: ms_def)
  moreover have "isQuorumSlice q ms" by (rule isQuorumSlice_mono [OF U(2)]) (use dis ms_def in auto)
  ultimately show False using blk by (simp add: isVBlockingMap_def)
qed

interpretation fv: federated_voting
  "\<lambda>voted accepted. federatedAccept cfg voted accepted envs"
  "\<lambda>voted. federatedRatify cfg voted envs"
  "\<lambda>accepted. isVBlockingMap (cfg_qSet cfg) envs (accepted \<circ> env_statement)"
  "stated envs"
  "wf_qset (cfg_qSet cfg) \<and> distinct (map fst envs)"
  for cfg envs
proof
  fix f g :: "SCPStatement \<Rightarrow> bool"
  assume fg: "\<And>st. f st \<Longrightarrow> g st"
  { assume "federatedRatify cfg f envs"
    then show "federatedRatify cfg g envs"
      unfolding federatedRatify_def by (rule isQuorum_mono) (use fg in simp) }
  { assume "isVBlockingMap (cfg_qSet cfg) envs (f \<circ> env_statement)"
    then show "isVBlockingMap (cfg_qSet cfg) envs (g \<circ> env_statement)"
      unfolding isVBlockingMap_def by (rule isVBlocking_mono) (rule filterNodes_mono, use fg in simp) }
next
  fix voted accepted
  show "federatedAccept cfg voted accepted envs \<longleftrightarrow>
      isVBlockingMap (cfg_qSet cfg) envs (accepted \<circ> env_statement)
      \<or> federatedRatify cfg (\<lambda>st. accepted st \<or> voted st) envs"
    by (simp add: federatedAccept_def federatedRatify_def)
next
  fix f g
  assume "wf_qset (cfg_qSet cfg) \<and> distinct (map fst envs)" "federatedRatify cfg f envs"
    "isVBlockingMap (cfg_qSet cfg) envs (g \<circ> env_statement)"
  then obtain n e where "(n, e) \<in> set envs" "f (env_statement e)" "g (env_statement e)"
    using quorum_meets_blocking unfolding federatedRatify_def by fastforce
  then show "\<exists>st. stated envs st \<and> f st \<and> g st" by (auto simp: stated_def)
qed

subsection \<open>Properties\<close>

text \<open>The newer-than relation on a node's ballot statements is a strict order: it compares
  the lexicographic key (type, b, p, p', nPrepared, nH), so no sequence of accepted statements can
  return to an earlier one.\<close>

theorem isNewerStatement_order:
  "isNewerStatement a b \<longleftrightarrow> statementKey (st_pledges a) < statementKey (st_pledges b)"
  by (simp add: isNewerStatement_def isNewerPledges_key)

text \<open>A quorum and a blocking set meet: when the local quorum set is well-formed and one predicate is
  ratified while another is accepted by a v-blocking set, some node's latest statement satisfies
  both.\<close>

theorem ratified_meets_blocking:
  assumes "wf_qset (cfg_qSet cfg)" and "distinct (map fst envs)"
    and "federatedRatify cfg f envs" and "isVBlockingMap (cfg_qSet cfg) envs (g \<circ> env_statement)"
  shows "\<exists>(n, e) \<in> set envs. f (env_statement e) \<and> g (env_statement e)"
  using fv.meet [OF conjI [OF assms(1,2)] assms(3,4)] by (auto simp: stated_def)

text \<open>A three-node network for the examples: each node asks for two of the three.\<close>

definition ex_cfg :: Config where
  "ex_cfg = \<lparr>cfg_localNodeID = 1, cfg_isValidator = True, cfg_qSet = QSet 2 [1, 2, 3] [], cfg_qSetHash = 7,
     cfg_slotIndex = 1, cfg_getQSet = (\<lambda>h. if h = 7 then Some (QSet 2 [1, 2, 3] []) else None),
     cfg_validateValue = (\<lambda>v nomination. if v = [] then kInvalidValue else kFullyValidatedValue),
     cfg_extractValidValue = (\<lambda>v. []), cfg_combineCandidates = concat,
     cfg_computeHashNode = (\<lambda>v b r n. 0), cfg_computeValueHash = (\<lambda>v r w. 0),
     cfg_signEnvelope = (\<lambda>st. [])\<rparr>"

definition ex_env :: "NodeID \<Rightarrow> SCPPledges \<Rightarrow> SCPEnvelope" where
  "ex_env n pl = \<lparr>env_statement = \<lparr>st_nodeID = n, st_slotIndex = 1, st_pledges = pl\<rparr>, env_signature = []\<rparr>"

definition ex_prepare :: "u32 \<Rightarrow> SCPPledges" where
  "ex_prepare n = SCP_ST_PREPARE 7 (SCPBallot n [1]) None None 0 0"

definition ex_votes :: "(NodeID \<times> SCPEnvelope) list" where
  "ex_votes = [(1, ex_env 1 (ex_prepare 1)), (2, ex_env 2 (ex_prepare 2)), (3, ex_env 3 (ex_prepare 3))]"

theorem ratified_meets_blocking_witness:
  "\<exists>(n, e) \<in> set ex_votes. st_nodeID (env_statement e) \<noteq> 3 \<and> st_nodeID (env_statement e) \<noteq> 1"
proof -
  have "wf_qset (cfg_qSet ex_cfg)" "distinct (map fst ex_votes)"
    by (simp_all add: ex_cfg_def ex_votes_def)
  moreover have "federatedRatify ex_cfg (\<lambda>st. st_nodeID st \<noteq> 3) ex_votes"
    by (simp add: federatedRatify_def isQuorum_def filterNodes_def quorumLoop.simps quorumFilter_def
        ex_votes_def ex_env_def ex_cfg_def ex_prepare_def getQuorumSetFromStatement_def)
  moreover have "isVBlockingMap (cfg_qSet ex_cfg) ex_votes ((\<lambda>st. st_nodeID st \<noteq> 1) \<circ> env_statement)"
    by (simp add: isVBlockingMap_def filterNodes_def ex_votes_def ex_env_def ex_cfg_def to_int32_def)
  ultimately show ?thesis by (rule ratified_meets_blocking)
qed

end
