(* ===== verification/Ballot.thy ===== *)
theory Ballot
  imports SCP_Statements "HOL-Library.While_Combinator"
begin

section \<open>The ballot protocol (src/src/scp/BallotProtocol.cpp)\<close>

text \<open>
  \<open>Slot\<close> holds the members of the slot, those of its ballot protocol, and the two members of its
  nomination protocol that the ballot protocol reads or writes (the others are in theory
  \<open>Nomination\<close>); this theory is the ballot protocol, in the order of its file. What the code hands to the driver (timers, emitted envelopes,
  notifications) is appended to \<open>mEvents\<close>. Assertions are those of a debug build: a failing
  \<^verbatim>\<open>dbgAssert\<close> is \<^const>\<open>AssertionFailed\<close>, following a null pointer is \<^const>\<open>NullDereference\<close>.

  The code recurses: emitting a statement feeds it back to \<open>processEnvelope\<close>, which calls
  \<open>advanceSlot\<close>, whose steps emit. Every step is a definition with the emission as the argument
  \<open>emit\<close>; \<open>emitF\<close> ties the knot for a number of nested emissions. The code allows fewer than
  \<open>MAX_ADVANCE_SLOT_RECURSION\<close> levels, so 50 nested emissions are enough; a run that needed more
  would yield \<^const>\<open>NoReturn\<close>.
\<close>

datatype SCPPhase = SCP_PHASE_PREPARE | SCP_PHASE_CONFIRM | SCP_PHASE_EXTERNALIZE

datatype TimerID = NOMINATION_TIMER | BALLOT_PROTOCOL_TIMER

datatype Event =
    StartedBallotProtocol SCPBallot
  | AcceptedBallotPrepared SCPBallot
  | ConfirmedBallotPrepared SCPBallot
  | AcceptedCommit SCPBallot
  | ValueExternalized Value
  | BallotDidHearFromQuorum SCPBallot
  | SetupTimer TimerID int
  | EmitEnvelope SCPEnvelope
  | NominatingValue Value
  | UpdatedCandidateValue Value

record Slot =
  mFullyValidated :: bool
  mStatementsHistory :: "(SCPStatement \<times> bool) list"
  mHeardFromQuorum :: bool
  mPhase :: SCPPhase
  mCurrentBallot :: "SCPBallot option"
  mPrepared :: "SCPBallot option"
  mPreparedPrime :: "SCPBallot option"
  mHighBallot :: "SCPBallot option"
  mCommit :: "SCPBallot option"
  mLatestEnvelopes :: "(NodeID \<times> SCPEnvelope) list"
  mValueOverride :: "Value option"
  mCurrentMessageLevel :: int
  mLastEnvelope :: "SCPEnvelope option"
  mLastEnvelopeEmit :: "SCPEnvelope option"
  mNominationStarted :: bool
  mLatestCompositeCandidate :: Value
  mEvents :: "Event list"

datatype EnvelopeState = INVALID | VALID

definition MAX_ADVANCE_SLOT_RECURSION :: int where "MAX_ADVANCE_SLOT_RECURSION = 50"
definition MAX_TIMEOUT_SECONDS :: int where "MAX_TIMEOUT_SECONDS = 30 * 60"
definition UINT32_TOP :: u32 where "UINT32_TOP = - 1"

definition log :: "Event \<Rightarrow> Slot \<Rightarrow> Slot" where
  "log ev s = s\<lparr>mEvents := mEvents s @ [ev]\<rparr>"

text \<open>\<^verbatim>\<open>std::map\<close> insertion or assignment, keeping the key order.\<close>

fun mapPut :: "'k::linorder \<Rightarrow> 'v \<Rightarrow> ('k \<times> 'v) list \<Rightarrow> ('k \<times> 'v) list" where
  "mapPut k v [] = [(k, v)]"
| "mapPut k v ((k', v') # m) =
     (if k = k' then (k, v) # m
      else if k < k' then (k, v) # (k', v') # m
      else (k', v') # mapPut k v m)"

lemma map_of_mapPut [simp]: "map_of (mapPut k v m) = (map_of m)(k \<mapsto> v)"
  by (induction k v m rule: mapPut.induct) (auto simp: fun_upd_twist)

lemma set_keys_mapPut [simp]: "fst ` set (mapPut k v m) = insert k (fst ` set m)"
  by (induction k v m rule: mapPut.induct) auto

lemma sorted_mapPut: "sorted_wrt (<) (map fst m) \<Longrightarrow> sorted_wrt (<) (map fst (mapPut k v m))"
proof (induction k v m rule: mapPut.induct)
  case (2 k v k' v' m)
  have "set (map fst (mapPut k v m)) = insert k (set (map fst m))" by simp
  then show ?case using 2 by (auto simp del: set_map)
qed simp

subsection \<open>Statements\<close>

definition recordStatement :: "SCPStatement \<Rightarrow> Slot \<Rightarrow> Slot" where
  "recordStatement st s = s\<lparr>mStatementsHistory := mStatementsHistory s @ [(st, mFullyValidated s)]\<rparr>"

definition recordEnvelope :: "SCPEnvelope \<Rightarrow> Slot \<Rightarrow> Slot" where
  "recordEnvelope env s =
     recordStatement (env_statement env)
       (s\<lparr>mLatestEnvelopes := mapPut (st_nodeID (env_statement env)) env (mLatestEnvelopes s)\<rparr>)"

definition isNewerFromNode :: "NodeID \<Rightarrow> SCPStatement \<Rightarrow> Slot \<Rightarrow> bool" where
  "isNewerFromNode nodeID st s = (case map_of (mLatestEnvelopes s) nodeID of
     None \<Rightarrow> True | Some old \<Rightarrow> isNewerStatement (env_statement old) st)"

text \<open>The switch's default aborts: a nomination statement reaches it when its quorum set is known and
  sane.\<close>

definition pledgesSane :: "SCPPledges \<Rightarrow> bool \<Rightarrow> cpp_error + bool" where
  "pledgesSane pl self = (case pl of
     SCP_ST_PREPARE _ ballot prepared preparedPrime nC nH \<Rightarrow> Inr (
       (self \<or> 0 < bal_counter ballot)
       \<and> (case (preparedPrime, prepared) of
            (Some p', Some p) \<Rightarrow> areBallotsLessAndIncompatible p' p | _ \<Rightarrow> True)
       \<and> (nH = 0 \<or> (case prepared of None \<Rightarrow> False | Some p \<Rightarrow> nH \<le> bal_counter p))
       \<and> (nC = 0 \<or> (nH \<noteq> 0 \<and> nH \<le> bal_counter ballot \<and> nC \<le> nH)))
   | SCP_ST_CONFIRM ballot nPrepared nCommit nH _ \<Rightarrow>
       Inr (0 < bal_counter ballot \<and> nH \<le> bal_counter ballot \<and> nCommit \<le> nH)
   | SCP_ST_EXTERNALIZE commit nH _ \<Rightarrow> Inr (0 < bal_counter commit \<and> bal_counter commit \<le> nH)
   | SCP_ST_NOMINATE _ _ _ \<Rightarrow> Inl Aborted)"

definition isStatementSane :: "Config \<Rightarrow> SCPStatement \<Rightarrow> bool \<Rightarrow> cpp_error + bool" where
  "isStatementSane cfg st self = (case getQuorumSetFromStatement cfg st of
     None \<Rightarrow> Inr False
   | Some qSet \<Rightarrow> if isQuorumSetSane qSet False then pledgesSane (st_pledges st) self else Inr False)"

text \<open>The values of a statement in the set's order. The last value that is not fully valid
  decides.\<close>

definition statementValues :: "SCPPledges \<Rightarrow> Value list" where
  "statementValues pl = (case pl of
     SCP_ST_PREPARE _ ballot prepared _ _ _ \<Rightarrow>
       (let vs = (if bal_counter ballot \<noteq> 0 then [bal_value ballot] else [])
        in case prepared of None \<Rightarrow> vs | Some p \<Rightarrow> insort_insert (bal_value p) vs)
   | SCP_ST_CONFIRM ballot _ _ _ _ \<Rightarrow> [bal_value ballot]
   | SCP_ST_EXTERNALIZE commit _ _ \<Rightarrow> [bal_value commit]
   | SCP_ST_NOMINATE _ _ _ \<Rightarrow> [])"

definition validateValues :: "Config \<Rightarrow> SCPStatement \<Rightarrow> ValidationLevel" where
  "validateValues cfg st = (case st_pledges st of
     SCP_ST_NOMINATE _ _ _ \<Rightarrow> kInvalidValue
   | pl \<Rightarrow> foldl (\<lambda>res v. let tr = cfg_validateValue cfg v False in
        if tr \<noteq> kFullyValidatedValue
        then (if tr = kInvalidValue then kInvalidValue else kMaybeValidValue) else res)
      kFullyValidatedValue (statementValues pl))"

definition getWorkingBallot :: "SCPStatement \<Rightarrow> SCPBallot" where
  "getWorkingBallot st = (case st_pledges st of
     SCP_ST_PREPARE _ ballot _ _ _ _ \<Rightarrow> ballot
   | SCP_ST_CONFIRM ballot _ nCommit _ _ \<Rightarrow> SCPBallot nCommit (bal_value ballot)
   | SCP_ST_EXTERNALIZE commit _ _ \<Rightarrow> commit
   | SCP_ST_NOMINATE _ _ _ \<Rightarrow> SCPBallot 0 [])"

subsection \<open>The local state\<close>

text \<open>The assertions of \<^verbatim>\<open>checkInvariants\<close>; where the code would follow a null \<^verbatim>\<open>mHighBallot\<close> the
  conjunction is false.\<close>

definition invariants :: "Slot \<Rightarrow> bool" where
  "invariants s \<longleftrightarrow>
     (case mCurrentBallot s of None \<Rightarrow> True | Some b \<Rightarrow> bal_counter b \<noteq> 0)
     \<and> (case (mPrepared s, mPreparedPrime s) of
          (Some p, Some p') \<Rightarrow> areBallotsLessAndIncompatible p' p | _ \<Rightarrow> True)
     \<and> (case mHighBallot s of None \<Rightarrow> True | Some h \<Rightarrow>
          (case mCurrentBallot s of None \<Rightarrow> False | Some b \<Rightarrow> areBallotsLessAndCompatible h b))
     \<and> (case mCommit s of None \<Rightarrow> True | Some c \<Rightarrow>
          (case (mCurrentBallot s, mHighBallot s) of
             (Some b, Some h) \<Rightarrow> areBallotsLessAndCompatible c h \<and> areBallotsLessAndCompatible h b
           | _ \<Rightarrow> False))
     \<and> (case mPhase s of SCP_PHASE_PREPARE \<Rightarrow> True
        | SCP_PHASE_CONFIRM \<Rightarrow> mCommit s \<noteq> None
        | SCP_PHASE_EXTERNALIZE \<Rightarrow> mCommit s \<noteq> None \<and> mHighBallot s \<noteq> None)"

definition checkInvariants :: "Slot \<Rightarrow> cpp_error + unit" where
  "checkInvariants s = ensureE (invariants s) AssertionFailed"

definition bumpToBallot :: "SCPBallot \<Rightarrow> bool \<Rightarrow> Slot \<Rightarrow> cpp_error + Slot" where
  "bumpToBallot ballot check s =
     bindE (ensureE (mPhase s \<noteq> SCP_PHASE_EXTERNALIZE) AssertionFailed) (\<lambda>_.
     bindE (ensureE (check \<longrightarrow> (case mCurrentBallot s of None \<Rightarrow> True | Some b \<Rightarrow> 0 \<le> compareBallots ballot b))
       AssertionFailed) (\<lambda>_.
       let gotBumped = (case mCurrentBallot s of None \<Rightarrow> True | Some b \<Rightarrow> bal_counter b \<noteq> bal_counter ballot);
           s1 = (if mCurrentBallot s = None then log (StartedBallotProtocol ballot) s else s);
           s2 = s1\<lparr>mCurrentBallot := Some ballot\<rparr>;
           s3 = (case mHighBallot s2 of None \<Rightarrow> s2
                 | Some h \<Rightarrow> if \<not> areBallotsCompatible ballot h then s2\<lparr>mHighBallot := None\<rparr> else s2)
       in Inr (if gotBumped then s3\<lparr>mHeardFromQuorum := False\<rparr> else s3)))"

definition updateCurrentValue :: "SCPBallot \<Rightarrow> Slot \<Rightarrow> cpp_error + (bool \<times> Slot)" where
  "updateCurrentValue ballot s =
     (if mPhase s \<noteq> SCP_PHASE_PREPARE \<and> mPhase s \<noteq> SCP_PHASE_CONFIRM then Inr (False, s)
      else let finish = (\<lambda>updated s. bindE (checkInvariants s) (\<lambda>_. Inr (updated, s))) in
        (case mCurrentBallot s of
           None \<Rightarrow> bindE (bumpToBallot ballot True s) (\<lambda>s. finish True s)
         | Some b \<Rightarrow>
             bindE (ensureE (compareBallots b ballot \<le> 0) AssertionFailed) (\<lambda>_.
             if (case mCommit s of None \<Rightarrow> False | Some c \<Rightarrow> \<not> areBallotsCompatible c ballot) then Inr (False, s)
             else if compareBallots b ballot < 0 then
               bindE (bumpToBallot ballot True s) (\<lambda>s. finish True s)
             else if 0 < compareBallots b ballot then Inr (False, s)
             else finish False s)))"

definition updateCurrentIfNeeded :: "SCPBallot \<Rightarrow> Slot \<Rightarrow> cpp_error + (bool \<times> Slot)" where
  "updateCurrentIfNeeded h s =
     (if (case mCurrentBallot s of None \<Rightarrow> True | Some b \<Rightarrow> compareBallots b h < 0)
      then bindE (bumpToBallot h True s) (\<lambda>s. Inr (True, s))
      else Inr (False, s))"

definition setPrepared :: "SCPBallot \<Rightarrow> Slot \<Rightarrow> bool \<times> Slot" where
  "setPrepared ballot s = (case mPrepared s of
     None \<Rightarrow> (True, s\<lparr>mPrepared := Some ballot\<rparr>)
   | Some p \<Rightarrow>
       if compareBallots p ballot < 0 then
         (True, (if \<not> areBallotsCompatible p ballot then s\<lparr>mPreparedPrime := Some p\<rparr> else s)
            \<lparr>mPrepared := Some ballot\<rparr>)
       else if 0 < compareBallots p ballot then
         (if (case mPreparedPrime s of None \<Rightarrow> True | Some p' \<Rightarrow> compareBallots p' ballot < 0)
          then (True, s\<lparr>mPreparedPrime := Some ballot\<rparr>) else (False, s))
       else (False, s))"

subsection \<open>Timers and the quorum heard from\<close>

definition computeTimeout :: "int \<Rightarrow> int" where
  "computeTimeout roundNumber =
     (if MAX_TIMEOUT_SECONDS < roundNumber then MAX_TIMEOUT_SECONDS else roundNumber)"

definition startBallotProtocolTimer :: "SCPBallot \<Rightarrow> Slot \<Rightarrow> Slot" where
  "startBallotProtocolTimer b s = log (SetupTimer BALLOT_PROTOCOL_TIMER (computeTimeout (uint (bal_counter b)))) s"

definition stopBallotProtocolTimer :: "Slot \<Rightarrow> Slot" where
  "stopBallotProtocolTimer s = log (SetupTimer BALLOT_PROTOCOL_TIMER 0) s"

definition heardFilter :: "SCPBallot \<Rightarrow> SCPStatement \<Rightarrow> bool" where
  "heardFilter b st = (case st_pledges st of
     SCP_ST_PREPARE _ ballot _ _ _ _ \<Rightarrow> bal_counter b \<le> bal_counter ballot | _ \<Rightarrow> True)"

definition checkHeardFromQuorum :: "Config \<Rightarrow> Slot \<Rightarrow> Slot" where
  "checkHeardFromQuorum cfg s = (case mCurrentBallot s of None \<Rightarrow> s
   | Some b \<Rightarrow>
       if federatedRatify cfg (heardFilter b) (mLatestEnvelopes s) then
         (let oldHQ = mHeardFromQuorum s;
              s1 = s\<lparr>mHeardFromQuorum := True\<rparr>;
              s2 = (if \<not> oldHQ then
                      (let s' = log (BallotDidHearFromQuorum b) s1
                       in if mPhase s' \<noteq> SCP_PHASE_EXTERNALIZE then startBallotProtocolTimer b s' else s')
                    else s1)
          in if mPhase s2 = SCP_PHASE_EXTERNALIZE then stopBallotProtocolTimer s2 else s2)
       else stopBallotProtocolTimer (s\<lparr>mHeardFromQuorum := False\<rparr>))"

definition sendLatestEnvelope :: "Slot \<Rightarrow> Slot" where
  "sendLatestEnvelope s = (case mLastEnvelope s of None \<Rightarrow> s
   | Some e \<Rightarrow>
       if mCurrentMessageLevel s = 0 \<and> mFullyValidated s \<and> mLastEnvelopeEmit s \<noteq> Some e
       then log (EmitEnvelope e) (s\<lparr>mLastEnvelopeEmit := Some e\<rparr>) else s)"

subsection \<open>Emitting the current state\<close>

definition createStatement :: "Config \<Rightarrow> Slot \<Rightarrow> cpp_error + SCPPledges" where
  "createStatement cfg s =
     bindE (checkInvariants s) (\<lambda>_. case mPhase s of
       SCP_PHASE_PREPARE \<Rightarrow> Inr (SCP_ST_PREPARE (cfg_qSetHash cfg)
         (case mCurrentBallot s of None \<Rightarrow> SCPBallot 0 [] | Some b \<Rightarrow> b)
         (mPrepared s) (mPreparedPrime s)
         (case mCommit s of None \<Rightarrow> 0 | Some c \<Rightarrow> bal_counter c)
         (case mHighBallot s of None \<Rightarrow> 0 | Some h \<Rightarrow> bal_counter h))
     | SCP_PHASE_CONFIRM \<Rightarrow>
         bindE (deref (mCurrentBallot s)) (\<lambda>b.
         bindE (deref (mPrepared s)) (\<lambda>p.
         bindE (deref (mCommit s)) (\<lambda>c.
         bindE (deref (mHighBallot s)) (\<lambda>h.
           Inr (SCP_ST_CONFIRM b (bal_counter p) (bal_counter c) (bal_counter h) (cfg_qSetHash cfg))))))
     | SCP_PHASE_EXTERNALIZE \<Rightarrow>
         bindE (deref (mCommit s)) (\<lambda>c.
         bindE (deref (mHighBallot s)) (\<lambda>h.
           Inr (SCP_ST_EXTERNALIZE c (bal_counter h) (cfg_qSetHash cfg)))))"

text \<open>\<^verbatim>\<open>processEnvelope\<close> with \<open>advance\<close> for its call of \<^verbatim>\<open>advanceSlot\<close>.\<close>

definition processEnvelopeWith :: "Config \<Rightarrow> (SCPStatement \<Rightarrow> Slot \<Rightarrow> cpp_error + Slot)
    \<Rightarrow> SCPEnvelope \<Rightarrow> bool \<Rightarrow> Slot \<Rightarrow> cpp_error + (EnvelopeState \<times> Slot)" where
  "processEnvelopeWith cfg advance envelope self s =
     (let st = env_statement envelope in
      bindE (ensureE (st_slotIndex st = cfg_slotIndex cfg) AssertionFailed) (\<lambda>_.
      bindE (isStatementSane cfg st self) (\<lambda>sane.
      if \<not> sane then Inr (INVALID, s)
      else if \<not> isNewerFromNode (st_nodeID st) st s then Inr (INVALID, s)
      else let validationRes = validateValues cfg st in
        if validationRes \<noteq> kInvalidValue then
          (if mPhase s \<noteq> SCP_PHASE_EXTERNALIZE then
             (let s1 = (if validationRes = kMaybeValidValue then s\<lparr>mFullyValidated := False\<rparr> else s)
              in bindE (advance st (recordEnvelope envelope s1)) (\<lambda>s2. Inr (VALID, s2)))
           else
             bindE (deref (mCommit s)) (\<lambda>c.
             if bal_value c = bal_value (getWorkingBallot st) then Inr (VALID, recordEnvelope envelope s)
             else Inr (INVALID, s)))
        else Inr (INVALID, s))))"

definition emitCurrentStateStatement :: "Config \<Rightarrow> (SCPStatement \<Rightarrow> Slot \<Rightarrow> cpp_error + Slot)
    \<Rightarrow> Slot \<Rightarrow> cpp_error + Slot" where
  "emitCurrentStateStatement cfg advance s =
     bindE (createStatement cfg s) (\<lambda>pledges.
     let envelope = createEnvelope cfg pledges;
         canEmit = (mCurrentBallot s \<noteq> None)
     in if map_of (mLatestEnvelopes s) (cfg_localNodeID cfg) = Some envelope then Inr s
        else bindE (processEnvelopeWith cfg advance envelope True s) (\<lambda>(res, s1).
          if res = VALID then
            (if canEmit \<and> (case mLastEnvelope s1 of None \<Rightarrow> True
                 | Some l \<Rightarrow> isNewerStatement (env_statement l) (env_statement envelope))
             then Inr (sendLatestEnvelope (s1\<lparr>mLastEnvelope := Some envelope\<rparr>))
             else Inr s1)
          else Inl (RuntimeError ''moved to a bad state (ballot protocol)'')))"

subsection \<open>Bumping the ballot\<close>

type_synonym emitter = "Slot \<Rightarrow> cpp_error + Slot"

definition bumpStateTo :: "Config \<Rightarrow> emitter \<Rightarrow> Value \<Rightarrow> u32 \<Rightarrow> Slot \<Rightarrow> cpp_error + (bool \<times> Slot)" where
  "bumpStateTo cfg emit value n s =
     (if mPhase s \<noteq> SCP_PHASE_PREPARE \<and> mPhase s \<noteq> SCP_PHASE_CONFIRM then Inr (False, s)
      else let newb = SCPBallot n (case mValueOverride s of Some v \<Rightarrow> v | None \<Rightarrow> value) in
        bindE (updateCurrentValue newb s) (\<lambda>(updated, s1).
        if updated then bindE (emit s1) (\<lambda>s2. Inr (True, checkHeardFromQuorum cfg s2))
        else Inr (False, s1)))"

definition bumpStateForce :: "Config \<Rightarrow> emitter \<Rightarrow> Value \<Rightarrow> bool \<Rightarrow> Slot \<Rightarrow> cpp_error + (bool \<times> Slot)" where
  "bumpStateForce cfg emit value force s =
     (if \<not> force \<and> mCurrentBallot s \<noteq> None then Inr (False, s)
      else bumpStateTo cfg emit value
        (case mCurrentBallot s of Some b \<Rightarrow> bal_counter b + 1 | None \<Rightarrow> 1) s)"

definition abandonBallotWith :: "Config \<Rightarrow> emitter \<Rightarrow> u32 \<Rightarrow> Slot \<Rightarrow> cpp_error + (bool \<times> Slot)" where
  "abandonBallotWith cfg emit n s =
     (let v = (if mLatestCompositeCandidate s = []
               then (case mCurrentBallot s of Some b \<Rightarrow> bal_value b | None \<Rightarrow> [])
               else mLatestCompositeCandidate s)
      in if v \<noteq> [] then
           (if n = 0 then bumpStateForce cfg emit v True s else bumpStateTo cfg emit v n s)
         else Inr (False, s))"

subsection \<open>Accepting ballots as prepared\<close>

definition insertBallot :: "SCPBallot \<Rightarrow> SCPBallot list \<Rightarrow> SCPBallot list" where
  "insertBallot b bs = insort_insert b bs"

definition hintBallots :: "SCPPledges \<Rightarrow> SCPBallot list" where
  "hintBallots hint = (case hint of
     SCP_ST_PREPARE _ ballot prepared preparedPrime _ _ \<Rightarrow>
       (case preparedPrime of None \<Rightarrow> (\<lambda>x. x) | Some p' \<Rightarrow> insertBallot p')
         ((case prepared of None \<Rightarrow> (\<lambda>x. x) | Some p \<Rightarrow> insertBallot p) [ballot])
   | SCP_ST_CONFIRM ballot nPrepared _ _ _ \<Rightarrow>
       insertBallot (SCPBallot UINT32_TOP (bal_value ballot)) [SCPBallot nPrepared (bal_value ballot)]
   | SCP_ST_EXTERNALIZE commit _ _ \<Rightarrow> [SCPBallot UINT32_TOP (bal_value commit)]
   | SCP_ST_NOMINATE _ _ _ \<Rightarrow> [])"

text \<open>The ballots one statement contributes below a vote.\<close>

definition candidatesFrom :: "SCPBallot \<Rightarrow> SCPPledges \<Rightarrow> SCPBallot list" where
  "candidatesFrom topVote pl = (case pl of
     SCP_ST_PREPARE _ ballot prepared preparedPrime _ _ \<Rightarrow>
       filter (\<lambda>b. areBallotsLessAndCompatible b topVote)
         ([ballot] @ (case prepared of None \<Rightarrow> [] | Some p \<Rightarrow> [p])
            @ (case preparedPrime of None \<Rightarrow> [] | Some p' \<Rightarrow> [p']))
   | SCP_ST_CONFIRM ballot nPrepared _ _ _ \<Rightarrow>
       (if areBallotsCompatible topVote ballot
        then topVote # (if nPrepared < bal_counter topVote then [SCPBallot nPrepared (bal_value topVote)] else [])
        else [])
   | SCP_ST_EXTERNALIZE commit _ _ \<Rightarrow> (if areBallotsCompatible topVote commit then [topVote] else [])
   | SCP_ST_NOMINATE _ _ _ \<Rightarrow> [])"

definition getPrepareCandidates :: "SCPStatement \<Rightarrow> Slot \<Rightarrow> SCPBallot list" where
  "getPrepareCandidates hint s =
     fold (\<lambda>topVote. fold (\<lambda>(n, e). fold insertBallot (candidatesFrom topVote (st_pledges (env_statement e))))
         (mLatestEnvelopes s))
       (rev (hintBallots (st_pledges hint))) []"

definition votesPrepared :: "SCPBallot \<Rightarrow> SCPStatement \<Rightarrow> bool" where
  "votesPrepared ballot st = (case st_pledges st of
     SCP_ST_PREPARE _ b _ _ _ _ \<Rightarrow> areBallotsLessAndCompatible ballot b
   | SCP_ST_CONFIRM b _ _ _ _ \<Rightarrow> areBallotsCompatible ballot b
   | SCP_ST_EXTERNALIZE commit _ _ \<Rightarrow> areBallotsCompatible ballot commit
   | SCP_ST_NOMINATE _ _ _ \<Rightarrow> False)"

definition hasPreparedBallot :: "SCPBallot \<Rightarrow> SCPStatement \<Rightarrow> bool" where
  "hasPreparedBallot ballot st = (case st_pledges st of
     SCP_ST_PREPARE _ _ prepared preparedPrime _ _ \<Rightarrow>
       (case prepared of None \<Rightarrow> False | Some p \<Rightarrow> areBallotsLessAndCompatible ballot p)
       \<or> (case preparedPrime of None \<Rightarrow> False | Some p' \<Rightarrow> areBallotsLessAndCompatible ballot p')
   | SCP_ST_CONFIRM b nPrepared _ _ _ \<Rightarrow> areBallotsLessAndCompatible ballot (SCPBallot nPrepared (bal_value b))
   | SCP_ST_EXTERNALIZE commit _ _ \<Rightarrow> areBallotsCompatible ballot commit
   | SCP_ST_NOMINATE _ _ _ \<Rightarrow> False)"

definition setPreparedAccept :: "emitter \<Rightarrow> SCPBallot \<Rightarrow> Slot \<Rightarrow> cpp_error + (bool \<times> Slot)" where
  "setPreparedAccept emit ballot s =
     (case setPrepared ballot s of (didWork, s1) \<Rightarrow>
      let clearC = (case (mCommit s1, mHighBallot s1) of
            (Some c, Some h) \<Rightarrow>
              (case mPrepared s1 of None \<Rightarrow> False | Some p \<Rightarrow> areBallotsLessAndIncompatible h p)
              \<or> (case mPreparedPrime s1 of None \<Rightarrow> False | Some p' \<Rightarrow> areBallotsLessAndIncompatible h p')
          | _ \<Rightarrow> False)
      in bindE (ensureE (clearC \<longrightarrow> mPhase s1 = SCP_PHASE_PREPARE) AssertionFailed) (\<lambda>_.
         let s2 = (if clearC then s1\<lparr>mCommit := None\<rparr> else s1);
             didWork = (didWork \<or> clearC)
         in if didWork then bindE (emit (log (AcceptedBallotPrepared ballot) s2)) (\<lambda>s3. Inr (True, s3))
            else Inr (False, s2)))"

text \<open>The search for the highest candidate that can be accepted; the state does not change in it.\<close>

fun findPreparedAccept :: "Config \<Rightarrow> Slot \<Rightarrow> SCPBallot list \<Rightarrow> cpp_error + SCPBallot option" where
  "findPreparedAccept cfg s [] = Inr None"
| "findPreparedAccept cfg s (ballot # rest) =
     bindE (if mPhase s = SCP_PHASE_CONFIRM then
              bindE (deref (mPrepared s)) (\<lambda>p.
              if \<not> areBallotsLessAndCompatible p ballot then Inr True
              else bindE (deref (mCommit s)) (\<lambda>c.
                bindE (ensureE (areBallotsCompatible c ballot) AssertionFailed) (\<lambda>_. Inr False)))
            else Inr False) (\<lambda>skip.
     if skip
        \<or> (case mPreparedPrime s of None \<Rightarrow> False | Some p' \<Rightarrow> compareBallots ballot p' \<le> 0)
        \<or> (case mPrepared s of None \<Rightarrow> False | Some p \<Rightarrow> areBallotsLessAndCompatible ballot p)
     then findPreparedAccept cfg s rest
     else if federatedAccept cfg (votesPrepared ballot) (hasPreparedBallot ballot) (mLatestEnvelopes s)
     then Inr (Some ballot)
     else findPreparedAccept cfg s rest)"

definition attemptPreparedAccept ::
  "Config \<Rightarrow> emitter \<Rightarrow> SCPStatement \<Rightarrow> Slot \<Rightarrow> cpp_error + (bool \<times> Slot)" where
  "attemptPreparedAccept cfg emit hint s =
     (if mPhase s \<noteq> SCP_PHASE_PREPARE \<and> mPhase s \<noteq> SCP_PHASE_CONFIRM then Inr (False, s)
      else bindE (findPreparedAccept cfg s (rev (getPrepareCandidates hint s))) (\<lambda>r. case r of
        None \<Rightarrow> Inr (False, s)
      | Some ballot \<Rightarrow> setPreparedAccept emit ballot s))"

subsection \<open>Confirming ballots as prepared\<close>

definition setPreparedConfirmed :: "emitter \<Rightarrow> SCPBallot \<Rightarrow> SCPBallot \<Rightarrow> Slot \<Rightarrow> cpp_error + (bool \<times> Slot)" where
  "setPreparedConfirmed emit newC newH s =
     (let s0 = s\<lparr>mValueOverride := Some (bal_value newH)\<rparr> in
      bindE
       (if (case mCurrentBallot s0 of None \<Rightarrow> True | Some b \<Rightarrow> areBallotsCompatible b newH) then
          let raiseH = (case mHighBallot s0 of None \<Rightarrow> True | Some h \<Rightarrow> 0 < compareBallots newH h);
              s1 = (if raiseH then s0\<lparr>mHighBallot := Some newH\<rparr> else s0)
          in bindE (ensureE (bal_counter newC \<noteq> 0 \<longrightarrow> mCommit s1 = None) AssertionFailed) (\<lambda>_.
             let s2 = (if bal_counter newC \<noteq> 0 then s1\<lparr>mCommit := Some newC\<rparr> else s1);
                 didWork = (raiseH \<or> bal_counter newC \<noteq> 0)
             in Inr (didWork, if didWork then log (ConfirmedBallotPrepared newH) s2 else s2))
        else Inr (False, s0)) (\<lambda>(didWork, s3).
      bindE (updateCurrentIfNeeded newH s3) (\<lambda>(updated, s4).
      let didWork = (updated \<or> didWork) in
      if didWork then bindE (emit s4) (\<lambda>s5. Inr (True, s5)) else Inr (False, s4))))"

text \<open>The first loop: the highest ratified candidate above h, with the candidates from it on.\<close>

fun findNewH :: "Config \<Rightarrow> Slot \<Rightarrow> SCPBallot list \<Rightarrow> (SCPBallot \<times> SCPBallot list) option" where
  "findNewH cfg s [] = None"
| "findNewH cfg s (ballot # rest) =
     (if (case mHighBallot s of None \<Rightarrow> False | Some h \<Rightarrow> 0 \<le> compareBallots h ballot) then None
      else if federatedRatify cfg (hasPreparedBallot ballot) (mLatestEnvelopes s) then Some (ballot, ballot # rest)
      else findNewH cfg s rest)"

text \<open>The second loop: the lowest of the ratified ballots compatible with the new h, down to b.\<close>

fun findNewC :: "Config \<Rightarrow> Slot \<Rightarrow> SCPBallot \<Rightarrow> SCPBallot \<Rightarrow> SCPBallot \<Rightarrow> SCPBallot list \<Rightarrow> SCPBallot" where
  "findNewC cfg s b newH newC [] = newC"
| "findNewC cfg s b newH newC (ballot # rest) =
     (if compareBallots ballot b < 0 then newC
      else if \<not> areBallotsLessAndCompatible ballot newH then findNewC cfg s b newH newC rest
      else if federatedRatify cfg (hasPreparedBallot ballot) (mLatestEnvelopes s)
      then findNewC cfg s b newH ballot rest
      else newC)"

definition attemptPreparedConfirmed ::
  "Config \<Rightarrow> emitter \<Rightarrow> SCPStatement \<Rightarrow> Slot \<Rightarrow> cpp_error + (bool \<times> Slot)" where
  "attemptPreparedConfirmed cfg emit hint s =
     (if mPhase s \<noteq> SCP_PHASE_PREPARE then Inr (False, s)
      else if mPrepared s = None then Inr (False, s)
      else case findNewH cfg s (rev (getPrepareCandidates hint s)) of
        None \<Rightarrow> Inr (False, s)
      | Some (newH, cur) \<Rightarrow>
          let b = (case mCurrentBallot s of Some b \<Rightarrow> b | None \<Rightarrow> SCPBallot 0 []);
              newC = (if mCommit s = None
                  \<and> (case mPrepared s of None \<Rightarrow> True | Some p \<Rightarrow> \<not> areBallotsLessAndIncompatible newH p)
                  \<and> (case mPreparedPrime s of None \<Rightarrow> True | Some p' \<Rightarrow> \<not> areBallotsLessAndIncompatible newH p')
                then findNewC cfg s b newH (SCPBallot 0 []) cur
                else SCPBallot 0 [])
          in setPreparedConfirmed emit newC newH s)"

subsection \<open>Committing\<close>

type_synonym Interval = "u32 \<times> u32"

definition commitPredicate :: "SCPBallot \<Rightarrow> Interval \<Rightarrow> SCPStatement \<Rightarrow> bool" where
  "commitPredicate ballot check st = (case st_pledges st of
     SCP_ST_PREPARE _ _ _ _ _ _ \<Rightarrow> False
   | SCP_ST_CONFIRM b _ nCommit nH _ \<Rightarrow>
       areBallotsCompatible ballot b \<and> nCommit \<le> fst check \<and> snd check \<le> nH
   | SCP_ST_EXTERNALIZE commit _ _ \<Rightarrow>
       areBallotsCompatible ballot commit \<and> bal_counter commit \<le> fst check
   | SCP_ST_NOMINATE _ _ _ \<Rightarrow> False)"

definition votesCommit :: "SCPBallot \<Rightarrow> Interval \<Rightarrow> SCPStatement \<Rightarrow> bool" where
  "votesCommit ballot cur st = (case st_pledges st of
     SCP_ST_PREPARE _ b _ _ nC nH \<Rightarrow>
       areBallotsCompatible ballot b \<and> nC \<noteq> 0 \<and> nC \<le> fst cur \<and> snd cur \<le> nH
   | SCP_ST_CONFIRM b _ nCommit _ _ \<Rightarrow> areBallotsCompatible ballot b \<and> nCommit \<le> fst cur
   | SCP_ST_EXTERNALIZE commit _ _ \<Rightarrow>
       areBallotsCompatible ballot commit \<and> bal_counter commit \<le> fst cur
   | SCP_ST_NOMINATE _ _ _ \<Rightarrow> False)"

text \<open>The loop over the boundaries from the top: first the high bound, then downwards as long as
  the predicate holds.\<close>

fun findExtendedInterval :: "Interval \<Rightarrow> u32 list \<Rightarrow> (Interval \<Rightarrow> bool) \<Rightarrow> Interval" where
  "findExtendedInterval candidate [] pred = candidate"
| "findExtendedInterval candidate (b # bs) pred =
     (if fst candidate \<noteq> 0 \<and> snd candidate < b then findExtendedInterval candidate bs pred
      else let cur = (if fst candidate = 0 then (b, b) else (b, snd candidate))
        in if pred cur then findExtendedInterval cur bs pred
           else if fst candidate \<noteq> 0 then candidate
           else findExtendedInterval candidate bs pred)"

definition commitBoundaries :: "SCPBallot \<Rightarrow> SCPPledges \<Rightarrow> u32 list" where
  "commitBoundaries ballot pl = (case pl of
     SCP_ST_PREPARE _ b _ _ nC nH \<Rightarrow> (if areBallotsCompatible ballot b \<and> nC \<noteq> 0 then [nC, nH] else [])
   | SCP_ST_CONFIRM b _ nCommit nH _ \<Rightarrow> (if areBallotsCompatible ballot b then [nCommit, nH] else [])
   | SCP_ST_EXTERNALIZE commit nH _ \<Rightarrow>
       (if areBallotsCompatible ballot commit then [bal_counter commit, nH, UINT32_TOP] else [])
   | SCP_ST_NOMINATE _ _ _ \<Rightarrow> [])"

definition getCommitBoundariesFromStatements :: "SCPBallot \<Rightarrow> Slot \<Rightarrow> u32 list" where
  "getCommitBoundariesFromStatements ballot s =
     fold (\<lambda>(n, e). fold insort_insert (commitBoundaries ballot (st_pledges (env_statement e))))
       (mLatestEnvelopes s) []"

definition setAcceptCommit :: "emitter \<Rightarrow> SCPBallot \<Rightarrow> SCPBallot \<Rightarrow> Slot \<Rightarrow> cpp_error + (bool \<times> Slot)" where
  "setAcceptCommit emit c h s =
     (let s0 = s\<lparr>mValueOverride := Some (bal_value h)\<rparr>;
          changed = (mHighBallot s0 \<noteq> Some h \<or> mCommit s0 \<noteq> Some c);
          s1 = (if changed then s0\<lparr>mCommit := Some c, mHighBallot := Some h\<rparr> else s0)
      in bindE
        (if mPhase s1 = SCP_PHASE_PREPARE then
           let s2 = s1\<lparr>mPhase := SCP_PHASE_CONFIRM\<rparr> in
           bindE (if (case mCurrentBallot s2 of None \<Rightarrow> False | Some b \<Rightarrow> \<not> areBallotsLessAndCompatible h b)
                  then bumpToBallot h False s2 else Inr s2)
             (\<lambda>s3. Inr (True, s3\<lparr>mPreparedPrime := None\<rparr>))
         else Inr (changed, s1)) (\<lambda>(didWork, s4).
      if didWork then
        bindE (deref (mHighBallot s4)) (\<lambda>high.
        bindE (updateCurrentIfNeeded high s4) (\<lambda>(_, s5).
        bindE (emit (log (AcceptedCommit h) s5)) (\<lambda>s6. Inr (True, s6))))
      else Inr (False, s4)))"

text \<open>The value a statement hints may be committed.\<close>

definition acceptCommitHint :: "SCPPledges \<Rightarrow> cpp_error + SCPBallot option" where
  "acceptCommitHint hint = (case hint of
     SCP_ST_PREPARE _ b _ _ nC nH \<Rightarrow> Inr (if nC \<noteq> 0 then Some (SCPBallot nH (bal_value b)) else None)
   | SCP_ST_CONFIRM b _ _ nH _ \<Rightarrow> Inr (Some (SCPBallot nH (bal_value b)))
   | SCP_ST_EXTERNALIZE commit nH _ \<Rightarrow> Inr (Some (SCPBallot nH (bal_value commit)))
   | SCP_ST_NOMINATE _ _ _ \<Rightarrow> Inl Aborted)"

definition attemptAcceptCommit ::
  "Config \<Rightarrow> emitter \<Rightarrow> SCPStatement \<Rightarrow> Slot \<Rightarrow> cpp_error + (bool \<times> Slot)" where
  "attemptAcceptCommit cfg emit hint s =
     (if mPhase s \<noteq> SCP_PHASE_PREPARE \<and> mPhase s \<noteq> SCP_PHASE_CONFIRM then Inr (False, s)
      else bindE (acceptCommitHint (st_pledges hint)) (\<lambda>r. case r of
        None \<Rightarrow> Inr (False, s)
      | Some ballot \<Rightarrow>
          bindE (if mPhase s = SCP_PHASE_CONFIRM
                 then bindE (deref (mHighBallot s)) (\<lambda>h. Inr (areBallotsCompatible ballot h))
                 else Inr True) (\<lambda>go.
          if \<not> go then Inr (False, s)
          else
            let pred = (\<lambda>cur. federatedAccept cfg (votesCommit ballot cur) (commitPredicate ballot cur)
                          (mLatestEnvelopes s));
                boundaries = getCommitBoundariesFromStatements ballot s
            in if boundaries = [] then Inr (False, s)
               else let candidate = findExtendedInterval (0, 0) (rev boundaries) pred
                 in if fst candidate \<noteq> 0 then
                      bindE (if mPhase s \<noteq> SCP_PHASE_CONFIRM then Inr True
                             else bindE (deref (mHighBallot s)) (\<lambda>h. Inr (bal_counter h < snd candidate)))
                        (\<lambda>go. if go then setAcceptCommit emit (SCPBallot (fst candidate) (bal_value ballot))
                                (SCPBallot (snd candidate) (bal_value ballot)) s
                              else Inr (False, s))
                    else Inr (False, s))))"

definition setConfirmCommit :: "emitter \<Rightarrow> SCPBallot \<Rightarrow> SCPBallot \<Rightarrow> Slot \<Rightarrow> cpp_error + (bool \<times> Slot)" where
  "setConfirmCommit emit c h s =
     (let s1 = s\<lparr>mCommit := Some c, mHighBallot := Some h\<rparr> in
      bindE (updateCurrentIfNeeded h s1) (\<lambda>(_, s2).
      let s3 = s2\<lparr>mPhase := SCP_PHASE_EXTERNALIZE\<rparr> in
      bindE (emit s3) (\<lambda>s4.
      let s5 = s4\<lparr>mNominationStarted := False\<rparr> in
      bindE (deref (mCommit s5)) (\<lambda>c'.
        Inr (True, log (ValueExternalized (bal_value c')) s5)))))"

definition confirmCommitHint :: "SCPPledges \<Rightarrow> cpp_error + SCPBallot option" where
  "confirmCommitHint hint = (case hint of
     SCP_ST_PREPARE _ _ _ _ _ _ \<Rightarrow> Inr None
   | SCP_ST_CONFIRM b _ _ nH _ \<Rightarrow> Inr (Some (SCPBallot nH (bal_value b)))
   | SCP_ST_EXTERNALIZE commit nH _ \<Rightarrow> Inr (Some (SCPBallot nH (bal_value commit)))
   | SCP_ST_NOMINATE _ _ _ \<Rightarrow> Inl Aborted)"

definition attemptConfirmCommit ::
  "Config \<Rightarrow> emitter \<Rightarrow> SCPStatement \<Rightarrow> Slot \<Rightarrow> cpp_error + (bool \<times> Slot)" where
  "attemptConfirmCommit cfg emit hint s =
     (if mPhase s \<noteq> SCP_PHASE_CONFIRM then Inr (False, s)
      else case (mHighBallot s, mCommit s) of
        (Some _, Some c) \<Rightarrow>
          bindE (confirmCommitHint (st_pledges hint)) (\<lambda>r. case r of
            None \<Rightarrow> Inr (False, s)
          | Some ballot \<Rightarrow>
              if \<not> areBallotsCompatible ballot c then Inr (False, s)
              else
                let candidate = findExtendedInterval (0, 0) (rev (getCommitBoundariesFromStatements ballot s))
                      (\<lambda>cur. federatedRatify cfg (commitPredicate ballot cur) (mLatestEnvelopes s))
                in if fst candidate \<noteq> 0
                   then setConfirmCommit emit (SCPBallot (fst candidate) (bal_value ballot))
                          (SCPBallot (snd candidate) (bal_value ballot)) s
                   else Inr (False, s))
      | _ \<Rightarrow> Inr (False, s))"

subsection \<open>Following a blocking set to a higher counter\<close>

definition statementCounter :: "SCPPledges \<Rightarrow> u32" where
  "statementCounter pl = (case pl of
     SCP_ST_PREPARE _ b _ _ _ _ \<Rightarrow> bal_counter b
   | SCP_ST_CONFIRM b _ _ _ _ \<Rightarrow> bal_counter b
   | SCP_ST_EXTERNALIZE _ _ _ \<Rightarrow> UINT32_TOP
   | SCP_ST_NOMINATE _ _ _ \<Rightarrow> 0)"

definition aheadOf :: "u32 \<Rightarrow> SCPStatement \<Rightarrow> bool" where
  "aheadOf n st = (case st_pledges st of
     SCP_ST_PREPARE _ b _ _ _ _ \<Rightarrow> n < bal_counter b
   | SCP_ST_CONFIRM b _ _ _ _ \<Rightarrow> n < bal_counter b
   | _ \<Rightarrow> n \<noteq> UINT32_TOP)"

definition currentCounter :: "Slot \<Rightarrow> u32" where
  "currentCounter s = (case mCurrentBallot s of Some b \<Rightarrow> bal_counter b | None \<Rightarrow> 0)"

definition allCounters :: "Slot \<Rightarrow> u32 list" where
  "allCounters s = insort_insert (currentCounter s)
     (fold (\<lambda>(n, e). insort_insert (statementCounter (st_pledges (env_statement e)))) (mLatestEnvelopes s) [])"

fun bumpTarget :: "Config \<Rightarrow> Slot \<Rightarrow> u32 \<Rightarrow> u32 list \<Rightarrow> u32 option" where
  "bumpTarget cfg s targetCounter [] = None"
| "bumpTarget cfg s targetCounter (n # ns) =
     (if n < targetCounter then None
      else let vBlocking = isVBlockingMap (cfg_qSet cfg) (mLatestEnvelopes s) (aheadOf n \<circ> env_statement)
        in if n = targetCounter then (if \<not> vBlocking then None else bumpTarget cfg s targetCounter ns)
           else if \<not> vBlocking then Some n
           else bumpTarget cfg s targetCounter ns)"

definition attemptBump :: "Config \<Rightarrow> emitter \<Rightarrow> Slot \<Rightarrow> cpp_error + (bool \<times> Slot)" where
  "attemptBump cfg emit s =
     (if mPhase s = SCP_PHASE_PREPARE \<or> mPhase s = SCP_PHASE_CONFIRM then
        (case bumpTarget cfg s (currentCounter s) (allCounters s) of
           None \<Rightarrow> Inr (False, s)
         | Some n \<Rightarrow> abandonBallotWith cfg emit n s)
      else Inr (False, s))"

text \<open>\<^verbatim>\<open>do { didBump = attemptBump(); ... } while (didBump)\<close>: the state of the loop is the last
  \<open>didBump\<close>, \<open>didWork\<close> and the slot.\<close>

definition bumpLoop :: "Config \<Rightarrow> emitter \<Rightarrow> bool \<Rightarrow> Slot \<Rightarrow> cpp_error + (bool \<times> Slot)" where
  "bumpLoop cfg emit didWork s =
     (case while_option (\<lambda>r. case r of Inl e \<Rightarrow> False | Inr (didBump, didWork, s) \<Rightarrow> didBump)
        (\<lambda>r. bindE r (\<lambda>(_, didWork, s). bindE (attemptBump cfg emit s) (\<lambda>(didBump, s').
           Inr (didBump, didBump \<or> didWork, s')))) (Inr (True, didWork, s)) of
       None \<Rightarrow> Inl NoReturn
     | Some r \<Rightarrow> bindE r (\<lambda>(_, didWork, s). Inr (didWork, s)))"

subsection \<open>Advancing the slot\<close>

definition advanceSlot :: "Config \<Rightarrow> emitter \<Rightarrow> SCPStatement \<Rightarrow> Slot \<Rightarrow> cpp_error + Slot" where
  "advanceSlot cfg emit hint s =
     (let s0 = s\<lparr>mCurrentMessageLevel := mCurrentMessageLevel s + 1\<rparr> in
      if MAX_ADVANCE_SLOT_RECURSION \<le> mCurrentMessageLevel s0
      then Inl (RuntimeError ''maximum number of transitions reached in advanceSlot'')
      else
        bindE (attemptPreparedAccept cfg emit hint s0) (\<lambda>(d1, s1).
        bindE (attemptPreparedConfirmed cfg emit hint s1) (\<lambda>(d2, s2).
        bindE (attemptAcceptCommit cfg emit hint s2) (\<lambda>(d3, s3).
        bindE (attemptConfirmCommit cfg emit hint s3) (\<lambda>(d4, s4).
        bindE (if mCurrentMessageLevel s4 = 1
               then bindE (bumpLoop cfg emit (d1 \<or> d2 \<or> d3 \<or> d4) s4)
                      (\<lambda>(didWork, s5). Inr (didWork, checkHeardFromQuorum cfg s5))
               else Inr (d1 \<or> d2 \<or> d3 \<or> d4, s4)) (\<lambda>(didWork, s5).
        let s6 = s5\<lparr>mCurrentMessageLevel := mCurrentMessageLevel s5 - 1\<rparr>
        in Inr (if didWork then sendLatestEnvelope s6 else s6)))))))"

primrec emitF :: "Config \<Rightarrow> nat \<Rightarrow> emitter" where
  "emitF cfg 0 = (\<lambda>s. Inl NoReturn)"
| "emitF cfg (Suc k) = emitCurrentStateStatement cfg (advanceSlot cfg (emitF cfg k))"

definition processEnvelope ::
  "Config \<Rightarrow> SCPEnvelope \<Rightarrow> bool \<Rightarrow> Slot \<Rightarrow> cpp_error + (EnvelopeState \<times> Slot)" where
  "processEnvelope cfg = processEnvelopeWith cfg (advanceSlot cfg (emitF cfg 50))"

definition abandonBallot :: "Config \<Rightarrow> u32 \<Rightarrow> Slot \<Rightarrow> cpp_error + (bool \<times> Slot)" where
  "abandonBallot cfg = abandonBallotWith cfg (emitF cfg 50)"

definition ballotProtocolTimerExpired :: "Config \<Rightarrow> Slot \<Rightarrow> cpp_error + Slot" where
  "ballotProtocolTimerExpired cfg s = bindE (abandonBallot cfg 0 s) (\<lambda>(_, s). Inr s)"

definition bumpState :: "Config \<Rightarrow> Value \<Rightarrow> bool \<Rightarrow> Slot \<Rightarrow> cpp_error + (bool \<times> Slot)" where
  "bumpState cfg = bumpStateForce cfg (emitF cfg 50)"

subsection \<open>Restoring and reading the state\<close>

definition setStateFromEnvelope :: "SCPEnvelope \<Rightarrow> Slot \<Rightarrow> cpp_error + Slot" where
  "setStateFromEnvelope e s =
     (if mCurrentBallot s \<noteq> None
      then Inl (RuntimeError ''Cannot set state after starting ballot protocol'')
      else let s0 = (recordEnvelope e s)\<lparr>mLastEnvelope := Some e, mLastEnvelopeEmit := Some e\<rparr>
        in case st_pledges (env_statement e) of
          SCP_ST_PREPARE _ b prepared preparedPrime nC nH \<Rightarrow>
            bindE (bumpToBallot b True s0) (\<lambda>s1.
            let s2 = (case prepared of None \<Rightarrow> s1 | Some p \<Rightarrow> s1\<lparr>mPrepared := Some p\<rparr>);
                s3 = (case preparedPrime of None \<Rightarrow> s2 | Some p' \<Rightarrow> s2\<lparr>mPreparedPrime := Some p'\<rparr>);
                s4 = (if nH \<noteq> 0 then s3\<lparr>mHighBallot := Some (SCPBallot nH (bal_value b))\<rparr> else s3);
                s5 = (if nC \<noteq> 0 then s4\<lparr>mCommit := Some (SCPBallot nC (bal_value b))\<rparr> else s4)
            in Inr (s5\<lparr>mPhase := SCP_PHASE_PREPARE\<rparr>))
        | SCP_ST_CONFIRM b nPrepared nCommit nH _ \<Rightarrow>
            bindE (bumpToBallot b True s0) (\<lambda>s1.
            Inr (s1\<lparr>mPrepared := Some (SCPBallot nPrepared (bal_value b)),
                    mHighBallot := Some (SCPBallot nH (bal_value b)),
                    mCommit := Some (SCPBallot nCommit (bal_value b)),
                    mPhase := SCP_PHASE_CONFIRM\<rparr>))
        | SCP_ST_EXTERNALIZE commit nH _ \<Rightarrow>
            bindE (bumpToBallot (SCPBallot UINT32_TOP (bal_value commit)) True s0) (\<lambda>s1.
            Inr (s1\<lparr>mPrepared := Some (SCPBallot UINT32_TOP (bal_value commit)),
                    mHighBallot := Some (SCPBallot nH (bal_value commit)),
                    mCommit := Some commit,
                    mPhase := SCP_PHASE_EXTERNALIZE\<rparr>))
        | SCP_ST_NOMINATE _ _ _ \<Rightarrow> Inl Aborted)"

definition getCurrentState :: "Config \<Rightarrow> Slot \<Rightarrow> SCPEnvelope list" where
  "getCurrentState cfg s = map snd (filter (\<lambda>(n, e). n \<noteq> cfg_localNodeID cfg \<or> mFullyValidated s)
     (mLatestEnvelopes s))"

definition getExternalizingState :: "Config \<Rightarrow> Slot \<Rightarrow> cpp_error + SCPEnvelope list" where
  "getExternalizingState cfg s =
     (if mPhase s = SCP_PHASE_EXTERNALIZE then
        (if list_ex (\<lambda>(n, e). n \<noteq> cfg_localNodeID cfg) (mLatestEnvelopes s) \<and> mCommit s = None
         then Inl NullDereference
         else Inr (map snd (filter (\<lambda>(n, e).
           if n \<noteq> cfg_localNodeID cfg
           then (case mCommit s of None \<Rightarrow> False
                 | Some c \<Rightarrow> areBallotsCompatible (getWorkingBallot (env_statement e)) c)
           else mFullyValidated s) (mLatestEnvelopes s))))
      else Inr [])"

text \<open>A new slot.\<close>

definition newSlot :: "Config \<Rightarrow> Slot" where
  "newSlot cfg = \<lparr>mFullyValidated = cfg_isValidator cfg, mStatementsHistory = [], mHeardFromQuorum = False,
     mPhase = SCP_PHASE_PREPARE, mCurrentBallot = None, mPrepared = None, mPreparedPrime = None,
     mHighBallot = None, mCommit = None, mLatestEnvelopes = [], mValueOverride = None,
     mCurrentMessageLevel = 0, mLastEnvelope = None, mLastEnvelopeEmit = None, mNominationStarted = False,
     mLatestCompositeCandidate = [], mEvents = []\<rparr>"

end
