(* ===== verification/Ballot_Safety.thy ===== *)
theory Ballot_Safety
  imports Ballot
begin

section \<open>Safety and termination of the ballot protocol\<close>

text \<open>
  What every step of the ballot protocol keeps and how the state may move. \<open>settled\<close> is the
  invariant: past the first phase there are c and h with one value. \<open>later\<close> relates the state before
  a step to the one after: phases only rise, within a phase the ballot counter only rises, the
  committed value never changes, an externalized slot is final, and a slot enters that phase only on
  a quorum that ratifies the commit, with one notification. The interface \<open>emission\<close> states this of
  the recursive emission; each step is proved to keep it for any emission that does, and the
  interpretation of the recursion on the model follows by induction on the nesting.
\<close>

definition phaseRank :: "SCPPhase \<Rightarrow> nat" where
  "phaseRank p = (case p of SCP_PHASE_PREPARE \<Rightarrow> 0 | SCP_PHASE_CONFIRM \<Rightarrow> 1 | SCP_PHASE_EXTERNALIZE \<Rightarrow> 2)"

lemma phaseRank_simps [simp]:
  "phaseRank SCP_PHASE_PREPARE = 0"
  "phaseRank SCP_PHASE_CONFIRM = 1"
  "phaseRank SCP_PHASE_EXTERNALIZE = 2"
  by (simp_all add: phaseRank_def)

definition settled :: "Slot \<Rightarrow> bool" where
  "settled s \<longleftrightarrow> (mPhase s \<noteq> SCP_PHASE_PREPARE \<longrightarrow>
     (\<exists>c h. mCommit s = Some c \<and> mHighBallot s = Some h \<and> bal_value c = bal_value h))"

definition isExternalized :: "Event \<Rightarrow> bool" where
  "isExternalized ev = (case ev of ValueExternalized v \<Rightarrow> True | _ \<Rightarrow> False)"

lemma isExternalized_simps [simp]:
  "isExternalized (StartedBallotProtocol b) = False"
  "isExternalized (AcceptedBallotPrepared b) = False"
  "isExternalized (ConfirmedBallotPrepared b) = False"
  "isExternalized (AcceptedCommit b) = False"
  "isExternalized (ValueExternalized v) = True"
  "isExternalized (BallotDidHearFromQuorum b) = False"
  "isExternalized (SetupTimer t i) = False"
  "isExternalized (EmitEnvelope e) = False"
  "isExternalized (NominatingValue v) = False"
  "isExternalized (UpdatedCandidateValue v) = False"
  by (simp_all add: isExternalized_def)

definition externalized :: "Slot \<Rightarrow> Event list" where
  "externalized s = filter isExternalized (mEvents s)"

text \<open>A quorum ratifies the commit of c up to h, in the envelopes that the slot holds. The map of the
  envelopes is in the order of the nodes, one envelope for each.\<close>

abbreviation inOrder :: "(NodeID \<times> SCPEnvelope) list \<Rightarrow> bool" where
  "inOrder envs \<equiv> sorted_wrt (<) (map fst envs)"

definition justified :: "Config \<Rightarrow> Slot \<Rightarrow> bool" where
  "justified cfg s \<longleftrightarrow> inOrder (mLatestEnvelopes s) \<and> (\<exists>c h. mCommit s = Some c \<and> mHighBallot s = Some h
     \<and> federatedRatify cfg (commitPredicate c (bal_counter c, bal_counter h)) (mLatestEnvelopes s))"

text \<open>The node's own envelope is the same or externalizes \<open>c\<close>.\<close>

definition ownKept :: "Config \<Rightarrow> SCPBallot option \<Rightarrow> (NodeID \<times> SCPEnvelope) list \<Rightarrow> (NodeID \<times> SCPEnvelope) list \<Rightarrow> bool" where
  "ownKept cfg c envs envs' \<longleftrightarrow> map_of envs' (cfg_localNodeID cfg) = map_of envs (cfg_localNodeID cfg)
     \<or> (\<exists>b n q. c = Some b \<and> map_of envs' (cfg_localNodeID cfg) = Some (createEnvelope cfg (SCP_ST_EXTERNALIZE b n q)))"

lemma ownKept_refl [simp]: "ownKept cfg c envs envs"
  by (simp add: ownKept_def)

lemma ownKept_trans: "\<lbrakk>ownKept cfg c x y; ownKept cfg c y z\<rbrakk> \<Longrightarrow> ownKept cfg c x z"
  unfolding ownKept_def by metis

definition later :: "Config \<Rightarrow> Slot \<Rightarrow> Slot \<Rightarrow> bool" where
  "later cfg s s' \<longleftrightarrow>
     phaseRank (mPhase s) \<le> phaseRank (mPhase s')
     \<and> (mPhase s = mPhase s' \<longrightarrow> currentCounter s \<le> currentCounter s')
     \<and> mCurrentMessageLevel s' = mCurrentMessageLevel s
     \<and> (\<forall>n. n \<noteq> cfg_localNodeID cfg \<longrightarrow> map_of (mLatestEnvelopes s') n = map_of (mLatestEnvelopes s) n)
     \<and> (inOrder (mLatestEnvelopes s) \<longrightarrow> inOrder (mLatestEnvelopes s'))
     \<and> (mPhase s = SCP_PHASE_EXTERNALIZE \<longrightarrow> ownKept cfg (mCommit s) (mLatestEnvelopes s) (mLatestEnvelopes s'))
     \<and> (mPhase s \<noteq> SCP_PHASE_PREPARE \<longrightarrow>
          map_option bal_value (mCommit s') = map_option bal_value (mCommit s))
     \<and> (mPhase s = SCP_PHASE_EXTERNALIZE \<longrightarrow> mCommit s' = mCommit s \<and> mHighBallot s' = mHighBallot s)
     \<and> (if mPhase s \<noteq> SCP_PHASE_EXTERNALIZE \<and> mPhase s' = SCP_PHASE_EXTERNALIZE
        then (inOrder (mLatestEnvelopes s) \<longrightarrow> justified cfg s')
          \<and> externalized s' = externalized s @ [ValueExternalized (bal_value (the (mCommit s')))]
        else externalized s' = externalized s)"

lemma later_refl [simp, intro]: "later cfg s s"
  by (simp add: later_def)

lemma phaseRank_eq: "phaseRank p = phaseRank q \<longleftrightarrow> p = q"
  by (cases p; cases q) auto

lemma phaseRank_2_le: "2 \<le> phaseRank p \<longleftrightarrow> p = SCP_PHASE_EXTERNALIZE"
  by (cases p) auto

lemma phaseRank_0: "phaseRank p \<le> 0 \<longleftrightarrow> p = SCP_PHASE_PREPARE"
  by (cases p) auto

text \<open>A quorum stays one when the other nodes' envelopes stay and the node's own externalizes what was
  ratified: such a statement needs no other node.\<close>

lemma inOrder_filterNodes:
  assumes "inOrder envs"
  shows "n \<in> set (filterNodes envs f) \<longleftrightarrow> (\<exists>e. map_of envs n = Some e \<and> f e)"
proof -
  have "distinct (map fst envs)" using assms strict_sorted_iff by blast
  then show ?thesis by (force simp: filterNodes_def dest: map_of_SomeD)
qed

lemma singleton_slice: "n \<in> set U \<Longrightarrow> isQuorumSlice (buildSingletonQSet n) U"
  by (simp add: buildSingletonQSet_def isQuorumSlice_hits need_def)

lemma federatedRatify_own:
  assumes q: "federatedRatify cfg P envs" and o: "inOrder envs" "inOrder envs'"
    and others: "\<forall>n. n \<noteq> cfg_localNodeID cfg \<longrightarrow> map_of envs' n = map_of envs n"
    and own: "\<And>e. \<lbrakk>map_of envs (cfg_localNodeID cfg) = Some e; P (env_statement e)\<rbrakk> \<Longrightarrow>
      \<exists>e'. map_of envs' (cfg_localNodeID cfg) = Some e' \<and> P (env_statement e')
        \<and> (getQuorumSetFromStatement cfg (env_statement e') = getQuorumSetFromStatement cfg (env_statement e)
           \<or> getQuorumSetFromStatement cfg (env_statement e') = Some (buildSingletonQSet (cfg_localNodeID cfg)))"
  shows "federatedRatify cfg P envs'"
proof -
  let ?q = "getQuorumSetFromStatement cfg \<circ> env_statement"
  from q obtain U where U: "set U \<subseteq> set (filterNodes envs (P \<circ> env_statement))" "closedNodes envs ?q U"
    "isQuorumSlice (cfg_qSet cfg) U" unfolding federatedRatify_def isQuorum_iff_closed by blast
  have "n \<in> set (filterNodes envs' (P \<circ> env_statement)) \<and> quorumFilter envs' ?q U n" if n: "n \<in> set U" for n
  proof -
    have "n \<in> set (filterNodes envs (P \<circ> env_statement))" using n U(1) by blast
    then obtain e where e: "map_of envs n = Some e" "P (env_statement e)"
      unfolding inOrder_filterNodes [OF o(1)] by auto
    from n U(2) e(1) have q: "\<exists>qs. ?q e = Some qs \<and> isQuorumSlice qs U"
      by (auto simp: closedNodes_def list_all_iff quorumFilter_iff)
    obtain e' where "map_of envs' n = Some e'" "P (env_statement e')"
      "?q e' = ?q e \<or> ?q e' = Some (buildSingletonQSet n)"
      using e own others by (cases "n = cfg_localNodeID cfg") auto
    then show ?thesis using singleton_slice [OF n] q
      unfolding inOrder_filterNodes [OF o(2)] quorumFilter_iff by auto
  qed
  then show ?thesis unfolding federatedRatify_def isQuorum_iff_closed closedNodes_def list_all_iff using U(3) by blast
qed

text \<open>What being ratified says, spelled out.\<close>

lemma federatedRatify_quorum:
  assumes "federatedRatify cfg P envs" "inOrder envs"
  shows "\<exists>U. isQuorumSlice (cfg_qSet cfg) U \<and> (\<forall>n \<in> set U. \<exists>e q. map_of envs n = Some e \<and> P (env_statement e)
    \<and> getQuorumSetFromStatement cfg (env_statement e) = Some q \<and> isQuorumSlice q U)"
proof -
  from assms(1) obtain U where U: "set U \<subseteq> set (filterNodes envs (P \<circ> env_statement))" "isQuorumSlice (cfg_qSet cfg) U"
    "closedNodes envs (getQuorumSetFromStatement cfg \<circ> env_statement) U"
    unfolding federatedRatify_def isQuorum_iff_closed by blast
  have "\<exists>e q. map_of envs n = Some e \<and> P (env_statement e)
      \<and> getQuorumSetFromStatement cfg (env_statement e) = Some q \<and> isQuorumSlice q U" if n: "n \<in> set U" for n
  proof -
    have "n \<in> set (filterNodes envs (P \<circ> env_statement))" using n U(1) by blast
    then obtain e where e: "map_of envs n = Some e" "P (env_statement e)"
      unfolding inOrder_filterNodes [OF assms(2)] by auto
    moreover from U(3) n e(1) obtain q where "getQuorumSetFromStatement cfg (env_statement e) = Some q" "isQuorumSlice q U"
      by (auto simp: closedNodes_def list_all_iff quorumFilter_iff)
    ultimately show ?thesis by blast
  qed
  then show ?thesis using U(2) by blast
qed

lemma ratify_ownKept:
  assumes "federatedRatify cfg (commitPredicate c (bal_counter c, m)) envs" "inOrder envs" "inOrder envs'"
    and "\<forall>n. n \<noteq> cfg_localNodeID cfg \<longrightarrow> map_of envs' n = map_of envs n" "ownKept cfg (Some c) envs envs'"
  shows "federatedRatify cfg (commitPredicate c (bal_counter c, m)) envs'"
  using assms(5) unfolding ownKept_def
  by (intro federatedRatify_own [OF assms(1-4)])
    (fastforce simp: createEnvelope_def Let_def commitPredicate_def areBallotsCompatible_def getQuorumSetFromStatement_def)

lemma justified_later:
  assumes "justified cfg s" "mPhase s = SCP_PHASE_EXTERNALIZE" "later cfg s s'"
  shows "justified cfg s'"
proof -
  obtain c h where j: "inOrder (mLatestEnvelopes s)" "mCommit s = Some c" "mHighBallot s = Some h"
    "federatedRatify cfg (commitPredicate c (bal_counter c, bal_counter h)) (mLatestEnvelopes s)"
    using assms(1) by (auto simp: justified_def)
  from assms(2,3) j(1,2) have l: "inOrder (mLatestEnvelopes s')" "ownKept cfg (Some c) (mLatestEnvelopes s) (mLatestEnvelopes s')"
    "\<forall>n. n \<noteq> cfg_localNodeID cfg \<longrightarrow> map_of (mLatestEnvelopes s') n = map_of (mLatestEnvelopes s) n"
    "mCommit s' = mCommit s" "mHighBallot s' = mHighBallot s"
    by (auto simp: later_def)
  from ratify_ownKept [OF j(4,1) l(1,3,2)] show ?thesis using j l by (simp add: justified_def)
qed

lemma later_trans [trans]:
  assumes "later cfg a b" "later cfg b c"
  shows "later cfg a c"
proof -
  note d = assms [unfolded later_def]
  have p: "phaseRank (mPhase a) \<le> phaseRank (mPhase c)" using d by linarith
  moreover have "currentCounter a \<le> currentCounter c" if "mPhase a = mPhase c"
  proof -
    have "mPhase a = mPhase b" "mPhase b = mPhase c"
      using d that phaseRank_eq by (metis order_antisym)+
    then show ?thesis using d by (metis order_trans)
  qed
  moreover have "mPhase b \<noteq> SCP_PHASE_PREPARE" if "mPhase a \<noteq> SCP_PHASE_PREPARE"
    using d(1) that by (metis phaseRank_0 phaseRank_simps(1))
  moreover have b: "mPhase b = SCP_PHASE_EXTERNALIZE" if "mPhase a = SCP_PHASE_EXTERNALIZE"
    using d(1) that by (metis phaseRank_2_le phaseRank_simps(3))
  moreover have c: "mPhase c = SCP_PHASE_EXTERNALIZE" if "mPhase b = SCP_PHASE_EXTERNALIZE"
    using d(2) that by (metis phaseRank_2_le phaseRank_simps(3))
  moreover have "ownKept cfg (mCommit a) (mLatestEnvelopes a) (mLatestEnvelopes c)" if "mPhase a = SCP_PHASE_EXTERNALIZE"
    using d b [OF that] that by (auto intro: ownKept_trans)
  moreover have "justified cfg c" if "mPhase a \<noteq> SCP_PHASE_EXTERNALIZE" "mPhase c = SCP_PHASE_EXTERNALIZE"
    "inOrder (mLatestEnvelopes a)"
  proof (cases "mPhase b = SCP_PHASE_EXTERNALIZE")
    case True
    then have "justified cfg b" using d(1) that by simp
    then show ?thesis using justified_later [OF _ True assms(2)] by blast
  next
    case False
    have "inOrder (mLatestEnvelopes b)" using d(1) that(3) by blast
    then show ?thesis using d(2) that(2) False by simp
  qed
  moreover have "externalized c = externalized a @
      (if mPhase a \<noteq> SCP_PHASE_EXTERNALIZE \<and> mPhase c = SCP_PHASE_EXTERNALIZE
       then [ValueExternalized (bal_value (the (mCommit c)))] else [])"
    using d b c by (cases "mPhase b = SCP_PHASE_EXTERNALIZE") (auto split: if_splits)
  ultimately show ?thesis using d unfolding later_def by auto
qed

text \<open>What a step that keeps phase, c and h leaves to show.\<close>

lemma laterI:
  assumes "mPhase s' = mPhase s" "mCommit s' = mCommit s" "mHighBallot s' = mHighBallot s"
    "currentCounter s \<le> currentCounter s'" "mCurrentMessageLevel s' = mCurrentMessageLevel s"
    "mLatestEnvelopes s' = mLatestEnvelopes s" "externalized s' = externalized s"
  shows "later cfg s s'"
  using assms by (simp add: later_def)

lemma settledI: "\<lbrakk>settled s; mPhase s' = mPhase s; mCommit s' = mCommit s; mHighBallot s' = mHighBallot s\<rbrakk> \<Longrightarrow> settled s'"
  by (simp add: settled_def)

definition frame :: "Slot \<Rightarrow> Slot \<Rightarrow> bool" where
  "frame s s' \<longleftrightarrow> mPhase s' = mPhase s \<and> mCommit s' = mCommit s \<and> mHighBallot s' = mHighBallot s
     \<and> mCurrentBallot s' = mCurrentBallot s \<and> mCurrentMessageLevel s' = mCurrentMessageLevel s
     \<and> mLatestEnvelopes s' = mLatestEnvelopes s \<and> externalized s' = externalized s"

lemma frame_later: "frame s s' \<Longrightarrow> later cfg s s'"
  by (auto simp: frame_def currentCounter_def intro: laterI)

lemma frame_settled: "\<lbrakk>frame s s'; settled s\<rbrakk> \<Longrightarrow> settled s'"
  by (auto simp: frame_def intro: settledI)

lemma frame_checkHeardFromQuorum: "frame s (checkHeardFromQuorum cfg s)"
  by (simp add: frame_def checkHeardFromQuorum_def stopBallotProtocolTimer_def startBallotProtocolTimer_def
      log_def externalized_def Let_def split: option.split)

lemma frame_sendLatestEnvelope: "frame s (sendLatestEnvelope s)"
  by (simp add: frame_def sendLatestEnvelope_def log_def externalized_def split: option.split)

lemma bumpToBallot_Inr:
  assumes "bumpToBallot b check s = Inr s'"
  shows "mPhase s \<noteq> SCP_PHASE_EXTERNALIZE \<and> mPhase s' = mPhase s \<and> mCommit s' = mCommit s
    \<and> mCurrentBallot s' = Some b
    \<and> mHighBallot s' = (case mHighBallot s of None \<Rightarrow> None
        | Some h \<Rightarrow> if bal_value b = bal_value h then Some h else None)
    \<and> mCurrentMessageLevel s' = mCurrentMessageLevel s \<and> mLatestEnvelopes s' = mLatestEnvelopes s
    \<and> externalized s' = externalized s \<and> mPrepared s' = mPrepared s \<and> mPreparedPrime s' = mPreparedPrime s
    \<and> (check \<longrightarrow> currentCounter s \<le> currentCounter s')"
  using assms
  by (auto simp: bumpToBallot_def Let_def log_def externalized_def areBallotsCompatible_def currentCounter_def
      less_eq_SCPBallot_def split: if_splits option.splits)

lemma bumpToBallot_noReturn: "bumpToBallot b check s \<noteq> Inl NoReturn"
  by (auto simp: bumpToBallot_def ensureE_def Let_def)

text \<open>Moving to another ballot keeps h and c when they have its value.\<close>

lemma bumpToBallot_later:
  assumes "bumpToBallot b True s = Inr s'" "settled s"
    and "mPhase s \<noteq> SCP_PHASE_PREPARE \<Longrightarrow> map_option bal_value (mCommit s) = Some (bal_value b)"
  shows "settled s' \<and> later cfg s s'"
  using bumpToBallot_Inr [OF assms(1)] assms(2,3)
  by (auto simp: later_def settled_def)

lemma updateCurrentIfNeeded_noReturn: "updateCurrentIfNeeded h s \<noteq> Inl NoReturn"
  using bumpToBallot_noReturn by (auto simp: updateCurrentIfNeeded_def bindE_eq_Inl)

lemma updateCurrentIfNeeded_later:
  assumes "updateCurrentIfNeeded h s = Inr (d, s')" "settled s"
    and "mPhase s \<noteq> SCP_PHASE_PREPARE \<Longrightarrow> map_option bal_value (mCommit s) = Some (bal_value h)"
  shows "settled s' \<and> later cfg s s'"
  using assms bumpToBallot_later by (auto simp: updateCurrentIfNeeded_def split: if_splits)

lemma updateCurrentValue_noReturn: "updateCurrentValue b s \<noteq> Inl NoReturn"
  using bumpToBallot_noReturn
  by (auto simp: updateCurrentValue_def bindE_eq_Inl checkInvariants_def ensureE_def Let_def split: option.splits)

lemma updateCurrentValue_later:
  assumes "updateCurrentValue b s = Inr (d, s')" "settled s"
  shows "settled s' \<and> later cfg s s' \<and> (d \<longrightarrow> mPhase s' = mPhase s \<and> currentCounter s' = bal_counter b)
    \<and> (\<not> d \<longrightarrow> s' = s)"
proof -
  have step: "settled s' \<and> later cfg s s' \<and> mPhase s' = mPhase s \<and> currentCounter s' = bal_counter b"
    if "bumpToBallot b True s = Inr s'"
      "mPhase s \<noteq> SCP_PHASE_PREPARE \<Longrightarrow> map_option bal_value (mCommit s) = Some (bal_value b)"
    using bumpToBallot_later [OF that(1) assms(2) that(2)] bumpToBallot_Inr [OF that(1)]
    by (simp add: currentCounter_def)
  show ?thesis
  proof (cases "mCurrentBallot s")
    case None
    show ?thesis
    proof (cases "mPhase s = SCP_PHASE_PREPARE")
      case True
      then show ?thesis using assms(1) None step by (auto simp: updateCurrentValue_def)
    next
      case False
      show ?thesis
      proof (cases "bumpToBallot b True s = Inr s' \<and> d")
        case True
        then have inv: "invariants s'" using assms(1) None
          by (auto simp: updateCurrentValue_def checkInvariants_def split: if_splits)
        obtain c where c: "mCommit s = Some c" using assms(2) False by (auto simp: settled_def)
        note b = bumpToBallot_Inr [OF conjunct1 [OF True]]
        have "mCommit s' = Some c" "mCurrentBallot s' = Some b" using b c by auto
        then have "bal_value c = bal_value b" using inv
          by (auto simp: invariants_def areBallotsLessAndCompatible_def areBallotsCompatible_def split: option.splits)
        then show ?thesis using step True c by simp
      next
        case F: False
        then show ?thesis using assms None
          by (auto simp: updateCurrentValue_def checkInvariants_def split: if_splits)
      qed
    qed
  next
    case (Some b0)
    have "map_option bal_value (mCommit s) = Some (bal_value b)"
      if "mPhase s \<noteq> SCP_PHASE_PREPARE"
        "\<not> (case mCommit s of None \<Rightarrow> False | Some c \<Rightarrow> \<not> areBallotsCompatible c b)"
      using that assms(2) by (auto simp: settled_def areBallotsCompatible_def)
    then show ?thesis using assms Some step
      by (auto simp: updateCurrentValue_def checkInvariants_def Let_def split: if_splits)
  qed
qed

lemma frame_log: "\<not> isExternalized ev \<Longrightarrow> frame s (log ev s)"
  by (simp add: frame_def log_def externalized_def)

lemma log_sel [simp]:
  "mPhase (log ev s) = mPhase s"
  "mCommit (log ev s) = mCommit s"
  "mHighBallot (log ev s) = mHighBallot s"
  "mCurrentBallot (log ev s) = mCurrentBallot s"
  "mCurrentMessageLevel (log ev s) = mCurrentMessageLevel s"
  "mLatestEnvelopes (log ev s) = mLatestEnvelopes s"
  "mNominationStarted (log ev s) = mNominationStarted s"
  by (simp_all add: log_def)

lemma externalized_log [simp]:
  "externalized (log ev s) = externalized s @ (if isExternalized ev then [ev] else [])"
  by (simp add: log_def externalized_def)

lemma externalized_update [simp]:
  "externalized (s\<lparr>mPhase := p\<rparr>) = externalized s"
  "externalized (s\<lparr>mCommit := c\<rparr>) = externalized s"
  "externalized (s\<lparr>mHighBallot := h\<rparr>) = externalized s"
  "externalized (s\<lparr>mPrepared := b\<rparr>) = externalized s"
  "externalized (s\<lparr>mPreparedPrime := b\<rparr>) = externalized s"
  "externalized (s\<lparr>mValueOverride := v\<rparr>) = externalized s"
  "externalized (s\<lparr>mNominationStarted := n\<rparr>) = externalized s"
  "externalized (s\<lparr>mCurrentMessageLevel := i\<rparr>) = externalized s"
  "externalized (s\<lparr>mLastEnvelope := e\<rparr>) = externalized s"
  "externalized (s\<lparr>mFullyValidated := f\<rparr>) = externalized s"
  "externalized (recordEnvelope env s) = externalized s"
  by (simp_all add: externalized_def recordEnvelope_def recordStatement_def)

lemma settled_log [simp]: "settled (log ev s) \<longleftrightarrow> settled s"
  by (simp add: settled_def)

lemma later_log [simp]: "\<not> isExternalized ev \<Longrightarrow> later cfg s (log ev t) \<longleftrightarrow> later cfg s t"
  by (simp add: later_def justified_def currentCounter_def)

lemma currentCounter_eq: "mCurrentBallot s' = mCurrentBallot s \<Longrightarrow> currentCounter s' = currentCounter s"
  by (simp add: currentCounter_def)

lemma findExtendedInterval_pred:
  "fst (findExtendedInterval cand bs pred) \<noteq> 0 \<Longrightarrow> (fst cand \<noteq> 0 \<longrightarrow> pred cand) \<Longrightarrow>
     pred (findExtendedInterval cand bs pred)"
  by (induction cand bs pred rule: findExtendedInterval.induct) (auto simp: Let_def split: if_splits)

lemma commitPredicate_value:
  "bal_value a = bal_value b \<Longrightarrow> commitPredicate a cur = commitPredicate b cur"
  by (rule ext) (simp add: commitPredicate_def areBallotsCompatible_def split: SCPPledges.split)

lemma bumpTarget_greater: "bumpTarget cfg s t ns = Some n \<Longrightarrow> t < n"
  by (induction cfg s t ns rule: bumpTarget.induct) (auto simp: Let_def split: if_splits)

text \<open>What the bump loop decreases: the phases left, then the counters left.\<close>

definition bumpMeasure :: "Slot \<Rightarrow> nat" where
  "bumpMeasure s = (2 - phaseRank (mPhase s)) * 2 ^ 32 + (2 ^ 32 - 1 - unat (currentCounter s))"

lemma phaseRank_le_2: "phaseRank p \<le> 2"
  by (cases p) auto

lemma bumpMeasure_later: "later cfg s s' \<Longrightarrow> bumpMeasure s' \<le> bumpMeasure s"
proof -
  assume l: "later cfg s s'"
  have u: "unat (currentCounter s') < 2 ^ 32" "unat (currentCounter s) < 2 ^ 32"
    using unsigned_less [of "currentCounter s'", where 'a = nat]
      unsigned_less [of "currentCounter s", where 'a = nat] by simp_all
  show ?thesis
  proof (cases "mPhase s = mPhase s'")
    case True
    then have "unat (currentCounter s) \<le> unat (currentCounter s')"
      using l by (simp add: later_def word_le_nat_alt)
    then show ?thesis using True by (simp add: bumpMeasure_def)
  next
    case False
    moreover have "phaseRank (mPhase s) \<le> phaseRank (mPhase s')" using l by (simp add: later_def)
    ultimately have "phaseRank (mPhase s) < phaseRank (mPhase s')"
      using phaseRank_eq [of "mPhase s" "mPhase s'"] by linarith
    then have "2 - phaseRank (mPhase s') + 1 \<le> 2 - phaseRank (mPhase s)"
      using phaseRank_le_2 [of "mPhase s'"] by linarith
    then have "(2 - phaseRank (mPhase s') + 1) * 2 ^ 32 \<le> (2 - phaseRank (mPhase s)) * 2 ^ 32"
      by (rule mult_le_mono1)
    then show ?thesis unfolding bumpMeasure_def add_mult_distrib by linarith
  qed
qed

lemma bumpMeasure_counter:
  "\<lbrakk>mPhase s' = mPhase s; currentCounter s < currentCounter s'\<rbrakk> \<Longrightarrow> bumpMeasure s' < bumpMeasure s"
  using unsigned_less [of "currentCounter s'", where 'a = nat]
  by (simp add: bumpMeasure_def word_less_nat_alt)

subsection \<open>The interface: an emission that keeps the invariant\<close>

locale emission =
  fixes cfg :: Config
    and emit :: emitter
    and lo :: int
  assumes emit_later: "\<lbrakk>settled s; emit s = Inr s'\<rbrakk> \<Longrightarrow> settled s' \<and> later cfg s s'"
    and emit_returns: "\<lbrakk>settled s; lo \<le> mCurrentMessageLevel s; mCurrentMessageLevel s < 50\<rbrakk>
      \<Longrightarrow> emit s \<noteq> Inl NoReturn"
begin

definition safe :: "Slot \<Rightarrow> cpp_error + (bool \<times> Slot) \<Rightarrow> bool" where
  "safe s r \<longleftrightarrow> (\<forall>d s'. r = Inr (d, s') \<longrightarrow> settled s' \<and> later cfg s s')
     \<and> (lo \<le> mCurrentMessageLevel s \<and> mCurrentMessageLevel s < 50 \<longrightarrow> r \<noteq> Inl NoReturn)"

lemma safe_unchanged: "settled s \<Longrightarrow> safe s (Inr (d, s))"
  by (simp add: safe_def)

lemma safe_error: "e \<noteq> NoReturn \<Longrightarrow> safe s (Inl e)"
  by (simp add: safe_def)

text \<open>A step that prepares a state and emits it.\<close>

lemma safe_emit:
  assumes "settled s'" "later cfg s s'"
  shows "safe s (bindE (emit s') (\<lambda>s''. Inr (d, s'')))"
  unfolding safe_def
proof (intro conjI allI impI)
  fix b t
  assume "bindE (emit s') (\<lambda>s''. Inr (d, s'')) = Inr (b, t)"
  then have "emit s' = Inr t" by auto
  from emit_later [OF assms(1) this] have t: "settled t" "later cfg s' t" by auto
  show "settled t" by (rule t(1))
  show "later cfg s t" by (rule later_trans [OF assms(2) t(2)])
next
  assume l: "lo \<le> mCurrentMessageLevel s \<and> mCurrentMessageLevel s < 50"
  have "mCurrentMessageLevel s' = mCurrentMessageLevel s" using assms(2) by (simp add: later_def)
  then have "emit s' \<noteq> Inl NoReturn" using emit_returns [OF assms(1)] l by simp
  then show "bindE (emit s') (\<lambda>s''. Inr (d, s'')) \<noteq> Inl NoReturn" by (auto simp: bindE_eq_Inl)
qed

lemma safe_bind_frame:
  assumes "safe s r" "\<And>t. frame t (f t)"
  shows "safe s (bindE r (\<lambda>(d, t). Inr (g d, f t)))"
  using assms frame_later frame_settled later_trans
  unfolding safe_def by (auto simp: bindE_eq_Inl) (blast intro: later_trans)+

subsubsection \<open>Prepared ballots\<close>

lemma setPrepared_frame: "setPrepared ballot s = (d, s') \<Longrightarrow> frame s s'"
  by (auto simp: setPrepared_def frame_def split: option.splits if_splits)

lemma setPreparedAccept_safe:
  assumes "settled s"
  shows "safe s (setPreparedAccept emit ballot s)"
proof -
  obtain d s1 where 1: "setPrepared ballot s = (d, s1)" by fastforce
  note f = setPrepared_frame [OF 1]
  then have s1: "settled s1" "later cfg s s1" using frame_settled frame_later assms by auto
  define clear where "clear = (case (mCommit s1, mHighBallot s1) of
            (Some c, Some h) \<Rightarrow>
              (case mPrepared s1 of None \<Rightarrow> False | Some p \<Rightarrow> areBallotsLessAndIncompatible h p)
              \<or> (case mPreparedPrime s1 of None \<Rightarrow> False | Some p' \<Rightarrow> areBallotsLessAndIncompatible h p')
          | _ \<Rightarrow> False)"
  define s2 where "s2 = (if clear then s1\<lparr>mCommit := None\<rparr> else s1)"
  have e: "setPreparedAccept emit ballot s =
      bindE (ensureE (clear \<longrightarrow> mPhase s1 = SCP_PHASE_PREPARE) AssertionFailed) (\<lambda>_.
        if d \<or> clear then bindE (emit (log (AcceptedBallotPrepared ballot) s2)) (\<lambda>s3. Inr (True, s3))
        else Inr (False, s2))"
    by (simp add: setPreparedAccept_def Let_def 1 clear_def s2_def)
  show ?thesis
  proof (cases "clear \<longrightarrow> mPhase s1 = SCP_PHASE_PREPARE")
    case False
    then show ?thesis unfolding e by (simp add: safe_def)
  next
    case True
    have "settled s2" "later cfg s1 s2" using True s1(1)
      by (auto simp: s2_def settled_def later_def currentCounter_def)
    then have s2: "settled s2" "later cfg s s2" using later_trans [OF s1(2)] by blast+
    then have "settled (log (AcceptedBallotPrepared ballot) s2)"
      "later cfg s (log (AcceptedBallotPrepared ballot) s2)" by simp_all
    note safe_emit [OF this]
    with True s2 show ?thesis unfolding e by (auto simp: safe_def)
  qed
qed

lemma findPreparedAccept_returns: "findPreparedAccept cfg s bs \<noteq> Inl NoReturn"
  by (induction bs) (auto simp: bindE_eq_Inl ensureE_def deref_def split: option.splits if_splits)

lemma attemptPreparedAccept_safe: "settled s \<Longrightarrow> safe s (attemptPreparedAccept cfg emit hint s)"
  using findPreparedAccept_returns [of s "rev (getPrepareCandidates hint s)"] setPreparedAccept_safe
  by (cases "findPreparedAccept cfg s (rev (getPrepareCandidates hint s))")
    (auto simp: attemptPreparedAccept_def safe_unchanged safe_error split: option.splits)

lemma setPreparedConfirmed_safe:
  assumes "settled s" and ph: "mPhase s = SCP_PHASE_PREPARE"
  shows "safe s (setPreparedConfirmed emit newC newH s)"
proof -
  define s0 where "s0 = s\<lparr>mValueOverride := Some (bal_value newH)\<rparr>"
  define raiseH where "raiseH = (case mHighBallot s0 of None \<Rightarrow> True | Some h \<Rightarrow> 0 < compareBallots newH h)"
  define s1 where "s1 = (if raiseH then s0\<lparr>mHighBallot := Some newH\<rparr> else s0)"
  define s2 where "s2 = (if bal_counter newC \<noteq> 0 then s1\<lparr>mCommit := Some newC\<rparr> else s1)"
  define w where "w = (raiseH \<or> bal_counter newC \<noteq> 0)"
  define s3 where "s3 = (if w then log (ConfirmedBallotPrepared newH) s2 else s2)"
  define r where "r = (if (case mCurrentBallot s0 of None \<Rightarrow> True | Some b \<Rightarrow> areBallotsCompatible b newH)
    then bindE (ensureE (bal_counter newC \<noteq> 0 \<longrightarrow> mCommit s1 = None) AssertionFailed) (\<lambda>_. Inr (w, s3))
    else Inr (False, s0))"
  have p: "mPhase s3 = SCP_PHASE_PREPARE" "mPhase s0 = SCP_PHASE_PREPARE"
    using ph by (simp_all add: s3_def s2_def s1_def s0_def)
  have l: "settled s3" "later cfg s s3" "settled s0" "later cfg s s0"
    using ph assms(1) by (simp_all add: s3_def s2_def s1_def s0_def settled_def later_def currentCounter_def)
  have e: "setPreparedConfirmed emit newC newH s = bindE r (\<lambda>(d, t).
      bindE (updateCurrentIfNeeded newH t) (\<lambda>(u, t').
        if u \<or> d then bindE (emit t') (\<lambda>t''. Inr (True, t'')) else Inr (False, t')))"
    by (simp add: setPreparedConfirmed_def Let_def r_def s0_def s1_def s2_def s3_def raiseH_def w_def)
  have step: "safe s (bindE (updateCurrentIfNeeded newH t) (\<lambda>(u, t').
        if u \<or> d then bindE (emit t') (\<lambda>t''. Inr (True, t'')) else Inr (False, t')))"
    if t: "settled t" "later cfg s t" "mPhase t = SCP_PHASE_PREPARE" for t d
  proof (cases "updateCurrentIfNeeded newH t")
    case (Inl e)
    then show ?thesis using updateCurrentIfNeeded_noReturn [of newH t] by (auto simp: safe_error)
  next
    case (Inr x)
    obtain u t' where x: "x = (u, t')" by fastforce
    have "settled t' \<and> later cfg t t'"
      using updateCurrentIfNeeded_later Inr x t(1,3) by blast
    then have t': "settled t'" "later cfg s t'" using later_trans [OF t(2)] by blast+
    then show ?thesis using Inr x safe_emit [OF t'] by (auto simp: safe_def)
  qed
  show ?thesis unfolding e using step [OF l(1,2) p(1), of w] step [OF l(3,4) p(2), of False]
    by (auto simp: r_def ensureE_def safe_error)
qed

lemma attemptPreparedConfirmed_safe: "settled s \<Longrightarrow> safe s (attemptPreparedConfirmed cfg emit hint s)"
  using setPreparedConfirmed_safe
  by (auto simp: attemptPreparedConfirmed_def safe_unchanged Let_def split: option.splits)

subsubsection \<open>Commits\<close>

lemma setAcceptCommit_safe:
  assumes "settled s" and ph: "mPhase s \<noteq> SCP_PHASE_EXTERNALIZE"
    and v: "bal_value c = bal_value h"
    and conf: "mPhase s = SCP_PHASE_CONFIRM \<Longrightarrow> map_option bal_value (mHighBallot s) = Some (bal_value h)"
  shows "safe s (setAcceptCommit emit c h s)"
proof -
  define s0 where "s0 = s\<lparr>mValueOverride := Some (bal_value h)\<rparr>"
  define ch where "ch = (mHighBallot s0 \<noteq> Some h \<or> mCommit s0 \<noteq> Some c)"
  define s1 where "s1 = (if ch then s0\<lparr>mCommit := Some c, mHighBallot := Some h\<rparr> else s0)"
  define r where "r = (if mPhase s1 = SCP_PHASE_PREPARE then
      let s2 = s1\<lparr>mPhase := SCP_PHASE_CONFIRM\<rparr> in
      bindE (if (case mCurrentBallot s2 of None \<Rightarrow> False | Some b \<Rightarrow> \<not> areBallotsLessAndCompatible h b)
             then bumpToBallot h False s2 else Inr s2)
        (\<lambda>s3. Inr (True, s3\<lparr>mPreparedPrime := None\<rparr>))
    else Inr (ch, s1))"
  have s1: "mCommit s1 = Some c" "mHighBallot s1 = Some h" "mPhase s1 = mPhase s"
    "mCurrentBallot s1 = mCurrentBallot s" "mLatestEnvelopes s1 = mLatestEnvelopes s"
    "mCurrentMessageLevel s1 = mCurrentMessageLevel s" "externalized s1 = externalized s"
    by (auto simp: s1_def s0_def ch_def)
  have rr: "settled t \<and> later cfg s t \<and> mPhase t = SCP_PHASE_CONFIRM \<and> mHighBallot t = Some h \<and> mCommit t = Some c"
    if "r = Inr (d, t)" for d t
  proof (cases "mPhase s = SCP_PHASE_PREPARE")
    case True
    then show ?thesis using that s1 v bumpToBallot_Inr [of h False "s1\<lparr>mPhase := SCP_PHASE_CONFIRM\<rparr>"]
      by (auto simp: r_def Let_def settled_def later_def split: if_splits)
  next
    case False
    then have c: "mPhase s = SCP_PHASE_CONFIRM" using ph by (cases "mPhase s") auto
    moreover have "map_option bal_value (mCommit s) = Some (bal_value c)"
      using assms(1) conf [OF c] c v by (auto simp: settled_def)
    ultimately show ?thesis using that s1 v
      by (auto simp: r_def settled_def later_def currentCounter_def)
  qed
  have nr: "r \<noteq> Inl NoReturn"
    using bumpToBallot_noReturn by (auto simp: r_def Let_def bindE_eq_Inl split: if_splits)
  have e: "setAcceptCommit emit c h s = bindE r (\<lambda>(d, t).
      if d then
        bindE (deref (mHighBallot t)) (\<lambda>high.
        bindE (updateCurrentIfNeeded high t) (\<lambda>(_, t').
        bindE (emit (log (AcceptedCommit h) t')) (\<lambda>t''. Inr (True, t''))))
      else Inr (False, t))"
    by (simp add: setAcceptCommit_def Let_def r_def s0_def s1_def ch_def)
  show ?thesis
  proof (cases r)
    case (Inl x)
    then show ?thesis using nr by (auto simp: e safe_error)
  next
    case (Inr x)
    obtain d t where x: "x = (d, t)" by fastforce
    note t = rr [OF Inr [unfolded x]]
    show ?thesis
    proof (cases "updateCurrentIfNeeded h t")
      case (Inl y)
      then show ?thesis using updateCurrentIfNeeded_noReturn [of h t] Inr x t
        by (auto simp: e safe_error safe_def)
    next
      case I: (Inr y)
      obtain u t' where y: "y = (u, t')" by fastforce
      have "settled t' \<and> later cfg t t'"
        using t v by (intro updateCurrentIfNeeded_later [OF I [unfolded y]]) auto
      then have "settled (log (AcceptedCommit h) t')" "later cfg s (log (AcceptedCommit h) t')"
        using t later_trans by auto
      note safe_emit [OF this]
      then show ?thesis using Inr x t I y by (auto simp: e safe_def)
    qed
  qed
qed

lemma acceptCommitHint_returns: "acceptCommitHint pl \<noteq> Inl NoReturn"
  by (simp add: acceptCommitHint_def split: SCPPledges.split)

lemma confirmCommitHint_returns: "confirmCommitHint pl \<noteq> Inl NoReturn"
  by (simp add: confirmCommitHint_def split: SCPPledges.split)

lemma attemptAcceptCommit_safe:
  assumes "settled s"
  shows "safe s (attemptAcceptCommit cfg emit hint s)"
proof (cases "acceptCommitHint (st_pledges hint)")
  case (Inl e)
  then show ?thesis using acceptCommitHint_returns [of "st_pledges hint"] assms
    by (auto simp: attemptAcceptCommit_def safe_unchanged safe_error)
next
  case (Inr r)
  have go: "safe s (setAcceptCommit emit (SCPBallot a (bal_value b)) (SCPBallot z (bal_value b)) s)"
    if "mPhase s = SCP_PHASE_PREPARE \<or> mPhase s = SCP_PHASE_CONFIRM"
      "mPhase s = SCP_PHASE_CONFIRM \<Longrightarrow> \<exists>h. mHighBallot s = Some h \<and> areBallotsCompatible b h" for a b z
    using that by (intro setAcceptCommit_safe [OF assms]) (auto simp: areBallotsCompatible_def)
  show ?thesis
  proof (cases "mPhase s")
    case SCP_PHASE_PREPARE
    then show ?thesis using Inr go safe_unchanged [OF assms]
      by (auto simp: attemptAcceptCommit_def Let_def split: option.splits)
  next
    case SCP_PHASE_CONFIRM
    then obtain h where "mHighBallot s = Some h" using assms by (auto simp: settled_def)
    then show ?thesis using Inr SCP_PHASE_CONFIRM go safe_unchanged [OF assms]
      by (auto simp: attemptAcceptCommit_def Let_def split: option.splits)
  next
    case SCP_PHASE_EXTERNALIZE
    then show ?thesis using safe_unchanged [OF assms] by (simp add: attemptAcceptCommit_def)
  qed
qed

lemma setConfirmCommit_safe:
  assumes "settled s" and ph: "mPhase s = SCP_PHASE_CONFIRM"
    and v: "bal_value c = bal_value h" "map_option bal_value (mCommit s) = Some (bal_value c)"
    and q: "federatedRatify cfg (commitPredicate c (bal_counter c, bal_counter h)) (mLatestEnvelopes s)"
  shows "safe s (setConfirmCommit emit c h s)"
proof -
  define s1 where "s1 = s\<lparr>mCommit := Some c, mHighBallot := Some h\<rparr>"
  have s1: "settled s1" "later cfg s s1" "map_option bal_value (mCommit s1) = Some (bal_value h)"
    using ph v by (auto simp: s1_def settled_def later_def currentCounter_def)
  have e: "setConfirmCommit emit c h s = bindE (updateCurrentIfNeeded h s1) (\<lambda>(_, s2).
      bindE (emit (s2\<lparr>mPhase := SCP_PHASE_EXTERNALIZE\<rparr>)) (\<lambda>s4.
      bindE (deref (mCommit s4)) (\<lambda>c'.
        Inr (True, log (ValueExternalized (bal_value c')) (s4\<lparr>mNominationStarted := False\<rparr>)))))"
    by (simp add: setConfirmCommit_def s1_def Let_def)
  show ?thesis
  proof (cases "updateCurrentIfNeeded h s1")
    case (Inl x)
    then show ?thesis using updateCurrentIfNeeded_noReturn [of h s1] by (auto simp: e safe_error)
  next
    case (Inr x)
    obtain u s2 where x: "x = (u, s2)" by fastforce
    note u = Inr [unfolded x]
    have s2: "settled s2" "later cfg s1 s2" using updateCurrentIfNeeded_later [OF u s1(1) s1(3)] by blast+
    have c2: "mCommit s2 = Some c" "mHighBallot s2 = Some h" "mPhase s2 = SCP_PHASE_CONFIRM"
      "mLatestEnvelopes s2 = mLatestEnvelopes s" "mCurrentMessageLevel s2 = mCurrentMessageLevel s"
      "externalized s2 = externalized s"
      using u bumpToBallot_Inr [of h True s1 s2] ph
      by (auto simp: updateCurrentIfNeeded_def s1_def split: if_splits)
    define s3 where "s3 = s2\<lparr>mPhase := SCP_PHASE_EXTERNALIZE\<rparr>"
    have s3: "settled s3" "mPhase s3 = SCP_PHASE_EXTERNALIZE" "mCommit s3 = Some c" "mHighBallot s3 = Some h"
      "mLatestEnvelopes s3 = mLatestEnvelopes s" "mCurrentMessageLevel s3 = mCurrentMessageLevel s"
      "externalized s3 = externalized s"
      using c2 v by (auto simp: s3_def settled_def)
    show ?thesis
    proof (cases "emit s3")
      case (Inl y)
      then show ?thesis using u emit_returns [OF s3(1)] s3 by (auto simp: e s3_def [symmetric] safe_def)
    next
      case (Inr s4)
      from emit_later [OF s3(1) Inr] have s4: "settled s4" "later cfg s3 s4" by auto
      have c4: "mCommit s4 = Some c" "mHighBallot s4 = Some h" "mPhase s4 = SCP_PHASE_EXTERNALIZE"
        using s4(2) s3 phaseRank_2_le [of "mPhase s4"] by (auto simp: later_def)
      have l4: "\<forall>n. n \<noteq> cfg_localNodeID cfg \<longrightarrow> map_of (mLatestEnvelopes s4) n = map_of (mLatestEnvelopes s) n"
        "ownKept cfg (Some c) (mLatestEnvelopes s) (mLatestEnvelopes s4)"
        "inOrder (mLatestEnvelopes s) \<Longrightarrow> inOrder (mLatestEnvelopes s4)"
        using s4(2) s3 by (auto simp: later_def)
      have "justified cfg s4" if "inOrder (mLatestEnvelopes s)"
        unfolding justified_def using c4 ratify_ownKept [OF q that l4(3) [OF that] l4(1,2)] l4(3) [OF that] by blast
      then have "later cfg s (log (ValueExternalized (bal_value c)) (s4\<lparr>mNominationStarted := False\<rparr>))"
        using c4 s4(2) s3 v ph by (auto simp: later_def justified_def)
      moreover have "settled (s4\<lparr>mNominationStarted := False\<rparr>)" using s4(1) by (simp add: settled_def)
      ultimately show ?thesis using u Inr c4 by (auto simp: e s3_def [symmetric] safe_def)
    qed
  qed
qed

lemma attemptConfirmCommit_safe:
  assumes "settled s"
  shows "safe s (attemptConfirmCommit cfg emit hint s)"
proof (cases "mPhase s = SCP_PHASE_CONFIRM")
  case False
  then show ?thesis using safe_unchanged [OF assms] by (simp add: attemptConfirmCommit_def)
next
  case True
  then obtain c h where ch: "mCommit s = Some c" "mHighBallot s = Some h" using assms by (auto simp: settled_def)
  have go: "safe s (setConfirmCommit emit (SCPBallot (fst i) (bal_value b)) (SCPBallot (snd i) (bal_value b)) s)"
    if i: "i = findExtendedInterval (0, 0) bs (\<lambda>cur. federatedRatify cfg (commitPredicate b cur) (mLatestEnvelopes s))"
      "fst i \<noteq> 0" and b: "areBallotsCompatible b c" for i b bs
  proof (rule setConfirmCommit_safe [OF assms True])
    have "federatedRatify cfg (commitPredicate b i) (mLatestEnvelopes s)"
      using findExtendedInterval_pred [of "(0, 0)" bs
          "\<lambda>cur. federatedRatify cfg (commitPredicate b cur) (mLatestEnvelopes s)"] i by simp
    then show "federatedRatify cfg (commitPredicate (SCPBallot (fst i) (bal_value b))
        (bal_counter (SCPBallot (fst i) (bal_value b)), bal_counter (SCPBallot (snd i) (bal_value b))))
        (mLatestEnvelopes s)"
      using commitPredicate_value [of "SCPBallot (fst i) (bal_value b)" b] by simp
  qed (use ch b in \<open>auto simp: areBallotsCompatible_def\<close>)
  show ?thesis
  proof (cases "confirmCommitHint (st_pledges hint)")
    case (Inl e)
    then show ?thesis using confirmCommitHint_returns [of "st_pledges hint"] True ch
      by (auto simp: attemptConfirmCommit_def safe_error)
  next
    case (Inr r)
    then show ?thesis using go safe_unchanged [OF assms] True ch
      by (auto simp: attemptConfirmCommit_def Let_def split: option.splits)
  qed
qed

subsubsection \<open>Bumping\<close>

lemma bumpStateTo_safe:
  assumes "settled s"
  shows "safe s (bumpStateTo cfg emit value n s)"
    and "\<lbrakk>bumpStateTo cfg emit value n s = Inr (True, s'); currentCounter s < n\<rbrakk>
      \<Longrightarrow> bumpMeasure s' < bumpMeasure s"
proof -
  define b where "b = SCPBallot n (case mValueOverride s of Some v \<Rightarrow> v | None \<Rightarrow> value)"
  have e: "bumpStateTo cfg emit value n s =
      (if mPhase s \<noteq> SCP_PHASE_PREPARE \<and> mPhase s \<noteq> SCP_PHASE_CONFIRM then Inr (False, s)
       else bindE (updateCurrentValue b s) (\<lambda>(u, s1).
         if u then bindE (emit s1) (\<lambda>s2. Inr (True, checkHeardFromQuorum cfg s2)) else Inr (False, s1)))"
    by (simp add: bumpStateTo_def b_def Let_def)
  have both: "safe s (bumpStateTo cfg emit value n s)
    \<and> (bumpStateTo cfg emit value n s = Inr (True, s') \<longrightarrow> currentCounter s < n \<longrightarrow> bumpMeasure s' < bumpMeasure s)"
  proof (cases "updateCurrentValue b s")
    case (Inl x)
    then show ?thesis using updateCurrentValue_noReturn [of b s] safe_unchanged [OF assms]
      by (auto simp: e safe_error)
  next
    case (Inr x)
    obtain u s1 where x: "x = (u, s1)" by fastforce
    note U = updateCurrentValue_later [OF Inr [unfolded x] assms]
    show ?thesis
    proof (cases u)
      case False
      then show ?thesis using Inr x U safe_unchanged [OF assms] by (auto simp: e)
    next
      case True
      then have s1: "settled s1" "later cfg s s1" "mPhase s1 = mPhase s" "currentCounter s1 = n"
        using U by (auto simp: b_def)
      have "safe s (bindE (bindE (emit s1) (\<lambda>s2. Inr (True, s2))) (\<lambda>(d, t). Inr (d, checkHeardFromQuorum cfg t)))"
        using safe_bind_frame [OF safe_emit [OF s1(1,2)], where f = "checkHeardFromQuorum cfg" and g = "\<lambda>d. d"]
          frame_checkHeardFromQuorum by blast
      then have "safe s (bindE (emit s1) (\<lambda>s2. Inr (True, checkHeardFromQuorum cfg s2)))"
        by (simp add: bindE_assoc)
      moreover have "bumpMeasure s' < bumpMeasure s"
        if "emit s1 = Inr s2" "s' = checkHeardFromQuorum cfg s2" "currentCounter s < n" for s2
      proof -
        have "later cfg s1 s2" using emit_later [OF s1(1) that(1)] by blast
        then have "later cfg s1 s'" using later_trans frame_later frame_checkHeardFromQuorum that(2) by blast
        then have "bumpMeasure s' \<le> bumpMeasure s1" by (rule bumpMeasure_later)
        also have "\<dots> < bumpMeasure s" using s1(3,4) that(3) by (intro bumpMeasure_counter) auto
        finally show ?thesis .
      qed
      ultimately show ?thesis using Inr x True safe_unchanged [OF assms] by (auto simp: e)
    qed
  qed
  show "safe s (bumpStateTo cfg emit value n s)" using both by blast
  show "\<lbrakk>bumpStateTo cfg emit value n s = Inr (True, s'); currentCounter s < n\<rbrakk>
      \<Longrightarrow> bumpMeasure s' < bumpMeasure s" using both by blast
qed

lemma bumpStateForce_safe: "settled s \<Longrightarrow> safe s (bumpStateForce cfg emit v force s)"
  using bumpStateTo_safe(1) safe_unchanged by (auto simp: bumpStateForce_def)

lemma abandonBallotWith_safe: "settled s \<Longrightarrow> safe s (abandonBallotWith cfg emit n s)"
  using bumpStateTo_safe(1) bumpStateForce_safe safe_unchanged by (auto simp: abandonBallotWith_def Let_def)

lemma attemptBump_safe: "settled s \<Longrightarrow> safe s (attemptBump cfg emit s)"
  using abandonBallotWith_safe safe_unchanged by (auto simp: attemptBump_def split: option.splits)

lemma attemptBump_progress:
  assumes "settled s" "attemptBump cfg emit s = Inr (True, s')"
  shows "bumpMeasure s' < bumpMeasure s"
proof -
  obtain n where n: "bumpTarget cfg s (currentCounter s) (allCounters s) = Some n"
    "abandonBallotWith cfg emit n s = Inr (True, s')"
    using assms(2) by (auto simp: attemptBump_def split: option.splits if_splits)
  note g = bumpTarget_greater [OF n(1)]
  then have "n \<noteq> 0" by auto
  then obtain v where "bumpStateTo cfg emit v n s = Inr (True, s')"
    using n(2) by (auto simp: abandonBallotWith_def Let_def split: if_splits)
  then show ?thesis using bumpStateTo_safe(2) [OF assms(1)] g by blast
qed

lemma safe_seq:
  assumes r: "safe s r"
    and f: "\<And>d t. \<lbrakk>settled t; later cfg s t\<rbrakk> \<Longrightarrow> safe t (f d t)"
  shows "safe s (bindE r (\<lambda>(d, t). f d t))"
proof (cases r)
  case (Inl e)
  then show ?thesis using r by (simp add: safe_def)
next
  case (Inr x)
  obtain d t where x: "x = (d, t)" by fastforce
  have t: "settled t" "later cfg s t" using r Inr x by (auto simp: safe_def)
  have "mCurrentMessageLevel t = mCurrentMessageLevel s" using t(2) by (simp add: later_def)
  then show ?thesis using f [OF t, of d] later_trans [OF t(2)] Inr x by (auto simp: safe_def)
qed

definition bumpInv :: "Slot \<Rightarrow> cpp_error + (bool \<times> bool \<times> Slot) \<Rightarrow> bool" where
  "bumpInv s r \<longleftrightarrow> (case r of
     Inl e \<Rightarrow> lo \<le> mCurrentMessageLevel s \<and> mCurrentMessageLevel s < 50 \<longrightarrow> e \<noteq> NoReturn
   | Inr (didBump, didWork, t) \<Rightarrow> settled t \<and> later cfg s t)"

definition bumpRank :: "cpp_error + (bool \<times> bool \<times> Slot) \<Rightarrow> nat" where
  "bumpRank r = (case r of Inl e \<Rightarrow> 0
     | Inr (didBump, didWork, t) \<Rightarrow> if didBump then bumpMeasure t + 1 else 0)"

lemma bumpLoop_step:
  fixes r :: "cpp_error + (bool \<times> bool \<times> Slot)"
  defines "r' \<equiv> bindE r (\<lambda>(_, didWork, s). bindE (attemptBump cfg emit s) (\<lambda>(didBump, s').
      Inr (didBump, didBump \<or> didWork, s')))"
  assumes inv: "bumpInv s r" and c: "case r of Inl e \<Rightarrow> False | Inr (didBump, didWork, s) \<Rightarrow> didBump"
  shows "bumpInv s r' \<and> bumpRank r' < bumpRank r"
proof -
  obtain w t where r: "r = Inr (True, w, t)" using c by (auto split: sum.splits prod.splits)
  then have t: "settled t" "later cfg s t" using inv by (auto simp: bumpInv_def)
  have l: "mCurrentMessageLevel t = mCurrentMessageLevel s" using t(2) by (simp add: later_def)
  note a = attemptBump_safe [OF t(1)]
  show ?thesis
  proof (cases "attemptBump cfg emit t")
    case (Inl e)
    then show ?thesis using a l by (auto simp: r'_def r bumpInv_def bumpRank_def safe_def)
  next
    case (Inr x)
    obtain b t' where x: "x = (b, t')" by fastforce
    have "settled t'" "later cfg s t'" using a Inr x later_trans [OF t(2)] by (auto simp: safe_def)
    then show ?thesis using Inr x attemptBump_progress [OF t(1)]
      by (cases b) (auto simp: r'_def r bumpInv_def bumpRank_def)
  qed
qed

lemma bumpLoop_safe:
  assumes "settled s"
  shows "safe s (bumpLoop cfg emit didWork s)"
proof -
  let ?b = "\<lambda>r. case r of Inl e \<Rightarrow> False | Inr (didBump, didWork, s) \<Rightarrow> didBump"
  let ?c = "\<lambda>r. bindE r (\<lambda>(_, didWork, s). bindE (attemptBump cfg emit s) (\<lambda>(didBump, s').
      Inr (didBump, didBump \<or> didWork, s')))"
  let ?r0 = "Inr (True, didWork, s) :: cpp_error + (bool \<times> bool \<times> Slot)"
  have i0: "bumpInv s ?r0" using assms by (simp add: bumpInv_def)
  obtain r where r: "while_option ?b ?c ?r0 = Some r"
    using measure_while_option_Some [of "bumpInv s" ?b ?c bumpRank, OF bumpLoop_step i0] by blast
  have "bumpInv s r"
    by (rule while_option_rule [where P = "bumpInv s", OF _ r i0]) (use bumpLoop_step in blast)
  then show ?thesis unfolding bumpLoop_def r by (auto simp: safe_def bumpInv_def split: sum.splits)
qed

subsubsection \<open>Advancing and emitting\<close>

lemma advanceSlot_safe:
  assumes "settled s"
  shows "advanceSlot cfg emit hint s = Inr s' \<Longrightarrow> settled s' \<and> later cfg s s'"
    and "\<lbrakk>lo \<le> mCurrentMessageLevel s + 1; mCurrentMessageLevel s < 50\<rbrakk>
      \<Longrightarrow> advanceSlot cfg emit hint s \<noteq> Inl NoReturn"
proof -
  define s0 where "s0 = s\<lparr>mCurrentMessageLevel := mCurrentMessageLevel s + 1\<rparr>"
  define r where "r =
    bindE (attemptPreparedAccept cfg emit hint s0) (\<lambda>(d1, s1).
    bindE (attemptPreparedConfirmed cfg emit hint s1) (\<lambda>(d2, s2).
    bindE (attemptAcceptCommit cfg emit hint s2) (\<lambda>(d3, s3).
    bindE (attemptConfirmCommit cfg emit hint s3) (\<lambda>(d4, s4).
      if mCurrentMessageLevel s4 = 1
      then bindE (bumpLoop cfg emit (d1 \<or> d2 \<or> d3 \<or> d4) s4)
             (\<lambda>(didWork, s5). Inr (didWork, checkHeardFromQuorum cfg s5))
      else Inr (d1 \<or> d2 \<or> d3 \<or> d4, s4)))))"
  have s0: "settled s0" "mCurrentMessageLevel s0 = mCurrentMessageLevel s + 1"
    using assms by (simp_all add: s0_def settled_def)
  have r: "safe s0 r"
    unfolding r_def
    by (intro safe_seq attemptPreparedAccept_safe attemptPreparedConfirmed_safe attemptAcceptCommit_safe
        attemptConfirmCommit_safe s0(1))
      (auto intro!: safe_unchanged safe_bind_frame [OF bumpLoop_safe, where g = "\<lambda>d. d"]
        frame_checkHeardFromQuorum)
  define fin where "fin = (\<lambda>(didWork, s5). let s6 = s5\<lparr>mCurrentMessageLevel := mCurrentMessageLevel s5 - 1\<rparr>
        in if didWork then sendLatestEnvelope s6 else s6)"
  have e: "advanceSlot cfg emit hint s = (if 50 \<le> mCurrentMessageLevel s0
      then Inl (RuntimeError ''maximum number of transitions reached in advanceSlot'')
      else bindE r (\<lambda>x. Inr (fin x)))"
    by (simp add: advanceSlot_def MAX_ADVANCE_SLOT_RECURSION_def s0_def [symmetric] r_def Let_def bindE_assoc
        fin_def case_prod_unfold)
  show "advanceSlot cfg emit hint s = Inr s' \<Longrightarrow> settled s' \<and> later cfg s s'"
  proof -
    assume "advanceSlot cfg emit hint s = Inr s'"
    then obtain d t where t: "r = Inr (d, t)" "s' = fin (d, t)" unfolding e by (auto split: if_splits)
    have "settled t" "later cfg s0 t" using r t(1) by (auto simp: safe_def)
    then have f: "settled (t\<lparr>mCurrentMessageLevel := mCurrentMessageLevel t - 1\<rparr>)"
      "later cfg s (t\<lparr>mCurrentMessageLevel := mCurrentMessageLevel t - 1\<rparr>)"
      by (auto simp: s0_def settled_def later_def justified_def currentCounter_def externalized_def)
    have "frame (t\<lparr>mCurrentMessageLevel := mCurrentMessageLevel t - 1\<rparr>) s'"
      using t(2) frame_sendLatestEnvelope by (auto simp: fin_def Let_def frame_def)
    then show ?thesis using frame_settled [OF _ f(1)] later_trans [OF f(2) frame_later] by blast
  qed
  show "\<lbrakk>lo \<le> mCurrentMessageLevel s + 1; mCurrentMessageLevel s < 50\<rbrakk>
      \<Longrightarrow> advanceSlot cfg emit hint s \<noteq> Inl NoReturn"
    unfolding e using r s0(2) by (auto simp: safe_def bindE_eq_Inl)
qed

end

subsection \<open>The recursion is such an emission\<close>

lemma createStatement_returns: "createStatement cfg s \<noteq> Inl NoReturn"
  by (auto simp: createStatement_def bindE_eq_Inl checkInvariants_def ensureE_def deref_def
      split: SCPPhase.splits option.splits if_splits)

lemma isStatementSane_returns: "isStatementSane cfg st self \<noteq> Inl NoReturn"
  by (auto simp: isStatementSane_def pledgesSane_def split: option.splits SCPPledges.splits)

lemma settled_recordEnvelope [simp]: "settled (recordEnvelope env s) \<longleftrightarrow> settled s"
  by (simp add: settled_def recordEnvelope_def recordStatement_def)

lemma settled_mFullyValidated [simp]: "settled (s\<lparr>mFullyValidated := b\<rparr>) \<longleftrightarrow> settled s"
  by (simp add: settled_def)

lemma later_recordEnvelope:
  assumes "st_nodeID (env_statement env) = cfg_localNodeID cfg"
    and "mPhase s = SCP_PHASE_EXTERNALIZE \<Longrightarrow> \<exists>c n q. mCommit s = Some c \<and> env = createEnvelope cfg (SCP_ST_EXTERNALIZE c n q)"
  shows "later cfg s (recordEnvelope env s)"
  using assms
  by (auto simp: later_def recordEnvelope_def recordStatement_def currentCounter_def externalized_def ownKept_def sorted_mapPut)

lemma later_mFullyValidated [simp]: "later cfg s (t\<lparr>mFullyValidated := b\<rparr>) \<longleftrightarrow> later cfg s t"
  by (simp add: later_def currentCounter_def justified_def externalized_def)

text \<open>What \<open>processEnvelope\<close> does to the state: nothing, recording the envelope, or recording it and
  advancing.\<close>

definition recorded :: "Config \<Rightarrow> SCPEnvelope \<Rightarrow> Slot \<Rightarrow> Slot" where
  "recorded cfg env s = recordEnvelope env
     (s\<lparr>mFullyValidated := (if validateValues cfg (env_statement env) = kMaybeValidValue
                          then False else mFullyValidated s)\<rparr>)"

lemma recorded_eq:
  "recordEnvelope env (if validateValues cfg (env_statement env) = kMaybeValidValue
     then s\<lparr>mFullyValidated := False\<rparr> else s) = recorded cfg env s"
  by (simp add: recorded_def)

lemma settled_recorded [simp]: "settled (recorded cfg env s) \<longleftrightarrow> settled s"
  by (simp add: recorded_def)

lemma later_recorded:
  "\<lbrakk>st_nodeID (env_statement env) = cfg_localNodeID cfg; mPhase s \<noteq> SCP_PHASE_EXTERNALIZE\<rbrakk> \<Longrightarrow> later cfg s (recorded cfg env s)"
  unfolding recorded_def by (rule later_trans [OF _ later_recordEnvelope]) simp_all

lemma level_recorded [simp]: "mCurrentMessageLevel (recorded cfg env s) = mCurrentMessageLevel s"
  by (simp add: recorded_def recordEnvelope_def recordStatement_def)

lemma processEnvelopeWith_cases:
  assumes "processEnvelopeWith cfg adv env self s = Inr (r, s')"
  shows "s' = s \<or> s' = recordEnvelope env s
    \<or> (mPhase s \<noteq> SCP_PHASE_EXTERNALIZE \<and> adv (env_statement env) (recorded cfg env s) = Inr s')"
  using assms unfolding processEnvelopeWith_def Let_def recorded_eq by (auto split: if_splits)

lemma processEnvelopeWith_returns:
  assumes "processEnvelopeWith cfg adv env self s = Inl NoReturn"
  shows "adv (env_statement env) (recorded cfg env s) = Inl NoReturn"
  using assms isStatementSane_returns unfolding processEnvelopeWith_def Let_def recorded_eq
  by (auto simp: bindE_eq_Inl deref_def ensureE_def split: if_splits option.splits)

context emission
begin

lemma emitCurrentStateStatement_later:
  assumes "settled s" "emitCurrentStateStatement cfg (advanceSlot cfg emit) s = Inr s'"
  shows "settled s' \<and> later cfg s s'"
proof -
  obtain pl where pl: "createStatement cfg s = Inr pl"
    using assms(2) by (auto simp: emitCurrentStateStatement_def)
  let ?env = "createEnvelope cfg pl"
  have n: "st_nodeID (env_statement ?env) = cfg_localNodeID cfg" by (simp add: createEnvelope_def Let_def)
  show ?thesis
  proof (cases "map_of (mLatestEnvelopes s) (cfg_localNodeID cfg) = Some ?env")
    case True
    then show ?thesis using assms pl by (simp add: emitCurrentStateStatement_def Let_def)
  next
    case False
    then obtain s1 where p: "processEnvelopeWith cfg (advanceSlot cfg emit) ?env True s = Inr (VALID, s1)"
      and s': "s' = s1 \<or> s' = sendLatestEnvelope (s1\<lparr>mLastEnvelope := Some ?env\<rparr>)"
      using assms(2) pl by (auto simp: emitCurrentStateStatement_def Let_def split: if_splits)
    have ext: "\<exists>c n q. mCommit s = Some c \<and> ?env = createEnvelope cfg (SCP_ST_EXTERNALIZE c n q)"
      if "mPhase s = SCP_PHASE_EXTERNALIZE"
      using pl that by (auto simp: createStatement_def deref_def split: option.splits)
    have "settled s1 \<and> later cfg s s1"
      using processEnvelopeWith_cases [OF p]
    proof (elim disjE conjE)
      assume ne: "mPhase s \<noteq> SCP_PHASE_EXTERNALIZE"
      assume "advanceSlot cfg emit (env_statement ?env) (recorded cfg ?env s) = Inr s1"
      from advanceSlot_safe(1) [OF _ this] have "settled s1" "later cfg (recorded cfg ?env s) s1"
        using assms(1) by auto
      then show ?thesis using later_trans [OF later_recorded [OF n ne]] by blast
    qed (use assms(1) later_recordEnvelope [OF n ext] in auto)
    moreover have "frame s1 s'" using s' frame_sendLatestEnvelope [of "s1\<lparr>mLastEnvelope := Some ?env\<rparr>"]
      by (auto simp: frame_def)
    ultimately show ?thesis using frame_settled frame_later later_trans by blast
  qed
qed

lemma emitCurrentStateStatement_returns:
  assumes "settled s" "lo \<le> mCurrentMessageLevel s + 1" "mCurrentMessageLevel s < 50"
  shows "emitCurrentStateStatement cfg (advanceSlot cfg emit) s \<noteq> Inl NoReturn"
proof
  assume "emitCurrentStateStatement cfg (advanceSlot cfg emit) s = Inl NoReturn"
  then obtain env where "processEnvelopeWith cfg (advanceSlot cfg emit) env True s = Inl NoReturn"
    using createStatement_returns
    by (auto simp: emitCurrentStateStatement_def Let_def bindE_eq_Inl split: if_splits)
  then have "advanceSlot cfg emit (env_statement env) (recorded cfg env s) = Inl NoReturn"
    by (rule processEnvelopeWith_returns)
  then show False using advanceSlot_safe(2) [of "recorded cfg env s"] assms by simp
qed

end

lemma emission_emitF: "emission cfg (emitF cfg k) (50 - int k)"
proof (induction k)
  case 0
  show ?case by unfold_locales auto
next
  case (Suc k)
  show ?case
    by unfold_locales (use emission.emitCurrentStateStatement_later [OF Suc]
        emission.emitCurrentStateStatement_returns [OF Suc] in auto)
qed

interpretation bp: emission cfg "emitF cfg 50" 0 for cfg
  using emission_emitF [of cfg 50] by simp

end
