(* ===== verification/Ballot_Runs.thy ===== *)
theory Ballot_Runs
  imports Ballot_Safety
begin

section \<open>Runs of the ballot protocol\<close>

text \<open>
  A slot's ballot protocol as a step relation: it receives an envelope, its timer expires, the
  nomination protocol bumps the state or changes what the two protocols share. A run starts from a new slot;
  a call that throws or aborts has no successor.
\<close>

text \<open>What the nomination protocol does to the slot between two calls of the ballot protocol: it records
  statements, starts or stops, sets its composite candidate, and calls the driver, though never to
  externalize a value.\<close>

definition nominationTouch :: "Slot \<Rightarrow> Slot \<Rightarrow> bool" where
  "nominationTouch s s' \<longleftrightarrow> (\<exists>h b v evs. filter isExternalized evs = []
     \<and> s' = s\<lparr>mStatementsHistory := h, mNominationStarted := b, mLatestCompositeCandidate := v,
             mEvents := mEvents s @ evs\<rparr>)"

inductive ballotStep :: "Config \<Rightarrow> Slot \<Rightarrow> Slot \<Rightarrow> bool" for cfg where
  receive: "processEnvelope cfg env False s = Inr (r, s') \<Longrightarrow> ballotStep cfg s s'"
| timer: "ballotProtocolTimerExpired cfg s = Inr s' \<Longrightarrow> ballotStep cfg s s'"
| bump: "bumpState cfg v force s = Inr (b, s') \<Longrightarrow> ballotStep cfg s s'"
| nomination: "nominationTouch s s' \<Longrightarrow> ballotStep cfg s s'"

inductive_cases ballotStepE: "ballotStep cfg s s'"

abbreviation ballotRun :: "Config \<Rightarrow> Slot \<Rightarrow> Slot \<Rightarrow> bool" where
  "ballotRun cfg \<equiv> (ballotStep cfg)\<^sup>*\<^sup>*"

text \<open>What is left of \<^const>\<open>later\<close> when other nodes' envelopes arrive.\<close>

definition onward :: "Slot \<Rightarrow> Slot \<Rightarrow> bool" where
  "onward s s' \<longleftrightarrow>
     phaseRank (mPhase s) \<le> phaseRank (mPhase s')
     \<and> mCurrentMessageLevel s' = mCurrentMessageLevel s
     \<and> (mPhase s \<noteq> SCP_PHASE_PREPARE \<longrightarrow>
          map_option bal_value (mCommit s') = map_option bal_value (mCommit s))
     \<and> (mPhase s = SCP_PHASE_EXTERNALIZE \<longrightarrow> mCommit s' = mCommit s)
     \<and> externalized s' = externalized s @
         (if mPhase s \<noteq> SCP_PHASE_EXTERNALIZE \<and> mPhase s' = SCP_PHASE_EXTERNALIZE
          then [ValueExternalized (bal_value (the (mCommit s')))] else [])"

lemma later_onward: "later cfg s s' \<Longrightarrow> onward s s'"
  by (auto simp: later_def onward_def)

lemma onward_refl [simp]: "onward s s"
  by (simp add: onward_def)

lemma onward_trans:
  assumes "onward a b" "onward b c"
  shows "onward a c"
proof -
  note d = assms [unfolded onward_def]
  have "mPhase b \<noteq> SCP_PHASE_PREPARE" if "mPhase a \<noteq> SCP_PHASE_PREPARE"
    using d(1) that by (metis phaseRank_0 phaseRank_simps(1))
  moreover have b: "mPhase b = SCP_PHASE_EXTERNALIZE" if "mPhase a = SCP_PHASE_EXTERNALIZE"
    using d(1) that by (metis phaseRank_2_le phaseRank_simps(3))
  moreover have c: "mPhase c = SCP_PHASE_EXTERNALIZE" if "mPhase b = SCP_PHASE_EXTERNALIZE"
    using d(2) that by (metis phaseRank_2_le phaseRank_simps(3))
  moreover have "externalized c = externalized a @
      (if mPhase a \<noteq> SCP_PHASE_EXTERNALIZE \<and> mPhase c = SCP_PHASE_EXTERNALIZE
       then [ValueExternalized (bal_value (the (mCommit c)))] else [])"
    using d b c by (cases "mPhase b = SCP_PHASE_EXTERNALIZE") (auto split: if_splits)
  ultimately show ?thesis using d unfolding onward_def by auto
qed

lemma onward_recordEnvelope [simp]: "onward s (recordEnvelope env s)"
  by (simp add: onward_def recordEnvelope_def recordStatement_def externalized_def)

lemma onward_recorded [simp]: "onward s (recorded cfg env s)"
  by (simp add: onward_def recorded_def recordEnvelope_def recordStatement_def externalized_def)

lemma phase_recordEnvelope [simp]: "mPhase (recordEnvelope env s) = mPhase s"
  by (simp add: recordEnvelope_def recordStatement_def)

lemma later_justified:
  "\<lbrakk>later cfg s s'; inOrder (mLatestEnvelopes s); mPhase s \<noteq> SCP_PHASE_EXTERNALIZE; mPhase s' = SCP_PHASE_EXTERNALIZE\<rbrakk>
    \<Longrightarrow> justified cfg s'"
  by (simp add: later_def)

lemma later_inOrder: "\<lbrakk>later cfg s s'; inOrder (mLatestEnvelopes s)\<rbrakk> \<Longrightarrow> inOrder (mLatestEnvelopes s')"
  by (simp add: later_def)

lemma inOrder_recorded [simp]:
  "inOrder (mLatestEnvelopes s) \<Longrightarrow> inOrder (mLatestEnvelopes (recordEnvelope env s))"
  "inOrder (mLatestEnvelopes s) \<Longrightarrow> inOrder (mLatestEnvelopes (recorded cfg env s))"
  by (simp_all add: recorded_def recordEnvelope_def recordStatement_def sorted_mapPut)

lemma phase_recorded [simp]: "mPhase (recorded cfg env s) = mPhase s"
  by (simp add: recorded_def recordEnvelope_def recordStatement_def)

text \<open>One step, at the outermost level.\<close>

lemma processEnvelope_step:
  assumes "settled s" "processEnvelope cfg env self s = Inr (r, s')"
  shows "settled s' \<and> onward s s' \<and> (inOrder (mLatestEnvelopes s) \<longrightarrow> inOrder (mLatestEnvelopes s') \<and>
    (mPhase s \<noteq> SCP_PHASE_EXTERNALIZE \<and> mPhase s' = SCP_PHASE_EXTERNALIZE \<longrightarrow> justified cfg s'))"
  using processEnvelopeWith_cases [OF assms(2) [unfolded processEnvelope_def]]
proof (elim disjE conjE)
  assume "advanceSlot cfg (emitF cfg 50) (env_statement env) (recorded cfg env s) = Inr s'"
  from bp.advanceSlot_safe(1) [OF _ this] assms(1)
  have "settled s'" "later cfg (recorded cfg env s) s'" by auto
  then show ?thesis using onward_trans [OF onward_recorded later_onward, of cfg cfg env s s']
    using later_justified later_inOrder by auto
qed (use assms(1) in auto)

lemma processEnvelope_ends:
  assumes "settled s" "mCurrentMessageLevel s = 0"
  shows "processEnvelope cfg env self s \<noteq> Inl NoReturn"
proof
  assume "processEnvelope cfg env self s = Inl NoReturn"
  from processEnvelopeWith_returns [OF this [unfolded processEnvelope_def]]
  show False using bp.advanceSlot_safe(2) [of "recorded cfg env s"] assms by simp
qed

lemma abandonBallot_step:
  assumes "settled s" "abandonBallot cfg n s = Inr (d, s')"
  shows "settled s' \<and> later cfg s s'"
  using bp.abandonBallotWith_safe [OF assms(1)] assms(2) by (auto simp: abandonBallot_def bp.safe_def)

lemma bumpState_step:
  assumes "settled s" "bumpState cfg v force s = Inr (d, s')"
  shows "settled s' \<and> later cfg s s'"
  using bp.bumpStateForce_safe [OF assms(1)] assms(2) by (auto simp: bumpState_def bp.safe_def)

lemma ballotStep_onward:
  assumes "ballotStep cfg s s'" "settled s"
  shows "settled s' \<and> onward s s' \<and> (inOrder (mLatestEnvelopes s) \<longrightarrow> inOrder (mLatestEnvelopes s') \<and>
    (mPhase s \<noteq> SCP_PHASE_EXTERNALIZE \<and> mPhase s' = SCP_PHASE_EXTERNALIZE \<longrightarrow> justified cfg s'))"
  using assms
proof cases
  case (receive env r)
  then show ?thesis using processEnvelope_step assms(2) by blast
next
  case timer
  then obtain d where "abandonBallot cfg 0 s = Inr (d, s')" by (auto simp: ballotProtocolTimerExpired_def)
  then show ?thesis using abandonBallot_step [OF assms(2)] later_onward later_justified later_inOrder by blast
next
  case (bump v force b)
  then show ?thesis using bumpState_step [OF assms(2)] later_onward later_justified later_inOrder by blast
next
  case nomination
  then show ?thesis using assms(2) by (auto simp: nominationTouch_def settled_def onward_def externalized_def)
qed

lemma ballotRun_onward:
  "ballotRun cfg s t \<Longrightarrow> settled s \<Longrightarrow> settled t \<and> onward s t \<and> (inOrder (mLatestEnvelopes s) \<longrightarrow> inOrder (mLatestEnvelopes t))"
proof (induction rule: rtranclp_induct)
  case (step t u)
  then show ?case using ballotStep_onward onward_trans by blast
qed simp

lemma settled_newSlot [simp]: "settled (newSlot cfg)"
  by (simp add: settled_def newSlot_def)

lemma ballotRun_new:
  assumes "ballotRun cfg (newSlot cfg) s"
  shows "settled s \<and> mCurrentMessageLevel s = 0 \<and> inOrder (mLatestEnvelopes s) \<and> externalized s =
    (if mPhase s = SCP_PHASE_EXTERNALIZE then [ValueExternalized (bal_value (the (mCommit s)))] else [])"
proof -
  have "mPhase (newSlot cfg) = SCP_PHASE_PREPARE" "mCurrentMessageLevel (newSlot cfg) = 0"
    "externalized (newSlot cfg) = []" "inOrder (mLatestEnvelopes (newSlot cfg))"
    by (simp_all add: newSlot_def externalized_def)
  then show ?thesis using ballotRun_onward [OF assms settled_newSlot] by (auto simp: onward_def)
qed

subsection \<open>An example run\<close>

text \<open>Two nodes of three have externalized the same value; the third receives their statements.\<close>

definition ex_ext :: "NodeID \<Rightarrow> SCPEnvelope" where
  "ex_ext n = ex_env n (SCP_ST_EXTERNALIZE (SCPBallot 1 [1]) 1 7)"

definition ex_receive :: "SCPEnvelope \<Rightarrow> Slot \<Rightarrow> cpp_error + Slot" where
  "ex_receive env s = bindE (processEnvelope ex_cfg env False s) (\<lambda>(r, s). Inr s)"

lemma ex_receive_step: "ex_receive env s = Inr s' \<Longrightarrow> ballotStep ex_cfg s s'"
  by (auto simp: ex_receive_def intro: ballotStep.receive)

lemma ex_phases:
  "bindE (ex_receive (ex_ext 2) (newSlot ex_cfg)) (\<lambda>s. bindE (ex_receive (ex_ext 3) s) (\<lambda>t.
     Inr (mPhase s, mPhase t))) = Inr (SCP_PHASE_PREPARE, SCP_PHASE_EXTERNALIZE)"
  by code_simp

lemma ex_run:
  obtains s t where "ballotRun ex_cfg (newSlot ex_cfg) s" "ballotStep ex_cfg s t"
    "mPhase s = SCP_PHASE_PREPARE" "mPhase t = SCP_PHASE_EXTERNALIZE"
proof -
  obtain s t where "ex_receive (ex_ext 2) (newSlot ex_cfg) = Inr s" "ex_receive (ex_ext 3) s = Inr t"
    "mPhase s = SCP_PHASE_PREPARE" "mPhase t = SCP_PHASE_EXTERNALIZE"
    using ex_phases by auto
  then show ?thesis using that ex_receive_step r_into_rtranclp by metis
qed

subsection \<open>Properties\<close>

text \<open>C37. Every call into the ballot protocol ends: in a state that a run reaches, processing an
  envelope, an expired timer and a bump of the state neither exhaust the nesting of emissions (the
  limit of 50 transitions throws first) nor loop in the do-while of \<open>attemptBump\<close>.\<close>

theorem ballot_terminates:
  assumes "ballotRun cfg (newSlot cfg) s"
  shows "processEnvelope cfg env self s \<noteq> Inl NoReturn \<and> abandonBallot cfg n s \<noteq> Inl NoReturn
    \<and> bumpState cfg v force s \<noteq> Inl NoReturn"
proof -
  have s: "settled s" "mCurrentMessageLevel s = 0" using ballotRun_new [OF assms] by auto
  have "processEnvelope cfg env self s \<noteq> Inl NoReturn" by (rule processEnvelope_ends [OF s])
  moreover have "abandonBallot cfg n s \<noteq> Inl NoReturn"
    using bp.abandonBallotWith_safe [OF s(1)] s(2) by (simp add: abandonBallot_def bp.safe_def)
  moreover have "bumpState cfg v force s \<noteq> Inl NoReturn"
    using bp.bumpStateForce_safe [OF s(1)] s(2) by (simp add: bumpState_def bp.safe_def)
  ultimately show ?thesis by blast
qed

theorem ballot_terminates_witness:
  "\<exists>s. mPhase s = SCP_PHASE_PREPARE \<and> processEnvelope ex_cfg (ex_ext 3) False s \<noteq> Inl NoReturn"
  using ex_run ballot_terminates by metis

text \<open>C35. A node never changes its mind: once it has accepted a commit (the confirm phase or later), no
  sequence of envelopes, timeouts and bumps changes the committed value or leads back to the prepare
  phase.\<close>

theorem commit_value_stable:
  assumes "ballotRun cfg (newSlot cfg) s" and "ballotRun cfg s t" and "mPhase s \<noteq> SCP_PHASE_PREPARE"
  shows "mPhase t \<noteq> SCP_PHASE_PREPARE \<and> (\<exists>c c'. mCommit s = Some c \<and> mCommit t = Some c' \<and> bal_value c' = bal_value c)"
proof -
  have s: "settled s" using ballotRun_new [OF assms(1)] by blast
  then have o: "onward s t" using ballotRun_onward [OF assms(2)] by blast
  moreover obtain c where "mCommit s = Some c" using s assms(3) by (auto simp: settled_def)
  ultimately show ?thesis using assms(3) phaseRank_0 [of "mPhase s"]
    by (auto simp: onward_def)
qed

theorem commit_value_stable_witness:
  "\<exists>s t c c'. mPhase s = SCP_PHASE_EXTERNALIZE \<and> ballotStep ex_cfg s t \<and> mCommit s = Some c \<and> mCommit t = Some c'
     \<and> bal_value c' = bal_value c \<and> mPhase t \<noteq> SCP_PHASE_PREPARE"
proof -
  obtain s t where r: "ballotRun ex_cfg (newSlot ex_cfg) s" "ballotStep ex_cfg s t"
    "mPhase t = SCP_PHASE_EXTERNALIZE" using ex_run by blast
  let ?u = "t\<lparr>mLatestCompositeCandidate := [2]\<rparr>"
  have "nominationTouch t ?u" unfolding nominationTouch_def
    by (intro exI [of _ "mStatementsHistory t"] exI [of _ "mNominationStarted t"] exI [of _ "[2]"]
        exI [of _ "[] :: Event list"]) simp
  then have c: "ballotStep ex_cfg t ?u" by (rule ballotStep.nomination)
  have "mPhase ?u \<noteq> SCP_PHASE_PREPARE \<and> (\<exists>c c'. mCommit t = Some c \<and> mCommit ?u = Some c' \<and> bal_value c' = bal_value c)"
    by (rule commit_value_stable [of ex_cfg t]) (use r c in auto)
  then show ?thesis using r(3) c by blast
qed

text \<open>A slot externalizes at most once, and exactly when it is in the externalize phase: the value
  handed to the application is the committed one, and later events do not repeat or contradict it.\<close>

theorem externalized_once:
  assumes "ballotRun cfg (newSlot cfg) s"
  shows "filter isExternalized (mEvents s) =
    (if mPhase s = SCP_PHASE_EXTERNALIZE then [ValueExternalized (bal_value (the (mCommit s)))] else [])"
  using ballotRun_new [OF assms] by (simp add: externalized_def)

theorem externalized_once_witness:
  "\<exists>s :: Slot. mPhase s = SCP_PHASE_EXTERNALIZE \<and>
     filter isExternalized (mEvents s) = [ValueExternalized (bal_value (the (mCommit s)))]"
proof -
  obtain s t where r: "ballotRun ex_cfg (newSlot ex_cfg) s" "ballotStep ex_cfg s t"
    "mPhase t = SCP_PHASE_EXTERNALIZE" using ex_run by blast
  then have "ballotRun ex_cfg (newSlot ex_cfg) t" by auto
  from externalized_once [OF this] r(3) show ?thesis by (intro exI [of _ t]) simp
qed

text \<open>C36. A value is externalized only on a quorum: after the step that enters the externalize phase the
  envelopes the slot holds, one of each node and the node's own among them, contain a quorum that
  ratifies the commit of c up to h. That is, there is a set of nodes with a slice of the local quorum set and a
  slice of the quorum set of each of its members, and the latest statement of every member confirms the
  commit of c over the whole interval.\<close>

theorem externalize_needs_quorum:
  assumes "ballotRun cfg (newSlot cfg) s" and "ballotStep cfg s t"
    and "mPhase s \<noteq> SCP_PHASE_EXTERNALIZE" and "mPhase t = SCP_PHASE_EXTERNALIZE"
  shows "distinct (map fst (mLatestEnvelopes t)) \<and>
    (\<exists>c h U. mCommit t = Some c \<and> mHighBallot t = Some h \<and> isQuorumSlice (cfg_qSet cfg) U
     \<and> (\<forall>n \<in> set U. \<exists>e q. map_of (mLatestEnvelopes t) n = Some e
          \<and> commitPredicate c (bal_counter c, bal_counter h) (env_statement e)
          \<and> getQuorumSetFromStatement cfg (env_statement e) = Some q \<and> isQuorumSlice q U))"
proof -
  from ballotStep_onward [OF assms(2)] ballotRun_new [OF assms(1)] assms(3,4) have "justified cfg t" by blast
  then obtain c h where j: "inOrder (mLatestEnvelopes t)" "mCommit t = Some c" "mHighBallot t = Some h"
    "federatedRatify cfg (commitPredicate c (bal_counter c, bal_counter h)) (mLatestEnvelopes t)"
    by (auto simp: justified_def)
  from federatedRatify_quorum [OF j(4,1)] show ?thesis using j(1-3) strict_sorted_iff by blast
qed

theorem externalize_needs_quorum_witness:
  "\<exists>(t :: Slot) c h U. mPhase t = SCP_PHASE_EXTERNALIZE \<and> mCommit t = Some c \<and> mHighBallot t = Some h
    \<and> isQuorumSlice (cfg_qSet ex_cfg) U
    \<and> (\<forall>n \<in> set U. \<exists>e. map_of (mLatestEnvelopes t) n = Some e
         \<and> commitPredicate c (bal_counter c, bal_counter h) (env_statement e))"
proof -
  obtain s t where r: "ballotRun ex_cfg (newSlot ex_cfg) s" "ballotStep ex_cfg s t"
    "mPhase s = SCP_PHASE_PREPARE" "mPhase t = SCP_PHASE_EXTERNALIZE" using ex_run by blast
  have "mPhase s \<noteq> SCP_PHASE_EXTERNALIZE" using r(3) by simp
  from externalize_needs_quorum [OF r(1,2) this r(4)] show ?thesis using r(4) by meson
qed

definition intervalSpec :: "u32 list \<Rightarrow> (Interval \<Rightarrow> bool) \<Rightarrow> Interval" where
  "intervalSpec bs pred = (case dropWhile (\<lambda>b. \<not> pred (b, b)) bs of
     [] \<Rightarrow> (0, 0)
   | h # rest \<Rightarrow> (last (h # takeWhile (\<lambda>b. pred (b, h)) rest), h))"

lemma findExtendedInterval_down:
  "\<lbrakk>0 \<notin> set bs; \<forall>b \<in> set bs. b \<le> h; lo \<noteq> 0\<rbrakk> \<Longrightarrow>
     findExtendedInterval (lo, h) bs pred = (last (lo # takeWhile (\<lambda>b. pred (b, h)) bs), h)"
  by (induction bs arbitrary: lo) (auto simp: Let_def)

lemma findExtendedInterval_spec:
  "\<lbrakk>sorted_wrt (\<ge>) bs; 0 \<notin> set bs\<rbrakk> \<Longrightarrow> findExtendedInterval (0, 0) bs pred = intervalSpec bs pred"
proof (induction bs)
  case (Cons b bs)
  then show ?case using findExtendedInterval_down [of bs b b pred]
    by (auto simp: intervalSpec_def Let_def)
qed (simp add: intervalSpec_def)

text \<open>The scan for a commit interval equals its specification: over boundaries in descending order
  it takes as high bound the greatest one that can be committed by itself, and as low bound the
  last of the following boundaries down to which the predicate holds without a gap.\<close>

theorem findExtendedInterval_correct:
  assumes "sorted_wrt (\<ge>) bs" and "0 \<notin> set bs"
  shows "findExtendedInterval (0, 0) bs pred = intervalSpec bs pred"
  by (rule findExtendedInterval_spec [OF assms])

theorem findExtendedInterval_correct_witness:
  "findExtendedInterval (0, 0) [9, 7, 4, 3, 1] (\<lambda>(lo, hi). hi \<le> 7 \<and> 3 \<le> lo) = (3, 7)"
proof -
  have "intervalSpec [9, 7, 4, 3, 1] (\<lambda>(lo, hi). hi \<le> 7 \<and> 3 \<le> lo) = (3, 7)" by code_simp
  then show ?thesis
    using findExtendedInterval_correct [of "[9, 7, 4, 3, 1]" "\<lambda>(lo, hi). hi \<le> 7 \<and> 3 \<le> lo"] by simp
qed

subsection \<open>Following the others, and a node that lags behind\<close>

lemma sorted_insort_fold:
  "sorted acc \<Longrightarrow> sorted (fold (\<lambda>(n, e). insort_insert (f e)) m acc)
     \<and> set (fold (\<lambda>(n, e). insort_insert (f e)) m acc) = set acc \<union> f ` snd ` set m"
proof (induction m arbitrary: acc)
  case (Cons p m)
  show ?case using Cons.IH [of "insort_insert (f (snd p)) acc"] Cons.prems
    by (simp add: sorted_insort_insert set_insort_insert case_prod_unfold)
qed simp

lemma allCounters_spec:
  "sorted (allCounters s) \<and> set (allCounters s) =
     insert (currentCounter s) ((\<lambda>e. statementCounter (st_pledges (env_statement e))) ` snd ` set (mLatestEnvelopes s))"
  using sorted_insort_fold [of "[]" "\<lambda>e. statementCounter (st_pledges (env_statement e))" "mLatestEnvelopes s"]
  by (simp add: allCounters_def sorted_insort_insert set_insort_insert)

lemma bumpTarget_laggard:
  "\<lbrakk>sorted ns; \<exists>n \<in> set ns. n < t\<rbrakk> \<Longrightarrow> bumpTarget cfg s t ns = None"
  by (cases ns) auto

text \<open>The counters a blocking set is ahead of.\<close>

definition overtaken :: "Config \<Rightarrow> Slot \<Rightarrow> u32 \<Rightarrow> bool" where
  "overtaken cfg s n = isVBlockingMap (cfg_qSet cfg) (mLatestEnvelopes s) (aheadOf n \<circ> env_statement)"

lemma bumpTarget_find:
  "\<forall>n \<in> set ns. t < n \<Longrightarrow> bumpTarget cfg s t ns = find (\<lambda>n. \<not> overtaken cfg s n) ns"
  by (induction ns) (auto simp: overtaken_def Let_def)

text \<open>C38. One node that lags behind disables the catching up: as soon as some node's latest statement
  has a counter below the local one, \<open>attemptBump\<close> does nothing, even when a v-blocking set is at
  higher counters. The scan runs upwards from the smallest counter and its first test leaves the
  loop.\<close>

theorem attemptBump_laggard:
  assumes "(n, e) \<in> set (mLatestEnvelopes s)"
    and "statementCounter (st_pledges (env_statement e)) < currentCounter s"
  shows "attemptBump cfg emit s = Inr (False, s)"
proof -
  have "statementCounter (st_pledges (env_statement e)) \<in> set (allCounters s)"
    using assms(1) allCounters_spec [of s] by force
  then have "bumpTarget cfg s (currentCounter s) (allCounters s) = None"
    using bumpTarget_laggard [OF conjunct1 [OF allCounters_spec]] assms(2) by blast
  then show ?thesis by (simp add: attemptBump_def)
qed

text \<open>Node 1 is at counter 2, nodes 2 and 3, which block its quorum set of two out of three, are at 5;
  a fourth node it once heard from is at 1.\<close>

definition ex_behind :: "(NodeID \<times> SCPEnvelope) list \<Rightarrow> Slot" where
  "ex_behind others = (newSlot ex_cfg)\<lparr>mCurrentBallot := Some (SCPBallot 2 [1]),
     mLatestEnvelopes := [(1, ex_env 1 (ex_prepare 2)), (2, ex_env 2 (ex_prepare 5)), (3, ex_env 3 (ex_prepare 5))]
       @ others\<rparr>"

theorem attemptBump_laggard_witness:
  "overtaken ex_cfg (ex_behind [(4, ex_env 4 (ex_prepare 1))]) 2
    \<and> attemptBump ex_cfg (emitF ex_cfg 50) (ex_behind [(4, ex_env 4 (ex_prepare 1))])
        = Inr (False, ex_behind [(4, ex_env 4 (ex_prepare 1))])
    \<and> bumpTarget ex_cfg (ex_behind []) 2 (allCounters (ex_behind [])) = Some 5"
proof -
  have "attemptBump ex_cfg (emitF ex_cfg 50) (ex_behind [(4, ex_env 4 (ex_prepare 1))])
        = Inr (False, ex_behind [(4, ex_env 4 (ex_prepare 1))])"
    by (rule attemptBump_laggard [of 4 "ex_env 4 (ex_prepare 1)"])
      (simp_all add: ex_behind_def ex_env_def ex_prepare_def statementCounter_def currentCounter_def)
  moreover have "overtaken ex_cfg (ex_behind [(4, ex_env 4 (ex_prepare 1))]) 2" by code_simp
  moreover have "bumpTarget ex_cfg (ex_behind []) 2 (allCounters (ex_behind [])) = Some 5" by code_simp
  ultimately show ?thesis by blast
qed

text \<open>Without such a node the scan is the intended one: the least counter above the local one that no
  blocking set is ahead of, provided a blocking set is ahead of the local one.\<close>

lemma attemptBump_target:
  assumes "\<forall>(n, e) \<in> set (mLatestEnvelopes s). currentCounter s \<le> statementCounter (st_pledges (env_statement e))"
    and "distinct (allCounters s)"
  shows "bumpTarget cfg s (currentCounter s) (allCounters s) =
    (if overtaken cfg s (currentCounter s)
     then find (\<lambda>n. \<not> overtaken cfg s n) (filter (\<lambda>n. currentCounter s < n) (allCounters s)) else None)"
proof -
  note a = allCounters_spec [of s]
  obtain n ns where ns: "allCounters s = n # ns" using a by (cases "allCounters s") auto
  have le: "\<forall>m \<in> set (allCounters s). currentCounter s \<le> m" using a assms(1) by fastforce
  moreover have "currentCounter s \<in> set (allCounters s)" "\<forall>m \<in> set ns. n \<le> m" using a ns by auto
  ultimately have n: "n = currentCounter s" using ns by (metis list.set_intros(1) order_antisym set_ConsD)
  have gt: "\<forall>m \<in> set ns. currentCounter s < m" using le assms(2) ns n by (auto simp: less_le)
  then have "filter (\<lambda>m. currentCounter s < m) (allCounters s) = ns" using gt by (simp add: ns n filter_id_conv)
  then show ?thesis using bumpTarget_find [OF gt, of cfg s] by (simp add: ns n Let_def overtaken_def)
qed

text \<open>Of two values that do not pass, the later in the set's order decides: a value that may be valid
  hides an invalid one.\<close>

lemma validateValues_masks_invalid:
  "\<lbrakk>cfg_validateValue cfg v False = kInvalidValue; cfg_validateValue cfg w False = kMaybeValidValue; v < w\<rbrakk> \<Longrightarrow>
     validateValues cfg \<lparr>st_nodeID = n, st_slotIndex = i,
       st_pledges = SCP_ST_PREPARE h (SCPBallot 1 v) (Some (SCPBallot 1 w)) None 0 0\<rparr> = kMaybeValidValue"
  by (auto simp: validateValues_def statementValues_def insort_insert_key_def Let_def)

end
