(* ===== verification/Nomination.thy ===== *)
theory Nomination
  imports Ballot_Runs
begin

section \<open>The nomination protocol (src/src/scp/NominationProtocol.cpp)\<close>

text \<open>
  The members of \<^verbatim>\<open>NominationProtocol\<close> are the record \<open>Nomination\<close>, but for \<^verbatim>\<open>mNominationStarted\<close>
  and \<^verbatim>\<open>mLatestCompositeCandidate\<close>, which the ballot protocol uses too and which are in \<^typ>\<open>Slot\<close>. The
  operations work on the pair of the two. The order is that of the file. Sets and maps are lists in
  their order. The round number is an \<^verbatim>\<open>int32\<close> that starts at 0 and is incremented once per round;
  its range is not modelled.

  Emitting a nomination feeds it back to \<open>processEnvelope\<close>, which may emit again. The code sets no bound on
  the depth: the operations take one as the argument \<open>k\<close>, and yield \<^const>\<open>NoReturn\<close> when it is hit.
\<close>

record Nomination =
  mRoundNumber :: int
  mVotes :: "Value list"
  mAccepted :: "Value list"
  mCandidates :: "Value list"
  mLatestNominations :: "(NodeID \<times> SCPEnvelope) list"
  mNomLastEnvelope :: "SCPEnvelope option"
  mRoundLeaders :: "NodeID list"
  mPreviousValue :: Value

type_synonym NomState = "Nomination \<times> Slot"

definition newNomination :: Nomination where
  "newNomination = \<lparr>mRoundNumber = 0, mVotes = [], mAccepted = [], mCandidates = [], mLatestNominations = [],
     mNomLastEnvelope = None, mRoundLeaders = [], mPreviousValue = []\<rparr>"

subsection \<open>Nomination statements\<close>

text \<open>\<^verbatim>\<open>std::includes\<close> on two ranges: is every element of the second one in the first, for sorted
  ranges.\<close>

fun includesRange :: "Value list \<Rightarrow> Value list \<Rightarrow> bool" where
  "includesRange xs [] = True"
| "includesRange [] (y # ys) = False"
| "includesRange (x # xs) (y # ys) =
     (if y < x then False else if x < y then includesRange xs (y # ys) else includesRange xs ys)"

text \<open>The result and the value of the reference argument \<^verbatim>\<open>notEqual\<close>.\<close>

definition isSubsetHelper :: "Value list \<Rightarrow> Value list \<Rightarrow> bool \<times> bool" where
  "isSubsetHelper p v =
     (if length p \<le> length v
      then (let res = includesRange v p in (res, if res then length p \<noteq> length v else True))
      else (False, True))"

definition isNewerNomination :: "SCPPledges \<Rightarrow> SCPPledges \<Rightarrow> bool" where
  "isNewerNomination oldst st =
     (let (sub, g) = isSubsetHelper (nom_votes oldst) (nom_votes st) in
      if sub then
        (let (sub', g') = isSubsetHelper (nom_accepted oldst) (nom_accepted st) in sub' \<and> (g \<or> g'))
      else False)"

definition isNewerNominationFrom :: "Nomination \<Rightarrow> NodeID \<Rightarrow> SCPPledges \<Rightarrow> bool" where
  "isNewerNominationFrom n nodeID st = (case map_of (mLatestNominations n) nodeID of
     None \<Rightarrow> True
   | Some old \<Rightarrow> isNewerNomination (st_pledges (env_statement old)) st)"

text \<open>\<^verbatim>\<open>adjacent_find\<close> with the negated order finds nothing.\<close>

fun strictlyIncreasing :: "Value list \<Rightarrow> bool" where
  "strictlyIncreasing (x # y # xs) \<longleftrightarrow> x < y \<and> strictlyIncreasing (y # xs)"
| "strictlyIncreasing _ \<longleftrightarrow> True"

definition isSaneNomination :: "SCPPledges \<Rightarrow> bool" where
  "isSaneNomination nom \<longleftrightarrow> length (nom_votes nom) + length (nom_accepted nom) \<noteq> 0
     \<and> strictlyIncreasing (nom_votes nom) \<and> strictlyIncreasing (nom_accepted nom)"

definition recordNomination :: "SCPEnvelope \<Rightarrow> NomState \<Rightarrow> NomState" where
  "recordNomination env ns = (case ns of (n, s) \<Rightarrow>
     (n\<lparr>mLatestNominations := mapPut (st_nodeID (env_statement env)) env (mLatestNominations n)\<rparr>,
      recordStatement (env_statement env) s))"

definition acceptPredicate :: "Value \<Rightarrow> SCPStatement \<Rightarrow> bool" where
  "acceptPredicate v st \<longleftrightarrow> v \<in> set (nom_accepted (st_pledges st))"

text \<open>The predicate on votes that \<^verbatim>\<open>processEnvelope\<close> writes as a lambda.\<close>

definition votePredicate :: "Value \<Rightarrow> SCPStatement \<Rightarrow> bool" where
  "votePredicate v st \<longleftrightarrow> v \<in> set (nom_votes (st_pledges st))"

text \<open>The order in which \<^verbatim>\<open>applyAll\<close> visits the values of a nomination.\<close>

definition nominationValues :: "SCPPledges \<Rightarrow> Value list" where
  "nominationValues nom = nom_votes nom @ nom_accepted nom"

subsection \<open>The leaders of a round\<close>

definition hashNode :: "Config \<Rightarrow> Nomination \<Rightarrow> bool \<Rightarrow> NodeID \<Rightarrow> cpp_error + u64" where
  "hashNode cfg n isPriority nodeID =
     bindE (ensureE (mPreviousValue n \<noteq> []) AssertionFailed) (\<lambda>_.
       Inr (cfg_computeHashNode cfg (mPreviousValue n) isPriority (mRoundNumber n) nodeID))"

definition hashValue :: "Config \<Rightarrow> Nomination \<Rightarrow> Value \<Rightarrow> cpp_error + u64" where
  "hashValue cfg n value =
     bindE (ensureE (mPreviousValue n \<noteq> []) AssertionFailed) (\<lambda>_.
       Inr (cfg_computeValueHash cfg (mPreviousValue n) (mRoundNumber n) value))"

definition getNodePriority :: "Config \<Rightarrow> Nomination \<Rightarrow> NodeID \<Rightarrow> SCPQuorumSet \<Rightarrow> cpp_error + u64" where
  "getNodePriority cfg n nodeID qset =
     bindE (if nodeID = cfg_localNodeID cfg then Inr (- 1) else getNodeWeight nodeID qset) (\<lambda>w.
     bindE (hashNode cfg n False nodeID) (\<lambda>h.
     if h < w then hashNode cfg n True nodeID else Inr 0))"

text \<open>One node of the loop over the quorum set; the state is the top priority and the leaders.\<close>

definition raiseLeader :: "NodeID \<Rightarrow> u64 \<Rightarrow> u64 \<times> NodeID list \<Rightarrow> u64 \<times> NodeID list" where
  "raiseLeader cur w acc = (case acc of (topPriority, leaders) \<Rightarrow>
     let (topPriority, leaders) = (if topPriority < w then (w, []) else (topPriority, leaders))
     in if w = topPriority \<and> 0 < w then (topPriority, insort_insert cur leaders)
        else (topPriority, leaders))"

fun leadersLoop :: "(NodeID \<Rightarrow> cpp_error + u64) \<Rightarrow> NodeID list \<Rightarrow> u64 \<times> NodeID list
    \<Rightarrow> cpp_error + u64 \<times> NodeID list" where
  "leadersLoop priority [] acc = Inr acc"
| "leadersLoop priority (cur # rest) acc =
     bindE (priority cur) (\<lambda>w. leadersLoop priority rest (raiseLeader cur w acc))"

definition updateRoundLeaders :: "Config \<Rightarrow> Nomination \<Rightarrow> cpp_error + Nomination" where
  "updateRoundLeaders cfg n =
     (let localID = cfg_localNodeID cfg;
          myQSet = normalizeQSet (cfg_qSet cfg) (Some localID)
      in bindE (getNodePriority cfg n localID myQSet) (\<lambda>topPriority.
         bindE (leadersLoop (\<lambda>cur. getNodePriority cfg n cur myQSet) (forAllNodes myQSet)
           (topPriority, [localID])) (\<lambda>(topPriority, leaders).
         Inr (n\<lparr>mRoundLeaders := leaders\<rparr>))))"

subsection \<open>Votes taken from a leader\<close>

definition valueToNominate :: "Config \<Rightarrow> Value \<Rightarrow> Value" where
  "valueToNominate cfg value =
     (if cfg_validateValue cfg value True = kFullyValidatedValue then value
      else cfg_extractValidValue cfg value)"

fun newVoteLoop :: "Config \<Rightarrow> Nomination \<Rightarrow> Value list \<Rightarrow> u64 \<times> Value \<Rightarrow> cpp_error + Value" where
  "newVoteLoop cfg n [] (newHash, newVote) = Inr newVote"
| "newVoteLoop cfg n (value # rest) (newHash, newVote) =
     (let v = valueToNominate cfg value in
      if v \<noteq> [] \<and> v \<notin> set (mVotes n)
      then bindE (hashValue cfg n v) (\<lambda>curHash.
        newVoteLoop cfg n rest (if newHash \<le> curHash then (curHash, v) else (newHash, newVote)))
      else newVoteLoop cfg n rest (newHash, newVote))"

definition getNewValueFromNomination :: "Config \<Rightarrow> Nomination \<Rightarrow> SCPPledges \<Rightarrow> cpp_error + Value" where
  "getNewValueFromNomination cfg n nom = newVoteLoop cfg n (nominationValues nom) (0, [])"

subsection \<open>Processing an envelope\<close>

text \<open>The promotion of one vote to an accepted value; the flag is \<^verbatim>\<open>modified\<close>.\<close>

definition promoteVote :: "Config \<Rightarrow> Value \<Rightarrow> bool \<times> Nomination \<Rightarrow> bool \<times> Nomination" where
  "promoteVote cfg v mn = (case mn of (modified, n) \<Rightarrow>
     if v \<in> set (mAccepted n) then (modified, n)
     else if federatedAccept cfg (votePredicate v) (acceptPredicate v) (mLatestNominations n) then
       (if cfg_validateValue cfg v True = kFullyValidatedValue
        then (True, n\<lparr>mAccepted := insort_insert v (mAccepted n), mVotes := insort_insert v (mVotes n)\<rparr>)
        else let toVote = cfg_extractValidValue cfg v in
          if toVote \<noteq> [] \<and> toVote \<notin> set (mVotes n)
          then (True, n\<lparr>mVotes := insort_insert toVote (mVotes n)\<rparr>) else (modified, n))
     else (modified, n))"

definition promoteVotes :: "Config \<Rightarrow> Value list \<Rightarrow> Nomination \<Rightarrow> bool \<times> Nomination" where
  "promoteVotes cfg vs n = fold (promoteVote cfg) vs (False, n)"

text \<open>The promotion of one accepted value to a candidate; the flag is \<^verbatim>\<open>newCandidates\<close>.\<close>

definition promoteAccepted :: "Config \<Rightarrow> Value \<Rightarrow> bool \<times> Nomination \<Rightarrow> bool \<times> Nomination" where
  "promoteAccepted cfg a mn = (case mn of (newCandidates, n) \<Rightarrow>
     if a \<in> set (mCandidates n) then (newCandidates, n)
     else if federatedRatify cfg (acceptPredicate a) (mLatestNominations n)
     then (True, n\<lparr>mCandidates := insort_insert a (mCandidates n)\<rparr>)
     else (newCandidates, n))"

definition promoteCandidates :: "Config \<Rightarrow> Nomination \<Rightarrow> bool \<times> Nomination" where
  "promoteCandidates cfg n = fold (promoteAccepted cfg) (mAccepted n) (False, n)"

text \<open>The vote taken from the sender when it leads the round.\<close>

definition followLeader :: "Config \<Rightarrow> SCPStatement \<Rightarrow> bool \<times> NomState \<Rightarrow> cpp_error + bool \<times> NomState" where
  "followLeader cfg st mns = (case mns of (modified, n, s) \<Rightarrow>
     if mCandidates n = [] \<and> st_nodeID st \<in> set (mRoundLeaders n) then
       bindE (getNewValueFromNomination cfg n (st_pledges st)) (\<lambda>newVote.
       if newVote \<noteq> []
       then Inr (True, n\<lparr>mVotes := insort_insert newVote (mVotes n)\<rparr>, log (NominatingValue newVote) s)
       else Inr (modified, n, s))
     else Inr (modified, n, s))"

text \<open>The new composite candidate, handed to the driver and to the ballot protocol.\<close>

definition updateComposite :: "Config \<Rightarrow> NomState \<Rightarrow> cpp_error + NomState" where
  "updateComposite cfg ns = (case ns of (n, s) \<Rightarrow>
     let v = cfg_combineCandidates cfg (mCandidates n);
         s1 = log (UpdatedCandidateValue v) (s\<lparr>mLatestCompositeCandidate := v\<rparr>)
     in bindE (bumpState cfg v False s1) (\<lambda>(_, s2). Inr (n, s2)))"

type_synonym nomEmitter = "NomState \<Rightarrow> cpp_error + NomState"

definition processNominationWith :: "Config \<Rightarrow> nomEmitter \<Rightarrow> SCPEnvelope \<Rightarrow> NomState
    \<Rightarrow> cpp_error + EnvelopeState \<times> NomState" where
  "processNominationWith cfg emit envelope ns =
     (let st = env_statement envelope; nom = st_pledges st in
      if \<not> isNewerNominationFrom (fst ns) (st_nodeID st) nom then Inr (INVALID, ns)
      else if \<not> isSaneNomination nom then Inr (INVALID, ns)
      else case recordNomination envelope ns of (n, s) \<Rightarrow>
        if mNominationStarted s then
          (case promoteVotes cfg (nom_votes nom) n of (modified, n1) \<Rightarrow>
           case promoteCandidates cfg n1 of (newCandidates, n2) \<Rightarrow>
           bindE (followLeader cfg st (modified, n2, s)) (\<lambda>(modified, ns3).
           bindE (if modified then emit ns3 else Inr ns3) (\<lambda>ns4.
           bindE (if newCandidates then updateComposite cfg ns4 else Inr ns4) (\<lambda>ns5.
             Inr (VALID, ns5)))))
        else Inr (VALID, n, s))"

text \<open>\<^verbatim>\<open>emitNomination\<close>, with \<open>process\<close> for \<^verbatim>\<open>mSlot.processEnvelope\<close>.\<close>

definition badNomination :: cpp_error where
  "badNomination = RuntimeError ''moved to a bad state (nomination)''"

definition nominationPledges :: "Config \<Rightarrow> Nomination \<Rightarrow> SCPPledges" where
  "nominationPledges cfg n = SCP_ST_NOMINATE (cfg_qSetHash cfg) (mVotes n) (mAccepted n)"

definition keepLastNomination :: "SCPEnvelope \<Rightarrow> NomState \<Rightarrow> NomState" where
  "keepLastNomination envelope ns = (case ns of (n, s) \<Rightarrow>
     if (case mNomLastEnvelope n of None \<Rightarrow> True
         | Some l \<Rightarrow> isNewerNomination (st_pledges (env_statement l)) (st_pledges (env_statement envelope)))
     then (n\<lparr>mNomLastEnvelope := Some envelope\<rparr>,
           if mFullyValidated s then log (EmitEnvelope envelope) s else s)
     else (n, s))"

definition emitNominationWith :: "Config \<Rightarrow> (SCPEnvelope \<Rightarrow> NomState \<Rightarrow> cpp_error + EnvelopeState \<times> NomState)
    \<Rightarrow> nomEmitter" where
  "emitNominationWith cfg process ns =
     (let envelope = createEnvelope cfg (nominationPledges cfg (fst ns)) in
      bindE (process envelope ns) (\<lambda>(res, ns1).
      if res = VALID then Inr (keepLastNomination envelope ns1) else Inl badNomination))"

primrec processNominationF :: "Config \<Rightarrow> nat \<Rightarrow> SCPEnvelope \<Rightarrow> NomState \<Rightarrow> cpp_error + EnvelopeState \<times> NomState" where
  "processNominationF cfg 0 envelope ns = Inl NoReturn"
| "processNominationF cfg (Suc k) envelope ns =
     processNominationWith cfg (emitNominationWith cfg (processNominationF cfg k)) envelope ns"

abbreviation emitNomination :: "Config \<Rightarrow> nat \<Rightarrow> nomEmitter" where
  "emitNomination cfg k \<equiv> emitNominationWith cfg (processNominationF cfg k)"

subsection \<open>Nominating\<close>

text \<open>The votes taken from the leaders already heard from; the result carries \<^verbatim>\<open>updated\<close> and the last
  \<^verbatim>\<open>nominatingValue\<close>.\<close>

fun followLeaders :: "Config \<Rightarrow> NodeID list \<Rightarrow> bool \<times> Value \<times> Nomination \<Rightarrow> cpp_error + bool \<times> Value \<times> Nomination" where
  "followLeaders cfg [] r = Inr r"
| "followLeaders cfg (leader # rest) (updated, nominating, n) =
     (case map_of (mLatestNominations n) leader of
        None \<Rightarrow> followLeaders cfg rest (updated, nominating, n)
      | Some env \<Rightarrow>
          bindE (getNewValueFromNomination cfg n (st_pledges (env_statement env))) (\<lambda>v.
          followLeaders cfg rest
            (if v \<noteq> [] then (True, v, n\<lparr>mVotes := insort_insert v (mVotes n)\<rparr>) else (updated, v, n))))"

definition startRound :: "Config \<Rightarrow> Value \<Rightarrow> Value \<Rightarrow> Nomination \<Rightarrow> cpp_error + bool \<times> Value \<times> Nomination" where
  "startRound cfg value previousValue n =
     bindE (updateRoundLeaders cfg (n\<lparr>mPreviousValue := previousValue, mRoundNumber := mRoundNumber n + 1\<rparr>)) (\<lambda>n1.
     if cfg_localNodeID cfg \<in> set (mRoundLeaders n1)
     then Inr (value \<notin> set (mVotes n1), value, n1\<lparr>mVotes := insort_insert value (mVotes n1)\<rparr>)
     else followLeaders cfg (mRoundLeaders n1) (False, [], n1))"

definition nominate :: "Config \<Rightarrow> nat \<Rightarrow> Value \<Rightarrow> Value \<Rightarrow> bool \<Rightarrow> NomState \<Rightarrow> cpp_error + bool \<times> NomState" where
  "nominate cfg k value previousValue timedout ns = (case ns of (n, s) \<Rightarrow>
     if timedout \<and> \<not> mNominationStarted s then Inr (False, ns)
     else
       bindE (startRound cfg value previousValue n) (\<lambda>(updated, nominating, n1).
       let s1 = log (SetupTimer NOMINATION_TIMER (computeTimeout (mRoundNumber n1)))
             (log (NominatingValue nominating) (s\<lparr>mNominationStarted := True\<rparr>))
       in if updated then bindE (emitNomination cfg k (n1, s1)) (\<lambda>ns2. Inr (True, ns2))
          else Inr (False, n1, s1)))"

definition stopNomination :: "NomState \<Rightarrow> NomState" where
  "stopNomination ns = (case ns of (n, s) \<Rightarrow> (n, s\<lparr>mNominationStarted := False\<rparr>))"

subsection \<open>Restoring and reading the state\<close>

definition setNominationFromEnvelope :: "SCPEnvelope \<Rightarrow> NomState \<Rightarrow> cpp_error + NomState" where
  "setNominationFromEnvelope e ns =
     (if mNominationStarted (snd ns)
      then Inl (RuntimeError ''Cannot set state after nomination is started'')
      else case recordNomination e ns of (n, s) \<Rightarrow>
        let nom = st_pledges (env_statement e) in
        Inr (n\<lparr>mAccepted := fold insort_insert (nom_accepted nom) (mAccepted n),
               mVotes := fold insort_insert (nom_votes nom) (mVotes n),
               mNomLastEnvelope := Some e\<rparr>, s))"

definition getNominationState :: "Config \<Rightarrow> NomState \<Rightarrow> SCPEnvelope list" where
  "getNominationState cfg ns = map snd
     (filter (\<lambda>(node, e). node \<noteq> cfg_localNodeID cfg \<or> mFullyValidated (snd ns)) (mLatestNominations (fst ns)))"

end
