(* ===== verification/Nomination_Safety.thy ===== *)
theory Nomination_Safety
  imports Nomination
begin

section \<open>What the nomination protocol keeps\<close>

text \<open>
  The invariants of the nomination protocol, proved for one call whose nested emissions are known to keep
  them (locale \<open>nominating\<close>) and closed over the recursion by an interpretation. First the errors that the
  ballot protocol can raise, which shows that they cannot be mistaken for the nomination protocol's own.
\<close>

subsection \<open>The errors of the ballot protocol\<close>

definition ballotErrors :: "cpp_error set" where
  "ballotErrors = {AssertionFailed, NullDereference, Aborted, NoReturn,
     RuntimeError ''maximum number of transitions reached in advanceSlot'',
     RuntimeError ''moved to a bad state (ballot protocol)''}"

lemma ballotErrors_simps [simp]:
  "AssertionFailed \<in> ballotErrors" "NullDereference \<in> ballotErrors" "Aborted \<in> ballotErrors"
  "NoReturn \<in> ballotErrors" "RuntimeError ''maximum number of transitions reached in advanceSlot'' \<in> ballotErrors"
  "RuntimeError ''moved to a bad state (ballot protocol)'' \<in> ballotErrors"
  by (simp_all add: ballotErrors_def)

definition raisesBallot :: "cpp_error + 'a \<Rightarrow> bool" where
  "raisesBallot r \<longleftrightarrow> (case r of Inl e \<Rightarrow> e \<in> ballotErrors | Inr x \<Rightarrow> True)"

lemma raisesBallot_simps [simp]:
  "raisesBallot (Inl e) \<longleftrightarrow> e \<in> ballotErrors"
  "raisesBallot (Inr x)"
  by (simp_all add: raisesBallot_def)

lemma raisesBallot_bind [simp]:
  "raisesBallot (bindE r f) \<longleftrightarrow> raisesBallot r \<and> (\<forall>x. r = Inr x \<longrightarrow> raisesBallot (f x))"
  by (cases r) auto

lemma raisesBallot_basic [simp]:
  "raisesBallot (ensureE b AssertionFailed)"
  "raisesBallot (deref p)"
  by (simp_all add: ensureE_def deref_def split: option.split)

named_theorems raises \<open>functions of the ballot protocol that raise only its errors\<close>

lemma checkInvariants_raises [raises]: "raisesBallot (checkInvariants s)"
  by (simp add: checkInvariants_def)

lemma bumpToBallot_raises [raises]: "raisesBallot (bumpToBallot b c s)"
  by (simp add: bumpToBallot_def Let_def)

lemma updateCurrentValue_raises [raises]: "raisesBallot (updateCurrentValue b s)"
  by (simp add: updateCurrentValue_def Let_def raises split: option.split)

lemma updateCurrentIfNeeded_raises [raises]: "raisesBallot (updateCurrentIfNeeded h s)"
  by (simp add: updateCurrentIfNeeded_def raises)

lemma createStatement_raises [raises]: "raisesBallot (createStatement cfg s)"
  by (simp add: createStatement_def raises split: SCPPhase.split)

lemma isStatementSane_raises [raises]: "raisesBallot (isStatementSane cfg st self)"
  by (simp add: isStatementSane_def pledgesSane_def split: option.split SCPPledges.split)

lemma findPreparedAccept_raises [raises]: "raisesBallot (findPreparedAccept cfg s bs)"
  by (induction bs) simp_all

lemma acceptCommitHint_raises [raises]: "raisesBallot (acceptCommitHint pl)"
  by (simp add: acceptCommitHint_def split: SCPPledges.split)

lemma confirmCommitHint_raises [raises]: "raisesBallot (confirmCommitHint pl)"
  by (simp add: confirmCommitHint_def split: SCPPledges.split)

locale raising =
  fixes cfg :: Config
    and emit :: emitter
  assumes emit_raises: "raisesBallot (emit s)"
begin

lemma setPreparedAccept_raises: "raisesBallot (setPreparedAccept emit b s)"
  by (simp add: setPreparedAccept_def Let_def emit_raises split: prod.split)

lemma attemptPreparedAccept_raises: "raisesBallot (attemptPreparedAccept cfg emit hint s)"
  by (simp add: attemptPreparedAccept_def raises setPreparedAccept_raises split: option.split)

lemma setPreparedConfirmed_raises: "raisesBallot (setPreparedConfirmed emit c h s)"
  by (simp add: setPreparedConfirmed_def Let_def raises emit_raises split: prod.split)

lemma attemptPreparedConfirmed_raises: "raisesBallot (attemptPreparedConfirmed cfg emit hint s)"
  by (simp add: attemptPreparedConfirmed_def Let_def setPreparedConfirmed_raises split: option.split)

lemma setAcceptCommit_raises: "raisesBallot (setAcceptCommit emit c h s)"
  by (simp add: setAcceptCommit_def Let_def raises emit_raises split: prod.split)

lemma attemptAcceptCommit_raises: "raisesBallot (attemptAcceptCommit cfg emit hint s)"
  by (simp add: attemptAcceptCommit_def Let_def raises setAcceptCommit_raises split: option.split)

lemma setConfirmCommit_raises: "raisesBallot (setConfirmCommit emit c h s)"
  by (simp add: setConfirmCommit_def Let_def raises emit_raises split: prod.split)

lemma attemptConfirmCommit_raises: "raisesBallot (attemptConfirmCommit cfg emit hint s)"
  by (simp add: attemptConfirmCommit_def Let_def raises setConfirmCommit_raises split: option.split)

lemma bumpStateTo_raises: "raisesBallot (bumpStateTo cfg emit v n s)"
  by (simp add: bumpStateTo_def Let_def raises emit_raises split: prod.split)

lemma bumpStateForce_raises: "raisesBallot (bumpStateForce cfg emit v force s)"
  by (simp add: bumpStateForce_def bumpStateTo_raises)

lemma attemptBump_raises: "raisesBallot (attemptBump cfg emit s)"
  by (simp add: attemptBump_def abandonBallotWith_def Let_def bumpStateTo_raises bumpStateForce_raises
      split: option.split)

lemma bumpLoop_raises: "raisesBallot (bumpLoop cfg emit d s)"
proof -
  let ?b = "\<lambda>r. case r of Inl e \<Rightarrow> False | Inr (didBump, didWork, s) \<Rightarrow> didBump"
  let ?c = "\<lambda>r. bindE r (\<lambda>(_, didWork, s). bindE (attemptBump cfg emit s) (\<lambda>(didBump, s').
      Inr (didBump, didBump \<or> didWork, s')))"
  let ?r0 = "Inr (True, d, s) :: cpp_error + (bool \<times> bool \<times> Slot)"
  show ?thesis
  proof (cases "while_option ?b ?c ?r0")
    case (Some r)
    have "raisesBallot r"
      by (rule while_option_rule [where P = raisesBallot, OF _ Some]) (auto simp: attemptBump_raises)
    then show ?thesis by (auto simp: bumpLoop_def Some)
  qed (simp add: bumpLoop_def)
qed

lemma advanceSlot_raises: "raisesBallot (advanceSlot cfg emit hint s)"
  by (simp add: advanceSlot_def Let_def attemptPreparedAccept_raises attemptPreparedConfirmed_raises
      attemptAcceptCommit_raises attemptConfirmCommit_raises bumpLoop_raises split: prod.split)

lemma emitCurrentStateStatement_raises:
  "raisesBallot (emitCurrentStateStatement cfg (advanceSlot cfg emit) s)"
  by (simp add: emitCurrentStateStatement_def processEnvelopeWith_def Let_def raises advanceSlot_raises
      split: prod.split)

end

lemma raising_emitF: "raising (emitF cfg k)"
proof (induction k)
  case (Suc k)
  show ?case by unfold_locales (simp add: raising.emitCurrentStateStatement_raises [OF Suc])
qed (unfold_locales, simp)

interpretation br: raising cfg "emitF cfg 50" for cfg
  by (rule raising_emitF)

lemma bumpState_raises: "raisesBallot (bumpState cfg v force s)"
  by (simp add: bumpState_def br.bumpStateForce_raises)

lemma processEnvelope_raises: "raisesBallot (processEnvelope cfg env self s)"
  by (simp add: processEnvelope_def processEnvelopeWith_def Let_def raises br.advanceSlot_raises split: prod.split)

lemma bumpState_not_badNomination: "bumpState cfg v force s \<noteq> Inl badNomination"
  using bumpState_raises [of cfg v force s] by (auto simp: badNomination_def ballotErrors_def)

subsection \<open>Nomination statements as pairs of sets\<close>

lemma strictlyIncreasing_sorted: "strictlyIncreasing xs \<longleftrightarrow> sorted_wrt (<) xs"
  by (induction xs rule: strictlyIncreasing.induct) (auto intro: less_trans)

lemma includesRange_subset:
  "\<lbrakk>sorted_wrt (<) xs; sorted_wrt (<) ys\<rbrakk> \<Longrightarrow> includesRange xs ys \<longleftrightarrow> set ys \<subseteq> set xs"
proof (induction xs ys rule: includesRange.induct)
  case (3 x xs y ys)
  consider "y < x" | "x < y" | "x = y" by fastforce
  then show ?case
  proof cases
    case 1
    then have "y \<notin> set (x # xs)" using 3(3) by auto
    then show ?thesis using 1 by simp
  next
    case 2
    then have "x \<notin> set (y # ys)" using 3(4) by auto
    then show ?thesis using 2 3(1) 3(3,4) by auto
  next
    case 3
    then have "x \<notin> set ys" using "3.prems"(2) by auto
    then show ?thesis using 3 "3.IH"(2) "3.prems" by auto
  qed
qed auto

lemma strict_set_eq: "\<lbrakk>sorted_wrt (<) xs; sorted_wrt (<) ys\<rbrakk> \<Longrightarrow> set xs = set ys \<longleftrightarrow> xs = (ys :: Value list)"
  by (auto simp: strict_sorted_iff intro: sorted_distinct_set_unique)

lemma isSubsetHelper_spec:
  assumes "sorted_wrt (<) p" "sorted_wrt (<) v"
  shows "isSubsetHelper p v = (set p \<subseteq> set v, \<not> (set p \<subseteq> set v \<and> set p = set v))"
proof -
  have d: "distinct p" "distinct v" using assms by (auto simp: strict_sorted_iff)
  have "length p \<le> length v" if "set p \<subseteq> set v"
    using card_mono [OF _ that] d by (simp add: distinct_card)
  moreover have "length p = length v \<longleftrightarrow> set p = set v" if "set p \<subseteq> set v"
    using card_subset_eq [OF _ that] d by (metis List.finite_set distinct_card)
  ultimately show ?thesis using includesRange_subset [OF assms(2,1)]
    by (cases "set p \<subseteq> set v") (simp_all add: isSubsetHelper_def Let_def)
qed

lemma isSane_sorted:
  "isSaneNomination nom \<Longrightarrow> sorted_wrt (<) (nom_votes nom) \<and> sorted_wrt (<) (nom_accepted nom)"
  by (simp add: isSaneNomination_def strictlyIncreasing_sorted)

lemma isNewerNomination_iff:
  assumes "isSaneNomination a" "isSaneNomination b"
  shows "isNewerNomination a b \<longleftrightarrow>
    set (nom_votes a) \<subseteq> set (nom_votes b) \<and> set (nom_accepted a) \<subseteq> set (nom_accepted b)
    \<and> (set (nom_votes a) \<noteq> set (nom_votes b) \<or> set (nom_accepted a) \<noteq> set (nom_accepted b))"
  using isSane_sorted [OF assms(1)] isSane_sorted [OF assms(2)]
  by (auto simp: isNewerNomination_def isSubsetHelper_spec)

subsection \<open>The invariant\<close>

abbreviation nomOf :: "SCPEnvelope \<Rightarrow> SCPPledges" where
  "nomOf e \<equiv> st_pledges (env_statement e)"

text \<open>The candidates are among the accepted values and those among the votes; what is accepted was fully
  validated; the recorded nominations are sane and filed under their sender; the node's own latest
  nomination says no more than the node's sets and names its quorum set.\<close>

definition nomInv :: "Config \<Rightarrow> Nomination \<Rightarrow> bool" where
  "nomInv cfg n \<longleftrightarrow>
     sorted_wrt (<) (mVotes n) \<and> sorted_wrt (<) (mAccepted n) \<and> sorted_wrt (<) (mCandidates n)
     \<and> set (mCandidates n) \<subseteq> set (mAccepted n) \<and> set (mAccepted n) \<subseteq> set (mVotes n)
     \<and> (\<forall>v \<in> set (mAccepted n). cfg_validateValue cfg v True = kFullyValidatedValue)
     \<and> sorted_wrt (<) (map fst (mLatestNominations n))
     \<and> (\<forall>m e. map_of (mLatestNominations n) m = Some e \<longrightarrow>
          st_nodeID (env_statement e) = m \<and> isSaneNomination (nomOf e))
     \<and> (\<forall>e. map_of (mLatestNominations n) (cfg_localNodeID cfg) = Some e \<longrightarrow>
          set (nom_votes (nomOf e)) \<subseteq> set (mVotes n) \<and> set (nom_accepted (nomOf e)) \<subseteq> set (mAccepted n)
          \<and> getQuorumSetFromStatement cfg (env_statement e) = cfg_getQSet cfg (cfg_qSetHash cfg))"

text \<open>The sets went beyond what the node last said.\<close>

definition fresh :: "Config \<Rightarrow> Nomination \<Rightarrow> bool" where
  "fresh cfg n \<longleftrightarrow> nomInv cfg n \<and> mVotes n \<noteq> []
     \<and> (\<forall>e. map_of (mLatestNominations n) (cfg_localNodeID cfg) = Some e \<longrightarrow>
          set (nom_votes (nomOf e)) \<noteq> set (mVotes n) \<or> set (nom_accepted (nomOf e)) \<noteq> set (mAccepted n))"

text \<open>All values in play belong to a set that is closed under the variations the driver proposes.\<close>

definition closedValues :: "Config \<Rightarrow> Value set \<Rightarrow> bool" where
  "closedValues cfg U \<longleftrightarrow> (\<forall>v \<in> U. valueToNominate cfg v \<in> insert [] U)"

definition within :: "Value set \<Rightarrow> Nomination \<Rightarrow> bool" where
  "within U n \<longleftrightarrow> set (mVotes n) \<subseteq> U \<and> set (mAccepted n) \<subseteq> U
     \<and> (\<forall>m e. map_of (mLatestNominations n) m = Some e \<longrightarrow> set (nominationValues (nomOf e)) \<subseteq> U)"

text \<open>How many more values could be voted for or accepted.\<close>

definition room :: "Value set \<Rightarrow> Nomination \<Rightarrow> nat" where
  "room U n = (card U - card (set (mVotes n))) + (card U - card (set (mAccepted n)))"

text \<open>Growth of the sets within one call, the recorded nominations fixed.\<close>

definition grown :: "Nomination \<Rightarrow> Nomination \<Rightarrow> bool" where
  "grown n n' \<longleftrightarrow> set (mVotes n) \<subseteq> set (mVotes n') \<and> set (mAccepted n) \<subseteq> set (mAccepted n')
     \<and> set (mCandidates n) \<subseteq> set (mCandidates n') \<and> mLatestNominations n' = mLatestNominations n"

definition widened :: "Nomination \<Rightarrow> Nomination \<Rightarrow> bool" where
  "widened n n' \<longleftrightarrow> set (mVotes n) \<noteq> set (mVotes n') \<or> set (mAccepted n) \<noteq> set (mAccepted n')"

lemma grown_refl [simp]: "grown n n"
  by (simp add: grown_def)

lemma grown_trans: "\<lbrakk>grown a b; grown b c\<rbrakk> \<Longrightarrow> grown a c"
  by (auto simp: grown_def)

lemma widened_grown: "\<lbrakk>grown a b; grown b c; widened a b \<or> widened b c\<rbrakk> \<Longrightarrow> widened a c"
  by (auto simp: grown_def widened_def)

lemma strict_insort_insert [simp]:
  "sorted_wrt (<) xs \<Longrightarrow> sorted_wrt (<) (insort_insert (x :: Value) xs)"
  by (simp add: strict_sorted_iff sorted_insort_insert distinct_insort_insert)

lemma room_less:
  assumes "finite U" "within U n'" "grown n n'" "widened n n'"
  shows "room U n' < room U n"
proof -
  have c: "card A \<le> card B \<and> (A \<noteq> B \<longrightarrow> card A < card B) \<and> card B \<le> card U"
    if "A \<subseteq> B" "B \<subseteq> U" for A B :: "Value set"
    using that assms(1) by (metis card_mono finite_subset less_le psubset_card_mono)
  from c [of "set (mVotes n)" "set (mVotes n')"] c [of "set (mAccepted n)" "set (mAccepted n')"]
  show ?thesis using assms(2-4) unfolding room_def within_def grown_def widened_def by linarith
qed

lemma fresh_widened:
  "\<lbrakk>nomInv cfg n; nomInv cfg n'; grown n n'; widened n n'\<rbrakk> \<Longrightarrow> fresh cfg n'"
  unfolding fresh_def
proof (intro conjI)
  assume a: "nomInv cfg n" "nomInv cfg n'" "grown n n'" "widened n n'"
  show "nomInv cfg n'" by (rule a(2))
  show "mVotes n' \<noteq> []" using a(2-4) by (auto simp: nomInv_def grown_def widened_def)
  show "\<forall>e. map_of (mLatestNominations n') (cfg_localNodeID cfg) = Some e \<longrightarrow>
      set (nom_votes (nomOf e)) \<noteq> set (mVotes n') \<or> set (nom_accepted (nomOf e)) \<noteq> set (mAccepted n')"
    using a(1,3,4) unfolding nomInv_def grown_def widened_def by (metis subset_antisym)
qed

subsection \<open>The steps of one call\<close>

lemma recordNomination_inv:
  assumes "nomInv cfg n" "isSaneNomination (nomOf env)"
    and "st_nodeID (env_statement env) = cfg_localNodeID cfg \<longrightarrow>
      set (nom_votes (nomOf env)) \<subseteq> set (mVotes n) \<and> set (nom_accepted (nomOf env)) \<subseteq> set (mAccepted n)
      \<and> getQuorumSetFromStatement cfg (env_statement env) = cfg_getQSet cfg (cfg_qSetHash cfg)"
  shows "nomInv cfg (fst (recordNomination env (n, s)))"
  using assms by (auto simp: nomInv_def recordNomination_def sorted_mapPut)

lemma recordNomination_within:
  "\<lbrakk>within U n; set (nominationValues (nomOf env)) \<subseteq> U\<rbrakk> \<Longrightarrow> within U (fst (recordNomination env (n, s)))"
  by (auto simp: within_def recordNomination_def split: if_splits)

lemma addVote_step:
  assumes "nomInv cfg n" "v \<notin> set (mVotes n)"
  shows "nomInv cfg (n\<lparr>mVotes := insort_insert v (mVotes n)\<rparr>)"
    "grown n (n\<lparr>mVotes := insort_insert v (mVotes n)\<rparr>)"
    "widened n (n\<lparr>mVotes := insort_insert v (mVotes n)\<rparr>)"
    "\<lbrakk>within U n; v \<in> U\<rbrakk> \<Longrightarrow> within U (n\<lparr>mVotes := insort_insert v (mVotes n)\<rparr>)"
  using assms by (auto simp: nomInv_def grown_def widened_def within_def set_insort_insert)

lemma acceptValue_step:
  fixes n :: Nomination
  assumes "nomInv cfg n" "v \<notin> set (mAccepted n)" "cfg_validateValue cfg v True = kFullyValidatedValue"
  defines "n' \<equiv> n\<lparr>mAccepted := insort_insert v (mAccepted n), mVotes := insort_insert v (mVotes n)\<rparr>"
  shows "nomInv cfg n'" "grown n n'" "widened n n'" "\<lbrakk>within U n; v \<in> U\<rbrakk> \<Longrightarrow> within U n'"
  using assms(1-3) by (auto simp: n'_def nomInv_def grown_def widened_def within_def set_insort_insert)

lemma promoteVote_cases:
  assumes "promoteVote cfg v (m, n) = (m', n')"
  shows "m' = m \<and> n' = n
    \<or> v \<notin> set (mAccepted n) \<and> cfg_validateValue cfg v True = kFullyValidatedValue \<and> m'
      \<and> n' = n\<lparr>mAccepted := insort_insert v (mAccepted n), mVotes := insort_insert v (mVotes n)\<rparr>
    \<or> valueToNominate cfg v \<noteq> [] \<and> valueToNominate cfg v \<notin> set (mVotes n) \<and> m'
      \<and> n' = n\<lparr>mVotes := insort_insert (valueToNominate cfg v) (mVotes n)\<rparr>"
proof (cases "cfg_validateValue cfg v True = kFullyValidatedValue")
  case True
  then show ?thesis using assms by (simp add: promoteVote_def split: if_splits)
next
  case False
  then show ?thesis using assms by (simp add: promoteVote_def valueToNominate_def Let_def split: if_splits)
qed

lemma promoteVote_step:
  assumes "nomInv cfg n" "promoteVote cfg v (m, n) = (m', n')"
  shows "nomInv cfg n' \<and> grown n n' \<and> (m' \<longrightarrow> m \<or> widened n n') \<and> (m \<longrightarrow> m')
    \<and> (closedValues cfg U \<and> v \<in> U \<and> within U n \<longrightarrow> within U n')"
  using promoteVote_cases [OF assms(2)]
proof (elim disjE conjE)
  assume 2: "v \<notin> set (mAccepted n)" "cfg_validateValue cfg v True = kFullyValidatedValue" "m'"
    "n' = n\<lparr>mAccepted := insort_insert v (mAccepted n), mVotes := insort_insert v (mVotes n)\<rparr>"
  show ?thesis using acceptValue_step [OF assms(1) 2(1,2)] 2(3,4) by simp
next
  assume 3: "valueToNominate cfg v \<noteq> []" "valueToNominate cfg v \<notin> set (mVotes n)" "m'"
    "n' = n\<lparr>mVotes := insort_insert (valueToNominate cfg v) (mVotes n)\<rparr>"
  have "valueToNominate cfg v \<in> U" if "closedValues cfg U" "v \<in> U"
    using that 3(1) by (auto simp: closedValues_def)
  then show ?thesis using addVote_step [OF assms(1) 3(2)] 3(3,4) by simp
qed (use assms(1) in simp)

lemma promoteVotes_fold:
  assumes "nomInv cfg n" "fold (promoteVote cfg) vs (m, n) = (m', n')"
  shows "nomInv cfg n' \<and> grown n n' \<and> (m' \<longrightarrow> m \<or> widened n n') \<and> (m \<longrightarrow> m')
    \<and> (closedValues cfg U \<and> set vs \<subseteq> U \<and> within U n \<longrightarrow> within U n')"
  using assms
proof (induction vs arbitrary: m n)
  case (Cons v vs)
  obtain m1 n1 where 1: "promoteVote cfg v (m, n) = (m1, n1)" by fastforce
  note a = promoteVote_step [OF Cons.prems(1) 1, of U]
  have b: "nomInv cfg n' \<and> grown n1 n' \<and> (m' \<longrightarrow> m1 \<or> widened n1 n') \<and> (m1 \<longrightarrow> m')
      \<and> (closedValues cfg U \<and> set vs \<subseteq> U \<and> within U n1 \<longrightarrow> within U n')"
    by (rule Cons.IH) (use a Cons.prems 1 in auto)
  then show ?case using a grown_trans [of n n1 n'] widened_grown [of n n1 n'] by auto
qed auto

lemma promoteVotes_step:
  assumes "nomInv cfg n" "promoteVotes cfg vs n = (m, n')"
  shows "nomInv cfg n'" "grown n n'" "m \<Longrightarrow> widened n n'"
    "\<lbrakk>closedValues cfg U; set vs \<subseteq> U; within U n\<rbrakk> \<Longrightarrow> within U n'"
  using promoteVotes_fold [OF assms(1), of vs False m n' U] assms(2) by (auto simp: promoteVotes_def)

lemma promoteAccepted_step:
  assumes "nomInv cfg n" "a \<in> set (mAccepted n)" "promoteAccepted cfg a (m, n) = (m', n')"
  shows "nomInv cfg n' \<and> grown n n' \<and> mVotes n' = mVotes n \<and> mAccepted n' = mAccepted n"
  using assms by (auto simp: promoteAccepted_def nomInv_def grown_def set_insort_insert split: if_splits)

lemma promoteCandidates_fold:
  assumes "nomInv cfg n" "set as \<subseteq> set (mAccepted n)" "fold (promoteAccepted cfg) as (m, n) = (m', n')"
  shows "nomInv cfg n' \<and> grown n n' \<and> mVotes n' = mVotes n \<and> mAccepted n' = mAccepted n"
  using assms
proof (induction as arbitrary: m n)
  case (Cons a as)
  obtain m1 n1 where 1: "promoteAccepted cfg a (m, n) = (m1, n1)" by fastforce
  have "a \<in> set (mAccepted n)" using Cons.prems(2) by simp
  note a = promoteAccepted_step [OF Cons.prems(1) this 1]
  have "nomInv cfg n' \<and> grown n1 n' \<and> mVotes n' = mVotes n1 \<and> mAccepted n' = mAccepted n1"
    by (rule Cons.IH) (use a Cons.prems 1 in auto)
  then show ?case using a grown_trans [of n n1 n'] by auto
qed auto

lemma promoteCandidates_step:
  assumes "nomInv cfg n" "promoteCandidates cfg n = (m, n')"
  shows "nomInv cfg n'" "grown n n'" "mVotes n' = mVotes n" "mAccepted n' = mAccepted n"
    "within U n \<Longrightarrow> within U n'"
  using promoteCandidates_fold [OF assms(1) order_refl, of False m n'] assms(2)
  by (auto simp: promoteCandidates_def within_def grown_def)

lemma newVoteLoop_result:
  "newVoteLoop cfg n vs (h, v) = Inr v' \<Longrightarrow>
     v' = v \<or> v' \<in> valueToNominate cfg ` set vs \<and> v' \<noteq> [] \<and> v' \<notin> set (mVotes n)"
proof (induction vs arbitrary: h v)
  case (Cons a vs)
  then show ?case by (fastforce simp: Let_def split: if_splits)
qed simp

lemma newVoteLoop_errors: "newVoteLoop cfg n vs r = Inl e \<Longrightarrow> e = AssertionFailed"
proof (induction vs arbitrary: r)
  case Nil
  then show ?case by (cases r) simp
next
  case (Cons a vs)
  then show ?case by (cases r) (auto simp: Let_def bindE_eq_Inl hashValue_def split: if_splits)
qed

lemma getNewValue_result:
  "getNewValueFromNomination cfg n nom = Inr v \<Longrightarrow>
     v = [] \<or> v \<in> valueToNominate cfg ` set (nominationValues nom) \<and> v \<notin> set (mVotes n)"
  using newVoteLoop_result by (fastforce simp: getNewValueFromNomination_def)

lemma nominationTouchI:
  "filter isExternalized evs = [] \<Longrightarrow> nominationTouch s (s\<lparr>mStatementsHistory := h, mNominationStarted := b,
     mLatestCompositeCandidate := v, mEvents := mEvents s @ evs\<rparr>)"
  unfolding nominationTouch_def by blast

lemma nominationTouch_refl [simp]: "nominationTouch s s"
  using nominationTouchI [of "[]", where s = s and h = "mStatementsHistory s" and b = "mNominationStarted s"
      and v = "mLatestCompositeCandidate s"]
  by simp

lemma nominationTouch_log [simp]: "\<not> isExternalized ev \<Longrightarrow> nominationTouch s (log ev s)"
  using nominationTouchI [of "[ev]", where s = s and h = "mStatementsHistory s" and b = "mNominationStarted s"
      and v = "mLatestCompositeCandidate s"]
  by (simp add: log_def)

lemma followLeader_cases:
  assumes "followLeader cfg st (m, n, s) = Inr (m', n', s')"
  obtains "m' = m" "n' = n" "s' = s"
  | v where "getNewValueFromNomination cfg n (st_pledges st) = Inr v" "v \<noteq> []" "m'"
        "n' = n\<lparr>mVotes := insort_insert v (mVotes n)\<rparr>" "s' = log (NominatingValue v) s"
proof (cases "mCandidates n = [] \<and> st_nodeID st \<in> set (mRoundLeaders n)")
  case True
  then obtain v where v: "getNewValueFromNomination cfg n (st_pledges st) = Inr v"
    using assms by (auto simp: followLeader_def)
  show ?thesis
  proof (cases "v = []")
    case True
    then show ?thesis using v assms that(1) by (simp add: followLeader_def split: if_splits)
  next
    case False
    then show ?thesis using v assms that by (simp add: followLeader_def split: if_splits)
  qed
next
  case False
  then have "followLeader cfg st (m, n, s) = Inr (m, n, s)" by (auto simp: followLeader_def)
  then show ?thesis using assms that(1) by simp
qed

lemma followLeader_step:
  assumes "nomInv cfg n" "followLeader cfg st (m, n, s) = Inr (m', n', s')"
  shows "nomInv cfg n' \<and> grown n n' \<and> (m' \<longrightarrow> m \<or> widened n n') \<and> nominationTouch s s'
    \<and> mNominationStarted s' = mNominationStarted s
    \<and> (closedValues cfg U \<and> set (nominationValues (st_pledges st)) \<subseteq> U \<and> within U n \<longrightarrow> within U n')"
  using assms(2)
proof (cases rule: followLeader_cases)
  case 1
  then show ?thesis using assms(1) by simp
next
  case (2 v)
  from getNewValue_result [OF 2(1)] 2(2)
  have v: "v \<in> valueToNominate cfg ` set (nominationValues (st_pledges st))" "v \<notin> set (mVotes n)" by auto
  have "v \<in> U" if "closedValues cfg U" "set (nominationValues (st_pledges st)) \<subseteq> U"
    using v(1) 2(2) that by (auto simp: closedValues_def)
  then show ?thesis using addVote_step [OF assms(1) v(2)] 2 by simp
qed

lemma followLeader_errors: "followLeader cfg st r = Inl e \<Longrightarrow> e = AssertionFailed"
  by (auto simp: followLeader_def bindE_eq_Inl getNewValueFromNomination_def split: prod.splits if_splits
      dest: newVoteLoop_errors)

subsection \<open>One call, with nested emissions that keep the invariant\<close>

definition extends :: "Nomination \<Rightarrow> Nomination \<Rightarrow> bool" where
  "extends n n' \<longleftrightarrow> set (mVotes n) \<subseteq> set (mVotes n') \<and> set (mAccepted n) \<subseteq> set (mAccepted n')
     \<and> set (mCandidates n) \<subseteq> set (mCandidates n')"

lemma extends_trans: "\<lbrakk>extends a b; extends b c\<rbrakk> \<Longrightarrow> extends a c"
  by (auto simp: extends_def)

lemma grown_extends: "grown a b \<Longrightarrow> extends a b"
  by (simp add: grown_def extends_def)

definition kept :: "Config \<Rightarrow> Value set \<Rightarrow> NomState \<Rightarrow> NomState \<Rightarrow> bool" where
  "kept cfg U ns ns' \<longleftrightarrow> nomInv cfg (fst ns') \<and> within U (fst ns') \<and> extends (fst ns) (fst ns')
     \<and> ballotRun cfg (snd ns) (snd ns')"

text \<open>New candidates were ratified by a quorum of the envelopes recorded at the end: within a call the envelopes of
  the other nodes stay, and the node's own names the same quorum set and accepts no less.\<close>

definition agree :: "Config \<Rightarrow> (NodeID \<times> SCPEnvelope) list \<Rightarrow> (NodeID \<times> SCPEnvelope) list \<Rightarrow> bool" where
  "agree cfg envs envs' \<longleftrightarrow> (\<forall>m. m \<noteq> cfg_localNodeID cfg \<longrightarrow> map_of envs' m = map_of envs m)
     \<and> (inOrder envs \<longrightarrow> inOrder envs')
     \<and> (\<forall>e. map_of envs (cfg_localNodeID cfg) = Some e \<longrightarrow>
          (\<exists>e'. map_of envs' (cfg_localNodeID cfg) = Some e' \<and> set (nom_accepted (nomOf e)) \<subseteq> set (nom_accepted (nomOf e'))
            \<and> getQuorumSetFromStatement cfg (env_statement e') = getQuorumSetFromStatement cfg (env_statement e)))"

definition backs :: "Config \<Rightarrow> Nomination \<Rightarrow> Nomination \<Rightarrow> bool" where
  "backs cfg n n' \<longleftrightarrow> agree cfg (mLatestNominations n) (mLatestNominations n')
     \<and> (inOrder (mLatestNominations n) \<longrightarrow> (\<forall>c \<in> set (mCandidates n') - set (mCandidates n).
          federatedRatify cfg (acceptPredicate c) (mLatestNominations n')))"

lemma agree_refl [simp]: "agree cfg envs envs"
  by (simp add: agree_def)

lemma agree_trans:
  assumes "agree cfg a b" "agree cfg b c"
  shows "agree cfg a c"
  unfolding agree_def
proof (intro conjI allI impI)
  fix e
  assume "map_of a (cfg_localNodeID cfg) = Some e"
  then obtain e1 where 1: "map_of b (cfg_localNodeID cfg) = Some e1" "set (nom_accepted (nomOf e)) \<subseteq> set (nom_accepted (nomOf e1))"
    "getQuorumSetFromStatement cfg (env_statement e1) = getQuorumSetFromStatement cfg (env_statement e)"
    using assms(1) unfolding agree_def by blast
  then obtain e2 where 2: "map_of c (cfg_localNodeID cfg) = Some e2" "set (nom_accepted (nomOf e1)) \<subseteq> set (nom_accepted (nomOf e2))"
    "getQuorumSetFromStatement cfg (env_statement e2) = getQuorumSetFromStatement cfg (env_statement e1)"
    using assms(2) unfolding agree_def by blast
  show "\<exists>e'. map_of c (cfg_localNodeID cfg) = Some e' \<and> set (nom_accepted (nomOf e)) \<subseteq> set (nom_accepted (nomOf e'))
      \<and> getQuorumSetFromStatement cfg (env_statement e') = getQuorumSetFromStatement cfg (env_statement e)"
    using 1 2 by (intro exI [of _ e2]) auto
qed (use assms in \<open>auto simp: agree_def\<close>)

lemma ratify_agree:
  assumes "federatedRatify cfg (acceptPredicate c) envs" "inOrder envs" "agree cfg envs envs'"
  shows "federatedRatify cfg (acceptPredicate c) envs'"
proof (rule federatedRatify_own [OF assms(1,2)])
  fix e
  assume "map_of envs (cfg_localNodeID cfg) = Some e" "acceptPredicate c (env_statement e)"
  then show "\<exists>e'. map_of envs' (cfg_localNodeID cfg) = Some e' \<and> acceptPredicate c (env_statement e')
      \<and> (getQuorumSetFromStatement cfg (env_statement e') = getQuorumSetFromStatement cfg (env_statement e)
         \<or> getQuorumSetFromStatement cfg (env_statement e') = Some (buildSingletonQSet (cfg_localNodeID cfg)))"
    using assms(3) unfolding agree_def acceptPredicate_def by blast
qed (use assms(2,3) in \<open>auto simp: agree_def\<close>)

lemma backs_same:
  "\<lbrakk>agree cfg (mLatestNominations n) (mLatestNominations n'); mCandidates n' = mCandidates n\<rbrakk> \<Longrightarrow> backs cfg n n'"
  by (simp add: backs_def)

lemma backs_refl [simp]: "backs cfg n n"
  by (simp add: backs_same)

lemma backs_trans:
  assumes "backs cfg a b" "backs cfg b c"
  shows "backs cfg a c"
  unfolding backs_def
proof (intro conjI ballI impI)
  show "agree cfg (mLatestNominations a) (mLatestNominations c)"
    using assms agree_trans unfolding backs_def by blast
  fix x
  assume o: "inOrder (mLatestNominations a)" and x: "x \<in> set (mCandidates c) - set (mCandidates a)"
  have ob: "inOrder (mLatestNominations b)" using assms(1) o by (simp add: backs_def agree_def)
  show "federatedRatify cfg (acceptPredicate x) (mLatestNominations c)"
  proof (cases "x \<in> set (mCandidates b)")
    case True
    then have "federatedRatify cfg (acceptPredicate x) (mLatestNominations b)"
      using assms(1) x o unfolding backs_def by blast
    then show ?thesis using ratify_agree ob assms(2) unfolding backs_def by blast
  next
    case False
    then show ?thesis using assms(2) x ob unfolding backs_def by blast
  qed
qed

lemma promoteAccepted_backs:
  assumes "promoteAccepted cfg a (m, n) = (m', n')"
  shows "backs cfg n n'"
proof (cases "a \<in> set (mCandidates n) \<or> \<not> federatedRatify cfg (acceptPredicate a) (mLatestNominations n)")
  case True
  then have "n' = n" using assms by (auto simp: promoteAccepted_def split: if_splits)
  then show ?thesis by simp
next
  case False
  then have "n' = n\<lparr>mCandidates := insort_insert a (mCandidates n)\<rparr>"
    using assms by (simp add: promoteAccepted_def)
  then show ?thesis using False by (auto simp: backs_def set_insort_insert intro: agree_refl)
qed

lemma promoteCandidates_backs: "promoteCandidates cfg n = (m, n') \<Longrightarrow> backs cfg n n'"
proof -
  have "fold (promoteAccepted cfg) as (m0, n) = (m, n') \<Longrightarrow> backs cfg n n'" for as m0
  proof (induction as arbitrary: m0 n)
    case (Cons a as)
    obtain m1 n1 where 1: "promoteAccepted cfg a (m0, n) = (m1, n1)" by fastforce
    have "backs cfg n1 n'" using Cons 1 by simp
    then show ?case using backs_trans promoteAccepted_backs [OF 1] by blast
  qed simp
  then show "promoteCandidates cfg n = (m, n') \<Longrightarrow> backs cfg n n'" by (simp add: promoteCandidates_def)
qed

lemma grown_backs: "\<lbrakk>grown n n'; mCandidates n' = mCandidates n\<rbrakk> \<Longrightarrow> backs cfg n n'"
  by (simp add: backs_same grown_def)

lemma promoteVotes_candidates: "promoteVotes cfg vs n = (m, n') \<Longrightarrow> mCandidates n' = mCandidates n"
proof -
  have "fold (promoteVote cfg) vs (m0, n) = (m, n') \<Longrightarrow> mCandidates n' = mCandidates n" for m0
  proof (induction vs arbitrary: m0 n)
    case (Cons v vs)
    obtain m1 n1 where 1: "promoteVote cfg v (m0, n) = (m1, n1)" by fastforce
    have "mCandidates n1 = mCandidates n" using promoteVote_cases [OF 1] by auto
    then show ?case using Cons 1 by simp
  qed simp
  then show "promoteVotes cfg vs n = (m, n') \<Longrightarrow> mCandidates n' = mCandidates n" by (simp add: promoteVotes_def)
qed

lemma followLeader_candidates:
  assumes "followLeader cfg st (m, n, s) = Inr (m', n', s')"
  shows "mCandidates n' = mCandidates n"
  using assms by (cases rule: followLeader_cases) simp_all

lemma kept_trans: "\<lbrakk>kept cfg U a b; kept cfg U b c\<rbrakk> \<Longrightarrow> kept cfg U a c"
  by (auto simp: kept_def intro: extends_trans)

lemma kept_refl: "\<lbrakk>nomInv cfg (fst ns); within U (fst ns)\<rbrakk> \<Longrightarrow> kept cfg U ns ns"
  by (simp add: kept_def extends_def)

lemma ballotRun_touch: "nominationTouch s s' \<Longrightarrow> ballotRun cfg s s'"
  by (intro r_into_rtranclp ballotStep.nomination)

lemma updateComposite_keeps:
  assumes "nomInv cfg (fst ns)" "within U (fst ns)" "updateComposite cfg ns = Inr ns'"
  shows "kept cfg U ns ns'"
proof -
  obtain n s where ns: "ns = (n, s)" by fastforce
  define v where "v = cfg_combineCandidates cfg (mCandidates n)"
  define s1 where "s1 = log (UpdatedCandidateValue v) (s\<lparr>mLatestCompositeCandidate := v\<rparr>)"
  have t: "nominationTouch s s1"
    using nominationTouchI [of "[UpdatedCandidateValue v]", where s = s and h = "mStatementsHistory s"
      and b = "mNominationStarted s" and v = v] by (simp add: s1_def log_def)
  obtain b s2 where "bumpState cfg v False s1 = Inr (b, s2)" "ns' = (n, s2)"
    using assms(3) by (auto simp: ns updateComposite_def Let_def v_def [symmetric] s1_def [symmetric])
  then show ?thesis using assms(1,2) rtranclp.rtrancl_into_rtrancl [OF ballotRun_touch [OF t] ballotStep.bump]
    by (auto simp: ns kept_def extends_def)
qed

lemma updateComposite_good: "updateComposite cfg ns \<noteq> Inl badNomination"
  using bumpState_not_badNomination by (auto simp: updateComposite_def bindE_eq_Inl Let_def split: prod.splits)

lemma updateComposite_ends:
  assumes "settled (snd ns)" "mCurrentMessageLevel (snd ns) = 0"
  shows "updateComposite cfg ns \<noteq> Inl NoReturn"
proof
  assume "updateComposite cfg ns = Inl NoReturn"
  then obtain v where v: "bumpState cfg v False
      (log (UpdatedCandidateValue v) ((snd ns)\<lparr>mLatestCompositeCandidate := v\<rparr>)) = Inl NoReturn"
    by (auto simp: updateComposite_def bindE_eq_Inl Let_def split: prod.splits)
  let ?s = "log (UpdatedCandidateValue v) ((snd ns)\<lparr>mLatestCompositeCandidate := v\<rparr>)"
  have "settled ?s" "mCurrentMessageLevel ?s = 0" using assms by (simp_all add: settled_def log_def)
  then show False using v bp.bumpStateForce_safe [of ?s cfg v False] by (simp add: bumpState_def bp.safe_def)
qed

text \<open>What a call that succeeds does, in stages.\<close>

definition stages :: "Config \<Rightarrow> nomEmitter \<Rightarrow> SCPEnvelope \<Rightarrow> Nomination \<Rightarrow> Slot
    \<Rightarrow> cpp_error + EnvelopeState \<times> NomState" where
  "stages cfg emit env n s =
     (case promoteVotes cfg (nom_votes (nomOf env)) n of (modified, n1) \<Rightarrow>
      case promoteCandidates cfg n1 of (newCandidates, n2) \<Rightarrow>
      bindE (followLeader cfg (env_statement env) (modified, n2, s)) (\<lambda>(modified, ns3).
      bindE (if modified then emit ns3 else Inr ns3) (\<lambda>ns4.
      bindE (if newCandidates then updateComposite cfg ns4 else Inr ns4) (\<lambda>ns5.
        Inr (VALID, ns5)))))"

lemma processNominationWith_stages:
  assumes "isNewerNominationFrom n (st_nodeID (env_statement env)) (nomOf env)" "isSaneNomination (nomOf env)"
    and "recordNomination env (n, s) = (n0, s0)"
  shows "processNominationWith cfg emit env (n, s) =
     (if mNominationStarted s then stages cfg emit env n0 s0 else Inr (VALID, n0, s0))"
proof -
  have "mNominationStarted s0 = mNominationStarted s"
    using assms(3) by (auto simp: recordNomination_def recordStatement_def)
  then show ?thesis using assms by (simp add: processNominationWith_def stages_def Let_def)
qed

lemma recordNomination_touch: "nominationTouch s (snd (recordNomination env (n, s)))"
  using nominationTouchI [of "[]", where s = s and b = "mNominationStarted s"
      and v = "mLatestCompositeCandidate s"
      and h = "mStatementsHistory s @ [(env_statement env, mFullyValidated s)]"]
  by (simp add: recordNomination_def recordStatement_def)

text \<open>An envelope the slot may be given: another node's, or one of the node's own that says no more than
  its sets and names its quorum set.\<close>

definition admissible :: "Config \<Rightarrow> SCPEnvelope \<Rightarrow> Nomination \<Rightarrow> bool" where
  "admissible cfg env n \<longleftrightarrow> (st_nodeID (env_statement env) = cfg_localNodeID cfg \<longrightarrow>
     set (nom_votes (nomOf env)) \<subseteq> set (mVotes n) \<and> set (nom_accepted (nomOf env)) \<subseteq> set (mAccepted n)
     \<and> getQuorumSetFromStatement cfg (env_statement env) = cfg_getQSet cfg (cfg_qSetHash cfg))"

locale nominating =
  fixes cfg :: Config
    and U :: "Value set"
    and emit :: nomEmitter
    and k :: nat
  assumes closed: "closedValues cfg U"
    and emit_keeps: "\<lbrakk>fresh cfg (fst ns); within U (fst ns); emit ns = Inr ns'\<rbrakk> \<Longrightarrow> kept cfg U ns ns'"
    and emit_backs: "\<lbrakk>fresh cfg (fst ns); within U (fst ns); emit ns = Inr ns'\<rbrakk> \<Longrightarrow> backs cfg (fst ns) (fst ns')"
    and emit_good: "\<lbrakk>fresh cfg (fst ns); within U (fst ns)\<rbrakk> \<Longrightarrow> emit ns \<noteq> Inl badNomination"
    and emit_ends: "\<lbrakk>fresh cfg (fst ns); within U (fst ns); finite U; room U (fst ns) < k;
      settled (snd ns); mCurrentMessageLevel (snd ns) = 0\<rbrakk> \<Longrightarrow> emit ns \<noteq> Inl NoReturn"
begin

text \<open>The state before the emission, which is fresh if there is one.\<close>

lemma stages_before:
  assumes n: "nomInv cfg n" "within U n" and v: "set (nominationValues (nomOf env)) \<subseteq> U"
    and p: "promoteVotes cfg (nom_votes (nomOf env)) n = (m1, n1)" "promoteCandidates cfg n1 = (c, n2)"
    and f: "followLeader cfg (env_statement env) (m1, n2, s) = Inr (m3, n3, s3)"
  shows "nomInv cfg n3" "within U n3" "grown n n3" "nominationTouch s s3"
    "m3 \<Longrightarrow> fresh cfg n3 \<and> widened n n3"
proof -
  have vs: "set (nom_votes (nomOf env)) \<subseteq> U" using v by (simp add: nominationValues_def)
  note a = promoteVotes_step [OF n(1) p(1)]
  note b = promoteCandidates_step [OF a(1) p(2)]
  note c = followLeader_step [OF b(1) f, of U]
  have w2: "within U n2" using a(4) [OF closed vs n(2)] b(5) by blast
  show i3: "nomInv cfg n3" using c by blast
  show "within U n3" using c w2 closed v by blast
  show g: "grown n n3" using a(2) b(2) c grown_trans by blast
  show "nominationTouch s s3" using c by blast
  assume m3
  then have "widened n1 n2 \<or> widened n2 n3 \<or> widened n n1" using a(3) c by blast
  moreover have "grown n1 n3" using b(2) c grown_trans by blast
  ultimately have "widened n n3"
    using widened_grown [OF a(2) \<open>grown n1 n3\<close>] widened_grown [OF b(2), of n3] c by blast
  then show "fresh cfg n3 \<and> widened n n3" using fresh_widened [OF n(1) i3 g] by blast
qed

lemma stages_keeps:
  assumes n: "nomInv cfg n" "within U n" and v: "set (nominationValues (nomOf env)) \<subseteq> U"
    and r: "stages cfg emit env n s = Inr (r, ns')"
  shows "kept cfg U (n, s) ns' \<and> backs cfg n (fst ns') \<and> r = VALID"
proof -
  obtain m1 n1 c n2 where p: "promoteVotes cfg (nom_votes (nomOf env)) n = (m1, n1)"
    "promoteCandidates cfg n1 = (c, n2)" by fastforce
  obtain m3 n3 s3 ns4 where f: "followLeader cfg (env_statement env) (m1, n2, s) = Inr (m3, n3, s3)"
    and e: "(if m3 then emit (n3, s3) else Inr (n3, s3)) = Inr ns4"
    and u: "(if c then updateComposite cfg ns4 else Inr ns4) = Inr ns'" and "r = VALID"
    using r p by (auto simp: stages_def)
  note b = stages_before [OF n v p f]
  have 3: "kept cfg U (n, s) (n3, s3)"
    using b(1-3) ballotRun_touch [OF b(4)] by (simp add: kept_def grown_extends)
  moreover have 4: "kept cfg U (n3, s3) ns4"
  proof (cases m3)
    case True
    then show ?thesis using emit_keeps [of "(n3, s3)" ns4] b(2,5) e by simp
  next
    case False
    then show ?thesis using kept_refl [of cfg "(n3, s3)" U] b(1,2) e by simp
  qed
  moreover have "kept cfg U ns4 ns'"
  proof (cases c)
    case True
    then show ?thesis using updateComposite_keeps [of cfg ns4 U ns'] 4 u by (simp add: kept_def)
  next
    case False
    then show ?thesis using kept_refl [of cfg ns4 U] 4 u by (simp add: kept_def)
  qed
  moreover have "backs cfg n n3"
    using backs_trans [OF grown_backs promoteCandidates_backs [OF p(2)], of n]
      backs_trans [of cfg n n2 n3] promoteVotes_step(2) [OF n(1) p(1)] promoteVotes_candidates [OF p(1)]
      followLeader_candidates [OF f] promoteCandidates_step [OF promoteVotes_step(1) [OF n(1) p(1)] p(2)]
      followLeader_step [OF _ f] by (blast intro: grown_backs)
  moreover have "backs cfg n3 (fst ns4)"
    using emit_backs [of "(n3, s3)" ns4] b(2,5) e by (cases m3) auto
  moreover have "fst ns' = fst ns4"
    using u by (cases c) (auto simp: updateComposite_def Let_def split: prod.splits)
  ultimately show ?thesis using kept_trans backs_trans \<open>r = VALID\<close> by metis
qed

lemma stages_good:
  assumes n: "nomInv cfg n" "within U n" and v: "set (nominationValues (nomOf env)) \<subseteq> U"
  shows "stages cfg emit env n s \<noteq> Inl badNomination"
proof
  assume r: "stages cfg emit env n s = Inl badNomination"
  obtain m1 n1 c n2 where p: "promoteVotes cfg (nom_votes (nomOf env)) n = (m1, n1)"
    "promoteCandidates cfg n1 = (c, n2)" by fastforce
  have "followLeader cfg (env_statement env) (m1, n2, s) \<noteq> Inl badNomination"
    using followLeader_errors by (fastforce simp: badNomination_def)
  then obtain m3 n3 s3 where f: "followLeader cfg (env_statement env) (m1, n2, s) = Inr (m3, n3, s3)"
    and e: "m3 \<and> emit (n3, s3) = Inl badNomination"
    using r p updateComposite_good by (fastforce simp: stages_def bindE_eq_Inl split: if_splits)
  show False using stages_before(2,5) [OF n v p f] emit_good [of "(n3, s3)"] e by simp
qed

lemma stages_ends:
  assumes n: "nomInv cfg n" "within U n" and v: "set (nominationValues (nomOf env)) \<subseteq> U"
    and fin: "finite U" and k: "room U n < Suc k" and s: "settled s" "mCurrentMessageLevel s = 0"
  shows "stages cfg emit env n s \<noteq> Inl NoReturn"
proof
  assume r: "stages cfg emit env n s = Inl NoReturn"
  obtain m1 n1 c n2 where p: "promoteVotes cfg (nom_votes (nomOf env)) n = (m1, n1)"
    "promoteCandidates cfg n1 = (c, n2)" by fastforce
  have "followLeader cfg (env_statement env) (m1, n2, s) \<noteq> Inl NoReturn"
    using followLeader_errors by fastforce
  then obtain m3 n3 s3 where f: "followLeader cfg (env_statement env) (m1, n2, s) = Inr (m3, n3, s3)"
    using r p by (cases "followLeader cfg (env_statement env) (m1, n2, s)") (auto simp: stages_def)
  note b = stages_before [OF n v p f]
  have ballot: "settled t \<and> mCurrentMessageLevel t = 0" if "ballotRun cfg s t" for t
    using ballotRun_onward [OF that s(1)] s(2) by (simp add: onward_def)
  have s3: "settled s3" "mCurrentMessageLevel s3 = 0" using ballot [OF ballotRun_touch [OF b(4)]] by auto
  have "emit (n3, s3) \<noteq> Inl NoReturn" if m3
  proof -
    have "room U n3 < k" using room_less [OF fin b(2,3)] b(5) [OF that] k by linarith
    then show ?thesis using emit_ends [of "(n3, s3)"] b(2,5) that fin s3 by simp
  qed
  then obtain ns4 where e: "(if m3 then emit (n3, s3) else Inr (n3, s3)) = Inr ns4"
    and u: "c" "updateComposite cfg ns4 = Inl NoReturn"
    using r p f by (fastforce simp: stages_def bindE_eq_Inl split: if_splits)
  have "ballotRun cfg s3 (snd ns4)"
  proof (cases m3)
    case True
    then show ?thesis using emit_keeps [of "(n3, s3)" ns4] b(2,5) e by (simp add: kept_def)
  qed (use e in auto)
  then have "ballotRun cfg s (snd ns4)" using ballotRun_touch [OF b(4)] by (rule rtranclp_trans [rotated])
  then show False using updateComposite_ends [of ns4 cfg] u(2) ballot by blast
qed

text \<open>A whole call.\<close>

lemma process_keeps:
  assumes n: "nomInv cfg (fst ns)" "within U (fst ns)" and v: "set (nominationValues (nomOf env)) \<subseteq> U"
    and a: "admissible cfg env (fst ns)" and r: "processNominationWith cfg emit env ns = Inr (r, ns')"
  shows "kept cfg U ns ns' \<and> (ns' = ns \<or> backs cfg (fst (recordNomination env ns)) (fst ns'))"
proof -
  obtain n s where ns: "ns = (n, s)" by fastforce
  show ?thesis
  proof (cases "isNewerNominationFrom n (st_nodeID (env_statement env)) (nomOf env) \<and> isSaneNomination (nomOf env)")
    case False
    then have "ns' = ns" using r ns by (auto simp: processNominationWith_def Let_def split: if_splits)
    then show ?thesis using kept_refl n by blast
  next
    case True
    obtain n0 s0 where 0: "recordNomination env (n, s) = (n0, s0)" by fastforce
    note st = processNominationWith_stages [OF conjunct1 [OF True] conjunct2 [OF True] 0, of cfg emit]
    have n0: "nomInv cfg n0" "within U n0"
      using recordNomination_inv [of cfg n env s] recordNomination_within [of U n env s] n v a True 0
      by (auto simp: ns admissible_def)
    have "kept cfg U ns (n0, s0)"
      using 0 n0 ballotRun_touch [OF recordNomination_touch, of cfg s env n]
      by (auto simp: ns kept_def extends_def recordNomination_def)
    moreover have "kept cfg U (n0, s0) ns' \<and> backs cfg n0 (fst ns')"
    proof (cases "mNominationStarted s")
      case True
      then show ?thesis using stages_keeps [OF n0 v, of s0 r ns'] r st by (simp add: ns)
    next
      case False
      then show ?thesis using kept_refl [of cfg "(n0, s0)" U] n0 r st by (auto simp: ns)
    qed
    ultimately show ?thesis using kept_trans 0 ns by (metis fst_conv)
  qed
qed

lemma process_errors:
  assumes n: "nomInv cfg (fst ns)" "within U (fst ns)" and v: "set (nominationValues (nomOf env)) \<subseteq> U"
    and a: "admissible cfg env (fst ns)"
  shows "processNominationWith cfg emit env ns \<noteq> Inl badNomination"
    and "\<lbrakk>finite U; room U (fst ns) < Suc k; settled (snd ns); mCurrentMessageLevel (snd ns) = 0\<rbrakk>
      \<Longrightarrow> processNominationWith cfg emit env ns \<noteq> Inl NoReturn"
proof -
  obtain n s where ns: "ns = (n, s)" by fastforce
  have "processNominationWith cfg emit env ns \<noteq> Inl badNomination
    \<and> (finite U \<and> room U n < Suc k \<and> settled s \<and> mCurrentMessageLevel s = 0
        \<longrightarrow> processNominationWith cfg emit env ns \<noteq> Inl NoReturn)"
  proof (cases "isNewerNominationFrom n (st_nodeID (env_statement env)) (nomOf env) \<and> isSaneNomination (nomOf env)")
    case False
    then show ?thesis using ns by (auto simp: processNominationWith_def Let_def)
  next
    case True
    obtain n0 s0 where 0: "recordNomination env (n, s) = (n0, s0)" by fastforce
    note st = processNominationWith_stages [OF conjunct1 [OF True] conjunct2 [OF True] 0, of cfg emit]
    have n0: "nomInv cfg n0" "within U n0"
      using recordNomination_inv [of cfg n env s] recordNomination_within [of U n env s] n v a True 0
      by (auto simp: ns admissible_def)
    have "room U n0 = room U n" using 0 by (auto simp: recordNomination_def room_def)
    moreover have "settled s0" "mCurrentMessageLevel s0 = 0" if "settled s" "mCurrentMessageLevel s = 0"
      using that 0 by (auto simp: recordNomination_def recordStatement_def settled_def)
    ultimately show ?thesis using st stages_good [OF n0 v] stages_ends [OF n0 v] by (simp add: ns)
  qed
  then show "processNominationWith cfg emit env ns \<noteq> Inl badNomination"
    and "\<lbrakk>finite U; room U (fst ns) < Suc k; settled (snd ns); mCurrentMessageLevel (snd ns) = 0\<rbrakk>
      \<Longrightarrow> processNominationWith cfg emit env ns \<noteq> Inl NoReturn"
    by (simp_all add: ns)
qed

lemma process_valid:
  assumes n: "nomInv cfg (fst ns)" "within U (fst ns)" and v: "set (nominationValues (nomOf env)) \<subseteq> U"
    and a: "admissible cfg env (fst ns)" and r: "processNominationWith cfg emit env ns = Inr (r, ns')"
    and ok: "isNewerNominationFrom (fst ns) (st_nodeID (env_statement env)) (nomOf env)"
      "isSaneNomination (nomOf env)"
  shows "r = VALID"
proof -
  obtain n s where ns: "ns = (n, s)" by fastforce
  obtain n0 s0 where 0: "recordNomination env (n, s) = (n0, s0)" by fastforce
  have st: "processNominationWith cfg emit env (n, s) =
      (if mNominationStarted s then stages cfg emit env n0 s0 else Inr (VALID, n0, s0))"
    by (rule processNominationWith_stages) (use ok ns 0 in auto)
  have "nomInv cfg n0" "within U n0"
    using recordNomination_inv [of cfg n env s] recordNomination_within [of U n env s] n v a ok 0
    by (auto simp: ns admissible_def)
  from stages_keeps [OF this v, of s0 r ns'] show ?thesis using r st by (auto simp: ns split: if_splits)
qed

end

subsection \<open>Emitting, and the recursion\<close>

text \<open>What the node says of itself passes its own checks.\<close>

lemma own_envelope:
  assumes "fresh cfg n" "within U n"
  defines "env \<equiv> createEnvelope cfg (nominationPledges cfg n)"
  shows "isNewerNominationFrom n (st_nodeID (env_statement env)) (nomOf env)" "isSaneNomination (nomOf env)"
    "set (nominationValues (nomOf env)) \<subseteq> U" "admissible cfg env n"
proof -
  have e: "nomOf env = nominationPledges cfg n" "st_nodeID (env_statement env) = cfg_localNodeID cfg"
    by (simp_all add: env_def createEnvelope_def Let_def)
  note i = assms(1) [unfolded fresh_def nomInv_def]
  show s: "isSaneNomination (nomOf env)"
    using i by (simp add: e isSaneNomination_def strictlyIncreasing_sorted nominationPledges_def)
  show "isNewerNominationFrom n (st_nodeID (env_statement env)) (nomOf env)"
  proof (cases "map_of (mLatestNominations n) (cfg_localNodeID cfg)")
    case (Some old)
    have "isSaneNomination (nomOf old)" using i Some by blast
    from isNewerNomination_iff [OF this s] show ?thesis
      using i Some by (simp add: isNewerNominationFrom_def e nominationPledges_def)
  qed (simp add: isNewerNominationFrom_def e)
  show "set (nominationValues (nomOf env)) \<subseteq> U"
    using assms(2) by (simp add: e within_def nominationValues_def nominationPledges_def)
  show "admissible cfg env n" by (simp add: admissible_def e nominationPledges_def getQuorumSetFromStatement_def)
qed

lemma keepLastNomination_keeps:
  assumes "nomInv cfg (fst ns)" "within U (fst ns)"
  shows "kept cfg U ns (keepLastNomination env ns)"
proof -
  obtain n s where ns: "ns = (n, s)" by fastforce
  have "ballotRun cfg s (if mFullyValidated s then log (EmitEnvelope env) s else s)"
    using ballotRun_touch [OF nominationTouch_log [of "EmitEnvelope env" s]] by simp
  moreover have "nomInv cfg (n\<lparr>mNomLastEnvelope := Some env\<rparr>)" "within U (n\<lparr>mNomLastEnvelope := Some env\<rparr>)"
    using assms by (simp_all add: ns nomInv_def within_def)
  ultimately show ?thesis using assms by (auto simp: ns keepLastNomination_def kept_def extends_def)
qed

context nominating
begin

lemma emission_keeps:
  assumes f: "fresh cfg (fst ns)" "within U (fst ns)"
    and r: "emitNominationWith cfg (processNominationWith cfg emit) ns = Inr ns'"
  shows "kept cfg U ns ns' \<and> backs cfg (fst ns) (fst ns')"
proof -
  define env where "env = createEnvelope cfg (nominationPledges cfg (fst ns))"
  note o = own_envelope [OF f, folded env_def]
  have n: "nomInv cfg (fst ns)" using f by (simp add: fresh_def)
  obtain ns1 where p: "processNominationWith cfg emit env ns = Inr (VALID, ns1)"
    and k: "ns' = keepLastNomination env ns1"
    using r by (auto simp: emitNominationWith_def Let_def env_def [symmetric] split: if_splits)
  have 1: "kept cfg U ns ns1 \<and> (ns1 = ns \<or> backs cfg (fst (recordNomination env ns)) (fst ns1))"
    by (rule process_keeps [OF n f(2) o(3,4) p])
  then have "kept cfg U ns1 ns'" unfolding k by (intro keepLastNomination_keeps) (simp_all add: kept_def)
  moreover have "backs cfg (fst ns) (fst (recordNomination env ns))"
  proof (rule backs_same)
    have e: "st_nodeID (env_statement env) = cfg_localNodeID cfg" "nomOf env = nominationPledges cfg (fst ns)"
      "getQuorumSetFromStatement cfg (env_statement env) = cfg_getQSet cfg (cfg_qSetHash cfg)"
      by (simp_all add: env_def createEnvelope_def Let_def nominationPledges_def getQuorumSetFromStatement_def)
    then show "agree cfg (mLatestNominations (fst ns)) (mLatestNominations (fst (recordNomination env ns)))"
      using n by (auto simp: agree_def recordNomination_def sorted_mapPut nomInv_def nominationPledges_def
          split: prod.split)
  qed (simp add: recordNomination_def split: prod.split)
  moreover have "backs cfg (fst ns1) (fst ns')"
    by (rule backs_same) (auto simp: k keepLastNomination_def split: prod.split)
  ultimately show ?thesis using 1 kept_trans backs_trans backs_refl by metis
qed

lemma emission_errors:
  assumes f: "fresh cfg (fst ns)" "within U (fst ns)"
    and r: "emitNominationWith cfg (processNominationWith cfg emit) ns = Inl e"
  shows "e \<noteq> badNomination"
    and "\<lbrakk>finite U; room U (fst ns) < Suc k; settled (snd ns); mCurrentMessageLevel (snd ns) = 0\<rbrakk> \<Longrightarrow> e \<noteq> NoReturn"
proof -
  define env where "env = createEnvelope cfg (nominationPledges cfg (fst ns))"
  note o = own_envelope [OF f, folded env_def]
  have n: "nomInv cfg (fst ns)" using f by (simp add: fresh_def)
  have "processNominationWith cfg emit env ns = Inl e"
    using r process_valid [OF n f(2) o(3,4) _ o(1,2)]
    by (auto simp: emitNominationWith_def Let_def env_def [symmetric] bindE_eq_Inl split: if_splits)
  then show "e \<noteq> badNomination"
    and "\<lbrakk>finite U; room U (fst ns) < Suc k; settled (snd ns); mCurrentMessageLevel (snd ns) = 0\<rbrakk> \<Longrightarrow> e \<noteq> NoReturn"
    using process_errors [OF n f(2) o(3,4)] by auto
qed

end

lemma emitNomination_Suc:
  "emitNomination cfg (Suc k) = emitNominationWith cfg (processNominationWith cfg (emitNomination cfg k))"
  by (rule ext) (simp add: emitNominationWith_def)

lemma nominating_emit: "closedValues cfg U \<Longrightarrow> nominating cfg U (emitNomination cfg k) k"
proof (induction k)
  case 0
  then show ?case by unfold_locales (auto simp: emitNominationWith_def Let_def badNomination_def)
next
  case (Suc k)
  note i = Suc.IH [OF Suc.prems]
  show ?case unfolding emitNomination_Suc
    by unfold_locales (use Suc.prems nominating.emission_keeps [OF i] nominating.emission_errors [OF i] in blast)+
qed

interpretation np: nominating cfg UNIV "emitNomination cfg k" k for cfg k
  by (rule nominating_emit) (simp add: closedValues_def)

end
