(* ===== verification/Slots.thy ===== *)
theory Slots
  imports Nomination_Safety
begin

section \<open>Slots and the front end of the protocol (src/src/scp/Slot.cpp, src/src/scp/SCP.cpp)\<close>

text \<open>
  A slot is the pair of its nomination protocol and of its ballot protocol; \<^verbatim>\<open>SCP\<close> keeps the slots by index
  and passes every call on. The environment of a slot is a \<^typ>\<open>Config\<close>; the front end is given one for every
  slot index and the driver's check of signatures. Getting a slot creates it where the code asks for that.
  The JSON output is left out.
\<close>

subsection \<open>One slot\<close>

definition newSlotState :: "Config \<Rightarrow> NomState" where
  "newSlotState cfg = (newNomination, newSlot cfg)"

definition isNominate :: "SCPPledges \<Rightarrow> bool" where
  "isNominate pl = (case pl of SCP_ST_NOMINATE _ _ _ \<Rightarrow> True | _ \<Rightarrow> False)"

definition slotProcessEnvelope :: "Config \<Rightarrow> nat \<Rightarrow> SCPEnvelope \<Rightarrow> bool \<Rightarrow> NomState
    \<Rightarrow> cpp_error + EnvelopeState \<times> NomState" where
  "slotProcessEnvelope cfg k envelope self ns =
     bindE (ensureE (st_slotIndex (env_statement envelope) = cfg_slotIndex cfg) AssertionFailed) (\<lambda>_.
     if isNominate (st_pledges (env_statement envelope))
     then processNominationF cfg k envelope ns
     else case ns of (n, s) \<Rightarrow>
       bindE (processEnvelope cfg envelope self s) (\<lambda>(res, s1). Inr (res, n, s1)))"

definition slotAbandonBallot :: "Config \<Rightarrow> NomState \<Rightarrow> cpp_error + bool \<times> NomState" where
  "slotAbandonBallot cfg ns = (case ns of (n, s) \<Rightarrow>
     bindE (abandonBallot cfg 0 s) (\<lambda>(r, s1). Inr (r, n, s1)))"

definition slotBumpState :: "Config \<Rightarrow> Value \<Rightarrow> bool \<Rightarrow> NomState \<Rightarrow> cpp_error + bool \<times> NomState" where
  "slotBumpState cfg value force ns = (case ns of (n, s) \<Rightarrow>
     bindE (bumpState cfg value force s) (\<lambda>(r, s1). Inr (r, n, s1)))"

definition setFullyValidated :: "bool \<Rightarrow> NomState \<Rightarrow> NomState" where
  "setFullyValidated b ns = (case ns of (n, s) \<Rightarrow> (n, s\<lparr>mFullyValidated := b\<rparr>))"

definition slotSetStateFromEnvelope :: "Config \<Rightarrow> SCPEnvelope \<Rightarrow> NomState \<Rightarrow> cpp_error + NomState" where
  "slotSetStateFromEnvelope cfg e ns =
     (if st_nodeID (env_statement e) = cfg_localNodeID cfg \<and> st_slotIndex (env_statement e) = cfg_slotIndex cfg
      then (if isNominate (st_pledges (env_statement e)) then setNominationFromEnvelope e ns
            else case ns of (n, s) \<Rightarrow> bindE (setStateFromEnvelope e s) (\<lambda>s1. Inr (n, s1)))
      else Inr ns)"

definition slotCurrentState :: "Config \<Rightarrow> NomState \<Rightarrow> SCPEnvelope list" where
  "slotCurrentState cfg ns = getNominationState cfg ns @ getCurrentState cfg (snd ns)"

definition slotExternalizingState :: "Config \<Rightarrow> NomState \<Rightarrow> cpp_error + SCPEnvelope list" where
  "slotExternalizingState cfg ns = getExternalizingState cfg (snd ns)"

text \<open>The flag is set for the call and reset after it.\<close>

definition slotEntireCurrentState :: "Config \<Rightarrow> NomState \<Rightarrow> SCPEnvelope list" where
  "slotEntireCurrentState cfg ns = slotCurrentState cfg (setFullyValidated True ns)"

definition slotLatestMessagesSend :: "NomState \<Rightarrow> SCPEnvelope list" where
  "slotLatestMessagesSend ns = (case ns of (n, s) \<Rightarrow>
     if mFullyValidated s then
       (case mNomLastEnvelope n of None \<Rightarrow> [] | Some e \<Rightarrow> [e])
       @ (case mLastEnvelopeEmit s of None \<Rightarrow> [] | Some e \<Rightarrow> [e])
     else [])"

definition slotStatementValues :: "SCPStatement \<Rightarrow> Value list" where
  "slotStatementValues st =
     (if isNominate (st_pledges st) then nominationValues (st_pledges st)
      else [bal_value (getWorkingBallot st)])"

text \<open>The statements of the history by node; \<open>pick\<close> is the order of the hash set of the search.\<close>

definition statementsByNode :: "SCPStatement list \<Rightarrow> (NodeID \<times> SCPStatement list) list" where
  "statementsByNode sts = fold (\<lambda>st m. mapPut (st_nodeID st)
     ((case map_of m (st_nodeID st) of None \<Rightarrow> [] | Some l \<Rightarrow> l) @ [st]) m) sts []"

definition slotIsNodeInQuorum :: "(NodeID list \<Rightarrow> nat) \<Rightarrow> Config \<Rightarrow> NodeID \<Rightarrow> NomState \<Rightarrow> TriBool" where
  "slotIsNodeInQuorum pick cfg node ns =
     isNodeInQuorum pick (cfg_localNodeID cfg) node
       (\<lambda>st. cfg_getQSet cfg (getCompanionQuorumSetHashFromStatement st))
       (statementsByNode (map fst (mStatementsHistory (snd ns))))"

subsection \<open>The front end\<close>

type_synonym KnownSlots = "(u64 \<times> NomState) list"

definition getOrCreateSlot :: "(u64 \<Rightarrow> Config) \<Rightarrow> u64 \<Rightarrow> KnownSlots \<Rightarrow> NomState" where
  "getOrCreateSlot cfgs i slots = (case map_of slots i of None \<Rightarrow> newSlotState (cfgs i) | Some ns \<Rightarrow> ns)"

definition receiveEnvelope :: "(u64 \<Rightarrow> Config) \<Rightarrow> (SCPEnvelope \<Rightarrow> bool) \<Rightarrow> nat \<Rightarrow> SCPEnvelope \<Rightarrow> KnownSlots
    \<Rightarrow> cpp_error + EnvelopeState \<times> KnownSlots" where
  "receiveEnvelope cfgs verifyEnvelope k envelope slots =
     (if \<not> verifyEnvelope envelope then Inr (INVALID, slots)
      else let i = st_slotIndex (env_statement envelope) in
        bindE (slotProcessEnvelope (cfgs i) k envelope False (getOrCreateSlot cfgs i slots)) (\<lambda>(res, ns).
          Inr (res, mapPut i ns slots)))"

definition scpNominate :: "(u64 \<Rightarrow> Config) \<Rightarrow> nat \<Rightarrow> u64 \<Rightarrow> Value \<Rightarrow> Value \<Rightarrow> KnownSlots
    \<Rightarrow> cpp_error + bool \<times> KnownSlots" where
  "scpNominate cfgs k i value previousValue slots =
     bindE (ensureE (cfg_isValidator (cfgs i)) AssertionFailed) (\<lambda>_.
     bindE (nominate (cfgs i) k value previousValue False (getOrCreateSlot cfgs i slots)) (\<lambda>(res, ns).
       Inr (res, mapPut i ns slots)))"

definition scpStopNomination :: "u64 \<Rightarrow> KnownSlots \<Rightarrow> KnownSlots" where
  "scpStopNomination i slots = (case map_of slots i of
     None \<Rightarrow> slots | Some ns \<Rightarrow> mapPut i (stopNomination ns) slots)"

definition purgeSlots :: "u64 \<Rightarrow> KnownSlots \<Rightarrow> KnownSlots" where
  "purgeSlots maxSlotIndex slots = filter (\<lambda>(i, ns). \<not> i < maxSlotIndex) slots"

definition scpSetStateFromEnvelope :: "(u64 \<Rightarrow> Config) \<Rightarrow> (SCPEnvelope \<Rightarrow> bool) \<Rightarrow> u64 \<Rightarrow> SCPEnvelope \<Rightarrow> KnownSlots
    \<Rightarrow> cpp_error + KnownSlots" where
  "scpSetStateFromEnvelope cfgs verifyEnvelope i e slots =
     (if verifyEnvelope e then
        bindE (slotSetStateFromEnvelope (cfgs i) e (getOrCreateSlot cfgs i slots)) (\<lambda>ns. Inr (mapPut i ns slots))
      else Inr slots)"

definition isSlotFullyValidated :: "u64 \<Rightarrow> KnownSlots \<Rightarrow> bool" where
  "isSlotFullyValidated i slots = (case map_of slots i of None \<Rightarrow> False | Some ns \<Rightarrow> mFullyValidated (snd ns))"

definition getKnownSlotsCount :: "KnownSlots \<Rightarrow> nat" where
  "getKnownSlotsCount slots = length slots"

definition getCumulativeStatemtCount :: "KnownSlots \<Rightarrow> nat" where
  "getCumulativeStatemtCount slots = foldl (\<lambda>c (i, ns). c + length (mStatementsHistory (snd ns))) 0 slots"

definition scpLatestMessagesSend :: "u64 \<Rightarrow> KnownSlots \<Rightarrow> SCPEnvelope list" where
  "scpLatestMessagesSend i slots = (case map_of slots i of None \<Rightarrow> [] | Some ns \<Rightarrow> slotLatestMessagesSend ns)"

definition scpCurrentState :: "(u64 \<Rightarrow> Config) \<Rightarrow> u64 \<Rightarrow> KnownSlots \<Rightarrow> SCPEnvelope list" where
  "scpCurrentState cfgs i slots = (case map_of slots i of None \<Rightarrow> [] | Some ns \<Rightarrow> slotCurrentState (cfgs i) ns)"

definition scpExternalizingState :: "(u64 \<Rightarrow> Config) \<Rightarrow> u64 \<Rightarrow> KnownSlots \<Rightarrow> cpp_error + SCPEnvelope list" where
  "scpExternalizingState cfgs i slots =
     (case map_of slots i of None \<Rightarrow> Inr [] | Some ns \<Rightarrow> slotExternalizingState (cfgs i) ns)"

definition getLowSlotIndex :: "KnownSlots \<Rightarrow> cpp_error + u64" where
  "getLowSlotIndex slots = (case slots of [] \<Rightarrow> Inl AssertionFailed | (i, ns) # _ \<Rightarrow> Inr i)"

definition getHighSlotIndex :: "KnownSlots \<Rightarrow> cpp_error + u64" where
  "getHighSlotIndex slots = (if slots = [] then Inl AssertionFailed else Inr (fst (last slots)))"

text \<open>From the newest slot on, the first one that knows.\<close>

fun isNodeInQuorumFrom :: "(NodeID list \<Rightarrow> nat) \<Rightarrow> (u64 \<Rightarrow> Config) \<Rightarrow> NodeID \<Rightarrow> TriBool \<Rightarrow> KnownSlots \<Rightarrow> TriBool" where
  "isNodeInQuorumFrom pick cfgs node res [] = res"
| "isNodeInQuorumFrom pick cfgs node res ((i, ns) # older) =
     (let res = slotIsNodeInQuorum pick (cfgs i) node ns in
      if res = TB_TRUE \<or> res = TB_FALSE then res else isNodeInQuorumFrom pick cfgs node res older)"

definition scpIsNodeInQuorum :: "(NodeID list \<Rightarrow> nat) \<Rightarrow> (u64 \<Rightarrow> Config) \<Rightarrow> NodeID \<Rightarrow> KnownSlots \<Rightarrow> TriBool" where
  "scpIsNodeInQuorum pick cfgs node slots = isNodeInQuorumFrom pick cfgs node TB_MAYBE (rev slots)"

subsection \<open>The hashes that rank nodes and values (src/src/scp/SCPDriver.cpp)\<close>

text \<open>SHA-256 is the parameter \<open>sha\<close>, on the bytes that the code adds one after the other. XDR writes an
  integer with its most significant byte at the front, and pads opaque data to a multiple of four.\<close>

fun bytesBE :: "nat \<Rightarrow> int \<Rightarrow> u8 list" where
  "bytesBE 0 x = []"
| "bytesBE (Suc w) x = bytesBE w (x div 256) @ [of_int x]"

definition xdrValue :: "Value \<Rightarrow> u8 list" where
  "xdrValue v = bytesBE 4 (int (length v)) @ v @ replicate ((4 - length v mod 4) mod 4) 0"

definition xdrNodeID :: "NodeID \<Rightarrow> u8 list" where
  "xdrNodeID n = bytesBE 4 0 @ bytesBE 32 (uint n)"

definition hashHelper :: "(u8 list \<Rightarrow> u8 list) \<Rightarrow> u64 \<Rightarrow> Value \<Rightarrow> u8 list \<Rightarrow> u64" where
  "hashHelper sha slotIndex prev extra =
     foldl (\<lambda>res b. or (push_bit 8 res) (ucast b)) 0
       (take 8 (sha (bytesBE 8 (uint slotIndex) @ xdrValue prev @ extra)))"

definition hash_N :: int where "hash_N = 1"
definition hash_P :: int where "hash_P = 2"
definition hash_K :: int where "hash_K = 3"

definition nodeHashInput :: "bool \<Rightarrow> int \<Rightarrow> NodeID \<Rightarrow> u8 list" where
  "nodeHashInput isPriority roundNumber nodeID =
     bytesBE 4 (if isPriority then hash_P else hash_N) @ bytesBE 4 roundNumber @ xdrNodeID nodeID"

definition valueHashInput :: "int \<Rightarrow> Value \<Rightarrow> u8 list" where
  "valueHashInput roundNumber value = bytesBE 4 hash_K @ bytesBE 4 roundNumber @ xdrValue value"

definition computeHashNode :: "(u8 list \<Rightarrow> u8 list) \<Rightarrow> u64 \<Rightarrow> Value \<Rightarrow> bool \<Rightarrow> int \<Rightarrow> NodeID \<Rightarrow> u64" where
  "computeHashNode sha slotIndex prev isPriority roundNumber nodeID =
     hashHelper sha slotIndex prev (nodeHashInput isPriority roundNumber nodeID)"

definition computeValueHash :: "(u8 list \<Rightarrow> u8 list) \<Rightarrow> u64 \<Rightarrow> Value \<Rightarrow> int \<Rightarrow> Value \<Rightarrow> u64" where
  "computeValueHash sha slotIndex prev roundNumber value =
     hashHelper sha slotIndex prev (valueHashInput roundNumber value)"

end
