(* ===== verification/Nomination_Runs.thy ===== *)
theory Nomination_Runs
  imports Slots
begin

section \<open>Runs of a slot\<close>

text \<open>
  A slot with both of its protocols as a step relation, starting from a new slot, and what its runs keep.
  The envelopes received are other nodes': \<^verbatim>\<open>HerderImpl::recvSCPEnvelope\<close> discards the node's own.
\<close>

subsection \<open>Starting a round\<close>

lemma updateRoundLeaders_frame:
  "updateRoundLeaders cfg n = Inr n' \<Longrightarrow> \<exists>l. n' = n\<lparr>mRoundLeaders := l\<rparr>"
  by (auto simp: updateRoundLeaders_def Let_def)

lemma leaders_inv [simp]:
  "nomInv cfg (n\<lparr>mRoundLeaders := l\<rparr>) = nomInv cfg n"
  "nomInv cfg (n\<lparr>mPreviousValue := p, mRoundNumber := r\<rparr>) = nomInv cfg n"
  "within U (n\<lparr>mRoundLeaders := l\<rparr>) = within U n"
  "within U (n\<lparr>mPreviousValue := p, mRoundNumber := r\<rparr>) = within U n"
  by (simp_all add: nomInv_def within_def)

lemma followLeaders_step:
  assumes "nomInv cfg n" "followLeaders cfg ls (u, v, n) = Inr (u', v', n')"
  shows "nomInv cfg n' \<and> grown n n' \<and> (u' \<longrightarrow> u \<or> widened n n')
    \<and> (closedValues cfg U \<and> within U n \<longrightarrow> within U n')"
  using assms
proof (induction ls arbitrary: u v n)
  case (Cons l ls)
  show ?case
  proof (cases "map_of (mLatestNominations n) l")
    case None
    then show ?thesis using Cons.IH [OF Cons.prems(1), of u v] Cons.prems(2) by simp
  next
    case (Some env)
    then obtain w where w: "getNewValueFromNomination cfg n (nomOf env) = Inr w"
      and r: "followLeaders cfg ls (if w \<noteq> [] then (True, w, n\<lparr>mVotes := insort_insert w (mVotes n)\<rparr>)
        else (u, w, n)) = Inr (u', v', n')"
      using Cons.prems(2) by auto
    show ?thesis
    proof (cases "w = []")
      case True
      then show ?thesis using Cons.IH [OF Cons.prems(1), of u "[]"] r by simp
    next
      case False
      then have v: "w \<in> valueToNominate cfg ` set (nominationValues (nomOf env))" "w \<notin> set (mVotes n)"
        using getNewValue_result [OF w] by auto
      let ?n = "n\<lparr>mVotes := insort_insert w (mVotes n)\<rparr>"
      note a = addVote_step [OF Cons.prems(1) v(2)]
      have 2: "nomInv cfg n' \<and> grown ?n n' \<and> (u' \<longrightarrow> True \<or> widened ?n n')
          \<and> (closedValues cfg U \<and> within U ?n \<longrightarrow> within U n')"
        by (rule Cons.IH [OF a(1)]) (use r False in simp)
      have "w \<in> U" if "closedValues cfg U" "within U n"
        using v(1) False that Some unfolding closedValues_def within_def by blast
      then have "closedValues cfg U \<and> within U n \<longrightarrow> within U n'" using 2 a(4) by blast
      moreover have "widened n n'" using widened_grown [OF a(2), of n'] 2 a(3) by blast
      ultimately show ?thesis using 2 grown_trans [OF a(2)] by blast
    qed
  qed
qed simp

lemma startRound_step:
  assumes "nomInv cfg n" "startRound cfg value prev n = Inr (u, v, n')"
  shows "nomInv cfg n' \<and> grown n n' \<and> (u \<longrightarrow> widened n n')
    \<and> (closedValues cfg U \<and> within U n \<and> value \<in> U \<longrightarrow> within U n')"
proof -
  let ?n = "n\<lparr>mPreviousValue := prev, mRoundNumber := mRoundNumber n + 1\<rparr>"
  obtain n1 where n1: "updateRoundLeaders cfg ?n = Inr n1" using assms(2) by (auto simp: startRound_def)
  obtain l where l: "n1 = ?n\<lparr>mRoundLeaders := l\<rparr>" using updateRoundLeaders_frame [OF n1] ..
  have i: "nomInv cfg n1" using assms(1) by (simp add: l)
  have g: "grown n n1" by (simp add: l grown_def)
  have w: "within U n1 = within U n" by (simp add: l)
  have wd: "widened n1 n' = widened n n'" for n' by (simp add: l widened_def)
  have gr: "grown n1 n' = grown n n'" for n' by (simp add: l grown_def)
  show ?thesis
  proof (cases "cfg_localNodeID cfg \<in> set (mRoundLeaders n1)")
    case True
    then have r: "u = (value \<notin> set (mVotes n1))" "n' = n1\<lparr>mVotes := insort_insert value (mVotes n1)\<rparr>"
      using assms(2) n1 by (auto simp: startRound_def)
    show ?thesis
    proof (cases u)
      case True
      then have "value \<notin> set (mVotes n1)" using r(1) by simp
      from addVote_step [OF i this] show ?thesis using r(2) w wd gr by simp
    next
      case False
      then have "n' = n1" using r by (simp add: insort_insert_key_def)
      then show ?thesis using i g w False by simp
    qed
  next
    case False
    then have "followLeaders cfg (mRoundLeaders n1) (False, [], n1) = Inr (u, v, n')"
      using assms(2) n1 by (simp add: startRound_def)
    from followLeaders_step [OF i this, of U] show ?thesis using w wd gr by simp
  qed
qed

lemma followLeaders_errors: "followLeaders cfg ls r = Inl e \<Longrightarrow> e = AssertionFailed"
proof (induction ls arbitrary: r)
  case (Cons l ls)
  obtain u v n where r: "r = (u, v, n)" by (cases r) auto
  show ?case
  proof (cases "map_of (mLatestNominations n) l")
    case None
    then show ?thesis using Cons r by simp
  next
    case (Some env)
    then show ?thesis using Cons r newVoteLoop_errors
      by (auto simp: bindE_eq_Inl getNewValueFromNomination_def split: if_splits)
  qed
qed simp

lemma getNodeWeight_errors: "getNodeWeight m q = Inl e \<Longrightarrow> e = RuntimeError ''Error: division or modulus by 0''"
proof (induction q)
  case (QSet t vs ss)
  have w: "weighU64 n d a = Inl e \<Longrightarrow> e = RuntimeError ''Error: division or modulus by 0''" for n d a
    by (auto simp: weighU64_def bindE_eq_Inl bigDivide_u64_def div_u128_def Let_def split: if_splits)
  have "firstLeaf (weighU64 n d) (map (getNodeWeight m) ws) = Inl e
      \<Longrightarrow> e = RuntimeError ''Error: division or modulus by 0''" if "set ws \<subseteq> set ss" for n d ws
    using that
  proof (induction ws)
    case (Cons s ws)
    then show ?case using QSet.IH w by (auto simp: bindE_eq_Inl split: if_splits)
  qed simp
  from this [of ss] show ?case using QSet.prems w by (auto simp: Let_def split: if_splits)
qed

lemma getNodePriority_errors:
  "getNodePriority cfg n m q = Inl e \<Longrightarrow> e = AssertionFailed \<or> e = RuntimeError ''Error: division or modulus by 0''"
  by (auto simp: getNodePriority_def hashNode_def bindE_eq_Inl split: if_splits dest: getNodeWeight_errors)

lemma startRound_errors:
  assumes "startRound cfg v p n = Inl e"
  shows "e \<noteq> badNomination" "e \<noteq> NoReturn"
proof -
  have loop: "leadersLoop (\<lambda>m. getNodePriority cfg n m q) ms acc = Inl e
      \<Longrightarrow> e = AssertionFailed \<or> e = RuntimeError ''Error: division or modulus by 0''" for n q ms acc
  proof (induction ms arbitrary: acc)
    case (Cons m ms)
    from Cons.prems consider "getNodePriority cfg n m q = Inl e"
      | x where "leadersLoop (\<lambda>m. getNodePriority cfg n m q) ms (raiseLeader m x acc) = Inl e"
      by (auto simp: bindE_eq_Inl)
    then show ?case using getNodePriority_errors Cons.IH by cases blast+
  qed simp
  have "e = AssertionFailed \<or> e = RuntimeError ''Error: division or modulus by 0''"
    using assms getNodePriority_errors loop followLeaders_errors
    by (fastforce simp: startRound_def updateRoundLeaders_def Let_def bindE_eq_Inl split: if_splits)
  then show "e \<noteq> badNomination" "e \<noteq> NoReturn" by (auto simp: badNomination_def)
qed

subsection \<open>Nominating and processing keep the invariant\<close>

lemma nominate_started:
  fixes s :: Slot
  assumes "startRound cfg value prev n = Inr (u, v, n1)"
  defines "s1 \<equiv> log (SetupTimer NOMINATION_TIMER (computeTimeout (mRoundNumber n1)))
      (log (NominatingValue v) (s\<lparr>mNominationStarted := True\<rparr>))"
  shows "\<not> (t \<and> \<not> mNominationStarted s) \<Longrightarrow> nominate cfg k value prev t (n, s) =
      (if u then bindE (emitNomination cfg k (n1, s1)) (\<lambda>ns2. Inr (True, ns2)) else Inr (False, n1, s1))"
    and "nominationTouch s s1"
proof -
  show "\<not> (t \<and> \<not> mNominationStarted s) \<Longrightarrow> nominate cfg k value prev t (n, s) =
      (if u then bindE (emitNomination cfg k (n1, s1)) (\<lambda>ns2. Inr (True, ns2)) else Inr (False, n1, s1))"
    using assms(1) by (auto simp: nominate_def s1_def Let_def)
  show "nominationTouch s s1"
    using nominationTouchI [of "[NominatingValue v, SetupTimer NOMINATION_TIMER (computeTimeout (mRoundNumber n1))]",
        where s = s and h = "mStatementsHistory s" and b = True and v = "mLatestCompositeCandidate s"]
    by (simp add: s1_def log_def)
qed

lemma nominate_keeps:
  assumes n: "nomInv cfg (fst ns)" and w: "within U (fst ns)" "closedValues cfg U" "value \<in> U"
    and r: "nominate cfg k value prev t ns = Inr (r, ns')"
  shows "kept cfg U ns ns' \<and> backs cfg (fst ns) (fst ns')"
proof -
  obtain n0 s where ns: "ns = (n0, s)" by fastforce
  show ?thesis
  proof (cases "t \<and> \<not> mNominationStarted s")
    case True
    then have "ns' = ns" using r by (simp add: ns nominate_def)
    then show ?thesis using kept_refl n w by simp
  next
    case False
    then obtain u v n1 where 1: "startRound cfg value prev n0 = Inr (u, v, n1)"
      using r by (auto simp: ns nominate_def)
    let ?s1 = "log (SetupTimer NOMINATION_TIMER (computeTimeout (mRoundNumber n1)))
      (log (NominatingValue v) (s\<lparr>mNominationStarted := True\<rparr>))"
    note st = startRound_step [OF n [unfolded ns fst_conv] 1, of U]
    note e = nominate_started(1) [OF 1 False, of k] and t = nominate_started(2) [OF 1, of s]
    have c: "mCandidates n1 = mCandidates n0"
    proof -
      have f: "followLeaders cfg ls a = Inr (u', v', n') \<Longrightarrow> mCandidates n' = mCandidates (snd (snd a))"
        for ls a u' v' n'
      proof (induction ls arbitrary: a)
        case (Cons l ls)
        then show ?case by (cases a) (fastforce split: option.splits if_splits)
      qed simp
      from 1 show ?thesis
        by (auto simp: startRound_def split: if_splits dest!: updateRoundLeaders_frame f)
    qed
    have w1: "within U n1" "nomInv cfg n1" using st w ns by auto
    have 2: "kept cfg U ns (n1, ?s1)"
      using st w1 ballotRun_touch [OF t] by (simp add: ns kept_def grown_extends)
    have b: "backs cfg n0 n1" using grown_backs st c by blast
    show ?thesis
    proof (cases u)
      case False
      then show ?thesis using e r 2 b by (auto simp: ns)
    next
      case True
      then have "fresh cfg n1" using fresh_widened [of cfg n0 n1] n st w1 ns by simp
      moreover have "emitNomination cfg k (n1, ?s1) = Inr ns'" using e r True by (auto simp: ns)
      ultimately have "kept cfg U (n1, ?s1) ns'" "backs cfg n1 (fst ns')"
        using nominating.emit_keeps [OF nominating_emit [OF w(2)], of "(n1, ?s1)"]
          nominating.emit_backs [OF nominating_emit [OF w(2)], of "(n1, ?s1)"] w1 by auto
      then show ?thesis using 2 b kept_trans backs_trans ns by (metis fst_conv)
    qed
  qed
qed

lemma nominate_errors:
  assumes n: "nomInv cfg (fst ns)" and r: "nominate cfg k value prev t ns = Inl e"
  shows "e \<noteq> badNomination"
    and "\<lbrakk>within U (fst ns); closedValues cfg U; value \<in> U; finite U; room U (fst ns) \<le> k;
      settled (snd ns); mCurrentMessageLevel (snd ns) = 0\<rbrakk> \<Longrightarrow> e \<noteq> NoReturn"
proof -
  obtain n0 s where ns: "ns = (n0, s)" by fastforce
  have go: "\<not> (t \<and> \<not> mNominationStarted s)" using r by (auto simp: ns nominate_def split: if_splits)
  have "e \<noteq> badNomination \<and> (within U n0 \<and> closedValues cfg U \<and> value \<in> U \<and> finite U \<and> room U n0 \<le> k
      \<and> settled s \<and> mCurrentMessageLevel s = 0 \<longrightarrow> e \<noteq> NoReturn)"
  proof (cases "startRound cfg value prev n0")
    case (Inl x)
    then have "e = x" using r go by (auto simp: ns nominate_def)
    then show ?thesis using startRound_errors [OF Inl] by simp
  next
    case (Inr y)
    obtain u v n1 where 1: "startRound cfg value prev n0 = Inr (u, v, n1)" using Inr by (cases y) auto
    let ?s1 = "log (SetupTimer NOMINATION_TIMER (computeTimeout (mRoundNumber n1)))
      (log (NominatingValue v) (s\<lparr>mNominationStarted := True\<rparr>))"
    note st = startRound_step [OF n [unfolded ns fst_conv] 1]
    have u: u and em: "emitNomination cfg k (n1, ?s1) = Inl e"
      using r nominate_started(1) [OF 1 go, of k] by (auto simp: ns bindE_eq_Inl split: if_splits)
    have fr: "fresh cfg n1" using fresh_widened [of cfg n0 n1] n st [of UNIV] u ns by simp
    have "e \<noteq> badNomination" using np.emit_good [of cfg "(n1, ?s1)" k] fr em by (auto simp: within_def)
    moreover have "e \<noteq> NoReturn" if h: "within U n0" "closedValues cfg U" "value \<in> U" "finite U" "room U n0 \<le> k"
      "settled s" "mCurrentMessageLevel s = 0"
    proof -
      have w: "within U n1" using st [of U] h by blast
      have "room U n1 < k" using room_less [OF h(4) w, of n0] st [of U] u h(5) by linarith
      moreover have "settled ?s1" "mCurrentMessageLevel ?s1 = 0" using h by (simp_all add: settled_def log_def)
      ultimately show ?thesis
        using nominating.emit_ends [OF nominating_emit [OF h(2)], of "(n1, ?s1)" k] fr w h(4) em by auto
    qed
    ultimately show ?thesis by blast
  qed
  then show "e \<noteq> badNomination"
    and "\<lbrakk>within U (fst ns); closedValues cfg U; value \<in> U; finite U; room U (fst ns) \<le> k;
      settled (snd ns); mCurrentMessageLevel (snd ns) = 0\<rbrakk> \<Longrightarrow> e \<noteq> NoReturn"
    by (simp_all add: ns)
qed

lemma processNominationF_keeps:
  assumes n: "nomInv cfg (fst ns)" and w: "within U (fst ns)" "closedValues cfg U"
    and v: "set (nominationValues (nomOf env)) \<subseteq> U" and a: "admissible cfg env (fst ns)"
    and r: "processNominationF cfg k env ns = Inr (r, ns')"
  shows "kept cfg U ns ns' \<and> (ns' = ns \<or> backs cfg (fst (recordNomination env ns)) (fst ns'))"
proof (cases k)
  case (Suc j)
  then show ?thesis
    using nominating.process_keeps [OF nominating_emit [OF w(2)] n w(1) v a, of j r ns'] r by simp
qed (use r in simp)

lemma processNominationF_errors:
  assumes n: "nomInv cfg (fst ns)" and a: "admissible cfg env (fst ns)"
    and r: "processNominationF cfg k env ns = Inl e"
  shows "e \<noteq> badNomination"
    and "\<lbrakk>within U (fst ns); closedValues cfg U; set (nominationValues (nomOf env)) \<subseteq> U; finite U;
      room U (fst ns) < k; settled (snd ns); mCurrentMessageLevel (snd ns) = 0\<rbrakk> \<Longrightarrow> e \<noteq> NoReturn"
proof -
  show "e \<noteq> badNomination"
  proof (cases k)
    case 0
    then show ?thesis using r by (auto simp: badNomination_def)
  next
    case (Suc j)
    then show ?thesis using np.process_errors(1) [of cfg ns env j] n a r by (auto simp: within_def)
  qed
  assume h: "within U (fst ns)" "closedValues cfg U" "set (nominationValues (nomOf env)) \<subseteq> U" "finite U"
    "room U (fst ns) < k" "settled (snd ns)" "mCurrentMessageLevel (snd ns) = 0"
  then obtain j where k: "k = Suc j" by (cases k) auto
  show "e \<noteq> NoReturn"
    using nominating.process_errors(2) [OF nominating_emit [OF h(2)] n h(1,3) a, of j] h r k by auto
qed

subsection \<open>The step relation\<close>

inductive slotStep :: "Config \<Rightarrow> NomState \<Rightarrow> NomState \<Rightarrow> bool" for cfg where
  receive: "\<lbrakk>st_nodeID (env_statement env) \<noteq> cfg_localNodeID cfg;
     slotProcessEnvelope cfg k env False ns = Inr (r, ns')\<rbrakk> \<Longrightarrow> slotStep cfg ns ns'"
| nominate: "nominate cfg k v prev timedout ns = Inr (r, ns') \<Longrightarrow> slotStep cfg ns ns'"
| stop: "slotStep cfg ns (stopNomination ns)"
| abandon: "slotAbandonBallot cfg ns = Inr (r, ns') \<Longrightarrow> slotStep cfg ns ns'"
| bump: "slotBumpState cfg v force ns = Inr (r, ns') \<Longrightarrow> slotStep cfg ns ns'"
| timer: "ballotProtocolTimerExpired cfg s = Inr s' \<Longrightarrow> slotStep cfg (n, s) (n, s')"

inductive_cases slotStepE: "slotStep cfg ns ns'"

abbreviation slotRun :: "Config \<Rightarrow> NomState \<Rightarrow> NomState \<Rightarrow> bool" where
  "slotRun cfg \<equiv> (slotStep cfg)\<^sup>*\<^sup>*"

text \<open>Abandoning a ballot is what the timer does, so a run of the ballot protocol has a step for it.\<close>

lemma abandon_ballotStep: "abandonBallot cfg 0 s = Inr (r, s') \<Longrightarrow> ballotStep cfg s s'"
  by (rule ballotStep.timer) (simp add: ballotProtocolTimerExpired_def)

lemma slotStep_keeps:
  assumes "slotStep cfg ns ns'" "nomInv cfg (fst ns)"
  shows "kept cfg UNIV ns ns'"
  using assms(1)
proof cases
  case (receive env k r)
  show ?thesis
  proof (cases "isNominate (nomOf env)")
    case True
    then have "processNominationF cfg k env ns = Inr (r, ns')" using receive(2) by (simp add: slotProcessEnvelope_def)
    then show ?thesis
      using processNominationF_keeps [of cfg ns UNIV env k r ns'] assms(2) receive(1)
      by (simp add: within_def closedValues_def admissible_def)
  next
    case False
    then obtain s1 where "processEnvelope cfg env False (snd ns) = Inr (r, s1)" "ns' = (fst ns, s1)"
      using receive(2) by (auto simp: slotProcessEnvelope_def split: prod.splits)
    then show ?thesis using assms(2) by (auto simp: kept_def extends_def within_def intro: ballotStep.receive)
  qed
next
  case (nominate k v prev timedout r)
  then show ?thesis using nominate_keeps [of cfg ns UNIV v k prev timedout r ns'] assms(2)
    by (simp add: within_def closedValues_def)
next
  case stop
  have "nominationTouch (snd ns) (snd (stopNomination ns))"
    using nominationTouchI [of "[]", where s = "snd ns" and h = "mStatementsHistory (snd ns)" and b = False
        and v = "mLatestCompositeCandidate (snd ns)"]
    by (cases ns) (simp add: stopNomination_def)
  then show ?thesis using assms(2) ballotRun_touch stop
    by (auto simp: kept_def extends_def within_def stopNomination_def split: prod.splits)
next
  case (abandon r)
  then show ?thesis using assms(2) abandon_ballotStep
    by (fastforce simp: slotAbandonBallot_def kept_def extends_def within_def split: prod.splits)
next
  case (bump v force r)
  then show ?thesis using assms(2)
    by (fastforce simp: slotBumpState_def kept_def extends_def within_def split: prod.splits intro: ballotStep.bump)
next
  case (timer s s' n)
  then show ?thesis using assms(2) by (auto simp: kept_def extends_def within_def intro: ballotStep.timer)
qed

lemma nomInv_new [simp]: "nomInv cfg newNomination"
  by (simp add: nomInv_def newNomination_def)

lemma slotRun_keeps:
  assumes "slotRun cfg ns ns'" "nomInv cfg (fst ns)"
  shows "kept cfg UNIV ns ns'"
  using assms
proof (induction rule: rtranclp_induct)
  case base
  then show ?case by (simp add: kept_refl within_def)
next
  case (step a b)
  have "nomInv cfg (fst a)" using step by (simp add: kept_def)
  from slotStep_keeps [OF step.hyps(2) this] show ?case using step kept_trans by blast
qed

lemma slotRun_new:
  assumes "slotRun cfg (newSlotState cfg) ns"
  shows "nomInv cfg (fst ns)" "ballotRun cfg (newSlot cfg) (snd ns)"
    "settled (snd ns)" "mCurrentMessageLevel (snd ns) = 0"
  using slotRun_keeps [OF assms] ballotRun_new [of cfg "snd ns"] by (auto simp: newSlotState_def kept_def)

subsection \<open>The bound on the recursion\<close>

text \<open>A call that is not cut off gives the same result with any larger bound.\<close>

lemma processNominationWith_more:
  assumes "\<And>x. e x \<noteq> Inl NoReturn \<Longrightarrow> e' x = e x"
    and "processNominationWith cfg e env ns \<noteq> Inl NoReturn"
  shows "processNominationWith cfg e' env ns = processNominationWith cfg e env ns"
proof (cases "isNewerNominationFrom (fst ns) (st_nodeID (env_statement env)) (nomOf env) \<and> isSaneNomination (nomOf env)")
  case False
  then show ?thesis by (auto simp: processNominationWith_def Let_def)
next
  case True
  obtain n s n0 s0 where 0: "ns = (n, s)" "recordNomination env (n, s) = (n0, s0)" by (metis prod.exhaust)
  have st: "processNominationWith cfg d env ns =
      (if mNominationStarted s then stages cfg d env n0 s0 else Inr (VALID, n0, s0))" for d
    unfolding 0(1) by (rule processNominationWith_stages [OF _ _ 0(2)]) (use True 0 in auto)
  have "stages cfg e' env n0 s0 = stages cfg e env n0 s0" if "stages cfg e env n0 s0 \<noteq> Inl NoReturn"
  proof -
    obtain m1 n1 c n2 where p: "promoteVotes cfg (nom_votes (nomOf env)) n0 = (m1, n1)"
      "promoteCandidates cfg n1 = (c, n2)" by fastforce
    show ?thesis
    proof (cases "followLeader cfg (env_statement env) (m1, n2, s0)")
      case (Inr x)
      obtain m3 ns3 where x: "x = (m3, ns3)" using surj_pair [of x] by blast
      have "e' ns3 = e ns3" if m3
        using that \<open>stages cfg e env n0 s0 \<noteq> Inl NoReturn\<close> Inr x p assms(1) [of ns3]
        by (cases "e ns3") (auto simp: stages_def)
      then show ?thesis using Inr x p by (simp add: stages_def)
    qed (simp add: stages_def p)
  qed
  then show ?thesis using st assms(2) by auto
qed

lemma emitNominationWith_more:
  assumes "\<And>env x. p env x \<noteq> Inl NoReturn \<Longrightarrow> p' env x = p env x"
    and "emitNominationWith cfg p ns \<noteq> Inl NoReturn"
  shows "emitNominationWith cfg p' ns = emitNominationWith cfg p ns"
  using assms by (auto simp: emitNominationWith_def Let_def bindE_eq_Inl)

lemma processNominationF_Suc:
  "processNominationF cfg k env ns \<noteq> Inl NoReturn \<Longrightarrow>
     processNominationF cfg (Suc k) env ns = processNominationF cfg k env ns"
proof (induction k arbitrary: env ns)
  case (Suc k)
  have e: "emitNomination cfg (Suc k) x = emitNomination cfg k x" if "emitNomination cfg k x \<noteq> Inl NoReturn" for x
    by (rule emitNominationWith_more [OF _ that]) (rule Suc.IH)
  have "processNominationWith cfg (emitNomination cfg (Suc k)) env ns
      = processNominationWith cfg (emitNomination cfg k) env ns"
    by (rule processNominationWith_more [OF e]) (use Suc.prems in auto)
  then show ?case by simp
qed simp

lemma processNominationF_enough:
  assumes "k \<le> m" "processNominationF cfg k env ns \<noteq> Inl NoReturn"
  shows "processNominationF cfg m env ns = processNominationF cfg k env ns"
  using assms(1)
proof (induction rule: dec_induct)
  case (step j)
  then show ?case using processNominationF_Suc [of cfg j env ns] assms(2) by simp
qed simp

lemma nominate_enough:
  assumes "k \<le> m" "nominate cfg k v p t ns \<noteq> Inl NoReturn"
  shows "nominate cfg m v p t ns = nominate cfg k v p t ns"
proof -
  obtain n s where ns: "ns = (n, s)" by fastforce
  show ?thesis
  proof (cases "t \<and> \<not> mNominationStarted s")
    case True
    then show ?thesis by (simp add: ns nominate_def)
  next
    case go: False
    show ?thesis
    proof (cases "startRound cfg v p n")
      case (Inr y)
      obtain u w n1 where 1: "startRound cfg v p n = Inr (u, w, n1)" using Inr by (cases y) auto
      have e: "emitNomination cfg k x \<noteq> Inl NoReturn \<Longrightarrow> emitNomination cfg m x = emitNomination cfg k x" for x
        by (rule emitNominationWith_more [OF processNominationF_enough [OF assms(1)]])
      show ?thesis using nominate_started(1) [OF 1 go] assms(2) e by (auto simp: ns bindE_eq_Inl)
    qed (use go in \<open>auto simp: ns nominate_def\<close>)
  qed
qed

text \<open>The values that can come up, when the variations the driver proposes are valid themselves.\<close>

definition validVariations :: "Config \<Rightarrow> bool" where
  "validVariations cfg \<longleftrightarrow> (\<forall>v. cfg_extractValidValue cfg v = []
     \<or> cfg_validateValue cfg (cfg_extractValidValue cfg v) True = kFullyValidatedValue)"

lemma closedValues_variations:
  assumes "validVariations cfg" "finite V"
  obtains U where "finite U" "V \<subseteq> U" "closedValues cfg U"
proof
  let ?f = "valueToNominate cfg" and ?V = "insert [] V"
  show "finite (?V \<union> ?f ` ?V)" "V \<subseteq> ?V \<union> ?f ` ?V" using assms(2) by auto
  have f: "?f v = [] \<or> ?f (?f v) = ?f v" for v
    using assms(1) by (auto simp: validVariations_def valueToNominate_def)
  show "closedValues cfg (?V \<union> ?f ` ?V)" unfolding closedValues_def
  proof
    fix u
    assume "u \<in> ?V \<union> ?f ` ?V"
    then consider "u \<in> ?V" | v where "v \<in> ?V" "u = ?f v" by blast
    then show "?f u \<in> insert [] (?V \<union> ?f ` ?V)"
    proof cases
      case 2
      then show ?thesis using f [of v] by (metis UnI2 image_eqI insertI1 insertI2)
    qed blast
  qed
qed

lemma nomination_values:
  obtains V where "finite V" "within V n" "v \<in> V" "set vs \<subseteq> V"
proof
  let ?L = "(\<Union>(m, e) \<in> set (mLatestNominations n). set (nominationValues (nomOf e)))"
  let ?V = "set (mVotes n) \<union> set (mAccepted n) \<union> insert v (set vs) \<union> ?L"
  show "finite ?V" by auto
  have "set (nominationValues (nomOf e)) \<subseteq> ?L" if "map_of (mLatestNominations n) m = Some e" for m e
    using map_of_SomeD [OF that] by fastforce
  then show "within ?V n" by (auto simp: within_def)
  show "v \<in> ?V" "set vs \<subseteq> ?V" by auto
qed

lemma calls_end:
  assumes n: "nomInv cfg (fst ns)" "settled (snd ns)" "mCurrentMessageLevel (snd ns) = 0"
    and "validVariations cfg" "admissible cfg env (fst ns)"
  obtains k where "processNominationF cfg k env ns \<noteq> Inl NoReturn" "nominate cfg k v p t ns \<noteq> Inl NoReturn"
proof -
  obtain V where V: "finite V" "within V (fst ns)" "v \<in> V" "set (nominationValues (nomOf env)) \<subseteq> V"
    using nomination_values by blast
  obtain U where U: "finite U" "V \<subseteq> U" "closedValues cfg U"
    using closedValues_variations [OF assms(4) V(1)] by blast
  have w: "within U (fst ns)" "v \<in> U" "set (nominationValues (nomOf env)) \<subseteq> U"
    using V U(2) unfolding within_def by (blast intro: subset_trans)+
  let ?k = "Suc (room U (fst ns))"
  have "processNominationF cfg ?k env ns \<noteq> Inl NoReturn"
    using processNominationF_errors(2) [OF n(1) assms(5) _ w(1) U(3) w(3) U(1) _ n(2,3), of ?k] by blast
  moreover have "nominate cfg ?k v p t ns \<noteq> Inl NoReturn"
    using nominate_errors(2) [OF n(1) _ w(1) U(3) w(2) U(1) _ n(2,3), of ?k p t] by force
  ultimately show ?thesis by (rule that)
qed

subsection \<open>An example run\<close>

text \<open>Node 1 nominates a value; node 2 votes for it and then accepts it, and with node 1 it makes a quorum.\<close>

definition ex_nom :: "NodeID \<Rightarrow> Value list \<Rightarrow> Value list \<Rightarrow> SCPEnvelope" where
  "ex_nom m votes accepted = ex_env m (SCP_ST_NOMINATE 7 votes accepted)"

definition ex_nominated :: "cpp_error + bool \<times> NomState" where
  "ex_nominated = nominate ex_cfg 5 [1] [9] False (newSlotState ex_cfg)"

definition ex_heard :: "SCPEnvelope \<Rightarrow> NomState \<Rightarrow> cpp_error + EnvelopeState \<times> NomState" where
  "ex_heard env ns = slotProcessEnvelope ex_cfg 5 env False ns"

lemma ex_nomination:
  "bindE ex_nominated (\<lambda>(b, ns0). bindE (ex_heard (ex_nom 2 [[1]] []) ns0) (\<lambda>(r1, ns1).
     bindE (ex_heard (ex_nom 2 [[1]] [[1]]) ns1) (\<lambda>(r2, ns2).
       Inr (b, mVotes (fst ns0), mAccepted (fst ns1), mCandidates (fst ns1), mCandidates (fst ns2),
            mLatestCompositeCandidate (snd ns2), mCurrentBallot (snd ns2)))))
   = Inr (True, [[1]], [[1]], [], [[1]], [1], Some (SCPBallot 1 [1]))"
  by code_simp

lemma ex_nomination_run:
  obtains ns0 ns1 ns2 where "slotRun ex_cfg (newSlotState ex_cfg) ns0" "slotStep ex_cfg ns0 ns1" "slotStep ex_cfg ns1 ns2"
    "mVotes (fst ns0) = [[1]]" "mAccepted (fst ns1) = [[1]]" "mCandidates (fst ns1) = []"
    "mCandidates (fst ns2) = [[1]]" "mCurrentBallot (snd ns2) = Some (SCPBallot 1 [1])"
proof -
  obtain b ns0 r1 ns1 r2 ns2 where e: "ex_nominated = Inr (b, ns0)" "ex_heard (ex_nom 2 [[1]] []) ns0 = Inr (r1, ns1)"
    "ex_heard (ex_nom 2 [[1]] [[1]]) ns1 = Inr (r2, ns2)"
    and v: "mVotes (fst ns0) = [[1]]" "mAccepted (fst ns1) = [[1]]" "mCandidates (fst ns1) = []"
    "mCandidates (fst ns2) = [[1]]" "mCurrentBallot (snd ns2) = Some (SCPBallot 1 [1])"
    using ex_nomination by auto
  have "st_nodeID (env_statement (ex_nom 2 vs as)) \<noteq> cfg_localNodeID ex_cfg" for vs as
    by (simp add: ex_nom_def ex_env_def ex_cfg_def)
  then have "slotStep ex_cfg ns0 ns1" "slotStep ex_cfg ns1 ns2"
    using e(2,3) slotStep.receive unfolding ex_heard_def by blast+
  moreover have "slotStep ex_cfg (newSlotState ex_cfg) ns0"
    using e(1) slotStep.nominate unfolding ex_nominated_def by blast
  ultimately show ?thesis using that [of ns0 ns1 ns2] v by blast
qed

subsection \<open>The properties\<close>

text \<open>C29. In every state that a slot can reach, the candidates are among the accepted values and these among
  the node's votes, the three sets are kept sorted and without duplicates, and every accepted value was
  found fully valid by the driver.\<close>

theorem nomination_invariant:
  assumes "slotRun cfg (newSlotState cfg) (n, s)"
  shows "set (mCandidates n) \<subseteq> set (mAccepted n) \<and> set (mAccepted n) \<subseteq> set (mVotes n)
    \<and> sorted_wrt (<) (mCandidates n) \<and> sorted_wrt (<) (mAccepted n) \<and> sorted_wrt (<) (mVotes n)
    \<and> (\<forall>v \<in> set (mAccepted n). cfg_validateValue cfg v True = kFullyValidatedValue)"
  using slotRun_new(1) [OF assms] by (simp add: nomInv_def)

theorem nomination_invariant_witness:
  "\<exists>n :: Nomination. mCandidates n = [[1]] \<and> set (mCandidates n) \<subseteq> set (mAccepted n) \<and> set (mAccepted n) \<subseteq> set (mVotes n)"
proof -
  obtain ns0 ns1 ns2 where r: "slotRun ex_cfg (newSlotState ex_cfg) ns0" "slotStep ex_cfg ns0 ns1" "slotStep ex_cfg ns1 ns2"
    and v: "mCandidates (fst ns2) = [[1]]" using ex_nomination_run by metis
  have "slotRun ex_cfg (newSlotState ex_cfg) (fst ns2, snd ns2)" using r by auto
  from nomination_invariant [OF this] show ?thesis using v by (intro exI [of _ "fst ns2"]) blast
qed

text \<open>C30. The check that ends \<^verbatim>\<open>emitNomination\<close> with an exception never fails: whatever a slot went through
  and whatever other nodes send, the node's own nomination is sane and newer than the one before.\<close>

theorem nomination_never_bad:
  assumes "slotRun cfg (newSlotState cfg) ns" and "st_nodeID (env_statement env) \<noteq> cfg_localNodeID cfg"
  shows "slotProcessEnvelope cfg k env False ns \<noteq> Inl badNomination
    \<and> nominate cfg k v prev timedout ns \<noteq> Inl badNomination"
proof
  note i = slotRun_new(1) [OF assms(1)]
  have a: "admissible cfg env (fst ns)" using assms(2) by (simp add: admissible_def)
  have "processEnvelope cfg env False s \<noteq> Inl badNomination" for s
    using processEnvelope_raises [of cfg env False s] by (auto simp: badNomination_def ballotErrors_def)
  moreover have "processNominationF cfg k env ns \<noteq> Inl badNomination"
    using processNominationF_errors(1) [OF i a] by blast
  ultimately show "slotProcessEnvelope cfg k env False ns \<noteq> Inl badNomination"
    by (auto simp: slotProcessEnvelope_def bindE_eq_Inl badNomination_def split: prod.splits)
  show "nominate cfg k v prev timedout ns \<noteq> Inl badNomination" using nominate_errors(1) [OF i] by blast
qed

theorem nomination_never_bad_witness:
  "\<exists>ns. mVotes (fst ns) = [[1]] \<and> slotProcessEnvelope ex_cfg 5 (ex_nom 2 [[2]] [[2]]) False ns \<noteq> Inl badNomination"
proof -
  obtain ns0 where r: "slotRun ex_cfg (newSlotState ex_cfg) ns0" and v: "mVotes (fst ns0) = [[1]]"
    using ex_nomination_run by metis
  have "st_nodeID (env_statement (ex_nom 2 [[2]] [[2]])) \<noteq> cfg_localNodeID ex_cfg"
    by (simp add: ex_nom_def ex_env_def ex_cfg_def)
  from nomination_never_bad [OF r this] show ?thesis using v by blast
qed

text \<open>C31. A candidate has a quorum behind it: when a step adds a candidate, the envelopes the slot then holds, one
  of each node, contain a quorum that accepts the value. That is, there is a set of nodes with a slice of the
  local quorum set and a slice of the quorum set of each of its members, and the latest nomination of every
  member, the node's own included, lists the value as accepted.\<close>

theorem candidates_ratified:
  assumes "slotRun cfg (newSlotState cfg) ns" and "slotStep cfg ns ns'"
    and "c \<in> set (mCandidates (fst ns')) - set (mCandidates (fst ns))"
  shows "distinct (map fst (mLatestNominations (fst ns'))) \<and>
    (\<exists>U. isQuorumSlice (cfg_qSet cfg) U
     \<and> (\<forall>n \<in> set U. \<exists>e q. map_of (mLatestNominations (fst ns')) n = Some e \<and> c \<in> set (nom_accepted (nomOf e))
          \<and> getQuorumSetFromStatement cfg (env_statement e) = Some q \<and> isQuorumSlice q U))"
proof -
  note i = slotRun_new(1) [OF assms(1)]
  have ord: "inOrder (mLatestNominations (fst ns))" using i by (simp add: nomInv_def)
  have u: "within UNIV n" "closedValues cfg UNIV" for n by (simp_all add: within_def closedValues_def)
  have b: "inOrder (mLatestNominations (fst ns')) \<and> federatedRatify cfg (acceptPredicate c) (mLatestNominations (fst ns'))"
    if "backs cfg m (fst ns')" "mCandidates m = mCandidates (fst ns)" "inOrder (mLatestNominations m)" for m
    using assms(3) that unfolding backs_def agree_def by simp
  have same: "mCandidates (fst ns') \<noteq> mCandidates (fst ns)" using assms(3) by auto
  from assms(2) have "inOrder (mLatestNominations (fst ns')) \<and> federatedRatify cfg (acceptPredicate c) (mLatestNominations (fst ns'))"
  proof cases
    case (receive env k r)
    then have "processNominationF cfg k env ns = Inr (r, ns')"
      using same by (auto simp: slotProcessEnvelope_def split: if_splits prod.splits)
    moreover have "admissible cfg env (fst ns)" using receive(1) by (simp add: admissible_def)
    ultimately have "ns' = ns \<or> backs cfg (fst (recordNomination env ns)) (fst ns')"
      using processNominationF_keeps [OF i u _ , of env k r ns'] by blast
    moreover have "mCandidates (fst (recordNomination env ns)) = mCandidates (fst ns)"
      "inOrder (mLatestNominations (fst (recordNomination env ns)))"
      using ord by (auto simp: recordNomination_def sorted_mapPut split: prod.split)
    ultimately show ?thesis using b same by blast
  next
    case (nominate k v prev timedout r)
    then show ?thesis using nominate_keeps [OF i u, of v k prev timedout r ns'] b ord by blast
  qed (use same in \<open>auto simp: stopNomination_def slotAbandonBallot_def slotBumpState_def split: prod.splits\<close>)
  then have o: "inOrder (mLatestNominations (fst ns'))"
    and q: "federatedRatify cfg (acceptPredicate c) (mLatestNominations (fst ns'))" by blast+
  from federatedRatify_quorum [OF q o] show ?thesis using o strict_sorted_iff by (auto simp: acceptPredicate_def)
qed

theorem candidates_ratified_witness:
  "\<exists>(ns' :: NomState) U. mCandidates (fst ns') = [[1]] \<and> isQuorumSlice (cfg_qSet ex_cfg) U
    \<and> (\<forall>n \<in> set U. \<exists>e. map_of (mLatestNominations (fst ns')) n = Some e \<and> [1] \<in> set (nom_accepted (nomOf e)))"
proof -
  obtain ns0 ns1 ns2 where r: "slotRun ex_cfg (newSlotState ex_cfg) ns0" "slotStep ex_cfg ns0 ns1" "slotStep ex_cfg ns1 ns2"
    and v: "mCandidates (fst ns1) = []" "mCandidates (fst ns2) = [[1]]" using ex_nomination_run by metis
  have "slotRun ex_cfg (newSlotState ex_cfg) ns1" using r by auto
  moreover have "[1] \<in> set (mCandidates (fst ns2)) - set (mCandidates (fst ns1))" using v by simp
  ultimately show ?thesis using candidates_ratified [OF _ r(3)] v(2) by meson
qed

text \<open>C32. The recursion of the nomination protocol through the slot, which the code does not bound, ends: if
  the variations of values that the driver proposes are valid values, then in every state a slot can reach,
  processing any envelope of another node and nominating any value give the same result for every bound that
  is large enough, and it is not the result of the bound being hit.\<close>

theorem nomination_terminates:
  assumes "slotRun cfg (newSlotState cfg) ns" and "validVariations cfg"
    and "st_nodeID (env_statement env) \<noteq> cfg_localNodeID cfg"
  shows "\<exists>k r r'. r \<noteq> Inl NoReturn \<and> r' \<noteq> Inl NoReturn
    \<and> (\<forall>m \<ge> k. slotProcessEnvelope cfg m env False ns = r \<and> nominate cfg m v prev timedout ns = r')"
proof -
  note i = slotRun_new(1) [OF assms(1)] and b = slotRun_new(3,4) [OF assms(1)]
  have a: "admissible cfg env (fst ns)" using assms(3) by (simp add: admissible_def)
  obtain k where k: "processNominationF cfg k env ns \<noteq> Inl NoReturn" "nominate cfg k v prev timedout ns \<noteq> Inl NoReturn"
    using calls_end [OF i b assms(2) a] by blast
  have "processEnvelope cfg env False (snd ns) \<noteq> Inl NoReturn" by (rule processEnvelope_ends [OF b])
  then have "slotProcessEnvelope cfg k env False ns \<noteq> Inl NoReturn"
    using k(1) by (auto simp: slotProcessEnvelope_def bindE_eq_Inl split: prod.splits)
  moreover have "slotProcessEnvelope cfg m env False ns = slotProcessEnvelope cfg k env False ns" if "k \<le> m" for m
    using processNominationF_enough [OF that k(1)] by (simp add: slotProcessEnvelope_def)
  ultimately show ?thesis using k(2) nominate_enough [OF _ k(2)] by blast
qed

theorem nomination_terminates_witness:
  "\<exists>ns k r. mVotes (fst ns) = [[1]] \<and> r \<noteq> Inl NoReturn
    \<and> (\<forall>m \<ge> k. slotProcessEnvelope ex_cfg m (ex_nom 2 [[1]] []) False ns = r)"
proof -
  obtain ns0 where r: "slotRun ex_cfg (newSlotState ex_cfg) ns0" and v: "mVotes (fst ns0) = [[1]]"
    using ex_nomination_run by metis
  have "st_nodeID (env_statement (ex_nom 2 [[1]] [])) \<noteq> cfg_localNodeID ex_cfg" "validVariations ex_cfg"
    by (simp_all add: ex_nom_def ex_env_def ex_cfg_def validVariations_def)
  from nomination_terminates [OF r this(2,1)] show ?thesis using v by blast
qed

text \<open>C33. A slot refines its ballot protocol: with nomination interleaved in any way, what a slot's run does to
  the ballot part of its state is a run of the ballot protocol. So a slot externalizes at most one value, the
  committed one.\<close>

theorem slot_refines_ballot:
  assumes "slotRun cfg (newSlotState cfg) (n, s)"
  shows "ballotRun cfg (newSlot cfg) s
    \<and> filter isExternalized (mEvents s) =
        (if mPhase s = SCP_PHASE_EXTERNALIZE then [ValueExternalized (bal_value (the (mCommit s)))] else [])"
  using slotRun_new(2) [OF assms] ballotRun_new by (simp add: externalized_def)

theorem slot_refines_ballot_witness:
  "\<exists>s :: Slot. mCurrentBallot s = Some (SCPBallot 1 [1]) \<and> ballotRun ex_cfg (newSlot ex_cfg) s"
proof -
  obtain ns0 ns1 ns2 where r: "slotRun ex_cfg (newSlotState ex_cfg) ns0" "slotStep ex_cfg ns0 ns1" "slotStep ex_cfg ns1 ns2"
    and v: "mCurrentBallot (snd ns2) = Some (SCPBallot 1 [1])" using ex_nomination_run by metis
  have "slotRun ex_cfg (newSlotState ex_cfg) (fst ns2, snd ns2)" using r by auto
  from slot_refines_ballot [OF this] show ?thesis using v by (intro exI [of _ "snd ns2"]) blast
qed

end
