(* ===== verification/Round_Leaders.thy ===== *)
theory Round_Leaders
  imports Nomination
begin

section \<open>The leaders of a round\<close>

text \<open>
  The loop of \<^verbatim>\<open>updateRoundLeaders\<close> computes the nodes of highest priority: it never fails on a
  quorum set whose levels fit in memory, it always finds a leader, and the leaders are the nodes that a
  comparison of all priorities gives.
\<close>

fun smallQSet :: "SCPQuorumSet \<Rightarrow> bool" where
  "smallQSet (QSet t vs ss) \<longleftrightarrow> length vs + length ss < 2 ^ 64 \<and> list_all smallQSet ss"

lemma wf_smallQSet: "wf_qset q \<Longrightarrow> smallQSet q"
  by (induction q) (auto simp: list_all_iff)

lemma normalizeQSet_small: "smallQSet q \<Longrightarrow> smallQSet (normalizeQSet q n)"
proof (induction q)
  case (QSet t v i)
  define v1 where "v1 = (case n of None \<Rightarrow> v | Some n \<Rightarrow> filter (\<lambda>x. x \<noteq> n) v)"
  define i1 where "i1 = map (\<lambda>q. normalizeQSet q n) i"
  define v2 where "v2 = v1 @ map (\<lambda>q. qs_validators q ! 0) (filter isSingleton i1)"
  define i2 where "i2 = filter (\<lambda>q. \<not> isSingleton q) i1"
  have s1: "list_all smallQSet i1" using QSet by (auto simp: i1_def list_all_iff)
  then have s2: "list_all smallQSet i2" by (simp add: i2_def list_all_iff)
  have "length v1 \<le> length v" by (auto simp: v1_def split: option.split)
  moreover have "length (filter isSingleton i1) + length i2 = length i"
    using length_filter_compl [of isSingleton i1] by (simp add: i2_def i1_def)
  ultimately have "length v2 + length i2 < 2 ^ 64" using QSet.prems by (simp add: v2_def)
  then have "smallQSet (QSet t' v2 i2)" for t' using s2 by simp
  moreover have "smallQSet (last i2)" if "length i2 = 1"
    using s2 that by (auto simp: length_Suc_conv)
  ultimately show ?case
    unfolding normalizeQSet.simps Let_def v1_def [symmetric] i1_def [symmetric] v2_def [symmetric] i2_def [symmetric]
    by simp
qed

lemma weighU64_returns: "d \<noteq> 0 \<Longrightarrow> \<exists>w. weighU64 n d a = Inr w"
  by (simp add: weighU64_def bigDivide_u64_exact)

lemma getNodeWeight_returns: "smallQSet q \<Longrightarrow> \<exists>w. getNodeWeight n q = Inr w"
proof (induction q)
  case (QSet t vs ss)
  define c where "c = (ucast t :: u64)"
  define d where "d = (of_nat (length ss) + of_nat (length vs) :: u64)"
  have "unat d = length ss + length vs"
    using QSet.prems unat_of_nat_u64 [of "length ss + length vs"] by (simp add: d_def)
  then have d: "d \<noteq> 0" if "vs \<noteq> [] \<or> ss \<noteq> []" using that by auto
  have "\<exists>w. firstLeaf (weighU64 c d) (map (getNodeWeight n) ws) = Inr w" if "set ws \<subseteq> set ss" for ws
    using that
  proof (induction ws)
    case (Cons s ws)
    have "\<exists>w. getNodeWeight n s = Inr w" using QSet.IH [of s] QSet.prems Cons.prems by (auto simp: list_all_iff)
    then obtain w where "getNodeWeight n s = Inr w" ..
    moreover have "d \<noteq> 0" by (rule d) (use Cons.prems in auto)
    ultimately show ?case using Cons weighU64_returns by simp
  qed simp
  from this [of ss] obtain w where w: "firstLeaf (weighU64 c d) (map (getNodeWeight n) ss) = Inr w" by blast
  have "\<exists>w. weighU64 c d (- 1) = Inr w" if "n \<in> set vs"
    by (rule weighU64_returns, rule d) (use that in auto)
  then show ?case using w
    by (auto simp: Let_def c_def [symmetric] d_def [symmetric])
qed

lemma getNodePriority_returns:
  assumes "smallQSet q" "mPreviousValue n \<noteq> []"
  shows "\<exists>w. getNodePriority cfg n node q = Inr w"
  using getNodeWeight_returns [OF assms(1), of node] assms(2) by (auto simp: getNodePriority_def hashNode_def)

subsection \<open>What the loop computes\<close>

text \<open>A reference definition: the highest priority, and the nodes that have it; none but the local node
  leads with priority 0.\<close>

definition topNodes :: "(NodeID \<Rightarrow> u64) \<Rightarrow> NodeID \<Rightarrow> NodeID set \<Rightarrow> NodeID set" where
  "topNodes priority localID nodes =
     (let top = Max (priority ` insert localID nodes) in
      {m \<in> insert localID nodes. priority m = top \<and> (m = localID \<or> 0 < top)})"

lemma leadersLoop_fold:
  assumes "\<And>m. m \<in> set ms \<Longrightarrow> f m = Inr (p m)"
  shows "leadersLoop f ms acc = Inr (fold (\<lambda>m. raiseLeader m (p m)) ms acc)"
  using assms by (induction ms arbitrary: acc) auto

lemma raiseLeader_top:
  assumes "acc = (Max (p ` insert l A), ls)" "finite A" "set ls = topNodes p l A"
  shows "\<exists>ls'. raiseLeader m (p m) acc = (Max (p ` insert l (insert m A)), ls')
    \<and> set ls' = topNodes p l (insert m A)"
proof -
  define M where "M = Max (p ` insert l A)"
  have M: "Max (p ` insert l (insert m A)) = max (p m) M"
    using assms(2) by (simp add: M_def insert_commute [of l m])
  have le: "p x \<le> M" if "x \<in> insert l A" for x unfolding M_def using that assms(2) by (intro Max_ge) auto
  have old: "set ls = {x \<in> insert l A. p x = M \<and> (x = l \<or> 0 < M)}"
    using assms(3) by (simp add: topNodes_def Let_def M_def)
  have new: "topNodes p l (insert m A) =
      {x \<in> insert l (insert m A). p x = max (p m) M \<and> (x = l \<or> 0 < max (p m) M)}"
    unfolding topNodes_def Let_def M ..
  have acc: "acc = (M, ls)" using assms(1) by (simp add: M_def)
  consider "M < p m" | "p m = M" | "p m < M" by fastforce
  then show ?thesis unfolding M new
  proof cases
    case 1
    have pos: "0 < p m" using word_zero_le 1 by (rule order_le_less_trans)
    then have r: "raiseLeader m (p m) acc = (p m, [m])" using 1
      by (simp add: raiseLeader_def acc insort_insert_key_def)
    moreover note pos
    moreover have "x = m" if "x \<in> insert l (insert m A)" "p x = p m" for x using le [of x] that 1 by force
    ultimately have "{x \<in> insert l (insert m A). p x = p m \<and> (x = l \<or> 0 < p m)} = {m}" by blast
    then show "\<exists>ls'. raiseLeader m (p m) acc = (max (p m) M, ls') \<and> set ls' =
        {x \<in> insert l (insert m A). p x = max (p m) M \<and> (x = l \<or> 0 < max (p m) M)}"
      using r max_absorb1 [OF less_imp_le [OF 1]] by simp
  next
    case 2
    show "\<exists>ls'. raiseLeader m (p m) acc = (max (p m) M, ls') \<and> set ls' =
        {x \<in> insert l (insert m A). p x = max (p m) M \<and> (x = l \<or> 0 < max (p m) M)}"
    proof (cases "0 < M")
      case True
      then have "raiseLeader m (p m) acc = (M, insort_insert m ls)" using 2 by (simp add: raiseLeader_def acc)
      moreover have "insert m (set ls) = {x \<in> insert l (insert m A). p x = M \<and> (x = l \<or> 0 < M)}"
        using True 2 unfolding old by blast
      ultimately show ?thesis using 2 by (simp add: set_insort_insert)
    next
      case False
      then have "raiseLeader m (p m) acc = (M, ls)" using 2 by (simp add: raiseLeader_def acc)
      then show ?thesis using 2 False by (auto simp: old)
    qed
  next
    case 3
    then have "raiseLeader m (p m) acc = (M, ls)" by (auto simp: raiseLeader_def acc)
    moreover have "set ls = {x \<in> insert l (insert m A). p x = M \<and> (x = l \<or> 0 < M)}"
      using 3 by (auto simp: old)
    ultimately show "\<exists>ls'. raiseLeader m (p m) acc = (max (p m) M, ls') \<and> set ls' =
        {x \<in> insert l (insert m A). p x = max (p m) M \<and> (x = l \<or> 0 < max (p m) M)}"
      using max_absorb2 [OF less_imp_le [OF 3]] by simp
  qed
qed

lemma fold_raiseLeader:
  assumes "acc = (Max (p ` insert l A), ls)" "finite A" "set ls = topNodes p l A"
  shows "\<exists>ls'. fold (\<lambda>m. raiseLeader m (p m)) ms acc = (Max (p ` insert l (A \<union> set ms)), ls')
    \<and> set ls' = topNodes p l (A \<union> set ms)"
  using assms
proof (induction ms arbitrary: A acc ls)
  case (Cons m ms)
  obtain ls' where l: "raiseLeader m (p m) acc = (Max (p ` insert l (insert m A)), ls')"
    "set ls' = topNodes p l (insert m A)" using raiseLeader_top [OF Cons.prems] by blast
  from Cons.IH [OF l(1) _ l(2)] show ?case using Cons.prems(2) by simp
qed simp

text \<open>C34. The leaders of a round are the nodes of highest priority, among the local node and the nodes of its
  quorum set with the local node taken out, and there always is one: a node leads only with a positive
  priority, unless it is the local node and no other node has a positive one. The computation does not fail,
  provided that the previous value is not empty.\<close>

theorem roundLeaders_correct:
  assumes "smallQSet (cfg_qSet cfg)" and "mPreviousValue n \<noteq> []"
  defines "q \<equiv> normalizeQSet (cfg_qSet cfg) (Some (cfg_localNodeID cfg))"
  shows "\<exists>n' priority. updateRoundLeaders cfg n = Inr n'
    \<and> (\<forall>m. getNodePriority cfg n m q = Inr (priority m))
    \<and> set (mRoundLeaders n') = topNodes priority (cfg_localNodeID cfg) (set (allNodes q))
    \<and> mRoundLeaders n' \<noteq> []"
proof -
  let ?l = "cfg_localNodeID cfg"
  have "smallQSet q" unfolding q_def by (rule normalizeQSet_small [OF assms(1)])
  then have "\<forall>m. \<exists>w. getNodePriority cfg n m q = Inr w" using getNodePriority_returns assms(2) by blast
  then obtain p where p: "getNodePriority cfg n m q = Inr (p m)" for m by metis
  have "set [?l] = topNodes p ?l {}" by (auto simp: topNodes_def Let_def)
  from fold_raiseLeader [OF _ _ this, of "(p ?l, [?l])" "forAllNodes q"]
  obtain ls where ls: "fold (\<lambda>m. raiseLeader m (p m)) (forAllNodes q) (p ?l, [?l]) =
      (Max (p ` insert ?l (set (allNodes q))), ls)" "set ls = topNodes p ?l (set (allNodes q))" by auto
  have u: "updateRoundLeaders cfg n = Inr (n\<lparr>mRoundLeaders := ls\<rparr>)"
    using leadersLoop_fold [of "forAllNodes q" "\<lambda>m. getNodePriority cfg n m q" p "(p ?l, [?l])"] ls(1) p
    by (simp add: updateRoundLeaders_def Let_def q_def [symmetric])
  have "Max (p ` insert ?l (set (allNodes q))) \<in> p ` insert ?l (set (allNodes q))" by (rule Max_in) auto
  then obtain m where m: "m \<in> insert ?l (set (allNodes q))" "p m = Max (p ` insert ?l (set (allNodes q)))"
    by (metis imageE)
  have "topNodes p ?l (set (allNodes q)) \<noteq> {}"
  proof (cases "0 < p m")
    case True
    then have "m \<in> topNodes p ?l (set (allNodes q))" using m by (simp add: topNodes_def Let_def)
    then show ?thesis by blast
  next
    case False
    then have "Max (p ` insert ?l (set (allNodes q))) = 0" using m(2) by (simp add: word_gt_0)
    moreover have "p ?l \<le> Max (p ` insert ?l (set (allNodes q)))" by (rule Max_ge) auto
    ultimately have "?l \<in> topNodes p ?l (set (allNodes q))" by (simp add: topNodes_def Let_def)
    then show ?thesis by blast
  qed
  then show ?thesis using u p ls(2) by (intro exI [of _ "n\<lparr>mRoundLeaders := ls\<rparr>"] exI [of _ p]) auto
qed

theorem roundLeaders_correct_witness:
  "\<exists>n' :: Nomination. set (mRoundLeaders n') \<noteq> {} \<and> set (mRoundLeaders n') \<subseteq> {1, 2, 3}
    \<and> updateRoundLeaders ex_cfg (newNomination\<lparr>mPreviousValue := [9]\<rparr>) = Inr n'"
proof -
  have a: "smallQSet (cfg_qSet ex_cfg)" by (simp add: ex_cfg_def)
  have q: "set (allNodes (normalizeQSet (cfg_qSet ex_cfg) (Some (cfg_localNodeID ex_cfg)))) = {2, 3}"
    by code_simp
  obtain n' priority where n': "updateRoundLeaders ex_cfg (newNomination\<lparr>mPreviousValue := [9]\<rparr>) = Inr n'"
    "set (mRoundLeaders n') = topNodes priority 1 {2, 3}" "mRoundLeaders n' \<noteq> []"
    using roundLeaders_correct [OF a, of "newNomination\<lparr>mPreviousValue := [9]\<rparr>"] unfolding q
    by (auto simp: ex_cfg_def)
  have "set (mRoundLeaders n') \<noteq> {}" using n'(3) by simp
  moreover have "set (mRoundLeaders n') \<subseteq> {1, 2, 3}" unfolding n'(2) by (auto simp: topNodes_def Let_def)
  ultimately show ?thesis using n'(1) by blast
qed

end
