(* ===== verification/SCP_Front.thy ===== *)
theory SCP_Front
  imports Nomination_Runs Round_Leaders
begin

section \<open>The front end and the ranking hashes\<close>

text \<open>
  The front end of the protocol as a step relation over the slots it knows: every slot it holds is in a state
  that a slot can reach on its own, calls for one slot leave the others as they are, and the slots stay in
  order. And the inputs of the hashes that rank nodes and values, which never coincide for different uses.
\<close>

subsection \<open>The slots\<close>

inductive scpStep :: "(u64 \<Rightarrow> Config) \<Rightarrow> (SCPEnvelope \<Rightarrow> bool) \<Rightarrow> KnownSlots \<Rightarrow> KnownSlots \<Rightarrow> bool"
  for cfgs verify where
  receive: "\<lbrakk>st_nodeID (env_statement env) \<noteq> cfg_localNodeID (cfgs (st_slotIndex (env_statement env)));
     receiveEnvelope cfgs verify k env slots = Inr (r, slots')\<rbrakk> \<Longrightarrow> scpStep cfgs verify slots slots'"
| nominate: "scpNominate cfgs k i v prev slots = Inr (r, slots') \<Longrightarrow> scpStep cfgs verify slots slots'"
| stop: "scpStep cfgs verify slots (scpStopNomination i slots)"
| purge: "scpStep cfgs verify slots (purgeSlots i slots)"
| timer: "\<lbrakk>map_of slots i = Some ns; slotStep (cfgs i) ns ns'\<rbrakk> \<Longrightarrow> scpStep cfgs verify slots (mapPut i ns' slots)"

definition slotsOk :: "(u64 \<Rightarrow> Config) \<Rightarrow> KnownSlots \<Rightarrow> bool" where
  "slotsOk cfgs slots \<longleftrightarrow> sorted_wrt (<) (map fst slots)
     \<and> (\<forall>i ns. map_of slots i = Some ns \<longrightarrow> slotRun (cfgs i) (newSlotState (cfgs i)) ns)"

lemma slotsOk_put:
  "\<lbrakk>slotsOk cfgs slots; slotRun (cfgs i) (newSlotState (cfgs i)) ns\<rbrakk> \<Longrightarrow> slotsOk cfgs (mapPut i ns slots)"
  unfolding slotsOk_def map_of_mapPut by (metis fun_upd_apply option.inject sorted_mapPut)

lemma getOrCreateSlot_run:
  "slotsOk cfgs slots \<Longrightarrow> slotRun (cfgs i) (newSlotState (cfgs i)) (getOrCreateSlot cfgs i slots)"
  by (auto simp: getOrCreateSlot_def slotsOk_def split: option.split)

lemma map_of_filter_key: "map_of (filter (\<lambda>(i, ns). P i) m) i = (if P i then map_of m i else None)"
  by (induction m) auto

lemma slotsOk_purge: "slotsOk cfgs slots \<Longrightarrow> slotsOk cfgs (purgeSlots i slots)"
  by (auto simp: slotsOk_def purgeSlots_def map_of_filter_key [of "\<lambda>j. \<not> j < i"] sorted_wrt_map
      split: if_splits intro: sorted_wrt_filter)

lemma scpStep_ok:
  assumes "scpStep cfgs verify slots slots'" "slotsOk cfgs slots"
  shows "slotsOk cfgs slots'"
  using assms(1)
proof cases
  case (receive env k r)
  let ?i = "st_slotIndex (env_statement env)"
  show ?thesis
  proof (cases "verify env")
    case False
    then show ?thesis using receive assms(2) by (simp add: receiveEnvelope_def)
  next
    case True
    then obtain ns where "slotProcessEnvelope (cfgs ?i) k env False (getOrCreateSlot cfgs ?i slots) = Inr (r, ns)"
      "slots' = mapPut ?i ns slots" using receive(2) by (auto simp: receiveEnvelope_def Let_def)
    then show ?thesis using slotsOk_put [OF assms(2)] getOrCreateSlot_run [OF assms(2)]
        slotStep.receive [OF receive(1)] by (metis rtranclp.rtrancl_into_rtrancl)
  qed
next
  case (nominate k i v prev r)
  then obtain ns where "Nomination.nominate (cfgs i) k v prev False (getOrCreateSlot cfgs i slots) = Inr (r, ns)"
    "slots' = mapPut i ns slots" by (auto simp: scpNominate_def)
  then show ?thesis using slotsOk_put [OF assms(2)] getOrCreateSlot_run [OF assms(2)] slotStep.nominate
    by (metis rtranclp.rtrancl_into_rtrancl)
next
  case (stop i)
  show ?thesis
  proof (cases "map_of slots i")
    case None
    then show ?thesis using stop assms(2) by (simp add: scpStopNomination_def)
  next
    case (Some ns)
    then have "slotRun (cfgs i) (newSlotState (cfgs i)) (stopNomination ns)"
      using assms(2) slotStep.stop unfolding slotsOk_def by (metis rtranclp.rtrancl_into_rtrancl)
    then show ?thesis using slotsOk_put [OF assms(2)] stop Some by (simp add: scpStopNomination_def)
  qed
next
  case (purge i)
  then show ?thesis using slotsOk_purge [OF assms(2)] by simp
next
  case (timer i ns ns')
  then have "slotRun (cfgs i) (newSlotState (cfgs i)) ns'"
    using assms(2) unfolding slotsOk_def by (metis rtranclp.rtrancl_into_rtrancl)
  then show ?thesis using slotsOk_put [OF assms(2)] timer by simp
qed

text \<open>Every slot that the front end holds is in a state that a slot reaches on its own; so what holds of the
  runs of a slot holds of all of them.\<close>

theorem scp_slots_reachable:
  assumes "(scpStep cfgs verify)\<^sup>*\<^sup>* [] slots"
  shows "sorted_wrt (<) (map fst slots)
    \<and> (\<forall>i ns. map_of slots i = Some ns \<longrightarrow> slotRun (cfgs i) (newSlotState (cfgs i)) ns)"
proof -
  have "slotsOk cfgs slots" using assms
    by (induction rule: rtranclp_induct) (auto simp: scpStep_ok, simp add: slotsOk_def)
  then show ?thesis by (simp add: slotsOk_def)
qed

text \<open>An envelope concerns the slot of its index only, and one with a bad signature none.\<close>

theorem receiveEnvelope_frame:
  assumes "receiveEnvelope cfgs verify k env slots = Inr (r, slots')"
  shows "(\<forall>i. i \<noteq> st_slotIndex (env_statement env) \<longrightarrow> map_of slots' i = map_of slots i)
    \<and> (\<not> verify env \<longrightarrow> slots' = slots \<and> r = INVALID)"
  using assms by (auto simp: receiveEnvelope_def Let_def split: if_splits)

text \<open>Purging forgets the slots below the given index and no others.\<close>

theorem purgeSlots_keeps:
  "map_of (purgeSlots m slots) i = (if i < m then None else map_of slots i)"
  using map_of_filter_key [of "\<lambda>j. \<not> j < m" slots i] by (simp add: purgeSlots_def)

subsection \<open>The inputs of the hashes\<close>

lemma length_bytesBE [simp]: "length (bytesBE w x) = w"
  by (induction w arbitrary: x) auto

lemma of_int_u8_eq: "(of_int x :: u8) = of_int y \<longleftrightarrow> x mod 256 = y mod 256"
  by (simp add: word_of_int_eq_iff take_bit_eq_mod)

lemma bytesBE_eq: "bytesBE w x = bytesBE w y \<longleftrightarrow> x mod 256 ^ w = y mod 256 ^ w"
proof (induction w arbitrary: x y)
  case (Suc w)
  have split: "z mod 256 ^ Suc w = 256 * (z div 256 mod 256 ^ w) + z mod 256" for z :: int
    using zmod_zmult2_eq [of "256 ^ w" z 256] by simp
  have "a * 256 + b = c * 256 + d \<longleftrightarrow> a = c \<and> b = d" if "0 \<le> b" "b < 256" "0 \<le> d" "d < 256" for a b c d :: int
  proof
    assume eq: "a * 256 + b = c * 256 + d"
    then have "(a * 256 + b) div 256 = (c * 256 + d) div 256" by simp
    then have "a = c" using that by simp
    then show "a = c \<and> b = d" using eq by simp
  qed simp
  from this [of "x mod 256" "y mod 256" "x div 256 mod 256 ^ w" "y div 256 mod 256 ^ w"]
  have "x mod 256 ^ Suc w = y mod 256 ^ Suc w \<longleftrightarrow>
      x div 256 mod 256 ^ w = y div 256 mod 256 ^ w \<and> x mod 256 = y mod 256"
    unfolding split by (simp add: mult.commute)
  then show ?case using Suc.IH of_int_u8_eq by simp
qed simp

text \<open>The hash of a node for its priority, the one for its neighbourhood and the hash of a value never have
  the same input, and equal inputs come from equal rounds and nodes.\<close>

theorem nodeHashInput_inj:
  assumes "- (2 ^ 31) \<le> r" "r < 2 ^ 31" "- (2 ^ 31) \<le> r'" "r' < 2 ^ 31"
  shows "nodeHashInput p r m = nodeHashInput p' r' m' \<longleftrightarrow> p = p' \<and> r = r' \<and> m = m'"
    and "nodeHashInput p r m \<noteq> valueHashInput r' v"
proof -
  have "r mod 256 ^ 4 = r' mod 256 ^ 4 \<longleftrightarrow> r = r'"
  proof
    assume "r mod 256 ^ 4 = r' mod 256 ^ 4"
    then have "(r + 2 ^ 31) mod 2 ^ 32 = (r' + 2 ^ 31) mod 2 ^ 32" by (simp, metis mod_add_left_eq)
    then show "r = r'" using assms by (simp add: mod_pos_pos_trivial)
  qed simp
  moreover have "uint m mod 256 ^ 32 = uint m' mod 256 ^ 32 \<longleftrightarrow> m = m'"
  proof -
    have "uint m < 256 ^ 32" "uint m' < 256 ^ 32" using unsigned_less [of m] unsigned_less [of m'] by simp_all
    then show ?thesis by (simp add: mod_pos_pos_trivial word_uint_eq_iff)
  qed
  ultimately show "nodeHashInput p r m = nodeHashInput p' r' m' \<longleftrightarrow> p = p' \<and> r = r' \<and> m = m'"
    by (auto simp: nodeHashInput_def xdrNodeID_def bytesBE_eq hash_P_def hash_N_def)
  show "nodeHashInput p r m \<noteq> valueHashInput r' v"
    by (auto simp: nodeHashInput_def valueHashInput_def append_eq_append_conv bytesBE_eq
        hash_P_def hash_N_def hash_K_def)
qed

theorem nodeHashInput_inj_witness:
  "nodeHashInput True 1 5 \<noteq> nodeHashInput False 1 5 \<and> nodeHashInput True 1 5 \<noteq> valueHashInput 1 [5]"
  using nodeHashInput_inj(1) [of 1 1 True 5 False 5] nodeHashInput_inj(2) [of 1 1 True 5 "[5]"] by simp

end
