(* ===== verification/Ledger_Txn.thy ===== *)
theory Ledger_Txn
  imports Offer_Order
begin

section \<open>Nested ledger transactions (src/src/ledger/LedgerTxn.cpp)\<close>

text \<open>
  A \<^verbatim>\<open>LedgerTxn\<close> records the entries it touched, over a parent that is another \<^verbatim>\<open>LedgerTxn\<close> or the
  database behind \<^verbatim>\<open>LedgerTxnRoot\<close>. A transaction has at most one child, so the open transactions are
  a stack: position 0 is the innermost, and the root is below the last. An operation names the
  position of the transaction it is called on. The database is the list of its rows and its SQL
  statements are list functions; the entry cache, which only avoids reading a row twice, is left out,
  and the cache of best offers is kept without its bound on the number of books.
\<close>

datatype EntryHandle = LedgerTxnEntryHandle | ConstLedgerTxnEntryHandle

record LedgerTxn =
  lt_entry :: "(LedgerKey \<times> LedgerEntry option) list"
  lt_header :: LedgerHeader
  lt_active :: "(LedgerKey \<times> EntryHandle) list"
  lt_activeHeader :: bool
  lt_shouldUpdateLastModified :: bool
  lt_isSealed :: bool

record LedgerTxnRoot =
  rt_entry :: "(LedgerKey \<times> LedgerEntry) list"
  rt_header :: LedgerHeader

record txn_stack =
  ts_txns :: "LedgerTxn list"
  ts_root :: LedgerTxnRoot

fun newestVersion :: "LedgerTxn list \<Rightarrow> LedgerTxnRoot \<Rightarrow> LedgerKey \<Rightarrow> LedgerEntry option" where
  "newestVersion [] rt k = map_of (rt_entry rt) k"
| "newestVersion (t # ts) rt k =
     (case map_of (lt_entry t) k of Some e \<Rightarrow> e | None \<Rightarrow> newestVersion ts rt k)"

fun currentHeader :: "LedgerTxn list \<Rightarrow> LedgerTxnRoot \<Rightarrow> LedgerHeader" where
  "currentHeader [] rt = rt_header rt"
| "currentHeader (t # ts) rt = lt_header t"

subsection \<open>The guards\<close>

text \<open>\<^verbatim>\<open>throwIfSealed\<close> and \<^verbatim>\<open>throwIfChild\<close>: the transaction at a position with what is below it.\<close>

definition guardTxn :: "txn_stack \<Rightarrow> nat \<Rightarrow> cpp_error + (LedgerTxn \<times> LedgerTxn list)" where
  "guardTxn st n = (case drop n (ts_txns st) of
       [] \<Rightarrow> Inl (RuntimeError ''LedgerTxnEntry was handled'')
     | t # ts \<Rightarrow>
         if lt_isSealed t then Inl (RuntimeError ''LedgerTxn is sealed'')
         else if n \<noteq> 0 then Inl (RuntimeError ''LedgerTxn has child'')
         else Inr (t, ts))"

subsection \<open>Opening, creating, loading, erasing\<close>

definition newLedgerTxn :: "LedgerHeader \<Rightarrow> bool \<Rightarrow> LedgerTxn" where
  "newLedgerTxn h upd = \<lparr>lt_entry = [], lt_header = h, lt_active = [], lt_activeHeader = False,
     lt_shouldUpdateLastModified = upd, lt_isSealed = False\<rparr>"

text \<open>The constructor: the position of the parent, the root being below every transaction. Adding a
  child deactivates the handles of the parent.\<close>

definition openTxn :: "txn_stack \<Rightarrow> nat \<Rightarrow> bool \<Rightarrow> cpp_error + txn_stack" where
  "openTxn st n upd =
     (if n \<ge> length (ts_txns st) then
        if ts_txns st \<noteq> [] then Inl (RuntimeError ''LedgerTxnRoot already has child'')
        else Inr (st\<lparr>ts_txns := [newLedgerTxn (rt_header (ts_root st)) upd]\<rparr>)
      else
        bindE (guardTxn st n) (\<lambda>(t, ts).
        Inr (st\<lparr>ts_txns := newLedgerTxn (lt_header t) upd
               # t\<lparr>lt_active := [], lt_activeHeader := False\<rparr> # ts\<rparr>)))"

definition LedgerTxn_create :: "txn_stack \<Rightarrow> nat \<Rightarrow> LedgerEntry \<Rightarrow> cpp_error + txn_stack" where
  "LedgerTxn_create st n e =
     bindE (guardTxn st n) (\<lambda>(t, ts).
     let key = LedgerEntryKey e in
     if newestVersion (t # ts) (ts_root st) key \<noteq> None then Inl (RuntimeError ''Key already exists'')
     else Inr (st\<lparr>ts_txns := t\<lparr>lt_entry := AList.update key (Some e) (lt_entry t),
                             lt_active := AList.update key LedgerTxnEntryHandle (lt_active t)\<rparr> # ts\<rparr>))"

text \<open>The entry found; a handle is active afterwards exactly when there is one.\<close>

definition LedgerTxn_load :: "txn_stack \<Rightarrow> nat \<Rightarrow> LedgerKey \<Rightarrow> cpp_error + (LedgerEntry option \<times> txn_stack)" where
  "LedgerTxn_load st n key =
     bindE (guardTxn st n) (\<lambda>(t, ts).
     if map_of (lt_active t) key \<noteq> None then Inl (RuntimeError ''Key is active'')
     else (case newestVersion (t # ts) (ts_root st) key of
         None \<Rightarrow> Inr (None, st)
       | Some e \<Rightarrow>
           Inr (Some e, st\<lparr>ts_txns := t\<lparr>lt_entry := AList.update key (Some e) (lt_entry t),
             lt_active := AList.update key LedgerTxnEntryHandle (lt_active t)\<rparr> # ts\<rparr>)))"

definition LedgerTxn_loadWithoutRecord ::
    "txn_stack \<Rightarrow> nat \<Rightarrow> LedgerKey \<Rightarrow> cpp_error + (LedgerEntry option \<times> txn_stack)" where
  "LedgerTxn_loadWithoutRecord st n key =
     bindE (guardTxn st n) (\<lambda>(t, ts).
     if map_of (lt_active t) key \<noteq> None then Inl (RuntimeError ''Key is active'')
     else (case newestVersion (t # ts) (ts_root st) key of
         None \<Rightarrow> Inr (None, st)
       | Some e \<Rightarrow>
           Inr (Some e, st\<lparr>ts_txns :=
             t\<lparr>lt_active := AList.update key ConstLedgerTxnEntryHandle (lt_active t)\<rparr> # ts\<rparr>)))"

text \<open>Assigning to \<^verbatim>\<open>current()\<close> of the handle of a key.\<close>

definition writeCurrent :: "txn_stack \<Rightarrow> nat \<Rightarrow> LedgerKey \<Rightarrow> LedgerEntry \<Rightarrow> cpp_error + txn_stack" where
  "writeCurrent st n key e = (case drop n (ts_txns st) of
       [] \<Rightarrow> Inl (RuntimeError ''LedgerTxnEntry not active'')
     | t # ts \<Rightarrow>
         if map_of (lt_active t) key \<noteq> Some LedgerTxnEntryHandle
         then Inl (RuntimeError ''LedgerTxnEntry not active'')
         else Inr (st\<lparr>ts_txns := take n (ts_txns st)
                @ t\<lparr>lt_entry := AList.update key (Some e) (lt_entry t)\<rparr> # ts\<rparr>))"

definition LedgerTxn_deactivate :: "txn_stack \<Rightarrow> nat \<Rightarrow> LedgerKey \<Rightarrow> cpp_error + txn_stack" where
  "LedgerTxn_deactivate st n key = (case drop n (ts_txns st) of
       [] \<Rightarrow> Inl (RuntimeError ''LedgerTxnEntry was handled'')
     | t # ts \<Rightarrow>
         if map_of (lt_active t) key = None then Inl (RuntimeError ''Key is not active'')
         else Inr (st\<lparr>ts_txns := take n (ts_txns st)
                @ t\<lparr>lt_active := AList.delete key (lt_active t)\<rparr> # ts\<rparr>))"

definition LedgerTxn_erase :: "txn_stack \<Rightarrow> nat \<Rightarrow> LedgerKey \<Rightarrow> cpp_error + txn_stack" where
  "LedgerTxn_erase st n key =
     bindE (guardTxn st n) (\<lambda>(t, ts).
     if newestVersion (t # ts) (ts_root st) key = None then Inl (RuntimeError ''Key does not exist'')
     else Inr (st\<lparr>ts_txns := t\<lparr>
         lt_entry := (if newestVersion ts (ts_root st) key = None then AList.delete key (lt_entry t)
                      else AList.update key None (lt_entry t)),
         lt_active := AList.delete key (lt_active t)\<rparr> # ts\<rparr>))"

subsection \<open>The header\<close>

definition LedgerTxn_loadHeader :: "txn_stack \<Rightarrow> nat \<Rightarrow> cpp_error + (LedgerHeader \<times> txn_stack)" where
  "LedgerTxn_loadHeader st n =
     bindE (guardTxn st n) (\<lambda>(t, ts).
     if lt_activeHeader t then Inl (RuntimeError ''LedgerTxnHeader is active'')
     else Inr (lt_header t, st\<lparr>ts_txns := t\<lparr>lt_activeHeader := True\<rparr> # ts\<rparr>))"

definition writeHeader :: "txn_stack \<Rightarrow> nat \<Rightarrow> LedgerHeader \<Rightarrow> cpp_error + txn_stack" where
  "writeHeader st n h = (case drop n (ts_txns st) of
       [] \<Rightarrow> Inl (RuntimeError ''LedgerTxnHeader not active'')
     | t # ts \<Rightarrow>
         if \<not> lt_activeHeader t then Inl (RuntimeError ''LedgerTxnHeader not active'')
         else Inr (st\<lparr>ts_txns := take n (ts_txns st) @ t\<lparr>lt_header := h\<rparr> # ts\<rparr>))"

definition LedgerTxn_deactivateHeader :: "txn_stack \<Rightarrow> nat \<Rightarrow> cpp_error + txn_stack" where
  "LedgerTxn_deactivateHeader st n = (case drop n (ts_txns st) of
       [] \<Rightarrow> Inl (RuntimeError ''LedgerTxnEntry was handled'')
     | t # ts \<Rightarrow>
         if \<not> lt_activeHeader t then Inl (RuntimeError ''LedgerTxnHeader is not active'')
         else Inr (st\<lparr>ts_txns := take n (ts_txns st) @ t\<lparr>lt_activeHeader := False\<rparr> # ts\<rparr>))"

text \<open>The function given to \<^verbatim>\<open>unsealHeader\<close> maps the header it is passed.\<close>

definition LedgerTxn_unsealHeader ::
    "txn_stack \<Rightarrow> nat \<Rightarrow> (LedgerHeader \<Rightarrow> LedgerHeader) \<Rightarrow> cpp_error + txn_stack" where
  "LedgerTxn_unsealHeader st n f = (case drop n (ts_txns st) of
       [] \<Rightarrow> Inl (RuntimeError ''LedgerTxnEntry was handled'')
     | t # ts \<Rightarrow>
         if \<not> lt_isSealed t then Inl (RuntimeError ''LedgerTxn is not sealed'')
         else if lt_activeHeader t then Inl (RuntimeError ''LedgerTxnHeader is active'')
         else Inr (st\<lparr>ts_txns := take n (ts_txns st) @ t\<lparr>lt_header := f (lt_header t)\<rparr> # ts\<rparr>))"

subsection \<open>Sealing\<close>

definition maybeUpdateLastModified :: "LedgerTxn \<Rightarrow> (LedgerKey \<times> LedgerEntry option) list" where
  "maybeUpdateLastModified t = map (\<lambda>(k, e). (k, map_option (\<lambda>le.
       if lt_shouldUpdateLastModified t then le\<lparr>le_lastModifiedLedgerSeq := lh_ledgerSeq (lt_header t)\<rparr>
       else le) e)) (lt_entry t)"

text \<open>\<^verbatim>\<open>maybeUpdateLastModifiedThenInvokeThenSeal\<close> around the function \<^verbatim>\<open>f\<close>, which is given the
  entries and the parent.\<close>

definition sealWith ::
    "txn_stack \<Rightarrow> nat \<Rightarrow> (LedgerTxn \<Rightarrow> (LedgerKey \<times> LedgerEntry option) list \<Rightarrow> LedgerTxn list \<Rightarrow> cpp_error + 'a)
       \<Rightarrow> cpp_error + ('a \<times> txn_stack)" where
  "sealWith st n f = (case drop n (ts_txns st) of
       [] \<Rightarrow> Inl (RuntimeError ''LedgerTxnEntry was handled'')
     | t # ts \<Rightarrow>
         if lt_isSealed t then bindE (f t (lt_entry t) ts) (\<lambda>r. Inr (r, st))
         else
           bindE (guardTxn st n) (\<lambda>_.
           bindE (f t (maybeUpdateLastModified t) ts) (\<lambda>r.
           Inr (r, st\<lparr>ts_txns := t\<lparr>lt_entry := maybeUpdateLastModified t, lt_active := [],
                      lt_activeHeader := False, lt_isSealed := True\<rparr> # ts\<rparr>))))"

datatype LedgerEntryChange =
    LEDGER_ENTRY_STATE LedgerEntry
  | LEDGER_ENTRY_UPDATED LedgerEntry
  | LEDGER_ENTRY_REMOVED LedgerKey
  | LEDGER_ENTRY_CREATED LedgerEntry

fun changesOf ::
    "LedgerTxn list \<Rightarrow> LedgerTxnRoot \<Rightarrow> (LedgerKey \<times> LedgerEntry option) list \<Rightarrow> cpp_error + LedgerEntryChange list" where
  "changesOf ts rt [] = Inr []"
| "changesOf ts rt ((key, e) # es) =
     bindE (case newestVersion ts rt key of
        Some previous \<Rightarrow> Inr [LEDGER_ENTRY_STATE previous,
           (case e of Some le \<Rightarrow> LEDGER_ENTRY_UPDATED le | None \<Rightarrow> LEDGER_ENTRY_REMOVED key)]
      | None \<Rightarrow> (case e of Some le \<Rightarrow> Inr [LEDGER_ENTRY_CREATED le] | None \<Rightarrow> Inl AssertionFailed)) (\<lambda>here.
     bindE (changesOf ts rt es) (\<lambda>rest. Inr (here @ rest)))"

definition getChanges :: "txn_stack \<Rightarrow> nat \<Rightarrow> cpp_error + (LedgerEntryChange list \<times> txn_stack)" where
  "getChanges st n = sealWith st n (\<lambda>t entries ts. changesOf ts (ts_root st) entries)"

definition getLiveEntries :: "txn_stack \<Rightarrow> nat \<Rightarrow> cpp_error + (LedgerEntry list \<times> txn_stack)" where
  "getLiveEntries st n = sealWith st n (\<lambda>t entries ts. Inr (List.map_filter snd entries))"

definition getDeadEntries :: "txn_stack \<Rightarrow> nat \<Rightarrow> cpp_error + (LedgerKey list \<times> txn_stack)" where
  "getDeadEntries st n = sealWith st n (\<lambda>t entries ts. Inr (map fst (filter (\<lambda>(k, e). e = None) entries)))"

record LedgerTxnDelta =
  ltd_entry :: "(LedgerKey \<times> LedgerEntry option \<times> LedgerEntry option) list"
  ltd_header :: "LedgerHeader \<times> LedgerHeader"

definition getDelta :: "txn_stack \<Rightarrow> nat \<Rightarrow> cpp_error + (LedgerTxnDelta \<times> txn_stack)" where
  "getDelta st n = sealWith st n (\<lambda>t entries ts. Inr
     \<lparr>ltd_entry = map (\<lambda>(k, e). (k, e, newestVersion ts (ts_root st) k)) entries,
      ltd_header = (lt_header t, currentHeader ts (ts_root st))\<rparr>)"

subsection \<open>Committing and rolling back\<close>

text \<open>\<^verbatim>\<open>commitChild\<close> of a \<^verbatim>\<open>LedgerTxn\<close>, with its own parent, and of the root. A deletion of a row
  that is not there throws, and an exception while the root commits aborts the program.\<close>

definition commitEntry ::
    "LedgerTxn list \<Rightarrow> LedgerTxnRoot \<Rightarrow> LedgerKey \<times> LedgerEntry option
       \<Rightarrow> (LedgerKey \<times> LedgerEntry option) list \<Rightarrow> (LedgerKey \<times> LedgerEntry option) list" where
  "commitEntry ts rt p mEntry = (case p of (key, e) \<Rightarrow>
     (case e of
        Some le \<Rightarrow> AList.update key (Some le) mEntry
      | None \<Rightarrow> if newestVersion ts rt key = None then AList.delete key mEntry
                else AList.update key None mEntry))"

definition commitEntries ::
    "LedgerTxn list \<Rightarrow> LedgerTxnRoot \<Rightarrow> (LedgerKey \<times> LedgerEntry option) list
       \<Rightarrow> (LedgerKey \<times> LedgerEntry option) list \<Rightarrow> (LedgerKey \<times> LedgerEntry option) list" where
  "commitEntries ts rt entries mEntry = fold (commitEntry ts rt) entries mEntry"

fun storeRows ::
    "(LedgerKey \<times> LedgerEntry option) list \<Rightarrow> (LedgerKey \<times> LedgerEntry) list \<Rightarrow> cpp_error + (LedgerKey \<times> LedgerEntry) list" where
  "storeRows [] rows = Inr rows"
| "storeRows ((key, e) # es) rows = (case e of
       Some le \<Rightarrow> storeRows es (AList.update key le rows)
     | None \<Rightarrow> if map_of rows key = None then Inl Aborted else storeRows es (AList.delete key rows))"

definition LedgerTxn_commit :: "txn_stack \<Rightarrow> nat \<Rightarrow> cpp_error + txn_stack" where
  "LedgerTxn_commit st n =
     bindE (sealWith st n (\<lambda>t entries ts.
       case ts of
         p # ps \<Rightarrow> Inr (st\<lparr>ts_txns := p\<lparr>lt_entry := commitEntries ps (ts_root st) entries (lt_entry p),
                                      lt_header := lt_header t\<rparr> # ps\<rparr>)
       | [] \<Rightarrow> bindE (storeRows entries (rt_entry (ts_root st))) (\<lambda>rows.
                 Inr (st\<lparr>ts_txns := [], ts_root := (ts_root st)\<lparr>rt_entry := rows, rt_header := lt_header t\<rparr>\<rparr>))))
       (\<lambda>(st', _). Inr st')"

text \<open>Rolling back rolls back the children first; all of them go.\<close>

definition LedgerTxn_rollback :: "txn_stack \<Rightarrow> nat \<Rightarrow> cpp_error + txn_stack" where
  "LedgerTxn_rollback st n =
     (if n \<ge> length (ts_txns st) then Inl (RuntimeError ''LedgerTxnEntry was handled'')
      else Inr (st\<lparr>ts_txns := drop (Suc n) (ts_txns st)\<rparr>))"

subsection \<open>Maintenance of the database\<close>

text \<open>Possible only while no transaction is open. The kind of an entry is given by a test on its key.\<close>

definition countObjects :: "txn_stack \<Rightarrow> (LedgerKey \<Rightarrow> bool) \<Rightarrow> cpp_error + nat" where
  "countObjects st kind = (if ts_txns st \<noteq> [] then Inl (RuntimeError ''LedgerTxnRoot has child'')
     else Inr (length (filter (\<lambda>(k, e). kind k) (rt_entry (ts_root st)))))"

definition countObjectsBetween :: "txn_stack \<Rightarrow> (LedgerKey \<Rightarrow> bool) \<Rightarrow> int \<Rightarrow> int \<Rightarrow> cpp_error + nat" where
  "countObjectsBetween st kind lo hi =
     (if ts_txns st \<noteq> [] then Inl (RuntimeError ''LedgerTxnRoot has child'')
      else Inr (length (filter (\<lambda>(k, e). kind k \<and> lo \<le> le_lastModifiedLedgerSeq e \<and> le_lastModifiedLedgerSeq e \<le> hi)
                          (rt_entry (ts_root st)))))"

definition deleteObjectsModifiedOnOrAfterLedger :: "txn_stack \<Rightarrow> int \<Rightarrow> cpp_error + txn_stack" where
  "deleteObjectsModifiedOnOrAfterLedger st ledger =
     (if ts_txns st \<noteq> [] then Inl (RuntimeError ''LedgerTxnRoot has child'')
      else Inr (st\<lparr>ts_root := (ts_root st)\<lparr>rt_entry :=
        filter (\<lambda>(k, e). le_lastModifiedLedgerSeq e < ledger) (rt_entry (ts_root st))\<rparr>\<rparr>))"

subsection \<open>What a stack presents\<close>

text \<open>Keys are unique and every entry is filed under its key; a transaction marks a key as erased only
  where its parent has an entry.\<close>

definition filed :: "LedgerTxn list \<Rightarrow> LedgerTxnRoot \<Rightarrow> LedgerKey \<times> LedgerEntry option \<Rightarrow> bool" where
  "filed ts rt p = (case snd p of Some le \<Rightarrow> LedgerEntryKey le = fst p | None \<Rightarrow> newestVersion ts rt (fst p) \<noteq> None)"

fun txns_ok :: "LedgerTxn list \<Rightarrow> LedgerTxnRoot \<Rightarrow> bool" where
  "txns_ok [] rt \<longleftrightarrow> distinct (map fst (rt_entry rt)) \<and> (\<forall>(k, e) \<in> set (rt_entry rt). LedgerEntryKey e = k)"
| "txns_ok (t # ts) rt \<longleftrightarrow> txns_ok ts rt \<and> distinct (map fst (lt_entry t)) \<and> (\<forall>p \<in> set (lt_entry t). filed ts rt p)"

text \<open>The flat ledger that operations work on.\<close>

definition presents :: "txn_stack \<Rightarrow> ledger \<Rightarrow> bool" where
  "presents st l \<longleftrightarrow> txns_ok (ts_txns st) (ts_root st) \<and> keyed l
     \<and> lg_header l = currentHeader (ts_txns st) (ts_root st)
     \<and> (\<forall>k. load l k = map_option le_data (newestVersion (ts_txns st) (ts_root st) k))"

lemma txns_ok_key: "\<lbrakk>txns_ok ts rt; newestVersion ts rt k = Some e\<rbrakk> \<Longrightarrow> LedgerEntryKey e = k"
proof (induction ts)
  case Nil
  then show ?case by (auto dest: map_of_SomeD)
next
  case (Cons t ts)
  then show ?case by (fastforce simp: filed_def split: option.split_asm dest!: map_of_SomeD)
qed

lemma newestVersion_cong:
  "lt_entry t' = lt_entry t \<Longrightarrow> newestVersion (t' # ts) rt = newestVersion (t # ts) rt"
  by (rule ext) simp

lemma txns_ok_cong: "lt_entry t' = lt_entry t \<Longrightarrow> txns_ok (t' # ts) rt \<longleftrightarrow> txns_ok (t # ts) rt"
  by simp

lemma newestVersion_update:
  "lt_entry t' = AList.update k e (lt_entry t)
     \<Longrightarrow> newestVersion (t' # ts) rt k' = (if k' = k then e else newestVersion (t # ts) rt k')"
  by (simp add: update_conv')

lemma set_update_alist: "set (AList.update k v al) \<subseteq> insert (k, v) (set al)"
  by (rule set_alist_update)

lemma txns_ok_update:
  assumes "txns_ok (t # ts) rt" "filed ts rt (k, e)" "lt_entry t' = AList.update k e (lt_entry t)"
  shows "txns_ok (t' # ts) rt"
  using assms distinct_update [of "lt_entry t" k e] set_update_alist [of k e "lt_entry t"] by auto

lemma txns_ok_delete:
  "\<lbrakk>txns_ok (t # ts) rt; lt_entry t' = AList.delete k (lt_entry t)\<rbrakk> \<Longrightarrow> txns_ok (t' # ts) rt"
  by (auto simp: AList.delete_eq distinct_map_filter)

lemma presents_storeI:
  assumes "presents st l" "txns_ok (ts_txns st') (ts_root st')"
    and "currentHeader (ts_txns st') (ts_root st') = currentHeader (ts_txns st) (ts_root st)"
    and "\<And>k. newestVersion (ts_txns st') (ts_root st') k
      = (if k = LedgerEntryKey e then Some e else newestVersion (ts_txns st) (ts_root st) k)"
  shows "presents st' (store l (le_data e))"
  using assms by (simp add: presents_def keyed_store LedgerEntryKey_def)

subsection \<open>Operations on the innermost transaction\<close>

text \<open>What an operation does to a ledger comes down to four things; the handle it uses is destroyed
  when it is done. The second function is the same on the flat ledger.\<close>

datatype txn_op =
    CreateEntry LedgerEntry
  | EraseEntry LedgerKey
  | WriteEntry LedgerEntry
  | PutHeader LedgerHeader

definition runTxnOp :: "txn_op \<Rightarrow> txn_stack \<Rightarrow> cpp_error + txn_stack" where
  "runTxnOp op st = (case op of
       CreateEntry e \<Rightarrow>
         bindE (LedgerTxn_create st 0 e) (\<lambda>st1. LedgerTxn_deactivate st1 0 (LedgerEntryKey e))
     | EraseEntry k \<Rightarrow> LedgerTxn_erase st 0 k
     | WriteEntry e \<Rightarrow>
         bindE (LedgerTxn_load st 0 (LedgerEntryKey e)) (\<lambda>(found, st1).
         bindE (writeCurrent st1 0 (LedgerEntryKey e) e) (\<lambda>st2.
         LedgerTxn_deactivate st2 0 (LedgerEntryKey e)))
     | PutHeader h \<Rightarrow>
         bindE (LedgerTxn_loadHeader st 0) (\<lambda>(h0, st1).
         bindE (writeHeader st1 0 h) (\<lambda>st2.
         LedgerTxn_deactivateHeader st2 0)))"

definition runFlatOp :: "txn_op \<Rightarrow> ledger \<Rightarrow> cpp_error + ledger" where
  "runFlatOp op l = (case op of
       CreateEntry e \<Rightarrow> create l (le_data e)
     | EraseEntry k \<Rightarrow> erase l k
     | WriteEntry e \<Rightarrow>
         if load l (LedgerEntryKey e) = None then Inl (RuntimeError ''LedgerTxnEntry not active'')
         else Inr (store l (le_data e))
     | PutHeader h \<Rightarrow> Inr (setHeader l h))"

fun runOps :: "(txn_op \<Rightarrow> 's \<Rightarrow> cpp_error + 's) \<Rightarrow> txn_op list \<Rightarrow> 's \<Rightarrow> cpp_error + 's" where
  "runOps f [] s = Inr s"
| "runOps f (op # ops) s = bindE (f op s) (runOps f ops)"

text \<open>The innermost transaction is open and no handle of it is active; what is below it.\<close>

definition idle :: "txn_stack \<Rightarrow> bool" where
  "idle st \<longleftrightarrow> (case ts_txns st of [] \<Rightarrow> False
     | t # ts \<Rightarrow> \<not> lt_isSealed t \<and> lt_active t = [] \<and> \<not> lt_activeHeader t)"

definition below :: "txn_stack \<Rightarrow> LedgerTxn list \<times> LedgerTxnRoot" where
  "below st = (drop 1 (ts_txns st), ts_root st)"

lemma guardTxn_idle: "\<lbrakk>idle st; ts_txns st = t # ts\<rbrakk> \<Longrightarrow> guardTxn st 0 = Inr (t, ts)"
  by (simp add: guardTxn_def idle_def)

lemma delete_single [simp]: "AList.delete k [(k, v)] = []"
  by (simp add: AList.delete_eq)

lemma erase_keeps_keyed: "\<lbrakk>keyed l; load l k \<noteq> None\<rbrakk> \<Longrightarrow> \<exists>l'. erase l k = Inr l' \<and> keyed l'"
  using keyed_erase [of l k] by (auto simp: erase_def)

lemma runTxnOp_sim:
  assumes p: "presents st l" and i: "idle st"
  shows "case runTxnOp op st of Inl err \<Rightarrow> runFlatOp op l = Inl err
    | Inr st' \<Rightarrow> \<exists>l'. runFlatOp op l = Inr l' \<and> presents st' l' \<and> idle st' \<and> below st' = below st"
proof -
  from i obtain t ts where st: "ts_txns st = t # ts" and t: "\<not> lt_isSealed t" "lt_active t = []" "\<not> lt_activeHeader t"
    by (auto simp: idle_def split: list.split_asm)
  let ?rt = "ts_root st"
  note g = guardTxn_idle [OF i st]
  from p st have ok: "txns_ok (t # ts) ?rt" and kl: "keyed l" and h: "lg_header l = lt_header t"
    and ld: "\<And>k. load l k = map_option le_data (newestVersion (t # ts) ?rt k)"
    by (auto simp: presents_def)
  show ?thesis
  proof (cases op)
    case (CreateEntry e)
    let ?t = "t\<lparr>lt_entry := AList.update (LedgerEntryKey e) (Some e) (lt_entry t), lt_active := []\<rparr>"
    show ?thesis
    proof (cases "newestVersion (t # ts) ?rt (LedgerEntryKey e)")
      case None
      let ?st = "st\<lparr>ts_txns := ?t # ts\<rparr>"
      have "runTxnOp op st = Inr ?st"
        using CreateEntry g None t by (simp add: runTxnOp_def LedgerTxn_create_def LedgerTxn_deactivate_def Let_def)
      moreover have "runFlatOp op l = Inr (store l (le_data e))"
        using CreateEntry None ld [of "LedgerEntryKey e"]
        by (simp add: runFlatOp_def create_def LedgerEntryKey_def)
      moreover have "txns_ok (?t # ts) ?rt" by (rule txns_ok_update [OF ok, of "LedgerEntryKey e" "Some e"]) (simp_all add: filed_def)
      then have "presents ?st (store l (le_data e))"
        by (intro presents_storeI [OF p]) (simp_all add: st update_conv')
      ultimately show ?thesis using t st by (simp add: idle_def below_def)
    next
      case (Some e')
      with CreateEntry g ld [of "LedgerEntryKey e"] show ?thesis
        by (simp add: runTxnOp_def LedgerTxn_create_def runFlatOp_def create_def LedgerEntryKey_def Let_def)
    qed
  next
    case (EraseEntry k)
    show ?thesis
    proof (cases "newestVersion (t # ts) ?rt k")
      case None
      with EraseEntry g ld [of k] show ?thesis
        by (simp add: runTxnOp_def LedgerTxn_erase_def runFlatOp_def erase_def)
    next
      case (Some e')
      let ?t = "t\<lparr>lt_entry := (if newestVersion ts ?rt k = None then AList.delete k (lt_entry t)
          else AList.update k None (lt_entry t)), lt_active := []\<rparr>"
      have r: "runTxnOp op st = Inr (st\<lparr>ts_txns := ?t # ts\<rparr>)"
        using EraseEntry g Some t by (auto simp: runTxnOp_def LedgerTxn_erase_def)
      obtain l' where l': "erase l k = Inr l'" "keyed l'"
        using erase_keeps_keyed [OF kl, of k] ld [of k] Some by auto
      have ok': "txns_ok (?t # ts) ?rt"
      proof (cases "newestVersion ts ?rt k")
        case None
        then show ?thesis by (intro txns_ok_delete [OF ok, of _ k]) simp
      next
        case (Some e)
        then show ?thesis by (intro txns_ok_update [OF ok, of k None]) (simp_all add: filed_def)
      qed
      have "newestVersion (?t # ts) ?rt k' = (if k' = k then None else newestVersion (t # ts) ?rt k')" for k'
        by (auto simp: update_conv' delete_conv')
      then have "presents (st\<lparr>ts_txns := ?t # ts\<rparr>) l'"
        using ok' l' h erase_header [OF l'(1)] ld unfolding presents_def
        by (simp add: load_erase [OF l'(1)] del: newestVersion.simps)
      with r l' EraseEntry t st show ?thesis by (simp add: runFlatOp_def idle_def below_def)
    qed
  next
    case (WriteEntry e)
    let ?k = "LedgerEntryKey e"
    show ?thesis
    proof (cases "newestVersion (t # ts) ?rt ?k")
      case None
      with WriteEntry g ld [of ?k] t st show ?thesis
        by (simp add: runTxnOp_def LedgerTxn_load_def writeCurrent_def runFlatOp_def)
    next
      case (Some e')
      let ?t = "t\<lparr>lt_entry := AList.update ?k (Some e) (AList.update ?k (Some e') (lt_entry t)), lt_active := []\<rparr>"
      have "runTxnOp op st = Inr (st\<lparr>ts_txns := ?t # ts\<rparr>)"
        using WriteEntry g Some t
        by (simp add: runTxnOp_def LedgerTxn_load_def writeCurrent_def LedgerTxn_deactivate_def)
      moreover have "runFlatOp op l = Inr (store l (le_data e))"
        using WriteEntry Some ld [of ?k] by (simp add: runFlatOp_def)
      moreover have ok1: "txns_ok (t\<lparr>lt_entry := AList.update ?k (Some e') (lt_entry t)\<rparr> # ts) ?rt"
        by (rule txns_ok_update [OF ok, of ?k "Some e'"]) (use txns_ok_key [OF ok Some] in \<open>simp_all add: filed_def\<close>)
      have "txns_ok (?t # ts) ?rt" by (rule txns_ok_update [OF ok1, of ?k "Some e"]) (simp_all add: filed_def)
      then have "presents (st\<lparr>ts_txns := ?t # ts\<rparr>) (store l (le_data e))"
        by (intro presents_storeI [OF p]) (simp_all add: st update_conv')
      ultimately show ?thesis using t st by (simp add: idle_def below_def)
    qed
  next
    case (PutHeader h')
    let ?t = "t\<lparr>lt_activeHeader := False, lt_header := h'\<rparr>"
    have "runTxnOp op st = Inr (st\<lparr>ts_txns := ?t # ts\<rparr>)"
      using PutHeader g t
      by (simp add: runTxnOp_def LedgerTxn_loadHeader_def writeHeader_def LedgerTxn_deactivateHeader_def)
    moreover have "presents (st\<lparr>ts_txns := ?t # ts\<rparr>) (setHeader l h')"
      using ok kl ld by (simp add: presents_def keyed_def setHeader_def load_def)
    ultimately show ?thesis using PutHeader t st by (simp add: runFlatOp_def idle_def below_def)
  qed
qed

lemma runOps_sim:
  "\<lbrakk>presents st l; idle st\<rbrakk> \<Longrightarrow> case runOps runTxnOp ops st of Inl err \<Rightarrow> runOps runFlatOp ops l = Inl err
    | Inr st' \<Rightarrow> \<exists>l'. runOps runFlatOp ops l = Inr l' \<and> presents st' l' \<and> idle st' \<and> below st' = below st"
proof (induction ops arbitrary: st l)
  case (Cons op ops)
  show ?case
  proof (cases "runTxnOp op st")
    case (Inl e)
    with runTxnOp_sim [OF Cons.prems, of op] show ?thesis by simp
  next
    case (Inr st1)
    with runTxnOp_sim [OF Cons.prems, of op] obtain l1 where
      "runFlatOp op l = Inr l1" "presents st1 l1" "idle st1" "below st1 = below st" by auto
    with Cons.IH [of st1 l1] Inr show ?thesis by (cases "runOps runTxnOp ops st1") simp_all
  qed
qed simp

subsection \<open>Committing\<close>

lemma all_map_of: "distinct (map fst al) \<Longrightarrow> (\<forall>p \<in> set al. P p) \<longleftrightarrow> (\<forall>k e. map_of al k = Some e \<longrightarrow> P (k, e))"
  by (auto dest: map_of_SomeD)

lemma map_of_commitEntry:
  "map_of (commitEntry ps rt (key, e) m) k = (if k = key then
      (case e of Some le \<Rightarrow> Some (Some le) | None \<Rightarrow> if newestVersion ps rt k = None then None else Some None)
    else map_of m k)"
  by (cases e) (auto simp: commitEntry_def update_conv' delete_conv')

lemma map_of_commitEntries:
  "distinct (map fst es) \<Longrightarrow> map_of (commitEntries ps rt es m) k = (case map_of es k of
      None \<Rightarrow> map_of m k | Some (Some le) \<Rightarrow> Some (Some le)
    | Some None \<Rightarrow> if newestVersion ps rt k = None then None else Some None)"
  unfolding commitEntries_def
proof (induction es arbitrary: m)
  case (Cons p es)
  obtain key e where p: "p = (key, e)" by (cases p)
  from Cons.prems p have fresh: "map_of es key = None" by (simp add: map_of_eq_None_iff)
  show ?case
  proof (cases "k = key")
    case True
    with Cons fresh p show ?thesis by (cases e) (simp_all add: map_of_commitEntry)
  next
    case False
    with Cons p show ?thesis by (cases "map_of es k") (simp_all add: map_of_commitEntry)
  qed
qed simp

lemma distinct_commitEntries:
  "distinct (map fst m) \<Longrightarrow> distinct (map fst (commitEntries ps rt es m))"
  unfolding commitEntries_def
proof (induction es arbitrary: m)
  case (Cons p es)
  have "distinct (map fst (commitEntry ps rt p m))"
    using Cons.prems
    by (cases p; cases "snd p") (simp_all add: commitEntry_def AList.delete_eq distinct_map_filter distinct_update)
  with Cons.IH show ?case by simp
qed simp

lemma storeRows_rows:
  "\<lbrakk>distinct (map fst es); distinct (map fst rows); \<And>k. map_of es k = Some None \<Longrightarrow> map_of rows k \<noteq> None\<rbrakk>
   \<Longrightarrow> \<exists>rows'. storeRows es rows = Inr rows' \<and> distinct (map fst rows')
     \<and> (\<forall>k. map_of rows' k = (case map_of es k of None \<Rightarrow> map_of rows k | Some e \<Rightarrow> e))"
proof (induction es rows rule: storeRows.induct)
  case (2 key e es rows)
  have fresh: "map_of es key = None" using 2(3) by (simp add: map_of_eq_None_iff)
  show ?case
  proof (cases e)
    case None
    have "\<exists>y. map_of rows key = Some y" using 2(5) [of key] None by simp
    then obtain y where y: "map_of rows key = Some y" by blast
    have "map_of (AList.delete key rows) k \<noteq> None" if "map_of es k = Some None" for k
      using 2(5) [of k] that fresh by (auto simp: delete_conv')
    moreover have "distinct (map fst (AList.delete key rows))"
      using 2(4) by (simp add: AList.delete_eq distinct_map_filter)
    ultimately obtain rows' where r: "storeRows es (AList.delete key rows) = Inr rows'" "distinct (map fst rows')"
      "\<forall>k. map_of rows' k = (case map_of es k of None \<Rightarrow> map_of (AList.delete key rows) k | Some e \<Rightarrow> e)"
      using 2(1) [OF None] y 2(3) by auto
    then show ?thesis using None y fresh by (auto simp: delete_conv' split: option.split)
  next
    case (Some le)
    have "map_of (AList.update key le rows) k \<noteq> None" if "map_of es k = Some None" for k
      using 2(5) [of k] that fresh by (auto simp: update_conv')
    then obtain rows' where r: "storeRows es (AList.update key le rows) = Inr rows'" "distinct (map fst rows')"
      "\<forall>k. map_of rows' k = (case map_of es k of None \<Rightarrow> map_of (AList.update key le rows) k | Some e \<Rightarrow> e)"
      using 2(2) [OF Some] 2(3,4) distinct_update [of rows key le] by auto
    then show ?thesis using Some fresh by (auto simp: update_conv' split: option.split)
  qed
qed simp

lemma map_of_maybeUpdate:
  "\<exists>f. (\<forall>le. le_data (f le) = le_data le) \<and> (\<forall>k. map_of (maybeUpdateLastModified t) k = map_option (map_option f) (map_of (lt_entry t) k))"
proof -
  let ?f = "\<lambda>le. if lt_shouldUpdateLastModified t
      then le\<lparr>le_lastModifiedLedgerSeq := lh_ledgerSeq (lt_header t)\<rparr> else le"
  have "map_of (map (\<lambda>(k, e). (k, map_option ?f e)) al) k = map_option (map_option ?f) (map_of al k)" for al k
    by (induction al) auto
  note mo = this
  show ?thesis
    by (intro exI [of _ ?f] conjI allI, simp, simp only: maybeUpdateLastModified_def, rule mo)
qed

lemma maybeUpdate_keys: "map fst (maybeUpdateLastModified t) = map fst (lt_entry t)"
  by (simp add: maybeUpdateLastModified_def case_prod_beta comp_def)

text \<open>What committing must bring about: the parent now has the versions its child had.\<close>

lemma commit_presents:
  assumes p: "presents st l" and i: "idle st"
  shows "\<exists>st'. LedgerTxn_commit st 0 = Inr st' \<and> presents st' l"
proof -
  from i obtain t ts where st: "ts_txns st = t # ts" and t: "\<not> lt_isSealed t"
    by (auto simp: idle_def split: list.split_asm)
  let ?rt = "ts_root st" and ?es = "maybeUpdateLastModified t"
  note g = guardTxn_idle [OF i st]
  from p st have ok: "txns_ok (t # ts) ?rt" and kl: "keyed l" and h: "lg_header l = lt_header t"
    and ld: "\<And>k. load l k = map_option le_data (newestVersion (t # ts) ?rt k)"
    by (auto simp: presents_def)
  obtain f where f: "\<And>le. le_data (f le) = le_data le"
    "\<And>k. map_of ?es k = map_option (map_option f) (map_of (lt_entry t) k)"
    using map_of_maybeUpdate by metis
  have de: "distinct (map fst ?es)" using ok by (simp add: maybeUpdate_keys)
  have fl: "filed ts ?rt (k, e)" if "map_of ?es k = Some e" for k e
  proof -
    from that f(2) obtain e0 where e0: "map_of (lt_entry t) k = Some e0" "e = map_option f e0" by auto
    then have "filed ts ?rt (k, e0)" using ok by (auto dest: map_of_SomeD)
    with e0(2) f(1) show ?thesis by (cases e0) (auto simp: filed_def LedgerEntryKey_def)
  qed
  have data: "map_option le_data (case map_of ?es k of Some e \<Rightarrow> e | None \<Rightarrow> newestVersion ts ?rt k) = load l k" for k
    using ld [of k] f by (cases "map_of (lt_entry t) k") (auto simp: option.map_comp comp_def)
  show ?thesis
  proof (cases ts)
    case Nil
    have "map_of ?es k = Some None \<Longrightarrow> map_of (rt_entry ?rt) k \<noteq> None" for k
      using fl [of k None] Nil by (simp add: filed_def)
    then obtain rows where r: "storeRows ?es (rt_entry ?rt) = Inr rows" "distinct (map fst rows)"
      "\<forall>k. map_of rows k = (case map_of ?es k of None \<Rightarrow> map_of (rt_entry ?rt) k | Some e \<Rightarrow> e)"
      using storeRows_rows [OF de, of "rt_entry ?rt"] ok Nil by auto
    have "LedgerEntryKey e = k" if "map_of rows k = Some e" for k e
    proof (cases "map_of ?es k")
      case None
      with that r(3) ok Nil show ?thesis by (auto dest: map_of_SomeD)
    next
      case (Some e0)
      with that r(3) fl [of k e0] show ?thesis by (simp add: filed_def)
    qed
    then have "\<forall>(k, e) \<in> set rows. LedgerEntryKey e = k" using r(2) by auto
    moreover have rowdata: "load l k = map_option le_data (map_of rows k)" for k
      using data [of k] r(3) Nil by (cases "map_of ?es k") simp_all
    ultimately have "presents (st\<lparr>ts_txns := [], ts_root := ?rt\<lparr>rt_entry := rows, rt_header := lt_header t\<rparr>\<rparr>) l"
      using kl h r(2) rowdata by (simp add: presents_def)
    then show ?thesis using st Nil t g r(1) by (simp add: LedgerTxn_commit_def sealWith_def)
  next
    case (Cons q ps)
    let ?q = "q\<lparr>lt_entry := commitEntries ps ?rt ?es (lt_entry q), lt_header := lt_header t\<rparr>"
    have okq: "txns_ok (q # ps) ?rt" using ok Cons by simp
    note mo = map_of_commitEntries [OF de, of ps ?rt "lt_entry q"]
    have "filed ps ?rt (k, e)" if "map_of (lt_entry ?q) k = Some e" for k e
    proof (cases "map_of ?es k")
      case None
      with that mo [of k] okq show ?thesis by (auto dest: map_of_SomeD)
    next
      case (Some e0)
      with that mo [of k] fl [of k e0] show ?thesis by (auto simp: filed_def split: option.split_asm if_split_asm)
    qed
    then have "txns_ok (?q # ps) ?rt"
      using okq distinct_commitEntries [of "lt_entry q" ps ?rt ?es]
      by (simp add: all_map_of)
    moreover have "newestVersion (?q # ps) ?rt k
        = (case map_of ?es k of Some e \<Rightarrow> e | None \<Rightarrow> newestVersion ts ?rt k)" for k
      using mo [of k] Cons by (auto split: option.split)
    ultimately have "presents (st\<lparr>ts_txns := ?q # ps\<rparr>) l"
      using kl h data by (simp add: presents_def del: txns_ok.simps newestVersion.simps)
    then show ?thesis using st Cons t g by (simp add: LedgerTxn_commit_def sealWith_def)
  qed
qed

lemma openTxn_presents:
  assumes p: "presents st l" and o: "openTxn st 0 upd = Inr st'"
  shows "presents st' l \<and> idle st' \<and> (\<exists>t. ts_txns st' = t # drop 1 (ts_txns st'))
    \<and> presents (st'\<lparr>ts_txns := drop 1 (ts_txns st')\<rparr>) l"
proof (cases "ts_txns st")
  case Nil
  with o p show ?thesis
    by (auto simp: openTxn_def newLedgerTxn_def presents_def idle_def)
next
  case (Cons t ts)
  with o have st': "st' = st\<lparr>ts_txns := newLedgerTxn (lt_header t) upd
      # t\<lparr>lt_active := [], lt_activeHeader := False\<rparr> # ts\<rparr>"
    by (auto simp: openTxn_def guardTxn_def split: if_split_asm)
  have n: "newestVersion (newLedgerTxn h u # us) rt = newestVersion us rt" for h u us rt
    by (rule ext) (simp add: newLedgerTxn_def)
  have c: "newestVersion (t\<lparr>lt_active := [], lt_activeHeader := False\<rparr> # ts) rt = newestVersion (t # ts) rt" for rt
    by (rule newestVersion_cong) simp
  from p Cons show ?thesis
    unfolding st' presents_def idle_def
    by (simp add: n c del: newestVersion.simps) (simp add: newLedgerTxn_def)
qed

text \<open>C14. A nested \<^verbatim>\<open>LedgerTxn\<close> behaves like a copy of the flat ledger. Whatever sequence of creating,
  erasing, writing and header updates runs in a transaction opened on a stack that presents a ledger:
  it fails exactly when the same sequence fails on the flat ledger, with the same exception; when it
  succeeds, committing leaves a stack that presents the flat result, never aborting, and rolling back
  leaves one that presents the ledger there was before.\<close>

theorem nested_txn_refines_ledger:
  assumes "presents st l" "openTxn st 0 upd = Inr st1"
  shows "case runOps runTxnOp ops st1 of
      Inl err \<Rightarrow> runOps runFlatOp ops l = Inl err
    | Inr st2 \<Rightarrow> \<exists>l2. runOps runFlatOp ops l = Inr l2
        \<and> (\<exists>st3. LedgerTxn_commit st2 0 = Inr st3 \<and> presents st3 l2)
        \<and> (\<exists>st4. LedgerTxn_rollback st2 0 = Inr st4 \<and> presents st4 l)"
proof -
  note o = openTxn_presents [OF assms]
  then have pi: "presents st1 l" "idle st1" by blast+
  show ?thesis
  proof (cases "runOps runTxnOp ops st1")
    case (Inl e)
    with runOps_sim [OF pi, of ops] show ?thesis by simp
  next
    case (Inr st2)
    with runOps_sim [OF pi, of ops] obtain l2 where
      l2: "runOps runFlatOp ops l = Inr l2" "presents st2 l2" "idle st2" "below st2 = below st1" by auto
    have "LedgerTxn_rollback st2 0 = Inr (st2\<lparr>ts_txns := drop 1 (ts_txns st2)\<rparr>)"
      using l2(3) by (auto simp: LedgerTxn_rollback_def idle_def split: list.split_asm)
    moreover have "presents (st2\<lparr>ts_txns := drop 1 (ts_txns st2)\<rparr>) l"
      using o [THEN conjunct2, THEN conjunct2, THEN conjunct2] l2(4) by (simp add: presents_def below_def)
    ultimately show ?thesis using Inr l2(1) commit_presents [OF l2(2,3)] by auto
  qed
qed

text \<open>A root with one account, and a transaction that takes another one through its life.\<close>

definition ex_entry :: "AccountID \<Rightarrow> int \<Rightarrow> LedgerEntry" where
  "ex_entry i b = \<lparr>le_lastModifiedLedgerSeq = 1, le_data = ACCOUNT (ex_account\<lparr>ac_accountID := i, ac_balance := b\<rparr>)\<rparr>"

definition ex_stack :: txn_stack where
  "ex_stack = \<lparr>ts_txns = [], ts_root = \<lparr>rt_entry = [(AccountKey 1, ex_entry 1 1000)], rt_header = ex_header\<rparr>\<rparr>"

definition ex_txn_ops :: "txn_op list" where
  "ex_txn_ops = [CreateEntry (ex_entry 2 50), WriteEntry (ex_entry 2 60), EraseEntry (AccountKey 1)]"

definition ex_flat :: ledger where
  "ex_flat = \<lparr>lg_header = ex_header, lg_entries = [(AccountKey 1, le_data (ex_entry 1 1000))]\<rparr>"

lemma ex_stack_presents: "presents ex_stack ex_flat"
  by (simp add: presents_def ex_stack_def ex_flat_def keyed_def load_def ex_entry_def LedgerEntryKey_def)

theorem nested_txn_refines_ledger_witness:
  "case bindE (openTxn ex_stack 0 True) (runOps runTxnOp ex_txn_ops) of
     Inl err \<Rightarrow> False
   | Inr st2 \<Rightarrow> (\<exists>l2. runOps runFlatOp ex_txn_ops ex_flat = Inr l2
       \<and> (\<exists>st3. LedgerTxn_commit st2 0 = Inr st3 \<and> presents st3 l2)
       \<and> (\<exists>st4. LedgerTxn_rollback st2 0 = Inr st4 \<and> presents st4 ex_flat))"
proof -
  obtain st1 where st1: "openTxn ex_stack 0 True = Inr st1"
    by (simp add: openTxn_def ex_stack_def)
  have "case bindE (openTxn ex_stack 0 True) (runOps runTxnOp ex_txn_ops) of Inl _ \<Rightarrow> False | Inr _ \<Rightarrow> True"
    by code_simp
  with nested_txn_refines_ledger [OF ex_stack_presents st1, of ex_txn_ops] st1 show ?thesis
    by (simp split: sum.split_asm)
qed

end
