(* ===== verification/Ledger_Txn_Offers.thy ===== *)
theory Ledger_Txn_Offers
  imports Ledger_Txn "HOL-Library.Product_Lexorder"
begin

section \<open>Searching offers through nested transactions\<close>

text \<open>
  \<^verbatim>\<open>getBestOffer\<close>, \<^verbatim>\<open>getAllOffers\<close> and \<^verbatim>\<open>getOffersByAccountAndAsset\<close> of \<^verbatim>\<open>LedgerTxn\<close> and of the root
  (\<^verbatim>\<open>LedgerTxn.cpp\<close>, \<^verbatim>\<open>LedgerTxnOfferSQL.cpp\<close>). An unordered map is an association list, its order
  being the order in which the code happens to iterate. In a sound stack the entry under an offer key
  is an offer; reading it as one is a partial function here.
\<close>

definition offerOf :: "LedgerEntry \<Rightarrow> OfferEntry option" where
  "offerOf e = (case le_data e of OFFER oe \<Rightarrow> Some oe | _ \<Rightarrow> None)"

definition isOfferKey :: "LedgerKey \<Rightarrow> bool" where
  "isOfferKey k = (case k of OfferKey _ _ \<Rightarrow> True | _ \<Rightarrow> False)"

definition entryInBook :: "Asset \<Rightarrow> Asset \<Rightarrow> LedgerEntry \<Rightarrow> bool" where
  "entryInBook buying selling e = (case offerOf e of None \<Rightarrow> False | Some oe \<Rightarrow> inBook buying selling oe)"

definition isBetterEntry :: "LedgerEntry \<Rightarrow> LedgerEntry \<Rightarrow> bool" where
  "isBetterEntry a b = (case (offerOf a, offerOf b) of (Some x, Some y) \<Rightarrow> better x y | _ \<Rightarrow> False)"

subsection \<open>The root\<close>

definition bookRank :: "LedgerEntry \<Rightarrow> rat \<times> u64" where
  "bookRank e = (case offerOf e of None \<Rightarrow> (0, 0) | Some oe \<Rightarrow> (price_double (of_price oe), of_offerID oe))"

text \<open>\<^verbatim>\<open>SELECT ... ORDER BY price, offerid LIMIT :n OFFSET :o\<close>.\<close>

definition bookRows :: "LedgerTxnRoot \<Rightarrow> Asset \<Rightarrow> Asset \<Rightarrow> LedgerEntry list" where
  "bookRows rt buying selling =
     sort_key bookRank (filter (entryInBook buying selling) (map snd (rt_entry rt)))"

definition loadBestOffers :: "LedgerTxnRoot \<Rightarrow> Asset \<Rightarrow> Asset \<Rightarrow> nat \<Rightarrow> nat \<Rightarrow> LedgerEntry list" where
  "loadBestOffers rt buying selling n offset = take n (drop offset (bookRows rt buying selling))"

fun findIncludedOffer :: "LedgerEntry list \<Rightarrow> LedgerKey set \<Rightarrow> LedgerEntry option" where
  "findIncludedOffer [] exclude = None"
| "findIncludedOffer (e # es) exclude =
     (if LedgerEntryKey e \<notin> exclude then Some e else findIncludedOffer es exclude)"

record BestOffersCacheEntry =
  bo_bestOffers :: "LedgerEntry list"
  bo_allLoaded :: bool

definition BATCH_SIZE :: nat where
  "BATCH_SIZE = 5"

text \<open>The loop that loads the book in batches until it finds an offer or the book is exhausted.\<close>

function loadUntilIncluded ::
    "LedgerTxnRoot \<Rightarrow> Asset \<Rightarrow> Asset \<Rightarrow> LedgerKey set \<Rightarrow> LedgerEntry option \<Rightarrow> BestOffersCacheEntry
       \<Rightarrow> LedgerEntry option \<times> BestOffersCacheEntry" where
  "loadUntilIncluded rt buying selling exclude res cached =
     (if res \<noteq> None \<or> bo_allLoaded cached then (res, cached)
      else
        let new = loadBestOffers rt buying selling BATCH_SIZE (length (bo_bestOffers cached)) in
        loadUntilIncluded rt buying selling exclude (findIncludedOffer new exclude)
          \<lparr>bo_bestOffers = bo_bestOffers cached @ new, bo_allLoaded = length new < BATCH_SIZE\<rparr>)"
  by pat_completeness auto

termination
  by (relation "measure (\<lambda>(rt, b, s, ex, res, c). if bo_allLoaded c then 0
      else Suc (length (bookRows rt b s) - length (bo_bestOffers c)))")
    (auto simp: loadBestOffers_def BATCH_SIZE_def min_def)

type_synonym BestOffersCache = "((Asset \<times> Asset) \<times> BestOffersCacheEntry) list"

definition root_getBestOffer ::
    "LedgerTxnRoot \<Rightarrow> BestOffersCache \<Rightarrow> Asset \<Rightarrow> Asset \<Rightarrow> LedgerKey set \<Rightarrow> LedgerEntry option \<times> BestOffersCache" where
  "root_getBestOffer rt cache buying selling exclude =
     (let cached = (case map_of cache (buying, selling) of
            None \<Rightarrow> \<lparr>bo_bestOffers = [], bo_allLoaded = False\<rparr> | Some c \<Rightarrow> c);
          (res, cached') = loadUntilIncluded rt buying selling exclude
            (findIncludedOffer (bo_bestOffers cached) exclude) cached in
      (res, AList.update (buying, selling) cached' cache))"

subsection \<open>A nested transaction\<close>

text \<open>The loop over the entries: the best so far and the keys seen.\<close>

fun scanOffers ::
    "Asset \<Rightarrow> Asset \<Rightarrow> (LedgerKey \<times> LedgerEntry option) list \<Rightarrow> LedgerKey set \<Rightarrow> LedgerEntry option
       \<Rightarrow> LedgerEntry option \<times> LedgerKey set" where
  "scanOffers buying selling [] exclude best = (best, exclude)"
| "scanOffers buying selling ((key, entry) # es) exclude best =
     (if \<not> isOfferKey key then scanOffers buying selling es exclude best
      else if key \<in> exclude then scanOffers buying selling es exclude best
      else
        scanOffers buying selling es (insert key exclude)
          (case entry of
             None \<Rightarrow> best
           | Some e \<Rightarrow>
               if \<not> entryInBook buying selling e then best
               else (case best of None \<Rightarrow> Some e | Some b \<Rightarrow> if isBetterEntry e b then Some e else Some b)))"

fun getBestOffer ::
    "LedgerTxn list \<Rightarrow> LedgerTxnRoot \<Rightarrow> BestOffersCache \<Rightarrow> Asset \<Rightarrow> Asset \<Rightarrow> LedgerKey set
       \<Rightarrow> LedgerEntry option \<times> BestOffersCache" where
  "getBestOffer [] rt cache buying selling exclude = root_getBestOffer rt cache buying selling exclude"
| "getBestOffer (t # ts) rt cache buying selling exclude =
     (let (bestOffer, exclude') = scanOffers buying selling (lt_entry t) exclude None;
          (parentBestOffer, cache') = getBestOffer ts rt cache buying selling exclude' in
      (case (bestOffer, parentBestOffer) of
         (Some b, Some p) \<Rightarrow> (if isBetterEntry b p then Some b else Some p, cache')
       | (Some b, None) \<Rightarrow> (Some b, cache')
       | (None, _) \<Rightarrow> (parentBestOffer, cache')))"

definition LedgerTxn_loadBestOffer ::
    "txn_stack \<Rightarrow> nat \<Rightarrow> BestOffersCache \<Rightarrow> Asset \<Rightarrow> Asset
       \<Rightarrow> cpp_error + (LedgerEntry option \<times> txn_stack \<times> BestOffersCache)" where
  "LedgerTxn_loadBestOffer st n cache buying selling =
     bindE (guardTxn st n) (\<lambda>(t, ts).
     let (le, cache') = getBestOffer (t # ts) (ts_root st) cache buying selling {} in
     case le of
       None \<Rightarrow> Inr (None, st, cache')
     | Some e \<Rightarrow> bindE (LedgerTxn_load st n (LedgerEntryKey e)) (\<lambda>(found, st'). Inr (found, st', cache')))"

text \<open>The maps of offers. The root refuses the native asset.\<close>

fun getAllOffers :: "LedgerTxn list \<Rightarrow> LedgerTxnRoot \<Rightarrow> (LedgerKey \<times> LedgerEntry) list" where
  "getAllOffers [] rt = filter (\<lambda>(k, e). isOfferKey k) (rt_entry rt)"
| "getAllOffers (t # ts) rt = fold (\<lambda>(k, e) offers.
       if \<not> isOfferKey k then offers
       else (case e of None \<Rightarrow> AList.delete k offers | Some le \<Rightarrow> AList.update k le offers))
     (lt_entry t) (getAllOffers ts rt)"

definition ofAccountAndAsset :: "AccountID \<Rightarrow> Asset \<Rightarrow> LedgerEntry \<Rightarrow> bool" where
  "ofAccountAndAsset account asset e = (case offerOf e of None \<Rightarrow> False
     | Some oe \<Rightarrow> of_sellerID oe = account \<and> (of_selling oe = asset \<or> of_buying oe = asset))"

fun getOffersByAccountAndAsset ::
    "LedgerTxn list \<Rightarrow> LedgerTxnRoot \<Rightarrow> AccountID \<Rightarrow> Asset \<Rightarrow> cpp_error + (LedgerKey \<times> LedgerEntry) list" where
  "getOffersByAccountAndAsset [] rt account asset =
     (if asset = ASSET_TYPE_NATIVE then Inl Aborted
      else Inr (filter (\<lambda>(k, e). isOfferKey k \<and> ofAccountAndAsset account asset e) (rt_entry rt)))"
| "getOffersByAccountAndAsset (t # ts) rt account asset =
     bindE (getOffersByAccountAndAsset ts rt account asset) (\<lambda>offers0.
     Inr (fold (\<lambda>(k, e) offers.
         if \<not> isOfferKey k then offers
         else (case e of
             None \<Rightarrow> AList.delete k offers
           | Some le \<Rightarrow> if ofAccountAndAsset account asset le then AList.update k le offers
                        else AList.delete k offers))
       (lt_entry t) offers0))"

text \<open>Loading every offer of a map; if one of them is active the exception undoes the others.\<close>

fun loadKeys :: "txn_stack \<Rightarrow> nat \<Rightarrow> LedgerKey list \<Rightarrow> cpp_error + (LedgerEntry list \<times> txn_stack)" where
  "loadKeys st n [] = Inr ([], st)"
| "loadKeys st n (k # ks) =
     bindE (LedgerTxn_load st n k) (\<lambda>(found, st1).
     bindE (loadKeys st1 n ks) (\<lambda>(es, st2).
     Inr (case found of None \<Rightarrow> es | Some e \<Rightarrow> e # es, st2)))"

definition groupBySeller :: "LedgerEntry list \<Rightarrow> (AccountID \<times> LedgerEntry list) list" where
  "groupBySeller es = fold (\<lambda>e m. case offerOf e of None \<Rightarrow> m
     | Some oe \<Rightarrow> AList.update (of_sellerID oe)
         ((case map_of m (of_sellerID oe) of None \<Rightarrow> [] | Some xs \<Rightarrow> xs) @ [e]) m) es []"

definition LedgerTxn_loadAllOffers ::
    "txn_stack \<Rightarrow> nat \<Rightarrow> cpp_error + ((AccountID \<times> LedgerEntry list) list \<times> txn_stack)" where
  "LedgerTxn_loadAllOffers st n =
     bindE (guardTxn st n) (\<lambda>(t, ts).
     bindE (loadKeys st n (map fst (getAllOffers (t # ts) (ts_root st)))) (\<lambda>(es, st').
     Inr (groupBySeller es, st')))"

definition LedgerTxn_loadOffersByAccountAndAsset ::
    "txn_stack \<Rightarrow> nat \<Rightarrow> AccountID \<Rightarrow> Asset \<Rightarrow> cpp_error + (LedgerEntry list \<times> txn_stack)" where
  "LedgerTxn_loadOffersByAccountAndAsset st n account asset =
     bindE (guardTxn st n) (\<lambda>(t, ts).
     bindE (getOffersByAccountAndAsset (t # ts) (ts_root st) account asset) (\<lambda>offers.
     loadKeys st n (map fst offers)))"

subsection \<open>The best of a set of offers\<close>

definition best_in :: "LedgerEntry set \<Rightarrow> LedgerEntry option \<Rightarrow> bool" where
  "best_in S r \<longleftrightarrow> (case r of None \<Rightarrow> S = {} | Some e \<Rightarrow> e \<in> S \<and> (\<forall>f \<in> S. \<not> isBetterEntry f e))"

lemma isBetterEntry_trans: "\<lbrakk>isBetterEntry a b; isBetterEntry b c\<rbrakk> \<Longrightarrow> isBetterEntry a c"
  by (auto simp: isBetterEntry_def better_def split: option.split_asm)

lemma isBetterEntry_neg_trans:
  "\<lbrakk>\<not> isBetterEntry a b; \<not> isBetterEntry b c; offerOf b \<noteq> None\<rbrakk> \<Longrightarrow> \<not> isBetterEntry a c"
  by (auto simp: isBetterEntry_def better_def split: option.splits)

lemma isBetterEntry_irrefl: "\<not> isBetterEntry a a"
  by (auto simp: isBetterEntry_def better_def split: option.splits)

lemma best_in_Un:
  assumes "best_in S r" "best_in T q" "\<And>e. e \<in> S \<union> T \<Longrightarrow> offerOf e \<noteq> None"
  shows "best_in (S \<union> T) (case (r, q) of (Some b, Some p) \<Rightarrow> if isBetterEntry b p then Some b else Some p
      | (Some b, None) \<Rightarrow> Some b | (None, _) \<Rightarrow> q)"
proof (cases r)
  case None
  with assms show ?thesis by (simp add: best_in_def)
next
  case (Some b)
  show ?thesis
  proof (cases q)
    case None
    with Some assms show ?thesis by (simp add: best_in_def)
  next
    case q: (Some p)
    from Some q assms have b: "b \<in> S" "\<And>f. f \<in> S \<Longrightarrow> \<not> isBetterEntry f b" "offerOf b \<noteq> None"
      and p: "p \<in> T" "\<And>f. f \<in> T \<Longrightarrow> \<not> isBetterEntry f p" by (auto simp: best_in_def)
    show ?thesis
    proof (cases "isBetterEntry b p")
      case True
      then have "\<not> isBetterEntry f b" if "f \<in> T" for f
        using isBetterEntry_trans [of f b p] p(2) [OF that] by blast
      with Some q True b show ?thesis by (auto simp: best_in_def)
    next
      case False
      then have "\<not> isBetterEntry f p" if "f \<in> S" for f
        using isBetterEntry_neg_trans [of f b p] b(2) [OF that] b(3) by blast
      with Some q False p show ?thesis by (auto simp: best_in_def)
    qed
  qed
qed

text \<open>A best offer is unique among offers with different identifiers.\<close>

lemma best_in_unique:
  assumes "best_in S r" "best_in S q" "\<And>e. e \<in> S \<Longrightarrow> offerOf e \<noteq> None"
    and "\<And>a b x y. \<lbrakk>a \<in> S; b \<in> S; offerOf a = Some x; offerOf b = Some y; of_offerID x = of_offerID y\<rbrakk> \<Longrightarrow> a = b"
  shows "r = q"
proof (cases r)
  case None
  with assms(1,2) show ?thesis by (cases q) (auto simp: best_in_def)
next
  case (Some a)
  with assms(1,2) obtain b where q: "q = Some b" by (cases q) (auto simp: best_in_def)
  with Some assms(1,2) have ab: "a \<in> S" "b \<in> S" "\<not> isBetterEntry a b" "\<not> isBetterEntry b a"
    by (auto simp: best_in_def)
  obtain x y where xy: "offerOf a = Some x" "offerOf b = Some y" using assms(3) ab by blast
  then have "of_offerID x = of_offerID y" using ab by (auto simp: isBetterEntry_def better_def)
  with assms(4) [OF ab(1,2) xy] Some q show ?thesis by simp
qed

subsection \<open>The root finds the best offer that is not excluded\<close>

lemma findIncludedOffer_append:
  "findIncludedOffer (xs @ ys) ex = (case findIncludedOffer xs ex of None \<Rightarrow> findIncludedOffer ys ex | Some e \<Rightarrow> Some e)"
  by (induction xs) auto

definition cached_ok :: "LedgerTxnRoot \<Rightarrow> Asset \<Rightarrow> Asset \<Rightarrow> BestOffersCacheEntry \<Rightarrow> bool" where
  "cached_ok rt b s c \<longleftrightarrow> (\<exists>n. bo_bestOffers c = take n (bookRows rt b s))
     \<and> (bo_allLoaded c \<longrightarrow> bo_bestOffers c = bookRows rt b s)"

lemma cached_ok_more:
  assumes "cached_ok rt b s c"
  shows "cached_ok rt b s \<lparr>bo_bestOffers = bo_bestOffers c @ loadBestOffers rt b s BATCH_SIZE (length (bo_bestOffers c)),
      bo_allLoaded = length (loadBestOffers rt b s BATCH_SIZE (length (bo_bestOffers c))) < BATCH_SIZE\<rparr>"
proof -
  let ?rows = "bookRows rt b s" and ?m = "length (bo_bestOffers c)"
  from assms obtain n where n: "bo_bestOffers c = take n ?rows" by (auto simp: cached_ok_def)
  then have m: "bo_bestOffers c = take ?m ?rows" by (simp add: min_def)
  have all: "bo_bestOffers c @ take BATCH_SIZE (drop ?m ?rows) = take (?m + BATCH_SIZE) ?rows"
    by (subst m) (simp only: take_add)
  have "?m \<le> length ?rows" by (subst m) simp
  then have "length (take BATCH_SIZE (drop ?m ?rows)) < BATCH_SIZE \<Longrightarrow> take (?m + BATCH_SIZE) ?rows = ?rows"
    by (intro take_all) (simp add: min_def split: if_split_asm)
  with all show ?thesis by (auto simp: cached_ok_def loadBestOffers_def)
qed

declare loadUntilIncluded.simps [simp del]

lemma loadUntilIncluded_finds:
  "\<lbrakk>cached_ok rt b s c; res = findIncludedOffer (bo_bestOffers c) ex\<rbrakk>
   \<Longrightarrow> fst (loadUntilIncluded rt b s ex res c) = findIncludedOffer (bookRows rt b s) ex
     \<and> cached_ok rt b s (snd (loadUntilIncluded rt b s ex res c))"
proof (induction rt b s ex res c rule: loadUntilIncluded.induct)
  case (1 rt b s ex res c)
  let ?new = "loadBestOffers rt b s BATCH_SIZE (length (bo_bestOffers c))"
  let ?c = "\<lparr>bo_bestOffers = bo_bestOffers c @ ?new, bo_allLoaded = length ?new < BATCH_SIZE\<rparr>"
  note res = 1(3)
  show ?case
  proof (cases "res \<noteq> None \<or> bo_allLoaded c")
    case True
    from 1(2) obtain n where "bo_bestOffers c = take n (bookRows rt b s)" by (auto simp: cached_ok_def)
    then have "findIncludedOffer (bookRows rt b s) ex
        = (case findIncludedOffer (bo_bestOffers c) ex of None \<Rightarrow> findIncludedOffer (drop n (bookRows rt b s)) ex | Some e \<Rightarrow> Some e)"
      using findIncludedOffer_append [of "take n (bookRows rt b s)" "drop n (bookRows rt b s)" ex] by simp
    moreover have "bo_allLoaded c \<Longrightarrow> bo_bestOffers c = bookRows rt b s" using 1(2) by (simp add: cached_ok_def)
    ultimately have "res = findIncludedOffer (bookRows rt b s) ex" using True res by (cases res) auto
    with True 1(2) show ?thesis by (subst (1 2) loadUntilIncluded.simps) (simp only: True if_True fst_conv snd_conv conj_absorb simp_thms)
  next
    case False
    then have "findIncludedOffer ?new ex = findIncludedOffer (bo_bestOffers ?c) ex"
      using res findIncludedOffer_append [of "bo_bestOffers c" ?new ex] by simp
    note this [THEN 1(1) [OF False refl cached_ok_more [OF 1(2)]]]
    moreover have "loadUntilIncluded rt b s ex res c = loadUntilIncluded rt b s ex (findIncludedOffer ?new ex) ?c"
      by (subst loadUntilIncluded.simps) (simp only: False if_False Let_def)
    ultimately show ?thesis by (simp only:)
  qed
qed

definition cache_ok :: "LedgerTxnRoot \<Rightarrow> BestOffersCache \<Rightarrow> bool" where
  "cache_ok rt cache \<longleftrightarrow> (\<forall>b s c. map_of cache (b, s) = Some c \<longrightarrow> cached_ok rt b s c)"

lemma root_getBestOffer_finds:
  assumes "cache_ok rt cache"
  shows "fst (root_getBestOffer rt cache b s ex) = findIncludedOffer (bookRows rt b s) ex
    \<and> cache_ok rt (snd (root_getBestOffer rt cache b s ex))"
proof -
  let ?c = "case map_of cache (b, s) of None \<Rightarrow> \<lparr>bo_bestOffers = [], bo_allLoaded = False\<rparr> | Some c \<Rightarrow> c"
  have "cached_ok rt b s ?c"
    using assms by (auto simp: cache_ok_def cached_ok_def intro: exI [of _ 0] split: option.split)
  note found = loadUntilIncluded_finds [OF this refl, of ex]
  obtain res c' where r: "loadUntilIncluded rt b s ex (findIncludedOffer (bo_bestOffers ?c) ex) ?c = (res, c')"
    by (cases "loadUntilIncluded rt b s ex (findIncludedOffer (bo_bestOffers ?c) ex) ?c")
  have "root_getBestOffer rt cache b s ex = (res, AList.update (b, s) c' cache)"
    unfolding root_getBestOffer_def Let_def r by simp
  with found r assms show ?thesis by (auto simp: cache_ok_def update_conv')
qed

lemma isBetterEntry_rank:
  "\<lbrakk>offerOf a \<noteq> None; offerOf b \<noteq> None\<rbrakk> \<Longrightarrow> isBetterEntry a b \<longleftrightarrow> bookRank a < bookRank b"
  by (auto simp: isBetterEntry_def bookRank_def better_def less_prod_def less_eq_prod_def)

text \<open>The offers of a book in a view of the entries, without the excluded keys.\<close>

definition bookOf :: "(LedgerKey \<Rightarrow> LedgerEntry option) \<Rightarrow> LedgerKey set \<Rightarrow> Asset \<Rightarrow> Asset \<Rightarrow> LedgerEntry set" where
  "bookOf v ex b s = {e. \<exists>k. isOfferKey k \<and> k \<notin> ex \<and> v k = Some e \<and> entryInBook b s e}"

lemma entryInBook_offer: "entryInBook b s e \<Longrightarrow> offerOf e \<noteq> None"
  by (auto simp: entryInBook_def split: option.split_asm)

lemma entryInBook_key: "entryInBook b s e \<Longrightarrow> isOfferKey (LedgerEntryKey e)"
  by (auto simp: entryInBook_def offerOf_def isOfferKey_def LedgerEntryKey_def
      split: option.split_asm LedgerEntryData.split_asm)

lemma findIncludedOffer_sorted:
  "\<lbrakk>sorted (map f es)\<rbrakk> \<Longrightarrow> (case findIncludedOffer es ex of
      None \<Rightarrow> \<forall>e \<in> set es. LedgerEntryKey e \<in> ex
    | Some e \<Rightarrow> e \<in> set es \<and> LedgerEntryKey e \<notin> ex \<and> (\<forall>g \<in> set es. LedgerEntryKey g \<notin> ex \<longrightarrow> f e \<le> f g))"
proof (induction es)
  case (Cons x xs)
  then show ?case by (cases "findIncludedOffer xs ex") auto
qed simp

lemma root_best:
  assumes "txns_ok [] rt" "cache_ok rt cache"
  shows "best_in (bookOf (newestVersion [] rt) ex b s) (fst (root_getBestOffer rt cache b s ex))"
proof -
  let ?rows = "bookRows rt b s"
  have rows: "e \<in> set ?rows \<longleftrightarrow> newestVersion [] rt (LedgerEntryKey e) = Some e \<and> entryInBook b s e" for e
    using assms(1) by (force simp: bookRows_def)
  have book: "e \<in> bookOf (newestVersion [] rt) ex b s \<longleftrightarrow> e \<in> set ?rows \<and> LedgerEntryKey e \<notin> ex" for e
    unfolding rows bookOf_def using txns_ok_key [OF assms(1), of _ e] entryInBook_key [of b s e] by auto
  have sorted: "sorted (map bookRank ?rows)" by (simp add: bookRows_def)
  have none: "\<not> isBetterEntry f e" if "e \<in> set ?rows" "f \<in> set ?rows" "bookRank e \<le> bookRank f" for e f
    using that rows isBetterEntry_rank [OF entryInBook_offer entryInBook_offer, of b s f b s e] by (simp add: leD)
  show ?thesis
    using findIncludedOffer_sorted [OF sorted, of ex] none
    by (auto simp: root_getBestOffer_finds [OF assms(2)] best_in_def book split: option.split_asm option.split)
qed

subsection \<open>A nested transaction finds the best offer of its view\<close>

definition scanned :: "(LedgerKey \<times> LedgerEntry option) list \<Rightarrow> LedgerKey set \<Rightarrow> Asset \<Rightarrow> Asset \<Rightarrow> LedgerEntry set" where
  "scanned al ex b s = {e. \<exists>k. isOfferKey k \<and> k \<notin> ex \<and> (k, Some e) \<in> set al \<and> entryInBook b s e}"

lemma scanned_Cons:
  assumes "k \<notin> fst ` set al"
  shows "scanned ((k, v) # al) ex b s
    = (if isOfferKey k \<and> k \<notin> ex then {e. v = Some e \<and> entryInBook b s e} \<union> scanned al (insert k ex) b s
       else scanned al ex b s)"
  using assms by (force simp: scanned_def)

lemma scanOffers_best:
  "\<lbrakk>distinct (map fst al); best_in S best; \<And>e. e \<in> S \<Longrightarrow> offerOf e \<noteq> None\<rbrakk>
   \<Longrightarrow> best_in (S \<union> scanned al ex b s) (fst (scanOffers b s al ex best))
     \<and> snd (scanOffers b s al ex best) = ex \<union> {k \<in> fst ` set al. isOfferKey k}"
proof (induction al arbitrary: S ex best)
  case Nil
  then show ?case by (simp add: scanned_def)
next
  case (Cons p al)
  obtain k v where p: "p = (k, v)" by (cases p)
  have k: "k \<notin> fst ` set al" and d: "distinct (map fst al)" using Cons.prems(1) p by auto
  show ?case
  proof (cases "isOfferKey k \<and> k \<notin> ex")
    case False
    with Cons.IH [OF d Cons.prems(2,3), of ex] p show ?thesis by (auto simp: scanned_Cons [OF k])
  next
    case True
    let ?N = "{e. v = Some e \<and> entryInBook b s e}"
    let ?best = "case v of None \<Rightarrow> best | Some e \<Rightarrow> if \<not> entryInBook b s e then best
      else (case best of None \<Rightarrow> Some e | Some c \<Rightarrow> if isBetterEntry e c then Some e else Some c)"
    have new: "best_in (S \<union> ?N) ?best"
    proof (cases "\<exists>e. v = Some e \<and> entryInBook b s e")
      case True
      then obtain e where e: "v = Some e" "entryInBook b s e" by blast
      have "best_in ?N (Some e)" using e isBetterEntry_irrefl by (simp add: best_in_def)
      have "offerOf g \<noteq> None" if "g \<in> ?N \<union> S" for g
        using that Cons.prems(3) entryInBook_offer by blast
      note best_in_Un [OF \<open>best_in ?N (Some e)\<close> Cons.prems(2) this]
      with e show ?thesis by (cases best) (simp_all add: Un_commute)
    next
      case False
      then have n: "?N = {}" and b: "?best = best" by (auto split: option.split)
      show ?thesis unfolding n b using Cons.prems(2) by simp
    qed
    have "offerOf e \<noteq> None" if "e \<in> S \<union> ?N" for e using that Cons.prems(3) entryInBook_offer by blast
    from Cons.IH [OF d new this, of "insert k ex"] show ?thesis
      using True p by (simp add: scanned_Cons [OF k] Un_assoc) auto
  qed
qed

lemma getBestOffer_best:
  "\<lbrakk>txns_ok ts rt; cache_ok rt cache\<rbrakk> \<Longrightarrow>
     best_in (bookOf (newestVersion ts rt) ex b s) (fst (getBestOffer ts rt cache b s ex))
     \<and> cache_ok rt (snd (getBestOffer ts rt cache b s ex))"
proof (induction ts arbitrary: ex)
  case Nil
  from root_best [OF this, of ex b s] root_getBestOffer_finds [OF this(2), of b s ex] show ?case
    by (simp only: getBestOffer.simps simp_thms)
next
  case (Cons t ts)
  obtain here ex' where scan: "scanOffers b s (lt_entry t) ex None = (here, ex')"
    by (cases "scanOffers b s (lt_entry t) ex None")
  obtain parent cache' where par: "getBestOffer ts rt cache b s ex' = (parent, cache')"
    by (cases "getBestOffer ts rt cache b s ex'")
  from Cons.IH [of ex'] Cons.prems par have ih:
    "best_in (bookOf (newestVersion ts rt) ex' b s) parent" "cache_ok rt cache'" by simp_all
  have "distinct (map fst (lt_entry t))" using Cons.prems by simp
  from scanOffers_best [OF this, of "{}" None ex b s] scan have
    sc: "best_in (scanned (lt_entry t) ex b s) here" and ex': "ex' = ex \<union> {k \<in> fst ` set (lt_entry t). isOfferKey k}"
    by (simp_all add: best_in_def)
  have view: "bookOf (newestVersion (t # ts) rt) ex b s
      = scanned (lt_entry t) ex b s \<union> bookOf (newestVersion ts rt) ex' b s"
  proof -
    have keys: "k \<in> fst ` set (lt_entry t) \<longleftrightarrow> map_of (lt_entry t) k \<noteq> None" for k
      by (simp add: map_of_eq_None_iff)
    have rows: "(k, v) \<in> set (lt_entry t) \<longleftrightarrow> map_of (lt_entry t) k = Some v" for k v
      using Cons.prems by simp
    have nv: "newestVersion (t # ts) rt k = Some e \<longleftrightarrow> map_of (lt_entry t) k = Some (Some e)
        \<or> map_of (lt_entry t) k = None \<and> newestVersion ts rt k = Some e" for k e
      by (simp split: option.split)
    then have "isOfferKey k \<and> k \<notin> ex \<and> newestVersion (t # ts) rt k = Some e \<and> entryInBook b s e
        \<longleftrightarrow> (isOfferKey k \<and> k \<notin> ex \<and> (k, Some e) \<in> set (lt_entry t) \<and> entryInBook b s e)
          \<or> (isOfferKey k \<and> k \<notin> ex' \<and> newestVersion ts rt k = Some e \<and> entryInBook b s e)" for k e
      unfolding ex' Un_iff mem_Collect_eq keys rows using nv [of k e]
      by (cases "map_of (lt_entry t) k") auto
    then show ?thesis unfolding bookOf_def scanned_def by (simp only: ex_disj_distrib Collect_disj_eq)
  qed
  have offers: "offerOf e \<noteq> None" if "e \<in> scanned (lt_entry t) ex b s \<union> bookOf (newestVersion ts rt) ex' b s" for e
    using that entryInBook_offer by (auto simp: scanned_def bookOf_def)
  from best_in_Un [OF sc ih(1) offers] ih(2) show ?case
    unfolding view by (cases here; cases parent) (simp_all add: scan par)
qed

subsection \<open>The stack finds what the flat ledger finds\<close>

definition offerIDs_unique :: "ledger \<Rightarrow> bool" where
  "offerIDs_unique l \<longleftrightarrow> (\<forall>x \<in> set (ledgerOffers l). \<forall>y \<in> set (ledgerOffers l). of_offerID x = of_offerID y \<longrightarrow> x = y)"

lemma isBetterEntry_better:
  "\<lbrakk>offerOf a = Some x; offerOf b = Some y\<rbrakk> \<Longrightarrow> isBetterEntry a b \<longleftrightarrow> better x y"
  by (simp add: isBetterEntry_def)

lemma offerOf_data: "offerOf e = Some x \<longleftrightarrow> le_data e = OFFER x"
  by (simp add: offerOf_def split: LedgerEntryData.split)

text \<open>The offers of a book in the view of a stack are those of the ledger it presents.\<close>

lemma bookOf_ledger:
  assumes p: "presents st l"
  shows "e \<in> bookOf (newestVersion (ts_txns st) (ts_root st)) {} b s \<Longrightarrow>
      \<exists>x. offerOf e = Some x \<and> x \<in> set (filter (inBook b s) (ledgerOffers l))"
    and "x \<in> set (filter (inBook b s) (ledgerOffers l)) \<Longrightarrow>
      \<exists>e. offerOf e = Some x \<and> e \<in> bookOf (newestVersion (ts_txns st) (ts_root st)) {} b s"
proof -
  let ?v = "newestVersion (ts_txns st) (ts_root st)"
  from p have kl: "keyed l" and ok: "txns_ok (ts_txns st) (ts_root st)"
    and ld: "\<And>k. load l k = map_option le_data (?v k)" by (simp_all add: presents_def)
  {
    assume "e \<in> bookOf ?v {} b s"
    then obtain k x where k: "?v k = Some e" "offerOf e = Some x" "inBook b s x"
      by (auto simp: bookOf_def entryInBook_def split: option.split_asm)
    then have "load l k = Some (OFFER x)" using ld by (simp add: offerOf_data)
    moreover from this kl have "k = OfferKey (of_sellerID x) (of_offerID x)" using keyed_load by fastforce
    ultimately show "\<exists>x. offerOf e = Some x \<and> x \<in> set (filter (inBook b s) (ledgerOffers l))"
      using k ledgerOffers_load [OF kl, of x] by auto
  next
    assume x: "x \<in> set (filter (inBook b s) (ledgerOffers l))"
    then have "load l (OfferKey (of_sellerID x) (of_offerID x)) = Some (OFFER x)"
      using ledgerOffers_load [OF kl, of x] by simp
    then obtain e where "?v (OfferKey (of_sellerID x) (of_offerID x)) = Some e" "le_data e = OFFER x"
      using ld by auto
    moreover from this x have "entryInBook b s e" by (simp add: entryInBook_def offerOf_def)
    ultimately have "e \<in> bookOf ?v {} b s"
      unfolding bookOf_def by (intro CollectI exI [of _ "OfferKey (of_sellerID x) (of_offerID x)"]) (simp add: isOfferKey_def)
    with \<open>le_data e = OFFER x\<close> show "\<exists>e. offerOf e = Some x \<and> e \<in> bookOf ?v {} b s"
      by (auto simp: offerOf_data)
  }
qed

lemma getBestOffer_flat:
  assumes p: "presents st l" and u: "offerIDs_unique l" and c: "cache_ok (ts_root st) cache"
  shows "case fst (getBestOffer (ts_txns st) (ts_root st) cache b s {}) of
      None \<Rightarrow> loadBestOffer l b s = None
    | Some e \<Rightarrow> newestVersion (ts_txns st) (ts_root st) (LedgerEntryKey e) = Some e
        \<and> (\<exists>x. loadBestOffer l b s = Some x \<and> le_data e = OFFER x)"
proof -
  let ?v = "newestVersion (ts_txns st) (ts_root st)"
  let ?offers = "filter (inBook b s) (ledgerOffers l)"
  from p have ok: "txns_ok (ts_txns st) (ts_root st)" by (simp add: presents_def)
  note best = getBestOffer_best [OF ok c, of "{}" b s, THEN conjunct1]
  note flat = bestOf_best [of ?offers, folded loadBestOffer_def]
  show ?thesis
  proof (cases "fst (getBestOffer (ts_txns st) (ts_root st) cache b s {})")
    case None
    with best have "bookOf ?v {} b s = {}" by (simp add: best_in_def)
    then have "?offers = []" using bookOf_ledger(2) [OF p, of _ b s] by (cases ?offers) auto
    with None flat show ?thesis by simp
  next
    case (Some e)
    with best have e: "e \<in> bookOf ?v {} b s" "\<And>f. f \<in> bookOf ?v {} b s \<Longrightarrow> \<not> isBetterEntry f e"
      by (simp_all add: best_in_def)
    from bookOf_ledger(1) [OF p e(1)] obtain x where x: "offerOf e = Some x" "x \<in> set ?offers" by blast
    from x(2) have "?offers \<noteq> []" by (metis empty_iff empty_set)
    with flat obtain y where y: "loadBestOffer l b s = Some y" by blast
    then have yb: "y \<in> set ?offers" "\<not> better x y" using flat x by blast+
    from bookOf_ledger(2) [OF p yb(1)] obtain f where "offerOf f = Some y" "f \<in> bookOf ?v {} b s" by blast
    then have "\<not> better y x" using e(2) x(1) isBetterEntry_better by blast
    with yb(2) have "of_offerID x = of_offerID y" using better_total by blast
    moreover from yb(1) x(2) have "x \<in> set (ledgerOffers l)" "y \<in> set (ledgerOffers l)" by simp_all
    ultimately have "x = y" using u by (simp add: offerIDs_unique_def)
    moreover have "?v (LedgerEntryKey e) = Some e" using e(1) txns_ok_key [OF ok] by (auto simp: bookOf_def)
    ultimately show ?thesis using Some x y by (simp add: offerOf_data)
  qed
qed

text \<open>Loading an entry that is there records it without changing what the stack presents.\<close>

lemma LedgerTxn_load_presents:
  assumes p: "presents st l" and i: "idle st"
    and e: "newestVersion (ts_txns st) (ts_root st) (LedgerEntryKey e) = Some e"
  shows "\<exists>st'. LedgerTxn_load st 0 (LedgerEntryKey e) = Inr (Some e, st') \<and> presents st' l \<and> ts_root st' = ts_root st"
proof -
  from i obtain t ts where st: "ts_txns st = t # ts" and t: "lt_active t = []"
    by (auto simp: idle_def split: list.split_asm)
  let ?k = "LedgerEntryKey e"
  let ?t = "t\<lparr>lt_entry := AList.update ?k (Some e) (lt_entry t), lt_active := AList.update ?k LedgerTxnEntryHandle (lt_active t)\<rparr>"
  from p st have ok: "txns_ok (t # ts) (ts_root st)" by (simp add: presents_def)
  have "txns_ok (?t # ts) (ts_root st)" by (rule txns_ok_update [OF ok, of ?k "Some e"]) (simp_all add: filed_def)
  moreover have "newestVersion (?t # ts) (ts_root st) k = newestVersion (t # ts) (ts_root st) k" for k
  proof -
    have "newestVersion (?t # ts) (ts_root st) k
        = (if k = ?k then Some e else newestVersion (t # ts) (ts_root st) k)"
      by (rule newestVersion_update) simp
    with e st show ?thesis by (simp del: newestVersion.simps)
  qed
  ultimately have "presents (st\<lparr>ts_txns := ?t # ts\<rparr>) l"
    using p st by (simp add: presents_def del: newestVersion.simps txns_ok.simps)
  then show ?thesis using guardTxn_idle [OF i st] e st t by (simp add: LedgerTxn_load_def)
qed

text \<open>C15. \<^verbatim>\<open>loadBestOffer\<close> on a stack of nested transactions, which looks through every layer while
  excluding the offers that inner layers changed and reads the rows of the database in cached batches,
  finds exactly the offer that the flat ledger's search finds, whatever the batches already cached; it
  raises nothing, the stack still presents the same ledger, and the cache stays right.\<close>

theorem loadBestOffer_stack_equiv:
  assumes "presents st l" "idle st" "offerIDs_unique l" "cache_ok (ts_root st) cache"
  shows "\<exists>found st' cache'. LedgerTxn_loadBestOffer st 0 cache b s = Inr (found, st', cache')
    \<and> map_option le_data found = map_option OFFER (loadBestOffer l b s)
    \<and> presents st' l \<and> cache_ok (ts_root st') cache'"
proof -
  from assms(2) obtain t ts where st: "ts_txns st = t # ts"
    by (auto simp: idle_def split: list.split_asm)
  note g = guardTxn_idle [OF assms(2) st]
  obtain res cache' where r: "getBestOffer (t # ts) (ts_root st) cache b s {} = (res, cache')"
    by (cases "getBestOffer (t # ts) (ts_root st) cache b s {}")
  have ok: "txns_ok (ts_txns st) (ts_root st)" using assms(1) by (simp add: presents_def)
  have co: "cache_ok (ts_root st) cache'"
    using getBestOffer_best [OF ok assms(4), of "{}" b s] st r by simp
  note flat = getBestOffer_flat [OF assms(1,3,4), of b s, unfolded st r fst_conv]
  show ?thesis
  proof (cases res)
    case None
    with flat have "loadBestOffer l b s = None" by simp
    with None g r co assms(1) show ?thesis
      by (simp add: LedgerTxn_loadBestOffer_def del: getBestOffer.simps)
  next
    case (Some e)
    with flat st obtain x where e: "newestVersion (ts_txns st) (ts_root st) (LedgerEntryKey e) = Some e"
      "loadBestOffer l b s = Some x" "le_data e = OFFER x" by auto
    from LedgerTxn_load_presents [OF assms(1,2) e(1)] obtain st' where
      "LedgerTxn_load st 0 (LedgerEntryKey e) = Inr (Some e, st')" "presents st' l" "ts_root st' = ts_root st" by blast
    with Some g r co e show ?thesis
      by (simp add: LedgerTxn_loadBestOffer_def del: getBestOffer.simps)
  qed
qed

text \<open>A transaction opened on a database with two offers.\<close>

definition ex_offer_entry :: "OfferEntry \<Rightarrow> LedgerEntry" where
  "ex_offer_entry oe = \<lparr>le_lastModifiedLedgerSeq = 1, le_data = OFFER oe\<rparr>"

definition ex_offer_stack :: txn_stack where
  "ex_offer_stack = \<lparr>ts_txns = [newLedgerTxn ex_header False],
     ts_root = \<lparr>rt_entry = [(OfferKey 1 4, ex_offer_entry ex_offer),
       (OfferKey 1 5, ex_offer_entry (ex_offer\<lparr>of_offerID := 5\<rparr>))], rt_header = ex_header\<rparr>\<rparr>"

definition ex_offer_flat :: ledger where
  "ex_offer_flat = \<lparr>lg_header = ex_header,
     lg_entries = [(OfferKey 1 4, OFFER ex_offer), (OfferKey 1 5, OFFER (ex_offer\<lparr>of_offerID := 5\<rparr>))]\<rparr>"

theorem loadBestOffer_stack_equiv_witness:
  "case LedgerTxn_loadBestOffer ex_offer_stack 0 [] ASSET_TYPE_NATIVE ex_asset of
     Inl err \<Rightarrow> False
   | Inr (found, st', cache') \<Rightarrow>
       map_option le_data found = map_option OFFER (loadBestOffer ex_offer_flat ASSET_TYPE_NATIVE ex_asset)"
proof -
  have "presents ex_offer_stack ex_offer_flat"
    by (auto simp: presents_def ex_offer_stack_def ex_offer_flat_def keyed_def load_def newLedgerTxn_def
        ex_offer_entry_def LedgerEntryKey_def ex_offer_def)
  moreover have "idle ex_offer_stack" by (simp add: idle_def ex_offer_stack_def newLedgerTxn_def)
  moreover have "offerIDs_unique ex_offer_flat"
    by (simp add: offerIDs_unique_def ex_offer_flat_def ledgerOffers_def List.map_filter_def ex_offer_def)
  moreover have "cache_ok (ts_root ex_offer_stack) []" by (simp add: cache_ok_def)
  ultimately show ?thesis
    using loadBestOffer_stack_equiv [of ex_offer_stack ex_offer_flat "[]" ASSET_TYPE_NATIVE ex_asset] by auto
qed

subsection \<open>The maps of offers hold the newest versions\<close>

lemma map_of_filter_rows:
  "distinct (map fst al) \<Longrightarrow> map_of (filter P al) k = (case map_of al k of None \<Rightarrow> None | Some e \<Rightarrow> if P (k, e) then Some e else None)"
proof (induction al)
  case (Cons p al)
  then have "map_of al (fst p) = None" by (simp add: map_of_eq_None_iff)
  with Cons show ?case by (cases p) (auto split: option.split)
qed simp

lemma map_of_fold_offers:
  assumes f: "\<And>k e m k'. map_of (f (k, e) m) k' = (if isOfferKey k \<and> k' = k then g e else map_of m k')"
  shows "distinct (map fst al) \<Longrightarrow> map_of (fold f al m) k
    = (if isOfferKey k then (case map_of al k of Some e \<Rightarrow> g e | None \<Rightarrow> map_of m k) else map_of m k)"
proof (induction al arbitrary: m)
  case (Cons p al)
  obtain k' e where p: "p = (k', e)" by (cases p)
  from Cons.prems p have "map_of al k' = None" by (simp add: map_of_eq_None_iff)
  with Cons p f show ?case by (auto split: option.split)
qed simp

lemma getAllOffers_newest:
  "txns_ok ts rt \<Longrightarrow> map_of (getAllOffers ts rt) k = (if isOfferKey k then newestVersion ts rt k else None)"
proof (induction ts)
  case Nil
  then show ?case by (simp add: map_of_filter_rows split: option.split)
next
  case (Cons t ts)
  then have d: "distinct (map fst (lt_entry t))" by simp
  show ?case
    unfolding getAllOffers.simps
    by (subst map_of_fold_offers [OF _ d, where g = "\<lambda>e. e"])
      (use Cons in \<open>auto simp: update_conv' delete_conv' split: option.split\<close>)
qed

text \<open>\<^verbatim>\<open>getOffersByAccountAndAsset\<close>, which corrects the parent's map with every entry a transaction
  touched, returns for an asset other than the native one exactly the offers, in their newest version,
  of the account that buy or sell the asset; the root refuses the native asset, and so does every
  transaction above it.\<close>

theorem getOffersByAccountAndAsset_newest:
  assumes "txns_ok ts rt"
  shows "getOffersByAccountAndAsset ts rt account ASSET_TYPE_NATIVE = Inl Aborted
    \<and> (asset \<noteq> ASSET_TYPE_NATIVE \<longrightarrow> (\<exists>offers. getOffersByAccountAndAsset ts rt account asset = Inr offers
        \<and> (\<forall>k e. map_of offers k = Some e \<longleftrightarrow>
             isOfferKey k \<and> newestVersion ts rt k = Some e \<and> ofAccountAndAsset account asset e)))"
  using assms
proof (induction ts)
  case Nil
  then show ?case by (auto simp: map_of_filter_rows simp del: map_of_eq_Some_iff split: option.split)
next
  case (Cons t ts)
  then have d: "distinct (map fst (lt_entry t))" and ok: "txns_ok ts rt" by simp_all
  note ih = Cons.IH [OF ok]
  show ?case
  proof (intro conjI impI)
    show "getOffersByAccountAndAsset (t # ts) rt account ASSET_TYPE_NATIVE = Inl Aborted" using ih by simp
  next
    assume "asset \<noteq> ASSET_TYPE_NATIVE"
    with ih obtain m where m: "getOffersByAccountAndAsset ts rt account asset = Inr m"
      "\<And>k e. map_of m k = Some e \<longleftrightarrow> isOfferKey k \<and> newestVersion ts rt k = Some e \<and> ofAccountAndAsset account asset e"
      by blast
    let ?g = "\<lambda>e. case e of None \<Rightarrow> None | Some le \<Rightarrow> if ofAccountAndAsset account asset le then Some le else None"
    let ?f = "\<lambda>(k, e) offers. if \<not> isOfferKey k then offers
      else (case e of None \<Rightarrow> AList.delete k offers
        | Some le \<Rightarrow> if ofAccountAndAsset account asset le then AList.update k le offers else AList.delete k offers)"
    have "map_of (fold ?f (lt_entry t) m) k = (if isOfferKey k
        then (case map_of (lt_entry t) k of Some e \<Rightarrow> ?g e | None \<Rightarrow> map_of m k) else map_of m k)" for k
      by (rule map_of_fold_offers [OF _ d]) (auto simp: update_conv' delete_conv' split: option.split)
    then have "map_of (fold ?f (lt_entry t) m) k = Some e
        \<longleftrightarrow> isOfferKey k \<and> newestVersion (t # ts) rt k = Some e \<and> ofAccountAndAsset account asset e" for k e
      using m(2) [of k] by (auto split: option.split option.split_asm if_split_asm)
    with m(1) show "\<exists>offers. getOffersByAccountAndAsset (t # ts) rt account asset = Inr offers
        \<and> (\<forall>k e. map_of offers k = Some e \<longleftrightarrow>
             isOfferKey k \<and> newestVersion (t # ts) rt k = Some e \<and> ofAccountAndAsset account asset e)"
      by simp
  qed
qed

theorem getOffersByAccountAndAsset_newest_witness:
  "\<exists>offers. getOffersByAccountAndAsset (ts_txns ex_offer_stack) (ts_root ex_offer_stack) 1 ex_asset = Inr offers
     \<and> map_of offers (OfferKey 1 4) = Some (ex_offer_entry ex_offer)"
proof -
  have "txns_ok (ts_txns ex_offer_stack) (ts_root ex_offer_stack)"
    by (auto simp: ex_offer_stack_def newLedgerTxn_def ex_offer_entry_def LedgerEntryKey_def ex_offer_def)
  from getOffersByAccountAndAsset_newest [OF this, of 1 ex_asset] show ?thesis
    by (auto simp: ex_offer_stack_def newLedgerTxn_def isOfferKey_def ofAccountAndAsset_def offerOf_def
        ex_offer_entry_def ex_offer_def ex_asset_def)
qed

end
