(* ===== verification/Ledger_Txn_Votes.thy ===== *)
theory Ledger_Txn_Votes
  imports Ledger_Txn Settings_Ops "HOL-Library.Multiset"
begin

section \<open>Counting inflation votes through nested transactions\<close>

text \<open>
  \<^verbatim>\<open>getInflationWinners\<close> of \<^verbatim>\<open>LedgerTxn\<close> and of the root (\<^verbatim>\<open>LedgerTxn.cpp\<close>): a transaction corrects the
  winners of its parent by the votes its own entries move. A \<^verbatim>\<open>std::map\<close> is an association list. The
  sums of votes are at most the coins there are, so they are unbounded integers here; the sum of two
  \<^verbatim>\<open>size_t\<close> is checked as the code checks it.
\<close>

definition MIN_VOTES_TO_INCLUDE :: int where
  "MIN_VOTES_TO_INCLUDE = 1000000000"

definition addVotes :: "AccountID \<Rightarrow> int \<Rightarrow> (AccountID \<times> int) list \<Rightarrow> (AccountID \<times> int) list" where
  "addVotes dest votes m = AList.update dest ((case map_of m dest of None \<Rightarrow> 0 | Some v \<Rightarrow> v) + votes) m"

text \<open>The vote of one version of an entry: whom it is for and how much it is.\<close>

definition voteOf :: "LedgerEntry option \<Rightarrow> (AccountID \<times> int) option" where
  "voteOf e = (case e of None \<Rightarrow> None | Some le \<Rightarrow>
     (case le_data le of
        ACCOUNT acc \<Rightarrow> (case ac_inflationDest acc of
            Some dest \<Rightarrow> if ac_balance acc \<ge> MIN_VOTES_TO_INCLUDE then Some (dest, ac_balance acc) else None
          | None \<Rightarrow> None)
      | _ \<Rightarrow> None))"

definition isAccountKey :: "LedgerKey \<Rightarrow> bool" where
  "isAccountKey k = (case k of AccountKey _ \<Rightarrow> True | _ \<Rightarrow> False)"

definition getDeltaVotes ::
    "(LedgerKey \<times> LedgerEntry option) list \<Rightarrow> LedgerTxn list \<Rightarrow> LedgerTxnRoot \<Rightarrow> (AccountID \<times> int) list" where
  "getDeltaVotes mEntry ts rt = fold (\<lambda>(key, entry) deltaVotes.
     if \<not> isAccountKey key then deltaVotes
     else
       let d1 = (case voteOf entry of None \<Rightarrow> deltaVotes | Some (dest, v) \<Rightarrow> addVotes dest v deltaVotes) in
       (case voteOf (newestVersion ts rt key) of None \<Rightarrow> d1 | Some (dest, v) \<Rightarrow> addVotes dest (- v) d1))
     mEntry []"

definition totalStep :: "int \<Rightarrow> AccountID \<times> int \<Rightarrow> (AccountID \<times> int) list \<Rightarrow> (AccountID \<times> int) list" where
  "totalStep minVotes delta totalVotes =
     (if map_of totalVotes (fst delta) \<noteq> None \<or> snd delta \<ge> minVotes
      then addVotes (fst delta) (snd delta) totalVotes else totalVotes)"

definition getTotalVotes :: "InflationWinner list \<Rightarrow> (AccountID \<times> int) list \<Rightarrow> int \<Rightarrow> (AccountID \<times> int) list" where
  "getTotalVotes parentWinners deltaVotes minVotes = fold (totalStep minVotes) deltaVotes
     (fold (\<lambda>w m. if map_of m (iw_accountID w) = None then AList.update (iw_accountID w) (iw_votes w) m else m)
        parentWinners [])"

definition enumerateInflationWinners :: "(AccountID \<times> int) list \<Rightarrow> nat \<Rightarrow> int \<Rightarrow> InflationWinner list" where
  "enumerateInflationWinners totalVotes maxWinners minVotes =
     take maxWinners (rankWinners (map (\<lambda>(a, v). \<lparr>iw_accountID = a, iw_votes = v\<rparr>)
       (filter (\<lambda>(a, v). v \<ge> minVotes) totalVotes)))"

definition rootAccounts :: "LedgerTxnRoot \<Rightarrow> AccountEntry list" where
  "rootAccounts rt = List.map_filter (\<lambda>(k, e). case le_data e of ACCOUNT a \<Rightarrow> Some a | _ \<Rightarrow> None) (rt_entry rt)"

fun getInflationWinners ::
    "LedgerTxn list \<Rightarrow> LedgerTxnRoot \<Rightarrow> nat \<Rightarrow> int \<Rightarrow> cpp_error + InflationWinner list" where
  "getInflationWinners [] rt maxWinners minVotes = Inr (loadInflationWinners (rootAccounts rt) maxWinners minVotes)"
| "getInflationWinners (t # ts) rt maxWinners minVotes =
     (let deltaVotes = getDeltaVotes (lt_entry t) ts rt;
          numChanged = length (filter (\<lambda>(a, v). v \<noteq> 0) deltaVotes) in
      if 2 ^ 64 - 1 - int numChanged < int maxWinners then Inl (RuntimeError ''max winners overflowed'')
      else
        let newMaxWinners = maxWinners + numChanged;
            maxIncrease = fold max (map snd deltaVotes) 0;
            newMinVotes = (if minVotes > maxIncrease then minVotes - maxIncrease else 0) in
        bindE (getInflationWinners ts rt newMaxWinners newMinVotes) (\<lambda>parentWinners.
        Inr (enumerateInflationWinners (getTotalVotes parentWinners deltaVotes minVotes) maxWinners minVotes)))"

definition LedgerTxn_queryInflationWinners :: "txn_stack \<Rightarrow> nat \<Rightarrow> nat \<Rightarrow> int \<Rightarrow> cpp_error + InflationWinner list" where
  "LedgerTxn_queryInflationWinners st n maxWinners minVotes =
     bindE (guardTxn st n) (\<lambda>(t, ts). getInflationWinners (t # ts) (ts_root st) maxWinners minVotes)"

subsection \<open>The votes moved\<close>

definition votesIn :: "(AccountID \<times> int) list \<Rightarrow> AccountID \<Rightarrow> int" where
  "votesIn m d = (case map_of m d of None \<Rightarrow> 0 | Some v \<Rightarrow> v)"

definition weight :: "AccountID \<Rightarrow> LedgerEntry option \<Rightarrow> int" where
  "weight d e = (case voteOf e of None \<Rightarrow> 0 | Some (dest, v) \<Rightarrow> if dest = d then v else 0)"

lemma votesIn_addVotes: "votesIn (addVotes dest v m) d = votesIn m d + (if d = dest then v else 0)"
  by (simp add: votesIn_def addVotes_def update_conv')

lemma keys_addVotes: "fst ` set (addVotes dest v m) = insert dest (fst ` set m)"
  by (simp add: addVotes_def dom_map_of_conv_image_fst [symmetric] update_conv' insert_commute)

lemma distinct_addVotes: "distinct (map fst m) \<Longrightarrow> distinct (map fst (addVotes dest v m))"
  by (simp add: addVotes_def distinct_update)

lemma weight_data: "map_option le_data e = map_option le_data e' \<Longrightarrow> weight d e = weight d e'"
  by (cases e; cases e') (simp_all add: weight_def voteOf_def)

lemma weight_None [simp]: "weight d None = 0"
  by (simp add: weight_def voteOf_def)

lemma weight_nonneg: "0 \<le> weight d e"
  by (auto simp: weight_def voteOf_def MIN_VOTES_TO_INCLUDE_def split: option.split LedgerEntryData.split)

lemma weight_other: "\<not> isAccountKey (LedgerEntryKey le) \<Longrightarrow> weight d (Some le) = 0"
  by (auto simp: weight_def voteOf_def isAccountKey_def LedgerEntryKey_def split: LedgerEntryData.split)

lemma votesIn_getDeltaVotes:
  "votesIn (getDeltaVotes es ts rt) d
     = (\<Sum>(k, e) \<leftarrow> es. if isAccountKey k then weight d e - weight d (newestVersion ts rt k) else 0)"
proof -
  have "votesIn (fold (\<lambda>(key, entry) deltaVotes.
      if \<not> isAccountKey key then deltaVotes
      else
        let d1 = (case voteOf entry of None \<Rightarrow> deltaVotes | Some (dest, v) \<Rightarrow> addVotes dest v deltaVotes) in
        (case voteOf (newestVersion ts rt key) of None \<Rightarrow> d1 | Some (dest, v) \<Rightarrow> addVotes dest (- v) d1)) es m) d
    = votesIn m d + (\<Sum>(k, e) \<leftarrow> es. if isAccountKey k then weight d e - weight d (newestVersion ts rt k) else 0)" for m
    by (induction es arbitrary: m)
      (auto simp: Let_def weight_def votesIn_addVotes split: option.split)
  then show ?thesis by (simp add: getDeltaVotes_def votesIn_def)
qed

text \<open>The votes for a destination in a view of the entries.\<close>

definition viewVotes :: "(LedgerKey \<Rightarrow> LedgerEntry option) \<Rightarrow> AccountID \<Rightarrow> int" where
  "viewVotes v d = (\<Sum>k \<in> dom v. weight d (v k))"

lemma finite_newestVersion: "finite (dom (newestVersion ts rt))"
proof (induction ts)
  case Nil
  then show ?case by (simp add: finite_dom_map_of)
next
  case (Cons t ts)
  have "dom (newestVersion (t # ts) rt) \<subseteq> dom (map_of (lt_entry t)) \<union> dom (newestVersion ts rt)"
    by (auto split: option.split_asm)
  with Cons show ?case by (meson finite_dom_map_of finite_UnI finite_subset)
qed

lemma viewVotes_superset: "\<lbrakk>finite K; dom v \<subseteq> K\<rbrakk> \<Longrightarrow> viewVotes v d = (\<Sum>k \<in> K. weight d (v k))"
  unfolding viewVotes_def by (rule sum.mono_neutral_left) (auto simp: dom_def)

lemma viewVotes_nonneg: "0 \<le> viewVotes v d"
  unfolding viewVotes_def by (intro sum_nonneg weight_nonneg)

lemma viewVotes_step:
  assumes "txns_ok (t # ts) rt"
  shows "viewVotes (newestVersion (t # ts) rt) d
    = viewVotes (newestVersion ts rt) d + votesIn (getDeltaVotes (lt_entry t) ts rt) d"
proof -
  let ?new = "newestVersion (t # ts) rt" and ?old = "newestVersion ts rt"
  let ?keys = "fst ` set (lt_entry t)"
  let ?K = "dom ?new \<union> dom ?old \<union> ?keys"
  have fin: "finite ?K" using finite_newestVersion by (simp add: finite_newestVersion)
  have dist: "distinct (map fst (lt_entry t))" using assms by simp
  have row: "?new k = e" if "(k, e) \<in> set (lt_entry t)" for k e
    using that dist by simp
  have other: "?new k = ?old k" if "k \<notin> ?keys" for k
    using that by (simp add: map_of_eq_None_iff [THEN iffD2])
  have "viewVotes ?new d - viewVotes ?old d = (\<Sum>k \<in> ?K. weight d (?new k) - weight d (?old k))"
    unfolding viewVotes_superset [OF fin, of ?new d, OF Un_upper1 [THEN subset_trans, OF Un_upper1]]
      viewVotes_superset [OF fin, of ?old d, OF Un_upper2 [THEN subset_trans, OF Un_upper1]] sum_subtractf ..
  also have "\<dots> = (\<Sum>k \<in> ?keys. weight d (?new k) - weight d (?old k))"
    by (rule sum.mono_neutral_right [OF fin]) (use other in \<open>auto simp del: newestVersion.simps\<close>)
  also have "\<dots> = (\<Sum>k \<leftarrow> map fst (lt_entry t). weight d (?new k) - weight d (?old k))"
    using sum_list_distinct_conv_sum_set [OF dist, of "\<lambda>k. weight d (?new k) - weight d (?old k)"]
    by (simp only: set_map)
  also have "\<dots> = (\<Sum>(k, e) \<leftarrow> lt_entry t. if isAccountKey k then weight d e - weight d (?old k) else 0)"
    unfolding map_map
  proof (rule arg_cong [where f = sum_list], rule map_cong [OF refl])
    fix p assume p: "p \<in> set (lt_entry t)"
    obtain k e where ke: "p = (k, e)" by (cases p)
    have "weight d (?new k) = 0 \<and> weight d (?old k) = 0" if "\<not> isAccountKey k"
      using that txns_ok_key [OF assms, of k] txns_ok_key [of ts rt k] assms
      by (cases "?new k"; cases "?old k") (auto simp: weight_other simp del: newestVersion.simps)
    then show "((\<lambda>k. weight d (?new k) - weight d (?old k)) \<circ> fst) p
        = (case p of (k, e) \<Rightarrow> if isAccountKey k then weight d e - weight d (?old k) else 0)"
      using row [OF p [unfolded ke]] ke by (simp del: newestVersion.simps)
  qed
  finally show ?thesis unfolding votesIn_getDeltaVotes by simp
qed

text \<open>What the query counts in a list of accounts is what the view holds.\<close>

definition accountOf :: "LedgerEntryData \<Rightarrow> AccountEntry option" where
  "accountOf e = (case e of ACCOUNT a \<Rightarrow> Some a | _ \<Rightarrow> None)"

lemma votesFor_accounts:
  "votesFor (List.map_filter accountOf es) d = (\<Sum>e \<leftarrow> es. weight d (Some \<lparr>le_lastModifiedLedgerSeq = 0, le_data = e\<rparr>))"
  by (induction es)
    (auto simp: List.map_filter_simps votesFor_def accountOf_def weight_def voteOf_def MIN_VOTES_TO_INCLUDE_def
      split: LedgerEntryData.split option.split)

lemma map_filter_snd: "List.map_filter (\<lambda>(k, e). f e) al = List.map_filter f (map snd al)"
  by (induction al) (auto simp: List.map_filter_simps split: option.split)

lemma votesFor_view:
  assumes "distinct (map fst al)" "\<And>k. map_of al k = map_option le_data (v k)"
  shows "votesFor (List.map_filter (\<lambda>(k, e). accountOf e) al) d = viewVotes v d"
proof -
  let ?w = "\<lambda>e. weight d (Some \<lparr>le_lastModifiedLedgerSeq = 0, le_data = e\<rparr>)"
  have dom: "dom v = fst ` set al"
    by (simp add: dom_map_of_conv_image_fst [symmetric]) (simp add: dom_def assms(2))
  have "weight d (v k) = ?w e" if "(k, e) \<in> set al" for k e
  proof (rule weight_data)
    from that assms have "map_option le_data (v k) = Some e" by (metis map_of_eq_Some_iff)
    then show "map_option le_data (v k) = map_option le_data (Some \<lparr>le_lastModifiedLedgerSeq = 0, le_data = e\<rparr>)" by simp
  qed
  then have "(\<Sum>(k, e) \<leftarrow> al. ?w e) = (\<Sum>p \<leftarrow> al. weight d (v (fst p)))"
    by (intro arg_cong [where f = sum_list] map_cong) auto
  also have "\<dots> = (\<Sum>k \<leftarrow> map fst al. weight d (v k))" by (simp add: comp_def)
  also have "\<dots> = viewVotes v d"
    using sum_list_distinct_conv_sum_set [OF assms(1), of "\<lambda>k. weight d (v k)"] by (simp add: viewVotes_def dom)
  finally show ?thesis
    unfolding map_filter_snd votesFor_accounts by (simp add: comp_def case_prod_beta')
qed

lemma votesFor_presents:
  assumes "presents st l"
  shows "votesFor (ledgerAccounts l) d = viewVotes (newestVersion (ts_txns st) (ts_root st)) d"
  using assms votesFor_view [of "lg_entries l" "newestVersion (ts_txns st) (ts_root st)" d]
  by (simp add: presents_def keyed_def load_def ledgerAccounts_def accountOf_def)

lemma votesFor_root:
  assumes "txns_ok [] rt"
  shows "votesFor (rootAccounts rt) d = viewVotes (newestVersion [] rt) d"
proof -
  let ?al = "map (\<lambda>(k, e). (k, le_data e)) (rt_entry rt)"
  have "map_of ?al k = map_option le_data (newestVersion [] rt k)" for k
    by (simp add: map_of_map)
  moreover have "distinct (map fst ?al)" using assms by (simp add: comp_def case_prod_beta)
  moreover have "List.map_filter (\<lambda>(k, e). case le_data e of ACCOUNT a \<Rightarrow> Some a | _ \<Rightarrow> None) es
      = List.map_filter (\<lambda>(k, e). accountOf e) (map (\<lambda>(k, e). (k, le_data e)) es)"
    for es :: "(LedgerKey \<times> LedgerEntry) list"
    by (induction es) (auto simp: List.map_filter_simps accountOf_def split: LedgerEntryData.split)
  then have "rootAccounts rt = List.map_filter (\<lambda>(k, e). accountOf e) ?al" by (simp only: rootAccounts_def)
  ultimately show ?thesis using votesFor_view by metis
qed

subsection \<open>The winners\<close>

text \<open>What a list of winners must be for the votes of a view, down to a number of votes.\<close>

definition winners_ok :: "(AccountID \<Rightarrow> int) \<Rightarrow> int \<Rightarrow> InflationWinner list \<Rightarrow> bool" where
  "winners_ok V mn ws \<longleftrightarrow> distinct (map iw_accountID ws)
     \<and> (\<forall>w \<in> set ws. iw_votes w = V (iw_accountID w) \<and> mn \<le> iw_votes w)
     \<and> (\<forall>d. 0 < V d \<and> mn \<le> V d \<longrightarrow> d \<in> iw_accountID ` set ws)"

lemma voteDests_pos:
  "d \<in> set (voteDests accounts) \<longleftrightarrow> 0 < votesFor accounts d"
proof (induction accounts)
  case (Cons a accounts)
  have "0 \<le> votesFor accounts d" for d
    by (auto simp: votesFor_def intro!: sum_list_nonneg)
  from Cons this [of d] show ?case
    by (auto simp: voteDests_def votesFor_def List.map_filter_simps split: option.split)
qed (simp add: voteDests_def votesFor_def List.map_filter_simps)

lemma sorted_rankWinners: "sorted (map winnerKey (rev (rankWinners ws)))"
  by (simp add: rankWinners_def)

lemma takeWhile_ranked:
  "sorted (map winnerKey (rev ws)) \<Longrightarrow> takeWhile (\<lambda>w. \<not> iw_votes w < mn) ws = filter (\<lambda>w. mn \<le> iw_votes w) ws"
proof (induction ws)
  case (Cons w ws)
  have le: "iw_votes v \<le> iw_votes w" if "v \<in> set ws" for v
  proof -
    have "winnerKey v \<le> winnerKey w" using Cons.prems that by (simp add: sorted_append)
    then show ?thesis by (auto simp: winnerKey_def less_eq_prod_def)
  qed
  show ?case
  proof (cases "iw_votes w < mn")
    case True
    then have "filter (\<lambda>w. mn \<le> iw_votes w) ws = []" using le by (fastforce simp: filter_empty_conv)
    with True show ?thesis by simp
  next
    case False
    with Cons show ?thesis by (simp add: sorted_append)
  qed
qed simp

lemma mset_rankWinners: "mset (rankWinners ws) = mset ws"
  by (simp add: rankWinners_def)

lemma set_rankWinners [simp]: "set (rankWinners ws) = set ws"
  using mset_rankWinners [of ws] by (metis set_mset_mset)

lemma distinct_rankWinners [simp]: "distinct (map f (rankWinners ws)) \<longleftrightarrow> distinct (map f ws)"
  using mset_rankWinners [of ws] by (metis mset_map mset_eq_imp_distinct_iff)

lemma length_rankWinners [simp]: "length (rankWinners ws) = length ws"
  by (simp add: rankWinners_def)

lemma loadInflationWinners_ok:
  assumes "length (voteDests accounts) \<le> maxWinners"
  shows "winners_ok (votesFor accounts) mn (loadInflationWinners accounts maxWinners mn)
    \<and> sorted (map winnerKey (rev (loadInflationWinners accounts maxWinners mn)))
    \<and> iw_accountID ` set (loadInflationWinners accounts maxWinners mn) \<subseteq> set (voteDests accounts)"
proof -
  let ?all = "map (\<lambda>d. \<lparr>iw_accountID = d, iw_votes = votesFor accounts d\<rparr>) (voteDests accounts)"
  have eq: "loadInflationWinners accounts maxWinners mn = filter (\<lambda>w. mn \<le> iw_votes w) (rankWinners ?all)"
    using assms takeWhile_ranked [OF sorted_rankWinners] by (simp add: loadInflationWinners_def)
  have "distinct (voteDests accounts)" by (simp add: voteDests_def)
  then have "distinct (map iw_accountID (rankWinners ?all))" by (simp add: comp_def)
  moreover have "sorted (map winnerKey (filter P (rev (rankWinners ?all))))" for P
    using sorted_rankWinners by (rule sorted_filter)
  moreover have "d \<in> iw_accountID ` {w \<in> set ?all. mn \<le> iw_votes w}"
    if "0 < votesFor accounts d" "mn \<le> votesFor accounts d" for d
    using that by (intro rev_image_eqI [of "\<lparr>iw_accountID = d, iw_votes = votesFor accounts d\<rparr>"])
      (simp_all add: voteDests_pos)
  ultimately show ?thesis
    unfolding eq winners_ok_def by (auto simp: distinct_map_filter rev_filter)
qed

text \<open>A ranking is determined by the winners it holds.\<close>

lemma ranking_unique:
  assumes "winners_ok V mn ws" "winners_ok V mn us" "0 < mn"
    and "sorted (map winnerKey (rev ws))" "sorted (map winnerKey (rev us))"
  shows "ws = us"
proof -
  have inj: "inj_on winnerKey S" for S
    by (auto simp: inj_on_def winnerKey_def accountStrKey_inject)
  have set: "set vs = {w :: InflationWinner. iw_votes w = V (iw_accountID w) \<and> mn \<le> iw_votes w}" if ok: "winners_ok V mn vs" for vs
  proof (intro set_eqI iffI)
    fix w :: InflationWinner
    assume "w \<in> {w. iw_votes w = V (iw_accountID w) \<and> mn \<le> iw_votes w}"
    then have w: "iw_votes w = V (iw_accountID w)" "mn \<le> V (iw_accountID w)" by auto
    then have "iw_accountID w \<in> iw_accountID ` set vs" using ok assms(3) by (simp add: winners_ok_def)
    then obtain u where "u \<in> set vs" "iw_accountID u = iw_accountID w" by auto
    moreover from this ok have "iw_votes u = V (iw_accountID u)" by (simp add: winners_ok_def)
    ultimately show "w \<in> set vs" using w by (metis InflationWinner.equality unit.exhaust)
  qed (use ok in \<open>fastforce simp: winners_ok_def\<close>)
  have "distinct vs" if "winners_ok V mn vs" for vs
    using that by (simp add: winners_ok_def distinct_map)
  then have "distinct (map winnerKey (rev ws))" "distinct (map winnerKey (rev us))"
    using assms(1,2) inj by (simp_all add: distinct_map)
  then have "rev ws = rev us"
    using assms(4,5) inj set [OF assms(1)] set [OF assms(2)] by (intro map_sorted_distinct_set_unique) simp_all
  then show ?thesis by simp
qed

subsection \<open>One layer corrects the winners of its parent\<close>

lemma getTotalVotes_eq:
  assumes "distinct (map iw_accountID ws)"
  shows "\<exists>m. distinct (map fst m) \<and> fst ` set m = iw_accountID ` set ws
    \<and> (\<forall>w \<in> set ws. map_of m (iw_accountID w) = Some (iw_votes w))
    \<and> getTotalVotes ws deltas mn = fold (totalStep mn) deltas m"
proof -
  let ?f = "\<lambda>w m. if map_of m (iw_accountID w) = None then AList.update (iw_accountID w) (iw_votes w) m else m"
  have "distinct (map fst m0) \<and> iw_accountID ` set ws \<inter> fst ` set m0 = {} \<Longrightarrow>
      distinct (map fst (fold ?f ws m0)) \<and> fst ` set (fold ?f ws m0) = fst ` set m0 \<union> iw_accountID ` set ws
      \<and> (\<forall>w \<in> set ws. map_of (fold ?f ws m0) (iw_accountID w) = Some (iw_votes w))
      \<and> (\<forall>a. a \<notin> iw_accountID ` set ws \<longrightarrow> map_of (fold ?f ws m0) a = map_of m0 a)" for m0
    using assms
  proof (induction ws arbitrary: m0)
    case (Cons w ws)
    let ?m = "AList.update (iw_accountID w) (iw_votes w) m0"
    have n: "map_of m0 (iw_accountID w) = None" using Cons.prems by (auto simp: map_of_eq_None_iff)
    have k: "fst ` set ?m = insert (iw_accountID w) (fst ` set m0)"
      by (simp add: dom_map_of_conv_image_fst [symmetric] update_conv')
    have "distinct (map fst ?m) \<and> iw_accountID ` set ws \<inter> fst ` set ?m = {}"
      using Cons.prems k by (auto simp: distinct_update)
    from Cons.IH [OF this] Cons.prems(2) n k show ?case by (auto simp: update_conv')
  qed simp
  from this [of "[]"] show ?thesis
    by (intro exI [of _ "fold ?f ws []"]) (simp add: getTotalVotes_def)
qed

lemma fold_totalStep:
  "\<lbrakk>distinct (map fst ds); distinct (map fst m)\<rbrakk> \<Longrightarrow> distinct (map fst (fold (totalStep mn) ds m))
     \<and> (\<forall>a. map_of (fold (totalStep mn) ds m) a = (case map_of m a of
          Some v \<Rightarrow> Some (v + votesIn ds a)
        | None \<Rightarrow> (case map_of ds a of None \<Rightarrow> None | Some v \<Rightarrow> if mn \<le> v then Some v else None)))"
proof (induction ds arbitrary: m)
  case Nil
  then show ?case by (simp add: votesIn_def split: option.split)
next
  case (Cons p ds)
  obtain d v where p: "p = (d, v)" by (cases p)
  have fresh: "map_of ds d = None" using Cons.prems(1) p by (simp add: map_of_eq_None_iff)
  have "distinct (map fst (totalStep mn p m))"
    using Cons.prems(2) by (simp add: totalStep_def distinct_addVotes)
  moreover have step: "map_of (totalStep mn p m) a = (if a = d then (case map_of m d of Some u \<Rightarrow> Some (u + v)
      | None \<Rightarrow> if mn \<le> v then Some v else None) else map_of m a)" for a
    using p by (auto simp: totalStep_def addVotes_def update_conv' split: option.split)
  ultimately show ?case
    using Cons.IH [of "totalStep mn p m"] Cons.prems(1) p fresh
    by (auto simp: votesIn_def split: option.split)
qed

lemma fold_max_ge: "(x::int) \<le> fold max vs x \<and> (\<forall>v \<in> set vs. v \<le> fold max vs x)"
proof (induction vs arbitrary: x)
  case (Cons v vs)
  from Cons.IH [of "max v x"] show ?case by auto
qed simp

lemma distinct_getDeltaVotes: "distinct (map fst (getDeltaVotes es ts rt))"
proof -
  have "distinct (map fst m) \<Longrightarrow> distinct (map fst (fold (\<lambda>(key, entry) deltaVotes.
      if \<not> isAccountKey key then deltaVotes
      else
        let d1 = (case voteOf entry of None \<Rightarrow> deltaVotes | Some (dest, v) \<Rightarrow> addVotes dest v deltaVotes) in
        (case voteOf (newestVersion ts rt key) of None \<Rightarrow> d1 | Some (dest, v) \<Rightarrow> addVotes dest (- v) d1)) es m))" for m
    by (induction es arbitrary: m) (auto simp: Let_def distinct_addVotes split: option.split)
  then show ?thesis by (simp add: getDeltaVotes_def)
qed

text \<open>The totals are the votes of the view for every account they name, and they name every account
  that has enough.\<close>

lemma totals_ok:
  assumes ok: "txns_ok (t # ts) rt"
    and ws: "winners_ok (viewVotes (newestVersion ts rt)) mn' ws"
    and mn': "mn' = (let inc = fold max (map snd (getDeltaVotes (lt_entry t) ts rt)) 0 in if mn > inc then mn - inc else 0)"
  shows "distinct (map fst (getTotalVotes ws (getDeltaVotes (lt_entry t) ts rt) mn))
    \<and> (\<forall>a v. map_of (getTotalVotes ws (getDeltaVotes (lt_entry t) ts rt) mn) a = Some v
          \<longrightarrow> v = viewVotes (newestVersion (t # ts) rt) a)
    \<and> (\<forall>a. 0 < viewVotes (newestVersion (t # ts) rt) a \<and> mn \<le> viewVotes (newestVersion (t # ts) rt) a
          \<longrightarrow> map_of (getTotalVotes ws (getDeltaVotes (lt_entry t) ts rt) mn) a \<noteq> None)
    \<and> fst ` set (getTotalVotes ws (getDeltaVotes (lt_entry t) ts rt) mn)
        \<subseteq> iw_accountID ` set ws \<union> fst ` set (getDeltaVotes (lt_entry t) ts rt)"
proof -
  let ?ds = "getDeltaVotes (lt_entry t) ts rt"
  let ?V = "viewVotes (newestVersion ts rt)" and ?W = "viewVotes (newestVersion (t # ts) rt)"
  let ?inc = "fold max (map snd ?ds) 0"
  let ?tot = "getTotalVotes ws ?ds mn"
  from ws have d: "distinct (map iw_accountID ws)" by (simp add: winners_ok_def)
  from getTotalVotes_eq [OF d, of ?ds mn] obtain m where m: "distinct (map fst m)" "fst ` set m = iw_accountID ` set ws"
    "\<And>w. w \<in> set ws \<Longrightarrow> map_of m (iw_accountID w) = Some (iw_votes w)"
    "?tot = fold (totalStep mn) ?ds m" by blast
  note f = fold_totalStep [OF distinct_getDeltaVotes m(1), of mn "lt_entry t" ts rt, folded m(4)]
  have W: "?W a = ?V a + votesIn ?ds a" for a by (rule viewVotes_step [OF ok])
  have inc: "votesIn ?ds a \<le> ?inc" "0 \<le> ?inc" for a
  proof -
    show "0 \<le> ?inc" using fold_max_ge [of 0 "map snd ?ds"] by blast
    have "v \<le> ?inc" if "map_of ?ds a = Some v" for v
    proof -
      have "v \<in> set (map snd ?ds)" using map_of_SomeD [OF that] by force
      then show ?thesis using fold_max_ge [of 0 "map snd ?ds"] by blast
    qed
    with \<open>0 \<le> ?inc\<close> show "votesIn ?ds a \<le> ?inc" by (simp add: votesIn_def split: option.split)
  qed
  have have_m: "map_of m a = Some (?V a)" if "a \<in> iw_accountID ` set ws" for a
    using that m(3) ws by (auto simp: winners_ok_def)
  have no_m: "map_of m a = None" if "a \<notin> iw_accountID ` set ws" for a
    using that m(2) by (simp add: map_of_eq_None_iff)
  have out: "?V a = 0 \<or> ?inc < mn \<and> ?V a < mn - ?inc" if "a \<notin> iw_accountID ` set ws" for a
  proof (cases "?V a = 0")
    case False
    then have "0 < ?V a" using viewVotes_nonneg [of "newestVersion ts rt" a] by simp
    then have "?V a < mn'" using that ws by (auto simp: winners_ok_def not_le [symmetric])
    then show ?thesis using mn' \<open>0 < ?V a\<close> by (auto simp: Let_def split: if_split_asm)
  qed simp
  have val: "map_of ?tot a = Some v \<Longrightarrow> v = ?W a" for a v
  proof (cases "a \<in> iw_accountID ` set ws")
    case True
    then show "map_of ?tot a = Some v \<Longrightarrow> v = ?W a" using f have_m [OF True] W [of a] by simp
  next
    case False
    assume "map_of ?tot a = Some v"
    with f no_m [OF False] have v: "map_of ?ds a = Some v" "mn \<le> v" by (auto split: option.split_asm if_split_asm)
    then have "votesIn ?ds a = v" by (simp add: votesIn_def)
    then show "v = ?W a" using out [OF False] W [of a] v inc(1) [of a] inc(2) by auto
  qed
  have comp: "map_of ?tot a \<noteq> None" if a: "0 < ?W a" "mn \<le> ?W a" for a
  proof (cases "a \<in> iw_accountID ` set ws")
    case True
    then show ?thesis using f have_m [OF True] by simp
  next
    case False
    then have "?V a = 0" using out [OF False] W [of a] inc(1) [of a] inc(2) a by linarith
    then have "votesIn ?ds a = ?W a" using W [of a] by simp
    then show ?thesis using a f no_m [OF False] by (auto simp: votesIn_def split: option.split_asm option.split)
  qed
  have "a \<in> iw_accountID ` set ws \<union> fst ` set ?ds" if "map_of ?tot a \<noteq> None" for a
    using that f no_m [of a] by (cases "a \<in> iw_accountID ` set ws") (auto split: option.split_asm dest: map_of_SomeD intro: rev_image_eqI)
  then have "fst ` set ?tot \<subseteq> iw_accountID ` set ws \<union> fst ` set ?ds"
    by (auto simp: dom_map_of_conv_image_fst [symmetric])
  with f val comp show ?thesis by blast
qed

subsection \<open>The whole stack\<close>

text \<open>The accounts that some version of some entry, in a layer or in the database, votes for.\<close>

fun candidates :: "LedgerTxn list \<Rightarrow> LedgerTxnRoot \<Rightarrow> AccountID list" where
  "candidates [] rt = voteDests (rootAccounts rt)"
| "candidates (t # ts) rt = remdups (map fst (getDeltaVotes (lt_entry t) ts rt) @ candidates ts rt)"

lemma distinct_candidates: "distinct (candidates ts rt)"
  by (induction ts) (simp_all add: voteDests_def)

lemma viewVotes_candidates:
  "\<lbrakk>txns_ok ts rt; 0 < viewVotes (newestVersion ts rt) d\<rbrakk> \<Longrightarrow> d \<in> set (candidates ts rt)"
proof (induction ts)
  case Nil
  with votesFor_root [OF Nil(1), of d] show ?case
    by (simp add: voteDests_pos del: newestVersion.simps txns_ok.simps)
next
  case (Cons t ts)
  show ?case
  proof (cases "votesIn (getDeltaVotes (lt_entry t) ts rt) d = 0")
    case True
    with Cons viewVotes_step [OF Cons.prems(1), of d] show ?thesis by (simp del: newestVersion.simps)
  next
    case False
    then show ?thesis by (force simp: votesIn_def split: option.split_asm dest: map_of_SomeD)
  qed
qed

lemma enumerate_ok:
  assumes "distinct (map fst tot)" "\<And>a v. map_of tot a = Some v \<Longrightarrow> v = W a"
    and "\<And>a. 0 < W a \<and> mn \<le> W a \<Longrightarrow> map_of tot a \<noteq> None" "length tot \<le> n"
  shows "winners_ok W mn (enumerateInflationWinners tot n mn)
    \<and> iw_accountID ` set (enumerateInflationWinners tot n mn) \<subseteq> fst ` set tot
    \<and> sorted (map winnerKey (rev (enumerateInflationWinners tot n mn)))"
proof -
  let ?w = "\<lambda>(a, v). \<lparr>iw_accountID = a, iw_votes = v\<rparr>"
  let ?ws = "map ?w (filter (\<lambda>(a, v). mn \<le> v) tot)"
  have "length ?ws \<le> n" using assms(4) by (simp add: order_trans [OF length_filter_le])
  then have eq: "enumerateInflationWinners tot n mn = rankWinners ?ws"
    by (simp add: enumerateInflationWinners_def)
  have "map iw_accountID ?ws = map fst (filter (\<lambda>(a, v). mn \<le> v) tot)" by (simp add: case_prod_beta)
  then have d: "distinct (map iw_accountID (rankWinners ?ws))"
    unfolding distinct_rankWinners using assms(1) by (simp only: distinct_map_filter)
  have mem: "v = W a" if "(a, v) \<in> set tot" for a v using that assms(1,2) by simp
  have "a \<in> iw_accountID ` set ?ws" if "0 < W a" "mn \<le> W a" for a
  proof -
    from assms(2,3) that have "map_of tot a = Some (W a)" by fastforce
    then have "(a, W a) \<in> set tot" by (rule map_of_SomeD)
    with that show ?thesis by (intro rev_image_eqI [of "\<lparr>iw_accountID = a, iw_votes = W a\<rparr>"]) force+
  qed
  with d mem have "winners_ok W mn (rankWinners ?ws)" by (auto simp: winners_ok_def)
  moreover have "iw_accountID ` set (rankWinners ?ws) \<subseteq> fst ` set tot" by force
  ultimately show ?thesis using sorted_rankWinners unfolding eq by blast
qed

lemma getInflationWinners_ok:
  "\<lbrakk>txns_ok ts rt; length (candidates ts rt) \<le> n; getInflationWinners ts rt n mn = Inr ws\<rbrakk>
   \<Longrightarrow> winners_ok (viewVotes (newestVersion ts rt)) mn ws \<and> iw_accountID ` set ws \<subseteq> set (candidates ts rt)
     \<and> sorted (map winnerKey (rev ws))"
proof (induction ts arbitrary: n mn ws)
  case Nil
  have "votesFor (rootAccounts rt) = viewVotes (newestVersion [] rt)"
    using votesFor_root [OF Nil(1)] by (intro ext)
  with Nil loadInflationWinners_ok [of "rootAccounts rt" n mn] show ?case by (simp del: newestVersion.simps)
next
  case (Cons t ts)
  let ?ds = "getDeltaVotes (lt_entry t) ts rt"
  let ?inc = "fold max (map snd ?ds) 0"
  let ?mn = "if mn > ?inc then mn - ?inc else 0"
  let ?n = "n + length (filter (\<lambda>(a, v). v \<noteq> 0) ?ds)"
  from Cons.prems(3) obtain ps where ps: "getInflationWinners ts rt ?n ?mn = Inr ps"
    "ws = enumerateInflationWinners (getTotalVotes ps ?ds mn) n mn"
    by (auto simp: Let_def split: if_split_asm)
  have "length (candidates ts rt) = card (set (candidates ts rt))"
    by (simp add: distinct_card distinct_candidates)
  also have "\<dots> \<le> card (set (candidates (t # ts) rt))" by (rule card_mono) auto
  also have "\<dots> \<le> n" using Cons.prems(2) distinct_candidates [of "t # ts" rt] by (simp only: distinct_card)
  finally have "length (candidates ts rt) \<le> ?n" by simp
  with Cons.IH [OF _ this ps(1)] Cons.prems(1) have
    ih: "winners_ok (viewVotes (newestVersion ts rt)) ?mn ps" "iw_accountID ` set ps \<subseteq> set (candidates ts rt)" by simp_all
  note tot = totals_ok [OF Cons.prems(1) ih(1), of mn, unfolded Let_def, OF refl]
  have names: "fst ` set (getTotalVotes ps ?ds mn) \<subseteq> set (candidates (t # ts) rt)"
  proof -
    have "set (candidates (t # ts) rt) = fst ` set ?ds \<union> set (candidates ts rt)" by simp
    with tot ih(2) show ?thesis by blast
  qed
  have "length (getTotalVotes ps ?ds mn) = card (fst ` set (getTotalVotes ps ?ds mn))"
    using tot by (metis distinct_card length_map set_map)
  also have "\<dots> \<le> card (set (candidates (t # ts) rt))" by (rule card_mono [OF _ names]) simp
  also have "\<dots> \<le> n" using Cons.prems(2) distinct_candidates [of "t # ts" rt] by (simp only: distinct_card)
  finally show ?case
    using enumerate_ok [of "getTotalVotes ps ?ds mn" "viewVotes (newestVersion (t # ts) rt)" mn n] tot names
    unfolding ps(2) by blast
qed

text \<open>C16. Counting inflation winners layer by layer gives, in the same order, the winners that the
  query on the flat ledger gives, provided that no list is cut off, which the bound on the candidates
  ensures.\<close>

theorem queryInflationWinners_equiv:
  assumes "presents st l" "idle st" "0 < minVotes"
    and "length (candidates (ts_txns st) (ts_root st)) \<le> maxWinners"
    and "LedgerTxn_queryInflationWinners st 0 maxWinners minVotes = Inr ws"
  shows "ws = queryInflationWinners l maxWinners minVotes"
proof -
  let ?V = "viewVotes (newestVersion (ts_txns st) (ts_root st))"
  from assms(2) obtain t ts where st: "ts_txns st = t # ts" by (auto simp: idle_def split: list.split_asm)
  have g: "getInflationWinners (ts_txns st) (ts_root st) maxWinners minVotes = Inr ws"
    using assms(5) guardTxn_idle [OF assms(2) st] st by (simp add: LedgerTxn_queryInflationWinners_def del: getInflationWinners.simps)
  have ok: "txns_ok (ts_txns st) (ts_root st)" using assms(1) by (simp add: presents_def)
  note ws = getInflationWinners_ok [OF ok assms(4) g]
  have V: "votesFor (ledgerAccounts l) = ?V" using votesFor_presents [OF assms(1)] by (intro ext)
  have "set (voteDests (ledgerAccounts l)) \<subseteq> set (candidates (ts_txns st) (ts_root st))"
    using viewVotes_candidates [OF ok] by (auto simp: voteDests_pos V)
  then have "card (set (voteDests (ledgerAccounts l))) \<le> card (set (candidates (ts_txns st) (ts_root st)))"
    by (intro card_mono) simp_all
  moreover have "distinct (voteDests (ledgerAccounts l))" by (simp add: voteDests_def)
  ultimately have "length (voteDests (ledgerAccounts l)) \<le> maxWinners"
    using assms(4) distinct_candidates [of "ts_txns st" "ts_root st"] by (simp add: distinct_card)
  note flat = loadInflationWinners_ok [OF this, of minVotes, unfolded V]
  show ?thesis unfolding queryInflationWinners_def
    by (rule ranking_unique [of ?V minVotes]) (use ws flat assms(3) in simp_all)
qed

text \<open>For evaluating small cases: a list already in order is its own ranking.\<close>

lemma rankWinners_sorted:
  assumes "sorted_wrt (\<lambda>v w. iw_votes w < iw_votes v) ws"
  shows "rankWinners ws = (ws :: InflationWinner list)"
proof -
  have "sorted_wrt (\<lambda>v w. winnerKey v \<le> winnerKey w) (rev ws)"
    using assms by (auto simp: sorted_wrt_rev winnerKey_def less_eq_prod_def elim!: sorted_wrt_mono_rel [rotated])
  then have "sorted (map winnerKey (rev ws))" by (simp only: sorted_map)
  then have "sort_key winnerKey (rev ws) = rev ws" by (rule sort_key_id_if_sorted)
  moreover have "sort_key winnerKey ws = sort_key winnerKey (rev ws)"
    by (rule sort_key_eq_sort_key) (auto simp: inj_on_def winnerKey_def accountStrKey_inject)
  ultimately show ?thesis by (simp add: rankWinners_def)
qed

text \<open>Two accounts vote; a transaction moves the vote of one of them.\<close>

definition ex_voter :: "AccountID \<Rightarrow> int \<Rightarrow> AccountID \<Rightarrow> LedgerEntry" where
  "ex_voter i b dest = \<lparr>le_lastModifiedLedgerSeq = 1,
     le_data = ACCOUNT (ex_account\<lparr>ac_accountID := i, ac_balance := b, ac_inflationDest := Some dest\<rparr>)\<rparr>"

lemmas votes_eval = rankWinners_sorted Let_def loadInflationWinners_def voteDests_def votesFor_def rootAccounts_def
  List.map_filter_simps ex_voter_def getDeltaVotes_def voteOf_def isAccountKey_def MIN_VOTES_TO_INCLUDE_def
  addVotes_def enumerateInflationWinners_def getTotalVotes_def totalStep_def ledgerAccounts_def

definition ex_vote_stack :: txn_stack where
  "ex_vote_stack = \<lparr>ts_txns = [(newLedgerTxn ex_header False)\<lparr>lt_entry := [(AccountKey 1, Some (ex_voter 1 3000000000 7))]\<rparr>],
     ts_root = \<lparr>rt_entry = [(AccountKey 1, ex_voter 1 3000000000 8), (AccountKey 2, ex_voter 2 2000000000 7)],
       rt_header = ex_header\<rparr>\<rparr>"

definition ex_vote_flat :: ledger where
  "ex_vote_flat = \<lparr>lg_header = ex_header, lg_entries = [(AccountKey 1, le_data (ex_voter 1 3000000000 7)),
     (AccountKey 2, le_data (ex_voter 2 2000000000 7))]\<rparr>"

theorem queryInflationWinners_equiv_witness:
  "case LedgerTxn_queryInflationWinners ex_vote_stack 0 10 1000 of
     Inl err \<Rightarrow> False
   | Inr ws \<Rightarrow> ws = queryInflationWinners ex_vote_flat 10 1000 \<and> ws = [\<lparr>iw_accountID = 7, iw_votes = 5000000000\<rparr>]"
proof -
  have p: "presents ex_vote_stack ex_vote_flat"
    unfolding presents_def
  proof (intro conjI allI)
    show "txns_ok (ts_txns ex_vote_stack) (ts_root ex_vote_stack)"
      by (simp add: ex_vote_stack_def newLedgerTxn_def ex_voter_def LedgerEntryKey_def filed_def)
    show "keyed ex_vote_flat" by (simp add: ex_vote_flat_def keyed_def ex_voter_def)
  qed (simp_all add: ex_vote_stack_def newLedgerTxn_def ex_vote_flat_def load_def)
  have i: "idle ex_vote_stack" by (simp add: idle_def ex_vote_stack_def newLedgerTxn_def)
  have c: "length (candidates (ts_txns ex_vote_stack) (ts_root ex_vote_stack)) \<le> 10" by code_simp
  have q: "LedgerTxn_queryInflationWinners ex_vote_stack 0 10 1000 = Inr [\<lparr>iw_accountID = 7, iw_votes = 5000000000\<rparr>]"
    by (simp add: ex_vote_stack_def newLedgerTxn_def LedgerTxn_queryInflationWinners_def guardTxn_def votes_eval)
  from queryInflationWinners_equiv [OF p i _ c q] q show ?thesis by simp
qed

subsection \<open>A winner lost\<close>

text \<open>Where lists are cut off the layers do not agree with the flat ledger. Three accounts get votes in
  the database and there is one place to win; a transaction gives the last of them enough to lead. The
  list asked of the parent has two places, so it does not name that account, and the votes it had
  before are not counted.\<close>

definition ex_lost_stack :: txn_stack where
  "ex_lost_stack = \<lparr>ts_txns = [(newLedgerTxn ex_header False)\<lparr>lt_entry := [(AccountKey 4, Some (ex_voter 4 6000000000 30))]\<rparr>],
     ts_root = \<lparr>rt_entry = [(AccountKey 1, ex_voter 1 10000000000 10), (AccountKey 2, ex_voter 2 9000000000 20),
       (AccountKey 3, ex_voter 3 5000000000 30)], rt_header = ex_header\<rparr>\<rparr>"

definition ex_lost_flat :: ledger where
  "ex_lost_flat = \<lparr>lg_header = ex_header, lg_entries = [(AccountKey 3, le_data (ex_voter 3 5000000000 30)),
     (AccountKey 4, le_data (ex_voter 4 6000000000 30)), (AccountKey 1, le_data (ex_voter 1 10000000000 10)),
     (AccountKey 2, le_data (ex_voter 2 9000000000 20))]\<rparr>"

lemma inflation_winner_lost:
  "presents ex_lost_stack ex_lost_flat
   \<and> LedgerTxn_queryInflationWinners ex_lost_stack 0 1 1000 = Inr [\<lparr>iw_accountID = 10, iw_votes = 10000000000\<rparr>]
   \<and> queryInflationWinners ex_lost_flat 1 1000 = [\<lparr>iw_accountID = 30, iw_votes = 11000000000\<rparr>]"
proof (intro conjI)
  show "presents ex_lost_stack ex_lost_flat"
    unfolding presents_def
  proof (intro conjI allI)
    show "txns_ok (ts_txns ex_lost_stack) (ts_root ex_lost_stack)"
      by (simp add: ex_lost_stack_def newLedgerTxn_def ex_voter_def LedgerEntryKey_def filed_def)
    show "keyed ex_lost_flat" by (simp add: ex_lost_flat_def keyed_def ex_voter_def)
  qed (simp_all add: ex_lost_stack_def newLedgerTxn_def ex_lost_flat_def load_def)
  show "LedgerTxn_queryInflationWinners ex_lost_stack 0 1 1000 = Inr [\<lparr>iw_accountID = 10, iw_votes = 10000000000\<rparr>]"
    by (simp add: ex_lost_stack_def newLedgerTxn_def LedgerTxn_queryInflationWinners_def guardTxn_def votes_eval)
  show "queryInflationWinners ex_lost_flat 1 1000 = [\<lparr>iw_accountID = 30, iw_votes = 11000000000\<rparr>]"
    by (simp add: ex_lost_flat_def queryInflationWinners_def votes_eval)
qed

end
