(* ===== verification/Bucket.thy ===== *)
theory Bucket
  imports Ledger_Types "HOL-Library.List_Lexorder" "HOL-Library.Product_Lexorder" "HOL-Library.Char_ord"
begin

section \<open>Buckets (src/src/bucket/Bucket.cpp, LedgerCmp.h, BucketOutputIterator.cpp)\<close>

text \<open>
  A bucket is a file of entries in the order of their keys, each the new version of a ledger entry or the
  mark that it was erased. Here a bucket is the list of the file's entries, and a
  \<^verbatim>\<open>BucketInputIterator\<close> the part of the list from the current entry on; the empty bucket has no file.
  What hash a file has is a parameter where it matters.

  Theorem \<open>merge_correct\<close> says what the single pass of \<^verbatim>\<open>Bucket::merge\<close> over its inputs computes.
\<close>

datatype BucketEntry =
    LIVEENTRY LedgerEntry
  | DEADENTRY LedgerKey

type_synonym Bucket = "BucketEntry list"

subsection \<open>The order of entries\<close>

text \<open>XDR's order of assets, by type, code and issuer.\<close>

definition assetOrder :: "Asset \<Rightarrow> nat \<times> u8 list \<times> AccountID" where
  "assetOrder a = (case a of ASSET_TYPE_NATIVE \<Rightarrow> (0, [], 0)
     | ASSET_TYPE_CREDIT_ALPHANUM4 c i \<Rightarrow> (1, c, i)
     | ASSET_TYPE_CREDIT_ALPHANUM12 c i \<Rightarrow> (2, c, i))"

definition keyType :: "LedgerKey \<Rightarrow> nat" where
  "keyType k = (case k of AccountKey _ \<Rightarrow> 0 | TrustLineKey _ _ \<Rightarrow> 1 | OfferKey _ _ \<Rightarrow> 2 | DataKey _ _ \<Rightarrow> 3)"

text \<open>The comparison looks at the fields of an entry that make up its key, so it is given on keys.\<close>

fun LedgerEntryIdCmp :: "LedgerKey \<Rightarrow> LedgerKey \<Rightarrow> bool" where
  "LedgerEntryIdCmp (AccountKey a) (AccountKey b) \<longleftrightarrow> a < b"
| "LedgerEntryIdCmp (TrustLineKey a x) (TrustLineKey b y) \<longleftrightarrow>
     (if a < b then True else if b < a then False else assetOrder x < assetOrder y)"
| "LedgerEntryIdCmp (OfferKey a m) (OfferKey b n) \<longleftrightarrow>
     (if a < b then True else if b < a then False else m < n)"
| "LedgerEntryIdCmp (DataKey a s) (DataKey b t) \<longleftrightarrow>
     (if a < b then True else if b < a then False else s < t)"
| "LedgerEntryIdCmp k l \<longleftrightarrow> keyType k < keyType l"

definition entryId :: "BucketEntry \<Rightarrow> LedgerKey" where
  "entryId e = (case e of LIVEENTRY le \<Rightarrow> LedgerEntryKey le | DEADENTRY k \<Rightarrow> k)"

definition BucketEntryIdCmp :: "BucketEntry \<Rightarrow> BucketEntry \<Rightarrow> bool" where
  "BucketEntryIdCmp a b = LedgerEntryIdCmp (entryId a) (entryId b)"

text \<open>The comparison is a linear order on keys.\<close>

definition keyRank :: "LedgerKey \<Rightarrow> nat \<times> AccountID \<times> (nat \<times> u8 list \<times> AccountID) \<times> u64 \<times> string" where
  "keyRank k = (case k of
       AccountKey a \<Rightarrow> (0, a, (0, [], 0), 0, [])
     | TrustLineKey a x \<Rightarrow> (1, a, assetOrder x, 0, [])
     | OfferKey a n \<Rightarrow> (2, a, (0, [], 0), n, [])
     | DataKey a s \<Rightarrow> (3, a, (0, [], 0), 0, s))"

lemma assetOrder_inj: "assetOrder a = assetOrder b \<Longrightarrow> a = b"
  by (cases a; cases b) (auto simp: assetOrder_def)

lemma keyRank_inj: "keyRank a = keyRank b \<Longrightarrow> a = b"
  by (cases a; cases b) (auto simp: keyRank_def dest: assetOrder_inj)

instantiation LedgerKey :: linorder
begin

definition less_eq_LedgerKey :: "LedgerKey \<Rightarrow> LedgerKey \<Rightarrow> bool" where
  "a \<le> b \<longleftrightarrow> keyRank a \<le> keyRank b"

definition less_LedgerKey :: "LedgerKey \<Rightarrow> LedgerKey \<Rightarrow> bool" where
  "a < b \<longleftrightarrow> keyRank a < keyRank b"

instance
  by intro_classes (auto simp: less_eq_LedgerKey_def less_LedgerKey_def intro: keyRank_inj)

end

lemma LedgerEntryIdCmp_less [simp]: "LedgerEntryIdCmp k l \<longleftrightarrow> k < l"
  by (cases k; cases l)
    (auto simp: less_LedgerKey_def keyRank_def keyType_def less_prod_simp)

lemma BucketEntryIdCmp_less [simp]: "BucketEntryIdCmp a b \<longleftrightarrow> entryId a < entryId b"
  by (simp add: BucketEntryIdCmp_def)

definition isDead :: "BucketEntry \<Rightarrow> bool" where
  "isDead e = (case e of LIVEENTRY _ \<Rightarrow> False | DEADENTRY _ \<Rightarrow> True)"

subsection \<open>Writing a bucket\<close>

text \<open>A \<^verbatim>\<open>BucketOutputIterator\<close> holds back the last entry, which one of the same key replaces.\<close>

record OutputIterator =
  out_written :: "BucketEntry list"
  out_buf :: "BucketEntry option"
  out_keepDeadEntries :: bool

definition newOutput :: "bool \<Rightarrow> OutputIterator" where
  "newOutput keepDeadEntries = \<lparr>out_written = [], out_buf = None, out_keepDeadEntries = keepDeadEntries\<rparr>"

definition outPut :: "BucketEntry \<Rightarrow> OutputIterator \<Rightarrow> cpp_error + OutputIterator" where
  "outPut e out =
     (if \<not> out_keepDeadEntries out \<and> isDead e then Inr out
      else case out_buf out of
        None \<Rightarrow> Inr (out\<lparr>out_buf := Some e\<rparr>)
      | Some b \<Rightarrow>
          bindE (ensureE (\<not> BucketEntryIdCmp e b) AssertionFailed) (\<lambda>_.
          Inr (if BucketEntryIdCmp b e then out\<lparr>out_written := out_written out @ [b], out_buf := Some e\<rparr>
               else out\<lparr>out_buf := Some e\<rparr>)))"

definition outBucket :: "OutputIterator \<Rightarrow> Bucket" where
  "outBucket out = out_written out @ (case out_buf out of None \<Rightarrow> [] | Some b \<Rightarrow> [b])"

subsection \<open>Merging\<close>

text \<open>The loop over the shadow iterators: each is moved up to the entry; the first one that stands at the
  entry's key ends the loop, and those after it stay where they are. The flag tells that the entry is
  shadowed.\<close>

fun advanceShadows :: "BucketEntry \<Rightarrow> Bucket list \<Rightarrow> bool \<times> Bucket list" where
  "advanceShadows entry [] = (False, [])"
| "advanceShadows entry (si # rest) =
     (case dropWhile (\<lambda>x. BucketEntryIdCmp x entry) si of
        [] \<Rightarrow> (case advanceShadows entry rest of (shadowed, rest') \<Rightarrow> (shadowed, [] # rest'))
      | x # xs \<Rightarrow>
          if \<not> BucketEntryIdCmp entry x then (True, (x # xs) # rest)
          else (case advanceShadows entry rest of (shadowed, rest') \<Rightarrow> (shadowed, (x # xs) # rest')))"

definition maybePut :: "OutputIterator \<Rightarrow> BucketEntry \<Rightarrow> Bucket list \<Rightarrow> cpp_error + OutputIterator \<times> Bucket list" where
  "maybePut out entry shadows = (case advanceShadows entry shadows of (shadowed, shadows') \<Rightarrow>
     if shadowed then Inr (out, shadows')
     else bindE (outPut entry out) (\<lambda>out'. Inr (out', shadows')))"

fun mergeLoop :: "OutputIterator \<Rightarrow> Bucket list \<Rightarrow> Bucket \<Rightarrow> Bucket \<Rightarrow> cpp_error + OutputIterator" where
  "mergeLoop out shadows [] [] = Inr out"
| "mergeLoop out shadows (oi # os) [] =
     bindE (maybePut out oi shadows) (\<lambda>(out, shadows). mergeLoop out shadows os [])"
| "mergeLoop out shadows [] (ni # ns) =
     bindE (maybePut out ni shadows) (\<lambda>(out, shadows). mergeLoop out shadows [] ns)"
| "mergeLoop out shadows (oi # os) (ni # ns) =
     (if BucketEntryIdCmp oi ni
      then bindE (maybePut out oi shadows) (\<lambda>(out, shadows). mergeLoop out shadows os (ni # ns))
      else if BucketEntryIdCmp ni oi
      then bindE (maybePut out ni shadows) (\<lambda>(out, shadows). mergeLoop out shadows (oi # os) ns)
      else bindE (maybePut out ni shadows) (\<lambda>(out, shadows). mergeLoop out shadows os ns))"

definition mergeBuckets :: "Bucket \<Rightarrow> Bucket \<Rightarrow> Bucket list \<Rightarrow> bool \<Rightarrow> cpp_error + Bucket" where
  "mergeBuckets oldBucket newBucket shadows keepDeadEntries =
     bindE (mergeLoop (newOutput keepDeadEntries) shadows oldBucket newBucket) (\<lambda>out. Inr (outBucket out))"

subsection \<open>A fresh bucket\<close>

definition convertLive :: "LedgerEntry list \<Rightarrow> Bucket" where
  "convertLive liveEntries = sort_key entryId (map LIVEENTRY liveEntries)"

definition convertDead :: "LedgerKey list \<Rightarrow> Bucket" where
  "convertDead deadEntries = sort_key entryId (map DEADENTRY deadEntries)"

fun putAll :: "BucketEntry list \<Rightarrow> OutputIterator \<Rightarrow> cpp_error + OutputIterator" where
  "putAll [] out = Inr out"
| "putAll (e # es) out = bindE (outPut e out) (putAll es)"

definition freshBucket :: "LedgerEntry list \<Rightarrow> LedgerKey list \<Rightarrow> cpp_error + Bucket" where
  "freshBucket liveEntries deadEntries =
     bindE (putAll (convertLive liveEntries) (newOutput True)) (\<lambda>liveOut.
     bindE (putAll (convertDead deadEntries) (newOutput True)) (\<lambda>deadOut.
     mergeBuckets (outBucket liveOut) (outBucket deadOut) [] True))"

definition containsBucketIdentity :: "Bucket \<Rightarrow> BucketEntry \<Rightarrow> bool" where
  "containsBucketIdentity b e = list_ex (\<lambda>x. \<not> (BucketEntryIdCmp x e \<or> BucketEntryIdCmp e x)) b"

definition countLiveAndDeadEntries :: "Bucket \<Rightarrow> nat \<times> nat" where
  "countLiveAndDeadEntries b =
     foldl (\<lambda>(live, dead) e. if isDead e then (live, dead + 1) else (live + 1, dead)) (0, 0) b"

subsection \<open>What merging computes\<close>

definition sortedBucket :: "Bucket \<Rightarrow> bool" where
  "sortedBucket b \<longleftrightarrow> sorted_wrt (<) (map entryId b)"

definition lookupBucket :: "Bucket \<Rightarrow> LedgerKey \<Rightarrow> BucketEntry option" where
  "lookupBucket b k = map_of (map (\<lambda>e. (entryId e, e)) b) k"

abbreviation keysOf :: "Bucket \<Rightarrow> LedgerKey set" where
  "keysOf b \<equiv> entryId ` set b"

lemma lookupBucket_None: "lookupBucket b k = None \<longleftrightarrow> k \<notin> keysOf b"
  by (auto simp: lookupBucket_def map_of_eq_None_iff image_image)

lemma lookupBucket_Some: "lookupBucket b k = Some e \<Longrightarrow> e \<in> set b \<and> entryId e = k"
  by (auto simp: lookupBucket_def dest: map_of_SomeD)

lemma lookupBucket_simps [simp]:
  "lookupBucket [] k = None"
  "lookupBucket (e # b) k = (if k = entryId e then Some e else lookupBucket b k)"
  by (auto simp: lookupBucket_def)

lemma lookupBucket_append:
  "lookupBucket (a @ b) k = (case lookupBucket a k of Some e \<Rightarrow> Some e | None \<Rightarrow> lookupBucket b k)"
  by (induction a) auto

lemma sortedBucket_Cons [simp]:
  "sortedBucket (e # b) \<longleftrightarrow> (\<forall>k \<in> keysOf b. entryId e < k) \<and> sortedBucket b"
  by (auto simp: sortedBucket_def)

lemma sortedBucket_Nil [simp]: "sortedBucket []"
  by (simp add: sortedBucket_def)

lemma sortedBucket_append:
  "sortedBucket (a @ b) \<longleftrightarrow> sortedBucket a \<and> sortedBucket b \<and> (\<forall>k \<in> keysOf a. \<forall>l \<in> keysOf b. k < l)"
  by (induction a) auto

text \<open>Moving the shadow iterators up to an entry of key \<open>k\<close> loses no key from \<open>k\<close> on.\<close>

lemma dropWhile_keys:
  assumes "sortedBucket s"
  shows "keysOf (dropWhile (\<lambda>x. entryId x < k) s) = {l \<in> keysOf s. k \<le> l}"
    and "sortedBucket (dropWhile (\<lambda>x. entryId x < k) s)"
  using assms by (induction s) (auto simp: not_less)

definition shadowKeys :: "Bucket list \<Rightarrow> LedgerKey set" where
  "shadowKeys ss = (\<Union>s \<in> set ss. keysOf s)"

lemma advanceShadows_spec:
  assumes "list_all sortedBucket ss"
  shows "fst (advanceShadows e ss) \<longleftrightarrow> entryId e \<in> shadowKeys ss"
    and "list_all sortedBucket (snd (advanceShadows e ss))"
    and "entryId e \<le> l \<Longrightarrow> l \<in> shadowKeys (snd (advanceShadows e ss)) \<longleftrightarrow> l \<in> shadowKeys ss"
proof -
  have "(fst (advanceShadows e ss) \<longleftrightarrow> entryId e \<in> shadowKeys ss)
    \<and> list_all sortedBucket (snd (advanceShadows e ss))
    \<and> (\<forall>l. entryId e \<le> l \<longrightarrow> (l \<in> shadowKeys (snd (advanceShadows e ss)) \<longleftrightarrow> l \<in> shadowKeys ss))"
    using assms
  proof (induction ss)
    case (Cons s ss)
    let ?d = "dropWhile (\<lambda>x. entryId x < entryId e) s"
    have s: "sortedBucket s" "list_all sortedBucket ss" using Cons.prems by auto
    note d = dropWhile_keys [OF s(1), of "entryId e"]
    obtain sh r where r: "advanceShadows e ss = (sh, r)" by fastforce
    note ih = Cons.IH [OF s(2), unfolded r fst_conv snd_conv]
    have in_s: "l \<in> keysOf ?d \<longleftrightarrow> l \<in> keysOf s" if "entryId e \<le> l" for l using d(1) that by auto
    have sk: "l \<in> shadowKeys (t # ts) \<longleftrightarrow> l \<in> keysOf t \<or> l \<in> shadowKeys ts" for l t ts
      by (auto simp: shadowKeys_def)
    show ?case
    proof (cases ?d)
      case Nil
      have eq: "advanceShadows e (s # ss) = (sh, [] # r)"
        by (simp only: advanceShadows.simps BucketEntryIdCmp_less Nil list.case r prod.case)
      have "l \<notin> keysOf s" if "entryId e \<le> l" for l using in_s [OF that] unfolding Nil by simp
      then show ?thesis unfolding eq fst_conv snd_conv using ih by (auto simp: sk)
    next
      case (Cons x xs)
      have x: "entryId x \<in> keysOf ?d" "sortedBucket (x # xs)" "entryId e \<le> entryId x"
        using Cons d by auto
      show ?thesis
      proof (cases "entryId e < entryId x")
        case False
        then have eq: "entryId x = entryId e" using x(3) by simp
        then have "entryId e \<in> keysOf s" using in_s x(1) by auto
        have a: "advanceShadows e (s # ss) = (True, (x # xs) # ss)"
          by (simp only: advanceShadows.simps BucketEntryIdCmp_less Cons list.case False not_False_eq_True if_True)
        show ?thesis unfolding a fst_conv snd_conv using \<open>entryId e \<in> keysOf s\<close> in_s [unfolded Cons] x(2) s(2)
          by (simp add: sk)
      next
        case True
        then have "entryId e \<notin> keysOf (x # xs)" using x(2) by auto
        then have "entryId e \<notin> keysOf s" using in_s [unfolded Cons] by blast
        have a: "advanceShadows e (s # ss) = (sh, (x # xs) # r)"
          by (simp only: advanceShadows.simps BucketEntryIdCmp_less Cons list.case True not_True_eq_False if_False
              r prod.case)
        show ?thesis unfolding a fst_conv snd_conv using \<open>entryId e \<notin> keysOf s\<close> in_s [unfolded Cons] x(2) ih
          by (simp add: sk)
      qed
    qed
  qed (simp add: shadowKeys_def)
  then show "fst (advanceShadows e ss) \<longleftrightarrow> entryId e \<in> shadowKeys ss"
    and "list_all sortedBucket (snd (advanceShadows e ss))"
    and "entryId e \<le> l \<Longrightarrow> l \<in> shadowKeys (snd (advanceShadows e ss)) \<longleftrightarrow> l \<in> shadowKeys ss"
    by blast+
qed

text \<open>The result of merging without shadows and with every entry kept.\<close>

fun mergeEntries :: "Bucket \<Rightarrow> Bucket \<Rightarrow> Bucket" where
  "mergeEntries os [] = os"
| "mergeEntries [] ns = ns"
| "mergeEntries (oi # os) (ni # ns) =
     (if entryId oi < entryId ni then oi # mergeEntries os (ni # ns)
      else if entryId ni < entryId oi then ni # mergeEntries (oi # os) ns
      else ni # mergeEntries os ns)"

lemma mergeEntries_Nil [simp]: "mergeEntries [] ns = ns"
  by (cases ns) auto

lemma mergeEntries_keys: "keysOf (mergeEntries os ns) = keysOf os \<union> keysOf ns"
  by (induction os ns rule: mergeEntries.induct) auto

lemma mergeEntries_sorted:
  "\<lbrakk>sortedBucket os; sortedBucket ns\<rbrakk> \<Longrightarrow> sortedBucket (mergeEntries os ns)"
  by (induction os ns rule: mergeEntries.induct) (auto simp: mergeEntries_keys intro: less_trans)

lemma mergeEntries_lookup:
  "\<lbrakk>sortedBucket os; sortedBucket ns\<rbrakk> \<Longrightarrow> lookupBucket (mergeEntries os ns) k =
     (case lookupBucket ns k of Some e \<Rightarrow> Some e | None \<Rightarrow> lookupBucket os k)"
proof (induction os ns rule: mergeEntries.induct)
  case (3 oi os ni ns)
  have n: "lookupBucket b l = None" if "\<forall>m \<in> keysOf b. l < m" for b l
    using that by (auto simp: lookupBucket_None)
  consider (old) "entryId oi < entryId ni" | (new) "entryId ni < entryId oi" | (same) "entryId oi = entryId ni"
    by fastforce
  then show ?case
  proof cases
    case old
    have "lookupBucket (ni # ns) (entryId oi) = None" using old 3(5) by (intro n) auto
    then show ?thesis using old 3 by (auto split: option.split)
  next
    case new
    then show ?thesis using 3 by (auto split: option.split)
  next
    case same
    then show ?thesis using 3 by (auto split: option.split)
  qed
qed (auto split: option.split)

lemma outPut_above:
  assumes "\<forall>k \<in> keysOf (outBucket out). k < entryId e"
  shows "\<exists>out'. outPut e out = Inr out' \<and> out_keepDeadEntries out' = out_keepDeadEntries out
    \<and> outBucket out' = outBucket out @ (if \<not> out_keepDeadEntries out \<and> isDead e then [] else [e])"
proof (cases "out_buf out")
  case None
  then show ?thesis by (simp add: outPut_def outBucket_def)
next
  case (Some b)
  then have "entryId b < entryId e" using assms by (simp add: outBucket_def)
  then show ?thesis using Some by (auto simp: outPut_def outBucket_def dest: less_not_sym)
qed

text \<open>The loop writes the entries of the merged list that are not shadowed, and no mark of an erased entry
  unless these are kept.\<close>

definition kept_entries :: "bool \<Rightarrow> LedgerKey set \<Rightarrow> Bucket \<Rightarrow> Bucket" where
  "kept_entries keepDead S b = filter (\<lambda>e. (keepDead \<or> \<not> isDead e) \<and> entryId e \<notin> S) b"

lemma maybePut_spec:
  assumes "list_all sortedBucket ss" "\<forall>k \<in> keysOf (outBucket out). k < entryId e"
  shows "\<exists>out' ss'. maybePut out e ss = Inr (out', ss') \<and> out_keepDeadEntries out' = out_keepDeadEntries out
    \<and> outBucket out' = outBucket out @ kept_entries (out_keepDeadEntries out) (shadowKeys ss) [e]
    \<and> list_all sortedBucket ss' \<and> (\<forall>l. entryId e \<le> l \<longrightarrow> (l \<in> shadowKeys ss' \<longleftrightarrow> l \<in> shadowKeys ss))"
proof -
  obtain sh ss' where a: "advanceShadows e ss = (sh, ss')" by fastforce
  note s = advanceShadows_spec [OF assms(1), of e, unfolded a fst_conv snd_conv]
  obtain out' where "outPut e out = Inr out'" "out_keepDeadEntries out' = out_keepDeadEntries out"
    "outBucket out' = outBucket out @ (if \<not> out_keepDeadEntries out \<and> isDead e then [] else [e])"
    using outPut_above [OF assms(2)] by blast
  then show ?thesis using s by (auto simp: maybePut_def a kept_entries_def)
qed

lemma kept_entries_shadow:
  assumes "\<And>l. l \<in> keysOf b \<Longrightarrow> l \<in> S \<longleftrightarrow> l \<in> T"
  shows "kept_entries d S b = kept_entries d T b"
  unfolding kept_entries_def by (rule filter_cong) (use assms in auto)

lemma kept_entries_Cons: "kept_entries d S (e # b) = kept_entries d S [e] @ kept_entries d S b"
  by (simp add: kept_entries_def)

lemma keysOf_kept: "keysOf (kept_entries d S b) \<subseteq> keysOf b"
  by (auto simp: kept_entries_def)

lemma mergeLoop_spec:
  assumes "sortedBucket os" "sortedBucket ns" "list_all sortedBucket ss"
    and "\<forall>k \<in> keysOf (outBucket out). \<forall>l \<in> keysOf os \<union> keysOf ns. k < l"
  shows "\<exists>out'. mergeLoop out ss os ns = Inr out'
    \<and> outBucket out' = outBucket out @ kept_entries (out_keepDeadEntries out) (shadowKeys ss) (mergeEntries os ns)"
  using assms
proof (induction "mergeEntries os ns" arbitrary: os ns ss out)
  case Nil
  then have "os = []" "ns = []" using mergeEntries_keys [of os ns] by auto
  then show ?case by (simp add: kept_entries_def)
next
  case (Cons e es)
  obtain os' ns' where s: "es = mergeEntries os' ns'" "sortedBucket os'" "sortedBucket ns'"
    and st: "mergeLoop out ss os ns = bindE (maybePut out e ss) (\<lambda>(out, ss). mergeLoop out ss os' ns')"
    and e: "entryId e \<in> keysOf os \<union> keysOf ns"
  proof (cases ns)
    case Nil
    then show ?thesis using Cons.hyps(2) Cons.prems(1) that [of "tl os" "[]"] by (cases os) auto
  next
    case (Cons n nr)
    show ?thesis
    proof (cases os)
      case Nil
      then show ?thesis using Cons "Cons.hyps"(2) "Cons.prems"(2) that [of "[]" nr] by simp
    next
      case p: (Cons p pr)
      show ?thesis using Cons p "Cons.hyps"(2) "Cons.prems"(1,2) that [of pr "n # nr"] that [of "p # pr" nr] that [of pr nr]
        by (auto split: if_splits)
    qed
  qed
  have sm: "sortedBucket (e # es)" unfolding Cons.hyps(2) by (rule mergeEntries_sorted) (use Cons.prems in auto)
  obtain out1 ss1 where m: "maybePut out e ss = Inr (out1, ss1)" "out_keepDeadEntries out1 = out_keepDeadEntries out"
    "outBucket out1 = outBucket out @ kept_entries (out_keepDeadEntries out) (shadowKeys ss) [e]"
    "list_all sortedBucket ss1" "\<And>l. entryId e \<le> l \<Longrightarrow> l \<in> shadowKeys ss1 \<longleftrightarrow> l \<in> shadowKeys ss"
    using maybePut_spec [OF Cons.prems(3), of out e] Cons.prems(4) e by blast
  have above: "\<forall>l \<in> keysOf os' \<union> keysOf ns'. entryId e < l"
    using sm s(1) mergeEntries_keys [of os' ns'] by simp
  have "\<forall>k \<in> keysOf (outBucket out1). \<forall>l \<in> keysOf os' \<union> keysOf ns'. k < l"
  proof (intro ballI)
    fix k l
    assume k: "k \<in> keysOf (outBucket out1)" and l: "l \<in> keysOf os' \<union> keysOf ns'"
    have "k \<in> keysOf (outBucket out) \<or> k = entryId e" using k m(3) keysOf_kept by fastforce
    then have "k \<le> entryId e" using Cons.prems(4) e by (blast intro: less_imp_le)
    then show "k < l" using above l by (blast intro: le_less_trans)
  qed
  from Cons.hyps(1) [OF s(1) s(2,3) m(4) this] obtain out2 where
    "mergeLoop out1 ss1 os' ns' = Inr out2"
    "outBucket out2 = outBucket out1 @ kept_entries (out_keepDeadEntries out1) (shadowKeys ss1) es"
    unfolding s(1) by blast
  moreover have "kept_entries d (shadowKeys ss1) es = kept_entries d (shadowKeys ss) es" for d
    by (rule kept_entries_shadow) (use m(5) sm in \<open>auto intro: less_imp_le\<close>)
  ultimately show ?case unfolding Cons.hyps(2) [symmetric]
    using st m(1-3) kept_entries_Cons [of _ _ e es] by auto
qed

lemma lookup_filter:
  "sortedBucket b \<Longrightarrow> lookupBucket (filter P b) k =
     (case lookupBucket b k of Some e \<Rightarrow> if P e then Some e else None | None \<Rightarrow> None)"
proof (induction b)
  case (Cons e b)
  have "lookupBucket b (entryId e) = None" using Cons.prems by (auto simp: lookupBucket_None)
  then show ?case using Cons by auto
qed simp

lemma sorted_filter: "sortedBucket b \<Longrightarrow> sortedBucket (filter P b)"
  by (induction b) auto

definition mergedLookup :: "Bucket \<Rightarrow> Bucket \<Rightarrow> LedgerKey set \<Rightarrow> bool \<Rightarrow> LedgerKey \<Rightarrow> BucketEntry option" where
  "mergedLookup old new S keepDead k =
     (if k \<in> S then None
      else case (case lookupBucket new k of Some e \<Rightarrow> Some e | None \<Rightarrow> lookupBucket old k) of
        Some e \<Rightarrow> if keepDead \<or> \<not> isDead e then Some e else None
      | None \<Rightarrow> None)"

lemma mergeBuckets_spec:
  assumes "sortedBucket old" "sortedBucket new" "list_all sortedBucket ss"
  shows "\<exists>b. mergeBuckets old new ss keepDead = Inr b \<and> sortedBucket b
    \<and> lookupBucket b = mergedLookup old new (shadowKeys ss) keepDead"
proof -
  obtain out where "mergeLoop (newOutput keepDead) ss old new = Inr out"
    "outBucket out = kept_entries keepDead (shadowKeys ss) (mergeEntries old new)"
    using mergeLoop_spec [OF assms, of "newOutput keepDead"] by (auto simp: newOutput_def outBucket_def)
  then have "mergeBuckets old new ss keepDead = Inr (kept_entries keepDead (shadowKeys ss) (mergeEntries old new))"
    by (simp add: mergeBuckets_def)
  moreover have "sortedBucket (mergeEntries old new)" using mergeEntries_sorted assms by blast
  ultimately show ?thesis
    by (auto simp: kept_entries_def sorted_filter lookup_filter mergeEntries_lookup [OF assms(1,2)] mergedLookup_def
        fun_eq_iff split: option.splits dest: lookupBucket_Some)
qed

lemma putAll_sorted:
  assumes "sortedBucket b" "\<forall>k \<in> keysOf (outBucket out). \<forall>l \<in> keysOf b. k < l" "out_keepDeadEntries out"
  shows "\<exists>out'. putAll b out = Inr out' \<and> outBucket out' = outBucket out @ b"
  using assms
proof (induction b arbitrary: out)
  case (Cons e b)
  obtain out1 where o: "outPut e out = Inr out1" "out_keepDeadEntries out1" "outBucket out1 = outBucket out @ [e]"
    using outPut_above [of out e] Cons.prems by auto
  have "\<forall>k \<in> keysOf (outBucket out1). \<forall>l \<in> keysOf b. k < l" using Cons.prems by (auto simp: o(3))
  from Cons.IH [OF _ this o(2)] Cons.prems(1) show ?case using o by auto
qed simp

lemma sortedBucket_sort: "distinct (map entryId b) \<Longrightarrow> sortedBucket (sort_key entryId b)"
  by (simp add: sortedBucket_def strict_sorted_iff distinct_map)

lemma fresh_spec:
  assumes "distinct (map LedgerEntryKey live)" "distinct dead"
  shows "\<exists>b. freshBucket live dead = Inr b \<and> sortedBucket b \<and>
    lookupBucket b k = (if k \<in> set dead then Some (DEADENTRY k)
      else map_option LIVEENTRY (map_of (map (\<lambda>e. (LedgerEntryKey e, e)) live) k))"
proof -
  have ids: "map entryId (map LIVEENTRY live) = map LedgerEntryKey live" "map entryId (map DEADENTRY dead) = dead"
    by (simp_all add: entryId_def comp_def)
  have sl: "sortedBucket (convertLive live)" unfolding convertLive_def
    by (rule sortedBucket_sort) (simp only: ids assms)
  have sd: "sortedBucket (convertDead dead)" unfolding convertDead_def
    by (rule sortedBucket_sort) (simp only: ids assms)
  have o: "\<exists>out. putAll b (newOutput True) = Inr out \<and> outBucket out = b" if "sortedBucket b" for b
    using putAll_sorted [OF that, of "newOutput True"] by (simp add: newOutput_def outBucket_def)
  obtain lo where lo: "putAll (convertLive live) (newOutput True) = Inr lo" "outBucket lo = convertLive live"
    using o [OF sl] by blast
  obtain d where d: "putAll (convertDead dead) (newOutput True) = Inr d" "outBucket d = convertDead dead"
    using o [OF sd] by blast
  obtain b where b: "mergeBuckets (convertLive live) (convertDead dead) [] True = Inr b" "sortedBucket b"
    "lookupBucket b = mergedLookup (convertLive live) (convertDead dead) (shadowKeys []) True"
    using mergeBuckets_spec [OF sl sd, of "[]" True] by auto
  have ld: "lookupBucket (convertDead dead) k = (if k \<in> set dead then Some (DEADENTRY k) else None)"
  proof (cases "lookupBucket (convertDead dead) k")
    case None
    then have "k \<notin> set dead" unfolding lookupBucket_None convertDead_def by (force simp: entryId_def image_iff)
    then show ?thesis using None by simp
  next
    case (Some e)
    then show ?thesis using lookupBucket_Some [OF Some] by (auto simp: convertDead_def entryId_def)
  qed
  have ll: "lookupBucket (convertLive live) k = map_option LIVEENTRY (map_of (map (\<lambda>e. (LedgerEntryKey e, e)) live) k)"
  proof (cases "lookupBucket (convertLive live) k")
    case None
    then have "k \<notin> LedgerEntryKey ` set live" unfolding lookupBucket_None convertLive_def
      by (force simp: entryId_def image_iff)
    then show ?thesis using None by (simp add: map_of_eq_None_iff image_image)
  next
    case (Some e)
    then obtain le where le: "e = LIVEENTRY le" "le \<in> set live" "LedgerEntryKey le = k"
      using lookupBucket_Some [OF Some] by (auto simp: convertLive_def entryId_def)
    have "map_of (map (\<lambda>e. (LedgerEntryKey e, e)) live) k = Some le"
      by (rule map_of_is_SomeI) (use assms(1) le in \<open>auto simp: comp_def\<close>)
    then show ?thesis using Some le by simp
  qed
  show ?thesis using lo d b ld ll
    by (auto simp: freshBucket_def mergedLookup_def shadowKeys_def split: option.split)
qed

text \<open>Merging in one pass computes what the definition by lookups says. On sorted buckets the merge succeeds
  and yields a sorted bucket, in which the entry of a key is the new bucket's if it has one and the old one's
  otherwise; keys that occur in a shadow are left out, and so are marks of erased entries unless they are
  kept. The iterators over the shadows only move forward and the first hit leaves the others behind, which
  loses nothing.\<close>

theorem merge_correct:
  assumes "sortedBucket old" and "sortedBucket new" and "list_all sortedBucket shadows"
  shows "\<exists>b. mergeBuckets old new shadows keepDead = Inr b \<and> sortedBucket b
    \<and> (\<forall>k. lookupBucket b k =
        (if \<exists>s \<in> set shadows. lookupBucket s k \<noteq> None then None
         else case (if lookupBucket new k \<noteq> None then lookupBucket new k else lookupBucket old k) of
           Some e \<Rightarrow> if keepDead \<or> \<not> isDead e then Some e else None
         | None \<Rightarrow> None))"
proof -
  have "(\<exists>s \<in> set shadows. lookupBucket s k \<noteq> None) \<longleftrightarrow> k \<in> shadowKeys shadows" for k
    unfolding lookupBucket_None shadowKeys_def by blast
  then show ?thesis using mergeBuckets_spec [OF assms, of keepDead]
    by (auto simp: mergedLookup_def split: option.split)
qed

definition ex_entry :: "AccountID \<Rightarrow> int \<Rightarrow> LedgerEntry" where
  "ex_entry a seq = \<lparr>le_lastModifiedLedgerSeq = seq, le_data = DATA \<lparr>de_accountID = a, de_dataName = [], de_dataValue = []\<rparr>\<rparr>"

theorem merge_correct_witness:
  "\<exists>b. mergeBuckets [LIVEENTRY (ex_entry 1 1), LIVEENTRY (ex_entry 2 1), LIVEENTRY (ex_entry 3 1)]
      [DEADENTRY (DataKey 1 []), LIVEENTRY (ex_entry 2 2)] [[LIVEENTRY (ex_entry 3 5)]] False = Inr b
    \<and> lookupBucket b (DataKey 1 []) = None \<and> lookupBucket b (DataKey 3 []) = None
    \<and> lookupBucket b (DataKey 2 []) = Some (LIVEENTRY (ex_entry 2 2))"
proof -
  have k: "entryId (LIVEENTRY (ex_entry a s)) = DataKey a []" for a s
    by (simp add: entryId_def ex_entry_def LedgerEntryKey_def)
  have lt: "DataKey a [] < DataKey b [] \<longleftrightarrow> a < b" for a b
    by (simp add: less_LedgerKey_def keyRank_def less_prod_simp)
  have "sortedBucket [LIVEENTRY (ex_entry 1 1), LIVEENTRY (ex_entry 2 1), LIVEENTRY (ex_entry 3 1)]"
    "sortedBucket [DEADENTRY (DataKey 1 []), LIVEENTRY (ex_entry 2 2)]"
    "list_all sortedBucket [[LIVEENTRY (ex_entry 3 5)]]"
    by (simp_all add: k lt entryId_def [of "DEADENTRY _"])
  from merge_correct [OF this, of False] show ?thesis
    by (auto simp: k entryId_def [of "DEADENTRY _"] isDead_def)
qed

end
