(* ===== verification/Bucket_List.thy ===== *)
theory Bucket_List
  imports Bucket
begin

section \<open>The bucket list (src/src/bucket/FutureBucket.cpp, src/src/bucket/BucketList.cpp)\<close>

text \<open>
  The bucket list keeps what changed in each range of ledgers in levels of growing size. A level has a current
  bucket, a snapshot that is being merged into the next level, and the merge into its own current bucket that
  runs in the background. The result of a merge depends only on its inputs, so a \<^verbatim>\<open>FutureBucket\<close> holds it
  from the start, with the flag \<open>fb_ready\<close> for the worker having finished. The hash of a bucket is the
  parameter \<open>h\<close>; a string of a hash is an optional hash, empty for none.
\<close>

subsection \<open>A merge in the background\<close>

datatype FutureState = FB_CLEAR | FB_HASH_OUTPUT | FB_HASH_INPUTS | FB_LIVE_OUTPUT | FB_LIVE_INPUTS

record FutureBucket =
  fb_state :: FutureState
  fb_inputCurr :: "Bucket option"
  fb_inputSnap :: "Bucket option"
  fb_inputShadows :: "Bucket list"
  fb_output :: "(cpp_error + Bucket) option"
  fb_ready :: bool
  fb_currHash :: "uint256 option"
  fb_snapHash :: "uint256 option"
  fb_shadowHashes :: "uint256 list"
  fb_outputHash :: "uint256 option"

definition clearFuture :: FutureBucket where
  "clearFuture = \<lparr>fb_state = FB_CLEAR, fb_inputCurr = None, fb_inputSnap = None, fb_inputShadows = [],
     fb_output = None, fb_ready = False, fb_currHash = None, fb_snapHash = None, fb_shadowHashes = [],
     fb_outputHash = None\<rparr>"

definition isLive :: "FutureBucket \<Rightarrow> bool" where
  "isLive fb \<longleftrightarrow> fb_state fb = FB_LIVE_INPUTS \<or> fb_state fb = FB_LIVE_OUTPUT"

definition isMerging :: "FutureBucket \<Rightarrow> bool" where
  "isMerging fb \<longleftrightarrow> fb_state fb = FB_LIVE_INPUTS"

definition hasHashes :: "FutureBucket \<Rightarrow> bool" where
  "hasHashes fb \<longleftrightarrow> fb_state fb = FB_HASH_INPUTS \<or> fb_state fb = FB_HASH_OUTPUT"

definition hashMatches :: "(Bucket \<Rightarrow> uint256) \<Rightarrow> Bucket option \<Rightarrow> uint256 option \<Rightarrow> bool" where
  "hashMatches h b hash \<longleftrightarrow> (case b of None \<Rightarrow> True | Some x \<Rightarrow> hash = Some (h x))"

text \<open>The assertions of \<^verbatim>\<open>checkHashesMatch\<close> and of \<^verbatim>\<open>checkState\<close>.\<close>

definition hashesMatch :: "(Bucket \<Rightarrow> uint256) \<Rightarrow> FutureBucket \<Rightarrow> bool" where
  "hashesMatch h fb \<longleftrightarrow>
     (fb_inputShadows fb \<noteq> [] \<longrightarrow> map h (fb_inputShadows fb) = fb_shadowHashes fb)
     \<and> hashMatches h (fb_inputSnap fb) (fb_snapHash fb) \<and> hashMatches h (fb_inputCurr fb) (fb_currHash fb)
     \<and> (case fb_output fb of Some (Inr b) \<Rightarrow> fb_ready fb \<and> fb_outputHash fb \<noteq> None \<longrightarrow> fb_outputHash fb = Some (h b)
        | _ \<Rightarrow> True)"

definition stateValid :: "(Bucket \<Rightarrow> uint256) \<Rightarrow> FutureBucket \<Rightarrow> bool" where
  "stateValid h fb \<longleftrightarrow> (case fb_state fb of
     FB_CLEAR \<Rightarrow> fb_inputShadows fb = [] \<and> fb_inputSnap fb = None \<and> fb_inputCurr fb = None \<and> fb_output fb = None
       \<and> fb_shadowHashes fb = [] \<and> fb_snapHash fb = None \<and> fb_currHash fb = None \<and> fb_outputHash fb = None
   | FB_LIVE_INPUTS \<Rightarrow> fb_inputSnap fb \<noteq> None \<and> fb_inputCurr fb \<noteq> None \<and> fb_output fb \<noteq> None
       \<and> fb_outputHash fb = None \<and> hashesMatch h fb
   | FB_LIVE_OUTPUT \<Rightarrow> fb_ready fb \<and> fb_output fb \<noteq> None \<and> fb_outputHash fb \<noteq> None \<and> hashesMatch h fb
   | FB_HASH_INPUTS \<Rightarrow> fb_inputSnap fb = None \<and> fb_inputCurr fb = None \<and> fb_output fb = None
       \<and> fb_snapHash fb \<noteq> None \<and> fb_currHash fb \<noteq> None \<and> fb_outputHash fb = None
   | FB_HASH_OUTPUT \<Rightarrow> fb_inputSnap fb = None \<and> fb_inputCurr fb = None \<and> fb_output fb = None
       \<and> fb_snapHash fb = None \<and> fb_currHash fb = None \<and> fb_outputHash fb \<noteq> None)"

definition checkState :: "(Bucket \<Rightarrow> uint256) \<Rightarrow> FutureBucket \<Rightarrow> cpp_error + unit" where
  "checkState h fb = ensureE (stateValid h fb) AssertionFailed"

definition clearInputs :: "FutureBucket \<Rightarrow> FutureBucket" where
  "clearInputs fb = fb\<lparr>fb_inputShadows := [], fb_inputSnap := None, fb_inputCurr := None,
     fb_shadowHashes := [], fb_snapHash := None, fb_currHash := None\<rparr>"

definition startMerge :: "(Bucket \<Rightarrow> uint256) \<Rightarrow> bool \<Rightarrow> FutureBucket \<Rightarrow> cpp_error + FutureBucket" where
  "startMerge h keepDeadEntries fb =
     bindE (ensureE (fb_state fb = FB_LIVE_INPUTS) AssertionFailed) (\<lambda>_.
     case (fb_inputCurr fb, fb_inputSnap fb) of
       (Some cur, Some snap) \<Rightarrow>
         bindE (ensureE (fb_output fb = None) AssertionFailed) (\<lambda>_.
         let fb' = fb\<lparr>fb_output := Some (mergeBuckets cur snap (fb_inputShadows fb) keepDeadEntries),
                      fb_ready := False\<rparr>
         in bindE (checkState h fb') (\<lambda>_. Inr fb'))
     | _ \<Rightarrow> Inl AssertionFailed)"

definition newFutureBucket :: "(Bucket \<Rightarrow> uint256) \<Rightarrow> Bucket \<Rightarrow> Bucket \<Rightarrow> Bucket list \<Rightarrow> bool \<Rightarrow> cpp_error + FutureBucket" where
  "newFutureBucket h cur snap shadows keepDeadEntries =
     startMerge h keepDeadEntries (clearFuture\<lparr>fb_state := FB_LIVE_INPUTS, fb_inputCurr := Some cur,
       fb_inputSnap := Some snap, fb_inputShadows := shadows, fb_currHash := Some (h cur),
       fb_snapHash := Some (h snap), fb_shadowHashes := map h shadows\<rparr>)"

definition setLiveOutput :: "(Bucket \<Rightarrow> uint256) \<Rightarrow> Bucket \<Rightarrow> FutureBucket \<Rightarrow> cpp_error + FutureBucket" where
  "setLiveOutput h b fb =
     (let fb' = fb\<lparr>fb_state := FB_LIVE_OUTPUT, fb_outputHash := Some (h b), fb_output := Some (Inr b), fb_ready := True\<rparr>
      in bindE (checkState h fb') (\<lambda>_. Inr fb'))"

text \<open>Getting the result waits for the worker.\<close>

definition resolve :: "(Bucket \<Rightarrow> uint256) \<Rightarrow> FutureBucket \<Rightarrow> cpp_error + Bucket \<times> FutureBucket" where
  "resolve h fb =
     bindE (checkState h fb) (\<lambda>_.
     bindE (ensureE (isLive fb) AssertionFailed) (\<lambda>_.
     case fb_output fb of
       None \<Rightarrow> Inl NullDereference
     | Some res \<Rightarrow>
         bindE res (\<lambda>b.
         bindE (ensureE (fb_outputHash fb = None \<or> fb_outputHash fb = Some (h b)) AssertionFailed) (\<lambda>_.
         let fb' = (clearInputs fb)\<lparr>fb_ready := True, fb_outputHash := Some (h b), fb_state := FB_LIVE_OUTPUT\<rparr>
         in bindE (checkState h fb') (\<lambda>_. Inr (b, fb'))))))"

text \<open>What is written to the database and to archives, as the object that is read back; the text form is
  left out.\<close>

definition saveFuture :: "(Bucket \<Rightarrow> uint256) \<Rightarrow> FutureBucket \<Rightarrow> cpp_error + FutureBucket" where
  "saveFuture h fb =
     bindE (checkState h fb) (\<lambda>_. Inr (
       if fb_state fb = FB_LIVE_INPUTS \<or> fb_state fb = FB_HASH_INPUTS
       then clearFuture\<lparr>fb_state := FB_HASH_INPUTS, fb_currHash := fb_currHash fb, fb_snapHash := fb_snapHash fb,
              fb_shadowHashes := fb_shadowHashes fb\<rparr>
       else if fb_state fb = FB_LIVE_OUTPUT \<or> fb_state fb = FB_HASH_OUTPUT
       then clearFuture\<lparr>fb_state := FB_HASH_OUTPUT, fb_outputHash := fb_outputHash fb\<rparr>
       else clearFuture))"

text \<open>\<open>getBucket\<close> is \<^verbatim>\<open>BucketManager::getBucketByHash\<close>, which yields a null pointer for a hash it does not
  know.\<close>

fun getShadows :: "(uint256 \<Rightarrow> Bucket option) \<Rightarrow> uint256 list \<Rightarrow> cpp_error + Bucket list" where
  "getShadows getBucket [] = Inr []"
| "getShadows getBucket (x # xs) = (case getBucket x of
     None \<Rightarrow> Inl AssertionFailed
   | Some b \<Rightarrow> bindE (getShadows getBucket xs) (\<lambda>bs. Inr (b # bs)))"

definition makeLive :: "(Bucket \<Rightarrow> uint256) \<Rightarrow> (uint256 \<Rightarrow> Bucket option) \<Rightarrow> bool \<Rightarrow> FutureBucket \<Rightarrow> cpp_error + FutureBucket" where
  "makeLive h getBucket keepDeadEntries fb =
     bindE (checkState h fb) (\<lambda>_.
     bindE (ensureE (\<not> isLive fb \<and> hasHashes fb) AssertionFailed) (\<lambda>_.
     if fb_state fb = FB_HASH_OUTPUT then
       bindE (deref (fb_outputHash fb)) (\<lambda>x.
       bindE (deref (getBucket x)) (\<lambda>b. setLiveOutput h b fb))
     else
       bindE (deref (fb_currHash fb)) (\<lambda>x.
       bindE (deref (fb_snapHash fb)) (\<lambda>y.
       bindE (ensureE (fb_inputShadows fb = []) AssertionFailed) (\<lambda>_.
       bindE (getShadows getBucket (fb_shadowHashes fb)) (\<lambda>shadows.
         startMerge h keepDeadEntries (fb\<lparr>fb_inputCurr := getBucket x, fb_inputSnap := getBucket y,
           fb_inputShadows := shadows, fb_state := FB_LIVE_INPUTS\<rparr>)))))))"

definition getFutureHashes :: "FutureBucket \<Rightarrow> uint256 list" where
  "getFutureHashes fb =
     (case fb_currHash fb of None \<Rightarrow> [] | Some x \<Rightarrow> [x]) @ (case fb_snapHash fb of None \<Rightarrow> [] | Some x \<Rightarrow> [x])
     @ fb_shadowHashes fb @ (case fb_outputHash fb of None \<Rightarrow> [] | Some x \<Rightarrow> [x])"

subsection \<open>Levels\<close>

record BucketLevel =
  bl_curr :: Bucket
  bl_snap :: Bucket
  bl_next :: FutureBucket

definition kNumLevels :: nat where "kNumLevels = 11"

definition newLevel :: BucketLevel where
  "newLevel = \<lparr>bl_curr = [], bl_snap = [], bl_next = clearFuture\<rparr>"

definition newBucketList :: "BucketLevel list" where
  "newBucketList = replicate kNumLevels newLevel"

definition levelSize :: "nat \<Rightarrow> cpp_error + u32" where
  "levelSize level = bindE (ensureE (level < kNumLevels) AssertionFailed) (\<lambda>_. Inr (push_bit (2 * (level + 1)) 1))"

definition levelHalf :: "nat \<Rightarrow> cpp_error + u32" where
  "levelHalf level = bindE (levelSize level) (\<lambda>size. Inr (drop_bit 1 size))"

definition maskLedger :: "u32 \<Rightarrow> u32 \<Rightarrow> u32" where
  "maskLedger v m = v AND NOT (m - 1)"

definition levelShouldSpill :: "u32 \<Rightarrow> nat \<Rightarrow> cpp_error + bool" where
  "levelShouldSpill ledger level =
     (if level = kNumLevels - 1 then Inr False
      else bindE (levelHalf level) (\<lambda>half. bindE (levelSize level) (\<lambda>size.
        Inr (ledger = maskLedger ledger half \<or> ledger = maskLedger ledger size))))"

definition keepDeadEntries :: "nat \<Rightarrow> bool" where
  "keepDeadEntries level \<longleftrightarrow> level < kNumLevels - 1"

definition levelHash :: "(u8 list \<Rightarrow> uint256) \<Rightarrow> (uint256 \<Rightarrow> u8 list) \<Rightarrow> (Bucket \<Rightarrow> uint256) \<Rightarrow> BucketLevel \<Rightarrow> uint256" where
  "levelHash sha bytes h lev = sha (bytes (h (bl_curr lev)) @ bytes (h (bl_snap lev)))"

definition bucketListHash :: "(u8 list \<Rightarrow> uint256) \<Rightarrow> (uint256 \<Rightarrow> u8 list) \<Rightarrow> (Bucket \<Rightarrow> uint256) \<Rightarrow> BucketLevel list \<Rightarrow> uint256" where
  "bucketListHash sha bytes h levels = sha (concat (map (\<lambda>lev. bytes (levelHash sha bytes h lev)) levels))"

definition setCurr :: "Bucket \<Rightarrow> BucketLevel \<Rightarrow> BucketLevel" where
  "setCurr b lev = lev\<lparr>bl_next := clearFuture, bl_curr := b\<rparr>"

definition commitLevel :: "(Bucket \<Rightarrow> uint256) \<Rightarrow> BucketLevel \<Rightarrow> cpp_error + BucketLevel" where
  "commitLevel h lev =
     bindE (if isLive (bl_next lev) then bindE (resolve h (bl_next lev)) (\<lambda>(b, fb). Inr (setCurr b (lev\<lparr>bl_next := fb\<rparr>)))
            else Inr lev) (\<lambda>lev.
     bindE (ensureE (\<not> isMerging (bl_next lev)) AssertionFailed) (\<lambda>_. Inr lev))"

definition prepareLevel :: "(Bucket \<Rightarrow> uint256) \<Rightarrow> nat \<Rightarrow> u32 \<Rightarrow> Bucket \<Rightarrow> Bucket list \<Rightarrow> BucketLevel \<Rightarrow> cpp_error + BucketLevel" where
  "prepareLevel h level currLedger snap shadows lev =
     bindE (ensureE (\<not> isMerging (bl_next lev)) AssertionFailed) (\<lambda>_.
     bindE (if level \<noteq> 0 then
              bindE (levelHalf (level - 1)) (\<lambda>half.
              bindE (levelShouldSpill (currLedger + half) level) (\<lambda>spill.
                Inr (if spill then [] else bl_curr lev)))
            else Inr (bl_curr lev)) (\<lambda>cur.
     bindE (newFutureBucket h cur snap shadows (keepDeadEntries level)) (\<lambda>fb.
     bindE (ensureE (isMerging fb) AssertionFailed) (\<lambda>_. Inr (lev\<lparr>bl_next := fb\<rparr>)))))"

definition snapLevel :: "BucketLevel \<Rightarrow> Bucket \<times> BucketLevel" where
  "snapLevel lev = (bl_curr lev, lev\<lparr>bl_snap := bl_curr lev, bl_curr := []\<rparr>)"

subsection \<open>Adding a batch\<close>

definition allBuckets :: "BucketLevel list \<Rightarrow> Bucket list" where
  "allBuckets levels = concat (map (\<lambda>lev. [bl_curr lev, bl_snap lev]) levels)"

definition popTwo :: "Bucket list \<Rightarrow> cpp_error + Bucket list" where
  "popTwo shadows = bindE (ensureE (2 \<le> length shadows) AssertionFailed) (\<lambda>_. Inr (butlast (butlast shadows)))"

text \<open>The loop from the last level down to level 1; the argument is the level.\<close>

primrec spillLevels :: "(Bucket \<Rightarrow> uint256) \<Rightarrow> u32 \<Rightarrow> nat \<Rightarrow> Bucket list \<Rightarrow> BucketLevel list
    \<Rightarrow> cpp_error + Bucket list \<times> BucketLevel list" where
  "spillLevels h currLedger 0 shadows levels = Inr (shadows, levels)"
| "spillLevels h currLedger (Suc j) shadows levels =
     bindE (popTwo shadows) (\<lambda>shadows.
     bindE (levelShouldSpill currLedger j) (\<lambda>spill.
     if spill then
       (case snapLevel (levels ! j) of (snap, below) \<Rightarrow>
        let levels1 = levels[j := below] in
        bindE (commitLevel h (levels1 ! Suc j)) (\<lambda>lev.
        bindE (prepareLevel h (Suc j) currLedger snap shadows lev) (\<lambda>lev.
          spillLevels h currLedger j shadows (levels1[Suc j := lev]))))
     else spillLevels h currLedger j shadows levels))"

definition addBatch :: "(Bucket \<Rightarrow> uint256) \<Rightarrow> u32 \<Rightarrow> LedgerEntry list \<Rightarrow> LedgerKey list \<Rightarrow> BucketLevel list
    \<Rightarrow> cpp_error + BucketLevel list" where
  "addBatch h currLedger liveEntries deadEntries levels =
     bindE (ensureE (0 < currLedger) AssertionFailed) (\<lambda>_.
     bindE (popTwo (allBuckets levels)) (\<lambda>shadows.
     bindE (spillLevels h currLedger (length levels - 1) shadows levels) (\<lambda>(shadows, levels).
     bindE (ensureE (shadows = []) AssertionFailed) (\<lambda>_.
     bindE (freshBucket liveEntries deadEntries) (\<lambda>b.
     bindE (prepareLevel h 0 currLedger b shadows (levels ! 0)) (\<lambda>lev.
     bindE (commitLevel h lev) (\<lambda>lev. Inr (levels[0 := lev]))))))))"

fun restartFrom :: "(Bucket \<Rightarrow> uint256) \<Rightarrow> (uint256 \<Rightarrow> Bucket option) \<Rightarrow> nat \<Rightarrow> BucketLevel list \<Rightarrow> cpp_error + BucketLevel list" where
  "restartFrom h getBucket i [] = Inr []"
| "restartFrom h getBucket i (lev # levels) =
     bindE (if hasHashes (bl_next lev) \<and> \<not> isLive (bl_next lev)
            then bindE (makeLive h getBucket (keepDeadEntries i) (bl_next lev)) (\<lambda>fb. Inr (lev\<lparr>bl_next := fb\<rparr>))
            else Inr lev) (\<lambda>lev.
     bindE (restartFrom h getBucket (Suc i) levels) (\<lambda>levels. Inr (lev # levels)))"

definition restartMerges :: "(Bucket \<Rightarrow> uint256) \<Rightarrow> (uint256 \<Rightarrow> Bucket option) \<Rightarrow> BucketLevel list \<Rightarrow> cpp_error + BucketLevel list" where
  "restartMerges h getBucket levels = restartFrom h getBucket 0 levels"

subsection \<open>Saving the list and assuming a saved state\<close>

text \<open>The part of a history archive state that describes the bucket list, with the merges as they are saved.
  Reading the buckets of a state back is \<^verbatim>\<open>BucketManagerImpl::assumeState\<close>.\<close>

record HistoryStateBucket =
  hb_curr :: uint256
  hb_next :: FutureBucket
  hb_snap :: uint256

fun archiveState :: "(Bucket \<Rightarrow> uint256) \<Rightarrow> BucketLevel list \<Rightarrow> cpp_error + HistoryStateBucket list" where
  "archiveState h [] = Inr []"
| "archiveState h (lev # levels) =
     bindE (saveFuture h (bl_next lev)) (\<lambda>next.
     bindE (archiveState h levels) (\<lambda>bs.
     Inr (\<lparr>hb_curr = h (bl_curr lev), hb_next = next, hb_snap = h (bl_snap lev)\<rparr> # bs)))"

definition archiveBucketListHash :: "(u8 list \<Rightarrow> uint256) \<Rightarrow> (uint256 \<Rightarrow> u8 list) \<Rightarrow> HistoryStateBucket list \<Rightarrow> uint256" where
  "archiveBucketListHash sha bytes bs = sha (concat (map (\<lambda>b. bytes (sha (bytes (hb_curr b) @ bytes (hb_snap b)))) bs))"

fun assumeLevels :: "(uint256 \<Rightarrow> Bucket option) \<Rightarrow> HistoryStateBucket list \<Rightarrow> cpp_error + BucketLevel list" where
  "assumeLevels getBucket [] = Inr []"
| "assumeLevels getBucket (b # bs) =
     (case (getBucket (hb_curr b), getBucket (hb_snap b)) of
        (Some cur, Some snap) \<Rightarrow>
          bindE (assumeLevels getBucket bs) (\<lambda>levels.
          Inr (\<lparr>bl_curr = cur, bl_snap = snap, bl_next = hb_next b\<rparr> # levels))
      | _ \<Rightarrow> Inl (RuntimeError ''Missing bucket files while assuming saved BucketList state''))"

definition assumeState :: "(Bucket \<Rightarrow> uint256) \<Rightarrow> (uint256 \<Rightarrow> Bucket option) \<Rightarrow> HistoryStateBucket list \<Rightarrow> cpp_error + BucketLevel list" where
  "assumeState h getBucket bs = bindE (assumeLevels getBucket bs) (restartMerges h getBucket)"

definition futuresAllResolved :: "HistoryStateBucket list \<Rightarrow> bool" where
  "futuresAllResolved bs \<longleftrightarrow> list_all (\<lambda>b. \<not> isMerging (hb_next b)) bs"

end
