(* ===== verification/Bucket_Levels.thy ===== *)
theory Bucket_Levels
  imports Bucket_List
begin

section \<open>The bucket list holds the ledger\<close>

text \<open>
  The invariant of a bucket list between two ledgers, and what adding a batch does to the ledger it stands for:
  the newest entry of each key, unless it is the mark of an erased one. The delicate part is the merge running
  for a level: its inputs were taken when the level below was last emptied, and it left out what occurred in
  the newer levels then. The invariant says why its result may replace the level's current bucket the next
  time: the current bucket is still the input (or was meanwhile emptied as foreseen), and every key that was
  left out is still held by the newer levels.
\<close>

definition levelsLookup :: "BucketLevel list \<Rightarrow> LedgerKey \<Rightarrow> BucketEntry option" where
  "levelsLookup levels = lookupBucket (concat (allBuckets levels))"

definition liveOf :: "BucketEntry option \<Rightarrow> LedgerEntry option" where
  "liveOf e = (case e of Some (LIVEENTRY le) \<Rightarrow> Some le | _ \<Rightarrow> None)"

definition ledgerOf :: "BucketLevel list \<Rightarrow> LedgerKey \<Rightarrow> LedgerEntry option" where
  "ledgerOf levels k = liveOf (levelsLookup levels k)"

text \<open>The ledger after a batch.\<close>

definition applyBatch :: "LedgerEntry list \<Rightarrow> LedgerKey list \<Rightarrow> (LedgerKey \<Rightarrow> LedgerEntry option) \<Rightarrow> LedgerKey \<Rightarrow> LedgerEntry option" where
  "applyBatch live dead l k = (if k \<in> set dead then None
     else case map_of (map (\<lambda>e. (LedgerEntryKey e, e)) live) k of Some e \<Rightarrow> Some e | None \<Rightarrow> l k)"

subsection \<open>When a level spills\<close>

abbreviation halfOf :: "nat \<Rightarrow> nat" where
  "halfOf i \<equiv> 2 ^ (2 * i + 1)"

lemma upto_ten: "i < 11 \<Longrightarrow> i = 0 \<or> i = 1 \<or> i = 2 \<or> i = 3 \<or> i = 4 \<or> i = 5 \<or> i = 6 \<or> i = 7 \<or> i = 8 \<or> i = 9 \<or> i = (10 :: nat)"
  by presburger

lemma and_not_mask_iff:
  fixes w :: u32
  shows "w = w AND NOT (mask n) \<longleftrightarrow> w AND mask n = 0"
proof
  assume e: "w = w AND NOT (mask n)"
  show "w AND mask n = 0"
  proof (rule bit_eqI)
    fix m
    have "bit w m \<longleftrightarrow> bit (w AND NOT (mask n)) m" using e by simp
    then show "bit (w AND mask n) m \<longleftrightarrow> bit (0 :: u32) m" by (auto simp: bit_simps)
  qed
next
  assume e: "w AND mask n = 0"
  show "w = w AND NOT (mask n)"
  proof (rule bit_eqI)
    fix m
    have "bit (w AND mask n) m \<longleftrightarrow> bit (0 :: u32) m" using e by simp
    then show "bit w m \<longleftrightarrow> bit (w AND NOT (mask n)) m"
      by (auto simp: bit_simps dest: bit_imp_le_length)
  qed
qed

lemma maskLedger_dvd:
  fixes w :: u32
  shows "w = maskLedger w (2 ^ n) \<longleftrightarrow> 2 ^ n dvd unat w"
proof -
  have "w = maskLedger w (2 ^ n) \<longleftrightarrow> take_bit n w = 0"
    by (simp add: maskLedger_def mask_eq_exp_minus_1 [symmetric] take_bit_eq_mask and_not_mask_iff)
  also have "\<dots> \<longleftrightarrow> 2 ^ n dvd unat w"
  proof -
    have "take_bit n w = 0 \<longleftrightarrow> unat (take_bit n w) = 0" by (simp only: unsigned_eq_0_iff)
    also have "unat (take_bit n w) = unat w mod 2 ^ n" by (simp add: unsigned_take_bit_eq flip: take_bit_eq_mod)
    finally show ?thesis by (simp add: mod_eq_0_iff_dvd)
  qed
  finally show ?thesis .
qed

lemma levelSize_eq: "i < 11 \<Longrightarrow> levelSize i = Inr (2 ^ (2 * i + 2))"
  by (simp add: levelSize_def kNumLevels_def push_bit_eq_mult)

lemma levelHalf_eq:
  assumes "i < 11"
  shows "levelHalf i = Inr (2 ^ (2 * i + 1))"
proof -
  have "drop_bit (Suc 0) ((2 :: u32) ^ (2 * i + 2)) = 2 ^ (2 * i + 1)"
    using upto_ten [OF assms] by (elim disjE) simp_all
  then show ?thesis by (simp add: levelHalf_def levelSize_eq [OF assms])
qed

lemma levelShouldSpill_eq:
  assumes "i < 11"
  shows "levelShouldSpill w i = Inr (i \<noteq> 10 \<and> halfOf i dvd unat w)"
proof -
  have "2 ^ (2 * i + 2) dvd unat w \<Longrightarrow> halfOf i dvd unat w"
    by (rule dvd_trans [of _ "2 ^ (2 * i + 2)"]) (simp_all add: le_imp_power_dvd)
  then show ?thesis
    using assms by (auto simp: levelShouldSpill_def kNumLevels_def levelHalf_eq levelSize_eq maskLedger_dvd
        simp del: power_Suc)
qed

text \<open>The ledger at which level \<open>j\<close> is emptied next, after the ledger \<open>L\<close>.\<close>

definition nextSpill :: "nat \<Rightarrow> nat \<Rightarrow> nat" where
  "nextSpill j L = (L div halfOf j + 1) * halfOf j"

lemma nextSpill_at: "halfOf j dvd L \<Longrightarrow> nextSpill j L = L + halfOf j"
  by (auto simp: nextSpill_def algebra_simps dvd_div_mult_self)

lemma nextSpill_to:
  assumes "halfOf j dvd Suc L"
  shows "nextSpill j L = Suc L"
proof -
  have "Suc L mod halfOf j = 0" using assms by (simp add: dvd_eq_mod_eq_0)
  then have "Suc L div halfOf j = Suc (L div halfOf j)" by (simp add: div_Suc)
  then show ?thesis using dvd_div_mult_self [OF assms] by (simp add: nextSpill_def del: power_Suc)
qed

lemma nextSpill_other: "\<not> halfOf j dvd Suc L \<Longrightarrow> nextSpill j (Suc L) = nextSpill j L"
  by (simp add: nextSpill_def div_Suc dvd_eq_mod_eq_0)

text \<open>The input of the merge into level \<open>Suc j\<close> in place of its current bucket \<open>b\<close>.\<close>

definition mergeInput :: "nat \<Rightarrow> nat \<Rightarrow> Bucket \<Rightarrow> Bucket" where
  "mergeInput j L b = (if Suc j \<noteq> 10 \<and> halfOf (Suc j) dvd nextSpill j L then [] else b)"

lemma spill_wraps:
  fixes c :: u32
  assumes "j < 10" "halfOf j dvd unat c"
  shows "levelShouldSpill (c + 2 ^ (2 * j + 1)) (Suc j) = Inr (Suc j \<noteq> 10 \<and> halfOf (Suc j) dvd nextSpill j (unat c))"
proof -
  have "unat (c + 2 ^ (2 * j + 1)) = (unat c + halfOf j) mod 2 ^ 32"
  proof -
    have "unat ((2 :: u32) ^ (2 * j + 1)) = halfOf j"
    proof -
      have "j < 11" using assms(1) by simp
      from upto_ten [OF this] show ?thesis by (elim disjE) simp_all
    qed
    then show ?thesis by (simp add: unat_word_ariths)
  qed
  moreover have "halfOf (Suc j) dvd (2 :: nat) ^ 32" using assms(1) by (intro le_imp_power_dvd) simp
  ultimately have "halfOf (Suc j) dvd unat (c + 2 ^ (2 * j + 1)) \<longleftrightarrow> halfOf (Suc j) dvd unat c + halfOf j"
    by (metis dvd_mod_iff)
  then show ?thesis using assms by (simp add: levelShouldSpill_eq nextSpill_at)
qed

subsection \<open>A running merge and its result\<close>

definition mergeOf :: "(Bucket \<Rightarrow> uint256) \<Rightarrow> bool \<Rightarrow> Bucket \<Rightarrow> Bucket \<Rightarrow> Bucket list \<Rightarrow> FutureBucket \<Rightarrow> Bucket \<Rightarrow> bool" where
  "mergeOf h keepDead c s ss fb b \<longleftrightarrow>
     mergeBuckets c s ss keepDead = Inr b \<and> fb_output fb = Some (Inr b) \<and> stateValid h fb
     \<and> (fb_state fb = FB_LIVE_OUTPUT
        \<or> fb_state fb = FB_LIVE_INPUTS \<and> fb_inputCurr fb = Some c \<and> fb_inputSnap fb = Some s
          \<and> fb_inputShadows fb = ss \<and> fb_shadowHashes fb = map h ss)"

lemma newFutureBucket_spec:
  assumes "mergeBuckets c s ss keepDead = Inr b"
  shows "\<exists>fb. newFutureBucket h c s ss keepDead = Inr fb \<and> isMerging fb \<and> mergeOf h keepDead c s ss fb b"
  using assms
  by (simp add: newFutureBucket_def startMerge_def clearFuture_def checkState_def stateValid_def hashesMatch_def
      hashMatches_def isMerging_def mergeOf_def Let_def ensureE_def)

lemma resolve_spec:
  assumes "mergeOf h keepDead c s ss fb b"
  shows "isLive fb \<and> (\<exists>fb'. resolve h fb = Inr (b, fb'))"
proof -
  have o: "fb_output fb = Some (Inr b)" "stateValid h fb" and st: "fb_state fb = FB_LIVE_OUTPUT \<or> fb_state fb = FB_LIVE_INPUTS"
    using assms by (auto simp: mergeOf_def)
  have hash: "fb_outputHash fb = None \<or> fb_outputHash fb = Some (h b)"
    using st o by (auto simp: stateValid_def hashesMatch_def)
  have live: "isLive fb" using st by (auto simp: isLive_def)
  have "stateValid h ((clearInputs fb)\<lparr>fb_ready := True, fb_outputHash := Some (h b), fb_state := FB_LIVE_OUTPUT\<rparr>)"
    using o(1) by (simp add: stateValid_def clearInputs_def hashesMatch_def hashMatches_def)
  then show ?thesis using o live hash by (simp add: resolve_def checkState_def Let_def ensureE_def)
qed

lemma clear_not_live [simp]: "\<not> isLive clearFuture" "\<not> isMerging clearFuture"
  by (simp_all add: isLive_def isMerging_def clearFuture_def)

subsection \<open>The invariant\<close>

text \<open>The keys that the levels before \<open>j\<close>, and level \<open>j\<close> in its current bucket, hold.\<close>

definition newerKeys :: "BucketLevel list \<Rightarrow> nat \<Rightarrow> LedgerKey set" where
  "newerKeys levels j =
     (\<Union>n \<in> {..<j}. keysOf (bl_curr (levels ! n)) \<union> keysOf (bl_snap (levels ! n))) \<union> keysOf (bl_curr (levels ! j))"

definition nextOk :: "(Bucket \<Rightarrow> uint256) \<Rightarrow> nat \<Rightarrow> BucketLevel list \<Rightarrow> nat \<Rightarrow> bool" where
  "nextOk h L levels j \<longleftrightarrow>
     bl_next (levels ! Suc j) = clearFuture \<and> bl_snap (levels ! j) = []
     \<or> (\<exists>ss b. mergeOf h (keepDeadEntries (Suc j)) (mergeInput j L (bl_curr (levels ! Suc j))) (bl_snap (levels ! j)) ss
              (bl_next (levels ! Suc j)) b
            \<and> list_all sortedBucket ss \<and> shadowKeys ss \<subseteq> newerKeys levels j)"

text \<open>Between two spills of the loop at ledger \<open>Suc L\<close>: the levels after \<open>m\<close> have been dealt with. Before
  the first spill \<open>m\<close> is 10.\<close>

definition levelsOk :: "(Bucket \<Rightarrow> uint256) \<Rightarrow> nat \<Rightarrow> nat \<Rightarrow> BucketLevel list \<Rightarrow> bool" where
  "levelsOk h L m levels \<longleftrightarrow>
     length levels = 11 \<and> list_all sortedBucket (allBuckets levels) \<and> bl_snap (levels ! 10) = []
     \<and> bl_next (levels ! 0) = clearFuture
     \<and> (\<forall>j < m. nextOk h L levels j) \<and> (\<forall>j. m \<le> j \<and> j < 10 \<longrightarrow> nextOk h (Suc L) levels j)
     \<and> (m < 10 \<and> halfOf m dvd Suc L \<longrightarrow> bl_curr (levels ! m) = [])"

definition bucketListOk :: "(Bucket \<Rightarrow> uint256) \<Rightarrow> nat \<Rightarrow> BucketLevel list \<Rightarrow> bool" where
  "bucketListOk h L levels \<longleftrightarrow> levelsOk h L 10 levels"

lemma sorted_levels:
  assumes "list_all sortedBucket (allBuckets levels)" "n < length levels"
  shows "sortedBucket (bl_curr (levels ! n))" "sortedBucket (bl_snap (levels ! n))"
  using assms by (auto simp: list_all_iff allBuckets_def)

lemma sorted_allBuckets_update:
  assumes "list_all sortedBucket (allBuckets levels)" "sortedBucket (bl_curr lev)" "sortedBucket (bl_snap lev)"
  shows "list_all sortedBucket (allBuckets (levels[n := lev]))"
proof -
  have "x = lev \<or> x \<in> set levels" if "x \<in> set (levels[n := lev])" for x
    using that set_update_subset_insert [of levels n lev] by auto
  then show ?thesis using assms unfolding list_all_iff allBuckets_def by fastforce
qed

lemma shadowKeys_take:
  assumes "j \<le> length levels"
  shows "shadowKeys (allBuckets (take j levels)) =
    (\<Union>n \<in> {..<j}. keysOf (bl_curr (levels ! n)) \<union> keysOf (bl_snap (levels ! n)))"
proof -
  have "set (take j levels) = (!) levels ` {..<j}"
    using nth_image [OF assms] by (simp add: atLeast0LessThan)
  then show ?thesis by (simp add: shadowKeys_def allBuckets_def)
qed

subsection \<open>Committing and preparing a level\<close>

text \<open>What has become of the current bucket \<open>c\<close> of a level when the snapshot \<open>s\<close> below has been merged in.\<close>

definition absorbed :: "bool \<Rightarrow> LedgerKey set \<Rightarrow> Bucket \<Rightarrow> Bucket \<Rightarrow> Bucket \<Rightarrow> bool" where
  "absorbed keepDead S c s d \<longleftrightarrow> sortedBucket d
     \<and> (s = [] \<and> d = c \<or> (\<exists>T \<subseteq> S. lookupBucket d = mergedLookup c s T keepDead))"

lemma absorbed_keys: "absorbed True S c s d \<Longrightarrow> keysOf c \<union> keysOf s \<subseteq> keysOf d \<union> S"
proof
  fix k
  assume a: "absorbed True S c s d" and k: "k \<in> keysOf c \<union> keysOf s"
  consider "s = []" "d = c" | T where "T \<subseteq> S" "lookupBucket d = mergedLookup c s T True"
    using a unfolding absorbed_def by blast
  then show "k \<in> keysOf d \<union> S"
  proof cases
    case 1
    then show ?thesis using k by simp
  next
    case 2
    have "lookupBucket s k \<noteq> None \<or> lookupBucket c k \<noteq> None" using k unfolding lookupBucket_None by blast
    then have "k \<in> T \<or> lookupBucket d k \<noteq> None" using 2 by (auto simp: mergedLookup_def split: option.split)
    then show ?thesis using 2 unfolding lookupBucket_None by blast
  qed
qed

lemma commitLevel_spec:
  assumes ok: "nextOk h L levels j" and sp: "halfOf j dvd Suc L"
    and e: "Suc j \<noteq> 10 \<and> halfOf (Suc j) dvd Suc L \<longrightarrow> bl_curr (levels ! Suc j) = []"
    and s: "sortedBucket (bl_curr (levels ! Suc j))" "sortedBucket (bl_snap (levels ! j))"
  shows "\<exists>lev. commitLevel h (levels ! Suc j) = Inr lev \<and> \<not> isMerging (bl_next lev)
    \<and> bl_snap lev = bl_snap (levels ! Suc j)
    \<and> absorbed (keepDeadEntries (Suc j)) (newerKeys levels j) (bl_curr (levels ! Suc j)) (bl_snap (levels ! j)) (bl_curr lev)"
proof -
  have c: "mergeInput j L (bl_curr (levels ! Suc j)) = bl_curr (levels ! Suc j)"
    using e by (auto simp: mergeInput_def nextSpill_to [OF sp])
  consider (none) "bl_next (levels ! Suc j) = clearFuture" "bl_snap (levels ! j) = []"
    | (merge) ss b where "mergeOf h (keepDeadEntries (Suc j)) (bl_curr (levels ! Suc j)) (bl_snap (levels ! j)) ss
              (bl_next (levels ! Suc j)) b" "list_all sortedBucket ss" "shadowKeys ss \<subseteq> newerKeys levels j"
    using ok unfolding nextOk_def c by blast
  then show ?thesis
  proof cases
    case none
    then show ?thesis using s by (simp add: commitLevel_def absorbed_def ensureE_def)
  next
    case merge
    obtain fb where r: "isLive (bl_next (levels ! Suc j))" "resolve h (bl_next (levels ! Suc j)) = Inr (b, fb)"
      using resolve_spec [OF merge(1)] by blast
    have "mergeBuckets (bl_curr (levels ! Suc j)) (bl_snap (levels ! j)) ss (keepDeadEntries (Suc j)) = Inr b"
      using merge(1) by (simp add: mergeOf_def)
    then have "sortedBucket b \<and> lookupBucket b =
        mergedLookup (bl_curr (levels ! Suc j)) (bl_snap (levels ! j)) (shadowKeys ss) (keepDeadEntries (Suc j))"
      using mergeBuckets_spec [OF s merge(2), of "keepDeadEntries (Suc j)"] by auto
    then have "absorbed (keepDeadEntries (Suc j)) (newerKeys levels j) (bl_curr (levels ! Suc j)) (bl_snap (levels ! j)) b"
      using merge(3) unfolding absorbed_def by blast
    then show ?thesis using r by (simp add: commitLevel_def setCurr_def ensureE_def)
  qed
qed

lemma prepareLevel_spec:
  fixes c :: u32
  assumes "\<not> isMerging (bl_next lev)" "j < 10" "halfOf j dvd unat c"
    and s: "sortedBucket (bl_curr lev)" "sortedBucket snap" "list_all sortedBucket ss"
  shows "\<exists>fb b. prepareLevel h (Suc j) c snap ss lev = Inr (lev\<lparr>bl_next := fb\<rparr>)
    \<and> mergeOf h (keepDeadEntries (Suc j)) (mergeInput j (unat c) (bl_curr lev)) snap ss fb b"
proof -
  let ?c = "mergeInput j (unat c) (bl_curr lev)"
  have "sortedBucket ?c" using s(1) by (simp add: mergeInput_def)
  from mergeBuckets_spec [OF this s(2,3), of "keepDeadEntries (Suc j)"] obtain b where
    "mergeBuckets ?c snap ss (keepDeadEntries (Suc j)) = Inr b" by blast
  from newFutureBucket_spec [OF this, of h] obtain fb where
    fb: "newFutureBucket h ?c snap ss (keepDeadEntries (Suc j)) = Inr fb" "isMerging fb"
      "mergeOf h (keepDeadEntries (Suc j)) ?c snap ss fb b" by blast
  have sp: "levelShouldSpill (c + 2 ^ (2 * j + 1)) (Suc j) = Inr (Suc j \<noteq> 10 \<and> halfOf (Suc j) dvd nextSpill j (unat c))"
    by (rule spill_wraps) fact+
  have hf: "levelHalf j = Inr (2 ^ (2 * j + 1))" by (rule levelHalf_eq) (use assms(2) in simp)
  have c: "(if Suc j \<noteq> 0 then bindE (levelHalf (Suc j - 1)) (\<lambda>half. bindE (levelShouldSpill (c + half) (Suc j)) (\<lambda>spill.
      Inr (if spill then [] else bl_curr lev))) else Inr (bl_curr lev)) = Inr ?c"
    by (simp add: hf [simplified] sp [simplified] mergeInput_def)
  have "prepareLevel h (Suc j) c snap ss lev = Inr (lev\<lparr>bl_next := fb\<rparr>)"
    unfolding prepareLevel_def c using assms(1) fb(1,2) by (simp add: ensureE_def)
  then show ?thesis using fb(3) by blast
qed

subsection \<open>One spill\<close>

lemma nextOk_later:
  assumes "nextOk h L levels j" "\<not> halfOf j dvd Suc L"
  shows "nextOk h (Suc L) levels j"
  using assms unfolding nextOk_def mergeInput_def nextSpill_other [OF assms(2)] by blast

lemma nextOk_cong:
  assumes "nextOk h L levels j" "bl_next (levels' ! Suc j) = bl_next (levels ! Suc j)"
    "bl_snap (levels' ! j) = bl_snap (levels ! j)"
    "mergeInput j L (bl_curr (levels' ! Suc j)) = mergeInput j L (bl_curr (levels ! Suc j))"
    "newerKeys levels j \<subseteq> newerKeys levels' j"
  shows "nextOk h L levels' j"
  using assms(1,5) unfolding nextOk_def assms(2-4) by (meson subset_trans)

lemma lookup_buckets_append:
  "levelsLookup (ls @ ms) k = (case levelsLookup ls k of Some e \<Rightarrow> Some e | None \<Rightarrow> levelsLookup ms k)"
  unfolding levelsLookup_def allBuckets_def by (simp add: lookupBucket_append)

lemma lookup_buckets_Cons:
  "levelsLookup (lev # ls) k = (case lookupBucket (bl_curr lev) k of Some e \<Rightarrow> Some e
     | None \<Rightarrow> case lookupBucket (bl_snap lev) k of Some e \<Rightarrow> Some e | None \<Rightarrow> levelsLookup ls k)"
  by (simp add: levelsLookup_def allBuckets_def lookupBucket_append split: option.split)

lemma lookup_buckets_Nil: "levelsLookup [] k = None"
  by (simp add: levelsLookup_def allBuckets_def)

lemma lookup_None_keys: "levelsLookup ls k = None \<longleftrightarrow> k \<notin> shadowKeys (allBuckets ls)"
  unfolding levelsLookup_def lookupBucket_None shadowKeys_def by auto

text \<open>The lookup in two levels \<open>a\<close>, \<open>b\<close> and in those after a spill, \<open>a\<close>'s current bucket pushed down.\<close>

lemma spill_lookup:
  assumes ab: "absorbed keepDead (shadowKeys (allBuckets pre) \<union> keysOf (bl_curr a)) (bl_curr b) (bl_snap a) d"
    and kd: "keepDead \<or> bl_snap b = [] \<and> post = []"
    and n: "bl_curr a' = []" "bl_snap a' = bl_curr a" "bl_curr b' = d" "bl_snap b' = bl_snap b"
  shows "ledgerOf (pre @ a' # b' # post) k = ledgerOf (pre @ a # b # post) k"
proof -
  consider (same) "bl_snap a = []" "d = bl_curr b"
    | (merged) T where "T \<subseteq> shadowKeys (allBuckets pre) \<union> keysOf (bl_curr a)"
        "lookupBucket d = mergedLookup (bl_curr b) (bl_snap a) T keepDead"
    using ab unfolding absorbed_def by blast
  then show ?thesis
  proof cases
    case same
    then show ?thesis
      by (simp add: ledgerOf_def lookup_buckets_append lookup_buckets_Cons n split: option.split)
  next
    case merged
    show ?thesis
    proof (cases "levelsLookup pre k = None \<and> lookupBucket (bl_curr a) k = None")
      case False
      then show ?thesis
        by (auto simp: ledgerOf_def lookup_buckets_append lookup_buckets_Cons n split: option.split)
    next
      case True
      then have "k \<notin> T" using merged(1) unfolding lookup_None_keys lookupBucket_None by blast
      then have d: "lookupBucket d k = (case (case lookupBucket (bl_snap a) k of Some e \<Rightarrow> Some e
          | None \<Rightarrow> lookupBucket (bl_curr b) k) of
        Some e \<Rightarrow> if keepDead \<or> \<not> isDead e then Some e else None | None \<Rightarrow> None)"
        by (simp add: merged(2) mergedLookup_def)
      show ?thesis
      proof (cases keepDead)
        case keep: True
        show ?thesis using True
          by (auto simp: ledgerOf_def lookup_buckets_append lookup_buckets_Cons n d keep split: option.split)
      next
        case False
        then have l: "bl_snap b = []" "post = []" using kd by auto
        show ?thesis using True
          by (auto simp: ledgerOf_def lookup_buckets_append lookup_buckets_Cons lookup_buckets_Nil n d l liveOf_def
              isDead_def split: option.split BucketEntry.split)
      qed
    qed
  qed
qed

lemma newerKeys_deep:
  "\<lbrakk>n < m; k \<in> keysOf (bl_curr (levels ! n)) \<or> k \<in> keysOf (bl_snap (levels ! n))\<rbrakk> \<Longrightarrow> k \<in> newerKeys levels m"
  unfolding newerKeys_def by blast

lemma newerKeys_curr: "k \<in> keysOf (bl_curr (levels ! m)) \<Longrightarrow> k \<in> newerKeys levels m"
  unfolding newerKeys_def by blast

lemma newerKeys_mono:
  assumes old: "bl_curr (levels ! j) = A" "bl_snap (levels ! j) = B" "bl_curr (levels ! Suc j) = C"
    and new: "bl_snap (levels' ! j) = A" "bl_curr (levels' ! Suc j) = D"
      "bl_snap (levels' ! Suc j) = bl_snap (levels ! Suc j)"
    and rest: "\<And>n. n \<noteq> j \<Longrightarrow> n \<noteq> Suc j \<Longrightarrow> levels' ! n = levels ! n"
    and ab: "keysOf C \<union> keysOf B \<subseteq> keysOf D \<union> newerKeys levels j" and m: "j < m"
  shows "newerKeys levels m \<subseteq> newerKeys levels' m"
proof
  fix k
  assume "k \<in> newerKeys levels m"
  then obtain n where n: "n < m \<and> (k \<in> keysOf (bl_curr (levels ! n)) \<or> k \<in> keysOf (bl_snap (levels ! n)))
      \<or> n = m \<and> k \<in> keysOf (bl_curr (levels ! n))" unfolding newerKeys_def by blast
  have inA: "k \<in> newerKeys levels' m" if "k \<in> keysOf A" using that new(1) m unfolding newerKeys_def by blast
  have inJ: "k \<in> newerKeys levels' m" if "k \<in> newerKeys levels j"
  proof -
    from that consider i where "i < j" "k \<in> keysOf (bl_curr (levels ! i)) \<union> keysOf (bl_snap (levels ! i))" | "k \<in> keysOf A"
      unfolding newerKeys_def old(1) by blast
    then show ?thesis
    proof cases
      case (1 i)
      then have "k \<in> keysOf (bl_curr (levels' ! i)) \<union> keysOf (bl_snap (levels' ! i))" using rest [of i] by simp
      moreover have "i < m" using 1(1) m by simp
      ultimately show ?thesis unfolding newerKeys_def by blast
    next
      case 2
      then show ?thesis by (rule inA)
    qed
  qed
  have inD: "k \<in> newerKeys levels' m" if "k \<in> keysOf D"
  proof (cases "m = Suc j")
    case True
    then show ?thesis using that new(2) unfolding newerKeys_def by blast
  next
    case False
    then have "Suc j < m" using m by simp
    then show ?thesis using that new(2) unfolding newerKeys_def by blast
  qed
  show "k \<in> newerKeys levels' m"
  proof -
    consider "n \<noteq> j" "n \<noteq> Suc j" | "n = j" | "n = Suc j" by blast
    then show ?thesis
    proof cases
      case 1
      then show ?thesis using n rest [of n] newerKeys_deep [of n m k levels'] newerKeys_curr [of k levels' m] by metis
    next
      case 2
      then have "k \<in> keysOf A \<or> k \<in> keysOf B" using n old m by auto
      then show ?thesis using inA inD inJ ab by blast
    next
      case 3
      then consider "k \<in> keysOf C" | "Suc j < m" "k \<in> keysOf (bl_snap (levels ! Suc j))" using n old by auto
      then show ?thesis
      proof cases
        case 1
        then show ?thesis using inD inJ ab by blast
      next
        case 2
        then show ?thesis using new(3) unfolding newerKeys_def by (metis (no_types, lifting) UN_I Un_iff lessThan_iff)
      qed
    qed
  qed
qed

text \<open>The body of the loop for level \<open>Suc j\<close> at the ledger of number \<open>c\<close>.\<close>

definition afterSpill :: "nat \<Rightarrow> BucketLevel list \<Rightarrow> BucketLevel \<Rightarrow> BucketLevel list" where
  "afterSpill j levels lev =
     levels[j := (levels ! j)\<lparr>bl_snap := bl_curr (levels ! j), bl_curr := []\<rparr>, Suc j := lev]"

lemma afterSpill_nth:
  assumes "Suc j < length levels"
  shows "bl_curr (afterSpill j levels lev ! j) = []" "bl_snap (afterSpill j levels lev ! j) = bl_curr (levels ! j)"
    "bl_next (afterSpill j levels lev ! j) = bl_next (levels ! j)"
    "afterSpill j levels lev ! Suc j = lev"
    "n \<noteq> j \<Longrightarrow> n \<noteq> Suc j \<Longrightarrow> afterSpill j levels lev ! n = levels ! n"
    "length (afterSpill j levels lev) = length levels" "take j (afterSpill j levels lev) = take j levels"
  using assms by (simp_all add: afterSpill_def)

lemma afterSpill_ledger:
  assumes len: "length levels = 11" and j: "j < 10"
    and ab: "absorbed (keepDeadEntries (Suc j)) (newerKeys levels j) (bl_curr (levels ! Suc j)) (bl_snap (levels ! j)) (bl_curr lev)"
    and sn: "bl_snap lev = bl_snap (levels ! Suc j)" and deep: "bl_snap (levels ! 10) = []"
  shows "ledgerOf (afterSpill j levels lev) = ledgerOf levels"
proof
  fix k
  let ?a = "levels ! j" and ?b = "levels ! Suc j"
  let ?a' = "?a\<lparr>bl_snap := bl_curr ?a, bl_curr := []\<rparr>"
  have jl: "j < length levels" "Suc j < length levels" using j len by simp_all
  have split: "levels = take j levels @ ?a # ?b # drop (Suc (Suc j)) levels"
    using jl by (metis Cons_nth_drop_Suc append_take_drop_id)
  have split': "afterSpill j levels lev = take j levels @ ?a' # lev # drop (Suc (Suc j)) levels"
  proof -
    have "afterSpill j (take j levels @ ?a # ?b # drop (Suc (Suc j)) levels) lev
        = take j levels @ ?a' # lev # drop (Suc (Suc j)) levels"
      using jl by (simp add: afterSpill_def list_update_append nth_append)
    then show ?thesis using split by simp
  qed
  have "newerKeys levels j = shadowKeys (allBuckets (take j levels)) \<union> keysOf (bl_curr ?a)"
    using shadowKeys_take [of j levels] jl unfolding newerKeys_def by simp
  then have ab': "absorbed (keepDeadEntries (Suc j)) (shadowKeys (allBuckets (take j levels)) \<union> keysOf (bl_curr ?a))
      (bl_curr ?b) (bl_snap ?a) (bl_curr lev)" using ab by simp
  have kd: "keepDeadEntries (Suc j) \<or> bl_snap ?b = [] \<and> drop (Suc (Suc j)) levels = []"
  proof (cases "Suc j = 10")
    case True
    then show ?thesis using len deep by simp
  next
    case False
    then show ?thesis using j by (simp add: keepDeadEntries_def kNumLevels_def)
  qed
  have "ledgerOf (take j levels @ ?a' # lev # drop (Suc (Suc j)) levels) k
      = ledgerOf (take j levels @ ?a # ?b # drop (Suc (Suc j)) levels) k"
    by (rule spill_lookup [OF ab' kd]) (simp_all add: sn)
  then show "ledgerOf (afterSpill j levels lev) k = ledgerOf levels k"
    using split split' by simp
qed

lemma afterSpill_newer:
  assumes len: "length levels = 11" and m: "j < m" "m < 10"
    and ab: "absorbed (keepDeadEntries (Suc j)) (newerKeys levels j) (bl_curr (levels ! Suc j)) (bl_snap (levels ! j)) (bl_curr lev)"
    and sn: "bl_snap lev = bl_snap (levels ! Suc j)"
  shows "newerKeys levels m \<subseteq> newerKeys (afterSpill j levels lev) m"
proof (rule newerKeys_mono [where A = "bl_curr (levels ! j)" and B = "bl_snap (levels ! j)"
      and C = "bl_curr (levels ! Suc j)" and D = "bl_curr lev" and j = j])
  have j: "Suc j < length levels" using len m by simp
  have "keepDeadEntries (Suc j)" using m by (simp add: keepDeadEntries_def kNumLevels_def)
  then show "keysOf (bl_curr (levels ! Suc j)) \<union> keysOf (bl_snap (levels ! j)) \<subseteq> keysOf (bl_curr lev) \<union> newerKeys levels j"
    using absorbed_keys ab by simp
  show "afterSpill j levels lev ! n = levels ! n" if "n \<noteq> j" "n \<noteq> Suc j" for n
    using afterSpill_nth(5) [OF j that] .
qed (use len m sn in \<open>simp_all add: afterSpill_nth\<close>)

lemma newerKeys_same:
  assumes "\<And>n. n \<le> m \<Longrightarrow> levels' ! n = levels ! n"
  shows "newerKeys levels' m = newerKeys levels m"
  unfolding newerKeys_def using assms by simp

lemma levelsOkD:
  assumes "levelsOk h L m levels"
  shows "length levels = 11" "list_all sortedBucket (allBuckets levels)" "bl_snap (levels ! 10) = []"
    "bl_next (levels ! 0) = clearFuture" "j < m \<Longrightarrow> nextOk h L levels j"
    "m \<le> j \<Longrightarrow> j < 10 \<Longrightarrow> nextOk h (Suc L) levels j"
    "m < 10 \<Longrightarrow> halfOf m dvd Suc L \<Longrightarrow> bl_curr (levels ! m) = []"
  using assms unfolding levelsOk_def by auto

lemma take_sorted:
  assumes "list_all sortedBucket (allBuckets levels)"
  shows "list_all sortedBucket (allBuckets (take j levels))"
proof -
  have "set (allBuckets (take j levels)) \<subseteq> set (allBuckets levels)"
    unfolding allBuckets_def using set_take_subset [of j levels] by fastforce
  then show ?thesis using assms unfolding list_all_iff by blast
qed

text \<open>The condition on every merge after a spill into level \<open>Suc j\<close>.\<close>

lemma afterSpill_next:
  assumes ok: "levelsOk h L (Suc j) levels" and j: "j < 10" and sp: "halfOf j dvd Suc L"
    and ab: "absorbed (keepDeadEntries (Suc j)) (newerKeys levels j) (bl_curr (levels ! Suc j)) (bl_snap (levels ! j)) (bl_curr lev)"
    and sn: "bl_snap lev = bl_snap (levels ! Suc j)"
    and mg: "mergeOf h (keepDeadEntries (Suc j)) (mergeInput j (Suc L) (bl_curr lev)) (bl_curr (levels ! j))
      (allBuckets (take j levels)) (bl_next lev) b"
  shows "i < j \<Longrightarrow> nextOk h L (afterSpill j levels lev) i"
    and "j \<le> i \<Longrightarrow> i < 10 \<Longrightarrow> nextOk h (Suc L) (afterSpill j levels lev) i"
proof -
  note D = levelsOkD [OF ok]
  have len: "Suc j < length levels" using D(1) j by simp
  note N = afterSpill_nth [OF len]
  show "nextOk h L (afterSpill j levels lev) i" if i: "i < j"
  proof (rule nextOk_cong [OF D(5)])
    show "i < Suc j" using i by simp
    show "mergeInput i L (bl_curr (afterSpill j levels lev ! Suc i)) = mergeInput i L (bl_curr (levels ! Suc i))"
    proof (cases "Suc i = j")
      case True
      have "halfOf i dvd halfOf j" using i by (intro le_imp_power_dvd) simp
      then have "halfOf i dvd Suc L" using sp by (rule dvd_trans)
      then show ?thesis using True sp j nextSpill_to [of i L] by (simp add: mergeInput_def)
    next
      case False
      then show ?thesis using N(5) [of "Suc i"] i by simp
    qed
    show "newerKeys levels i \<subseteq> newerKeys (afterSpill j levels lev) i"
      using newerKeys_same [of i "afterSpill j levels lev" levels] N(5) i by simp
    show "bl_next (afterSpill j levels lev ! Suc i) = bl_next (levels ! Suc i)"
      using N(3) N(5) [of "Suc i"] i by (cases "Suc i = j") auto
    show "bl_snap (afterSpill j levels lev ! i) = bl_snap (levels ! i)" using N(5) [of i] i by simp
  qed
  show "nextOk h (Suc L) (afterSpill j levels lev) i" if i: "j \<le> i" "i < 10"
  proof (cases "i = j")
    case True
    have sh: "shadowKeys (allBuckets (take j levels)) \<subseteq> newerKeys (afterSpill j levels lev) j"
      using shadowKeys_take [of j "afterSpill j levels lev"] N(6,7) len unfolding newerKeys_def by simp
    have mg': "mergeOf h (keepDeadEntries (Suc j)) (mergeInput j (Suc L) (bl_curr (afterSpill j levels lev ! Suc j)))
        (bl_snap (afterSpill j levels lev ! j)) (allBuckets (take j levels)) (bl_next (afterSpill j levels lev ! Suc j)) b"
      unfolding N(2,4) by (rule mg)
    show ?thesis unfolding True nextOk_def using mg' sh take_sorted [OF D(2)] by blast
  next
    case False
    show ?thesis
    proof (rule nextOk_cong [OF D(6)])
      show "newerKeys levels i \<subseteq> newerKeys (afterSpill j levels lev) i"
        by (rule afterSpill_newer [OF D(1) _ i(2) ab sn]) (use False i in simp)
      show "bl_snap (afterSpill j levels lev ! i) = bl_snap (levels ! i)"
        using N(4) N(5) [of i] False i sn by (cases "i = Suc j") auto
    qed (use False i N(5) [of "Suc i"] in auto)
  qed
qed

lemma spill_step:
  fixes c :: u32
  assumes ok: "levelsOk h L (Suc j) levels" and j: "j < 10" and c: "unat c = Suc L" and sp: "halfOf j dvd Suc L"
  shows "\<exists>lev lev2. commitLevel h (levels ! Suc j) = Inr lev
    \<and> prepareLevel h (Suc j) c (bl_curr (levels ! j)) (allBuckets (take j levels)) lev = Inr lev2
    \<and> levelsOk h L j (afterSpill j levels lev2) \<and> ledgerOf (afterSpill j levels lev2) = ledgerOf levels"
proof -
  note D = levelsOkD [OF ok]
  have len: "j < length levels" "Suc j < length levels" using D(1) j by simp_all
  note S = sorted_levels [OF D(2)]
  have "Suc j \<noteq> 10 \<and> halfOf (Suc j) dvd Suc L \<longrightarrow> bl_curr (levels ! Suc j) = []"
    using D(7) j by auto
  from commitLevel_spec [OF D(5) sp this S(1) [OF len(2)] S(2) [OF len(1)]] obtain lev where
    cm: "commitLevel h (levels ! Suc j) = Inr lev" "\<not> isMerging (bl_next lev)" "bl_snap lev = bl_snap (levels ! Suc j)"
    and ab: "absorbed (keepDeadEntries (Suc j)) (newerKeys levels j) (bl_curr (levels ! Suc j)) (bl_snap (levels ! j)) (bl_curr lev)"
    by auto
  have sl: "sortedBucket (bl_curr lev)" using ab by (simp add: absorbed_def)
  from prepareLevel_spec [OF cm(2) j _ sl S(1) [OF len(1)] take_sorted [OF D(2)], of c h j] sp c obtain fb b where
    pr: "prepareLevel h (Suc j) c (bl_curr (levels ! j)) (allBuckets (take j levels)) lev = Inr (lev\<lparr>bl_next := fb\<rparr>)"
    and mg: "mergeOf h (keepDeadEntries (Suc j)) (mergeInput j (Suc L) (bl_curr lev)) (bl_curr (levels ! j))
      (allBuckets (take j levels)) fb b" by auto
  let ?lev = "lev\<lparr>bl_next := fb\<rparr>"
  let ?l = "afterSpill j levels ?lev"
  have ab': "absorbed (keepDeadEntries (Suc j)) (newerKeys levels j) (bl_curr (levels ! Suc j)) (bl_snap (levels ! j)) (bl_curr ?lev)"
    and sn': "bl_snap ?lev = bl_snap (levels ! Suc j)" using ab cm(3) by simp_all
  have mg': "mergeOf h (keepDeadEntries (Suc j)) (mergeInput j (Suc L) (bl_curr ?lev)) (bl_curr (levels ! j))
      (allBuckets (take j levels)) (bl_next ?lev) b" using mg by simp
  note X = afterSpill_next [OF ok j sp ab' sn' mg']
  note N = afterSpill_nth [OF len(2), where lev = ?lev]
  have "list_all sortedBucket (allBuckets ?l)" unfolding afterSpill_def
    by (intro sorted_allBuckets_update D(2)) (simp_all add: S len sl cm(3))
  moreover have "bl_snap (?l ! 10) = []" using D(3) N(4) N(5) [of 10] sn' j by (cases "Suc j = 10") auto
  moreover have "bl_next (?l ! 0) = clearFuture" using D(4) N(3) N(5) [of 0] by (cases "j = 0") auto
  ultimately have "levelsOk h L j ?l" unfolding levelsOk_def using X N(1,6) D(1) by auto
  moreover have "ledgerOf ?l = ledgerOf levels" by (rule afterSpill_ledger [OF D(1) j ab' sn' D(3)])
  ultimately show ?thesis using cm(1) pr by blast
qed

lemma no_spill_step:
  assumes ok: "levelsOk h L (Suc j) levels" and j: "j < 10" and sp: "\<not> halfOf j dvd Suc L"
  shows "levelsOk h L j levels"
proof -
  note D = levelsOkD [OF ok]
  have "nextOk h (Suc L) levels i" if "j \<le> i" "i < 10" for i
    using that D(6) [of i] nextOk_later [OF D(5) sp] by (cases "i = j") auto
  then show ?thesis unfolding levelsOk_def using D sp by auto
qed

lemma popTwo_snoc: "popTwo (bs @ [x, y]) = Inr bs"
  by (simp add: popTwo_def ensureE_def butlast_append)

lemma popTwo_take:
  assumes "Suc j \<le> length levels"
  shows "popTwo (allBuckets (take (Suc j) levels)) = Inr (allBuckets (take j levels))"
  using assms by (simp add: allBuckets_def take_Suc_conv_app_nth popTwo_snoc)

lemma spillLevels_spec:
  fixes c :: u32
  assumes "levelsOk h L m levels" "m \<le> 10" "unat c = Suc L"
  shows "\<exists>levels'. spillLevels h c m (allBuckets (take m levels)) levels = Inr ([], levels')
    \<and> levelsOk h L 0 levels' \<and> ledgerOf levels' = ledgerOf levels"
  using assms
proof (induction m arbitrary: levels)
  case 0
  then show ?case by (simp add: allBuckets_def)
next
  case (Suc j)
  have j: "j < 10" using Suc.prems(2) by simp
  have len: "length levels = 11" using levelsOkD(1) [OF Suc.prems(1)] .
  have pop: "popTwo (allBuckets (take (Suc j) levels)) = Inr (allBuckets (take j levels))"
    by (rule popTwo_take) (use len j in simp)
  have spl: "levelShouldSpill c j = Inr (halfOf j dvd Suc L)"
    using levelShouldSpill_eq [of j c] j Suc.prems(3) by simp
  show ?case
  proof (cases "halfOf j dvd Suc L")
    case False
    from Suc.IH [OF no_spill_step [OF Suc.prems(1) j False] _ Suc.prems(3)] j show ?thesis
      using False by (simp add: pop spl)
  next
    case True
    from spill_step [OF Suc.prems(1) j Suc.prems(3) True] obtain lev lev2 where
      e: "commitLevel h (levels ! Suc j) = Inr lev"
        "prepareLevel h (Suc j) c (bl_curr (levels ! j)) (allBuckets (take j levels)) lev = Inr lev2"
      and ok: "levelsOk h L j (afterSpill j levels lev2)" "ledgerOf (afterSpill j levels lev2) = ledgerOf levels"
      by blast
    have t: "take j (afterSpill j levels lev2) = take j levels" by (rule afterSpill_nth(7)) (use len j in simp)
    have "spillLevels h c (Suc j) (allBuckets (take (Suc j) levels)) levels
        = spillLevels h c j (allBuckets (take j levels)) (afterSpill j levels lev2)"
      using True by (simp add: pop spl snapLevel_def e Let_def afterSpill_def)
    then show ?thesis using Suc.IH [OF ok(1) _ Suc.prems(3)] j ok(2) by (simp add: t)
  qed
qed

subsection \<open>Adding a batch\<close>

lemma first_level:
  assumes "bl_next lev = clearFuture" "sortedBucket (bl_curr lev)" "sortedBucket b"
  shows "\<exists>lev1 lev2. prepareLevel h 0 c b [] lev = Inr lev1 \<and> commitLevel h lev1 = Inr lev2
    \<and> bl_next lev2 = clearFuture \<and> bl_snap lev2 = bl_snap lev \<and> sortedBucket (bl_curr lev2)
    \<and> lookupBucket (bl_curr lev2) = mergedLookup (bl_curr lev) b {} True"
proof -
  have kd: "keepDeadEntries 0" by (simp add: keepDeadEntries_def kNumLevels_def)
  obtain d where d: "mergeBuckets (bl_curr lev) b [] True = Inr d" "sortedBucket d"
    "lookupBucket d = mergedLookup (bl_curr lev) b {} True"
    using mergeBuckets_spec [OF assms(2,3), of "[]" True] by (auto simp: shadowKeys_def)
  from newFutureBucket_spec [OF d(1), of h] obtain fb where
    fb: "newFutureBucket h (bl_curr lev) b [] True = Inr fb" "isMerging fb" "mergeOf h True (bl_curr lev) b [] fb d" by blast
  from resolve_spec [OF fb(3)] obtain fb' where "isLive fb" "resolve h fb = Inr (d, fb')" by blast
  then have "commitLevel h (lev\<lparr>bl_next := fb\<rparr>) = Inr (setCurr d (lev\<lparr>bl_next := fb'\<rparr>))"
    by (simp add: commitLevel_def setCurr_def ensureE_def)
  moreover have "prepareLevel h 0 c b [] lev = Inr (lev\<lparr>bl_next := fb\<rparr>)"
    using assms(1) fb kd by (simp add: prepareLevel_def ensureE_def)
  ultimately show ?thesis using d by (simp add: setCurr_def)
qed

lemma first_level_ok:
  assumes ok: "levelsOk h L 0 levels" and n: "bl_next lev = clearFuture" "bl_snap lev = bl_snap (levels ! 0)"
    and s: "sortedBucket (bl_curr lev)" and k: "keysOf (bl_curr (levels ! 0)) \<subseteq> keysOf (bl_curr lev)"
  shows "bucketListOk h (Suc L) (levels[0 := lev])"
proof -
  note D = levelsOkD [OF ok]
  let ?l = "levels[0 := lev]"
  have z: "?l ! 0 = lev" "\<And>i. i \<noteq> 0 \<Longrightarrow> ?l ! i = levels ! i" using D(1) by auto
  have kc: "k \<in> keysOf (bl_curr (?l ! i))" if "k \<in> keysOf (bl_curr (levels ! i))" for k i
    using z(1) z(2) [of i] k that by (cases "i = 0") auto
  have ks: "bl_snap (?l ! i) = bl_snap (levels ! i)" for i
    using z(1) z(2) [of i] n(2) by (cases "i = 0") auto
  have mono: "newerKeys levels j \<subseteq> newerKeys ?l j" for j
  proof
    fix x
    assume "x \<in> newerKeys levels j"
    then consider i where "i < j" "x \<in> keysOf (bl_curr (levels ! i)) \<or> x \<in> keysOf (bl_snap (levels ! i))"
      | "x \<in> keysOf (bl_curr (levels ! j))" unfolding newerKeys_def by blast
    then show "x \<in> newerKeys ?l j"
    proof cases
      case (1 i)
      then show ?thesis using newerKeys_deep [of i j x ?l] kc [of x i] by (simp only: ks) blast
    next
      case 2
      then show ?thesis by (intro newerKeys_curr kc)
    qed
  qed
  have nx: "nextOk h (Suc L) ?l j" if "j < 10" for j
  proof (rule nextOk_cong [OF D(6) _ _ _ mono])
    show "bl_snap (?l ! j) = bl_snap (levels ! j)" using z n(2) by (cases "j = 0") simp_all
  qed (use that in simp_all)
  have "list_all sortedBucket (allBuckets ?l)"
    by (intro sorted_allBuckets_update D(2) s) (simp add: n(2) sorted_levels(2) [OF D(2)] D(1))
  then show ?thesis using D(1,3) z(1) n(1) nx unfolding bucketListOk_def levelsOk_def by auto
qed

lemma first_level_ledger:
  assumes ne: "levels \<noteq> []" and n: "bl_snap lev = bl_snap (levels ! 0)"
    and l: "lookupBucket (bl_curr lev) k = mergedLookup (bl_curr (levels ! 0)) b {} True k"
    and f: "lookupBucket b k = (if k \<in> set dead then Some (DEADENTRY k)
      else map_option LIVEENTRY (map_of (map (\<lambda>e. (LedgerEntryKey e, e)) live) k))"
  shows "ledgerOf (levels[0 := lev]) k = applyBatch live dead (ledgerOf levels) k"
proof -
  obtain l0 ls where ls: "levels = l0 # ls" using ne by (cases levels) auto
  have l': "lookupBucket (bl_curr lev) k = (case lookupBucket b k of Some e \<Rightarrow> Some e | None \<Rightarrow> lookupBucket (bl_curr l0) k)"
    using l by (simp add: mergedLookup_def ls split: option.split)
  show ?thesis using n
    by (auto simp: ls ledgerOf_def lookup_buckets_Cons l' f applyBatch_def liveOf_def split: option.split)
qed

lemma addBatch_spec:
  fixes c :: u32
  assumes ok: "bucketListOk h L levels" and c: "unat c = Suc L"
    and d: "distinct (map LedgerEntryKey live)" "distinct dead"
  shows "\<exists>levels'. addBatch h c live dead levels = Inr levels' \<and> bucketListOk h (Suc L) levels'
    \<and> ledgerOf levels' = applyBatch live dead (ledgerOf levels)"
proof -
  have ok': "levelsOk h L 10 levels" using ok by (simp add: bucketListOk_def)
  have len: "length levels = 11" using levelsOkD(1) [OF ok'] .
  have "take (Suc 10) levels = levels" using len by simp
  then have pop: "popTwo (allBuckets levels) = Inr (allBuckets (take 10 levels))"
    using popTwo_take [of 10 levels] len by simp
  from spillLevels_spec [OF ok' _ c] obtain levels1 where
    sp: "spillLevels h c 10 (allBuckets (take 10 levels)) levels = Inr ([], levels1)"
    and ok1: "levelsOk h L 0 levels1" "ledgerOf levels1 = ledgerOf levels" by auto
  note D = levelsOkD [OF ok1(1)]
  obtain b where b: "freshBucket live dead = Inr b" "sortedBucket b"
    using fresh_spec [OF d] by blast
  have lb: "lookupBucket b k = (if k \<in> set dead then Some (DEADENTRY k)
      else map_option LIVEENTRY (map_of (map (\<lambda>e. (LedgerEntryKey e, e)) live) k))" for k
    using fresh_spec [OF d, of k] b(1) by auto
  have s0: "sortedBucket (bl_curr (levels1 ! 0))" by (rule sorted_levels [OF D(2)]) (simp add: D(1))
  from first_level [OF D(4) s0 b(2)] obtain lev1 lev where
    lev: "prepareLevel h 0 c b [] (levels1 ! 0) = Inr lev1" "commitLevel h lev1 = Inr lev"
      "bl_next lev = clearFuture" "bl_snap lev = bl_snap (levels1 ! 0)" "sortedBucket (bl_curr lev)"
      "lookupBucket (bl_curr lev) = mergedLookup (bl_curr (levels1 ! 0)) b {} True" by blast
  have "keysOf (bl_curr (levels1 ! 0)) \<subseteq> keysOf (bl_curr lev)"
  proof
    fix k
    assume "k \<in> keysOf (bl_curr (levels1 ! 0))"
    then have "lookupBucket (bl_curr (levels1 ! 0)) k \<noteq> None" unfolding lookupBucket_None by blast
    then have "lookupBucket (bl_curr lev) k \<noteq> None" unfolding lev(6) by (simp add: mergedLookup_def split: option.split)
    then show "k \<in> keysOf (bl_curr lev)" unfolding lookupBucket_None by blast
  qed
  then have "bucketListOk h (Suc L) (levels1[0 := lev])" by (rule first_level_ok [OF ok1(1) lev(3-5)])
  moreover have "ledgerOf (levels1[0 := lev]) = applyBatch live dead (ledgerOf levels)"
  proof
    fix k
    have "levels1 \<noteq> []" using D(1) by auto
    from first_level_ledger [OF this lev(4) fun_cong [OF lev(6)] lb]
    show "ledgerOf (levels1[0 := lev]) k = applyBatch live dead (ledgerOf levels) k" by (simp add: ok1(2))
  qed
  moreover have "addBatch h c live dead levels = Inr (levels1[0 := lev])"
  proof -
    have "0 < c" using c by (simp add: word_less_nat_alt)
    then show ?thesis by (simp add: addBatch_def pop sp len b(1) lev(1,2) ensureE_def)
  qed
  ultimately show ?thesis by blast
qed

lemma new_bucketListOk: "bucketListOk h 0 newBucketList \<and> ledgerOf newBucketList = Map.empty"
proof -
  have n: "newBucketList ! i = newLevel" if "i < 11" for i
    using that by (simp add: newBucketList_def kNumLevels_def)
  have e: "x = []" if "x \<in> set (allBuckets newBucketList)" for x
    using that by (auto simp: newBucketList_def allBuckets_def newLevel_def kNumLevels_def)
  have "nextOk h 0 newBucketList j" if "j < 10" for j
    using that by (simp add: nextOk_def n newLevel_def)
  moreover have "list_all sortedBucket (allBuckets newBucketList)" unfolding list_all_iff
    using e sortedBucket_Nil by blast
  moreover have "ledgerOf newBucketList k = None" for k
  proof -
    have "concat (allBuckets newBucketList) = []" using e by simp
    then have "levelsLookup newBucketList k = None" unfolding levelsLookup_def by (simp only: lookupBucket_simps)
    then show ?thesis by (simp add: ledgerOf_def liveOf_def)
  qed
  ultimately show ?thesis
    by (auto simp: bucketListOk_def levelsOk_def n newLevel_def)
      (simp add: newBucketList_def kNumLevels_def)
qed

end
