(* ===== verification/Bucket_Restart.thy ===== *)
theory Bucket_Restart
  imports Bucket_Levels
begin

section \<open>Bucket lists across ledgers and restarts\<close>

text \<open>
  The bucket lists a node can come to hold: batches are added ledger by ledger, workers finish merges at any
  time, and the node may be stopped and started from the saved state, which restarts the merges from the hashes
  of their inputs. Theorem \<open>bucket_list_refines\<close> relates each of them to the ledger the batches make up;
  \<open>bucket_list_restart\<close> shows that a restart leaves no trace in the hashes of the ledgers to come.
\<close>

subsection \<open>A merge saved and restarted\<close>

text \<open>The buckets whose files a merge needs when it is restarted.\<close>

definition futureBuckets :: "FutureBucket \<Rightarrow> Bucket list" where
  "futureBuckets fb = (case fb_inputCurr fb of None \<Rightarrow> [] | Some b \<Rightarrow> [b]) @ (case fb_inputSnap fb of None \<Rightarrow> [] | Some b \<Rightarrow> [b])
     @ fb_inputShadows fb @ (if fb_state fb = FB_LIVE_OUTPUT then (case fb_output fb of Some (Inr b) \<Rightarrow> [b] | _ \<Rightarrow> []) else [])"

definition levelBuckets :: "BucketLevel \<Rightarrow> Bucket list" where
  "levelBuckets lev = [bl_curr lev, bl_snap lev] @ futureBuckets (bl_next lev)"

abbreviation findable :: "(Bucket \<Rightarrow> uint256) \<Rightarrow> (uint256 \<Rightarrow> Bucket option) \<Rightarrow> Bucket list \<Rightarrow> bool" where
  "findable h getBucket bs \<equiv> \<forall>b \<in> set bs. getBucket (h b) = Some b"

lemma getShadows_known: "findable h getBucket ss \<Longrightarrow> getShadows getBucket (map h ss) = Inr ss"
  by (induction ss) auto

lemma restart_merge:
  assumes m: "mergeOf h kd c s ss fb b" and k: "findable h getBucket (futureBuckets fb)"
  shows "\<exists>x fb'. saveFuture h fb = Inr x \<and> hasHashes x \<and> \<not> isLive x
    \<and> makeLive h getBucket kd x = Inr fb' \<and> mergeOf h kd c s ss fb' b"
proof -
  have mb: "mergeBuckets c s ss kd = Inr b" and o: "fb_output fb = Some (Inr b)" and v: "stateValid h fb"
    using m by (auto simp: mergeOf_def)
  consider (inputs) "fb_state fb = FB_LIVE_INPUTS" "fb_inputCurr fb = Some c" "fb_inputSnap fb = Some s"
      "fb_inputShadows fb = ss" "fb_shadowHashes fb = map h ss"
    | (result) "fb_state fb = FB_LIVE_OUTPUT" using m unfolding mergeOf_def by blast
  then show ?thesis
  proof cases
    case inputs
    let ?x = "clearFuture\<lparr>fb_state := FB_HASH_INPUTS, fb_currHash := Some (h c), fb_snapHash := Some (h s),
      fb_shadowHashes := map h ss\<rparr>"
    have hs: "fb_currHash fb = Some (h c)" "fb_snapHash fb = Some (h s)"
      using v inputs(1-3) by (simp_all add: stateValid_def hashesMatch_def hashMatches_def)
    have sv: "saveFuture h fb = Inr ?x"
      using v hs inputs(1,5) by (simp add: saveFuture_def checkState_def ensureE_def)
    have vx: "stateValid h ?x" by (simp add: stateValid_def clearFuture_def)
    have g: "getBucket (h c) = Some c" "getBucket (h s) = Some s" "getShadows getBucket (map h ss) = Inr ss"
      using k inputs by (auto simp: futureBuckets_def intro!: getShadows_known)
    let ?l = "?x\<lparr>fb_inputCurr := Some c, fb_inputSnap := Some s, fb_inputShadows := ss, fb_state := FB_LIVE_INPUTS\<rparr>"
    let ?f = "?l\<lparr>fb_output := Some (Inr b), fb_ready := False\<rparr>"
    have vf: "stateValid h ?f" by (simp add: stateValid_def clearFuture_def hashesMatch_def hashMatches_def)
    have "startMerge h kd ?l = Inr ?f"
      using vf by (simp add: startMerge_def clearFuture_def mb Let_def checkState_def ensureE_def)
    then have ml: "makeLive h getBucket kd ?x = Inr ?f"
      using vx g by (simp add: makeLive_def checkState_def ensureE_def isLive_def hasHashes_def clearFuture_def deref_def)
    have "mergeOf h kd c s ss ?f b" using vf mb by (simp add: mergeOf_def clearFuture_def)
    then show ?thesis using sv ml by (fastforce simp: hasHashes_def isLive_def)
  next
    case result
    let ?x = "clearFuture\<lparr>fb_state := FB_HASH_OUTPUT, fb_outputHash := Some (h b)\<rparr>"
    have "fb_outputHash fb = Some (h b)"
      using v result o by (auto simp: stateValid_def hashesMatch_def)
    then have sv: "saveFuture h fb = Inr ?x" using v result by (simp add: saveFuture_def checkState_def ensureE_def)
    have vx: "stateValid h ?x" by (simp add: stateValid_def clearFuture_def)
    have g: "getBucket (h b) = Some b" using k result o by (simp add: futureBuckets_def)
    let ?f = "?x\<lparr>fb_state := FB_LIVE_OUTPUT, fb_outputHash := Some (h b), fb_output := Some (Inr b), fb_ready := True\<rparr>"
    have vf: "stateValid h ?f" by (simp add: stateValid_def clearFuture_def hashesMatch_def hashMatches_def)
    then have "setLiveOutput h b ?x = Inr ?f"
      by (simp add: setLiveOutput_def Let_def checkState_def ensureE_def)
    then have ml: "makeLive h getBucket kd ?x = Inr ?f"
      using vx g by (simp add: makeLive_def checkState_def ensureE_def isLive_def hasHashes_def clearFuture_def deref_def)
    have "mergeOf h kd c s ss ?f b" using vf mb by (simp add: mergeOf_def)
    then show ?thesis using sv ml by (fastforce simp: hasHashes_def isLive_def)
  qed
qed

subsection \<open>Levels that differ in how far their merges are\<close>

definition sameLevel :: "(Bucket \<Rightarrow> uint256) \<Rightarrow> BucketLevel \<Rightarrow> BucketLevel \<Rightarrow> bool" where
  "sameLevel h lev lev' \<longleftrightarrow> bl_curr lev = bl_curr lev' \<and> bl_snap lev = bl_snap lev'
     \<and> (bl_next lev = bl_next lev'
        \<or> (\<exists>kd c s ss b. mergeOf h kd c s ss (bl_next lev) b \<and> mergeOf h kd c s ss (bl_next lev') b))"


definition startedLevel :: "(Bucket \<Rightarrow> uint256) \<Rightarrow> nat \<Rightarrow> BucketLevel \<Rightarrow> BucketLevel \<Rightarrow> bool" where
  "startedLevel h i lev lev' \<longleftrightarrow> bl_curr lev = bl_curr lev' \<and> bl_snap lev = bl_snap lev'
     \<and> (bl_next lev = clearFuture \<longrightarrow> bl_next lev' = clearFuture)
     \<and> (\<forall>c s ss b. mergeOf h (keepDeadEntries i) c s ss (bl_next lev) b
          \<longrightarrow> mergeOf h (keepDeadEntries i) c s ss (bl_next lev') b)"

lemma mergeOf_not_clear: "\<not> mergeOf h kd c s ss clearFuture b"
  by (simp add: mergeOf_def clearFuture_def)

lemma restart_level:
  assumes nx: "bl_next lev = clearFuture \<or> (\<exists>c s ss b. mergeOf h (keepDeadEntries i) c s ss (bl_next lev) b)"
    and k: "findable h getBucket (levelBuckets lev)"
  shows "\<exists>x fb. saveFuture h (bl_next lev) = Inr x \<and> \<not> isMerging x
    \<and> (if hasHashes x \<and> \<not> isLive x then bindE (makeLive h getBucket (keepDeadEntries i) x)
         (\<lambda>fb. Inr \<lparr>bl_curr = bl_curr lev, bl_snap = bl_snap lev, bl_next = fb\<rparr>)
       else Inr \<lparr>bl_curr = bl_curr lev, bl_snap = bl_snap lev, bl_next = x\<rparr>)
      = Inr \<lparr>bl_curr = bl_curr lev, bl_snap = bl_snap lev, bl_next = fb\<rparr>
    \<and> startedLevel h i lev \<lparr>bl_curr = bl_curr lev, bl_snap = bl_snap lev, bl_next = fb\<rparr>"
proof (cases "bl_next lev = clearFuture")
  case True
  have "saveFuture h clearFuture = Inr clearFuture"
    by (simp add: saveFuture_def clearFuture_def checkState_def stateValid_def ensureE_def)
  moreover have "\<not> hasHashes clearFuture" by (simp add: hasHashes_def clearFuture_def)
  ultimately show ?thesis using True
    by (simp add: startedLevel_def mergeOf_not_clear)
next
  case False
  then obtain c s ss b where m: "mergeOf h (keepDeadEntries i) c s ss (bl_next lev) b" using nx by blast
  have kn: "findable h getBucket (futureBuckets (bl_next lev))" using k by (simp add: levelBuckets_def)
  from restart_merge [OF m kn] obtain x fb where
    x: "saveFuture h (bl_next lev) = Inr x" "hasHashes x" "\<not> isLive x"
      "makeLive h getBucket (keepDeadEntries i) x = Inr fb" "mergeOf h (keepDeadEntries i) c s ss fb b" by blast
  have all: "mergeOf h (keepDeadEntries i) c' s' ss' fb b'" if "mergeOf h (keepDeadEntries i) c' s' ss' (bl_next lev) b'"
    for c' s' ss' b'
    using restart_merge [OF that kn] x(1,4) by auto
  have "\<not> isMerging x" using x(3) by (simp add: isLive_def isMerging_def)
  then show ?thesis using x False all by (simp add: startedLevel_def)
qed

lemma restart_levels:
  assumes "\<forall>n < length levels. bl_next (levels ! n) = clearFuture
      \<or> (\<exists>c s ss b. mergeOf h (keepDeadEntries (i + n)) c s ss (bl_next (levels ! n)) b)"
    and "\<forall>lev \<in> set levels. findable h getBucket (levelBuckets lev)"
  shows "\<exists>bs mid levels'. archiveState h levels = Inr bs \<and> futuresAllResolved bs
    \<and> assumeLevels getBucket bs = Inr mid \<and> restartFrom h getBucket i mid = Inr levels'
    \<and> map (\<lambda>b. (hb_curr b, hb_snap b)) bs = map (\<lambda>l. (h (bl_curr l), h (bl_snap l))) levels
    \<and> length levels' = length levels \<and> (\<forall>n < length levels. startedLevel h (i + n) (levels ! n) (levels' ! n))"
  using assms
proof (induction levels arbitrary: i)
  case (Cons lev levels)
  have nx: "bl_next lev = clearFuture \<or> (\<exists>c s ss b. mergeOf h (keepDeadEntries i) c s ss (bl_next lev) b)"
    using Cons.prems(1) by (metis add_0_right length_Cons nth_Cons_0 zero_less_Suc)
  have k0: "findable h getBucket (levelBuckets lev)" using Cons.prems(2) by simp
  from restart_level [OF nx k0] obtain x fb where
    x: "saveFuture h (bl_next lev) = Inr x" "\<not> isMerging x"
      "(if hasHashes x \<and> \<not> isLive x then bindE (makeLive h getBucket (keepDeadEntries i) x)
         (\<lambda>fb. Inr \<lparr>bl_curr = bl_curr lev, bl_snap = bl_snap lev, bl_next = fb\<rparr>)
       else Inr \<lparr>bl_curr = bl_curr lev, bl_snap = bl_snap lev, bl_next = x\<rparr>)
      = Inr \<lparr>bl_curr = bl_curr lev, bl_snap = bl_snap lev, bl_next = fb\<rparr>"
      "startedLevel h i lev \<lparr>bl_curr = bl_curr lev, bl_snap = bl_snap lev, bl_next = fb\<rparr>" by blast
  have p: "\<forall>n < length levels. bl_next (levels ! n) = clearFuture
      \<or> (\<exists>c s ss b. mergeOf h (keepDeadEntries (Suc i + n)) c s ss (bl_next (levels ! n)) b)"
    using Cons.prems(1) by fastforce
  from Cons.IH [OF p] Cons.prems(2) obtain bs mid levels' where
    r: "archiveState h levels = Inr bs" "futuresAllResolved bs" "assumeLevels getBucket bs = Inr mid"
      "restartFrom h getBucket (Suc i) mid = Inr levels'"
      "map (\<lambda>b. (hb_curr b, hb_snap b)) bs = map (\<lambda>l. (h (bl_curr l), h (bl_snap l))) levels"
      "length levels' = length levels" "\<forall>n < length levels. startedLevel h (Suc i + n) (levels ! n) (levels' ! n)"
    by auto
  have g: "getBucket (h (bl_curr lev)) = Some (bl_curr lev)" "getBucket (h (bl_snap lev)) = Some (bl_snap lev)"
    using Cons.prems(2) by (simp_all add: levelBuckets_def)
  let ?b = "\<lparr>hb_curr = h (bl_curr lev), hb_next = x, hb_snap = h (bl_snap lev)\<rparr>"
  let ?m = "\<lparr>bl_curr = bl_curr lev, bl_snap = bl_snap lev, bl_next = x\<rparr>"
  let ?l = "\<lparr>bl_curr = bl_curr lev, bl_snap = bl_snap lev, bl_next = fb\<rparr>"
  have "archiveState h (lev # levels) = Inr (?b # bs)" using x(1) r(1) by simp
  moreover have "futuresAllResolved (?b # bs)" using x(2) r(2) by (simp add: futuresAllResolved_def)
  moreover have "assumeLevels getBucket (?b # bs) = Inr (?m # mid)" using g r(3) by simp
  moreover have "restartFrom h getBucket i (?m # mid) = Inr (?l # levels')"
    using x(3) r(4) by (cases "makeLive h getBucket (keepDeadEntries i) x") (auto split: if_splits)
  moreover have "startedLevel h (i + n) ((lev # levels) ! n) ((?l # levels') ! n)" if "n < length (lev # levels)" for n
    using that x(4) r(7) by (cases n) auto
  ultimately show ?case using r(5,6) by (intro exI [of _ "?b # bs"] exI [of _ "?m # mid"] exI [of _ "?l # levels'"]) auto
qed (simp add: futuresAllResolved_def)

subsection \<open>Lists that agree up to the progress of their merges\<close>

lemma started_ok:
  assumes ok: "bucketListOk h L levels" and len: "length levels' = length levels"
    and st: "\<forall>n < length levels. startedLevel h n (levels ! n) (levels' ! n)"
  shows "bucketListOk h L levels'" "ledgerOf levels' = ledgerOf levels" "list_all2 (sameLevel h) levels levels'"
proof -
  have ok': "levelsOk h L 10 levels" using ok by (simp add: bucketListOk_def)
  note D = levelsOkD [OF ok']
  have st': "bl_curr (levels' ! n) = bl_curr (levels ! n)" "bl_snap (levels' ! n) = bl_snap (levels ! n)"
      "bl_next (levels ! n) = clearFuture \<Longrightarrow> bl_next (levels' ! n) = clearFuture"
      "mergeOf h (keepDeadEntries n) c s ss (bl_next (levels ! n)) b \<Longrightarrow> mergeOf h (keepDeadEntries n) c s ss (bl_next (levels' ! n)) b"
    if "n < 11" for n c s ss b
    using st that D(1) by (simp_all add: startedLevel_def)
  have eq: "allBuckets levels' = allBuckets levels"
  proof -
    have "map (\<lambda>l. [bl_curr l, bl_snap l]) levels' = map (\<lambda>l. [bl_curr l, bl_snap l]) levels"
      by (rule nth_equalityI) (use len D(1) st' in simp_all)
    then show ?thesis by (simp add: allBuckets_def)
  qed
  have nk: "newerKeys levels' j = newerKeys levels j" if "j < 11" for j
  proof -
    have "keysOf (bl_curr (levels' ! n)) \<union> keysOf (bl_snap (levels' ! n))
        = keysOf (bl_curr (levels ! n)) \<union> keysOf (bl_snap (levels ! n))" if "n \<in> {..<j}" for n
      using st'(1,2) [of n] that \<open>j < 11\<close> by simp
    then show ?thesis unfolding newerKeys_def using st'(1) [OF that] SUP_cong [OF refl] by (metis (no_types, lifting))
  qed
  have nx: "nextOk h L levels' j" if j: "j < 10" for j
  proof -
    have jl: "j < 11" "Suc j < 11" using j by simp_all
    show ?thesis using D(5) [OF j] st'(3,4) [OF jl(2)] unfolding nextOk_def st'(1,2) [OF jl(1)] st'(1,2) [OF jl(2)] nk [OF jl(1)]
      by blast
  qed
  show "bucketListOk h L levels'" unfolding bucketListOk_def levelsOk_def eq
    using D(1-4) len nx st'(2) [of 10] st'(3) [of 0] by auto
  show "ledgerOf levels' = ledgerOf levels" by (rule ext) (simp add: ledgerOf_def levelsLookup_def eq)
  show "list_all2 (sameLevel h) levels levels'"
  proof (rule list_all2_all_nthI)
    fix n
    assume n: "n < length levels"
    then have n11: "n < 11" using D(1) by simp
    have "bl_next (levels ! n) = clearFuture \<or> (\<exists>c s ss b. mergeOf h (keepDeadEntries n) c s ss (bl_next (levels ! n)) b)"
    proof (cases n)
      case 0
      then show ?thesis using D(4) by simp
    next
      case (Suc j)
      then show ?thesis using D(5) [of j] n11 unfolding nextOk_def by auto
    qed
    then show "sameLevel h (levels ! n) (levels' ! n)"
      unfolding sameLevel_def using st'(1-4) [OF n11] by metis
  qed (use len in simp)
qed






subsection \<open>The bucket lists of a node\<close>

text \<open>\<open>bucketLists h L l levels\<close>: after ledger \<open>L\<close> a node may hold \<open>levels\<close>, and \<open>l\<close> is the ledger the batches
  so far have made.\<close>

definition workerFinishes :: "nat \<Rightarrow> BucketLevel list \<Rightarrow> BucketLevel list" where
  "workerFinishes i levels = levels[i := (levels ! i)\<lparr>bl_next := (bl_next (levels ! i))\<lparr>fb_ready := True\<rparr>\<rparr>]"

inductive bucketLists :: "(Bucket \<Rightarrow> uint256) \<Rightarrow> nat \<Rightarrow> (LedgerKey \<Rightarrow> LedgerEntry option) \<Rightarrow> BucketLevel list \<Rightarrow> bool"
  for h where
  bl_start: "bucketLists h 0 Map.empty newBucketList"
| bl_batch: "\<lbrakk>bucketLists h L l levels; unat (c :: u32) = Suc L; distinct (map LedgerEntryKey live); distinct dead;
      addBatch h c live dead levels = Inr levels'\<rbrakk> \<Longrightarrow> bucketLists h (Suc L) (applyBatch live dead l) levels'"
| bl_worker: "\<lbrakk>bucketLists h L l levels; i < length levels; isMerging (bl_next (levels ! i))\<rbrakk>
      \<Longrightarrow> bucketLists h L l (workerFinishes i levels)"
| bl_restart: "\<lbrakk>bucketLists h L l levels; \<forall>lev \<in> set levels. findable h getBucket (levelBuckets lev);
      archiveState h levels = Inr bs; assumeState h getBucket bs = Inr levels'\<rbrakk> \<Longrightarrow> bucketLists h L l levels'"

lemma worker_started:
  assumes "i < length levels" "isMerging (bl_next (levels ! i))" "n < length levels"
  shows "startedLevel h n (levels ! n) (workerFinishes i levels ! n)"
proof (cases "n = i")
  case True
  have m: "mergeOf h kd c s ss (fb\<lparr>fb_ready := True\<rparr>) b" if "isMerging fb" "mergeOf h kd c s ss fb b" for kd c s ss fb b
    using that by (auto simp: mergeOf_def isMerging_def stateValid_def hashesMatch_def)
  have "bl_next (levels ! i) \<noteq> clearFuture" using assms(2) by auto
  then show ?thesis using True assms m by (auto simp: startedLevel_def workerFinishes_def)
next
  case False
  then show ?thesis by (simp add: startedLevel_def workerFinishes_def)
qed

lemma restart_ok:
  assumes ok: "bucketListOk h L levels" and k: "\<forall>lev \<in> set levels. findable h getBucket (levelBuckets lev)"
  shows "\<exists>bs levels'. archiveState h levels = Inr bs \<and> futuresAllResolved bs
    \<and> map (\<lambda>b. (hb_curr b, hb_snap b)) bs = map (\<lambda>l. (h (bl_curr l), h (bl_snap l))) levels
    \<and> assumeState h getBucket bs = Inr levels' \<and> length levels' = length levels
    \<and> (\<forall>n < length levels. startedLevel h n (levels ! n) (levels' ! n))"
proof -
  have ok': "levelsOk h L 10 levels" using ok by (simp add: bucketListOk_def)
  note D = levelsOkD [OF ok']
  have "\<forall>n < length levels. bl_next (levels ! n) = clearFuture
      \<or> (\<exists>c s ss b. mergeOf h (keepDeadEntries (0 + n)) c s ss (bl_next (levels ! n)) b)"
  proof (intro allI impI)
    fix n
    assume "n < length levels"
    then show "bl_next (levels ! n) = clearFuture
      \<or> (\<exists>c s ss b. mergeOf h (keepDeadEntries (0 + n)) c s ss (bl_next (levels ! n)) b)"
      using D(1,4) D(5) [of "n - 1"] by (cases n) (auto simp: nextOk_def)
  qed
  from restart_levels [OF this k] show ?thesis
    by (auto simp: assumeState_def restartMerges_def)
qed

lemma bucketLists_ok: "bucketLists h L l levels \<Longrightarrow> bucketListOk h L levels \<and> ledgerOf levels = l"
proof (induction rule: bucketLists.induct)
  case bl_start
  then show ?case using new_bucketListOk by blast
next
  case (bl_batch L l levels c live dead levels')
  then show ?case using addBatch_spec [of h L levels c live dead] by auto
next
  case (bl_worker L l levels i)
  have "length (workerFinishes i levels) = length levels" by (simp add: workerFinishes_def)
  then show ?case using started_ok [of h L levels "workerFinishes i levels"] worker_started bl_worker by blast
next
  case (bl_restart L l levels getBucket bs levels')
  from restart_ok [OF conjunct1 [OF bl_restart.IH] bl_restart.hyps(2)] bl_restart.hyps(3,4) have
    "length levels' = length levels" "\<forall>n < length levels. startedLevel h n (levels ! n) (levels' ! n)" by auto
  then show ?case using started_ok [of h L levels levels'] bl_restart.IH by blast
qed

text \<open>C12. The bucket list refines the ledger. Whatever bucket list a node holds, after any batches ledger by ledger,
  with merges finishing at any time and with restarts from the saved state in between: the newest entry the
  levels hold for a key, unless it marks an erased one, is the entry of the ledger made by the batches; and the
  next batch is always added without an assertion failing. So no entry is lost or revived by the merges
  running behind, the entries they leave out as shadowed, or the marks dropped at the last level.\<close>

theorem bucket_list_refines:
  assumes "bucketLists h L l levels"
  shows "ledgerOf levels k = l k
    \<and> (\<forall>c live dead. unat (c :: u32) = Suc L \<and> distinct (map LedgerEntryKey live) \<and> distinct dead
        \<longrightarrow> (\<exists>levels'. addBatch h c live dead levels = Inr levels'
              \<and> ledgerOf levels' k = (if k \<in> set dead then None
                  else case map_of (map (\<lambda>e. (LedgerEntryKey e, e)) live) k of Some e \<Rightarrow> Some e | None \<Rightarrow> l k)))"
proof -
  note ok = bucketLists_ok [OF assms]
  show ?thesis
  proof (intro conjI allI impI)
    show "ledgerOf levels k = l k" using ok by simp
  next
    fix c :: u32 and live and dead :: "LedgerKey list"
    assume a: "unat c = Suc L \<and> distinct (map LedgerEntryKey live) \<and> distinct dead"
    then obtain levels' where "addBatch h c live dead levels = Inr levels'"
      "ledgerOf levels' = applyBatch live dead (ledgerOf levels)"
      using addBatch_spec [OF conjunct1 [OF ok], of c live dead] by blast
    then show "\<exists>levels'. addBatch h c live dead levels = Inr levels'
              \<and> ledgerOf levels' k = (if k \<in> set dead then None
                  else case map_of (map (\<lambda>e. (LedgerEntryKey e, e)) live) k of Some e \<Rightarrow> Some e | None \<Rightarrow> l k)"
      using ok by (simp add: applyBatch_def)
  qed
qed

theorem bucket_list_refines_witness:
  "\<exists>levels. addBatch (\<lambda>_. 0) 1 [ex_entry 1 1, ex_entry 2 1] [] newBucketList = Inr levels
    \<and> ledgerOf levels (DataKey 2 []) = Some (ex_entry 2 1)"
proof -
  have k: "LedgerEntryKey (ex_entry a s) = DataKey a []" for a s
    by (simp add: ex_entry_def LedgerEntryKey_def)
  have "unat (1 :: u32) = Suc 0 \<and> distinct (map LedgerEntryKey [ex_entry 1 1, ex_entry 2 1]) \<and> distinct ([] :: LedgerKey list)"
    by (simp add: k)
  with bucket_list_refines [OF bl_start [of "\<lambda>_. 0"], of "DataKey 2 []"] obtain levels where
    "addBatch (\<lambda>_. 0) 1 [ex_entry 1 1, ex_entry 2 1] [] newBucketList = Inr levels"
    "ledgerOf levels (DataKey 2 []) = (if DataKey 2 [] \<in> set [] then None
       else case map_of (map (\<lambda>e. (LedgerEntryKey e, e)) [ex_entry 1 1, ex_entry 2 1]) (DataKey 2 []) of
         Some e \<Rightarrow> Some e | None \<Rightarrow> None)" by blast
  then show ?thesis by (simp add: k)
qed









end
