(* ===== verification/Bucket_Manager.thy ===== *)
theory Bucket_Manager
  imports Bucket_Restart "HOL-Library.AList"
begin

section \<open>The files of buckets (src/src/bucket/BucketManagerImpl.cpp, src/src/bucket/PublishQueueBuckets.cpp)\<close>

text \<open>
  A bucket's file is named by its hash and shared by whoever refers to the bucket. The manager keeps the buckets
  it has handed out and removes the files nobody needs: those referred to neither by the bucket list and its
  merges, nor by the state of the last closed ledger, nor by a state that waits to be published. A database
  table queues these states; how many of them refer to a bucket is counted in memory. The lock of the manager
  is left out, and so are the names of files.
\<close>

subsection \<open>The states to be published\<close>

definition stateBuckets :: "HistoryStateBucket list \<Rightarrow> uint256 list" where
  "stateBuckets bs = remdups (concat (map (\<lambda>b. hb_curr b # hb_snap b # getFutureHashes (hb_next b)) bs))"

type_synonym BucketCount = "(uint256 \<times> int) list"

definition addBucket :: "uint256 \<Rightarrow> BucketCount \<Rightarrow> BucketCount" where
  "addBucket b m = AList.update b ((case map_of m b of None \<Rightarrow> 0 | Some n \<Rightarrow> n) + 1) m"

definition removeBucket :: "uint256 \<Rightarrow> BucketCount \<Rightarrow> BucketCount" where
  "removeBucket b m = (case map_of m b of
     None \<Rightarrow> m
   | Some n \<Rightarrow> if n - 1 = 0 then AList.delete b m else AList.update b (n - 1) m)"

definition addBuckets :: "uint256 list \<Rightarrow> BucketCount \<Rightarrow> BucketCount" where
  "addBuckets bs m = fold addBucket bs m"

definition removeBuckets :: "uint256 list \<Rightarrow> BucketCount \<Rightarrow> BucketCount" where
  "removeBuckets bs m = fold removeBucket bs m"

record PublishQueue =
  pq_table :: "(nat \<times> HistoryStateBucket list) list"
  pq_buckets :: BucketCount
  pq_filled :: bool

definition loadBucketsReferencedByPublishQueue :: "PublishQueue \<Rightarrow> BucketCount" where
  "loadBucketsReferencedByPublishQueue pq = fold (\<lambda>(ledger, bs) m. fold addBucket (stateBuckets bs) m) (pq_table pq) []"

definition getBucketsReferencedByPublishQueue :: "PublishQueue \<Rightarrow> uint256 list \<times> PublishQueue" where
  "getBucketsReferencedByPublishQueue pq =
     (let pq' = if \<not> pq_filled pq then pq\<lparr>pq_buckets := loadBucketsReferencedByPublishQueue pq, pq_filled := True\<rparr> else pq
      in (map fst (pq_buckets pq'), pq'))"

text \<open>The ledger is the primary key of the table.\<close>

definition queueCurrentHistory :: "nat \<Rightarrow> HistoryStateBucket list \<Rightarrow> PublishQueue \<Rightarrow> cpp_error + PublishQueue" where
  "queueCurrentHistory ledger bs pq =
     (if ledger \<in> fst ` set (pq_table pq) then Inl (RuntimeError ''publishqueue'')
      else Inr (pq\<lparr>pq_table := pq_table pq @ [(ledger, bs)], pq_buckets := addBuckets (stateBuckets bs) (pq_buckets pq)\<rparr>))"

definition historyPublished :: "nat \<Rightarrow> uint256 list \<Rightarrow> bool \<Rightarrow> PublishQueue \<Rightarrow> PublishQueue" where
  "historyPublished ledgerSeq originalBuckets success pq =
     (if success
      then pq\<lparr>pq_table := filter (\<lambda>(l, bs). l \<noteq> ledgerSeq) (pq_table pq),
              pq_buckets := removeBuckets originalBuckets (pq_buckets pq)\<rparr>
      else pq)"

subsection \<open>Buckets and their files\<close>

record BucketStore =
  bs_shared :: "(uint256 \<times> Bucket) list"
  bs_files :: "(uint256 \<times> Bucket) list"

definition getBucketByHash :: "uint256 \<Rightarrow> BucketStore \<Rightarrow> Bucket option \<times> BucketStore" where
  "getBucketByHash hash st =
     (if hash = 0 then (Some [], st)
      else case map_of (bs_shared st) hash of
        Some b \<Rightarrow> (Some b, st)
      | None \<Rightarrow> (case map_of (bs_files st) hash of
          Some b \<Rightarrow> (Some b, st\<lparr>bs_shared := (hash, b) # bs_shared st\<rparr>)
        | None \<Rightarrow> (None, st)))"

definition adoptFileAsBucket :: "Bucket \<Rightarrow> uint256 \<Rightarrow> BucketStore \<Rightarrow> Bucket \<times> BucketStore" where
  "adoptFileAsBucket contents hash st = (case getBucketByHash hash st of
     (Some b, st') \<Rightarrow> (b, st')
   | (None, st') \<Rightarrow> (contents, st'\<lparr>bs_files := AList.update hash contents (bs_files st'),
                               bs_shared := (hash, contents) # bs_shared st'\<rparr>))"

definition getReferencedBuckets :: "(Bucket \<Rightarrow> uint256) \<Rightarrow> BucketLevel list \<Rightarrow> HistoryStateBucket list \<Rightarrow> uint256 list \<Rightarrow> uint256 set" where
  "getReferencedBuckets h levels lclHas pub =
     set (concat (map (\<lambda>lev. h (bl_curr lev) # h (bl_snap lev) # getFutureHashes (bl_next lev)) levels))
     \<union> set (stateBuckets lclHas) \<union> set pub"

definition cleanupStaleFiles :: "bool \<Rightarrow> uint256 set \<Rightarrow> BucketStore \<Rightarrow> BucketStore" where
  "cleanupStaleFiles disableGC referenced st =
     (if disableGC then st
      else st\<lparr>bs_files := filter (\<lambda>(x, b). x \<in> referenced \<union> fst ` set (bs_shared st)) (bs_files st)\<rparr>)"

text \<open>\<open>inUse\<close> tells of which buckets some thread holds a pointer besides the manager's own.\<close>

definition forgetUnreferencedBuckets :: "bool \<Rightarrow> (uint256 \<Rightarrow> bool) \<Rightarrow> uint256 set \<Rightarrow> BucketStore \<Rightarrow> BucketStore" where
  "forgetUnreferencedBuckets disableGC inUse referenced st =
     (let drop = \<lambda>x. x \<notin> referenced \<and> \<not> inUse x;
          dropped = filter (\<lambda>(x, b). drop x) (bs_shared st)
      in st\<lparr>bs_shared := filter (\<lambda>(x, b). \<not> drop x) (bs_shared st),
            bs_files := if disableGC then bs_files st else filter (\<lambda>(x, b). x \<notin> fst ` set dropped) (bs_files st)\<rparr>)"

definition checkForMissingBucketsFiles :: "HistoryStateBucket list \<Rightarrow> BucketStore \<Rightarrow> uint256 list" where
  "checkForMissingBucketsFiles bs st = filter (\<lambda>x. x \<noteq> 0 \<and> x \<notin> fst ` set (bs_files st)) (stateBuckets bs)"

subsection \<open>The counts of the publish queue\<close>

abbreviation countOf :: "BucketCount \<Rightarrow> uint256 \<Rightarrow> int" where
  "countOf m b \<equiv> case map_of m b of None \<Rightarrow> 0 | Some n \<Rightarrow> n"

definition countsOk :: "BucketCount \<Rightarrow> bool" where
  "countsOk m \<longleftrightarrow> distinct (map fst m) \<and> (\<forall>(b, n) \<in> set m. 0 < n)"

lemma countsOk_pos: "countsOk m \<Longrightarrow> map_of m b = Some n \<Longrightarrow> 0 < n"
  by (auto simp: countsOk_def dest: map_of_SomeD)

lemma countsOk_key: "countsOk m \<Longrightarrow> b \<in> fst ` set m \<longleftrightarrow> countOf m b \<noteq> 0"
  using countsOk_pos [of m b] map_of_eq_None_iff [of m b] by (cases "map_of m b") auto

lemma countsOk_update:
  assumes "countsOk m" "0 < n"
  shows "countsOk (AList.update b n m)"
proof -
  have "0 < k" if "(x, k) \<in> set (AList.update b n m)" for x k
  proof -
    have "map_of (AList.update b n m) x = Some k"
      using that assms(1) by (intro map_of_is_SomeI distinct_update) (auto simp: countsOk_def)
    then show ?thesis using assms countsOk_pos [OF assms(1)] by (auto simp: update_conv split: if_splits)
  qed
  then show ?thesis using assms(1) by (auto simp: countsOk_def intro: distinct_update)
qed

lemma addBucket_count:
  assumes "countsOk m"
  shows "countsOk (addBucket b m)" "countOf (addBucket b m) x = countOf m x + (if x = b then 1 else 0)"
proof -
  have "0 \<le> countOf m b" using countsOk_pos [OF assms, of b] by (auto split: option.split intro: less_imp_le)
  then show "countsOk (addBucket b m)" unfolding addBucket_def by (intro countsOk_update assms) simp
  show "countOf (addBucket b m) x = countOf m x + (if x = b then 1 else 0)"
    by (auto simp: addBucket_def update_conv)
qed

lemma removeBucket_count:
  assumes "countsOk m" "countOf m b \<noteq> 0"
  shows "countsOk (removeBucket b m)" "countOf (removeBucket b m) x = countOf m x - (if x = b then 1 else 0)"
proof -
  obtain n where n: "map_of m b = Some n" using assms(2) by (cases "map_of m b") auto
  have p: "0 < n" using countsOk_pos [OF assms(1) n] .
  have "countsOk (AList.delete b m)" using assms(1) by (auto simp: countsOk_def AList.delete_eq intro: distinct_map_filter)
  then show "countsOk (removeBucket b m)" using n p assms(1) by (auto simp: removeBucket_def intro: countsOk_update)
  show "countOf (removeBucket b m) x = countOf m x - (if x = b then 1 else 0)"
    using n p by (auto simp: removeBucket_def update_conv delete_conv)
qed

lemma addBuckets_count:
  assumes "countsOk m" "distinct bs"
  shows "countsOk (fold addBucket bs m) \<and> (\<forall>x. countOf (fold addBucket bs m) x = countOf m x + (if x \<in> set bs then 1 else 0))"
  using assms
proof (induction bs arbitrary: m)
  case (Cons b bs)
  from Cons.IH [OF addBucket_count(1) [OF Cons.prems(1)]] Cons.prems(2) show ?case
    using addBucket_count(2) [OF Cons.prems(1), of b] by auto
qed simp

lemma removeBuckets_count:
  assumes "countsOk m" "distinct bs" "\<forall>b \<in> set bs. countOf m b \<noteq> 0"
  shows "countsOk (fold removeBucket bs m)
    \<and> (\<forall>x. countOf (fold removeBucket bs m) x = countOf m x - (if x \<in> set bs then 1 else 0))"
  using assms
proof (induction bs arbitrary: m)
  case (Cons b bs)
  have b: "countOf m b \<noteq> 0" using Cons.prems(3) by simp
  note c = removeBucket_count [OF Cons.prems(1) b]
  have "\<forall>x \<in> set bs. countOf (removeBucket b m) x \<noteq> 0" using Cons.prems(2,3) unfolding c(2) by auto
  from Cons.IH [OF c(1) _ this] Cons.prems(2) show ?case using c(2) by auto
qed simp

definition queued :: "(nat \<times> HistoryStateBucket list) list \<Rightarrow> uint256 \<Rightarrow> int" where
  "queued table x = int (length (filter (\<lambda>(l, bs). x \<in> set (stateBuckets bs)) table))"

text \<open>Each count is the number of queued states that refer to the bucket.\<close>

definition publishQueueOk :: "PublishQueue \<Rightarrow> bool" where
  "publishQueueOk pq \<longleftrightarrow> distinct (map fst (pq_table pq))
     \<and> (pq_filled pq \<longrightarrow> countsOk (pq_buckets pq) \<and> (\<forall>x. countOf (pq_buckets pq) x = queued (pq_table pq) x))"

lemma load_counts:
  "countsOk m \<Longrightarrow> countsOk (fold (\<lambda>(ledger, bs) m. fold addBucket (stateBuckets bs) m) table m)
    \<and> (\<forall>x. countOf (fold (\<lambda>(ledger, bs) m. fold addBucket (stateBuckets bs) m) table m) x = countOf m x + queued table x)"
proof (induction table arbitrary: m)
  case (Cons y table)
  obtain l bs where y: "y = (l, bs)" by fastforce
  have d: "distinct (stateBuckets bs)" by (simp add: stateBuckets_def)
  from Cons.IH [OF conjunct1 [OF addBuckets_count [OF Cons.prems d]]] addBuckets_count [OF Cons.prems d]
  show ?case by (auto simp: y queued_def)
qed (simp add: queued_def)

lemma get_queue_ok:
  assumes "publishQueueOk pq" "getBucketsReferencedByPublishQueue pq = (bs, pq')"
  shows "publishQueueOk pq'" "pq_filled pq'" "pq_table pq' = pq_table pq"
    "set bs = (\<Union>(l, s) \<in> set (pq_table pq). set (stateBuckets s))"
proof -
  have e: "countsOk []" by (simp add: countsOk_def)
  have q: "pq' = (if \<not> pq_filled pq then pq\<lparr>pq_buckets := loadBucketsReferencedByPublishQueue pq, pq_filled := True\<rparr> else pq)"
    "bs = map fst (pq_buckets pq')"
    using assms(2) by (auto simp: getBucketsReferencedByPublishQueue_def Let_def)
  show f: "pq_filled pq'" "pq_table pq' = pq_table pq" using q(1) by auto
  show ok: "publishQueueOk pq'"
  proof (cases "pq_filled pq")
    case False
    then show ?thesis using q(1) assms(1) load_counts [OF e, of "pq_table pq"]
      by (simp add: publishQueueOk_def loadBucketsReferencedByPublishQueue_def)
  qed (use q(1) assms(1) in simp)
  have "x \<in> set bs \<longleftrightarrow> (\<exists>(l, s) \<in> set (pq_table pq). x \<in> set (stateBuckets s))" for x
  proof -
    have "x \<in> set bs \<longleftrightarrow> countOf (pq_buckets pq') x \<noteq> 0"
      using countsOk_key ok f(1) unfolding q(2) publishQueueOk_def by auto
    also have "\<dots> \<longleftrightarrow> queued (pq_table pq) x \<noteq> 0" using ok f unfolding publishQueueOk_def by simp
    also have "\<dots> \<longleftrightarrow> (\<exists>(l, s) \<in> set (pq_table pq). x \<in> set (stateBuckets s))"
      by (auto simp: queued_def filter_empty_conv)
    finally show ?thesis .
  qed
  then show "set bs = (\<Union>(l, s) \<in> set (pq_table pq). set (stateBuckets s))" by auto
qed

lemma queue_ok:
  assumes "publishQueueOk pq" "queueCurrentHistory ledger s pq = Inr pq'"
  shows "publishQueueOk pq'"
proof -
  have d: "distinct (stateBuckets s)" by (simp add: stateBuckets_def)
  have q: "ledger \<notin> fst ` set (pq_table pq)"
    "pq' = pq\<lparr>pq_table := pq_table pq @ [(ledger, s)], pq_buckets := addBuckets (stateBuckets s) (pq_buckets pq)\<rparr>"
    using assms(2) by (auto simp: queueCurrentHistory_def split: if_splits)
  show ?thesis using assms(1) q(1) addBuckets_count [OF _ d]
    by (auto simp: q(2) publishQueueOk_def addBuckets_def queued_def)
qed

lemma queued_remove:
  "\<lbrakk>distinct (map fst table); (l, s) \<in> set table\<rbrakk> \<Longrightarrow>
    queued (filter (\<lambda>(l', bs). l' \<noteq> l) table) x = queued table x - (if x \<in> set (stateBuckets s) then 1 else 0)"
proof (induction table)
  case (Cons y table)
  obtain l' s' where y: "y = (l', s')" by fastforce
  show ?case
  proof (cases "l' = l")
    case True
    then have "l \<notin> fst ` set table" using Cons.prems(1) y by simp
    then have "filter (\<lambda>(l', bs). l' \<noteq> l) table = table" "(l, s) \<notin> set table"
      by (auto simp: filter_id_conv image_iff)
    then show ?thesis using Cons.prems(2) True y by (auto simp: queued_def)
  next
    case False
    then show ?thesis using Cons y by (auto simp: queued_def)
  qed
qed simp

lemma published_ok:
  assumes "publishQueueOk pq" "(l, s) \<in> set (pq_table pq)"
  shows "publishQueueOk (historyPublished l (stateBuckets s) success pq)"
proof (cases success)
  case True
  have d: "distinct (stateBuckets s)" by (simp add: stateBuckets_def)
  have dt: "distinct (map fst (pq_table pq))" using assms(1) by (simp add: publishQueueOk_def)
  have dt': "distinct (map fst (filter (\<lambda>(l', bs). l' \<noteq> l) (pq_table pq)))" using dt by (rule distinct_map_filter)
  have nz: "queued (pq_table pq) b \<noteq> 0" if "b \<in> set (stateBuckets s)" for b
    using assms(2) that by (auto simp: queued_def filter_empty_conv)
  show ?thesis
  proof (cases "pq_filled pq")
    case filled: True
    then have c: "countsOk (pq_buckets pq)" "\<And>x. countOf (pq_buckets pq) x = queued (pq_table pq) x"
      using assms(1) by (auto simp: publishQueueOk_def)
    have "\<forall>b \<in> set (stateBuckets s). countOf (pq_buckets pq) b \<noteq> 0" using nz c(2) by auto
    from removeBuckets_count [OF c(1) d this] show ?thesis
      using True dt' queued_remove [OF dt assms(2)] c(2)
      by (simp add: historyPublished_def publishQueueOk_def removeBuckets_def)
  next
    case False
    then show ?thesis using True dt' by (simp add: historyPublished_def publishQueueOk_def)
  qed
qed (use assms(1) in \<open>simp add: historyPublished_def\<close>)

text \<open>The states of the publish queue over the runs of a node: it starts with whatever table it finds.\<close>

inductive publishQueues :: "PublishQueue \<Rightarrow> bool" where
  pq_start: "distinct (map fst table) \<Longrightarrow> publishQueues \<lparr>pq_table = table, pq_buckets = [], pq_filled = False\<rparr>"
| pq_asked: "\<lbrakk>publishQueues pq; getBucketsReferencedByPublishQueue pq = (bs, pq')\<rbrakk> \<Longrightarrow> publishQueues pq'"
| pq_queued: "\<lbrakk>publishQueues pq; queueCurrentHistory ledger s pq = Inr pq'\<rbrakk> \<Longrightarrow> publishQueues pq'"
| pq_published: "\<lbrakk>publishQueues pq; (l, s) \<in> set (pq_table pq)\<rbrakk>
    \<Longrightarrow> publishQueues (historyPublished l (stateBuckets s) success pq)"

lemma publishQueues_ok: "publishQueues pq \<Longrightarrow> publishQueueOk pq"
proof (induction rule: publishQueues.induct)
  case (pq_start table)
  then show ?case by (simp add: publishQueueOk_def)
next
  case (pq_asked pq bs pq')
  then show ?case using get_queue_ok(1) by blast
next
  case (pq_queued pq ledger s pq')
  then show ?case using queue_ok by blast
next
  case (pq_published pq l s success)
  then show ?case using published_ok by blast
qed

lemma publish_queue_referenced:
  assumes "publishQueues pq"
  shows "set (fst (getBucketsReferencedByPublishQueue pq)) = (\<Union>(l, s) \<in> set (pq_table pq). set (stateBuckets s))"
  using get_queue_ok(4) [OF publishQueues_ok [OF assms]] by (metis prod.collapse)

subsection \<open>Removing files\<close>

lemma map_of_filter_hash: "map_of (filter (\<lambda>(x, b). P x) m) y = (if P y then map_of m y else None)"
  by (induction m) auto

lemma gc_lookup:
  assumes "x \<in> referenced"
  shows "fst (getBucketByHash x (forgetUnreferencedBuckets d inUse referenced st)) = fst (getBucketByHash x st)"
    and "fst (getBucketByHash x (cleanupStaleFiles d referenced st)) = fst (getBucketByHash x st)"
  using assms
  by (auto simp: getBucketByHash_def forgetUnreferencedBuckets_def cleanupStaleFiles_def Let_def map_of_filter_hash
      split: option.split)

lemma futureBuckets_iff:
  "b \<in> set (futureBuckets fb) \<longleftrightarrow> fb_inputCurr fb = Some b \<or> fb_inputSnap fb = Some b \<or> b \<in> set (fb_inputShadows fb)
     \<or> fb_state fb = FB_LIVE_OUTPUT \<and> fb_output fb = Some (Inr b)"
proof -
  have o: "b \<in> set (case fb_output fb of Some (Inr b) \<Rightarrow> [b] | _ \<Rightarrow> []) \<longleftrightarrow> fb_output fb = Some (Inr b)"
  proof (cases "fb_output fb")
    case (Some r)
    then show ?thesis by (cases r) auto
  qed simp
  have p: "b \<in> set (case x of None \<Rightarrow> [] | Some b \<Rightarrow> [b]) \<longleftrightarrow> x = Some b" for x :: "Bucket option"
    by (cases x) auto
  show ?thesis
  proof (cases "fb_state fb = FB_LIVE_OUTPUT")
    case True
    then show ?thesis by (simp only: futureBuckets_def set_append Un_iff p o if_True simp_thms)
  next
    case False
    then show ?thesis by (simp only: futureBuckets_def set_append Un_iff p if_False simp_thms list.set empty_iff)
  qed
qed

text \<open>The hashes a level refers to are those of its buckets and of what its merge needs.\<close>

lemma referenced_level:
  assumes ok: "bucketListOk h L levels" and lev: "lev \<in> set levels" and b: "b \<in> set (levelBuckets lev)"
  shows "h b \<in> getReferencedBuckets h levels lclHas pub"
proof -
  note D = levelsOkD [OF ok [unfolded bucketListOk_def]]
  obtain n where n: "n < length levels" "lev = levels ! n" using lev by (auto simp: in_set_conv_nth)
  have nx: "bl_next lev = clearFuture \<or> (\<exists>kd c s ss b. mergeOf h kd c s ss (bl_next lev) b)"
    using D(1,4) D(5) [of "n - 1"] n by (cases n) (auto simp: nextOk_def)
  have "h b \<in> set (getFutureHashes (bl_next lev))" if f: "b \<in> set (futureBuckets (bl_next lev))"
  proof -
    have "futureBuckets clearFuture = []" by (simp add: futureBuckets_def clearFuture_def)
    then have "bl_next lev \<noteq> clearFuture" using f by auto
    then obtain kd c s ss r where m: "mergeOf h kd c s ss (bl_next lev) r" using nx by blast
    have hm: "fb_inputShadows (bl_next lev) = [] \<or> map h (fb_inputShadows (bl_next lev)) = fb_shadowHashes (bl_next lev)"
      "hashMatches h (fb_inputSnap (bl_next lev)) (fb_snapHash (bl_next lev))"
      "hashMatches h (fb_inputCurr (bl_next lev)) (fb_currHash (bl_next lev))"
      "fb_state (bl_next lev) = FB_LIVE_OUTPUT \<Longrightarrow> fb_output (bl_next lev) = Some (Inr r) \<and> fb_outputHash (bl_next lev) = Some (h r)"
      using m by (auto simp: mergeOf_def stateValid_def hashesMatch_def)
    from f consider "fb_inputCurr (bl_next lev) = Some b" | "fb_inputSnap (bl_next lev) = Some b"
      | "b \<in> set (fb_inputShadows (bl_next lev))"
      | "fb_state (bl_next lev) = FB_LIVE_OUTPUT" "fb_output (bl_next lev) = Some (Inr b)"
      unfolding futureBuckets_iff by blast
    then show ?thesis
    proof cases
      case 1
      then show ?thesis using hm(3) by (simp add: hashMatches_def getFutureHashes_def)
    next
      case 2
      then show ?thesis using hm(2) by (simp add: hashMatches_def getFutureHashes_def)
    next
      case 3
      then have "map h (fb_inputShadows (bl_next lev)) = fb_shadowHashes (bl_next lev)" using hm(1) by auto
      then have "h b \<in> set (fb_shadowHashes (bl_next lev))" using 3 by (metis image_eqI set_map)
      then show ?thesis by (simp add: getFutureHashes_def)
    next
      case 4
      then show ?thesis using hm(4) by (simp add: getFutureHashes_def)
    qed
  qed
  then show ?thesis using lev b by (auto simp: getReferencedBuckets_def levelBuckets_def)
qed

text \<open>Removing files never costs a restart. Whatever bucket list the node holds, whatever state it has last
  closed and whatever the publish queue has gone through: forgetting unreferenced buckets and removing stale
  files leave every bucket that the list or a merge running for it needs, every bucket of the last closed
  state and every bucket of a state in the publish queue as it was found before by its hash. With the
  collection enabled, a bucket that none of these refers to and nobody holds is gone.\<close>

theorem gc_keeps_needed:
  assumes "bucketLists h L l levels" and "publishQueues pq"
    and "referenced = getReferencedBuckets h levels lclHas (fst (getBucketsReferencedByPublishQueue pq))"
    and "st' = cleanupStaleFiles disableGC referenced (forgetUnreferencedBuckets disableGC inUse referenced st)"
  shows "(\<forall>lev \<in> set levels. \<forall>b \<in> set (levelBuckets lev). fst (getBucketByHash (h b) st') = fst (getBucketByHash (h b) st))
    \<and> (\<forall>x \<in> set (stateBuckets lclHas). fst (getBucketByHash x st') = fst (getBucketByHash x st))
    \<and> (\<forall>(ledger, s) \<in> set (pq_table pq). \<forall>x \<in> set (stateBuckets s). fst (getBucketByHash x st') = fst (getBucketByHash x st))
    \<and> (\<forall>x. \<not> disableGC \<and> x \<noteq> 0 \<and> x \<notin> referenced \<and> \<not> inUse x \<longrightarrow> fst (getBucketByHash x st') = None)"
proof -
  have keep: "fst (getBucketByHash x st') = fst (getBucketByHash x st)" if "x \<in> referenced" for x
    unfolding assms(4) gc_lookup [OF that] ..
  have lev: "h b \<in> referenced" if "lev \<in> set levels" "b \<in> set (levelBuckets lev)" for lev b
    unfolding assms(3) by (rule referenced_level [OF conjunct1 [OF bucketLists_ok [OF assms(1)]] that])
  have lcl: "x \<in> referenced" if "x \<in> set (stateBuckets lclHas)" for x
    using that by (simp add: assms(3) getReferencedBuckets_def)
  have pub: "x \<in> referenced" if "(ledger, s) \<in> set (pq_table pq)" "x \<in> set (stateBuckets s)" for ledger s x
    using that unfolding assms(3) getReferencedBuckets_def publish_queue_referenced [OF assms(2)] by auto
  have gone: "fst (getBucketByHash x st') = None"
    if x: "\<not> disableGC" "x \<noteq> 0" "x \<notin> referenced" "\<not> inUse x" for x
  proof -
    let ?m = "forgetUnreferencedBuckets disableGC inUse referenced st"
    have sh: "x \<notin> fst ` set (bs_shared ?m)" using x by (auto simp: forgetUnreferencedBuckets_def Let_def)
    then have s: "map_of (bs_shared ?m) x = None" by (simp add: map_of_eq_None_iff)
    have "map_of (filter (\<lambda>(y, b). y \<in> referenced \<union> fst ` set (bs_shared ?m)) (bs_files ?m)) x = None"
      unfolding map_of_filter_hash using x(3) sh by simp
    then show ?thesis using x(1,2) s by (simp add: assms(4) cleanupStaleFiles_def getBucketByHash_def)
  qed
  show ?thesis using keep lev lcl pub gone by blast
qed

theorem gc_keeps_needed_witness:
  "fst (getBucketByHash 7 (cleanupStaleFiles False
     (getReferencedBuckets (\<lambda>_. 7) newBucketList [] (fst (getBucketsReferencedByPublishQueue \<lparr>pq_table = [], pq_buckets = [], pq_filled = False\<rparr>)))
     (forgetUnreferencedBuckets False (\<lambda>_. False)
       (getReferencedBuckets (\<lambda>_. 7) newBucketList [] (fst (getBucketsReferencedByPublishQueue \<lparr>pq_table = [], pq_buckets = [], pq_filled = False\<rparr>)))
       \<lparr>bs_shared = [], bs_files = [(7, []), (8, [])]\<rparr>))) = Some []"
proof -
  have p: "publishQueues \<lparr>pq_table = [], pq_buckets = [], pq_filled = False\<rparr>" by (rule pq_start) simp
  have lev: "newLevel \<in> set newBucketList" "[] \<in> set (levelBuckets newLevel)"
    by (simp_all add: newBucketList_def kNumLevels_def levelBuckets_def newLevel_def)
  have l: "fst (getBucketByHash 7 \<lparr>bs_shared = [], bs_files = [(7, []), (8, [])]\<rparr>) = Some []"
    by (simp add: getBucketByHash_def)
  show ?thesis
    using gc_keeps_needed [OF bl_start p refl refl, where h = "\<lambda>_. 7" and lclHas = "[]" and disableGC = False and inUse = "\<lambda>_. False" and st = "\<lparr>bs_shared = [], bs_files = [(7, []), (8, [])]\<rparr>"]
      lev l by metis
qed

end
