(* ===== verification/Bucket_Apply.thy ===== *)
theory Bucket_Apply
  imports Bucket_Restart
begin

section \<open>Applying buckets to the database (src/src/bucket/BucketApplicator.cpp)\<close>

text \<open>
  A node that catches up to the state of a ledger, without replaying what came before, writes the buckets of
  that state to its database, from the oldest to the newest, in chunks. The database is the map from keys to
  entries. The choice of the levels that have to be written and the rows that are deleted before
  (\<^verbatim>\<open>ApplyBucketsWork.cpp\<close>) are left out: the theorem is for a database that starts empty.
\<close>

type_synonym Database = "LedgerKey \<Rightarrow> LedgerEntry option"

subsection \<open>The applicator\<close>

record BucketApplicator =
  ba_iter :: Bucket
  ba_count :: nat

definition newApplicator :: "Bucket \<Rightarrow> BucketApplicator" where
  "newApplicator b = \<lparr>ba_iter = b, ba_count = 0\<rparr>"

definition applicatorActive :: "BucketApplicator \<Rightarrow> bool" where
  "applicatorActive a \<longleftrightarrow> ba_iter a \<noteq> []"

definition applyEntry :: "BucketEntry \<Rightarrow> Database \<Rightarrow> Database" where
  "applyEntry e db = (case e of
     LIVEENTRY le \<Rightarrow> db(LedgerEntryKey le \<mapsto> le)
   | DEADENTRY k \<Rightarrow> (case db k of Some _ \<Rightarrow> db(k := None) | None \<Rightarrow> db))"

text \<open>The loop leaves after 255 entries, without moving the iterator on from the last of them.\<close>

fun advanceLoop :: "Bucket \<Rightarrow> nat \<Rightarrow> Database \<Rightarrow> Bucket \<times> nat \<times> Database" where
  "advanceLoop [] cnt db = ([], cnt, db)"
| "advanceLoop (e # es) cnt db =
     (let db' = applyEntry e db in
      if (cnt + 1) AND 0xff = 0xff then (e # es, cnt + 1, db')
      else advanceLoop es (cnt + 1) db')"

definition advanceApplicator :: "BucketApplicator \<Rightarrow> Database \<Rightarrow> nat \<times> BucketApplicator \<times> Database" where
  "advanceApplicator a db = (case advanceLoop (ba_iter a) 0 db of
     (it, cnt, db') \<Rightarrow> (cnt, a\<lparr>ba_iter := it, ba_count := ba_count a + cnt\<rparr>, db'))"

lemma advanceLoop_length: "length (fst (advanceLoop es cnt db)) \<le> length es"
  by (induction es cnt db rule: advanceLoop.induct) (auto simp: Let_def)

lemma advanceApplicator_shorter:
  assumes "applicatorActive a"
  shows "length (ba_iter (fst (snd (advanceApplicator a db)))) < length (ba_iter a)"
proof -
  from assms obtain e es where e: "ba_iter a = e # es" by (cases "ba_iter a") (auto simp: applicatorActive_def)
  have "\<not> (0 + 1 :: nat) AND 0xff = 0xff" by simp
  then have "advanceLoop (ba_iter a) 0 db = advanceLoop es (0 + 1) (applyEntry e db)"
    unfolding e advanceLoop.simps Let_def by (simp only: if_False)
  with advanceLoop_length [of es "0 + 1" "applyEntry e db"] show ?thesis
    by (simp add: advanceApplicator_def e case_prod_beta)
qed

text \<open>\<^verbatim>\<open>Bucket::apply\<close>: the applicator is advanced until the bucket is at its end.\<close>

function applyLoop :: "BucketApplicator \<Rightarrow> Database \<Rightarrow> BucketApplicator \<times> Database" where
  "applyLoop a db =
     (if applicatorActive a then applyLoop (fst (snd (advanceApplicator a db))) (snd (snd (advanceApplicator a db)))
      else (a, db))"
  by pat_completeness auto

termination
  by (relation "measure (\<lambda>(a, db). length (ba_iter a))") (simp_all add: advanceApplicator_shorter case_prod_beta)

declare applyLoop.simps [simp del]

definition Bucket_apply :: "Bucket \<Rightarrow> Database \<Rightarrow> Database" where
  "Bucket_apply b db = snd (applyLoop (newApplicator b) db)"

subsection \<open>What applying computes\<close>

text \<open>An entry that is applied twice in a row, as the last one of a chunk is, makes no difference.\<close>

lemma applyEntry_at: "applyEntry e db k = (if k = entryId e then liveOf (Some e) else db k)"
  by (auto simp: applyEntry_def entryId_def liveOf_def split: BucketEntry.split option.split)

lemma applyEntry_twice: "applyEntry e (applyEntry e db) = applyEntry e db"
  by (rule ext) (simp add: applyEntry_at)

lemma advanceLoop_rest:
  "fold applyEntry (fst (advanceLoop es cnt db)) (snd (snd (advanceLoop es cnt db))) = fold applyEntry es db"
  by (induction es cnt db rule: advanceLoop.induct) (simp_all add: Let_def applyEntry_twice)

lemma applyLoop_fold: "snd (applyLoop a db) = fold applyEntry (ba_iter a) db"
proof (induction a db rule: applyLoop.induct)
  case (1 a db)
  show ?case
  proof (cases "applicatorActive a")
    case True
    have "fold applyEntry (ba_iter (fst (snd (advanceApplicator a db)))) (snd (snd (advanceApplicator a db)))
        = fold applyEntry (ba_iter a) db"
      using advanceLoop_rest [of "ba_iter a" 0 db] by (simp add: advanceApplicator_def case_prod_beta)
    with 1 True show ?thesis by (simp add: applyLoop.simps [of a db])
  next
    case False
    then show ?thesis by (simp add: applyLoop.simps [of a db] applicatorActive_def)
  qed
qed

lemma Bucket_apply_at:
  assumes "sortedBucket b"
  shows "Bucket_apply b db k = (if lookupBucket b k = None then db k else liveOf (lookupBucket b k))"
proof -
  have "fold applyEntry b db k = (if lookupBucket b k = None then db k else liveOf (lookupBucket b k))"
    using assms
  proof (induction b arbitrary: db)
    case (Cons e b)
    then have "entryId e \<notin> keysOf b" by auto
    with Cons show ?case using lookupBucket_None [of b "entryId e"] by (auto simp: applyEntry_at)
  qed simp
  then show ?thesis by (simp add: Bucket_apply_def applyLoop_fold newApplicator_def)
qed

lemma Bucket_apply_all:
  "list_all sortedBucket bs \<Longrightarrow> fold Bucket_apply (rev bs) db k
     = (if lookupBucket (concat bs) k = None then db k else liveOf (lookupBucket (concat bs) k))"
proof (induction bs)
  case (Cons b bs)
  then show ?case by (auto simp: Bucket_apply_at lookupBucket_append split: option.split)
qed simp

text \<open>Writing the buckets of a list to an empty database, from the oldest level to the newest and in each level
  the snapshot before the current bucket, makes the ledger that the batches made, whatever merges are still
  running; each bucket is written to its end, although the last entry of every chunk is written twice.\<close>

theorem apply_buckets_rebuild:
  assumes "bucketLists h L l levels"
  shows "fold Bucket_apply (rev (allBuckets levels)) Map.empty = l"
proof -
  note ok = bucketLists_ok [OF assms]
  then have "list_all sortedBucket (allBuckets levels)" by (simp add: bucketListOk_def levelsOk_def)
  then have "fold Bucket_apply (rev (allBuckets levels)) Map.empty = ledgerOf levels"
    by (intro ext) (auto simp: Bucket_apply_all ledgerOf_def levelsLookup_def liveOf_def)
  with ok show ?thesis by simp
qed

end
