(* ===== verification/Spec2Isabelle.thy ===== *)
theory Spec2Isabelle
  imports Conservation_Transactions Tx_Set Upgrades_Liabilities Ledger_Manager SCP_Front Ledger_Txn_Offers Ledger_Txn_Votes
    Bucket_Manager Bucket_Apply
begin

text \<open>
  Verification of the ledger and the consensus core of zagg-core.

  The program. zagg-core is a node of a replicated ledger, a fork of stellar-core in C++. Nodes agree
  on sets of transactions with the Stellar consensus protocol (\<^verbatim>\<open>src/src/scp\<close>); the ledger manager
  applies the agreed set to the ledger (\<^verbatim>\<open>src/src/ledger\<close>, \<^verbatim>\<open>src/src/transactions\<close>). A transaction
  is a list of operations that move lumens and issued assets between accounts, some of them through
  the order book. This development models those two halves: what a transaction does to the ledger, and
  how a node comes to agree with the others, in the two protocols of a slot; and the bucket list, the
  structure by which the ledger is hashed and exchanged between nodes.

  Theories and code, in the order they build on each other:
  \<^item> \<open>Prelude\<close>: C++ integers, the outcome of a call that may throw, floor and ceiling division.
  \<^item> \<open>Numeric\<close>: \<^verbatim>\<open>util/numeric.cpp\<close>. \<open>Ledger_Types\<close>: the XDR types of the ledger and
    \<^verbatim>\<open>util/types.cpp\<close>. \<open>Exchange\<close>: the arithmetic of \<^verbatim>\<open>transactions/OfferExchange.cpp\<close>.
  \<^item> \<open>Ledger_State\<close>: what a \<^verbatim>\<open>LedgerTxn\<close> shows to an operation, one header and the entries by key.
    \<open>Balances\<close>, \<open>Trust_Lines\<close>: \<^verbatim>\<open>TransactionUtils.cpp\<close> and \<^verbatim>\<open>TrustLineWrapper.cpp\<close>.
    \<open>Offer_Order\<close>: the order of the book. \<open>Offer_Crossing\<close>: \<^verbatim>\<open>crossOffer\<close>, \<^verbatim>\<open>crossOfferV10\<close> and
    \<^verbatim>\<open>convertWithOffers\<close>.
  \<^item> \<open>Ledger_Txn\<close>, \<open>Ledger_Txn_Offers\<close>, \<open>Ledger_Txn_Votes\<close>: \<^verbatim>\<open>ledger/LedgerTxn.cpp\<close>, the stack of nested
    transactions over the database that presents the flat ledger to the operations.
  \<^item> \<open>Signatures\<close>: \<^verbatim>\<open>SignatureUtils.cpp\<close> and \<^verbatim>\<open>SignatureChecker.cpp\<close>. \<open>Str_Key\<close>: base 32, the
    checksum and \<^verbatim>\<open>crypto/StrKey.cpp\<close>.
  \<^item> \<open>Operation_Types\<close>, \<open>Account_Ops\<close>, \<open>Settings_Ops\<close>, \<open>Payment_Ops\<close>, \<open>Offer_Ops\<close>: the thirteen operation
    frames. \<open>Operations\<close>: \<^verbatim>\<open>OperationFrame.cpp\<close>. \<open>Transactions\<close>: \<^verbatim>\<open>TransactionFrame.cpp\<close>.
  \<^item> \<open>Lumens\<close>, \<open>Crossing_Lumens\<close>, \<open>Conservation\<close>, \<open>Conservation_Trades\<close>, \<open>Conservation_Transactions\<close>: what
    every step does to the lumens and to the well-formedness of the ledger, up to whole transactions.
  \<^item> \<open>Tx_Set\<close>: \<^verbatim>\<open>herder/TxSetFrame.cpp\<close>, the sets of transactions that nodes agree on.
    \<open>Upgrades\<close>, \<open>Upgrades_Liabilities\<close>: \<^verbatim>\<open>herder/Upgrades.cpp\<close>, network upgrades and the recomputing of
    offers and liabilities that goes with them. \<open>Ledger_Close\<close>, \<open>Ledger_Chain\<close>:
    \<^verbatim>\<open>ledger/LedgerManagerImpl.cpp\<close>, the closing of a ledger and the chain of ledgers from genesis.
  \<^item> \<open>Catchup_Range\<close>, \<open>Verify_Chain\<close>, \<open>Replay_Chain\<close>: \<^verbatim>\<open>src/src/catchup\<close>, what a node that fell behind
    fetches from an archive, how it verifies the headers and replays the transactions.
    \<open>Ledger_Manager\<close>: the states of the ledger manager, with the ledgers that it buffers meanwhile.
  \<^item> \<open>Bucket\<close>, \<open>Bucket_List\<close>, \<open>Bucket_Levels\<close>, \<open>Bucket_Restart\<close>: \<^verbatim>\<open>src/src/bucket\<close>, the sorted buckets
    and their merging, the levels with the merges that run behind, the invariant of a list, and its saving
    and restarting. \<open>Bucket_Manager\<close>: which files are kept. \<open>Bucket_Apply\<close>: writing buckets to the database.
  \<^item> \<open>Quorum\<close>, \<open>Quorum_Sets\<close>: \<^verbatim>\<open>scp/LocalNode.cpp\<close> and \<^verbatim>\<open>scp/QuorumSetUtils.cpp\<close>. \<open>SCP_Statements\<close>,
    \<open>Ballot\<close>, \<open>Ballot_Safety\<close>, \<open>Ballot_Runs\<close>: \<^verbatim>\<open>scp/BallotProtocol.cpp\<close> with what it calls of
    \<^verbatim>\<open>Slot.cpp\<close>, its transitions as a step relation, and the invariants of its runs.
  \<^item> \<open>Nomination\<close>, \<open>Nomination_Safety\<close>, \<open>Round_Leaders\<close>: \<^verbatim>\<open>scp/NominationProtocol.cpp\<close>, its invariants and the
    choice of leaders. \<open>Slots\<close>, \<open>Nomination_Runs\<close>, \<open>SCP_Front\<close>: \<^verbatim>\<open>Slot.cpp\<close>, \<^verbatim>\<open>SCP.cpp\<close> and the hashes of
    \<^verbatim>\<open>SCPDriver.cpp\<close>, the runs of a slot with both protocols, and the slots that a node holds.

  Conventions. A 64- or 32-bit signed integer is an \<open>int\<close> with its wrap-around or its range check
  written out where the code could leave the range; counters, flags and hashes are words. A function
  that may throw or fail an assertion returns \<open>cpp_error + result\<close>; a C++ \<^verbatim>\<open>bool\<close> result with an
  error code is an optional code or a pair. State is passed explicitly: an operation takes a ledger
  and returns one, and what the code rolls back is dropped. Ordered maps and sets are association
  lists and lists in key order.

  Bounds. \<^verbatim>\<open>convertWithOffers\<close> is given one unit of fuel more than there are offers, and theorem
  \<open>convertWithOffers_terminates\<close> shows that it never runs out, since the loop goes on only after it
  erased an offer. The verification of headers is given one run per checkpoint, which theorem
  \<open>verifyLedgers_terminates\<close> shows to be enough; the replay takes its fuel as an argument, and lemma
  \<open>runApply_enough\<close> shows how much is. The recursion of the ballot protocol through the slot is bounded as the code bounds
  it (\<^verbatim>\<open>MAX_ADVANCE_SLOT_RECURSION\<close>); theorem \<open>ballot_terminates\<close> shows that the fuel is enough. The code sets
  no bound on the recursion of the nomination protocol: its depth is an argument, and theorem
  \<open>nomination_terminates\<close> shows that some depth is always enough and that the result does not depend on it.

  What the lemmas show. The exchange never disfavours the party whose offer stays; crossing an offer
  never throws on a well-formed ledger; the conversion loop ends and accounts for every claim;
  liabilities acquired are released again; every operation keeps the ledger well formed and conserves
  lumens; a transaction that fails leaves nothing but the next sequence number of its source and the
  loss of the signers that pre-authorised it; and only pre-authorised transactions are ever applied, because
  the signature check of this fork verifies nothing. Quorum functions are equivalent to their
  set-theoretic specifications; once a node accepted a commit its value never changes; it
  externalises at most once, and only with a quorum behind it. Nomination keeps its candidates among the values
  that it found valid and that a quorum accepted, never refuses its own statement, and leaves the
  guarantees of the ballot protocol untouched. Surge pricing keeps the best paying
  accounts, and what trimming leaves of a set is valid, as far as the Bitcoin nodes answer alike. From
  genesis on, over any sequence of closed ledgers, the
  coins that exist are those of the accounts and of the fee pool, the ledgers before protocol 10 being
  without transactions, and every header names the hash of the one before it. The bucket list always
  holds the ledger that its batches made, whatever its merges leave out and whenever they finish; a
  restart changes none of its hashes, and no file that a restart needs is removed. A node that catches up from an archive ends at the ledger that consensus vouched
  for, whatever the archive holds, or fails; the ledger manager gets from losing sync back to it without
  failing an assertion as long as the network's ledgers have no gaps at the wrong moment, and the lemmas
  show what happens otherwise.

  Not modelled. The SQL of the database and the entry cache of \<^verbatim>\<open>LedgerTxnRoot\<close>; the account
  cache of the protocols before 8; the files behind the buckets; the bucket list is an argument of
  the closing of a ledger and modelled on its own; the downloading and publishing of history, the network, the herder and the command line.
  Cryptography is a parameter: the signature scheme and the hash of a transaction or of a header are
  arguments. The Bitcoin node that \<^verbatim>\<open>MarkAccount\<close> talks to is a parameter as well: its answers
  in one pass of checking or applying, one for each marker, although the calls change its pool; theorem
  \<open>trimInvalid_valid\<close>, which compares two passes, states what it needs of the two. Metrics, logging
  and transaction metadata are left out.
\<close>

end
